(* ===== verification/Prelude.thy ===== *)
theory Prelude
  imports Main "HOL-Library.Word"
begin

text \<open>
  The shared ground of the development: names for Rust's machine integers, results with an
  error value and their sequencing, little-endian byte strings, and the lemma collections the
  component theories add to.

  Rust integers are words of their width. An unsigned integer is read with \<open>unat\<close>, a signed
  one (\<open>i32\<close>, \<open>i64\<close>) with \<open>sint\<close>. A \<open>usize\<close> that counts the elements of a
  container is a \<open>nat\<close>. A fallible function returns a sum, \<open>Inl\<close> the error.
\<close>

unbundle bit_operations_syntax

type_synonym u8 = "8 word"
type_synonym u16 = "16 word"
type_synonym u32 = "32 word"
type_synonym u64 = "64 word"
type_synonym i32 = "32 word"
type_synonym i64 = "64 word"
type_synonym bytes = "u8 list"

named_theorems res_simps \<open>evaluation of results\<close>
named_theorems byte_simps \<open>little-endian byte strings\<close>

section \<open>Results\<close>

text \<open>\<open>res_bind\<close> is the \<open>?\<close> operator: an error ends the computation.\<close>

fun res_bind :: "'e + 'a \<Rightarrow> ('a \<Rightarrow> 'e + 'b) \<Rightarrow> 'e + 'b" where
  "res_bind (Inl e) f = Inl e"
| "res_bind (Inr x) f = f x"

text \<open>\<open>res_all P r\<close>: whenever \<open>r\<close> is a success, its value satisfies \<open>P\<close>.\<close>

definition res_all :: "('a \<Rightarrow> bool) \<Rightarrow> 'e + 'a \<Rightarrow> bool" where
  "res_all P r = (case r of Inl e \<Rightarrow> True | Inr x \<Rightarrow> P x)"

lemma res_all_simps [simp, res_simps]:
  "res_all P (Inl e) = True"
  "res_all P (Inr x) = P x"
  by (simp_all add: res_all_def)

lemma res_bind_eq_Inr [res_simps]:
  "res_bind r f = Inr y \<longleftrightarrow> (\<exists>x. r = Inr x \<and> f x = Inr y)"
  by (cases r) auto

lemma res_bind_eq_Inl [res_simps]:
  "res_bind r f = Inl e \<longleftrightarrow> r = Inl e \<or> (\<exists>x. r = Inr x \<and> f x = Inl e)"
  by (cases r) auto

lemma res_all_bind:
  "res_all (\<lambda>x. res_all Q (f x)) r \<Longrightarrow> res_all Q (res_bind r f)"
  by (cases r) auto

lemma res_all_if:
  "(b \<Longrightarrow> res_all P x) \<Longrightarrow> (\<not> b \<Longrightarrow> res_all P y) \<Longrightarrow> res_all P (if b then x else y)"
  by simp

lemma res_all_mono: "res_all P r \<Longrightarrow> (\<And>x. P x \<Longrightarrow> Q x) \<Longrightarrow> res_all Q r"
  by (cases r) auto

lemma res_allI: "(\<And>x. r = Inr x \<Longrightarrow> P x) \<Longrightarrow> res_all P r"
  by (cases r) auto

lemma res_allD: "res_all P r \<Longrightarrow> r = Inr x \<Longrightarrow> P x"
  by simp

section \<open>Little-endian byte strings\<close>

text \<open>
  \<open>nat_bytes n v\<close> is the \<open>n\<close>-byte little-endian string of \<open>v\<close>; \<open>le_nat bs\<close> the
  number a string stands for. They are Rust's \<open>to_le_bytes\<close> and \<open>from_le_bytes\<close> on every
  width.
\<close>

fun nat_bytes :: "nat \<Rightarrow> nat \<Rightarrow> bytes" where
  "nat_bytes 0 v = []"
| "nat_bytes (Suc n) v = of_nat (v mod 256) # nat_bytes n (v div 256)"

fun le_nat :: "bytes \<Rightarrow> nat" where
  "le_nat [] = 0"
| "le_nat (b # bs) = unat b + 256 * le_nat bs"

definition to_le_bytes :: "'a::len word \<Rightarrow> bytes" where
  "to_le_bytes w = nat_bytes (LENGTH('a) div 8) (unat w)"

definition from_le_bytes :: "bytes \<Rightarrow> 'a::len word" where
  "from_le_bytes bs = of_nat (le_nat bs)"

lemma pow256: "8 dvd k \<Longrightarrow> (256::nat) ^ (k div 8) = 2 ^ k"
  using power_mult [of "2::nat" 8 "k div 8"] by simp

lemma length_nat_bytes [simp]: "length (nat_bytes n v) = n"
  by (induction n arbitrary: v) auto

lemma unat_u8_of_mod [simp]: "unat (of_nat (v mod 256) :: u8) = v mod 256"
  by (simp add: unat_of_nat)

lemma unat_less_pow: "unat (w :: 'a::len word) < 2 ^ LENGTH('a)"
  by (rule unsigned_less)

lemma unat_of_nat_id: "n < 2 ^ LENGTH('a) \<Longrightarrow> unat (of_nat n :: 'a::len word) = n"
  by (simp add: unat_of_nat)

lemma unat_ucast: "unat (ucast (w :: 'a::len word) :: 'b::len word) = unat w mod 2 ^ LENGTH('b)"
  by (simp add: unsigned_ucast_eq take_bit_eq_mod)

text \<open>Narrowing a word that fits and widening it again, and the converse.\<close>

lemma ucast_narrow_widen:
  assumes "unat (w :: 'a::len word) < 2 ^ LENGTH('b)"
  shows "ucast (ucast w :: 'b::len word) = w"
proof -
  have "unat (ucast (ucast w :: 'b word) :: 'a word) = unat w"
    using assms by (simp add: unat_ucast)
  then show ?thesis by (simp add: word_unat_eq_iff)
qed

lemma ucast_widen_narrow:
  assumes "LENGTH('a) \<le> LENGTH('b)"
  shows "ucast (ucast (w :: 'a::len word) :: 'b::len word) = w"
proof -
  have "unat w < 2 ^ LENGTH('b)"
    using unat_less_pow [of w] power_increasing [of "LENGTH('a)" "LENGTH('b)" "2::nat"] assms
    by linarith
  then have "unat (ucast (ucast w :: 'b word) :: 'a word) = unat w"
    by (simp add: unat_ucast)
  then show ?thesis by (simp add: word_unat_eq_iff)
qed

lemma unat_ucast_widen:
  assumes "LENGTH('a) \<le> LENGTH('b)"
  shows "unat (ucast (w :: 'a::len word) :: 'b::len word) = unat w"
proof -
  have "unat w < 2 ^ LENGTH('b)"
    using unat_less_pow [of w] power_increasing [of "LENGTH('a)" "LENGTH('b)" "2::nat"] assms
    by linarith
  then show ?thesis by (simp add: unat_ucast)
qed

lemma unat_u8_less [simp]: "unat (b :: u8) < 256"
  using unat_less_pow [of b] by simp

lemma unat_u8_le: "unat (b :: u8) \<le> 255"
  using unat_u8_less [of b] by linarith

lemma le_nat_nat_bytes [byte_simps]: "le_nat (nat_bytes n v) = v mod 256 ^ n"
proof (induction n arbitrary: v)
  case 0
  then show ?case by simp
next
  case (Suc n)
  have "v mod 256 + 256 * (v div 256 mod 256 ^ n) = v mod (256 * 256 ^ n)"
    by (simp add: mod_mult2_eq)
  with Suc show ?case by simp
qed

lemma le_nat_bound: "le_nat bs < 256 ^ length bs"
proof (induction bs)
  case Nil
  then show ?case by simp
next
  case (Cons b bs)
  have "unat b + 256 * le_nat bs < 256 * (le_nat bs + 1)" by simp
  also have "\<dots> \<le> 256 * 256 ^ length bs" using Cons by (intro mult_le_mono2) simp
  finally show ?case by simp
qed

lemma nat_bytes_le_nat [byte_simps]: "nat_bytes (length bs) (le_nat bs) = bs"
proof (induction bs)
  case Nil
  then show ?case by simp
next
  case (Cons b bs)
  have "(unat b + 256 * le_nat bs) mod 256 = unat b"
    and "(unat b + 256 * le_nat bs) div 256 = le_nat bs" by simp_all
  with Cons show ?case by simp
qed

lemma le_nat_append: "le_nat (xs @ ys) = le_nat xs + 256 ^ length xs * le_nat ys"
  by (induction xs) (auto simp: algebra_simps)

lemma length_to_le_bytes [simp]: "length (to_le_bytes (w :: 'a::len word)) = LENGTH('a) div 8"
  by (simp add: to_le_bytes_def)

lemma from_to_le_bytes [byte_simps]:
  assumes "8 dvd LENGTH('a)"
  shows "from_le_bytes (to_le_bytes (w :: 'a::len word)) = w"
proof -
  have "(256::nat) ^ (LENGTH('a) div 8) = 2 ^ LENGTH('a)"
    using assms by (simp add: pow256)
  then have "unat w mod 256 ^ (LENGTH('a) div 8) = unat w"
    by simp
  then show ?thesis
    by (simp add: from_le_bytes_def to_le_bytes_def le_nat_nat_bytes)
qed

lemma to_from_le_bytes [byte_simps]:
  assumes "length bs = LENGTH('a) div 8" and "8 dvd LENGTH('a)"
  shows "to_le_bytes (from_le_bytes bs :: 'a::len word) = bs"
proof -
  have "(256::nat) ^ (LENGTH('a) div 8) = 2 ^ LENGTH('a)"
    using assms by (simp add: pow256)
  with le_nat_bound [of bs] assms have "le_nat bs < 2 ^ LENGTH('a)"
    by simp
  then have "unat (of_nat (le_nat bs) :: 'a word) = le_nat bs"
    by (simp add: unat_of_nat_id)
  with assms nat_bytes_le_nat [of bs] show ?thesis
    by (simp add: to_le_bytes_def from_le_bytes_def)
qed

lemma unat_from_le_bytes [byte_simps]:
  assumes "8 * length bs \<le> LENGTH('a)"
  shows "unat (from_le_bytes bs :: 'a::len word) = le_nat bs"
proof -
  have "le_nat bs < 256 ^ length bs" by (rule le_nat_bound)
  also have "(256::nat) ^ length bs = 2 ^ (8 * length bs)"
    by (simp add: power_mult)
  also have "\<dots> \<le> 2 ^ LENGTH('a)" using assms by simp
  finally show ?thesis by (simp add: from_le_bytes_def unat_of_nat_id)
qed

section \<open>Bits of small words\<close>

lemma unat_drop_bit: "unat (drop_bit k (w :: 'a::len word)) = unat w div 2 ^ k"
  unfolding unat_drop_bit_eq by (rule drop_bit_eq_div)

lemma take_bit_of_unat_less: "unat (w :: 'a::len word) < 2 ^ k \<Longrightarrow> take_bit k w = w"
  unfolding take_bit_eq_self_iff_drop_bit_eq_0
  by (simp add: word_unat_eq_iff unat_drop_bit)

lemma not_bit_of_unat_less: "unat (w :: 'a::len word) < 2 ^ k \<Longrightarrow> k \<le> j \<Longrightarrow> \<not> bit w j"
  using take_bit_of_unat_less [of w k] by (metis bit_take_bit_iff leD)

lemma bit_unat: "bit (w :: 'a::len word) n \<longleftrightarrow> odd (unat w div 2 ^ n)"
  unfolding bit_iff_odd [symmetric] by (simp add: bit_unsigned_iff)

lemma unat_less_exp_iff: "unat (w :: 'a::len word) < 2 ^ n \<longleftrightarrow> (\<forall>k\<ge>n. \<not> bit w k)"
proof
  assume "\<forall>k\<ge>n. \<not> bit w k"
  then have "take_bit n w = w"
    by (intro bit_word_eqI) (auto simp: bit_take_bit_iff intro: leI)
  then have "unat w = take_bit n (unat w)"
    by (metis unsigned_take_bit_eq)
  then show "unat w < 2 ^ n"
    by (metis take_bit_nat_less_exp)
qed (auto dest: not_bit_of_unat_less)

lemma bit_exp_le_unat: "bit (w :: 'a::len word) n \<Longrightarrow> 2 ^ n \<le> unat w"
  using not_bit_of_unat_less [of w n n] by (blast intro: leI)

lemma unat_push_bit: "unat (push_bit n (w :: 'a::len word)) = unat w * 2 ^ n mod 2 ^ LENGTH('a)"
  unfolding unsigned_push_bit_eq by (simp add: take_bit_eq_mod push_bit_eq_mult)

lemma unat_and_mask: "unat (w AND mask n :: 'a::len word) = unat w mod 2 ^ n"
  unfolding take_bit_eq_mask [symmetric] unsigned_take_bit_eq by (simp add: take_bit_eq_mod)

lemma bit_top_iff: "unat (w :: 'a::len word) < 2 ^ (n + 1) \<Longrightarrow> bit w n \<longleftrightarrow> 2 ^ n \<le> unat w"
proof -
  assume w: "unat w < 2 ^ (n + 1)"
  have "k = n \<or> n + 1 \<le> k" if "n \<le> k" for k
    using that by linarith
  moreover have "\<not> bit w k" if "n + 1 \<le> k" for k
    using w that by (rule not_bit_of_unat_less)
  ultimately have "\<not> bit w n \<longleftrightarrow> (\<forall>k\<ge>n. \<not> bit w k)"
    by blast
  then show ?thesis
    unfolding unat_less_exp_iff [symmetric] by linarith
qed

text \<open>The simplifier moves the bits of a numeral word to the integer numeral.\<close>

lemma bit_128_int [simp]: "bit (128 :: int) k \<longleftrightarrow> k = 7"
  using bit_exp_iff [where 'a = int, of 7 k] by auto

section \<open>Loops over an index range\<close>

lemma foldl_upt_Suc: "foldl f s [0..<Suc m] = f (foldl f s [0..<m]) m"
  by simp

lemma foldl_upt_invariant:
  assumes "P 0 s"
    and "\<And>i a. i < m \<Longrightarrow> P i a \<Longrightarrow> P (Suc i) (f a i)"
  shows "P m (foldl f s [0..<m])"
  using assms by (induction m) auto

end
