(* ===== verification/Serialize.thy ===== *)
theory Serialize
  imports Prelude
begin

text \<open>
  The crate \<open>qubitcoin-serialize\<close>: the byte codecs of \<open>encode.rs\<close>, the CompactSize and
  VarInt integers of \<open>compact_size.rs\<close> and \<open>varint.rs\<close>, and \<open>DataStream\<close>.

  A writer is a \<open>Vec<u8>\<close>, which never fails: an \<open>encode\<close> is the pair of the bytes it
  appends and of the count it returns. A reader is the list of the bytes still to be read: a
  \<open>decode\<close> returns an error, or the value and the bytes left. The only I/O error an
  in-memory reader gives is the end of its data.

  The locale \<open>codec\<close> is the contract between \<open>Encodable\<close> and \<open>Decodable\<close>; every
  pair of this crate and of the consensus crate is an interpretation of it.
\<close>

section \<open>Errors, readers, writers\<close>

datatype ser_error =
    Io
  | NonCanonicalCompactSize
  | CompactSizeTooLarge u64
  | VarIntTooLarge
  | InvalidEncoding string
  | EndOfData
  | OversizedVector u64

type_synonym written = "bytes \<times> nat"
type_synonym 'a encoder = "'a \<Rightarrow> written"
type_synonym 'a decoder = "bytes \<Rightarrow> ser_error + ('a \<times> bytes)"

definition MAX_SIZE :: u64 where
  "MAX_SIZE = 0x02000000"

definition MAX_VECTOR_ALLOCATE :: nat where
  "MAX_VECTOR_ALLOCATE = 5000000"

text \<open>Two writes in sequence: the bytes follow each other, the counts add up.\<close>

definition ser_seq :: "written \<Rightarrow> written \<Rightarrow> written" where
  "ser_seq a b = (fst a @ fst b, snd a + snd b)"

definition read_exact :: "nat \<Rightarrow> bytes decoder" where
  "read_exact n r = (if n \<le> length r then Inr (take n r, drop n r) else Inl Io)"

section \<open>CompactSize\<close>

definition compact_size_len :: "u64 \<Rightarrow> nat" where
  "compact_size_len sz =
     (if sz < 253 then 1
      else if sz \<le> 0xffff then 3
      else if sz \<le> 0xffffffff then 5
      else 9)"

definition write_compact_size :: "u64 encoder" where
  "write_compact_size sz =
     (if sz < 253 then ([ucast sz], 1)
      else if sz \<le> 0xffff then ([253] @ to_le_bytes (ucast sz :: u16), 3)
      else if sz \<le> 0xffffffff then ([254] @ to_le_bytes (ucast sz :: u32), 5)
      else ([255] @ to_le_bytes sz, 9))"

definition read_compact_size_with_range :: "bool \<Rightarrow> u64 decoder" where
  "read_compact_size_with_range range_check r =
     res_bind (read_exact 1 r) (\<lambda>(buf, r).
       let ch_size = hd buf in
       res_bind
         (if ch_size < 253 then Inr (ucast ch_size, r)
          else if ch_size = 253 then
            res_bind (read_exact 2 r) (\<lambda>(buf, r).
              let val = ucast (from_le_bytes buf :: u16) in
              if val < 253 then Inl NonCanonicalCompactSize else Inr (val, r))
          else if ch_size = 254 then
            res_bind (read_exact 4 r) (\<lambda>(buf, r).
              let val = ucast (from_le_bytes buf :: u32) in
              if val < 0x10000 then Inl NonCanonicalCompactSize else Inr (val, r))
          else
            res_bind (read_exact 8 r) (\<lambda>(buf, r).
              let val = from_le_bytes buf :: u64 in
              if val < 0x100000000 then Inl NonCanonicalCompactSize else Inr (val, r)))
         (\<lambda>(sz, r).
            if range_check \<and> sz > MAX_SIZE then Inl (CompactSizeTooLarge sz)
            else Inr (sz, r)))"

definition read_compact_size :: "u64 decoder" where
  "read_compact_size r = read_compact_size_with_range True r"

section \<open>VarInt\<close>

text \<open>Each round of the loops shifts seven bits out and subtracts one.\<close>

definition varint_next :: "u64 \<Rightarrow> u64" where
  "varint_next n = drop_bit 7 n - 1"

lemma unat_drop_bit_7: "unat (drop_bit 7 (n :: u64)) = unat n div 128"
  by (simp add: unat_drop_bit)

lemma varint_gt_iff: "\<not> n \<le> 0x7f \<longleftrightarrow> 128 \<le> unat (n :: u64)"
  by (simp add: word_le_nat_alt) linarith

lemma drop_bit_7_ge: "\<not> (n :: u64) \<le> 0x7f \<Longrightarrow> 1 \<le> unat (drop_bit 7 n)"
  unfolding varint_gt_iff unat_drop_bit_7 by linarith

lemma varint_next_less: "\<not> (n :: u64) \<le> 0x7f \<Longrightarrow> unat (varint_next n) < unat n"
proof -
  assume n: "\<not> n \<le> 0x7f"
  then have "1 \<le> drop_bit 7 n"
    using drop_bit_7_ge [OF n] by (simp add: word_le_nat_alt)
  then have "unat (varint_next n) = unat n div 128 - 1"
    by (simp add: varint_next_def unat_sub unat_drop_bit_7)
  with n show ?thesis
    unfolding varint_gt_iff by linarith
qed

function varint_len :: "u64 \<Rightarrow> nat" where
  "varint_len n = (if n \<le> 0x7f then 1 else Suc (varint_len (varint_next n)))"
  by pat_completeness auto
termination
  by (relation "measure unat") (auto simp: varint_next_less)

text \<open>The buffer \<open>tmp[0..=len]\<close> that \<open>write_varint\<close> fills, least significant group first.\<close>

definition varint_byte :: "bool \<Rightarrow> u64 \<Rightarrow> u8" where
  "varint_byte more n = ucast (n AND 0x7f) OR (if more then 0x80 else 0x00)"

function varint_tmp :: "bool \<Rightarrow> u64 \<Rightarrow> bytes" where
  "varint_tmp more n =
     varint_byte more n # (if n \<le> 0x7f then [] else varint_tmp True (varint_next n))"
  by pat_completeness auto
termination
  by (relation "measure (\<lambda>(m, n). unat n)") (auto simp: varint_next_less)

definition write_varint :: "u64 encoder" where
  "write_varint n = (let tmp = varint_tmp False n in (rev tmp, length tmp))"

fun read_varint_loop :: "u64 \<Rightarrow> u64 decoder" where
  "read_varint_loop n [] = Inl Io"
| "read_varint_loop n (ch # r) =
     (if n > drop_bit 7 (- 1) then Inl VarIntTooLarge
      else
        let n' = push_bit 7 n OR ucast (ch AND 0x7f) in
        if ch AND 0x80 \<noteq> 0 then
          if n' = - 1 then Inl VarIntTooLarge else read_varint_loop (n' + 1) r
        else Inr (n', r))"

definition read_varint :: "u64 decoder" where
  "read_varint r = read_varint_loop 0 r"

definition write_varint_signed :: "i64 encoder" where
  "write_varint_signed n = write_varint n"

definition read_varint_signed :: "i64 decoder" where
  "read_varint_signed r = read_varint r"

declare varint_len.simps [simp del] varint_tmp.simps [simp del]

section \<open>Primitive types\<close>

definition encode_u8 :: "u8 encoder" where
  "encode_u8 b = ([b], 1)"

definition decode_u8 :: "u8 decoder" where
  "decode_u8 r = res_bind (read_exact 1 r) (\<lambda>(buf, r). Inr (hd buf, r))"

definition encode_bool :: "bool encoder" where
  "encode_bool b = encode_u8 (if b then 1 else 0)"

definition decode_bool :: "bool decoder" where
  "decode_bool r = res_bind (decode_u8 r) (\<lambda>(val, r). Inr (val \<noteq> 0, r))"

definition encode_u16 :: "u16 encoder" where
  "encode_u16 w = (to_le_bytes w, 2)"

definition decode_u16 :: "u16 decoder" where
  "decode_u16 r = res_bind (read_exact 2 r) (\<lambda>(buf, r). Inr (from_le_bytes buf, r))"

definition encode_u32 :: "u32 encoder" where
  "encode_u32 w = (to_le_bytes w, 4)"

definition decode_u32 :: "u32 decoder" where
  "decode_u32 r = res_bind (read_exact 4 r) (\<lambda>(buf, r). Inr (from_le_bytes buf, r))"

definition encode_i32 :: "i32 encoder" where
  "encode_i32 w = (to_le_bytes w, 4)"

definition decode_i32 :: "i32 decoder" where
  "decode_i32 r = res_bind (read_exact 4 r) (\<lambda>(buf, r). Inr (from_le_bytes buf, r))"

definition encode_u64 :: "u64 encoder" where
  "encode_u64 w = (to_le_bytes w, 8)"

definition decode_u64 :: "u64 decoder" where
  "decode_u64 r = res_bind (read_exact 8 r) (\<lambda>(buf, r). Inr (from_le_bytes buf, r))"

definition encode_i64 :: "i64 encoder" where
  "encode_i64 w = (to_le_bytes w, 8)"

definition decode_i64 :: "i64 decoder" where
  "decode_i64 r = res_bind (read_exact 8 r) (\<lambda>(buf, r). Inr (from_le_bytes buf, r))"

text \<open>
  The arrays \<open>[u8; N]\<close> (\<open>N\<close> one of 4, 20, 32, 33, 64) and the 32-byte hash types
  \<open>Uint256\<close>, \<open>Txid\<close>, \<open>Wtxid\<close>, \<open>BlockHash\<close> are byte lists of that length.
\<close>

definition encode_array :: "nat \<Rightarrow> bytes encoder" where
  "encode_array n bs = (bs, n)"

definition decode_array :: "nat \<Rightarrow> bytes decoder" where
  "decode_array n r = res_bind (read_exact n r) (\<lambda>(buf, r). Inr (buf, r))"

definition encode_hash :: "bytes encoder" where
  "encode_hash h = (h, 32)"

definition decode_hash :: "bytes decoder" where
  "decode_hash r = res_bind (read_exact 32 r) (\<lambda>(buf, r). Inr (buf, r))"

text \<open>\<open>Vec<u8>\<close>: a CompactSize length and the bytes.\<close>

definition encode_bytes :: "bytes encoder" where
  "encode_bytes v = ser_seq (write_compact_size (of_nat (length v))) (v, length v)"

definition decode_bytes :: "bytes decoder" where
  "decode_bytes r =
     res_bind (read_compact_size r) (\<lambda>(len, r).
       if len > MAX_SIZE then Inl (OversizedVector len)
       else read_exact (unat len) r)"

section \<open>Vectors of objects\<close>

fun encode_items :: "'a encoder \<Rightarrow> 'a list encoder" where
  "encode_items enc [] = ([], 0)"
| "encode_items enc (x # xs) = ser_seq (enc x) (encode_items enc xs)"

definition encode_vec :: "'a encoder \<Rightarrow> 'a list encoder" where
  "encode_vec enc xs = ser_seq (write_compact_size (of_nat (length xs))) (encode_items enc xs)"

fun decode_items :: "'a decoder \<Rightarrow> nat \<Rightarrow> 'a list decoder" where
  "decode_items dec 0 r = Inr ([], r)"
| "decode_items dec (Suc n) r =
     res_bind (dec r) (\<lambda>(x, r).
       res_bind (decode_items dec n r) (\<lambda>(xs, r). Inr (x # xs, r)))"

definition decode_vec :: "'a decoder \<Rightarrow> 'a list decoder" where
  "decode_vec dec r =
     res_bind (read_compact_size r) (\<lambda>(len, r).
       if len > MAX_SIZE then Inl (OversizedVector len)
       else decode_items dec (unat len) r)"

definition serialize :: "'a encoder \<Rightarrow> 'a \<Rightarrow> bytes" where
  "serialize enc obj = fst (enc obj)"

definition deserialize :: "'a decoder \<Rightarrow> bytes \<Rightarrow> ser_error + 'a" where
  "deserialize dec data = res_bind (dec data) (\<lambda>(x, r). Inr x)"

section \<open>DataStream\<close>

record data_stream =
  ds_data :: bytes
  ds_read_pos :: nat

definition ds_new :: data_stream where
  "ds_new = \<lparr>ds_data = [], ds_read_pos = 0\<rparr>"

definition ds_from_bytes :: "bytes \<Rightarrow> data_stream" where
  "ds_from_bytes bs = \<lparr>ds_data = bs, ds_read_pos = 0\<rparr>"

definition ds_remaining :: "data_stream \<Rightarrow> bytes" where
  "ds_remaining s = drop (ds_read_pos s) (ds_data s)"

definition ds_remaining_len :: "data_stream \<Rightarrow> nat" where
  "ds_remaining_len s = length (ds_data s) - ds_read_pos s"

definition ds_is_empty :: "data_stream \<Rightarrow> bool" where
  "ds_is_empty s = (ds_read_pos s \<ge> length (ds_data s))"

definition ds_rewind :: "data_stream \<Rightarrow> data_stream" where
  "ds_rewind s = s\<lparr>ds_read_pos := 0\<rparr>"

definition ds_clear :: "data_stream \<Rightarrow> data_stream" where
  "ds_clear s = s\<lparr>ds_data := [], ds_read_pos := 0\<rparr>"

definition ds_write_obj :: "'a encoder \<Rightarrow> 'a \<Rightarrow> data_stream \<Rightarrow> nat \<times> data_stream" where
  "ds_write_obj enc obj s = (let (bs, n) = enc obj in (n, s\<lparr>ds_data := ds_data s @ bs\<rparr>))"

text \<open>
  \<open>read_obj\<close> decodes from a cursor over the unread bytes and advances by the cursor's
  position, the number of bytes the decoder consumed; a failed decode leaves the stream as it
  was.
\<close>

definition ds_read_obj :: "'a decoder \<Rightarrow> data_stream \<Rightarrow> ser_error + ('a \<times> data_stream)" where
  "ds_read_obj dec s =
     (let cursor = ds_remaining s in
      res_bind (dec cursor) (\<lambda>(obj, rest).
        Inr (obj, s\<lparr>ds_read_pos := ds_read_pos s + (length cursor - length rest)\<rparr>)))"

definition ds_skip :: "nat \<Rightarrow> data_stream \<Rightarrow> ser_error + data_stream" where
  "ds_skip n s =
     (if ds_read_pos s + n > length (ds_data s) then Inl EndOfData
      else Inr (s\<lparr>ds_read_pos := ds_read_pos s + n\<rparr>))"

definition ds_read :: "nat \<Rightarrow> data_stream \<Rightarrow> bytes \<times> data_stream" where
  "ds_read n s =
     (let remaining = ds_remaining s; to_read = min n (length remaining) in
      (take to_read remaining, s\<lparr>ds_read_pos := ds_read_pos s + to_read\<rparr>))"

section \<open>The codec contract\<close>

text \<open>
  What a client relies on: the count an encoder returns is the number of bytes it wrote, and a
  decoder run on the encoding of a valid value, whatever bytes follow, returns that value and
  leaves those bytes.
\<close>

locale codec =
  fixes enc :: "'a encoder"
    and dec :: "'a decoder"
    and valid :: "'a \<Rightarrow> bool"
  assumes enc_count: "valid x \<Longrightarrow> snd (enc x) = length (fst (enc x))"
    and dec_enc: "valid x \<Longrightarrow> dec (fst (enc x) @ rest) = Inr (x, rest)"
begin

lemma enc_prefix_free:
  assumes "valid x" "valid y" "fst (enc x) @ r = fst (enc y) @ s"
  shows "x = y \<and> r = s"
proof -
  have "Inr (x, r) = (Inr (y, s) :: ser_error + 'a \<times> bytes)"
    using dec_enc [OF assms(1), of r] dec_enc [OF assms(2), of s] unfolding assms(3) by (rule trans [OF sym])
  then show ?thesis by simp
qed

lemma deserialize_serialize: "valid x \<Longrightarrow> deserialize dec (serialize enc x) = Inr x"
  using dec_enc [of x "[]"] by (simp add: deserialize_def serialize_def)

lemma encode_items_count:
  "list_all valid xs \<Longrightarrow> snd (encode_items enc xs) = length (fst (encode_items enc xs))"
  by (induction xs) (auto simp: ser_seq_def enc_count)

lemma decode_items_enc:
  "list_all valid xs \<Longrightarrow>
   decode_items dec (length xs) (fst (encode_items enc xs) @ rest) = Inr (xs, rest)"
  by (induction xs) (auto simp: ser_seq_def dec_enc)

text \<open>A stream that holds an encoding at its cursor reads the value back.\<close>

lemma read_obj_enc:
  assumes "valid x" and "ds_remaining s = fst (enc x) @ rest"
  shows "ds_read_obj dec s =
    Inr (x, s\<lparr>ds_read_pos := ds_read_pos s + length (fst (enc x))\<rparr>)"
  using assms by (simp add: ds_read_obj_def dec_enc)

end

text \<open>
  A strict codec accepts no other encoding: what a decoder consumed is the encoding of what it
  returned.
\<close>

locale strict_codec = codec +
  assumes enc_dec: "dec bs = Inr (x, rest) \<Longrightarrow> valid x \<and> bs = fst (enc x) @ rest"
begin

lemma dec_iff: "dec bs = Inr (x, rest) \<longleftrightarrow> valid x \<and> bs = fst (enc x) @ rest"
  using enc_dec dec_enc by blast

lemma dec_progress: "dec bs = Inr (x, rest) \<Longrightarrow> length rest \<le> length bs"
  using enc_dec by fastforce

lemma decode_items_iff:
  "decode_items dec n bs = Inr (xs, rest) \<longleftrightarrow>
   length xs = n \<and> list_all valid xs \<and> bs = fst (encode_items enc xs) @ rest"
proof (induction n arbitrary: bs xs)
  case 0
  then show ?case by auto
next
  case (Suc n)
  show ?case
    by (cases xs) (auto simp: res_simps dec_iff Suc ser_seq_def split: prod.splits)
qed

end

section \<open>CompactSize is a strict codec\<close>

lemma read_exact_append [simp]: "length bs = n \<Longrightarrow> read_exact n (bs @ r) = Inr (bs, r)"
  by (simp add: read_exact_def)

lemma read_exact_Cons [simp]: "read_exact (Suc 0) (b # r) = Inr ([b], r)"
  by (simp add: read_exact_def)

lemma read_exact_eq_Inr:
  "read_exact n bs = Inr (x, r) \<longleftrightarrow> length x = n \<and> bs = x @ r"
  by (auto simp: read_exact_def)

lemma ser_seq_count:
  "snd a = length (fst a) \<Longrightarrow> snd b = length (fst b) \<Longrightarrow>
   snd (ser_seq a b) = length (fst (ser_seq a b))"
  by (simp add: ser_seq_def)

lemma fst_ser_seq [simp]: "fst (ser_seq a b) = fst a @ fst b"
  by (simp add: ser_seq_def)

lemma snd_ser_seq [simp]: "snd (ser_seq a b) = snd a + snd b"
  by (simp add: ser_seq_def)

lemma write_compact_size_count:
  "snd (write_compact_size sz) = length (fst (write_compact_size sz))"
  by (simp add: write_compact_size_def)

lemma write_compact_size_len: "snd (write_compact_size sz) = compact_size_len sz"
  by (simp add: write_compact_size_def compact_size_len_def)

lemma ch_size_cases:
  fixes ch :: u8
  obtains "ch < 253" | "ch = 253" | "ch = 254" | "ch = 255"
proof -
  have "unat ch < 253 \<or> unat ch = 253 \<or> unat ch = 254 \<or> unat ch = 255"
    using unat_u8_le [of ch] by linarith
  then show ?thesis
    using that by (auto simp: word_less_nat_alt word_unat_eq_iff)
qed

lemma compact_size_cases:
  fixes sz :: u64
  obtains
    (one) "sz < 253" "ucast (ucast sz :: u8) = sz" "(ucast sz :: u8) < 253"
  | (three) "\<not> sz < 253" "sz \<le> 0xffff" "ucast (ucast sz :: u16) = sz"
  | (five) "\<not> sz < 253" "\<not> sz \<le> 0xffff" "sz \<le> 0xffffffff" "\<not> sz < 0x10000"
      "ucast (ucast sz :: u32) = sz"
  | (nine) "\<not> sz < 253" "\<not> sz \<le> 0xffff" "\<not> sz \<le> 0xffffffff" "\<not> sz < 0x100000000"
proof -
  consider "unat sz < 253" | "253 \<le> unat sz" "unat sz \<le> 0xffff"
    | "0xffff < unat sz" "unat sz \<le> 0xffffffff" | "0xffffffff < unat sz"
    by linarith
  then show ?thesis
    by cases (rule that; simp add: ucast_narrow_widen word_less_nat_alt word_le_nat_alt unat_ucast)+
qed

lemma read_write_compact_size:
  assumes "range_check \<Longrightarrow> sz \<le> MAX_SIZE"
  shows "read_compact_size_with_range range_check (fst (write_compact_size sz) @ rest) = Inr (sz, rest)"
proof -
  have r: "(range_check \<and> MAX_SIZE < sz) = False" using assms by auto
  show ?thesis
    by (cases sz rule: compact_size_cases)
      (simp_all add: write_compact_size_def read_compact_size_with_range_def from_to_le_bytes Let_def r)
qed

text \<open>The converse: the reader accepts nothing but what the writer produces.\<close>

lemma write_read_compact_size:
  assumes "read_compact_size_with_range range_check bs = Inr (sz, rest)"
  shows "(range_check \<longrightarrow> sz \<le> MAX_SIZE) \<and> bs = fst (write_compact_size sz) @ rest"
proof -
  obtain ch r where bs: "bs = ch # r"
    using assms by (cases bs) (auto simp: read_compact_size_with_range_def read_exact_def)
  show ?thesis
  proof (cases ch rule: ch_size_cases)
    case 1
    then have "ucast ch < (253 :: u64)" and "ucast (ucast ch :: u64) = ch"
      by (simp_all add: word_less_nat_alt unat_ucast_widen ucast_widen_narrow)
    with 1 bs assms show ?thesis
      by (auto simp: read_compact_size_with_range_def write_compact_size_def not_less
          split: if_splits)
  next
    case 2
    from assms obtain buf where buf: "r = buf @ rest" "length buf = 2"
      and sz: "sz = ucast (from_le_bytes buf :: u16)" "\<not> sz < 253"
      and rng: "range_check \<longrightarrow> sz \<le> MAX_SIZE"
      unfolding bs 2 read_compact_size_with_range_def
      by (auto simp: res_simps read_exact_eq_Inr Let_def not_less split: if_splits)
    have "sz \<le> 0xffff" and "ucast sz = (from_le_bytes buf :: u16)"
      using unat_less_pow [of "from_le_bytes buf :: u16"]
      by (simp_all add: sz word_le_nat_alt unat_ucast_widen ucast_widen_narrow)
    with buf sz(2) rng show ?thesis
      by (simp add: bs 2 write_compact_size_def to_from_le_bytes)
  next
    case 3
    from assms obtain buf where buf: "r = buf @ rest" "length buf = 4"
      and sz: "sz = ucast (from_le_bytes buf :: u32)" "\<not> sz < 0x10000"
      and rng: "range_check \<longrightarrow> sz \<le> MAX_SIZE"
      unfolding bs 3 read_compact_size_with_range_def
      by (auto simp: res_simps read_exact_eq_Inr Let_def not_less split: if_splits)
    have "\<not> sz < 253" and "\<not> sz \<le> 0xffff"
      using sz(2) by (simp_all add: word_le_nat_alt word_less_nat_alt)
    moreover have "sz \<le> 0xffffffff" and "ucast sz = (from_le_bytes buf :: u32)"
      using unat_less_pow [of "from_le_bytes buf :: u32"]
      by (simp_all add: sz word_le_nat_alt unat_ucast_widen ucast_widen_narrow)
    ultimately show ?thesis
      using buf rng by (simp add: bs 3 write_compact_size_def to_from_le_bytes)
  next
    case 4
    from assms obtain buf where buf: "r = buf @ rest" "length buf = 8"
      and sz: "sz = from_le_bytes buf" "\<not> sz < 0x100000000"
      and rng: "range_check \<longrightarrow> sz \<le> MAX_SIZE"
      unfolding bs 4 read_compact_size_with_range_def
      by (auto simp: res_simps read_exact_eq_Inr Let_def not_less split: if_splits)
    have "\<not> sz < 253" and "\<not> sz \<le> 0xffff" and "\<not> sz \<le> 0xffffffff"
      using sz(2) by (simp_all add: word_le_nat_alt word_less_nat_alt)
    with buf rng show ?thesis
      by (simp add: bs 4 sz(1) write_compact_size_def to_from_le_bytes)
  qed
qed

interpretation compact: strict_codec write_compact_size "read_compact_size_with_range b"
  "\<lambda>sz. b \<longrightarrow> sz \<le> MAX_SIZE" for b
  by unfold_locales
    (use write_compact_size_count read_write_compact_size write_read_compact_size in auto)

interpretation compact_len: strict_codec write_compact_size read_compact_size
  "\<lambda>sz. sz \<le> MAX_SIZE"
  unfolding read_compact_size_def
  by unfold_locales
    (use write_compact_size_count read_write_compact_size write_read_compact_size in auto)

section \<open>VarInt is a strict codec\<close>

lemma varint_masks:
  "(0x7f :: u64) = mask 7" "(0x7f :: u8) = mask 7"
  by (simp_all add: mask_eq_exp_minus_1)

lemma and_0x80_iff: "ch AND 0x80 \<noteq> 0 \<longleftrightarrow> bit (ch :: u8) 7"
  using and_exp_eq_0_iff_not_bit [of ch 7] by simp

lemma varint_byte_low: "varint_byte m n AND 0x7f = ucast (n AND 0x7f)"
  unfolding varint_byte_def varint_masks
  by (rule bit_word_eqI) (auto simp: bit_simps)

lemma varint_byte_high: "varint_byte m n AND 0x80 \<noteq> 0 \<longleftrightarrow> m"
  unfolding and_0x80_iff unfolding varint_byte_def varint_masks by (auto simp: bit_simps)

lemma varint_byte_of:
  fixes ch :: u8
  assumes "ucast (n AND 0x7f) = ch AND 0x7f"
  shows "varint_byte (ch AND 0x80 \<noteq> 0) n = ch"
proof (rule bit_word_eqI)
  fix k
  assume "k < LENGTH(8)"
  then have "k < 7 \<or> k = 7" by auto
  then show "bit (varint_byte (ch AND 0x80 \<noteq> 0) n) k = bit ch k"
    unfolding varint_byte_def assms unfolding and_0x80_iff varint_masks by (auto simp: bit_simps)
qed

text \<open>
  The bytes \<open>write_varint\<close> puts before the last group: none when the remaining number is
  zero, else the continuation encoding of that number less one.
\<close>

definition varint_prefix :: "u64 \<Rightarrow> bytes" where
  "varint_prefix n = (if n = 0 then [] else rev (varint_tmp True (n - 1)))"

lemma drop_bit_7_eq_0: "drop_bit 7 (n :: u64) = 0 \<longleftrightarrow> n \<le> 0x7f"
proof -
  have "drop_bit 7 n = 0 \<longleftrightarrow> unat n div 128 = 0"
    by (simp add: word_unat_eq_iff unat_drop_bit_7)
  also have "\<dots> \<longleftrightarrow> n \<le> 0x7f"
    using varint_gt_iff [of n] by linarith
  finally show ?thesis .
qed

lemma rev_varint_tmp:
  "rev (varint_tmp m n) = varint_prefix (drop_bit 7 n) @ [varint_byte m n]"
  by (subst varint_tmp.simps)
    (simp add: varint_prefix_def drop_bit_7_eq_0 varint_next_def)

lemma varint_prefix_Suc:
  assumes "n \<noteq> - 1"
  shows "varint_prefix (n + 1) = varint_prefix (drop_bit 7 n) @ [varint_byte True n]"
proof -
  have "n + 1 \<noteq> 0" using assms add_eq_0_iff2 by blast
  then show ?thesis by (simp add: varint_prefix_def rev_varint_tmp)
qed

text \<open>One round of the reader undoes one round of the writer.\<close>

lemma varint_shift_low:
  "ucast ((push_bit 7 (n :: u64) OR ucast (c AND 0x7f)) AND 0x7f) = (c :: u8) AND 0x7f"
  unfolding varint_masks by (rule bit_word_eqI) (auto simp: bit_simps)

lemma varint_shift_high:
  assumes "\<not> n > drop_bit 7 (- 1)"
  shows "drop_bit 7 (push_bit 7 (n :: u64) OR ucast ((c :: u8) AND 0x7f)) = n"
proof -
  have "unat n < 2 ^ 57"
    using assms by (simp add: not_less word_le_nat_alt mask_eq_exp_minus_1)
  then have "k < 57" if "bit n k" for k
    using that not_bit_of_unat_less [of n 57 k] by (meson not_le)
  then show ?thesis
    unfolding varint_masks by (intro bit_word_eqI) (auto simp: bit_simps)
qed

lemma drop_bit_7_le_max: "drop_bit 7 (n :: u64) \<le> mask 57"
  using unat_less_pow [of n] by (simp add: word_le_nat_alt unat_drop_bit mask_eq_exp_minus_1)

lemma varint_join:
  "push_bit 7 (drop_bit 7 (n :: u64)) OR ucast ((ucast (n AND 0x7f) :: u8)) = n"
  unfolding varint_masks
proof (rule bit_word_eqI)
  fix k
  assume k: "k < LENGTH(64)"
  show "bit (push_bit 7 (drop_bit 7 n) OR ucast (ucast (n AND mask 7) :: u8)) k = bit n k"
  proof (cases "k < 7")
    case True
    with k show ?thesis by (auto simp: bit_simps)
  next
    case False
    with k show ?thesis by (auto simp: bit_simps)
  qed
qed

text \<open>Reading the continuation groups of \<open>n\<close> brings the reader to \<open>n + 1\<close>.\<close>

lemma read_varint_prefix:
  "read_varint_loop 0 (varint_prefix n @ rest) = read_varint_loop n rest"
proof (induction "unat n" arbitrary: n rest rule: less_induct)
  case less
  show ?case
  proof (cases "n = 0")
    case True
    then show ?thesis by (simp add: varint_prefix_def)
  next
    case False
    define m where "m = n - 1"
    have n: "n = m + 1" and m: "m \<noteq> - 1"
      using False by (auto simp: m_def)
    have "unat (drop_bit 7 m) \<le> unat m"
      by (simp add: unat_drop_bit)
    moreover have "unat m < unat n"
      using False unat_gt_0 [of n] by (simp add: m_def unat_minus_one)
    ultimately have "read_varint_loop 0 (varint_prefix (drop_bit 7 m) @ varint_byte True m # rest) =
        read_varint_loop (drop_bit 7 m) (varint_byte True m # rest)"
      by (intro less) linarith
    also have "\<dots> = read_varint_loop (m + 1) rest"
      using m varint_byte_high [of True m]
      by (simp add: varint_byte_low varint_join leD [OF drop_bit_7_le_max] Let_def)
    finally show ?thesis
      using m by (simp add: n varint_prefix_Suc)
  qed
qed

lemma read_write_varint: "read_varint (fst (write_varint n) @ rest) = Inr (n, rest)"
  using varint_byte_high [of False n]
  by (simp add: read_varint_def write_varint_def Let_def rev_varint_tmp read_varint_prefix
      varint_byte_low varint_join not_less drop_bit_7_le_max)

lemma write_read_varint_loop:
  "read_varint_loop n bs = Inr (x, rest) \<Longrightarrow> varint_prefix n @ bs = fst (write_varint x) @ rest"
proof (induction n bs rule: read_varint_loop.induct)
  case (1 n)
  then show ?case by simp
next
  case (2 n ch r)
  define n' where "n' = push_bit 7 n OR ucast (ch AND 0x7f)"
  from 2 have max: "\<not> n > drop_bit 7 (- 1)" by (auto split: if_splits)
  have d: "drop_bit 7 n' = n" and b: "varint_byte (ch AND 0x80 \<noteq> 0) n' = ch"
    unfolding n'_def by (rule varint_shift_high [OF max], rule varint_byte_of, rule varint_shift_low)
  show ?case
  proof (cases "ch AND 0x80 \<noteq> 0")
    case True
    with 2 max have "n' \<noteq> - 1" and "varint_prefix (n' + 1) @ r = fst (write_varint x) @ rest"
      by (auto simp: n'_def Let_def split: if_splits)
    then show ?thesis using True b by (simp add: varint_prefix_Suc d)
  next
    case False
    with 2 max have "x = n'" "rest = r"
      by (auto simp: n'_def Let_def split: if_splits)
    then show ?thesis
      using False b by (simp add: write_varint_def Let_def rev_varint_tmp d)
  qed
qed

lemma write_read_varint: "read_varint bs = Inr (n, rest) \<Longrightarrow> bs = fst (write_varint n) @ rest"
  using write_read_varint_loop [of 0 bs n rest] by (simp add: read_varint_def varint_prefix_def)

interpretation varint: strict_codec write_varint read_varint "\<lambda>_. True"
  by unfold_locales
    (use read_write_varint write_read_varint in \<open>auto simp: write_varint_def Let_def\<close>)

lemma length_varint_tmp: "length (varint_tmp m n) = varint_len n"
proof (induction n arbitrary: m rule: varint_len.induct)
  case (1 n)
  then show ?case by (subst varint_tmp.simps, subst varint_len.simps) auto
qed

lemma varint_len_bound: "unat n < 128 ^ k \<Longrightarrow> 0 < k \<Longrightarrow> varint_len n \<le> k"
proof (induction n arbitrary: k rule: varint_len.induct)
  case (1 n)
  show ?case
  proof (cases "n \<le> 0x7f")
    case True
    with 1 show ?thesis by (subst varint_len.simps) simp
  next
    case False
    then obtain j where k: "k = Suc j" "0 < j"
      using "1.prems" unfolding varint_gt_iff by (cases k; cases "k - 1") auto
    have "1 \<le> drop_bit 7 n"
      using drop_bit_7_ge [OF False] by (simp add: word_le_nat_alt)
    then have "unat (varint_next n) = unat n div 128 - 1"
      by (simp add: varint_next_def unat_sub unat_drop_bit_7)
    also have "\<dots> < 128 ^ j"
      using "1.prems" k by (simp add: less_mult_imp_div_less mult.commute less_imp_diff_less)
    finally have "varint_len (varint_next n) \<le> j"
      using False k by (intro "1.IH")
    with False k show ?thesis by (subst varint_len.simps) simp
  qed
qed

section \<open>The codecs of the primitive types and of vectors\<close>

lemma fixed_width_codec:
  assumes "LENGTH('a::len) = 8 * n"
  shows "strict_codec (\<lambda>w :: 'a word. (to_le_bytes w, n))
    (\<lambda>r. res_bind (read_exact n r) (\<lambda>(buf, r). Inr (from_le_bytes buf, r))) (\<lambda>_. True)"
proof
  fix bs :: bytes and x :: "'a word" and rest
  assume "res_bind (read_exact n bs) (\<lambda>(buf, r). Inr (from_le_bytes buf, r)) =
    (Inr (x, rest) :: ser_error + _)"
  with assms show "True \<and> bs = fst (to_le_bytes x, n) @ rest"
    by (auto simp: res_simps read_exact_eq_Inr to_from_le_bytes)
qed (use assms in \<open>auto simp: from_to_le_bytes\<close>)

interpretation u16: strict_codec encode_u16 decode_u16 "\<lambda>_. True"
  using fixed_width_codec [where 'a = 16, of 2]
  unfolding encode_u16_def [abs_def] decode_u16_def [abs_def] by simp

interpretation u32: strict_codec encode_u32 decode_u32 "\<lambda>_. True"
  using fixed_width_codec [where 'a = 32, of 4]
  unfolding encode_u32_def [abs_def] decode_u32_def [abs_def] by simp

interpretation i32: strict_codec encode_i32 decode_i32 "\<lambda>_. True"
  using fixed_width_codec [where 'a = 32, of 4]
  unfolding encode_i32_def [abs_def] decode_i32_def [abs_def] by simp

interpretation u64: strict_codec encode_u64 decode_u64 "\<lambda>_. True"
  using fixed_width_codec [where 'a = 64, of 8]
  unfolding encode_u64_def [abs_def] decode_u64_def [abs_def] by simp

interpretation i64: strict_codec encode_i64 decode_i64 "\<lambda>_. True"
  using fixed_width_codec [where 'a = 64, of 8]
  unfolding encode_i64_def [abs_def] decode_i64_def [abs_def] by simp

interpretation u8: strict_codec encode_u8 decode_u8 "\<lambda>_. True"
  by unfold_locales
    (auto simp: encode_u8_def decode_u8_def res_simps read_exact_eq_Inr length_Suc_conv)

text \<open>A \<open>bool\<close> is not strict: every non-zero byte decodes to \<open>true\<close>.\<close>

interpretation boolean: codec encode_bool decode_bool "\<lambda>_. True"
  by unfold_locales (auto simp: encode_bool_def decode_bool_def encode_u8_def decode_u8_def)

interpretation array: strict_codec "encode_array n" "decode_array n" "\<lambda>bs. length bs = n" for n
  by unfold_locales
    (auto simp: encode_array_def decode_array_def res_simps read_exact_eq_Inr)

interpretation hash: strict_codec encode_hash decode_hash "\<lambda>bs. length bs = 32"
  by unfold_locales (auto simp: encode_hash_def decode_hash_def res_simps read_exact_eq_Inr)

text \<open>A length that fits \<open>MAX_SIZE\<close> survives the conversion to \<open>u64\<close>.\<close>

definition fits_max :: "nat \<Rightarrow> bool" where
  "fits_max n = (n \<le> unat MAX_SIZE)"

lemma unat_MAX_SIZE: "unat MAX_SIZE = 0x02000000"
  by (simp add: MAX_SIZE_def)

lemma fits_max_unat [simp]: "fits_max n \<Longrightarrow> unat (of_nat n :: u64) = n"
  by (simp add: fits_max_def unat_MAX_SIZE unat_of_nat)

lemma fits_max_le [simp]: "fits_max n \<Longrightarrow> (of_nat n :: u64) \<le> MAX_SIZE"
  by (simp add: word_le_nat_alt) (simp add: fits_max_def)

lemma fits_max_of_le: "len \<le> MAX_SIZE \<Longrightarrow> fits_max (unat len)"
  by (simp add: fits_max_def word_le_nat_alt)

interpretation bytes: strict_codec encode_bytes decode_bytes "\<lambda>bs. fits_max (length bs)"
proof
  fix bs x rest
  assume "decode_bytes bs = Inr (x, rest)"
  then show "fits_max (length x) \<and> bs = fst (encode_bytes x) @ rest"
    by (auto simp: decode_bytes_def encode_bytes_def res_simps read_exact_eq_Inr
        compact_len.dec_iff fits_max_of_le split: if_splits)
next
  fix x :: bytes and rest
  assume "fits_max (length x)"
  then show "decode_bytes (fst (encode_bytes x) @ rest) = Inr (x, rest)"
    by (simp add: decode_bytes_def encode_bytes_def compact_len.dec_enc leD)
qed (simp add: encode_bytes_def write_compact_size_count)

context codec
begin

lemma vec_codec:
  "codec (encode_vec enc) (decode_vec dec) (\<lambda>xs. fits_max (length xs) \<and> list_all valid xs)"
proof
  fix xs rest
  assume "fits_max (length xs) \<and> list_all valid xs"
  then show "decode_vec dec (fst (encode_vec enc xs) @ rest) = Inr (xs, rest)"
    by (simp add: decode_vec_def encode_vec_def compact_len.dec_enc leD decode_items_enc)
qed (simp add: encode_vec_def write_compact_size_count encode_items_count)

end

context strict_codec
begin

lemma vec_strict_codec:
  "strict_codec (encode_vec enc) (decode_vec dec) (\<lambda>xs. fits_max (length xs) \<and> list_all valid xs)"
proof (intro strict_codec.intro strict_codec_axioms.intro vec_codec)
  fix bs xs rest
  assume "decode_vec dec bs = Inr (xs, rest)"
  then show "(fits_max (length xs) \<and> list_all valid xs) \<and> bs = fst (encode_vec enc xs) @ rest"
    by (auto simp: decode_vec_def encode_vec_def res_simps decode_items_iff compact_len.dec_iff
        fits_max_of_le split: if_splits)
qed

end

section \<open>Properties of the data stream\<close>

text \<open>The cursor of a stream never passes the end of its data.\<close>

definition ds_inv :: "data_stream \<Rightarrow> bool" where
  "ds_inv s \<longleftrightarrow> ds_read_pos s \<le> length (ds_data s)"

lemma ds_inv_ops:
  "ds_inv ds_new"
  "ds_inv (ds_from_bytes bs)"
  "ds_inv (ds_rewind s)"
  "ds_inv (ds_clear s)"
  "ds_inv s \<Longrightarrow> ds_inv (snd (ds_write_obj enc x s))"
  "ds_inv s \<Longrightarrow> res_all ds_inv (ds_skip n s)"
  "ds_inv s \<Longrightarrow> ds_inv (snd (ds_read n s))"
  by (auto simp: ds_inv_def ds_new_def ds_from_bytes_def ds_rewind_def ds_clear_def
      ds_write_obj_def ds_skip_def ds_read_def ds_remaining_def Let_def split: prod.splits)

lemma ds_inv_read_obj:
  "ds_inv s \<Longrightarrow> res_all (\<lambda>(x, s'). ds_inv s') (ds_read_obj dec s)"
  by (intro res_allI)
    (auto simp: ds_inv_def ds_read_obj_def ds_remaining_def Let_def res_simps)

section \<open>Main results\<close>

text \<open>The CompactSize reader and writer are exact inverses. Reading succeeds with a number
  and a remaining input exactly when the input is the canonical encoding of that number followed
  by the remaining input (and, with the range check on, the number is at most \<open>MAX_SIZE\<close>): no
  padded encoding is accepted, none of the writer's is refused.\<close>

theorem compact_size_exact:
  "read_compact_size_with_range range_check bs = Inr (sz, rest) \<longleftrightarrow>
   (range_check \<longrightarrow> sz \<le> MAX_SIZE) \<and> bs = fst (write_compact_size sz) @ rest"
  by (rule compact.dec_iff)

theorem compact_size_exact_witness:
  "read_compact_size_with_range True [253, 253, 0, 7] = Inr (253, [7])"
proof -
  have "fst (write_compact_size 253) = [253, 253, 0]"
    by code_simp
  then show ?thesis
    by (simp add: compact_size_exact MAX_SIZE_def)
qed

text \<open>VarInt is a bijection between \<open>u64\<close> and the byte strings the reader accepts: every
  number has exactly one encoding, and the reader undoes the writer whatever bytes follow.\<close>

theorem varint_exact:
  "read_varint bs = Inr (n, rest) \<longleftrightarrow> bs = fst (write_varint n) @ rest"
  using varint.dec_iff [of bs n rest] by simp

text \<open>A VarInt takes as many bytes as \<open>varint_len\<close> says and as \<open>write_varint\<close> reports, and
  never more than the ten bytes of the buffer \<open>tmp\<close>, so the index into it stays in range.\<close>

theorem varint_length_bound:
  "snd (write_varint n) = varint_len n \<and> length (fst (write_varint n)) = varint_len n \<and>
   varint_len n \<le> 10"
proof -
  have "unat n < 128 ^ 10"
    using unat_less_pow [of n] by simp
  then have "varint_len n \<le> 10"
    by (rule varint_len_bound) simp
  then show ?thesis
    by (simp add: write_varint_def Let_def length_varint_tmp)
qed

end
