(* ===== verification/ScriptNum.thy ===== *)
theory ScriptNum
  imports Prelude
begin

text \<open>
  The type \<open>ScriptNum\<close> of \<open>qubitcoin-script/src/script_num.rs\<close>: the little-endian,
  sign-and-magnitude byte strings the script stack holds, and the \<open>i64\<close> they decode to. An
  \<open>i64\<close> is a 64-bit word read with \<open>sint\<close>; \<open>decode_bytes\<close> is only called on strings of
  at most \<open>max_num_size\<close> bytes, 4 or 5 in the interpreter.

  The main result is that the minimal encodings and the numbers correspond one to one.
\<close>

section \<open>Operations\<close>

type_synonym script_num = i64

datatype script_num_error = ScriptNumError string

definition DEFAULT_MAX_NUM_SIZE :: nat where
  "DEFAULT_MAX_NUM_SIZE = 4"

definition sn_decode_bytes :: "bytes \<Rightarrow> i64" where
  "sn_decode_bytes vch =
     (if vch = [] then 0
      else
        let result = foldl (\<lambda>result (i, byte). result OR push_bit (8 * i) (ucast byte)) 0
                       (enumerate 0 vch)
        in if last vch AND 0x80 \<noteq> 0
           then - (result AND NOT (push_bit (8 * (length vch - 1)) 0x80))
           else result)"

text \<open>The encoding uses the fewest bytes.\<close>

definition is_minimally_encoded :: "bytes \<Rightarrow> bool" where
  "is_minimally_encoded vch \<longleftrightarrow>
     \<not> (vch \<noteq> [] \<and> last vch AND 0x7f = 0 \<and>
        (length vch \<le> 1 \<or> vch ! (length vch - 2) AND 0x80 = 0))"

definition sn_from_bytes :: "bytes \<Rightarrow> bool \<Rightarrow> nat \<Rightarrow> script_num_error + script_num" where
  "sn_from_bytes vch require_minimal max_num_size =
     (if length vch > max_num_size then Inl (ScriptNumError ''script number overflow'')
      else if require_minimal \<and> \<not> is_minimally_encoded vch
      then Inl (ScriptNumError ''non-minimally encoded script number'')
      else Inr (sn_decode_bytes vch))"

definition sn_getint :: "script_num \<Rightarrow> i32" where
  "sn_getint n =
     (if sint n > 2 ^ 31 - 1 then 0x7fffffff
      else if sint n < - (2 ^ 31) then 0x80000000
      else ucast n)"

text \<open>The loop of \<open>encode_i64\<close>: the bytes of \<open>absvalue\<close>, least significant first.\<close>

function abs_bytes :: "u64 \<Rightarrow> bytes" where
  "abs_bytes absvalue =
     (if absvalue > 0 then ucast (absvalue AND 0xff) # abs_bytes (drop_bit 8 absvalue) else [])"
  by pat_completeness auto
termination
proof (relation "measure unat")
  fix w :: u64
  assume "0 < w"
  then have "0 < unat w" by (simp add: word_less_nat_alt)
  then show "(drop_bit 8 w, w) \<in> measure unat" by (simp add: unat_drop_bit)
qed simp

declare abs_bytes.simps [simp del]

definition encode_i64_num :: "i64 \<Rightarrow> bytes" where
  "encode_i64_num value =
     (if value = 0 then []
      else
        let negative = sint value < 0;
            absvalue = (if negative then - value else value);
            result = abs_bytes absvalue
        in if last result AND 0x80 \<noteq> 0 then result @ [if negative then 0x80 else 0x00]
           else if negative then result[length result - 1 := last result OR 0x80]
           else result)"

definition sn_to_bytes :: "script_num \<Rightarrow> bytes" where
  "sn_to_bytes n = encode_i64_num n"

text \<open>
  Addition, subtraction and negation of the wrapped \<open>i64\<close>. They wrap here; with overflow
  checks the program panics instead, which operands of four bytes never cause.
\<close>

definition sn_add :: "script_num \<Rightarrow> script_num \<Rightarrow> script_num" where
  "sn_add a b = a + b"

definition sn_sub :: "script_num \<Rightarrow> script_num \<Rightarrow> script_num" where
  "sn_sub a b = a - b"

definition sn_neg :: "script_num \<Rightarrow> script_num" where
  "sn_neg a = - a"

section \<open>The number a byte string stands for\<close>

definition sn_value :: "bytes \<Rightarrow> int" where
  "sn_value vch =
     (if vch = [] then 0
      else
        let m = int (le_nat (butlast vch @ [last vch AND 0x7f]))
        in if last vch AND 0x80 \<noteq> 0 then - m else m)"

lemma u8_and_7f: "unat ((b :: u8) AND 0x7f) = unat b mod 128"
proof -
  have "b AND 0x7f = take_bit 7 b" by (simp add: take_bit_eq_mask mask_eq_exp_minus_1)
  then show ?thesis by (simp only: unsigned_take_bit_eq) (simp add: take_bit_eq_mod)
qed

lemma u8_and_80: "(b :: u8) AND 0x80 \<noteq> 0 \<longleftrightarrow> 128 \<le> unat b"
proof -
  have "bit b 7 \<longleftrightarrow> 128 \<le> unat b"
    using bit_top_iff [of b 7] unat_u8_less [of b] by simp
  then show ?thesis
    using bit_iff_and_push_bit_not_eq_0 [of b 7] by simp
qed

lemma u8_or_80: "unat (b :: u8) < 128 \<Longrightarrow> unat (b OR 0x80) = unat b + 128"
proof -
  assume b: "unat b < 128"
  then have "\<not> bit b 7" using u8_and_80 [of b] bit_iff_and_push_bit_not_eq_0 [of b 7] by simp
  then have "b AND 0x80 = 0" using bit_iff_and_push_bit_not_eq_0 [of b 7] by simp
  then have "b OR 0x80 = b + 0x80" by (simp add: disjunctive_add_eq_or)
  with b show ?thesis by (simp add: unat_word_ariths)
qed

lemma or_fold_le_nat:
  "length vch \<le> 8 \<Longrightarrow>
   foldl (\<lambda>result (i, byte). result OR push_bit (8 * i) (ucast byte)) 0 (enumerate 0 vch) =
   (of_nat (le_nat vch) :: i64)"
proof (induction vch rule: rev_induct)
  case Nil
  then show ?case by simp
next
  case (snoc b xs)
  let ?w = "of_nat (le_nat xs) :: i64" and ?p = "push_bit (8 * length xs) (ucast b) :: i64"
  have "le_nat xs < 2 ^ (8 * length xs)"
    using le_nat_bound [of xs] by (simp add: power_mult)
  moreover have "(2::nat) ^ (8 * length xs) \<le> 2 ^ 64"
    using snoc.prems by (intro power_increasing) simp_all
  ultimately have "unat ?w < 2 ^ (8 * length xs)"
    by (simp add: unat_of_nat)
  then have "\<not> bit ?w k" if "8 * length xs \<le> k" for k
    using that by (rule not_bit_of_unat_less)
  then have "?w AND ?p = 0"
    by (intro bit_eqI) (auto simp: bit_simps)
  then have "?w OR ?p = ?w + ?p" by (simp add: disjunctive_add_eq_or)
  also have "\<dots> = of_nat (le_nat (xs @ [b]))"
    by (simp add: le_nat_append push_bit_eq_mult power_mult mult.commute [of "ucast b"])
  finally show ?case
    using snoc by (simp add: enumerate_append_eq)
qed

lemma clear_sign_bit:
  assumes "length xs \<le> 7"
  shows "(of_nat (le_nat (xs @ [b])) :: i64) AND NOT (push_bit (8 * length xs) 0x80) =
    of_nat (le_nat (xs @ [b AND 0x7f]))"
proof -
  have eq: "(of_nat (le_nat (xs @ [c])) :: i64) =
    of_nat (le_nat xs) OR push_bit (8 * length xs) (ucast c)" for c :: u8
    using or_fold_le_nat [of "xs @ [c]"] or_fold_le_nat [of xs] assms
    by (simp add: enumerate_append_eq)
  have "le_nat xs < 2 ^ (8 * length xs)"
    using le_nat_bound [of xs] by (simp add: power_mult)
  moreover have "(2::nat) ^ (8 * length xs) \<le> 2 ^ 64"
    using assms by (intro power_increasing) simp_all
  ultimately have "unat (of_nat (le_nat xs) :: i64) < 2 ^ (8 * length xs)"
    by (simp add: unat_of_nat)
  then obtain w :: i64 where w: "of_nat (le_nat xs) = w" and low: "\<And>k. 8 * length xs \<le> k \<Longrightarrow> \<not> bit w k"
    using not_bit_of_unat_less by blast
  obtain c where c: "b AND 0x7f = c" and b7: "\<And>k. bit c k \<longleftrightarrow> bit b k \<and> k < 7"
  proof
    have "b AND 0x7f = take_bit 7 b" by (simp add: take_bit_eq_mask mask_eq_exp_minus_1)
    then show "bit (b AND 0x7f) k \<longleftrightarrow> bit b k \<and> k < 7" for k
      by (simp only: bit_take_bit_iff) auto
  qed simp
  have b8: "bit b k \<Longrightarrow> k < 8" for k
    using impossible_bit [of k b] by (cases "k < 8") auto
  show ?thesis
    unfolding eq w c
    by (rule bit_eqI) (auto simp: bit_simps b7 low dest: b8)
qed

lemma le_nat_signed_bound:
  "le_nat (xs @ [b AND 0x7f]) < 128 * 256 ^ length xs"
proof -
  have "le_nat (xs @ [b AND 0x7f]) \<le> le_nat xs + 256 ^ length xs * 127"
    using unat_u8_less [of b] by (simp add: le_nat_append u8_and_7f)
  then show ?thesis using le_nat_bound [of xs] by simp
qed

text \<open>Decoding is the sign-and-magnitude value, for strings that fit an \<open>i64\<close>.\<close>

lemma sint_of_nat: "m < 2 ^ 63 \<Longrightarrow> sint (of_nat m :: i64) = int m"
  by (simp add: signed_of_nat signed_take_bit_int_eq_self)

lemma sint_neg_of_nat: "m < 2 ^ 63 \<Longrightarrow> sint (- of_nat m :: i64) = - int m"
proof -
  assume "m < 2 ^ 63"
  then have "signed_take_bit 63 (- int m) = - int m"
    by (intro signed_take_bit_int_eq_self) simp_all
  moreover have "(- of_nat m :: i64) = of_int (- int m)" by simp
  ultimately show ?thesis by (simp only: signed_of_int) simp
qed

lemma sn_decode_value:
  assumes "length vch \<le> 8"
  shows "sint (sn_decode_bytes vch) = sn_value vch"
proof (cases vch rule: rev_cases)
  case Nil
  then show ?thesis by (simp add: sn_decode_bytes_def sn_value_def)
next
  case (snoc xs b)
  then have len: "length xs \<le> 7" using assms by simp
  have "(256::nat) ^ length xs \<le> 256 ^ 7" using len by (intro power_increasing) simp_all
  then have m: "le_nat (xs @ [b AND 0x7f]) < 2 ^ 63"
    using le_nat_signed_bound [of xs b] by simp
  show ?thesis
  proof (cases "b AND 0x80 = 0")
    case True
    then have "b AND 0x7f = b"
      using u8_and_80 [of b] u8_and_7f [of b] by (simp add: word_unat_eq_iff)
    with True m show ?thesis
      using or_fold_le_nat [OF assms]
      by (simp add: sn_decode_bytes_def sn_value_def snoc sint_of_nat)
  next
    case False
    with m show ?thesis
      using or_fold_le_nat [OF assms] clear_sign_bit [OF len, of b] sint_neg_of_nat [OF m]
      by (simp add: sn_decode_bytes_def sn_value_def snoc)
  qed
qed


section \<open>Encoding\<close>

lemma unat_low_byte: "unat (ucast (w AND 0xff) :: u8) = unat (w :: u64) mod 256"
proof -
  have "unat (w AND 0xff) = unat w mod 2 ^ 8"
    using unat_and_mask [of w 8] by (simp add: mask_eq_exp_minus_1)
  then show ?thesis by (simp add: unat_ucast)
qed

lemma abs_bytes_spec:
  "le_nat (abs_bytes w) = unat w \<and> (w \<noteq> 0 \<longrightarrow> abs_bytes w \<noteq> [] \<and> last (abs_bytes w) \<noteq> 0)"
proof (induction w rule: abs_bytes.induct)
  case (1 w)
  show ?case
  proof (cases "w = 0")
    case True
    then show ?thesis by (simp add: abs_bytes.simps)
  next
    case False
    let ?v = "drop_bit 8 w"
    have IH: "le_nat (abs_bytes ?v) = unat w div 256"
      "?v \<noteq> 0 \<Longrightarrow> abs_bytes ?v \<noteq> [] \<and> last (abs_bytes ?v) \<noteq> 0"
      using 1 False by (simp_all add: word_greater_zero_iff unat_drop_bit)
    have unfold: "abs_bytes w = ucast (w AND 0xff) # abs_bytes ?v"
      using False by (subst abs_bytes.simps) (simp add: word_greater_zero_iff)
    have "ucast (w AND 0xff) \<noteq> (0 :: u8)" if "?v = 0"
    proof -
      have "unat w div 256 = 0" using that unat_drop_bit [of 8 w] by simp
      moreover have "unat w \<noteq> 0" using False by (simp add: word_unat_eq_iff)
      ultimately have "unat w mod 256 \<noteq> 0" by (metis mod_0_imp_dvd dvd_div_eq_0_iff)
      then show ?thesis by (simp add: word_unat_eq_iff unat_low_byte)
    qed
    then show ?thesis
      using IH unfold unat_low_byte [of w] by (cases "?v = 0") (auto simp: abs_bytes.simps [of 0])
  qed
qed

lemma le_nat_pos: "bs \<noteq> [] \<Longrightarrow> last bs \<noteq> 0 \<Longrightarrow> 0 < le_nat bs"
  by (induction bs) (auto simp: word_unat_eq_iff split: if_splits)

text \<open>A string without a leading zero byte is determined by its number.\<close>

lemma le_nat_inj:
  "le_nat xs = le_nat ys \<Longrightarrow> (xs \<noteq> [] \<longrightarrow> last xs \<noteq> 0) \<Longrightarrow> (ys \<noteq> [] \<longrightarrow> last ys \<noteq> 0) \<Longrightarrow> xs = ys"
proof (induction xs arbitrary: ys)
  case Nil
  then show ?case using le_nat_pos [of ys] by auto
next
  case (Cons x xs)
  have "0 < le_nat (x # xs)" using Cons.prems(2) by (intro le_nat_pos) simp_all
  then obtain y ys' where ys: "ys = y # ys'"
    using Cons.prems(1) by (cases ys) simp_all
  have eq: "unat x + 256 * le_nat xs = unat y + 256 * le_nat ys'"
    using Cons.prems(1) by (simp add: ys)
  have "unat x = (unat x + 256 * le_nat xs) mod 256" by simp
  also have "\<dots> = unat y" unfolding eq by simp
  finally have x: "unat x = unat y" .
  then have "le_nat xs = le_nat ys'" using eq by simp
  then have "xs = ys'"
    by (rule Cons.IH) (use Cons.prems(2,3) ys in auto)
  with x show ?case by (simp add: ys word_unat_eq_iff)
qed

lemma abs_bytes_le_nat:
  assumes "length bs \<le> 8" "bs \<noteq> []" "last bs \<noteq> 0"
  shows "abs_bytes (of_nat (le_nat bs)) = bs"
proof -
  have "(256::nat) ^ length bs \<le> 256 ^ 8" using assms(1) by (intro power_increasing) simp_all
  then have u: "unat (of_nat (le_nat bs) :: u64) = le_nat bs"
    using le_nat_bound [of bs] by (intro unat_of_nat_id) simp
  then have "(of_nat (le_nat bs) :: u64) \<noteq> 0"
    using le_nat_pos [OF assms(2,3)] by (metis less_numeral_extra(3) unsigned_0)
  then show ?thesis
    using abs_bytes_spec [of "of_nat (le_nat bs)"] u assms by (intro le_nat_inj) auto
qed

text \<open>The sign a magnitude string carries.\<close>

definition put_sign :: "bool \<Rightarrow> bytes \<Rightarrow> bytes" where
  "put_sign negative bs =
     (if last bs AND 0x80 \<noteq> 0 then bs @ [if negative then 0x80 else 0x00]
      else if negative then bs[length bs - 1 := last bs OR 0x80]
      else bs)"

lemma encode_i64_put_sign:
  "value \<noteq> 0 \<Longrightarrow> encode_i64_num value =
     put_sign (sint value < 0) (abs_bytes (if sint value < 0 then - value else value))"
  by (simp add: encode_i64_num_def put_sign_def Let_def)

lemma put_sign_snoc:
  "put_sign neg (xs @ [b]) =
    (if 128 \<le> unat b then xs @ [b, if neg then 0x80 else 0x00]
     else xs @ [if neg then b OR 0x80 else b])"
  by (simp add: put_sign_def u8_and_80 list_update_append)

lemma sn_value_put_sign:
  assumes "bs \<noteq> []"
  shows "sn_value (put_sign neg bs) = (if neg then - int (le_nat bs) else int (le_nat bs))"
proof (cases bs rule: rev_cases)
  case (snoc xs b)
  have o: "(b OR 0x80) AND 0x7f = b" "b AND 0x7f = b" if "unat b < 128"
    using that u8_and_7f [of "b OR 0x80"] u8_or_80 [of b] u8_and_7f [of b]
    by (simp_all add: word_unat_eq_iff)
  show ?thesis
    using u8_or_80 [of b] o
    by (auto simp: snoc put_sign_snoc sn_value_def u8_and_80 le_nat_append butlast_append)
qed (use assms in simp)

lemma minimal_put_sign:
  assumes "bs \<noteq> []" "last bs \<noteq> 0"
  shows "is_minimally_encoded (put_sign neg bs)"
proof (cases bs rule: rev_cases)
  case (snoc xs b)
  have "unat b < 128 \<Longrightarrow> unat ((b OR 0x80) AND 0x7f) \<noteq> 0" "unat b < 128 \<Longrightarrow> unat (b AND 0x7f) \<noteq> 0"
    using u8_and_7f [of "b OR 0x80"] u8_or_80 [of b] u8_and_7f [of b] assms snoc
    by (simp_all add: word_unat_eq_iff)
  then show ?thesis
    using u8_and_80 [of b]
    by (auto simp: snoc put_sign_snoc is_minimally_encoded_def nth_append)
qed (use assms in simp)

lemma mod_128_high: "128 \<le> n \<Longrightarrow> n < 256 \<Longrightarrow> n mod 128 + 128 = (n :: nat)"
  by (simp add: le_mod_geq)

lemma mod_128_zero: "n mod 128 = 0 \<Longrightarrow> n < 256 \<Longrightarrow> n = 0 \<or> n = (128 :: nat)"
  using mod_128_high [of n] by (cases "128 \<le> n") auto

text \<open>Every minimal string carries the sign and the magnitude of exactly one number.\<close>

lemma minimal_cases:
  assumes "is_minimally_encoded vch" "vch \<noteq> []"
  obtains neg bs where "vch = put_sign neg bs" "bs \<noteq> []" "last bs \<noteq> 0" "length bs \<le> length vch"
proof -
  obtain xs b where v: "vch = xs @ [b]" using assms(2) by (metis rev_exhaust)
  show thesis
  proof (cases "b AND 0x7f = 0")
    case False
    let ?bs = "xs @ [b AND 0x7f]"
    have lt: "unat (b AND 0x7f) < 128" by (simp add: u8_and_7f)
    have "unat b mod 128 + 128 = unat b" if "128 \<le> unat b"
      using that unat_u8_less [of b] by (rule mod_128_high)
    then have "128 \<le> unat b \<Longrightarrow> (b AND 0x7f) OR 0x80 = b" "\<not> 128 \<le> unat b \<Longrightarrow> b AND 0x7f = b"
      using u8_or_80 [OF lt] u8_and_7f [of b] by (simp_all add: word_unat_eq_iff)
    then have sign: "vch = put_sign (128 \<le> unat b) ?bs"
      using lt by (simp add: put_sign_snoc v)
    have len: "length ?bs \<le> length vch" by (simp add: v)
    show thesis using False by (intro that [OF sign _ _ len]) simp_all
  next
    case True
    then obtain ys c where xs: "xs = ys @ [c]" "c AND 0x80 \<noteq> 0"
      using assms(1) v by (cases xs rule: rev_cases) (auto simp: is_minimally_encoded_def nth_append)
    have "unat b mod 128 = 0" using True u8_and_7f [of b] by simp
    then have "unat b = 0 \<or> unat b = 128" by (rule mod_128_zero) simp
    then have "b = 0 \<or> b = 0x80" by (simp add: word_unat_eq_iff)
    then have "vch = put_sign (b = 0x80) xs"
      using xs by (auto simp: v put_sign_snoc u8_and_80)
    moreover have "c \<noteq> 0" using xs(2) by auto
    moreover have "length xs \<le> length vch" by (simp add: v)
    ultimately show thesis using xs(1) by (intro that [of "b = 0x80" xs]) simp_all
  qed
qed


lemma minimal_Nil: "is_minimally_encoded []"
  by (simp add: is_minimally_encoded_def)

lemma encode_decode_minimal:
  assumes "length vch \<le> 8" "is_minimally_encoded vch"
  shows "encode_i64_num (sn_decode_bytes vch) = vch"
proof (cases "vch = []")
  case True
  then show ?thesis by (simp add: sn_decode_bytes_def encode_i64_num_def)
next
  case False
  then obtain neg bs where v: "vch = put_sign neg bs" and bs: "bs \<noteq> []" "last bs \<noteq> 0"
    "length bs \<le> length vch"
    using assms(2) minimal_cases by metis
  let ?v = "sn_decode_bytes vch" and ?m = "le_nat bs"
  have val: "sint ?v = (if neg then - int ?m else int ?m)"
    using sn_decode_value [OF assms(1)] sn_value_put_sign [OF bs(1)] v by simp
  have m: "0 < ?m" using bs by (simp add: le_nat_pos)
  then have neg: "sint ?v < 0 \<longleftrightarrow> neg" "?v \<noteq> 0" using val by (auto split: if_splits)
  have "(if neg then - ?v else ?v) = of_nat ?m"
  proof -
    have "?v = of_int (sint ?v)" by simp
    then show ?thesis unfolding val by (cases neg) simp_all
  qed
  then show ?thesis
    using encode_i64_put_sign [OF neg(2)] neg(1) abs_bytes_le_nat [of bs] bs assms(1) v by simp
qed

lemma decode_encode:
  assumes "length (encode_i64_num v) \<le> 8"
  shows "is_minimally_encoded (encode_i64_num v) \<and> sn_decode_bytes (encode_i64_num v) = v"
proof (cases "v = 0")
  case True
  then show ?thesis by (simp add: encode_i64_num_def sn_decode_bytes_def minimal_Nil)
next
  case False
  define neg w where nw: "neg \<longleftrightarrow> sint v < 0" "w = (if neg then - v else v)"
  define bs where "bs = abs_bytes w"
  have enc: "encode_i64_num v = put_sign neg bs"
    using encode_i64_put_sign [OF False] by (simp add: bs_def nw)
  have "w \<noteq> 0" using False by (simp add: nw)
  then have bs: "bs \<noteq> []" "last bs \<noteq> 0" "le_nat bs = unat w"
    using abs_bytes_spec [of w] by (simp_all add: bs_def)
  have "sint (sn_decode_bytes (encode_i64_num v)) = (if neg then - int (unat w) else int (unat w))"
    using sn_decode_value [OF assms] sn_value_put_sign [OF bs(1), of neg] unfolding enc bs(3) by simp
  then have "(of_int (sint (sn_decode_bytes (encode_i64_num v))) :: i64) =
    of_int (if neg then - int (unat w) else int (unat w))"
    by (rule arg_cong)
  then have "sn_decode_bytes (encode_i64_num v) = v"
    unfolding nw(2) by (cases neg) simp_all
  with minimal_put_sign [OF bs(1,2)] enc show ?thesis by simp
qed

lemma sint_of_int_id: "- (2 ^ 63) \<le> k \<Longrightarrow> k < 2 ^ 63 \<Longrightarrow> sint (of_int k :: i64) = k"
  by (simp add: signed_of_int signed_take_bit_int_eq_self)

lemma sint_arith:
  fixes a b :: i64
  shows "\<bar>sint a + sint b\<bar> < 2 ^ 63 \<Longrightarrow> sint (a + b) = sint a + sint b"
    and "\<bar>sint a - sint b\<bar> < 2 ^ 63 \<Longrightarrow> sint (a - b) = sint a - sint b"
    and "\<bar>sint a\<bar> < 2 ^ 63 \<Longrightarrow> sint (- a) = - sint a"
  using sint_of_int_id [of "sint a + sint b"] sint_of_int_id [of "sint a - sint b"]
    sint_of_int_id [of "- sint a"]
  by simp_all

lemma sn_from_bytes_bound:
  assumes "sn_from_bytes x m DEFAULT_MAX_NUM_SIZE = Inr a"
  shows "\<bar>sint a\<bar> < 2 ^ 31"
proof -
  have len: "length x \<le> 4" and a: "a = sn_decode_bytes x"
    using assms by (auto simp: sn_from_bytes_def DEFAULT_MAX_NUM_SIZE_def split: if_splits)
  then have val: "sint a = sn_value x" by (simp add: sn_decode_value)
  show ?thesis
  proof (cases x rule: rev_cases)
    case Nil
    then show ?thesis unfolding val by (simp add: sn_value_def)
  next
    case (snoc xs b)
    have "(256::nat) ^ length xs \<le> 256 ^ 3" using len snoc by (intro power_increasing) simp_all
    then have "le_nat (xs @ [b AND 0x7f]) < 2 ^ 31"
      using le_nat_signed_bound [of xs b] by simp
    then show ?thesis unfolding val by (simp add: sn_value_def snoc Let_def)
  qed
qed

section \<open>Main results\<close>

text \<open>C36: The script number codec is exact. With minimal encoding required, a byte string of at
  most \<open>max_num_size\<close> bytes decodes to \<open>v\<close> exactly when it is the encoding of \<open>v\<close>: every number has
  one accepted encoding, none is padded, and there is no negative zero.\<close>

theorem script_num_exact:
  assumes "max_num_size \<le> 8"
  shows "sn_from_bytes vch True max_num_size = Inr v \<longleftrightarrow>
    length vch \<le> max_num_size \<and> vch = sn_to_bytes v"
  using encode_decode_minimal [of vch] decode_encode [of v] assms
  by (auto simp: sn_from_bytes_def sn_to_bytes_def)

theorem script_num_exact_witness:
  "sn_from_bytes [0x2c, 0x81] True 4 = Inr (- 300)"
proof -
  have "sn_to_bytes (- 300) = [0x2c, 0x81]" by code_simp
  then show ?thesis using script_num_exact [of 4 "[0x2c, 0x81]" "- 300"] by simp
qed

text \<open>Operands of four bytes lie strictly between \<open>-2^31\<close> and \<open>2^31\<close>, so the sum, difference and
  negation of two of them are the mathematical ones: the \<open>i64\<close> arithmetic of the interpreter never
  overflows.\<close>

theorem script_num_no_overflow:
  assumes "sn_from_bytes x m1 DEFAULT_MAX_NUM_SIZE = Inr a"
    and "sn_from_bytes y m2 DEFAULT_MAX_NUM_SIZE = Inr b"
  shows "\<bar>sint a\<bar> < 2 ^ 31 \<and> sint (sn_add a b) = sint a + sint b \<and>
    sint (sn_sub a b) = sint a - sint b \<and> sint (sn_neg a) = - sint a"
  using sn_from_bytes_bound [OF assms(1)] sn_from_bytes_bound [OF assms(2)]
  by (auto simp: sn_add_def sn_sub_def sn_neg_def sint_arith)

theorem script_num_no_overflow_witness:
  "sint (sn_add (sn_decode_bytes [0xff, 0xff, 0xff, 0x7f]) (sn_decode_bytes [0xff, 0xff, 0xff, 0x7f])) = 2 * (2 ^ 31 - 1)"
proof -
  have d: "sn_from_bytes [0xff, 0xff, 0xff, 0x7f] False DEFAULT_MAX_NUM_SIZE =
    Inr (sn_decode_bytes [0xff, 0xff, 0xff, 0x7f])"
    by (simp add: sn_from_bytes_def DEFAULT_MAX_NUM_SIZE_def)
  have "sint (sn_decode_bytes [0xff, 0xff, 0xff, 0x7f]) = sn_value [0xff, 0xff, 0xff, 0x7f]"
    by (rule sn_decode_value) simp
  also have "\<dots> = 2147483647" by (simp add: sn_value_def)
  finally have v: "sint (sn_decode_bytes [0xff, 0xff, 0xff, 0x7f]) = 2147483647" .
  show ?thesis using script_num_no_overflow [OF d d] unfolding v by simp
qed

end
