(* ===== verification/Opcode.thy ===== *)
theory Opcode
  imports Prelude
begin

text \<open>
  The enumerations of \<open>qubitcoin-script\<close>: \<open>Opcode\<close> (\<open>opcode.rs\<close>), \<open>ScriptError\<close>
  (\<open>script_error.rs\<close>) and \<open>ScriptVerifyFlags\<close> (\<open>verify_flags.rs\<close>).

  \<open>Opcode\<close> is a field-less \<open>repr(u8)\<close> enumeration: a value is its discriminant byte, the
  cast \<open>op as u8\<close> is the identity, and every variant is an abbreviation for its byte.
  \<open>ErrX\<close> is the variant \<open>ScriptError::X\<close>. A flag set is a \<open>u32\<close>, as in the source.
\<close>

section \<open>Opcodes\<close>

type_synonym opcode = u8

abbreviation Op0 :: opcode where "Op0 \<equiv> 0x00"
abbreviation OpPushData1 :: opcode where "OpPushData1 \<equiv> 0x4c"
abbreviation OpPushData2 :: opcode where "OpPushData2 \<equiv> 0x4d"
abbreviation OpPushData4 :: opcode where "OpPushData4 \<equiv> 0x4e"
abbreviation Op1Negate :: opcode where "Op1Negate \<equiv> 0x4f"
abbreviation OpReserved :: opcode where "OpReserved \<equiv> 0x50"
abbreviation Op1 :: opcode where "Op1 \<equiv> 0x51"
abbreviation Op2 :: opcode where "Op2 \<equiv> 0x52"
abbreviation Op3 :: opcode where "Op3 \<equiv> 0x53"
abbreviation Op4 :: opcode where "Op4 \<equiv> 0x54"
abbreviation Op5 :: opcode where "Op5 \<equiv> 0x55"
abbreviation Op6 :: opcode where "Op6 \<equiv> 0x56"
abbreviation Op7 :: opcode where "Op7 \<equiv> 0x57"
abbreviation Op8 :: opcode where "Op8 \<equiv> 0x58"
abbreviation Op9 :: opcode where "Op9 \<equiv> 0x59"
abbreviation Op10 :: opcode where "Op10 \<equiv> 0x5a"
abbreviation Op11 :: opcode where "Op11 \<equiv> 0x5b"
abbreviation Op12 :: opcode where "Op12 \<equiv> 0x5c"
abbreviation Op13 :: opcode where "Op13 \<equiv> 0x5d"
abbreviation Op14 :: opcode where "Op14 \<equiv> 0x5e"
abbreviation Op15 :: opcode where "Op15 \<equiv> 0x5f"
abbreviation Op16 :: opcode where "Op16 \<equiv> 0x60"
abbreviation OpNop :: opcode where "OpNop \<equiv> 0x61"
abbreviation OpVer :: opcode where "OpVer \<equiv> 0x62"
abbreviation OpIf :: opcode where "OpIf \<equiv> 0x63"
abbreviation OpNotIf :: opcode where "OpNotIf \<equiv> 0x64"
abbreviation OpVerIf :: opcode where "OpVerIf \<equiv> 0x65"
abbreviation OpVerNotIf :: opcode where "OpVerNotIf \<equiv> 0x66"
abbreviation OpElse :: opcode where "OpElse \<equiv> 0x67"
abbreviation OpEndIf :: opcode where "OpEndIf \<equiv> 0x68"
abbreviation OpVerify :: opcode where "OpVerify \<equiv> 0x69"
abbreviation OpReturn :: opcode where "OpReturn \<equiv> 0x6a"
abbreviation OpToAltStack :: opcode where "OpToAltStack \<equiv> 0x6b"
abbreviation OpFromAltStack :: opcode where "OpFromAltStack \<equiv> 0x6c"
abbreviation Op2Drop :: opcode where "Op2Drop \<equiv> 0x6d"
abbreviation Op2Dup :: opcode where "Op2Dup \<equiv> 0x6e"
abbreviation Op3Dup :: opcode where "Op3Dup \<equiv> 0x6f"
abbreviation Op2Over :: opcode where "Op2Over \<equiv> 0x70"
abbreviation Op2Rot :: opcode where "Op2Rot \<equiv> 0x71"
abbreviation Op2Swap :: opcode where "Op2Swap \<equiv> 0x72"
abbreviation OpIfDup :: opcode where "OpIfDup \<equiv> 0x73"
abbreviation OpDepth :: opcode where "OpDepth \<equiv> 0x74"
abbreviation OpDrop :: opcode where "OpDrop \<equiv> 0x75"
abbreviation OpDup :: opcode where "OpDup \<equiv> 0x76"
abbreviation OpNip :: opcode where "OpNip \<equiv> 0x77"
abbreviation OpOver :: opcode where "OpOver \<equiv> 0x78"
abbreviation OpPick :: opcode where "OpPick \<equiv> 0x79"
abbreviation OpRoll :: opcode where "OpRoll \<equiv> 0x7a"
abbreviation OpRot :: opcode where "OpRot \<equiv> 0x7b"
abbreviation OpSwap :: opcode where "OpSwap \<equiv> 0x7c"
abbreviation OpTuck :: opcode where "OpTuck \<equiv> 0x7d"
abbreviation OpCat :: opcode where "OpCat \<equiv> 0x7e"
abbreviation OpSubStr :: opcode where "OpSubStr \<equiv> 0x7f"
abbreviation OpLeft :: opcode where "OpLeft \<equiv> 0x80"
abbreviation OpRight :: opcode where "OpRight \<equiv> 0x81"
abbreviation OpSize :: opcode where "OpSize \<equiv> 0x82"
abbreviation OpInvert :: opcode where "OpInvert \<equiv> 0x83"
abbreviation OpAnd :: opcode where "OpAnd \<equiv> 0x84"
abbreviation OpOr :: opcode where "OpOr \<equiv> 0x85"
abbreviation OpXor :: opcode where "OpXor \<equiv> 0x86"
abbreviation OpEqual :: opcode where "OpEqual \<equiv> 0x87"
abbreviation OpEqualVerify :: opcode where "OpEqualVerify \<equiv> 0x88"
abbreviation OpReserved1 :: opcode where "OpReserved1 \<equiv> 0x89"
abbreviation OpReserved2 :: opcode where "OpReserved2 \<equiv> 0x8a"
abbreviation Op1Add :: opcode where "Op1Add \<equiv> 0x8b"
abbreviation Op1Sub :: opcode where "Op1Sub \<equiv> 0x8c"
abbreviation Op2Mul :: opcode where "Op2Mul \<equiv> 0x8d"
abbreviation Op2Div :: opcode where "Op2Div \<equiv> 0x8e"
abbreviation OpNegate :: opcode where "OpNegate \<equiv> 0x8f"
abbreviation OpAbs :: opcode where "OpAbs \<equiv> 0x90"
abbreviation OpNot :: opcode where "OpNot \<equiv> 0x91"
abbreviation Op0NotEqual :: opcode where "Op0NotEqual \<equiv> 0x92"
abbreviation OpAdd :: opcode where "OpAdd \<equiv> 0x93"
abbreviation OpSub :: opcode where "OpSub \<equiv> 0x94"
abbreviation OpMul :: opcode where "OpMul \<equiv> 0x95"
abbreviation OpDiv :: opcode where "OpDiv \<equiv> 0x96"
abbreviation OpMod :: opcode where "OpMod \<equiv> 0x97"
abbreviation OpLShift :: opcode where "OpLShift \<equiv> 0x98"
abbreviation OpRShift :: opcode where "OpRShift \<equiv> 0x99"
abbreviation OpBoolAnd :: opcode where "OpBoolAnd \<equiv> 0x9a"
abbreviation OpBoolOr :: opcode where "OpBoolOr \<equiv> 0x9b"
abbreviation OpNumEqual :: opcode where "OpNumEqual \<equiv> 0x9c"
abbreviation OpNumEqualVerify :: opcode where "OpNumEqualVerify \<equiv> 0x9d"
abbreviation OpNumNotEqual :: opcode where "OpNumNotEqual \<equiv> 0x9e"
abbreviation OpLessThan :: opcode where "OpLessThan \<equiv> 0x9f"
abbreviation OpGreaterThan :: opcode where "OpGreaterThan \<equiv> 0xa0"
abbreviation OpLessThanOrEqual :: opcode where "OpLessThanOrEqual \<equiv> 0xa1"
abbreviation OpGreaterThanOrEqual :: opcode where "OpGreaterThanOrEqual \<equiv> 0xa2"
abbreviation OpMin :: opcode where "OpMin \<equiv> 0xa3"
abbreviation OpMax :: opcode where "OpMax \<equiv> 0xa4"
abbreviation OpWithin :: opcode where "OpWithin \<equiv> 0xa5"
abbreviation OpRipemd160 :: opcode where "OpRipemd160 \<equiv> 0xa6"
abbreviation OpSha1 :: opcode where "OpSha1 \<equiv> 0xa7"
abbreviation OpSha256 :: opcode where "OpSha256 \<equiv> 0xa8"
abbreviation OpHash160 :: opcode where "OpHash160 \<equiv> 0xa9"
abbreviation OpHash256 :: opcode where "OpHash256 \<equiv> 0xaa"
abbreviation OpCodeSeparator :: opcode where "OpCodeSeparator \<equiv> 0xab"
abbreviation OpCheckSig :: opcode where "OpCheckSig \<equiv> 0xac"
abbreviation OpCheckSigVerify :: opcode where "OpCheckSigVerify \<equiv> 0xad"
abbreviation OpCheckMultiSig :: opcode where "OpCheckMultiSig \<equiv> 0xae"
abbreviation OpCheckMultiSigVerify :: opcode where "OpCheckMultiSigVerify \<equiv> 0xaf"
abbreviation OpNop1 :: opcode where "OpNop1 \<equiv> 0xb0"
abbreviation OpCheckLockTimeVerify :: opcode where "OpCheckLockTimeVerify \<equiv> 0xb1"
abbreviation OpCheckSequenceVerify :: opcode where "OpCheckSequenceVerify \<equiv> 0xb2"
abbreviation OpNop4 :: opcode where "OpNop4 \<equiv> 0xb3"
abbreviation OpNop5 :: opcode where "OpNop5 \<equiv> 0xb4"
abbreviation OpNop6 :: opcode where "OpNop6 \<equiv> 0xb5"
abbreviation OpNop7 :: opcode where "OpNop7 \<equiv> 0xb6"
abbreviation OpNop8 :: opcode where "OpNop8 \<equiv> 0xb7"
abbreviation OpNop9 :: opcode where "OpNop9 \<equiv> 0xb8"
abbreviation OpNop10 :: opcode where "OpNop10 \<equiv> 0xb9"
abbreviation OpCheckSigAdd :: opcode where "OpCheckSigAdd \<equiv> 0xba"
abbreviation OpInvalidOpcode :: opcode where "OpInvalidOpcode \<equiv> 0xff"

text \<open>The variants of the enumeration.\<close>

definition opcodes :: "opcode list" where
  "opcodes =
     [Op0, OpPushData1, OpPushData2, OpPushData4, Op1Negate, OpReserved, Op1, Op2, Op3, Op4,
     Op5, Op6, Op7, Op8, Op9, Op10, Op11, Op12, Op13, Op14, Op15, Op16, OpNop, OpVer, OpIf,
     OpNotIf, OpVerIf, OpVerNotIf, OpElse, OpEndIf, OpVerify, OpReturn, OpToAltStack,
     OpFromAltStack, Op2Drop, Op2Dup, Op3Dup, Op2Over, Op2Rot, Op2Swap, OpIfDup, OpDepth,
     OpDrop, OpDup, OpNip, OpOver, OpPick, OpRoll, OpRot, OpSwap, OpTuck, OpCat, OpSubStr,
     OpLeft, OpRight, OpSize, OpInvert, OpAnd, OpOr, OpXor, OpEqual, OpEqualVerify,
     OpReserved1, OpReserved2, Op1Add, Op1Sub, Op2Mul, Op2Div, OpNegate, OpAbs, OpNot,
     Op0NotEqual, OpAdd, OpSub, OpMul, OpDiv, OpMod, OpLShift, OpRShift, OpBoolAnd, OpBoolOr,
     OpNumEqual, OpNumEqualVerify, OpNumNotEqual, OpLessThan, OpGreaterThan, OpLessThanOrEqual,
     OpGreaterThanOrEqual, OpMin, OpMax, OpWithin, OpRipemd160, OpSha1, OpSha256, OpHash160,
     OpHash256, OpCodeSeparator, OpCheckSig, OpCheckSigVerify, OpCheckMultiSig,
     OpCheckMultiSigVerify, OpNop1, OpCheckLockTimeVerify, OpCheckSequenceVerify, OpNop4,
     OpNop5, OpNop6, OpNop7, OpNop8, OpNop9, OpNop10, OpCheckSigAdd, OpInvalidOpcode]"

definition MAX_OPCODE :: u8 where
  "MAX_OPCODE = OpNop10"

definition opcode_from_u8 :: "u8 \<Rightarrow> opcode option" where
  "opcode_from_u8 byte = (if byte \<in> set opcodes then Some byte else None)"

definition opcode_names :: "(opcode \<times> string) list" where
  "opcode_names =
     [(Op0, ''OP_0''), (OpPushData1, ''OP_PUSHDATA1''), (OpPushData2, ''OP_PUSHDATA2''),
     (OpPushData4, ''OP_PUSHDATA4''), (Op1Negate, ''OP_1NEGATE''),
     (OpReserved, ''OP_RESERVED''), (Op1, ''OP_1''), (Op2, ''OP_2''), (Op3, ''OP_3''),
     (Op4, ''OP_4''), (Op5, ''OP_5''), (Op6, ''OP_6''), (Op7, ''OP_7''), (Op8, ''OP_8''),
     (Op9, ''OP_9''), (Op10, ''OP_10''), (Op11, ''OP_11''), (Op12, ''OP_12''),
     (Op13, ''OP_13''), (Op14, ''OP_14''), (Op15, ''OP_15''), (Op16, ''OP_16''),
     (OpNop, ''OP_NOP''), (OpVer, ''OP_VER''), (OpIf, ''OP_IF''), (OpNotIf, ''OP_NOTIF''),
     (OpVerIf, ''OP_VERIF''), (OpVerNotIf, ''OP_VERNOTIF''), (OpElse, ''OP_ELSE''),
     (OpEndIf, ''OP_ENDIF''), (OpVerify, ''OP_VERIFY''), (OpReturn, ''OP_RETURN''),
     (OpToAltStack, ''OP_TOALTSTACK''), (OpFromAltStack, ''OP_FROMALTSTACK''),
     (Op2Drop, ''OP_2DROP''), (Op2Dup, ''OP_2DUP''), (Op3Dup, ''OP_3DUP''),
     (Op2Over, ''OP_2OVER''), (Op2Rot, ''OP_2ROT''), (Op2Swap, ''OP_2SWAP''),
     (OpIfDup, ''OP_IFDUP''), (OpDepth, ''OP_DEPTH''), (OpDrop, ''OP_DROP''),
     (OpDup, ''OP_DUP''), (OpNip, ''OP_NIP''), (OpOver, ''OP_OVER''), (OpPick, ''OP_PICK''),
     (OpRoll, ''OP_ROLL''), (OpRot, ''OP_ROT''), (OpSwap, ''OP_SWAP''), (OpTuck, ''OP_TUCK''),
     (OpCat, ''OP_CAT''), (OpSubStr, ''OP_SUBSTR''), (OpLeft, ''OP_LEFT''),
     (OpRight, ''OP_RIGHT''), (OpSize, ''OP_SIZE''), (OpInvert, ''OP_INVERT''),
     (OpAnd, ''OP_AND''), (OpOr, ''OP_OR''), (OpXor, ''OP_XOR''), (OpEqual, ''OP_EQUAL''),
     (OpEqualVerify, ''OP_EQUALVERIFY''), (OpReserved1, ''OP_RESERVED1''),
     (OpReserved2, ''OP_RESERVED2''), (Op1Add, ''OP_1ADD''), (Op1Sub, ''OP_1SUB''),
     (Op2Mul, ''OP_2MUL''), (Op2Div, ''OP_2DIV''), (OpNegate, ''OP_NEGATE''),
     (OpAbs, ''OP_ABS''), (OpNot, ''OP_NOT''), (Op0NotEqual, ''OP_0NOTEQUAL''),
     (OpAdd, ''OP_ADD''), (OpSub, ''OP_SUB''), (OpMul, ''OP_MUL''), (OpDiv, ''OP_DIV''),
     (OpMod, ''OP_MOD''), (OpLShift, ''OP_LSHIFT''), (OpRShift, ''OP_RSHIFT''),
     (OpBoolAnd, ''OP_BOOLAND''), (OpBoolOr, ''OP_BOOLOR''), (OpNumEqual, ''OP_NUMEQUAL''),
     (OpNumEqualVerify, ''OP_NUMEQUALVERIFY''), (OpNumNotEqual, ''OP_NUMNOTEQUAL''),
     (OpLessThan, ''OP_LESSTHAN''), (OpGreaterThan, ''OP_GREATERTHAN''),
     (OpLessThanOrEqual, ''OP_LESSTHANOREQUAL''),
     (OpGreaterThanOrEqual, ''OP_GREATERTHANOREQUAL''), (OpMin, ''OP_MIN''),
     (OpMax, ''OP_MAX''), (OpWithin, ''OP_WITHIN''), (OpRipemd160, ''OP_RIPEMD160''),
     (OpSha1, ''OP_SHA1''), (OpSha256, ''OP_SHA256''), (OpHash160, ''OP_HASH160''),
     (OpHash256, ''OP_HASH256''), (OpCodeSeparator, ''OP_CODESEPARATOR''),
     (OpCheckSig, ''OP_CHECKSIG''), (OpCheckSigVerify, ''OP_CHECKSIGVERIFY''),
     (OpCheckMultiSig, ''OP_CHECKMULTISIG''),
     (OpCheckMultiSigVerify, ''OP_CHECKMULTISIGVERIFY''), (OpNop1, ''OP_NOP1''),
     (OpCheckLockTimeVerify, ''OP_CHECKLOCKTIMEVERIFY''),
     (OpCheckSequenceVerify, ''OP_CHECKSEQUENCEVERIFY''), (OpNop4, ''OP_NOP4''),
     (OpNop5, ''OP_NOP5''), (OpNop6, ''OP_NOP6''), (OpNop7, ''OP_NOP7''),
     (OpNop8, ''OP_NOP8''), (OpNop9, ''OP_NOP9''), (OpNop10, ''OP_NOP10''),
     (OpCheckSigAdd, ''OP_CHECKSIGADD''), (OpInvalidOpcode, ''OP_INVALIDOPCODE'')]"

definition opcode_name :: "opcode \<Rightarrow> string option" where
  "opcode_name op = map_of opcode_names op"

definition is_push :: "opcode \<Rightarrow> bool" where
  "is_push op \<longleftrightarrow> op \<le> Op16"

definition is_disabled :: "opcode \<Rightarrow> bool" where
  "is_disabled op \<longleftrightarrow> op \<in>
     {OpCat, OpSubStr, OpLeft, OpRight, OpInvert, OpAnd, OpOr, OpXor, Op2Mul, Op2Div, OpMul,
     OpDiv, OpMod, OpLShift, OpRShift}"

text \<open>The names \<open>name_to_opcode\<close> accepts, aliases and bare digits included.\<close>

definition opcode_aliases :: "(string \<times> opcode) list" where
  "opcode_aliases =
     [(''OP_0'', Op0), (''OP_FALSE'', Op0), (''0'', Op0), (''OP_PUSHDATA1'', OpPushData1),
     (''OP_PUSHDATA2'', OpPushData2), (''OP_PUSHDATA4'', OpPushData4),
     (''OP_1NEGATE'', Op1Negate), (''OP_RESERVED'', OpReserved), (''OP_1'', Op1),
     (''OP_TRUE'', Op1), (''1'', Op1), (''OP_2'', Op2), (''2'', Op2), (''OP_3'', Op3),
     (''3'', Op3), (''OP_4'', Op4), (''4'', Op4), (''OP_5'', Op5), (''5'', Op5),
     (''OP_6'', Op6), (''6'', Op6), (''OP_7'', Op7), (''7'', Op7), (''OP_8'', Op8),
     (''8'', Op8), (''OP_9'', Op9), (''9'', Op9), (''OP_10'', Op10), (''10'', Op10),
     (''OP_11'', Op11), (''11'', Op11), (''OP_12'', Op12), (''12'', Op12), (''OP_13'', Op13),
     (''13'', Op13), (''OP_14'', Op14), (''14'', Op14), (''OP_15'', Op15), (''15'', Op15),
     (''OP_16'', Op16), (''16'', Op16), (''OP_NOP'', OpNop), (''OP_IF'', OpIf),
     (''OP_NOTIF'', OpNotIf), (''OP_ELSE'', OpElse), (''OP_ENDIF'', OpEndIf),
     (''OP_VERIFY'', OpVerify), (''OP_RETURN'', OpReturn), (''OP_DUP'', OpDup),
     (''OP_EQUAL'', OpEqual), (''OP_EQUALVERIFY'', OpEqualVerify), (''OP_HASH160'', OpHash160),
     (''OP_HASH256'', OpHash256), (''OP_CHECKSIG'', OpCheckSig),
     (''OP_CHECKMULTISIG'', OpCheckMultiSig),
     (''OP_CHECKLOCKTIMEVERIFY'', OpCheckLockTimeVerify), (''OP_NOP2'', OpCheckLockTimeVerify),
     (''OP_CHECKSEQUENCEVERIFY'', OpCheckSequenceVerify), (''OP_NOP3'', OpCheckSequenceVerify),
     (''OP_CHECKSIGADD'', OpCheckSigAdd)]"

definition name_to_opcode :: "string \<Rightarrow> opcode option" where
  "name_to_opcode name = map_of opcode_aliases name"

section \<open>Script errors\<close>

datatype (plugins only: code size) script_error =
    ErrOk
  | ErrUnknownError
  | ErrEvalFalse
  | ErrOpReturn
  | ErrScriptNum
  | ErrScriptSize
  | ErrPushSize
  | ErrOpCount
  | ErrStackSize
  | ErrSigCount
  | ErrPubkeyCount
  | ErrVerify
  | ErrEqualVerify
  | ErrCheckMultiSigVerify
  | ErrCheckSigVerify
  | ErrNumEqualVerify
  | ErrBadOpcode
  | ErrDisabledOpcode
  | ErrInvalidStackOperation
  | ErrInvalidAltstackOperation
  | ErrUnbalancedConditional
  | ErrNegativeLocktime
  | ErrUnsatisfiedLocktime
  | ErrSigHashtype
  | ErrSigDer
  | ErrMinimalData
  | ErrSigPushOnly
  | ErrSigHighS
  | ErrSigNullDummy
  | ErrPubKeyType
  | ErrCleanStack
  | ErrMinimalIf
  | ErrSigNullFail
  | ErrDiscourageUpgradableNops
  | ErrDiscourageUpgradableWitnessProgram
  | ErrDiscourageUpgradableTaprootVersion
  | ErrDiscourageOpSuccess
  | ErrDiscourageUpgradablePubkeyType
  | ErrWitnessProgramWrongLength
  | ErrWitnessProgramWitnessEmpty
  | ErrWitnessProgramMismatch
  | ErrWitnessMalleated
  | ErrWitnessMalleatedP2sh
  | ErrWitnessUnexpected
  | ErrWitnessPubKeyType
  | ErrSchnorrSigSize
  | ErrSchnorrSigHashtype
  | ErrSchnorrSig
  | ErrTaprootWrongControlSize
  | ErrTapscriptValidationWeight
  | ErrTapscriptCheckMultiSig
  | ErrTapscriptMinimalIf
  | ErrTapscriptEmptyPubkey
  | ErrOpCodeSeparator
  | ErrSigFindAndDelete
  | ErrErrorCount

section \<open>Verification flags\<close>

type_synonym script_flags = u32

definition VERIFY_NONE :: script_flags where
  "VERIFY_NONE = 0"

definition VERIFY_P2SH :: script_flags where
  "VERIFY_P2SH = push_bit 0 1"

definition VERIFY_STRICTENC :: script_flags where
  "VERIFY_STRICTENC = push_bit 1 1"

definition VERIFY_DERSIG :: script_flags where
  "VERIFY_DERSIG = push_bit 2 1"

definition VERIFY_LOW_S :: script_flags where
  "VERIFY_LOW_S = push_bit 3 1"

definition VERIFY_NULLDUMMY :: script_flags where
  "VERIFY_NULLDUMMY = push_bit 4 1"

definition VERIFY_SIGPUSHONLY :: script_flags where
  "VERIFY_SIGPUSHONLY = push_bit 5 1"

definition VERIFY_MINIMALDATA :: script_flags where
  "VERIFY_MINIMALDATA = push_bit 6 1"

definition VERIFY_DISCOURAGE_UPGRADABLE_NOPS :: script_flags where
  "VERIFY_DISCOURAGE_UPGRADABLE_NOPS = push_bit 7 1"

definition VERIFY_CLEANSTACK :: script_flags where
  "VERIFY_CLEANSTACK = push_bit 8 1"

definition VERIFY_CHECKLOCKTIMEVERIFY :: script_flags where
  "VERIFY_CHECKLOCKTIMEVERIFY = push_bit 9 1"

definition VERIFY_CHECKSEQUENCEVERIFY :: script_flags where
  "VERIFY_CHECKSEQUENCEVERIFY = push_bit 10 1"

definition VERIFY_WITNESS :: script_flags where
  "VERIFY_WITNESS = push_bit 11 1"

definition VERIFY_DISCOURAGE_UPGRADABLE_WITNESS_PROGRAM :: script_flags where
  "VERIFY_DISCOURAGE_UPGRADABLE_WITNESS_PROGRAM = push_bit 12 1"

definition VERIFY_MINIMALIF :: script_flags where
  "VERIFY_MINIMALIF = push_bit 13 1"

definition VERIFY_NULLFAIL :: script_flags where
  "VERIFY_NULLFAIL = push_bit 14 1"

definition VERIFY_WITNESS_PUBKEYTYPE :: script_flags where
  "VERIFY_WITNESS_PUBKEYTYPE = push_bit 15 1"

definition VERIFY_CONST_SCRIPTCODE :: script_flags where
  "VERIFY_CONST_SCRIPTCODE = push_bit 16 1"

definition VERIFY_TAPROOT :: script_flags where
  "VERIFY_TAPROOT = push_bit 17 1"

definition VERIFY_DISCOURAGE_UPGRADABLE_TAPROOT_VERSION :: script_flags where
  "VERIFY_DISCOURAGE_UPGRADABLE_TAPROOT_VERSION = push_bit 18 1"

definition VERIFY_DISCOURAGE_OP_SUCCESS :: script_flags where
  "VERIFY_DISCOURAGE_OP_SUCCESS = push_bit 19 1"

definition VERIFY_DISCOURAGE_UPGRADABLE_PUBKEYTYPE :: script_flags where
  "VERIFY_DISCOURAGE_UPGRADABLE_PUBKEYTYPE = push_bit 20 1"

definition flags_contains :: "script_flags \<Rightarrow> script_flags \<Rightarrow> bool" where
  "flags_contains flags f \<longleftrightarrow> flags AND f = f"

definition MANDATORY_SCRIPT_VERIFY_FLAGS :: script_flags where
  "MANDATORY_SCRIPT_VERIFY_FLAGS =
     VERIFY_P2SH OR VERIFY_DERSIG OR VERIFY_NULLDUMMY OR VERIFY_CHECKLOCKTIMEVERIFY OR
     VERIFY_CHECKSEQUENCEVERIFY OR VERIFY_WITNESS OR VERIFY_TAPROOT"

definition STANDARD_SCRIPT_VERIFY_FLAGS :: script_flags where
  "STANDARD_SCRIPT_VERIFY_FLAGS =
     MANDATORY_SCRIPT_VERIFY_FLAGS OR VERIFY_STRICTENC OR VERIFY_MINIMALDATA OR
     VERIFY_DISCOURAGE_UPGRADABLE_NOPS OR VERIFY_CLEANSTACK OR VERIFY_MINIMALIF OR
     VERIFY_NULLFAIL OR VERIFY_LOW_S OR VERIFY_DISCOURAGE_UPGRADABLE_WITNESS_PROGRAM OR
     VERIFY_WITNESS_PUBKEYTYPE OR VERIFY_CONST_SCRIPTCODE OR
     VERIFY_DISCOURAGE_UPGRADABLE_TAPROOT_VERSION OR VERIFY_DISCOURAGE_OP_SUCCESS OR
     VERIFY_DISCOURAGE_UPGRADABLE_PUBKEYTYPE"

section \<open>Properties\<close>

lemma opcode_from_u8_Some: "opcode_from_u8 b = Some op \<longleftrightarrow> op = b \<and> b \<in> set opcodes"
  by (auto simp: opcode_from_u8_def)

text \<open>Names and opcodes: whatever name \<open>name_to_opcode\<close> knows, it reads back as the opcode of that name.\<close>

lemma name_to_opcode_names:
  "list_all (\<lambda>(op, name). case name_to_opcode name of None \<Rightarrow> True | Some op' \<Rightarrow> op' = op) opcode_names"
  by code_simp

lemma opcode_names_dom: "map fst opcode_names = opcodes"
  by (simp add: opcode_names_def opcodes_def)

lemma mandatory_standard: "flags_contains STANDARD_SCRIPT_VERIFY_FLAGS MANDATORY_SCRIPT_VERIFY_FLAGS"
  by (simp add: flags_contains_def STANDARD_SCRIPT_VERIFY_FLAGS_def or.assoc)

end
