(* ===== verification/Script.thy ===== *)
theory Script
  imports Serialize ScriptNum Opcode
begin

text \<open>
  The type \<open>Script\<close> of \<open>qubitcoin-script/src/script.rs\<close>: a byte string, its builders,
  the parser \<open>get_op\<close> and the loops over it (iteration, push-only check, deletion of a
  pattern, signature operation count), and the recognisers and builders of the standard templates.

  A script is its byte list. The parser takes a position and returns the next one; every loop over
  it ends because the position grows.
\<close>

section \<open>Constants and builders\<close>

type_synonym script = bytes

definition MAX_SCRIPT_ELEMENT_SIZE :: nat where
  "MAX_SCRIPT_ELEMENT_SIZE = 520"

definition MAX_OPS_PER_SCRIPT :: nat where
  "MAX_OPS_PER_SCRIPT = 201"

definition MAX_PUBKEYS_PER_MULTISIG :: nat where
  "MAX_PUBKEYS_PER_MULTISIG = 20"

definition MAX_SCRIPT_SIZE :: nat where
  "MAX_SCRIPT_SIZE = 10000"

definition MAX_STACK_SIZE :: nat where
  "MAX_STACK_SIZE = 1000"

definition LOCKTIME_THRESHOLD :: u32 where
  "LOCKTIME_THRESHOLD = 500000000"

definition ANNEX_TAG :: u8 where
  "ANNEX_TAG = 0x50"

definition VALIDATION_WEIGHT_PER_SIGOP_PASSED :: i64 where
  "VALIDATION_WEIGHT_PER_SIGOP_PASSED = 50"

definition VALIDATION_WEIGHT_OFFSET :: i64 where
  "VALIDATION_WEIGHT_OFFSET = 50"

definition push_opcode :: "script \<Rightarrow> opcode \<Rightarrow> script" where
  "push_opcode s op = s @ [op]"

definition push_data :: "script \<Rightarrow> bytes \<Rightarrow> script" where
  "push_data s d =
     (let len = length d in
      if len = 0 then s @ [Op0]
      else if len \<le> 0x4b then s @ [of_nat len] @ d
      else if len \<le> 0xff then s @ [OpPushData1] @ [of_nat len] @ d
      else if len \<le> 0xffff then s @ [OpPushData2] @ to_le_bytes (of_nat len :: u16) @ d
      else s @ [OpPushData4] @ to_le_bytes (of_nat len :: u32) @ d)"

definition push_int :: "script \<Rightarrow> i64 \<Rightarrow> script" where
  "push_int s n =
     (if n = - 1 \<or> (1 \<le> sint n \<and> sint n \<le> 16) then s @ [ucast n + (Op1 - 1)]
      else if n = 0 then s @ [Op0]
      else push_data s (encode_i64_num n))"

section \<open>The parser\<close>

text \<open>The slice \<open>data[pc..pc + n]\<close>, refused when it passes the end.\<close>

definition take_push :: "script \<Rightarrow> u8 \<Rightarrow> nat \<Rightarrow> nat \<Rightarrow> (u8 \<times> bytes \<times> nat) option" where
  "take_push s opcode pc n =
     (if pc + n > length s then None else Some (opcode, take n (drop pc s), pc + n))"

definition get_op :: "script \<Rightarrow> nat \<Rightarrow> (u8 \<times> bytes \<times> nat) option" where
  "get_op s pos =
     (if pos \<ge> length s then None
      else
        let opcode = s ! pos; pc = pos + 1 in
        if opcode \<le> 0x4b then take_push s opcode pc (unat opcode)
        else if opcode = OpPushData1 then
          if pc \<ge> length s then None
          else take_push s opcode (pc + 1) (unat (s ! pc))
        else if opcode = OpPushData2 then
          if pc + 2 > length s then None
          else take_push s opcode (pc + 2)
                 (unat (from_le_bytes [s ! pc, s ! (pc + 1)] :: u16))
        else if opcode = OpPushData4 then
          if pc + 4 > length s then None
          else take_push s opcode (pc + 4)
                 (unat (from_le_bytes [s ! pc, s ! (pc + 1), s ! (pc + 2), s ! (pc + 3)] :: u32))
        else Some (opcode, [], pc))"

lemma get_op_progress:
  "get_op s pos = Some (op, d, new) \<Longrightarrow>
   pos < new \<and> new \<le> length s \<and> op = s ! pos \<and> length d < new - pos"
  by (auto simp: get_op_def take_push_def Let_def split: if_splits)

text \<open>The iterator \<open>iter_ops\<close>: the operations from a position on.\<close>

function ops_from :: "script \<Rightarrow> nat \<Rightarrow> (u8 \<times> bytes) list" where
  "ops_from s pos =
     (case get_op s pos of None \<Rightarrow> [] | Some (op, d, new) \<Rightarrow> (op, d) # ops_from s new)"
  by pat_completeness auto
termination
  by (relation "measure (\<lambda>(s, pos). length s - pos)") (auto dest: get_op_progress)

definition iter_ops :: "script \<Rightarrow> (u8 \<times> bytes) list" where
  "iter_ops s = ops_from s 0"

function push_only_from :: "script \<Rightarrow> nat \<Rightarrow> bool" where
  "push_only_from s pos =
     (case get_op s pos of
        None \<Rightarrow> True
      | Some (op, d, new) \<Rightarrow> if op > Op16 then False else push_only_from s new)"
  by pat_completeness auto
termination
  by (relation "measure (\<lambda>(s, pos). length s - pos)") (auto dest: get_op_progress)

definition is_push_only :: "script \<Rightarrow> bool" where
  "is_push_only s = push_only_from s 0"

text \<open>The signature operations one opcode adds, given the opcode before it.\<close>

definition sigops_of :: "bool \<Rightarrow> u8 \<Rightarrow> u8 \<Rightarrow> nat" where
  "sigops_of accurate last_opcode op =
     (if op = OpCheckSig \<or> op = OpCheckSigVerify then 1
      else if op = OpCheckMultiSig \<or> op = OpCheckMultiSigVerify then
        if accurate \<and> last_opcode \<ge> Op1 \<and> last_opcode \<le> Op16
        then unat (last_opcode - (Op1 - 1))
        else MAX_PUBKEYS_PER_MULTISIG
      else 0)"

function sig_ops_from :: "script \<Rightarrow> bool \<Rightarrow> nat \<Rightarrow> u8 \<Rightarrow> nat \<Rightarrow> nat" where
  "sig_ops_from s accurate count last_opcode pos =
     (case get_op s pos of
        None \<Rightarrow> count
      | Some (op, d, new) \<Rightarrow>
          sig_ops_from s accurate (count + sigops_of accurate last_opcode op) op new)"
  by pat_completeness auto
termination
  by (relation "measure (\<lambda>(s, a, c, l, pos). length s - pos)") (auto dest: get_op_progress)

definition get_sig_op_count :: "script \<Rightarrow> bool \<Rightarrow> nat" where
  "get_sig_op_count s accurate = sig_ops_from s accurate 0 0 0"

section \<open>Deleting a pattern\<close>

text \<open>The inner loop: skip the pattern as often as it occurs at the position.\<close>

function skip_pattern :: "script \<Rightarrow> bytes \<Rightarrow> nat \<Rightarrow> nat \<Rightarrow> nat \<times> nat" where
  "skip_pattern s pattern pos n =
     (if pattern \<noteq> [] \<and> length s - pos \<ge> length pattern \<and>
         take (length pattern) (drop pos s) = pattern
      then skip_pattern s pattern (pos + length pattern) (n + 1)
      else (pos, n))"
  by pat_completeness auto
termination
  by (relation "measure (\<lambda>(s, p, pos, n). length s - pos)")
    (auto simp flip: length_greater_0_conv)

declare skip_pattern.simps [simp del]

lemma skip_pattern_mono: "pos \<le> fst (skip_pattern s p pos n)"
proof (induction s p pos n rule: skip_pattern.induct)
  case (1 s p pos n)
  then show ?case
    by (subst skip_pattern.simps) auto
qed

function delete_loop ::
  "script \<Rightarrow> bytes \<Rightarrow> nat \<Rightarrow> nat \<Rightarrow> bytes \<Rightarrow> nat \<Rightarrow> bytes \<times> nat \<times> nat" where
  "delete_loop s pattern pos copy_start result n =
     (case get_op s pos of
        None \<Rightarrow> (result, copy_start, n)
      | Some (op, d, new_pos) \<Rightarrow>
          let result = result @ take (pos - copy_start) (drop copy_start s);
              (pos, n) = skip_pattern s pattern pos n;
              copy_start = pos
          in delete_loop s pattern (if pos < new_pos then new_pos else pos) copy_start result n)"
  by pat_completeness auto
termination
  by (relation "measure (\<lambda>(s, p, pos, c, r, n). length s - pos)")
    (auto dest!: get_op_progress)

definition find_and_delete :: "script \<Rightarrow> bytes \<Rightarrow> script \<times> nat" where
  "find_and_delete s pattern =
     (if pattern = [] then (s, 0)
      else
        let (result, copy_start, n_found) = delete_loop s pattern 0 0 [] 0 in
        if n_found > 0 then (result @ drop copy_start s, n_found) else (s, 0))"

declare ops_from.simps [simp del] push_only_from.simps [simp del] sig_ops_from.simps [simp del]
  delete_loop.simps [simp del]

section \<open>Standard templates\<close>

definition is_p2sh :: "script \<Rightarrow> bool" where
  "is_p2sh s \<longleftrightarrow> length s = 23 \<and> s ! 0 = OpHash160 \<and> s ! 1 = 0x14 \<and> s ! 22 = OpEqual"

definition is_p2pkh :: "script \<Rightarrow> bool" where
  "is_p2pkh s \<longleftrightarrow> length s = 25 \<and> s ! 0 = OpDup \<and> s ! 1 = OpHash160 \<and> s ! 2 = 0x14 \<and>
     s ! 23 = OpEqualVerify \<and> s ! 24 = OpCheckSig"

definition is_witness_program :: "script \<Rightarrow> (u8 \<times> bytes) option" where
  "is_witness_program s =
     (if length s < 4 \<or> length s > 42 then None
      else
        let version_opcode = s ! 0 in
        if version_opcode \<noteq> Op0 \<and> \<not> (Op1 \<le> version_opcode \<and> version_opcode \<le> Op16) then None
        else
          let program_len = unat (s ! 1) in
          if program_len + 2 \<noteq> length s \<or> \<not> (2 \<le> program_len \<and> program_len \<le> 40) then None
          else
            let version = (if version_opcode = 0 then 0 else version_opcode - (Op1 - 1))
            in Some (version, drop 2 s))"

definition is_p2wpkh :: "script \<Rightarrow> bool" where
  "is_p2wpkh s \<longleftrightarrow> length s = 22 \<and> s ! 0 = Op0 \<and> s ! 1 = 0x14"

definition is_p2wsh :: "script \<Rightarrow> bool" where
  "is_p2wsh s \<longleftrightarrow> length s = 34 \<and> s ! 0 = Op0 \<and> s ! 1 = 0x20"

definition is_p2tr :: "script \<Rightarrow> bool" where
  "is_p2tr s \<longleftrightarrow> length s = 34 \<and> s ! 0 = Op1 \<and> s ! 1 = 0x20"

definition is_unspendable :: "script \<Rightarrow> bool" where
  "is_unspendable s \<longleftrightarrow> (length s > 0 \<and> s ! 0 = OpReturn) \<or> length s > MAX_SCRIPT_SIZE"

definition build_p2pkh :: "bytes \<Rightarrow> script" where
  "build_p2pkh h =
     push_opcode (push_opcode (push_data (push_opcode (push_opcode [] OpDup) OpHash160) h)
       OpEqualVerify) OpCheckSig"

definition build_p2sh :: "bytes \<Rightarrow> script" where
  "build_p2sh h = push_opcode (push_data (push_opcode [] OpHash160) h) OpEqual"

definition build_p2wpkh :: "bytes \<Rightarrow> script" where
  "build_p2wpkh h = push_data (push_opcode [] Op0) h"

definition build_p2wsh :: "bytes \<Rightarrow> script" where
  "build_p2wsh h = push_data (push_opcode [] Op0) h"

definition build_p2tr :: "bytes \<Rightarrow> script" where
  "build_p2tr k = push_data (push_opcode [] Op1) k"

definition build_op_return :: "bytes \<Rightarrow> script" where
  "build_op_return d =
     (let s = push_opcode [] OpReturn in if d \<noteq> [] then push_data s d else s)"

definition encode_script :: "script encoder" where
  "encode_script s = ser_seq (write_compact_size (of_nat (length s))) (s, length s)"

definition decode_script :: "script decoder" where
  "decode_script r = res_bind (decode_bytes r) (\<lambda>(data, r). Inr (data, r))"

section \<open>Parsing\<close>

text \<open>
  The size of the operation a string starts with: where its data begins and how long they are.
  It only depends on the first bytes.
\<close>

definition op_size :: "bytes \<Rightarrow> (nat \<times> nat) option" where
  "op_size s =
     (if s = [] then None
      else if s ! 0 \<le> 0x4b then Some (1, unat (s ! 0))
      else if s ! 0 = OpPushData1 then if length s < 2 then None else Some (2, unat (s ! 1))
      else if s ! 0 = OpPushData2 then
        if length s < 3 then None else Some (3, unat (from_le_bytes [s ! 1, s ! 2] :: u16))
      else if s ! 0 = OpPushData4 then
        if length s < 5 then None
        else Some (5, unat (from_le_bytes [s ! 1, s ! 2, s ! 3, s ! 4] :: u32))
      else Some (1, 0))"

lemma opcode_class:
  fixes op :: u8
  obtains "op \<le> 0x4b" | "op = OpPushData1" | "op = OpPushData2" | "op = OpPushData4"
  | "\<not> op \<le> 0x4b" "op \<noteq> OpPushData1" "op \<noteq> OpPushData2" "op \<noteq> OpPushData4"
  by blast

lemma op_size_class:
  "s \<noteq> [] \<Longrightarrow> s ! 0 \<le> 0x4b \<Longrightarrow> op_size s = Some (1, unat (s ! 0))"
  "s \<noteq> [] \<Longrightarrow> s ! 0 = OpPushData1 \<Longrightarrow>
     op_size s = (if length s < 2 then None else Some (2, unat (s ! 1)))"
  "s \<noteq> [] \<Longrightarrow> s ! 0 = OpPushData2 \<Longrightarrow>
     op_size s = (if length s < 3 then None else Some (3, unat (from_le_bytes [s ! 1, s ! 2] :: u16)))"
  "s \<noteq> [] \<Longrightarrow> s ! 0 = OpPushData4 \<Longrightarrow>
     op_size s = (if length s < 5 then None
       else Some (5, unat (from_le_bytes [s ! 1, s ! 2, s ! 3, s ! 4] :: u32)))"
  "s \<noteq> [] \<Longrightarrow> \<not> s ! 0 \<le> 0x4b \<Longrightarrow> s ! 0 \<noteq> OpPushData1 \<Longrightarrow> s ! 0 \<noteq> OpPushData2 \<Longrightarrow>
     s ! 0 \<noteq> OpPushData4 \<Longrightarrow> op_size s = Some (1, 0)"
  by (simp_all add: op_size_def)

lemma get_op_size:
  assumes "pos \<le> length s"
  shows "get_op s pos =
    (case op_size (drop pos s) of
       None \<Rightarrow> None
     | Some (h, n) \<Rightarrow>
         if pos + h + n > length s then None
         else Some (s ! pos, take n (drop (pos + h) s), pos + h + n))"
proof (cases "pos = length s")
  case False
  then have p: "pos < length s" "drop pos s \<noteq> []" "drop pos s ! 0 = s ! pos"
    using assms by simp_all
  have n: "pos + 1 + 1 = pos + 2" "pos + 1 + 2 = pos + 3" "pos + 1 + 3 = pos + 4" "pos + 1 + 4 = pos + 5"
    by simp_all
  note sz = op_size_class [OF p(2), unfolded p(3)]
  show ?thesis
  proof (cases "s ! pos" rule: opcode_class)
    case 1
    with p show ?thesis by (simp only: get_op_def take_push_def Let_def sz n) simp
  next
    case 2
    with p show ?thesis by (simp only: get_op_def take_push_def Let_def sz n) auto
  next
    case 3
    with p show ?thesis by (simp only: get_op_def take_push_def Let_def sz n) auto
  next
    case 4
    with p show ?thesis by (simp only: get_op_def take_push_def Let_def sz n) auto
  next
    case 5
    with p show ?thesis using sz(5) [OF 5] by (simp add: get_op_def Let_def)
  qed
qed (simp add: get_op_def op_size_def)

lemma op_size_append: "op_size s = Some hn \<Longrightarrow> op_size (s @ t) = Some hn"
  by (cases "s ! 0" rule: opcode_class; cases "s = []")
    (auto simp: op_size_def nth_append split: if_splits)

lemma op_size_take: "op_size s = Some (h, n) \<Longrightarrow> h \<le> m \<Longrightarrow> op_size (take m s) = Some (h, n)"
  by (cases "s ! 0" rule: opcode_class; cases "s = []")
    (auto simp: op_size_def split: if_splits)

lemma op_size_header: "op_size s = Some (h, n) \<Longrightarrow> 0 < h \<and> h \<le> length s"
  by (auto simp: op_size_def Suc_le_eq split: if_splits)

lemma get_op_Some_iff:
  assumes "pos \<le> length s"
  shows "get_op s pos = Some (op, d, new) \<longleftrightarrow>
    (\<exists>h. op_size (drop pos s) = Some (h, length d) \<and> new = pos + h + length d \<and>
       new \<le> length s \<and> op = s ! pos \<and> d = take (length d) (drop (pos + h) s))"
  using op_size_header [of "drop pos s"]
  by (auto simp: get_op_size [OF assms] min_def split: option.splits if_splits)

text \<open>The parser only looks at the bytes from its position on, and not past the operation.\<close>

lemma get_op_append:
  "get_op (a @ s) (length a + pos) =
   map_option (\<lambda>(op, d, new). (op, d, length a + new)) (get_op s pos)"
proof (cases "pos \<le> length s")
  case True
  then show ?thesis by (simp add: get_op_size split: option.split)
qed (simp add: get_op_def)

lemma get_op_prefix: "get_op s pos = Some r \<Longrightarrow> get_op (s @ t) pos = Some r"
  using get_op_progress [of s pos "fst r" "fst (snd r)" "snd (snd r)"]
  by (cases "pos \<le> length s")
    (auto simp: get_op_size op_size_append nth_append split: option.splits if_splits)

lemma get_op_slice:
  assumes "get_op s pos = Some (op, d, new)"
  shows "get_op (take (new - pos) (drop pos s)) 0 = Some (op, d, new - pos)"
proof -
  have p: "pos < new" "new \<le> length s" using get_op_progress [OF assms] by auto
  then obtain h where h: "op_size (drop pos s) = Some (h, length d)" "new = pos + h + length d"
    "op = s ! pos" "d = take (length d) (drop (pos + h) s)"
    using assms by (auto simp: get_op_Some_iff)
  then have "op_size (take (new - pos) (drop pos s)) = Some (h, length d)"
    by (intro op_size_take) simp_all
  moreover have "drop h (take (h + length d) (drop pos s)) = d"
    using h(4) by (simp add: drop_take add.commute)
  ultimately show ?thesis
    using h p by (simp add: get_op_size)
qed

text \<open>Pushing data appends one operation, which parses to the data.\<close>

lemma push_data_append: "push_data s d = s @ push_data [] d"
  by (simp add: push_data_def Let_def)

lemma u16_le_bytes: "n < 65536 \<Longrightarrow> unat (from_le_bytes (to_le_bytes (of_nat n :: u16)) :: u16) = n"
  by (simp add: byte_simps unat_of_nat)

lemma u32_le_bytes: "n < 4294967296 \<Longrightarrow> unat (from_le_bytes (to_le_bytes (of_nat n :: u32)) :: u32) = n"
  by (simp add: byte_simps unat_of_nat)

lemma list_of_2: "length xs = 2 \<Longrightarrow> [xs ! 0, xs ! Suc 0] = xs"
  by (cases xs; cases "tl xs") auto

lemma list_of_4: "length xs = 4 \<Longrightarrow> [xs ! 0, xs ! Suc 0, xs ! 2, xs ! 3] = xs"
proof -
  assume "length xs = 4"
  then have "[xs ! 0, xs ! Suc 0] = take 2 xs" "[xs ! 2, xs ! 3] = drop 2 xs"
    using list_of_2 [of "take 2 xs"] list_of_2 [of "drop 2 xs"] by simp_all
  then show ?thesis
    by (metis append_Cons append_Nil append_take_drop_id)
qed

definition push_header :: "nat \<Rightarrow> nat" where
  "push_header n = (if n \<le> 0x4b then 1 else if n \<le> 0xff then 2 else if n \<le> 0xffff then 3 else 5)"

lemma length_push_data: "length (push_data [] d) = push_header (length d) + length d"
  by (simp add: push_data_def Let_def push_header_def)

lemma op_size_push_data:
  assumes "length d < 2 ^ 32"
  shows "op_size (push_data [] d) = Some (push_header (length d), length d)"
proof -
  consider "length d = 0" | "0 < length d" "length d \<le> 0x4b" | "0x4b < length d" "length d \<le> 0xff"
    | "0xff < length d" "length d \<le> 0xffff" | "0xffff < length d" by linarith
  then show ?thesis
  proof cases
    case 1
    then show ?thesis by (simp add: push_data_def push_header_def op_size_def)
  next
    case 2
    then have "(of_nat (length d) :: u8) \<le> 0x4b" "unat (of_nat (length d) :: u8) = length d"
      "push_data [] d = of_nat (length d) # d"
      by (auto simp: push_data_def Let_def word_le_nat_alt unat_of_nat)
    with 2 show ?thesis by (simp add: push_header_def op_size_class(1))
  next
    case 3
    then have "unat (of_nat (length d) :: u8) = length d"
      "push_data [] d = OpPushData1 # of_nat (length d) # d"
      by (auto simp: push_data_def Let_def unat_of_nat)
    with 3 show ?thesis by (simp add: push_header_def op_size_class(2))
  next
    case 4
    let ?b = "to_le_bytes (of_nat (length d) :: u16)"
    have pd: "push_data [] d = OpPushData2 # ?b @ d" using 4 by (auto simp: push_data_def Let_def)
    have "op_size (push_data [] d) = Some (3, unat (from_le_bytes [?b ! 0, ?b ! 1] :: u16))"
      unfolding pd by (subst op_size_class(3)) (simp_all add: nth_append)
    with 4 show ?thesis by (simp add: list_of_2 u16_le_bytes push_header_def)
  next
    case 5
    let ?b = "to_le_bytes (of_nat (length d) :: u32)"
    have pd: "push_data [] d = OpPushData4 # ?b @ d" using 5 by (auto simp: push_data_def Let_def)
    have "op_size (push_data [] d) =
      Some (5, unat (from_le_bytes [?b ! 0, ?b ! 1, ?b ! 2, ?b ! 3] :: u32))"
      unfolding pd by (subst op_size_class(4)) (simp_all add: nth_append)
    with 5 show ?thesis using assms by (simp add: list_of_4 u32_le_bytes push_header_def)
  qed
qed

lemma drop_push_data: "drop (push_header (length d)) (push_data [] d) = d"
  by (simp add: push_data_def push_header_def Let_def)

lemma get_op_push_data:
  assumes "length d < 2 ^ 32"
  shows "get_op (pre @ push_data [] d @ suf) (length pre) =
    Some (push_data [] d ! 0, d, length pre + length (push_data [] d))"
proof -
  have "get_op (push_data [] d) 0 = Some (push_data [] d ! 0, d, length (push_data [] d))"
    by (simp add: get_op_size op_size_push_data [OF assms] length_push_data drop_push_data)
  then have "get_op (push_data [] d @ suf) 0 = Some (push_data [] d ! 0, d, length (push_data [] d))"
    by (rule get_op_prefix)
  then show ?thesis
    using get_op_append [of pre "push_data [] d @ suf" 0] by simp
qed


section \<open>Loops over the operations\<close>

lemma push_only_from_ops: "push_only_from s pos \<longleftrightarrow> list_all (\<lambda>(op, d). op \<le> Op16) (ops_from s pos)"
proof (induction s pos rule: ops_from.induct)
  case (1 s pos)
  then show ?case
    by (subst ops_from.simps, subst push_only_from.simps) (auto split: option.split)
qed

lemma is_push_only_ops: "is_push_only s \<longleftrightarrow> list_all (\<lambda>(op, d). op \<le> Op16) (iter_ops s)"
  by (simp add: is_push_only_def iter_ops_def push_only_from_ops)

text \<open>The count of a list of operations, each with the one before it.\<close>

fun sigops_list :: "bool \<Rightarrow> u8 \<Rightarrow> (u8 \<times> bytes) list \<Rightarrow> nat" where
  "sigops_list accurate prev [] = 0"
| "sigops_list accurate prev ((op, d) # ops) =
     sigops_of accurate prev op + sigops_list accurate op ops"

lemma sig_ops_from_ops:
  "sig_ops_from s accurate count prev pos = count + sigops_list accurate prev (ops_from s pos)"
proof (induction s accurate count prev pos rule: sig_ops_from.induct)
  case (1 s accurate count prev pos)
  then show ?case
    by (subst ops_from.simps, subst sig_ops_from.simps) (auto split: option.split)
qed

lemma get_sig_op_count_ops: "get_sig_op_count s accurate = sigops_list accurate 0 (iter_ops s)"
  by (simp add: get_sig_op_count_def sig_ops_from_ops iter_ops_def)

lemma sigops_of_le: "sigops_of accurate prev op \<le> sigops_of False prev op"
  "sigops_of accurate prev op \<le> 20"
proof -
  have "unat (prev - 80) \<le> 16" if "81 \<le> prev" "prev \<le> 96"
  proof -
    have "80 \<le> prev" using that(1) by (simp add: word_le_nat_alt)
    then show ?thesis using that by (simp add: unat_sub word_le_nat_alt)
  qed
  then show "sigops_of accurate prev op \<le> sigops_of False prev op"
    "sigops_of accurate prev op \<le> 20"
    by (fastforce simp: sigops_of_def MAX_PUBKEYS_PER_MULTISIG_def)+
qed

lemma sigops_list_le: "sigops_list accurate prev ops \<le> sigops_list False prev ops"
  "sigops_list accurate prev ops \<le> 20 * length ops"
proof (induction accurate prev ops rule: sigops_list.induct)
  case (2 accurate prev op d ops)
  case 1
  show ?case using 2 by (simp add: add_le_mono sigops_of_le)
next
  case (2 accurate prev op d ops)
  case 2
  show ?case using sigops_of_le(2) [of accurate prev op] \<open>sigops_list accurate op ops \<le> 20 * length ops\<close> by simp
qed simp_all

lemma ops_from_length: "length (ops_from s pos) \<le> length s - pos"
proof (induction s pos rule: ops_from.induct)
  case (1 s pos)
  show ?case
  proof (cases "get_op s pos")
    case (Some r)
    then obtain op d new where r: "get_op s pos = Some (op, d, new)" by (cases r) auto
    then have "length (ops_from s new) \<le> length s - new" "pos < new" "new \<le> length s"
      using 1 get_op_progress [OF r] by auto
    then show ?thesis by (subst ops_from.simps) (simp add: r)
  qed (simp add: ops_from.simps)
qed

section \<open>Deletion\<close>

text \<open>The operations from a position on as byte strings, and the bytes no operation covers.\<close>

function op_slices :: "script \<Rightarrow> nat \<Rightarrow> bytes list" where
  "op_slices s pos =
     (case get_op s pos of
        None \<Rightarrow> []
      | Some (op, d, new) \<Rightarrow> take (new - pos) (drop pos s) # op_slices s new)"
  by pat_completeness auto
termination
  by (relation "measure (\<lambda>(s, pos). length s - pos)") (auto dest: get_op_progress)

function op_end :: "script \<Rightarrow> nat \<Rightarrow> nat" where
  "op_end s pos = (case get_op s pos of None \<Rightarrow> pos | Some (op, d, new) \<Rightarrow> op_end s new)"
  by pat_completeness auto
termination
  by (relation "measure (\<lambda>(s, pos). length s - pos)") (auto dest: get_op_progress)

declare op_slices.simps [simp del] op_end.simps [simp del]


lemma op_end_le: "pos \<le> length s \<Longrightarrow> op_end s pos \<le> length s"
proof (induction s pos rule: op_end.induct)
  case (1 s pos)
  show ?case
  proof (cases "get_op s pos")
    case (Some r)
    then obtain op d new where r: "get_op s pos = Some (op, d, new)" by (cases r) auto
    then show ?thesis
      using 1 get_op_progress [OF r] by (subst op_end.simps) auto
  qed (use 1 in \<open>simp add: op_end.simps\<close>)
qed

lemma take_drop_split: "a \<le> b \<Longrightarrow> take (b - a) (drop a s) @ drop b s = drop a s"
  by (metis append_take_drop_id drop_drop le_add_diff_inverse2)

lemma concat_slices: "concat (op_slices s pos) @ drop (op_end s pos) s = drop pos s"
proof (induction s pos rule: op_slices.induct)
  case (1 s pos)
  show ?case
  proof (cases "get_op s pos")
    case (Some r)
    then obtain op d new where r: "get_op s pos = Some (op, d, new)" by (cases r) auto
    then have "concat (op_slices s new) @ drop (op_end s new) s = drop new s" "pos < new"
      using 1 get_op_progress [OF r] by auto
    then show ?thesis
      using take_drop_split [of pos new s]
      by (subst op_slices.simps, subst op_end.simps) (simp add: r)
  qed (simp add: op_slices.simps op_end.simps)
qed

text \<open>A pattern that is one whole operation occurs at a position of the parser exactly when the next operation is it.\<close>

definition whole_op :: "bytes \<Rightarrow> bool" where
  "whole_op p \<longleftrightarrow> (\<exists>op d. get_op p 0 = Some (op, d, length p))"

lemma whole_op_nonempty: "whole_op p \<Longrightarrow> p \<noteq> []"
  by (auto simp: whole_op_def get_op_def)

lemma whole_op_match:
  assumes "whole_op p" "take (length p) (drop pos s) = p" "pos \<le> length s"
  shows "\<exists>op d. get_op s pos = Some (op, d, pos + length p)"
proof -
  obtain op d where "get_op p 0 = Some (op, d, length p)" using assms(1) by (auto simp: whole_op_def)
  then have "get_op (p @ drop (pos + length p) s) 0 = Some (op, d, length p)" by (rule get_op_prefix)
  moreover have "s = take pos s @ p @ drop (pos + length p) s"
    using assms(2) by (metis append_take_drop_id drop_drop add.commute)
  moreover have "length (take pos s) = pos" using assms(3) by simp
  ultimately show ?thesis
    using get_op_append [of "take pos s" "p @ drop (pos + length p) s" 0]
    by auto
qed

lemma slices_Some:
  assumes "get_op s pos = Some (op, d, new)"
  shows "op_slices s pos = take (new - pos) (drop pos s) # op_slices s new"
    and "op_end s pos = op_end s new"
  by (subst op_slices.simps, simp add: assms) (subst op_end.simps, simp add: assms)

lemma slices_None:
  assumes "get_op s pos = None"
  shows "op_slices s pos = []" and "op_end s pos = pos"
  by (subst op_slices.simps, simp add: assms) (subst op_end.simps, simp add: assms)

lemma skip_pattern_slices:
  assumes "whole_op p" "pos \<le> length s"
  shows "\<exists>k. skip_pattern s p pos n = (pos + k * length p, n + k) \<and> pos + k * length p \<le> length s \<and>
    op_slices s pos = replicate k p @ op_slices s (pos + k * length p) \<and>
    op_end s pos = op_end s (pos + k * length p) \<and>
    take (length p) (drop (pos + k * length p) s) \<noteq> p"
  using assms
proof (induction s p pos n rule: skip_pattern.induct)
  case (1 s p pos n)
  note p = whole_op_nonempty [OF 1(2)]
  show ?case
  proof (cases "take (length p) (drop pos s) = p")
    case False
    then have "skip_pattern s p pos n = (pos, n)" by (subst skip_pattern.simps) simp
    with False 1(3) show ?thesis by (intro exI [of _ 0]) simp
  next
    case True
    then have len: "length s - pos \<ge> length p" by (metis length_drop length_take min.cobounded1)
    obtain op d where op: "get_op s pos = Some (op, d, pos + length p)"
      using whole_op_match [OF 1(2) True 1(3)] by blast
    have step: "skip_pattern s p pos n = skip_pattern s p (pos + length p) (n + 1)"
      using True len p by (subst skip_pattern.simps) simp
    have "pos + length p \<le> length s" using get_op_progress [OF op] by simp
    then obtain k where "skip_pattern s p (pos + length p) (n + 1) = (pos + length p + k * length p, n + 1 + k) \<and>
      pos + length p + k * length p \<le> length s \<and>
      op_slices s (pos + length p) = replicate k p @ op_slices s (pos + length p + k * length p) \<and>
      op_end s (pos + length p) = op_end s (pos + length p + k * length p) \<and>
      take (length p) (drop (pos + length p + k * length p) s) \<noteq> p"
      using 1(1) [OF _ 1(2)] p len True by auto
    then show ?thesis
      using step slices_Some [OF op] True by (intro exI [of _ "Suc k"]) (simp add: add.assoc)
  qed
qed

lemma count_list_replicate: "count_list (replicate k p) p = k"
  by (induction k) simp_all

lemma delete_loop_slices:
  assumes "whole_op p" "cs \<le> pos" "pos \<le> length s"
    and "delete_loop s p pos cs res n = (res', cs', n')"
  shows "res' @ drop cs' s = res @ take (pos - cs) (drop cs s) @
      concat (filter (\<lambda>x. x \<noteq> p) (op_slices s pos)) @ drop (op_end s pos) s \<and>
    n' = n + count_list (op_slices s pos) p"
  using assms
proof (induction s p pos cs res n rule: delete_loop.induct)
  case (1 s p pos cs res n)
  show ?case
  proof (cases "get_op s pos")
    case None
    then have "(res', cs', n') = (res, cs, n)" using 1(5) by (subst (asm) delete_loop.simps) simp
    with 1(3) show ?thesis
      using take_drop_split [of cs pos s] by (simp add: slices_None [OF None])
  next
    case (Some r)
    then obtain op d new where r: "get_op s pos = Some (op, d, new)" by (cases r) auto
    note new = get_op_progress [OF r]
    obtain k where k: "skip_pattern s p pos n = (pos + k * length p, n + k)"
      "pos + k * length p \<le> length s" "op_slices s pos = replicate k p @ op_slices s (pos + k * length p)"
      "op_end s pos = op_end s (pos + k * length p)"
      "take (length p) (drop (pos + k * length p) s) \<noteq> p"
      using skip_pattern_slices [OF 1(2,4)] by blast
    let ?pos1 = "pos + k * length p" and ?res = "res @ take (pos - cs) (drop cs s)"
    let ?pos2 = "if ?pos1 < new then new else ?pos1"
    have loop: "delete_loop s p ?pos2 ?pos1 ?res (n + k) = (res', cs', n')"
      using 1(5) by (subst (asm) delete_loop.simps) (simp add: r k(1))
    have IH: "res' @ drop cs' s = ?res @ take (?pos2 - ?pos1) (drop ?pos1 s) @
        concat (filter (\<lambda>x. x \<noteq> p) (op_slices s ?pos2)) @ drop (op_end s ?pos2) s \<and>
      n' = n + k + count_list (op_slices s ?pos2) p"
      using loop k(2) new by (intro 1(1) [OF r refl refl refl k(1) [symmetric] refl refl 1(2)]) auto
    show ?thesis
    proof (cases k)
      case 0
      have "take (new - pos) (drop pos s) \<noteq> p"
      proof
        assume eq: "take (new - pos) (drop pos s) = p"
        then have "length p = new - pos" using new by auto
        with k(5) 0 eq show False by simp
      qed
      with 0 IH new show ?thesis by (simp add: slices_Some [OF r])
    next
      case (Suc k')
      then have "take (new - pos) (drop pos s) = p" using k(3) slices_Some(1) [OF r] by simp
      then have "length p = new - pos" using new by (metis diff_le_mono length_drop length_take min.absorb2)
      then have "?pos2 = ?pos1" using Suc new by simp
      with IH k(3,4) show ?thesis by (simp add: count_list_replicate)
    qed
  qed
qed

lemma filter_ne_all: "count_list xs p = 0 \<Longrightarrow> filter (\<lambda>x. x \<noteq> p) xs = xs"
  by (simp add: count_list_0_iff filter_id_conv) metis

lemma find_and_delete_slices:
  assumes "whole_op p"
  shows "find_and_delete s p =
    (concat (filter (\<lambda>x. x \<noteq> p) (op_slices s 0)) @ drop (op_end s 0) s,
     count_list (op_slices s 0) p)"
proof -
  obtain res' cs' n' where d: "delete_loop s p 0 0 [] 0 = (res', cs', n')" by (metis prod_cases3)
  note L = delete_loop_slices [OF assms _ _ d, simplified]
  show ?thesis
    using L whole_op_nonempty [OF assms] filter_ne_all [of "op_slices s 0" p] concat_slices [of s 0]
    by (auto simp: find_and_delete_def d)
qed

lemma whole_op_push_data: "length d < 2 ^ 32 \<Longrightarrow> whole_op (push_data [] d)"
  using get_op_push_data [of d "[]" "[]"] by (auto simp: whole_op_def)


section \<open>Templates\<close>

lemma drop_nth: "n < length s \<Longrightarrow> drop n s = s ! n # drop (n + 1) s"
  by (simp add: Cons_nth_drop_Suc)

lemma two_byte_header: "2 \<le> length s \<Longrightarrow> s = [s ! 0, s ! 1] @ drop 2 s"
  by (cases s; cases "tl s") auto

lemma push_data_small: "0 < length d \<Longrightarrow> length d \<le> 0x4b \<Longrightarrow> push_data s d = s @ of_nat (length d) # d"
  by (auto simp: push_data_def Let_def)

lemma build_p2pkh_bytes:
  "length h = 20 \<Longrightarrow> build_p2pkh h = [0x76, 0xa9, 0x14] @ h @ [0x88, 0xac]"
  by (simp add: build_p2pkh_def push_opcode_def push_data_small)

lemma build_p2sh_bytes: "length h = 20 \<Longrightarrow> build_p2sh h = [0xa9, 0x14] @ h @ [0x87]"
  by (simp add: build_p2sh_def push_opcode_def push_data_small)

lemma build_witness_bytes:
  "length h = 20 \<Longrightarrow> build_p2wpkh h = [0x00, 0x14] @ h"
  "length k = 32 \<Longrightarrow> build_p2wsh k = [0x00, 0x20] @ k"
  "length k = 32 \<Longrightarrow> build_p2tr k = [0x51, 0x20] @ k"
  by (simp_all add: build_p2wpkh_def build_p2wsh_def build_p2tr_def push_opcode_def push_data_small)

lemma is_p2pkh_iff: "is_p2pkh s \<longleftrightarrow> (\<exists>h. length h = 20 \<and> s = build_p2pkh h)"
proof
  assume s: "is_p2pkh s"
  then have len: "length s = 25" by (simp add: is_p2pkh_def)
  have "s = s ! 0 # s ! 1 # s ! 2 # drop 3 s"
    using len two_byte_header [of s] drop_nth [of 2 s] by simp
  moreover have "drop 3 s = take 20 (drop 3 s) @ drop 23 s"
    using append_take_drop_id [of 20 "drop 3 s"] by simp
  moreover have "drop 23 s = [s ! 23, s ! 24]"
    using len drop_nth [of 23 s] drop_nth [of 24 s] by simp
  ultimately have "s = [0x76, 0xa9, 0x14] @ take 20 (drop 3 s) @ [0x88, 0xac]"
    using s by (simp add: is_p2pkh_def)
  moreover have "length (take 20 (drop 3 s)) = 20" using len by simp
  ultimately show "\<exists>h. length h = 20 \<and> s = build_p2pkh h"
    using build_p2pkh_bytes by metis
qed (auto simp: is_p2pkh_def build_p2pkh_bytes nth_append)

lemma is_p2sh_iff: "is_p2sh s \<longleftrightarrow> (\<exists>h. length h = 20 \<and> s = build_p2sh h)"
proof
  assume s: "is_p2sh s"
  then have len: "length s = 23" by (simp add: is_p2sh_def)
  have "s = s ! 0 # s ! 1 # drop 2 s"
    using len two_byte_header [of s] by simp
  moreover have "drop 2 s = take 20 (drop 2 s) @ drop 22 s"
    using append_take_drop_id [of 20 "drop 2 s"] by simp
  moreover have "drop 22 s = [s ! 22]"
    using len drop_nth [of 22 s] by simp
  ultimately have "s = [0xa9, 0x14] @ take 20 (drop 2 s) @ [0x87]"
    using s by (simp add: is_p2sh_def)
  moreover have "length (take 20 (drop 2 s)) = 20" using len by simp
  ultimately show "\<exists>h. length h = 20 \<and> s = build_p2sh h"
    using build_p2sh_bytes by metis
qed (auto simp: is_p2sh_def build_p2sh_bytes nth_append)

lemma is_p2wpkh_iff: "is_p2wpkh s \<longleftrightarrow> (\<exists>h. length h = 20 \<and> s = build_p2wpkh h)"
  using two_byte_header [of s]
  by (auto simp: is_p2wpkh_def build_witness_bytes intro!: exI [of _ "drop 2 s"])

lemma is_p2wsh_iff: "is_p2wsh s \<longleftrightarrow> (\<exists>h. length h = 32 \<and> s = build_p2wsh h)"
  using two_byte_header [of s]
  by (auto simp: is_p2wsh_def build_witness_bytes intro!: exI [of _ "drop 2 s"])

lemma is_p2tr_iff: "is_p2tr s \<longleftrightarrow> (\<exists>h. length h = 32 \<and> s = build_p2tr h)"
  using two_byte_header [of s]
  by (auto simp: is_p2tr_def build_witness_bytes intro!: exI [of _ "drop 2 s"])

text \<open>A witness program is a version opcode and one direct push of 2 to 40 bytes.\<close>

definition version_opcode :: "u8 \<Rightarrow> opcode" where
  "version_opcode v = (if v = 0 then Op0 else v + (Op1 - 1))"

lemma is_witness_program_iff:
  "is_witness_program s = Some (v, p) \<longleftrightarrow>
   v \<le> 16 \<and> 2 \<le> length p \<and> length p \<le> 40 \<and> s = version_opcode v # of_nat (length p) # p"
proof
  assume w: "is_witness_program s = Some (v, p)"
  then have len: "4 \<le> length s" "unat (s ! 1) + 2 = length s" "2 \<le> unat (s ! 1)" "unat (s ! 1) \<le> 40"
    and p: "p = drop 2 s"
    and v: "v = (if s ! 0 = 0 then 0 else s ! 0 - 80)" "s ! 0 = 0 \<or> 81 \<le> s ! 0 \<and> s ! 0 \<le> 96"
    by (auto simp: is_witness_program_def Let_def split: if_splits)
  have lp: "length p = unat (s ! 1)" using p len by simp
  have "unat v \<le> 16 \<and> (s ! 0 \<noteq> 0 \<longrightarrow> v \<noteq> 0)"
  proof (cases "s ! 0 = 0")
    case False
    then have b: "81 \<le> unat (s ! 0)" "unat (s ! 0) \<le> 96" using v(2) by (simp_all add: word_le_nat_alt)
    then have "unat v = unat (s ! 0) - 80"
      using False v(1) unat_sub [of 80 "s ! 0"] by (simp add: word_le_nat_alt)
    with b show ?thesis by (auto simp: word_unat_eq_iff)
  qed (simp add: v)
  then have "v \<le> 16" "s ! 0 = version_opcode v"
    using v(1) by (auto simp: version_opcode_def word_le_nat_alt)
  then show "v \<le> 16 \<and> 2 \<le> length p \<and> length p \<le> 40 \<and> s = version_opcode v # of_nat (length p) # p"
    using lp len p two_byte_header [of s] by simp
next
  assume a: "v \<le> 16 \<and> 2 \<le> length p \<and> length p \<le> 40 \<and> s = version_opcode v # of_nat (length p) # p"
  then have lp: "unat (of_nat (length p) :: u8) = length p" by (simp add: unat_of_nat)
  have "unat (v + 80) = unat v + 80" using a by (simp add: unat_word_ariths word_le_nat_alt)
  then have "v \<noteq> 0 \<Longrightarrow> 81 \<le> v + 80" "v + 80 \<le> 96" "v \<noteq> 0 \<Longrightarrow> v + 80 \<noteq> 0"
    using a by (auto simp: word_le_nat_alt word_unat_eq_iff [of v 0] word_unat_eq_iff [of "v + 80" 0])
  with a lp show "is_witness_program s = Some (v, p)"
    by (auto simp: is_witness_program_def Let_def version_opcode_def)
qed

section \<open>Serialisation\<close>

interpretation script_codec: strict_codec encode_script decode_script "\<lambda>s. fits_max (length s)"
proof -
  have "res_bind r Inr = r" for r :: "ser_error + bytes \<times> bytes"
    by (cases r) simp_all
  then have "encode_script = encode_bytes" "decode_script = decode_bytes"
    by (auto simp: fun_eq_iff encode_script_def encode_bytes_def decode_script_def)
  then show "strict_codec encode_script decode_script (\<lambda>s. fits_max (length s))"
    using bytes.strict_codec_axioms by simp
qed


section \<open>Main results\<close>

text \<open>What a builder pushes, the parser reads back. Wherever \<open>push_data\<close> appended some data, the parser
  at that position returns exactly the data and stops right after them, whatever comes before and
  after; all five push forms are covered.\<close>

theorem push_data_parses:
  assumes "length d < 2 ^ 32"
  shows "get_op (push_data pre d @ suf) (length pre) =
    Some (push_data [] d ! 0, d, length (push_data pre d))"
  using get_op_push_data [OF assms, of pre suf] by (simp add: push_data_append [of pre])

theorem push_data_parses_witness:
  "get_op (push_data [OpDup] (replicate 76 7) @ [OpEqual]) 1 = Some (OpPushData1, replicate 76 7, 79)"
  using push_data_parses [of "replicate 76 7" "[OpDup]" "[OpEqual]"] by (simp add: push_data_def)

text \<open>Deleting a signature push deletes exactly the operations equal to it. For a pattern that
  is a whole push, as every pattern of the interpreter is, \<open>find_and_delete\<close> keeps the other
  operations and the unparsed tail in order, and counts the deleted ones; it never cuts inside an operation.\<close>

theorem find_and_delete_exact:
  assumes "length sig < 2 ^ 32"
  shows "find_and_delete s (push_data [] sig) =
    (concat (filter (\<lambda>x. x \<noteq> push_data [] sig) (op_slices s 0)) @ drop (op_end s 0) s,
     count_list (op_slices s 0) (push_data [] sig)) \<and>
    concat (op_slices s 0) @ drop (op_end s 0) s = s"
  using find_and_delete_slices [OF whole_op_push_data [OF assms]] concat_slices [of s 0] by simp

theorem find_and_delete_exact_witness:
  "find_and_delete [2, 7, 7, 1, 7, 1, 7, OpDup] (push_data [] [7]) = ([2, 7, 7, OpDup], 2)"
proof -
  have "op_slices [2, 7, 7, 1, 7, 1, 7, OpDup] 0 = [[2, 7, 7], [1, 7], [1, 7], [OpDup]]"
    and "op_end [2, 7, 7, 1, 7, 1, 7, OpDup] 0 = 8"
    by code_simp+
  then show ?thesis
    using find_and_delete_exact [of "[7]" "[2, 7, 7, 1, 7, 1, 7, OpDup]"]
    by (simp add: push_data_def)
qed

text \<open>The recognisers accept exactly what the builders build: P2PKH, P2SH, P2WPKH, P2WSH and P2TR
  outputs are recognised if and only if they are the template around a hash of the right length, and a
  witness program is a version opcode from 0 to 16 followed by one direct push of 2 to 40 bytes.\<close>

theorem templates_exact:
  "(is_p2pkh s \<longleftrightarrow> (\<exists>h. length h = 20 \<and> s = build_p2pkh h)) \<and>
   (is_p2sh s \<longleftrightarrow> (\<exists>h. length h = 20 \<and> s = build_p2sh h)) \<and>
   (is_p2wpkh s \<longleftrightarrow> (\<exists>h. length h = 20 \<and> s = build_p2wpkh h)) \<and>
   (is_p2wsh s \<longleftrightarrow> (\<exists>h. length h = 32 \<and> s = build_p2wsh h)) \<and>
   (is_p2tr s \<longleftrightarrow> (\<exists>h. length h = 32 \<and> s = build_p2tr h)) \<and>
   (is_witness_program s = Some (v, p) \<longleftrightarrow>
      v \<le> 16 \<and> 2 \<le> length p \<and> length p \<le> 40 \<and> s = version_opcode v # of_nat (length p) # p)"
  by (intro conjI is_p2pkh_iff is_p2sh_iff is_p2wpkh_iff is_p2wsh_iff is_p2tr_iff
      is_witness_program_iff)

text \<open>The signature operation count is a sum over the parsed operations; the accurate count never
  exceeds the inaccurate one, and neither exceeds twenty per byte of script.\<close>

theorem sig_op_count_bounds:
  "get_sig_op_count s accurate = sigops_list accurate 0 (iter_ops s) \<and>
   get_sig_op_count s True \<le> get_sig_op_count s False \<and>
   get_sig_op_count s accurate \<le> 20 * length s"
proof -
  have "sigops_list accurate 0 (iter_ops s) \<le> 20 * length (iter_ops s)"
    by (rule sigops_list_le)
  also have "\<dots> \<le> 20 * length s"
    using ops_from_length [of s 0] by (simp add: iter_ops_def)
  finally show ?thesis
    using sigops_list_le(1) [of True 0 "iter_ops s"] by (simp add: get_sig_op_count_ops)
qed

end
