(* ===== verification/ScriptStack.thy ===== *)
theory ScriptStack
  imports Script
begin

text \<open>
  The parts of the interpreter \<open>qubitcoin-script/src/interpreter.rs\<close> below the opcode loop:
  the value stack, the boolean reading of a value, the data carried through an execution, the
  interface of the signature checker, the encoding checks of signatures and keys, the minimal push
  rule and the condition stack.

  A \<open>ScriptStack\<close> is its vector: index 0 is the bottom, the top is the last element. A
  function that reports through \<open>error\<close> and returns \<open>false\<close> is a sum with the error on the
  left. What the source takes from other packages (hash functions, secp256k1) is the record
  \<open>crypto\<close>; the trait \<open>SignatureChecker\<close> is the record \<open>checker\<close>.
\<close>

section \<open>Constants\<close>

definition SEQUENCE_LOCKTIME_DISABLE_FLAG :: u32 where
  "SEQUENCE_LOCKTIME_DISABLE_FLAG = push_bit 31 1"

definition TAPROOT_LEAF_MASK :: u8 where
  "TAPROOT_LEAF_MASK = 0xfe"

definition TAPROOT_LEAF_TAPSCRIPT :: u8 where
  "TAPROOT_LEAF_TAPSCRIPT = 0xc0"

definition TAPROOT_CONTROL_BASE_SIZE :: nat where
  "TAPROOT_CONTROL_BASE_SIZE = 33"

definition TAPROOT_CONTROL_NODE_SIZE :: nat where
  "TAPROOT_CONTROL_NODE_SIZE = 32"

definition TAPROOT_CONTROL_MAX_NODE_COUNT :: nat where
  "TAPROOT_CONTROL_MAX_NODE_COUNT = 128"

definition TAPROOT_CONTROL_MAX_SIZE :: nat where
  "TAPROOT_CONTROL_MAX_SIZE =
     TAPROOT_CONTROL_BASE_SIZE + TAPROOT_CONTROL_NODE_SIZE * TAPROOT_CONTROL_MAX_NODE_COUNT"

section \<open>The value stack\<close>

type_synonym stack_value = bytes
type_synonym script_stack = "stack_value list"

definition ss_push :: "script_stack \<Rightarrow> stack_value \<Rightarrow> script_stack" where
  "ss_push s v = s @ [v]"

definition ss_pop :: "script_stack \<Rightarrow> script_error + (stack_value \<times> script_stack)" where
  "ss_pop s = (if s = [] then Inl ErrInvalidStackOperation else Inr (last s, butlast s))"

definition ss_top :: "script_stack \<Rightarrow> int \<Rightarrow> script_error + stack_value" where
  "ss_top s offset =
     (let idx = int (length s) + offset in
      if idx < 0 \<or> idx \<ge> int (length s) then Inl ErrInvalidStackOperation
      else Inr (s ! nat idx))"

text \<open>
  \<open>top(-k).unwrap()\<close> and \<open>let _ = pop()\<close>, which the interpreter only calls after it checked
  the size.
\<close>

definition stack_top :: "script_stack \<Rightarrow> nat \<Rightarrow> stack_value" where
  "stack_top s k = s ! (length s - k)"

definition stack_drop :: "nat \<Rightarrow> script_stack \<Rightarrow> script_stack" where
  "stack_drop k s = take (length s - k) s"

definition ss_erase :: "script_stack \<Rightarrow> nat \<Rightarrow> nat \<Rightarrow> script_stack" where
  "ss_erase s first last' = take first s @ drop last' s"

definition ss_insert :: "script_stack \<Rightarrow> nat \<Rightarrow> stack_value \<Rightarrow> script_stack" where
  "ss_insert s position v = take position s @ v # drop position s"

definition ss_swap :: "script_stack \<Rightarrow> nat \<Rightarrow> nat \<Rightarrow> script_stack" where
  "ss_swap s a b = s[a := s ! b, b := s ! a]"

text \<open>The operations relative to the end: the offset \<open>-k\<close> is given as \<open>k\<close>.\<close>

definition ss_swap_top :: "script_stack \<Rightarrow> nat \<Rightarrow> nat \<Rightarrow> script_stack" where
  "ss_swap_top s a b = ss_swap s (length s - a) (length s - b)"

definition ss_erase_top :: "script_stack \<Rightarrow> nat \<Rightarrow> script_stack" where
  "ss_erase_top s k = ss_erase s (length s - k) (length s - k + 1)"

definition ss_erase_top_range :: "script_stack \<Rightarrow> nat \<Rightarrow> nat \<Rightarrow> script_stack" where
  "ss_erase_top_range s from to' = ss_erase s (length s - from) (length s - to')"

definition ss_insert_top :: "script_stack \<Rightarrow> nat \<Rightarrow> stack_value \<Rightarrow> script_stack" where
  "ss_insert_top s k v = ss_insert s (length s - k) v"

text \<open>The loop returns at the first byte that is not zero.\<close>

definition cast_to_bool :: "bytes \<Rightarrow> bool" where
  "cast_to_bool vch =
     (case find (\<lambda>(i, byte). byte \<noteq> 0) (enumerate 0 vch) of
        None \<Rightarrow> False
      | Some (i, byte) \<Rightarrow> \<not> (i = length vch - 1 \<and> byte = 0x80))"

section \<open>Execution data and the checker\<close>

datatype sig_version = Base | WitnessV0 | Taproot | Tapscript

record exec_data =
  tapleaf_hash_init :: bool
  tapleaf_hash :: bytes
  codeseparator_pos_init :: bool
  codeseparator_pos :: u32
  validation_weight_left_init :: bool
  validation_weight_left :: i64
  annex_init :: bool
  annex_present :: bool
  annex_hash :: bytes

definition exec_data_default :: exec_data where
  "exec_data_default = \<lparr>
     tapleaf_hash_init = False, tapleaf_hash = replicate 32 0,
     codeseparator_pos_init = False, codeseparator_pos = 0,
     validation_weight_left_init = False, validation_weight_left = 0,
     annex_init = False, annex_present = False, annex_hash = replicate 32 0\<rparr>"

type_synonym script_witness = "bytes list"

text \<open>
  \<open>check_schnorr_signature\<close> gets the error variable and returns it, possibly changed, with its
  verdict.
\<close>

record checker =
  check_ecdsa_signature :: "bytes \<Rightarrow> bytes \<Rightarrow> script \<Rightarrow> sig_version \<Rightarrow> bool"
  check_schnorr_signature ::
    "bytes \<Rightarrow> bytes \<Rightarrow> sig_version \<Rightarrow> exec_data \<Rightarrow> script_error \<Rightarrow> bool \<times> script_error"
  check_lock_time :: "script_num \<Rightarrow> bool"
  check_sequence :: "script_num \<Rightarrow> bool"

definition base_signature_checker :: checker where
  "base_signature_checker = \<lparr>
     check_ecdsa_signature = (\<lambda>sig pubkey script_code sigversion. False),
     check_schnorr_signature = (\<lambda>sig pubkey sigversion exec error. (False, ErrSchnorrSig)),
     check_lock_time = (\<lambda>lock_time. False),
     check_sequence = (\<lambda>sequence. False)\<rparr>"

text \<open>
  The functions of other packages: the hash functions of \<open>bitcoin_hashes\<close>; of secp256k1 the
  DER parser with the comparison to the normalised signature (\<open>der_is_low_s\<close>: \<open>None\<close> when
  the parser fails), the parser of x-only keys, the range check of scalars, and the tweak check.
\<close>

record crypto =
  ripemd160_hash :: "bytes \<Rightarrow> bytes"
  sha1_hash :: "bytes \<Rightarrow> bytes"
  sha256_hash :: "bytes \<Rightarrow> bytes"
  hash160 :: "bytes \<Rightarrow> bytes"
  hash256 :: "bytes \<Rightarrow> bytes"
  der_is_low_s :: "bytes \<Rightarrow> bool option"
  xonly_from_slice :: "bytes \<Rightarrow> bytes option"
  scalar_in_range :: "bytes \<Rightarrow> bool"
  tweak_add_check :: "bytes \<Rightarrow> bytes \<Rightarrow> bool \<Rightarrow> bytes \<Rightarrow> bool"

text \<open>The digests have the sizes their array types have.\<close>

definition crypto_ok :: "crypto \<Rightarrow> bool" where
  "crypto_ok C \<longleftrightarrow> (\<forall>x. length (ripemd160_hash C x) = 20 \<and> length (sha1_hash C x) = 20 \<and>
     length (sha256_hash C x) = 32 \<and> length (hash160 C x) = 20 \<and> length (hash256 C x) = 32)"

definition tagged_hash :: "crypto \<Rightarrow> bytes \<Rightarrow> bytes \<Rightarrow> bytes" where
  "tagged_hash C tag msg =
     (let tag_hash = sha256_hash C tag in sha256_hash C (tag_hash @ tag_hash @ msg))"

section \<open>Encoding checks\<close>

definition is_compressed_or_uncompressed_pubkey :: "bytes \<Rightarrow> bool" where
  "is_compressed_or_uncompressed_pubkey pubkey =
     (if length pubkey < 33 then False
      else if pubkey ! 0 = 0x04 then length pubkey = 65
      else if pubkey ! 0 = 0x02 \<or> pubkey ! 0 = 0x03 then length pubkey = 33
      else False)"

definition is_compressed_pubkey :: "bytes \<Rightarrow> bool" where
  "is_compressed_pubkey pubkey \<longleftrightarrow>
     length pubkey = 33 \<and> (pubkey ! 0 = 0x02 \<or> pubkey ! 0 = 0x03)"

definition is_valid_signature_encoding :: "bytes \<Rightarrow> bool" where
  "is_valid_signature_encoding sig =
     (if length sig < 9 \<or> length sig > 73 then False
      else if sig ! 0 \<noteq> 0x30 then False
      else if unat (sig ! 1) \<noteq> length sig - 3 then False
      else
        let len_r = unat (sig ! 3) in
        if 5 + len_r \<ge> length sig then False
        else
          let len_s = unat (sig ! (5 + len_r)) in
          if len_r + len_s + 7 \<noteq> length sig then False
          else if sig ! 2 \<noteq> 0x02 then False
          else if len_r = 0 then False
          else if sig ! 4 AND 0x80 \<noteq> 0 then False
          else if len_r > 1 \<and> sig ! 4 = 0x00 \<and> sig ! 5 AND 0x80 = 0 then False
          else if sig ! (len_r + 4) \<noteq> 0x02 then False
          else if len_s = 0 then False
          else if sig ! (len_r + 6) AND 0x80 \<noteq> 0 then False
          else if len_s > 1 \<and> sig ! (len_r + 6) = 0x00 \<and> sig ! (len_r + 7) AND 0x80 = 0 then False
          else True)"

definition is_defined_hashtype_signature :: "bytes \<Rightarrow> bool" where
  "is_defined_hashtype_signature sig =
     (if sig = [] then False
      else
        let hash_type = sig ! (length sig - 1) AND NOT 0x80 in
        1 \<le> hash_type \<and> hash_type \<le> 3)"

definition is_low_der_signature :: "crypto \<Rightarrow> bytes \<Rightarrow> script_error + unit" where
  "is_low_der_signature C sig =
     (if \<not> is_valid_signature_encoding sig then Inl ErrSigDer
      else
        let der_sig = take (length sig - 1) sig in
        case der_is_low_s C der_sig of
          Some low \<Rightarrow> if \<not> low then Inl ErrSigHighS else Inr ()
        | None \<Rightarrow> Inl ErrSigDer)"

definition check_signature_encoding :: "crypto \<Rightarrow> bytes \<Rightarrow> script_flags \<Rightarrow> script_error + unit" where
  "check_signature_encoding C sig flags =
     (if sig = [] then Inr ()
      else if (flags_contains flags VERIFY_DERSIG \<or> flags_contains flags VERIFY_LOW_S \<or>
               flags_contains flags VERIFY_STRICTENC) \<and> \<not> is_valid_signature_encoding sig
      then Inl ErrSigDer
      else res_bind
        (if flags_contains flags VERIFY_LOW_S then is_low_der_signature C sig else Inr ())
        (\<lambda>_. if flags_contains flags VERIFY_STRICTENC \<and> \<not> is_defined_hashtype_signature sig
             then Inl ErrSigHashtype else Inr ()))"

definition check_pubkey_encoding ::
  "bytes \<Rightarrow> script_flags \<Rightarrow> sig_version \<Rightarrow> script_error + unit" where
  "check_pubkey_encoding pubkey flags sigversion =
     (if flags_contains flags VERIFY_STRICTENC \<and> \<not> is_compressed_or_uncompressed_pubkey pubkey
      then Inl ErrPubKeyType
      else if flags_contains flags VERIFY_WITNESS_PUBKEYTYPE \<and> sigversion = WitnessV0 \<and>
              \<not> is_compressed_pubkey pubkey
      then Inl ErrWitnessPubKeyType
      else Inr ())"

definition check_minimal_push :: "bytes \<Rightarrow> u8 \<Rightarrow> bool" where
  "check_minimal_push data opcode =
     (if data = [] then opcode = Op0
      else if length data = 1 \<and> data ! 0 \<ge> 1 \<and> data ! 0 \<le> 16 then False
      else if length data = 1 \<and> data ! 0 = 0x81 then False
      else if length data \<le> 75 then unat opcode = length data
      else if length data \<le> 255 then opcode = OpPushData1
      else if length data \<le> 65535 then opcode = OpPushData2
      else True)"

definition is_disabled_opcode :: "u8 \<Rightarrow> bool" where
  "is_disabled_opcode opcode =
     (case opcode_from_u8 opcode of None \<Rightarrow> False | Some op \<Rightarrow> is_disabled op)"

definition stack_to_script_num :: "bytes \<Rightarrow> bool \<Rightarrow> nat \<Rightarrow> script_error + script_num" where
  "stack_to_script_num val require_minimal max_size =
     (case sn_from_bytes val require_minimal max_size of
        Inr n \<Rightarrow> Inr n
      | Inl e \<Rightarrow> Inl ErrScriptNum)"

section \<open>The condition stack\<close>

record condition_stack =
  cs_stack_size :: u32
  cs_first_false_pos :: u32

definition NO_FALSE :: u32 where
  "NO_FALSE = - 1"

definition cs_new :: condition_stack where
  "cs_new = \<lparr>cs_stack_size = 0, cs_first_false_pos = NO_FALSE\<rparr>"

definition cs_empty :: "condition_stack \<Rightarrow> bool" where
  "cs_empty c \<longleftrightarrow> cs_stack_size c = 0"

definition cs_all_true :: "condition_stack \<Rightarrow> bool" where
  "cs_all_true c \<longleftrightarrow> cs_first_false_pos c = NO_FALSE"

definition cs_push_back :: "condition_stack \<Rightarrow> bool \<Rightarrow> condition_stack" where
  "cs_push_back c f =
     (let c = (if cs_first_false_pos c = NO_FALSE \<and> \<not> f
               then c\<lparr>cs_first_false_pos := cs_stack_size c\<rparr> else c)
      in c\<lparr>cs_stack_size := cs_stack_size c + 1\<rparr>)"

definition cs_pop_back :: "condition_stack \<Rightarrow> condition_stack" where
  "cs_pop_back c =
     (let c = c\<lparr>cs_stack_size := cs_stack_size c - 1\<rparr>
      in if cs_first_false_pos c = cs_stack_size c then c\<lparr>cs_first_false_pos := NO_FALSE\<rparr> else c)"

definition cs_toggle_top :: "condition_stack \<Rightarrow> condition_stack" where
  "cs_toggle_top c =
     (if cs_first_false_pos c = NO_FALSE
      then c\<lparr>cs_first_false_pos := cs_stack_size c - 1\<rparr>
      else if cs_first_false_pos c = cs_stack_size c - 1
      then c\<lparr>cs_first_false_pos := NO_FALSE\<rparr>
      else c)"

section \<open>Reading a value as a boolean\<close>

text \<open>A value is true exactly when the number it stands for is not zero.\<close>

lemma find_enumerate:
  "find (\<lambda>(i, b). P b) (enumerate n xs) =
   (case find P xs of None \<Rightarrow> None | Some b \<Rightarrow> Some (n + length (takeWhile (\<lambda>x. \<not> P x) xs), b))"
  by (induction xs arbitrary: n) (auto split: option.split)

lemma find_Some_takeWhile: "find P xs = Some b \<Longrightarrow> length (takeWhile (\<lambda>x. \<not> P x) xs) < length xs \<and> P b"
  by (induction xs) (auto split: if_splits)

lemma cast_to_bool_snoc:
  "cast_to_bool (xs @ [b]) \<longleftrightarrow> (\<exists>x\<in>set xs. x \<noteq> 0) \<or> (b \<noteq> 0 \<and> b \<noteq> 0x80)"
proof (cases "find (\<lambda>x. x \<noteq> 0) xs")
  case None
  then have z: "\<forall>x\<in>set xs. x = 0" by (auto simp: find_None_iff)
  then have "takeWhile (\<lambda>x. x = 0) xs = xs" by (simp add: takeWhile_eq_all_conv)
  moreover have "find (\<lambda>x. x \<noteq> 0) (xs @ [b]) = (if b \<noteq> 0 then Some b else None)"
    using None by (induction xs) (auto split: if_splits)
  ultimately show ?thesis
    using z find_enumerate [of "\<lambda>x. x \<noteq> 0" 0 "xs @ [b]"] by (auto simp: cast_to_bool_def)
next
  case (Some x)
  then have f: "find (\<lambda>x. x \<noteq> 0) (xs @ [b]) = Some x"
    by (induction xs) (auto split: if_splits)
  have t: "length (takeWhile (\<lambda>x. x = 0) (xs @ [b])) = length (takeWhile (\<lambda>x. x = 0) xs)"
    "length (takeWhile (\<lambda>x. x = 0) xs) < length xs"
    using Some find_Some_takeWhile [OF Some] find_Some_takeWhile [OF f]
    by (induction xs) (auto split: if_splits)
  have "\<exists>x\<in>set xs. x \<noteq> 0" using Some by (auto simp: find_Some_iff dest: nth_mem)
  with f t show ?thesis
    using find_enumerate [of "\<lambda>x. x \<noteq> 0" 0 "xs @ [b]"] by (simp add: cast_to_bool_def)
qed

lemma cast_to_bool_Nil [simp]: "\<not> cast_to_bool []"
  by (simp add: cast_to_bool_def)

lemma le_nat_zero: "le_nat xs = 0 \<longleftrightarrow> (\<forall>x\<in>set xs. x = 0)"
  by (induction xs) (auto simp: word_unat_eq_iff)

lemma cast_to_bool_value: "cast_to_bool v \<longleftrightarrow> sn_value v \<noteq> 0"
proof (cases v rule: rev_cases)
  case Nil
  then show ?thesis by (simp add: sn_value_def)
next
  case (snoc xs b)
  have "b AND 0x7f = 0 \<longleftrightarrow> b = 0 \<or> b = 0x80"
  proof -
    have "b AND 0x7f = 0 \<longleftrightarrow> unat b mod 128 = 0"
      using u8_and_7f [of b] by (simp add: word_unat_eq_iff)
    also have "\<dots> \<longleftrightarrow> unat b = 0 \<or> unat b = 128"
      using mod_128_zero [of "unat b"] by auto
    finally show ?thesis by (simp add: word_unat_eq_iff)
  qed
  moreover have "sn_value v \<noteq> 0 \<longleftrightarrow> le_nat (xs @ [b AND 0x7f]) \<noteq> 0"
    by (simp add: snoc sn_value_def Let_def)
  ultimately show ?thesis
    unfolding le_nat_zero by (auto simp: snoc cast_to_bool_snoc)
qed

section \<open>Minimal pushes\<close>

text \<open>What \<open>push_data\<close> appends passes the minimal push rule, apart from the single bytes that have an opcode of their own.\<close>

lemma push_data_minimal:
  assumes "length d \<le> 520" "\<not> (length d = 1 \<and> (d ! 0 \<in> {1..16} \<or> d ! 0 = 0x81))"
  shows "check_minimal_push d (push_data [] d ! 0)"
  using assms by (auto simp: check_minimal_push_def push_data_def Let_def unat_of_nat)

section \<open>The condition stack refines a list of booleans\<close>

text \<open>
  The contract the opcode loop relies on: a stack of nested branch conditions that can be pushed,
  popped and toggled, and asked whether it is empty and whether all conditions hold. It is stated
  against the list of conditions, innermost last.
\<close>

locale condition_tracker =
  fixes new :: 'c
    and is_empty :: "'c \<Rightarrow> bool"
    and all_true :: "'c \<Rightarrow> bool"
    and push :: "'c \<Rightarrow> bool \<Rightarrow> 'c"
    and pop :: "'c \<Rightarrow> 'c"
    and toggle :: "'c \<Rightarrow> 'c"
    and rel :: "'c \<Rightarrow> bool list \<Rightarrow> bool"
    and cap :: nat
  assumes rel_new: "rel new []"
    and rel_push: "rel c bs \<Longrightarrow> length bs < cap \<Longrightarrow> rel (push c f) (bs @ [f])"
    and rel_pop: "rel c (bs @ [f]) \<Longrightarrow> rel (pop c) bs"
    and rel_toggle: "rel c (bs @ [f]) \<Longrightarrow> rel (toggle c) (bs @ [\<not> f])"
    and rel_empty: "rel c bs \<Longrightarrow> is_empty c \<longleftrightarrow> bs = []"
    and rel_all_true: "rel c bs \<Longrightarrow> all_true c \<longleftrightarrow> (\<forall>b\<in>set bs. b)"
begin

text \<open>An else branch runs exactly when the enclosing branches run and the if branch did not.\<close>

lemma else_branch:
  assumes "rel c bs" "length bs < cap"
  shows "all_true (toggle (push c f)) \<longleftrightarrow> all_true c \<and> \<not> f"
  using rel_all_true [OF rel_toggle [OF rel_push [OF assms]]] rel_all_true [OF assms(1)] by auto

text \<open>A whole if-else-endif leaves the conditions as they were.\<close>

lemma endif_restores:
  assumes "rel c bs" "length bs < cap"
  shows "rel (pop (toggle (push c f))) bs"
  using rel_pop [OF rel_toggle [OF rel_push [OF assms]]] .

end

text \<open>
  The optimised representation keeps the number of conditions and the position of the first false
  one. It stands for a list of that length when the position is that of its first false element.
\<close>

definition first_false :: "bool list \<Rightarrow> nat" where
  "first_false bs = length (takeWhile id bs)"

definition cs_rel :: "condition_stack \<Rightarrow> bool list \<Rightarrow> bool" where
  "cs_rel c bs \<longleftrightarrow> length bs < 2 ^ 32 - 1 \<and> cs_stack_size c = of_nat (length bs) \<and>
     cs_first_false_pos c = (if first_false bs < length bs then of_nat (first_false bs) else NO_FALSE)"

lemma of_nat_u32_eq: "m < 2 ^ 32 \<Longrightarrow> n < 2 ^ 32 \<Longrightarrow> (of_nat m :: u32) = of_nat n \<longleftrightarrow> m = n"
  by (simp add: word_unat_eq_iff unat_of_nat)

lemma NO_FALSE_ne:
  assumes "n < 2 ^ 32 - 1"
  shows "(of_nat n :: u32) \<noteq> NO_FALSE" "NO_FALSE \<noteq> (of_nat n :: u32)"
proof -
  have "NO_FALSE = of_nat (2 ^ 32 - 1)" by (simp add: NO_FALSE_def)
  moreover have "(of_nat n :: u32) \<noteq> of_nat (2 ^ 32 - 1)"
    using assms by (subst of_nat_u32_eq) simp_all
  ultimately show "(of_nat n :: u32) \<noteq> NO_FALSE" "NO_FALSE \<noteq> (of_nat n :: u32)" by simp_all
qed

lemma first_false_snoc:
  "first_false (bs @ [f]) = (if first_false bs < length bs then first_false bs else if f then length bs + 1 else length bs)"
  by (induction bs) (auto simp: first_false_def)

lemma first_false_le: "first_false bs \<le> length bs"
  unfolding first_false_def by (rule length_takeWhile_le)

lemma first_false_all: "first_false bs < length bs \<longleftrightarrow> \<not> (\<forall>b\<in>set bs. b)"
  by (induction bs) (auto simp: first_false_def)

interpretation vf_exec: condition_tracker cs_new cs_empty cs_all_true cs_push_back cs_pop_back
  cs_toggle_top cs_rel "2 ^ 32 - 2"
proof
  show "cs_rel cs_new []" by (simp add: cs_rel_def cs_new_def first_false_def)
next
  fix c bs f
  assume "cs_rel c bs" "length bs < 2 ^ 32 - 2"
  then show "cs_rel (cs_push_back c f) (bs @ [f])"
    using first_false_le [of bs]
    by (auto simp: cs_rel_def cs_push_back_def Let_def first_false_snoc NO_FALSE_ne of_nat_u32_eq)
next
  fix c bs f
  assume "cs_rel c (bs @ [f])"
  then show "cs_rel (cs_pop_back c) bs"
    using first_false_le [of bs]
    by (auto simp: cs_rel_def cs_pop_back_def Let_def first_false_snoc NO_FALSE_ne of_nat_u32_eq
        split: if_splits)
next
  fix c bs f
  assume "cs_rel c (bs @ [f])"
  then show "cs_rel (cs_toggle_top c) (bs @ [\<not> f])"
    using first_false_le [of bs]
    by (auto simp: cs_rel_def cs_toggle_top_def Let_def first_false_snoc NO_FALSE_ne of_nat_u32_eq
        split: if_splits)
next
  fix c bs
  assume "cs_rel c bs"
  then show "cs_empty c \<longleftrightarrow> bs = []"
    using of_nat_u32_eq [of "length bs" 0] by (simp add: cs_rel_def cs_empty_def)
next
  fix c bs
  assume "cs_rel c bs"
  then show "cs_all_true c \<longleftrightarrow> (\<forall>b\<in>set bs. b)"
    using first_false_all [of bs] first_false_le [of bs]
    by (auto simp: cs_rel_def cs_all_true_def NO_FALSE_ne of_nat_u32_eq)
qed


section \<open>DER signatures\<close>

text \<open>A positive integer in DER: not empty, no sign bit, no needless leading zero.\<close>

definition der_int :: "bytes \<Rightarrow> bool" where
  "der_int x \<longleftrightarrow> x \<noteq> [] \<and> x ! 0 AND 0x80 = 0 \<and>
     (1 < length x \<and> x ! 0 = 0 \<longrightarrow> x ! 1 AND 0x80 \<noteq> 0)"

definition der_signature :: "bytes \<Rightarrow> bytes \<Rightarrow> u8 \<Rightarrow> bytes" where
  "der_signature r s hash_type =
     [0x30, of_nat (length r + length s + 4), 0x02, of_nat (length r)] @ r @
     [0x02, of_nat (length s)] @ s @ [hash_type]"

lemma der_nth:
  assumes "r \<noteq> []" "s \<noteq> []"
  shows "length (der_signature r s h) = length r + length s + 7"
    "der_signature r s h ! 0 = 0x30" "der_signature r s h ! 1 = of_nat (length r + length s + 4)"
    "der_signature r s h ! 2 = 0x02" "der_signature r s h ! 3 = of_nat (length r)"
    "der_signature r s h ! 4 = r ! 0"
    "1 < length r \<Longrightarrow> der_signature r s h ! 5 = r ! 1"
    "der_signature r s h ! (length r + 4) = 0x02"
    "der_signature r s h ! (5 + length r) = of_nat (length s)"
    "der_signature r s h ! (length r + 6) = s ! 0"
    "1 < length s \<Longrightarrow> der_signature r s h ! (length r + 7) = s ! 1"
  using assms by (auto simp: der_signature_def nth_append nth_Cons')

lemma der_split:
  assumes "is_valid_signature_encoding sig"
  shows "\<exists>r s h. sig = der_signature r s h \<and> der_int r \<and> der_int s"
proof -
  define lr ls where l: "lr = unat (sig ! 3)" "ls = unat (sig ! (5 + lr))"
  have v: "sig ! 0 = 0x30" "unat (sig ! 1) = length sig - 3" "length sig = lr + ls + 7" "sig ! 2 = 0x02"
    "lr \<noteq> 0" "sig ! 4 AND 0x80 = 0" "lr > 1 \<and> sig ! 4 = 0 \<longrightarrow> sig ! 5 AND 0x80 \<noteq> 0" "sig ! (lr + 4) = 0x02"
    "ls \<noteq> 0" "sig ! (lr + 6) AND 0x80 = 0" "ls > 1 \<and> sig ! (lr + 6) = 0 \<longrightarrow> sig ! (lr + 7) AND 0x80 \<noteq> 0"
    using assms by (auto simp: is_valid_signature_encoding_def Let_def l split: if_splits)
  define r s where rs: "r = take lr (drop 4 sig)" "s = take ls (drop (lr + 6) sig)"
  have len: "length r = lr" "length s = ls" using v(3) by (simp_all add: rs)
  have "sig ! 1 = of_nat (lr + ls + 4)"
  proof -
    have "sig ! 1 = of_nat (unat (sig ! 1))" by simp
    also have "\<dots> = of_nat (lr + ls + 4)" unfolding v(2,3) by (rule arg_cong) simp
    finally show ?thesis .
  qed
  moreover have "sig ! 3 = of_nat lr" "sig ! (lr + 5) = of_nat ls"
    by (simp_all add: l add.commute)
  moreover have "take 4 sig = [sig ! 0, sig ! 1, sig ! 2, sig ! 3]"
    using list_of_4 [of "take 4 sig"] v(3) by simp
  moreover have "drop 4 sig = r @ drop (lr + 4) sig"
    using append_take_drop_id [of lr "drop 4 sig"] by (simp add: rs)
  moreover have "drop (lr + 4) sig = sig ! (lr + 4) # sig ! (lr + 5) # drop (lr + 6) sig"
    using drop_nth [of "lr + 4" sig] drop_nth [of "lr + 5" sig] v(3) by (simp add: add.commute)
  moreover have "drop (lr + 6) sig = s @ [sig ! (lr + ls + 6)]"
    using append_take_drop_id [of ls "drop (lr + 6) sig"] drop_nth [of "lr + (ls + 6)" sig] v(3)
    by (simp add: rs add.assoc add.commute [of ls])
  ultimately have "sig = der_signature r s (sig ! (lr + ls + 6))"
    using append_take_drop_id [of 4 sig] v(1,4,8) len by (simp add: der_signature_def)
  moreover have "r ! 0 = sig ! 4" "lr > 1 \<Longrightarrow> r ! 1 = sig ! 5" "s ! 0 = sig ! (lr + 6)"
    "ls > 1 \<Longrightarrow> s ! 1 = sig ! (lr + 7)"
    using v(3,5,9) by (simp_all add: rs add.commute [of 7])
  then have "der_int r" "der_int s"
    using v(5-11) len by (auto simp: der_int_def)
  ultimately show ?thesis by blast
qed

lemma der_valid_iff:
  "is_valid_signature_encoding sig \<longleftrightarrow>
   (\<exists>r s h. sig = der_signature r s h \<and> der_int r \<and> der_int s \<and> length sig \<le> 73)"
proof
  assume "is_valid_signature_encoding sig"
  moreover from this have "length sig \<le> 73"
    by (auto simp: is_valid_signature_encoding_def split: if_splits)
  ultimately show "\<exists>r s h. sig = der_signature r s h \<and> der_int r \<and> der_int s \<and> length sig \<le> 73"
    using der_split by blast
next
  assume "\<exists>r s h. sig = der_signature r s h \<and> der_int r \<and> der_int s \<and> length sig \<le> 73"
  then obtain r s h where sig: "sig = der_signature r s h" and rs: "der_int r" "der_int s" "length sig \<le> 73"
    by blast
  then have ne: "r \<noteq> []" "s \<noteq> []" by (simp_all add: der_int_def)
  note n = der_nth [OF ne, of h, folded sig]
  have "length r + length s \<le> 66" using rs(3) n(1) by simp
  then have u: "unat (of_nat (length r + length s + 4) :: u8) = length r + length s + 4"
    "unat (of_nat (length r) :: u8) = length r" "unat (of_nat (length s) :: u8) = length s"
    by (simp_all only: unat_of_nat) simp_all
  have "1 \<le> length r" "1 \<le> length s" using ne by (simp_all add: Suc_le_eq)
  then show "is_valid_signature_encoding sig"
    unfolding is_valid_signature_encoding_def Let_def n(3,5) u
    using n(1,2,4,6-11) rs u(3) by (auto simp: der_int_def)
qed


section \<open>Main results\<close>

text \<open>C21: The optimised condition stack (a size and the position of the first false condition, in
  \<open>u32\<close>) behaves as the list of nested conditions for up to \<open>2^32 - 2\<close> levels: pushing, popping and toggling
  correspond, \<open>empty\<close> and \<open>all_true\<close> answer for the list, and an \<open>OP_ELSE\<close> branch is executed exactly
  when the enclosing branches are and the \<open>OP_IF\<close> branch was not.\<close>

theorem condition_stack_refines:
  assumes "cs_rel c bs" "length bs < 2 ^ 32 - 2"
  shows "cs_rel cs_new [] \<and> cs_rel (cs_push_back c f) (bs @ [f]) \<and>
    cs_rel (cs_toggle_top (cs_push_back c f)) (bs @ [\<not> f]) \<and>
    cs_rel (cs_pop_back (cs_toggle_top (cs_push_back c f))) bs \<and>
    (cs_empty c \<longleftrightarrow> bs = []) \<and> (cs_all_true c \<longleftrightarrow> (\<forall>b\<in>set bs. b)) \<and>
    (cs_all_true (cs_toggle_top (cs_push_back c f)) \<longleftrightarrow> cs_all_true c \<and> \<not> f)"
  using vf_exec.rel_new vf_exec.rel_push [OF assms] vf_exec.rel_toggle [OF vf_exec.rel_push [OF assms]]
    vf_exec.endif_restores [OF assms] vf_exec.rel_empty [OF assms(1)]
    vf_exec.rel_all_true [OF assms(1)] vf_exec.else_branch [OF assms]
  by blast

theorem condition_stack_refines_witness:
  "cs_rel (cs_push_back cs_new False) ([] @ [False]) \<and>
   \<not> cs_all_true (cs_toggle_top (cs_push_back cs_new True))"
proof -
  have "cs_rel cs_new []" by (simp add: cs_rel_def cs_new_def first_false_def)
  then show ?thesis
    using condition_stack_refines [of cs_new "[]" False] condition_stack_refines [of cs_new "[]" True]
    by simp
qed

text \<open>The strict signature check accepts exactly the DER encodings: a sequence of two minimally encoded
  positive integers, with every length byte right, followed by one hash type byte, of at most 73
  bytes in all.\<close>

theorem der_encoding_exact:
  "is_valid_signature_encoding sig \<longleftrightarrow>
   (\<exists>r s h. sig = der_signature r s h \<and> der_int r \<and> der_int s \<and> length sig \<le> 73)"
  by (rule der_valid_iff)

text \<open>A stack value is true exactly when the number it stands for is not zero; zero of any length and
  negative zero are false.\<close>

theorem cast_to_bool_exact: "cast_to_bool v \<longleftrightarrow> sn_value v \<noteq> 0"
  by (rule cast_to_bool_value)

end
