(* ===== verification/Interpreter.thy ===== *)
theory Interpreter
  imports ScriptStack "HOL-Library.Sublist"
begin

text \<open>
  The opcode loop of \<open>qubitcoin-script/src/interpreter.rs\<close>, \<open>eval_script\<close>. Its local
  variables are the record \<open>machine\<close>, its unchanging arguments the record \<open>eval_ctx\<close>.
  Each arm of the opcode match is one definition; \<open>exec_op\<close> is the match, \<open>eval_step\<close>
  one round of the loop, \<open>eval_loop\<close> the loop and \<open>eval_script\<close> the function.

  Where the source sets \<open>error\<close> and returns \<open>false\<close>, the model returns that error; the stack
  left behind by a failed execution is not modelled, no caller reads it. The variable \<open>error\<close>
  itself is kept in \<open>m_error\<close> because the signature checker can read it.
\<close>

section \<open>Context and state\<close>

record eval_ctx =
  ec_script :: script
  ec_flags :: script_flags
  ec_checker :: checker
  ec_sigversion :: sig_version
  ec_crypto :: crypto

record machine =
  m_stack :: script_stack
  m_altstack :: script_stack
  m_vf_exec :: condition_stack
  m_op_count :: nat
  m_pbegincodehash :: nat
  m_opcode_pos :: u32
  m_exec_data :: exec_data
  m_error :: script_error

type_synonym outcome = "script_error + machine"
type_synonym handler = "eval_ctx \<Rightarrow> machine \<Rightarrow> outcome"

definition has_flag :: "eval_ctx \<Rightarrow> script_flags \<Rightarrow> bool" where
  "has_flag ctx f = flags_contains (ec_flags ctx) f"

definition require_minimal :: "eval_ctx \<Rightarrow> bool" where
  "require_minimal ctx = has_flag ctx VERIFY_MINIMALDATA"

definition pre_tapscript :: "eval_ctx \<Rightarrow> bool" where
  "pre_tapscript ctx \<longleftrightarrow> ec_sigversion ctx = Base \<or> ec_sigversion ctx = WitnessV0"

definition vch_bool :: "bool \<Rightarrow> stack_value" where
  "vch_bool b = (if b then [1] else [])"

text \<open>The guard that opens most arms: too few elements fail.\<close>

definition need :: "nat \<Rightarrow> machine \<Rightarrow> outcome \<Rightarrow> outcome" where
  "need k m r = (if length (m_stack m) < k then Inl ErrInvalidStackOperation else r)"

definition set_stack :: "machine \<Rightarrow> script_stack \<Rightarrow> machine" where
  "set_stack m s = m\<lparr>m_stack := s\<rparr>"

definition top_num :: "eval_ctx \<Rightarrow> machine \<Rightarrow> nat \<Rightarrow> script_error + script_num" where
  "top_num ctx m k =
     stack_to_script_num (stack_top (m_stack m) k) (require_minimal ctx) DEFAULT_MAX_NUM_SIZE"

section \<open>Constants and flow control\<close>

definition op_1negate :: handler where
  "op_1negate ctx m = Inr (set_stack m (ss_push (m_stack m) (sn_to_bytes (- 1))))"

definition op_small_int :: "opcode \<Rightarrow> handler" where
  "op_small_int op ctx m =
     (let n = ucast op - ucast Op1 + 1 :: i64
      in Inr (set_stack m (ss_push (m_stack m) (sn_to_bytes n))))"

definition op_check_lock_time_verify :: handler where
  "op_check_lock_time_verify ctx m =
     (if \<not> has_flag ctx VERIFY_CHECKLOCKTIMEVERIFY then Inr m
      else need 1 m
        (res_bind (stack_to_script_num (stack_top (m_stack m) 1) (require_minimal ctx) 5)
          (\<lambda>lock_time.
             if sint lock_time < 0 then Inl ErrNegativeLocktime
             else if \<not> check_lock_time (ec_checker ctx) lock_time then Inl ErrUnsatisfiedLocktime
             else Inr m)))"

definition op_check_sequence_verify :: handler where
  "op_check_sequence_verify ctx m =
     (if \<not> has_flag ctx VERIFY_CHECKSEQUENCEVERIFY then Inr m
      else need 1 m
        (res_bind (stack_to_script_num (stack_top (m_stack m) 1) (require_minimal ctx) 5)
          (\<lambda>sequence.
             if sint sequence < 0 then Inl ErrNegativeLocktime
             else if (ucast sequence :: u32) AND SEQUENCE_LOCKTIME_DISABLE_FLAG \<noteq> 0 then Inr m
             else if \<not> check_sequence (ec_checker ctx) sequence then Inl ErrUnsatisfiedLocktime
             else Inr m)))"

definition op_upgradable_nop :: handler where
  "op_upgradable_nop ctx m =
     (if has_flag ctx VERIFY_DISCOURAGE_UPGRADABLE_NOPS then Inl ErrDiscourageUpgradableNops
      else Inr m)"

definition push_condition :: "bool \<Rightarrow> machine \<Rightarrow> machine" where
  "push_condition f m = m\<lparr>m_vf_exec := cs_push_back (m_vf_exec m) f\<rparr>"

definition op_if :: "bool \<Rightarrow> opcode \<Rightarrow> handler" where
  "op_if f_exec op ctx m =
     (if f_exec then need 1 m
        (let vch = stack_top (m_stack m) 1 in
         if ec_sigversion ctx = Tapscript \<and> (length vch > 1 \<or> (length vch = 1 \<and> vch ! 0 \<noteq> 1))
         then Inl ErrTapscriptMinimalIf
         else if ec_sigversion ctx = WitnessV0 \<and> has_flag ctx VERIFY_MINIMALIF \<and>
                 (length vch > 1 \<or> (length vch = 1 \<and> vch ! 0 \<noteq> 1))
         then Inl ErrMinimalIf
         else
           let f_value = cast_to_bool vch;
               f_value = (if op = OpNotIf then \<not> f_value else f_value)
           in Inr (push_condition f_value (set_stack m (stack_drop 1 (m_stack m)))))
      else Inr (push_condition False m))"

definition op_else :: handler where
  "op_else ctx m =
     (if cs_empty (m_vf_exec m) then Inl ErrUnbalancedConditional
      else Inr (m\<lparr>m_vf_exec := cs_toggle_top (m_vf_exec m)\<rparr>))"

definition op_endif :: handler where
  "op_endif ctx m =
     (if cs_empty (m_vf_exec m) then Inl ErrUnbalancedConditional
      else Inr (m\<lparr>m_vf_exec := cs_pop_back (m_vf_exec m)\<rparr>))"

definition op_verify :: handler where
  "op_verify ctx m = need 1 m
     (if cast_to_bool (stack_top (m_stack m) 1) then Inr (set_stack m (stack_drop 1 (m_stack m)))
      else Inl ErrVerify)"

definition op_return :: handler where
  "op_return ctx m = Inl ErrOpReturn"

section \<open>Stack operations\<close>

definition op_to_alt_stack :: handler where
  "op_to_alt_stack ctx m = need 1 m
     (Inr (m\<lparr>m_stack := stack_drop 1 (m_stack m),
             m_altstack := ss_push (m_altstack m) (stack_top (m_stack m) 1)\<rparr>))"

definition op_from_alt_stack :: handler where
  "op_from_alt_stack ctx m =
     (if length (m_altstack m) < 1 then Inl ErrInvalidAltstackOperation
      else Inr (m\<lparr>m_altstack := stack_drop 1 (m_altstack m),
                  m_stack := ss_push (m_stack m) (stack_top (m_altstack m) 1)\<rparr>))"

definition op_2drop :: handler where
  "op_2drop ctx m = need 2 m (Inr (set_stack m (stack_drop 1 (stack_drop 1 (m_stack m)))))"

definition op_2dup :: handler where
  "op_2dup ctx m = need 2 m
     (let s = m_stack m; v1 = stack_top s 2; v2 = stack_top s 1
      in Inr (set_stack m (ss_push (ss_push s v1) v2)))"

definition op_3dup :: handler where
  "op_3dup ctx m = need 3 m
     (let s = m_stack m; v1 = stack_top s 3; v2 = stack_top s 2; v3 = stack_top s 1
      in Inr (set_stack m (ss_push (ss_push (ss_push s v1) v2) v3)))"

definition op_2over :: handler where
  "op_2over ctx m = need 4 m
     (let s = m_stack m; v1 = stack_top s 4; v2 = stack_top s 3
      in Inr (set_stack m (ss_push (ss_push s v1) v2)))"

definition op_2rot :: handler where
  "op_2rot ctx m = need 6 m
     (let s = m_stack m; v1 = stack_top s 6; v2 = stack_top s 5
      in Inr (set_stack m (ss_push (ss_push (ss_erase_top_range s 6 4) v1) v2)))"

definition op_2swap :: handler where
  "op_2swap ctx m = need 4 m
     (Inr (set_stack m (ss_swap_top (ss_swap_top (m_stack m) 4 2) 3 1)))"

definition op_ifdup :: handler where
  "op_ifdup ctx m = need 1 m
     (let vch = stack_top (m_stack m) 1
      in if cast_to_bool vch then Inr (set_stack m (ss_push (m_stack m) vch)) else Inr m)"

definition op_depth :: handler where
  "op_depth ctx m =
     Inr (set_stack m (ss_push (m_stack m) (sn_to_bytes (of_nat (length (m_stack m))))))"

definition op_drop :: handler where
  "op_drop ctx m = need 1 m (Inr (set_stack m (stack_drop 1 (m_stack m))))"

definition op_dup :: handler where
  "op_dup ctx m = need 1 m (Inr (set_stack m (ss_push (m_stack m) (stack_top (m_stack m) 1))))"

definition op_nip :: handler where
  "op_nip ctx m = need 2 m (Inr (set_stack m (ss_erase_top (m_stack m) 2)))"

definition op_over :: handler where
  "op_over ctx m = need 2 m (Inr (set_stack m (ss_push (m_stack m) (stack_top (m_stack m) 2))))"

definition op_pick_roll :: "opcode \<Rightarrow> handler" where
  "op_pick_roll op ctx m = need 2 m
     (res_bind (top_num ctx m 1) (\<lambda>sn.
        let n = sint (sn_getint sn); s = stack_drop 1 (m_stack m) in
        if n < 0 \<or> nat n \<ge> length s then Inl ErrInvalidStackOperation
        else
          let vch = stack_top s (nat n + 1);
              idx = length s - nat n - 1;
              s = (if op = OpRoll then ss_erase s idx (idx + 1) else s)
          in Inr (set_stack m (ss_push s vch))))"

definition op_rot :: handler where
  "op_rot ctx m = need 3 m
     (Inr (set_stack m (ss_swap_top (ss_swap_top (m_stack m) 3 2) 2 1)))"

definition op_swap :: handler where
  "op_swap ctx m = need 2 m (Inr (set_stack m (ss_swap_top (m_stack m) 2 1)))"

definition op_tuck :: handler where
  "op_tuck ctx m = need 2 m
     (Inr (set_stack m (ss_insert_top (m_stack m) 2 (stack_top (m_stack m) 1))))"

definition op_size_of :: handler where
  "op_size_of ctx m = need 1 m
     (Inr (set_stack m
       (ss_push (m_stack m) (sn_to_bytes (of_nat (length (stack_top (m_stack m) 1)))))))"

definition op_equal :: "opcode \<Rightarrow> handler" where
  "op_equal op ctx m = need 2 m
     (let s = m_stack m; v1 = stack_top s 2; v2 = stack_top s 1;
          equal = (v1 = v2);
          s = ss_push (stack_drop 1 (stack_drop 1 s)) (vch_bool equal)
      in if op = OpEqualVerify then
           if equal then Inr (set_stack m (stack_drop 1 s)) else Inl ErrEqualVerify
         else Inr (set_stack m s))"

section \<open>Numeric operations\<close>

definition num_bool :: "bool \<Rightarrow> script_num" where
  "num_bool b = (if b then 1 else 0)"

definition unary_num :: "opcode \<Rightarrow> script_num \<Rightarrow> script_num" where
  "unary_num op bn =
     (if op = Op1Add then sn_add bn 1
      else if op = Op1Sub then sn_sub bn 1
      else if op = OpNegate then sn_neg bn
      else if op = OpAbs then if sint bn < 0 then sn_neg bn else bn
      else if op = OpNot then num_bool (sint bn = 0)
      else num_bool (sint bn \<noteq> 0))"

definition op_unary :: "opcode \<Rightarrow> handler" where
  "op_unary op ctx m = need 1 m
     (res_bind (top_num ctx m 1) (\<lambda>bn.
        Inr (set_stack m
          (ss_push (stack_drop 1 (m_stack m)) (sn_to_bytes (unary_num op bn))))))"

definition binary_num :: "opcode \<Rightarrow> script_num \<Rightarrow> script_num \<Rightarrow> script_num" where
  "binary_num op bn1 bn2 =
     (if op = OpAdd then sn_add bn1 bn2
      else if op = OpSub then sn_sub bn1 bn2
      else if op = OpBoolAnd then num_bool (sint bn1 \<noteq> 0 \<and> sint bn2 \<noteq> 0)
      else if op = OpBoolOr then num_bool (sint bn1 \<noteq> 0 \<or> sint bn2 \<noteq> 0)
      else if op = OpNumEqual \<or> op = OpNumEqualVerify then num_bool (sint bn1 = sint bn2)
      else if op = OpNumNotEqual then num_bool (sint bn1 \<noteq> sint bn2)
      else if op = OpLessThan then num_bool (sint bn1 < sint bn2)
      else if op = OpGreaterThan then num_bool (sint bn1 > sint bn2)
      else if op = OpLessThanOrEqual then num_bool (sint bn1 \<le> sint bn2)
      else if op = OpGreaterThanOrEqual then num_bool (sint bn1 \<ge> sint bn2)
      else if op = OpMin then if sint bn1 < sint bn2 then bn1 else bn2
      else if sint bn1 > sint bn2 then bn1 else bn2)"

definition op_binary :: "opcode \<Rightarrow> handler" where
  "op_binary op ctx m = need 2 m
     (res_bind (top_num ctx m 2) (\<lambda>bn1.
      res_bind (top_num ctx m 1) (\<lambda>bn2.
        let s = ss_push (stack_drop 1 (stack_drop 1 (m_stack m)))
                  (sn_to_bytes (binary_num op bn1 bn2))
        in if op = OpNumEqualVerify then
             if cast_to_bool (stack_top s 1) then Inr (set_stack m (stack_drop 1 s))
             else Inl ErrNumEqualVerify
           else Inr (set_stack m s))))"

definition op_within :: handler where
  "op_within ctx m = need 3 m
     (res_bind (top_num ctx m 3) (\<lambda>bn1.
      res_bind (top_num ctx m 2) (\<lambda>bn2.
      res_bind (top_num ctx m 1) (\<lambda>bn3.
        let f_value = (sint bn2 \<le> sint bn1 \<and> sint bn1 < sint bn3)
        in Inr (set_stack m
             (ss_push (stack_drop 1 (stack_drop 1 (stack_drop 1 (m_stack m))))
               (vch_bool f_value)))))))"

section \<open>Hashing and signatures\<close>

definition hash_of :: "crypto \<Rightarrow> opcode \<Rightarrow> bytes \<Rightarrow> bytes" where
  "hash_of C op vch =
     (if op = OpRipemd160 then ripemd160_hash C vch
      else if op = OpSha1 then sha1_hash C vch
      else if op = OpSha256 then sha256_hash C vch
      else if op = OpHash160 then hash160 C vch
      else hash256 C vch)"

definition op_hash :: "opcode \<Rightarrow> handler" where
  "op_hash op ctx m = need 1 m
     (Inr (set_stack m (ss_push (stack_drop 1 (m_stack m))
        (hash_of (ec_crypto ctx) op (stack_top (m_stack m) 1)))))"

definition op_code_separator :: "nat \<Rightarrow> handler" where
  "op_code_separator pc ctx m =
     Inr (m\<lparr>m_pbegincodehash := pc,
            m_exec_data := (m_exec_data m)\<lparr>codeseparator_pos := m_opcode_pos m\<rparr>\<rparr>)"

text \<open>
  The script code a signature covers: the script from the last code separator on, with the
  signature deleted before segwit.
\<close>

definition delete_signature ::
  "eval_ctx \<Rightarrow> bytes \<Rightarrow> script \<Rightarrow> script_error + script" where
  "delete_signature ctx vch_sig script_code =
     (let (script_code, found) = find_and_delete script_code (push_data [] vch_sig)
      in if found > 0 \<and> has_flag ctx VERIFY_CONST_SCRIPTCODE then Inl ErrSigFindAndDelete
         else Inr script_code)"

text \<open>The signature check before tapscript; the result is \<open>f_success\<close>.\<close>

definition checksig_pre_tapscript ::
  "eval_ctx \<Rightarrow> machine \<Rightarrow> bytes \<Rightarrow> bytes \<Rightarrow> script_error + bool" where
  "checksig_pre_tapscript ctx m vch_sig vch_pubkey =
     (let script_code = drop (m_pbegincodehash m) (ec_script ctx) in
      res_bind
        (if ec_sigversion ctx = Base then delete_signature ctx vch_sig script_code
         else Inr script_code) (\<lambda>script_code.
      res_bind (check_signature_encoding (ec_crypto ctx) vch_sig (ec_flags ctx)) (\<lambda>_.
      res_bind (check_pubkey_encoding vch_pubkey (ec_flags ctx) (ec_sigversion ctx)) (\<lambda>_.
        let f_success = check_ecdsa_signature (ec_checker ctx) vch_sig vch_pubkey script_code
              (ec_sigversion ctx)
        in if \<not> f_success \<and> has_flag ctx VERIFY_NULLFAIL \<and> vch_sig \<noteq> [] then Inl ErrSigNullFail
           else Inr f_success))))"

text \<open>The signature check of tapscript, shared by \<open>OP_CHECKSIG\<close> and \<open>OP_CHECKSIGADD\<close>.\<close>

definition spend_weight :: "machine \<Rightarrow> outcome" where
  "spend_weight m =
     (let e = m_exec_data m in
      if validation_weight_left_init e then
        let left = validation_weight_left e - VALIDATION_WEIGHT_PER_SIGOP_PASSED in
        if sint left < 0 then Inl ErrTapscriptValidationWeight
        else Inr (m\<lparr>m_exec_data := e\<lparr>validation_weight_left := left\<rparr>\<rparr>)
      else Inr m)"

definition checksig_tapscript ::
  "eval_ctx \<Rightarrow> machine \<Rightarrow> bytes \<Rightarrow> bytes \<Rightarrow> script_error + (bool \<times> machine)" where
  "checksig_tapscript ctx m sig pubkey =
     (let success = (sig \<noteq> []) in
      res_bind (if success then spend_weight m else Inr m) (\<lambda>m.
        if pubkey = [] then Inl ErrTapscriptEmptyPubkey
        else if length pubkey = 32 then
          if success then
            let (ok, err) = check_schnorr_signature (ec_checker ctx) sig pubkey
                  (ec_sigversion ctx) (m_exec_data m) (m_error m)
            in if \<not> ok then Inl err else Inr (success, m\<lparr>m_error := err\<rparr>)
          else Inr (success, m)
        else if has_flag ctx VERIFY_DISCOURAGE_UPGRADABLE_PUBKEYTYPE
        then Inl ErrDiscourageUpgradablePubkeyType
        else Inr (success, m)))"

definition op_checksig :: "opcode \<Rightarrow> handler" where
  "op_checksig op ctx m = need 2 m
     (let vch_sig = stack_top (m_stack m) 2; vch_pubkey = stack_top (m_stack m) 1 in
      res_bind
        (if pre_tapscript ctx then
           res_bind (checksig_pre_tapscript ctx m vch_sig vch_pubkey) (\<lambda>ok. Inr (ok, m))
         else if ec_sigversion ctx = Tapscript then checksig_tapscript ctx m vch_sig vch_pubkey
         else Inr (True, m))
        (\<lambda>(f_success, m).
           let s = ss_push (stack_drop 1 (stack_drop 1 (m_stack m))) (vch_bool f_success)
           in if op = OpCheckSigVerify then
                if f_success then Inr (set_stack m (stack_drop 1 s)) else Inl ErrCheckSigVerify
              else Inr (set_stack m s)))"

definition op_checksigadd :: handler where
  "op_checksigadd ctx m =
     (if pre_tapscript ctx then Inl ErrBadOpcode
      else need 3 m
        (let sig = stack_top (m_stack m) 3; pubkey = stack_top (m_stack m) 1 in
         res_bind (top_num ctx m 2) (\<lambda>num.
         res_bind (checksig_tapscript ctx m sig pubkey) (\<lambda>(success, m).
           let s = stack_drop 1 (stack_drop 1 (stack_drop 1 (m_stack m)));
               result = sn_add num (num_bool success)
           in Inr (set_stack m (ss_push s (sn_to_bytes result)))))))"

section \<open>Multiple signatures\<close>

text \<open>Delete the signatures at the offsets \<open>isig + k\<close> for \<open>k\<close> from 0 below the count.\<close>

fun delete_signatures ::
  "eval_ctx \<Rightarrow> script_stack \<Rightarrow> nat \<Rightarrow> nat list \<Rightarrow> script \<Rightarrow> script_error + script" where
  "delete_signatures ctx s isig [] script_code = Inr script_code"
| "delete_signatures ctx s isig (k # ks) script_code =
     res_bind (delete_signature ctx (stack_top s (isig + k)) script_code)
       (delete_signatures ctx s isig ks)"

text \<open>
  The matching loop: the current key is tried on the current signature; a match moves to the next
  signature, and the loop gives up as soon as fewer keys than signatures are left.
\<close>

function multisig_loop ::
  "eval_ctx \<Rightarrow> script_stack \<Rightarrow> script \<Rightarrow> bool \<Rightarrow> nat \<Rightarrow> nat \<Rightarrow> nat \<Rightarrow> int \<Rightarrow> script_error + bool" where
  "multisig_loop ctx s script_code f_success n_sigs isig ikey n_keys =
     (if f_success \<and> n_sigs > 0 then
        let vch_sig = stack_top s isig; vch_pubkey = stack_top s ikey in
        res_bind (check_signature_encoding (ec_crypto ctx) vch_sig (ec_flags ctx)) (\<lambda>_.
        res_bind (check_pubkey_encoding vch_pubkey (ec_flags ctx) (ec_sigversion ctx)) (\<lambda>_.
          let f_ok = check_ecdsa_signature (ec_checker ctx) vch_sig vch_pubkey script_code
                (ec_sigversion ctx);
              (isig, n_sigs) = (if f_ok then (isig + 1, n_sigs - 1) else (isig, n_sigs));
              n_keys = n_keys - 1
          in multisig_loop ctx s script_code (\<not> int n_sigs > n_keys) n_sigs isig (ikey + 1) n_keys))
      else Inr f_success)"
  by pat_completeness auto
termination
  by (relation "measure (\<lambda>(ctx, s, sc, f, n_sigs, isig, ikey, n_keys).
        if f then nat (n_keys + 2) + 1 else 0)") (auto split: if_splits)

text \<open>The clean-up loop pops the arguments; below the keys it can insist on empty signatures.\<close>

fun multisig_cleanup ::
  "eval_ctx \<Rightarrow> bool \<Rightarrow> nat \<Rightarrow> nat \<Rightarrow> script_stack \<Rightarrow> script_error + script_stack" where
  "multisig_cleanup ctx f_success i ikey2 s =
     (if i > 1 then
        if \<not> f_success \<and> has_flag ctx VERIFY_NULLFAIL \<and> ikey2 = 0 \<and> stack_top s 1 \<noteq> []
        then Inl ErrSigNullFail
        else multisig_cleanup ctx f_success (i - 1) (ikey2 - 1) (stack_drop 1 s)
      else Inr s)"

declare multisig_loop.simps [simp del] multisig_cleanup.simps [simp del]

definition op_checkmultisig :: "opcode \<Rightarrow> handler" where
  "op_checkmultisig op ctx m =
     (if ec_sigversion ctx = Tapscript then Inl ErrTapscriptCheckMultiSig
      else need 1 m
       (res_bind (top_num ctx m 1) (\<lambda>keys.
        let n_keys = sint (sn_getint keys) in
        if n_keys < 0 \<or> nat n_keys > MAX_PUBKEYS_PER_MULTISIG then Inl ErrPubkeyCount
        else
        let n_keys = nat n_keys; op_count = m_op_count m + n_keys in
        if op_count > MAX_OPS_PER_SCRIPT then Inl ErrOpCount
        else
        let m = m\<lparr>m_op_count := op_count\<rparr>; ikey = 2; ikey2 = n_keys + 2; i = 2 + n_keys in
        need i m
       (res_bind (top_num ctx m i) (\<lambda>sigs.
        let n_sigs = sint (sn_getint sigs) in
        if n_sigs < 0 \<or> n_sigs > int n_keys then Inl ErrSigCount
        else
        let n_sigs = nat n_sigs; isig = i + 1; i = isig + n_sigs in
        need i m
       (let script_code = drop (m_pbegincodehash m) (ec_script ctx) in
        res_bind
          (if ec_sigversion ctx = Base
           then delete_signatures ctx (m_stack m) isig [0..<n_sigs] script_code
           else Inr script_code) (\<lambda>script_code.
        res_bind (multisig_loop ctx (m_stack m) script_code True n_sigs isig ikey (int n_keys))
          (\<lambda>f_success.
        res_bind (multisig_cleanup ctx f_success i ikey2 (m_stack m)) (\<lambda>s.
          if length s < 1 then Inl ErrInvalidStackOperation
          else if has_flag ctx VERIFY_NULLDUMMY \<and> stack_top s 1 \<noteq> [] then Inl ErrSigNullDummy
          else
            let s = ss_push (stack_drop 1 s) (vch_bool f_success)
            in if op = OpCheckMultiSigVerify then
                 if f_success then Inr (set_stack m (stack_drop 1 s))
                 else Inl ErrCheckMultiSigVerify
               else Inr (set_stack m s))))))))))"

section \<open>The opcode loop\<close>

definition exec_op :: "eval_ctx \<Rightarrow> bool \<Rightarrow> nat \<Rightarrow> opcode \<Rightarrow> machine \<Rightarrow> outcome" where
  "exec_op ctx f_exec pc op m =
     (if op = Op1Negate then op_1negate ctx m
      else if Op1 \<le> op \<and> op \<le> Op16 then op_small_int op ctx m
      else if op = OpNop then Inr m
      else if op = OpCheckLockTimeVerify then op_check_lock_time_verify ctx m
      else if op = OpCheckSequenceVerify then op_check_sequence_verify ctx m
      else if op = OpNop1 \<or> (OpNop4 \<le> op \<and> op \<le> OpNop10) then op_upgradable_nop ctx m
      else if op = OpIf \<or> op = OpNotIf then op_if f_exec op ctx m
      else if op = OpElse then op_else ctx m
      else if op = OpEndIf then op_endif ctx m
      else if op = OpVerify then op_verify ctx m
      else if op = OpReturn then op_return ctx m
      else if op = OpToAltStack then op_to_alt_stack ctx m
      else if op = OpFromAltStack then op_from_alt_stack ctx m
      else if op = Op2Drop then op_2drop ctx m
      else if op = Op2Dup then op_2dup ctx m
      else if op = Op3Dup then op_3dup ctx m
      else if op = Op2Over then op_2over ctx m
      else if op = Op2Rot then op_2rot ctx m
      else if op = Op2Swap then op_2swap ctx m
      else if op = OpIfDup then op_ifdup ctx m
      else if op = OpDepth then op_depth ctx m
      else if op = OpDrop then op_drop ctx m
      else if op = OpDup then op_dup ctx m
      else if op = OpNip then op_nip ctx m
      else if op = OpOver then op_over ctx m
      else if op = OpPick \<or> op = OpRoll then op_pick_roll op ctx m
      else if op = OpRot then op_rot ctx m
      else if op = OpSwap then op_swap ctx m
      else if op = OpTuck then op_tuck ctx m
      else if op = OpSize then op_size_of ctx m
      else if op = OpEqual \<or> op = OpEqualVerify then op_equal op ctx m
      else if op = Op1Add \<or> op = Op1Sub \<or> op = OpNegate \<or> op = OpAbs \<or> op = OpNot \<or>
              op = Op0NotEqual then op_unary op ctx m
      else if op = OpAdd \<or> op = OpSub \<or> op = OpBoolAnd \<or> op = OpBoolOr \<or> op = OpNumEqual \<or>
              op = OpNumEqualVerify \<or> op = OpNumNotEqual \<or> op = OpLessThan \<or>
              op = OpGreaterThan \<or> op = OpLessThanOrEqual \<or> op = OpGreaterThanOrEqual \<or>
              op = OpMin \<or> op = OpMax then op_binary op ctx m
      else if op = OpWithin then op_within ctx m
      else if op = OpRipemd160 \<or> op = OpSha1 \<or> op = OpSha256 \<or> op = OpHash160 \<or>
              op = OpHash256 then op_hash op ctx m
      else if op = OpCodeSeparator then op_code_separator pc ctx m
      else if op = OpCheckSig \<or> op = OpCheckSigVerify then op_checksig op ctx m
      else if op = OpCheckSigAdd then op_checksigadd ctx m
      else if op = OpCheckMultiSig \<or> op = OpCheckMultiSigVerify then op_checkmultisig op ctx m
      else Inl ErrBadOpcode)"

text \<open>The checks that every operation passes, executed or not, and the count of the operation.\<close>

definition pre_checks :: "eval_ctx \<Rightarrow> opcode \<Rightarrow> bytes \<Rightarrow> machine \<Rightarrow> outcome" where
  "pre_checks ctx op data m =
     (if length data > MAX_SCRIPT_ELEMENT_SIZE then Inl ErrPushSize
      else
        let counted = (pre_tapscript ctx \<and> op > Op16);
            m = (if counted then m\<lparr>m_op_count := m_op_count m + 1\<rparr> else m)
        in if counted \<and> m_op_count m > MAX_OPS_PER_SCRIPT then Inl ErrOpCount
           else if is_disabled_opcode op then Inl ErrDisabledOpcode
           else if op = OpCodeSeparator \<and> ec_sigversion ctx = Base \<and>
                   has_flag ctx VERIFY_CONST_SCRIPTCODE then Inl ErrOpCodeSeparator
           else Inr m)"

definition run_op :: "eval_ctx \<Rightarrow> nat \<Rightarrow> opcode \<Rightarrow> bytes \<Rightarrow> machine \<Rightarrow> outcome" where
  "run_op ctx pc op data m =
     (let f_exec = cs_all_true (m_vf_exec m) in
      if f_exec \<and> op \<le> OpPushData4 then
        if require_minimal ctx \<and> \<not> check_minimal_push data op then Inl ErrMinimalData
        else Inr (set_stack m (ss_push (m_stack m) data))
      else if f_exec \<or> (OpIf \<le> op \<and> op \<le> OpEndIf) then exec_op ctx f_exec pc op m
      else Inr m)"

definition post_checks :: "machine \<Rightarrow> outcome" where
  "post_checks m =
     (if length (m_stack m) + length (m_altstack m) > MAX_STACK_SIZE then Inl ErrStackSize
      else Inr (m\<lparr>m_opcode_pos := m_opcode_pos m + 1\<rparr>))"

definition eval_step :: "eval_ctx \<Rightarrow> nat \<Rightarrow> machine \<Rightarrow> script_error + (nat \<times> machine)" where
  "eval_step ctx pc m =
     (case get_op (ec_script ctx) pc of
        None \<Rightarrow> Inl ErrBadOpcode
      | Some (op, data, new_pc) \<Rightarrow>
          res_bind (pre_checks ctx op data m) (\<lambda>m.
          res_bind (run_op ctx new_pc op data m) (\<lambda>m.
          res_bind (post_checks m) (\<lambda>m. Inr (new_pc, m)))))"

lemma eval_step_progress:
  "eval_step ctx pc m = Inr (pc', m') \<Longrightarrow> pc < pc' \<and> pc' \<le> length (ec_script ctx)"
  by (auto simp: eval_step_def res_simps split: option.splits dest: get_op_progress)

function eval_loop :: "eval_ctx \<Rightarrow> nat \<Rightarrow> machine \<Rightarrow> outcome" where
  "eval_loop ctx pc m =
     (if pc < length (ec_script ctx) then
        case eval_step ctx pc m of
          Inl e \<Rightarrow> Inl e
        | Inr (pc', m') \<Rightarrow> eval_loop ctx pc' m'
      else Inr m)"
  by pat_completeness auto
termination
  by (relation "measure (\<lambda>(ctx, pc, m). length (ec_script ctx) - pc)")
    (auto dest!: eval_step_progress)

declare eval_loop.simps [simp del]

definition initial_machine :: "script_stack \<Rightarrow> exec_data \<Rightarrow> machine" where
  "initial_machine stack e = \<lparr>
     m_stack = stack, m_altstack = [], m_vf_exec = cs_new, m_op_count = 0,
     m_pbegincodehash = 0, m_opcode_pos = 0,
     m_exec_data = e\<lparr>codeseparator_pos := 0xFFFFFFFF, codeseparator_pos_init := True\<rparr>,
     m_error = ErrUnknownError\<rparr>"

definition eval_script ::
  "eval_ctx \<Rightarrow> script_stack \<Rightarrow> exec_data \<Rightarrow> script_error + (script_stack \<times> exec_data)" where
  "eval_script ctx stack e =
     (if pre_tapscript ctx \<and> length (ec_script ctx) > MAX_SCRIPT_SIZE then Inl ErrScriptSize
      else res_bind (eval_loop ctx 0 (initial_machine stack e)) (\<lambda>m.
        if \<not> cs_empty (m_vf_exec m) then Inl ErrUnbalancedConditional
        else Inr (m_stack m, m_exec_data m)))"

end
