(* ===== verification/ScriptSafety.thy ===== *)
theory ScriptSafety
  imports Interpreter
begin

text \<open>
  What every execution of \<open>eval_script\<close> keeps: the limits on the stack, on its elements and
  on the number of operations, the syntactic conditions a script that succeeds meets, and the
  correspondence of its conditionals.

  Every arm of the opcode match is shown to be \<open>quiet\<close>: it only leaves values that were there
  or that are within the element limit, it counts operations within the limit, and it does not touch the conditions.
  The three arms of flow control are treated separately.
\<close>

named_theorems stack_sets \<open>elements of a stack after an operation\<close>
named_theorems quiet_ops \<open>the arms of the opcode match are quiet\<close>

section \<open>Elements of a stack\<close>

lemma set_ss_push [stack_sets]: "set (ss_push s v) = insert v (set s)"
  by (simp add: ss_push_def)

lemma set_stack_drop: "set (stack_drop k s) \<subseteq> set s"
  by (simp add: stack_drop_def set_take_subset)

lemma stack_top_in: "0 < k \<Longrightarrow> k \<le> length s \<Longrightarrow> stack_top s k \<in> set s"
  by (simp add: stack_top_def)

lemma set_ss_erase: "set (ss_erase s a b) \<subseteq> set s"
  by (auto simp: ss_erase_def dest: in_set_takeD in_set_dropD)

lemma set_ss_insert: "set (ss_insert s p v) = insert v (set s)"
  by (simp add: ss_insert_def) (metis Un_commute append_take_drop_id set_append)

lemma set_ss_swap: "a < length s \<Longrightarrow> b < length s \<Longrightarrow> set (ss_swap s a b) \<subseteq> set s"
  unfolding ss_swap_def by (intro subset_trans [OF set_update_subset_insert]) (auto dest: set_update_subset_insert [THEN subsetD])

lemma length_stack_drop [simp]: "length (stack_drop k s) = length s - k"
  by (simp add: stack_drop_def)

lemma length_ss_push [simp]: "length (ss_push s v) = Suc (length s)"
  by (simp add: ss_push_def)

lemma length_ss_swap_top [simp]: "length (ss_swap_top s a b) = length s"
  by (simp add: ss_swap_top_def ss_swap_def)

text \<open>Values within the element limit: what the machine itself makes.\<close>

definition small :: "bytes set" where
  "small = {v. length v \<le> MAX_SCRIPT_ELEMENT_SIZE}"

lemma length_abs_bytes: "unat w < 256 ^ n \<Longrightarrow> length (abs_bytes w) \<le> n"
proof (induction n arbitrary: w)
  case 0
  then have "w = 0" by (simp add: word_unat_eq_iff)
  then show ?case by (simp add: abs_bytes.simps)
next
  case (Suc n)
  have "unat (drop_bit 8 w) < 256 ^ n"
    using Suc.prems by (simp add: unat_drop_bit div_less_iff_less_mult mult.commute)
  then have "length (abs_bytes (drop_bit 8 w)) \<le> n" by (rule Suc.IH)
  then show ?case by (subst abs_bytes.simps) simp
qed

lemma length_sn_to_bytes: "length (sn_to_bytes n) \<le> 9"
proof -
  have "length (abs_bytes w) \<le> 8" for w
    using unat_less_pow [of w] by (intro length_abs_bytes) simp
  then have "length (abs_bytes w) \<le> 8 \<and> length (abs_bytes w) \<le> 9" for w
    by (simp add: le_trans [of _ 8])
  then show ?thesis
    by (simp add: sn_to_bytes_def encode_i64_num_def Let_def)
qed

lemma sn_to_bytes_small: "sn_to_bytes n \<in> small"
  using length_sn_to_bytes [of n] by (simp add: small_def MAX_SCRIPT_ELEMENT_SIZE_def)

lemma vch_bool_small: "vch_bool b \<in> small"
  by (simp add: vch_bool_def small_def MAX_SCRIPT_ELEMENT_SIZE_def)

lemma hash_of_small: "crypto_ok C \<Longrightarrow> hash_of C op v \<in> small"
  by (simp add: hash_of_def crypto_ok_def small_def MAX_SCRIPT_ELEMENT_SIZE_def)

section \<open>Quiet arms\<close>

definition machine_values :: "machine \<Rightarrow> bytes set" where
  "machine_values m = set (m_stack m) \<union> set (m_altstack m)"

definition counts :: "machine \<Rightarrow> machine \<Rightarrow> bool" where
  "counts m m' \<longleftrightarrow> m_opcode_pos m' = m_opcode_pos m \<and> m_op_count m \<le> m_op_count m' \<and>
     (m_op_count m \<le> MAX_OPS_PER_SCRIPT \<longrightarrow> m_op_count m' \<le> MAX_OPS_PER_SCRIPT)"

definition quiet :: "machine \<Rightarrow> machine \<Rightarrow> bool" where
  "quiet m m' \<longleftrightarrow> machine_values m' \<subseteq> machine_values m \<union> small \<and> counts m m' \<and>
     m_vf_exec m' = m_vf_exec m"

lemma counts_refl [simp]: "counts m m"
  by (simp add: counts_def)

lemma quiet_refl [simp, quiet_ops]: "quiet m m"
  by (simp add: quiet_def)

lemma need_quiet: "(k \<le> length (m_stack m) \<Longrightarrow> res_all P r) \<Longrightarrow> res_all P (need k m r)"
  by (simp add: need_def)

lemma quiet_set_stack [simp]:
  "quiet m (set_stack m s) \<longleftrightarrow> set s \<subseteq> machine_values m \<union> small"
  by (auto simp: quiet_def counts_def machine_values_def set_stack_def)

lemma set_ss_swap_top [stack_sets]:
  "0 < a \<Longrightarrow> 0 < b \<Longrightarrow> a \<le> length s \<Longrightarrow> b \<le> length s \<Longrightarrow> set (ss_swap_top s a b) = set s"
  unfolding ss_swap_top_def ss_swap_def by (rule set_swap) auto

lemma in_stack [simp]: "x \<in> set (m_stack m) \<Longrightarrow> x \<in> machine_values m"
  by (simp add: machine_values_def)

lemma top_in_values [simp]:
  "0 < k \<Longrightarrow> k \<le> length (m_stack m) \<Longrightarrow> stack_top (m_stack m) k \<in> machine_values m"
  by (simp add: stack_top_in)

lemma top1_in_values [simp]: "m_stack m \<noteq> [] \<Longrightarrow> stack_top (m_stack m) (Suc 0) \<in> machine_values m"
  by (rule top_in_values) (simp_all add: Suc_le_eq)

lemmas stack_dests = set_stack_drop [THEN subsetD] set_ss_erase [THEN subsetD]

lemmas small_values [simp] = sn_to_bytes_small vch_bool_small

lemmas machine_simps = Let_def need_def not_less res_all_def stack_sets set_ss_insert
  ss_erase_top_def ss_erase_top_range_def ss_insert_top_def

lemma quiet_flow_free [quiet_ops]:
  "res_all (quiet m) (op_1negate ctx m)"
  "res_all (quiet m) (op_small_int op ctx m)"
  "res_all (quiet m) (op_upgradable_nop ctx m)"
  "res_all (quiet m) (op_verify ctx m)"
  "res_all (quiet m) (op_return ctx m)"
  "res_all (quiet m) (op_depth ctx m)"
  "res_all (quiet m) (op_drop ctx m)"
  "res_all (quiet m) (op_2drop ctx m)"
  by (auto simp: op_1negate_def op_small_int_def op_upgradable_nop_def op_verify_def op_return_def
      op_depth_def op_drop_def op_2drop_def machine_simps dest!: stack_dests)

lemma quiet_lock_time [quiet_ops]:
  "res_all (quiet m) (op_check_lock_time_verify ctx m)"
  "res_all (quiet m) (op_check_sequence_verify ctx m)"
  by (intro res_allI; auto simp: op_check_lock_time_verify_def op_check_sequence_verify_def need_def
      res_simps split: if_splits)+

lemma quiet_alt [quiet_ops]:
  "res_all (quiet m) (op_to_alt_stack ctx m)"
  "res_all (quiet m) (op_from_alt_stack ctx m)"
  using stack_top_in [of 1 "m_stack m"] stack_top_in [of 1 "m_altstack m"]
    set_stack_drop [of 1 "m_stack m"] set_stack_drop [of 1 "m_altstack m"]
  by (auto simp: op_to_alt_stack_def op_from_alt_stack_def need_def quiet_def counts_def
      machine_values_def stack_sets Suc_le_eq)

lemma quiet_dup [quiet_ops]:
  "res_all (quiet m) (op_2dup ctx m)"
  "res_all (quiet m) (op_3dup ctx m)"
  "res_all (quiet m) (op_2over ctx m)"
  "res_all (quiet m) (op_ifdup ctx m)"
  "res_all (quiet m) (op_dup ctx m)"
  "res_all (quiet m) (op_over ctx m)"
  "res_all (quiet m) (op_tuck ctx m)"
  "res_all (quiet m) (op_size_of ctx m)"
  by (auto simp: op_2dup_def op_3dup_def op_2over_def op_ifdup_def op_dup_def op_over_def op_tuck_def
      op_size_of_def machine_simps)

lemma quiet_move [quiet_ops]:
  "res_all (quiet m) (op_2rot ctx m)"
  "res_all (quiet m) (op_2swap ctx m)"
  "res_all (quiet m) (op_nip ctx m)"
  "res_all (quiet m) (op_rot ctx m)"
  "res_all (quiet m) (op_swap ctx m)"
  "res_all (quiet m) (op_equal op ctx m)"
  by (auto simp: op_2rot_def op_2swap_def op_nip_def op_rot_def op_swap_def op_equal_def machine_simps
      dest!: stack_dests split: if_splits)

lemma quiet_pick_roll [quiet_ops]: "res_all (quiet m) (op_pick_roll op ctx m)"
proof (rule res_allI)
  fix m'
  assume "op_pick_roll op ctx m = Inr m'"
  then obtain n s where n: "nat n < length s" "0 \<le> n" "s = stack_drop 1 (m_stack m)"
    and m': "m' = set_stack m (ss_push (if op = OpRoll
      then ss_erase s (length s - nat n - 1) (length s - nat n - 1 + 1) else s) (stack_top s (nat n + 1)))"
    by (auto simp: op_pick_roll_def need_def res_simps Let_def not_le split: if_splits)
  have "stack_top s (nat n + 1) \<in> set s" using n by (intro stack_top_in) simp_all
  with m' show "quiet m m'"
    by (auto simp: stack_sets n(3) dest!: stack_dests)
qed

lemma quiet_num [quiet_ops]:
  "res_all (quiet m) (op_unary op ctx m)"
  "res_all (quiet m) (op_binary op ctx m)"
  "res_all (quiet m) (op_within ctx m)"
  by (intro res_allI; auto simp: op_unary_def op_binary_def op_within_def need_def Let_def res_simps
      stack_sets dest!: stack_dests split: if_splits)+

lemma quiet_hash [quiet_ops]:
  "crypto_ok (ec_crypto ctx) \<Longrightarrow> res_all (quiet m) (op_hash op ctx m)"
  using hash_of_small [of "ec_crypto ctx" op] by (auto simp: op_hash_def machine_simps dest!: stack_dests)

lemma quiet_code_separator [quiet_ops]: "res_all (quiet m) (op_code_separator pc ctx m)"
  by (simp add: op_code_separator_def quiet_def counts_def machine_values_def)


lemma checksig_tapscript_frame:
  "res_all (\<lambda>(ok, m'). m_stack m' = m_stack m \<and> quiet m m') (checksig_tapscript ctx m sig pubkey)"
proof (rule res_allI, clarify)
  fix ok m'
  assume "checksig_tapscript ctx m sig pubkey = Inr (ok, m')"
  then obtain e err where "m' = m \<or> m' = m\<lparr>m_exec_data := e\<rparr> \<or> m' = m\<lparr>m_error := err\<rparr> \<or>
    m' = m\<lparr>m_exec_data := e, m_error := err\<rparr>"
    by (auto simp: checksig_tapscript_def spend_weight_def Let_def res_simps split: if_splits prod.splits)
  then show "m_stack m' = m_stack m \<and> quiet m m'"
    by (auto simp: quiet_def counts_def machine_values_def)
qed

lemma quiet_set_stack_frame:
  "quiet m m' \<Longrightarrow> m_stack m' = m_stack m \<Longrightarrow> set s \<subseteq> set (m_stack m) \<union> small \<Longrightarrow> quiet m (set_stack m' s)"
  by (auto simp: quiet_def counts_def machine_values_def set_stack_def)

lemma quiet_checksig [quiet_ops]: "res_all (quiet m) (op_checksig op ctx m)"
proof (rule res_allI)
  fix m'
  assume r: "op_checksig op ctx m = Inr m'"
  let ?s2 = "stack_drop 1 (stack_drop 1 (m_stack m))"
  obtain ok m1 s where m1: "m_stack m1 = m_stack m" "quiet m m1"
    and m': "m' = set_stack m1 s" "s = ss_push ?s2 (vch_bool ok) \<or> s = stack_drop 1 (ss_push ?s2 (vch_bool ok))"
    using r checksig_tapscript_frame [of m ctx "stack_top (m_stack m) 2" "stack_top (m_stack m) 1"]
    by (fastforce simp: op_checksig_def need_def Let_def res_simps split: if_splits)
  have "set s \<subseteq> set (m_stack m) \<union> small"
    using m'(2) by (auto simp: stack_sets dest!: stack_dests)
  with m1 m'(1) show "quiet m m'" by (simp add: quiet_set_stack_frame)
qed

lemma quiet_checksigadd [quiet_ops]: "res_all (quiet m) (op_checksigadd ctx m)"
proof (rule res_allI)
  fix m'
  assume r: "op_checksigadd ctx m = Inr m'"
  let ?s3 = "stack_drop 1 (stack_drop 1 (stack_drop 1 (m_stack m)))"
  obtain n m1 where m1: "m_stack m1 = m_stack m" "quiet m m1"
    and m': "m' = set_stack m1 (ss_push ?s3 (sn_to_bytes n))"
    using r checksig_tapscript_frame [of m ctx "stack_top (m_stack m) 3" "stack_top (m_stack m) 1"]
    by (fastforce simp: op_checksigadd_def need_def Let_def res_simps split: if_splits)
  have "set (ss_push ?s3 (sn_to_bytes n)) \<subseteq> set (m_stack m) \<union> small"
    by (auto simp: stack_sets dest!: stack_dests)
  with m1 m' show "quiet m m'" by (simp add: quiet_set_stack_frame)
qed

lemma multisig_cleanup_stack:
  "res_all (\<lambda>s'. s' = stack_drop (i - 1) s) (multisig_cleanup ctx f i ikey2 s)"
proof (induction ctx f i ikey2 s rule: multisig_cleanup.induct)
  case (1 ctx f i ikey2 s)
  have "stack_drop (i - 2) (stack_drop 1 s) = stack_drop (i - 1) s" if "i > 1"
    using that by (simp add: stack_drop_def numeral_2_eq_2)
  with 1 show ?case
    by (subst multisig_cleanup.simps) (auto simp: res_all_def stack_drop_def numeral_2_eq_2 split: sum.splits)
qed

lemma quiet_multisig [quiet_ops]: "res_all (quiet m) (op_checkmultisig op ctx m)"
proof (rule res_allI)
  fix m'
  assume r: "op_checkmultisig op ctx m = Inr m'"
  obtain n ok i s where n: "m_op_count m + n \<le> MAX_OPS_PER_SCRIPT"
    and m': "m' = set_stack (m\<lparr>m_op_count := m_op_count m + n\<rparr>) s"
    and s: "s = ss_push (stack_drop 1 (stack_drop (i - 1) (m_stack m))) (vch_bool ok) \<or>
      s = stack_drop 1 (ss_push (stack_drop 1 (stack_drop (i - 1) (m_stack m))) (vch_bool ok))"
    using r multisig_cleanup_stack [THEN res_allD]
    by (fastforce simp: op_checkmultisig_def need_def Let_def res_simps not_less split: if_splits)
  have "set s \<subseteq> set (m_stack m) \<union> small"
    using s by (auto simp: stack_sets dest!: stack_dests)
  with n m' show "quiet m m'"
    by (auto simp: quiet_def counts_def machine_values_def set_stack_def)
qed


section \<open>One round of the loop\<close>

definition flow_op :: "opcode \<Rightarrow> bool" where
  "flow_op op \<longleftrightarrow> op = OpIf \<or> op = OpNotIf \<or> op = OpElse \<or> op = OpEndIf"

lemma exec_op_quiet:
  "crypto_ok (ec_crypto ctx) \<Longrightarrow> \<not> flow_op op \<Longrightarrow> res_all (quiet m) (exec_op ctx f pc op m)"
  unfolding exec_op_def
  by (intro res_all_if quiet_ops) (simp_all add: flow_op_def)

text \<open>What an operation does to the condition stack.\<close>

definition vf_step :: "opcode \<Rightarrow> condition_stack \<Rightarrow> condition_stack \<Rightarrow> bool" where
  "vf_step op c c' =
     (if op = OpIf \<or> op = OpNotIf then (\<exists>f. c' = cs_push_back c f)
      else if op = OpElse then \<not> cs_empty c \<and> c' = cs_toggle_top c
      else if op = OpEndIf then \<not> cs_empty c \<and> c' = cs_pop_back c
      else c' = c)"

definition run_ok :: "opcode \<Rightarrow> machine \<Rightarrow> machine \<Rightarrow> bool" where
  "run_ok op m m' \<longleftrightarrow> machine_values m' \<subseteq> machine_values m \<union> small \<and> counts m m' \<and>
     vf_step op (m_vf_exec m) (m_vf_exec m')"

lemma quiet_run_ok: "quiet m m' \<Longrightarrow> \<not> flow_op op \<Longrightarrow> run_ok op m m'"
  by (auto simp: quiet_def run_ok_def flow_op_def vf_step_def)

lemma flow_run_ok:
  "op = OpIf \<or> op = OpNotIf \<Longrightarrow> res_all (run_ok op m) (op_if f op ctx m)"
  "res_all (run_ok OpElse m) (op_else ctx m)"
  "res_all (run_ok OpEndIf m) (op_endif ctx m)"
  by (auto simp: op_if_def op_else_def op_endif_def need_def Let_def run_ok_def vf_step_def
      counts_def machine_values_def push_condition_def set_stack_def dest!: stack_dests)

lemma exec_op_flow: "flow_op op \<Longrightarrow> res_all (run_ok op m) (exec_op ctx f pc op m)"
  using flow_run_ok(1) [of op m f ctx] flow_run_ok(2,3) [of m ctx]
  by (auto simp: flow_op_def exec_op_def)

lemma flow_op_range: "flow_op op \<Longrightarrow> OpIf \<le> op \<and> op \<le> OpEndIf"
  by (auto simp: flow_op_def)

lemma run_op_ok:
  assumes "crypto_ok (ec_crypto ctx)" "length data \<le> MAX_SCRIPT_ELEMENT_SIZE"
  shows "res_all (run_ok op m) (run_op ctx pc op data m)"
proof (cases "flow_op op")
  case True
  then have "OpIf \<le> op" "op \<le> OpEndIf" using flow_op_range by blast+
  moreover from this(1) have "\<not> op \<le> OpPushData4"
    by (simp add: word_le_nat_alt)
  ultimately show ?thesis
    using exec_op_flow [OF True] by (simp add: run_op_def Let_def)
next
  case False
  have "quiet m (set_stack m (ss_push (m_stack m) data))"
    using assms(2) by (auto simp: stack_sets small_def)
  then have "res_all (quiet m) (run_op ctx pc op data m)"
    using exec_op_quiet [OF assms(1) False] by (simp add: run_op_def Let_def)
  then show ?thesis
    by (rule res_all_mono) (rule quiet_run_ok [OF _ False])
qed

text \<open>The facts a successful round establishes.\<close>

definition counted :: "eval_ctx \<Rightarrow> opcode \<Rightarrow> nat" where
  "counted ctx op = (if pre_tapscript ctx \<and> op > Op16 then 1 else 0)"

definition limit_ok :: "eval_ctx \<Rightarrow> machine \<Rightarrow> bool" where
  "limit_ok ctx m \<longleftrightarrow> m_op_count m \<le> MAX_OPS_PER_SCRIPT"

lemma eval_step_facts:
  assumes "crypto_ok (ec_crypto ctx)" "eval_step ctx pc m = Inr (pc', m')"
  obtains op data where "get_op (ec_script ctx) pc = Some (op, data, pc')"
    "length data \<le> MAX_SCRIPT_ELEMENT_SIZE" "\<not> is_disabled_opcode op"
    "machine_values m' \<subseteq> machine_values m \<union> small"
    "length (m_stack m') + length (m_altstack m') \<le> MAX_STACK_SIZE"
    "m_op_count m + counted ctx op \<le> m_op_count m'"
    "limit_ok ctx m \<Longrightarrow> limit_ok ctx m'"
    "vf_step op (m_vf_exec m) (m_vf_exec m')"
proof -
  obtain op data m1 m2 where g: "get_op (ec_script ctx) pc = Some (op, data, pc')"
    and pre: "pre_checks ctx op data m = Inr m1"
    and run: "run_op ctx pc' op data m1 = Inr m2"
    and post: "post_checks m2 = Inr m'"
    using assms(2) by (auto simp: eval_step_def res_simps split: option.splits)
  have p: "length data \<le> MAX_SCRIPT_ELEMENT_SIZE" "\<not> is_disabled_opcode op"
    "m1 = m\<lparr>m_op_count := m_op_count m + counted ctx op\<rparr>" "limit_ok ctx m \<Longrightarrow> limit_ok ctx m1"
    using pre by (auto simp: pre_checks_def Let_def counted_def limit_ok_def split: if_splits)
  have r: "run_ok op m1 m2"
    using run_op_ok [OF assms(1) p(1)] run by (rule res_allD)
  have q: "m' = m2\<lparr>m_opcode_pos := m_opcode_pos m2 + 1\<rparr>"
    "length (m_stack m2) + length (m_altstack m2) \<le> MAX_STACK_SIZE"
    using post by (auto simp: post_checks_def split: if_splits)
  show thesis
    using r p q by (intro that [OF g p(1,2)])
      (auto simp: run_ok_def counts_def machine_values_def limit_ok_def)
qed


section \<open>The whole loop\<close>

lemma eval_loop_induct [consumes 1, case_names finish step]:
  assumes "eval_loop ctx pc m = Inr m'"
    and "\<And>pc m. length (ec_script ctx) \<le> pc \<Longrightarrow> m' = m \<Longrightarrow> Q pc m"
    and "\<And>pc m pc1 m1. pc < length (ec_script ctx) \<Longrightarrow> eval_step ctx pc m = Inr (pc1, m1) \<Longrightarrow>
      Q pc1 m1 \<Longrightarrow> Q pc m"
  shows "Q pc m"
  using assms
proof (induction ctx pc m rule: eval_loop.induct)
  case (1 ctx pc m)
  show ?case
  proof (cases "pc < length (ec_script ctx)")
    case True
    with 1(2) obtain pc1 m1 where step: "eval_step ctx pc m = Inr (pc1, m1)"
      "eval_loop ctx pc1 m1 = Inr m'"
      by (subst (asm) eval_loop.simps) (auto split: sum.splits)
    have "Q pc1 m1"
      by (rule 1(1) [OF True step(1) refl step(2)]) (use 1(3,4) in blast)+
    with True step(1) show ?thesis by (rule 1(4))
  next
    case False
    with 1(2) have "m' = m" by (subst (asm) eval_loop.simps) simp
    with False show ?thesis by (intro 1(3)) simp_all
  qed
qed

lemma ops_from_Some:
  "get_op s pos = Some (op, d, new) \<Longrightarrow> ops_from s pos = (op, d) # ops_from s new"
  by (subst ops_from.simps) simp

lemma ops_from_end: "length s \<le> pos \<Longrightarrow> ops_from s pos = []"
  by (subst ops_from.simps) (simp add: get_op_def)

text \<open>A script that ran to its end is made of whole operations, none disabled, none pushing too much.\<close>

lemma eval_loop_static:
  assumes "crypto_ok (ec_crypto ctx)" "eval_loop ctx pc m = Inr m'" "pc \<le> length (ec_script ctx)"
  shows "op_end (ec_script ctx) pc = length (ec_script ctx) \<and>
    (\<forall>(op, data)\<in>set (ops_from (ec_script ctx) pc).
       \<not> is_disabled_opcode op \<and> length data \<le> MAX_SCRIPT_ELEMENT_SIZE)"
  using assms(2,3)
proof (induction rule: eval_loop_induct)
  case (finish pc m)
  then show ?case by (simp add: ops_from_end slices_None [of "ec_script ctx"] get_op_def)
next
  case (step pc m pc1 m1)
  obtain op data where g: "get_op (ec_script ctx) pc = Some (op, data, pc1)"
    "length data \<le> MAX_SCRIPT_ELEMENT_SIZE" "\<not> is_disabled_opcode op"
    using eval_step_facts [OF assms(1) step(2)] by blast
  have "pc1 \<le> length (ec_script ctx)" using get_op_progress [OF g(1)] by blast
  with step g show ?case by (auto simp: ops_from_Some slices_Some(2))
qed

text \<open>Values, stack size and operation count.\<close>

lemma eval_loop_values:
  assumes "crypto_ok (ec_crypto ctx)" "eval_loop ctx pc m = Inr m'"
  shows "machine_values m' \<subseteq> machine_values m \<union> small"
  using assms(2)
proof (induction rule: eval_loop_induct)
  case (step pc m pc1 m1)
  then show ?case using eval_step_facts [OF assms(1) step(2)] by blast
qed simp

lemma eval_loop_stack_size:
  assumes "crypto_ok (ec_crypto ctx)" "eval_loop ctx pc m = Inr m'"
    and "length (m_stack m) + length (m_altstack m) \<le> MAX_STACK_SIZE"
  shows "length (m_stack m') + length (m_altstack m') \<le> MAX_STACK_SIZE"
  using assms(2,3)
proof (induction rule: eval_loop_induct)
  case (step pc m pc1 m1)
  then show ?case using eval_step_facts [OF assms(1) step(2)] by blast
qed simp

definition counted_ops :: "eval_ctx \<Rightarrow> nat \<Rightarrow> nat" where
  "counted_ops ctx pc = sum_list (map (\<lambda>(op, data). counted ctx op) (ops_from (ec_script ctx) pc))"

lemma eval_loop_count:
  assumes "crypto_ok (ec_crypto ctx)" "eval_loop ctx pc m = Inr m'" "limit_ok ctx m"
  shows "m_op_count m + counted_ops ctx pc \<le> m_op_count m' \<and> limit_ok ctx m'"
  using assms(2,3)
proof (induction rule: eval_loop_induct)
  case (finish pc m)
  then show ?case by (simp add: counted_ops_def ops_from_end)
next
  case (step pc m pc1 m1)
  obtain op data where g: "get_op (ec_script ctx) pc = Some (op, data, pc1)"
    "m_op_count m + counted ctx op \<le> m_op_count m1" "limit_ok ctx m \<Longrightarrow> limit_ok ctx m1"
    using eval_step_facts [OF assms(1) step(2)] by blast
  then show ?case
    using step by (simp add: counted_ops_def ops_from_Some)
qed

section \<open>Conditionals\<close>

text \<open>The nesting depth after a list of operations; no result when an else or endif has no if.\<close>

fun nesting :: "nat \<Rightarrow> (opcode \<times> bytes) list \<Rightarrow> nat option" where
  "nesting n [] = Some n"
| "nesting n ((op, data) # ops) =
     (if op = OpIf \<or> op = OpNotIf then nesting (n + 1) ops
      else if op = OpElse then if n = 0 then None else nesting n ops
      else if op = OpEndIf then if n = 0 then None else nesting (n - 1) ops
      else nesting n ops)"

lemma vf_step_rel:
  assumes "cs_rel c bs" "length bs < 2 ^ 32 - 2" "vf_step op c c'"
  obtains bs' where "cs_rel c' bs'" "length bs' \<le> length bs + 1"
    "nesting (length bs) ((op, data) # ops) = nesting (length bs') ops"
proof -
  have ne: "\<not> cs_empty c \<longleftrightarrow> bs \<noteq> []" using vf_exec.rel_empty [OF assms(1)] by simp
  consider f where "op = OpIf \<or> op = OpNotIf" "c' = cs_push_back c f"
    | "op = OpElse" "bs \<noteq> []" "c' = cs_toggle_top c"
    | "op = OpEndIf" "bs \<noteq> []" "c' = cs_pop_back c"
    | "\<not> flow_op op" "c' = c"
    using assms(3) ne by (auto simp: vf_step_def flow_op_def split: if_splits)
  then show thesis
  proof cases
    case 1
    then show thesis
      using vf_exec.rel_push [OF assms(1,2)] by (intro that [of "bs @ [f]"]) auto
  next
    case 2
    then obtain xs x where bs: "bs = xs @ [x]" by (metis rev_exhaust)
    show thesis
      using 2 vf_exec.rel_toggle [of c xs x] assms(1) bs by (intro that [of "xs @ [\<not> x]"]) auto
  next
    case 3
    then obtain xs x where bs: "bs = xs @ [x]" by (metis rev_exhaust)
    show thesis
      using 3 vf_exec.rel_pop [of c xs x] assms(1) bs by (intro that [of xs]) auto
  next
    case 4
    then show thesis using assms(1) by (intro that [of bs]) (auto simp: flow_op_def)
  qed
qed

lemma eval_loop_nesting:
  assumes "crypto_ok (ec_crypto ctx)" "eval_loop ctx pc m = Inr m'"
    and "length (ec_script ctx) < 2 ^ 32 - 2" "pc \<le> length (ec_script ctx)"
    and "cs_rel (m_vf_exec m) bs" "length bs \<le> pc"
  shows "\<exists>bs'. cs_rel (m_vf_exec m') bs' \<and> nesting (length bs) (ops_from (ec_script ctx) pc) = Some (length bs')"
  using assms(2,4-6)
proof (induction arbitrary: bs rule: eval_loop_induct)
  case (finish pc m)
  then show ?case by (auto simp: ops_from_end)
next
  case (step pc m pc1 m1)
  obtain op data where g: "get_op (ec_script ctx) pc = Some (op, data, pc1)"
    "vf_step op (m_vf_exec m) (m_vf_exec m1)"
    using eval_step_facts [OF assms(1) step(2)] by blast
  have pc: "pc < pc1" "pc1 \<le> length (ec_script ctx)" using get_op_progress [OF g(1)] by auto
  have "length bs < 2 ^ 32 - 2" using step(1,6) assms(3) by linarith
  then obtain bs1 where b1: "cs_rel (m_vf_exec m1) bs1" "length bs1 \<le> length bs + 1"
    "nesting (length bs) ((op, data) # ops_from (ec_script ctx) pc1) =
     nesting (length bs1) (ops_from (ec_script ctx) pc1)"
    using vf_step_rel [OF step(5) _ g(2)] by blast
  moreover have "length bs1 \<le> pc1" using b1(2) step(6) pc by linarith
  ultimately show ?case
    using step(3) [of bs1] pc by (simp only: ops_from_Some [OF g(1)])
qed

section \<open>The function\<close>

lemma eval_script_loop:
  assumes "eval_script ctx stack e = Inr (stack', e')"
  obtains m' where "eval_loop ctx 0 (initial_machine stack e) = Inr m'" "m_stack m' = stack'"
    "m_exec_data m' = e'" "cs_empty (m_vf_exec m')"
    "pre_tapscript ctx \<Longrightarrow> length (ec_script ctx) \<le> MAX_SCRIPT_SIZE"
  using assms by (auto simp: eval_script_def res_simps split: if_splits)

lemma initial_machine_simps [simp]:
  "m_stack (initial_machine s e) = s" "m_altstack (initial_machine s e) = []"
  "m_vf_exec (initial_machine s e) = cs_new" "m_op_count (initial_machine s e) = 0"
  "machine_values (initial_machine s e) = set s" "limit_ok ctx (initial_machine s e)"
  by (simp_all add: initial_machine_def machine_values_def limit_ok_def)

lemma counted_ops_filter:
  "pre_tapscript ctx \<Longrightarrow>
   counted_ops ctx pc = length (filter (\<lambda>(op, data). op > Op16) (ops_from (ec_script ctx) pc))"
proof -
  assume "pre_tapscript ctx"
  then have "sum_list (map (\<lambda>(op, data). counted ctx op) xs) = length (filter (\<lambda>(op, data). op > Op16) xs)" for xs :: "(opcode \<times> bytes) list"
    by (induction xs) (auto simp: counted_def)
  then show ?thesis by (simp add: counted_ops_def)
qed

text \<open>A concrete context: hash functions that cut or pad to the size of the digest, and the checker
  that accepts no signature.\<close>

definition pad_to :: "nat \<Rightarrow> bytes \<Rightarrow> bytes" where
  "pad_to n x = take n (x @ replicate n 0)"

definition pad_crypto :: crypto where
  "pad_crypto = \<lparr>
     ripemd160_hash = pad_to 20, sha1_hash = pad_to 20, sha256_hash = pad_to 32,
     hash160 = pad_to 20, hash256 = pad_to 32,
     der_is_low_s = (\<lambda>sig. Some True), xonly_from_slice = (\<lambda>k. Some k),
     scalar_in_range = (\<lambda>k. True), tweak_add_check = (\<lambda>internal output parity tweak. True)\<rparr>"

lemma pad_crypto_ok: "crypto_ok pad_crypto"
  by (auto simp: crypto_ok_def pad_crypto_def pad_to_def min_def)

definition example_ctx :: "script \<Rightarrow> eval_ctx" where
  "example_ctx s = \<lparr>ec_script = s, ec_flags = VERIFY_MINIMALDATA, ec_checker = base_signature_checker,
     ec_sigversion = Base, ec_crypto = pad_crypto\<rparr>"

lemma example_run:
  "\<exists>e. eval_script (example_ctx [Op1, OpIf, Op2, OpElse, OpReturn, OpEndIf, OpDup, OpAdd]) [[7]] exec_data_default = Inr ([[7], [4]], e)"
  by (rule exI [of _ "exec_data_default\<lparr>codeseparator_pos := 0xFFFFFFFF, codeseparator_pos_init := True\<rparr>"]) code_simp

lemma example_crypto: "ec_crypto (example_ctx s) = pad_crypto" "ec_script (example_ctx s) = s"
  by (simp_all add: example_ctx_def)

section \<open>Main results\<close>

text \<open>C7: The limits hold throughout. A successful execution started on at most 1000 values of at most
  520 bytes ends with at most 1000 values of at most 520 bytes, whatever the script did.\<close>

theorem eval_script_limits:
  assumes "crypto_ok (ec_crypto ctx)" "eval_script ctx stack e = Inr (stack', e')"
    and "length stack \<le> MAX_STACK_SIZE" "\<forall>v\<in>set stack. length v \<le> MAX_SCRIPT_ELEMENT_SIZE"
  shows "length stack' \<le> MAX_STACK_SIZE \<and> (\<forall>v\<in>set stack'. length v \<le> MAX_SCRIPT_ELEMENT_SIZE)"
proof -
  obtain m' where m': "eval_loop ctx 0 (initial_machine stack e) = Inr m'" "m_stack m' = stack'"
    using eval_script_loop [OF assms(2)] by metis
  have "length (m_stack m') + length (m_altstack m') \<le> MAX_STACK_SIZE"
    using eval_loop_stack_size [OF assms(1) m'(1)] assms(3) by simp
  moreover have "machine_values m' \<subseteq> set stack \<union> small"
    using eval_loop_values [OF assms(1) m'(1)] by simp
  ultimately show ?thesis
    using assms(4) m'(2) by (auto simp: small_def machine_values_def)
qed

theorem eval_script_limits_witness:
  "\<exists>stack' e. eval_script (example_ctx [Op1, OpIf, Op2, OpElse, OpReturn, OpEndIf, OpDup, OpAdd])
     [[7]] exec_data_default = Inr (stack', e) \<and> length stack' \<le> MAX_STACK_SIZE"
proof -
  obtain e where r: "eval_script (example_ctx [Op1, OpIf, Op2, OpElse, OpReturn, OpEndIf, OpDup, OpAdd])
    [[7]] exec_data_default = Inr ([[7], [4]], e)"
    using example_run by blast
  show ?thesis
    using eval_script_limits [OF _ r] r pad_crypto_ok
    by (simp add: example_crypto MAX_STACK_SIZE_def MAX_SCRIPT_ELEMENT_SIZE_def)
qed

text \<open>C9: Scripts that succeed are well formed. The bytes are whole operations to the end; no operation,
  executed or not, is disabled or pushes more than 520 bytes; every \<open>OP_IF\<close> or \<open>OP_NOTIF\<close> is closed by an \<open>OP_ENDIF\<close>, with
  no stray else or endif; and before tapscript there are at most 10000 bytes and 201 operations that are not pushes.\<close>

theorem eval_script_well_formed:
  assumes "crypto_ok (ec_crypto ctx)" "eval_script ctx stack e = Inr (stack', e')"
    and "length (ec_script ctx) < 2 ^ 32 - 2"
  shows "op_end (ec_script ctx) 0 = length (ec_script ctx) \<and>
    (\<forall>(op, data)\<in>set (iter_ops (ec_script ctx)).
       \<not> is_disabled_opcode op \<and> length data \<le> MAX_SCRIPT_ELEMENT_SIZE) \<and>
    nesting 0 (iter_ops (ec_script ctx)) = Some 0 \<and>
    (pre_tapscript ctx \<longrightarrow> length (ec_script ctx) \<le> MAX_SCRIPT_SIZE \<and>
       length (filter (\<lambda>(op, data). op > Op16) (iter_ops (ec_script ctx))) \<le> MAX_OPS_PER_SCRIPT)"
proof -
  obtain m' where m': "eval_loop ctx 0 (initial_machine stack e) = Inr m'"
    "cs_empty (m_vf_exec m')" "pre_tapscript ctx \<Longrightarrow> length (ec_script ctx) \<le> MAX_SCRIPT_SIZE"
    using eval_script_loop [OF assms(2)] by metis
  obtain bs where bs: "cs_rel (m_vf_exec m') bs" "nesting 0 (iter_ops (ec_script ctx)) = Some (length bs)"
    using eval_loop_nesting [OF assms(1) m'(1) assms(3), of "[]"] vf_exec.rel_new
    by (auto simp: iter_ops_def)
  have "bs = []" using vf_exec.rel_empty [OF bs(1)] m'(2) by simp
  moreover have "counted_ops ctx 0 \<le> MAX_OPS_PER_SCRIPT"
    using eval_loop_count [OF assms(1) m'(1)] by (simp add: limit_ok_def)
  ultimately show ?thesis
    using eval_loop_static [OF assms(1) m'(1)] bs(2) m'(3) counted_ops_filter [of ctx 0]
    by (auto simp: iter_ops_def)
qed


theorem eval_script_well_formed_witness:
  "nesting 0 (iter_ops [Op1, OpIf, Op2, OpElse, OpReturn, OpEndIf, OpDup, OpAdd]) = Some 0"
proof -
  obtain e where r: "eval_script (example_ctx [Op1, OpIf, Op2, OpElse, OpReturn, OpEndIf, OpDup, OpAdd])
    [[7]] exec_data_default = Inr ([[7], [4]], e)"
    using example_run by blast
  show ?thesis
    using eval_script_well_formed [OF _ r] pad_crypto_ok by (simp add: example_crypto)
qed

lemma op_return_fails:
  assumes "length (ec_script ctx) > 0" "ec_script ctx ! 0 = OpReturn" "cs_all_true (m_vf_exec m)"
  shows "\<exists>err. eval_loop ctx 0 m = Inl err"
proof -
  have g: "get_op (ec_script ctx) 0 = Some (OpReturn, [], 1)"
    using assms(1,2) by (simp add: get_op_def Let_def)
  have "run_op ctx 1 OpReturn [] m1 = Inl ErrOpReturn" if "cs_all_true (m_vf_exec m1)" for m1
    using that by (simp add: run_op_def exec_op_def op_return_def Let_def)
  moreover have "m_vf_exec m1 = m_vf_exec m" if "pre_checks ctx OpReturn [] m = Inr m1" for m1
    using that by (auto simp: pre_checks_def Let_def split: if_splits)
  ultimately have "\<exists>err. eval_step ctx 0 m = Inl err"
    using g assms(3) by (cases "pre_checks ctx OpReturn [] m") (auto simp: eval_step_def)
  then show ?thesis
    using assms(1) by (subst eval_loop.simps) auto
qed

text \<open>C12: Provably unspendable outputs cannot be spent: a script that \<open>is_unspendable\<close> recognises fails
  on every stack, with every checker and every set of flags, before tapscript. Pruning such
  outputs from the coin set loses no spendable coin.\<close>

theorem unspendable_never_succeeds:
  assumes "is_unspendable (ec_script ctx)" "pre_tapscript ctx"
  shows "\<exists>err. eval_script ctx stack e = Inl err"
proof (cases "length (ec_script ctx) > MAX_SCRIPT_SIZE")
  case False
  then have "length (ec_script ctx) > 0" "ec_script ctx ! 0 = OpReturn"
    using assms(1) by (auto simp: is_unspendable_def)
  moreover have "cs_all_true (m_vf_exec (initial_machine stack e))"
    by (simp add: cs_all_true_def cs_new_def)
  ultimately show ?thesis
    using op_return_fails [of ctx "initial_machine stack e"] by (auto simp: eval_script_def)
qed (use assms(2) in \<open>simp add: eval_script_def\<close>)

theorem unspendable_never_succeeds_witness:
  "\<exists>err. eval_script (example_ctx (build_op_return [1, 2, 3])) [[1]] exec_data_default = Inl err"
  by (rule unspendable_never_succeeds)
    (simp_all add: is_unspendable_def build_op_return_def push_opcode_def push_data_def
      example_ctx_def pre_tapscript_def)

end
