(* ===== verification/ScriptVerify.thy ===== *)
theory ScriptVerify
  imports ScriptSafety
begin

text \<open>
  The verification of a transaction input: \<open>verify_script\<close> and what it calls in
  \<open>qubitcoin-script/src/interpreter.rs\<close>: \<open>eval_script_simple\<close>,
  \<open>verify_witness_program\<close> with its segwit version 0 and taproot branches, the taproot
  helpers and \<open>execute_witness_script\<close>.

  The cryptographic functions, the checker and the flags, which the functions pass on unchanged, are
  the arguments \<open>C\<close>, \<open>ck\<close> and \<open>flags\<close>. A return of \<open>false\<close> is \<open>Inl\<close> of the error
  variable, a return of \<open>true\<close> is \<open>Inr ()\<close>.
\<close>

section \<open>Evaluation\<close>

definition eval_ctx_of ::
  "crypto \<Rightarrow> checker \<Rightarrow> script_flags \<Rightarrow> sig_version \<Rightarrow> script \<Rightarrow> eval_ctx" where
  "eval_ctx_of C ck flags sigversion s =
     \<lparr>ec_script = s, ec_flags = flags, ec_checker = ck, ec_sigversion = sigversion, ec_crypto = C\<rparr>"

definition eval_script_simple ::
  "crypto \<Rightarrow> checker \<Rightarrow> script_flags \<Rightarrow> sig_version \<Rightarrow> script \<Rightarrow> script_stack \<Rightarrow> script_error + script_stack" where
  "eval_script_simple C ck flags sigversion s stack =
     res_bind (eval_script (eval_ctx_of C ck flags sigversion s) stack exec_data_default)
       (\<lambda>(stack, e). Inr stack)"

definition execute_witness_script ::
  "crypto \<Rightarrow> checker \<Rightarrow> script_flags \<Rightarrow> sig_version \<Rightarrow> script \<Rightarrow> script_stack \<Rightarrow> exec_data \<Rightarrow>
   script_error + unit" where
  "execute_witness_script C ck flags sigversion exec_script stack e =
     (if \<exists>item\<in>set stack. length item > MAX_SCRIPT_ELEMENT_SIZE then Inl ErrPushSize
      else if sigversion = Tapscript \<and> length stack > MAX_STACK_SIZE then Inl ErrStackSize
      else res_bind (eval_script (eval_ctx_of C ck flags sigversion exec_script) stack e)
        (\<lambda>(stack, e).
           if length stack \<noteq> 1 then Inl ErrCleanStack
           else if \<not> cast_to_bool (stack_top stack 1) then Inl ErrEvalFalse
           else Inr ()))"

section \<open>Taproot\<close>

definition write_compact_size_to_vec :: "bytes \<Rightarrow> u64 \<Rightarrow> bytes" where
  "write_compact_size_to_vec buf n =
     (if n < 253 then buf @ [ucast n]
      else if n \<le> 0xffff then buf @ [253] @ to_le_bytes (ucast n :: u16)
      else if n \<le> 0xffffffff then buf @ [254] @ to_le_bytes (ucast n :: u32)
      else buf @ [255] @ to_le_bytes n)"

definition is_op_success :: "opcode \<Rightarrow> bool" where
  "is_op_success opcode \<longleftrightarrow>
     opcode = 80 \<or> opcode = 98 \<or> (opcode \<ge> 126 \<and> opcode \<le> 129) \<or>
     (opcode \<ge> 131 \<and> opcode \<le> 134) \<or> (opcode \<ge> 137 \<and> opcode \<le> 138) \<or>
     (opcode \<ge> 141 \<and> opcode \<le> 142) \<or> (opcode \<ge> 149 \<and> opcode \<le> 153) \<or>
     (opcode \<ge> 187 \<and> opcode \<le> 254)"

text \<open>The byte strings \<open>b"TapLeaf"\<close>, \<open>b"TapBranch"\<close> and \<open>b"TapTweak"\<close>.\<close>

definition tag_TapLeaf :: bytes where
  "tag_TapLeaf = [0x54, 0x61, 0x70, 0x4c, 0x65, 0x61, 0x66]"

definition tag_TapBranch :: bytes where
  "tag_TapBranch = [0x54, 0x61, 0x70, 0x42, 0x72, 0x61, 0x6e, 0x63, 0x68]"

definition tag_TapTweak :: bytes where
  "tag_TapTweak = [0x54, 0x61, 0x70, 0x54, 0x77, 0x65, 0x61, 0x6b]"

definition compute_tapleaf_hash :: "crypto \<Rightarrow> u8 \<Rightarrow> bytes \<Rightarrow> bytes" where
  "compute_tapleaf_hash C leaf_version s =
     tagged_hash C tag_TapLeaf (leaf_version # fst (write_compact_size (of_nat (length s))) @ s)"

text \<open>The comparison \<open>a < b\<close> of byte slices is lexicographic.\<close>

fun bytes_less :: "bytes \<Rightarrow> bytes \<Rightarrow> bool" where
  "bytes_less as [] = False"
| "bytes_less [] (b # bs) = True"
| "bytes_less (a # as) (b # bs) = (a < b \<or> (a = b \<and> bytes_less as bs))"

definition compute_tapbranch_hash :: "crypto \<Rightarrow> bytes \<Rightarrow> bytes \<Rightarrow> bytes" where
  "compute_tapbranch_hash C a b =
     tagged_hash C tag_TapBranch (if bytes_less a b then a @ b else b @ a)"

definition control_node :: "bytes \<Rightarrow> nat \<Rightarrow> bytes" where
  "control_node control i =
     take TAPROOT_CONTROL_NODE_SIZE
       (drop (TAPROOT_CONTROL_BASE_SIZE + TAPROOT_CONTROL_NODE_SIZE * i) control)"

definition compute_taproot_merkle_root :: "crypto \<Rightarrow> bytes \<Rightarrow> bytes \<Rightarrow> bytes" where
  "compute_taproot_merkle_root C control leaf_hash =
     (let path_len = (length control - TAPROOT_CONTROL_BASE_SIZE) div TAPROOT_CONTROL_NODE_SIZE
      in foldl (\<lambda>k i. compute_tapbranch_hash C k (control_node control i)) leaf_hash [0..<path_len])"

definition verify_taproot_commitment :: "crypto \<Rightarrow> bytes \<Rightarrow> bytes \<Rightarrow> bytes \<Rightarrow> bool" where
  "verify_taproot_commitment C control program leaf_hash =
     (case xonly_from_slice C (take (TAPROOT_CONTROL_BASE_SIZE - 1) (drop 1 control)) of
        None \<Rightarrow> False
      | Some internal_key \<Rightarrow>
          (case xonly_from_slice C program of
             None \<Rightarrow> False
           | Some output_key \<Rightarrow>
               let merkle_root = compute_taproot_merkle_root C control leaf_hash;
                   tweak_hash = tagged_hash C tag_TapTweak (internal_key @ merkle_root)
               in if \<not> scalar_in_range C tweak_hash then False
                  else tweak_add_check C internal_key output_key (control ! 0 AND 1 = 1) tweak_hash))"

definition compute_witness_size :: "bytes list \<Rightarrow> nat" where
  "compute_witness_size stack =
     foldl (\<lambda>size item. size + (compact_size_len (of_nat (length item)) + length item))
       (compact_size_len (of_nat (length stack))) stack"

text \<open>The scan for an \<open>OP_SUCCESS\<close>: whether there is one, or the error of a malformed script.\<close>

function op_success_scan :: "script \<Rightarrow> nat \<Rightarrow> script_error + bool" where
  "op_success_scan s pc =
     (if pc < length s then
        case get_op s pc of
          Some (op, data, next_pc) \<Rightarrow> if is_op_success op then Inr True else op_success_scan s next_pc
        | None \<Rightarrow> Inl ErrBadOpcode
      else Inr False)"
  by pat_completeness auto
termination
  by (relation "measure (\<lambda>(s, pc). length s - pc)") (auto dest!: get_op_progress)

declare op_success_scan.simps [simp del]

definition tapscript_spend ::
  "crypto \<Rightarrow> checker \<Rightarrow> script_flags \<Rightarrow> script_witness \<Rightarrow> script \<Rightarrow> script_stack \<Rightarrow> exec_data \<Rightarrow>
   script_error + unit" where
  "tapscript_spend C ck flags witness exec_script stack_items e =
     res_bind (op_success_scan exec_script 0) (\<lambda>found.
       if found then
         if flags_contains flags VERIFY_DISCOURAGE_OP_SUCCESS then Inl ErrDiscourageOpSuccess
         else Inr ()
       else
         let e = e\<lparr>validation_weight_left :=
                     of_nat (compute_witness_size witness) + VALIDATION_WEIGHT_OFFSET,
                   validation_weight_left_init := True\<rparr>
         in execute_witness_script C ck flags Tapscript exec_script stack_items e)"

definition taproot_script_path ::
  "crypto \<Rightarrow> checker \<Rightarrow> script_flags \<Rightarrow> script_witness \<Rightarrow> bytes \<Rightarrow> script_stack \<Rightarrow> exec_data \<Rightarrow>
   script_error + unit" where
  "taproot_script_path C ck flags witness wit_program stack_items e =
     (let control = last stack_items;
          s = last (butlast stack_items);
          stack_items = butlast (butlast stack_items)
      in if length control < TAPROOT_CONTROL_BASE_SIZE \<or> length control > TAPROOT_CONTROL_MAX_SIZE \<or>
            (length control - TAPROOT_CONTROL_BASE_SIZE) mod TAPROOT_CONTROL_NODE_SIZE \<noteq> 0
         then Inl ErrTaprootWrongControlSize
         else
           let leaf_version = control ! 0 AND TAPROOT_LEAF_MASK;
               e = e\<lparr>tapleaf_hash := compute_tapleaf_hash C leaf_version s\<rparr>
           in if \<not> verify_taproot_commitment C control wit_program (tapleaf_hash e)
              then Inl ErrWitnessProgramMismatch
              else
                let e = e\<lparr>tapleaf_hash_init := True\<rparr>
                in if leaf_version = TAPROOT_LEAF_TAPSCRIPT
                   then tapscript_spend C ck flags witness s stack_items e
                   else if flags_contains flags VERIFY_DISCOURAGE_UPGRADABLE_TAPROOT_VERSION
                   then Inl ErrDiscourageUpgradableTaprootVersion
                   else Inr ())"

text \<open>Annex detection: the remaining items and the execution data.\<close>

definition take_annex :: "crypto \<Rightarrow> script_stack \<Rightarrow> exec_data \<Rightarrow> script_stack \<times> exec_data" where
  "take_annex C stack_items e =
     (let (stack_items, e) =
        (if length stack_items \<ge> 2 \<and> last stack_items \<noteq> [] \<and> last stack_items ! 0 = ANNEX_TAG then
           let annex = last stack_items;
               serialized = write_compact_size_to_vec [] (of_nat (length annex)) @ annex
           in (butlast stack_items,
               e\<lparr>annex_hash := sha256_hash C serialized, annex_present := True\<rparr>)
         else (stack_items, e\<lparr>annex_present := False\<rparr>))
      in (stack_items, e\<lparr>annex_init := True\<rparr>))"

text \<open>The error variable matters on the key path only: the checker may read it.\<close>

definition taproot_spend ::
  "crypto \<Rightarrow> checker \<Rightarrow> script_flags \<Rightarrow> script_witness \<Rightarrow> bytes \<Rightarrow> script_error \<Rightarrow> script_error + unit" where
  "taproot_spend C ck flags witness wit_program error =
     (if \<not> flags_contains flags VERIFY_TAPROOT then Inr ()
      else if witness = [] then Inl ErrWitnessProgramWitnessEmpty
      else
        let (stack_items, e) = take_annex C witness exec_data_default
        in if length stack_items = 1 then
             let (ok, error) = check_schnorr_signature ck (stack_items ! 0) wit_program Taproot e error
             in if \<not> ok then Inl error else Inr ()
           else taproot_script_path C ck flags witness wit_program stack_items e)"

section \<open>Witness programs\<close>

definition witness_v0_spend ::
  "crypto \<Rightarrow> checker \<Rightarrow> script_flags \<Rightarrow> script_witness \<Rightarrow> bytes \<Rightarrow> script_error + unit" where
  "witness_v0_spend C ck flags witness wit_program =
     (if length wit_program = 32 then
        if witness = [] then Inl ErrWitnessProgramWitnessEmpty
        else
          let script_bytes = witness ! (length witness - 1)
          in if sha256_hash C script_bytes \<noteq> wit_program then Inl ErrWitnessProgramMismatch
             else execute_witness_script C ck flags WitnessV0 script_bytes
               (take (length witness - 1) witness) exec_data_default
      else if length wit_program = 20 then
        if length witness \<noteq> 2 then Inl ErrWitnessProgramMismatch
        else
          let exec_script =
                push_opcode (push_opcode
                  (push_data (push_opcode (push_opcode [] OpDup) OpHash160) wit_program)
                  OpEqualVerify) OpCheckSig
          in execute_witness_script C ck flags WitnessV0 exec_script witness exec_data_default
      else Inl ErrWitnessProgramWrongLength)"

definition verify_witness_program ::
  "crypto \<Rightarrow> checker \<Rightarrow> script_flags \<Rightarrow> script_witness \<Rightarrow> u8 \<Rightarrow> bytes \<Rightarrow> script_error \<Rightarrow> bool \<Rightarrow>
   script_error + unit" where
  "verify_witness_program C ck flags witness wit_version wit_program error p2sh =
     (if wit_version = 0 then witness_v0_spend C ck flags witness wit_program
      else if wit_version = 1 \<and> length wit_program = 32 \<and> \<not> p2sh
      then taproot_spend C ck flags witness wit_program error
      else if flags_contains flags VERIFY_DISCOURAGE_UPGRADABLE_WITNESS_PROGRAM
      then Inl ErrDiscourageUpgradableWitnessProgram
      else Inr ())"

section \<open>Transaction inputs\<close>

text \<open>The stack of an evaluation must be left with a true value on top.\<close>

definition check_result :: "script_stack \<Rightarrow> script_error + unit" where
  "check_result stack =
     (if stack = [] then Inl ErrEvalFalse
      else if \<not> cast_to_bool (last stack) then Inl ErrEvalFalse
      else Inr ())"

text \<open>
  The check of a witness program, in the public key script or in the redeem script. It returns
  whether there was one, and the stack, cut to one element if there was.
\<close>

definition verify_witness_of ::
  "crypto \<Rightarrow> checker \<Rightarrow> script_flags \<Rightarrow> script_witness \<Rightarrow> script \<Rightarrow> script_error + unit \<Rightarrow> bool \<Rightarrow>
   script_stack \<Rightarrow> script_error + (bool \<times> script_stack)" where
  "verify_witness_of C ck flags witness spk sig_check p2sh stack =
     (if flags_contains flags VERIFY_WITNESS then
        case is_witness_program spk of
          Some (wit_version, wit_program) \<Rightarrow>
            res_bind sig_check (\<lambda>_.
            res_bind (verify_witness_program C ck flags witness wit_version wit_program ErrOk p2sh)
              (\<lambda>_. Inr (True, take 1 stack)))
        | None \<Rightarrow> Inr (False, stack)
      else Inr (False, stack))"

text \<open>The checks at the end: clean stack and unexpected witness.\<close>

definition final_checks ::
  "script_flags \<Rightarrow> script_witness \<Rightarrow> bool \<Rightarrow> script_stack \<Rightarrow> script_error + unit" where
  "final_checks flags witness had_witness stack =
     (if flags_contains flags VERIFY_CLEANSTACK \<and> length stack \<noteq> 1 then Inl ErrCleanStack
      else if flags_contains flags VERIFY_WITNESS \<and> \<not> had_witness \<and> witness \<noteq> []
      then Inl ErrWitnessUnexpected
      else Inr ())"

definition verify_p2sh ::
  "crypto \<Rightarrow> checker \<Rightarrow> script_flags \<Rightarrow> script \<Rightarrow> script_witness \<Rightarrow> bool \<Rightarrow> script_stack \<Rightarrow>
   script_error + unit" where
  "verify_p2sh C ck flags script_sig witness had_witness stack =
     (if \<not> is_push_only script_sig then Inl ErrSigPushOnly
      else if stack = [] then Inl ErrEvalFalse
      else
        let serialized = last stack; pub_key2 = serialized; stack = butlast stack in
        res_bind (eval_script_simple C ck flags Base pub_key2 stack) (\<lambda>stack.
        res_bind (check_result stack) (\<lambda>_.
        res_bind
          (verify_witness_of C ck flags witness pub_key2
            (if script_sig \<noteq> push_data [] serialized then Inl ErrWitnessMalleatedP2sh else Inr ())
            True stack) (\<lambda>(had, stack).
          final_checks flags witness (had_witness \<or> had) stack))))"

definition verify_script ::
  "crypto \<Rightarrow> checker \<Rightarrow> script_flags \<Rightarrow> script \<Rightarrow> script \<Rightarrow> script_witness \<Rightarrow> script_error + unit" where
  "verify_script C ck flags script_sig script_pubkey witness =
     (if flags_contains flags VERIFY_SIGPUSHONLY \<and> \<not> is_push_only script_sig
      then Inl ErrSigPushOnly
      else
        res_bind (eval_script_simple C ck flags Base script_sig []) (\<lambda>stack_copy.
        res_bind (eval_script_simple C ck flags Base script_pubkey stack_copy) (\<lambda>stack.
        res_bind (check_result stack) (\<lambda>_.
        res_bind
          (verify_witness_of C ck flags witness script_pubkey
            (if script_sig \<noteq> [] then Inl ErrWitnessMalleated else Inr ()) False stack)
          (\<lambda>(had_witness, stack).
             if flags_contains flags VERIFY_P2SH \<and> is_p2sh script_pubkey
             then verify_p2sh C ck flags script_sig witness had_witness stack_copy
             else final_checks flags witness had_witness stack)))))"

end
