(* ===== verification/SoftFork.thy ===== *)
theory SoftFork
  imports ScriptVerify
begin

text \<open>
  Flags only restrict. A verification that succeeds under a set of flags succeeds with the same
  result under every smaller set, on the conditions that Bitcoin puts on sets of flags: a clean
  stack is only asked for together with P2SH and witness checks, and witness checks only together with
  P2SH. This is what lets a new rule be deployed as a soft fork.

  \<open>res_le strict lax\<close> says that a success of the strict computation is one of the lax computation;
  every arm of the opcode match, and every function above it, is shown to be monotone.
\<close>

named_theorems lax_ops \<open>monotone arms of the opcode match\<close>

section \<open>Results ordered by success\<close>

definition res_le :: "'e + 'a \<Rightarrow> 'e + 'a \<Rightarrow> bool" where
  "res_le strict lax \<longleftrightarrow> (\<forall>x. strict = Inr x \<longrightarrow> lax = Inr x)"

lemma res_le_refl [simp]: "res_le r r"
  by (simp add: res_le_def)

lemma res_le_error [simp]: "res_le (Inl e) r"
  by (simp add: res_le_def)

lemma res_le_bind:
  "res_le r r' \<Longrightarrow> (\<And>x. r = Inr x \<Longrightarrow> res_le (f x) (f' x)) \<Longrightarrow> res_le (res_bind r f) (res_bind r' f')"
  by (cases r) (auto simp: res_le_def)

lemma res_le_if:
  "(b \<Longrightarrow> res_le x x') \<Longrightarrow> (\<not> b \<Longrightarrow> res_le y y') \<Longrightarrow> res_le (if b then x else y) (if b then x' else y')"
  by simp

text \<open>A check that the lax computation makes on fewer occasions.\<close>

lemma res_le_check:
  "(b' \<Longrightarrow> b) \<Longrightarrow> (\<not> b \<Longrightarrow> res_le r r') \<Longrightarrow>
   res_le (if b then Inl e else r) (if b' then Inl e else r')"
  by (cases b') (auto intro: res_le_error)

lemma res_le_need: "res_le r r' \<Longrightarrow> res_le (need k m r) (need k m r')"
  by (simp add: need_def res_le_if res_le_refl)

section \<open>Laxer contexts\<close>

definition lax_flags :: "script_flags \<Rightarrow> script_flags \<Rightarrow> bool" where
  "lax_flags flags flags' \<longleftrightarrow> flags_contains flags flags'"

lemma lax_flags_contains:
  assumes "lax_flags flags flags'" "flags_contains flags' f"
  shows "flags_contains flags f"
proof -
  have "flags AND f = flags AND (flags' AND f)" using assms(2) by (simp add: flags_contains_def)
  also have "\<dots> = (flags AND flags') AND f" by (simp add: and.assoc)
  also have "\<dots> = f" using assms by (simp add: flags_contains_def lax_flags_def)
  finally show ?thesis by (simp add: flags_contains_def)
qed

definition lax_ctx :: "eval_ctx \<Rightarrow> eval_ctx \<Rightarrow> bool" where
  "lax_ctx ctx ctx' \<longleftrightarrow> lax_flags (ec_flags ctx) (ec_flags ctx') \<and> ctx' = ctx\<lparr>ec_flags := ec_flags ctx'\<rparr>"

lemma lax_ctx_same:
  assumes "lax_ctx ctx ctx'"
  shows "ec_script ctx' = ec_script ctx" "ec_checker ctx' = ec_checker ctx"
    "ec_sigversion ctx' = ec_sigversion ctx" "ec_crypto ctx' = ec_crypto ctx"
    "pre_tapscript ctx' = pre_tapscript ctx"
proof -
  have "ctx' = ctx\<lparr>ec_flags := ec_flags ctx'\<rparr>" using assms by (simp add: lax_ctx_def)
  then obtain f where "ctx' = ctx\<lparr>ec_flags := f\<rparr>" by blast
  then show "ec_script ctx' = ec_script ctx" "ec_checker ctx' = ec_checker ctx"
    "ec_sigversion ctx' = ec_sigversion ctx" "ec_crypto ctx' = ec_crypto ctx"
    "pre_tapscript ctx' = pre_tapscript ctx" by (simp_all add: pre_tapscript_def)
qed

lemma lax_ctx_flag: "lax_ctx ctx ctx' \<Longrightarrow> has_flag ctx' f \<Longrightarrow> has_flag ctx f"
  by (auto simp: lax_ctx_def has_flag_def dest: lax_flags_contains)

lemma lax_ctx_flags: "lax_ctx ctx ctx' \<Longrightarrow> lax_flags (ec_flags ctx) (ec_flags ctx')"
  by (simp add: lax_ctx_def)

section \<open>Encodings\<close>

lemma stack_to_script_num_lax:
  "(b' \<Longrightarrow> b) \<Longrightarrow> res_le (stack_to_script_num v b k) (stack_to_script_num v b' k)"
  by (auto simp: stack_to_script_num_def sn_from_bytes_def res_le_def)

lemma top_num_lax: "lax_ctx ctx ctx' \<Longrightarrow> res_le (top_num ctx m k) (top_num ctx' m k)"
  unfolding top_num_def require_minimal_def by (rule stack_to_script_num_lax) (rule lax_ctx_flag)

lemma check_signature_encoding_lax:
  assumes "lax_flags flags flags'"
  shows "res_le (check_signature_encoding C sig flags) (check_signature_encoding C sig flags')"
  using lax_flags_contains [OF assms]
  by (auto simp: check_signature_encoding_def res_le_def res_bind_eq_Inr split: if_splits)

lemma check_pubkey_encoding_lax:
  assumes "lax_flags flags flags'"
  shows "res_le (check_pubkey_encoding key flags sv) (check_pubkey_encoding key flags' sv)"
  using lax_flags_contains [OF assms]
  by (auto simp: check_pubkey_encoding_def res_le_def split: if_splits)

section \<open>The arms\<close>

lemmas lax_rules = res_le_need res_le_if res_le_check res_le_refl

lemma op_check_lock_time_verify_lax [lax_ops]:
  "lax_ctx ctx ctx' \<Longrightarrow> res_le (op_check_lock_time_verify ctx m) (op_check_lock_time_verify ctx' m)"
  using lax_ctx_flag [of ctx ctx'] lax_ctx_same(2) [of ctx ctx']
    stack_to_script_num_lax [of "require_minimal ctx'" "require_minimal ctx" "stack_top (m_stack m) 1" 5]
  by (auto simp: op_check_lock_time_verify_def res_le_def res_bind_eq_Inr need_def
      require_minimal_def split: if_splits)

lemma op_check_sequence_verify_lax [lax_ops]:
  "lax_ctx ctx ctx' \<Longrightarrow> res_le (op_check_sequence_verify ctx m) (op_check_sequence_verify ctx' m)"
  using lax_ctx_flag [of ctx ctx'] lax_ctx_same(2) [of ctx ctx']
    stack_to_script_num_lax [of "require_minimal ctx'" "require_minimal ctx" "stack_top (m_stack m) 1" 5]
  by (auto simp: op_check_sequence_verify_def res_le_def res_bind_eq_Inr need_def
      require_minimal_def split: if_splits)

lemma op_upgradable_nop_lax [lax_ops]:
  "lax_ctx ctx ctx' \<Longrightarrow> res_le (op_upgradable_nop ctx m) (op_upgradable_nop ctx' m)"
  unfolding op_upgradable_nop_def by (intro lax_rules) (rule lax_ctx_flag)

lemma op_if_lax [lax_ops]:
  "lax_ctx ctx ctx' \<Longrightarrow> res_le (op_if f op ctx m) (op_if f op ctx' m)"
  unfolding op_if_def Let_def
  by (auto simp: lax_ctx_same intro!: lax_rules dest: lax_ctx_flag)

lemma op_pick_roll_lax [lax_ops]:
  "lax_ctx ctx ctx' \<Longrightarrow> res_le (op_pick_roll op ctx m) (op_pick_roll op ctx' m)"
  unfolding op_pick_roll_def by (intro res_le_need res_le_bind top_num_lax res_le_refl)

lemma op_unary_lax [lax_ops]:
  "lax_ctx ctx ctx' \<Longrightarrow> res_le (op_unary op ctx m) (op_unary op ctx' m)"
  unfolding op_unary_def by (intro res_le_need res_le_bind top_num_lax res_le_refl)

lemma op_binary_lax [lax_ops]:
  "lax_ctx ctx ctx' \<Longrightarrow> res_le (op_binary op ctx m) (op_binary op ctx' m)"
  unfolding op_binary_def by (intro res_le_need res_le_bind top_num_lax res_le_refl)

lemma op_within_lax [lax_ops]:
  "lax_ctx ctx ctx' \<Longrightarrow> res_le (op_within ctx m) (op_within ctx' m)"
  unfolding op_within_def by (intro res_le_need res_le_bind top_num_lax res_le_refl)

lemma op_hash_lax [lax_ops]: "lax_ctx ctx ctx' \<Longrightarrow> res_le (op_hash op ctx m) (op_hash op ctx' m)"
  unfolding op_hash_def by (simp add: lax_ctx_same res_le_refl)

lemma delete_signature_lax:
  "lax_ctx ctx ctx' \<Longrightarrow> res_le (delete_signature ctx sig sc) (delete_signature ctx' sig sc)"
  unfolding delete_signature_def
  by (auto split: prod.split intro!: res_le_check res_le_refl dest: lax_ctx_flag)

lemma checksig_pre_tapscript_lax:
  assumes "lax_ctx ctx ctx'"
  shows "res_le (checksig_pre_tapscript ctx m sig key) (checksig_pre_tapscript ctx' m sig key)"
  unfolding checksig_pre_tapscript_def Let_def lax_ctx_same [OF assms]
  by (intro res_le_bind res_le_if res_le_check res_le_refl delete_signature_lax
      check_signature_encoding_lax check_pubkey_encoding_lax lax_ctx_flags assms)
    (use lax_ctx_flag [OF assms] in blast)

lemma checksig_tapscript_lax:
  assumes "lax_ctx ctx ctx'"
  shows "res_le (checksig_tapscript ctx m sig key) (checksig_tapscript ctx' m sig key)"
  unfolding checksig_tapscript_def Let_def lax_ctx_same [OF assms]
  by (intro res_le_bind res_le_if res_le_check res_le_refl) (use lax_ctx_flag [OF assms] in blast)+

lemma op_checksig_lax [lax_ops]:
  "lax_ctx ctx ctx' \<Longrightarrow> res_le (op_checksig op ctx m) (op_checksig op ctx' m)"
  unfolding op_checksig_def Let_def
  by (auto simp: lax_ctx_same intro!: res_le_need res_le_bind res_le_refl
      checksig_pre_tapscript_lax checksig_tapscript_lax)

lemma op_checksigadd_lax [lax_ops]:
  "lax_ctx ctx ctx' \<Longrightarrow> res_le (op_checksigadd ctx m) (op_checksigadd ctx' m)"
  unfolding op_checksigadd_def Let_def
  by (auto simp: lax_ctx_same intro!: res_le_need res_le_bind res_le_refl top_num_lax
      checksig_tapscript_lax intro: res_le_error)

lemma delete_signatures_lax:
  assumes "lax_ctx ctx ctx'"
  shows "res_le (delete_signatures ctx s isig ks sc) (delete_signatures ctx' s isig ks sc)"
  by (induction ks arbitrary: sc)
    (auto intro: res_le_refl intro!: res_le_bind delete_signature_lax assms)

lemma multisig_loop_lax:
  assumes "lax_ctx ctx ctx'"
  shows "res_le (multisig_loop ctx s sc f n isig ikey k) (multisig_loop ctx' s sc f n isig ikey k)"
  using assms
proof (induction ctx s sc f n isig ikey k rule: multisig_loop.induct)
  case (1 ctx s sc f n isig ikey k)
  note same = lax_ctx_same [OF "1.prems"] and flags = lax_ctx_flags [OF "1.prems"]
  show ?case
  proof (cases "f \<and> n > 0")
    case True
    show ?thesis
    proof (subst (1 2) multisig_loop.simps, unfold same if_P [OF True] Let_def,
      intro res_le_bind check_signature_encoding_lax check_pubkey_encoding_lax flags, goal_cases)
      case (1 u v)
      then show ?case
        using "1.IH" [OF True refl refl refl refl] "1.prems" by (simp split: if_split)
    qed
  qed (subst (1 2) multisig_loop.simps, auto)
qed

lemma multisig_cleanup_lax:
  assumes "lax_ctx ctx ctx'"
  shows "res_le (multisig_cleanup ctx f i ikey2 s) (multisig_cleanup ctx' f i ikey2 s)"
  using assms
proof (induction ctx f i ikey2 s rule: multisig_cleanup.induct)
  case (1 ctx f i ikey2 s)
  then show ?case
    using lax_ctx_flag [OF "1.prems"]
    by (subst (1 2) multisig_cleanup.simps) auto
qed

lemma op_checkmultisig_lax [lax_ops]:
  assumes "lax_ctx ctx ctx'"
  shows "res_le (op_checkmultisig op ctx m) (op_checkmultisig op ctx' m)"
  unfolding op_checkmultisig_def Let_def lax_ctx_same [OF assms]
  by (intro res_le_need res_le_bind res_le_if res_le_refl res_le_error top_num_lax
      delete_signatures_lax multisig_loop_lax multisig_cleanup_lax assms)
    (use lax_ctx_flag [OF assms] in auto)

lemma lax_ops_plain [lax_ops]:
  "res_le (op_1negate ctx m) (op_1negate ctx' m)"
  "res_le (op_small_int op ctx m) (op_small_int op ctx' m)"
  "res_le (op_else ctx m) (op_else ctx' m)" "res_le (op_endif ctx m) (op_endif ctx' m)"
  "res_le (op_verify ctx m) (op_verify ctx' m)" "res_le (op_return ctx m) (op_return ctx' m)"
  "res_le (op_to_alt_stack ctx m) (op_to_alt_stack ctx' m)"
  "res_le (op_from_alt_stack ctx m) (op_from_alt_stack ctx' m)"
  "res_le (op_2drop ctx m) (op_2drop ctx' m)" "res_le (op_2dup ctx m) (op_2dup ctx' m)"
  "res_le (op_3dup ctx m) (op_3dup ctx' m)" "res_le (op_2over ctx m) (op_2over ctx' m)"
  "res_le (op_2rot ctx m) (op_2rot ctx' m)" "res_le (op_2swap ctx m) (op_2swap ctx' m)"
  "res_le (op_ifdup ctx m) (op_ifdup ctx' m)" "res_le (op_depth ctx m) (op_depth ctx' m)"
  "res_le (op_drop ctx m) (op_drop ctx' m)" "res_le (op_dup ctx m) (op_dup ctx' m)"
  "res_le (op_nip ctx m) (op_nip ctx' m)" "res_le (op_over ctx m) (op_over ctx' m)"
  "res_le (op_rot ctx m) (op_rot ctx' m)" "res_le (op_swap ctx m) (op_swap ctx' m)"
  "res_le (op_tuck ctx m) (op_tuck ctx' m)" "res_le (op_size_of ctx m) (op_size_of ctx' m)"
  "res_le (op_equal op ctx m) (op_equal op ctx' m)"
  "res_le (op_code_separator pc ctx m) (op_code_separator pc ctx' m)"
  by (simp_all add: op_1negate_def op_small_int_def op_else_def op_endif_def op_verify_def
      op_return_def op_to_alt_stack_def op_from_alt_stack_def op_2drop_def op_2dup_def op_3dup_def
      op_2over_def op_2rot_def op_2swap_def op_ifdup_def op_depth_def op_drop_def op_dup_def
      op_nip_def op_over_def op_rot_def op_swap_def op_tuck_def op_size_of_def op_equal_def
      op_code_separator_def)

lemma exec_op_lax:
  assumes "lax_ctx ctx ctx'"
  shows "res_le (exec_op ctx f pc op m) (exec_op ctx' f pc op m)"
  unfolding exec_op_def by (intro res_le_if res_le_refl lax_ops assms)

section \<open>The loop\<close>

lemma pre_checks_lax:
  assumes "lax_ctx ctx ctx'"
  shows "res_le (pre_checks ctx op data m) (pre_checks ctx' op data m)"
  unfolding pre_checks_def Let_def lax_ctx_same [OF assms]
  by (intro res_le_if res_le_check res_le_refl) (use lax_ctx_flag [OF assms] in auto)

lemma run_op_lax:
  assumes "lax_ctx ctx ctx'"
  shows "res_le (run_op ctx pc op data m) (run_op ctx' pc op data m)"
  unfolding run_op_def Let_def require_minimal_def
  by (intro res_le_if res_le_check res_le_refl exec_op_lax assms)
    (use lax_ctx_flag [OF assms] in auto)

lemma eval_step_lax:
  assumes "lax_ctx ctx ctx'"
  shows "res_le (eval_step ctx pc m) (eval_step ctx' pc m)"
  unfolding eval_step_def lax_ctx_same [OF assms]
  by (auto split: option.split intro!: res_le_bind pre_checks_lax run_op_lax assms)

lemma eval_loop_lax:
  assumes "lax_ctx ctx ctx'"
  shows "res_le (eval_loop ctx pc m) (eval_loop ctx' pc m)"
  using assms
proof (induction ctx pc m rule: eval_loop.induct)
  case (1 ctx pc m)
  have step: "res_le (eval_step ctx pc m) (eval_step ctx' pc m)"
    by (rule eval_step_lax [OF "1.prems"])
  show ?case
  proof (cases "pc < length (ec_script ctx) \<and> (\<exists>r. eval_step ctx pc m = Inr r)")
    case True
    then obtain pc' m' where s: "eval_step ctx pc m = Inr (pc', m')" by auto
    then have "eval_step ctx' pc m = Inr (pc', m')" using step by (simp add: res_le_def)
    then show ?thesis
      using "1.IH" [of "(pc', m')" pc' m'] s True "1.prems" lax_ctx_same(1) [OF "1.prems"]
      by (subst (1 2) eval_loop.simps) simp
  next
    case False
    then show ?thesis
      using lax_ctx_same(1) [OF "1.prems"]
      by (subst (1 2) eval_loop.simps) (auto split: sum.split simp: res_le_def)
  qed
qed

lemma eval_script_lax:
  assumes "lax_ctx ctx ctx'"
  shows "res_le (eval_script ctx s e) (eval_script ctx' s e)"
  unfolding eval_script_def lax_ctx_same [OF assms]
  by (intro res_le_if res_le_error res_le_bind eval_loop_lax assms res_le_refl)

section \<open>Verification\<close>

lemma lax_ctx_of:
  "lax_flags flags flags' \<Longrightarrow> lax_ctx (eval_ctx_of C ck flags sv s) (eval_ctx_of C ck flags' sv s)"
  by (simp add: lax_ctx_def eval_ctx_of_def)

lemma eval_script_simple_lax:
  "lax_flags flags flags' \<Longrightarrow>
   res_le (eval_script_simple C ck flags sv s st) (eval_script_simple C ck flags' sv s st)"
  unfolding eval_script_simple_def
  by (intro res_le_bind eval_script_lax lax_ctx_of res_le_refl)

lemma execute_witness_script_lax:
  "lax_flags flags flags' \<Longrightarrow>
   res_le (execute_witness_script C ck flags sv s st e) (execute_witness_script C ck flags' sv s st e)"
  unfolding execute_witness_script_def
  by (intro res_le_if res_le_error res_le_bind eval_script_lax lax_ctx_of res_le_refl)

lemma witness_v0_spend_lax:
  "lax_flags flags flags' \<Longrightarrow>
   res_le (witness_v0_spend C ck flags w p) (witness_v0_spend C ck flags' w p)"
  unfolding witness_v0_spend_def Let_def
  by (intro res_le_if res_le_error execute_witness_script_lax)

lemma taproot_script_path_lax:
  assumes "lax_flags flags flags'"
  shows "res_le (taproot_script_path C ck flags w p st e) (taproot_script_path C ck flags' w p st e)"
  unfolding taproot_script_path_def tapscript_spend_def Let_def
  by (intro res_le_if res_le_error res_le_bind res_le_check res_le_refl execute_witness_script_lax assms)
    (use lax_flags_contains [OF assms] in auto)

lemma taproot_spend_lax:
  assumes "lax_flags flags flags'"
  shows "res_le (taproot_spend C ck flags w p err) (taproot_spend C ck flags' w p err)"
  using lax_flags_contains [OF assms] taproot_script_path_lax [OF assms]
  by (auto simp: taproot_spend_def split_beta Let_def res_le_def)

lemma verify_witness_program_lax:
  assumes "lax_flags flags flags'"
  shows "res_le (verify_witness_program C ck flags w v p err b) (verify_witness_program C ck flags' w v p err b)"
  unfolding verify_witness_program_def
  by (intro res_le_if res_le_check res_le_refl witness_v0_spend_lax taproot_spend_lax assms)
    (use lax_flags_contains [OF assms] in auto)

lemma verify_witness_of_lax:
  assumes "lax_flags flags flags'" "flags_contains flags' VERIFY_WITNESS"
  shows "res_le (verify_witness_of C ck flags w spk sc b st) (verify_witness_of C ck flags' w spk sc b st)"
  using lax_flags_contains [OF assms(1,2)] assms(2)
  by (auto simp: verify_witness_of_def split: option.split
      intro!: res_le_bind verify_witness_program_lax [OF assms(1)])

lemma final_checks_lax:
  assumes "lax_flags flags flags'"
    "flags_contains flags' VERIFY_CLEANSTACK \<Longrightarrow> length st = 1 \<Longrightarrow> length st' = 1"
    "flags_contains flags' VERIFY_WITNESS \<Longrightarrow> had \<Longrightarrow> had'"
  shows "res_le (final_checks flags w had st) (final_checks flags' w had' st')"
  using lax_flags_contains [OF assms(1)] assms(2,3)
  by (auto simp: final_checks_def res_le_def split: if_splits)

text \<open>The sets of flags for which the verification is meant.\<close>

definition coherent_flags :: "script_flags \<Rightarrow> bool" where
  "coherent_flags flags \<longleftrightarrow>
     (flags_contains flags VERIFY_CLEANSTACK \<longrightarrow> flags_contains flags VERIFY_WITNESS) \<and>
     (flags_contains flags VERIFY_WITNESS \<longrightarrow> flags_contains flags VERIFY_P2SH)"

lemma witness_stage_lax:
  assumes "lax_flags flags flags'" "coherent_flags flags'"
    "verify_witness_of C ck flags w spk sc b st = Inr (had, st1)"
    "final_checks flags w (h \<or> had) st1 = Inr ()"
  shows "\<exists>had' st1'. verify_witness_of C ck flags' w spk sc b st = Inr (had', st1') \<and>
    final_checks flags' w (h \<or> had') st1' = Inr ()"
proof (cases "flags_contains flags' VERIFY_WITNESS")
  case True
  then show ?thesis
    using verify_witness_of_lax [OF assms(1), of C ck w spk sc b st] assms(3,4)
      final_checks_lax [OF assms(1), of st1 st1 "h \<or> had" "h \<or> had" w]
    by (auto simp: res_le_def)
next
  case False
  then show ?thesis
    using assms(2) by (auto simp: verify_witness_of_def final_checks_def coherent_flags_def)
qed

lemma witness_then_final_lax:
  assumes "lax_flags flags flags'" "coherent_flags flags'"
  shows "res_le
    (res_bind (verify_witness_of C ck flags w spk sc b st) (\<lambda>(had, st). final_checks flags w (h \<or> had) st))
    (res_bind (verify_witness_of C ck flags' w spk sc b st) (\<lambda>(had, st). final_checks flags' w (h \<or> had) st))"
  using witness_stage_lax [OF assms, of C ck w spk sc b st _ _ h]
  by (fastforce simp: res_le_def res_bind_eq_Inr)

lemma verify_p2sh_lax:
  assumes "lax_flags flags flags'" "coherent_flags flags'"
  shows "res_le (verify_p2sh C ck flags sig w had st) (verify_p2sh C ck flags' sig w had st)"
  unfolding verify_p2sh_def Let_def
  by (rule res_le_if, rule res_le_error, rule res_le_if, rule res_le_error, rule res_le_bind,
      rule eval_script_simple_lax [OF assms(1)], rule res_le_bind, rule res_le_refl,
      rule witness_then_final_lax [OF assms])

lemma p2sh_not_witness: "is_p2sh spk \<Longrightarrow> is_witness_program spk = None"
  by (simp add: is_p2sh_def is_witness_program_def)

lemma verify_witness_of_p2sh:
  "is_p2sh spk \<Longrightarrow> verify_witness_of C ck flags w spk sc b st = Inr (False, st)"
  by (simp add: verify_witness_of_def p2sh_not_witness)

lemma lax_without_p2sh:
  assumes "coherent_flags flags" "\<not> flags_contains flags VERIFY_P2SH"
  shows "verify_witness_of C ck flags w spk sc b st = Inr (False, st)"
    "final_checks flags w had st = Inr ()"
  using assms by (auto simp: coherent_flags_def verify_witness_of_def final_checks_def)

lemma output_stage_lax:
  assumes "lax_flags flags flags'" "coherent_flags flags'"
  shows "res_le
    (res_bind (verify_witness_of C ck flags w spk sc False st) (\<lambda>(had, st1).
       if flags_contains flags VERIFY_P2SH \<and> is_p2sh spk then verify_p2sh C ck flags sig w had st0
       else final_checks flags w had st1))
    (res_bind (verify_witness_of C ck flags' w spk sc False st) (\<lambda>(had, st1).
       if flags_contains flags' VERIFY_P2SH \<and> is_p2sh spk then verify_p2sh C ck flags' sig w had st0
       else final_checks flags' w had st1))"
proof (cases "flags_contains flags' VERIFY_P2SH \<longrightarrow> \<not> is_p2sh spk")
  case True
  show ?thesis
  proof (cases "is_p2sh spk")
    case False
    then show ?thesis
      using witness_then_final_lax [OF assms, of C ck w spk sc False st False] by simp
  next
    case spk: True
    then show ?thesis
      using True lax_without_p2sh [OF assms(2)] by (simp add: res_le_def)
  qed
next
  case False
  then show ?thesis
    using verify_p2sh_lax [OF assms] lax_flags_contains [OF assms(1)]
    by (simp add: verify_witness_of_p2sh)
qed

lemma verify_script_lax:
  assumes "lax_flags flags flags'" "coherent_flags flags'"
  shows "res_le (verify_script C ck flags sig spk w) (verify_script C ck flags' sig spk w)"
  unfolding verify_script_def
  by (rule res_le_check, use lax_flags_contains [OF assms(1)] in blast, rule res_le_bind,
      rule eval_script_simple_lax [OF assms(1)], rule res_le_bind,
      rule eval_script_simple_lax [OF assms(1)], rule res_le_bind, rule res_le_refl,
      rule output_stage_lax [OF assms])

text \<open>C8: Flags are soft forks. An input that verifies under a set of flags verifies under every coherent
  subset of them: a node with fewer rules accepts whatever a node with more rules accepts.\<close>

theorem verify_script_soft_fork:
  assumes "flags_contains flags flags'" "coherent_flags flags'"
    and "verify_script C ck flags script_sig script_pubkey witness = Inr ()"
  shows "verify_script C ck flags' script_sig script_pubkey witness = Inr ()"
  using verify_script_lax [of flags flags'] assms by (simp add: lax_flags_def res_le_def)

theorem verify_script_soft_fork_witness:
  "verify_script pad_crypto base_signature_checker MANDATORY_SCRIPT_VERIFY_FLAGS
     [Op2, Op2] [OpEqual] [] = Inr ()"
proof (rule verify_script_soft_fork)
  show "flags_contains STANDARD_SCRIPT_VERIFY_FLAGS MANDATORY_SCRIPT_VERIFY_FLAGS"
    by (rule mandatory_standard)
  show "coherent_flags MANDATORY_SCRIPT_VERIFY_FLAGS" by code_simp
  show "verify_script pad_crypto base_signature_checker STANDARD_SCRIPT_VERIFY_FLAGS
     [Op2, Op2] [OpEqual] [] = Inr ()" by code_simp
qed

end
