(* ===== verification/Multisig.thy ===== *)
theory Multisig
  imports SoftFork
begin

text \<open>
  \<open>OP_CHECKMULTISIG\<close>. The matching loop of the source walks down the keys and the signatures at
  once and never goes back. It is shown to decide whether the signatures can be matched to keys in
  order: the list of signatures embeds into the list of keys, \<open>list_emb\<close> of the library, with the
  signature check as the relation of an element to its image.
\<close>

section \<open>The matching loop\<close>

definition stack_slice :: "script_stack \<Rightarrow> nat \<Rightarrow> nat \<Rightarrow> bytes list" where
  "stack_slice s i n = map (\<lambda>k. stack_top s (i + k)) [0..<n]"

lemma stack_slice_0 [simp]: "stack_slice s i 0 = []"
  by (simp add: stack_slice_def)

lemma stack_slice_Suc: "stack_slice s i (Suc n) = stack_top s i # stack_slice s (Suc i) n"
  by (simp add: stack_slice_def map_upt_Suc del: upt_Suc)

text \<open>The encodings of all signatures and keys pass the checks that the flags ask for.\<close>

definition encodings_ok :: "eval_ctx \<Rightarrow> bytes list \<Rightarrow> bytes list \<Rightarrow> bool" where
  "encodings_ok ctx sigs keys \<longleftrightarrow>
     (\<forall>sig\<in>set sigs. check_signature_encoding (ec_crypto ctx) sig (ec_flags ctx) = Inr ()) \<and>
     (\<forall>key\<in>set keys. check_pubkey_encoding key (ec_flags ctx) (ec_sigversion ctx) = Inr ())"

definition accepts :: "eval_ctx \<Rightarrow> script \<Rightarrow> bytes \<Rightarrow> bytes \<Rightarrow> bool" where
  "accepts ctx sc sig key = check_ecdsa_signature (ec_checker ctx) sig key sc (ec_sigversion ctx)"

lemma multisig_loop_embeds:
  assumes "encodings_ok ctx (stack_slice s isig n_sigs) (stack_slice s ikey n_keys)" "n_sigs \<le> n_keys"
  shows "multisig_loop ctx s sc True n_sigs isig ikey (int n_keys) =
    Inr (list_emb (accepts ctx sc) (stack_slice s isig n_sigs) (stack_slice s ikey n_keys))"
  using assms
proof (induction n_keys arbitrary: n_sigs isig ikey)
  case 0
  then show ?case by (subst multisig_loop.simps) simp
next
  case (Suc n_keys)
  show ?case
  proof (cases n_sigs)
    case 0
    then show ?thesis by (subst multisig_loop.simps) simp
  next
    case (Suc m)
    let ?sig = "stack_top s isig" and ?key = "stack_top s ikey"
    have enc: "check_signature_encoding (ec_crypto ctx) ?sig (ec_flags ctx) = Inr ()"
      "check_pubkey_encoding ?key (ec_flags ctx) (ec_sigversion ctx) = Inr ()"
      using Suc.prems(1) by (simp_all add: Suc encodings_ok_def stack_slice_Suc)
    have ih: "multisig_loop ctx s sc True k i (Suc ikey) (int n_keys) =
      Inr (list_emb (accepts ctx sc) (stack_slice s i k) (stack_slice s (Suc ikey) n_keys))"
      if "k \<le> n_keys" "set (stack_slice s i k) \<subseteq> set (stack_slice s isig n_sigs)" for k i
      using that Suc.prems(1) by (intro Suc.IH) (auto simp: encodings_ok_def stack_slice_Suc)
    show ?thesis
    proof (cases "accepts ctx sc ?sig ?key")
      case True
      then show ?thesis
        using Suc.prems(2) enc ih [of m "Suc isig"] True
        by (subst multisig_loop.simps) (simp add: Suc accepts_def stack_slice_Suc subset_insertI)
    next
      case False
      show ?thesis
      proof (cases "n_sigs \<le> n_keys")
        case True
        then show ?thesis
          using enc ih [of n_sigs isig] False
          by (subst multisig_loop.simps) (simp add: Suc accepts_def stack_slice_Suc)
      next
        case few: False
        then have "\<not> list_emb (accepts ctx sc) (stack_slice s isig n_sigs) (stack_slice s (Suc ikey) n_keys)"
          using list_emb_length by (fastforce simp: stack_slice_def)
        then show ?thesis
          using enc False few
          by (subst multisig_loop.simps, simp add: Suc accepts_def stack_slice_Suc)
            (subst multisig_loop.simps, simp)
      qed
    qed
  qed
qed

section \<open>The clean-up loop\<close>

lemma multisig_cleanup_pops:
  assumes "length rest = ikey2" "i = length sigs + ikey2 + 1"
  shows "multisig_cleanup ctx f i ikey2 (base @ sigs @ rest) =
    (if \<not> f \<and> has_flag ctx VERIFY_NULLFAIL \<and> (\<exists>x\<in>set sigs. x \<noteq> []) then Inl ErrSigNullFail
     else Inr base)"
  using assms
proof (induction i arbitrary: ikey2 rest sigs)
  case (Suc i)
  show ?case
  proof (cases rest rule: rev_cases)
    case Nil
    then have ik: "ikey2 = 0" using Suc.prems by simp
    show ?thesis
    proof (cases sigs rule: rev_cases)
      case sigs: Nil
      then show ?thesis using Suc.prems ik Nil by (subst multisig_cleanup.simps) simp
    next
      case (snoc ss x)
      then show ?thesis
        using Suc.prems ik Nil Suc.IH [of "[]" 0 ss]
        by (subst multisig_cleanup.simps) (auto simp: stack_top_def stack_drop_def nth_append)
    qed
  next
    case (snoc r x)
    then show ?thesis
      using Suc.prems Suc.IH [of r "ikey2 - 1" sigs]
      by (subst multisig_cleanup.simps) (auto simp: stack_drop_def nth_append)
  qed
qed simp

section \<open>The arguments\<close>

lemma list_emb_rev: "list_emb P (rev xs) (rev ys) \<longleftrightarrow> list_emb P xs ys"
proof -
  have "list_emb P (rev as) (rev bs)" if "list_emb P as bs" for as bs
    using that by induction (auto intro: list_emb_append_mono list_emb_append2 list_emb_Nil)
  from this [of xs ys] this [of "rev xs" "rev ys"] show ?thesis by auto
qed

lemma stack_slice_rev:
  assumes "s = pre @ xs @ suf"
  shows "stack_slice s (Suc (length suf)) (length xs) = rev xs"
proof (rule nth_equalityI)
  show "stack_slice s (Suc (length suf)) (length xs) ! i = rev xs ! i"
    if "i < length (stack_slice s (Suc (length suf)) (length xs))" for i
  proof -
    have i: "i < length xs" using that by (simp add: stack_slice_def)
    then have "stack_top s (Suc (length suf) + i) = s ! (length pre + (length xs - Suc i))"
      unfolding stack_top_def using assms by (intro arg_cong [of _ _ "(!) s"]) simp
    also have "\<dots> = xs ! (length xs - Suc i)"
      using i by (simp only: assms nth_append_length_plus) (simp add: nth_append_left)
    finally show ?thesis using i by (simp add: stack_slice_def rev_nth)
  qed
qed (simp add: stack_slice_def)

lemma small_numbers:
  "\<forall>k\<in>set [0..<21]. sn_from_bytes (sn_to_bytes (of_nat k)) True DEFAULT_MAX_NUM_SIZE = Inr (of_nat k) \<and>
     sint (sn_getint (of_nat k)) = int k"
  by code_simp

lemma small_count:
  assumes "k \<le> 20"
  shows "stack_to_script_num (sn_to_bytes (of_nat k)) b DEFAULT_MAX_NUM_SIZE = Inr (of_nat k)"
    "sint (sn_getint (of_nat k)) = int k"
proof -
  have "stack_to_script_num (sn_to_bytes (of_nat k)) True DEFAULT_MAX_NUM_SIZE = Inr (of_nat k)"
    using small_numbers assms by (simp add: stack_to_script_num_def)
  then show "stack_to_script_num (sn_to_bytes (of_nat k)) b DEFAULT_MAX_NUM_SIZE = Inr (of_nat k)"
    using stack_to_script_num_lax [of b True "sn_to_bytes (of_nat k)" DEFAULT_MAX_NUM_SIZE]
    by (simp add: res_le_def)
qed (use small_numbers assms in auto)

definition multisig_args :: "script_stack \<Rightarrow> bytes \<Rightarrow> bytes list \<Rightarrow> bytes list \<Rightarrow> script_stack" where
  "multisig_args st dummy sigs keys =
     st @ [dummy] @ sigs @ [sn_to_bytes (of_nat (length sigs))] @ keys @ [sn_to_bytes (of_nat (length keys))]"

lemma multisig_args_tops:
  "stack_top (multisig_args st dummy sigs keys) 1 = sn_to_bytes (of_nat (length keys))"
  "stack_top (multisig_args st dummy sigs keys) (2 + length keys) = sn_to_bytes (of_nat (length sigs))"
  "stack_slice (multisig_args st dummy sigs keys) 2 (length keys) = rev keys"
  "stack_slice (multisig_args st dummy sigs keys) (length keys + 3) (length sigs) = rev sigs"
proof -
  let ?m = "sn_to_bytes (of_nat (length sigs))" and ?n = "sn_to_bytes (of_nat (length keys))"
  show "stack_slice (multisig_args st dummy sigs keys) 2 (length keys) = rev keys"
    using stack_slice_rev [of _ "st @ [dummy] @ sigs @ [?m]" keys "[?n]"]
    by (simp add: multisig_args_def numeral_2_eq_2)
  show "stack_slice (multisig_args st dummy sigs keys) (length keys + 3) (length sigs) = rev sigs"
    using stack_slice_rev [of _ "st @ [dummy]" sigs "[?m] @ keys @ [?n]"]
    by (simp add: multisig_args_def numeral_3_eq_3)
qed (simp_all add: multisig_args_def stack_top_def nth_append)


section \<open>Main result\<close>

text \<open>The script code of the signatures: from the last code separator on.\<close>

definition code_of :: "eval_ctx \<Rightarrow> machine \<Rightarrow> script" where
  "code_of ctx m = drop (m_pbegincodehash m) (ec_script ctx)"

text \<open>In legacy scripts the signatures are deleted from the script code, the last one first.\<close>

fun delete_each :: "eval_ctx \<Rightarrow> bytes list \<Rightarrow> script \<Rightarrow> script_error + script" where
  "delete_each ctx [] sc = Inr sc"
| "delete_each ctx (sig # sigs) sc = res_bind (delete_signature ctx sig sc) (delete_each ctx sigs)"

lemma delete_signatures_each:
  "delete_signatures ctx s isig ks sc = delete_each ctx (map (\<lambda>k. stack_top s (isig + k)) ks) sc"
proof (induction ks arbitrary: sc)
  case (Cons k ks)
  then show ?case by (cases "delete_signature ctx (stack_top s (isig + k)) sc") simp_all
qed simp

lemma op_checkmultisig_args:
  assumes sv: "ec_sigversion ctx \<noteq> Tapscript" and m: "m_stack m = multisig_args st dummy sigs keys"
    and len: "length sigs \<le> length keys" "length keys \<le> 20" "m_op_count m + length keys \<le> 201"
    and enc: "encodings_ok ctx sigs keys"
  shows "op_checkmultisig op ctx m =
    res_bind (if ec_sigversion ctx = Base then delete_each ctx (rev sigs) (code_of ctx m) else Inr (code_of ctx m)) (\<lambda>sc.
      let matched = list_emb (accepts ctx sc) sigs keys; m' = m\<lparr>m_op_count := m_op_count m + length keys\<rparr> in
      if \<not> matched \<and> has_flag ctx VERIFY_NULLFAIL \<and> (\<exists>sig\<in>set sigs. sig \<noteq> []) then Inl ErrSigNullFail
      else if has_flag ctx VERIFY_NULLDUMMY \<and> dummy \<noteq> [] then Inl ErrSigNullDummy
      else if op = OpCheckMultiSigVerify then (if matched then Inr (m'\<lparr>m_stack := st\<rparr>) else Inl ErrCheckMultiSigVerify)
      else Inr (m'\<lparr>m_stack := st @ [if matched then [1] else []]\<rparr>))"
proof -
  let ?s = "multisig_args st dummy sigs keys"
  have enc': "encodings_ok ctx (stack_slice ?s (length keys + 3) (length sigs)) (stack_slice ?s 2 (length keys))"
    using enc by (simp add: multisig_args_tops encodings_ok_def)
  have three: "length keys + 3 = Suc (Suc (Suc (length keys)))" by simp
  have "multisig_loop ctx ?s sc True (length sigs) (length keys + 3) 2 (int (length keys)) =
      Inr (list_emb (accepts ctx sc) sigs keys)" for sc
    using multisig_loop_embeds [OF enc' len(1)] by (simp add: multisig_args_tops list_emb_rev)
  then have loop: "multisig_loop ctx ?s sc True (length sigs) (Suc (Suc (Suc (length keys)))) 2 (int (length keys)) =
      Inr (list_emb (accepts ctx sc) sigs keys)" for sc by (simp only: three)
  have del: "delete_signatures ctx ?s (Suc (Suc (Suc (length keys)))) [0..<length sigs] sc = delete_each ctx (rev sigs) sc" for sc
    using multisig_args_tops(4) [of st dummy sigs keys] by (simp only: delete_signatures_each stack_slice_def three)
  have clean: "multisig_cleanup ctx f (Suc (Suc (Suc (length keys + length sigs)))) (Suc (Suc (length keys))) ?s =
      (if \<not> f \<and> has_flag ctx VERIFY_NULLFAIL \<and> (\<exists>x\<in>set sigs. x \<noteq> []) then Inl ErrSigNullFail
       else Inr (st @ [dummy]))" for f
    unfolding multisig_args_def
    using multisig_cleanup_pops [of "[sn_to_bytes (of_nat (length sigs))] @ keys @ [sn_to_bytes (of_nat (length keys))]"
      "Suc (Suc (length keys))" "Suc (Suc (Suc (length keys + length sigs)))" sigs ctx f "st @ [dummy]"] by simp
  have size: "length ?s = length st + length sigs + length keys + 3" by (simp add: multisig_args_def)
  have nums: "stack_to_script_num (stack_top ?s 1) b DEFAULT_MAX_NUM_SIZE = Inr (of_nat (length keys))"
    "stack_to_script_num (stack_top ?s (2 + length keys)) b DEFAULT_MAX_NUM_SIZE = Inr (of_nat (length sigs))"
    "sint (sn_getint (of_nat (length keys))) = int (length keys)"
    "sint (sn_getint (of_nat (length sigs))) = int (length sigs)" for b
    using len small_count by (simp_all only: multisig_args_tops)
  have top: "stack_top (st @ [dummy]) (Suc 0) = dummy" by (simp add: stack_top_def)
  note run = op_checkmultisig_def need_def m top_num_def nums [simplified] loop del clean size Let_def
    MAX_PUBKEYS_PER_MULTISIG_def MAX_OPS_PER_SCRIPT_def set_stack_def code_of_def [symmetric] ss_push_def stack_drop_def top vch_bool_def
  show ?thesis
  proof (cases "ec_sigversion ctx = Base")
    case True
    then show ?thesis using len by (cases "delete_each ctx (rev sigs) (code_of ctx m)") (simp_all add: run)
  next
    case False
    then show ?thesis using len sv by (simp add: run)
  qed
qed


text \<open>C15: Multiple signatures are matched in order. Outside tapscript, when the stack ends in a dummy element, at most 20 keys and
  not more signatures with their counts, the limit of 201 operations leaves room for the keys, and all signatures and keys are
  encoded as the flags ask, \<open>OP_CHECKMULTISIG\<close> and \<open>OP_CHECKMULTISIGVERIFY\<close> do exactly this: the script code runs from the last
  code separator on, and in legacy scripts the signatures are deleted from it, which may be an error; the signatures match when they
  can be assigned to keys in the same order, each accepted by the checker for its key and the script code; if they do not match and
  failing signatures must be empty and one is not, or if the dummy must be empty and is not, the operation fails; otherwise all
  arguments are removed, the keys are counted as operations, and the result is pushed, or required to be true by the verifying form.
  Missing arguments, counts out of range and bad encodings are not in the scope of this statement.\<close>

theorem op_checkmultisig_exact:
  assumes "ec_sigversion ctx \<noteq> Tapscript" "m_stack m = multisig_args st dummy sigs keys"
    and "length sigs \<le> length keys" "length keys \<le> 20" "m_op_count m + length keys \<le> 201"
    and "encodings_ok ctx sigs keys"
  shows "op_checkmultisig op ctx m =
    res_bind (if ec_sigversion ctx = Base then delete_each ctx (rev sigs) (code_of ctx m) else Inr (code_of ctx m)) (\<lambda>sc.
      let matched = list_emb (accepts ctx sc) sigs keys; m' = m\<lparr>m_op_count := m_op_count m + length keys\<rparr> in
      if \<not> matched \<and> has_flag ctx VERIFY_NULLFAIL \<and> (\<exists>sig\<in>set sigs. sig \<noteq> []) then Inl ErrSigNullFail
      else if has_flag ctx VERIFY_NULLDUMMY \<and> dummy \<noteq> [] then Inl ErrSigNullDummy
      else if op = OpCheckMultiSigVerify then (if matched then Inr (m'\<lparr>m_stack := st\<rparr>) else Inl ErrCheckMultiSigVerify)
      else Inr (m'\<lparr>m_stack := st @ [if matched then [1] else []]\<rparr>))"
  using assms by (rule op_checkmultisig_args)

definition matching_checker :: checker where
  "matching_checker = base_signature_checker\<lparr>check_ecdsa_signature := (\<lambda>sig key script_code sv. sig = key)\<rparr>"

text \<open>Two of three: signatures 1 and 3 in order are accepted, in the other order they are not.\<close>

theorem op_checkmultisig_exact_witness:
  "(\<exists>m. op_checkmultisig OpCheckMultiSig (eval_ctx_of pad_crypto matching_checker 0 WitnessV0 [])
     (initial_machine (multisig_args [] [] [[1], [3]] [[1], [2], [3]]) exec_data_default) = Inr m \<and>
     m_stack m = [[1]]) \<and>
   (\<exists>m. op_checkmultisig OpCheckMultiSig (eval_ctx_of pad_crypto matching_checker 0 WitnessV0 [])
     (initial_machine (multisig_args [] [] [[3], [1]] [[1], [2], [3]]) exec_data_default) = Inr m \<and>
     m_stack m = [[]])"
proof -
  let ?c = "eval_ctx_of pad_crypto matching_checker 0 WitnessV0 []"
  have c: "ec_sigversion ?c \<noteq> Tapscript" "ec_sigversion ?c \<noteq> Base" by (simp_all add: eval_ctx_of_def)
  have e: "encodings_ok ?c [[1], [3]] [[1], [2], [3]]" "encodings_ok ?c [[3], [1]] [[1], [2], [3]]"
    "\<not> has_flag ?c VERIFY_NULLFAIL"
    by code_simp+
  have a: "accepts ?c sc sig key \<longleftrightarrow> sig = key" for sc sig key
    by (simp add: accepts_def eval_ctx_of_def matching_checker_def)
  show ?thesis
    using op_checkmultisig_exact [OF c(1) _ _ _ _ e(1), of "initial_machine (multisig_args [] [] [[1], [3]] [[1], [2], [3]]) exec_data_default" "[]"]
      op_checkmultisig_exact [OF c(1) _ _ _ _ e(2), of "initial_machine (multisig_args [] [] [[3], [1]] [[1], [2], [3]]) exec_data_default" "[]"] e(3) c(2)
    by (auto simp: a initial_machine_def)
qed

end
