(* ===== verification/Transaction.thy ===== *)
theory Transaction
  imports ScriptVerify
begin

text \<open>
  Transactions, \<open>qubitcoin-consensus/src/transaction.rs\<close>: outpoints, inputs, outputs and
  transactions with their serialisation in the plain and in the extended (segwit) format.

  A \<open>Txid\<close> is its 32 bytes. The cached hashes of a \<open>Transaction\<close> are functions of its other fields, set by
  the constructor and never changed; the model computes them with \<open>txid\<close> and
  \<open>wtxid\<close>. An \<open>Amount\<close> is its \<open>i64\<close>.
\<close>

section \<open>Data\<close>

definition SEQUENCE_FINAL :: u32 where
  "SEQUENCE_FINAL = 0xffffffff"

definition MAX_SEQUENCE_NONFINAL :: u32 where
  "MAX_SEQUENCE_NONFINAL = SEQUENCE_FINAL - 1"

definition SEQUENCE_LOCKTIME_TYPE_FLAG :: u32 where
  "SEQUENCE_LOCKTIME_TYPE_FLAG = push_bit 22 1"

definition SEQUENCE_LOCKTIME_MASK :: u32 where
  "SEQUENCE_LOCKTIME_MASK = 0x0000ffff"

definition SEQUENCE_LOCKTIME_GRANULARITY :: nat where
  "SEQUENCE_LOCKTIME_GRANULARITY = 9"

definition CURRENT_TX_VERSION :: u32 where
  "CURRENT_TX_VERSION = 2"

type_synonym hash_bytes = bytes
type_synonym amount = i64

record outpoint =
  prev_txid :: hash_bytes
  prev_index :: u32

definition ZERO_HASH :: hash_bytes where
  "ZERO_HASH = replicate 32 0"

definition NULL_INDEX :: u32 where
  "NULL_INDEX = - 1"

definition outpoint_null :: outpoint where
  "outpoint_null = \<lparr>prev_txid = ZERO_HASH, prev_index = NULL_INDEX\<rparr>"

definition outpoint_is_null :: "outpoint \<Rightarrow> bool" where
  "outpoint_is_null o1 \<longleftrightarrow> list_all (\<lambda>b. b = 0) (prev_txid o1) \<and> prev_index o1 = NULL_INDEX"

record tx_in =
  in_prevout :: outpoint
  in_script_sig :: script
  in_sequence :: u32
  in_witness :: script_witness

definition tx_in_new :: "outpoint \<Rightarrow> script \<Rightarrow> u32 \<Rightarrow> tx_in" where
  "tx_in_new prevout script_sig sequence =
     \<lparr>in_prevout = prevout, in_script_sig = script_sig, in_sequence = sequence, in_witness = []\<rparr>"

definition tx_in_coinbase :: "script \<Rightarrow> tx_in" where
  "tx_in_coinbase script_sig =
     \<lparr>in_prevout = outpoint_null, in_script_sig = script_sig, in_sequence = SEQUENCE_FINAL,
      in_witness = []\<rparr>"

record tx_out =
  out_value :: amount
  out_script_pubkey :: script

definition tx_out_null :: tx_out where
  "tx_out_null = \<lparr>out_value = - 1, out_script_pubkey = []\<rparr>"

definition tx_out_is_null :: "tx_out \<Rightarrow> bool" where
  "tx_out_is_null out \<longleftrightarrow> out_value out = - 1"

record transaction =
  tx_version :: u32
  tx_vin :: "tx_in list"
  tx_vout :: "tx_out list"
  tx_lock_time :: u32

section \<open>Serialisation\<close>

definition encode_outpoint :: "outpoint encoder" where
  "encode_outpoint o1 = ser_seq (encode_hash (prev_txid o1)) (encode_u32 (prev_index o1))"

definition decode_outpoint :: "outpoint decoder" where
  "decode_outpoint r =
     res_bind (decode_hash r) (\<lambda>(h, r).
     res_bind (decode_u32 r) (\<lambda>(n, r). Inr (\<lparr>prev_txid = h, prev_index = n\<rparr>, r)))"

definition encode_tx_in :: "tx_in encoder" where
  "encode_tx_in i =
     ser_seq (ser_seq (encode_outpoint (in_prevout i)) (encode_script (in_script_sig i)))
       (encode_u32 (in_sequence i))"

definition decode_tx_in :: "tx_in decoder" where
  "decode_tx_in r =
     res_bind (decode_outpoint r) (\<lambda>(prevout, r).
     res_bind (decode_script r) (\<lambda>(script_sig, r).
     res_bind (decode_u32 r) (\<lambda>(sequence, r).
       Inr (\<lparr>in_prevout = prevout, in_script_sig = script_sig, in_sequence = sequence,
             in_witness = []\<rparr>, r))))"

definition encode_tx_out :: "tx_out encoder" where
  "encode_tx_out out =
     ser_seq (encode_i64 (out_value out)) (encode_script (out_script_pubkey out))"

definition decode_tx_out :: "tx_out decoder" where
  "decode_tx_out r =
     res_bind (decode_i64 r) (\<lambda>(v, r).
     res_bind (decode_script r) (\<lambda>(s, r). Inr (\<lparr>out_value = v, out_script_pubkey = s\<rparr>, r)))"

definition has_witness :: "transaction \<Rightarrow> bool" where
  "has_witness tx \<longleftrightarrow> (\<exists>input\<in>set (tx_vin tx). in_witness input \<noteq> [])"

text \<open>The witness of one input: the number of items, and each item with its length.\<close>

definition encode_witness :: "tx_in encoder" where
  "encode_witness i = encode_vec encode_bytes (in_witness i)"

definition serialize_transaction_to :: "bool \<Rightarrow> transaction encoder" where
  "serialize_transaction_to allow_witness tx =
     (let extended = (allow_witness \<and> has_witness tx);
          head = encode_u32 (tx_version tx);
          head = (if extended then ser_seq (ser_seq head (write_compact_size 0)) (encode_u8 1)
                  else head);
          body = ser_seq (ser_seq head (encode_vec encode_tx_in (tx_vin tx)))
                   (encode_vec encode_tx_out (tx_vout tx));
          body = (if extended then ser_seq body (encode_items encode_witness (tx_vin tx)) else body)
      in ser_seq body (encode_u32 (tx_lock_time tx)))"

definition serialize_transaction :: "transaction \<Rightarrow> bool \<Rightarrow> bytes" where
  "serialize_transaction tx allow_witness = fst (serialize_transaction_to allow_witness tx)"

text \<open>The loop that reads the witnesses into the inputs.\<close>

fun decode_witnesses :: "tx_in list \<Rightarrow> tx_in list decoder" where
  "decode_witnesses [] r = Inr ([], r)"
| "decode_witnesses (i # is) r =
     res_bind (decode_vec decode_bytes r) (\<lambda>(stack, r).
     res_bind (decode_witnesses is r) (\<lambda>(is, r). Inr (i\<lparr>in_witness := stack\<rparr> # is, r)))"

text \<open>The inputs and outputs in either format, and the flags.\<close>

definition decode_body :: "bool \<Rightarrow> (tx_in list \<times> tx_out list \<times> u8) decoder" where
  "decode_body allow_witness r =
     res_bind (decode_vec decode_tx_in r) (\<lambda>(vin, r).
       if vin = [] \<and> allow_witness then
         res_bind (decode_u8 r) (\<lambda>(flags, r).
           if flags \<noteq> 0 then
             res_bind (decode_vec decode_tx_in r) (\<lambda>(vin, r).
             res_bind (decode_vec decode_tx_out r) (\<lambda>(vout, r). Inr ((vin, vout, flags), r)))
           else Inr ((vin, [], flags), r))
       else res_bind (decode_vec decode_tx_out r) (\<lambda>(vout, r). Inr ((vin, vout, 0), r)))"

text \<open>The witness data, when the flags announce them; the flags that remain.\<close>

definition decode_witness_data :: "bool \<Rightarrow> tx_in list \<Rightarrow> u8 \<Rightarrow> (tx_in list \<times> u8) decoder" where
  "decode_witness_data allow_witness vin flags r =
     (if flags AND 1 \<noteq> 0 \<and> allow_witness then
        res_bind (decode_witnesses vin r) (\<lambda>(vin, r).
          if \<not> (\<exists>input\<in>set vin. in_witness input \<noteq> [])
          then Inl (InvalidEncoding ''Superfluous witness record'')
          else Inr ((vin, flags XOR 1), r))
      else Inr ((vin, flags), r))"

definition decode_lock_time :: "u32 \<Rightarrow> tx_in list \<Rightarrow> tx_out list \<Rightarrow> u8 \<Rightarrow> transaction decoder" where
  "decode_lock_time version vin vout flags r =
     (if flags \<noteq> 0 then Inl (InvalidEncoding ''Unknown transaction optional data'')
      else res_bind (decode_u32 r) (\<lambda>(lock_time, r).
        Inr (\<lparr>tx_version = version, tx_vin = vin, tx_vout = vout, tx_lock_time = lock_time\<rparr>, r)))"

definition deserialize_transaction :: "bool \<Rightarrow> transaction decoder" where
  "deserialize_transaction allow_witness r =
     res_bind (decode_u32 r) (\<lambda>(version, r).
     res_bind (decode_body allow_witness r) (\<lambda>((vin, vout, flags), r).
     res_bind (decode_witness_data allow_witness vin flags r) (\<lambda>((vin, flags), r).
       decode_lock_time version vin vout flags r)))"

section \<open>Methods of a transaction\<close>

definition txid :: "crypto \<Rightarrow> transaction \<Rightarrow> hash_bytes" where
  "txid C tx = hash256 C (serialize_transaction tx False)"

definition wtxid :: "crypto \<Rightarrow> transaction \<Rightarrow> hash_bytes" where
  "wtxid C tx = hash256 C (serialize_transaction tx True)"

definition is_coinbase :: "transaction \<Rightarrow> bool" where
  "is_coinbase tx \<longleftrightarrow> length (tx_vin tx) = 1 \<and> outpoint_is_null (in_prevout (tx_vin tx ! 0))"

definition tx_is_null :: "transaction \<Rightarrow> bool" where
  "tx_is_null tx \<longleftrightarrow> tx_vin tx = [] \<and> tx_vout tx = []"

definition get_value_out :: "transaction \<Rightarrow> amount" where
  "get_value_out tx = foldl (\<lambda>sum out. sum + out_value out) 0 (tx_vout tx)"

definition get_total_size :: "transaction \<Rightarrow> nat" where
  "get_total_size tx = length (serialize_transaction tx True)"

definition get_weight :: "transaction \<Rightarrow> nat" where
  "get_weight tx =
     (let base_size = length (serialize_transaction tx False);
          total_size = length (serialize_transaction tx True)
      in base_size * 3 + total_size)"

definition get_virtual_size :: "transaction \<Rightarrow> nat" where
  "get_virtual_size tx = (get_weight tx + 3) div 4"

text \<open>Equality of transactions compares the witness hashes.\<close>

definition tx_eq :: "crypto \<Rightarrow> transaction \<Rightarrow> transaction \<Rightarrow> bool" where
  "tx_eq C a b \<longleftrightarrow> wtxid C a = wtxid C b"

section \<open>The parts are strict codecs\<close>

definition outpoint_ok :: "outpoint \<Rightarrow> bool" where
  "outpoint_ok o1 \<longleftrightarrow> length (prev_txid o1) = 32"

definition tx_in_ok :: "tx_in \<Rightarrow> bool" where
  "tx_in_ok i \<longleftrightarrow> outpoint_ok (in_prevout i) \<and> fits_max (length (in_script_sig i))"

definition tx_out_ok :: "tx_out \<Rightarrow> bool" where
  "tx_out_ok out \<longleftrightarrow> fits_max (length (out_script_pubkey out))"

definition witness_ok :: "script_witness \<Rightarrow> bool" where
  "witness_ok w \<longleftrightarrow> fits_max (length w) \<and> list_all (\<lambda>item. fits_max (length item)) w"

interpretation outpoint_codec: strict_codec encode_outpoint decode_outpoint outpoint_ok
  by unfold_locales
    (auto simp: encode_outpoint_def decode_outpoint_def outpoint_ok_def hash.dec_enc u32.dec_enc
      hash.enc_count u32.enc_count hash.dec_iff u32.dec_iff res_bind_eq_Inr)

interpretation tx_in_codec: strict_codec encode_tx_in decode_tx_in
  "\<lambda>i. tx_in_ok i \<and> in_witness i = []"
  by unfold_locales
    (auto simp: encode_tx_in_def decode_tx_in_def tx_in_ok_def outpoint_codec.dec_enc u32.dec_enc
      script_codec.dec_enc outpoint_codec.enc_count script_codec.enc_count u32.enc_count
      outpoint_codec.dec_iff script_codec.dec_iff u32.dec_iff res_bind_eq_Inr)

interpretation tx_out_codec: strict_codec encode_tx_out decode_tx_out tx_out_ok
  by unfold_locales
    (auto simp: encode_tx_out_def decode_tx_out_def tx_out_ok_def i64.dec_enc script_codec.dec_enc
      i64.enc_count script_codec.enc_count i64.dec_iff script_codec.dec_iff res_bind_eq_Inr)

interpretation vin_codec: strict_codec "encode_vec encode_tx_in" "decode_vec decode_tx_in"
  "\<lambda>is. fits_max (length is) \<and> list_all (\<lambda>i. tx_in_ok i \<and> in_witness i = []) is"
  by (rule tx_in_codec.vec_strict_codec)

interpretation vout_codec: strict_codec "encode_vec encode_tx_out" "decode_vec decode_tx_out"
  "\<lambda>os. fits_max (length os) \<and> list_all tx_out_ok os"
  by (rule tx_out_codec.vec_strict_codec)

interpretation stack_codec: strict_codec "encode_vec encode_bytes" "decode_vec decode_bytes"
  witness_ok
  using bytes.vec_strict_codec by (simp add: witness_ok_def [abs_def])

section \<open>The transaction is a strict codec\<close>

definition strip_witness :: "tx_in \<Rightarrow> tx_in" where
  "strip_witness i = i\<lparr>in_witness := []\<rparr>"

lemma strip_witness_simps [simp]:
  "in_witness (strip_witness i) = []" "tx_in_ok (strip_witness i) = tx_in_ok i"
  "encode_tx_in (strip_witness i) = encode_tx_in i" "strip_witness (strip_witness i) = strip_witness i"
  by (simp_all add: strip_witness_def tx_in_ok_def encode_tx_in_def)

lemma encode_items_strip: "encode_items encode_tx_in (map strip_witness is) = encode_items encode_tx_in is"
  by (induction "is") simp_all

lemma encode_vin_strip: "encode_vec encode_tx_in (map strip_witness is) = encode_vec encode_tx_in is"
  by (simp add: encode_vec_def encode_items_strip)

lemma strip_id: "list_all (\<lambda>i. in_witness i = []) is \<Longrightarrow> map strip_witness is = is"
  by (induction "is") (simp_all add: strip_witness_def)

lemma strip_eq_iff: "strip_witness j = strip_witness i \<longleftrightarrow> i\<lparr>in_witness := in_witness j\<rparr> = j"
  by (cases i; cases j) (auto simp: strip_witness_def)

lemma decode_witnesses_iff:
  "decode_witnesses is bs = Inr (is', rest) \<longleftrightarrow>
   map strip_witness is' = map strip_witness is \<and> list_all (\<lambda>i. witness_ok (in_witness i)) is' \<and>
   bs = fst (encode_items encode_witness is') @ rest"
proof (induction "is" arbitrary: bs is')
  case Nil
  then show ?case by auto
next
  case (Cons i "is")
  show ?case
  proof (cases is')
    case (Cons j js)
    then show ?thesis
      by (auto simp: res_bind_eq_Inr stack_codec.dec_iff Cons.IH strip_eq_iff
          encode_witness_def intro!: exI [of _ "in_witness j"])
  qed (auto simp: res_bind_eq_Inr)
qed

lemma encode_vec_Nil [simp]: "fst (encode_vec enc []) = [0]"
  by (simp add: encode_vec_def write_compact_size_def)

lemma decode_body_iff:
  "decode_body allow r = Inr ((vin, vout, flags), r') \<longleftrightarrow>
   fits_max (length vin) \<and> list_all (\<lambda>i. tx_in_ok i \<and> in_witness i = []) vin \<and>
   fits_max (length vout) \<and> list_all tx_out_ok vout \<and>
   (if flags = 0
    then (allow \<longrightarrow> vin \<noteq> [] \<or> vout = []) \<and>
      r = fst (encode_vec encode_tx_in vin) @ fst (encode_vec encode_tx_out vout) @ r'
    else allow \<and>
      r = [0, flags] @ fst (encode_vec encode_tx_in vin) @ fst (encode_vec encode_tx_out vout) @ r')"
  (is "?l \<longleftrightarrow> ?r")
proof
  assume ?l
  then show ?r
    by (auto simp: decode_body_def res_bind_eq_Inr vin_codec.dec_iff vout_codec.dec_iff u8.dec_iff
        encode_u8_def fits_max_def split: if_splits)
next
  assume r: ?r
  have v0: "decode_vec decode_tx_in ([0] @ rest) = Inr ([], rest)" for rest
    by (simp add: vin_codec.dec_iff fits_max_def)
  have f: "decode_u8 ([f] @ rest) = Inr (f, rest)" for f rest
    by (simp add: u8.dec_iff encode_u8_def)
  show ?l
  proof (cases "flags = 0")
    case True
    then show ?thesis
      using r v0 f [of 0] by (cases "vin = [] \<and> allow")
        (auto simp: decode_body_def vin_codec.dec_enc vout_codec.dec_enc)
  next
    case False
    then show ?thesis
      using r v0 [of "[flags] @ _"] f
      by (auto simp: decode_body_def vin_codec.dec_enc vout_codec.dec_enc)
  qed
qed


definition tx_ok :: "bool \<Rightarrow> transaction \<Rightarrow> bool" where
  "tx_ok allow_witness tx \<longleftrightarrow>
     fits_max (length (tx_vin tx)) \<and> list_all tx_in_ok (tx_vin tx) \<and>
     fits_max (length (tx_vout tx)) \<and> list_all tx_out_ok (tx_vout tx) \<and>
     (if allow_witness
      then list_all (\<lambda>i. witness_ok (in_witness i)) (tx_vin tx) \<and> (tx_vin tx \<noteq> [] \<or> tx_vout tx = [])
      else \<not> has_witness tx)"

lemma serialize_plain:
  "\<not> (allow \<and> has_witness tx) \<Longrightarrow> fst (serialize_transaction_to allow tx) =
   fst (encode_u32 (tx_version tx)) @ fst (encode_vec encode_tx_in (tx_vin tx)) @
   fst (encode_vec encode_tx_out (tx_vout tx)) @ fst (encode_u32 (tx_lock_time tx))"
  by (auto simp: serialize_transaction_to_def Let_def)

lemma serialize_extended:
  "has_witness tx \<Longrightarrow> fst (serialize_transaction_to True tx) =
   fst (encode_u32 (tx_version tx)) @ [0, 1] @ fst (encode_vec encode_tx_in (tx_vin tx)) @
   fst (encode_vec encode_tx_out (tx_vout tx)) @ fst (encode_items encode_witness (tx_vin tx)) @
   fst (encode_u32 (tx_lock_time tx))"
  by (simp add: serialize_transaction_to_def Let_def write_compact_size_def encode_u8_def)

lemma flags_bit: "flags XOR 1 = 0 \<longleftrightarrow> flags = (1 :: u8)"
proof
  assume "flags XOR 1 = 0"
  then have "(flags XOR 1) XOR 1 = 1" by simp
  then show "flags = 1" by (simp only: xor.assoc xor_self_eq xor.right_neutral)
qed simp

lemma no_witness_list: "\<not> has_witness tx \<longleftrightarrow> list_all (\<lambda>i. in_witness i = []) (tx_vin tx)"
  by (simp add: has_witness_def list_all_iff)

lemma deserialize_transaction_sound:
  assumes "deserialize_transaction allow bs = Inr (tx, rest)"
  shows "tx_ok allow tx \<and> bs = fst (serialize_transaction_to allow tx) @ rest"
proof -
  obtain version r1 vin vout flags r2 vin' flags' r3 where v: "decode_u32 bs = Inr (version, r1)"
    and b: "decode_body allow r1 = Inr ((vin, vout, flags), r2)"
    and w: "decode_witness_data allow vin flags r2 = Inr ((vin', flags'), r3)"
    and l: "decode_lock_time version vin' vout flags' r3 = Inr (tx, rest)"
    using assms unfolding deserialize_transaction_def by (auto simp: res_bind_eq_Inr)
  have f': "flags' = 0" using l by (auto simp: decode_lock_time_def split: if_splits)
  have tx: "version = tx_version tx" "vin' = tx_vin tx" "vout = tx_vout tx"
    "r3 = fst (encode_u32 (tx_lock_time tx)) @ rest"
    using l by (auto simp: decode_lock_time_def res_bind_eq_Inr u32.dec_iff split: if_splits)
  note b = b [unfolded tx]
  have v: "bs = fst (encode_u32 (tx_version tx)) @ r1" using v by (simp add: u32.dec_iff tx)
  have w: "if flags AND 1 \<noteq> 0 \<and> allow
       then flags = 1 \<and> decode_witnesses vin r2 = Inr (tx_vin tx, r3) \<and> has_witness tx
       else flags = 0 \<and> tx_vin tx = vin \<and> r2 = r3"
    using w [unfolded tx(2) f'] by (auto simp: decode_witness_data_def res_bind_eq_Inr has_witness_def flags_bit split: if_splits)
  show ?thesis
  proof (cases "flags AND 1 \<noteq> 0 \<and> allow")
    case False
    then have "flags = 0" "tx_vin tx = vin" "r2 = fst (encode_u32 (tx_lock_time tx)) @ rest"
      using w tx(4) by auto
    moreover from this have "\<not> has_witness tx" and "list_all tx_in_ok vin"
      "list_all (\<lambda>i. witness_ok (in_witness i)) vin"
      using b by (auto simp: decode_body_iff no_witness_list list_all_iff witness_ok_def fits_max_def)
    ultimately show ?thesis
      using b v by (auto simp: tx_ok_def decode_body_iff serialize_plain split: if_splits)
  next
    case True
    then have f: "flags = 1" "has_witness tx" "map strip_witness (tx_vin tx) = map strip_witness vin"
      "list_all (\<lambda>i. witness_ok (in_witness i)) (tx_vin tx)"
      "r2 = fst (encode_items encode_witness (tx_vin tx)) @ fst (encode_u32 (tx_lock_time tx)) @ rest"
      using w tx(4) by (auto simp: decode_witnesses_iff)
    have "map strip_witness vin = vin"
      using b by (intro strip_id) (auto simp: decode_body_iff list_all_iff)
    then have vin: "vin = map strip_witness (tx_vin tx)" using f(3) by (rule trans [OF sym sym])
    have "allow" using True by simp
    have "tx_vin tx \<noteq> []" "fits_max (length (tx_vin tx))" "list_all tx_in_ok (tx_vin tx)"
      using b f(2) by (auto simp: vin decode_body_iff has_witness_def list_all_iff)
    then show ?thesis
      using b [unfolded vin] f(1,2,4,5) v \<open>allow\<close>
      by (auto simp: tx_ok_def decode_body_iff serialize_extended encode_vin_strip)
  qed
qed

lemma deserialize_transaction_complete:
  assumes "tx_ok allow tx"
  shows "deserialize_transaction allow (fst (serialize_transaction_to allow tx) @ rest) = Inr (tx, rest)"
proof (cases "allow \<and> has_witness tx")
  case False
  then have n: "list_all (\<lambda>i. in_witness i = []) (tx_vin tx)"
    using assms by (auto simp: tx_ok_def no_witness_list split: if_splits)
  have "decode_body allow (fst (encode_vec encode_tx_in (tx_vin tx)) @ fst (encode_vec encode_tx_out (tx_vout tx)) @ r) =
      Inr ((tx_vin tx, tx_vout tx, 0), r)" for r
    using assms n by (auto simp: decode_body_iff tx_ok_def list_all_iff split: if_splits)
  then show ?thesis
    using False by (simp add: deserialize_transaction_def decode_witness_data_def decode_lock_time_def
        serialize_plain u32.dec_enc)
next
  case True
  let ?vin = "map strip_witness (tx_vin tx)"
  have "decode_body allow ([0, 1] @ fst (encode_vec encode_tx_in (tx_vin tx)) @
      fst (encode_vec encode_tx_out (tx_vout tx)) @ r) = Inr ((?vin, tx_vout tx, 1), r)" for r
    using assms True by (auto simp: decode_body_iff tx_ok_def list_all_iff encode_vin_strip)
  moreover have "decode_witnesses ?vin (fst (encode_items encode_witness (tx_vin tx)) @ r) = Inr (tx_vin tx, r)" for r
    using assms True by (auto simp: decode_witnesses_iff tx_ok_def)
  ultimately show ?thesis
    using True
    by (simp add: deserialize_transaction_def decode_witness_data_def decode_lock_time_def
        serialize_extended u32.dec_enc) (simp add: has_witness_def)
qed

lemma encode_items_count_all:
  "list_all (\<lambda>x. snd (enc x) = length (fst (enc x))) xs \<Longrightarrow>
   snd (encode_items enc xs) = length (fst (encode_items enc xs))"
  by (induction xs) auto

lemma vin_count: "list_all tx_in_ok is \<Longrightarrow>
  snd (encode_vec encode_tx_in is) = length (fst (encode_vec encode_tx_in is))"
  using tx_in_codec.enc_count [of "strip_witness _"]
  by (auto simp: encode_vec_def write_compact_size_count list_all_iff intro!: encode_items_count_all)

lemma serialize_transaction_count:
  assumes "tx_ok allow tx"
  shows "snd (serialize_transaction_to allow tx) = length (fst (serialize_transaction_to allow tx))"
proof -
  have "snd (encode_items encode_witness (tx_vin tx)) = length (fst (encode_items encode_witness (tx_vin tx)))"
    if "allow \<and> has_witness tx"
    using assms that
    by (intro encode_items_count_all) (auto simp: tx_ok_def list_all_iff encode_witness_def stack_codec.enc_count)
  then show ?thesis
    using assms vin_count vout_codec.enc_count [of "tx_vout tx"]
    by (auto simp: serialize_transaction_to_def Let_def u32.enc_count write_compact_size_count
        u8.enc_count tx_ok_def)
qed

interpretation transaction_codec: strict_codec "serialize_transaction_to allow"
  "deserialize_transaction allow" "tx_ok allow" for allow
  by unfold_locales
    (use serialize_transaction_count deserialize_transaction_complete deserialize_transaction_sound in auto)

section \<open>Identifiers and sizes\<close>

definition strip_tx :: "transaction \<Rightarrow> transaction" where
  "strip_tx tx = tx\<lparr>tx_vin := map strip_witness (tx_vin tx)\<rparr>"

lemma serialize_strip: "serialize_transaction (strip_tx tx) False = serialize_transaction tx False"
  by (simp add: serialize_transaction_def serialize_plain strip_tx_def encode_vin_strip)

lemma strip_tx_ok: "tx_ok True tx \<Longrightarrow> tx_ok False (strip_tx tx)"
  by (auto simp: tx_ok_def strip_tx_def has_witness_def list_all_iff)

lemma serialize_strip_inj:
  assumes "tx_ok True a" "tx_ok True b"
  shows "serialize_transaction a False = serialize_transaction b False \<longleftrightarrow> strip_tx a = strip_tx b"
proof
  assume "serialize_transaction a False = serialize_transaction b False"
  then have "fst (serialize_transaction_to False (strip_tx a)) @ [] =
      fst (serialize_transaction_to False (strip_tx b)) @ []"
    using serialize_strip [of a] serialize_strip [of b] by (simp add: serialize_transaction_def)
  then show "strip_tx a = strip_tx b"
    using transaction_codec.enc_prefix_free strip_tx_ok [OF assms(1)] strip_tx_ok [OF assms(2)] by blast
next
  assume "strip_tx a = strip_tx b"
  then show "serialize_transaction a False = serialize_transaction b False"
    using serialize_strip [of a] serialize_strip [of b] by simp
qed

lemma serialize_inj:
  assumes "tx_ok True a" "tx_ok True b"
  shows "serialize_transaction a True = serialize_transaction b True \<longleftrightarrow> a = b"
  using transaction_codec.enc_prefix_free [of True a b "[]" "[]"] assms
  by (auto simp: serialize_transaction_def)

definition witness_size :: "transaction \<Rightarrow> nat" where
  "witness_size tx = (if has_witness tx then 2 + length (fst (encode_items encode_witness (tx_vin tx))) else 0)"

lemma total_size_split:
  "length (serialize_transaction tx True) = length (serialize_transaction tx False) + witness_size tx"
  by (cases "has_witness tx")
    (simp_all add: serialize_transaction_def serialize_plain serialize_extended witness_size_def)

lemma encode_items_size: "x \<in> set xs \<Longrightarrow> length (fst (enc x)) \<le> length (fst (encode_items enc xs))"
  by (induction xs) auto

section \<open>Main results\<close>

text \<open>C33: The transaction format is exact in both of its forms. The decoder accepts a byte string exactly when it is
  the encoding of the transaction it returns, followed by the rest of the input: no transaction has two
  encodings, a superfluous witness record or unknown flags are refused, and whatever the encoder writes for a
  transaction within the size limits is read back. With witnesses allowed, a transaction without inputs
  has an encoding only if it has no outputs either.\<close>

theorem transaction_encoding_exact:
  "deserialize_transaction allow_witness bs = Inr (tx, rest) \<longleftrightarrow>
   tx_ok allow_witness tx \<and> bs = fst (serialize_transaction_to allow_witness tx) @ rest"
  by (rule transaction_codec.dec_iff)

text \<open>The transaction identifier commits to everything but the witnesses, the witness identifier to everything.
  Provided the hash does not collide on the encodings at hand, two transactions have the same
  identifier exactly when they agree up to witnesses, and the same witness identifier exactly when they are equal.\<close>

theorem identifiers_commit:
  assumes "tx_ok True a" "tx_ok True b"
    and "inj_on (hash256 C) {serialize_transaction a False, serialize_transaction b False,
      serialize_transaction a True, serialize_transaction b True}"
  shows "(txid C a = txid C b \<longleftrightarrow> strip_tx a = strip_tx b) \<and> (tx_eq C a b \<longleftrightarrow> a = b)"
  using serialize_strip_inj [OF assms(1,2)] serialize_inj [OF assms(1,2)]
    inj_on_eq_iff [OF assms(3)]
  by (simp add: txid_def tx_eq_def wtxid_def)

definition example_tx :: transaction where
  "example_tx = \<lparr>tx_version = 2,
     tx_vin = [\<lparr>in_prevout = \<lparr>prev_txid = replicate 32 1, prev_index = 0\<rparr>, in_script_sig = [],
       in_sequence = SEQUENCE_FINAL, in_witness = [[1, 2], [3]]\<rparr>],
     tx_vout = [\<lparr>out_value = 5000, out_script_pubkey = [OpDup]\<rparr>], tx_lock_time = 0\<rparr>"

lemma example_tx_ok: "tx_ok True example_tx"
  by (simp add: example_tx_def tx_ok_def tx_in_ok_def tx_out_ok_def witness_ok_def outpoint_ok_def
      fits_max_def unat_MAX_SIZE)

theorem identifiers_commit_witness:
  "txid (pad_crypto\<lparr>hash256 := (\<lambda>x. x)\<rparr>) example_tx = txid (pad_crypto\<lparr>hash256 := (\<lambda>x. x)\<rparr>) (strip_tx example_tx) \<and>
   \<not> tx_eq (pad_crypto\<lparr>hash256 := (\<lambda>x. x)\<rparr>) example_tx (strip_tx example_tx)"
proof -
  have s: "tx_ok True (strip_tx example_tx)"
    by (simp add: example_tx_def strip_tx_def strip_witness_def tx_ok_def tx_in_ok_def tx_out_ok_def witness_ok_def
        outpoint_ok_def fits_max_def unat_MAX_SIZE)
  have "strip_tx (strip_tx example_tx) = strip_tx example_tx" "example_tx \<noteq> strip_tx example_tx"
    by (simp_all add: example_tx_def strip_tx_def strip_witness_def)
  then show ?thesis
    using identifiers_commit [OF example_tx_ok s, of "pad_crypto\<lparr>hash256 := (\<lambda>x. x)\<rparr>"] by simp
qed

text \<open>The weight of a transaction is four times its size without witnesses plus the size of the
  witness data, so it is four times the plain size exactly for transactions without witness; the virtual size is a
  quarter of the weight rounded up, between the plain and the total size.\<close>

theorem weight_exact:
  "get_weight tx = 4 * length (serialize_transaction tx False) + witness_size tx \<and>
   (get_weight tx = 4 * length (serialize_transaction tx False) \<longleftrightarrow> \<not> has_witness tx) \<and>
   length (serialize_transaction tx False) \<le> get_virtual_size tx \<and>
   get_virtual_size tx \<le> get_total_size tx \<and> 4 * get_virtual_size tx < get_weight tx + 4"
  by (auto simp: get_weight_def get_virtual_size_def get_total_size_def total_size_split witness_size_def Let_def)

end
