(* ===== verification/Merkle.thy ===== *)
theory Merkle
  imports Transaction
begin

text \<open>
  Merkle trees, \<open>qubitcoin-consensus/src/merkle.rs\<close>. A level of hashes is reduced to the next one by
  hashing pairs, with the last hash doubled when their number is odd; the flag \<open>mutated\<close> records a pair
  of equal hashes found before the doubling.
\<close>

section \<open>Definitions\<close>

text \<open>The loop over the pairs at even indices, \<open>hashes[i] == hashes[i + 1]\<close>.\<close>

fun level_mutated :: "hash_bytes list \<Rightarrow> bool" where
  "level_mutated (a # b # hashes) = (a = b \<or> level_mutated hashes)"
| "level_mutated _ = False"

definition pad_level :: "hash_bytes list \<Rightarrow> hash_bytes list" where
  "pad_level hashes = (if odd (length hashes) then hashes @ [last hashes] else hashes)"

fun next_level :: "crypto \<Rightarrow> hash_bytes list \<Rightarrow> hash_bytes list" where
  "next_level C (a # b # hashes) = hash256 C (a @ b) # next_level C hashes"
| "next_level C _ = []"

lemma length_next_level [simp]: "length (next_level C hashes) = length hashes div 2"
  by (induction C hashes rule: next_level.induct) auto

lemma length_pad_level [simp]: "length (pad_level hashes) = 2 * ((length hashes + 1) div 2)"
  by (auto simp: pad_level_def elim!: oddE)

function merkle_loop :: "crypto \<Rightarrow> hash_bytes list \<Rightarrow> bool \<Rightarrow> hash_bytes \<times> bool" where
  "merkle_loop C hashes mutated =
     (if length hashes > 1
      then merkle_loop C (next_level C (pad_level hashes)) (mutated \<or> level_mutated hashes)
      else (hashes ! 0, mutated))"
  by pat_completeness auto
termination
  by (relation "measure (\<lambda>(C, hashes, mutated). length hashes)") auto

declare merkle_loop.simps [simp del]

definition compute_merkle_root :: "crypto \<Rightarrow> hash_bytes list \<Rightarrow> hash_bytes \<times> bool" where
  "compute_merkle_root C hashes = (if hashes = [] then (ZERO_HASH, False) else merkle_loop C hashes False)"

definition block_merkle_root :: "crypto \<Rightarrow> transaction list \<Rightarrow> hash_bytes \<times> bool" where
  "block_merkle_root C txs = compute_merkle_root C (map (txid C) txs)"

definition block_witness_merkle_root :: "crypto \<Rightarrow> transaction list \<Rightarrow> hash_bytes \<times> bool" where
  "block_witness_merkle_root C txs =
     compute_merkle_root C ((if txs \<noteq> [] then [ZERO_HASH] else []) @ map (wtxid C) (drop 1 txs))"

section \<open>One level\<close>

text \<open>The strings that are hashed to make the next level.\<close>

fun pair_strings :: "hash_bytes list \<Rightarrow> bytes list" where
  "pair_strings (a # b # hashes) = (a @ b) # pair_strings hashes"
| "pair_strings _ = []"

lemma next_level_map: "next_level C hashes = map (hash256 C) (pair_strings hashes)"
  by (induction C hashes rule: next_level.induct) auto

definition hashes_ok :: "hash_bytes list \<Rightarrow> bool" where
  "hashes_ok hashes \<longleftrightarrow> list_all (\<lambda>h. length h = 32) hashes"

lemma pair_strings_inj:
  "hashes_ok xs \<Longrightarrow> hashes_ok ys \<Longrightarrow> even (length xs) \<Longrightarrow> even (length ys) \<Longrightarrow>
   pair_strings xs = pair_strings ys \<Longrightarrow> xs = ys"
proof (induction xs arbitrary: ys rule: pair_strings.induct)
  case (1 a b xs)
  then obtain c d ys' where ys: "ys = c # d # ys'" by (cases ys rule: pair_strings.cases) auto
  have "a @ b = c @ d" "length a = length c" "pair_strings xs = pair_strings ys'"
    using "1.prems" by (simp_all add: ys hashes_ok_def)
  moreover have "xs = ys'" using "1.prems" by (intro "1.IH") (simp_all add: ys hashes_ok_def)
  ultimately show ?case by (simp add: ys)
next
  case "2_1"
  then show ?case by (cases ys rule: pair_strings.cases) simp_all
qed simp

text \<open>A level whose last two hashes are equal is flagged.\<close>

lemma level_mutated_last:
  "even (length xs) \<Longrightarrow> level_mutated (xs @ [a, a])"
  by (induction xs rule: level_mutated.induct) auto

lemma pad_unmutated:
  assumes "pad_level xs = pad_level ys" "\<not> level_mutated xs" "\<not> level_mutated ys"
  shows "xs = ys"
proof -
  have aux: False
    if us: "odd (length us)" and vs: "even (length vs)" "pad_level us = pad_level vs" "\<not> level_mutated vs"
    for us vs :: "hash_bytes list"
  proof -
    obtain us' a where u: "us = us' @ [a]" using us by (cases us rule: rev_cases) auto
    then have "vs = us' @ [a, a]" using us vs by (simp add: pad_level_def)
    moreover have "even (length us')" using us u by simp
    ultimately show False using level_mutated_last vs(3) by blast
  qed
  show ?thesis
  proof (cases "odd (length xs) = odd (length ys)")
    case True
    then show ?thesis using assms(1) by (cases "odd (length xs)") (simp_all add: pad_level_def)
  next
    case False
    then show ?thesis using aux [of xs ys] aux [of ys xs] assms by metis
  qed
qed

section \<open>All levels\<close>

text \<open>All strings that are hashed on the way to the root.\<close>

function merkle_strings :: "crypto \<Rightarrow> hash_bytes list \<Rightarrow> bytes set" where
  "merkle_strings C hashes =
     (if length hashes > 1
      then set (pair_strings (pad_level hashes)) \<union> merkle_strings C (next_level C (pad_level hashes))
      else {})"
  by pat_completeness auto
termination
  by (relation "measure (\<lambda>(C, hashes). length hashes)") auto

declare merkle_strings.simps [simp del]

text \<open>The root, and whether any level has a pair of equal hashes.\<close>

function root_of :: "crypto \<Rightarrow> hash_bytes list \<Rightarrow> hash_bytes" where
  "root_of C hashes =
     (if length hashes > 1 then root_of C (next_level C (pad_level hashes)) else hashes ! 0)"
  by pat_completeness auto
termination
  by (relation "measure (\<lambda>(C, hashes). length hashes)") auto

function tree_mutated :: "crypto \<Rightarrow> hash_bytes list \<Rightarrow> bool" where
  "tree_mutated C hashes \<longleftrightarrow>
     (if length hashes > 1 then level_mutated hashes \<or> tree_mutated C (next_level C (pad_level hashes))
      else False)"
  by pat_completeness auto
termination
  by (relation "measure (\<lambda>(C, hashes). length hashes)") auto

declare root_of.simps [simp del] tree_mutated.simps [simp del]

lemma merkle_loop_split: "merkle_loop C hashes m = (root_of C hashes, m \<or> tree_mutated C hashes)"
proof (induction C hashes m rule: merkle_loop.induct)
  case (1 C hashes m)
  then show ?case
    by (subst merkle_loop.simps, subst root_of.simps, subst tree_mutated.simps) auto
qed

lemma next_level_ok: "crypto_ok C \<Longrightarrow> hashes_ok (next_level C hashes)"
  by (auto simp: next_level_map hashes_ok_def list_all_iff crypto_ok_def)

lemma pad_level_ok: "hashes \<noteq> [] \<Longrightarrow> hashes_ok hashes \<Longrightarrow> hashes_ok (pad_level hashes)"
  by (auto simp: pad_level_def hashes_ok_def list_all_iff)

lemma next_level_inj:
  assumes "crypto_ok C" "hashes_ok xs" "hashes_ok ys" "length xs > 1" "length ys > 1"
    and "inj_on (hash256 C) (set (pair_strings (pad_level xs)) \<union> set (pair_strings (pad_level ys)))"
    and "next_level C (pad_level xs) = next_level C (pad_level ys)"
    and "\<not> level_mutated xs" "\<not> level_mutated ys"
  shows "xs = ys"
proof (rule pad_unmutated)
  have ne: "xs \<noteq> []" "ys \<noteq> []" using assms(4,5) by auto
  have eq: "pair_strings (pad_level xs) = pair_strings (pad_level ys)"
    using inj_on_map_eq_map [OF assms(6)] assms(7) by (simp only: next_level_map)
  show "pad_level xs = pad_level ys"
    by (rule pair_strings_inj [OF pad_level_ok [OF ne(1) assms(2)] pad_level_ok [OF ne(2) assms(3)] _ _ eq])
      simp_all
qed (fact assms)+

lemma pair_strings_nonempty: "length xs > 1 \<Longrightarrow> pair_strings xs \<noteq> []"
  by (cases xs rule: pair_strings.cases) simp_all

lemma root_hashed:
  "length hashes > 1 \<Longrightarrow> root_of C hashes \<in> hash256 C ` merkle_strings C hashes"
proof (induction C hashes rule: root_of.induct)
  case (1 C hashes)
  let ?n = "next_level C (pad_level hashes)"
  have n: "?n \<noteq> []" using "1.prems" pair_strings_nonempty [of "pad_level hashes"] by (simp add: next_level_map)
  have "root_of C hashes = root_of C ?n"
    using "1.prems" by (simp add: root_of.simps [of C hashes])
  moreover have "root_of C ?n \<in> hash256 C ` merkle_strings C ?n" if "length ?n > 1"
    using "1.IH" "1.prems" that by simp
  moreover have "root_of C ?n \<in> set ?n" if "\<not> length ?n > 1"
    using n that nth_mem [of 0 ?n] by (subst root_of.simps) (simp only: if_False length_greater_0_conv, simp)
  ultimately show ?case
    using "1.prems" by (subst merkle_strings.simps) (auto simp: next_level_map)
qed

section \<open>The root determines the leaves\<close>

fun levels :: "nat \<Rightarrow> nat" where
  "levels n = (if n > 1 then Suc (levels ((n + 1) div 2)) else 0)"

declare levels.simps [simp del]

lemma levels_step: "length hashes > 1 \<Longrightarrow>
  levels (length hashes) = Suc (levels (length (next_level C (pad_level hashes))))"
  by (subst levels.simps) simp

lemma level_facts:
  assumes "crypto_ok C" "length hashes > 1"
  defines "n \<equiv> next_level C (pad_level hashes)"
  shows "n \<noteq> []" "hashes_ok n" "root_of C hashes = root_of C n" "merkle_strings C n \<subseteq> merkle_strings C hashes"
    "set (pair_strings (pad_level hashes)) \<subseteq> merkle_strings C hashes"
    "set n \<subseteq> hash256 C ` merkle_strings C hashes"
    "tree_mutated C hashes \<longleftrightarrow> level_mutated hashes \<or> tree_mutated C n"
proof -
  show "n \<noteq> []" using assms(2) pair_strings_nonempty [of "pad_level hashes"] by (simp add: n_def next_level_map)
  show "hashes_ok n" unfolding n_def by (rule next_level_ok [OF assms(1)])
  show "root_of C hashes = root_of C n" using assms(2) by (simp add: n_def root_of.simps [of C hashes])
  show "merkle_strings C n \<subseteq> merkle_strings C hashes"
    using assms(2) by (simp add: n_def merkle_strings.simps [of C hashes])
  show p: "set (pair_strings (pad_level hashes)) \<subseteq> merkle_strings C hashes"
    using assms(2) by (simp add: merkle_strings.simps [of C hashes])
  then show "set n \<subseteq> hash256 C ` merkle_strings C hashes" by (auto simp: n_def next_level_map)
  show "tree_mutated C hashes \<longleftrightarrow> level_mutated hashes \<or> tree_mutated C n"
    using assms(2) by (simp add: n_def tree_mutated.simps [of C hashes])
qed

lemma root_inj_same_levels:
  assumes "crypto_ok C"
  shows "levels (length xs) = k \<Longrightarrow> levels (length ys) = k \<Longrightarrow> xs \<noteq> [] \<Longrightarrow> ys \<noteq> [] \<Longrightarrow>
    hashes_ok xs \<Longrightarrow> hashes_ok ys \<Longrightarrow> inj_on (hash256 C) (merkle_strings C xs \<union> merkle_strings C ys) \<Longrightarrow>
    \<not> tree_mutated C xs \<Longrightarrow> \<not> tree_mutated C ys \<Longrightarrow> root_of C xs = root_of C ys \<Longrightarrow> xs = ys"
proof (induction k arbitrary: xs ys)
  case 0
  then have "\<not> length xs > 1" "\<not> length ys > 1" by (auto simp: levels.simps split: if_splits)
  then have "xs = [root_of C xs]" "ys = [root_of C ys]"
    using 0 by (cases xs; cases ys; auto simp: root_of.simps)+
  with 0 show ?case by simp
next
  case (Suc k)
  have len: "length xs > 1" "length ys > 1" using Suc.prems(1,2) by (auto simp: levels.simps split: if_splits)
  note x = level_facts [OF assms len(1)] and y = level_facts [OF assms len(2)]
  have eq: "next_level C (pad_level xs) = next_level C (pad_level ys)"
  proof (rule Suc.IH)
    show "levels (length (next_level C (pad_level xs))) = k" "levels (length (next_level C (pad_level ys))) = k"
      using Suc.prems(1,2) levels_step [OF len(1)] levels_step [OF len(2)] by auto
    show "inj_on (hash256 C) (merkle_strings C (next_level C (pad_level xs)) \<union> merkle_strings C (next_level C (pad_level ys)))"
      using Suc.prems(7) x(4) y(4) by (meson Un_mono inj_on_subset)
  qed (use x y Suc.prems in auto)
  show ?case
  proof (rule next_level_inj [OF assms Suc.prems(5,6) len _ eq])
    show "inj_on (hash256 C) (set (pair_strings (pad_level xs)) \<union> set (pair_strings (pad_level ys)))"
      using Suc.prems(7) x(5) y(5) by (meson Un_mono inj_on_subset)
  qed (use x y Suc.prems in auto)
qed

text \<open>The level that is \<open>d\<close> above the leaves.\<close>

lemma level_above:
  assumes "crypto_ok C"
  shows "levels (length ys) = k + d \<Longrightarrow> ys \<noteq> [] \<Longrightarrow> hashes_ok ys \<Longrightarrow> \<not> tree_mutated C ys \<Longrightarrow>
    \<exists>zs. levels (length zs) = k \<and> zs \<noteq> [] \<and> hashes_ok zs \<and> \<not> tree_mutated C zs \<and>
      root_of C zs = root_of C ys \<and> merkle_strings C zs \<subseteq> merkle_strings C ys \<and>
      (d > 0 \<longrightarrow> set zs \<subseteq> hash256 C ` merkle_strings C ys)"
proof (induction d arbitrary: ys)
  case 0
  then show ?case by auto
next
  case (Suc d)
  have len: "length ys > 1" using Suc.prems(1) by (auto simp: levels.simps split: if_splits)
  note y = level_facts [OF assms len]
  let ?n = "next_level C (pad_level ys)"
  have "levels (length ?n) = k + d" using Suc.prems(1) levels_step [OF len, of C] by simp
  moreover have "\<not> tree_mutated C ?n" using Suc.prems(4) y(7) by simp
  ultimately obtain zs where zs: "levels (length zs) = k" "zs \<noteq> []" "hashes_ok zs" "\<not> tree_mutated C zs"
    "root_of C zs = root_of C ?n" "merkle_strings C zs \<subseteq> merkle_strings C ?n"
    "d > 0 \<longrightarrow> set zs \<subseteq> hash256 C ` merkle_strings C ?n"
    using Suc.IH [of ?n] y(1,2) by blast
  show ?case
  proof (cases "d = 0")
    case True
    then show ?thesis
      using y \<open>levels (length ?n) = k + d\<close> \<open>\<not> tree_mutated C ?n\<close> by (intro exI [of _ ?n]) auto
  next
    case False
    then show ?thesis
      using zs y(3,4) image_mono [OF y(4), of "hash256 C"] by (intro exI [of _ zs]) (simp, blast)
  qed
qed

text \<open>No hash that was computed on the way to the root is taken for a leaf.\<close>

definition leaves_fresh :: "crypto \<Rightarrow> hash_bytes list \<Rightarrow> hash_bytes list \<Rightarrow> bool" where
  "leaves_fresh C xs ys \<longleftrightarrow>
     (set xs \<union> set ys) \<inter> hash256 C ` (merkle_strings C xs \<union> merkle_strings C ys) = {}"

lemma root_inj:
  assumes C: "crypto_ok C" and ok: "hashes_ok xs" "hashes_ok ys" and ne: "xs \<noteq> []" "ys \<noteq> []"
    and inj: "inj_on (hash256 C) (merkle_strings C xs \<union> merkle_strings C ys)"
    and fresh: "leaves_fresh C xs ys" and mut: "\<not> tree_mutated C xs" "\<not> tree_mutated C ys"
    and root: "root_of C xs = root_of C ys"
  shows "xs = ys"
proof -
  have aux: False
    if le: "levels (length us) < levels (length vs)" and u: "us \<noteq> []" "hashes_ok us" "\<not> tree_mutated C us"
      and v: "vs \<noteq> []" "hashes_ok vs" "\<not> tree_mutated C vs"
      and i: "inj_on (hash256 C) (merkle_strings C us \<union> merkle_strings C vs)"
      and f: "set us \<inter> hash256 C ` merkle_strings C vs = {}" and r: "root_of C us = root_of C vs"
    for us vs
  proof -
    obtain zs where zs: "levels (length zs) = levels (length us)" "zs \<noteq> []" "hashes_ok zs" "\<not> tree_mutated C zs"
      "root_of C zs = root_of C vs" "merkle_strings C zs \<subseteq> merkle_strings C vs"
      "set zs \<subseteq> hash256 C ` merkle_strings C vs"
      using level_above [OF C, of vs "levels (length us)" "levels (length vs) - levels (length us)"] le v by auto
    have "us = zs"
    proof (rule root_inj_same_levels [OF C refl zs(1) u(1) zs(2) u(2) zs(3) _ u(3) zs(4)])
      show "inj_on (hash256 C) (merkle_strings C us \<union> merkle_strings C zs)"
        using i zs(6) by (meson Un_mono inj_on_subset subset_refl)
    qed (simp add: r zs)
    then show False using f zs(2,7) by (cases zs) auto
  qed
  have inj': "inj_on (hash256 C) (merkle_strings C ys \<union> merkle_strings C xs)" using inj by (simp add: Un_commute)
  consider "levels (length xs) < levels (length ys)" | "levels (length ys) < levels (length xs)"
    | "levels (length xs) = levels (length ys)" by linarith
  then show ?thesis
  proof cases
    case 1
    then show ?thesis using aux [OF 1 ne(1) ok(1) mut(1) ne(2) ok(2) mut(2) inj _ root] fresh
      by (auto simp: leaves_fresh_def)
  next
    case 2
    then show ?thesis using aux [OF 2 ne(2) ok(2) mut(2) ne(1) ok(1) mut(1) inj' _ root [symmetric]] fresh
      by (auto simp: leaves_fresh_def)
  next
    case 3
    then show ?thesis using root_inj_same_levels [OF C refl 3 [symmetric] ne ok inj mut root] by simp
  qed
qed

section \<open>Main results\<close>

text \<open>The Merkle root commits to the list of hashes. Two non-empty lists whose computation reports no
  mutation and gives the same root are the same list, as long as no two different strings that were hashed collide and no leaf
  equals a hash of an inner node. The duplication of odd levels, by which a list of transactions can be
  extended without changing the root, is caught by the mutation flag.\<close>

theorem merkle_root_commits:
  assumes "crypto_ok C" "hashes_ok xs" "hashes_ok ys" "xs \<noteq> []" "ys \<noteq> []"
    and "inj_on (hash256 C) (merkle_strings C xs \<union> merkle_strings C ys)" "leaves_fresh C xs ys"
    and "compute_merkle_root C xs = (root, False)" "compute_merkle_root C ys = (root, False)"
  shows "xs = ys"
  using assms by (intro root_inj) (auto simp: compute_merkle_root_def merkle_loop_split)


definition mix_crypto :: crypto where
  "mix_crypto = pad_crypto\<lparr>hash256 := (\<lambda>x. pad_to 32 (drop 16 x))\<rparr>"

lemma mix_crypto_ok: "crypto_ok mix_crypto"
  using pad_crypto_ok by (auto simp: crypto_ok_def mix_crypto_def pad_to_def min_def)

theorem merkle_root_commits_witness:
  "fst (compute_merkle_root mix_crypto [replicate 32 1, replicate 32 2]) \<noteq>
   fst (compute_merkle_root mix_crypto [replicate 32 2, replicate 32 1])"
proof
  let ?xs = "[replicate 32 1, replicate 32 2]" and ?ys = "[replicate 32 2, replicate 32 (1 :: u8)]"
  have m: "snd (compute_merkle_root mix_crypto ?xs) = False" "snd (compute_merkle_root mix_crypto ?ys) = False"
    by code_simp+
  have s: "merkle_strings mix_crypto ?xs = {replicate 32 1 @ replicate 32 2}"
    "merkle_strings mix_crypto ?ys = {replicate 32 2 @ replicate 32 1}"
    by (simp_all add: merkle_strings.simps pad_level_def)
  have h: "hash256 mix_crypto (replicate 32 1 @ replicate 32 2) = replicate 16 1 @ replicate 16 2"
    "hash256 mix_crypto (replicate 32 2 @ replicate 32 1) = replicate 16 2 @ replicate 16 1"
    by code_simp+
  have n: "(replicate 16 1 @ replicate 16 2 :: bytes) \<notin> {replicate 32 1, replicate 32 2}"
    "(replicate 16 2 @ replicate 16 1 :: bytes) \<notin> {replicate 32 1, replicate 32 2}"
    "(replicate 16 1 @ replicate 16 2 :: bytes) \<noteq> replicate 16 2 @ replicate 16 1"
    by code_simp+
  assume "fst (compute_merkle_root mix_crypto ?xs) = fst (compute_merkle_root mix_crypto ?ys)"
  then have "compute_merkle_root mix_crypto ?ys = (fst (compute_merkle_root mix_crypto ?xs), False)"
    "compute_merkle_root mix_crypto ?xs = (fst (compute_merkle_root mix_crypto ?xs), False)"
    using m by (metis prod.collapse)+
  then have "?xs = ?ys"
    using n h by (intro merkle_root_commits [OF mix_crypto_ok, of ?xs ?ys])
      (auto simp: hashes_ok_def s leaves_fresh_def inj_on_def)
  then show False by simp
qed

text \<open>Repeating the last hash of an odd level gives the same root, and is reported as a mutation.\<close>

theorem merkle_duplicate_flagged:
  assumes "odd (length xs)" "length xs > 1"
  shows "compute_merkle_root C (xs @ [last xs]) = (fst (compute_merkle_root C xs), True)"
proof -
  obtain us a where xs: "xs = us @ [a]" using assms(2) by (cases xs rule: rev_cases) auto
  have pad: "pad_level (xs @ [last xs]) = pad_level xs" using assms(1) by (simp add: pad_level_def)
  have "even (length us)" using assms(1) xs by simp
  then have "level_mutated (xs @ [last xs])" using level_mutated_last [of us a] by (simp add: xs)
  moreover have "root_of C (xs @ [last xs]) = root_of C xs"
    using assms(2) pad by (auto simp: root_of.simps [of C xs] root_of.simps [of C "xs @ [last xs]"])
  ultimately show ?thesis
    using assms(2) xs
    by (auto simp: compute_merkle_root_def merkle_loop_split tree_mutated.simps [of C "us @ [a, a]"]
        tree_mutated.simps [of C "xs @ [last xs]"])
qed

theorem merkle_duplicate_flagged_witness:
  "compute_merkle_root pad_crypto [ZERO_HASH, replicate 32 1, replicate 32 2, replicate 32 2] =
   (fst (compute_merkle_root pad_crypto [ZERO_HASH, replicate 32 1, replicate 32 2]), True)"
  using merkle_duplicate_flagged [of "[ZERO_HASH, replicate 32 1, replicate 32 2]" pad_crypto] by simp

end
