(* ===== verification/Params.thy ===== *)
theory Params
  imports Merkle "HOL-Library.Signed_Division"
begin

text \<open>
  Parameters and small types shared by the consensus code: amounts
  (\<open>qubitcoin-primitives/src/amount.rs\<close>), the consensus parameters of the five networks
  (\<open>qubitcoin-consensus/src/params.rs\<close>) and the validation state
  (\<open>qubitcoin-consensus/src/validation_state.rs\<close>).

  An \<open>Amount\<close> is its 64-bit word, read with \<open>sint\<close>; addition wraps, as in a release build. Heights and time
  spans, which are \<open>i32\<close> and \<open>i64\<close> in the source, are integers. A 64-digit hexadecimal constant is written as
  the number it shows; \<open>hash_lit\<close> gives its little-endian bytes.
\<close>

section \<open>Amounts\<close>

definition COIN :: int where
  "COIN = 100000000"

definition MAX_MONEY :: int where
  "MAX_MONEY = 21000000 * COIN"

definition money_range :: "amount \<Rightarrow> bool" where
  "money_range v \<longleftrightarrow> sint v \<ge> 0 \<and> sint v \<le> MAX_MONEY"

definition from_btc :: "int \<Rightarrow> amount" where
  "from_btc btc = of_int (btc * COIN)"

section \<open>Consensus parameters\<close>

definition hash_lit :: "256 word \<Rightarrow> hash_bytes" where
  "hash_lit n = to_le_bytes n"

definition SIGNET_DEFAULT_CHALLENGE :: script where
  "SIGNET_DEFAULT_CHALLENGE =
     [0x51, 0x21, 0x03, 0xad, 0x5e, 0x0e, 0xda, 0xd1, 0x8c, 0xb1, 0xf0, 0xfc, 0x0d, 0x28, 0xa3,
     0xd4, 0xf1, 0xf3, 0xe4, 0x45, 0x64, 0x03, 0x37, 0x48, 0x9a, 0xbb, 0x10, 0x40, 0x4f, 0x2d,
     0x1e, 0x08, 0x6b, 0xe4, 0x30, 0x21, 0x03, 0x59, 0xef, 0x50, 0x21, 0x96, 0x4f, 0xe2, 0x2d,
     0x6f, 0x8e, 0x05, 0xb2, 0x46, 0x3c, 0x95, 0x40, 0xce, 0x96, 0x88, 0x3f, 0xe3, 0xb2, 0x78,
     0x76, 0x0f, 0x04, 0x8f, 0x51, 0x89, 0xf2, 0xe6, 0xc4, 0x52, 0xae]"

definition MAX_TIMEWARP :: int where
  "MAX_TIMEWARP = 600"

datatype deployment_pos = TestDummy

definition MAX_VERSION_BITS_DEPLOYMENTS :: nat where
  "MAX_VERSION_BITS_DEPLOYMENTS = 1"

definition deployment_index :: "deployment_pos \<Rightarrow> nat" where
  "deployment_index pos = (case pos of TestDummy \<Rightarrow> 0)"

definition deployment_name :: "deployment_pos \<Rightarrow> string" where
  "deployment_name pos = (case pos of TestDummy \<Rightarrow> ''testdummy'')"

record bip9_deployment =
  dep_bit :: nat
  dep_start_time :: int
  dep_timeout :: int
  dep_min_activation_height :: int
  dep_period :: nat
  dep_threshold :: nat

definition NO_TIMEOUT :: int where
  "NO_TIMEOUT = 2 ^ 63 - 1"

definition ALWAYS_ACTIVE :: int where
  "ALWAYS_ACTIVE = - 1"

definition NEVER_ACTIVE :: int where
  "NEVER_ACTIVE = - 2"

definition testdummy_deployment :: "int \<Rightarrow> nat \<Rightarrow> nat \<Rightarrow> bip9_deployment" where
  "testdummy_deployment start_time threshold period = \<lparr>
     dep_bit = 28, dep_start_time = start_time, dep_timeout = NO_TIMEOUT,
     dep_min_activation_height = 0, dep_period = period, dep_threshold = threshold\<rparr>"

record consensus_params =
  genesis_hash :: hash_bytes
  bip34_height :: int
  bip65_height :: int
  bip66_height :: int
  csv_height :: int
  segwit_height :: int
  taproot_height :: int
  script_flag_exceptions :: "(hash_bytes \<times> script_flags) list"
  rule_change_activation_threshold :: nat
  miner_confirmation_window :: nat
  deployments :: "bip9_deployment list"
  min_bip9_warning_height :: int
  pow_limit :: hash_bytes
  pow_target_timespan :: int
  pow_target_spacing :: int
  pow_allow_min_difficulty_blocks :: bool
  pow_no_retargeting :: bool
  enforce_bip94 :: bool
  signet_blocks :: bool
  signet_challenge :: script
  minimum_chain_work :: hash_bytes
  default_assume_valid :: hash_bytes
  subsidy_halving_interval :: int

definition mainnet :: consensus_params where
  "mainnet = \<lparr>
     genesis_hash = hash_lit 0x000000000019d6689c085ae165831e934ff763ae46a2a6c172b3f1b60a8ce26f,
     bip34_height = 227931,
     bip65_height = 388381,
     bip66_height = 363725,
     csv_height = 419328,
     segwit_height = 481824,
     taproot_height = 709632,
     script_flag_exceptions = [(hash_lit 0x00000000000002dc756eebf4f49723ed8d30cc28a5f108eb94b1ba88ac4f9c22, 0), (hash_lit 0x0000000000000000000f14c35b2d841e986ab5441de8c585d5ffe55ea1e395ad, 0x801)],
     rule_change_activation_threshold = 1916,
     miner_confirmation_window = 2016,
     deployments = [testdummy_deployment NEVER_ACTIVE 1815 2016],
     min_bip9_warning_height = 711648,
     pow_limit = hash_lit 0x00000000ffffffffffffffffffffffffffffffffffffffffffffffffffffffff,
     pow_target_timespan = 1209600,
     pow_target_spacing = 600,
     pow_allow_min_difficulty_blocks = False,
     pow_no_retargeting = False,
     enforce_bip94 = False,
     signet_blocks = False,
     signet_challenge = [],
     minimum_chain_work = hash_lit 0x000000000000000000000000000000000000000145ec036acc5ba740052af1a0,
     default_assume_valid = hash_lit 0x00000000000000000000748969ec33043c0e52a763c6dd5193861f559f2c72e3,
     subsidy_halving_interval = 210000\<rparr>"

definition testnet :: consensus_params where
  "testnet = \<lparr>
     genesis_hash = hash_lit 0x000000000933ea01ad0ee984209779baaec3ced90fa3f408719526f8d77f4943,
     bip34_height = 21111,
     bip65_height = 581885,
     bip66_height = 330776,
     csv_height = 770112,
     segwit_height = 834624,
     taproot_height = 0,
     script_flag_exceptions = [(hash_lit 0x00000000dd30457c001f4095d208cc1296b0eed002427aa599874af7a432b105, 0)],
     rule_change_activation_threshold = 1512,
     miner_confirmation_window = 2016,
     deployments = [testdummy_deployment NEVER_ACTIVE 1512 2016],
     min_bip9_warning_height = 2013984,
     pow_limit = hash_lit 0x00000000ffffffffffffffffffffffffffffffffffffffffffffffffffffffff,
     pow_target_timespan = 1209600,
     pow_target_spacing = 600,
     pow_allow_min_difficulty_blocks = True,
     pow_no_retargeting = False,
     enforce_bip94 = False,
     signet_blocks = False,
     signet_challenge = [],
     minimum_chain_work = hash_lit 0x0000000000000000000000000000000000000000000017f49f702147f10c0eb6,
     default_assume_valid = hash_lit 0x00000000b318a3703d14a844c55ef507f4c2fc8f8766e24271fd43c180c51637,
     subsidy_halving_interval = 210000\<rparr>"

definition regtest :: consensus_params where
  "regtest = \<lparr>
     genesis_hash = hash_lit 0x0f9188f13cb7b2c71f2a335e3a4fc328bf5beb436012afca590b1a11466e2206,
     bip34_height = 1,
     bip65_height = 1,
     bip66_height = 1,
     csv_height = 1,
     segwit_height = 0,
     taproot_height = 0,
     script_flag_exceptions = [],
     rule_change_activation_threshold = 108,
     miner_confirmation_window = 144,
     deployments = [testdummy_deployment 0 108 144],
     min_bip9_warning_height = 0,
     pow_limit = hash_lit 0x7fffffffffffffffffffffffffffffffffffffffffffffffffffffffffffffff,
     pow_target_timespan = 86400,
     pow_target_spacing = 600,
     pow_allow_min_difficulty_blocks = True,
     pow_no_retargeting = True,
     enforce_bip94 = False,
     signet_blocks = False,
     signet_challenge = [],
     minimum_chain_work = ZERO_HASH,
     default_assume_valid = ZERO_HASH,
     subsidy_halving_interval = 150\<rparr>"

definition signet :: consensus_params where
  "signet = \<lparr>
     genesis_hash = hash_lit 0x00000008819873e925422c1ff0f99f7cc9bbb232af63a077a480a3633bee1ef6,
     bip34_height = 1,
     bip65_height = 1,
     bip66_height = 1,
     csv_height = 1,
     segwit_height = 1,
     taproot_height = 0,
     script_flag_exceptions = [],
     rule_change_activation_threshold = 1916,
     miner_confirmation_window = 2016,
     deployments = [testdummy_deployment NEVER_ACTIVE 1815 2016],
     min_bip9_warning_height = 0,
     pow_limit = hash_lit 0x00000377ae000000000000000000000000000000000000000000000000000000,
     pow_target_timespan = 1209600,
     pow_target_spacing = 600,
     pow_allow_min_difficulty_blocks = False,
     pow_no_retargeting = False,
     enforce_bip94 = False,
     signet_blocks = True,
     signet_challenge = SIGNET_DEFAULT_CHALLENGE,
     minimum_chain_work = hash_lit 0x00000000000000000000000000000000000000000000000000001090e9dc1520,
     default_assume_valid = hash_lit 0x00000002a5e0ba0498f1e9f4591af0b66b63c654665efe65206fd0ae7bbaf923,
     subsidy_halving_interval = 210000\<rparr>"

definition testnet4 :: consensus_params where
  "testnet4 = \<lparr>
     genesis_hash = hash_lit 0x00000000da84f2bafbbc53dee25a72ae507ff4914b867c565be350b0da8bf043,
     bip34_height = 1,
     bip65_height = 1,
     bip66_height = 1,
     csv_height = 1,
     segwit_height = 1,
     taproot_height = 0,
     script_flag_exceptions = [],
     rule_change_activation_threshold = 1512,
     miner_confirmation_window = 2016,
     deployments = [testdummy_deployment NEVER_ACTIVE 1512 2016],
     min_bip9_warning_height = 0,
     pow_limit = hash_lit 0x00000000ffffffffffffffffffffffffffffffffffffffffffffffffffffffff,
     pow_target_timespan = 1209600,
     pow_target_spacing = 600,
     pow_allow_min_difficulty_blocks = True,
     pow_no_retargeting = False,
     enforce_bip94 = True,
     signet_blocks = False,
     signet_challenge = [],
     minimum_chain_work = hash_lit 0x000000000000000000000000000000000000000000000e346a558455ade8eca9,
     default_assume_valid = hash_lit 0x0000000021df65b91665a342e26ceb05e54826ad7d8fcd40316230058fa3b865,
     subsidy_halving_interval = 210000\<rparr>"

text \<open>The division of the source truncates.\<close>

definition difficulty_adjustment_interval :: "consensus_params \<Rightarrow> int" where
  "difficulty_adjustment_interval params = pow_target_timespan params sdiv pow_target_spacing params"

section \<open>Validation state\<close>

datatype tx_validation_result =
    TxUnset | TxConsensus | TxRecentConsensusChange | TxNotValidated | TxMissingInputs
  | TxNotStandard | TxResourceLimit

datatype block_validation_result =
    BlockUnset | BlockConsensus | BlockRecentConsensusChange | BlockCachedInvalid
  | BlockInvalidHeader | BlockMutatedBlock | BlockTimeFuture | BlockCheckpoint

datatype validation_mode = ModeValid | ModeInvalid | ModeError

record 'r validation_state =
  vs_mode :: validation_mode
  vs_result :: 'r
  vs_reject_reason :: string
  vs_debug_message :: string

type_synonym tx_validation_state = "tx_validation_result validation_state"
type_synonym block_validation_state = "block_validation_result validation_state"

definition vs_new :: "'r \<Rightarrow> 'r validation_state" where
  "vs_new unset =
     \<lparr>vs_mode = ModeValid, vs_result = unset, vs_reject_reason = [], vs_debug_message = []\<rparr>"

text \<open>The two methods that record a failure return \<open>false\<close> with the new state.\<close>

definition vs_invalid ::
  "'r validation_state \<Rightarrow> 'r \<Rightarrow> string \<Rightarrow> string \<Rightarrow> bool \<times> 'r validation_state" where
  "vs_invalid st result reject_reason debug_message =
     (False, st\<lparr>vs_mode := ModeInvalid, vs_result := result, vs_reject_reason := reject_reason,
                vs_debug_message := debug_message\<rparr>)"

definition vs_error :: "'r validation_state \<Rightarrow> string \<Rightarrow> bool \<times> 'r validation_state" where
  "vs_error st reject_reason = (False, st\<lparr>vs_mode := ModeError, vs_reject_reason := reject_reason\<rparr>)"

definition vs_is_valid :: "'r validation_state \<Rightarrow> bool" where
  "vs_is_valid st \<longleftrightarrow> vs_mode st = ModeValid"

definition vs_is_invalid :: "'r validation_state \<Rightarrow> bool" where
  "vs_is_invalid st \<longleftrightarrow> vs_mode st = ModeInvalid"

definition vs_is_error :: "'r validation_state \<Rightarrow> bool" where
  "vs_is_error st \<longleftrightarrow> vs_mode st = ModeError"

section \<open>Facts about the networks\<close>

lemma MAX_MONEY_value: "MAX_MONEY = 2100000000000000"
  by (simp add: MAX_MONEY_def COIN_def)

text \<open>A network is usable: its numbers divide the time as the retargeting code expects.\<close>

definition params_ok :: "consensus_params \<Rightarrow> bool" where
  "params_ok params \<longleftrightarrow>
     0 < pow_target_spacing params \<and> pow_target_timespan params = pow_target_spacing params * difficulty_adjustment_interval params \<and>
     4 \<le> pow_target_timespan params \<and> pow_target_timespan params < 2 ^ 32 \<and>
     0 < difficulty_adjustment_interval params \<and> 0 < subsidy_halving_interval params \<and>
     length (pow_limit params) = 32"

lemma networks_ok: "list_all params_ok [mainnet, testnet, regtest, signet, testnet4]"
  by (simp add: params_ok_def mainnet_def testnet_def regtest_def signet_def testnet4_def
      difficulty_adjustment_interval_def hash_lit_def)

end
