(* ===== verification/ArithUint256.thy ===== *)
theory ArithUint256
  imports Prelude
begin

text \<open>
  The type \<open>ArithUint256\<close> of \<open>qubitcoin-primitives/src/arith_uint256.rs\<close>: eight
  \<open>u32\<close> limbs, least significant first, with carry loops, shifts, long division, and the
  compact \<open>nBits\<close> encoding of difficulty targets.

  The operations are translated limb by limb. The abstraction \<open>au_word\<close> reads the limbs as
  one 256-bit word, and the lemmas show that every operation computes the operation of that
  name on 256-bit words: addition, negation, subtraction, multiplication, division, shifts, bitwise
  operations, comparison and bit length.
\<close>

section \<open>Representation\<close>

definition WIDTH :: nat where
  "WIDTH = 8"

datatype arith_error = DivisionByZero

datatype ordering = Less | Equal | Greater

record arith_uint256 =
  pn :: "u32 list"

definition au_zero :: arith_uint256 where
  "au_zero = \<lparr>pn = replicate WIDTH 0\<rparr>"

definition au_from_u64 :: "u64 \<Rightarrow> arith_uint256" where
  "au_from_u64 b = \<lparr>pn = (replicate WIDTH 0)[0 := ucast b, 1 := ucast (drop_bit 32 b)]\<rparr>"

definition au_low64 :: "arith_uint256 \<Rightarrow> u64" where
  "au_low64 a = ucast (pn a ! 0) OR push_bit 32 (ucast (pn a ! 1))"

text \<open>A loop over indices that returns at the first match is \<open>find\<close>.\<close>

definition au_bits :: "arith_uint256 \<Rightarrow> nat" where
  "au_bits a =
     (case find (\<lambda>pos. pn a ! pos \<noteq> 0) (rev [0..<WIDTH]) of
        None \<Rightarrow> 0
      | Some pos \<Rightarrow>
          (case find (\<lambda>nbits. pn a ! pos AND push_bit nbits 1 \<noteq> 0) (rev [1..<32]) of
             None \<Rightarrow> 32 * pos + 1
           | Some nbits \<Rightarrow> 32 * pos + nbits + 1))"

definition au_compare_to :: "arith_uint256 \<Rightarrow> arith_uint256 \<Rightarrow> ordering" where
  "au_compare_to a b =
     (case find (\<lambda>i. pn a ! i < pn b ! i \<or> pn a ! i > pn b ! i) (rev [0..<WIDTH]) of
        None \<Rightarrow> Equal
      | Some i \<Rightarrow> if pn a ! i < pn b ! i then Less else Greater)"

definition au_equal_to_u64 :: "arith_uint256 \<Rightarrow> u64 \<Rightarrow> bool" where
  "au_equal_to_u64 a b =
     (case find (\<lambda>i. pn a ! i \<noteq> 0) (rev [2..<WIDTH]) of
        Some i \<Rightarrow> False
      | None \<Rightarrow> pn a ! 1 = ucast (drop_bit 32 b) \<and> pn a ! 0 = ucast (b AND 0xffffffff))"

section \<open>Increment, negation\<close>

function inc_loop :: "u32 list \<Rightarrow> nat \<Rightarrow> u32 list" where
  "inc_loop p i =
     (if i < WIDTH then
        let p' = p[i := p ! i + 1] in
        if p' ! i \<noteq> 0 then p' else inc_loop p' (i + 1)
      else p)"
  by pat_completeness auto
termination
  by (relation "measure (\<lambda>(p, i). WIDTH - i)") auto

definition au_inc :: "arith_uint256 \<Rightarrow> arith_uint256" where
  "au_inc a = a\<lparr>pn := inc_loop (pn a) 0\<rparr>"

function dec_loop :: "u32 list \<Rightarrow> nat \<Rightarrow> u32 list" where
  "dec_loop p i =
     (if i < WIDTH then
        let old = p ! i; p' = p[i := p ! i - 1] in
        if old \<noteq> 0 then p' else dec_loop p' (i + 1)
      else p)"
  by pat_completeness auto
termination
  by (relation "measure (\<lambda>(p, i). WIDTH - i)") auto

definition au_dec :: "arith_uint256 \<Rightarrow> arith_uint256" where
  "au_dec a = a\<lparr>pn := dec_loop (pn a) 0\<rparr>"

definition au_not :: "arith_uint256 \<Rightarrow> arith_uint256" where
  "au_not a = \<lparr>pn = foldl (\<lambda>ret i. ret[i := NOT (pn a ! i)]) (replicate WIDTH 0) [0..<WIDTH]\<rparr>"

definition au_neg :: "arith_uint256 \<Rightarrow> arith_uint256" where
  "au_neg a = au_inc (au_not a)"

declare inc_loop.simps [simp del] dec_loop.simps [simp del]

section \<open>Carry loops: addition, subtraction, multiplication\<close>

text \<open>The two assignments that end every round: store the low half of \<open>n\<close>, carry the high.\<close>

definition store_carry :: "nat \<Rightarrow> u64 \<Rightarrow> u32 list \<Rightarrow> u32 list \<times> u64" where
  "store_carry i n p = (p[i := ucast (n AND 0xffffffff)], drop_bit 32 n)"

definition au_add :: "arith_uint256 \<Rightarrow> arith_uint256 \<Rightarrow> arith_uint256" where
  "au_add a rhs = a\<lparr>pn := fst (foldl
     (\<lambda>(p, carry) i. store_carry i (carry + ucast (p ! i) + ucast (pn rhs ! i)) p)
     (pn a, 0) [0..<WIDTH])\<rparr>"

definition au_sub :: "arith_uint256 \<Rightarrow> arith_uint256 \<Rightarrow> arith_uint256" where
  "au_sub a rhs = au_add a (au_neg rhs)"

definition au_add_u64 :: "arith_uint256 \<Rightarrow> u64 \<Rightarrow> arith_uint256" where
  "au_add_u64 a rhs = au_add a (au_from_u64 rhs)"

definition au_sub_u64 :: "arith_uint256 \<Rightarrow> u64 \<Rightarrow> arith_uint256" where
  "au_sub_u64 a rhs = au_add a (au_neg (au_from_u64 rhs))"

definition au_mul_u32 :: "arith_uint256 \<Rightarrow> u32 \<Rightarrow> arith_uint256" where
  "au_mul_u32 a b32 = a\<lparr>pn := fst (foldl
     (\<lambda>(p, carry) i. store_carry i (carry + ucast b32 * ucast (p ! i)) p)
     (pn a, 0) [0..<WIDTH])\<rparr>"

definition mul_row :: "u32 list \<Rightarrow> u32 list \<Rightarrow> u32 list \<Rightarrow> nat \<Rightarrow> u32 list" where
  "mul_row orig rhs p j = fst (foldl
     (\<lambda>(p, carry) i.
        store_carry (i + j) (carry + ucast (p ! (i + j)) + ucast (orig ! j) * ucast (rhs ! i)) p)
     (p, 0) [0..<WIDTH - j])"

definition au_mul :: "arith_uint256 \<Rightarrow> arith_uint256 \<Rightarrow> arith_uint256" where
  "au_mul a rhs = \<lparr>pn = foldl (mul_row (pn a) (pn rhs)) (replicate WIDTH 0) [0..<WIDTH]\<rparr>"

section \<open>Bitwise operations and shifts\<close>

definition au_xor :: "arith_uint256 \<Rightarrow> arith_uint256 \<Rightarrow> arith_uint256" where
  "au_xor a rhs = a\<lparr>pn := foldl (\<lambda>p i. p[i := p ! i XOR pn rhs ! i]) (pn a) [0..<WIDTH]\<rparr>"

definition au_and :: "arith_uint256 \<Rightarrow> arith_uint256 \<Rightarrow> arith_uint256" where
  "au_and a rhs = a\<lparr>pn := foldl (\<lambda>p i. p[i := p ! i AND pn rhs ! i]) (pn a) [0..<WIDTH]\<rparr>"

definition au_or :: "arith_uint256 \<Rightarrow> arith_uint256 \<Rightarrow> arith_uint256" where
  "au_or a rhs = a\<lparr>pn := foldl (\<lambda>p i. p[i := p ! i OR pn rhs ! i]) (pn a) [0..<WIDTH]\<rparr>"

definition shl_step :: "u32 list \<Rightarrow> nat \<Rightarrow> nat \<Rightarrow> u32 list \<Rightarrow> nat \<Rightarrow> u32 list" where
  "shl_step a k s p i =
     (let p = (if i + k + 1 < WIDTH \<and> s \<noteq> 0
               then p[i + k + 1 := p ! (i + k + 1) OR drop_bit (32 - s) (a ! i)] else p)
      in if i + k < WIDTH then p[i + k := p ! (i + k) OR push_bit s (a ! i)] else p)"

definition au_shl :: "arith_uint256 \<Rightarrow> nat \<Rightarrow> arith_uint256" where
  "au_shl a shift = \<lparr>pn = foldl (shl_step (pn a) (shift div 32) (shift mod 32))
     (replicate WIDTH 0) [0..<WIDTH]\<rparr>"

definition shr_step :: "u32 list \<Rightarrow> nat \<Rightarrow> nat \<Rightarrow> u32 list \<Rightarrow> nat \<Rightarrow> u32 list" where
  "shr_step a k s p i =
     (let p = (if i \<ge> k + 1 \<and> s \<noteq> 0
               then p[i - k - 1 := p ! (i - k - 1) OR push_bit (32 - s) (a ! i)] else p)
      in if i \<ge> k then p[i - k := p ! (i - k) OR drop_bit s (a ! i)] else p)"

definition au_shr :: "arith_uint256 \<Rightarrow> nat \<Rightarrow> arith_uint256" where
  "au_shr a shift = \<lparr>pn = foldl (shr_step (pn a) (shift div 32) (shift mod 32))
     (replicate WIDTH 0) [0..<WIDTH]\<rparr>"

section \<open>Division\<close>

text \<open>
  The shift-and-subtract loop. \<open>res\<close> are the limbs of the quotient; the loop ends when
  \<open>shift\<close>, an \<open>i32\<close> between \<open>-1\<close> and 255, becomes negative.
\<close>

function div_loop ::
  "u32 list \<Rightarrow> arith_uint256 \<Rightarrow> arith_uint256 \<Rightarrow> int \<Rightarrow> u32 list" where
  "div_loop res num dv shift =
     (if shift \<ge> 0 then
        let (res, num) =
          (if au_compare_to num dv \<noteq> Less
           then (res[nat shift div 32 :=
                       res ! (nat shift div 32) OR push_bit (nat shift mod 32) 1],
                 au_sub num dv)
           else (res, num))
        in div_loop res num (au_shr dv 1) (shift - 1)
      else res)"
  by pat_completeness auto
termination
  by (relation "measure (\<lambda>(res, num, dv, shift). nat (shift + 1))") auto

definition au_div :: "arith_uint256 \<Rightarrow> arith_uint256 \<Rightarrow> arith_error + arith_uint256" where
  "au_div a rhs =
     (let num_bits = au_bits a; div_bits = au_bits rhs in
      if div_bits = 0 then Inl DivisionByZero
      else if div_bits > num_bits then Inr au_zero
      else
        let shift = num_bits - div_bits in
        Inr \<lparr>pn = div_loop (replicate WIDTH 0) a (au_shl rhs shift) (int shift)\<rparr>)"

declare div_loop.simps [simp del]

section \<open>The compact encoding\<close>

definition set_compact :: "u32 \<Rightarrow> arith_uint256 \<times> bool \<times> bool" where
  "set_compact compact =
     (let n_size = unat (drop_bit 24 compact);
          n_word0 = compact AND 0x007fffff;
          n_word = (if n_size \<le> 3 then drop_bit (8 * (3 - n_size)) n_word0 else n_word0);
          a = (if n_size \<le> 3 then au_from_u64 (ucast n_word)
               else au_shl (au_from_u64 (ucast n_word)) (8 * (n_size - 3)));
          negative = (n_word \<noteq> 0 \<and> compact AND 0x00800000 \<noteq> 0);
          overflow = (n_word \<noteq> 0 \<and>
            (n_size > 34 \<or> (n_word > 0xff \<and> n_size > 33) \<or> (n_word > 0xffff \<and> n_size > 32)))
      in (a, negative, overflow))"

definition get_compact :: "arith_uint256 \<Rightarrow> bool \<Rightarrow> u32" where
  "get_compact a negative =
     (let n_size = (au_bits a + 7) div 8;
          n_compact = (if n_size \<le> 3 then ucast (push_bit (8 * (3 - n_size)) (au_low64 a))
                       else ucast (au_low64 (au_shr a (8 * (n_size - 3)))));
          (n_compact, n_size) =
            (if n_compact AND 0x00800000 \<noteq> 0 then (drop_bit 8 n_compact, n_size + 1)
             else (n_compact, n_size));
          n_compact = n_compact OR push_bit 24 (of_nat n_size)
      in if negative \<and> n_compact AND 0x007fffff \<noteq> 0 then n_compact OR 0x00800000
         else n_compact)"

section \<open>Conversion from and to the hash type\<close>

definition arith_to_uint256 :: "arith_uint256 \<Rightarrow> bytes" where
  "arith_to_uint256 a = foldl
     (\<lambda>data x. take (x * 4) data @ to_le_bytes (pn a ! x) @ drop (x * 4 + 4) data)
     (replicate 32 0) [0..<WIDTH]"

definition uint256_to_arith :: "bytes \<Rightarrow> arith_uint256" where
  "uint256_to_arith data = \<lparr>pn = foldl
     (\<lambda>p x. p[x := from_le_bytes
        [data ! (x * 4), data ! (x * 4 + 1), data ! (x * 4 + 2), data ! (x * 4 + 3)]])
     (replicate WIDTH 0) [0..<WIDTH]\<rparr>"

section \<open>The 256-bit word a limb list stands for\<close>

type_synonym u256 = "256 word"

definition limbs_word :: "u32 list \<Rightarrow> u256" where
  "limbs_word p = (\<Sum>i<length p. ucast (p ! i) * 2 ^ (32 * i))"

definition au_word :: "arith_uint256 \<Rightarrow> u256" where
  "au_word a = limbs_word (pn a)"

definition au_ok :: "arith_uint256 \<Rightarrow> bool" where
  "au_ok a \<longleftrightarrow> length (pn a) = WIDTH"

lemma limbs_word_update:
  assumes "i < length p"
  shows "limbs_word (p[i := x]) = limbs_word p + (ucast x - ucast (p ! i)) * 2 ^ (32 * i)"
proof -
  have "limbs_word (p[i := x]) =
    (\<Sum>k<length p. ucast (p ! k) * 2 ^ (32 * k)
       + (if k = i then (ucast x - ucast (p ! i)) * 2 ^ (32 * i) else 0))"
    unfolding limbs_word_def length_list_update
    by (rule sum.cong) (auto simp: algebra_simps)
  also have "\<dots> = limbs_word p + (ucast x - ucast (p ! i)) * 2 ^ (32 * i)"
    using assms by (simp add: sum.distrib limbs_word_def)
  finally show ?thesis .
qed

lemma limbs_word_Nil [simp]: "limbs_word [] = 0"
  by (simp add: limbs_word_def)

lemma limbs_word_Cons: "limbs_word (x # p) = ucast x + push_bit 32 (limbs_word p)"
  by (simp add: limbs_word_def sum.lessThan_Suc_shift power_add push_bit_eq_mult sum_distrib_right
      mult.assoc del: sum.lessThan_Suc)
    (simp add: mult.commute)

lemma not_bit_u32: "32 \<le> n \<Longrightarrow> \<not> bit (x :: u32) n"
  by (simp add: impossible_bit)

lemma bit_add_shifted:
  fixes x :: u32 and y :: u256
  shows "bit (ucast x + push_bit 32 y) n \<longleftrightarrow>
    (if n < 32 then bit x n else n < 256 \<and> bit y (n - 32))"
proof -
  have "(ucast x :: u256) AND push_bit 32 y = 0"
    by (rule bit_eqI) (auto simp: bit_simps not_bit_u32)
  then have eq: "ucast x + push_bit 32 y = (ucast x :: u256) OR push_bit 32 y"
    by (simp add: disjunctive_add_eq_or)
  show ?thesis
    unfolding eq by (auto simp: bit_simps not_bit_u32)
qed

lemma bit_limbs_word:
  "bit (limbs_word p) n \<longleftrightarrow> n < 256 \<and> n div 32 < length p \<and> bit (p ! (n div 32)) (n mod 32)"
proof (induction p arbitrary: n)
  case Nil
  then show ?case by simp
next
  case (Cons x p)
  show ?case
  proof (cases "n < 32")
    case False
    then have "n div 32 = Suc ((n - 32) div 32)" "n mod 32 = (n - 32) mod 32"
      by (simp_all add: le_div_geq le_mod_geq)
    with False Cons.IH [of "n - 32"] show ?thesis
      by (auto simp: limbs_word_Cons bit_add_shifted)
  qed (simp add: limbs_word_Cons bit_add_shifted)
qed

lemma limbs_word_eq_iff:
  "length p = WIDTH \<Longrightarrow> length q = WIDTH \<Longrightarrow> limbs_word p = limbs_word q \<longleftrightarrow> p = q"
proof
  assume len: "length p = WIDTH" "length q = WIDTH" and eq: "limbs_word p = limbs_word q"
  show "p = q"
  proof (rule nth_equalityI)
    fix i assume i: "i < length p"
    show "p ! i = q ! i"
    proof (rule bit_word_eqI)
      fix n :: nat assume n: "n < LENGTH(32)"
      then have "(32 * i + n) div 32 = i" "(32 * i + n) mod 32 = n" "32 * i + n < 256"
        using i len by (auto simp: WIDTH_def)
      then show "bit (p ! i) n \<longleftrightarrow> bit (q ! i) n"
        using arg_cong [OF eq, of "\<lambda>w. bit w (32 * i + n)"] i len
        by (simp add: bit_limbs_word)
    qed
  qed (simp add: len)
qed auto

lemma unat_limbs_Cons:
  assumes "length p \<le> 7"
  shows "unat (limbs_word (x # p)) = unat x + 2 ^ 32 * unat (limbs_word p) \<and>
    unat (limbs_word p) < 2 ^ (32 * length p)"
  using assms
proof (induction p arbitrary: x)
  case Nil
  then show ?case by (simp add: limbs_word_Cons unat_ucast_widen)
next
  case (Cons y p)
  then have IH: "unat (limbs_word (y # p)) = unat y + 2 ^ 32 * unat (limbs_word p)"
    "unat (limbs_word p) < 2 ^ (32 * length p)" by simp_all
  have "unat (limbs_word (y # p)) < 2 ^ 32 * (1 + unat (limbs_word p))"
    using unat_less_pow [of y] IH by simp
  also have "\<dots> \<le> 2 ^ 32 * 2 ^ (32 * length p)" using IH(2) by (intro mult_le_mono2) simp
  also have "\<dots> = 2 ^ (32 * length (y # p))" by (simp add: power_add)
  finally have lt: "unat (limbs_word (y # p)) < 2 ^ (32 * length (y # p))" .
  have "unat (limbs_word (x # y # p)) = unat x + 2 ^ 32 * unat (limbs_word (y # p))"
  proof -
    have "32 * length (y # p) \<le> 224" using Cons.prems by simp
    then have "(2::nat) ^ (32 * length (y # p)) \<le> 2 ^ 224" by (rule power_increasing) simp
    then have b: "unat (limbs_word (y # p)) < 2 ^ 224" using lt by linarith
    then have "2 ^ 32 * unat (limbs_word (y # p)) + 2 ^ 32 \<le> 2 ^ 256"
      by simp
    then have c: "unat x + 2 ^ 32 * unat (limbs_word (y # p)) < 2 ^ 256"
      using unat_less_pow [of x] by simp
    show ?thesis
      unfolding limbs_word_Cons [of x]
      using b c by (simp add: push_bit_eq_mult unat_word_ariths unat_ucast_widen)
  qed
  with lt show ?case by blast
qed


section \<open>Increment, decrement, complement, negation\<close>

lemma pow_256 [simp]: "256 \<le> n \<Longrightarrow> (2 :: u256) ^ n = 0"
  by (simp add: exp_eq_zero_iff)

lemma length_inc_loop [simp]: "length (inc_loop p i) = length p"
  by (induction p i rule: inc_loop.induct) (simp add: inc_loop.simps Let_def)

lemma ucast_eq_minus1: "(x :: u32) + 1 = 0 \<Longrightarrow> (ucast x :: u256) = 2 ^ 32 - 1"
proof -
  assume "x + 1 = 0"
  then have "x = - 1" by (simp add: eq_neg_iff_add_eq_0)
  then have "unat x = 2 ^ 32 - 1" by (simp add: unsigned_minus_1_eq_mask mask_eq_exp_minus_1)
  then show ?thesis by (simp add: word_unat_eq_iff unat_ucast_widen)
qed

lemma ucast_inc: "(x :: u32) + 1 \<noteq> 0 \<Longrightarrow> (ucast (x + 1) :: u256) = ucast x + 1"
proof -
  assume "x + 1 \<noteq> 0"
  then have "unat x + 1 < 2 ^ 32"
    using unat_less_pow [of x] by (simp add: word_unat_eq_iff unat_word_ariths mod_Suc split: if_splits)
  then show ?thesis
    by (simp add: word_unat_eq_iff unat_ucast_widen unat_word_ariths)
qed

lemma limbs_inc_loop:
  "length p = WIDTH \<Longrightarrow> i \<le> WIDTH \<Longrightarrow> limbs_word (inc_loop p i) = limbs_word p + 2 ^ (32 * i)"
proof (induction p i rule: inc_loop.induct)
  case (1 p i)
  show ?case
  proof (cases "i < WIDTH")
    case False
    with 1 show ?thesis by (simp add: inc_loop.simps WIDTH_def)
  next
    case True
    have i: "i < length p" using True 1 by simp
    show ?thesis
    proof (cases "p ! i + 1 = 0")
      case False
      with True i show ?thesis
        by (simp add: inc_loop.simps [of p] Let_def limbs_word_update ucast_inc)
    next
      case zero: True
      have "limbs_word (p[i := 0]) = limbs_word p - (2 ^ 32 - 1) * 2 ^ (32 * i)"
        using i zero by (simp add: limbs_word_update ucast_eq_minus1)
      moreover have "limbs_word (inc_loop (p[i := 0]) (i + 1)) = limbs_word (p[i := 0]) + 2 ^ (32 * (i + 1))"
        using 1 True i zero by simp
      ultimately show ?thesis
        using True i zero
        by (simp add: inc_loop.simps [of p] Let_def algebra_simps power_add)
    qed
  qed
qed

lemma length_foldl_update [simp]:
  "length (foldl (\<lambda>p i. p[i := f i (p ! i)]) p is) = length p"
  by (induction "is" arbitrary: p) simp_all

lemma nth_foldl_update:
  "k < length p \<Longrightarrow>
   foldl (\<lambda>p i. p[i := f i (p ! i)]) p [0..<m] ! k = (if k < m then f k (p ! k) else p ! k)"
  by (induction m) (auto simp: nth_list_update less_Suc_eq)

lemma div_32_less: "n < 256 \<Longrightarrow> n div 32 < (8 :: nat)"
  by (rule less_mult_imp_div_less) simp

lemma au_not_word: "au_ok a \<Longrightarrow> au_ok (au_not a) \<and> au_word (au_not a) = NOT (au_word a)"
  using length_foldl_update [of "\<lambda>i x. NOT (pn a ! i)"] nth_foldl_update [where f = "\<lambda>i x. NOT (pn a ! i)"]
  by (auto simp: au_ok_def au_word_def au_not_def bit_limbs_word WIDTH_def bit_simps div_32_less
      intro!: bit_word_eqI)

lemma au_inc_word: "au_ok a \<Longrightarrow> au_ok (au_inc a) \<and> au_word (au_inc a) = au_word a + 1"
  using limbs_inc_loop [of "pn a" 0] by (simp add: au_ok_def au_word_def au_inc_def)

lemma au_neg_word: "au_ok a \<Longrightarrow> au_ok (au_neg a) \<and> au_word (au_neg a) = - au_word a"
  using au_not_word [of a] au_inc_word [of "au_not a"]
  by (simp add: au_neg_def not_eq_complement)


lemma length_dec_loop [simp]: "length (dec_loop p i) = length p"
  by (induction p i rule: dec_loop.induct) (simp add: dec_loop.simps Let_def)

lemma ucast_dec: "(x :: u32) \<noteq> 0 \<Longrightarrow> (ucast (x - 1) :: u256) = ucast x - 1"
  using ucast_inc [of "x - 1"] by simp

lemma limbs_dec_loop:
  "length p = WIDTH \<Longrightarrow> i \<le> WIDTH \<Longrightarrow> limbs_word (dec_loop p i) = limbs_word p - 2 ^ (32 * i)"
proof (induction p i rule: dec_loop.induct)
  case (1 p i)
  show ?case
  proof (cases "i < WIDTH")
    case False
    with 1 show ?thesis by (simp add: dec_loop.simps WIDTH_def)
  next
    case True
    have i: "i < length p" using True 1 by simp
    show ?thesis
    proof (cases "p ! i = 0")
      case False
      with True i show ?thesis
        by (simp add: dec_loop.simps [of p] Let_def limbs_word_update ucast_dec)
    next
      case zero: True
      have "limbs_word (p[i := - 1]) = limbs_word p + (2 ^ 32 - 1) * 2 ^ (32 * i)"
        using i zero ucast_eq_minus1 [of "- 1"] by (simp add: limbs_word_update)
      moreover have "limbs_word (dec_loop (p[i := - 1]) (i + 1)) = limbs_word (p[i := - 1]) - 2 ^ (32 * (i + 1))"
        using 1 True i zero by simp
      ultimately show ?thesis
        using True i zero
        by (simp add: dec_loop.simps [of p] Let_def algebra_simps power_add)
    qed
  qed
qed

lemma au_dec_word: "au_ok a \<Longrightarrow> au_ok (au_dec a) \<and> au_word (au_dec a) = au_word a - 1"
  using limbs_dec_loop [of "pn a" 0] by (simp add: au_ok_def au_word_def au_dec_def)

section \<open>Carry loops\<close>

text \<open>
  A carry loop over the limbs from \<open>j\<close> on, whose round \<open>i\<close> adds \<open>d i\<close> to the limb
  without overflowing the 64-bit accumulator, adds \<open>d i\<close> at the place of every limb, up to
  the carry that leaves the last one.
\<close>

lemma store_carry_split:
  "(ucast (n :: u64) :: u256) =
   ucast (ucast (n AND 0xffffffff) :: u32) + 2 ^ 32 * ucast (drop_bit 32 n)"
proof -
  have "n AND 0xffffffff = take_bit 32 n"
    by (simp add: take_bit_eq_mask mask_eq_exp_minus_1)
  then have "unat (ucast (n AND 0xffffffff) :: u32) = unat n mod 2 ^ 32"
    by (simp only: unat_ucast unsigned_take_bit_eq) (simp add: take_bit_eq_mod)
  moreover have "unat (drop_bit 32 n) = unat n div 2 ^ 32"
    by (rule unat_drop_bit)
  moreover have "unat n < 2 ^ 64" using unat_less_pow [of n] by simp
  ultimately show ?thesis
    by (simp add: word_unat_eq_iff unat_word_ariths unat_ucast_widen)
qed

lemma carry_loop:
  fixes N :: "nat \<Rightarrow> u64 \<Rightarrow> u32 \<Rightarrow> u64" and d :: "nat \<Rightarrow> u256"
  assumes len: "m + j \<le> length p"
    and step: "\<And>i c. i < m \<Longrightarrow> unat c < 2 ^ 32 \<Longrightarrow>
      ucast (N i c (p ! (i + j))) = ucast c + ucast (p ! (i + j)) + d i"
  defines "r \<equiv> foldl (\<lambda>(q, c) i. store_carry (i + j) (N i c (q ! (i + j))) q) (p, 0) [0..<m]"
  shows "length (fst r) = length p \<and>
    limbs_word (fst r) + ucast (snd r) * 2 ^ (32 * (m + j)) =
    limbs_word p + (\<Sum>i<m. d i * 2 ^ (32 * (i + j)))"
proof -
  define P where "P m' = (\<lambda>(q, c :: u64). length q = length p \<and> unat c < 2 ^ 32 \<and>
    (\<forall>k. m' + j \<le> k \<longrightarrow> q ! k = p ! k) \<and>
    limbs_word q + ucast c * 2 ^ (32 * (m' + j)) =
    limbs_word p + (\<Sum>i<m'. d i * 2 ^ (32 * (i + j))))" for m'
  have "P m r"
    unfolding r_def
  proof (rule foldl_upt_invariant)
    show "P 0 (p, 0)" by (simp add: P_def)
  next
    fix i and a :: "u32 list \<times> u64"
    assume i: "i < m" and "P i a"
    obtain q c where a: "a = (q, c)" by (cases a)
    have q: "length q = length p" "unat c < 2 ^ 32" "q ! (i + j) = p ! (i + j)"
      "\<And>k. i + j \<le> k \<Longrightarrow> q ! k = p ! k"
      and sum: "limbs_word q + ucast c * 2 ^ (32 * (i + j)) =
        limbs_word p + (\<Sum>i<i. d i * 2 ^ (32 * (i + j)))"
      using \<open>P i a\<close> by (auto simp: P_def a)
    define n where "n = N i c (p ! (i + j))"
    have n: "ucast (ucast (n AND 0xffffffff) :: u32) + 2 ^ 32 * ucast (drop_bit 32 n) =
      ucast c + ucast (p ! (i + j)) + d i"
      using step [OF i q(2)] store_carry_split [of n] by (simp add: n_def)
    have c: "unat (drop_bit 32 n) < 2 ^ 32"
      using unat_less_pow [of n] by (simp add: unat_drop_bit)
    have "limbs_word (q[i + j := ucast (n AND 0xffffffff)]) + ucast (drop_bit 32 n) * 2 ^ (32 * (Suc i + j))
      = limbs_word q + (ucast (ucast (n AND 0xffffffff) :: u32) + 2 ^ 32 * ucast (drop_bit 32 n)
          - ucast (p ! (i + j))) * 2 ^ (32 * (i + j))"
      using i len q by (simp add: limbs_word_update algebra_simps power_add)
    also have "\<dots> = limbs_word q + (ucast c + d i) * 2 ^ (32 * (i + j))"
      unfolding n by simp
    also have "\<dots> = limbs_word p + (\<Sum>i<Suc i. d i * 2 ^ (32 * (i + j)))"
      using sum by (simp add: algebra_simps)
    finally show "P (Suc i) ((case a of (q, c) \<Rightarrow> \<lambda>i. store_carry (i + j) (N i c (q ! (i + j))) q) i)"
      using q c by (simp add: P_def a store_carry_def flip: n_def)
  qed
  then show ?thesis by (auto simp: P_def split: prod.splits)
qed


lemma carry_loop_full:
  fixes N :: "nat \<Rightarrow> u64 \<Rightarrow> u32 \<Rightarrow> u64" and d :: "nat \<Rightarrow> u256"
  assumes len: "m + j = WIDTH" "length p = WIDTH"
    and step: "\<And>i c. i < m \<Longrightarrow> unat c < 2 ^ 32 \<Longrightarrow>
      ucast (N i c (p ! (i + j))) = ucast c + ucast (p ! (i + j)) + d i"
  defines "r \<equiv> foldl (\<lambda>(q, c) i. store_carry (i + j) (N i c (q ! (i + j))) q) (p, 0) [0..<m]"
  shows "length (fst r) = WIDTH \<and>
    limbs_word (fst r) = limbs_word p + (\<Sum>i<m. d i * 2 ^ (32 * (i + j)))"
proof -
  have "(2 :: u256) ^ (32 * (m + j)) = 0"
    using len by (simp add: WIDTH_def)
  then show ?thesis
    using carry_loop [of m j p N d, OF _ step] len by (simp add: r_def)
qed

text \<open>No accumulator overflows: a carry, a limb and a product of limbs fit 64 bits.\<close>

lemma acc_add:
  assumes "unat (c :: u64) < 2 ^ 32"
  shows "(ucast (c + ucast (x :: u32) + ucast (y :: u32)) :: u256) = ucast c + ucast x + ucast y"
  using assms unat_less_pow [of x] unat_less_pow [of y]
  by (simp add: word_unat_eq_iff unat_word_ariths unat_ucast_widen)

lemma mult_u32_bound: "unat (x :: u32) * unat (y :: u32) \<le> (2 ^ 32 - 1) * (2 ^ 32 - 1)"
  using unat_less_pow [of x] unat_less_pow [of y] by (intro mult_le_mono) simp_all

lemma acc_mul:
  assumes "unat (c :: u64) < 2 ^ 32"
  shows "(ucast (c + ucast (x :: u32) + ucast (y :: u32) * ucast (z :: u32)) :: u256) =
    ucast c + ucast x + ucast y * ucast z"
  using assms unat_less_pow [of x] mult_u32_bound [of y z]
  by (simp add: word_unat_eq_iff unat_word_ariths unat_ucast_widen)

lemma acc_mul0:
  assumes "unat (c :: u64) < 2 ^ 32"
  shows "(ucast (c + ucast (y :: u32) * ucast (z :: u32)) :: u256) = ucast c + ucast y * ucast z"
  using acc_mul [OF assms, of 0 y z] by simp

lemma au_add_word:
  assumes "au_ok a" "au_ok b"
  shows "au_ok (au_add a b) \<and> au_word (au_add a b) = au_word a + au_word b"
  using carry_loop_full [of WIDTH 0 "pn a" "\<lambda>i c x. c + ucast x + ucast (pn b ! i)" "\<lambda>i. ucast (pn b ! i)"]
    assms
  by (simp add: au_ok_def au_word_def au_add_def acc_add limbs_word_def [of "pn b"])

lemma au_sub_word:
  "au_ok a \<Longrightarrow> au_ok b \<Longrightarrow> au_ok (au_sub a b) \<and> au_word (au_sub a b) = au_word a - au_word b"
  using au_neg_word [of b] au_add_word [of a "au_neg b"] by (simp add: au_sub_def)

lemma au_mul_u32_word:
  assumes "au_ok a"
  shows "au_ok (au_mul_u32 a b) \<and> au_word (au_mul_u32 a b) = au_word a * ucast b"
proof -
  have "limbs_word (pn a) + (\<Sum>i<WIDTH. (ucast b - 1) * ucast (pn a ! i) * 2 ^ (32 * i)) =
    limbs_word (pn a) * ucast b"
    using assms
    by (simp add: limbs_word_def au_ok_def sum_distrib_left sum_distrib_right
        flip: sum.distrib)
      (simp add: algebra_simps)
  then show ?thesis
    using carry_loop_full [of WIDTH 0 "pn a" "\<lambda>i c x. c + ucast b * ucast x"
        "\<lambda>i. (ucast b - 1) * ucast (pn a ! i)"] assms
    by (simp add: au_ok_def au_word_def au_mul_u32_def acc_mul0 left_diff_distrib)
qed

lemma mul_row_word:
  assumes "length orig = WIDTH" "length rhs = WIDTH" "length p = WIDTH" "j < WIDTH"
  shows "length (mul_row orig rhs p j) = WIDTH \<and>
    limbs_word (mul_row orig rhs p j) = limbs_word p + ucast (orig ! j) * 2 ^ (32 * j) * limbs_word rhs"
proof -
  let ?f = "\<lambda>i. (ucast (orig ! j) * 2 ^ (32 * j) * (ucast (rhs ! i) * 2 ^ (32 * i)) :: u256)"
  have "?f i = 0" if "WIDTH - j \<le> i" for i
  proof -
    have "256 \<le> 32 * j + 32 * i" using that by (simp add: WIDTH_def)
    then have "(2 :: u256) ^ (32 * j) * 2 ^ (32 * i) = 0"
      by (simp flip: power_add)
    then show ?thesis by (simp add: algebra_simps)
  qed
  then have "sum ?f {..<WIDTH} = sum ?f {..<WIDTH - j}"
    by (intro sum.mono_neutral_right) auto
  then have "ucast (orig ! j) * 2 ^ (32 * j) * limbs_word rhs =
      (\<Sum>i<WIDTH - j. ucast (orig ! j) * ucast (rhs ! i) * 2 ^ (32 * (i + j)))"
    using assms by (simp add: limbs_word_def sum_distrib_left algebra_simps power_add)
  then show ?thesis
    using carry_loop_full [of "WIDTH - j" j p "\<lambda>i c x. c + ucast x + ucast (orig ! j) * ucast (rhs ! i)"
        "\<lambda>i. ucast (orig ! j) * ucast (rhs ! i)"] assms
    by (simp add: mul_row_def acc_mul)
qed

lemma au_mul_word:
  assumes "au_ok a" "au_ok b"
  shows "au_ok (au_mul a b) \<and> au_word (au_mul a b) = au_word a * au_word b"
proof -
  define P where "P m p \<longleftrightarrow> length p = WIDTH \<and>
    limbs_word p = (\<Sum>j<m. ucast (pn a ! j) * 2 ^ (32 * j)) * limbs_word (pn b)" for m p
  have "P WIDTH (foldl (mul_row (pn a) (pn b)) (replicate WIDTH 0) [0..<WIDTH])"
  proof (rule foldl_upt_invariant)
    show "P 0 (replicate WIDTH 0)" by (simp add: P_def limbs_word_def)
  next
    fix i p
    assume "i < WIDTH" "P i p"
    then show "P (Suc i) (mul_row (pn a) (pn b) p i)"
      using assms mul_row_word [of "pn a" "pn b" p i]
      by (simp add: P_def au_ok_def algebra_simps)
  qed
  then show ?thesis
    using assms by (simp add: P_def au_ok_def au_word_def au_mul_def limbs_word_def [of "pn a"])
qed


section \<open>Bitwise operations and shifts\<close>

lemma au_bitwise_word:
  assumes "au_ok a" "au_ok b"
  shows "au_ok (au_xor a b) \<and> au_word (au_xor a b) = au_word a XOR au_word b"
    and "au_ok (au_and a b) \<and> au_word (au_and a b) = au_word a AND au_word b"
    and "au_ok (au_or a b) \<and> au_word (au_or a b) = au_word a OR au_word b"
  using assms
    length_foldl_update [of "\<lambda>i x. x XOR pn b ! i"] nth_foldl_update [where f = "\<lambda>i x. x XOR pn b ! i"]
    length_foldl_update [of "\<lambda>i x. x AND pn b ! i"] nth_foldl_update [where f = "\<lambda>i x. x AND pn b ! i"]
    length_foldl_update [of "\<lambda>i x. x OR pn b ! i"] nth_foldl_update [where f = "\<lambda>i x. x OR pn b ! i"]
  by (auto simp: au_ok_def au_word_def au_xor_def au_and_def au_or_def bit_limbs_word WIDTH_def
      bit_simps div_32_less intro!: bit_word_eqI)

text \<open>The limbs after a shift loop: at most two limbs of the operand meet in each.\<close>

definition shl_limb :: "u32 list \<Rightarrow> nat \<Rightarrow> nat \<Rightarrow> nat \<Rightarrow> nat \<Rightarrow> u32" where
  "shl_limb a k s m q =
     (if k \<le> q \<and> q - k < m then push_bit s (a ! (q - k)) else 0) OR
     (if s \<noteq> 0 \<and> k + 1 \<le> q \<and> q - (k + 1) < m then drop_bit (32 - s) (a ! (q - (k + 1))) else 0)"

definition shr_limb :: "u32 list \<Rightarrow> nat \<Rightarrow> nat \<Rightarrow> nat \<Rightarrow> nat \<Rightarrow> u32" where
  "shr_limb a k s m q =
     (if q + k < m then drop_bit s (a ! (q + k)) else 0) OR
     (if s \<noteq> 0 \<and> q + k + 1 < m then push_bit (32 - s) (a ! (q + k + 1)) else 0)"

lemma shl_step_limb:
  assumes "i < WIDTH" "length p = WIDTH" "\<forall>q<WIDTH. p ! q = shl_limb a k s i q"
  shows "length (shl_step a k s p i) = WIDTH \<and>
    (\<forall>q<WIDTH. shl_step a k s p i ! q = shl_limb a k s (Suc i) q)"
proof (intro conjI allI impI)
  show "length (shl_step a k s p i) = WIDTH"
    using assms by (simp add: shl_step_def Let_def)
next
  fix q assume q: "q < WIDTH"
  consider "q = i + k" | "q = i + k + 1" | "q \<noteq> i + k" "q \<noteq> i + k + 1" by blast
  then show "shl_step a k s p i ! q = shl_limb a k s (Suc i) q"
  proof cases
    case 1
    then show ?thesis
      using assms q by (auto simp: shl_step_def Let_def shl_limb_def nth_list_update or.commute)
  next
    case 2
    then show ?thesis
      using assms q by (auto simp: shl_step_def Let_def shl_limb_def nth_list_update)
  next
    case 3
    then have "shl_limb a k s (Suc i) q = shl_limb a k s i q"
      by (auto simp: shl_limb_def less_Suc_eq)
    with 3 show ?thesis
      using assms q by (auto simp: shl_step_def Let_def nth_list_update)
  qed
qed

lemma shr_step_limb:
  assumes "i < WIDTH" "length p = WIDTH" "\<forall>q<WIDTH. p ! q = shr_limb a k s i q"
  shows "length (shr_step a k s p i) = WIDTH \<and>
    (\<forall>q<WIDTH. shr_step a k s p i ! q = shr_limb a k s (Suc i) q)"
proof (intro conjI allI impI)
  show "length (shr_step a k s p i) = WIDTH"
    using assms by (simp add: shr_step_def Let_def)
next
  fix q assume q: "q < WIDTH"
  consider "i = q + k" | "i = q + k + 1" | "i \<noteq> q + k" "i \<noteq> q + k + 1" by blast
  then show "shr_step a k s p i ! q = shr_limb a k s (Suc i) q"
  proof cases
    case 1
    then show ?thesis
      using assms q by (auto simp: shr_step_def Let_def shr_limb_def nth_list_update)
  next
    case 2
    then show ?thesis
      using assms q by (auto simp: shr_step_def Let_def shr_limb_def nth_list_update or.commute)
  next
    case 3
    then have "shr_limb a k s (Suc i) q = shr_limb a k s i q"
      by (auto simp: shr_limb_def less_Suc_eq)
    with 3 show ?thesis
      using assms q by (auto simp: shr_step_def Let_def nth_list_update)
  qed
qed

lemma au_shl_limbs:
  "au_ok (au_shl a n) \<and> (\<forall>q<WIDTH. pn (au_shl a n) ! q = shl_limb (pn a) (n div 32) (n mod 32) WIDTH q)"
  unfolding au_ok_def au_shl_def
  using foldl_upt_invariant [where m = WIDTH and s = "replicate WIDTH 0"
      and f = "shl_step (pn a) (n div 32) (n mod 32)"
      and P = "\<lambda>i p. length p = WIDTH \<and> (\<forall>q<WIDTH. p ! q = shl_limb (pn a) (n div 32) (n mod 32) i q)"]
    shl_step_limb
  by (simp add: shl_limb_def)

lemma au_shr_limbs:
  "au_ok (au_shr a n) \<and> (\<forall>q<WIDTH. pn (au_shr a n) ! q = shr_limb (pn a) (n div 32) (n mod 32) WIDTH q)"
  unfolding au_ok_def au_shr_def
  using foldl_upt_invariant [where m = WIDTH and s = "replicate WIDTH 0"
      and f = "shr_step (pn a) (n div 32) (n mod 32)"
      and P = "\<lambda>i p. length p = WIDTH \<and> (\<forall>q<WIDTH. p ! q = shr_limb (pn a) (n div 32) (n mod 32) i q)"]
    shr_step_limb
  by (simp add: shr_limb_def)


lemma divmod_eqI: "m = 32 * q + r \<Longrightarrow> r < 32 \<Longrightarrow> m div 32 = q \<and> m mod 32 = (r :: nat)"
  by auto

lemma bit_shl_limb:
  assumes "b < 256"
  shows "bit (shl_limb a (n div 32) (n mod 32) WIDTH (b div 32)) (b mod 32) \<longleftrightarrow>
    n \<le> b \<and> bit (a ! ((b - n) div 32)) ((b - n) mod 32)"
proof -
  define q r k s where qr: "q = b div 32" "r = b mod 32" "k = n div 32" "s = n mod 32"
  have b: "b = 32 * q + r" "r < 32" and n: "n = 32 * k + s" "s < 32" and q: "q < 8"
    using assms by (auto simp: qr div_32_less)
  show ?thesis
  proof (cases "s \<le> r")
    case True
    have le: "n \<le> b \<longleftrightarrow> k \<le> q" using b n True by linarith
    have "(b - n) div 32 = q - k \<and> (b - n) mod 32 = r - s" if "k \<le> q"
      using that b n True by (intro divmod_eqI) (auto simp: diff_mult_distrib2)
    moreover have "\<not> bit (drop_bit (32 - s) x) r" for x :: u32
      using True by (simp add: bit_drop_bit_eq not_bit_u32)
    ultimately show ?thesis
      using True b(2) q unfolding le qr(1-4) [symmetric]
      by (auto simp: shl_limb_def bit_simps WIDTH_def)
  next
    case False
    have le: "n \<le> b \<longleftrightarrow> k + 1 \<le> q" using b n False by linarith
    have "(b - n) div 32 = q - (k + 1) \<and> (b - n) mod 32 = 32 + r - s" if "k + 1 \<le> q"
      using that b n False by (intro divmod_eqI) (auto simp: diff_mult_distrib2)
    then show ?thesis
      using False b(2) n(2) q unfolding le qr(1-4) [symmetric]
      by (auto simp: shl_limb_def bit_simps WIDTH_def)
  qed
qed

lemma au_shl_word: "au_ok a \<Longrightarrow> au_ok (au_shl a n) \<and> au_word (au_shl a n) = push_bit n (au_word a)"
proof
  assume "au_ok a"
  show ok: "au_ok (au_shl a n)" using au_shl_limbs [of a n] by blast
  show "au_word (au_shl a n) = push_bit n (au_word a)"
  proof (rule bit_word_eqI)
    fix b assume "b < LENGTH(256)"
    then have b: "b < 256" by simp
    then show "bit (au_word (au_shl a n)) b \<longleftrightarrow> bit (push_bit n (au_word a)) b"
      using ok au_shl_limbs [of a n] \<open>au_ok a\<close> bit_shl_limb [OF b, of "pn a" n]
      by (auto simp: au_word_def bit_limbs_word bit_push_bit_iff au_ok_def WIDTH_def div_32_less)
  qed
qed

lemma bit_shr_limb:
  assumes "b < 256" and "length a = 8"
  shows "bit (shr_limb a (n div 32) (n mod 32) WIDTH (b div 32)) (b mod 32) \<longleftrightarrow>
    b + n < 256 \<and> bit (a ! ((b + n) div 32)) ((b + n) mod 32)"
proof -
  define q r k s where qr: "q = b div 32" "r = b mod 32" "k = n div 32" "s = n mod 32"
  have b: "b = 32 * q + r" "r < 32" and n: "n = 32 * k + s" "s < 32"
    by (auto simp: qr)
  show ?thesis
  proof (cases "r + s < 32")
    case True
    have le: "b + n < 256 \<longleftrightarrow> q + k < 8" using b n True by linarith
    have "(b + n) div 32 = q + k \<and> (b + n) mod 32 = r + s"
      using b n True by (intro divmod_eqI) auto
    then show ?thesis
      using True b(2) n(2) unfolding le qr(1-4) [symmetric]
      by (auto simp: shr_limb_def bit_simps WIDTH_def add.commute)
  next
    case False
    have le: "b + n < 256 \<longleftrightarrow> q + k + 1 < 8" using b n False by linarith
    have "(b + n) div 32 = q + k + 1 \<and> (b + n) mod 32 = r + s - 32"
      using b n False by (intro divmod_eqI) auto
    moreover have "\<not> bit (drop_bit s x) r" for x :: u32
      using False by (simp add: bit_drop_bit_eq not_bit_u32 add.commute)
    ultimately show ?thesis
      using False b(2) n(2) unfolding le qr(1-4) [symmetric]
      by (auto simp: shr_limb_def bit_simps WIDTH_def)
  qed
qed

lemma au_shr_word: "au_ok a \<Longrightarrow> au_ok (au_shr a n) \<and> au_word (au_shr a n) = drop_bit n (au_word a)"
proof
  assume "au_ok a"
  show ok: "au_ok (au_shr a n)" using au_shr_limbs [of a n] by blast
  show "au_word (au_shr a n) = drop_bit n (au_word a)"
  proof (rule bit_word_eqI)
    fix b assume "b < LENGTH(256)"
    then have b: "b < 256" by simp
    then show "bit (au_word (au_shr a n)) b \<longleftrightarrow> bit (drop_bit n (au_word a)) b"
      using ok au_shr_limbs [of a n] \<open>au_ok a\<close> bit_shr_limb [OF b, of "pn a" n]
      by (auto simp: au_word_def bit_limbs_word bit_drop_bit_eq au_ok_def WIDTH_def div_32_less add.commute)
  qed
qed

section \<open>Comparison and bit length\<close>

lemma find_rev_upt_Some:
  "find P (rev [l..<m]) = Some i \<longleftrightarrow> l \<le> i \<and> i < m \<and> P i \<and> (\<forall>j. i < j \<and> j < m \<longrightarrow> \<not> P j)"
proof (induction m)
  case 0
  then show ?case by simp
next
  case (Suc m)
  then show ?case by (auto simp: less_Suc_eq)
qed

lemma find_rev_upt_None: "find P (rev [l..<m]) = None \<longleftrightarrow> (\<forall>i. l \<le> i \<and> i < m \<longrightarrow> \<not> P i)"
  by (auto simp: find_None_iff)


lemma limbs_less:
  assumes "length p = length q" "length p \<le> 8" "i < length p" "p ! i < q ! i"
    "\<forall>j. i < j \<and> j < length p \<longrightarrow> p ! j = q ! j"
  shows "limbs_word p < limbs_word q"
  using assms
proof (induction p q arbitrary: i rule: list_induct2)
  case Nil
  then show ?case by simp
next
  case (Cons x p y q)
  have len: "length p \<le> 7" "length q \<le> 7" using Cons.prems Cons.hyps by simp_all
  show ?case
  proof (cases i)
    case 0
    have "p = q"
      using Cons.hyps Cons.prems(4) 0 by (intro nth_equalityI) force+
    then show ?thesis
      using Cons.prems 0 len unat_limbs_Cons [of p x] unat_limbs_Cons [of q y]
      by (simp add: word_less_nat_alt)
  next
    case (Suc i')
    have "p ! j = q ! j" if "i' < j" "j < length p" for j
      using Cons.prems(4) that Suc by (metis Suc_less_eq length_Cons nth_Cons_Suc)
    then have "limbs_word p < limbs_word q"
      using Cons.IH [of i'] Cons.prems Suc len by simp
    then have "unat x + 2 ^ 32 * unat (limbs_word p) < 2 ^ 32 * unat (limbs_word q)"
      using unat_less_pow [of x] by (simp add: word_less_nat_alt)
    then show ?thesis
      using len unat_limbs_Cons [of p x] unat_limbs_Cons [of q y]
      by (simp add: word_less_nat_alt)
  qed
qed

lemma au_compare_word:
  assumes "au_ok a" "au_ok b"
  shows "au_compare_to a b =
    (if au_word a < au_word b then Less else if au_word a = au_word b then Equal else Greater)"
proof (cases "find (\<lambda>i. pn a ! i < pn b ! i \<or> pn a ! i > pn b ! i) (rev [0..<WIDTH])")
  case None
  then have "pn a = pn b"
    using assms by (intro nth_equalityI) (auto simp: find_rev_upt_None au_ok_def)
  with None show ?thesis by (simp add: au_compare_to_def au_word_def)
next
  case (Some i)
  then have i: "i < WIDTH" "pn a ! i < pn b ! i \<or> pn b ! i < pn a ! i"
    "\<forall>j. i < j \<and> j < WIDTH \<longrightarrow> pn a ! j = pn b ! j"
    by (auto simp: find_rev_upt_Some)
  with assms have "(pn a ! i < pn b ! i \<longrightarrow> au_word a < au_word b) \<and>
    (pn b ! i < pn a ! i \<longrightarrow> au_word b < au_word a)"
    using limbs_less [of "pn a" "pn b" i] limbs_less [of "pn b" "pn a" i]
    by (simp add: au_ok_def au_word_def WIDTH_def)
  with i Some show ?thesis by (auto simp: au_compare_to_def)
qed

lemma u32_bits:
  fixes x :: u32
  assumes "x \<noteq> 0"
  defines "t \<equiv> (case find (\<lambda>n. x AND push_bit n 1 \<noteq> 0) (rev [1..<32]) of None \<Rightarrow> 0 | Some n \<Rightarrow> n)"
  shows "bit x t \<and> t < 32 \<and> (\<forall>k>t. \<not> bit x k)"
proof -
  have "x AND push_bit n 1 \<noteq> 0 \<longleftrightarrow> bit x n" for n
    using bit_iff_and_push_bit_not_eq_0 [of x n] by simp
  then have t: "t = (case find (bit x) (rev [1..<32]) of None \<Rightarrow> 0 | Some n \<Rightarrow> n)"
    by (simp add: t_def)
  have lt: "n < 32" if "bit x n" for n
    using that not_bit_u32 [of n x] by (blast intro: leI)
  have some: "\<exists>n. bit x n"
    using assms(1) by (auto simp: bit_eq_iff)
  show ?thesis
  proof (cases "find (bit x) (rev [1..<32])")
    case None
    then have no: "\<not> bit x n" if "1 \<le> n" for n
      using that lt [of n] by (auto simp: find_rev_upt_None)
    obtain n where "bit x n" using some ..
    with no [of n] have "bit x 0" by (cases "n = 0") auto
    with None no show ?thesis by (simp add: t)
  next
    case (Some n)
    then have "bit x n" "\<forall>j. n < j \<and> j < 32 \<longrightarrow> \<not> bit x j"
      unfolding find_rev_upt_Some by blast+
    with Some show ?thesis
      using lt by (auto simp: t simp del: One_nat_def)
  qed
qed

lemma au_bits_word:
  assumes "au_ok a"
  shows "unat (au_word a) < 2 ^ au_bits a \<and> (au_bits a = 0 \<longleftrightarrow> au_word a = 0) \<and>
    (au_bits a \<noteq> 0 \<longrightarrow> 2 ^ (au_bits a - 1) \<le> unat (au_word a)) \<and> au_bits a \<le> 256"
proof (cases "find (\<lambda>pos. pn a ! pos \<noteq> 0) (rev [0..<WIDTH])")
  case None
  then have "au_word a = 0"
    using assms by (auto simp: find_rev_upt_None au_word_def au_ok_def limbs_word_def)
  with None show ?thesis by (simp add: au_bits_def)
next
  case (Some pos)
  define t where "t = (case find (\<lambda>n. pn a ! pos AND push_bit n 1 \<noteq> 0) (rev [1..<32]) of
    None \<Rightarrow> 0 | Some n \<Rightarrow> n)"
  have bits: "au_bits a = 32 * pos + t + 1"
    using Some by (auto simp: au_bits_def t_def split: option.splits)
  have pos: "pos < 8" "pn a ! pos \<noteq> 0" "\<And>j. pos < j \<Longrightarrow> j < 8 \<Longrightarrow> pn a ! j = 0"
    using Some by (auto simp: find_rev_upt_Some WIDTH_def)
  have t: "bit (pn a ! pos) t" "t < 32" "\<And>k. t < k \<Longrightarrow> \<not> bit (pn a ! pos) k"
    using u32_bits [OF pos(2)] by (simp_all add: t_def)
  have top: "bit (au_word a) (32 * pos + t)"
    using pos t assms by (simp add: au_word_def bit_limbs_word au_ok_def WIDTH_def)
  have "\<not> bit (au_word a) k" if "32 * pos + t + 1 \<le> k" for k
  proof (cases "k < 256")
    case True
    have "pos \<le> k div 32" using that by linarith
    moreover have "t < k mod 32" if "k div 32 = pos"
      using that \<open>32 * pos + t + 1 \<le> k\<close> div_mult_mod_eq [of k 32] by linarith
    ultimately show ?thesis
      using pos(3) [of "k div 32"] t(3) [of "k mod 32"] True assms
      by (cases "k div 32 = pos") (auto simp: au_word_def bit_limbs_word div_32_less)
  qed (simp add: impossible_bit)
  then have "unat (au_word a) < 2 ^ (32 * pos + t + 1)"
    by (simp only: unat_less_exp_iff) blast
  then show ?thesis
    using bit_exp_le_unat [OF top] pos(1) t(2) by (auto simp: bits)
qed


section \<open>Division\<close>

lemma limbs_set_bit:
  assumes "length p = WIDTH" "n < 256"
  defines "p' \<equiv> p[n div 32 := p ! (n div 32) OR push_bit (n mod 32) 1]"
  shows "length p' = WIDTH \<and> limbs_word p' = limbs_word p OR 2 ^ n"
proof -
  have len: "length p' = WIDTH" using assms by simp
  have "bit (limbs_word p') k \<longleftrightarrow> bit (limbs_word p) k \<or> k = n" if "k < 256" for k
  proof -
    have "k = n \<longleftrightarrow> k div 32 = n div 32 \<and> k mod 32 = n mod 32"
      by (metis div_mult_mod_eq)
    then show ?thesis
      using that assms len
      by (auto simp: bit_limbs_word nth_list_update bit_simps WIDTH_def div_32_less)
  qed
  then have "limbs_word p' = limbs_word p OR 2 ^ n"
    using assms(2) by (intro bit_word_eqI) (auto simp: bit_or_iff bit_exp_iff)
  with len show ?thesis by simp
qed

lemma or_exp_add:
  assumes "2 ^ (n + 1) dvd unat (w :: u256)" "n < 256"
  shows "unat (w OR 2 ^ n) = unat w + 2 ^ n"
proof -
  obtain c where c: "unat w = 2 ^ (n + 1) * c" using assms by blast
  have "\<not> odd (unat w div 2 ^ n)"
    by (simp add: c power_add)
  then have "\<not> bit (unat w) n"
    by (simp add: bit_iff_odd)
  then have nb: "\<not> bit w n"
    using assms(2) by (simp add: bit_unsigned_iff)
  then have "w AND 2 ^ n = 0"
    by (intro bit_eqI) (auto simp: bit_simps)
  then have "w OR 2 ^ n = w + 2 ^ n"
    by (simp add: disjunctive_add_eq_or)
  moreover have "unat w + 2 ^ n < 2 ^ 256"
  proof -
    have pw: "2 ^ (n + 1) * (2::nat) ^ (255 - n) = 2 ^ 256"
      using assms(2) by (simp flip: power_add)
    have "2 ^ (n + 1) * c < 2 ^ (n + 1) * 2 ^ (255 - n)"
      using unat_less_pow [of w] unfolding pw c [symmetric] by simp
    then have "c + 1 \<le> 2 ^ (255 - n)" unfolding mult_less_cancel1 by simp
    then have "2 ^ (n + 1) * (c + 1) \<le> (2 ^ 256 :: nat)"
      unfolding pw [symmetric] by (rule mult_le_mono2)
    then have "unat w + 2 * 2 ^ n \<le> 2 ^ 256"
      by (simp add: c)
    moreover have "(0::nat) < 2 ^ n" by simp
    ultimately show ?thesis by linarith
  qed
  moreover have "unat ((2 :: u256) ^ n) = 2 ^ n"
    using unat_push_bit [of n "1 :: u256"] assms(2) power_strict_increasing [of n 256 "2::nat"]
    by (simp add: push_bit_eq_mult)
  ultimately show ?thesis
    by (simp add: unat_word_ariths)
qed

text \<open>
  The invariant of the loop: the divisor is \<open>D\<close> shifted to the current place, the remainder
  is below twice that, and quotient and remainder make up the dividend.
\<close>

lemma div_loop_correct:
  assumes "au_ok num" "au_ok dv" "length res = WIDTH" "k \<le> 256"
    and "0 < k \<Longrightarrow> unat (au_word dv) = D * 2 ^ (k - 1)" "unat (au_word num) < D * 2 ^ k"
    and "2 ^ k dvd unat (limbs_word res)"
    and "unat (limbs_word res) * D + unat (au_word num) = N"
  shows "length (div_loop res num dv (int k - 1)) = WIDTH \<and>
    (\<exists>r<D. unat (limbs_word (div_loop res num dv (int k - 1))) * D + r = N)"
  using assms
proof (induction k arbitrary: res num dv)
  case 0
  then show ?case by (auto simp: div_loop.simps)
next
  case (Suc k)
  have dv: "unat (au_word dv) = D * 2 ^ k" using Suc.prems by simp
  have shr: "au_ok (au_shr dv 1)" "0 < k \<Longrightarrow> unat (au_word (au_shr dv 1)) = D * 2 ^ (k - 1)"
    using au_shr_word [OF Suc.prems(2), of 1] dv
    by (cases k; simp add: unat_drop_bit)+
  have dvd: "2 ^ k dvd unat (limbs_word res)"
    using Suc.prems(7) by (rule power_le_dvd) simp
  define res' where "res' = res[k div 32 := res ! (k div 32) OR push_bit (k mod 32) 1]"
  have res': "length res' = WIDTH" "unat (limbs_word res') = unat (limbs_word res) + 2 ^ k"
    using Suc.prems limbs_set_bit [of res k] or_exp_add [of k "limbs_word res"]
    by (simp_all add: res'_def)
  show ?case
  proof (cases "au_word num < au_word dv")
    case True
    then have "unat (au_word num) < D * 2 ^ k" using dv by (simp add: word_less_nat_alt)
    with True show ?thesis
      using Suc.IH [OF Suc.prems(1) shr(1) Suc.prems(3) _ shr(2)] Suc.prems dvd
      by (simp add: div_loop.simps [of res] au_compare_word)
  next
    case False
    then have le: "D * 2 ^ k \<le> unat (au_word num)"
      using dv by (simp add: word_less_nat_alt)
    have sub: "au_ok (au_sub num dv)" "unat (au_word (au_sub num dv)) = unat (au_word num) - D * 2 ^ k"
      using au_sub_word [OF Suc.prems(1,2)] False dv by (simp_all add: unat_sub)
    have "unat (au_word (au_sub num dv)) < D * 2 ^ k"
      using Suc.prems(6) le sub by simp
    moreover have "2 ^ k dvd unat (limbs_word res')"
      using dvd res' by simp
    moreover have "unat (limbs_word res') * D + unat (au_word (au_sub num dv)) = N"
      using Suc.prems(8) le res' sub by (simp add: algebra_simps)
    ultimately show ?thesis
      using Suc.IH [OF sub(1) shr(1) res'(1) _ shr(2)] False Suc.prems
      by (simp add: div_loop.simps [of res] au_compare_word res'_def)
  qed
qed

lemma au_from_u64_word: "au_ok (au_from_u64 b) \<and> au_word (au_from_u64 b) = ucast b"
proof -
  have "bit (au_word (au_from_u64 b)) k \<longleftrightarrow> bit b k" if "k < 256" for k
  proof -
    consider "k < 32" | "32 \<le> k" "k < 64" | "64 \<le> k" by linarith
    then show ?thesis
    proof cases
      case 2
      then have "k div 32 = 1 \<and> k mod 32 = k - 32" by (intro divmod_eqI) auto
      moreover have "k - 32 < 32" using 2 by simp
      ultimately show ?thesis using 2
        by (simp add: au_word_def au_from_u64_def bit_limbs_word WIDTH_def bit_simps)
    next
      case 3
      then have "2 \<le> k div 32" by linarith
      with 3 that show ?thesis
        by (simp add: au_word_def au_from_u64_def bit_limbs_word WIDTH_def bit_simps div_32_less
            nth_list_update impossible_bit)
    qed (use that in \<open>simp add: au_word_def au_from_u64_def bit_limbs_word WIDTH_def bit_simps\<close>)
  qed
  then show ?thesis
    by (auto simp: au_ok_def au_from_u64_def bit_simps intro!: bit_word_eqI)
qed

lemma au_zero_word: "au_ok au_zero \<and> au_word au_zero = 0"
  by (simp add: au_ok_def au_zero_def au_word_def limbs_word_def)

lemma unat_shl:
  assumes "au_ok a" "unat (au_word a) * 2 ^ n < 2 ^ 256"
  shows "unat (au_word (au_shl a n)) = unat (au_word a) * 2 ^ n"
  using assms au_shl_word [of a n] by (simp add: unat_push_bit)

lemma au_div_word:
  assumes "au_ok a" "au_ok b"
  shows "au_word b = 0 \<Longrightarrow> au_div a b = Inl DivisionByZero"
    and "au_word b \<noteq> 0 \<Longrightarrow>
      \<exists>q. au_div a b = Inr q \<and> au_ok q \<and> au_word q = au_word a div au_word b"
proof -
  let ?A = "unat (au_word a)" and ?D = "unat (au_word b)"
  note A = au_bits_word [OF assms(1)] and B = au_bits_word [OF assms(2)]
  show "au_word b = 0 \<Longrightarrow> au_div a b = Inl DivisionByZero"
    using B by (simp add: au_div_def)
  assume "au_word b \<noteq> 0"
  then have b0: "au_bits b \<noteq> 0" and D: "2 ^ (au_bits b - 1) \<le> ?D" using B by auto
  show "\<exists>q. au_div a b = Inr q \<and> au_ok q \<and> au_word q = au_word a div au_word b"
  proof (cases "au_bits b > au_bits a")
    case True
    have "(2::nat) ^ au_bits a \<le> 2 ^ (au_bits b - 1)"
      using True by (intro power_increasing) simp_all
    then have "?A < ?D" using A D by linarith
    then have "au_word a div au_word b = 0"
      by (simp add: word_unat_eq_iff unat_div_distrib)
    with True b0 show ?thesis
      using au_zero_word by (simp add: au_div_def)
  next
    case False
    define s where "s = au_bits a - au_bits b"
    have bs: "au_bits b + s = au_bits a" using False by (simp add: s_def)
    have "?D * 2 ^ s < 2 ^ au_bits b * 2 ^ s" using B by simp
    also have "\<dots> \<le> 2 ^ 256"
      using A unfolding power_add [symmetric] bs by (intro power_increasing) simp_all
    finally have shl: "unat (au_word (au_shl b s)) = ?D * 2 ^ s"
      by (rule unat_shl [OF assms(2)])
    have "au_bits b - 1 + (s + 1) = au_bits a" using b0 bs by simp
    then have "?A < 2 ^ (au_bits b - 1) * 2 ^ (s + 1)"
      using A unfolding power_add [symmetric] by simp
    also have "\<dots> \<le> ?D * 2 ^ (s + 1)" using D by simp
    finally have lt: "?A < ?D * 2 ^ (s + 1)" .
    let ?q = "div_loop (replicate WIDTH 0) a (au_shl b s) (int s)"
    have "length ?q = WIDTH \<and> (\<exists>r<?D. unat (limbs_word ?q) * ?D + r = ?A)"
      using div_loop_correct [of a "au_shl b s" "replicate WIDTH 0" "s + 1" ?D ?A]
        assms au_shl_word [OF assms(2), of s] shl lt A bs b0
      by (simp add: limbs_word_def [of "replicate _ _"])
    then obtain r where q: "length ?q = WIDTH" "r < ?D" "unat (limbs_word ?q) * ?D + r = ?A" by blast
    then have "?A div ?D = unat (limbs_word ?q)"
      by (metis add.commute add_0 div_less div_mult_self3 less_nat_zero_code)
    then have "au_word \<lparr>pn = ?q\<rparr> = au_word a div au_word b"
      by (simp add: au_word_def word_unat_eq_iff unat_div_distrib)
    with q False b0 show ?thesis
      by (simp add: au_div_def Let_def au_ok_def s_def)
  qed
qed


section \<open>The compact encoding\<close>

text \<open>What an \<open>nBits\<close> value stands for, as a number of any size.\<close>

definition compact_value :: "u32 \<Rightarrow> nat" where
  "compact_value c =
     (let s = unat c div 2 ^ 24; m = unat c mod 2 ^ 23 in
      if s \<le> 3 then m div 256 ^ (3 - s) else m * 256 ^ (s - 3))"

lemma exp_256: "(2::nat) ^ (8 * n) = 256 ^ n"
  by (simp add: power_mult)

lemma unat_and_7fffff: "unat ((c :: u32) AND 0x007fffff) = unat c mod 2 ^ 23"
  using unat_and_mask [of c 23] by (simp add: mask_eq_exp_minus_1)

lemma compact_overflow:
  fixes m s :: nat
  assumes "m < 2 ^ 23"
  shows "2 ^ 256 \<le> m * 256 ^ (s - 3) \<longleftrightarrow>
    m \<noteq> 0 \<and> (s > 34 \<or> m > 0xff \<and> s > 33 \<or> m > 0xffff \<and> s > 32)"
proof -
  consider "s \<le> 32" | "s = 33" | "s = 34" | "s > 34" by linarith
  then show ?thesis
  proof cases
    case 1
    then have "(256::nat) ^ (s - 3) \<le> 256 ^ 29" by (intro power_increasing) simp_all
    then have "m * 256 ^ (s - 3) \<le> 2 ^ 23 * 256 ^ 29" using assms by (intro mult_le_mono) simp_all
    with 1 show ?thesis by simp
  next
    case 4
    then have "(256::nat) ^ 32 \<le> 256 ^ (s - 3)" by (intro power_increasing) simp_all
    then have "m \<noteq> 0 \<Longrightarrow> 1 * 256 ^ 32 \<le> m * 256 ^ (s - 3)" by (intro mult_le_mono) simp_all
    with 4 show ?thesis by (cases "m = 0") auto
  qed auto
qed

lemma set_compact_word:
  assumes "set_compact c = (a, negative, overflow)"
  shows "au_ok a \<and> unat (au_word a) = compact_value c mod 2 ^ 256 \<and>
    (overflow \<longleftrightarrow> 2 ^ 256 \<le> compact_value c) \<and> (negative \<longleftrightarrow> compact_value c \<noteq> 0 \<and> bit c 23)"
proof -
  define s m where "s = unat c div 2 ^ 24" and "m = unat c mod 2 ^ 23"
  have m: "m < 2 ^ 23" and nw0: "unat (c AND 0x007fffff) = m"
    by (simp_all add: m_def unat_and_7fffff)
  have s: "unat (drop_bit 24 c) = s" by (simp add: s_def unat_drop_bit)
  define w where "w = (if s \<le> 3 then drop_bit (8 * (3 - s)) (c AND 0x007fffff) else c AND 0x007fffff)"
  have w: "unat w = (if s \<le> 3 then m div 256 ^ (3 - s) else m)"
    unfolding w_def using nw0 by (simp add: unat_drop_bit exp_256 del: drop_bit_and)
  then have wm: "unat w \<le> m" by simp
  have fu: "unat (au_word (au_from_u64 (ucast w))) = unat w"
    using au_from_u64_word [of "ucast w"] by (simp add: unat_ucast_widen)
  have a: "a = (if s \<le> 3 then au_from_u64 (ucast w) else au_shl (au_from_u64 (ucast w)) (8 * (s - 3)))"
    and n: "negative = (w \<noteq> 0 \<and> c AND 0x00800000 \<noteq> 0)"
    and ov: "overflow = (w \<noteq> 0 \<and> (s > 34 \<or> (w > 0xff \<and> s > 33) \<or> (w > 0xffff \<and> s > 32)))"
    using assms by (auto simp: set_compact_def Let_def s w_def)
  have val: "compact_value c = (if s \<le> 3 then unat w else unat w * 256 ^ (s - 3))"
    using w by (simp add: compact_value_def Let_def s_def m_def)
  have "unat (au_word a) = compact_value c mod 2 ^ 256"
    using fu m wm au_from_u64_word [of "ucast w"]
      au_shl_word [of "au_from_u64 (ucast w)" "8 * (s - 3)"]
    by (auto simp: a val unat_push_bit exp_256)
  moreover have "overflow \<longleftrightarrow> 2 ^ 256 \<le> compact_value c"
    using compact_overflow [of "unat w" s] wm m
    by (auto simp: ov val word_less_nat_alt word_unat_eq_iff [of w 0])
  moreover have "negative \<longleftrightarrow> compact_value c \<noteq> 0 \<and> bit c 23"
    using bit_iff_and_push_bit_not_eq_0 [of c 23]
    by (auto simp: n val word_unat_eq_iff [of w 0])
  ultimately show ?thesis
    using au_from_u64_word [of "ucast w"] au_shl_word [of "au_from_u64 (ucast w)" "8 * (s - 3)"]
    by (simp add: a)
qed


lemma au_low64_word: "au_ok a \<Longrightarrow> au_low64 a = ucast (au_word a)"
proof (rule bit_word_eqI)
  fix k :: nat assume ok: "au_ok a" and "k < LENGTH(64)"
  then have k: "k < 64" by simp
  show "bit (au_low64 a) k \<longleftrightarrow> bit (ucast (au_word a) :: u64) k"
  proof (cases "k < 32")
    case False
    with k have "k div 32 = 1 \<and> k mod 32 = k - 32" by (intro divmod_eqI) auto
    moreover have "k - 32 < 32" using k by simp
    ultimately show ?thesis
      using ok k False
      by (auto simp: au_low64_def au_word_def bit_limbs_word au_ok_def WIDTH_def bit_simps not_bit_u32)
  qed (use ok in \<open>auto simp: au_low64_def au_word_def bit_limbs_word au_ok_def WIDTH_def bit_simps\<close>)
qed

text \<open>
  The mantissa before normalisation: the three most significant bytes of the number, which has
  \<open>n\<close> bytes, shifted up when there are fewer than three.
\<close>

definition compact_mantissa :: "nat \<Rightarrow> nat \<Rightarrow> nat" where
  "compact_mantissa n v = (if n \<le> 3 then v * 256 ^ (3 - n) else v div 256 ^ (n - 3))"

lemma compact_mantissa_less:
  assumes "v < 256 ^ n"
  shows "compact_mantissa n v < 2 ^ 24"
proof (cases "n \<le> 3")
  case True
  have "v * 256 ^ (3 - n) < 256 ^ n * 256 ^ (3 - n)" using assms by simp
  also have "\<dots> = 2 ^ 24" using True by (simp flip: power_add)
  finally show ?thesis using True by (simp add: compact_mantissa_def)
next
  case False
  have "(256::nat) ^ n = 2 ^ 24 * 256 ^ (n - 3)"
    using False power_add [of "256::nat" 3 "n - 3"] by simp
  then have "v div 256 ^ (n - 3) < 2 ^ 24"
    using assms by (simp add: less_mult_imp_div_less)
  with False show ?thesis by (simp add: compact_mantissa_def)
qed

lemma byte_size_bound:
  assumes "au_ok a"
  defines "n \<equiv> (au_bits a + 7) div 8"
  shows "unat (au_word a) < 256 ^ n \<and> n \<le> 32 \<and> (au_word a \<noteq> 0 \<longrightarrow> 256 ^ (n - 1) \<le> unat (au_word a) \<and> n \<noteq> 0)"
proof -
  note B = au_bits_word [OF assms(1)]
  have "(2::nat) ^ au_bits a \<le> 2 ^ (8 * n)"
    unfolding n_def by (rule power_increasing) linarith+
  then have "unat (au_word a) < 256 ^ n" using B by (simp add: exp_256)
  moreover have "n \<le> 32" using B unfolding n_def by linarith
  moreover have "256 ^ (n - 1) \<le> unat (au_word a) \<and> n \<noteq> 0" if "au_word a \<noteq> 0"
  proof -
    have b: "au_bits a \<noteq> 0" "2 ^ (au_bits a - 1) \<le> unat (au_word a)" using B that by auto
    have "(2::nat) ^ (8 * (n - 1)) \<le> 2 ^ (au_bits a - 1)"
      unfolding n_def using b(1) by (intro power_increasing) linarith+
    with b show ?thesis unfolding n_def exp_256 by linarith
  qed
  ultimately show ?thesis by blast
qed

lemma unat_or_push24:
  assumes "unat (c :: u32) < 2 ^ 23" "n < 256"
  shows "unat (c OR push_bit 24 (of_nat n)) = unat c + n * 2 ^ 24"
proof -
  have "\<not> bit c k" if "24 \<le> k" for k
    using not_bit_of_unat_less [OF assms(1), of k] that by simp
  then have "c AND push_bit 24 (of_nat n) = 0"
    by (intro bit_eqI) (auto simp: bit_simps)
  then have "c OR push_bit 24 (of_nat n) = c + push_bit 24 (of_nat n)"
    by (simp add: disjunctive_add_eq_or)
  moreover have "unat (push_bit 24 (of_nat n) :: u32) = n * 2 ^ 24"
    using assms(2) by (simp add: unat_push_bit unat_of_nat)
  ultimately show ?thesis
    using assms by (simp add: unat_word_ariths)
qed

lemma get_compact_parts:
  assumes "au_ok a"
  defines "n \<equiv> (au_bits a + 7) div 8"
  defines "m \<equiv> compact_mantissa n (unat (au_word a))"
  shows "unat (get_compact a False) =
    (if 2 ^ 23 \<le> m then m div 256 + (n + 1) * 2 ^ 24 else m + n * 2 ^ 24)"
proof -
  note N = byte_size_bound [OF assms(1), folded n_def]
  have m: "m < 2 ^ 24" unfolding m_def using N by (intro compact_mantissa_less) simp
  define c0 :: u32 where "c0 = (if n \<le> 3 then ucast (push_bit (8 * (3 - n)) (au_low64 a))
    else ucast (au_low64 (au_shr a (8 * (n - 3)))))"
  have c0: "unat c0 = m"
  proof (cases "n \<le> 3")
    case True
    then have "(256::nat) ^ n \<le> 256 ^ 3" by (intro power_increasing) simp_all
    then have "unat (au_word a) < 2 ^ 24" using N by simp
    then have "unat (au_low64 a) = unat (au_word a)"
      using assms by (simp add: au_low64_word unat_ucast)
    then show ?thesis
      using True m by (simp add: c0_def m_def compact_mantissa_def unat_ucast unat_push_bit exp_256)
  next
    case False
    then show ?thesis
      using m au_shr_word [OF assms(1), of "8 * (n - 3)"]
      by (simp add: c0_def m_def compact_mantissa_def au_low64_word unat_ucast unat_drop_bit exp_256)
  qed
  have bit23: "c0 AND 0x00800000 \<noteq> 0 \<longleftrightarrow> 2 ^ 23 \<le> m"
  proof -
    have "bit c0 23 \<longleftrightarrow> 2 ^ 23 \<le> m"
      using bit_top_iff [of c0 23] m by (simp add: c0)
    then show ?thesis
      using bit_iff_and_push_bit_not_eq_0 [of c0 23] by simp
  qed
  have "unat (drop_bit 8 c0) = m div 256" by (simp add: unat_drop_bit c0)
  moreover have "n + 1 < 256" using N by simp
  ultimately show ?thesis
    using m c0 bit23 unat_or_push24 [of c0 n] unat_or_push24 [of "drop_bit 8 c0" "n + 1"]
    by (auto simp: get_compact_def Let_def simp flip: n_def c0_def)
qed


text \<open>The value of the encoding: the number with the low bytes cleared.\<close>

definition compact_drop :: "nat \<Rightarrow> nat \<Rightarrow> nat" where
  "compact_drop n m = (if 2 ^ 23 \<le> m then n + 1 else n) - 3"

lemma compact_value_parts:
  assumes "unat c = m + n * 2 ^ 24" "m < 2 ^ 23"
  shows "compact_value c = (if n \<le> 3 then m div 256 ^ (3 - n) else m * 256 ^ (n - 3))"
proof -
  have "(m + n * 2 ^ 24) div 2 ^ 24 = n" using assms(2) by simp
  moreover have "m + n * 2 ^ 24 = m + 2 * n * 2 ^ 23" by simp
  then have "(m + n * 2 ^ 24) mod 2 ^ 23 = m"
    using assms(2) by (simp only: mod_mult_self1 mod_less)
  ultimately show ?thesis by (simp only: compact_value_def assms(1) Let_def)
qed

lemma get_compact_value:
  assumes "au_ok a"
  defines "n \<equiv> (au_bits a + 7) div 8"
  defines "m \<equiv> compact_mantissa n (unat (au_word a))"
  shows "compact_value (get_compact a False) =
    unat (au_word a) div 256 ^ compact_drop n m * 256 ^ compact_drop n m \<and>
    \<not> bit (get_compact a False) 23"
proof -
  let ?A = "unat (au_word a)" and ?c = "get_compact a False"
  define m' n' where mn: "m' = (if 2 ^ 23 \<le> m then m div 256 else m)" "n' = (if 2 ^ 23 \<le> m then n + 1 else n)"
  have m: "m < 2 ^ 24"
    unfolding m_def using byte_size_bound [OF assms(1), folded n_def] by (intro compact_mantissa_less) simp
  have m': "m' < 2 ^ 23" unfolding mn using m by (auto simp: div_less_iff_less_mult)
  have parts: "unat ?c = m' + n' * 2 ^ 24"
    using get_compact_parts [OF assms(1), folded n_def, folded m_def] by (simp add: mn)
  have "\<not> odd ((m' + n' * 2 ^ 24) div 2 ^ 23)"
  proof -
    have "m' + n' * 2 ^ 24 = m' + 2 * n' * 2 ^ 23" by simp
    then have "(m' + n' * 2 ^ 24) div 2 ^ 23 = 2 * n'"
      using m' by (simp only: div_mult_self1 div_less)
    then show ?thesis by simp
  qed
  then have b23: "\<not> bit ?c 23"
    unfolding bit_unat parts .
  have "compact_value ?c = ?A div 256 ^ (n' - 3) * 256 ^ (n' - 3)"
  proof (cases "n \<le> 3")
    case True
    have "m = ?A * 256 ^ (3 - n)" using True by (simp add: m_def compact_mantissa_def)
    moreover have "n = 3 \<or> n \<le> 2" using True by linarith
    moreover have "(256::nat) ^ (3 - n) = 256 * 256 ^ (2 - n)" if "n \<le> 2"
      using that by (simp add: Suc_diff_le flip: power_Suc)
    ultimately show ?thesis
      unfolding compact_value_parts [OF parts m']
      using True by (auto simp: mn simp flip: div_mult2_eq)
  next
    case False
    have "m = ?A div 256 ^ (n - 3)" using False by (simp add: m_def compact_mantissa_def)
    moreover have "n - 2 = Suc (n - 3)" using False by linarith
    then have "(256::nat) ^ (n - 2) = 256 ^ (n - 3) * 256" by simp
    ultimately show ?thesis
      unfolding compact_value_parts [OF parts m']
      using False by (auto simp: mn simp flip: div_mult2_eq)
  qed
  with b23 show ?thesis by (simp add: compact_drop_def mn)
qed


lemma compact_drop_bound:
  assumes "au_ok a"
  defines "n \<equiv> (au_bits a + 7) div 8"
  defines "m \<equiv> compact_mantissa n (unat (au_word a))"
  defines "k \<equiv> compact_drop n m"
  assumes "k \<noteq> 0"
  shows "2 ^ 15 * 256 ^ k \<le> unat (au_word a)"
proof -
  let ?A = "unat (au_word a)"
  note B = byte_size_bound [OF assms(1), folded n_def]
  show ?thesis
  proof (cases "2 ^ 23 \<le> m")
    case True
    then have k: "k = Suc (n - 3)" "3 \<le> n" using \<open>k \<noteq> 0\<close> by (auto simp: k_def compact_drop_def)
    then have "m = ?A div 256 ^ (n - 3)" by (auto simp: m_def compact_mantissa_def)
    then have "2 ^ 23 * 256 ^ (n - 3) \<le> ?A div 256 ^ (n - 3) * 256 ^ (n - 3)" using True by simp
    also have "\<dots> \<le> ?A" by simp
    finally show ?thesis using k by simp
  next
    case False
    then have k: "n - 1 = k + 2" using \<open>k \<noteq> 0\<close> by (auto simp: k_def compact_drop_def)
    have "au_word a \<noteq> 0"
      using k au_bits_word [OF assms(1)] by (auto simp: n_def)
    then have "256 ^ (k + 2) \<le> ?A" using B k by simp
    then show ?thesis by (simp add: power_add)
  qed
qed

lemma trunc_exact:
  assumes "A = m * 256 ^ j" "m < 2 ^ 23" "k \<noteq> 0 \<Longrightarrow> 2 ^ 15 * 256 ^ k \<le> A"
  shows "A div 256 ^ k * 256 ^ k = (A :: nat)"
proof (cases "k \<le> j")
  case True
  then have "256 ^ k dvd A" using assms(1) by (simp add: le_imp_power_dvd)
  then show ?thesis by simp
next
  case False
  then have "2 ^ 15 * 256 ^ k \<le> A" using assms by simp
  moreover have "(256::nat) ^ Suc j \<le> 256 ^ k" using False by (intro power_increasing) simp_all
  ultimately have "2 ^ 15 * 256 ^ Suc j \<le> m * 256 ^ j"
    using assms(1) by (meson mult_le_mono2 order_trans)
  moreover have "m * 256 ^ j < 2 ^ 23 * 256 ^ j" using assms(2) by simp
  ultimately show ?thesis by simp
qed

lemma compact_value_form: "\<exists>m j. compact_value c = m * 256 ^ j \<and> m < 2 ^ 23"
proof -
  let ?m = "unat c mod 2 ^ 23"
  have "?m div q < 2 ^ 23" for q
    by (rule order.strict_trans1 [OF div_le_dividend]) simp
  then show ?thesis
    unfolding compact_value_def Let_def
    by (cases "unat c div 2 ^ 24 \<le> 3")
      (metis mult.right_neutral power_0, metis mod_less_divisor zero_less_numeral zero_less_power)
qed

lemma set_get_compact:
  assumes "au_ok a" "set_compact (get_compact a False) = (b, negative, overflow)"
  shows "\<not> negative \<and> \<not> overflow \<and> au_ok b \<and>
    (\<exists>k. unat (au_word b) = unat (au_word a) div 256 ^ k * 256 ^ k \<and>
       (k \<noteq> 0 \<longrightarrow> 2 ^ 15 * 256 ^ k \<le> unat (au_word a)))"
proof -
  define n where "n = (au_bits a + 7) div 8"
  define k where "k = compact_drop n (compact_mantissa n (unat (au_word a)))"
  note V = get_compact_value [OF assms(1), folded n_def, folded k_def]
  have "unat (au_word a) div 256 ^ k * 256 ^ k \<le> unat (au_word a)" by simp
  also have "\<dots> < 2 ^ 256" using unat_less_pow [of "au_word a"] by simp
  finally show ?thesis
    using set_compact_word [OF assms(2)] V
      compact_drop_bound [OF assms(1), folded n_def, folded k_def]
    by auto
qed

section \<open>Conversion from and to byte strings\<close>

lemma le_nat_limbs:
  "length p \<le> 8 \<Longrightarrow> le_nat (concat (map to_le_bytes p)) = unat (limbs_word p)"
proof (induction p)
  case Nil
  then show ?case by simp
next
  case (Cons x p)
  have "le_nat (to_le_bytes x) = unat x"
    using unat_less_pow [of x] by (simp add: to_le_bytes_def byte_simps)
  with Cons unat_limbs_Cons [of p x] show ?case
    by (simp add: le_nat_append)
qed

lemma length_concat_limbs [simp]: "length (concat (map to_le_bytes (p :: u32 list))) = 4 * length p"
  by (induction p) simp_all

lemma arith_to_uint256_concat:
  assumes "au_ok a"
  shows "arith_to_uint256 a = concat (map to_le_bytes (pn a))"
proof -
  have len: "length (pn a) = 8" using assms by (simp add: au_ok_def WIDTH_def)
  have "m \<le> 8 \<longrightarrow> foldl (\<lambda>data x. take (x * 4) data @ to_le_bytes (pn a ! x) @ drop (x * 4 + 4) data)
     (replicate 32 0) [0..<m] = concat (map to_le_bytes (take m (pn a))) @ replicate (32 - 4 * m) 0" for m
  proof (induction m)
    case (Suc m)
    show ?case
    proof
      assume "Suc m \<le> 8"
      with Suc len show "foldl (\<lambda>data x. take (x * 4) data @ to_le_bytes (pn a ! x) @ drop (x * 4 + 4) data)
        (replicate 32 0) [0..<Suc m] =
        concat (map to_le_bytes (take (Suc m) (pn a))) @ replicate (32 - 4 * Suc m) 0"
        by (simp add: take_Suc_conv_app_nth mult.commute)
    qed
  qed simp
  from this [of 8] len show ?thesis
    by (simp add: arith_to_uint256_def WIDTH_def)
qed

lemma le_nat_arith_to_uint256:
  "au_ok a \<Longrightarrow> length (arith_to_uint256 a) = 32 \<and> le_nat (arith_to_uint256 a) = unat (au_word a)"
  using le_nat_limbs [of "pn a"] by (simp add: arith_to_uint256_concat au_word_def au_ok_def WIDTH_def)


lemma uint256_to_arith_word:
  assumes "length d = 32"
  shows "au_ok (uint256_to_arith d) \<and> arith_to_uint256 (uint256_to_arith d) = d"
proof -
  let ?g = "\<lambda>x. from_le_bytes [d ! (x * 4), d ! (x * 4 + 1), d ! (x * 4 + 2), d ! (x * 4 + 3)] :: u32"
  let ?p = "pn (uint256_to_arith d)"
  have len: "length ?p = 8"
    using length_foldl_update [of "\<lambda>x y. ?g x" "replicate WIDTH 0"]
    by (simp add: uint256_to_arith_def WIDTH_def)
  have nth: "?p ! x = ?g x" if "x < 8" for x
    using that nth_foldl_update [of x "replicate WIDTH 0" "\<lambda>x y. ?g x" 8]
    by (simp add: uint256_to_arith_def WIDTH_def)
  have "concat (map to_le_bytes (take m ?p)) = take (4 * m) d" if "m \<le> 8" for m
    using that
  proof (induction m)
    case (Suc m)
    have "take (4 * Suc m) d = take (4 * m) d @ [d ! (m * 4), d ! (m * 4 + 1), d ! (m * 4 + 2), d ! (m * 4 + 3)]"
      using Suc.prems assms
      by (simp add: take_Suc_conv_app_nth numeral_eq_Suc mult.commute)
    with Suc len show ?case
      by (simp add: take_Suc_conv_app_nth nth byte_simps)
  qed simp
  from this [of 8] len assms show ?thesis
    using arith_to_uint256_concat [of "uint256_to_arith d"] by (simp add: au_ok_def WIDTH_def)
qed

lemma au_word_uint256:
  "length d = 32 \<Longrightarrow> unat (au_word (uint256_to_arith d)) = le_nat d"
  using uint256_to_arith_word [of d] le_nat_arith_to_uint256 [of "uint256_to_arith d"] by simp

lemma au_eq_iff: "au_ok a \<Longrightarrow> au_ok b \<Longrightarrow> au_word a = au_word b \<longleftrightarrow> a = b"
  using limbs_word_eq_iff [of "pn a" "pn b"] by (auto simp: au_ok_def au_word_def)

section \<open>Main results\<close>

text \<open>C32: \<open>ArithUint256\<close> is arithmetic modulo \<open>2^256\<close>. The limb-by-limb carry loops, borrow
  loops and shifts compute, on well-formed operands, exactly the sum, difference, product, negation
  and shifts of the 256-bit numbers the limbs stand for; no 64-bit accumulator overflows, and
  the comparison from the most significant limb is the numeric order.\<close>

theorem arith_refines_u256:
  assumes "au_ok a" "au_ok b"
  shows "au_word (au_add a b) = au_word a + au_word b \<and>
    au_word (au_sub a b) = au_word a - au_word b \<and>
    au_word (au_mul a b) = au_word a * au_word b \<and>
    au_word (au_mul_u32 a w) = au_word a * ucast w \<and>
    au_word (au_neg a) = - au_word a \<and>
    au_word (au_shl a n) = push_bit n (au_word a) \<and>
    au_word (au_shr a n) = drop_bit n (au_word a) \<and>
    au_compare_to a b =
      (if au_word a < au_word b then Less else if au_word a = au_word b then Equal else Greater)"
  using assms
  by (intro conjI au_compare_word)
    (simp_all add: au_add_word au_sub_word au_mul_word au_mul_u32_word au_neg_word au_shl_word
      au_shr_word)

lemma au_ok_from_u64: "au_ok (au_from_u64 n)"
  using au_from_u64_word by blast

theorem arith_refines_u256_witness:
  "au_word (au_mul (au_from_u64 3) (au_from_u64 5)) = au_word (au_from_u64 3) * au_word (au_from_u64 5)"
  using arith_refines_u256 [OF au_ok_from_u64 [of 3] au_ok_from_u64 [of 5]] by blast

text \<open>Long division terminates and returns the integer quotient of the two 256-bit numbers;
  it panics exactly on a zero divisor.\<close>

theorem arith_div_correct:
  assumes "au_ok a" "au_ok b"
  shows "(au_word b = 0 \<longrightarrow> au_div a b = Inl DivisionByZero) \<and>
    (au_word b \<noteq> 0 \<longrightarrow>
      (\<exists>q. au_div a b = Inr q \<and> au_ok q \<and> unat (au_word q) = unat (au_word a) div unat (au_word b)))"
  using au_div_word [OF assms] by (auto simp: unat_div_distrib)

theorem arith_div_correct_witness:
  "\<exists>q. au_div (au_from_u64 17) (au_from_u64 5) = Inr q \<and> au_ok q \<and> unat (au_word q) = 3"
  using arith_div_correct [OF au_ok_from_u64 [of 17] au_ok_from_u64 [of 5]]
  by (simp add: au_from_u64_word)

text \<open>Decoding an \<open>nBits\<close> field gives the number it stands for, modulo \<open>2^256\<close>; the
  overflow flag says exactly that the number does not fit 256 bits, and the negative flag that the sign bit
  is set on a number that is not zero.\<close>

theorem set_compact_exact:
  assumes "set_compact c = (a, negative, overflow)"
  shows "au_ok a \<and> unat (au_word a) = compact_value c mod 2 ^ 256 \<and>
    (overflow \<longleftrightarrow> 2 ^ 256 \<le> compact_value c) \<and> (negative \<longleftrightarrow> compact_value c \<noteq> 0 \<and> bit c 23)"
  using assms by (rule set_compact_word)

theorem set_compact_exact_witness:
  "au_ok (fst (set_compact 0x1d00ffff)) \<and>
   unat (au_word (fst (set_compact 0x1d00ffff))) = 0xffff * 256 ^ 26"
proof -
  have "compact_value 0x1d00ffff = 0xffff * 256 ^ 26" by (simp add: compact_value_def)
  then show ?thesis
    using set_compact_exact [of "0x1d00ffff" "fst (set_compact 0x1d00ffff)"
        "fst (snd (set_compact 0x1d00ffff))" "snd (snd (set_compact 0x1d00ffff))"]
    by simp
qed

text \<open>The compact encoding keeps the leading digits of a target. Encoding any 256-bit number and
  decoding the result is never negative and never overflows, never exceeds the number, and loses less
  than one part in \<open>2^15\<close>; a number that came out of a compact field is returned unchanged, so the
  target a header encodes is stable under re-encoding.\<close>

theorem compact_roundtrip:
  assumes "au_ok a" "set_compact (get_compact a False) = (b, negative, overflow)"
  shows "\<not> negative \<and> \<not> overflow \<and> unat (au_word b) \<le> unat (au_word a) \<and>
    (unat (au_word a) - unat (au_word b)) * 2 ^ 15 \<le> unat (au_word a) \<and>
    (set_compact c = (a, neg, False) \<longrightarrow> b = a)"
proof -
  let ?A = "unat (au_word a)"
  obtain k where ok: "au_ok b" and flags: "\<not> negative" "\<not> overflow"
    and B: "unat (au_word b) = ?A div 256 ^ k * 256 ^ k"
    and k: "k \<noteq> 0 \<Longrightarrow> 2 ^ 15 * 256 ^ k \<le> ?A"
    using set_get_compact [OF assms] by blast
  have "?A - unat (au_word b) = ?A mod 256 ^ k" unfolding B by (rule minus_div_mult_eq_mod)
  moreover have "?A mod 256 ^ k * 2 ^ 15 \<le> ?A"
  proof (cases "k = 0")
    case False
    have "?A mod 256 ^ k \<le> 256 ^ k" by simp
    then have "?A mod 256 ^ k * 2 ^ 15 \<le> 256 ^ k * 2 ^ 15" by (rule mult_le_mono1)
    then show ?thesis using k [OF False] by (simp only: mult.commute)
  qed simp
  moreover have "b = a" if "set_compact c = (a, neg, False)"
  proof -
    obtain m j where "compact_value c = m * 256 ^ j" "m < 2 ^ 23" using compact_value_form by blast
    then have "?A div 256 ^ k * 256 ^ k = ?A"
      using set_compact_word [OF that] k by (intro trunc_exact) auto
    then show ?thesis
      using au_eq_iff [OF ok assms(1)] B by (simp add: word_unat_eq_iff)
  qed
  ultimately show ?thesis using flags B by simp
qed

theorem compact_roundtrip_witness:
  "unat (au_word (fst (set_compact (get_compact (au_from_u64 7) False)))) \<le> 7"
  using compact_roundtrip [OF au_ok_from_u64 [of 7],
      of "fst (set_compact (get_compact (au_from_u64 7) False))"
        "fst (snd (set_compact (get_compact (au_from_u64 7) False)))"
        "snd (snd (set_compact (get_compact (au_from_u64 7) False)))" 0 False]
  by (simp add: au_from_u64_word)

end
