(* ===== verification/TxCheck.thy ===== *)
theory TxCheck
  imports Params ArithUint256
begin

text \<open>
  The checks that need no context, \<open>qubitcoin-consensus/src/check.rs\<close>: \<open>check_transaction\<close>,
  \<open>check_proof_of_work\<close>, \<open>get_block_subsidy\<close> and the counts of signature operations.
\<close>

section \<open>Definitions\<close>

definition MAX_BLOCK_WEIGHT :: nat where
  "MAX_BLOCK_WEIGHT = 4000000"

definition MAX_BLOCK_SERIALIZED_SIZE :: nat where
  "MAX_BLOCK_SERIALIZED_SIZE = 4000000"

definition MAX_BLOCK_SIGOPS_COST :: int where
  "MAX_BLOCK_SIGOPS_COST = 80000"

definition COINBASE_MATURITY :: int where
  "COINBASE_MATURITY = 100"

definition WITNESS_SCALE_FACTOR :: nat where
  "WITNESS_SCALE_FACTOR = 4"

text \<open>The buffer \<open>no_witness_buf\<close>.\<close>

definition no_witness_buf :: "transaction \<Rightarrow> bytes" where
  "no_witness_buf tx =
     fst (encode_u32 (tx_version tx)) @
     fst (write_compact_size (of_nat (length (tx_vin tx)))) @
     concat (map (\<lambda>input. fst (encode_outpoint (in_prevout input)) @
       fst (encode_script (in_script_sig input)) @ fst (encode_u32 (in_sequence input))) (tx_vin tx)) @
     fst (write_compact_size (of_nat (length (tx_vout tx)))) @
     concat (map (\<lambda>output. fst (encode_i64 (out_value output)) @
       fst (encode_script (out_script_pubkey output))) (tx_vout tx)) @
     fst (encode_u32 (tx_lock_time tx))"

text \<open>The loop over the outputs: the reason for a rejection, if there is one.\<close>

fun check_outputs :: "amount \<Rightarrow> tx_out list \<Rightarrow> string option" where
  "check_outputs total_out [] = None"
| "check_outputs total_out (txout # txouts) =
     (if sint (out_value txout) < 0 then Some ''bad-txns-vout-negative''
      else if \<not> money_range (out_value txout) then Some ''bad-txns-vout-toolarge''
      else
        let total_out = total_out + out_value txout in
        if \<not> money_range total_out then Some ''bad-txns-txouttotal-toolarge''
        else check_outputs total_out txouts)"

text \<open>The loop that inserts the outpoints into a set: whether every one was new.\<close>

fun inputs_new :: "outpoint set \<Rightarrow> tx_in list \<Rightarrow> bool" where
  "inputs_new seen [] = True"
| "inputs_new seen (txin # txins) =
     (if in_prevout txin \<in> seen then False else inputs_new (insert (in_prevout txin) seen) txins)"

definition check_transaction ::
  "transaction \<Rightarrow> tx_validation_state \<Rightarrow> bool \<times> tx_validation_state" where
  "check_transaction tx st =
     (if tx_vin tx = [] then vs_invalid st TxConsensus ''bad-txns-vin-empty'' []
      else if tx_vout tx = [] then vs_invalid st TxConsensus ''bad-txns-vout-empty'' []
      else if length (no_witness_buf tx) * WITNESS_SCALE_FACTOR > MAX_BLOCK_WEIGHT
      then vs_invalid st TxConsensus ''bad-txns-oversize'' []
      else case check_outputs 0 (tx_vout tx) of
        Some reason \<Rightarrow> vs_invalid st TxConsensus reason []
      | None \<Rightarrow>
          if \<not> inputs_new {} (tx_vin tx)
          then vs_invalid st TxConsensus ''bad-txns-inputs-duplicate'' []
          else if is_coinbase tx then
            let script_len = length (in_script_sig (tx_vin tx ! 0)) in
            if script_len < 2 \<or> script_len > 100 then vs_invalid st TxConsensus ''bad-cb-length'' []
            else (True, st)
          else if \<exists>txin\<in>set (tx_vin tx). outpoint_is_null (in_prevout txin)
          then vs_invalid st TxConsensus ''bad-txns-prevout-null'' []
          else (True, st))"

text \<open>
  The subsidy. The shift of the source is undefined for a negative number of halvings, and the division
  for an interval of zero: both panic, \<open>None\<close>.
\<close>

definition get_block_subsidy :: "int \<Rightarrow> consensus_params \<Rightarrow> int option" where
  "get_block_subsidy height params =
     (if subsidy_halving_interval params = 0 then None
      else
        let halvings = height sdiv subsidy_halving_interval params in
        if halvings \<ge> 64 then Some 0
        else if halvings < 0 then None
        else Some (drop_bit (nat halvings) (50 * COIN)))"

definition check_proof_of_work :: "hash_bytes \<Rightarrow> u32 \<Rightarrow> consensus_params \<Rightarrow> bool" where
  "check_proof_of_work hash bits params =
     (let (target, negative, overflow) = set_compact bits in
      if negative \<or> target = au_zero \<or> overflow then False
      else
        let pow_lim = uint256_to_arith (pow_limit params) in
        if au_compare_to target pow_lim = Greater then False
        else
          let hash_arith = uint256_to_arith hash
          in \<not> au_compare_to hash_arith target = Greater)"

section \<open>Signature operations\<close>

definition get_legacy_sigop_count :: "transaction \<Rightarrow> u32" where
  "get_legacy_sigop_count tx =
     foldl (\<lambda>n output. n + of_nat (get_sig_op_count (out_script_pubkey output) False))
       (foldl (\<lambda>n input. n + of_nat (get_sig_op_count (in_script_sig input) False)) 0 (tx_vin tx))
       (tx_vout tx)"

text \<open>
  The last push of a signature script. \<open>last_push\<close> keeps the last data that are not empty; with
  \<open>strict\<close> an operation that is not a push ends the walk without a result.
\<close>

function last_push :: "bool \<Rightarrow> script \<Rightarrow> nat \<Rightarrow> bytes \<Rightarrow> bytes option" where
  "last_push strict s pos last_data =
     (case get_op s pos of
        None \<Rightarrow> Some last_data
      | Some (op, data, new_pos) \<Rightarrow>
          if strict \<and> op > Op16 then None
          else last_push strict s new_pos (if data \<noteq> [] then data else last_data))"
  by pat_completeness auto
termination
  by (relation "measure (\<lambda>(strict, s, pos, last_data). length s - pos)") (auto dest: get_op_progress)

declare last_push.simps [simp del]

text \<open>The loop over the inputs; a signature script that is not push only makes the whole function return 0.\<close>

fun p2sh_sigops :: "(outpoint \<Rightarrow> script option) \<Rightarrow> u32 \<Rightarrow> tx_in list \<Rightarrow> u32" where
  "p2sh_sigops get_script_pubkey n [] = n"
| "p2sh_sigops get_script_pubkey n (input # inputs) =
     (case get_script_pubkey (in_prevout input) of
        Some prev_script \<Rightarrow>
          if is_p2sh prev_script then
            case last_push True (in_script_sig input) 0 [] of
              None \<Rightarrow> 0
            | Some last_data \<Rightarrow>
                p2sh_sigops get_script_pubkey (n + of_nat (get_sig_op_count last_data True)) inputs
          else p2sh_sigops get_script_pubkey n inputs
      | None \<Rightarrow> p2sh_sigops get_script_pubkey n inputs)"

definition get_p2sh_sigop_count :: "transaction \<Rightarrow> (outpoint \<Rightarrow> script option) \<Rightarrow> u32" where
  "get_p2sh_sigop_count tx get_script_pubkey =
     (if is_coinbase tx then 0 else p2sh_sigops get_script_pubkey 0 (tx_vin tx))"

definition witness_sigops :: "u8 \<Rightarrow> bytes \<Rightarrow> script_witness \<Rightarrow> u32" where
  "witness_sigops version program wit =
     (if version = 0 \<and> length program = 20 then 1
      else if version = 0 \<and> length program = 32 \<and> wit \<noteq> []
      then of_nat (get_sig_op_count (last wit) True)
      else 0)"

definition count_witness_sigops :: "script \<Rightarrow> script \<Rightarrow> script_witness \<Rightarrow> u32 \<Rightarrow> u32" where
  "count_witness_sigops sig spk wit flags =
     (if flags AND 0x800 = 0 then 0
      else case is_witness_program spk of
        Some (version, program) \<Rightarrow> witness_sigops version program wit
      | None \<Rightarrow>
          if flags AND 0x1 \<noteq> 0 \<and> is_p2sh spk then
            case is_witness_program (the (last_push False sig 0 [])) of
              Some (version, program) \<Rightarrow> witness_sigops version program wit
            | None \<Rightarrow> 0
          else 0)"

definition get_transaction_sigop_cost ::
  "transaction \<Rightarrow> u32 \<Rightarrow> (outpoint \<Rightarrow> script option) \<Rightarrow> int" where
  "get_transaction_sigop_cost tx flags get_prevout_script =
     (let n_sig_ops = uint (get_legacy_sigop_count tx) * int WITNESS_SCALE_FACTOR in
      if is_coinbase tx then n_sig_ops
      else
        let n_sig_ops = (if flags AND 0x1 \<noteq> 0
              then n_sig_ops + uint (get_p2sh_sigop_count tx get_prevout_script) * int WITNESS_SCALE_FACTOR
              else n_sig_ops)
        in foldl (\<lambda>n input. case get_prevout_script (in_prevout input) of
              Some prev_spk \<Rightarrow>
                n + uint (count_witness_sigops (in_script_sig input) prev_spk (in_witness input) flags)
            | None \<Rightarrow> n) n_sig_ops (tx_vin tx))"

section \<open>Transactions\<close>

lemma no_witness_buf_serialize: "no_witness_buf tx = serialize_transaction tx False"
proof -
  have items: "fst (encode_items enc xs) = concat (map (\<lambda>x. fst (enc x)) xs)" for enc :: "'a encoder" and xs
    by (induction xs) auto
  show ?thesis
    by (simp add: no_witness_buf_def serialize_transaction_def serialize_plain encode_vec_def items
        encode_tx_in_def encode_tx_out_def)
qed

lemma inputs_new_iff:
  "inputs_new seen is \<longleftrightarrow> distinct (map in_prevout is) \<and> in_prevout ` set is \<inter> seen = {}"
  by (induction "is" arbitrary: seen) auto

lemma money_range_add:
  "money_range a \<Longrightarrow> money_range b \<Longrightarrow> sint (a + b) = sint a + sint b"
  by (rule sint_arith) (auto simp: money_range_def MAX_MONEY_value)

lemma check_outputs_iff:
  "money_range acc \<Longrightarrow> check_outputs acc outs = None \<longleftrightarrow>
   (\<forall>out\<in>set outs. money_range (out_value out)) \<and>
   sint acc + sum_list (map (\<lambda>out. sint (out_value out)) outs) \<le> MAX_MONEY"
proof (induction outs arbitrary: acc)
  case Nil
  then show ?case by (simp add: money_range_def)
next
  case (Cons out outs)
  have nonneg: "0 \<le> sum_list (map (\<lambda>out. sint (out_value out)) outs)" if "\<forall>out\<in>set outs. money_range (out_value out)"
    using that by (intro sum_list_nonneg) (auto simp: money_range_def)
  show ?case
  proof (cases "money_range (out_value out) \<and> money_range (acc + out_value out)")
    case True
    then show ?thesis
      using Cons.prems Cons.IH [of "acc + out_value out"]
      by (simp add: money_range_add Let_def add.assoc) (auto simp: money_range_def)
  next
    case False
    then have "check_outputs acc (out # outs) \<noteq> None" by (auto simp: money_range_def Let_def)
    moreover have "MAX_MONEY < sint acc + sint (out_value out)" if "money_range (out_value out)"
      using False that Cons.prems money_range_add [OF Cons.prems that] by (auto simp: money_range_def)
    ultimately show ?thesis using nonneg by fastforce
  qed
qed

lemma value_out_fold:
  assumes "\<forall>out\<in>set outs. money_range (out_value out)" "money_range acc"
    "sint acc + sum_list (map (\<lambda>out. sint (out_value out)) outs) \<le> MAX_MONEY"
  shows "sint (foldl (\<lambda>s out. s + out_value out) acc outs) =
    sint acc + sum_list (map (\<lambda>out. sint (out_value out)) outs)"
  using assms
proof (induction outs arbitrary: acc)
  case (Cons out outs)
  have "0 \<le> sum_list (map (\<lambda>out. sint (out_value out)) outs)"
    using Cons.prems(1) by (intro sum_list_nonneg) (auto simp: money_range_def)
  moreover have "sint (acc + out_value out) = sint acc + sint (out_value out)"
    using Cons.prems by (intro money_range_add) auto
  ultimately show ?case
    using Cons.prems Cons.IH [of "acc + out_value out"] by (simp add: money_range_def)
qed simp

lemma money_range_0: "money_range 0"
  by (simp add: money_range_def MAX_MONEY_value)

text \<open>The rules for transactions, in words.\<close>

definition tx_rules :: "transaction \<Rightarrow> bool" where
  "tx_rules tx \<longleftrightarrow>
     tx_vin tx \<noteq> [] \<and> tx_vout tx \<noteq> [] \<and> 4 * length (serialize_transaction tx False) \<le> MAX_BLOCK_WEIGHT \<and>
     (\<forall>out\<in>set (tx_vout tx). 0 \<le> sint (out_value out)) \<and>
     (\<Sum>out\<leftarrow>tx_vout tx. sint (out_value out)) \<le> MAX_MONEY \<and>
     distinct (map in_prevout (tx_vin tx)) \<and>
     (if is_coinbase tx then length (in_script_sig (hd (tx_vin tx))) \<in> {2..100}
      else \<forall>txin\<in>set (tx_vin tx). \<not> outpoint_is_null (in_prevout txin))"

lemma member_le_sum: "\<forall>x\<in>set xs. 0 \<le> f x \<Longrightarrow> x \<in> set xs \<Longrightarrow> f x \<le> (\<Sum>x\<leftarrow>xs. f x :: int)"
proof (induction xs)
  case (Cons y ys)
  have "0 \<le> (\<Sum>x\<leftarrow>ys. f x)" using Cons.prems by (intro sum_list_nonneg) auto
  then show ?case using Cons by auto
qed simp

lemma outputs_rules:
  "check_outputs 0 outs = None \<longleftrightarrow>
   (\<forall>out\<in>set outs. 0 \<le> sint (out_value out)) \<and> (\<Sum>out\<leftarrow>outs. sint (out_value out)) \<le> MAX_MONEY"
  using check_outputs_iff [OF money_range_0, of outs] member_le_sum [of outs "\<lambda>out. sint (out_value out)"]
  by (fastforce simp: money_range_def)

lemma check_transaction_ok: "fst (check_transaction tx st) \<longleftrightarrow> tx_rules tx"
proof -
  have h: "tx_vin tx \<noteq> [] \<Longrightarrow> tx_vin tx ! 0 = hd (tx_vin tx)" by (simp add: hd_conv_nth)
  show ?thesis
    using outputs_rules [of "tx_vout tx"] inputs_new_iff [of "{}" "tx_vin tx"] h
    by (auto simp: check_transaction_def tx_rules_def vs_invalid_def Let_def no_witness_buf_serialize
        WITNESS_SCALE_FACTOR_def not_less mult.commute split: option.splits)
qed

lemma check_transaction_state:
  "(case check_transaction tx st of (True, st') \<Rightarrow> st' = st
    | (False, st') \<Rightarrow> vs_is_invalid st' \<and> vs_result st' = TxConsensus)"
  by (auto simp: check_transaction_def vs_invalid_def vs_is_invalid_def Let_def split: option.splits)

section \<open>The subsidy\<close>

definition subsidy_at :: "nat \<Rightarrow> int" where
  "subsidy_at k = drop_bit k (50 * COIN)"

lemma subsidy_height:
  assumes "0 < subsidy_halving_interval params"
  shows "get_block_subsidy (int h) params =
    Some (if h div nat (subsidy_halving_interval params) \<ge> 64 then 0
          else subsidy_at (h div nat (subsidy_halving_interval params)))"
proof -
  define i where "i = nat (subsidy_halving_interval params)"
  have i: "subsidy_halving_interval params = int i" "0 < i" using assms by (simp_all add: i_def)
  have "int h sdiv int i = int (h div i)"
    using i(2) by (simp add: signed_divide_int_def sgn_if zdiv_int)
  then show ?thesis using i by (simp add: get_block_subsidy_def Let_def subsidy_at_def)
qed

lemma subsidy_at_0: "33 \<le> k \<Longrightarrow> subsidy_at k = 0"
proof -
  assume "33 \<le> k"
  then have "(2 :: int) ^ 33 \<le> 2 ^ k" by (intro power_increasing) simp_all
  then show ?thesis by (simp add: subsidy_at_def drop_bit_eq_div COIN_def)
qed

lemma subsidy_at_nonneg: "0 \<le> subsidy_at k"
  by (simp add: subsidy_at_def COIN_def)

lemma subsidy_total: "(\<Sum>k<64. subsidy_at k) = 9999999989"
  by code_simp

text \<open>The blocks of the first \<open>n\<close> heights fall into periods of \<open>i\<close> blocks.\<close>

lemma sum_periods:
  fixes f :: "nat \<Rightarrow> int"
  assumes "0 < i"
  shows "(\<Sum>h<n * i. f (h div i)) = int i * (\<Sum>k<n. f k)"
proof (induction n)
  case (Suc n)
  have "(\<Sum>h\<in>{n * i..<n * i + i}. f (h div i)) = (\<Sum>h\<in>{n * i..<n * i + i}. f n)"
  proof (rule sum.cong)
    show "f (x div i) = f n" if "x \<in> {n * i..<n * i + i}" for x
      using that assms by (intro arg_cong [of _ _ f] div_nat_eqI) (auto simp: mult.commute)
  qed simp
  moreover have "{..<Suc n * i} = {..<n * i} \<union> {n * i..<n * i + i}" by auto
  ultimately show ?case
    using Suc by (simp add: sum.union_disjoint ivl_disj_int distrib_left)
qed simp

section \<open>Main results\<close>

text \<open>C34: The context-free check accepts exactly the transactions that obey the rules: inputs and outputs present, at
  most a quarter of the block weight without witnesses, no negative output, outputs that sum to at most the
  money supply, no outpoint spent twice, a coinbase script of 2 to 100 bytes, and no null outpoint elsewhere. The
  sum is that of the integers: the running 64-bit total cannot wrap around. A rejection is a consensus failure
  and leaves the state invalid; an acceptance leaves it as it was.\<close>

theorem check_transaction_exact:
  "(fst (check_transaction tx st) \<longleftrightarrow> tx_rules tx) \<and>
   (if tx_rules tx then snd (check_transaction tx st) = st
    else vs_is_invalid (snd (check_transaction tx st)) \<and> vs_result (snd (check_transaction tx st)) = TxConsensus)"
  using check_transaction_ok [of tx st] check_transaction_state [of st tx]
  by (auto split: prod.splits bool.splits)

text \<open>A transaction that passes the check pays out what its outputs say: the total that
  \<open>get_value_out\<close> computes with wrapping addition is the sum of the values, within the money range.\<close>

theorem value_out_exact:
  assumes "fst (check_transaction tx st)"
  shows "sint (get_value_out tx) = (\<Sum>out\<leftarrow>tx_vout tx. sint (out_value out)) \<and> money_range (get_value_out tx)"
proof -
  have r: "tx_rules tx" using assms check_transaction_ok by blast
  then have "\<forall>out\<in>set (tx_vout tx). money_range (out_value out)"
    using check_outputs_iff [OF money_range_0, of "tx_vout tx"] outputs_rules [of "tx_vout tx"]
    by (simp add: tx_rules_def)
  then have "sint (get_value_out tx) = (\<Sum>out\<leftarrow>tx_vout tx. sint (out_value out))"
    using r value_out_fold [OF _ money_range_0, of "tx_vout tx"] by (simp add: get_value_out_def tx_rules_def)
  moreover have "0 \<le> (\<Sum>out\<leftarrow>tx_vout tx. sint (out_value out))"
    using r by (intro sum_list_nonneg) (auto simp: tx_rules_def)
  ultimately show ?thesis using r by (simp add: money_range_def tx_rules_def)
qed


lemma example_tx_size: "length (serialize_transaction example_tx False) = 61"
  by (simp add: serialize_transaction_def serialize_plain encode_vec_def encode_tx_in_def encode_tx_out_def
      encode_outpoint_def encode_hash_def encode_u32_def encode_i64_def encode_script_def
      write_compact_size_def example_tx_def)

lemma example_tx_checked: "fst (check_transaction example_tx (vs_new TxUnset))"
proof -
  have "tx_rules example_tx"
    using example_tx_size
    by (simp add: tx_rules_def MAX_BLOCK_WEIGHT_def)
      (simp add: example_tx_def is_coinbase_def outpoint_is_null_def MAX_MONEY_value NULL_INDEX_def)
  then show ?thesis by (simp add: check_transaction_ok)
qed

theorem value_out_exact_witness: "sint (get_value_out example_tx) = 5000"
  using value_out_exact [OF example_tx_checked] by (simp add: example_tx_def)


lemma subsidies_capped:
  "(\<Sum>h<n. the (get_block_subsidy (int h) mainnet)) \<le> 2099999997690000 \<and> get_block_subsidy (int n) mainnet \<noteq> None"
proof -
  define f where "f k = (if k \<ge> 64 then 0 else subsidy_at k)" for k
  have s: "get_block_subsidy (int h) mainnet = Some (f (h div 210000))" for h
    by (subst subsidy_height) (simp_all add: mainnet_def f_def)
  have pos: "0 \<le> f k" for k by (simp add: f_def subsidy_at_nonneg)
  have "(\<Sum>h<n. f (h div 210000)) \<le> (\<Sum>h<max n 64 * 210000. f (h div 210000))"
    using pos by (intro sum_mono2) auto
  also have "\<dots> = 210000 * (\<Sum>k<max n 64. f k)" by (subst sum_periods) simp_all
  also have "(\<Sum>k<max n 64. f k) = (\<Sum>k<64. f k)"
    by (rule sum.mono_neutral_right) (auto simp: f_def)
  also have "\<dots> = 9999999989" unfolding subsidy_total [symmetric] by (rule sum.cong) (simp_all add: f_def)
  finally show ?thesis by (simp add: s MAX_MONEY_value)
qed

text \<open>The money supply is capped. On the main network the subsidies of any number of first blocks sum to
  at most 2099999997690000 satoshi, which is below the limit of 21 million coins; every subsidy is
  defined.\<close>

theorem supply_capped:
  "(\<Sum>h<n. the (get_block_subsidy (int h) mainnet)) \<le> 2099999997690000 \<and>
   2099999997690000 < MAX_MONEY \<and> get_block_subsidy (int n) mainnet \<noteq> None"
  using subsidies_capped by (simp add: MAX_MONEY_value)


section \<open>Proof of work\<close>

lemma pow_target_ok:
  assumes "set_compact bits = (target, negative, overflow)"
  shows "\<not> (negative \<or> target = au_zero \<or> overflow) \<longleftrightarrow>
    compact_value bits \<noteq> 0 \<and> \<not> bit bits 23 \<and> compact_value bits < 2 ^ 256"
    and "au_ok target" "\<not> overflow \<Longrightarrow> unat (au_word target) = compact_value bits"
proof -
  note w = set_compact_word [OF assms]
  show ok: "au_ok target" using w by blast
  show v: "unat (au_word target) = compact_value bits" if "\<not> overflow"
    using w that by (simp add: not_le)
  have z: "target = au_zero \<longleftrightarrow> unat (au_word target) = 0"
    using au_eq_iff [of target au_zero] ok au_zero_word by (auto simp: unat_eq_zero)
  show "\<not> (negative \<or> target = au_zero \<or> overflow) \<longleftrightarrow>
    compact_value bits \<noteq> 0 \<and> \<not> bit bits 23 \<and> compact_value bits < 2 ^ 256"
    using w z v by (cases overflow) (auto simp: not_le)
qed

lemma au_compare_Greater:
  "au_ok a \<Longrightarrow> au_ok b \<Longrightarrow> au_compare_to a b = Greater \<longleftrightarrow> unat (au_word b) < unat (au_word a)"
  by (auto simp: au_compare_word word_less_nat_alt word_unat_eq_iff)

lemma check_proof_of_work_iff:
  assumes "length hash = 32" "length (pow_limit params) = 32"
  shows "check_proof_of_work hash bits params \<longleftrightarrow>
    0 < compact_value bits \<and> \<not> bit bits 23 \<and> compact_value bits \<le> le_nat (pow_limit params) \<and>
    le_nat hash \<le> compact_value bits"
proof -
  obtain target negative overflow where sc: "set_compact bits = (target, negative, overflow)"
    by (cases "set_compact bits") auto
  note t = pow_target_ok [OF sc]
  have lim: "le_nat (pow_limit params) < 2 ^ 256"
    using unat_less_pow [of "au_word (uint256_to_arith (pow_limit params))"] assms(2)
    by (simp add: au_word_uint256)
  have cmp: "au_compare_to target (uint256_to_arith (pow_limit params)) = Greater \<longleftrightarrow>
      le_nat (pow_limit params) < unat (au_word target)"
    "au_compare_to (uint256_to_arith hash) target = Greater \<longleftrightarrow> unat (au_word target) < le_nat hash"
    using t(2) assms uint256_to_arith_word by (simp_all add: au_compare_Greater au_word_uint256)
  show ?thesis
    unfolding check_proof_of_work_def sc Let_def prod.case cmp using t(1,3) lim
    by (cases overflow) (auto simp: not_less)
qed

text \<open>A block hash passes the proof-of-work check exactly when the compact target is a positive number of at most
  256 bits, not above the limit of the network, and the hash, read as a little-endian number, is not above
  it.\<close>

theorem check_proof_of_work_exact:
  assumes "length hash = 32" "length (pow_limit params) = 32"
  shows "check_proof_of_work hash bits params \<longleftrightarrow>
    0 < compact_value bits \<and> \<not> bit bits 23 \<and> compact_value bits \<le> le_nat (pow_limit params) \<and>
    le_nat hash \<le> compact_value bits"
  using assms by (rule check_proof_of_work_iff)

lemma le_nat_to_le_bytes: "le_nat (to_le_bytes x) = unat (x :: 256 word)"
  using unat_less_pow [of x] by (simp add: to_le_bytes_def byte_simps)

lemma le_nat_zeros: "le_nat (replicate n 0) = 0"
  by (induction n) auto

theorem check_proof_of_work_exact_witness:
  "check_proof_of_work (replicate 32 0) 0x1d00ffff mainnet"
proof -
  have "compact_value 0x1d00ffff = 0xffff * 256 ^ 26" by (simp add: compact_value_def)
  moreover have "le_nat (pow_limit mainnet) = 2 ^ 224 - 1"
    by (simp add: mainnet_def hash_lit_def le_nat_to_le_bytes)
  moreover have "\<not> bit (0x1d00ffff :: u32) 23" by simp
  ultimately show ?thesis
    using check_proof_of_work_exact [of "replicate 32 0" mainnet "0x1d00ffff"] networks_ok
    by (simp add: params_ok_def le_nat_zeros)
qed

lemma zero_hash_work: "check_proof_of_work (replicate 32 0) 0x1d00ffff mainnet"
proof -
  have "compact_value 0x1d00ffff = 0xffff * 256 ^ 26" "\<not> bit (0x1d00ffff :: u32) 23" by (simp_all add: compact_value_def)
  moreover have "le_nat (pow_limit mainnet) = 2 ^ 224 - 1"
    by (simp add: mainnet_def hash_lit_def le_nat_to_le_bytes)
  ultimately show ?thesis
    using check_proof_of_work_iff [of "replicate 32 0" mainnet "0x1d00ffff"] networks_ok
    by (simp add: params_ok_def le_nat_zeros)
qed

section \<open>A signature script that is not push only\<close>

lemma p2sh_sigops_zero:
  "\<exists>x\<in>set xs. \<exists>spk. g (in_prevout x) = Some spk \<and> is_p2sh spk \<and> last_push True (in_script_sig x) 0 [] = None \<Longrightarrow>
   p2sh_sigops g n xs = 0"
proof (induction xs arbitrary: n)
  case (Cons x xs)
  show ?case
    using Cons.prems Cons.IH
    by (cases "g (in_prevout x)"; cases "last_push True (in_script_sig x) 0 []") (auto split: option.splits)
qed simp

text \<open>One input that spends a P2SH output with a signature script that contains an operation other than a push makes
  the count of P2SH signature operations zero for the whole transaction, whatever the redeem scripts of its other
  inputs are.\<close>

theorem p2sh_sigops_reset:
  assumes "input \<in> set (tx_vin tx)" "get_script_pubkey (in_prevout input) = Some spk" "is_p2sh spk"
    "last_push True (in_script_sig input) 0 [] = None"
  shows "get_p2sh_sigop_count tx get_script_pubkey = 0"
  unfolding get_p2sh_sigop_count_def using assms p2sh_sigops_zero [of "tx_vin tx" get_script_pubkey 0] by auto

definition sigop_input :: "script \<Rightarrow> tx_in" where
  "sigop_input sig = \<lparr>in_prevout = \<lparr>prev_txid = replicate 32 7, prev_index = of_nat (length sig)\<rparr>, in_script_sig = sig,
     in_sequence = 0, in_witness = []\<rparr>"

definition sigop_tx :: "script list \<Rightarrow> transaction" where
  "sigop_tx sigs = example_tx\<lparr>tx_vin := map sigop_input sigs\<rparr>"

definition p2sh_spk :: script where
  "p2sh_spk = [0xa9, 0x14] @ replicate 20 5 @ [0x87]"

text \<open>The redeem script is a single \<open>OP_CHECKSIG\<close>; with \<open>OP_NOP\<close> in the script of a second input its operation is
  not counted.\<close>

theorem p2sh_sigops_reset_witness:
  "get_p2sh_sigop_count (sigop_tx [[1, 0xac]]) (\<lambda>_. Some p2sh_spk) = 1 \<and>
   get_p2sh_sigop_count (sigop_tx [[1, 0xac], [0x61]]) (\<lambda>_. Some p2sh_spk) = 0"
proof
  show "get_p2sh_sigop_count (sigop_tx [[1, 0xac]]) (\<lambda>_. Some p2sh_spk) = 1" by code_simp
  have "last_push True [0x61] 0 [] = None" by code_simp
  moreover have "is_p2sh p2sh_spk" by code_simp
  ultimately show "get_p2sh_sigop_count (sigop_tx [[1, 0xac], [0x61]]) (\<lambda>_. Some p2sh_spk) = 0"
    by (intro p2sh_sigops_reset [of "sigop_input [0x61]"]) (simp_all add: sigop_tx_def sigop_input_def)
qed

end
