(* ===== verification/Sighash.thy ===== *)
theory Sighash
  imports TxCheck ScriptVerify
begin

text \<open>
  Signature hashes, \<open>qubitcoin-consensus/src/sighash.rs\<close>: the legacy hash over a modified transaction,
  the hash of segregated witness version 0 (BIP143) and that of taproot (BIP341), with the hashes that are computed
  once for a transaction. The functions are called with the index of an input of the transaction; where the
  source would panic on another index, the model is unspecified.
\<close>

section \<open>Hash types and precomputed hashes\<close>

definition SIGHASH_ALL :: u32 where "SIGHASH_ALL = 1"
definition SIGHASH_NONE :: u32 where "SIGHASH_NONE = 2"
definition SIGHASH_SINGLE :: u32 where "SIGHASH_SINGLE = 3"
definition SIGHASH_ANYONECANPAY :: u32 where "SIGHASH_ANYONECANPAY = 0x80"
definition SIGHASH_OUTPUT_MASK :: u32 where "SIGHASH_OUTPUT_MASK = 0x1f"

definition UINT256_ONE :: hash_bytes where
  "UINT256_ONE = 1 # replicate 31 0"

record precomputed_data =
  pd_hash_prevouts :: hash_bytes
  pd_hash_sequence :: hash_bytes
  pd_hash_outputs :: hash_bytes
  pd_sha_prevouts :: bytes
  pd_sha_amounts :: bytes
  pd_sha_script_pubkeys :: bytes
  pd_sha_sequences :: bytes
  pd_sha_outputs :: bytes
  pd_spent_outputs :: "tx_out list"
  pd_ready :: bool

definition prevouts_buf :: "transaction \<Rightarrow> bytes" where
  "prevouts_buf tx = fst (encode_items encode_outpoint (map in_prevout (tx_vin tx)))"

definition sequence_buf :: "transaction \<Rightarrow> bytes" where
  "sequence_buf tx = fst (encode_items encode_u32 (map in_sequence (tx_vin tx)))"

definition outputs_buf :: "transaction \<Rightarrow> bytes" where
  "outputs_buf tx = fst (encode_items encode_tx_out (tx_vout tx))"

definition amounts_buf :: "tx_out list \<Rightarrow> bytes" where
  "amounts_buf spent = fst (encode_items encode_i64 (map out_value spent))"

definition spk_buf :: "tx_out list \<Rightarrow> bytes" where
  "spk_buf spent = fst (encode_items encode_script (map out_script_pubkey spent))"

definition precomputed_new :: "crypto \<Rightarrow> transaction \<Rightarrow> tx_out list \<Rightarrow> precomputed_data" where
  "precomputed_new C tx spent_outputs =
     \<lparr>pd_hash_prevouts = hash256 C (prevouts_buf tx), pd_hash_sequence = hash256 C (sequence_buf tx),
      pd_hash_outputs = hash256 C (outputs_buf tx), pd_sha_prevouts = sha256_hash C (prevouts_buf tx),
      pd_sha_amounts = sha256_hash C (amounts_buf spent_outputs),
      pd_sha_script_pubkeys = sha256_hash C (spk_buf spent_outputs),
      pd_sha_sequences = sha256_hash C (sequence_buf tx), pd_sha_outputs = sha256_hash C (outputs_buf tx),
      pd_spent_outputs = spent_outputs, pd_ready = True\<rparr>"

definition precomputed_empty :: precomputed_data where
  "precomputed_empty =
     \<lparr>pd_hash_prevouts = ZERO_HASH, pd_hash_sequence = ZERO_HASH, pd_hash_outputs = ZERO_HASH,
      pd_sha_prevouts = ZERO_HASH, pd_sha_amounts = ZERO_HASH, pd_sha_script_pubkeys = ZERO_HASH,
      pd_sha_sequences = ZERO_HASH, pd_sha_outputs = ZERO_HASH, pd_spent_outputs = [], pd_ready = False\<rparr>"

definition is_valid_signature_hash_type :: "u32 \<Rightarrow> bool" where
  "is_valid_signature_hash_type hash_type =
     (let base = hash_type AND SIGHASH_OUTPUT_MASK in base \<ge> SIGHASH_ALL \<and> base \<le> SIGHASH_SINGLE)"

section \<open>The legacy hash\<close>

function strip_loop :: "script \<Rightarrow> nat \<Rightarrow> bytes" where
  "strip_loop s pos =
     (case get_op s pos of
        None \<Rightarrow> []
      | Some (opcode, data, new_pos) \<Rightarrow>
          (if opcode = OpCodeSeparator then [] else take (new_pos - pos) (drop pos s)) @ strip_loop s new_pos)"
  by pat_completeness auto
termination
  by (relation "measure (\<lambda>(s, pos). length s - pos)") (auto dest: get_op_progress)

declare strip_loop.simps [simp del]

definition remove_codeseparators :: "script \<Rightarrow> script" where
  "remove_codeseparators s = strip_loop s 0"

text \<open>The loop over the inputs, with the position \<open>i\<close> of the first one.\<close>

fun legacy_inputs :: "script \<Rightarrow> nat \<Rightarrow> u32 \<Rightarrow> nat \<Rightarrow> tx_in list \<Rightarrow> bytes" where
  "legacy_inputs script_code input_index hash_type i [] = []"
| "legacy_inputs script_code input_index hash_type i (input # inputs) =
     (let base_type = hash_type AND SIGHASH_OUTPUT_MASK in
      if hash_type AND SIGHASH_ANYONECANPAY \<noteq> 0 \<and> i \<noteq> input_index then []
      else fst (encode_outpoint (in_prevout input)) @
           fst (encode_script (if i = input_index then script_code else [])) @
           fst (encode_u32 (if i \<noteq> input_index \<and> (base_type = SIGHASH_NONE \<or> base_type = SIGHASH_SINGLE)
                            then 0 else in_sequence input))) @
     legacy_inputs script_code input_index hash_type (i + 1) inputs"

definition legacy_outputs :: "transaction \<Rightarrow> nat \<Rightarrow> u32 \<Rightarrow> bytes" where
  "legacy_outputs tx input_index base_type =
     (if base_type = SIGHASH_NONE then fst (write_compact_size 0)
      else if base_type = SIGHASH_SINGLE then
        fst (write_compact_size (of_nat (input_index + 1))) @
        concat (map (\<lambda>i. fst (encode_tx_out (if i = input_index then tx_vout tx ! i else tx_out_null))) [0..<input_index + 1])
      else fst (write_compact_size (of_nat (length (tx_vout tx)))) @ fst (encode_items encode_tx_out (tx_vout tx)))"

definition signature_hash :: "crypto \<Rightarrow> script \<Rightarrow> transaction \<Rightarrow> nat \<Rightarrow> u32 \<Rightarrow> hash_bytes" where
  "signature_hash C script_code tx input_index hash_type =
     (if input_index \<ge> length (tx_vin tx) then UINT256_ONE
      else
        let script_code = remove_codeseparators script_code;
            base_type = hash_type AND SIGHASH_OUTPUT_MASK in
        if base_type = SIGHASH_SINGLE \<and> input_index \<ge> length (tx_vout tx) then UINT256_ONE
        else
          let anyone_can_pay = (hash_type AND SIGHASH_ANYONECANPAY \<noteq> 0);
              n_inputs = (if anyone_can_pay then 1 else length (tx_vin tx))
          in hash256 C
               (fst (encode_u32 (tx_version tx)) @ fst (write_compact_size (of_nat n_inputs)) @
                legacy_inputs script_code input_index hash_type 0 (tx_vin tx) @
                legacy_outputs tx input_index base_type @ fst (encode_u32 (tx_lock_time tx)) @
                fst (encode_u32 hash_type)))"

section \<open>The hash of segregated witness\<close>

definition v0_preimage :: "crypto \<Rightarrow> script \<Rightarrow> transaction \<Rightarrow> nat \<Rightarrow> u32 \<Rightarrow> i64 \<Rightarrow> precomputed_data \<Rightarrow> bytes" where
  "v0_preimage C script_code tx input_index hash_type amnt precomputed =
     (let base_type = hash_type AND SIGHASH_OUTPUT_MASK;
          anyone_can_pay = (hash_type AND SIGHASH_ANYONECANPAY \<noteq> 0);
          input = tx_vin tx ! input_index
      in fst (encode_u32 (tx_version tx)) @
         (if \<not> anyone_can_pay then pd_hash_prevouts precomputed else ZERO_HASH) @
         (if \<not> anyone_can_pay \<and> base_type \<noteq> SIGHASH_SINGLE \<and> base_type \<noteq> SIGHASH_NONE
          then pd_hash_sequence precomputed else ZERO_HASH) @
         fst (encode_outpoint (in_prevout input)) @ fst (encode_script script_code) @ fst (encode_i64 amnt) @
         fst (encode_u32 (in_sequence input)) @
         (if base_type \<noteq> SIGHASH_SINGLE \<and> base_type \<noteq> SIGHASH_NONE then pd_hash_outputs precomputed
          else if base_type = SIGHASH_SINGLE \<and> input_index < length (tx_vout tx)
          then hash256 C (fst (encode_tx_out (tx_vout tx ! input_index)))
          else ZERO_HASH) @
         fst (encode_u32 (tx_lock_time tx)) @ fst (encode_u32 hash_type))"

definition witness_v0_signature_hash ::
  "crypto \<Rightarrow> script \<Rightarrow> transaction \<Rightarrow> nat \<Rightarrow> u32 \<Rightarrow> i64 \<Rightarrow> precomputed_data \<Rightarrow> hash_bytes" where
  "witness_v0_signature_hash C script_code tx input_index hash_type amnt precomputed =
     hash256 C (v0_preimage C script_code tx input_index hash_type amnt precomputed)"

section \<open>The taproot hash\<close>

definition tag_TapSighash :: bytes where
  "tag_TapSighash = [0x54, 0x61, 0x70, 0x53, 0x69, 0x67, 0x68, 0x61, 0x73, 0x68]"

definition taproot_hash_type_ok :: "u32 \<Rightarrow> bool" where
  "taproot_hash_type_ok hash_type \<longleftrightarrow> hash_type \<le> 0x03 \<or> (hash_type \<ge> 0x81 \<and> hash_type \<le> 0x83)"

definition taproot_base_type :: "u32 \<Rightarrow> u32" where
  "taproot_base_type hash_type = (if hash_type = 0 then SIGHASH_ALL else hash_type AND SIGHASH_OUTPUT_MASK)"

text \<open>What is written for one input that anyone may pay with.\<close>

definition taproot_own_input :: "transaction \<Rightarrow> nat \<Rightarrow> tx_out list \<Rightarrow> bytes" where
  "taproot_own_input tx input_index spent =
     fst (encode_outpoint (in_prevout (tx_vin tx ! input_index))) @
     fst (encode_i64 (if input_index < length spent then out_value (spent ! input_index) else 0)) @
     fst (encode_script (if input_index < length spent then out_script_pubkey (spent ! input_index) else [])) @
     fst (encode_u32 (in_sequence (tx_vin tx ! input_index)))"

definition taproot_preimage ::
  "crypto \<Rightarrow> transaction \<Rightarrow> nat \<Rightarrow> u32 \<Rightarrow> precomputed_data \<Rightarrow> u8 \<Rightarrow> bytes option \<Rightarrow> u32 option \<Rightarrow> bytes option \<Rightarrow> bytes" where
  "taproot_preimage C tx input_index hash_type precomputed ext_flag leaf_hash codesep_pos annex =
     (let base_type = taproot_base_type hash_type;
          anyone_can_pay = (hash_type AND SIGHASH_ANYONECANPAY \<noteq> 0);
          is_none = (base_type = SIGHASH_NONE);
          is_single = (base_type = SIGHASH_SINGLE)
      in [0x00, ucast hash_type] @ fst (encode_u32 (tx_version tx)) @ fst (encode_u32 (tx_lock_time tx)) @
         (if \<not> anyone_can_pay
          then pd_sha_prevouts precomputed @ pd_sha_amounts precomputed @ pd_sha_script_pubkeys precomputed @
               pd_sha_sequences precomputed
          else []) @
         (if \<not> is_none \<and> \<not> is_single then pd_sha_outputs precomputed else []) @
         [ext_flag * 2 + (if annex \<noteq> None then 1 else 0)] @
         (if anyone_can_pay then taproot_own_input tx input_index (pd_spent_outputs precomputed)
          else fst (encode_u32 (of_nat input_index))) @
         (case annex of Some ah \<Rightarrow> ah | None \<Rightarrow> []) @
         (if is_single then sha256_hash C (fst (encode_tx_out (tx_vout tx ! input_index))) else []) @
         (if ext_flag = 1
          then (case leaf_hash of Some h \<Rightarrow> h | None \<Rightarrow> []) @ [0x00] @
               fst (encode_u32 (case codesep_pos of Some p \<Rightarrow> p | None \<Rightarrow> 0xFFFFFFFF))
          else []))"

definition taproot_signature_hash ::
  "crypto \<Rightarrow> transaction \<Rightarrow> nat \<Rightarrow> u32 \<Rightarrow> precomputed_data \<Rightarrow> u8 \<Rightarrow> bytes option \<Rightarrow> u32 option \<Rightarrow> bytes option \<Rightarrow>
   hash_bytes option" where
  "taproot_signature_hash C tx input_index hash_type precomputed ext_flag leaf_hash codesep_pos annex =
     (if \<not> taproot_hash_type_ok hash_type then None
      else if taproot_base_type hash_type = SIGHASH_SINGLE \<and> input_index \<ge> length (tx_vout tx) then None
      else Some (tagged_hash C tag_TapSighash
             (taproot_preimage C tx input_index hash_type precomputed ext_flag leaf_hash codesep_pos annex)))"

section \<open>The legacy hash is that of a modified transaction\<close>

text \<open>The transaction that a legacy signature signs.\<close>

definition legacy_in :: "script \<Rightarrow> nat \<Rightarrow> u32 \<Rightarrow> nat \<Rightarrow> tx_in \<Rightarrow> tx_in" where
  "legacy_in script_code k hash_type i input =
     \<lparr>in_prevout = in_prevout input, in_script_sig = (if i = k then script_code else []),
      in_sequence = (if i \<noteq> k \<and> hash_type AND SIGHASH_OUTPUT_MASK \<in> {SIGHASH_NONE, SIGHASH_SINGLE} then 0 else in_sequence input),
      in_witness = []\<rparr>"

definition legacy_tx :: "script \<Rightarrow> transaction \<Rightarrow> nat \<Rightarrow> u32 \<Rightarrow> transaction" where
  "legacy_tx script_code tx k hash_type =
     (let base = hash_type AND SIGHASH_OUTPUT_MASK;
          inputs = map (\<lambda>(i, input). legacy_in (remove_codeseparators script_code) k hash_type i input) (enumerate 0 (tx_vin tx))
      in \<lparr>tx_version = tx_version tx,
          tx_vin = (if hash_type AND SIGHASH_ANYONECANPAY \<noteq> 0 then [inputs ! k] else inputs),
          tx_vout = (if base = SIGHASH_NONE then []
                     else if base = SIGHASH_SINGLE then replicate k tx_out_null @ [tx_vout tx ! k]
                     else tx_vout tx),
          tx_lock_time = tx_lock_time tx\<rparr>)"

lemma legacy_inputs_Cons:
  "legacy_inputs sc k hash_type i (input # inputs) =
   (if hash_type AND SIGHASH_ANYONECANPAY \<noteq> 0 \<and> i \<noteq> k then [] else fst (encode_tx_in (legacy_in sc k hash_type i input))) @
   legacy_inputs sc k hash_type (Suc i) inputs"
  by (auto simp: legacy_in_def encode_tx_in_def ser_seq_def Let_def split_beta)

lemmas [simp del] = legacy_inputs.simps(2)

lemma legacy_inputs_all:
  "hash_type AND SIGHASH_ANYONECANPAY = 0 \<Longrightarrow>
   legacy_inputs sc k hash_type j is =
     fst (encode_items encode_tx_in (map (\<lambda>(i, input). legacy_in sc k hash_type i input) (enumerate j is)))"
  by (induction "is" arbitrary: j) (simp_all add: legacy_inputs_Cons)

lemma legacy_inputs_one:
  "hash_type AND SIGHASH_ANYONECANPAY \<noteq> 0 \<Longrightarrow>
   legacy_inputs sc k hash_type j is =
     (if j \<le> k \<and> k < j + length is then fst (encode_tx_in (legacy_in sc k hash_type k (is ! (k - j)))) else [])"
proof (induction "is" arbitrary: j)
  case (Cons i "is")
  then show ?case
    by (cases "k = j") (auto simp: legacy_inputs_Cons nth_Cons' not_less_eq_eq)
qed auto

lemma concat_single_outputs:
  "concat (map (\<lambda>i. fst (encode_tx_out (if i = k then tx_vout tx ! i else tx_out_null))) [0..<k + 1]) =
   fst (encode_items encode_tx_out (replicate k tx_out_null @ [tx_vout tx ! k]))"
proof -
  have "concat (map (\<lambda>i. fst (encode_tx_out (f i))) is) = fst (encode_items encode_tx_out (map f is))" for f and "is" :: "nat list"
    by (induction "is") simp_all
  moreover have "map (\<lambda>i. if i = k then tx_vout tx ! i else tx_out_null) [0..<k + 1] = replicate k tx_out_null @ [tx_vout tx ! k]"
    by (rule nth_equalityI) (auto simp: nth_append less_Suc_eq simp del: upt_Suc)
  ultimately show ?thesis by metis
qed

lemma legacy_tx_no_witness: "k < length (tx_vin tx) \<Longrightarrow> \<not> has_witness (legacy_tx sc tx k ht)"
  by (auto simp: has_witness_def legacy_tx_def Let_def legacy_in_def nth_enumerate_eq split: if_splits)

lemma legacy_preimage:
  assumes "k < length (tx_vin tx)"
  shows "fst (encode_u32 (tx_version tx)) @
      fst (write_compact_size (of_nat (if ht AND SIGHASH_ANYONECANPAY \<noteq> 0 then 1 else length (tx_vin tx)))) @
      legacy_inputs (remove_codeseparators sc) k ht 0 (tx_vin tx) @ legacy_outputs tx k (ht AND SIGHASH_OUTPUT_MASK) @
      fst (encode_u32 (tx_lock_time tx)) = serialize_transaction (legacy_tx sc tx k ht) False"
proof -
  let ?t = "legacy_tx sc tx k ht" and ?b = "ht AND SIGHASH_OUTPUT_MASK"
  have "legacy_outputs tx k ?b = fst (encode_vec encode_tx_out (tx_vout ?t))"
    unfolding legacy_outputs_def concat_single_outputs by (auto simp: legacy_tx_def Let_def encode_vec_def)
  moreover have "fst (write_compact_size (of_nat (if ht AND SIGHASH_ANYONECANPAY \<noteq> 0 then 1 else length (tx_vin tx)))) @
      legacy_inputs (remove_codeseparators sc) k ht 0 (tx_vin tx) = fst (encode_vec encode_tx_in (tx_vin ?t))"
    using assms legacy_inputs_all [of ht _ k 0 "tx_vin tx"] legacy_inputs_one [of ht _ k 0 "tx_vin tx"]
    by (auto simp: legacy_tx_def Let_def encode_vec_def nth_enumerate_eq)
  moreover have "tx_version ?t = tx_version tx" "tx_lock_time ?t = tx_lock_time tx" by (simp_all add: legacy_tx_def Let_def)
  ultimately show ?thesis
    using serialize_plain [of False ?t] by (simp add: serialize_transaction_def)
qed

lemma signature_hash_legacy_tx:
  assumes "k < length (tx_vin tx)"
  shows "signature_hash C sc tx k ht =
    (if ht AND SIGHASH_OUTPUT_MASK = SIGHASH_SINGLE \<and> length (tx_vout tx) \<le> k then UINT256_ONE
     else hash256 C (serialize_transaction (legacy_tx sc tx k ht) False @ fst (encode_u32 ht)))"
  using assms legacy_preimage [OF assms, of ht sc, symmetric] by (simp add: signature_hash_def Let_def)


lemma legacy_tx_ok:
  assumes "tx_ok True tx" "fits_max (length (remove_codeseparators sc))" "k < length (tx_vin tx)"
    "ht AND SIGHASH_OUTPUT_MASK = SIGHASH_SINGLE \<Longrightarrow> k < length (tx_vout tx)"
  shows "tx_ok False (legacy_tx sc tx k ht)"
proof -
  let ?t = "legacy_tx sc tx k ht"
  have "fits_max (length (tx_vin ?t))" "fits_max (length (tx_vout ?t))"
    using assms by (auto simp: tx_ok_def legacy_tx_def Let_def fits_max_def)
  moreover have "list_all tx_out_ok (tx_vout ?t)"
    using assms by (auto simp: tx_ok_def legacy_tx_def Let_def tx_out_ok_def tx_out_null_def list_all_iff fits_max_def)
  moreover have "tx_in_ok (legacy_in (remove_codeseparators sc) k ht i input)" if "input \<in> set (tx_vin tx)" for i input
    using that assms(1,2) by (auto simp: tx_in_ok_def legacy_in_def tx_ok_def list_all_iff fits_max_def)
  then have "list_all tx_in_ok (tx_vin ?t)"
    using assms(3) by (auto simp: legacy_tx_def Let_def list_all_iff nth_enumerate_eq in_set_enumerate_eq)
  ultimately show ?thesis using legacy_tx_no_witness [OF assms(3)] by (simp add: tx_ok_def)
qed

section \<open>Concatenated items\<close>

context codec
begin

lemma encode_items_inj:
  assumes "\<And>x. valid x \<Longrightarrow> fst (enc x) \<noteq> []"
  shows "list_all valid xs \<Longrightarrow> list_all valid ys \<Longrightarrow> fst (encode_items enc xs) = fst (encode_items enc ys) \<Longrightarrow> xs = ys"
proof (induction xs arbitrary: ys)
  case Nil
  then show ?case using assms by (cases ys) auto
next
  case (Cons x xs)
  then obtain y ys' where ys: "ys = y # ys'" using assms by (cases ys) auto
  then have "x = y \<and> fst (encode_items enc xs) = fst (encode_items enc ys')"
    using Cons.prems enc_prefix_free [of x y] by simp
  then show ?case using Cons ys by simp
qed

end

lemma encode_u32_length [simp]: "length (fst (encode_u32 x)) = 4"
  by (simp add: encode_u32_def)

lemma encode_i64_length [simp]: "length (fst (encode_i64 x)) = 8"
  by (simp add: encode_i64_def)

lemma outpoint_nonempty: "fst (encode_outpoint p) \<noteq> []"
  by (simp add: encode_outpoint_def ser_seq_def split_beta flip: length_greater_0_conv)

lemma tx_out_nonempty: "fst (encode_tx_out p) \<noteq> []"
  by (simp add: encode_tx_out_def ser_seq_def split_beta flip: length_greater_0_conv)

lemma script_nonempty: "fst (encode_script s) \<noteq> []"
  by (simp add: encode_script_def write_compact_size_def ser_seq_def split_beta flip: length_greater_0_conv)

lemma bufs_inj:
  "list_all outpoint_ok (map in_prevout (tx_vin a)) \<Longrightarrow> list_all outpoint_ok (map in_prevout (tx_vin b)) \<Longrightarrow>
   prevouts_buf a = prevouts_buf b \<longleftrightarrow> map in_prevout (tx_vin a) = map in_prevout (tx_vin b)"
  "sequence_buf a = sequence_buf b \<longleftrightarrow> map in_sequence (tx_vin a) = map in_sequence (tx_vin b)"
  "list_all tx_out_ok (tx_vout a) \<Longrightarrow> list_all tx_out_ok (tx_vout b) \<Longrightarrow>
   outputs_buf a = outputs_buf b \<longleftrightarrow> tx_vout a = tx_vout b"
  "amounts_buf s = amounts_buf t \<longleftrightarrow> map out_value s = map out_value t"
  "list_all tx_out_ok s \<Longrightarrow> list_all tx_out_ok t \<Longrightarrow>
   spk_buf s = spk_buf t \<longleftrightarrow> map out_script_pubkey s = map out_script_pubkey t"
proof -
  have ne: "fst (encode_u32 x) \<noteq> []" "fst (encode_i64 y) \<noteq> []" for x y by (simp_all flip: length_greater_0_conv)
  note inj = outpoint_codec.encode_items_inj [OF outpoint_nonempty] tx_out_codec.encode_items_inj [OF tx_out_nonempty]
    u32.encode_items_inj [OF ne(1)] i64.encode_items_inj [OF ne(2)] script_codec.encode_items_inj [OF script_nonempty]
  show "list_all outpoint_ok (map in_prevout (tx_vin a)) \<Longrightarrow> list_all outpoint_ok (map in_prevout (tx_vin b)) \<Longrightarrow>
      prevouts_buf a = prevouts_buf b \<longleftrightarrow> map in_prevout (tx_vin a) = map in_prevout (tx_vin b)"
    using inj(1) by (auto simp: prevouts_buf_def)
  show "sequence_buf a = sequence_buf b \<longleftrightarrow> map in_sequence (tx_vin a) = map in_sequence (tx_vin b)"
    using inj(3) by (auto simp: sequence_buf_def list_all_iff)
  show "list_all tx_out_ok (tx_vout a) \<Longrightarrow> list_all tx_out_ok (tx_vout b) \<Longrightarrow>
      outputs_buf a = outputs_buf b \<longleftrightarrow> tx_vout a = tx_vout b"
    using inj(2) by (auto simp: outputs_buf_def)
  show "amounts_buf s = amounts_buf t \<longleftrightarrow> map out_value s = map out_value t"
    using inj(4) by (auto simp: amounts_buf_def list_all_iff)
  show "list_all tx_out_ok s \<Longrightarrow> list_all tx_out_ok t \<Longrightarrow>
      spk_buf s = spk_buf t \<longleftrightarrow> map out_script_pubkey s = map out_script_pubkey t"
    using inj(5) [of "map out_script_pubkey s" "map out_script_pubkey t"]
    by (auto simp: spk_buf_def list_all_iff tx_out_ok_def)
qed

text \<open>The inputs and outputs of a transaction whose signature hash is asked for.\<close>

definition signable :: "transaction \<Rightarrow> nat \<Rightarrow> bool" where
  "signable tx k \<longleftrightarrow> k < length (tx_vin tx) \<and> k < 2 ^ 32 \<and> list_all outpoint_ok (map in_prevout (tx_vin tx)) \<and> list_all tx_out_ok (tx_vout tx)"

lemma signable_prevout: "signable tx k \<Longrightarrow> outpoint_ok (in_prevout (tx_vin tx ! k))"
  by (simp add: signable_def list_all_length)

section \<open>What a witness signature signs\<close>

definition signs_outputs :: "u32 \<Rightarrow> bool" where
  "signs_outputs base \<longleftrightarrow> base \<noteq> SIGHASH_SINGLE \<and> base \<noteq> SIGHASH_NONE"

text \<open>The inputs, the outputs and the data of the own input that a hash type covers.\<close>

definition v0_signed where
  "v0_signed sc tx k ht amnt =
     (let base = ht AND SIGHASH_OUTPUT_MASK; acp = (ht AND SIGHASH_ANYONECANPAY \<noteq> 0); input = tx_vin tx ! k in
      (ht, tx_version tx, tx_lock_time tx, in_prevout input, sc :: script, amnt :: i64, in_sequence input,
       if acp then None else Some (map in_prevout (tx_vin tx)),
       if \<not> acp \<and> signs_outputs base then Some (map in_sequence (tx_vin tx)) else None,
       if signs_outputs base then Some (tx_vout tx)
       else if base = SIGHASH_SINGLE \<and> k < length (tx_vout tx) then Some [tx_vout tx ! k] else None))"

definition v0_strings :: "crypto \<Rightarrow> script \<Rightarrow> transaction \<Rightarrow> nat \<Rightarrow> u32 \<Rightarrow> i64 \<Rightarrow> bytes set" where
  "v0_strings C sc tx k ht amnt =
     {v0_preimage C sc tx k ht amnt (precomputed_new C tx []), prevouts_buf tx, sequence_buf tx, outputs_buf tx,
      fst (encode_tx_out (tx_vout tx ! k))}"

lemma v0_preimage_spent: "v0_preimage C sc tx k ht amnt (precomputed_new C tx spent) = v0_preimage C sc tx k ht amnt (precomputed_new C tx [])"
  by (simp add: v0_preimage_def precomputed_new_def Let_def)

lemma append_same_length: "length a = length b \<Longrightarrow> a @ r = b @ s \<longleftrightarrow> a = b \<and> r = s"
  by simp

lemma v0_preimage_fields:
  assumes "crypto_ok C" "signable a k" "signable b l" "fits_max (length sa)" "fits_max (length sb)"
    "v0_preimage C sa a k ht va (precomputed_new C a []) = v0_preimage C sb b l hu vb (precomputed_new C b [])"
  shows "ht = hu" "tx_version a = tx_version b" "tx_lock_time a = tx_lock_time b"
    "in_prevout (tx_vin a ! k) = in_prevout (tx_vin b ! l)" "sa = sb" "va = vb"
    "in_sequence (tx_vin a ! k) = in_sequence (tx_vin b ! l)"
    "ht AND SIGHASH_ANYONECANPAY = 0 \<Longrightarrow> hash256 C (prevouts_buf a) = hash256 C (prevouts_buf b)"
    "ht AND SIGHASH_ANYONECANPAY = 0 \<Longrightarrow> signs_outputs (ht AND SIGHASH_OUTPUT_MASK) \<Longrightarrow>
       hash256 C (sequence_buf a) = hash256 C (sequence_buf b)"
    "(if signs_outputs (ht AND SIGHASH_OUTPUT_MASK) then hash256 C (outputs_buf a)
      else if ht AND SIGHASH_OUTPUT_MASK = SIGHASH_SINGLE \<and> k < length (tx_vout a)
      then hash256 C (fst (encode_tx_out (tx_vout a ! k))) else ZERO_HASH) =
     (if signs_outputs (ht AND SIGHASH_OUTPUT_MASK) then hash256 C (outputs_buf b)
      else if ht AND SIGHASH_OUTPUT_MASK = SIGHASH_SINGLE \<and> l < length (tx_vout b)
      then hash256 C (fst (encode_tx_out (tx_vout b ! l))) else ZERO_HASH)"
proof -
  let ?A = "\<lambda>h tx. if h AND SIGHASH_ANYONECANPAY = 0 then hash256 C (prevouts_buf tx) else ZERO_HASH"
  let ?S = "\<lambda>h tx. if h AND SIGHASH_ANYONECANPAY = 0 \<and> signs_outputs (h AND SIGHASH_OUTPUT_MASK) then hash256 C (sequence_buf tx) else ZERO_HASH"
  let ?O = "\<lambda>h tx k. if signs_outputs (h AND SIGHASH_OUTPUT_MASK) then hash256 C (outputs_buf tx)
      else if h AND SIGHASH_OUTPUT_MASK = SIGHASH_SINGLE \<and> k < length (tx_vout tx)
      then hash256 C (fst (encode_tx_out (tx_vout tx ! k))) else ZERO_HASH"
  have len: "length (hash256 C x) = 32" "length ZERO_HASH = 32" for x using assms(1) by (simp_all add: crypto_ok_def ZERO_HASH_def)
  have form: "v0_preimage C s tx k h v (precomputed_new C tx []) =
      fst (encode_u32 (tx_version tx)) @ ?A h tx @ ?S h tx @ fst (encode_outpoint (in_prevout (tx_vin tx ! k))) @
      fst (encode_script s) @ fst (encode_i64 v) @ fst (encode_u32 (in_sequence (tx_vin tx ! k))) @ ?O h tx k @
      fst (encode_u32 (tx_lock_time tx)) @ fst (encode_u32 h)" for s tx k h v
    by (auto simp: v0_preimage_def precomputed_new_def Let_def signs_outputs_def)
  have eq: "fst (encode_u32 (tx_version a)) = fst (encode_u32 (tx_version b)) \<and> ?A ht a = ?A hu b \<and> ?S ht a = ?S hu b \<and>
      fst (encode_outpoint (in_prevout (tx_vin a ! k))) @ fst (encode_script sa) @ fst (encode_i64 va) @
        fst (encode_u32 (in_sequence (tx_vin a ! k))) @ ?O ht a k @ fst (encode_u32 (tx_lock_time a)) @ fst (encode_u32 ht) =
      fst (encode_outpoint (in_prevout (tx_vin b ! l))) @ fst (encode_script sb) @ fst (encode_i64 vb) @
        fst (encode_u32 (in_sequence (tx_vin b ! l))) @ ?O hu b l @ fst (encode_u32 (tx_lock_time b)) @ fst (encode_u32 hu)"
    using assms(6) unfolding form by (subst (asm) append_same_length; simp add: len)+
  have o: "in_prevout (tx_vin a ! k) = in_prevout (tx_vin b ! l) \<and>
      fst (encode_script sa) @ fst (encode_i64 va) @
        fst (encode_u32 (in_sequence (tx_vin a ! k))) @ ?O ht a k @ fst (encode_u32 (tx_lock_time a)) @ fst (encode_u32 ht) =
      fst (encode_script sb) @ fst (encode_i64 vb) @
        fst (encode_u32 (in_sequence (tx_vin b ! l))) @ ?O hu b l @ fst (encode_u32 (tx_lock_time b)) @ fst (encode_u32 hu)"
    using outpoint_codec.enc_prefix_free [OF signable_prevout [OF assms(2)] signable_prevout [OF assms(3)]] eq by blast
  have sc: "sa = sb \<and> fst (encode_i64 va) @ fst (encode_u32 (in_sequence (tx_vin a ! k))) @ ?O ht a k @ fst (encode_u32 (tx_lock_time a)) @ fst (encode_u32 ht) =
      fst (encode_i64 vb) @ fst (encode_u32 (in_sequence (tx_vin b ! l))) @ ?O hu b l @ fst (encode_u32 (tx_lock_time b)) @ fst (encode_u32 hu)"
    using script_codec.enc_prefix_free [OF assms(4,5)] o by blast
  have r: "fst (encode_i64 va) = fst (encode_i64 vb) \<and> fst (encode_u32 (in_sequence (tx_vin a ! k))) = fst (encode_u32 (in_sequence (tx_vin b ! l))) \<and>
      ?O ht a k = ?O hu b l \<and> fst (encode_u32 (tx_lock_time a)) = fst (encode_u32 (tx_lock_time b)) \<and> fst (encode_u32 ht) = fst (encode_u32 hu)"
    using sc [THEN conjunct2] by (subst (asm) append_same_length; simp add: len)+
  have u: "fst (encode_u32 x) = fst (encode_u32 y) \<Longrightarrow> x = y" "fst (encode_i64 v) = fst (encode_i64 w) \<Longrightarrow> v = w" for x y v w
    using u32.enc_prefix_free [of x "[]" y "[]"] i64.enc_prefix_free [of v "[]" w "[]"] by auto
  show "ht = hu" using r u by blast
  then show "ht AND SIGHASH_ANYONECANPAY = 0 \<Longrightarrow> hash256 C (prevouts_buf a) = hash256 C (prevouts_buf b)"
    "ht AND SIGHASH_ANYONECANPAY = 0 \<Longrightarrow> signs_outputs (ht AND SIGHASH_OUTPUT_MASK) \<Longrightarrow> hash256 C (sequence_buf a) = hash256 C (sequence_buf b)"
    "?O ht a k = ?O ht b l" using eq r by auto
  show "tx_version a = tx_version b" "tx_lock_time a = tx_lock_time b" "in_prevout (tx_vin a ! k) = in_prevout (tx_vin b ! l)"
    "sa = sb" "va = vb" "in_sequence (tx_vin a ! k) = in_sequence (tx_vin b ! l)" using eq o sc r u by blast+
qed

lemma v0_signed_commits:
  assumes "crypto_ok C" "signable a k" "signable b l" "fits_max (length sa)" "fits_max (length sb)"
    and inj: "inj_on (hash256 C) (v0_strings C sa a k ht va \<union> v0_strings C sb b l hu vb)"
    and zero: "ZERO_HASH \<notin> hash256 C ` (v0_strings C sa a k ht va \<union> v0_strings C sb b l hu vb)"
    and eq: "v0_preimage C sa a k ht va (precomputed_new C a []) = v0_preimage C sb b l hu vb (precomputed_new C b [])"
  shows "v0_signed sa a k ht va = v0_signed sb b l hu vb"
proof -
  note f = v0_preimage_fields [OF assms(1-5) eq]
  have ok: "list_all outpoint_ok (map in_prevout (tx_vin a))" "list_all outpoint_ok (map in_prevout (tx_vin b))"
    "list_all tx_out_ok (tx_vout a)" "list_all tx_out_ok (tx_vout b)" using assms(2,3) by (simp_all add: signable_def)
  have h1: "hash256 C x = hash256 C y \<longleftrightarrow> x = y"
    if "x \<in> v0_strings C sa a k ht va \<union> v0_strings C sb b l hu vb" "y \<in> v0_strings C sa a k ht va \<union> v0_strings C sb b l hu vb" for x y
    using inj that by (simp add: inj_on_eq_iff)
  have h2: "hash256 C x \<noteq> ZERO_HASH" if "x \<in> v0_strings C sa a k ht va \<union> v0_strings C sb b l hu vb" for x
    using zero that by (metis image_eqI)
  have m: "prevouts_buf a \<in> v0_strings C sa a k ht va" "prevouts_buf b \<in> v0_strings C sb b l hu vb"
    "sequence_buf a \<in> v0_strings C sa a k ht va" "sequence_buf b \<in> v0_strings C sb b l hu vb"
    "outputs_buf a \<in> v0_strings C sa a k ht va" "outputs_buf b \<in> v0_strings C sb b l hu vb"
    "fst (encode_tx_out (tx_vout a ! k)) \<in> v0_strings C sa a k ht va" "fst (encode_tx_out (tx_vout b ! l)) \<in> v0_strings C sb b l hu vb"
    by (simp_all add: v0_strings_def)
  have "ht AND SIGHASH_ANYONECANPAY = 0 \<Longrightarrow> map in_prevout (tx_vin a) = map in_prevout (tx_vin b)"
    using f(8) h1 m(1,2) bufs_inj(1) [OF ok(1,2)] by auto
  moreover have "ht AND SIGHASH_ANYONECANPAY = 0 \<Longrightarrow> signs_outputs (ht AND SIGHASH_OUTPUT_MASK) \<Longrightarrow>
      map in_sequence (tx_vin a) = map in_sequence (tx_vin b)"
    using f(9) h1 m(3,4) bufs_inj(2) [of a b] by auto
  moreover have "signs_outputs (ht AND SIGHASH_OUTPUT_MASK) \<Longrightarrow> tx_vout a = tx_vout b"
    using f(10) h1 m(5,6) bufs_inj(3) [OF ok(3,4)] by auto
  moreover have "\<not> signs_outputs (ht AND SIGHASH_OUTPUT_MASK) \<Longrightarrow> ht AND SIGHASH_OUTPUT_MASK = SIGHASH_SINGLE \<Longrightarrow>
      (k < length (tx_vout a) \<longleftrightarrow> l < length (tx_vout b)) \<and> (k < length (tx_vout a) \<longrightarrow> tx_vout a ! k = tx_vout b ! l)"
    using f(10) h1 [of "fst (encode_tx_out (tx_vout a ! k))" "fst (encode_tx_out (tx_vout b ! l))"]
      h2 [of "fst (encode_tx_out (tx_vout a ! k))"] h2 [of "fst (encode_tx_out (tx_vout b ! l))"] m(7,8) ok(3,4)
      tx_out_codec.enc_prefix_free [of "tx_vout a ! k" "tx_vout b ! l" "[]" "[]"]
    by (auto simp: list_all_length split: if_splits)
  ultimately show ?thesis using f(1-7) by (auto simp: v0_signed_def Let_def)
qed

lemma v0_signed_determines:
  assumes "v0_signed sa a k ht va = v0_signed sb b l hu vb"
  shows "v0_preimage C sa a k ht va (precomputed_new C a []) = v0_preimage C sb b l hu vb (precomputed_new C b [])"
proof -
  note s = assms [unfolded v0_signed_def Let_def]
  show ?thesis
    using s by (auto simp: v0_preimage_def precomputed_new_def Let_def signs_outputs_def prevouts_buf_def sequence_buf_def
      outputs_buf_def split: if_splits)
qed

section \<open>What a taproot signature signs\<close>

definition taproot_signed where
  "taproot_signed tx k ht spent ext leaf pos annex =
     (let base = taproot_base_type ht; acp = (ht AND SIGHASH_ANYONECANPAY \<noteq> 0); input = tx_vin tx ! k in
      (ht, tx_version tx, tx_lock_time tx, ext :: u8, annex :: bytes option,
       if acp then Inl (in_prevout input, spent ! k, in_sequence input)
       else Inr (k, map in_prevout (tx_vin tx), spent :: tx_out list, map in_sequence (tx_vin tx)),
       if signs_outputs base then tx_vout tx else if base = SIGHASH_SINGLE then [tx_vout tx ! k] else [],
       if ext = 1 then Some (leaf :: bytes, pos :: u32) else None))"

definition taproot_strings :: "crypto \<Rightarrow> transaction \<Rightarrow> nat \<Rightarrow> u32 \<Rightarrow> tx_out list \<Rightarrow> u8 \<Rightarrow> bytes \<Rightarrow> u32 \<Rightarrow> bytes option \<Rightarrow> bytes set" where
  "taproot_strings C tx k ht spent ext leaf pos annex =
     {prevouts_buf tx, sequence_buf tx, outputs_buf tx, amounts_buf spent, spk_buf spent, fst (encode_tx_out (tx_vout tx ! k)),
      sha256_hash C tag_TapSighash @ sha256_hash C tag_TapSighash @
        taproot_preimage C tx k ht (precomputed_new C tx spent) ext (Some leaf) (Some pos) annex}"

lemma own_input_prefix_free:
  assumes "signable a k" "signable b l" "k < length sa" "l < length sb" "list_all tx_out_ok sa" "list_all tx_out_ok sb"
    "taproot_own_input a k sa @ r = taproot_own_input b l sb @ t"
  shows "in_prevout (tx_vin a ! k) = in_prevout (tx_vin b ! l) \<and> sa ! k = sb ! l \<and>
    in_sequence (tx_vin a ! k) = in_sequence (tx_vin b ! l) \<and> r = t"
proof -
  have fits: "fits_max (length (out_script_pubkey (sa ! k)))" "fits_max (length (out_script_pubkey (sb ! l)))"
    using assms(3-6) by (simp_all add: list_all_length tx_out_ok_def)
  note eq = assms(7) [unfolded taproot_own_input_def append_assoc if_P [OF assms(3)] if_P [OF assms(4)]]
  note o = outpoint_codec.enc_prefix_free [OF signable_prevout [OF assms(1)] signable_prevout [OF assms(2)] eq]
  note v = i64.enc_prefix_free [OF TrueI TrueI o [THEN conjunct2]]
  note s = script_codec.enc_prefix_free [OF fits v [THEN conjunct2]]
  note q = u32.enc_prefix_free [OF TrueI TrueI s [THEN conjunct2]]
  show ?thesis using o v s q by simp
qed

lemma taproot_byte_inj:
  assumes "taproot_hash_type_ok ht" "taproot_hash_type_ok hu" "ucast ht = (ucast hu :: u8)"
  shows "ht = hu"
proof -
  have "unat ht < 256" "unat hu < 256" using assms(1,2) by (auto simp: taproot_hash_type_ok_def word_le_nat_alt)
  moreover have "unat (ucast ht :: u8) = unat (ucast hu :: u8)" using assms(3) by simp
  ultimately show ?thesis by (simp add: unat_ucast word_unat_eq_iff)
qed

lemma spend_type_inj:
  fixes e f :: u8
  assumes "e \<in> {0, 1}" "f \<in> {0, 1}" "e * 2 + (if p then 1 else 0) = f * 2 + (if q then 1 else 0)"
  shows "e = f \<and> (p \<longleftrightarrow> q)"
  using assms by (auto split: if_splits)

lemma taproot_form:
  "taproot_preimage C tx k ht (precomputed_new C tx s) e (Some g) (Some p) x =
   [0x00, ucast ht] @ fst (encode_u32 (tx_version tx)) @ fst (encode_u32 (tx_lock_time tx)) @
   (if ht AND SIGHASH_ANYONECANPAY \<noteq> 0 then []
    else sha256_hash C (prevouts_buf tx) @ sha256_hash C (amounts_buf s) @ sha256_hash C (spk_buf s) @ sha256_hash C (sequence_buf tx)) @
   (if signs_outputs (taproot_base_type ht) then sha256_hash C (outputs_buf tx) else []) @
   [e * 2 + (if x \<noteq> None then 1 else 0)] @
   (if ht AND SIGHASH_ANYONECANPAY \<noteq> 0 then taproot_own_input tx k s else fst (encode_u32 (of_nat k))) @
   (case x of Some h \<Rightarrow> h | None \<Rightarrow> []) @
   (if taproot_base_type ht = SIGHASH_SINGLE then sha256_hash C (fst (encode_tx_out (tx_vout tx ! k))) else []) @
   (if e = 1 then g @ [0] @ fst (encode_u32 p) else [])"
  by (simp add: taproot_preimage_def precomputed_new_def Let_def signs_outputs_def conj_commute)

text \<open>The parts of two equal taproot messages.\<close>

lemma taproot_preimage_fields:
  assumes "crypto_ok C" "signable a k" "signable b l" "k < length sa" "l < length sb" "list_all tx_out_ok sa" "list_all tx_out_ok sb"
    and ht: "taproot_hash_type_ok ht" "taproot_hash_type_ok hu" and ext: "e \<in> {0, 1}" "f \<in> {0, 1}"
    and len: "\<forall>h. x = Some h \<longrightarrow> length h = 32" "\<forall>h. y = Some h \<longrightarrow> length h = 32" "length g = 32" "length h = 32"
    and eq: "taproot_preimage C a k ht (precomputed_new C a sa) e (Some g) (Some p) x =
      taproot_preimage C b l hu (precomputed_new C b sb) f (Some h) (Some q) y"
  shows "ht = hu \<and> tx_version a = tx_version b \<and> tx_lock_time a = tx_lock_time b \<and> e = f \<and> x = y \<and>
    (if ht AND SIGHASH_ANYONECANPAY \<noteq> 0
     then in_prevout (tx_vin a ! k) = in_prevout (tx_vin b ! l) \<and> sa ! k = sb ! l \<and> in_sequence (tx_vin a ! k) = in_sequence (tx_vin b ! l)
     else k = l \<and> sha256_hash C (prevouts_buf a) = sha256_hash C (prevouts_buf b) \<and>
       sha256_hash C (amounts_buf sa) = sha256_hash C (amounts_buf sb) \<and> sha256_hash C (spk_buf sa) = sha256_hash C (spk_buf sb) \<and>
       sha256_hash C (sequence_buf a) = sha256_hash C (sequence_buf b)) \<and>
    (signs_outputs (taproot_base_type ht) \<longrightarrow> sha256_hash C (outputs_buf a) = sha256_hash C (outputs_buf b)) \<and>
    (taproot_base_type ht = SIGHASH_SINGLE \<longrightarrow>
      sha256_hash C (fst (encode_tx_out (tx_vout a ! k))) = sha256_hash C (fst (encode_tx_out (tx_vout b ! l)))) \<and>
    (e = 1 \<longrightarrow> g = h \<and> p = q)"
proof -
  have h: "ht = hu" using eq taproot_byte_inj [OF ht] unfolding taproot_form by simp
  let ?acp = "ht AND SIGHASH_ANYONECANPAY \<noteq> 0" and ?base = "taproot_base_type ht"
  let ?A = "\<lambda>tx s. if ?acp then [] else sha256_hash C (prevouts_buf tx) @ sha256_hash C (amounts_buf s) @ sha256_hash C (spk_buf s) @
      sha256_hash C (sequence_buf tx)"
  let ?B = "\<lambda>tx. if signs_outputs ?base then sha256_hash C (outputs_buf tx) else []"
  let ?I = "\<lambda>tx k s. if ?acp then taproot_own_input tx k s else fst (encode_u32 (of_nat k))"
  let ?X = "\<lambda>x. case x of Some h \<Rightarrow> h | None \<Rightarrow> []"
  let ?S = "\<lambda>tx k. if ?base = SIGHASH_SINGLE then sha256_hash C (fst (encode_tx_out (tx_vout tx ! k))) else []"
  let ?E = "\<lambda>e g p. if e = (1 :: u8) then g @ [0] @ fst (encode_u32 p) else []"
  have l32: "length (sha256_hash C z) = 32" for z using assms(1) by (simp add: crypto_ok_def)
  have u: "fst (encode_u32 i) = fst (encode_u32 j) \<longleftrightarrow> i = j" for i j
    using u32.enc_prefix_free [of i "[]" j "[]"] by auto
  have "fst (encode_u32 (tx_version a)) @ fst (encode_u32 (tx_lock_time a)) @ ?A a sa @ ?B a @
      [e * 2 + (if x \<noteq> None then 1 else 0)] @ ?I a k sa @ ?X x @ ?S a k @ ?E e g p =
    fst (encode_u32 (tx_version b)) @ fst (encode_u32 (tx_lock_time b)) @ ?A b sb @ ?B b @
      [f * 2 + (if y \<noteq> None then 1 else 0)] @ ?I b l sb @ ?X y @ ?S b l @ ?E f h q"
    using eq unfolding taproot_form h [symmetric] by (simp only: append.simps list.inject)
  then have v: "fst (encode_u32 (tx_version a)) = fst (encode_u32 (tx_version b)) \<and> fst (encode_u32 (tx_lock_time a)) = fst (encode_u32 (tx_lock_time b)) \<and>
      ?A a sa @ ?B a @ [e * 2 + (if x \<noteq> None then 1 else 0)] @ ?I a k sa @ ?X x @ ?S a k @ ?E e g p =
      ?A b sb @ ?B b @ [f * 2 + (if y \<noteq> None then 1 else 0)] @ ?I b l sb @ ?X y @ ?S b l @ ?E f h q"
    by (simp only: append_same_length encode_u32_length)
  have lA: "length (?A a sa) = length (?A b sb)" "length (?B a) = length (?B b)" by (simp_all add: l32)
  have w: "?A a sa = ?A b sb \<and> ?B a = ?B b \<and> e * 2 + (if x \<noteq> None then 1 else 0) = f * 2 + (if y \<noteq> None then 1 else 0) \<and>
      ?I a k sa @ ?X x @ ?S a k @ ?E e g p = ?I b l sb @ ?X y @ ?S b l @ ?E f h q"
    using v [THEN conjunct2, THEN conjunct2] unfolding append_same_length [OF lA(1)] append_same_length [OF lA(2)] append_Cons append_Nil list.inject .
  have ef: "e = f" "(x \<noteq> None) = (y \<noteq> None)" using spend_type_inj [OF ext] w by blast+
  have kl: "k = l" if "of_nat k = (of_nat l :: u32)"
    using that assms(2,3) by (simp add: signable_def word_of_nat_eq_iff take_bit_nat_def)
  have i: "(if ?acp then in_prevout (tx_vin a ! k) = in_prevout (tx_vin b ! l) \<and> sa ! k = sb ! l \<and> in_sequence (tx_vin a ! k) = in_sequence (tx_vin b ! l) else k = l) \<and>
      ?X x @ ?S a k @ ?E e g p = ?X y @ ?S b l @ ?E e h q"
  proof (cases "?acp")
    case True
    then show ?thesis using w own_input_prefix_free [OF assms(2-7), of "?X x @ ?S a k @ ?E e g p" "?X y @ ?S b l @ ?E e h q"] ef(1) by (simp only: if_True if_False simp_thms)
  next
    case False
    then have "fst (encode_u32 (of_nat k)) = fst (encode_u32 (of_nat l)) \<and> ?X x @ ?S a k @ ?E e g p = ?X y @ ?S b l @ ?E e h q"
      using w ef(1) by (simp only: append_same_length encode_u32_length if_False simp_thms)
    then show ?thesis using False u kl by (simp only: if_False simp_thms)
  qed
  have lX: "length (?X x) = length (?X y)" using ef(2) len(1,2) by (auto split: option.splits)
  have lS: "length (?S a k) = length (?S b l)" by (simp add: l32)
  have j: "?X x = ?X y \<and> ?S a k = ?S b l \<and> ?E e g p = ?E e h q"
    using i [THEN conjunct2] unfolding append_same_length [OF lX] append_same_length [OF lS] .
  have "e = 1 \<Longrightarrow> g = h \<and> p = q" using j len(3,4) u by simp
  moreover have "x = y" using j ef(2) by (auto split: option.splits)
  moreover have "\<not> ?acp \<Longrightarrow> sha256_hash C (prevouts_buf a) = sha256_hash C (prevouts_buf b) \<and>
       sha256_hash C (amounts_buf sa) = sha256_hash C (amounts_buf sb) \<and> sha256_hash C (spk_buf sa) = sha256_hash C (spk_buf sb) \<and>
       sha256_hash C (sequence_buf a) = sha256_hash C (sequence_buf b)" using w by (simp add: l32)
  ultimately show ?thesis using h v w ef(1) i j u by (simp split: if_splits)
qed

lemma taproot_signed_commits:
  assumes "crypto_ok C" "signable a k" "signable b l" "k < length sa" "l < length sb" "list_all tx_out_ok sa" "list_all tx_out_ok sb"
    "taproot_hash_type_ok ht" "taproot_hash_type_ok hu" "e \<in> {0, 1}" "f \<in> {0, 1}"
    "\<forall>h. x = Some h \<longrightarrow> length h = 32" "\<forall>h. y = Some h \<longrightarrow> length h = 32" "length g = 32" "length h = 32"
    and single: "taproot_base_type ht = SIGHASH_SINGLE \<Longrightarrow> k < length (tx_vout a) \<and> l < length (tx_vout b)"
    and inj: "inj_on (sha256_hash C) (taproot_strings C a k ht sa e g p x \<union> taproot_strings C b l hu sb f h q y)"
    and eq: "taproot_preimage C a k ht (precomputed_new C a sa) e (Some g) (Some p) x =
      taproot_preimage C b l hu (precomputed_new C b sb) f (Some h) (Some q) y"
  shows "taproot_signed a k ht sa e g p x = taproot_signed b l hu sb f h q y"
proof -
  note f = taproot_preimage_fields [OF assms(1-15) eq]
  have ok: "list_all outpoint_ok (map in_prevout (tx_vin a))" "list_all outpoint_ok (map in_prevout (tx_vin b))"
    "list_all tx_out_ok (tx_vout a)" "list_all tx_out_ok (tx_vout b)" using assms(2,3) by (simp_all add: signable_def)
  have h: "sha256_hash C z = sha256_hash C w \<longleftrightarrow> z = w"
    if "z \<in> {prevouts_buf a, sequence_buf a, outputs_buf a, amounts_buf sa, spk_buf sa, fst (encode_tx_out (tx_vout a ! k))}"
      "w \<in> {prevouts_buf b, sequence_buf b, outputs_buf b, amounts_buf sb, spk_buf sb, fst (encode_tx_out (tx_vout b ! l))}" for z w
    using that by (intro inj_on_eq_iff [OF inj]) (auto simp: taproot_strings_def)
  have spent: "map out_value sa = map out_value sb \<Longrightarrow> map out_script_pubkey sa = map out_script_pubkey sb \<Longrightarrow> sa = sb"
    by (induction sa arbitrary: sb) (auto simp: Cons_eq_map_conv)
  have out: "tx_vout a ! k = tx_vout b ! l"
    if "taproot_base_type ht = SIGHASH_SINGLE" "fst (encode_tx_out (tx_vout a ! k)) = fst (encode_tx_out (tx_vout b ! l))"
    using that single ok(3,4) tx_out_codec.enc_prefix_free [of "tx_vout a ! k" "tx_vout b ! l" "[]" "[]"] by (auto simp: list_all_length)
  have "map in_prevout (tx_vin a) = map in_prevout (tx_vin b) \<and> sa = sb \<and> map in_sequence (tx_vin a) = map in_sequence (tx_vin b)"
    if acp: "ht AND SIGHASH_ANYONECANPAY = 0"
  proof -
    have "sha256_hash C (prevouts_buf a) = sha256_hash C (prevouts_buf b)" "sha256_hash C (amounts_buf sa) = sha256_hash C (amounts_buf sb)"
      "sha256_hash C (spk_buf sa) = sha256_hash C (spk_buf sb)" "sha256_hash C (sequence_buf a) = sha256_hash C (sequence_buf b)"
      using f acp by simp_all
    then show ?thesis using spent by (simp add: h bufs_inj(1) [OF ok(1,2)] bufs_inj(2) bufs_inj(4) bufs_inj(5) [OF assms(6,7)])
  qed
  moreover have "signs_outputs (taproot_base_type ht) \<Longrightarrow> tx_vout a = tx_vout b"
    using f by (simp add: h bufs_inj(3) [OF ok(3,4)])
  moreover have "taproot_base_type ht = SIGHASH_SINGLE \<Longrightarrow> tx_vout a ! k = tx_vout b ! l" using f h out by simp
  ultimately show ?thesis using f by (auto simp: taproot_signed_def Let_def)
qed

lemma taproot_signed_determines:
  assumes "taproot_signed a k ht sa e g p x = taproot_signed b l hu sb f h q y" "k < length sa" "l < length sb"
  shows "taproot_preimage C a k ht (precomputed_new C a sa) e (Some g) (Some p) x =
    taproot_preimage C b l hu (precomputed_new C b sb) f (Some h) (Some q) y"
  unfolding taproot_form using assms
  by (auto simp: taproot_signed_def Let_def prevouts_buf_def sequence_buf_def outputs_buf_def taproot_own_input_def
      signs_outputs_def split: if_splits)

section \<open>Main results\<close>

text \<open>C35: A legacy signature signs a transaction. For an input of the transaction, the hash type \<open>SIGHASH_SINGLE\<close> without an output
  at the index of the input gives the constant one, whatever the transaction is; every other hash is that of the serialization of
  the modified transaction that the hash type calls for, followed by the hash type. When neither of two hashes is of the first kind
  and the digest does not collide on the two strings, the hashes agree exactly when the modified transactions and the hash types do.\<close>

theorem legacy_sighash_commits:
  assumes "tx_ok True a" "tx_ok True b" "k < length (tx_vin a)" "l < length (tx_vin b)"
    "fits_max (length (remove_codeseparators sa))" "fits_max (length (remove_codeseparators sb))"
    "inj_on (hash256 C) {serialize_transaction (legacy_tx sa a k ht) False @ fst (encode_u32 ht),
      serialize_transaction (legacy_tx sb b l hu) False @ fst (encode_u32 hu)}"
  shows "signature_hash C sa a k ht =
      (if ht AND SIGHASH_OUTPUT_MASK = SIGHASH_SINGLE \<and> length (tx_vout a) \<le> k then UINT256_ONE
       else hash256 C (serialize_transaction (legacy_tx sa a k ht) False @ fst (encode_u32 ht))) \<and>
    ((ht AND SIGHASH_OUTPUT_MASK = SIGHASH_SINGLE \<longrightarrow> k < length (tx_vout a)) \<and>
     (hu AND SIGHASH_OUTPUT_MASK = SIGHASH_SINGLE \<longrightarrow> l < length (tx_vout b)) \<longrightarrow>
     (signature_hash C sa a k ht = signature_hash C sb b l hu \<longleftrightarrow> legacy_tx sa a k ht = legacy_tx sb b l hu \<and> ht = hu))"
proof -
  let ?A = "legacy_tx sa a k ht" and ?B = "legacy_tx sb b l hu"
  let ?a = "ht AND SIGHASH_OUTPUT_MASK = SIGHASH_SINGLE \<longrightarrow> k < length (tx_vout a)"
    and ?b = "hu AND SIGHASH_OUTPUT_MASK = SIGHASH_SINGLE \<longrightarrow> l < length (tx_vout b)"
  have h: "?a \<Longrightarrow> signature_hash C sa a k ht = hash256 C (serialize_transaction ?A False @ fst (encode_u32 ht))"
    "?b \<Longrightarrow> signature_hash C sb b l hu = hash256 C (serialize_transaction ?B False @ fst (encode_u32 hu))"
    using signature_hash_legacy_tx assms(3,4) by auto
  have one: "signature_hash C sa a k ht = UINT256_ONE" if "\<not> ?a"
    using that by (simp add: signature_hash_def Let_def)
  have "signature_hash C sa a k ht = signature_hash C sb b l hu \<longleftrightarrow> ?A = ?B \<and> ht = hu" if ab: "?a \<and> ?b"
  proof -
    have ok: "tx_ok False ?A" "tx_ok False ?B" using legacy_tx_ok assms ab by auto
    have "serialize_transaction ?A False @ fst (encode_u32 ht) = serialize_transaction ?B False @ fst (encode_u32 hu) \<longleftrightarrow> ?A = ?B \<and> ht = hu"
      using transaction_codec.enc_prefix_free [OF ok, of "fst (encode_u32 ht)" "fst (encode_u32 hu)"]
        u32.enc_prefix_free [of ht "[]" hu "[]"] by (auto simp: serialize_transaction_def)
    then show ?thesis using h ab inj_on_eq_iff [OF assms(7)] by simp
  qed
  then show ?thesis using h(1) one by (auto simp: not_less)
qed

theorem legacy_sighash_commits_witness:
  "signature_hash pad_crypto [] example_tx 0 SIGHASH_ALL =
   signature_hash pad_crypto [OpCodeSeparator] (strip_tx example_tx) 0 SIGHASH_ALL"
proof -
  let ?t = "strip_tx example_tx"
  have ok: "tx_ok True ?t" using example_tx_ok by (auto simp: tx_ok_def strip_tx_def witness_ok_def list_all_iff strip_witness_def tx_in_ok_def fits_max_def)
  have r: "remove_codeseparators [] = []" "remove_codeseparators [OpCodeSeparator] = []"
    by (simp_all add: remove_codeseparators_def strip_loop.simps [of _ 0] strip_loop.simps [of _ "Suc 0"] get_op_def)
  have l: "legacy_tx [] example_tx 0 SIGHASH_ALL = legacy_tx [OpCodeSeparator] ?t 0 SIGHASH_ALL"
    by (simp add: legacy_tx_def r Let_def strip_tx_def example_tx_def legacy_in_def strip_witness_def)
  have n: "0 < length (tx_vin example_tx)" "0 < length (tx_vin ?t)" "0 < length (tx_vout example_tx)" "0 < length (tx_vout ?t)"
    "fits_max (length (remove_codeseparators []))" "fits_max (length (remove_codeseparators [OpCodeSeparator]))"
    by (simp_all add: example_tx_def strip_tx_def r fits_max_def)
  have "signature_hash pad_crypto [] example_tx 0 SIGHASH_ALL = signature_hash pad_crypto [OpCodeSeparator] ?t 0 SIGHASH_ALL \<longleftrightarrow>
      legacy_tx [] example_tx 0 SIGHASH_ALL = legacy_tx [OpCodeSeparator] ?t 0 SIGHASH_ALL \<and> SIGHASH_ALL = SIGHASH_ALL"
    using n l by (intro legacy_sighash_commits [OF example_tx_ok ok, THEN conjunct2, rule_format]) auto
  then show ?thesis using l by simp
qed

text \<open>C17: A witness signature of version 0 signs what its hash type covers. Without collisions two hashes agree exactly when the
  spent output, its amount and script, the version, lock time and hash type, and the inputs, sequence numbers and
  outputs that the hash type covers are the same; hashing them once for all inputs makes no difference.\<close>

theorem v0_sighash_commits:
  assumes "crypto_ok C" "signable a k" "signable b l" "fits_max (length sa)" "fits_max (length sb)"
    "inj_on (hash256 C) (v0_strings C sa a k ht va \<union> v0_strings C sb b l hu vb)"
    "ZERO_HASH \<notin> hash256 C ` (v0_strings C sa a k ht va \<union> v0_strings C sb b l hu vb)"
  shows "witness_v0_signature_hash C sa a k ht va (precomputed_new C a spa) =
      witness_v0_signature_hash C sb b l hu vb (precomputed_new C b spb) \<longleftrightarrow>
    v0_signed sa a k ht va = v0_signed sb b l hu vb"
proof -
  have "v0_preimage C sa a k ht va (precomputed_new C a []) \<in> v0_strings C sa a k ht va"
    "v0_preimage C sb b l hu vb (precomputed_new C b []) \<in> v0_strings C sb b l hu vb" by (simp_all add: v0_strings_def)
  then have "witness_v0_signature_hash C sa a k ht va (precomputed_new C a spa) =
      witness_v0_signature_hash C sb b l hu vb (precomputed_new C b spb) \<longleftrightarrow>
      v0_preimage C sa a k ht va (precomputed_new C a []) = v0_preimage C sb b l hu vb (precomputed_new C b [])"
    using inj_on_eq_iff [OF assms(6)] by (simp add: witness_v0_signature_hash_def v0_preimage_spent [of _ _ _ _ _ _ spa] v0_preimage_spent [of _ _ _ _ _ _ spb])
  then show ?thesis using v0_signed_commits [OF assms] v0_signed_determines by blast
qed

text \<open>A crypto record whose digests keep the first byte of a string.\<close>

lemma hd_pad_sha: "x \<noteq> [] \<Longrightarrow> hd (sha256_hash pad_crypto x) = hd x" "x \<noteq> [] \<Longrightarrow> hd (hash256 pad_crypto x) = hd x"
  by (cases x) (simp_all add: pad_crypto_def pad_to_def)

lemma inj_on_hd:
  assumes "\<And>x. x \<in> S \<Longrightarrow> x \<noteq> []" "\<And>x. x \<noteq> [] \<Longrightarrow> hd (f x) = hd x" "inj_on hd S"
  shows "inj_on f S"
  by (rule inj_onI) (metis assms inj_onD)

definition signing_tx :: transaction where
  "signing_tx = \<lparr>tx_version = 2,
     tx_vin = [\<lparr>in_prevout = \<lparr>prev_txid = replicate 32 1, prev_index = 0\<rparr>, in_script_sig = [],
       in_sequence = 7, in_witness = []\<rparr>],
     tx_vout = [\<lparr>out_value = 5, out_script_pubkey = [OpDup]\<rparr>], tx_lock_time = 0\<rparr>"

lemma signing_tx_signable: "signable signing_tx 0"
  by (simp add: signable_def signing_tx_def outpoint_ok_def tx_out_ok_def fits_max_def unat_MAX_SIZE)

lemma signing_bufs:
  "prevouts_buf signing_tx = replicate 32 1 @ [0, 0, 0, 0]" "sequence_buf signing_tx = [7, 0, 0, 0]"
  "outputs_buf signing_tx = [5, 0, 0, 0, 0, 0, 0, 0, 1, OpDup]"
  "fst (encode_tx_out (tx_vout signing_tx ! 0)) = [5, 0, 0, 0, 0, 0, 0, 0, 1, OpDup]"
  by code_simp+

theorem v0_sighash_commits_witness:
  "witness_v0_signature_hash pad_crypto [] signing_tx 0 SIGHASH_ALL 5 (precomputed_new pad_crypto signing_tx []) =
   witness_v0_signature_hash pad_crypto [] signing_tx 0 SIGHASH_ALL 5 (precomputed_new pad_crypto signing_tx (tx_vout signing_tx))"
proof -
  let ?S = "v0_strings pad_crypto [] signing_tx 0 SIGHASH_ALL 5"
  have "v0_preimage pad_crypto [] signing_tx 0 SIGHASH_ALL 5 (precomputed_new pad_crypto signing_tx []) =
      2 # tl (v0_preimage pad_crypto [] signing_tx 0 SIGHASH_ALL 5 (precomputed_new pad_crypto signing_tx []))" by code_simp
  then obtain r where pre: "v0_preimage pad_crypto [] signing_tx 0 SIGHASH_ALL 5 (precomputed_new pad_crypto signing_tx []) = 2 # r"
    by blast
  have "inj_on (hash256 pad_crypto) ?S"
    by (rule inj_on_hd [OF _ hd_pad_sha(2)]) (auto simp: v0_strings_def signing_bufs pre inj_on_def)
  moreover have "ZERO_HASH \<notin> hash256 pad_crypto ` ?S"
    using hd_pad_sha(2) by (auto simp: v0_strings_def signing_bufs pre ZERO_HASH_def dest!: arg_cong [of _ _ hd])
  ultimately show ?thesis
    using v0_sighash_commits [OF pad_crypto_ok signing_tx_signable signing_tx_signable, of "[]" "[]" SIGHASH_ALL 5 SIGHASH_ALL 5 "[]" "tx_vout signing_tx"]
    by (simp add: fits_max_def)
qed

text \<open>C18: A taproot signature signs what its hash type covers. There is a hash exactly when the hash type is valid and, for
  \<open>SIGHASH_SINGLE\<close>, the transaction has an output at the index of the input. When there are both hashes and no digests collide, two
  hashes agree exactly when version, lock time, hash type and annex, the covered inputs with the amounts and scripts they spend, the
  covered outputs and, in a script path, the leaf and the position of the last code separator are the same.\<close>

theorem taproot_sighash_commits:
  assumes "crypto_ok C" "signable a k" "signable b l" "k < length sa" "l < length sb" "list_all tx_out_ok sa" "list_all tx_out_ok sb"
    "e \<in> {0, 1}" "f \<in> {0, 1}"
    "\<forall>h. x = Some h \<longrightarrow> length h = 32" "\<forall>h. y = Some h \<longrightarrow> length h = 32" "length g = 32" "length h = 32"
    "inj_on (sha256_hash C) (taproot_strings C a k ht sa e g p x \<union> taproot_strings C b l hu sb f h q y)"
  shows "((\<exists>s. taproot_signature_hash C a k ht (precomputed_new C a sa) e (Some g) (Some p) x = Some s) \<longleftrightarrow>
      taproot_hash_type_ok ht \<and> (taproot_base_type ht = SIGHASH_SINGLE \<longrightarrow> k < length (tx_vout a))) \<and>
    (taproot_hash_type_ok ht \<and> (taproot_base_type ht = SIGHASH_SINGLE \<longrightarrow> k < length (tx_vout a)) \<and>
     taproot_hash_type_ok hu \<and> (taproot_base_type hu = SIGHASH_SINGLE \<longrightarrow> l < length (tx_vout b)) \<longrightarrow>
     (taproot_signature_hash C a k ht (precomputed_new C a sa) e (Some g) (Some p) x =
       taproot_signature_hash C b l hu (precomputed_new C b sb) f (Some h) (Some q) y \<longleftrightarrow>
      taproot_signed a k ht sa e g p x = taproot_signed b l hu sb f h q y))"
proof -
  let ?P = "taproot_preimage C a k ht (precomputed_new C a sa) e (Some g) (Some p) x"
    and ?Q = "taproot_preimage C b l hu (precomputed_new C b sb) f (Some h) (Some q) y"
  have "taproot_signature_hash C a k ht (precomputed_new C a sa) e (Some g) (Some p) x =
      taproot_signature_hash C b l hu (precomputed_new C b sb) f (Some h) (Some q) y \<longleftrightarrow>
      taproot_signed a k ht sa e g p x = taproot_signed b l hu sb f h q y"
    if ok: "taproot_hash_type_ok ht" "taproot_hash_type_ok hu"
      and out: "taproot_base_type ht = SIGHASH_SINGLE \<longrightarrow> k < length (tx_vout a)" "taproot_base_type hu = SIGHASH_SINGLE \<longrightarrow> l < length (tx_vout b)"
  proof -
    have s: "taproot_signature_hash C a k ht (precomputed_new C a sa) e (Some g) (Some p) x = Some (tagged_hash C tag_TapSighash ?P)"
      "taproot_signature_hash C b l hu (precomputed_new C b sb) f (Some h) (Some q) y = Some (tagged_hash C tag_TapSighash ?Q)"
      using ok out by (auto simp: taproot_signature_hash_def)
    have "tagged_hash C tag_TapSighash ?P = tagged_hash C tag_TapSighash ?Q \<longleftrightarrow> ?P = ?Q"
      unfolding tagged_hash_def Let_def by (subst inj_on_eq_iff [OF assms(14)]) (auto simp: taproot_strings_def)
    moreover have "?P = ?Q \<Longrightarrow> ht = hu" using taproot_preimage_fields [OF assms(1-7) ok assms(8-13)] by blast
    then have "?P = ?Q \<longleftrightarrow> taproot_signed a k ht sa e g p x = taproot_signed b l hu sb f h q y"
      using taproot_signed_commits [OF assms(1-7) ok assms(8-13) _ assms(14)] taproot_signed_determines [OF _ assms(4,5)] out by blast
    ultimately show ?thesis using s by simp
  qed
  then show ?thesis by (auto simp: taproot_signature_hash_def)
qed

text \<open>Another script in the input changes nothing.\<close>

definition signed_tx :: transaction where
  "signed_tx = signing_tx\<lparr>tx_vin := map (\<lambda>i. i\<lparr>in_script_sig := [OpDup]\<rparr>) (tx_vin signing_tx)\<rparr>"

theorem taproot_sighash_commits_witness:
  "taproot_signature_hash pad_crypto signing_tx 0 SIGHASH_ALL (precomputed_new pad_crypto signing_tx [\<lparr>out_value = 9, out_script_pubkey = [OpDup, OpDup]\<rparr>])
     0 (Some ZERO_HASH) (Some 0) None =
   taproot_signature_hash pad_crypto signed_tx 0 SIGHASH_ALL (precomputed_new pad_crypto signed_tx [\<lparr>out_value = 9, out_script_pubkey = [OpDup, OpDup]\<rparr>])
     0 (Some ZERO_HASH) (Some 0) None"
proof -
  let ?s = "[\<lparr>out_value = 9, out_script_pubkey = [OpDup, OpDup]\<rparr>]" and ?C = pad_crypto
  let ?S = "\<lambda>tx. taproot_strings ?C tx 0 SIGHASH_ALL ?s 0 ZERO_HASH 0 None"
  have b: "amounts_buf ?s = [9, 0, 0, 0, 0, 0, 0, 0]" "spk_buf ?s = [2, OpDup, OpDup]" by code_simp+
  have "sha256_hash ?C tag_TapSighash = 0x54 # tl (sha256_hash ?C tag_TapSighash)" by code_simp
  then obtain r where t: "sha256_hash ?C tag_TapSighash = 0x54 # r" by blast
  have sg: "signable signed_tx 0" using signing_tx_signable by (simp add: signable_def signed_tx_def list_all_iff)
  have n: "taproot_signed signing_tx 0 SIGHASH_ALL ?s 0 ZERO_HASH 0 None = taproot_signed signed_tx 0 SIGHASH_ALL ?s 0 ZERO_HASH 0 None"
    by (simp add: taproot_signed_def Let_def signed_tx_def signing_tx_def)
  have "taproot_preimage ?C signing_tx 0 SIGHASH_ALL (precomputed_new ?C signing_tx ?s) 0 (Some ZERO_HASH) (Some 0) None =
      taproot_preimage ?C signed_tx 0 SIGHASH_ALL (precomputed_new ?C signed_tx ?s) 0 (Some ZERO_HASH) (Some 0) None"
    using taproot_signed_determines [OF n] by simp
  moreover have "prevouts_buf signed_tx = prevouts_buf signing_tx" "sequence_buf signed_tx = sequence_buf signing_tx"
    "outputs_buf signed_tx = outputs_buf signing_tx" "tx_vout signed_tx = tx_vout signing_tx"
    by (simp_all add: signed_tx_def signing_tx_def prevouts_buf_def sequence_buf_def outputs_buf_def)
  ultimately have S: "?S signed_tx = ?S signing_tx" by (simp add: taproot_strings_def)
  have "inj_on (sha256_hash ?C) (?S signing_tx)"
    by (rule inj_on_hd [OF _ hd_pad_sha(1)], use t in \<open>auto simp: taproot_strings_def signing_bufs b inj_on_def\<close>)
  then have "taproot_signature_hash ?C signing_tx 0 SIGHASH_ALL (precomputed_new ?C signing_tx ?s) 0 (Some ZERO_HASH) (Some 0) None =
      taproot_signature_hash ?C signed_tx 0 SIGHASH_ALL (precomputed_new ?C signed_tx ?s) 0 (Some ZERO_HASH) (Some 0) None \<longleftrightarrow>
    taproot_signed signing_tx 0 SIGHASH_ALL ?s 0 ZERO_HASH 0 None = taproot_signed signed_tx 0 SIGHASH_ALL ?s 0 ZERO_HASH 0 None"
    using S by (intro taproot_sighash_commits [OF pad_crypto_ok signing_tx_signable sg, THEN conjunct2, rule_format])
      (simp_all add: tx_out_ok_def fits_max_def unat_MAX_SIZE ZERO_HASH_def taproot_hash_type_ok_def SIGHASH_ALL_def SIGHASH_SINGLE_def
        taproot_base_type_def SIGHASH_OUTPUT_MASK_def)
  then show ?thesis using n by blast
qed

end
