(* ===== verification/Pow.thy ===== *)
theory Pow
  imports TxCheck
begin

text \<open>
  Difficulty adjustment, \<open>qubitcoin-common/src/pow.rs\<close>. Heights are 32-bit numbers, times and time
  spans the integers of the source's \<open>i64\<close>; the conversions to \<open>u64\<close> and \<open>i32\<close> are written out.
  The divisions fail for a zero divisor.
\<close>

section \<open>Definitions\<close>

text \<open>The steps \<open>new_target * from(n) / from(d)\<close> and the clamp to the limit, which the source writes
  three times.\<close>

definition scale_target :: "arith_uint256 \<Rightarrow> int \<Rightarrow> consensus_params \<Rightarrow> arith_error + arith_uint256" where
  "scale_target target timespan params =
     (let pow_lim = uint256_to_arith (pow_limit params) in
      case au_div (au_mul target (au_from_u64 (word_of_int timespan)))
             (au_from_u64 (word_of_int (pow_target_timespan params))) of
        Inl e \<Rightarrow> Inl e
      | Inr new_target \<Rightarrow> Inr (if au_compare_to new_target pow_lim = Greater then pow_lim else new_target))"

definition limit_timespan :: "int \<Rightarrow> int \<Rightarrow> int" where
  "limit_timespan actual_timespan target_timespan =
     (let actual_timespan = (if actual_timespan < target_timespan sdiv 4 then target_timespan sdiv 4 else actual_timespan)
      in if actual_timespan > target_timespan * 4 then target_timespan * 4 else actual_timespan)"

definition calculate_next_work_required ::
  "u32 \<Rightarrow> u32 \<Rightarrow> int \<Rightarrow> int \<Rightarrow> consensus_params \<Rightarrow> arith_error + u32" where
  "calculate_next_work_required current_bits first_bits first_block_time last_block_time params =
     (if pow_no_retargeting params then Inr current_bits
      else
        let actual_timespan = limit_timespan (last_block_time - first_block_time) (pow_target_timespan params);
            new_target = fst (set_compact (if enforce_bip94 params then first_bits else current_bits))
        in case scale_target new_target actual_timespan params of
             Inl e \<Rightarrow> Inl e
           | Inr new_target \<Rightarrow> Inr (get_compact new_target False))"

definition get_next_work_required ::
  "32 word \<Rightarrow> u32 \<Rightarrow> u32 \<Rightarrow> u32 \<Rightarrow> u32 \<Rightarrow> u32 \<Rightarrow> u32 \<Rightarrow> consensus_params \<Rightarrow> arith_error + u32" where
  "get_next_work_required last_height last_bits last_time first_time first_bits block_time
     last_non_special_bits params =
     (let n_proof_of_work_limit = get_compact (uint256_to_arith (pow_limit params)) False;
          interval = difficulty_adjustment_interval params;
          interval_i32 = sint (word_of_int interval :: 32 word)
      in if interval_i32 = 0 then Inl DivisionByZero
         else if sint (last_height + 1) smod interval_i32 \<noteq> 0 then
           if pow_allow_min_difficulty_blocks params then
             if uint block_time > uint last_time + pow_target_spacing params * 2
             then Inr n_proof_of_work_limit
             else Inr last_non_special_bits
           else Inr last_bits
         else calculate_next_work_required last_bits first_bits (uint first_time) (uint last_time) params)"

text \<open>The bound on the new target for one of the two extreme time spans, after the round trip through the
  compact form.\<close>

definition extreme_target :: "u32 \<Rightarrow> int \<Rightarrow> consensus_params \<Rightarrow> arith_error + arith_uint256" where
  "extreme_target old_nbits timespan params =
     (case scale_target (fst (set_compact old_nbits)) timespan params of
        Inl e \<Rightarrow> Inl e
      | Inr target \<Rightarrow> Inr (fst (set_compact (get_compact target False))))"

definition permitted_difficulty_transition :: "consensus_params \<Rightarrow> int \<Rightarrow> u32 \<Rightarrow> u32 \<Rightarrow> arith_error + bool" where
  "permitted_difficulty_transition params height old_nbits new_nbits =
     (if pow_allow_min_difficulty_blocks params then Inr True
      else
        let interval = difficulty_adjustment_interval params in
        if interval = 0 then Inl DivisionByZero
        else if height smod interval = 0 then
          let smallest_timespan = pow_target_timespan params sdiv 4;
              largest_timespan = pow_target_timespan params * 4;
              observed_new_target = fst (set_compact new_nbits)
          in case extreme_target old_nbits largest_timespan params of
               Inl e \<Rightarrow> Inl e
             | Inr maximum_new_target \<Rightarrow>
                 if au_compare_to maximum_new_target observed_new_target = Less then Inr False
                 else case extreme_target old_nbits smallest_timespan params of
                     Inl e \<Rightarrow> Inl e
                   | Inr minimum_new_target \<Rightarrow>
                       Inr (\<not> au_compare_to minimum_new_target observed_new_target = Greater)
        else Inr (old_nbits = new_nbits))"

definition check_minimum_difficulty :: "u32 \<Rightarrow> u32 \<Rightarrow> consensus_params \<Rightarrow> bool" where
  "check_minimum_difficulty block_time last_time params \<longleftrightarrow>
     pow_allow_min_difficulty_blocks params \<and> uint block_time - uint last_time > pow_target_spacing params * 2"

section \<open>Rounding to the compact form\<close>

definition compact_round :: "arith_uint256 \<Rightarrow> nat" where
  "compact_round a = compact_value (get_compact a False)"

lemma compact_round_trunc:
  assumes "au_ok a"
  shows "\<exists>k. compact_round a = unat (au_word a) div 256 ^ k * 256 ^ k \<and>
    (k \<noteq> 0 \<longrightarrow> 2 ^ 15 * 256 ^ k \<le> unat (au_word a))"
  unfolding compact_round_def using get_compact_value [OF assms] compact_drop_bound [OF assms] by blast

lemma compact_round_le: "au_ok a \<Longrightarrow> compact_round a \<le> unat (au_word a)"
  using compact_round_trunc by fastforce

lemma compact_round_loss:
  assumes "au_ok a"
  shows "(unat (au_word a) - compact_round a) * 2 ^ 15 \<le> unat (au_word a)"
proof -
  let ?A = "unat (au_word a)"
  obtain k where k: "compact_round a = ?A div 256 ^ k * 256 ^ k" "k \<noteq> 0 \<longrightarrow> 2 ^ 15 * 256 ^ k \<le> ?A"
    using compact_round_trunc [OF assms] by blast
  have m: "?A - compact_round a = ?A mod 256 ^ k" unfolding k(1) by (rule minus_div_mult_eq_mod)
  have "?A mod 256 ^ k \<le> 256 ^ k" by simp
  then have "?A mod 256 ^ k * 2 ^ 15 \<le> 256 ^ k * 2 ^ 15" by (rule mult_le_mono1)
  also have "256 ^ k * 2 ^ 15 = 2 ^ 15 * (256 :: nat) ^ k" by (rule mult.commute)
  finally have "k \<noteq> 0 \<Longrightarrow> ?A mod 256 ^ k * 2 ^ 15 \<le> ?A" using k(2) by (blast intro: order_trans)
  then show ?thesis unfolding m by (cases "k = 0") simp_all
qed

text \<open>Rounding gives the greatest compact number that is not above the argument.\<close>

lemma compact_round_greatest:
  assumes "au_ok a" "compact_value c \<le> unat (au_word a)"
  shows "compact_value c \<le> compact_round a"
proof -
  let ?A = "unat (au_word a)"
  obtain k where k: "compact_round a = ?A div 256 ^ k * 256 ^ k" "k \<noteq> 0 \<longrightarrow> 2 ^ 15 * 256 ^ k \<le> ?A"
    using compact_round_trunc [OF assms(1)] by blast
  obtain m j where c: "compact_value c = m * 256 ^ j" "m < 2 ^ 23" using compact_value_form by blast
  show ?thesis
  proof (cases "k \<le> j")
    case True
    then have "compact_value c = compact_value c div 256 ^ k * 256 ^ k"
      unfolding c(1) by (simp add: le_imp_power_dvd)
    also have "\<dots> \<le> ?A div 256 ^ k * 256 ^ k" using assms(2) by (intro mult_le_mono1 div_le_mono)
    finally show ?thesis by (simp add: k(1))
  next
    case False
    then have "2 ^ 15 * 256 ^ k \<le> ?A" using k(2) by simp
    then have "2 ^ 15 \<le> ?A div 256 ^ k" by (simp add: less_eq_div_iff_mult_less_eq)
    then have "2 ^ 15 * 256 ^ k \<le> compact_round a" unfolding k(1) by (rule mult_le_mono1)
    moreover have "(256::nat) ^ Suc j \<le> 256 ^ k" using False by (intro power_increasing) simp_all
    ultimately have b: "2 ^ 15 * 256 ^ Suc j \<le> compact_round a"
      by (meson mult_le_mono2 order_trans)
    have "m * 256 ^ j \<le> 2 ^ 23 * 256 ^ j" using c(2) by (intro mult_le_mono1) simp
    also have "\<dots> = 2 ^ 15 * 256 ^ Suc j" by simp
    finally show ?thesis unfolding c(1) using b by (rule order_trans)
  qed
qed

lemma compact_round_mono:
  assumes "au_ok a" "au_ok b" "unat (au_word a) \<le> unat (au_word b)"
  shows "compact_round a \<le> compact_round b"
  using compact_round_greatest [OF assms(2), of "get_compact a False"] compact_round_le [OF assms(1)] assms(3)
  by (simp add: compact_round_def)


section \<open>Scaling a target\<close>

definition pow_limit_nat :: "consensus_params \<Rightarrow> nat" where
  "pow_limit_nat params = le_nat (pow_limit params)"

text \<open>The products of the retarget step stay below \<open>2^256\<close>: on the networks that retarget the limit leaves room
  for four time spans.\<close>

definition retarget_room :: "consensus_params \<Rightarrow> bool" where
  "retarget_room params \<longleftrightarrow> pow_limit_nat params * (4 * nat (pow_target_timespan params)) < 2 ^ 256"

lemma au_from_int:
  assumes "0 \<le> n" "n < 2 ^ 64"
  shows "au_ok (au_from_u64 (word_of_int n)) \<and> unat (au_word (au_from_u64 (word_of_int n))) = nat n"
proof -
  have "uint (word_of_int n :: u64) = n" using assms by (simp add: uint_word_of_int_eq take_bit_int_eq_self)
  then have "unat (word_of_int n :: u64) = nat n" by (simp only: unat_eq_nat_uint)
  then show ?thesis using au_from_u64_word [of "word_of_int n"] by (simp add: unat_ucast_widen)
qed

lemma scale_target_value:
  assumes "params_ok params" "au_ok t" "0 \<le> n" "n < 2 ^ 64" "unat (au_word t) * nat n < 2 ^ 256"
  shows "\<exists>r. scale_target t n params = Inr r \<and> au_ok r \<and>
    unat (au_word r) = min (unat (au_word t) * nat n div nat (pow_target_timespan params)) (pow_limit_nat params)"
proof -
  have ts: "0 < pow_target_timespan params" "pow_target_timespan params < 2 ^ 64" and lim: "length (pow_limit params) = 32"
    using assms(1) by (auto simp: params_ok_def)
  define m d where "m = au_mul t (au_from_u64 (word_of_int n))"
    and "d = au_from_u64 (word_of_int (pow_target_timespan params))"
  have m: "au_ok m" "unat (au_word m) = unat (au_word t) * nat n"
    using au_mul_word [OF assms(2), of "au_from_u64 (word_of_int n)"] au_from_int [OF assms(3,4)] assms(5)
    by (simp_all add: m_def unat_word_ariths)
  have d: "au_ok d" "unat (au_word d) = nat (pow_target_timespan params)"
    using au_from_int [of "pow_target_timespan params"] ts by (simp_all add: d_def)
  then have "au_word d \<noteq> 0" using ts by auto
  then obtain q where q: "au_div m d = Inr q" "au_ok q" "au_word q = au_word m div au_word d"
    using au_div_word(2) [OF m(1) d(1)] by blast
  then have "unat (au_word q) = unat (au_word t) * nat n div nat (pow_target_timespan params)"
    using m d by (simp add: unat_div)
  then show ?thesis
    using q uint256_to_arith_word [OF lim] au_word_uint256 [OF lim]
    by (auto simp: scale_target_def Let_def m_def [symmetric] d_def [symmetric] au_compare_Greater
        pow_limit_nat_def min_def)
qed

lemma limit_timespan_bounds:
  assumes "params_ok params"
  shows "pow_target_timespan params sdiv 4 \<le> limit_timespan a (pow_target_timespan params)"
    "limit_timespan a (pow_target_timespan params) \<le> pow_target_timespan params * 4"
    "0 < pow_target_timespan params sdiv 4" "pow_target_timespan params sdiv 4 \<le> pow_target_timespan params"
proof -
  have "pow_target_timespan params sdiv 4 = pow_target_timespan params div 4" "4 \<le> pow_target_timespan params"
    using assms by (auto simp: params_ok_def signed_divide_int_def sgn_if)
  then show "pow_target_timespan params sdiv 4 \<le> limit_timespan a (pow_target_timespan params)"
    "limit_timespan a (pow_target_timespan params) \<le> pow_target_timespan params * 4"
    "0 < pow_target_timespan params sdiv 4" "pow_target_timespan params sdiv 4 \<le> pow_target_timespan params"
    by (auto simp: limit_timespan_def Let_def)
qed

text \<open>The target that a time span gives, as a number.\<close>

definition new_target_nat :: "u32 \<Rightarrow> int \<Rightarrow> consensus_params \<Rightarrow> nat" where
  "new_target_nat bits timespan params =
     min (compact_value bits * nat timespan div nat (pow_target_timespan params)) (pow_limit_nat params)"

lemma scaled_compact:
  assumes "params_ok params" "retarget_room params" "compact_value bits \<le> pow_limit_nat params"
    "0 \<le> n" "n \<le> pow_target_timespan params * 4"
  shows "\<exists>r. scale_target (fst (set_compact bits)) n params = Inr r \<and> au_ok r \<and>
    unat (au_word r) = new_target_nat bits n params"
proof -
  have b: "compact_value bits * nat n \<le> pow_limit_nat params * (4 * nat (pow_target_timespan params))"
    using assms(3,5) by (intro mult_le_mono) auto
  have "pow_limit_nat params < 2 ^ 256"
    using assms(1) unat_less_pow [of "au_word (uint256_to_arith (pow_limit params))"]
    by (simp add: params_ok_def au_word_uint256 pow_limit_nat_def)
  then have t: "au_ok (fst (set_compact bits))" "unat (au_word (fst (set_compact bits))) = compact_value bits"
    using set_compact_word [of bits "fst (set_compact bits)"] assms(3)
    by (metis prod.collapse, metis (no_types, lifting) le_less_trans mod_less prod.collapse)
  have "n < 2 ^ 64" using assms(1,5) by (simp add: params_ok_def)
  then show ?thesis
    using scale_target_value [OF assms(1) t(1) assms(4)] t(2) b assms(2)
    by (simp add: new_target_nat_def retarget_room_def)
qed

lemma new_target_mono:
  "m \<le> n \<Longrightarrow> new_target_nat bits m params \<le> new_target_nat bits n params"
  unfolding new_target_nat_def by (intro min.mono div_le_mono mult_le_mono nat_mono) auto

lemma extreme_target_value:
  assumes "params_ok params" "retarget_room params" "compact_value bits \<le> pow_limit_nat params"
    "0 \<le> n" "n \<le> pow_target_timespan params * 4"
  shows "\<exists>r b. scale_target (fst (set_compact bits)) n params = Inr r \<and> au_ok r \<and>
    unat (au_word r) = new_target_nat bits n params \<and>
    extreme_target bits n params = Inr b \<and> au_ok b \<and> unat (au_word b) = compact_round r"
proof -
  obtain r where r: "scale_target (fst (set_compact bits)) n params = Inr r" "au_ok r"
    "unat (au_word r) = new_target_nat bits n params"
    using scaled_compact [OF assms] by blast
  have "compact_round r < 2 ^ 256"
    using compact_round_le [OF r(2)] unat_less_pow [of "au_word r"] by simp
  then have "au_ok (fst (set_compact (get_compact r False))) \<and>
      unat (au_word (fst (set_compact (get_compact r False)))) = compact_round r"
    using set_compact_word [of "get_compact r False" "fst (set_compact (get_compact r False))"]
    by (metis compact_round_def mod_less prod.collapse)
  then show ?thesis using r by (simp add: extreme_target_def)
qed


section \<open>Main results\<close>

lemma calculate_next_work_value:
  fixes bits first_bits :: u32 and t0 t1 :: int
  defines "base \<equiv> \<lambda>params. if enforce_bip94 params then first_bits else bits"
  assumes "params_ok params" "retarget_room params" "\<not> pow_no_retargeting params"
    "compact_value (base params) \<le> pow_limit_nat params"
  defines "n \<equiv> limit_timespan (t1 - t0) (pow_target_timespan params)"
  shows "\<exists>r. calculate_next_work_required bits first_bits t0 t1 params = Inr (get_compact r False) \<and> au_ok r \<and>
    unat (au_word r) = new_target_nat (base params) n params \<and>
    scale_target (fst (set_compact (base params))) n params = Inr r"
proof -
  note l = limit_timespan_bounds(1,2) [OF assms(2), of "t1 - t0", folded n_def] limit_timespan_bounds(3) [OF assms(2)]
  obtain r where "scale_target (fst (set_compact (base params))) n params = Inr r" "au_ok r"
    "unat (au_word r) = new_target_nat (base params) n params"
    using scaled_compact [OF assms(2,3,5), of n] l by auto
  then show ?thesis using assms(4) by (simp add: calculate_next_work_required_def n_def Let_def base_def)
qed

text \<open>C37: The retarget computes what it should. A network that does not retarget keeps the bits of the last block. On every other
  network the base is the target of the last block of the period, or of the first one where BIP94 is enforced; when it respects the
  limit, and four times the planned time span times the limit is below \<open>2^256\<close>, the product does not overflow and the new target is the base times the actual time span, clamped to a quarter and
  four times the planned one, over the planned time span, at most the limit. The compact result is not negative, does not
  exceed that number and loses at most one part in \<open>2^15\<close>.\<close>

theorem retarget_exact:
  assumes "params_ok params"
    "pow_no_retargeting params \<or>
      retarget_room params \<and> compact_value (if enforce_bip94 params then first_bits else bits) \<le> pow_limit_nat params"
  shows "\<exists>c. calculate_next_work_required bits first_bits t0 t1 params = Inr c \<and>
    (if pow_no_retargeting params then c = bits
     else \<not> bit c 23 \<and>
       (let target = min (compact_value (if enforce_bip94 params then first_bits else bits) *
             nat (max (pow_target_timespan params div 4) (min (t1 - t0) (pow_target_timespan params * 4)))
             div nat (pow_target_timespan params)) (pow_limit_nat params)
        in compact_value c \<le> target \<and> (target - compact_value c) * 2 ^ 15 \<le> target))"
proof (cases "pow_no_retargeting params")
  case True
  then show ?thesis by (simp add: calculate_next_work_required_def)
next
  case False
  let ?base = "if enforce_bip94 params then first_bits else bits"
  have "limit_timespan (t1 - t0) (pow_target_timespan params) =
      max (pow_target_timespan params div 4) (min (t1 - t0) (pow_target_timespan params * 4))"
    using assms(1) by (auto simp: params_ok_def signed_divide_int_def sgn_if limit_timespan_def Let_def)
  moreover obtain r where r: "calculate_next_work_required bits first_bits t0 t1 params = Inr (get_compact r False)"
    "au_ok r" "unat (au_word r) = new_target_nat ?base (limit_timespan (t1 - t0) (pow_target_timespan params)) params"
    using calculate_next_work_value [OF assms(1) _ False, of first_bits bits t0 t1] assms(2) False by auto
  ultimately have "unat (au_word r) = new_target_nat ?base
      (max (pow_target_timespan params div 4) (min (t1 - t0) (pow_target_timespan params * 4))) params"
    by simp
  then show ?thesis
    using r(1) False compact_round_le [OF r(2)] compact_round_loss [OF r(2)] get_compact_value [OF r(2), THEN conjunct2]
    unfolding Let_def compact_round_def new_target_nat_def by metis
qed

lemma mainnet_room: "params_ok mainnet \<and> retarget_room mainnet \<and> pow_limit_nat mainnet = 2 ^ 224 - 1"
proof -
  have "pow_limit_nat mainnet = 2 ^ 224 - 1"
    by (simp add: pow_limit_nat_def mainnet_def hash_lit_def le_nat_to_le_bytes)
  moreover have "pow_target_timespan mainnet = 1209600" by (simp add: mainnet_def)
  ultimately show ?thesis using networks_ok by (simp add: retarget_room_def)
qed

lemma genesis_bits: "compact_value 0x1d00ffff = 0xffff * 256 ^ 26"
  by (simp add: compact_value_def)

theorem retarget_exact_witness:
  "\<exists>c. calculate_next_work_required 0x1d00ffff 0 0 1209600 mainnet = Inr c \<and> compact_value c \<le> 0xffff * 256 ^ 26"
proof -
  have "\<not> pow_no_retargeting mainnet" "\<not> enforce_bip94 mainnet" "pow_target_timespan mainnet = 1209600"
    by (simp_all add: mainnet_def)
  then show ?thesis
    using retarget_exact [of mainnet 0 "0x1d00ffff" 0 1209600] mainnet_room genesis_bits by (auto simp: Let_def)
qed

text \<open>The window of the permitted transitions.\<close>

lemma permitted_iff:
  assumes "params_ok params" "retarget_room params" "compact_value bits \<le> pow_limit_nat params"
    "height smod difficulty_adjustment_interval params = 0" "\<not> pow_allow_min_difficulty_blocks params"
    "compact_value new < 2 ^ 256"
  shows "\<exists>lo hi. permitted_difficulty_transition params height bits new =
      Inr (compact_round lo \<le> compact_value new \<and> compact_value new \<le> compact_round hi) \<and> au_ok lo \<and> au_ok hi \<and>
    unat (au_word lo) = new_target_nat bits (pow_target_timespan params sdiv 4) params \<and>
    unat (au_word hi) = new_target_nat bits (pow_target_timespan params * 4) params"
proof -
  note l = limit_timespan_bounds [OF assms(1)]
  have n: "0 \<le> pow_target_timespan params sdiv 4" "pow_target_timespan params sdiv 4 \<le> pow_target_timespan params * 4"
    "0 \<le> pow_target_timespan params * 4" "difficulty_adjustment_interval params \<noteq> 0"
    using l assms(1) by (auto simp: params_ok_def)
  obtain lo b where lo: "au_ok lo" "unat (au_word lo) = new_target_nat bits (pow_target_timespan params sdiv 4) params"
    "extreme_target bits (pow_target_timespan params sdiv 4) params = Inr b" "au_ok b" "unat (au_word b) = compact_round lo"
    using extreme_target_value [OF assms(1-3) n(1,2)] by blast
  obtain hi b' where hi: "au_ok hi" "unat (au_word hi) = new_target_nat bits (pow_target_timespan params * 4) params"
    "extreme_target bits (pow_target_timespan params * 4) params = Inr b'" "au_ok b'" "unat (au_word b') = compact_round hi"
    using extreme_target_value [OF assms(1-3) n(3)] by blast
  have ob: "au_ok (fst (set_compact new))" "unat (au_word (fst (set_compact new))) = compact_value new"
    using set_compact_word [of new "fst (set_compact new)"] assms(6) by (metis prod.collapse, metis mod_less prod.collapse)
  have "au_compare_to b' (fst (set_compact new)) = Less \<longleftrightarrow> compact_round hi < compact_value new"
    "au_compare_to b (fst (set_compact new)) = Greater \<longleftrightarrow> compact_value new < compact_round lo"
    using lo(4,5) hi(4,5) ob
    by (auto simp: au_compare_word word_less_nat_alt word_unat_eq_iff)
  then have "permitted_difficulty_transition params height bits new =
      Inr (compact_round lo \<le> compact_value new \<and> compact_value new \<le> compact_round hi)"
    using assms(4,5) n(4) lo(3) hi(3)
    by (auto simp: permitted_difficulty_transition_def Let_def not_less)
  then show ?thesis using lo hi by blast
qed

lemma pow_limit_less: "params_ok params \<Longrightarrow> pow_limit_nat params < 2 ^ 256"
  using unat_less_pow [of "au_word (uint256_to_arith (pow_limit params))"]
  by (simp add: params_ok_def au_word_uint256 pow_limit_nat_def)

lemma permitted_round:
  assumes "params_ok params" "retarget_room params" "compact_value bits \<le> pow_limit_nat params"
    "height smod difficulty_adjustment_interval params = 0"
    and r: "au_ok r" "compact_value c = compact_round r"
      "new_target_nat bits (pow_target_timespan params sdiv 4) params \<le> unat (au_word r)"
      "unat (au_word r) \<le> new_target_nat bits (pow_target_timespan params * 4) params"
  shows "permitted_difficulty_transition params height bits c = Inr True"
proof (cases "pow_allow_min_difficulty_blocks params")
  case False
  have "compact_value c < 2 ^ 256"
    unfolding r(2) using compact_round_le [OF r(1)] unat_less_pow [of "au_word r"] by simp
  then obtain lo hi where p: "permitted_difficulty_transition params height bits c =
      Inr (compact_round lo \<le> compact_round r \<and> compact_round r \<le> compact_round hi)" "au_ok lo" "au_ok hi"
    "unat (au_word lo) = new_target_nat bits (pow_target_timespan params sdiv 4) params"
    "unat (au_word hi) = new_target_nat bits (pow_target_timespan params * 4) params"
    using permitted_iff [OF assms(1-4) False, of c] r(2) by auto
  then have "compact_round lo \<le> compact_round r" "compact_round r \<le> compact_round hi"
    using r by (auto intro!: compact_round_mono)
  then show ?thesis using p(1) by simp
qed (simp add: permitted_difficulty_transition_def)

lemma unchanged_permitted:
  assumes "params_ok params" "retarget_room params" "compact_value bits \<le> pow_limit_nat params"
    "height smod difficulty_adjustment_interval params = 0"
  shows "permitted_difficulty_transition params height bits bits = Inr True"
proof (rule permitted_round [OF assms, of "fst (set_compact bits)"])
  have w: "au_ok (fst (set_compact bits)) \<and> unat (au_word (fst (set_compact bits))) = compact_value bits"
    using set_compact_word [of bits "fst (set_compact bits)"] assms(3) pow_limit_less [OF assms(1)]
    by (metis le_less_trans mod_less prod.collapse)
  then show "au_ok (fst (set_compact bits))"
    "compact_value bits = compact_round (fst (set_compact bits))"
    using compact_round_le [of "fst (set_compact bits)"] compact_round_greatest [of "fst (set_compact bits)" bits]
    by simp_all
  have ts: "0 < nat (pow_target_timespan params)" "pow_target_timespan params sdiv 4 \<le> pow_target_timespan params"
    using assms(1) limit_timespan_bounds [OF assms(1)] by (simp_all add: params_ok_def)
  have "new_target_nat bits (pow_target_timespan params) params = compact_value bits"
    using assms(3) ts by (simp add: new_target_nat_def)
  then show "new_target_nat bits (pow_target_timespan params sdiv 4) params \<le> unat (au_word (fst (set_compact bits)))"
    "unat (au_word (fst (set_compact bits))) \<le> new_target_nat bits (pow_target_timespan params * 4) params"
    using w ts new_target_mono [of _ "pow_target_timespan params" bits params]
      new_target_mono [of "pow_target_timespan params" "pow_target_timespan params * 4" bits params] by auto
qed

lemma retarget_permitted:
  assumes "params_ok params" "retarget_room params" "compact_value bits \<le> pow_limit_nat params"
    "height smod difficulty_adjustment_interval params = 0" "\<not> enforce_bip94 params"
  shows "\<exists>c. calculate_next_work_required bits first_bits t0 t1 params = Inr c \<and>
    permitted_difficulty_transition params height bits c = Inr True \<and> compact_value c \<le> pow_limit_nat params"
proof (cases "pow_no_retargeting params")
  case True
  then show ?thesis
    using unchanged_permitted [OF assms(1-4)] assms(3) by (simp add: calculate_next_work_required_def)
next
  case False
  let ?n = "limit_timespan (t1 - t0) (pow_target_timespan params)"
  obtain r where r: "calculate_next_work_required bits first_bits t0 t1 params = Inr (get_compact r False)"
    "au_ok r" "unat (au_word r) = new_target_nat bits ?n params"
    using calculate_next_work_value [OF assms(1,2) False, of first_bits bits t0 t1] assms(3,5) by auto
  have "permitted_difficulty_transition params height bits (get_compact r False) = Inr True"
    using r(2,3) limit_timespan_bounds(1,2) [OF assms(1)]
    by (intro permitted_round [OF assms(1-4), of r]) (auto simp: compact_round_def intro!: new_target_mono)
  moreover have "compact_value (get_compact r False) \<le> pow_limit_nat params"
    using compact_round_le [OF r(2)] r(3) by (simp add: compact_round_def new_target_nat_def)
  ultimately show ?thesis using r(1) by simp
qed

lemma sint_of_int_i32: "- (2 ^ 31) \<le> k \<Longrightarrow> k < 2 ^ 31 \<Longrightarrow> sint (of_int k :: i32) = k"
  by (simp add: signed_of_int signed_take_bit_int_eq_self)

text \<open>What the code demands of the next block it also permits. On every network without BIP 94 whose limit leaves
  room for the products, from a target within the limit, \<open>get_next_work_required\<close> returns bits that
  \<open>permitted_difficulty_transition\<close> accepts at the height of the next block, and that respect the
  limit.\<close>

theorem next_work_permitted:
  assumes "params_ok params" "retarget_room params" "\<not> enforce_bip94 params" "difficulty_adjustment_interval params < 2 ^ 31"
    "0 \<le> sint last_height" "sint last_height < 2 ^ 31 - 1"
    "compact_value last_bits \<le> pow_limit_nat params" "compact_value last_non_special_bits \<le> pow_limit_nat params"
  shows "\<exists>c. get_next_work_required last_height last_bits last_time first_time first_bits block_time
      last_non_special_bits params = Inr c \<and>
    permitted_difficulty_transition params (sint last_height + 1) last_bits c = Inr True \<and>
    compact_value c \<le> pow_limit_nat params"
proof -
  let ?i = "difficulty_adjustment_interval params"
  have i: "sint (word_of_int ?i :: 32 word) = ?i" "?i \<noteq> 0"
    using assms(1,4) sint_of_int_i32 [of ?i] by (simp_all add: params_ok_def)
  have h: "sint (last_height + 1) = sint last_height + 1"
    using assms(5,6) sint_of_int_i32 [of "sint last_height + 1"] by simp
  show ?thesis
  proof (cases "(sint last_height + 1) smod ?i = 0")
    case True
    then show ?thesis
      using retarget_permitted [OF assms(1,2,7) True assms(3)]
      by (simp add: get_next_work_required_def Let_def i h)
  next
    case False
    have "compact_value (get_compact (uint256_to_arith (pow_limit params)) False) \<le> pow_limit_nat params"
      using compact_round_le [of "uint256_to_arith (pow_limit params)"] uint256_to_arith_word [of "pow_limit params"]
        au_word_uint256 [of "pow_limit params"] assms(1)
      by (simp add: compact_round_def pow_limit_nat_def params_ok_def)
    then show ?thesis
      using False i h assms(7,8)
      by (simp add: get_next_work_required_def permitted_difficulty_transition_def Let_def)
  qed
qed

theorem next_work_permitted_witness:
  "\<exists>c. get_next_work_required 2015 0x1d00ffff 1000 900 0 2000 0 mainnet = Inr c \<and>
     permitted_difficulty_transition mainnet 2016 0x1d00ffff c = Inr True"
proof -
  have "\<not> enforce_bip94 mainnet" "difficulty_adjustment_interval mainnet < 2 ^ 31" "compact_value 0 = 0"
    by (simp_all add: mainnet_def difficulty_adjustment_interval_def compact_value_def)
  then show ?thesis
    using next_work_permitted [of mainnet 2015 "0x1d00ffff" 0 1000 900 0 2000] mainnet_room genesis_bits by auto
qed

end
