(* ===== verification/Block.thy ===== *)
theory Block
  imports Pow
begin

text \<open>
  Blocks, \<open>qubitcoin-consensus/src/block.rs\<close>: the header of 80 bytes and its hash, and the block
  with its transactions.
\<close>

section \<open>Definitions\<close>

record block_header =
  hdr_version :: i32
  hdr_prev_blockhash :: hash_bytes
  hdr_merkle_root :: hash_bytes
  hdr_time :: u32
  hdr_bits :: u32
  hdr_nonce :: u32

definition header_new :: block_header where
  "header_new = \<lparr>hdr_version = 0, hdr_prev_blockhash = ZERO_HASH, hdr_merkle_root = ZERO_HASH, hdr_time = 0,
     hdr_bits = 0, hdr_nonce = 0\<rparr>"

definition header_is_null :: "block_header \<Rightarrow> bool" where
  "header_is_null h \<longleftrightarrow> hdr_bits h = 0"

definition encode_header :: "block_header encoder" where
  "encode_header h =
     ser_seq (encode_i32 (hdr_version h))
       (ser_seq (encode_hash (hdr_prev_blockhash h))
         (ser_seq (encode_hash (hdr_merkle_root h))
           (ser_seq (encode_u32 (hdr_time h)) (ser_seq (encode_u32 (hdr_bits h)) (encode_u32 (hdr_nonce h))))))"

definition decode_header :: "block_header decoder" where
  "decode_header r =
     res_bind (decode_i32 r) (\<lambda>(version, r).
     res_bind (decode_hash r) (\<lambda>(prev_blockhash, r).
     res_bind (decode_hash r) (\<lambda>(merkle_root, r).
     res_bind (decode_u32 r) (\<lambda>(time, r).
     res_bind (decode_u32 r) (\<lambda>(bits, r).
     res_bind (decode_u32 r) (\<lambda>(nonce, r).
       Inr (\<lparr>hdr_version = version, hdr_prev_blockhash = prev_blockhash, hdr_merkle_root = merkle_root,
             hdr_time = time, hdr_bits = bits, hdr_nonce = nonce\<rparr>, r)))))))"

definition header_block_hash :: "crypto \<Rightarrow> block_header \<Rightarrow> hash_bytes" where
  "header_block_hash C h = hash256 C (serialize encode_header h)"

definition get_block_time :: "block_header \<Rightarrow> int" where
  "get_block_time h = uint (hdr_time h)"

record block =
  blk_header :: block_header
  blk_vtx :: "transaction list"

definition block_new :: block where
  "block_new = \<lparr>blk_header = header_new, blk_vtx = []\<rparr>"

definition block_with_header :: "block_header \<Rightarrow> block" where
  "block_with_header h = \<lparr>blk_header = h, blk_vtx = []\<rparr>"

definition block_hash :: "crypto \<Rightarrow> block \<Rightarrow> hash_bytes" where
  "block_hash C b = header_block_hash C (blk_header b)"

definition encode_block :: "block encoder" where
  "encode_block b =
     ser_seq (encode_header (blk_header b))
       (ser_seq (write_compact_size (of_nat (length (blk_vtx b))))
         (encode_items (serialize_transaction_to True) (blk_vtx b)))"

definition decode_block :: "block decoder" where
  "decode_block r =
     res_bind (decode_header r) (\<lambda>(header, r).
     res_bind (read_compact_size r) (\<lambda>(tx_count, r).
     res_bind (decode_items (deserialize_transaction True) (unat tx_count) r) (\<lambda>(vtx, r).
       Inr (\<lparr>blk_header = header, blk_vtx = vtx\<rparr>, r))))"

section \<open>Strict codecs\<close>

definition header_ok :: "block_header \<Rightarrow> bool" where
  "header_ok h \<longleftrightarrow> length (hdr_prev_blockhash h) = 32 \<and> length (hdr_merkle_root h) = 32"

interpretation header_codec: strict_codec encode_header decode_header header_ok
  by unfold_locales
    (auto simp: encode_header_def decode_header_def header_ok_def hash.dec_enc u32.dec_enc i32.dec_enc
      hash.enc_count u32.enc_count i32.enc_count hash.dec_iff u32.dec_iff i32.dec_iff res_bind_eq_Inr)

definition block_ok :: "block \<Rightarrow> bool" where
  "block_ok b \<longleftrightarrow> header_ok (blk_header b) \<and> fits_max (length (blk_vtx b)) \<and> list_all (tx_ok True) (blk_vtx b)"

lemma decode_block_iff:
  "decode_block bs = Inr (b, rest) \<longleftrightarrow> block_ok b \<and> bs = fst (encode_block b) @ rest"
proof
  assume "decode_block bs = Inr (b, rest)"
  then obtain h r n r' vtx where d: "decode_header bs = Inr (h, r)" "read_compact_size r = Inr (n, r')"
    "decode_items (deserialize_transaction True) (unat n) r' = Inr (vtx, rest)" "b = \<lparr>blk_header = h, blk_vtx = vtx\<rparr>"
    by (auto simp: decode_block_def res_bind_eq_Inr)
  then show "block_ok b \<and> bs = fst (encode_block b) @ rest"
    using unat_less_pow [of n]
    by (auto simp: header_codec.dec_iff compact_len.dec_iff transaction_codec.decode_items_iff block_ok_def
        encode_block_def fits_max_def word_le_nat_alt)
next
  assume "block_ok b \<and> bs = fst (encode_block b) @ rest"
  then have ok: "header_ok (blk_header b)" "fits_max (length (blk_vtx b))" "list_all (tx_ok True) (blk_vtx b)"
    and bs: "bs = fst (encode_block b) @ rest" by (auto simp: block_ok_def)
  have n: "unat (of_nat (length (blk_vtx b)) :: u64) = length (blk_vtx b)" "of_nat (length (blk_vtx b)) \<le> MAX_SIZE"
    using ok(2) by (auto simp: fits_max_def unat_MAX_SIZE word_le_nat_alt unat_of_nat)
  show "decode_block bs = Inr (b, rest)"
    using ok(1,3) n
    by (simp add: decode_block_def bs encode_block_def header_codec.dec_enc compact_len.dec_enc
        transaction_codec.decode_items_enc)
qed

interpretation block_codec: strict_codec encode_block decode_block block_ok
  by unfold_locales
    (auto simp: decode_block_iff block_ok_def encode_block_def header_codec.enc_count compact_len.enc_count
      write_compact_size_count transaction_codec.encode_items_count)

lemma header_size: "header_ok h \<Longrightarrow> length (serialize encode_header h) = 80"
  by (simp add: serialize_def encode_header_def header_ok_def encode_i32_def encode_u32_def encode_hash_def)


section \<open>What a block hash commits to\<close>

lemma pair_strings_len: "hashes_ok hashes \<Longrightarrow> x \<in> set (pair_strings hashes) \<Longrightarrow> length x = 64"
  by (induction hashes rule: pair_strings.induct) (auto simp: hashes_ok_def)

lemma merkle_strings_len:
  "crypto_ok C \<Longrightarrow> hashes_ok hashes \<Longrightarrow> x \<in> merkle_strings C hashes \<Longrightarrow> length x = 64"
proof (induction C hashes rule: merkle_strings.induct)
  case (1 C hashes)
  then have "length hashes > 1" using merkle_strings.simps [of C hashes] by (auto split: if_splits)
  moreover have "hashes_ok (pad_level hashes)" using calculation "1.prems" by (intro pad_level_ok) auto
  ultimately show ?case
    using 1 next_level_ok [of C "pad_level hashes"] merkle_strings.simps [of C hashes]
      pair_strings_len [of "pad_level hashes" x] by auto
qed

text \<open>The strings that are hashed for a block: the header, the transactions without witnesses and
  the inner nodes of the Merkle tree.\<close>

definition block_strings :: "crypto \<Rightarrow> block \<Rightarrow> bytes set" where
  "block_strings C b = {serialize encode_header (blk_header b)} \<union>
     (\<lambda>tx. serialize_transaction tx False) ` set (blk_vtx b) \<union> merkle_strings C (map (txid C) (blk_vtx b))"

lemma txids_ok: "crypto_ok C \<Longrightarrow> hashes_ok (map (txid C) txs)"
  by (simp add: hashes_ok_def txid_def crypto_ok_def list_all_iff)

lemma txids_fresh:
  assumes "crypto_ok C" "inj_on (hash256 C) (block_strings C a \<union> block_strings C b)"
    "\<forall>tx\<in>set (blk_vtx a) \<union> set (blk_vtx b). length (serialize_transaction tx False) \<noteq> 64"
  shows "leaves_fresh C (map (txid C) (blk_vtx a)) (map (txid C) (blk_vtx b))"
proof -
  have "txid C tx \<noteq> hash256 C s"
    if "tx \<in> set (blk_vtx a) \<union> set (blk_vtx b)"
      "s \<in> merkle_strings C (map (txid C) (blk_vtx a)) \<union> merkle_strings C (map (txid C) (blk_vtx b))" for tx s
  proof -
    have "length s = 64" using that(2) merkle_strings_len [OF assms(1) txids_ok [OF assms(1)]] by (meson Un_iff)
    then have "serialize_transaction tx False \<noteq> s" using assms(3) that(1) by blast
    then show ?thesis
      using inj_onD [OF assms(2), of "serialize_transaction tx False" s] that
      by (auto simp: txid_def block_strings_def)
  qed
  then show ?thesis by (fastforce simp: leaves_fresh_def)
qed

lemma txids_strip:
  assumes "map (txid C) xs = map (txid C) ys" "list_all (tx_ok True) xs" "list_all (tx_ok True) ys"
    "inj_on (hash256 C) ((\<lambda>tx. serialize_transaction tx False) ` (set xs \<union> set ys))"
  shows "map strip_tx xs = map strip_tx ys"
proof (rule nth_equalityI)
  show len: "length (map strip_tx xs) = length (map strip_tx ys)" using assms(1) by (metis length_map)
  fix i assume "i < length (map strip_tx xs)"
  then have i: "i < length xs" "i < length ys" using len by simp_all
  then have "txid C (xs ! i) = txid C (ys ! i)" using assms(1) by (metis nth_map)
  then have "serialize_transaction (xs ! i) False = serialize_transaction (ys ! i) False"
    unfolding txid_def using i by (rule_tac inj_onD [OF assms(4)]) simp_all
  then show "map strip_tx xs ! i = map strip_tx ys ! i"
    using serialize_strip_inj [of "xs ! i" "ys ! i"] assms(2,3) i by (simp add: list_all_length)
qed

section \<open>Main results\<close>

text \<open>The bytes of a block determine it. Decoding succeeds exactly on the encodings of well-formed blocks, whatever
  follows, and returns the block and the rest; the header takes 80 bytes.\<close>

theorem block_encoding_exact:
  "(decode_block bs = Inr (b, rest) \<longleftrightarrow> block_ok b \<and> bs = fst (encode_block b) @ rest) \<and>
   (header_ok h \<longrightarrow> length (serialize encode_header h) = 80)"
  using block_codec.dec_iff header_size by blast

text \<open>C31: The block hash commits to the block. If two blocks have the same hash, and the Merkle roots in their headers are those
  of their transactions without a sign of mutation, then their headers agree and their transactions agree up to
  witnesses, as long as no two of the strings that were hashed collide and no transaction has 64 bytes, the length at which
  a transaction could pass for an inner node of the tree.\<close>

theorem block_hash_commits:
  assumes "crypto_ok C" "block_ok a" "block_ok b" "blk_vtx a \<noteq> []" "blk_vtx b \<noteq> []"
    and "block_merkle_root C (blk_vtx a) = (hdr_merkle_root (blk_header a), False)"
    and "block_merkle_root C (blk_vtx b) = (hdr_merkle_root (blk_header b), False)"
    and inj: "inj_on (hash256 C) (block_strings C a \<union> block_strings C b)"
    and "\<forall>tx\<in>set (blk_vtx a) \<union> set (blk_vtx b). length (serialize_transaction tx False) \<noteq> 64"
    and "block_hash C a = block_hash C b"
  shows "blk_header a = blk_header b \<and> map strip_tx (blk_vtx a) = map strip_tx (blk_vtx b)"
proof -
  have "serialize encode_header (blk_header a) = serialize encode_header (blk_header b)"
    using assms(10) unfolding block_hash_def header_block_hash_def
    by (rule inj_onD [OF inj]) (simp_all add: block_strings_def)
  then have h: "blk_header a = blk_header b"
    using header_codec.enc_prefix_free [of "blk_header a" "blk_header b" "[]" "[]"] assms(2,3)
    by (auto simp: block_ok_def serialize_def)
  have "inj_on (hash256 C) (merkle_strings C (map (txid C) (blk_vtx a)) \<union> merkle_strings C (map (txid C) (blk_vtx b)))"
    by (rule inj_on_subset [OF inj]) (auto simp: block_strings_def)
  then have "map (txid C) (blk_vtx a) = map (txid C) (blk_vtx b)"
    using assms(4-7) h
    by (intro root_inj [OF assms(1) txids_ok [OF assms(1)] txids_ok [OF assms(1)] _ _ _ txids_fresh [OF assms(1) inj assms(9)]])
      (simp_all add: block_merkle_root_def compute_merkle_root_def merkle_loop_split)
  moreover have "inj_on (hash256 C) ((\<lambda>tx. serialize_transaction tx False) ` (set (blk_vtx a) \<union> set (blk_vtx b)))"
    by (rule inj_on_subset [OF inj]) (auto simp: block_strings_def)
  ultimately have "map strip_tx (blk_vtx a) = map strip_tx (blk_vtx b)"
    using assms(2,3) by (intro txids_strip) (simp_all add: block_ok_def)
  then show ?thesis using h by simp
qed

definition example_block :: "transaction \<Rightarrow> block" where
  "example_block tx = \<lparr>blk_header = header_new\<lparr>hdr_version := 1, hdr_merkle_root := txid pad_crypto tx\<rparr>, blk_vtx = [tx]\<rparr>"

lemma hd_to_le_bytes: "to_le_bytes (w :: u32) \<noteq> [] \<and> hd (to_le_bytes w) = of_nat (unat w mod 256)"
proof -
  have "LENGTH(32) div 8 = Suc 3" by simp
  then show ?thesis unfolding to_le_bytes_def by (simp only: nat_bytes.simps) simp
qed

lemma hd_pad_crypto: "x \<noteq> [] \<Longrightarrow> hd (hash256 pad_crypto x) = hd x"
  by (cases x) (simp_all add: pad_crypto_def pad_to_def)

text \<open>Two blocks that differ in a witness.\<close>

theorem block_hash_commits_witness:
  "example_block example_tx \<noteq> example_block (strip_tx example_tx) \<and>
   block_hash pad_crypto (example_block example_tx) = block_hash pad_crypto (example_block (strip_tx example_tx)) \<and>
   map strip_tx (blk_vtx (example_block example_tx)) = map strip_tx (blk_vtx (example_block (strip_tx example_tx)))"
proof -
  let ?t = "example_tx" and ?C = pad_crypto
  let ?a = "example_block ?t" and ?b = "example_block (strip_tx ?t)"
  have ok: "tx_ok True ?t" "tx_ok True (strip_tx ?t)"
    using example_tx_ok by (simp_all add: example_tx_def strip_tx_def strip_witness_def tx_ok_def tx_in_ok_def
        tx_out_ok_def witness_ok_def outpoint_ok_def fits_max_def unat_MAX_SIZE)
  have s: "serialize_transaction (strip_tx ?t) False = serialize_transaction ?t False" by (rule serialize_strip)
  then have id: "txid ?C (strip_tx ?t) = txid ?C ?t" by (simp add: txid_def)
  have h: "blk_header ?b = blk_header ?a" by (simp add: example_block_def id)
  have "hd (hash256 ?C (serialize_transaction ?t False)) = 2" "hd (hash256 ?C (serialize encode_header (blk_header ?a))) = 1"
    by (simp_all add: hd_pad_crypto serialize_transaction_def serialize_plain encode_u32_def encode_i32_def
        hd_to_le_bytes example_tx_def serialize_def encode_header_def example_block_def)
  then have ne: "hash256 ?C (serialize_transaction ?t False) \<noteq> hash256 ?C (serialize encode_header (blk_header ?a))"
    by auto
  have "block_strings ?C ?a \<union> block_strings ?C ?b =
      {serialize encode_header (blk_header ?a), serialize_transaction ?t False}"
    unfolding block_strings_def h by (auto simp: merkle_strings.simps example_block_def s)
  then have inj: "inj_on (hash256 ?C) (block_strings ?C ?a \<union> block_strings ?C ?b)"
    using ne by (simp add: inj_on_def)
  have bok: "block_ok ?a" "block_ok ?b"
    using ok pad_crypto_ok by (auto simp: block_ok_def header_ok_def example_block_def header_new_def ZERO_HASH_def txid_def crypto_ok_def fits_max_def unat_MAX_SIZE)
  have "block_hash ?C ?a = block_hash ?C ?b" by (simp add: block_hash_def h)
  moreover have "?a \<noteq> ?b" by (simp add: example_block_def example_tx_def strip_tx_def strip_witness_def)
  moreover have "blk_header ?a = blk_header ?b \<and> map strip_tx (blk_vtx ?a) = map strip_tx (blk_vtx ?b)"
    using bok inj example_tx_size s h id
    by (intro block_hash_commits [OF pad_crypto_ok])
      (auto simp: block_hash_def example_block_def block_merkle_root_def compute_merkle_root_def merkle_loop.simps)
  ultimately show ?thesis by simp
qed

end
