(* ===== verification/CoinCodec.thy ===== *)
theory CoinCodec
  imports Block
begin

text \<open>
  Coins and their compressed form, the first half of \<open>qubitcoin-common/src/coins.rs\<close>:
  \<open>compress_amount\<close>, \<open>compress_script\<close>, the record \<open>Coin\<close> and its encoding. The decompression of
  a public key is a function of the library \<open>secp256k1\<close> and an argument here.
\<close>

section \<open>Amounts\<close>

text \<open>The loop that strips up to nine trailing zeros.\<close>

function strip_zeros :: "u64 \<Rightarrow> nat \<Rightarrow> u64 \<times> nat" where
  "strip_zeros n e = (if n mod 10 = 0 \<and> e < 9 then strip_zeros (n div 10) (e + 1) else (n, e))"
  by pat_completeness auto
termination
  by (relation "measure (\<lambda>(n, e). 9 - e)") auto

declare strip_zeros.simps [simp del]

definition compress_amount :: "u64 \<Rightarrow> u64" where
  "compress_amount n =
     (if n = 0 then 0
      else
        let (n, e) = strip_zeros n 0 in
        if e < 9 then
          let d = n mod 10; n = n div 10 in 1 + (n * 9 + d - 1) * 10 + of_nat e
        else 1 + (n - 1) * 10 + 9)"

definition decompress_amount :: "u64 \<Rightarrow> u64" where
  "decompress_amount x =
     (if x = 0 then 0
      else
        let x = x - 1; e = unat (x mod 10); x = x div 10;
            n = (if e < 9 then let d = x mod 9 + 1; x = x div 9 in x * 10 + d else x + 1)
        in ((\<lambda>n. n * 10) ^^ e) n)"

section \<open>Scripts\<close>

definition N_SPECIAL_SCRIPTS :: u32 where
  "N_SPECIAL_SCRIPTS = 6"

text \<open>A slice \<open>data[a..b]\<close>.\<close>

definition slice :: "nat \<Rightarrow> nat \<Rightarrow> 'a list \<Rightarrow> 'a list" where
  "slice a b xs = take (b - a) (drop a xs)"

definition compress_script :: "script \<Rightarrow> bytes option" where
  "compress_script data =
     (if length data = 25 \<and> data ! 0 = 0x76 \<and> data ! 1 = 0xa9 \<and> data ! 2 = 20 \<and> data ! 23 = 0x88 \<and>
         data ! 24 = 0xac
      then Some (0x00 # slice 3 23 data)
      else if length data = 23 \<and> data ! 0 = 0xa9 \<and> data ! 1 = 20 \<and> data ! 22 = 0x87
      then Some (0x01 # slice 2 22 data)
      else if length data = 35 \<and> data ! 0 = 33 \<and> data ! 34 = 0xac \<and> (data ! 1 = 0x02 \<or> data ! 1 = 0x03)
      then Some (data ! 1 # slice 2 34 data)
      else if length data = 67 \<and> data ! 0 = 65 \<and> data ! 66 = 0xac \<and> data ! 1 = 0x04
      then Some ((0x04 OR (data ! 65 AND 0x01)) # slice 2 34 data)
      else None)"

definition get_special_script_size :: "u32 \<Rightarrow> nat" where
  "get_special_script_size n_size =
     (if n_size = 0 \<or> n_size = 1 then 20
      else if n_size = 2 \<or> n_size = 3 \<or> n_size = 4 \<or> n_size = 5 then 32
      else 0)"

text \<open>The library call: the 65 bytes of the uncompressed key for the 33 bytes of a compressed one.\<close>

type_synonym decompress_key = "bytes \<Rightarrow> bytes option"

definition decompress_script :: "decompress_key \<Rightarrow> u32 \<Rightarrow> bytes \<Rightarrow> script option" where
  "decompress_script D n_size data =
     (if n_size = 0x00 then Some ([0x76, 0xa9, 20] @ take 20 data @ [0x88, 0xac])
      else if n_size = 0x01 then Some ([0xa9, 20] @ take 20 data @ [0x87])
      else if n_size = 0x02 \<or> n_size = 0x03 then Some ([33, ucast n_size] @ take 32 data @ [0xac])
      else if n_size = 0x04 \<or> n_size = 0x05 then
        case D (ucast (n_size - 2) # take 32 data) of
          None \<Rightarrow> None
        | Some uncompressed \<Rightarrow> Some ([65] @ uncompressed @ [0xac])
      else None)"

definition write_compressed_script :: "script encoder" where
  "write_compressed_script s =
     (case compress_script s of
        Some compressed \<Rightarrow> (compressed, length compressed)
      | None \<Rightarrow>
          let n_size = of_nat (length s) + N_SPECIAL_SCRIPTS in
          ser_seq (write_varint (ucast n_size)) (s, length s))"

definition read_compressed_script :: "decompress_key \<Rightarrow> script decoder" where
  "read_compressed_script D r =
     res_bind (read_varint r) (\<lambda>(n, r).
       let n_size = ucast n :: u32 in
       if n_size < N_SPECIAL_SCRIPTS then
         res_bind (read_exact (get_special_script_size n_size) r) (\<lambda>(data, r).
           case decompress_script D n_size data of
             Some script \<Rightarrow> Inr (script, r)
           | None \<Rightarrow> Inr ([0x6a], r))
       else
         let script_len = n_size - N_SPECIAL_SCRIPTS in
         if script_len > 10000 then
           res_bind (read_exact (unat script_len) r) (\<lambda>(discard, r). Inr ([0x6a], r))
         else read_exact (unat script_len) r)"

section \<open>Coins\<close>

record coin =
  coin_tx_out :: tx_out
  coin_height :: u32
  coin_coinbase :: bool

definition coin_new :: "tx_out \<Rightarrow> u32 \<Rightarrow> bool \<Rightarrow> coin" where
  "coin_new tx_out height coinbase = \<lparr>coin_tx_out = tx_out, coin_height = height, coin_coinbase = coinbase\<rparr>"

definition coin_empty :: coin where
  "coin_empty = \<lparr>coin_tx_out = tx_out_null, coin_height = 0, coin_coinbase = False\<rparr>"

definition coin_is_spent :: "coin \<Rightarrow> bool" where
  "coin_is_spent c \<longleftrightarrow> tx_out_is_null (coin_tx_out c)"

definition coin_clear :: "coin \<Rightarrow> coin" where
  "coin_clear c = c\<lparr>coin_tx_out := tx_out_null, coin_coinbase := False, coin_height := 0\<rparr>"

definition coin_dynamic_memory_usage :: "coin \<Rightarrow> nat" where
  "coin_dynamic_memory_usage c = 140 + length (out_script_pubkey (coin_tx_out c))"

text \<open>Encoding a spent coin panics, \<open>None\<close>.\<close>

definition encode_coin :: "coin \<Rightarrow> (bytes \<times> nat) option" where
  "encode_coin c =
     (if coin_is_spent c then None
      else
        let code = push_bit 1 (coin_height c) OR (if coin_coinbase c then 1 else 0) in
        Some (ser_seq (write_varint (ucast code))
          (ser_seq (write_varint (compress_amount (out_value (coin_tx_out c))))
            (write_compressed_script (out_script_pubkey (coin_tx_out c))))))"

definition decode_coin :: "decompress_key \<Rightarrow> coin decoder" where
  "decode_coin D r =
     res_bind (read_varint r) (\<lambda>(n, r).
       let code = ucast n :: u32; height = drop_bit 1 code; coinbase = (code AND 1 \<noteq> 0) in
       res_bind (read_varint r) (\<lambda>(compressed_amount, r).
         let amount = decompress_amount compressed_amount in
         res_bind (read_compressed_script D r) (\<lambda>(script, r).
           Inr (\<lparr>coin_tx_out = \<lparr>out_value = amount, out_script_pubkey = script\<rparr>, coin_height = height,
                 coin_coinbase = coinbase\<rparr>, r))))"

section \<open>The compression of amounts is exact\<close>

text \<open>The two functions on natural numbers.\<close>

definition pack_amount :: "nat \<Rightarrow> nat \<Rightarrow> nat" where
  "pack_amount m e = (if e < 9 then 1 + (m div 10 * 9 + m mod 10 - 1) * 10 + e else 1 + (m - 1) * 10 + 9)"

definition unpack_amount :: "nat \<Rightarrow> nat" where
  "unpack_amount x = (let e = (x - 1) mod 10; y = (x - 1) div 10
     in (if e < 9 then y div 9 * 10 + (y mod 9 + 1) else y + 1) * 10 ^ e)"

lemma unpack_pack:
  assumes "m \<noteq> 0" "e \<le> 9" "e < 9 \<Longrightarrow> m mod 10 \<noteq> 0"
  shows "unpack_amount (pack_amount m e) = m * 10 ^ e"
proof (cases "e < 9")
  case True
  define q d where "q = m div 10" and "d = m mod 10 - 1"
  have d: "m mod 10 = d + 1" "d < 9" using assms(3) True by (auto simp: d_def)
  have m: "m = q * 10 + (d + 1)" using d(1) div_mult_mod_eq [of m 10] by (simp add: q_def)
  have "pack_amount m e - 1 = (q * 9 + d) * 10 + e" using True d by (simp add: pack_amount_def q_def)
  moreover have "((q * 9 + d) * 10 + e) mod 10 = e" "((q * 9 + d) * 10 + e) div 10 = q * 9 + d"
    using True mod_mult_self3 [of "q * 9 + d" 10 e] div_mult_self3 [of 10 "q * 9 + d" e] by auto
  ultimately have "(pack_amount m e - 1) mod 10 = e" "(pack_amount m e - 1) div 10 = q * 9 + d" by metis+
  then show ?thesis unfolding unpack_amount_def Let_def using True d(2) m by simp
next
  case False
  then have "e = 9" using assms(2) by simp
  then show ?thesis using assms(1) by (simp add: pack_amount_def unpack_amount_def Let_def)
qed

lemma strip_zeros_spec:
  assumes "strip_zeros n e = (n', e')" "e \<le> 9" "n \<noteq> 0"
  shows "unat n = unat n' * 10 ^ (e' - e) \<and> e \<le> e' \<and> e' \<le> 9 \<and> n' \<noteq> 0 \<and> (e' < 9 \<longrightarrow> unat n' mod 10 \<noteq> 0)"
  using assms
proof (induction n e rule: strip_zeros.induct)
  case (1 n e)
  have m10: "unat (n mod 10) = unat n mod 10" by (simp add: unat_mod)
  show ?case
  proof (cases "n mod 10 = 0 \<and> e < 9")
    case True
    then have n: "unat n = unat (n div 10) * 10" using m10 by (auto simp: unat_div)
    have nz: "n div 10 \<noteq> 0" using "1.prems"(3) n by (metis mult_zero_left unat_0 unat_eq_zero)
    have "strip_zeros (n div 10) (e + 1) = (n', e')"
      using "1.prems"(1) True by (simp add: strip_zeros.simps [of n e])
    then have "unat (n div 10) = unat n' * 10 ^ (e' - (e + 1)) \<and> e + 1 \<le> e' \<and> e' \<le> 9 \<and> n' \<noteq> 0 \<and>
        (e' < 9 \<longrightarrow> unat n' mod 10 \<noteq> 0)"
      using "1.IH" [OF True] True nz by simp
    moreover have "10 ^ (e' - e) = 10 ^ (e' - (e + 1)) * (10 :: nat)" if "e + 1 \<le> e'"
      using that by (simp add: Suc_diff_Suc flip: power_Suc2)
    ultimately show ?thesis using n by simp
  next
    case False
    then have "n' = n" "e' = e" using "1.prems"(1) by (auto simp: strip_zeros.simps [of n e])
    moreover have "e < 9 \<Longrightarrow> unat n mod 10 \<noteq> 0"
      using False m10 unat_eq_zero [of "n mod 10"] by simp
    ultimately show ?thesis using "1.prems" by simp
  qed
qed

lemma pow10_iter: "((\<lambda>n. n * 10) ^^ e) n = n * 10 ^ e" for n :: u64
  by (induction e) (simp_all add: mult.assoc mult.commute)

lemma compress_pack:
  assumes "n \<noteq> 0" "strip_zeros n 0 = (m, e)"
  shows "compress_amount n = of_nat (pack_amount (unat m) e)"
proof -
  have s: "m \<noteq> 0" "e < 9 \<longrightarrow> unat m mod 10 \<noteq> 0" "e \<le> 9" using strip_zeros_spec [OF assms(2) _ assms(1)] by simp_all
  have dm: "m div 10 = of_nat (unat m div 10)" "m mod 10 = of_nat (unat m mod 10)"
    by (simp_all add: word_arith_nat_div word_arith_nat_mod)
  show ?thesis
  proof (cases "e < 9")
    case True
    then have "unat m div 10 * 9 + unat m mod 10 \<ge> 1" using s by simp
    then have "(of_nat (unat m div 10 * 9 + unat m mod 10 - 1) :: u64) =
        of_nat (unat m div 10) * 9 + of_nat (unat m mod 10) - 1"
      by (simp add: of_nat_diff)
    then show ?thesis using True assms by (simp add: compress_amount_def pack_amount_def dm Let_def)
  next
    case False
    have "unat m \<ge> 1" using s(1) by (simp add: Suc_leI unat_gt_0)
    then have "(of_nat (unat m - 1) :: u64) = m - 1" by (simp add: of_nat_diff)
    then show ?thesis using False assms by (simp add: compress_amount_def pack_amount_def)
  qed
qed

lemma decompress_unpack:
  assumes "x \<noteq> 0" "x < 2 ^ 64"
  shows "decompress_amount (of_nat x) = of_nat (unpack_amount x)"
proof -
  have x: "unat (of_nat x :: u64) = x" using assms(2) by (simp add: unat_of_nat)
  have z: "(of_nat x :: u64) \<noteq> 0" using x assms(1) by (metis unat_0)
  have p: "(of_nat x :: u64) - 1 = of_nat (x - 1)" using assms(1) by (simp add: of_nat_diff Suc_leI)
  have u: "unat (of_nat y :: u64) = y" if "y \<le> x" for y using that assms(2) by (simp add: unat_of_nat)
  have dm: "(of_nat y :: u64) div of_nat k = of_nat (y div k)" "(of_nat y :: u64) mod of_nat k = of_nat (y mod k)"
    if "y \<le> x" "k < 2 ^ 64" for y k
    using that u [OF that(1)] by (simp_all add: word_arith_nat_div word_arith_nat_mod unat_of_nat)
  have k: "(10 :: u64) = of_nat 10" "(9 :: u64) = of_nat 9" by simp_all
  let ?e = "(x - 1) mod 10" and ?y = "(x - 1) div 10"
  have le: "x - 1 \<le> x" "?y \<le> x" "?e \<le> x" by (simp_all add: order_trans [OF div_le_dividend] order_trans [OF mod_less_eq_dividend])
  have e: "unat (of_nat (x - 1) mod (10 :: u64)) = ?e"
    using dm(2) [OF le(1), of 10] u [OF le(3)] by simp
  have y: "of_nat (x - 1) div (10 :: u64) = of_nat ?y" using dm(1) [OF le(1), of 10] by simp
  have y9: "of_nat ?y mod (9 :: u64) = of_nat (?y mod 9)" "of_nat ?y div (9 :: u64) = of_nat (?y div 9)"
    using dm [OF le(2), of 9] by simp_all
  show ?thesis
    unfolding decompress_amount_def if_not_P [OF z] p Let_def e y y9 pow10_iter unpack_amount_def
    by (simp add: algebra_simps)
qed

text \<open>The bound below which nothing wraps around.\<close>

lemma pack_amount_bound: "m \<noteq> 0 \<Longrightarrow> e \<le> 9 \<Longrightarrow> pack_amount m e \<le> 10 * m + 90"
  by (auto simp: pack_amount_def)

lemma compress_decompress:
  assumes "unat n \<le> 10 ^ 18"
  shows "decompress_amount (compress_amount n) = n"
proof (cases "n = 0")
  case True
  then show ?thesis by (simp add: compress_amount_def decompress_amount_def)
next
  case False
  obtain m e where s: "strip_zeros n 0 = (m, e)" by fastforce
  note sp = strip_zeros_spec [OF s _ False]
  have m: "unat m \<noteq> 0" "unat n = unat m * 10 ^ e" "e \<le> 9" "e < 9 \<Longrightarrow> unat m mod 10 \<noteq> 0"
    using sp by (simp_all add: unat_eq_zero)
  have "unat m * 1 \<le> unat n" unfolding m(2) by (rule mult_le_mono2) simp
  then have "pack_amount (unat m) e < 2 ^ 64" "pack_amount (unat m) e \<noteq> 0"
    using assms pack_amount_bound [OF m(1,3)] by (simp_all add: pack_amount_def)
  then have "decompress_amount (compress_amount n) = of_nat (unpack_amount (pack_amount (unat m) e))"
    using compress_pack [OF False s] decompress_unpack by simp
  also have "\<dots> = of_nat (unat n)" using unpack_pack [OF m(1,3,4)] m(2) by simp
  finally show ?thesis by simp
qed


section \<open>The compression of scripts\<close>

lemma read_varint_byte: "b AND 0x80 = 0 \<Longrightarrow> read_varint (b # r) = Inr (ucast (b AND 0x7f), r)"
  by (simp add: read_varint_def)

lemma read_tag:
  "b \<in> {0, 1, 2, 3, 4, 5} \<Longrightarrow> read_varint (b # r) = Inr (ucast b, r)"
  by (auto simp: read_varint_byte)

lemma slice_split: "a \<le> b \<Longrightarrow> b \<le> length xs \<Longrightarrow> xs = take a xs @ slice a b xs @ drop b xs"
  by (metis append_take_drop_id drop_drop le_add_diff_inverse2 slice_def)

lemma length_slice: "a \<le> b \<Longrightarrow> b \<le> length xs \<Longrightarrow> length (slice a b xs) = b - a"
  by (simp add: slice_def)

lemma take_small:
  "1 \<le> length xs \<Longrightarrow> take 1 xs = [xs ! 0]"
  "2 \<le> length xs \<Longrightarrow> take 2 xs = [xs ! 0, xs ! 1]"
  "3 \<le> length xs \<Longrightarrow> take 3 xs = [xs ! 0, xs ! 1, xs ! 2]"
  by (auto simp: Suc_le_length_iff numeral_eq_Suc)

lemma drop_last1: "length xs = Suc n \<Longrightarrow> drop n xs = [xs ! n]"
  by (simp add: Cons_nth_drop_Suc [symmetric])

lemma drop_last2: "length xs = Suc (Suc n) \<Longrightarrow> drop n xs = [xs ! n, xs ! Suc n]"
  by (simp add: Cons_nth_drop_Suc [symmetric])

text \<open>A script that is compressed as a key to be expanded again, and the compressed key.\<close>

definition uncompressed_p2pk :: "script \<Rightarrow> bool" where
  "uncompressed_p2pk s \<longleftrightarrow> length s = 67 \<and> s ! 0 = 65 \<and> s ! 66 = 0xac \<and> s ! 1 = 0x04"

definition short_key :: "script \<Rightarrow> bytes" where
  "short_key s = (2 + (s ! 65 AND 1)) # slice 2 34 s"

lemma and_1_cases: "(x :: u8) AND 1 = 0 \<or> x AND 1 = 1"
  by (simp add: and_one_eq odd_iff_mod_2_eq_one even_iff_mod_2_eq_zero) (metis not_mod_2_eq_0_eq_1)

text \<open>What the compression finds, by the form of the script.\<close>

lemma compress_script_cases:
  assumes "compress_script s = Some c"
  obtains data where "c = 0 # data" "length data = 20" "s = [0x76, 0xa9, 20] @ data @ [0x88, 0xac]"
  | data where "c = 1 # data" "length data = 20" "s = [0xa9, 20] @ data @ [0x87]"
  | data b where "c = b # data" "b = 2 \<or> b = 3" "length data = 32" "s = [33, b] @ data @ [0xac]"
  | "uncompressed_p2pk s" "c = (4 OR (s ! 65 AND 1)) # slice 2 34 s"
proof -
  consider (pkh) "length s = 25" "s ! 0 = 0x76" "s ! 1 = 0xa9" "s ! 2 = 20" "s ! 23 = 0x88" "s ! 24 = 0xac" "c = 0 # slice 3 23 s"
    | (sh) "length s = 23" "s ! 0 = 0xa9" "s ! 1 = 20" "s ! 22 = 0x87" "c = 1 # slice 2 22 s"
    | (pk) "length s = 35" "s ! 0 = 33" "s ! 34 = 0xac" "s ! 1 = 2 \<or> s ! 1 = 3" "c = s ! 1 # slice 2 34 s"
    | (long) "uncompressed_p2pk s" "c = (4 OR (s ! 65 AND 1)) # slice 2 34 s"
    using assms unfolding compress_script_def uncompressed_p2pk_def by (auto split: if_splits)
  then show thesis
  proof cases
    case pkh
    then have "s = [0x76, 0xa9, 20] @ slice 3 23 s @ [0x88, 0xac]"
      using slice_split [of 3 23 s] take_small(3) [of s] drop_last2 [of s 23] by simp
    then show ?thesis using pkh by (intro that(1)) (auto simp: length_slice)
  next
    case sh
    then have "s = [0xa9, 20] @ slice 2 22 s @ [0x87]"
      using slice_split [of 2 22 s] take_small(2) [of s] drop_last1 [of s 22] by simp
    then show ?thesis using sh by (intro that(2)) (auto simp: length_slice)
  next
    case pk
    then have "s = [33, s ! 1] @ slice 2 34 s @ [0xac]"
      using slice_split [of 2 34 s] take_small(2) [of s] drop_last1 [of s 34] by simp
    then show ?thesis using pk by (intro that(3)) (auto simp: length_slice)
  next
    case long
    then show ?thesis by (rule that(4))
  qed
qed


lemma length_write_varint: "snd (write_varint n) = length (fst (write_varint n))"
  by (simp add: varint.enc_count)

lemma write_compressed_script_count: "snd (write_compressed_script s) = length (fst (write_compressed_script s))"
  by (auto simp: write_compressed_script_def Let_def length_write_varint split: option.splits)

lemma read_special:
  assumes "b \<in> {0, 1, 2, 3, 4, 5}" "length data = get_special_script_size (ucast b)"
  shows "read_compressed_script D (b # data @ rest) =
    (case decompress_script D (ucast b) data of Some s \<Rightarrow> Inr (s, rest) | None \<Rightarrow> Inr ([0x6a], rest))"
proof -
  have "ucast (ucast b :: u64) = (ucast b :: u32)" using assms(1) by auto
  moreover have "(ucast b :: u32) < N_SPECIAL_SCRIPTS" using assms(1) by (auto simp: N_SPECIAL_SCRIPTS_def)
  ultimately show ?thesis
    using assms read_tag [OF assms(1)]
    by (simp add: read_compressed_script_def Let_def split: option.splits)
qed

text \<open>The key function of the library restores the key of the script, if it has one.\<close>

definition restores_key :: "decompress_key \<Rightarrow> script \<Rightarrow> bool" where
  "restores_key D s \<longleftrightarrow> (uncompressed_p2pk s \<longrightarrow> D (short_key s) = Some (slice 1 66 s))"

lemma read_uncompressed_p2pk:
  assumes "uncompressed_p2pk s" "compress_script s = Some c"
  shows "read_compressed_script D (c @ rest) =
    (case D (short_key s) of Some k \<Rightarrow> Inr ([65] @ k @ [0xac], rest) | None \<Rightarrow> Inr ([0x6a], rest))"
proof -
  define b where "b = 4 OR (s ! 65 AND 1)"
  have b: "b = 4 \<and> s ! 65 AND 1 = 0 \<or> b = 5 \<and> s ! 65 AND 1 = 1"
    using and_1_cases [of "s ! 65"] by (auto simp: b_def)
  have c: "c = b # slice 2 34 s"
    using assms(2) by (rule compress_script_cases) (use assms(1) in \<open>auto simp: uncompressed_p2pk_def b_def\<close>)
  have len: "length (slice 2 34 s) = 32" using assms(1) by (simp add: uncompressed_p2pk_def length_slice)
  have "decompress_script D (ucast b) (slice 2 34 s) =
      (case D (short_key s) of None \<Rightarrow> None | Some k \<Rightarrow> Some ([65] @ k @ [0xac]))"
    using b len by (auto simp: decompress_script_def short_key_def)
  then show ?thesis
    unfolding c using b len
    by (subst append_Cons, subst read_special) (auto simp: get_special_script_size_def split: option.splits)
qed

lemma read_write_special:
  assumes "compress_script s = Some c" "restores_key D s"
  shows "read_compressed_script D (c @ rest) = Inr (s, rest)"
  using assms(1)
proof (cases rule: compress_script_cases)
  case (1 data)
  then show ?thesis
    using read_special [of 0 data D rest] by (simp add: get_special_script_size_def decompress_script_def)
next
  case (2 data)
  then show ?thesis
    using read_special [of 1 data D rest] by (simp add: get_special_script_size_def decompress_script_def)
next
  case (3 data b)
  then show ?thesis
    using read_special [of b data D rest] by (auto simp: get_special_script_size_def decompress_script_def)
next
  case 4
  have l: "length s = 67" "s ! 0 = 65" "s ! 66 = 0xac" using 4(1) by (simp_all add: uncompressed_p2pk_def)
  then have "s = [65] @ slice 1 66 s @ [0xac]"
    using slice_split [of 1 66 s] take_small(1) [of s] drop_last1 [of s 66] by simp
  then show ?thesis
    using read_uncompressed_p2pk [OF 4(1) assms(1)] assms(2) 4(1) by (simp add: restores_key_def)
qed

lemma read_write_plain:
  assumes "compress_script s = None" "length s \<le> 10000"
  shows "read_compressed_script D (fst (write_compressed_script s) @ rest) = Inr (s, rest)"
proof -
  define n where "n = (of_nat (length s) + N_SPECIAL_SCRIPTS :: u32)"
  have u: "unat n = length s + 6" using assms(2) by (simp add: n_def N_SPECIAL_SCRIPTS_def unat_word_ariths unat_of_nat)
  have m: "n - N_SPECIAL_SCRIPTS = of_nat (length s)" by (simp add: n_def)
  have len: "unat (of_nat (length s) :: u32) = length s" using assms(2) by (simp add: unat_of_nat)
  have "\<not> n < N_SPECIAL_SCRIPTS" using u by (simp add: word_less_nat_alt N_SPECIAL_SCRIPTS_def)
  moreover have "\<not> (of_nat (length s) :: u32) > 10000" using len assms(2) by (simp add: word_less_nat_alt)
  moreover have "read_varint (fst (write_varint (ucast n)) @ s @ rest) = Inr (ucast n, s @ rest)"
    by (rule varint.dec_enc) simp
  moreover have "(ucast (ucast n :: u64) :: u32) = n" by (rule bit_word_eqI) (simp add: bit_unsigned_iff)
  ultimately show ?thesis
    using assms(1) m len
    by (simp add: write_compressed_script_def read_compressed_script_def n_def [symmetric] Let_def)
qed

lemma read_write_compressed_script:
  assumes "restores_key D s" "length s \<le> 10000"
  shows "read_compressed_script D (fst (write_compressed_script s) @ rest) = Inr (s, rest)"
  using read_write_plain [OF _ assms(2)] read_write_special [OF _ assms(1)]
  by (cases "compress_script s") (simp_all add: write_compressed_script_def)


section \<open>Coins\<close>

text \<open>A coin as the set of unspent outputs holds it.\<close>

definition coin_ok :: "decompress_key \<Rightarrow> coin \<Rightarrow> bool" where
  "coin_ok D c \<longleftrightarrow> money_range (out_value (coin_tx_out c)) \<and> coin_height c < 2 ^ 31 \<and>
     length (out_script_pubkey (coin_tx_out c)) \<le> 10000 \<and> restores_key D (out_script_pubkey (coin_tx_out c))"

lemma money_range_unspent: "money_range (out_value (coin_tx_out c)) \<Longrightarrow> \<not> coin_is_spent c"
  by (auto simp: coin_is_spent_def tx_out_is_null_def money_range_def)

lemma money_range_unat: "money_range v \<Longrightarrow> unat v \<le> 10 ^ 18"
proof -
  assume m: "money_range v"
  then have "uint v = sint v"
    by (simp add: uint_sint take_bit_int_eq_self money_range_def MAX_MONEY_value)
  then have "unat v = nat (sint v)" by (simp only: unat_eq_nat_uint)
  then show ?thesis using m by (auto simp: money_range_def MAX_MONEY_value nat_le_iff)
qed

lemma coin_code:
  fixes cb :: bool
  assumes "h < (2 ^ 31 :: u32)"
  defines "code \<equiv> push_bit 1 h OR (if cb then 1 else 0)"
  shows "drop_bit 1 code = h" "code AND 1 \<noteq> 0 \<longleftrightarrow> cb"
proof -
  have b: "\<not> bit h 31"
    using div_word_less [OF assms(1)] by (simp add: bit_iff_odd del: bit_0)
  show "drop_bit 1 code = h"
  proof (rule bit_word_eqI)
    fix n assume "n < LENGTH(32)"
    then show "bit (drop_bit 1 code) n \<longleftrightarrow> bit h n"
      using b by (cases "n = 31") (auto simp: code_def bit_simps simp del: push_bit_Suc One_nat_def)
  qed
  have "bit code 0 \<longleftrightarrow> cb" by (auto simp: code_def bit_simps simp del: push_bit_Suc One_nat_def bit_0)
  then show "code AND 1 \<noteq> 0 \<longleftrightarrow> cb" by (simp add: and_one_eq bit_0 even_iff_mod_2_eq_zero)
qed

lemma decode_encode_coin:
  assumes "coin_ok D c"
  shows "\<exists>e. encode_coin c = Some e \<and> snd e = length (fst e) \<and> decode_coin D (fst e @ rest) = Inr (c, rest)"
proof -
  have ok: "money_range (out_value (coin_tx_out c))" "coin_height c < 2 ^ 31" "restores_key D (out_script_pubkey (coin_tx_out c))"
    "length (out_script_pubkey (coin_tx_out c)) \<le> 10000"
    using assms by (simp_all add: coin_ok_def)
  define code where "code = push_bit 1 (coin_height c) OR (if coin_coinbase c then 1 else 0)"
  note cc = coin_code [OF ok(2), of "coin_coinbase c", folded code_def]
  have u: "(ucast (ucast code :: u64) :: u32) = code" by (rule bit_word_eqI) (simp add: bit_unsigned_iff)
  have vi: "read_varint (fst (write_varint n) @ r) = Inr (n, r)" for n r by (rule varint.dec_enc) simp
  show ?thesis
    using money_range_unspent [OF ok(1)] cc u read_write_compressed_script [OF ok(3,4)]
      compress_decompress [OF money_range_unat [OF ok(1)]]
    unfolding encode_coin_def Let_def code_def [symmetric]
    by (simp add: decode_coin_def Let_def vi length_write_varint write_compressed_script_count)
qed


section \<open>Main results\<close>

text \<open>A coin survives its compressed encoding. For every coin whose value is in the money range, whose height is
  below \<open>2^31\<close> and whose script has at most 10000 bytes, decoding the encoding returns the coin and what follows;
  the amount, the coinbase flag packed into the height and the short forms of the standard scripts are all
  exact. The one assumption on the curve library is that it expands the key of a P2PK script to that key.\<close>

theorem coin_roundtrip:
  assumes "money_range (out_value (coin_tx_out c))" "coin_height c < 2 ^ 31"
    "length (out_script_pubkey (coin_tx_out c)) \<le> 10000" "restores_key D (out_script_pubkey (coin_tx_out c))"
  shows "\<exists>e. encode_coin c = Some e \<and> snd e = length (fst e) \<and> decode_coin D (fst e @ rest) = Inr (c, rest)"
  using decode_encode_coin [of D c rest] assms by (simp add: coin_ok_def)

definition example_coin :: coin where
  "example_coin = coin_new \<lparr>out_value = 5000000000, out_script_pubkey = [0x76, 0xa9, 20] @ replicate 20 7 @ [0x88, 0xac]\<rparr> 120000 True"

lemma example_coin_ok: "coin_ok D example_coin"
  by (simp add: coin_ok_def example_coin_def coin_new_def money_range_def MAX_MONEY_value restores_key_def
      uncompressed_p2pk_def)

theorem coin_roundtrip_witness:
  "\<exists>e. encode_coin example_coin = Some e \<and> decode_coin (\<lambda>_. None) (fst e) = Inr (example_coin, [])"
  using coin_roundtrip [of example_coin "\<lambda>_. None" "[]"] example_coin_ok [of "\<lambda>_. None"] by (auto simp: coin_ok_def)

text \<open>The compression of a P2PK script with a 65-byte key forgets all but one bit of the second coordinate and does not ask
  whether the key is on the curve. Two such scripts whose keys share the first coordinate and the parity have the same
  encoding, so at most one of them is read back as it was written.\<close>

theorem uncompressed_key_confusion:
  assumes "uncompressed_p2pk s" "uncompressed_p2pk t" "slice 2 34 s = slice 2 34 t" "s ! 65 AND 1 = t ! 65 AND 1" "s \<noteq> t"
  shows "write_compressed_script s = write_compressed_script t \<and>
    \<not> (read_compressed_script D (fst (write_compressed_script s)) = Inr (s, []) \<and>
       read_compressed_script D (fst (write_compressed_script t)) = Inr (t, []))"
proof -
  have "compress_script u = Some ((4 OR (u ! 65 AND 1)) # slice 2 34 u)" if "uncompressed_p2pk u" for u
    using that by (simp add: compress_script_def uncompressed_p2pk_def)
  then have "write_compressed_script s = write_compressed_script t"
    using assms by (simp add: write_compressed_script_def)
  then show ?thesis using assms(5) by auto
qed

definition p2pk_script :: "u8 \<Rightarrow> script" where
  "p2pk_script y = [65, 4] @ replicate 32 9 @ replicate 31 y @ [1, 0xac]"

theorem uncompressed_key_confusion_witness:
  "write_compressed_script (p2pk_script 1) = write_compressed_script (p2pk_script 2) \<and> p2pk_script 1 \<noteq> p2pk_script 2"
proof -
  have "p2pk_script 1 \<noteq> p2pk_script 2" by code_simp
  moreover have "uncompressed_p2pk (p2pk_script 1)" "uncompressed_p2pk (p2pk_script 2)"
    "slice 2 34 (p2pk_script 1) = slice 2 34 (p2pk_script 2)" "p2pk_script 1 ! 65 AND 1 = p2pk_script 2 ! 65 AND 1"
    by code_simp+
  ultimately show ?thesis using uncompressed_key_confusion by blast
qed

end
