(* ===== verification/ScriptCheck.thy ===== *)
theory ScriptCheck
  imports Sighash CoinCodec
begin

text \<open>
  The signature checker of the node and the script checks of a block,
  \<open>qubitcoin-node/src/script_check.rs\<close>: \<open>TransactionSignatureChecker\<close> with the lenient DER parser, the lock time and
  sequence checks, and the collection and verification of the checks of a block. The curve library is the
  parameter \<open>secp\<close>. A signature on which the parser panics is not accepted. The verification runs over the checks in order;
  on several threads another failing check may be the one that is reported, with the same verdict.
\<close>

section \<open>The curve library\<close>

record secp =
  pubkey_from_slice :: "bytes \<Rightarrow> bytes option"
  sig_from_compact :: "bytes \<Rightarrow> bytes option"
  sig_normalize_s :: "bytes \<Rightarrow> bytes"
  verify_ecdsa :: "bytes \<Rightarrow> bytes \<Rightarrow> bytes \<Rightarrow> bool"
  schnorr_from_slice :: "bytes \<Rightarrow> bytes option"
  verify_schnorr :: "bytes \<Rightarrow> bytes \<Rightarrow> bytes \<Rightarrow> bool"

section \<open>The lenient DER parser\<close>

text \<open>A panic, a refusal or a value with the new position.\<close>

datatype 'a lax = LaxPanic | LaxNone | LaxSome 'a

fun lax_bind :: "'a lax \<Rightarrow> ('a \<Rightarrow> 'b lax) \<Rightarrow> 'b lax" where
  "lax_bind LaxPanic f = LaxPanic"
| "lax_bind LaxNone f = LaxNone"
| "lax_bind (LaxSome x) f = f x"

text \<open>The loop over the bytes of a long length; bits shifted out of the 64-bit number are lost.\<close>

definition long_len :: "bytes \<Rightarrow> u64" where
  "long_len bs = foldl (\<lambda>len b. push_bit 8 len OR ucast b) 0 bs"

text \<open>The length bytes of an integer and the position after them.\<close>

definition lax_len :: "bytes \<Rightarrow> nat \<Rightarrow> (u64 \<times> nat) option" where
  "lax_len input pos =
     (if input ! pos AND 0x80 \<noteq> 0 then
        let n_len_bytes = unat (input ! pos AND 0x7f); pos = pos + 1 in
        if pos + n_len_bytes > length input then None
        else Some (long_len (take n_len_bytes (drop pos input)), pos + n_len_bytes)
      else Some (ucast (input ! pos), pos + 1))"

text \<open>The sum of position and length wraps around; a slice that ends before it starts panics.\<close>

definition parse_der_integer_lax :: "bytes \<Rightarrow> nat \<Rightarrow> (bytes \<times> nat) lax" where
  "parse_der_integer_lax input pos =
     (if pos \<ge> length input then LaxNone
      else if input ! pos \<noteq> 0x02 then LaxNone
      else if pos + 1 \<ge> length input then LaxNone
      else
        case lax_len input (pos + 1) of
          None \<Rightarrow> LaxNone
        | Some (len, pos) \<Rightarrow>
            let end_pos = unat (of_nat pos + len) in
            if end_pos > length input then LaxNone
            else if end_pos < pos then LaxPanic
            else LaxSome (take (end_pos - pos) (drop pos input), end_pos))"

definition copy_integer_to_32 :: "bytes \<Rightarrow> bytes option" where
  "copy_integer_to_32 src =
     (let trimmed = dropWhile (\<lambda>b. b = 0) src in
      if length trimmed > 32 then None else Some (replicate (32 - length trimmed) 0 @ trimmed))"

definition ecdsa_signature_parse_der_lax :: "'k secp_scheme \<Rightarrow> bytes \<Rightarrow> bytes lax" where
  "ecdsa_signature_parse_der_lax K input =
     (if length input < 2 then LaxNone
      else if input ! 0 \<noteq> 0x30 then LaxNone
      else
        let pos = (if input ! 1 AND 0x80 \<noteq> 0 then 2 + unat (input ! 1 AND 0x7f) else 2) in
        lax_bind (parse_der_integer_lax input pos) (\<lambda>(r_bytes, pos).
        lax_bind (parse_der_integer_lax input pos) (\<lambda>(s_bytes, pos).
          case (copy_integer_to_32 r_bytes, copy_integer_to_32 s_bytes) of
            (Some r, Some s) \<Rightarrow> (case sig_from_compact K (r @ s) of Some sig \<Rightarrow> LaxSome sig | None \<Rightarrow> LaxNone)
          | _ \<Rightarrow> LaxNone)))"

definition verify_ecdsa_signature :: "'k secp_scheme \<Rightarrow> bytes \<Rightarrow> bytes \<Rightarrow> hash_bytes \<Rightarrow> bool" where
  "verify_ecdsa_signature K sig_bytes pubkey_bytes sighash =
     (case pubkey_from_slice K pubkey_bytes of
        None \<Rightarrow> False
      | Some pubkey \<Rightarrow>
          (case ecdsa_signature_parse_der_lax K sig_bytes of
             LaxSome sig \<Rightarrow> verify_ecdsa K sighash (sig_normalize_s K sig) pubkey
           | _ \<Rightarrow> False))"

definition verify_schnorr_signature :: "crypto \<Rightarrow> 'k secp_scheme \<Rightarrow> bytes \<Rightarrow> bytes \<Rightarrow> hash_bytes \<Rightarrow> bool" where
  "verify_schnorr_signature C K sig_bytes pubkey_bytes sighash =
     (case xonly_from_slice C pubkey_bytes of
        None \<Rightarrow> False
      | Some pubkey \<Rightarrow>
          (case schnorr_from_slice K sig_bytes of None \<Rightarrow> False | Some sig \<Rightarrow> verify_schnorr K sig sighash pubkey))"

section \<open>The checker of a transaction input\<close>

record tx_checker =
  tsc_tx :: transaction
  tsc_input_index :: nat
  tsc_amount :: i64
  tsc_precomputed :: precomputed_data

definition tsc_check_ecdsa :: "crypto \<Rightarrow> 'k secp_scheme \<Rightarrow> tx_checker \<Rightarrow> bytes \<Rightarrow> bytes \<Rightarrow> script \<Rightarrow> sig_version \<Rightarrow> bool" where
  "tsc_check_ecdsa C K t sig pubkey script_code sigversion =
     (if sig = [] \<or> pubkey = [] then False
      else
        let hash_type = ucast (last sig); sig_bytes = butlast sig in
        (case sigversion of
           Base \<Rightarrow> verify_ecdsa_signature K sig_bytes pubkey (signature_hash C script_code (tsc_tx t) (tsc_input_index t) hash_type)
         | WitnessV0 \<Rightarrow>
             verify_ecdsa_signature K sig_bytes pubkey
               (witness_v0_signature_hash C script_code (tsc_tx t) (tsc_input_index t) hash_type (tsc_amount t) (tsc_precomputed t))
         | _ \<Rightarrow> False))"

definition tsc_check_schnorr ::
  "crypto \<Rightarrow> 'k secp_scheme \<Rightarrow> tx_checker \<Rightarrow> bytes \<Rightarrow> bytes \<Rightarrow> sig_version \<Rightarrow> exec_data \<Rightarrow> script_error \<Rightarrow> bool \<times> script_error" where
  "tsc_check_schnorr C K t sig pubkey sigversion e error =
     (if sig = [] then (False, ErrSchnorrSig)
      else if sigversion \<noteq> Tapscript \<and> sigversion \<noteq> Taproot then (False, ErrSchnorrSig)
      else if length sig \<noteq> 64 \<and> length sig \<noteq> 65 then (False, ErrSchnorrSigSize)
      else if length pubkey \<noteq> 32 then (False, ErrSchnorrSig)
      else if length sig = 65 \<and> sig ! 64 = 0 then (False, ErrSchnorrSigHashtype)
      else
        let hash_type = (if length sig = 65 then ucast (sig ! 64) else 0);
            (ext_flag, leaf, codesep_pos) =
              (if tapleaf_hash_init e then (1, Some (tapleaf_hash e), Some (codeseparator_pos e)) else (0, None, None));
            annex = (if annex_init e \<and> annex_present e then Some (annex_hash e) else None) in
        (case taproot_signature_hash C (tsc_tx t) (tsc_input_index t) hash_type (tsc_precomputed t) ext_flag leaf codesep_pos annex of
           None \<Rightarrow> (False, ErrSchnorrSigHashtype)
         | Some sighash \<Rightarrow> (verify_schnorr_signature C K (take 64 sig) pubkey sighash, error)))"

definition TSC_LOCKTIME_THRESHOLD :: int where
  "TSC_LOCKTIME_THRESHOLD = 500000000"

definition tsc_check_lock_time :: "tx_checker \<Rightarrow> script_num \<Rightarrow> bool" where
  "tsc_check_lock_time t lock_time =
     (let n_lock_time = sint lock_time; tx_lock_time = uint (tx_lock_time (tsc_tx t)) in
      if n_lock_time < 0 then False
      else if (tx_lock_time < TSC_LOCKTIME_THRESHOLD) \<noteq> (n_lock_time < TSC_LOCKTIME_THRESHOLD) then False
      else if n_lock_time > tx_lock_time then False
      else in_sequence (tx_vin (tsc_tx t) ! tsc_input_index t) \<noteq> SEQUENCE_FINAL)"

definition tsc_check_sequence :: "tx_checker \<Rightarrow> script_num \<Rightarrow> bool" where
  "tsc_check_sequence t sequence =
     (if sint sequence < 0 then False
      else
        let n_sequence = (ucast sequence :: u32) in
        if tx_version (tsc_tx t) < 2 then False
        else if n_sequence AND SEQUENCE_LOCKTIME_DISABLE_FLAG \<noteq> 0 then True
        else
          let tx_sequence = in_sequence (tx_vin (tsc_tx t) ! tsc_input_index t) in
          if tx_sequence AND SEQUENCE_LOCKTIME_DISABLE_FLAG \<noteq> 0 then False
          else if n_sequence AND SEQUENCE_LOCKTIME_TYPE_FLAG \<noteq> tx_sequence AND SEQUENCE_LOCKTIME_TYPE_FLAG then False
          else \<not> n_sequence AND SEQUENCE_LOCKTIME_MASK > tx_sequence AND SEQUENCE_LOCKTIME_MASK)"

definition tx_signature_checker :: "crypto \<Rightarrow> 'k secp_scheme \<Rightarrow> tx_checker \<Rightarrow> checker" where
  "tx_signature_checker C K t =
     \<lparr>check_ecdsa_signature = tsc_check_ecdsa C K t, check_schnorr_signature = tsc_check_schnorr C K t,
      check_lock_time = tsc_check_lock_time t, check_sequence = tsc_check_sequence t\<rparr>"

section \<open>The script checks of a block\<close>

record script_check =
  sc_script_pubkey :: script
  sc_script_sig :: script
  sc_witness :: script_witness
  sc_flags :: script_flags
  sc_amount :: i64
  sc_tx_index :: nat
  sc_input_index :: nat
  sc_tx :: "transaction option"
  sc_precomputed :: "precomputed_data option"

record script_check_error =
  sce_tx_index :: nat
  sce_input_index :: nat
  sce_error :: script_error

definition verify_single_script :: "crypto \<Rightarrow> 'k secp_scheme \<Rightarrow> script_check \<Rightarrow> script_check_error + unit" where
  "verify_single_script C K check =
     (let ck = (case sc_tx check of
                  Some tx \<Rightarrow>
                    tx_signature_checker C K
                      \<lparr>tsc_tx = tx, tsc_input_index = sc_input_index check, tsc_amount = sc_amount check,
                       tsc_precomputed = (case sc_precomputed check of Some p \<Rightarrow> p | None \<Rightarrow> precomputed_new C tx [])\<rparr>
                | None \<Rightarrow> base_signature_checker)
      in case verify_script C ck (sc_flags check) (sc_script_sig check) (sc_script_pubkey check) (sc_witness check) of
           Inr _ \<Rightarrow> Inr ()
         | Inl e \<Rightarrow> Inl \<lparr>sce_tx_index = sc_tx_index check, sce_input_index = sc_input_index check, sce_error = e\<rparr>)"

fun verify_scripts_parallel :: "crypto \<Rightarrow> 'k secp_scheme \<Rightarrow> script_check list \<Rightarrow> script_check_error + unit" where
  "verify_scripts_parallel C K [] = Inr ()"
| "verify_scripts_parallel C K (check # checks) =
     res_bind (verify_single_script C K check) (\<lambda>_. verify_scripts_parallel C K checks)"

text \<open>The checks of one transaction: those of the inputs that have a coin.\<close>

definition tx_script_checks :: "crypto \<Rightarrow> script_flags \<Rightarrow> nat \<Rightarrow> transaction \<Rightarrow> coin list \<Rightarrow> script_check list" where
  "tx_script_checks C flags tx_idx tx coins =
     (let precomputed = precomputed_new C tx (map coin_tx_out coins) in
      map (\<lambda>(input_idx, input, coin).
             \<lparr>sc_script_pubkey = out_script_pubkey (coin_tx_out coin), sc_script_sig = in_script_sig input,
              sc_witness = in_witness input, sc_flags = flags, sc_amount = out_value (coin_tx_out coin),
              sc_tx_index = tx_idx, sc_input_index = input_idx, sc_tx = Some tx, sc_precomputed = Some precomputed\<rparr>)
          (enumerate 0 (zip (tx_vin tx) coins)))"

text \<open>The loop over the transactions. The position of the coins of a first transaction that is not a coinbase wraps around
  and is past the end.\<close>

definition collect_block_script_checks :: "crypto \<Rightarrow> transaction list \<Rightarrow> coin list list \<Rightarrow> script_flags \<Rightarrow> script_check list" where
  "collect_block_script_checks C transactions spent_coins flags =
     concat (map (\<lambda>(tx_idx, tx).
                    if is_coinbase tx then []
                    else if tx_idx = 0 \<or> tx_idx - 1 \<ge> length spent_coins then []
                    else tx_script_checks C flags tx_idx tx (spent_coins ! (tx_idx - 1)))
                 (enumerate 0 transactions))"

lemma verify_scripts_all:
  "verify_scripts_parallel C K checks = Inr () \<longleftrightarrow> (\<forall>c\<in>set checks. verify_single_script C K c = Inr ())"
  by (induction checks) (auto simp: res_bind_eq_Inr)

section \<open>The parser on strict encodings\<close>

text \<open>The number that big-endian bytes stand for.\<close>

definition be_val :: "bytes \<Rightarrow> nat" where
  "be_val bs = foldl (\<lambda>a b. a * 256 + unat b) 0 bs"

lemma be_val_acc: "foldl (\<lambda>a b. a * 256 + unat b) a bs = a * 256 ^ length bs + be_val (bs :: bytes)"
proof (induction bs arbitrary: a)
  case (Cons b bs)
  show ?case using Cons.IH [of "a * 256 + unat b"] Cons.IH [of "unat b"] by (simp add: be_val_def algebra_simps)
qed (simp add: be_val_def)

lemma be_val_Cons: "be_val (b # bs) = unat b * 256 ^ length bs + be_val bs"
  using be_val_acc [of "unat b" bs] by (simp add: be_val_def)

lemma be_val_zeros [simp]: "be_val (replicate n 0 @ bs) = be_val bs"
  by (induction n) (simp_all add: be_val_Cons)

lemma be_val_less: "be_val bs < 256 ^ length bs"
proof (induction bs)
  case (Cons b bs)
  have "unat b < 256" using unat_less_pow [of b] by simp
  then have "unat b \<le> 255" by linarith
  then have "unat b * 256 ^ length bs \<le> 255 * 256 ^ length bs" by (rule mult_le_mono1)
  then show ?case using Cons unfolding be_val_Cons length_Cons power_Suc by linarith
qed (simp add: be_val_def)

lemma be_val_dropWhile: "be_val (dropWhile (\<lambda>b. b = 0) bs) = be_val bs"
  by (induction bs) (simp_all add: be_val_Cons)

lemma digit_unique:
  fixes x y a b n :: nat
  assumes "x * n + a = y * n + b" "a < n" "b < n"
  shows "x = y \<and> a = b"
  using arg_cong [OF assms(1), of "\<lambda>m. m div n"] arg_cong [OF assms(1), of "\<lambda>m. m mod n"] assms(2,3) by simp

lemma be_val_inj: "length xs = length ys \<Longrightarrow> be_val xs = be_val ys \<Longrightarrow> xs = ys"
proof (induction xs ys rule: list_induct2)
  case (Cons x xs y ys)
  have "unat x = unat y \<and> be_val xs = be_val ys"
    using digit_unique [of "unat x" "256 ^ length ys" "be_val xs" "unat y" "be_val ys"] Cons.prems Cons.hyps
      be_val_less [of xs] be_val_less [of ys] by (simp add: be_val_Cons)
  then show ?case using Cons.IH by (simp add: word_unat_eq_iff)
qed simp

lemma copy_integer_exact: "copy_integer_to_32 src = Some out \<longleftrightarrow> length out = 32 \<and> be_val out = be_val src"
proof -
  let ?t = "dropWhile (\<lambda>b. b = 0) src"
  show ?thesis
  proof (cases "length ?t > 32")
    case True
    obtain b r where t: "?t = b # r" "b \<noteq> 0" using True by (cases ?t) (auto simp: dropWhile_eq_Cons_conv)
    have "0 < unat b" using t(2) by (simp add: unat_gt_0)
    then have "256 ^ length r \<le> unat b * 256 ^ length r" by simp
    also have "\<dots> \<le> be_val src" using be_val_dropWhile [of src] by (simp add: t(1) be_val_Cons)
    finally have "256 ^ length r \<le> be_val src" .
    moreover have "(256 :: nat) ^ 32 \<le> 256 ^ length r" using True t(1) by (intro power_increasing) simp_all
    ultimately have "length out = 32 \<Longrightarrow> be_val out \<noteq> be_val src" using be_val_less [of out] by auto
    then show ?thesis using True by (auto simp: copy_integer_to_32_def Let_def)
  next
    case False
    then have "copy_integer_to_32 src = Some (replicate (32 - length ?t) 0 @ ?t)" by (simp add: copy_integer_to_32_def Let_def)
    moreover have "be_val (replicate (32 - length ?t) 0 @ ?t) = be_val src" by (simp add: be_val_dropWhile)
    ultimately show ?thesis using False be_val_inj [of out "replicate (32 - length ?t) 0 @ ?t"] by auto
  qed
qed

lemma copy_integer_some: "be_val x < 2 ^ 256 \<Longrightarrow> copy_integer_to_32 x \<noteq> None"
proof
  let ?t = "dropWhile (\<lambda>b. b = 0) x"
  assume v: "be_val x < 2 ^ 256" and "copy_integer_to_32 x = None"
  then have long: "32 < length ?t" by (auto simp: copy_integer_to_32_def Let_def split: if_splits)
  obtain b r where t: "?t = b # r" "b \<noteq> 0" using long by (cases ?t) (auto simp: dropWhile_eq_Cons_conv)
  have "(256 :: nat) ^ 32 \<le> 256 ^ length r" using long t(1) by (intro power_increasing) simp_all
  also have "\<dots> \<le> unat b * 256 ^ length r" using t(2) by (simp add: Suc_le_eq unat_gt_0)
  also have "\<dots> \<le> be_val x" using be_val_dropWhile [of x] by (simp add: t(1) be_val_Cons)
  finally show False using v by simp
qed

lemma parse_short_integer:
  assumes "input = pre @ [0x02, of_nat (length x)] @ x @ post" "length x < 128" "length input < 2 ^ 64"
  shows "parse_der_integer_lax input (length pre) = LaxSome (x, length pre + 2 + length x)"
proof -
  have b: "unat (of_nat (length x) :: u8) = length x" using assms(2) by (simp add: unat_of_nat)
  have h: "(of_nat (length x) :: u8) AND 0x80 = 0" using b u8_and_80 [of "of_nat (length x)"] assms(2) by auto
  have u: "(ucast (of_nat (length x) :: u8) :: u64) = of_nat (length x)"
    using assms(2) by (simp add: word_unat_eq_iff unat_ucast unat_of_nat)
  have "lax_len input (length pre + 1) = Some (of_nat (length x), length pre + 2)"
    using assms(1) h u by (simp add: lax_len_def nth_append)
  moreover have "unat (of_nat (length pre + 2) + of_nat (length x) :: u64) = length pre + 2 + length x"
    using assms(1,3) unat_of_nat [of "length pre + 2 + length x", where 'a = 64] by (simp only: of_nat_add) simp
  ultimately show ?thesis using assms(1) by (simp add: parse_der_integer_lax_def nth_append)
qed

lemma parse_signature_integers:
  assumes "length r + length s + 7 \<le> 73"
  defines "input \<equiv> [0x30, of_nat (length r + length s + 4), 0x02, of_nat (length r)] @ r @ [0x02, of_nat (length s)] @ s"
  shows "parse_der_integer_lax input 2 = LaxSome (r, 4 + length r)"
    "parse_der_integer_lax input (4 + length r) = LaxSome (s, 6 + length r + length s)"
proof -
  let ?b = "[0x30, of_nat (length r + length s + 4)] :: bytes"
  have i: "input = ?b @ [0x02, of_nat (length r)] @ r @ ([0x02, of_nat (length s)] @ s)"
    "input = (?b @ [0x02, of_nat (length r)] @ r) @ [0x02, of_nat (length s)] @ s @ []" by (simp_all add: input_def)
  have n: "length r < 128" "length s < 128" "length input < 2 ^ 64" using assms(1) by (simp_all add: input_def)
  have l: "length ?b = 2" "length (?b @ [0x02, of_nat (length r)] @ r) = 4 + length r" by simp_all
  have "parse_der_integer_lax input 2 = LaxSome (r, 2 + 2 + length r)"
    using parse_short_integer [OF i(1) n(1,3)] unfolding l .
  then show "parse_der_integer_lax input 2 = LaxSome (r, 4 + length r)" by simp
  have "parse_der_integer_lax input (4 + length r) = LaxSome (s, 4 + length r + 2 + length s)"
    using parse_short_integer [OF i(2) n(2,3)] unfolding l .
  then show "parse_der_integer_lax input (4 + length r) = LaxSome (s, 6 + length r + length s)" by (simp add: algebra_simps)
qed

lemma parse_two_integers:
  assumes "\<not> length input < 2" "input ! 0 = 0x30" "input ! 1 AND 0x80 = 0"
    "parse_der_integer_lax input 2 = LaxSome (r, p)" "parse_der_integer_lax input p = LaxSome (s, q)"
  shows "ecdsa_signature_parse_der_lax K input =
    (case (copy_integer_to_32 r, copy_integer_to_32 s) of
      (Some r, Some s) \<Rightarrow> (case sig_from_compact K (r @ s) of Some sig \<Rightarrow> LaxSome sig | None \<Rightarrow> LaxNone) | _ \<Rightarrow> LaxNone)"
  using assms by (simp add: ecdsa_signature_parse_der_lax_def)

lemma parse_signature:
  assumes "length r + length s + 7 \<le> 73"
  shows "ecdsa_signature_parse_der_lax K
      ([0x30, of_nat (length r + length s + 4), 0x02, of_nat (length r)] @ r @ [0x02, of_nat (length s)] @ s) =
    (case (copy_integer_to_32 r, copy_integer_to_32 s) of
      (Some r, Some s) \<Rightarrow> (case sig_from_compact K (r @ s) of Some sig \<Rightarrow> LaxSome sig | None \<Rightarrow> LaxNone) | _ \<Rightarrow> LaxNone)"
proof -
  let ?i = "[0x30, of_nat (length r + length s + 4), 0x02, of_nat (length r)] @ r @ [0x02, of_nat (length s)] @ s"
  have "(of_nat n :: u8) AND 0x80 = 0" if "n < 128" for n using that u8_and_80 [of "of_nat n"] by (auto simp: unat_of_nat)
  from this [of "length r + length s + 4"] have h: "(of_nat (length r + length s + 4) :: u8) AND 0x80 = 0" using assms by linarith
  show ?thesis
  proof (rule parse_two_integers [OF _ _ _ parse_signature_integers [OF assms]])
    have "?i ! 1 = of_nat (length r + length s + 4)" by (simp only: append_Cons nth_Cons_Suc nth_Cons_0 One_nat_def)
    then show "?i ! 1 AND 0x80 = 0" using h by (simp only:)
  qed simp_all
qed

lemma copy_integer_iff:
  "be_val x < 2 ^ 256 \<longleftrightarrow> copy_integer_to_32 x \<noteq> None"
  "be_val x < 2 ^ 256 \<Longrightarrow> length (the (copy_integer_to_32 x)) = 32 \<and> be_val (the (copy_integer_to_32 x)) = be_val x"
proof -
  have *: "be_val x < 2 ^ 256" if "copy_integer_to_32 x = Some y" for y
    using that copy_integer_exact [of x y] be_val_less [of y] by simp
  show "be_val x < 2 ^ 256 \<longleftrightarrow> copy_integer_to_32 x \<noteq> None"
  proof
    show "copy_integer_to_32 x \<noteq> None" if "be_val x < 2 ^ 256" using that by (rule copy_integer_some)
    show "be_val x < 2 ^ 256" if "copy_integer_to_32 x \<noteq> None" using that * by (cases "copy_integer_to_32 x") simp_all
  qed
  assume "be_val x < 2 ^ 256"
  then obtain y where "copy_integer_to_32 x = Some y" using copy_integer_some [of x] by (cases "copy_integer_to_32 x") simp_all
  then show "length (the (copy_integer_to_32 x)) = 32 \<and> be_val (the (copy_integer_to_32 x)) = be_val x"
    using copy_integer_exact [of x y] by simp
qed

section \<open>Main results\<close>

text \<open>The lenient parser agrees with the strict encoding. On a signature that the strict check accepts, the lenient parser
  does not panic; it hands the curve library the two encoded integers as 32 bytes each, and refuses
  the signature exactly when one of them does not fit 256 bits or the library refuses them.\<close>

theorem lax_der_strict:
  assumes "is_valid_signature_encoding sig"
  shows "\<exists>r s h. sig = der_signature r s h \<and>
    ecdsa_signature_parse_der_lax K (butlast sig) =
      (if be_val r < 2 ^ 256 \<and> be_val s < 2 ^ 256
       then (case sig_from_compact K (the (copy_integer_to_32 r) @ the (copy_integer_to_32 s)) of Some c \<Rightarrow> LaxSome c | None \<Rightarrow> LaxNone)
       else LaxNone) \<and>
    (be_val r < 2 ^ 256 \<longrightarrow> length (the (copy_integer_to_32 r)) = 32 \<and> be_val (the (copy_integer_to_32 r)) = be_val r) \<and>
    (be_val s < 2 ^ 256 \<longrightarrow> length (the (copy_integer_to_32 s)) = 32 \<and> be_val (the (copy_integer_to_32 s)) = be_val s)"
proof -
  obtain r s h where sig: "sig = der_signature r s h" "length sig \<le> 73" using assms der_valid_iff by blast
  have i: "butlast sig = [0x30, of_nat (length r + length s + 4), 0x02, of_nat (length r)] @ r @ [0x02, of_nat (length s)] @ s"
    using sig(1) by (simp add: der_signature_def butlast_append)
  have "length r + length s + 7 \<le> 73" using sig by (simp add: der_signature_def)
  note p = parse_signature [OF this, of K, folded i]
  have "ecdsa_signature_parse_der_lax K (butlast sig) =
      (if be_val r < 2 ^ 256 \<and> be_val s < 2 ^ 256
       then (case sig_from_compact K (the (copy_integer_to_32 r) @ the (copy_integer_to_32 s)) of Some c \<Rightarrow> LaxSome c | None \<Rightarrow> LaxNone)
       else LaxNone)"
    unfolding p copy_integer_iff(1) by (cases "copy_integer_to_32 r"; cases "copy_integer_to_32 s") simp_all
  then show ?thesis using sig(1) copy_integer_iff(2) by blast
qed

definition small_signature :: bytes where
  "small_signature = [0x30, 6, 2, 1, 5, 2, 1, 9, 1]"

theorem lax_der_strict_witness:
  "\<exists>r s h. small_signature = der_signature r s h \<and> (be_val r < 2 ^ 256 \<longrightarrow> length (the (copy_integer_to_32 r)) = 32)"
proof -
  have "is_valid_signature_encoding small_signature" by code_simp
  from lax_der_strict [OF this] show ?thesis by blast
qed

text \<open>The lenient parser can panic. An integer whose length takes eight bytes that are all 255 makes the sum of position and
  length wrap around, and the slice ends before it starts; only the strict encoding check, which is not
  made without its flag, keeps such signatures away.\<close>

theorem lax_der_panic:
  "ecdsa_signature_parse_der_lax K ([0x30, 10, 0x02, 0x88] @ replicate 8 255) = LaxPanic \<and>
   \<not> is_valid_signature_encoding ([0x30, 10, 0x02, 0x88] @ replicate 8 255 @ [h])"
proof
  have "parse_der_integer_lax ([0x30, 10, 0x02, 0x88] @ replicate 8 255) 2 = LaxPanic" by code_simp
  then show "ecdsa_signature_parse_der_lax K ([0x30, 10, 0x02, 0x88] @ replicate 8 255) = LaxPanic"
    by (simp add: ecdsa_signature_parse_der_lax_def numeral_eq_Suc)
  show "\<not> is_valid_signature_encoding ([0x30, 10, 0x02, 0x88] @ replicate 8 255 @ [h])"
    by (simp add: is_valid_signature_encoding_def Let_def)
qed

end
