(* ===== verification/Signet.thy ===== *)
theory Signet
  imports ScriptCheck Block
begin

text \<open>
  The signature checker of the consensus crate, \<open>qubitcoin-consensus/src/sign.rs\<close>, and the block solutions of
  signet, \<open>signet.rs\<close>, which it verifies. It differs from the checker of the node (\<open>ScriptCheck\<close>) in the order of
  its checks and in its strict DER parsing. The curve library is again a parameter.
\<close>

record secp_strict = secp +
  sig_from_der :: "bytes \<Rightarrow> bytes option"

section \<open>The checker\<close>

definition sgn_verify_ecdsa :: "'a secp_strict_scheme \<Rightarrow> bytes \<Rightarrow> bytes \<Rightarrow> hash_bytes \<Rightarrow> bool" where
  "sgn_verify_ecdsa K sig pubkey hash =
     (case sig_from_der K sig of
        None \<Rightarrow> False
      | Some signature \<Rightarrow> (case pubkey_from_slice K pubkey of None \<Rightarrow> False | Some pk \<Rightarrow> verify_ecdsa K hash signature pk))"

definition sgn_verify_schnorr :: "crypto \<Rightarrow> 'a secp_strict_scheme \<Rightarrow> bytes \<Rightarrow> bytes \<Rightarrow> hash_bytes \<Rightarrow> bool" where
  "sgn_verify_schnorr C K sig pubkey hash =
     (if length sig \<noteq> 64 then False
      else case schnorr_from_slice K sig of
          None \<Rightarrow> False
        | Some signature \<Rightarrow> (case xonly_from_slice C pubkey of None \<Rightarrow> False | Some pk \<Rightarrow> verify_schnorr K signature hash pk))"

definition sgn_check_ecdsa :: "crypto \<Rightarrow> 'a secp_strict_scheme \<Rightarrow> tx_checker \<Rightarrow> bytes \<Rightarrow> bytes \<Rightarrow> script \<Rightarrow> sig_version \<Rightarrow> bool" where
  "sgn_check_ecdsa C K t sig pubkey script_code sigversion =
     (if sig = [] \<or> pubkey = [] then False
      else
        let hash_type = ucast (last sig); sig_data = butlast sig;
            sighash = (if sigversion = WitnessV0
                       then witness_v0_signature_hash C script_code (tsc_tx t) (tsc_input_index t) hash_type (tsc_amount t) (tsc_precomputed t)
                       else signature_hash C script_code (tsc_tx t) (tsc_input_index t) hash_type)
        in sgn_verify_ecdsa K sig_data pubkey sighash)"

definition sgn_check_schnorr ::
  "crypto \<Rightarrow> 'a secp_strict_scheme \<Rightarrow> tx_checker \<Rightarrow> bytes \<Rightarrow> bytes \<Rightarrow> sig_version \<Rightarrow> exec_data \<Rightarrow> script_error \<Rightarrow> bool \<times> script_error" where
  "sgn_check_schnorr C K t sig pubkey sigversion e error =
     (if length pubkey \<noteq> 32 then (False, ErrSchnorrSig)
      else if length sig = 65 \<and> sig ! 64 = 0 then (False, ErrSchnorrSigHashtype)
      else if length sig \<noteq> 64 \<and> length sig \<noteq> 65 then (False, ErrSchnorrSigSize)
      else
        let hash_type = (if length sig = 65 then ucast (sig ! 64) else 0);
            base = hash_type AND SIGHASH_OUTPUT_MASK in
        if hash_type \<noteq> 0 \<and> (base < 1 \<or> base > 3) then (False, ErrSchnorrSigHashtype)
        else if sigversion \<noteq> Taproot \<and> sigversion \<noteq> Tapscript then (False, ErrSchnorrSig)
        else
          let ext_flag = (if sigversion = Taproot then 0 else 1);
              leaf = (if tapleaf_hash_init e then Some (tapleaf_hash e) else None);
              codesep_pos = (if codeseparator_pos_init e then Some (codeseparator_pos e) else None);
              annex = (if annex_init e \<and> annex_present e then Some (annex_hash e) else None) in
          (case taproot_signature_hash C (tsc_tx t) (tsc_input_index t) hash_type (tsc_precomputed t) ext_flag leaf codesep_pos annex of
             None \<Rightarrow> (False, ErrSchnorrSigHashtype)
           | Some sighash \<Rightarrow>
               if \<not> sgn_verify_schnorr C K (take 64 sig) pubkey sighash then (False, ErrSchnorrSig) else (True, error)))"

definition sgn_check_lock_time :: "tx_checker \<Rightarrow> script_num \<Rightarrow> bool" where
  "sgn_check_lock_time t lock_time =
     (let lock_time_val = sint lock_time; tx_lock_time = uint (tx_lock_time (tsc_tx t)) in
      if lock_time_val < 0 then False
      else if tx_lock_time < 500000000 \<and> lock_time_val \<ge> 500000000 \<or> tx_lock_time \<ge> 500000000 \<and> lock_time_val < 500000000 then False
      else if lock_time_val > tx_lock_time then False
      else in_sequence (tx_vin (tsc_tx t) ! tsc_input_index t) \<noteq> 0xFFFFFFFF)"

definition sgn_check_sequence :: "tx_checker \<Rightarrow> script_num \<Rightarrow> bool" where
  "sgn_check_sequence t sequence =
     (if sint sequence < 0 then False
      else
        let seq_val = (ucast sequence :: u32) in
        if seq_val AND push_bit 31 1 \<noteq> 0 then True
        else if tx_version (tsc_tx t) < 2 then False
        else
          let tx_seq = in_sequence (tx_vin (tsc_tx t) ! tsc_input_index t) in
          if tx_seq AND push_bit 31 1 \<noteq> 0 then False
          else if seq_val AND push_bit 22 1 \<noteq> tx_seq AND push_bit 22 1 then False
          else seq_val AND 0xffff \<le> tx_seq AND 0xffff)"

definition sgn_checker :: "crypto \<Rightarrow> 'a secp_strict_scheme \<Rightarrow> tx_checker \<Rightarrow> checker" where
  "sgn_checker C K t =
     \<lparr>check_ecdsa_signature = sgn_check_ecdsa C K t, check_schnorr_signature = sgn_check_schnorr C K t,
      check_lock_time = sgn_check_lock_time t, check_sequence = sgn_check_sequence t\<rparr>"

section \<open>Signet block solutions\<close>

definition SIGNET_HEADER :: bytes where
  "SIGNET_HEADER = [0xec, 0xc7, 0xda, 0xa2]"

definition WITNESS_COMMITMENT_HEADER :: bytes where
  "WITNESS_COMMITMENT_HEADER = [0xaa, 0x21, 0xa9, 0xed]"

definition BLOCK_SCRIPT_VERIFY_FLAGS :: script_flags where
  "BLOCK_SCRIPT_VERIFY_FLAGS = VERIFY_P2SH OR VERIFY_WITNESS OR VERIFY_DERSIG OR VERIFY_NULLDUMMY"

record signet_txs =
  sgt_to_spend :: transaction
  sgt_to_sign :: transaction

definition is_witness_commitment :: "script \<Rightarrow> bool" where
  "is_witness_commitment script \<longleftrightarrow>
     length script \<ge> 38 \<and> script ! 0 = OpReturn \<and> script ! 1 = 0x24 \<and> take 4 (drop 2 script) = WITNESS_COMMITMENT_HEADER"

definition witness_commitment_index :: "block \<Rightarrow> nat option" where
  "witness_commitment_index blk =
     (case blk_vtx blk of
        [] \<Rightarrow> None
      | coinbase # _ \<Rightarrow>
          find (\<lambda>i. is_witness_commitment (out_script_pubkey (tx_vout coinbase ! i))) (rev [0..<length (tx_vout coinbase)]))"

text \<open>One operation of a commitment, and the loop over them: the script that is rebuilt and the solution.\<close>

definition clear_op :: "bytes \<Rightarrow> u8 \<Rightarrow> bytes \<Rightarrow> script \<times> bytes option \<Rightarrow> script \<times> bytes option" where
  "clear_op hdr opcode pushdata st =
     (case st of (replacement, result) \<Rightarrow>
        if pushdata \<noteq> [] then
          if result = None \<and> length pushdata > length hdr \<and> take (length hdr) pushdata = hdr
          then (push_data replacement (take (length hdr) pushdata), Some (drop (length hdr) pushdata))
          else (push_data replacement pushdata, result)
        else (push_opcode replacement opcode, result))"

function clear_loop :: "bytes \<Rightarrow> script \<Rightarrow> nat \<Rightarrow> script \<times> bytes option \<Rightarrow> script \<times> bytes option" where
  "clear_loop hdr commitment pos st =
     (case get_op commitment pos of
        None \<Rightarrow> st
      | Some (opcode, pushdata, new_pos) \<Rightarrow> clear_loop hdr commitment new_pos (clear_op hdr opcode pushdata st))"
  by pat_completeness auto
termination
  by (relation "measure (\<lambda>(h, c, pos, st). length c - pos)") (auto dest: get_op_progress)

declare clear_loop.simps [simp del]

definition fetch_and_clear_commitment_section :: "bytes \<Rightarrow> script \<Rightarrow> script \<times> bytes option" where
  "fetch_and_clear_commitment_section header commitment =
     (case clear_loop header commitment 0 ([], None) of
        (replacement, Some result) \<Rightarrow> (replacement, Some result)
      | (replacement, None) \<Rightarrow> (commitment, None))"

definition compute_modified_merkle_root :: "crypto \<Rightarrow> transaction \<Rightarrow> block \<Rightarrow> hash_bytes" where
  "compute_modified_merkle_root C cb blk = fst (compute_merkle_root C (txid C cb # map (txid C) (drop 1 (blk_vtx blk))))"

text \<open>A solution: a script, a witness, and nothing after them.\<close>

definition parse_solution :: "bytes \<Rightarrow> (script \<times> script_witness) option" where
  "parse_solution solution =
     (case decode_script solution of
        Inl _ \<Rightarrow> None
      | Inr (script_sig, r) \<Rightarrow>
          (case read_compact_size r of
             Inl _ \<Rightarrow> None
           | Inr (stack_len, r) \<Rightarrow>
               if unat stack_len > length solution then None
               else case decode_items decode_bytes (unat stack_len) r of
                   Inl _ \<Rightarrow> None
                 | Inr (stack, r) \<Rightarrow> if r \<noteq> [] then None else Some (script_sig, stack)))"

definition signet_block_data :: "block_header \<Rightarrow> hash_bytes \<Rightarrow> bytes" where
  "signet_block_data h signet_merkle =
     fst (encode_i32 (hdr_version h)) @ fst (encode_hash (hdr_prev_blockhash h)) @ fst (encode_hash signet_merkle) @
     fst (encode_u32 (hdr_time h))"

definition signet_create :: "crypto \<Rightarrow> block \<Rightarrow> script \<Rightarrow> signet_txs option" where
  "signet_create C blk challenge =
     (case blk_vtx blk of
        [] \<Rightarrow> None
      | coinbase # _ \<Rightarrow>
          (case witness_commitment_index blk of
             None \<Rightarrow> None
           | Some cidx \<Rightarrow>
               let (commitment, solution) =
                     fetch_and_clear_commitment_section SIGNET_HEADER (out_script_pubkey (tx_vout coinbase ! cidx)) in
               (case (case solution of None \<Rightarrow> Some ([], []) | Some sol \<Rightarrow> parse_solution sol) of
                  None \<Rightarrow> None
                | Some (to_sign_script_sig, to_sign_witness) \<Rightarrow>
                    let modified_vout = (tx_vout coinbase)[cidx := (tx_vout coinbase ! cidx)\<lparr>out_script_pubkey := commitment\<rparr>];
                        modified_cb = \<lparr>tx_version = tx_version coinbase, tx_vin = tx_vin coinbase,
                                       tx_vout = modified_vout, tx_lock_time = tx_lock_time coinbase\<rparr>;
                        signet_merkle = compute_modified_merkle_root C modified_cb blk;
                        to_spend = \<lparr>tx_version = 0,
                          tx_vin = [\<lparr>in_prevout = outpoint_null,
                            in_script_sig = push_data (push_opcode [] Op0) (signet_block_data (blk_header blk) signet_merkle),
                            in_sequence = 0, in_witness = []\<rparr>],
                          tx_vout = [\<lparr>out_value = 0, out_script_pubkey = challenge\<rparr>], tx_lock_time = 0\<rparr>;
                        to_sign = \<lparr>tx_version = 0,
                          tx_vin = [\<lparr>in_prevout = \<lparr>prev_txid = txid C to_spend, prev_index = 0\<rparr>,
                            in_script_sig = to_sign_script_sig, in_sequence = 0, in_witness = to_sign_witness\<rparr>],
                          tx_vout = [\<lparr>out_value = 0, out_script_pubkey = push_opcode [] OpReturn\<rparr>], tx_lock_time = 0\<rparr>
                    in Some \<lparr>sgt_to_spend = to_spend, sgt_to_sign = to_sign\<rparr>)))"

definition check_signet_block_solution :: "crypto \<Rightarrow> 'a secp_strict_scheme \<Rightarrow> block \<Rightarrow> consensus_params \<Rightarrow> bool" where
  "check_signet_block_solution C K blk params =
     (if header_block_hash C (blk_header blk) = genesis_hash params then True
      else
        case signet_create C blk (signet_challenge params) of
          None \<Rightarrow> False
        | Some txs \<Rightarrow>
            let spent_output = tx_vout (sgt_to_spend txs) ! 0;
                input = tx_vin (sgt_to_sign txs) ! 0;
                ck = sgn_checker C K
                       \<lparr>tsc_tx = sgt_to_sign txs, tsc_input_index = 0, tsc_amount = out_value spent_output,
                        tsc_precomputed = precomputed_new C (sgt_to_sign txs) [spent_output]\<rparr>
            in verify_script C ck BLOCK_SCRIPT_VERIFY_FLAGS (in_script_sig input) (out_script_pubkey spent_output) (in_witness input) = Inr ())"

section \<open>Main results\<close>

text \<open>The execution data that the interpreter passes: a leaf hash and a code separator position exactly in a script path.\<close>

definition exec_data_for :: "sig_version \<Rightarrow> exec_data \<Rightarrow> bool" where
  "exec_data_for sigversion e \<longleftrightarrow>
     (tapleaf_hash_init e \<longleftrightarrow> sigversion = Tapscript) \<and> (sigversion = Tapscript \<longrightarrow> codeseparator_pos_init e)"

lemma taproot_path_data:
  "taproot_preimage C tx k ht p 0 leaf pos annex = taproot_preimage C tx k ht p 0 None None annex"
  by (simp add: taproot_preimage_def Let_def)

lemma taproot_hash_type_base:
  "taproot_hash_type_ok ht \<Longrightarrow> ht \<noteq> 0 \<Longrightarrow> \<not> (ht AND SIGHASH_OUTPUT_MASK < 1 \<or> ht AND SIGHASH_OUTPUT_MASK > 3)"
proof -
  assume "taproot_hash_type_ok ht" "ht \<noteq> 0"
  moreover from this(2) have "unat ht \<noteq> 0" by (simp add: unat_eq_0)
  ultimately have "unat ht \<in> {1, 2, 3, 0x81, 0x82, 0x83}"
    by (auto simp: taproot_hash_type_ok_def word_le_nat_alt)
  then have "ht \<in> {1, 2, 3, 0x81, 0x82, 0x83}" by (auto simp: word_unat_eq_iff)
  then show ?thesis by (auto simp: SIGHASH_OUTPUT_MASK_def)
qed

lemma lock_time_agree: "sgn_check_lock_time t lock_time = tsc_check_lock_time t lock_time"
  by (auto simp: sgn_check_lock_time_def tsc_check_lock_time_def Let_def TSC_LOCKTIME_THRESHOLD_def SEQUENCE_FINAL_def)

lemma sequence_agree:
  "(ucast sequence :: u32) AND SEQUENCE_LOCKTIME_DISABLE_FLAG = 0 \<Longrightarrow> sgn_check_sequence t sequence = tsc_check_sequence t sequence"
  by (auto simp: sgn_check_sequence_def tsc_check_sequence_def Let_def SEQUENCE_LOCKTIME_DISABLE_FLAG_def
      SEQUENCE_LOCKTIME_TYPE_FLAG_def SEQUENCE_LOCKTIME_MASK_def not_less)

lemma verify_schnorr_agree: "length sig = 64 \<Longrightarrow> sgn_verify_schnorr C K sig pubkey h = verify_schnorr_signature C K sig pubkey h"
  by (auto simp: sgn_verify_schnorr_def verify_schnorr_signature_def split: option.splits)

lemma taproot_path_agree:
  assumes "exec_data_for sigversion e" "sigversion = Taproot \<or> sigversion = Tapscript"
  shows "taproot_signature_hash C tx k ht p (if sigversion = Taproot then 0 else 1)
      (if tapleaf_hash_init e then Some (tapleaf_hash e) else None)
      (if codeseparator_pos_init e then Some (codeseparator_pos e) else None) x =
    (if tapleaf_hash_init e then taproot_signature_hash C tx k ht p 1 (Some (tapleaf_hash e)) (Some (codeseparator_pos e)) x
     else taproot_signature_hash C tx k ht p 0 None None x)"
proof -
  have z: "taproot_signature_hash C tx k ht p 0 l c x = taproot_signature_hash C tx k ht p 0 None None x" for l c
    unfolding taproot_signature_hash_def taproot_path_data [of C tx k ht p l c x] ..
  show ?thesis
  proof (cases "sigversion = Taproot")
    case True
    then have "\<not> tapleaf_hash_init e" using assms(1) by (simp add: exec_data_for_def)
    then show ?thesis unfolding True by (simp only: if_True if_False refl z [of _ "if codeseparator_pos_init e then _ else _"] simp_thms)
  next
    case False
    then have "sigversion = Tapscript" "tapleaf_hash_init e" "codeseparator_pos_init e" using assms by (auto simp: exec_data_for_def)
    then show ?thesis using False by simp
  qed
qed

text \<open>The hash that both checkers ask for, and the guards before it.\<close>

definition schnorr_hash :: "crypto \<Rightarrow> tx_checker \<Rightarrow> bytes \<Rightarrow> exec_data \<Rightarrow> hash_bytes option" where
  "schnorr_hash C t sig e =
     (let ht = (if length sig = 65 then ucast (sig ! 64) else 0);
          x = (if annex_init e \<and> annex_present e then Some (annex_hash e) else None) in
      if tapleaf_hash_init e
      then taproot_signature_hash C (tsc_tx t) (tsc_input_index t) ht (tsc_precomputed t) 1 (Some (tapleaf_hash e)) (Some (codeseparator_pos e)) x
      else taproot_signature_hash C (tsc_tx t) (tsc_input_index t) ht (tsc_precomputed t) 0 None None x)"

definition schnorr_guard :: "bytes \<Rightarrow> bytes \<Rightarrow> sig_version \<Rightarrow> bool" where
  "schnorr_guard sig pubkey sigversion \<longleftrightarrow>
     length pubkey = 32 \<and> \<not> (length sig = 65 \<and> sig ! 64 = 0) \<and> \<not> (length sig \<noteq> 64 \<and> length sig \<noteq> 65) \<and>
     \<not> (sigversion \<noteq> Taproot \<and> sigversion \<noteq> Tapscript)"

lemma tsc_schnorr_verdict:
  "fst (tsc_check_schnorr C K t sig pubkey sigversion e err) \<longleftrightarrow>
   schnorr_guard sig pubkey sigversion \<and>
   (case schnorr_hash C t sig e of None \<Rightarrow> False | Some h \<Rightarrow> verify_schnorr_signature C K (take 64 sig) pubkey h)"
proof -
  have h: "(let hash_type = (if length sig = 65 then ucast (sig ! 64) else 0);
            (ext_flag, leaf, codesep_pos) =
              (if tapleaf_hash_init e then (1, Some (tapleaf_hash e), Some (codeseparator_pos e)) else (0, None, None));
            annex = (if annex_init e \<and> annex_present e then Some (annex_hash e) else None) in
        f (taproot_signature_hash C (tsc_tx t) (tsc_input_index t) hash_type (tsc_precomputed t) ext_flag leaf codesep_pos annex)) =
      f (schnorr_hash C t sig e)" for f :: "hash_bytes option \<Rightarrow> bool \<times> script_error"
    by (cases "tapleaf_hash_init e") (simp_all only: schnorr_hash_def Let_def if_True if_False prod.case)
  show ?thesis
    unfolding tsc_check_schnorr_def h [where f = "\<lambda>x. case x of None \<Rightarrow> (False, ErrSchnorrSigHashtype) | Some sighash \<Rightarrow> (verify_schnorr_signature C K (take 64 sig) pubkey sighash, err)"]
    by (auto simp: schnorr_guard_def split: option.splits)
qed

lemma sgn_schnorr_verdict:
  assumes "exec_data_for sigversion e"
  shows "fst (sgn_check_schnorr C K t sig pubkey sigversion e err) \<longleftrightarrow>
   schnorr_guard sig pubkey sigversion \<and>
   (case schnorr_hash C t sig e of None \<Rightarrow> False | Some h \<Rightarrow> sgn_verify_schnorr C K (take 64 sig) pubkey h)"
proof -
  define ht :: u32 where "ht = (if length sig = 65 then ucast (sig ! 64) else 0)"
  define x where "x = (if annex_init e \<and> annex_present e then Some (annex_hash e) else None)"
  define p where "p = taproot_signature_hash C (tsc_tx t) (tsc_input_index t) ht (tsc_precomputed t) (if sigversion = Taproot then 0 else 1)
      (if tapleaf_hash_init e then Some (tapleaf_hash e) else None) (if codeseparator_pos_init e then Some (codeseparator_pos e) else None) x"
  have p: "p = schnorr_hash C t sig e" if "schnorr_guard sig pubkey sigversion"
    unfolding schnorr_hash_def p_def Let_def ht_def [symmetric] x_def [symmetric]
    using that by (intro taproot_path_agree [OF assms]) (auto simp: schnorr_guard_def)
  have n: "p = None" if "ht \<noteq> 0 \<and> (ht AND SIGHASH_OUTPUT_MASK < 1 \<or> ht AND SIGHASH_OUTPUT_MASK > 3)"
    using that taproot_hash_type_base [of ht] by (auto simp: p_def taproot_signature_hash_def)
  show ?thesis
    unfolding sgn_check_schnorr_def Let_def ht_def [symmetric] x_def [symmetric] p_def [symmetric]
    using p n by (auto simp: schnorr_guard_def split: option.splits)
qed

lemma schnorr_agree:
  assumes "exec_data_for sigversion e"
  shows "fst (sgn_check_schnorr C K t sig pubkey sigversion e err) = fst (tsc_check_schnorr C K t sig pubkey sigversion e err)"
  unfolding sgn_schnorr_verdict [OF assms] tsc_schnorr_verdict
  by (cases "schnorr_guard sig pubkey sigversion") (auto simp: schnorr_guard_def verify_schnorr_agree split: option.splits)

text \<open>The two signature checkers give the same verdicts. The checker of the consensus crate and that of the node agree on every lock
  time, on every sequence number that is not disabled (the interpreter asks about no other), and on every Schnorr
  signature under execution data as the interpreter builds them; on an ECDSA signature they agree
  when the strict and the lenient parser yield the same signature and it has a low S.\<close>

theorem checkers_agree:
  assumes "exec_data_for sigversion e"
    "(ucast sequence :: u32) AND SEQUENCE_LOCKTIME_DISABLE_FLAG = 0"
    "\<And>c. sig_from_der K (butlast sig) = Some c \<longleftrightarrow> ecdsa_signature_parse_der_lax K (butlast sig) = LaxSome c"
    "\<And>c. sig_from_der K (butlast sig) = Some c \<Longrightarrow> sig_normalize_s K c = c"
    "version = Base \<or> version = WitnessV0"
  shows "sgn_check_lock_time t lock_time = tsc_check_lock_time t lock_time \<and>
    sgn_check_sequence t sequence = tsc_check_sequence t sequence \<and>
    fst (sgn_check_schnorr C K t ssig pubkey sigversion e err) = fst (tsc_check_schnorr C K t ssig pubkey sigversion e err) \<and>
    sgn_check_ecdsa C K t sig pubkey code version = tsc_check_ecdsa C K t sig pubkey code version"
proof -
  have "sgn_verify_ecdsa K (butlast sig) pubkey h = verify_ecdsa_signature K (butlast sig) pubkey h" for h
  proof (cases "sig_from_der K (butlast sig)")
    case None
    then have "\<nexists>c. ecdsa_signature_parse_der_lax K (butlast sig) = LaxSome c" using assms(3) by simp
    then show ?thesis using None
      by (simp add: sgn_verify_ecdsa_def verify_ecdsa_signature_def split: option.split lax.split)
  next
    case (Some c)
    then show ?thesis using assms(3) [of c] assms(4) [of c]
      by (simp add: sgn_verify_ecdsa_def verify_ecdsa_signature_def split: option.split)
  qed
  then have "sgn_check_ecdsa C K t sig pubkey code version = tsc_check_ecdsa C K t sig pubkey code version"
    using assms(5) by (elim disjE) (simp_all only: sgn_check_ecdsa_def tsc_check_ecdsa_def Let_def sig_version.case sig_version.distinct simp_thms if_True if_False)
  then show ?thesis using lock_time_agree sequence_agree [OF assms(2)] schnorr_agree [OF assms(1)] by blast
qed

text \<open>A curve library whose two parsers agree.\<close>

definition secp_base :: secp where
  "secp_base = \<lparr>pubkey_from_slice = Some, sig_from_compact = Some, sig_normalize_s = (\<lambda>c. c), verify_ecdsa = (\<lambda>m s k. s = k),
     schnorr_from_slice = Some, verify_schnorr = (\<lambda>s m k. s = k)\<rparr>"

definition example_secp :: secp_strict where
  "example_secp =
     secp.extend secp_base \<lparr>sig_from_der = (\<lambda>b. case ecdsa_signature_parse_der_lax secp_base b of LaxSome c \<Rightarrow> Some c | _ \<Rightarrow> None)\<rparr>"

lemma lax_parse_cong: "sig_from_compact K = sig_from_compact L \<Longrightarrow> ecdsa_signature_parse_der_lax K b = ecdsa_signature_parse_der_lax L b"
  unfolding ecdsa_signature_parse_der_lax_def by (simp only:)

definition example_checker_tx :: tx_checker where
  "example_checker_tx = \<lparr>tsc_tx = example_tx, tsc_input_index = 0, tsc_amount = 0, tsc_precomputed = precomputed_empty\<rparr>"

theorem checkers_agree_witness:
  "sgn_check_ecdsa pad_crypto example_secp example_checker_tx small_signature [2] [] Base =
   tsc_check_ecdsa pad_crypto example_secp example_checker_tx small_signature [2] [] Base"
proof -
  have "sig_from_der example_secp b = Some c \<longleftrightarrow> ecdsa_signature_parse_der_lax example_secp b = LaxSome c" for b c
    using lax_parse_cong [of example_secp secp_base]
    by (cases "ecdsa_signature_parse_der_lax secp_base b") (simp_all add: example_secp_def secp_base_def secp.defs)
  moreover have "sig_normalize_s example_secp c = c" for c by (simp add: example_secp_def secp_base_def secp.defs)
  moreover have "exec_data_for Taproot exec_data_default" by (simp add: exec_data_for_def exec_data_default_def)
  moreover have "(ucast (0 :: i64) :: u32) AND SEQUENCE_LOCKTIME_DISABLE_FLAG = 0" by simp
  ultimately show ?thesis
    using checkers_agree [of Taproot exec_data_default 0 example_secp small_signature Base] by blast
qed

end
