(* ===== verification/ChainIndex.thy ===== *)
theory ChainIndex
  imports Block "HOL-Library.Multiset"
begin

text \<open>
  The block index, \<open>qubitcoin-common/src/chain.rs\<close>: the status bits of a block, the entries of the index
  in an arena with parent and skip links, the work of a target, the active chain, the search
  for an ancestor along the skip links and the median time past. Heights are the integers of the
  source's \<open>i32\<close>, positions in the arena are natural numbers.
\<close>

section \<open>Block status\<close>

type_synonym block_status = u32

definition VALID_UNKNOWN :: u32 where "VALID_UNKNOWN = 0"
definition VALID_RESERVED :: u32 where "VALID_RESERVED = 1"
definition VALID_TREE :: u32 where "VALID_TREE = 2"
definition VALID_TRANSACTIONS :: u32 where "VALID_TRANSACTIONS = 3"
definition VALID_CHAIN :: u32 where "VALID_CHAIN = 4"
definition VALID_SCRIPTS :: u32 where "VALID_SCRIPTS = 5"
definition VALID_MASK :: u32 where "VALID_MASK = 0x07"
definition HAVE_DATA :: u32 where "HAVE_DATA = 8"
definition HAVE_UNDO :: u32 where "HAVE_UNDO = 16"
definition HAVE_MASK :: u32 where "HAVE_MASK = HAVE_DATA OR HAVE_UNDO"
definition FAILED_VALID :: u32 where "FAILED_VALID = 32"
definition FAILED_CHILD :: u32 where "FAILED_CHILD = 64"
definition FAILED_MASK :: u32 where "FAILED_MASK = FAILED_VALID OR FAILED_CHILD"
definition OPT_WITNESS :: u32 where "OPT_WITNESS = 128"
definition STATUS_RESERVED :: u32 where "STATUS_RESERVED = 256"

definition st_validity :: "block_status \<Rightarrow> u32" where
  "st_validity st = st AND VALID_MASK"

definition st_is_valid :: "block_status \<Rightarrow> u32 \<Rightarrow> bool" where
  "st_is_valid st up_to = (if st AND FAILED_VALID \<noteq> 0 then False else st_validity st \<ge> up_to)"

definition st_raise_validity :: "block_status \<Rightarrow> u32 \<Rightarrow> bool \<times> block_status" where
  "st_raise_validity st level =
     (if st AND FAILED_VALID \<noteq> 0 then (False, st)
      else if st_validity st < level then (True, (st AND NOT VALID_MASK) OR level)
      else (False, st))"

definition st_has_data :: "block_status \<Rightarrow> bool" where
  "st_has_data st \<longleftrightarrow> st AND HAVE_DATA \<noteq> 0"

definition st_has_undo :: "block_status \<Rightarrow> bool" where
  "st_has_undo st \<longleftrightarrow> st AND HAVE_UNDO \<noteq> 0"

definition st_has_failed :: "block_status \<Rightarrow> bool" where
  "st_has_failed st \<longleftrightarrow> st AND FAILED_MASK \<noteq> 0"

definition st_is_invalid :: "block_status \<Rightarrow> bool" where
  "st_is_invalid st \<longleftrightarrow> st AND FAILED_VALID \<noteq> 0"

definition st_has_opt_witness :: "block_status \<Rightarrow> bool" where
  "st_has_opt_witness st \<longleftrightarrow> st AND OPT_WITNESS \<noteq> 0"

definition st_insert :: "block_status \<Rightarrow> u32 \<Rightarrow> block_status" where
  "st_insert st flag = st OR flag"

definition st_remove :: "block_status \<Rightarrow> u32 \<Rightarrow> block_status" where
  "st_remove st flag = st AND NOT flag"

definition st_contains :: "block_status \<Rightarrow> u32 \<Rightarrow> bool" where
  "st_contains st flag \<longleftrightarrow> st AND flag = flag"

section \<open>Entries of the index\<close>

definition MAX_FUTURE_BLOCK_TIME :: int where "MAX_FUTURE_BLOCK_TIME = 2 * 60 * 60"
definition MEDIAN_TIME_SPAN :: nat where "MEDIAN_TIME_SPAN = 11"
definition SEQ_ID_BEST_CHAIN_FROM_DISK :: int where "SEQ_ID_BEST_CHAIN_FROM_DISK = 0"
definition SEQ_ID_INIT_FROM_DISK :: int where "SEQ_ID_INIT_FROM_DISK = 1"

record flat_file_pos =
  ffp_file :: int
  ffp_pos :: u32

record block_index =
  bi_block_hash :: hash_bytes
  bi_version :: i32
  bi_prev_blockhash :: hash_bytes
  bi_merkle_root :: hash_bytes
  bi_time :: u32
  bi_bits :: u32
  bi_nonce :: u32
  bi_height :: int
  bi_chain_work :: arith_uint256
  bi_tx_count :: u32
  bi_chain_tx_count :: u64
  bi_status :: block_status
  bi_file :: int
  bi_data_pos :: u32
  bi_undo_pos :: u32
  bi_sequence_id :: int
  bi_time_max :: u32
  bi_prev :: "nat option"
  bi_skip :: "nat option"

type_synonym arena = "block_index list"

definition bi_from_header :: "crypto \<Rightarrow> block_header \<Rightarrow> int \<Rightarrow> block_index" where
  "bi_from_header C header height =
     \<lparr>bi_block_hash = header_block_hash C header, bi_version = hdr_version header,
      bi_prev_blockhash = hdr_prev_blockhash header, bi_merkle_root = hdr_merkle_root header,
      bi_time = hdr_time header, bi_bits = hdr_bits header, bi_nonce = hdr_nonce header, bi_height = height,
      bi_chain_work = au_zero, bi_tx_count = 0, bi_chain_tx_count = 0, bi_status = 0, bi_file = 0,
      bi_data_pos = 0, bi_undo_pos = 0, bi_sequence_id = SEQ_ID_INIT_FROM_DISK, bi_time_max = 0,
      bi_prev = None, bi_skip = None\<rparr>"

definition ffp_NULL :: flat_file_pos where
  "ffp_NULL = \<lparr>ffp_file = - 1, ffp_pos = 0\<rparr>"

definition ffp_is_null :: "flat_file_pos \<Rightarrow> bool" where
  "ffp_is_null p \<longleftrightarrow> ffp_file p = - 1"

definition bi_new :: block_index where
  "bi_new =
     \<lparr>bi_block_hash = ZERO_HASH, bi_version = 0, bi_prev_blockhash = ZERO_HASH, bi_merkle_root = ZERO_HASH,
      bi_time = 0, bi_bits = 0, bi_nonce = 0, bi_height = 0, bi_chain_work = au_zero, bi_tx_count = 0,
      bi_chain_tx_count = 0, bi_status = 0, bi_file = 0, bi_data_pos = 0, bi_undo_pos = 0,
      bi_sequence_id = SEQ_ID_INIT_FROM_DISK, bi_time_max = 0, bi_prev = None, bi_skip = None\<rparr>"

definition bi_get_block_header :: "block_index \<Rightarrow> block_header" where
  "bi_get_block_header bi =
     \<lparr>hdr_version = bi_version bi, hdr_prev_blockhash = bi_prev_blockhash bi,
      hdr_merkle_root = bi_merkle_root bi, hdr_time = bi_time bi, hdr_bits = bi_bits bi, hdr_nonce = bi_nonce bi\<rparr>"

definition bi_get_block_time :: "block_index \<Rightarrow> int" where
  "bi_get_block_time bi = uint (bi_time bi)"

definition bi_get_block_time_max :: "block_index \<Rightarrow> int" where
  "bi_get_block_time_max bi = uint (bi_time_max bi)"

definition get_median_time_past :: "block_index list \<Rightarrow> int" where
  "get_median_time_past ancestors =
     (let count = min (length ancestors) MEDIAN_TIME_SPAN in
      if count = 0 then 0
      else let times = sort (map bi_get_block_time (take count ancestors)) in times ! (length times div 2))"

definition have_num_chain_txs :: "block_index \<Rightarrow> bool" where
  "have_num_chain_txs bi \<longleftrightarrow> bi_chain_tx_count bi \<noteq> 0"

definition bi_is_valid :: "block_index \<Rightarrow> u32 \<Rightarrow> bool" where
  "bi_is_valid bi up_to = st_is_valid (bi_status bi) up_to"

definition bi_raise_validity :: "block_index \<Rightarrow> u32 \<Rightarrow> bool \<times> block_index" where
  "bi_raise_validity bi up_to = (let (changed, st) = st_raise_validity (bi_status bi) up_to in (changed, bi\<lparr>bi_status := st\<rparr>))"

definition bi_get_block_pos :: "block_index \<Rightarrow> flat_file_pos option" where
  "bi_get_block_pos bi =
     (if st_has_data (bi_status bi) then Some \<lparr>ffp_file = bi_file bi, ffp_pos = bi_data_pos bi\<rparr> else None)"

definition bi_get_undo_pos :: "block_index \<Rightarrow> flat_file_pos option" where
  "bi_get_undo_pos bi =
     (if st_has_undo (bi_status bi) then Some \<lparr>ffp_file = bi_file bi, ffp_pos = bi_undo_pos bi\<rparr> else None)"

record disk_block_index =
  di_version :: i32
  di_hash_prev :: hash_bytes
  di_merkle_root :: hash_bytes
  di_time :: u32
  di_bits :: u32
  di_nonce :: u32
  di_height :: int
  di_status :: block_status
  di_tx_count :: u32
  di_file :: int
  di_data_pos :: u32
  di_undo_pos :: u32

definition di_from_block_index :: "block_index \<Rightarrow> disk_block_index" where
  "di_from_block_index bi =
     \<lparr>di_version = bi_version bi, di_hash_prev = bi_prev_blockhash bi, di_merkle_root = bi_merkle_root bi,
      di_time = bi_time bi, di_bits = bi_bits bi, di_nonce = bi_nonce bi, di_height = bi_height bi,
      di_status = bi_status bi, di_tx_count = bi_tx_count bi, di_file = bi_file bi,
      di_data_pos = bi_data_pos bi, di_undo_pos = bi_undo_pos bi\<rparr>"

definition di_construct_block_hash :: "crypto \<Rightarrow> disk_block_index \<Rightarrow> hash_bytes" where
  "di_construct_block_hash C di =
     header_block_hash C \<lparr>hdr_version = di_version di, hdr_prev_blockhash = di_hash_prev di,
       hdr_merkle_root = di_merkle_root di, hdr_time = di_time di, hdr_bits = di_bits di, hdr_nonce = di_nonce di\<rparr>"

section \<open>Work\<close>

definition get_bits_proof :: "u32 \<Rightarrow> arith_error + arith_uint256" where
  "get_bits_proof bits =
     (let (target, negative, overflow) = set_compact bits in
      if negative \<or> overflow \<or> target = au_zero then Inr au_zero
      else case au_div (au_not target) (au_add target (au_from_u64 1)) of
          Inl e \<Rightarrow> Inl e
        | Inr q \<Rightarrow> Inr (au_add q (au_from_u64 1)))"

definition get_block_proof :: "block_index \<Rightarrow> arith_error + arith_uint256" where
  "get_block_proof bi = get_bits_proof (bi_bits bi)"

definition get_header_proof :: "block_header \<Rightarrow> arith_error + arith_uint256" where
  "get_header_proof header = get_bits_proof (hdr_bits header)"

section \<open>The active chain\<close>

type_synonym chain = "nat list"

definition chain_genesis :: "chain \<Rightarrow> nat option" where
  "chain_genesis c = (if c = [] then None else Some (hd c))"

definition chain_tip :: "chain \<Rightarrow> nat option" where
  "chain_tip c = (if c = [] then None else Some (last c))"

definition chain_height :: "chain \<Rightarrow> int" where
  "chain_height c = int (length c) - 1"

definition chain_get_block_index :: "chain \<Rightarrow> int \<Rightarrow> nat option" where
  "chain_get_block_index c height =
     (if height < 0 \<or> nat height \<ge> length c then None else Some (c ! nat height))"

definition chain_contains :: "chain \<Rightarrow> nat \<Rightarrow> int \<Rightarrow> bool" where
  "chain_contains c index height \<longleftrightarrow> chain_get_block_index c height = Some index"

definition chain_next :: "chain \<Rightarrow> int \<Rightarrow> nat option" where
  "chain_next c height = chain_get_block_index c (height + 1)"

text \<open>\<open>Vec::resize\<close> with the filler 0.\<close>

definition resize0 :: "nat \<Rightarrow> nat list \<Rightarrow> nat list" where
  "resize0 n xs = take n xs @ replicate (n - length xs) 0"

definition chain_set_tip :: "chain \<Rightarrow> nat \<Rightarrow> int \<Rightarrow> chain" where
  "chain_set_tip c index height =
     (if height < 0 then [] else (resize0 (nat height + 1) c)[nat height := index])"

text \<open>The walk of \<open>set_tip_with\<close> from the tip down, over the parent function.\<close>

fun fill_down :: "(nat \<Rightarrow> nat option) \<Rightarrow> nat \<Rightarrow> chain \<Rightarrow> nat \<Rightarrow> nat \<Rightarrow> chain" where
  "fill_down get_prev tip c current h =
     (if h < length c \<and> c ! h = current \<and> h < tip then c
      else
        let c = c[h := current] in
        case get_prev current of
          None \<Rightarrow> c
        | Some prev \<Rightarrow> (case h of 0 \<Rightarrow> c | Suc h' \<Rightarrow> fill_down get_prev tip c prev h'))"

declare fill_down.simps [simp del]

definition chain_set_tip_with :: "chain \<Rightarrow> nat \<Rightarrow> int \<Rightarrow> (nat \<Rightarrow> nat option) \<Rightarrow> chain" where
  "chain_set_tip_with c tip_index tip_height get_prev =
     (if tip_height < 0 then []
      else fill_down get_prev (nat tip_height) (resize0 (nat tip_height + 1) c) tip_index (nat tip_height))"

definition chain_find_fork :: "chain \<Rightarrow> chain \<Rightarrow> int option" where
  "chain_find_fork c d =
     (let min_height = min (chain_height c) (chain_height d) in
      if min_height < 0 then None
      else map_option int (find (\<lambda>h. c ! h = d ! h) (rev [0..<nat min_height + 1])))"

definition chain_find_earliest_at_least :: "chain \<Rightarrow> int \<Rightarrow> int \<Rightarrow> (nat \<Rightarrow> int) \<Rightarrow> int option" where
  "chain_find_earliest_at_least c min_time min_height get_time =
     (let start = (if min_height < 0 then 0 else nat min_height)
      in map_option int (find (\<lambda>h. get_time (c ! h) \<ge> min_time) [start..<length c]))"

section \<open>Ancestors\<close>

definition invert_lowest_one :: "int \<Rightarrow> int" where
  "invert_lowest_one n = n AND (n - 1)"

definition get_skip_height :: "int \<Rightarrow> int" where
  "get_skip_height height =
     (if height < 2 then 0
      else if height AND 1 \<noteq> 0 then invert_lowest_one (invert_lowest_one (height - 1)) + 1
      else invert_lowest_one height)"

lemma invert_lowest_one_bounds: "0 < n \<Longrightarrow> 0 \<le> invert_lowest_one n \<and> invert_lowest_one n < n"
  unfolding invert_lowest_one_def
  by (metis and_nonnegative_int_iff AND_upper2' diff_ge_0_iff_ge int_one_le_iff_zero_less less_le_not_le linorder_not_le
      order_le_less_trans zle_diff1_eq less_imp_le)


lemma get_skip_height_bounds: "0 < h \<Longrightarrow> 0 \<le> get_skip_height h \<and> get_skip_height h < h"
proof -
  assume h: "0 < h"
  have n: "0 \<le> invert_lowest_one (invert_lowest_one (h - 1)) \<and> invert_lowest_one (invert_lowest_one (h - 1)) < h - 1"
    if "2 \<le> h"
    using invert_lowest_one_bounds [of "h - 1"] invert_lowest_one_bounds [of "invert_lowest_one (h - 1)"] that
    by (cases "invert_lowest_one (h - 1) = 0") (auto simp: invert_lowest_one_def)
  show ?thesis
    using h n invert_lowest_one_bounds [of h] by (auto simp: get_skip_height_def)
qed

text \<open>The loop of \<open>get_ancestor\<close>, which is entered with a target that is not negative.\<close>

function ancestor_walk :: "arena \<Rightarrow> int \<Rightarrow> nat \<Rightarrow> int \<Rightarrow> nat option" where
  "ancestor_walk arena target_height walk_idx walk_height =
     (if 0 \<le> target_height \<and> walk_height > target_height then
        let skip_height = get_skip_height walk_height in
        if walk_idx \<ge> length arena then None
        else
          let block = arena ! walk_idx;
              skip_prev_height = get_skip_height (walk_height - 1) in
          if bi_skip block \<noteq> None \<and>
             (skip_height = target_height \<or>
              (skip_height > target_height \<and>
               \<not> (skip_prev_height < skip_height - 2 \<and> skip_prev_height \<ge> target_height)))
          then ancestor_walk arena target_height (the (bi_skip block)) skip_height
          else case bi_prev block of
              None \<Rightarrow> None
            | Some prev \<Rightarrow> ancestor_walk arena target_height prev (walk_height - 1)
      else Some walk_idx)"
  by pat_completeness auto
termination
  by (relation "measure (\<lambda>(arena, target, idx, h). nat h)") (use get_skip_height_bounds in \<open>auto simp: nat_mono_iff\<close>)

declare ancestor_walk.simps [simp del]

definition get_ancestor :: "arena \<Rightarrow> nat \<Rightarrow> int \<Rightarrow> nat option" where
  "get_ancestor arena arena_idx target_height =
     (if arena_idx \<ge> length arena then None
      else
        let block = arena ! arena_idx in
        if target_height > bi_height block \<or> target_height < 0 then None
        else ancestor_walk arena target_height arena_idx (bi_height block))"

fun collect_ancestors :: "nat \<Rightarrow> arena \<Rightarrow> nat option \<Rightarrow> block_index list" where
  "collect_ancestors 0 arena idx = []"
| "collect_ancestors (Suc n) arena None = []"
| "collect_ancestors (Suc n) arena (Some i) =
     (if i < length arena then (arena ! i) # collect_ancestors n arena (bi_prev (arena ! i)) else [])"

definition collect_mtp_ancestors :: "arena \<Rightarrow> nat \<Rightarrow> block_index list" where
  "collect_mtp_ancestors arena arena_idx = collect_ancestors MEDIAN_TIME_SPAN arena (Some arena_idx)"

definition compute_mtp :: "arena \<Rightarrow> nat \<Rightarrow> int" where
  "compute_mtp arena arena_idx = get_median_time_past (collect_mtp_ancestors arena arena_idx)"

section \<open>Well-formed indexes\<close>

text \<open>The ancestor \<open>n\<close> generations up.\<close>

fun prev_n :: "arena \<Rightarrow> nat \<Rightarrow> nat \<Rightarrow> nat option" where
  "prev_n arena 0 i = Some i"
| "prev_n arena (Suc n) i = Option.bind (bi_prev (arena ! i)) (prev_n arena n)"

text \<open>Parents come earlier and are one block lower, the entries without parent have height 0, and a skip link leads to the
  ancestor at the height that \<open>get_skip_height\<close> gives.\<close>

definition entry_ok :: "arena \<Rightarrow> nat \<Rightarrow> bool" where
  "entry_ok arena i \<longleftrightarrow>
     (case bi_prev (arena ! i) of
        None \<Rightarrow> bi_height (arena ! i) = 0
      | Some j \<Rightarrow> j < i \<and> bi_height (arena ! i) = bi_height (arena ! j) + 1) \<and>
     (\<forall>s. bi_skip (arena ! i) = Some s \<longrightarrow>
        prev_n arena (nat (bi_height (arena ! i) - get_skip_height (bi_height (arena ! i)))) i = Some s)"

definition arena_ok :: "arena \<Rightarrow> bool" where
  "arena_ok arena \<longleftrightarrow> (\<forall>i<length arena. entry_ok arena i)"

lemma arena_prev:
  assumes "arena_ok arena" "i < length arena"
  shows "bi_prev (arena ! i) = None \<Longrightarrow> bi_height (arena ! i) = 0"
    "bi_prev (arena ! i) = Some j \<Longrightarrow> j < i \<and> j < length arena \<and> bi_height (arena ! i) = bi_height (arena ! j) + 1"
  using assms by (auto simp: arena_ok_def entry_ok_def split: option.splits)

lemma arena_height: "arena_ok arena \<Longrightarrow> i < length arena \<Longrightarrow> 0 \<le> bi_height (arena ! i)"
proof (induction i rule: less_induct)
  case (less i)
  then show ?case using arena_prev [OF less.prems] by (cases "bi_prev (arena ! i)") fastforce+
qed

lemma prev_n_total:
  "arena_ok arena \<Longrightarrow> i < length arena \<Longrightarrow> int n \<le> bi_height (arena ! i) \<Longrightarrow>
   \<exists>j. prev_n arena n i = Some j \<and> j \<le> i \<and> j < length arena \<and> bi_height (arena ! j) = bi_height (arena ! i) - int n"
proof (induction n arbitrary: i)
  case (Suc n)
  have "bi_prev (arena ! i) \<noteq> None" using arena_prev(1) [OF Suc.prems(1,2)] Suc.prems(3) by auto
  then obtain k where k: "bi_prev (arena ! i) = Some k" by blast
  note ak = arena_prev(2) [OF Suc.prems(1,2) k]
  obtain j where "prev_n arena n k = Some j" "j \<le> k" "j < length arena" "bi_height (arena ! j) = bi_height (arena ! k) - int n"
    using Suc.IH [OF Suc.prems(1), of k] ak Suc.prems(3) by auto
  then show ?case using k ak by auto
qed simp

lemma prev_n_add: "prev_n arena (m + n) i = Option.bind (prev_n arena m i) (prev_n arena n)"
  by (induction m arbitrary: i) (auto simp: bind_eq_None_conv split: bind_split)

lemma ancestor_walk_exact:
  "arena_ok arena \<Longrightarrow> i < length arena \<Longrightarrow> bi_height (arena ! i) = h \<Longrightarrow> 0 \<le> t \<Longrightarrow> t \<le> h \<Longrightarrow>
   ancestor_walk arena t i h = prev_n arena (nat (h - t)) i"
proof (induction arena t i h rule: ancestor_walk.induct)
  case (1 arena t i h)
  show ?case
  proof (cases "t < h")
    case False
    then show ?thesis using "1.prems" by (simp add: ancestor_walk.simps)
  next
    case t: True
    let ?s = "get_skip_height h"
    have s: "0 \<le> ?s" "?s < h" using get_skip_height_bounds [of h] t "1.prems"(4) by auto
    define c where "c = (bi_skip (arena ! i) \<noteq> None \<and>
      (?s = t \<or> (?s > t \<and> \<not> (get_skip_height (h - 1) < ?s - 2 \<and> get_skip_height (h - 1) \<ge> t))))"
    show ?thesis
    proof (cases c)
      case True
      then obtain k where k: "bi_skip (arena ! i) = Some k" and ge: "t \<le> ?s" by (auto simp: c_def)
      have pk: "prev_n arena (nat (h - ?s)) i = Some k"
        using "1.prems" k by (auto simp: arena_ok_def entry_ok_def)
      obtain j where j: "prev_n arena (nat (h - ?s)) i = Some j" "j < length arena" "bi_height (arena ! j) = ?s"
        using prev_n_total [OF "1.prems"(1,2), of "nat (h - ?s)"] "1.prems"(3) s by auto
      have "ancestor_walk arena t i h = ancestor_walk arena t k ?s"
        using t "1.prems"(2,4) True k by (subst ancestor_walk.simps) (simp add: c_def Let_def)
      also have "\<dots> = prev_n arena (nat (?s - t)) k"
        using "1.IH"(1) [OF _ refl _ refl refl] t "1.prems" j pk k ge True by (simp add: c_def)
      also have "\<dots> = prev_n arena (nat (h - ?s) + nat (?s - t)) i" by (simp add: prev_n_add pk)
      also have "nat (h - ?s) + nat (?s - t) = nat (h - t)" using s ge by simp
      finally show ?thesis .
    next
      case False
      have "bi_prev (arena ! i) \<noteq> None" using arena_prev(1) [OF "1.prems"(1,2)] "1.prems"(3,4) t by auto
      then obtain k where k: "bi_prev (arena ! i) = Some k" by blast
      note ak = arena_prev(2) [OF "1.prems"(1,2) k]
      have "ancestor_walk arena t i h = ancestor_walk arena t k (h - 1)"
        using t "1.prems"(2,4) False k by (subst ancestor_walk.simps) (auto simp: c_def Let_def)
      also have "\<dots> = prev_n arena (nat (h - 1 - t)) k"
        using "1.IH"(2) [OF _ refl _ refl refl _ k] t "1.prems" ak False by (simp add: c_def)
      also have "\<dots> = prev_n arena (Suc (nat (h - 1 - t))) i" by (simp add: k)
      also have "Suc (nat (h - 1 - t)) = nat (h - t)" using t by simp
      finally show ?thesis .
    qed
  qed
qed

lemma get_ancestor_prev_n:
  assumes "arena_ok arena" "i < length arena"
  shows "get_ancestor arena i h = (if 0 \<le> h \<and> h \<le> bi_height (arena ! i) then prev_n arena (nat (bi_height (arena ! i) - h)) i else None)"
  using assms ancestor_walk_exact [OF assms refl, of h] by (simp add: get_ancestor_def Let_def)


section \<open>The active chain\<close>

text \<open>A chain is a path of parent links that starts at height 0.\<close>

definition chain_ok :: "arena \<Rightarrow> chain \<Rightarrow> bool" where
  "chain_ok arena c \<longleftrightarrow>
     (\<forall>h<length c. c ! h < length arena \<and> bi_height (arena ! (c ! h)) = int h \<and>
        (0 < h \<longrightarrow> bi_prev (arena ! (c ! h)) = Some (c ! (h - 1))))"

text \<open>The chain that ends in a block.\<close>

definition path_to :: "arena \<Rightarrow> nat \<Rightarrow> chain" where
  "path_to arena i =
     map (\<lambda>h. the (prev_n arena (nat (bi_height (arena ! i)) - h) i)) [0..<nat (bi_height (arena ! i)) + 1]"

definition parent_of :: "arena \<Rightarrow> nat \<Rightarrow> nat option" where
  "parent_of arena i = bi_prev (arena ! i)"

lemma chain_ok_prev_n:
  assumes "chain_ok arena c" "h < length c" "k \<le> h"
  shows "prev_n arena (h - k) (c ! h) = Some (c ! k)"
  using assms(2,3)
proof (induction "h - k" arbitrary: h)
  case (Suc d)
  then have "bi_prev (arena ! (c ! h)) = Some (c ! (h - 1))" using assms(1) by (auto simp: chain_ok_def)
  moreover have "prev_n arena (h - 1 - k) (c ! (h - 1)) = Some (c ! k)" using Suc by (intro Suc.hyps(1)) auto
  moreover have "h - k = Suc (h - 1 - k)" using Suc by simp
  ultimately show ?case by (metis bind.bind_lunit prev_n.simps(2))
qed simp

lemma prev_n_Suc_right: "prev_n arena (Suc n) i = Option.bind (prev_n arena n i) (\<lambda>j. bi_prev (arena ! j))"
proof -
  have "prev_n arena 1 j = bi_prev (arena ! j)" for j by (cases "bi_prev (arena ! j)") simp_all
  then have "prev_n arena 1 = (\<lambda>j. bi_prev (arena ! j))" by (rule ext)
  then show ?thesis using prev_n_add [of arena n 1 i] by (simp only: Suc_eq_plus1)
qed

lemma path_to_facts:
  assumes "arena_ok arena" "i < length arena"
  shows "length (path_to arena i) = nat (bi_height (arena ! i)) + 1" "last (path_to arena i) = i"
    "chain_ok arena (path_to arena i)"
proof -
  let ?n = "nat (bi_height (arena ! i))"
  show len: "length (path_to arena i) = ?n + 1" by (simp add: path_to_def)
  show "last (path_to arena i) = i" by (simp add: path_to_def)
  have at: "prev_n arena (?n - h) i = Some (path_to arena i ! h) \<and> path_to arena i ! h < length arena \<and>
      bi_height (arena ! (path_to arena i ! h)) = int h" if "h \<le> ?n" for h
    using prev_n_total [OF assms, of "?n - h"] arena_height [OF assms] that
    by (auto simp: path_to_def nth_append less_Suc_eq_le simp del: upt_Suc)
  have "bi_prev (arena ! (path_to arena i ! h)) = Some (path_to arena i ! (h - 1))" if "h \<le> ?n" "0 < h" for h
  proof -
    have "?n - (h - 1) = Suc (?n - h)" using that by simp
    then show ?thesis using at [of h] at [of "h - 1"] that prev_n_Suc_right [of arena "?n - h" i] by simp
  qed
  then show "chain_ok arena (path_to arena i)" using at len by (simp add: chain_ok_def less_Suc_eq_le)
qed


lemma chain_ok_agree:
  assumes "chain_ok arena c" "chain_ok arena d" "h < length c" "h < length d" "c ! h = d ! h" "k \<le> h"
  shows "c ! k = d ! k"
  using chain_ok_prev_n [OF assms(1,3,6)] chain_ok_prev_n [OF assms(2,4,6)] assms(5) by simp

lemma arena_first: "arena_ok arena \<Longrightarrow> 0 < length arena \<Longrightarrow> bi_height (arena ! 0) = 0"
  using arena_prev [of arena 0] by (cases "bi_prev (arena ! 0)") auto

lemma resized_agree:
  assumes "arena_ok arena" "chain_ok arena c0" "chain_ok arena p" "h < length p" "resize0 (length p) c0 ! h = p ! h" "k \<le> h"
  shows "resize0 (length p) c0 ! k = p ! k"
proof (cases "h < length c0")
  case True
  then have "c0 ! h = p ! h" using assms(4,5) by (simp add: resize0_def nth_append)
  then have "c0 ! k = p ! k" using chain_ok_agree [OF assms(2,3) True assms(4) _ assms(6)] by simp
  then show ?thesis using True assms(4,6) by (simp add: resize0_def nth_append)
next
  case False
  then have "p ! h = 0" using assms(4,5) by (simp add: resize0_def nth_append)
  moreover have "p ! h < length arena" "bi_height (arena ! (p ! h)) = int h" using assms(3,4) by (auto simp: chain_ok_def)
  ultimately have "h = 0" using arena_first [OF assms(1)] by simp
  then show ?thesis using assms(5,6) by simp
qed

lemma fill_down_path:
  assumes "arena_ok arena" "chain_ok arena c0" "chain_ok arena p" "length p = Suc n"
  shows "h \<le> n \<Longrightarrow> length c = Suc n \<Longrightarrow> \<forall>k\<le>h. c ! k = resize0 (Suc n) c0 ! k \<Longrightarrow> \<forall>k. h < k \<and> k \<le> n \<longrightarrow> c ! k = p ! k \<Longrightarrow>
    fill_down (parent_of arena) n c (p ! h) h = p"
proof (induction h arbitrary: c)
  case 0
  have "c[0 := p ! 0] = p"
    using 0 assms(4) by (intro nth_equalityI) (auto simp: nth_list_update less_Suc_eq_le)
  moreover have "c = p" if "c ! 0 = p ! 0"
    using 0 assms(4) that by (intro nth_equalityI) (metis gr0I less_Suc_eq_le)+
  ultimately show ?case using 0 by (subst fill_down.simps) (auto simp: Let_def split: option.splits)
next
  case (Suc h)
  show ?case
  proof (cases "c ! Suc h = p ! Suc h \<and> Suc h < n")
    case True
    then have "\<forall>k\<le>Suc h. c ! k = p ! k"
      using resized_agree [OF assms(1-3), of "Suc h"] Suc.prems assms(4) by auto
    then have "c ! k = p ! k" if "k \<le> n" for k using Suc.prems(4) that by (cases "k \<le> Suc h") auto
    then have "c = p" using Suc.prems(2) assms(4) by (intro nth_equalityI) (auto simp: less_Suc_eq_le)
    then show ?thesis using True Suc.prems by (subst fill_down.simps) simp
  next
    case False
    have "parent_of arena (p ! Suc h) = Some (p ! h)" using assms(3,4) Suc.prems(1) by (auto simp: chain_ok_def parent_of_def)
    then have "fill_down (parent_of arena) n c (p ! Suc h) (Suc h) = fill_down (parent_of arena) n (c[Suc h := p ! Suc h]) (p ! h) h"
      using False by (subst fill_down.simps) (auto simp: Let_def)
    also have "\<dots> = p"
      using Suc.prems by (intro Suc.IH) (auto simp: nth_list_update less_Suc_eq_le Suc_le_eq)
    finally show ?thesis .
  qed
qed

lemma set_tip_with_path:
  assumes "arena_ok arena" "i < length arena" "chain_ok arena c"
  shows "chain_set_tip_with c i (bi_height (arena ! i)) (parent_of arena) = path_to arena i"
proof -
  let ?p = "path_to arena i" and ?n = "nat (bi_height (arena ! i))"
  note p = path_to_facts [OF assms(1,2)]
  have "?p ! ?n = i" using p(1,2) by (metis add_diff_cancel_right' last_conv_nth length_0_conv nat.simps(3) Suc_eq_plus1)
  moreover have "fill_down (parent_of arena) ?n (resize0 (Suc ?n) c) (?p ! ?n) ?n = ?p"
    using p by (intro fill_down_path [OF assms(1,3) p(3)]) (auto simp: resize0_def)
  ultimately show ?thesis
    using arena_height [OF assms(1,2)] by (simp add: chain_set_tip_with_def)
qed

lemma find_rev_max:
  "find P (rev [0..<n]) = Some h \<longleftrightarrow> h < n \<and> P h \<and> (\<forall>k. h < k \<and> k < n \<longrightarrow> \<not> P k)"
  by (induction n) (auto simp: less_Suc_eq)

lemma find_fork_exact:
  assumes "chain_ok arena c" "chain_ok arena d"
  shows "chain_find_fork c d = Some h \<longleftrightarrow>
    (\<exists>k. h = int k \<and> k < length c \<and> k < length d \<and> take (Suc k) c = take (Suc k) d \<and>
      (\<forall>j. k < j \<and> j < length c \<and> j < length d \<longrightarrow> c ! j \<noteq> d ! j))"
proof -
  have pre: "take (Suc k) c = take (Suc k) d \<longleftrightarrow> c ! k = d ! k" if "k < length c" "k < length d" for k
  proof
    assume "c ! k = d ! k"
    then have "\<forall>j\<le>k. c ! j = d ! j" using chain_ok_agree [OF assms] that by blast
    then show "take (Suc k) c = take (Suc k) d" using that by (intro nth_equalityI) auto
  qed (metis lessI nth_take)
  have n: "nat (min (chain_height c) (chain_height d)) + 1 = min (length c) (length d)" if "\<not> min (chain_height c) (chain_height d) < 0"
    using that by (cases "length c \<le> length d"; cases c; cases d) (auto simp: chain_height_def min_def)
  have e: "min (length c) (length d) = 0" if "min (chain_height c) (chain_height d) < 0"
    using that by (auto simp: chain_height_def min_def split: if_splits)
  show ?thesis
    using pre n e
    by (cases "min (chain_height c) (chain_height d) < 0")
      (auto simp: chain_find_fork_def Let_def find_rev_max simp del: upt_Suc)
qed


section \<open>Median time past\<close>

lemma sorted_nth_ge:
  "sorted xs \<Longrightarrow> k < length xs \<Longrightarrow> m \<le> xs ! k \<longleftrightarrow> length (filter (\<lambda>x. x < m) xs) \<le> k" for m :: "'a::linorder"
proof (induction xs arbitrary: k)
  case (Cons x xs)
  show ?case
  proof (cases "x < m")
    case True
    then show ?thesis using Cons by (cases k) auto
  next
    case False
    then have "\<forall>y\<in>set (x # xs). m \<le> y" using Cons.prems(1) by fastforce
    then have "m \<le> (x # xs) ! k" "filter (\<lambda>y. y < m) (x # xs) = []"
      using Cons.prems(2) nth_mem [of k "x # xs"] by (fastforce, auto simp: filter_empty_conv not_less)
    then show ?thesis by simp
  qed
qed simp

lemma nth_sort_ge:
  fixes m :: "'a::linorder"
  assumes "k < length xs"
  shows "m \<le> sort xs ! k \<longleftrightarrow> length (filter (\<lambda>x. x < m) xs) \<le> k"
proof -
  have "length (filter (\<lambda>x. x < m) (sort xs)) = length (filter (\<lambda>x. x < m) xs)"
    by (metis mset_filter mset_sort size_mset)
  then show ?thesis using sorted_nth_ge [of "sort xs" k m] assms by simp
qed

lemma collect_ancestors_take: "m \<le> n \<Longrightarrow> collect_ancestors m arena x = take m (collect_ancestors n arena x)"
proof (induction m arbitrary: n x)
  case (Suc m)
  then obtain n' where "n = Suc n'" "m \<le> n'" by (cases n) auto
  then show ?case using Suc.IH by (cases x) auto
qed simp

lemma length_collect_ancestors: "length (collect_ancestors n arena x) \<le> n"
  by (induction n arena x rule: collect_ancestors.induct) auto

definition mtp_times :: "arena \<Rightarrow> nat \<Rightarrow> int list" where
  "mtp_times arena i = map bi_get_block_time (collect_mtp_ancestors arena i)"

lemma mtp_times_facts:
  assumes "i < length arena"
  shows "mtp_times arena i \<noteq> []" "length (mtp_times arena i) \<le> 11"
    "compute_mtp arena i = sort (mtp_times arena i) ! (length (mtp_times arena i) div 2)"
    "bi_prev (arena ! i) = Some j \<Longrightarrow> mtp_times arena i = bi_get_block_time (arena ! i) # take 10 (mtp_times arena j)"
proof -
  have e: "collect_ancestors 11 arena (Some i) = arena ! i # collect_ancestors 10 arena (bi_prev (arena ! i))"
    using collect_ancestors.simps(3) [of 10 arena i] assms by simp
  show ne: "mtp_times arena i \<noteq> []" and len: "length (mtp_times arena i) \<le> 11"
    using assms length_collect_ancestors [of 11 arena "Some i"]
    by (simp_all add: mtp_times_def collect_mtp_ancestors_def MEDIAN_TIME_SPAN_def e)
  then show "compute_mtp arena i = sort (mtp_times arena i) ! (length (mtp_times arena i) div 2)"
    by (simp add: compute_mtp_def get_median_time_past_def Let_def mtp_times_def MEDIAN_TIME_SPAN_def)
  show "mtp_times arena i = bi_get_block_time (arena ! i) # take 10 (mtp_times arena j)"
    if "bi_prev (arena ! i) = Some j"
    using assms that collect_ancestors_take [of 10 11 arena "Some j"]
    by (simp add: mtp_times_def collect_mtp_ancestors_def MEDIAN_TIME_SPAN_def take_map e)
qed

lemma mtp_step:
  assumes "i < length arena" "j < length arena" "bi_prev (arena ! i) = Some j"
    "compute_mtp arena j < bi_get_block_time (arena ! i)"
  shows "compute_mtp arena j \<le> compute_mtp arena i"
proof -
  let ?T = "mtp_times arena j" and ?m = "compute_mtp arena j"
  note fi = mtp_times_facts [OF assms(1)] and fj = mtp_times_facts [OF assms(2)]
  have lt: "length ?T div 2 < length ?T" "length (mtp_times arena i) div 2 < length (mtp_times arena i)"
    using fi(1) fj(1) by simp_all
  have "length (filter (\<lambda>x. x < ?m) ?T) \<le> length ?T div 2" using nth_sort_ge [OF lt(1), of ?m] fj(3) by simp
  moreover have "length (filter (\<lambda>x. x < ?m) (take 10 ?T)) \<le> length (filter (\<lambda>x. x < ?m) ?T)"
    by (metis append_take_drop_id filter_append length_append le_add1)
  ultimately have "length (filter (\<lambda>x. x < ?m) (mtp_times arena i)) \<le> length ?T div 2"
    using fi(4) [OF assms(3)] assms(4) by simp
  also have "\<dots> \<le> length (mtp_times arena i) div 2"
    using fi(4) [OF assms(3)] fj(2) by (simp add: min_def) presburger
  finally show ?thesis using nth_sort_ge [OF lt(2), of ?m] fi(3) by simp
qed

text \<open>The rule that a block is younger than the median time past of its parent.\<close>

definition times_ok :: "arena \<Rightarrow> bool" where
  "times_ok arena \<longleftrightarrow>
     (\<forall>i<length arena. \<forall>j. bi_prev (arena ! i) = Some j \<longrightarrow> compute_mtp arena j < bi_get_block_time (arena ! i))"

lemma mtp_prev_n:
  "arena_ok arena \<Longrightarrow> times_ok arena \<Longrightarrow> i < length arena \<Longrightarrow> prev_n arena n i = Some j \<Longrightarrow>
   j < length arena \<and> compute_mtp arena j \<le> compute_mtp arena i"
proof (induction n arbitrary: i)
  case (Suc n)
  then obtain k where k: "bi_prev (arena ! i) = Some k" "prev_n arena n k = Some j" by (auto simp: bind_eq_Some_conv)
  have "k < length arena" using arena_prev(2) [OF Suc.prems(1,3) k(1)] by simp
  then show ?case
    using Suc.IH [OF Suc.prems(1,2) _ k(2)] mtp_step [of i arena k] Suc.prems(2,3) k(1) by (fastforce simp: times_ok_def)
qed simp

section \<open>Work\<close>

lemma div_complement: "0 < d \<Longrightarrow> d \<le> n \<Longrightarrow> (n - d) div d + 1 = n div (d :: nat)"
  by (simp add: le_div_geq)

lemma bits_proof_value:
  "\<exists>p. get_bits_proof bits = Inr p \<and> au_ok p \<and>
    unat (au_word p) = (if bit bits 23 \<or> compact_value bits = 0 \<or> 2 ^ 256 \<le> compact_value bits then 0
      else 2 ^ 256 div (compact_value bits + 1))"
proof -
  obtain t ng ov where sc: "set_compact bits = (t, ng, ov)" by (cases "set_compact bits") auto
  note w = set_compact_word [OF sc] and ok = pow_target_ok [OF sc]
  show ?thesis
  proof (cases "ng \<or> t = au_zero \<or> ov")
    case True
    then have "bit bits 23 \<or> compact_value bits = 0 \<or> 2 ^ 256 \<le> compact_value bits" using ok(1) by (auto simp: not_less)
    moreover have "get_bits_proof bits = Inr au_zero" using True by (auto simp: get_bits_proof_def sc)
    ultimately show ?thesis using au_zero_word by simp
  next
    case False
    let ?T = "compact_value bits"
    have T: "\<not> (bit bits 23 \<or> ?T = 0 \<or> 2 ^ 256 \<le> ?T)" "unat (au_word t) = ?T" using ok False by auto
    note one = au_from_u64_word [of 1]
    have d: "au_ok (au_add t (au_from_u64 1))" "au_word (au_add t (au_from_u64 1)) = au_word t + 1"
      using au_add_word [OF ok(2), of "au_from_u64 1"] one by simp_all
    have T23: "?T < 2 ^ 256 - 1"
    proof -
      obtain m j where mj: "?T = m * 256 ^ j" "m < 2 ^ 23" using compact_value_form by blast
      have "?T \<noteq> 2 ^ 256 - 1"
      proof (cases j)
        case 0
        then show ?thesis using mj by simp
      next
        case (Suc k)
        then have "even ?T" using mj(1) by simp
        moreover have "odd ((2 :: nat) ^ 256 - 1)" by simp
        ultimately show ?thesis by metis
      qed
      then show ?thesis using T(1) by simp
    qed
    have ud: "unat (au_word t + 1) = ?T + 1" using T(2) T23 by (simp add: unat_word_ariths)
    have un: "unat (NOT (au_word t)) = 2 ^ 256 - (?T + 1)"
    proof -
      have "NOT (au_word t) = - 1 - au_word t" by (simp add: not_eq_complement)
      then show ?thesis using T(2) unat_sub [of "au_word t" "- 1"] by (simp add: unsigned_minus_1_eq_mask mask_eq_exp_minus_1)
    qed
    have nz: "au_word (au_add t (au_from_u64 1)) \<noteq> 0" using ud d(2) by (metis add_is_0 unat_0 zero_neq_one)
    obtain q where q: "au_div (au_not t) (au_add t (au_from_u64 1)) = Inr q" "au_ok q"
      "au_word q = NOT (au_word t) div (au_word t + 1)"
      using au_div_word(2) [OF _ d(1) nz, of "au_not t"] au_not_word [OF ok(2)] d(2) by auto
    have uq: "unat (au_word q) = (2 ^ 256 - (?T + 1)) div (?T + 1)" using q(3) ud un by (simp add: unat_div)
    have p: "au_ok (au_add q (au_from_u64 1))" "au_word (au_add q (au_from_u64 1)) = au_word q + 1"
      using au_add_word [OF q(2), of "au_from_u64 1"] one by simp_all
    have "unat (au_word q) + 1 = 2 ^ 256 div (?T + 1)" unfolding uq using T23 by (intro div_complement) simp_all
    moreover have "2 ^ 256 div (?T + 1) \<le> 2 ^ 256 div 2" using T(1) by (intro div_le_mono2) simp_all
    ultimately have "unat (au_word q + 1) = 2 ^ 256 div (?T + 1)" by (simp add: unat_word_ariths)
    moreover have "get_bits_proof bits = Inr (au_add q (au_from_u64 1))" using False q(1) by (simp add: get_bits_proof_def sc)
    ultimately show ?thesis using T(1) p by auto
  qed
qed


section \<open>Main results\<close>

text \<open>C25: The search along the skip links terminates and is exact. In a well-formed index it returns, for every height from 0 to
  that of the block, the ancestor that following the parent links one by one reaches at that height, and nothing for
  other heights.\<close>

theorem get_ancestor_exact:
  assumes "arena_ok arena" "i < length arena"
  shows "get_ancestor arena i h =
      (if 0 \<le> h \<and> h \<le> bi_height (arena ! i) then prev_n arena (nat (bi_height (arena ! i) - h)) i else None) \<and>
    (0 \<le> h \<and> h \<le> bi_height (arena ! i) \<longrightarrow>
      (\<exists>j. get_ancestor arena i h = Some j \<and> j < length arena \<and> bi_height (arena ! j) = h))"
  using get_ancestor_prev_n [OF assms, of h] prev_n_total [OF assms, of "nat (bi_height (arena ! i) - h)"] by auto

text \<open>Five blocks in a row, with their skip links.\<close>

definition example_entry :: "int \<Rightarrow> nat option \<Rightarrow> nat option \<Rightarrow> block_index" where
  "example_entry h prev skip = (bi_from_header pad_crypto (header_new\<lparr>hdr_time := word_of_int (10 * h)\<rparr>) h)\<lparr>bi_prev := prev, bi_skip := skip\<rparr>"

definition example_arena :: arena where
  "example_arena = [example_entry 0 None None, example_entry 1 (Some 0) (Some 0), example_entry 2 (Some 1) (Some 0),
     example_entry 3 (Some 2) (Some 1), example_entry 4 (Some 3) (Some 0)]"

lemma example_skip: "get_skip_height 0 = 0" "get_skip_height 1 = 0" "get_skip_height 2 = 0" "get_skip_height 3 = 1" "get_skip_height 4 = 0"
  by code_simp+

lemma example_arena_ok: "arena_ok example_arena"
proof -
  have "entry_ok example_arena i" if "i \<in> {0, 1, 2, 3, 4}" for i
    using that by (auto simp: entry_ok_def example_arena_def example_entry_def bi_from_header_def example_skip numeral_eq_Suc)
  then show ?thesis by (auto simp: arena_ok_def example_arena_def less_Suc_eq numeral_eq_Suc)
qed

theorem get_ancestor_exact_witness: "get_ancestor example_arena 4 1 = Some 1"
proof -
  have "prev_n example_arena 3 4 = Some 1" "bi_height (example_arena ! 4) = 4"
    by (simp_all add: example_arena_def example_entry_def bi_from_header_def numeral_eq_Suc)
  then show ?thesis using get_ancestor_exact [OF example_arena_ok, of 4 1] by (simp add: example_arena_def)
qed

text \<open>The median time past never decreases along a chain: if every block is younger than the median time past of its
  parent, as the header rules demand, the median time past of every ancestor is at most that of the block, also
  in the first blocks, where the median is over fewer than eleven times.\<close>

theorem mtp_monotone:
  assumes "arena_ok arena" "times_ok arena" "i < length arena" "get_ancestor arena i h = Some j"
  shows "compute_mtp arena j \<le> compute_mtp arena i"
  using assms(4) mtp_prev_n [OF assms(1-3)] by (auto simp: get_ancestor_prev_n [OF assms(1,3)] split: if_splits)

lemma example_times_ok: "times_ok example_arena"
proof -
  have "list_all (\<lambda>j. compute_mtp example_arena j < bi_get_block_time (example_arena ! Suc j)) [0, 1, 2, 3]"
    by code_simp
  then show ?thesis
    by (auto simp: times_ok_def example_arena_def example_entry_def bi_from_header_def less_Suc_eq numeral_eq_Suc)
qed

theorem mtp_monotone_witness: "compute_mtp example_arena 1 \<le> compute_mtp example_arena 4"
proof (rule mtp_monotone [OF example_arena_ok example_times_ok])
  show "get_ancestor example_arena 4 1 = Some 1" by code_simp
qed (simp add: example_arena_def)

text \<open>Setting the tip yields the chain of the tip. From any chain of the index, \<open>set_tip_with\<close> leaves the path of parent
  links from the genesis block to the new tip, although it stops at the first block that both chains share; the fork of two
  chains that \<open>find_fork\<close> reports is the end of their longest common prefix.\<close>

theorem set_tip_with_exact:
  assumes "arena_ok arena" "i < length arena" "chain_ok arena c" "chain_ok arena d"
  shows "chain_set_tip_with c i (bi_height (arena ! i)) (parent_of arena) = path_to arena i \<and>
    chain_ok arena (path_to arena i) \<and> chain_tip (path_to arena i) = Some i \<and>
    (chain_find_fork c d = Some h \<longleftrightarrow>
      (\<exists>k. h = int k \<and> k < length c \<and> k < length d \<and> take (Suc k) c = take (Suc k) d \<and>
        (\<forall>j. k < j \<and> j < length c \<and> j < length d \<longrightarrow> c ! j \<noteq> d ! j)))"
proof -
  note p = path_to_facts [OF assms(1,2)]
  have "chain_tip (path_to arena i) = Some i" using p(1,2) by (auto simp: chain_tip_def)
  then show ?thesis using set_tip_with_path [OF assms(1-3)] p(3) find_fork_exact [OF assms(3,4)] by blast
qed

theorem set_tip_with_exact_witness: "chain_set_tip_with [] 3 3 (parent_of example_arena) = [0, 1, 2, 3]"
proof -
  have "bi_height (example_arena ! 3) = 3" "path_to example_arena 3 = [0, 1, 2, 3]" by code_simp+
  then show ?thesis
    using set_tip_with_exact [OF example_arena_ok, of 3 "[]" "[]"] by (simp add: chain_ok_def example_arena_def)
qed

text \<open>The work of a target is \<open>2^256\<close> over the target plus one, rounded down, for every positive target that fits 256
  bits, and zero for all others; the 256-bit arithmetic that avoids the number \<open>2^256\<close> is exact and never
  divides by zero.\<close>

theorem bits_proof_exact:
  "\<exists>p. get_bits_proof bits = Inr p \<and>
    unat (au_word p) = (if bit bits 23 \<or> compact_value bits = 0 \<or> 2 ^ 256 \<le> compact_value bits then 0
      else 2 ^ 256 div (compact_value bits + 1))"
  using bits_proof_value [of bits] by auto

end
