(* ===== verification/VersionBits.thy ===== *)
theory VersionBits
  imports ChainIndex
begin

text \<open>
  The state machine of soft-fork deployments, \<open>qubitcoin-common/src/versionbits.rs\<close>: the threshold
  checker with its cache of the states at the ends of periods, the statistics of a period, and
  the version of a new block. A call that panics, or a walk that does not end, is \<open>None\<close>.
\<close>

section \<open>Definitions\<close>

definition VERSIONBITS_LAST_OLD_BLOCK_VERSION :: i32 where "VERSIONBITS_LAST_OLD_BLOCK_VERSION = 4"
definition VERSIONBITS_TOP_BITS :: i32 where "VERSIONBITS_TOP_BITS = 0x20000000"
definition VERSIONBITS_TOP_MASK :: i32 where "VERSIONBITS_TOP_MASK = 0xE0000000"
definition VERSIONBITS_NUM_BITS :: nat where "VERSIONBITS_NUM_BITS = 5"

datatype threshold_state = Defined | Started | LockedIn | Active | Failed

fun state_name :: "threshold_state \<Rightarrow> string" where
  "state_name Defined = ''defined''"
| "state_name Started = ''started''"
| "state_name LockedIn = ''locked_in''"
| "state_name Active = ''active''"
| "state_name Failed = ''failed''"

type_synonym threshold_cache = "nat option \<rightharpoonup> threshold_state"

text \<open>The hooks of the trait \<open>ThresholdConditionChecker\<close>.\<close>

record threshold_checker =
  tc_condition :: "arena \<Rightarrow> nat \<Rightarrow> bool"
  tc_begin_time :: int
  tc_end_time :: int
  tc_min_activation_height :: int
  tc_period :: int
  tc_threshold :: int

text \<open>The walk back in steps of a period to a known state; the blocks still to compute are on a stack.\<close>

partial_function (option) back_walk ::
  "threshold_checker \<Rightarrow> arena \<Rightarrow> nat option \<Rightarrow> threshold_cache \<Rightarrow> nat list \<Rightarrow>
   (nat option \<times> threshold_cache \<times> nat list) option" where
  "back_walk tc arena prev cache to_compute =
     (if cache prev \<noteq> None then Some (prev, cache, to_compute)
      else case prev of
          None \<Rightarrow> Some (None, cache(None \<mapsto> Defined), to_compute)
        | Some p \<Rightarrow>
            if compute_mtp arena p < tc_begin_time tc
            then Some (Some p, cache(Some p \<mapsto> Defined), to_compute)
            else if p \<ge> length arena then None
            else back_walk tc arena (get_ancestor arena p (bi_height (arena ! p) - tc_period tc)) cache (p # to_compute))"

text \<open>The loop that counts the signalling blocks of a period.\<close>

fun count_signals :: "threshold_checker \<Rightarrow> arena \<Rightarrow> nat \<Rightarrow> nat option \<Rightarrow> int" where
  "count_signals tc arena 0 idx = 0"
| "count_signals tc arena (Suc n) None = 0"
| "count_signals tc arena (Suc n) (Some ci) =
     (if tc_condition tc arena ci then 1 else 0) + count_signals tc arena n (bi_prev (arena ! ci))"

fun next_state :: "threshold_checker \<Rightarrow> arena \<Rightarrow> threshold_state \<Rightarrow> nat \<Rightarrow> threshold_state" where
  "next_state tc arena Defined p = (if compute_mtp arena p \<ge> tc_begin_time tc then Started else Defined)"
| "next_state tc arena Started p =
     (if count_signals tc arena (nat (tc_period tc)) (Some p) \<ge> tc_threshold tc then LockedIn
      else if compute_mtp arena p \<ge> tc_end_time tc then Failed
      else Started)"
| "next_state tc arena LockedIn p =
     (if bi_height (arena ! p) + 1 \<ge> tc_min_activation_height tc then Active else LockedIn)"
| "next_state tc arena Failed p = Failed"
| "next_state tc arena Active p = Active"

fun forward_walk :: "threshold_checker \<Rightarrow> arena \<Rightarrow> threshold_state \<Rightarrow> threshold_cache \<Rightarrow> nat list \<Rightarrow>
  threshold_state \<times> threshold_cache" where
  "forward_walk tc arena state cache [] = (state, cache)"
| "forward_walk tc arena state cache (p # to_compute) =
     (let state_next = next_state tc arena state p
      in forward_walk tc arena state_next (cache(Some p \<mapsto> state_next)) to_compute)"

definition get_state_for ::
  "threshold_checker \<Rightarrow> arena \<Rightarrow> nat option \<Rightarrow> threshold_cache \<Rightarrow> (threshold_state \<times> threshold_cache) option" where
  "get_state_for tc arena prev cache =
     (if tc_begin_time tc = ALWAYS_ACTIVE then Some (Active, cache)
      else if tc_begin_time tc = NEVER_ACTIVE then Some (Failed, cache)
      else
        Option.bind
          (case prev of
             None \<Rightarrow> Some None
           | Some p \<Rightarrow>
               if p \<ge> length arena \<or> tc_period tc = 0 then None
               else
                 let height = bi_height (arena ! p)
                 in Some (get_ancestor arena p (height - ((height + 1) smod tc_period tc))))
          (\<lambda>prev.
             Option.bind (back_walk tc arena prev cache [])
               (\<lambda>(prev, cache, to_compute).
                  Option.bind (cache prev) (\<lambda>state. Some (forward_walk tc arena state cache to_compute)))))"

record bip9_stats =
  bs_period :: u32
  bs_threshold :: u32
  bs_elapsed :: u32
  bs_count :: u32
  bs_possible :: bool

text \<open>The loop of the statistics; \<open>sb\<close> is the list of the signalling blocks.\<close>

fun stats_loop :: "threshold_checker \<Rightarrow> arena \<Rightarrow> nat \<Rightarrow> nat option \<Rightarrow> u32 \<Rightarrow> u32 \<Rightarrow> bool list \<Rightarrow> u32 \<times> u32 \<times> bool list" where
  "stats_loop tc arena 0 current elapsed cnt sb = (elapsed, cnt, sb)"
| "stats_loop tc arena (Suc blocks_in_period) current elapsed cnt sb =
     (case current of
        None \<Rightarrow> (elapsed + 1, cnt, sb)
      | Some ci \<Rightarrow>
          let (cnt, sb) = (if tc_condition tc arena ci then (cnt + 1, sb[blocks_in_period := True]) else (cnt, sb))
          in stats_loop tc arena blocks_in_period (bi_prev (arena ! ci)) (elapsed + 1) cnt sb)"

definition get_state_statistics_for :: "threshold_checker \<Rightarrow> arena \<Rightarrow> nat option \<Rightarrow> bip9_stats \<times> bool list" where
  "get_state_statistics_for tc arena idx =
     (let period = word_of_int (tc_period tc); threshold = word_of_int (tc_threshold tc) in
      case idx of
        None \<Rightarrow> (\<lparr>bs_period = period, bs_threshold = threshold, bs_elapsed = 0, bs_count = 0, bs_possible = False\<rparr>, [])
      | Some i \<Rightarrow>
          let blocks_in_period = nat (1 + bi_height (arena ! i) smod tc_period tc);
              (elapsed, cnt, sb) = stats_loop tc arena blocks_in_period (Some i) 0 0 (replicate blocks_in_period False)
          in (\<lparr>bs_period = period, bs_threshold = threshold, bs_elapsed = elapsed, bs_count = cnt,
               bs_possible = (period - threshold \<ge> elapsed - cnt)\<rparr>, sb))"

text \<open>The walk to the first period in the current state.\<close>

partial_function (option) since_walk ::
  "threshold_checker \<Rightarrow> arena \<Rightarrow> threshold_state \<Rightarrow> nat \<Rightarrow> nat option \<Rightarrow> threshold_cache \<Rightarrow> (nat \<times> threshold_cache) option" where
  "since_walk tc arena initial_state prev previous_period_parent cache =
     (case previous_period_parent of
        None \<Rightarrow> Some (prev, cache)
      | Some ppp \<Rightarrow>
          Option.bind (get_state_for tc arena (Some ppp) cache)
            (\<lambda>(state, cache).
               if state \<noteq> initial_state then Some (prev, cache)
               else since_walk tc arena initial_state ppp
                      (get_ancestor arena ppp (bi_height (arena ! ppp) - tc_period tc)) cache))"

definition get_state_since_height_for ::
  "threshold_checker \<Rightarrow> arena \<Rightarrow> nat option \<Rightarrow> threshold_cache \<Rightarrow> (int \<times> threshold_cache) option" where
  "get_state_since_height_for tc arena prev cache =
     (if tc_begin_time tc = ALWAYS_ACTIVE \<or> tc_begin_time tc = NEVER_ACTIVE then Some (0, cache)
      else
        Option.bind (get_state_for tc arena prev cache)
          (\<lambda>(initial_state, cache).
             if initial_state = Defined then Some (0, cache)
             else case prev of
                 None \<Rightarrow> Some (0, cache)
               | Some p \<Rightarrow>
                   let height = bi_height (arena ! p) in
                   Option.bind (get_ancestor arena p (height - ((height + 1) smod tc_period tc)))
                     (\<lambda>prev.
                        Option.bind
                          (since_walk tc arena initial_state prev
                             (get_ancestor arena prev (bi_height (arena ! prev) - tc_period tc)) cache)
                          (\<lambda>(prev, cache). Some (bi_height (arena ! prev) + 1, cache)))))"

section \<open>Deployments\<close>

definition vb_mask :: "bip9_deployment \<Rightarrow> u32" where
  "vb_mask dep = push_bit (dep_bit dep) 1"

definition condition_version :: "bip9_deployment \<Rightarrow> i32 \<Rightarrow> bool" where
  "condition_version dep n_version \<longleftrightarrow>
     n_version AND VERSIONBITS_TOP_MASK = VERSIONBITS_TOP_BITS \<and> n_version AND vb_mask dep \<noteq> 0"

definition vb_checker :: "bip9_deployment \<Rightarrow> threshold_checker" where
  "vb_checker dep =
     \<lparr>tc_condition = (\<lambda>arena idx. condition_version dep (bi_version (arena ! idx))),
      tc_begin_time = dep_start_time dep, tc_end_time = dep_timeout dep,
      tc_min_activation_height = dep_min_activation_height dep,
      tc_period = int (dep_period dep), tc_threshold = int (dep_threshold dep)\<rparr>"


definition for_deployment :: "consensus_params \<Rightarrow> deployment_pos \<Rightarrow> threshold_checker" where
  "for_deployment params pos = vb_checker (deployments params ! deployment_index pos)"

text \<open>The caches of all deployments, one each; the loops over \<open>DeploymentPos::ALL\<close> are over \<open>all_deployments\<close>.\<close>

definition all_deployments :: "deployment_pos list" where
  "all_deployments = [TestDummy]"

type_synonym vb_caches = "threshold_cache list"

fun version_loop :: "deployment_pos list \<Rightarrow> arena \<Rightarrow> nat option \<Rightarrow> consensus_params \<Rightarrow> vb_caches \<Rightarrow> i32 \<Rightarrow>
  (i32 \<times> vb_caches) option" where
  "version_loop [] arena prev params caches n_version = Some (n_version, caches)"
| "version_loop (pos # poss) arena prev params caches n_version =
     Option.bind (get_state_for (for_deployment params pos) arena prev (caches ! deployment_index pos))
       (\<lambda>(state, cache).
          version_loop poss arena prev params (caches[deployment_index pos := cache])
            (if state = LockedIn \<or> state = Started
             then n_version OR vb_mask (deployments params ! deployment_index pos) else n_version))"

definition compute_block_version ::
  "arena \<Rightarrow> nat option \<Rightarrow> consensus_params \<Rightarrow> vb_caches \<Rightarrow> (i32 \<times> vb_caches) option" where
  "compute_block_version arena prev params caches =
     version_loop all_deployments arena prev params caches VERSIONBITS_TOP_BITS"

definition is_active_after ::
  "vb_caches \<Rightarrow> arena \<Rightarrow> nat option \<Rightarrow> consensus_params \<Rightarrow> deployment_pos \<Rightarrow> (bool \<times> vb_caches) option" where
  "is_active_after caches arena prev params pos =
     Option.bind (get_state_for (for_deployment params pos) arena prev (caches ! deployment_index pos))
       (\<lambda>(state, cache). Some (state = Active, caches[deployment_index pos := cache]))"

record bip9_info =
  bin_since :: int
  bin_current_state :: string
  bin_next_state :: string
  bin_stats :: "bip9_stats option"
  bin_signalling_blocks :: "bool list"
  bin_active_since :: "int option"

definition vb_info ::
  "vb_caches \<Rightarrow> arena \<Rightarrow> nat \<Rightarrow> consensus_params \<Rightarrow> deployment_pos \<Rightarrow> (bip9_info \<times> vb_caches) option" where
  "vb_info caches arena idx params pos =
     (if idx \<ge> length arena then None
      else
        let tc = for_deployment params pos; prev = bi_prev (arena ! idx) in
        Option.bind (get_state_for tc arena prev (caches ! deployment_index pos)) (\<lambda>(current_state, cache).
        Option.bind (get_state_for tc arena (Some idx) cache) (\<lambda>(next_state, cache).
        Option.bind (get_state_since_height_for tc arena prev cache) (\<lambda>(since, cache).
          let (stats, signalling) =
                (if current_state = Started \<or> current_state = LockedIn then
                   let (stats, sb) = get_state_statistics_for tc arena (Some idx);
                       stats = (if current_state = LockedIn then stats\<lparr>bs_threshold := 0, bs_possible := False\<rparr> else stats)
                   in (Some stats, sb)
                 else (None, []))
          in Some (\<lparr>bin_since = since, bin_current_state = state_name current_state,
                    bin_next_state = state_name next_state, bin_stats = stats, bin_signalling_blocks = signalling,
                    bin_active_since =
                      (if current_state = Active then Some since
                       else if next_state = Active then Some (bi_height (arena ! idx) + 1) else None)\<rparr>,
                   caches[deployment_index pos := cache])))))"

record gbt_deployment_info =
  gd_name :: string
  gd_bit :: nat
  gd_mask :: u32
  gd_gbt_optional_rule :: bool

record bip9_gbt_status =
  gs_signalling :: "gbt_deployment_info list"
  gs_locked_in :: "gbt_deployment_info list"
  gs_active :: "gbt_deployment_info list"

fun deployment_info :: "deployment_pos \<Rightarrow> string \<times> bool" where
  "deployment_info TestDummy = (''testdummy'', True)"

fun gbt_loop :: "deployment_pos list \<Rightarrow> vb_caches \<Rightarrow> arena \<Rightarrow> nat \<Rightarrow> consensus_params \<Rightarrow> bip9_gbt_status \<Rightarrow>
  (bip9_gbt_status \<times> vb_caches) option" where
  "gbt_loop [] caches arena idx params result = Some (result, caches)"
| "gbt_loop (pos # poss) caches arena idx params result =
     (let dep = deployments params ! deployment_index pos in
      Option.bind (get_state_for (for_deployment params pos) arena (Some idx) (caches ! deployment_index pos))
        (\<lambda>(state, cache).
           let info = \<lparr>gd_name = fst (deployment_info pos), gd_bit = dep_bit dep, gd_mask = vb_mask dep,
                       gd_gbt_optional_rule = snd (deployment_info pos)\<rparr>
           in gbt_loop poss (caches[deployment_index pos := cache]) arena idx params
                (case state of
                   Defined \<Rightarrow> result
                 | Failed \<Rightarrow> result
                 | Started \<Rightarrow> result\<lparr>gs_signalling := gs_signalling result @ [info]\<rparr>
                 | LockedIn \<Rightarrow> result\<lparr>gs_locked_in := gs_locked_in result @ [info]\<rparr>
                 | Active \<Rightarrow> result\<lparr>gs_active := gs_active result @ [info]\<rparr>)))"

definition gbt_status :: "vb_caches \<Rightarrow> arena \<Rightarrow> nat \<Rightarrow> consensus_params \<Rightarrow> (bip9_gbt_status \<times> vb_caches) option" where
  "gbt_status caches arena idx params =
     gbt_loop all_deployments caches arena idx params \<lparr>gs_signalling = [], gs_locked_in = [], gs_active = []\<rparr>"

section \<open>The reference\<close>

text \<open>The last blocks of the periods that are complete at a block, in order.\<close>

definition period_ends :: "threshold_checker \<Rightarrow> arena \<Rightarrow> nat \<Rightarrow> nat list" where
  "period_ends tc arena p =
     map (\<lambda>k. the (get_ancestor arena p (int k * tc_period tc + tc_period tc - 1)))
       [0..<nat ((bi_height (arena ! p) + 1) div tc_period tc)]"

text \<open>The state of the block after \<open>prev\<close>: one transition for every complete period, from the genesis block on. It is the reference
  for deployments with a start time; those that are always or never active return before any period is looked at.\<close>

definition deployment_state :: "threshold_checker \<Rightarrow> arena \<Rightarrow> nat option \<Rightarrow> threshold_state" where
  "deployment_state tc arena prev =
     (case prev of None \<Rightarrow> Defined | Some p \<Rightarrow> foldl (next_state tc arena) Defined (period_ends tc arena p))"

text \<open>A cache is right if it holds reference states of period ends.\<close>

definition is_period_end :: "threshold_checker \<Rightarrow> arena \<Rightarrow> nat option \<Rightarrow> bool" where
  "is_period_end tc arena prev =
     (case prev of None \<Rightarrow> True | Some p \<Rightarrow> p < length arena \<and> (bi_height (arena ! p) + 1) mod tc_period tc = 0)"

definition cache_right :: "threshold_checker \<Rightarrow> arena \<Rightarrow> threshold_cache \<Rightarrow> bool" where
  "cache_right tc arena cache \<longleftrightarrow> (\<forall>prev s. cache prev = Some s \<longrightarrow> s = deployment_state tc arena prev)"

lemma get_ancestor_ancestor:
  assumes "arena_ok arena" "p < length arena" "get_ancestor arena p h = Some q" "k \<le> h"
  shows "get_ancestor arena q k = get_ancestor arena p k"
proof -
  have h: "0 \<le> h" "h \<le> bi_height (arena ! p)" and q: "prev_n arena (nat (bi_height (arena ! p) - h)) p = Some q"
    using assms(3) by (auto simp: get_ancestor_prev_n [OF assms(1,2)] split: if_splits)
  have ql: "q < length arena" "bi_height (arena ! q) = h"
    using prev_n_total [OF assms(1,2), of "nat (bi_height (arena ! p) - h)"] h q by auto
  show ?thesis
  proof (cases "0 \<le> k")
    case True
    have "nat (bi_height (arena ! p) - k) = nat (bi_height (arena ! p) - h) + nat (h - k)" using h assms(4) by simp
    then show ?thesis
      using True h assms(4) ql q
      by (simp add: get_ancestor_prev_n [OF assms(1)] assms(2) prev_n_add)
  qed (simp add: get_ancestor_prev_n [OF assms(1)] assms(2) ql(1))
qed

lemma get_ancestor_found:
  assumes "arena_ok arena" "p < length arena" "0 \<le> h" "h \<le> bi_height (arena ! p)"
  obtains q where "get_ancestor arena p h = Some q" "q < length arena" "bi_height (arena ! q) = h" "q \<le> p"
  using prev_n_total [OF assms(1,2), of "nat (bi_height (arena ! p) - h)"] assms
  by (auto simp: get_ancestor_prev_n)

lemma period_ends_ancestor:
  assumes "arena_ok arena" "p < length arena" "0 < tc_period tc" "get_ancestor arena p h = Some q"
    "(bi_height (arena ! p) + 1) div tc_period tc = (h + 1) div tc_period tc"
  shows "period_ends tc arena q = period_ends tc arena p"
proof -
  let ?n = "tc_period tc"
  have h: "0 \<le> h" "h \<le> bi_height (arena ! p)"
    using assms(4) by (auto simp: get_ancestor_prev_n [OF assms(1,2)] split: if_splits)
  obtain q' where "get_ancestor arena p h = Some q'" "bi_height (arena ! q') = h"
    using get_ancestor_found [OF assms(1,2) h] by blast
  then have hq: "bi_height (arena ! q) = h" using assms(4) by simp
  have "get_ancestor arena q (int k * ?n + ?n - 1) = get_ancestor arena p (int k * ?n + ?n - 1)"
    if "k < nat ((h + 1) div ?n)" for k
  proof (rule get_ancestor_ancestor [OF assms(1,2,4)])
    have "int k + 1 \<le> (h + 1) div ?n" using that by linarith
    then have "(int k + 1) * ?n \<le> (h + 1) div ?n * ?n" using assms(3) by (intro mult_right_mono) simp_all
    also have "\<dots> \<le> h + 1" using div_mult_mod_eq [of "h + 1" ?n] pos_mod_sign [OF assms(3), of "h + 1"] by linarith
    finally show "int k * ?n + ?n - 1 \<le> h" by (simp add: algebra_simps)
  qed
  then show ?thesis unfolding period_ends_def hq assms(5) by simp
qed


definition period_before :: "threshold_checker \<Rightarrow> arena \<Rightarrow> nat \<Rightarrow> nat option" where
  "period_before tc arena p = get_ancestor arena p (bi_height (arena ! p) - tc_period tc)"

lemma period_before_cases:
  assumes "arena_ok arena" "0 < tc_period tc" "is_period_end tc arena (Some p)"
  obtains "period_before tc arena p = None" "bi_height (arena ! p) + 1 = tc_period tc"
  | q where "period_before tc arena p = Some q" "q < p" "is_period_end tc arena (Some q)"
      "bi_height (arena ! q) = bi_height (arena ! p) - tc_period tc"
proof -
  let ?h = "bi_height (arena ! p)" and ?n = "tc_period tc"
  have p: "p < length arena" "(?h + 1) mod ?n = 0" using assms(3) by (simp_all add: is_period_end_def)
  have h: "0 \<le> ?h" using arena_height [OF assms(1) p(1)] .
  show thesis
  proof (cases "?h < ?n")
    case True
    have "?h + 1 = ?n" using True h p(2) by (metis add1_zle_eq less_le mod_pos_pos_trivial not_less zle_add1_eq_le add_nonneg_eq_0_iff zero_le_one zero_neq_one)
    moreover have "period_before tc arena p = None"
      using True by (simp add: period_before_def get_ancestor_prev_n [OF assms(1) p(1)])
    ultimately show thesis by (rule that(1) [rotated])
  next
    case False
    obtain q where q: "period_before tc arena p = Some q" "q < length arena" "bi_height (arena ! q) = ?h - ?n" "q \<le> p"
      using get_ancestor_found [OF assms(1) p(1), of "?h - ?n"] False assms(2) by (auto simp: period_before_def)
    then have "q \<noteq> p" using assms(2) by auto
    moreover have "(?h - ?n + 1) mod ?n = 0" using p(2) by (metis (no_types, opaque_lifting) add_diff_eq diff_add_eq minus_mod_self2)
    ultimately show thesis using q by (intro that(2) [of q]) (auto simp: is_period_end_def)
  qed
qed

lemma period_ends_step:
  assumes "arena_ok arena" "0 < tc_period tc" "is_period_end tc arena (Some p)"
  shows "period_ends tc arena p =
    (case period_before tc arena p of None \<Rightarrow> [] | Some q \<Rightarrow> period_ends tc arena q) @ [p]"
proof -
  let ?h = "bi_height (arena ! p)" and ?n = "tc_period tc"
  define m where "m = nat ((?h + 1) div ?n)"
  have p: "p < length arena" "(?h + 1) mod ?n = 0" using assms(3) by (simp_all add: is_period_end_def)
  have h: "0 \<le> ?h" using arena_height [OF assms(1) p(1)] .
  have hm: "?h + 1 = int m * ?n"
    using div_mult_mod_eq [of "?h + 1" ?n] p(2) h assms(2) by (simp add: m_def pos_imp_zdiv_nonneg_iff)
  have "0 < m" using hm h assms(2) by (cases m) auto
  then obtain k where k: "m = Suc k" by (cases m) auto
  have hk: "int k * ?n + ?n - 1 = ?h" using hm by (simp add: k algebra_simps)
  have self: "get_ancestor arena p ?h = Some p" using h by (simp add: get_ancestor_prev_n [OF assms(1) p(1)])
  have e: "period_ends tc arena p = map (\<lambda>j. the (get_ancestor arena p (int j * ?n + ?n - 1))) [0..<k] @ [p]"
    by (simp add: period_ends_def m_def [symmetric] k hk self)
  show ?thesis
  proof (cases rule: period_before_cases [OF assms])
    case 1
    then have "k = 0" using hm assms(2) by (simp add: k)
    then show ?thesis using e 1 by simp
  next
    case (2 q)
    have "bi_height (arena ! q) + 1 = int k * ?n" using 2(4) hk by linarith
    then have "(bi_height (arena ! q) + 1) div ?n = int k" using assms(2) by simp
    then have "period_ends tc arena q = map (\<lambda>j. the (get_ancestor arena q (int j * ?n + ?n - 1))) [0..<k]"
      by (simp add: period_ends_def)
    moreover have "get_ancestor arena q (int j * ?n + ?n - 1) = get_ancestor arena p (int j * ?n + ?n - 1)" if "j < k" for j
    proof (rule get_ancestor_ancestor [OF assms(1) p(1) 2(1) [unfolded period_before_def]])
      have "(int j + 1) * ?n \<le> int k * ?n" using that assms(2) by (intro mult_right_mono) simp_all
      then show "int j * ?n + ?n - 1 \<le> ?h - ?n" using hk by (simp add: algebra_simps)
    qed
    ultimately show ?thesis using e 2(1) by simp
  qed
qed

lemma deployment_state_step:
  assumes "arena_ok arena" "0 < tc_period tc" "is_period_end tc arena (Some p)"
  shows "deployment_state tc arena (Some p) = next_state tc arena (deployment_state tc arena (period_before tc arena p)) p"
  unfolding deployment_state_def by (simp add: period_ends_step [OF assms] split: option.splits)

lemma not_started_yet:
  assumes "arena_ok arena" "times_ok arena" "0 < tc_period tc" "p < length arena" "compute_mtp arena p < tc_begin_time tc"
  shows "deployment_state tc arena (Some p) = Defined"
proof -
  have "compute_mtp arena b < tc_begin_time tc" if b: "b \<in> set (period_ends tc arena p)" for b
  proof -
    obtain k where k: "k < nat ((bi_height (arena ! p) + 1) div tc_period tc)"
      "b = the (get_ancestor arena p (int k * tc_period tc + tc_period tc - 1))"
      using b by (auto simp: period_ends_def)
    let ?t = "int k * tc_period tc + tc_period tc - 1"
    have "(int k + 1) * tc_period tc \<le> (bi_height (arena ! p) + 1) div tc_period tc * tc_period tc"
      using k(1) assms(3) by (intro mult_right_mono) linarith+
    also have "\<dots> \<le> bi_height (arena ! p) + 1"
      using div_mult_mod_eq [of "bi_height (arena ! p) + 1" "tc_period tc"] pos_mod_sign [OF assms(3), of "bi_height (arena ! p) + 1"] by linarith
    finally have "?t \<le> bi_height (arena ! p)" by (simp add: algebra_simps)
    moreover have "0 \<le> ?t" using assms(3) by (simp add: add_nonneg_pos)
    ultimately obtain q where "get_ancestor arena p ?t = Some q" using get_ancestor_found [OF assms(1,4)] by metis
    then have "b = q" "prev_n arena (nat (bi_height (arena ! p) - ?t)) p = Some q"
      using k(2) by (auto simp: get_ancestor_prev_n [OF assms(1,4)] split: if_splits)
    then show ?thesis using mtp_prev_n [OF assms(1,2,4)] assms(5) by fastforce
  qed
  moreover have "foldl (next_state tc arena) Defined bs = Defined" if "\<forall>b\<in>set bs. compute_mtp arena b < tc_begin_time tc" for bs
    using that by (induction bs) auto
  ultimately show ?thesis by (simp add: deployment_state_def)
qed

section \<open>The walk of the checker\<close>

text \<open>A list of consecutive period ends, from the one after \<open>q\<close> to \<open>e\<close>.\<close>

inductive links :: "threshold_checker \<Rightarrow> arena \<Rightarrow> nat option \<Rightarrow> nat list \<Rightarrow> nat option \<Rightarrow> bool" for tc arena where
  nil: "links tc arena q [] q"
| snoc: "links tc arena q bs (period_before tc arena p) \<Longrightarrow> is_period_end tc arena (Some p) \<Longrightarrow>
    links tc arena q (bs @ [p]) (Some p)"

lemma forward_walk_append:
  "forward_walk tc arena s cache (bs @ cs) =
    (case forward_walk tc arena s cache bs of (s', cache') \<Rightarrow> forward_walk tc arena s' cache' cs)"
  by (induction bs arbitrary: s cache) (simp_all add: Let_def)

lemma forward_walk_links:
  assumes "arena_ok arena" "0 < tc_period tc"
  shows "links tc arena q bs e \<Longrightarrow> cache_right tc arena cache \<Longrightarrow>
    \<exists>cache'. forward_walk tc arena (deployment_state tc arena q) cache bs = (deployment_state tc arena e, cache') \<and>
      cache_right tc arena cache'"
proof (induction rule: links.induct)
  case (snoc q bs p)
  then obtain cache' where "forward_walk tc arena (deployment_state tc arena q) cache bs =
      (deployment_state tc arena (period_before tc arena p), cache')" "cache_right tc arena cache'" by blast
  then show ?case
    by (simp add: forward_walk_append deployment_state_step [OF assms snoc.hyps(2), symmetric])
      (simp add: cache_right_def Let_def)
qed auto

lemma back_walk_links:
  assumes "arena_ok arena" "times_ok arena" "0 < tc_period tc"
  shows "is_period_end tc arena e \<Longrightarrow> cache_right tc arena cache \<Longrightarrow>
    \<exists>q cache' bs. back_walk tc arena e cache acc = Some (q, cache', bs @ acc) \<and> links tc arena q bs e \<and>
      cache_right tc arena cache' \<and> cache' q = Some (deployment_state tc arena q)"
proof (induction "case e of None \<Rightarrow> 0 | Some p \<Rightarrow> Suc p" arbitrary: e acc rule: less_induct)
  case less
  note simps = back_walk.simps [of tc arena e cache acc]
  show ?case
  proof (cases "cache e")
    case (Some s)
    then have "s = deployment_state tc arena e" using less.prems(2) by (auto simp: cache_right_def)
    then show ?thesis using Some simps less.prems(2) links.nil by force
  next
    case None
    show ?thesis
    proof (cases e)
      case (Some p)
      show ?thesis
      proof (cases "compute_mtp arena p < tc_begin_time tc")
        case True
        have "deployment_state tc arena (Some p) = Defined"
          using not_started_yet [OF assms _ True] less.prems(1) by (simp add: Some is_period_end_def)
        then have "back_walk tc arena e cache acc = Some (Some p, cache(Some p \<mapsto> Defined), [] @ acc)"
          "cache_right tc arena (cache(Some p \<mapsto> Defined))"
          using True None Some simps less.prems(2) by (auto simp: cache_right_def)
        then show ?thesis using \<open>deployment_state tc arena (Some p) = Defined\<close> links.nil Some by fastforce
      next
        case False
        let ?e = "period_before tc arena p"
        have p: "is_period_end tc arena (Some p)" using less.prems(1) Some by simp
        then have "\<not> length arena \<le> p" by (simp add: is_period_end_def)
        then have step: "back_walk tc arena e cache acc = back_walk tc arena ?e cache (p # acc)"
          using False None Some simps by (simp add: period_before_def)
        have "(case ?e of None \<Rightarrow> 0 | Some p \<Rightarrow> Suc p) < (case e of None \<Rightarrow> 0 | Some p \<Rightarrow> Suc p)" "is_period_end tc arena ?e"
          by (cases rule: period_before_cases [OF assms(1,3) p]; simp add: Some is_period_end_def [of _ _ None])+
        from less.hyps [OF this less.prems(2), of "p # acc"] obtain q cache' bs where
          "back_walk tc arena ?e cache (p # acc) = Some (q, cache', bs @ p # acc)" "links tc arena q bs ?e"
          "cache_right tc arena cache'" "cache' q = Some (deployment_state tc arena q)" by blast
        then show ?thesis using step links.snoc [OF _ p] Some by (intro exI [of _ q] exI [of _ cache'] exI [of _ "bs @ [p]"]) simp
      qed
    next
      case (None)
      then have "back_walk tc arena e cache acc = Some (None, cache(None \<mapsto> Defined), [] @ acc)"
        "cache_right tc arena (cache(None \<mapsto> Defined))"
        using \<open>cache e = None\<close> simps less.prems(2) by (auto simp: cache_right_def deployment_state_def)
      then show ?thesis using links.nil [of tc arena None] None by (fastforce simp: deployment_state_def)
    qed
  qed
qed

section \<open>Descendants\<close>

lemma period_ends_prefix:
  assumes "arena_ok arena" "p < length arena" "0 < tc_period tc" "get_ancestor arena p h = Some q"
  shows "\<exists>bs. period_ends tc arena p = period_ends tc arena q @ bs"
proof -
  let ?n = "tc_period tc"
  have h: "0 \<le> h" "h \<le> bi_height (arena ! p)"
    using assms(4) by (auto simp: get_ancestor_prev_n [OF assms(1,2)] split: if_splits)
  have hq: "bi_height (arena ! q) = h" using get_ancestor_found [OF assms(1,2) h] assms(4) by fastforce
  let ?m = "nat ((h + 1) div ?n)" and ?f = "\<lambda>a k. the (get_ancestor arena a (int k * ?n + ?n - 1))"
  have "map (?f q) [0..<?m] = map (?f p) [0..<?m]"
  proof (rule map_cong [OF refl])
    fix k assume "k \<in> set [0..<?m]"
    then have "(int k + 1) * ?n \<le> (h + 1) div ?n * ?n" using assms(3) by (intro mult_right_mono) auto
    also have "\<dots> \<le> h + 1" using div_mult_mod_eq [of "h + 1" ?n] pos_mod_sign [OF assms(3), of "h + 1"] by linarith
    finally have "int k * ?n + ?n - 1 \<le> h" by (simp add: algebra_simps)
    then show "?f q k = ?f p k" using get_ancestor_ancestor [OF assms(1,2,4)] by simp
  qed
  moreover have "?m \<le> nat ((bi_height (arena ! p) + 1) div ?n)" using h(2) assms(3) by (intro nat_mono zdiv_mono1) auto
  then obtain j where "nat ((bi_height (arena ! p) + 1) div ?n) = ?m + j" using le_Suc_ex by blast
  ultimately show ?thesis by (auto simp: period_ends_def hq upt_add_eq_append [of 0] simp del: upt_Suc)
qed

text \<open>The transitions of a deployment, as an abstract machine.\<close>

inductive deployment_step :: "threshold_state \<Rightarrow> threshold_state \<Rightarrow> bool" where
  start: "deployment_step Defined Started"
| lock_in: "deployment_step Started LockedIn"
| activate: "deployment_step LockedIn Active"
| fail: "deployment_step Started Failed"

lemma next_state_step: "deployment_step\<^sup>=\<^sup>= s (next_state tc arena s p)"
  by (cases s) (auto intro: deployment_step.intros)

lemma foldl_next_state: "deployment_step\<^sup>*\<^sup>* s (foldl (next_state tc arena) s bs)"
proof (induction bs arbitrary: s)
  case (Cons b bs)
  have "deployment_step\<^sup>*\<^sup>* s (next_state tc arena s b)" using next_state_step [of s tc arena b] by auto
  then show ?case using Cons.IH [of "next_state tc arena s b"] by (auto intro: rtranclp_trans)
qed simp

lemma lock_in_signalled:
  "foldl (next_state tc arena) s bs \<in> {LockedIn, Active} \<Longrightarrow> s \<notin> {LockedIn, Active} \<Longrightarrow>
   \<exists>b\<in>set bs. tc_threshold tc \<le> count_signals tc arena (nat (tc_period tc)) (Some b)"
proof (induction bs arbitrary: s)
  case (Cons b bs)
  show ?case
  proof (cases "next_state tc arena s b \<in> {LockedIn, Active}")
    case True
    then have "tc_threshold tc \<le> count_signals tc arena (nat (tc_period tc)) (Some b)"
      using Cons.prems(2) by (cases s) (auto split: if_splits)
    then show ?thesis by auto
  next
    case False
    then show ?thesis using Cons.IH [of "next_state tc arena s b"] Cons.prems(1) by auto
  qed
qed auto

lemma deployment_final: "deployment_step\<^sup>*\<^sup>* s t \<Longrightarrow> s = Active \<or> s = Failed \<Longrightarrow> t = s"
  by (induction rule: rtranclp_induct) (auto elim: deployment_step.cases)

lemma normalise_prev:
  assumes "arena_ok arena" "0 < tc_period tc" "p < length arena"
  defines "e \<equiv> get_ancestor arena p (bi_height (arena ! p) - (bi_height (arena ! p) + 1) smod tc_period tc)"
  shows "is_period_end tc arena e" "deployment_state tc arena e = deployment_state tc arena (Some p)"
proof -
  let ?h = "bi_height (arena ! p)" and ?n = "tc_period tc"
  have h: "0 \<le> ?h" using arena_height [OF assms(1,3)] .
  define t where "t = ?h - (?h + 1) mod ?n"
  have m: "(?h + 1) smod ?n = (?h + 1) mod ?n" using h assms(2) by (simp add: signed_modulo_int_def)
  have e: "e = get_ancestor arena p t" by (simp add: e_def t_def m)
  have t: "t + 1 = (?h + 1) div ?n * ?n" "t \<le> ?h"
    using div_mult_mod_eq [of "?h + 1" ?n] pos_mod_sign [OF assms(2), of "?h + 1"] unfolding t_def by linarith+
  have d: "(?h + 1) div ?n = (t + 1) div ?n" using t(1) assms(2) by simp
  have "is_period_end tc arena e \<and> deployment_state tc arena e = deployment_state tc arena (Some p)"
  proof (cases "0 \<le> t")
    case True
    obtain q where q: "get_ancestor arena p t = Some q" "q < length arena" "bi_height (arena ! q) = t"
      using get_ancestor_found [OF assms(1,3) True t(2)] by blast
    have "deployment_state tc arena (Some q) = deployment_state tc arena (Some p)"
      using period_ends_ancestor [OF assms(1,3,2) q(1) d] by (simp add: deployment_state_def)
    then show ?thesis using q t(1) by (simp add: e is_period_end_def)
  next
    case False
    then have "(?h + 1) div ?n * ?n \<le> 0" using t(1) by simp
    then have "(?h + 1) div ?n \<le> 0" using assms(2) by (simp add: mult_le_0_iff)
    moreover have "e = None" using False by (simp add: e get_ancestor_prev_n [OF assms(1,3)])
    ultimately show ?thesis by (simp add: is_period_end_def deployment_state_def period_ends_def)
  qed
  then show "is_period_end tc arena e" "deployment_state tc arena e = deployment_state tc arena (Some p)" by auto
qed

lemma get_state_for_correct:
  assumes "arena_ok arena" "times_ok arena" "0 < tc_period tc" "case prev of None \<Rightarrow> True | Some p \<Rightarrow> p < length arena"
    "tc_begin_time tc \<noteq> ALWAYS_ACTIVE" "tc_begin_time tc \<noteq> NEVER_ACTIVE" "cache_right tc arena cache"
  shows "\<exists>cache'. get_state_for tc arena prev cache = Some (deployment_state tc arena prev, cache') \<and> cache_right tc arena cache'"
proof -
  define e where "e = (case prev of None \<Rightarrow> None | Some p \<Rightarrow>
    get_ancestor arena p (bi_height (arena ! p) - (bi_height (arena ! p) + 1) smod tc_period tc))"
  have e: "is_period_end tc arena e" "deployment_state tc arena e = deployment_state tc arena prev"
    using normalise_prev [OF assms(1,3)] assms(4) by (cases prev; simp add: e_def is_period_end_def [of _ _ None])+
  obtain q cache1 bs where w: "back_walk tc arena e cache [] = Some (q, cache1, bs)" "links tc arena q bs e"
    "cache_right tc arena cache1" "cache1 q = Some (deployment_state tc arena q)"
    using back_walk_links [OF assms(1-3) e(1) assms(7), of "[]"] by auto
  obtain cache' where "forward_walk tc arena (deployment_state tc arena q) cache1 bs = (deployment_state tc arena e, cache')"
    "cache_right tc arena cache'" using forward_walk_links [OF assms(1,3) w(2,3)] by blast
  moreover have "get_state_for tc arena prev cache =
      Option.bind (back_walk tc arena e cache []) (\<lambda>(prev, cache, to_compute).
        Option.bind (cache prev) (\<lambda>state. Some (forward_walk tc arena state cache to_compute)))"
    using assms(3-6) by (auto simp: get_state_for_def e_def Let_def split: option.splits)
  ultimately show ?thesis using w e(2) by simp
qed

text \<open>The search for the first block in the current state returns.\<close>

lemma since_walk_returns:
  assumes "arena_ok arena" "times_ok arena" "0 < tc_period tc" "tc_begin_time tc \<noteq> ALWAYS_ACTIVE" "tc_begin_time tc \<noteq> NEVER_ACTIVE"
  shows "cache_right tc arena cache \<Longrightarrow> \<forall>q. ppp = Some q \<longrightarrow> q < length arena \<Longrightarrow>
    \<exists>p cache'. since_walk tc arena initial_state prev ppp cache = Some (p, cache') \<and> cache_right tc arena cache'"
proof (induction "case ppp of None \<Rightarrow> 0 | Some q \<Rightarrow> Suc (nat (bi_height (arena ! q)))" arbitrary: ppp prev cache rule: less_induct)
  case less
  show ?case
  proof (cases ppp)
    case None
    then show ?thesis using less.prems by (subst since_walk.simps) simp
  next
    case (Some q)
    then have q: "q < length arena" using less.prems by simp
    obtain cache' where c: "get_state_for tc arena (Some q) cache = Some (deployment_state tc arena (Some q), cache')" "cache_right tc arena cache'"
      using get_state_for_correct [OF assms(1-3), of "Some q" cache] q assms(4,5) less.prems(1) by auto
    let ?n = "get_ancestor arena q (bi_height (arena ! q) - tc_period tc)"
    have n: "r < length arena \<and> bi_height (arena ! r) < bi_height (arena ! q) \<and> 0 \<le> bi_height (arena ! r)" if "?n = Some r" for r
      using that get_ancestor_prev_n [OF assms(1) q, of "bi_height (arena ! q) - tc_period tc"] assms(3) arena_height [OF assms(1)]
        prev_n_total [OF assms(1) q, of "nat (tc_period tc)"] by (auto split: if_splits)
    have "(case ?n of None \<Rightarrow> 0 | Some r \<Rightarrow> Suc (nat (bi_height (arena ! r)))) < Suc (nat (bi_height (arena ! q)))"
      using n by (auto split: option.splits)
    then show ?thesis
      using less.hyps [of ?n cache' q] n c Some by (subst since_walk.simps) auto
  qed
qed

lemma get_ancestor_in_range:
  assumes "arena_ok arena" "p < length arena" "get_ancestor arena p h = Some q"
  shows "q < length arena"
  using assms(3) get_ancestor_prev_n [OF assms(1,2), of h] prev_n_total [OF assms(1,2), of "nat (bi_height (arena ! p) - h)"]
  by (auto split: if_splits)

section \<open>Main results\<close>

text \<open>C26: The cached computation of a deployment's state terminates and is exact. For every block of a well-formed index and
  every cache that holds only true states, \<open>get_state_for\<close> returns the state that one transition per complete period
  from the genesis block on gives, although it starts at a cached state or at a period before the start time; the cache it leaves
  is again true.\<close>

theorem get_state_for_exact:
  assumes "arena_ok arena" "times_ok arena" "0 < tc_period tc" "case prev of None \<Rightarrow> True | Some p \<Rightarrow> p < length arena"
    "tc_begin_time tc \<noteq> ALWAYS_ACTIVE" "tc_begin_time tc \<noteq> NEVER_ACTIVE" "cache_right tc arena cache"
  shows "\<exists>cache'. get_state_for tc arena prev cache = Some (deployment_state tc arena prev, cache') \<and> cache_right tc arena cache'"
  using get_state_for_correct [OF assms] .

text \<open>A deployment with periods of two blocks, of which one must signal; block 2 of the example does.\<close>

definition example_checker :: threshold_checker where
  "example_checker =
     \<lparr>tc_condition = (\<lambda>arena idx. idx = 2), tc_begin_time = 0, tc_end_time = 1000, tc_min_activation_height = 0,
      tc_period = 2, tc_threshold = 1\<rparr>"

lemma example_checker_simps:
  "tc_period example_checker = 2" "tc_begin_time example_checker = 0" "ALWAYS_ACTIVE \<noteq> 0" "NEVER_ACTIVE \<noteq> 0"
  by (simp_all add: example_checker_def ALWAYS_ACTIVE_def NEVER_ACTIVE_def)

theorem get_state_for_exact_witness:
  "\<exists>cache'. get_state_for example_checker example_arena (Some 4) Map.empty = Some (LockedIn, cache')"
proof -
  have "deployment_state example_checker example_arena (Some 4) = LockedIn" by code_simp
  then show ?thesis
    using get_state_for_exact [OF example_arena_ok example_times_ok, of example_checker "Some 4" Map.empty]
      example_checker_simps by (auto simp: cache_right_def example_arena_def)
qed

text \<open>C27: A deployment moves only forward. For two blocks of which one is an ancestor of the other, \<open>get_state_for\<close> returns a
  state for both, from whatever true caches it starts: along the chain the state follows the machine defined, started, locked in
  or failed, active, with no step back; activation and failure are final; a deployment that is always active is active and one
  that is never active has failed at every block; and every other deployment is locked in or active only if in some complete
  period of the chain the signalling blocks reached the threshold.\<close>

theorem deployment_progress:
  assumes "arena_ok arena" "times_ok arena" "p < length arena" "0 < tc_period tc" "get_ancestor arena p h = Some q"
    "cache_right tc arena c1" "cache_right tc arena c2"
  shows "\<exists>s1 s2 c1' c2'. get_state_for tc arena (Some q) c1 = Some (s1, c1') \<and> get_state_for tc arena (Some p) c2 = Some (s2, c2') \<and>
    deployment_step\<^sup>*\<^sup>* s1 s2 \<and> (s1 \<in> {Active, Failed} \<longrightarrow> s2 = s1) \<and>
    (tc_begin_time tc = ALWAYS_ACTIVE \<longrightarrow> s1 = Active) \<and> (tc_begin_time tc = NEVER_ACTIVE \<longrightarrow> s1 = Failed) \<and>
    (tc_begin_time tc \<noteq> ALWAYS_ACTIVE \<and> s2 \<in> {LockedIn, Active} \<longrightarrow>
      (\<exists>b\<in>set (period_ends tc arena p). tc_threshold tc \<le> count_signals tc arena (nat (tc_period tc)) (Some b)))"
proof (cases "tc_begin_time tc = ALWAYS_ACTIVE \<or> tc_begin_time tc = NEVER_ACTIVE")
  case True
  then show ?thesis by (auto simp: get_state_for_def ALWAYS_ACTIVE_def NEVER_ACTIVE_def)
next
  case False
  obtain bs where "period_ends tc arena p = period_ends tc arena q @ bs" using period_ends_prefix [OF assms(1,3-5)] by blast
  then have step: "deployment_step\<^sup>*\<^sup>* (deployment_state tc arena (Some q)) (deployment_state tc arena (Some p))"
    using foldl_next_state by (simp add: deployment_state_def)
  have q: "q < length arena" using get_ancestor_in_range [OF assms(1,3,5)] .
  obtain c1' c2' where "get_state_for tc arena (Some q) c1 = Some (deployment_state tc arena (Some q), c1')"
    "get_state_for tc arena (Some p) c2 = Some (deployment_state tc arena (Some p), c2')"
    using get_state_for_correct [OF assms(1,2,4), of "Some q" c1] get_state_for_correct [OF assms(1,2,4), of "Some p" c2]
      assms(3,6,7) q False by auto
  moreover have "\<exists>b\<in>set (period_ends tc arena p). tc_threshold tc \<le> count_signals tc arena (nat (tc_period tc)) (Some b)"
    if "deployment_state tc arena (Some p) \<in> {LockedIn, Active}"
    using that lock_in_signalled [of tc arena Defined] by (fastforce simp: deployment_state_def)
  ultimately show ?thesis using step deployment_final [OF step] False by blast
qed

theorem deployment_progress_witness:
  "\<exists>s1 c1'. get_state_for example_checker example_arena (Some 1) Map.empty = Some (s1, c1') \<and>
     deployment_step\<^sup>*\<^sup>* s1 LockedIn \<and>
     (\<exists>b\<in>set (period_ends example_checker example_arena 4).
        tc_threshold example_checker \<le> count_signals example_checker example_arena (nat (tc_period example_checker)) (Some b))"
proof -
  have "get_ancestor example_arena 4 1 = Some 1" "deployment_state example_checker example_arena (Some 4) = LockedIn" by code_simp+
  then show ?thesis
    using deployment_progress [OF example_arena_ok example_times_ok, of 4 example_checker 1 1 Map.empty Map.empty]
      get_state_for_correct [OF example_arena_ok example_times_ok, of example_checker "Some 4" Map.empty] example_checker_simps
    by (auto simp: example_arena_def cache_right_def)
qed

end
