(* ===== verification/StandardSpends.thy ===== *)
theory StandardSpends
  imports SoftFork
begin

text \<open>
  What it takes to spend the standard outputs. For each template that \<open>script.rs\<close> builds
  the verification of an input is computed symbolically, down to the question put to the signature
  checker: pay to public key hash, its witness version, pay to witness script hash, and the key path
  of taproot.
\<close>

section \<open>Symbolic execution\<close>


lemma res_bind_assoc: "res_bind (res_bind r f) g = res_bind r (\<lambda>x. res_bind (f x) g)"
  by (cases r) auto

lemma res_bind_pair: "(case r of Inl e \<Rightarrow> Inl e | Inr (a, b) \<Rightarrow> f a b) = res_bind r (\<lambda>(a, b). f a b)"
  by (cases r) auto

lemma eval_loop_op:
  assumes "get_op (ec_script ctx) pc = Some (op, data, pc')"
  shows "eval_loop ctx pc m =
    res_bind (pre_checks ctx op data m) (\<lambda>m.
    res_bind (run_op ctx pc' op data m) (\<lambda>m.
    res_bind (post_checks m) (\<lambda>m. eval_loop ctx pc' m)))"
proof -
  have "pc < length (ec_script ctx)" using get_op_progress [OF assms] by linarith
  then show ?thesis
    by (subst eval_loop.simps) (simp add: res_bind_pair eval_step_def assms res_bind_assoc)
qed

lemma eval_loop_end: "pc \<ge> length (ec_script ctx) \<Longrightarrow> eval_loop ctx pc m = Inr m"
  by (subst eval_loop.simps) simp

lemma p2pkh_ops:
  assumes "length h = 20"
  shows "get_op (build_p2pkh h) 0 = Some (OpDup, [], 1)"
    "get_op (build_p2pkh h) 1 = Some (OpHash160, [], 2)"
    "get_op (build_p2pkh h) 2 = Some (20, h, 23)"
    "get_op (build_p2pkh h) 23 = Some (OpEqualVerify, [], 24)"
    "get_op (build_p2pkh h) 24 = Some (OpCheckSig, [], 25)"
  unfolding build_p2pkh_bytes [OF assms]
  using assms by (simp_all add: get_op_def Let_def nth_append take_push_def)

definition plain_machine :: "script_stack \<Rightarrow> nat \<Rightarrow> u32 \<Rightarrow> exec_data \<Rightarrow> machine" where
  "plain_machine st n pos e = \<lparr>m_stack = st, m_altstack = [], m_vf_exec = cs_new, m_op_count = n,
     m_pbegincodehash = 0, m_opcode_pos = pos, m_exec_data = e, m_error = ErrUnknownError\<rparr>"

lemma plain_op:
  assumes "get_op (ec_script ctx) pc = Some (op, [], pc')" "pre_tapscript ctx" "op > Op16"
    "\<not> is_disabled_opcode op" "op \<noteq> OpCodeSeparator" "n < 201"
  shows "eval_loop ctx pc (plain_machine st n pos e) =
    res_bind (exec_op ctx True pc' op (plain_machine st (n + 1) pos e)) (\<lambda>m.
    res_bind (post_checks m) (\<lambda>m. eval_loop ctx pc' m))"
proof -
  have "\<not> op \<le> OpPushData4" using assms(3) by unat_arith
  then show ?thesis
  using assms(2-)
  by (subst eval_loop_op [OF assms(1)])
    (simp add: pre_checks_def run_op_def Let_def plain_machine_def cs_all_true_def cs_new_def
      MAX_OPS_PER_SCRIPT_def MAX_SCRIPT_ELEMENT_SIZE_def)
qed

lemma not_disabled: "\<not> is_disabled_opcode OpDup" "\<not> is_disabled_opcode OpHash160"
  "\<not> is_disabled_opcode OpEqualVerify" "\<not> is_disabled_opcode OpCheckSig" "\<not> is_disabled_opcode 20"
  by code_simp+

lemma post_plain:
  "length st \<le> 1000 \<Longrightarrow> post_checks (plain_machine st n pos e) = Inr (plain_machine st n (pos + 1) e)"
  by (simp add: post_checks_def plain_machine_def MAX_STACK_SIZE_def)

lemma exec_dup: "exec_op ctx f pc OpDup (plain_machine (st @ [x]) n pos e) =
  Inr (plain_machine (st @ [x, x]) n pos e)"
  by (simp add: exec_op_def op_dup_def need_def plain_machine_def set_stack_def ss_push_def stack_top_def nth_append)

lemma exec_hash160: "exec_op ctx f pc OpHash160 (plain_machine (st @ [x]) n pos e) =
  Inr (plain_machine (st @ [hash160 (ec_crypto ctx) x]) n pos e)"
  by (simp add: exec_op_def op_hash_def need_def plain_machine_def set_stack_def ss_push_def stack_top_def nth_append
   stack_drop_def hash_of_def)

lemma exec_equalverify: "exec_op ctx f pc OpEqualVerify (plain_machine (st @ [x, y]) n pos e) =
  (if x = y then Inr (plain_machine st n pos e) else Inl ErrEqualVerify)"
  by (simp add: exec_op_def op_equal_def need_def plain_machine_def set_stack_def ss_push_def stack_top_def nth_append
   stack_drop_def Let_def)


lemma push_not_disabled: "op \<le> OpPushData4 \<Longrightarrow> \<not> is_disabled_opcode op"
  by (auto simp: is_disabled_opcode_def is_disabled_def opcode_from_u8_def)

lemma push_op:
  assumes "get_op (ec_script ctx) pc = Some (op, d, pc')" "op \<le> OpPushData4" "length d \<le> 520"
    "require_minimal ctx \<Longrightarrow> check_minimal_push d op" "length st < 1000"
  shows "eval_loop ctx pc (plain_machine st n pos e) =
    eval_loop ctx pc' (plain_machine (st @ [d]) n (pos + 1) e)"
proof -
  have "\<not> op > Op16" "op \<noteq> OpCodeSeparator" using assms(2) by unat_arith+
  then show ?thesis
    using assms(2-) push_not_disabled [OF assms(2)]
    by (subst eval_loop_op [OF assms(1)])
      (auto simp: pre_checks_def run_op_def plain_machine_def cs_all_true_def cs_new_def
        MAX_SCRIPT_ELEMENT_SIZE_def set_stack_def ss_push_def post_checks_def MAX_STACK_SIZE_def)
qed

lemma exec_checksig:
  assumes "pre_tapscript ctx"
  shows "exec_op ctx f pc OpCheckSig (plain_machine (st @ [sig, key]) n pos e) =
    res_bind (checksig_pre_tapscript ctx (plain_machine (st @ [sig, key]) n pos e) sig key)
      (\<lambda>ok. Inr (plain_machine (st @ [vch_bool ok]) n pos e))"
  using assms
  by (simp add: exec_op_def op_checksig_def need_def plain_machine_def set_stack_def ss_push_def
      stack_top_def nth_append stack_drop_def Let_def res_bind_assoc)

lemma p2pkh_loop:
  assumes h: "length h = 20" and ctx: "ec_script ctx = build_p2pkh h" "pre_tapscript ctx"
    and st: "length st < 990"
  shows "eval_loop ctx 0 (plain_machine (st @ [sig, key]) 0 0 e) =
    (if hash160 (ec_crypto ctx) key \<noteq> h then Inl ErrEqualVerify
     else res_bind (checksig_pre_tapscript ctx (plain_machine (st @ [sig, key]) 0 0 e) sig key)
       (\<lambda>ok. Inr (plain_machine (st @ [vch_bool ok]) 4 5 e)))"
proof -
  note ops = p2pkh_ops [OF h, folded ctx(1)]
  have push: "eval_loop ctx 2 (plain_machine st' n pos e) =
      eval_loop ctx 23 (plain_machine (st' @ [h]) n (pos + 1) e)" if "length st' < 1000" for st' n pos
    using that h by (intro push_op [OF ops(3)]) (auto simp: check_minimal_push_def)
  have csig: "checksig_pre_tapscript ctx (plain_machine st' n pos e) sig key =
      checksig_pre_tapscript ctx (plain_machine (st @ [sig, key]) 0 0 e) sig key" for st' n pos
    by (simp add: checksig_pre_tapscript_def plain_machine_def)
  have fin: "eval_loop ctx 25 m = Inr m" for m
    by (rule eval_loop_end) (simp add: ctx h build_p2pkh_bytes)
  have last: "eval_loop ctx 24 (plain_machine (st @ [sig, key]) 3 4 e) =
      res_bind (checksig_pre_tapscript ctx (plain_machine (st @ [sig, key]) 0 0 e) sig key)
       (\<lambda>ok. Inr (plain_machine (st @ [vch_bool ok]) 4 5 e))"
    using st
    by (subst plain_op [OF ops(5) ctx(2)])
      (simp_all add: not_disabled exec_checksig ctx(2) csig [of _ 4 4] fin res_bind_assoc post_plain)
  have dup: "eval_loop ctx 0 (plain_machine (st @ [sig, key]) 0 0 e) =
      eval_loop ctx 1 (plain_machine (st @ [sig, key, key]) 1 1 e)"
    using st exec_dup [of ctx True 1 "st @ [sig]" key 1 0 e]
    by (subst plain_op [OF ops(1) ctx(2)]) (simp_all add: not_disabled post_plain)
  have hash: "eval_loop ctx 1 (plain_machine (st @ [sig, key, key]) 1 1 e) =
      eval_loop ctx 2 (plain_machine (st @ [sig, key, hash160 (ec_crypto ctx) key]) 2 2 e)"
    using st exec_hash160 [of ctx True 2 "st @ [sig, key]" key 2 1 e]
    by (subst plain_op [OF ops(2) ctx(2)]) (simp_all add: not_disabled post_plain numeral_2_eq_2 [symmetric])
  have eq: "eval_loop ctx 23 (plain_machine (st @ [sig, key, x, h]) 2 3 e) =
      (if x = h then eval_loop ctx 24 (plain_machine (st @ [sig, key]) 3 4 e) else Inl ErrEqualVerify)" for x
    using st exec_equalverify [of ctx True 24 "st @ [sig, key]" x h 3 3 e]
    by (subst plain_op [OF ops(4) ctx(2)]) (simp_all add: not_disabled post_plain)
  show ?thesis
    using st by (simp add: dup hash push eq last del: One_nat_def)
qed


lemma initial_plain:
  "initial_machine st e =
   plain_machine st 0 0 (e\<lparr>codeseparator_pos := 0xFFFFFFFF, codeseparator_pos_init := True\<rparr>)"
  by (simp add: initial_machine_def plain_machine_def)

lemma eval_script_plain:
  assumes "length (ec_script ctx) \<le> MAX_SCRIPT_SIZE"
  shows "eval_script ctx st e =
    res_bind (eval_loop ctx 0 (plain_machine st 0 0
        (e\<lparr>codeseparator_pos := 0xFFFFFFFF, codeseparator_pos_init := True\<rparr>)))
      (\<lambda>m. if \<not> cs_empty (m_vf_exec m) then Inl ErrUnbalancedConditional
           else Inr (m_stack m, m_exec_data m))"
  using assms by (simp add: eval_script_def initial_plain)

lemma plain_machine_simps [simp]:
  "m_stack (plain_machine st n pos e) = st" "m_exec_data (plain_machine st n pos e) = e"
  "cs_empty (m_vf_exec (plain_machine st n pos e))" "m_pbegincodehash (plain_machine st n pos e) = 0"
  by (simp_all add: plain_machine_def cs_empty_def cs_new_def)

lemma eval_script_p2pkh:
  assumes h: "length h = 20" and ctx: "ec_script ctx = build_p2pkh h" "pre_tapscript ctx"
    and st: "length st < 990"
  shows "\<exists>e' m. m_pbegincodehash m = 0 \<and> eval_script ctx (st @ [sig, key]) e =
    (if hash160 (ec_crypto ctx) key \<noteq> h then Inl ErrEqualVerify
     else res_bind (checksig_pre_tapscript ctx m sig key) (\<lambda>ok. Inr (st @ [vch_bool ok], e')))"
proof -
  define e' where "e' = e\<lparr>codeseparator_pos := 0xFFFFFFFF, codeseparator_pos_init := True\<rparr>"
  show ?thesis
    by (rule exI [of _ e'], rule exI [of _ "plain_machine (st @ [sig, key]) 0 0 e'"],
        subst eval_script_plain, simp add: ctx(1) build_p2pkh_bytes h MAX_SCRIPT_SIZE_def)
      (simp add: p2pkh_loop [OF assms] res_bind_assoc e'_def)
qed

section \<open>Pushes\<close>

definition push_all :: "bytes list \<Rightarrow> script" where
  "push_all ds = concat (map (push_data []) ds)"

definition pushable :: "bytes \<Rightarrow> bool" where
  "pushable d \<longleftrightarrow> length d \<le> 520 \<and> check_minimal_push d (push_data [] d ! 0)"

lemma push_data_op: "length d \<le> 520 \<Longrightarrow> push_data [] d ! 0 \<le> OpPushData4"
  by (auto simp: push_data_def Let_def word_le_nat_alt unat_of_nat)

lemma pushable_iff: "pushable d \<longleftrightarrow> length d \<le> 520 \<and> (\<forall>b. d = [b] \<longrightarrow> \<not> (1 \<le> b \<and> b \<le> 16) \<and> b \<noteq> 0x81)"
  by (cases d; cases "tl d") (auto simp: pushable_def check_minimal_push_def push_data_def Let_def unat_of_nat
      simp del: of_nat_Suc)

lemma eval_pushes:
  assumes "ec_script ctx = pre @ push_all ds" "list_all pushable ds" "length st + length ds \<le> 1000"
  shows "eval_loop ctx (length pre) (plain_machine st n pos e) =
    Inr (plain_machine (st @ ds) n (pos + of_nat (length ds)) e)"
  using assms
proof (induction ds arbitrary: pre st pos)
  case Nil
  then show ?case by (simp add: eval_loop_end push_all_def)
next
  case (Cons d ds)
  have g: "get_op (ec_script ctx) (length pre) =
      Some (push_data [] d ! 0, d, length pre + length (push_data [] d))"
    using Cons.prems(1,2) get_op_push_data [of d pre "push_all ds"] by (simp add: push_all_def pushable_def)
  have "eval_loop ctx (length pre) (plain_machine st n pos e) =
      eval_loop ctx (length (pre @ push_data [] d)) (plain_machine (st @ [d]) n (pos + 1) e)"
    using Cons.prems push_data_op [of d] by (subst push_op [OF g]) (auto simp: pushable_def)
  also have "\<dots> = Inr (plain_machine ((st @ [d]) @ ds) n (pos + 1 + of_nat (length ds)) e)"
    using Cons.prems by (intro Cons.IH) (simp_all add: push_all_def)
  finally show ?case by (simp add: add.assoc)
qed

lemma eval_script_pushes:
  assumes "list_all pushable ds" "length st + length ds \<le> 1000" "length (push_all ds) \<le> MAX_SCRIPT_SIZE"
  shows "eval_script_simple C ck flags sv (push_all ds) st = Inr (st @ ds)"
proof -
  define ctx where "ctx = eval_ctx_of C ck flags sv (push_all ds)"
  have c: "ec_script ctx = [] @ push_all ds" by (simp add: ctx_def eval_ctx_of_def)
  show ?thesis
    using eval_pushes [OF c assms(1,2), simplified] assms(3)
    by (simp add: eval_script_simple_def ctx_def [symmetric] eval_script_plain c)
qed

section \<open>Witness programs\<close>

lemma is_witness_program_v0: "length p = 20 \<or> length p = 32 \<Longrightarrow> is_witness_program (push_all [[], p]) = Some (0, p)"
  by (auto simp: push_all_def push_data_def is_witness_program_def Let_def)


lemma small_int_op:
  assumes "get_op (ec_script ctx) pc = Some (op, [], pc')" "Op1 \<le> op" "op \<le> Op16" "length st < 1000"
  shows "\<exists>x. eval_loop ctx pc (plain_machine st n pos e) =
    eval_loop ctx pc' (plain_machine (st @ [x]) n (pos + 1) e)"
proof -
  have "\<not> op > Op16" "\<not> op \<le> OpPushData4" "op \<noteq> Op1Negate" "op \<noteq> OpCodeSeparator"
    using assms(2,3) by unat_arith+
  moreover have "\<not> is_disabled_opcode op"
    using assms(3) by (auto simp: is_disabled_opcode_def is_disabled_def opcode_from_u8_def)
  ultimately show ?thesis
    using assms(2-)
    by (subst eval_loop_op [OF assms(1)])
      (auto simp: pre_checks_def run_op_def plain_machine_def cs_all_true_def cs_new_def
        set_stack_def ss_push_def post_checks_def MAX_STACK_SIZE_def exec_op_def op_small_int_def Let_def)
qed

lemma version_opcode_push:
  assumes "v \<le> 16" "ec_script ctx = version_opcode v # suf" "st = []"
  shows "\<exists>x. eval_loop ctx 0 (plain_machine st n pos e) =
    eval_loop ctx 1 (plain_machine [x] n (pos + 1) e)"
proof (cases "v = 0")
  case True
  then have "get_op (ec_script ctx) 0 = Some (Op0, [], 1)"
    using assms(2) by (simp add: version_opcode_def get_op_def take_push_def)
  then show ?thesis
    using assms(3) push_op [of ctx 0 Op0 "[]" 1 "[]"] by (auto simp: check_minimal_push_def)
next
  case False
  then have "unat (version_opcode v) = unat v + 80" "1 \<le> unat v" "unat v \<le> 16"
    using assms(1) by (simp_all add: version_opcode_def unat_word_ariths word_le_nat_alt Suc_le_eq unat_gt_0)
  then have r: "81 \<le> version_opcode v" "version_opcode v \<le> 96" "\<not> version_opcode v \<le> 75"
    "version_opcode v \<noteq> 76" "version_opcode v \<noteq> 77" "version_opcode v \<noteq> 78"
    by (auto simp: word_le_nat_alt word_unat_eq_iff [of "version_opcode v"])
  then have "get_op (ec_script ctx) 0 = Some (version_opcode v, [], 1)"
    using assms(2) r by (simp add: get_op_def)
  then show ?thesis using small_int_op [of ctx 0 _ 1 "[]"] r assms(3) by simp
qed

lemma push_data_short: "0 < length p \<Longrightarrow> length p \<le> 75 \<Longrightarrow> push_data [] p = of_nat (length p) # p"
  by (simp add: push_data_def Let_def)

lemma eval_witness_spk:
  assumes "v \<le> 16" "2 \<le> length p" "length p \<le> 40"
  shows "\<exists>x. eval_script_simple C ck flags Base (version_opcode v # of_nat (length p) # p) [] = Inr [x, p]"
proof -
  define ctx where "ctx = eval_ctx_of C ck flags Base (version_opcode v # of_nat (length p) # p)"
  have "push_data [] p = of_nat (length p) # p" using assms by (intro push_data_short) linarith+
  then have s: "ec_script ctx = version_opcode v # of_nat (length p) # p"
    "ec_script ctx = [version_opcode v] @ push_all [p]"
    by (simp_all add: ctx_def eval_ctx_of_def push_all_def)
  have "list_all pushable [p]" using assms by (auto simp: pushable_iff)
  then have "eval_loop ctx 1 (plain_machine [x] n pos e) = Inr (plain_machine [x, p] n (pos + 1) e)" for x n pos e
    using eval_pushes [OF s(2), of "[x]"] by simp
  moreover define e where
    "e = exec_data_default\<lparr>codeseparator_pos := 0xFFFFFFFF, codeseparator_pos_init := True\<rparr>"
  moreover obtain x where "eval_loop ctx 0 (plain_machine [] 0 0 e) =
      eval_loop ctx 1 (plain_machine [x] 0 (0 + 1) e)"
    using version_opcode_push [OF assms(1) s(1), of "[]" 0 0 e] by auto
  ultimately have "eval_script ctx [] exec_data_default = Inr ([x, p], e)"
    using assms(3) by (simp add: eval_script_plain s(1) MAX_SCRIPT_SIZE_def)
  then show ?thesis by (simp add: eval_script_simple_def ctx_def)
qed

lemma verify_native_witness:
  assumes w: "is_witness_program spk = Some (v, p)" and "flags_contains flags VERIFY_WITNESS" "cast_to_bool p"
  shows "verify_script C ck flags [] spk witness = verify_witness_program C ck flags witness v p ErrOk False"
proof -
  have spk: "v \<le> 16" "2 \<le> length p" "length p \<le> 40" "spk = version_opcode v # of_nat (length p) # p"
    using w by (auto simp: is_witness_program_iff)
  obtain x where "eval_script_simple C ck flags Base spk [] = Inr [x, p]"
    using eval_witness_spk [OF spk(1-3), of C ck flags] by (auto simp: spk(4))
  moreover have "eval_script_simple C ck flags Base [] [] = Inr []"
    using eval_script_pushes [of "[]" "[]"] by (simp add: push_all_def)
  moreover have "is_push_only []"
    by (simp add: is_push_only_def push_only_from.simps get_op_def)
  moreover have "\<not> is_p2sh spk" using p2sh_not_witness w by auto
  ultimately show ?thesis
    using assms(2,3) w
    by (cases "verify_witness_program C ck flags witness v p ErrOk False")
      (simp_all add: verify_script_def check_result_def verify_witness_of_def final_checks_def)
qed


section \<open>Signatures\<close>

text \<open>What a signature and a key must satisfy for \<open>OP_CHECKSIG\<close> to leave a true value.\<close>

definition signature_accepted ::
  "crypto \<Rightarrow> checker \<Rightarrow> script_flags \<Rightarrow> sig_version \<Rightarrow> script \<Rightarrow> bytes \<Rightarrow> bytes \<Rightarrow> bool" where
  "signature_accepted C ck flags sv script_code sig key \<longleftrightarrow>
     check_signature_encoding C sig flags = Inr () \<and> check_pubkey_encoding key flags sv = Inr () \<and>
     check_ecdsa_signature ck sig key script_code sv"

lemma cast_vch_bool [simp]: "cast_to_bool (vch_bool ok) = ok"
  by (simp add: vch_bool_def cast_to_bool_def)

lemma checksig_accepted_v0:
  assumes "ec_sigversion ctx = WitnessV0" "m_pbegincodehash m = 0"
  shows "checksig_pre_tapscript ctx m sig key = Inr True \<longleftrightarrow>
    signature_accepted (ec_crypto ctx) (ec_checker ctx) (ec_flags ctx) WitnessV0 (ec_script ctx) sig key"
  using assms
  by (auto simp: checksig_pre_tapscript_def signature_accepted_def res_bind_eq_Inr Let_def split: if_splits)

lemma check_result_singleton: "check_result [v] = Inr () \<longleftrightarrow> cast_to_bool v"
  by (simp add: check_result_def)

lemma execute_p2wpkh:
  assumes "length h = 20"
  shows "execute_witness_script C ck flags WitnessV0 (build_p2pkh h) [sig, key] e = Inr () \<longleftrightarrow>
    length sig \<le> 520 \<and> length key \<le> 520 \<and> hash160 C key = h \<and>
    signature_accepted C ck flags WitnessV0 (build_p2pkh h) sig key"
proof -
  define ctx where "ctx = eval_ctx_of C ck flags WitnessV0 (build_p2pkh h)"
  have c: "ec_script ctx = build_p2pkh h" "pre_tapscript ctx" "ec_sigversion ctx = WitnessV0"
    "ec_crypto ctx = C" "ec_flags ctx = flags" "ec_checker ctx = ck"
    by (simp_all add: ctx_def eval_ctx_of_def pre_tapscript_def)
  obtain e' m where m: "m_pbegincodehash m = 0" "eval_script ctx ([] @ [sig, key]) e =
    (if hash160 (ec_crypto ctx) key \<noteq> h then Inl ErrEqualVerify
     else res_bind (checksig_pre_tapscript ctx m sig key) (\<lambda>ok. Inr ([] @ [vch_bool ok], e')))"
    using eval_script_p2pkh [OF assms c(1,2), of "[]" sig key e] by auto
  show ?thesis
    using m(2) checksig_accepted_v0 [OF c(3) m(1), of sig key]
    by (cases "checksig_pre_tapscript ctx m sig key")
      (auto simp: execute_witness_script_def ctx_def [symmetric] c MAX_SCRIPT_ELEMENT_SIZE_def stack_top_def)
qed

lemma witness_program_v0_templates:
  "length h = 20 \<Longrightarrow> is_witness_program (build_p2wpkh h) = Some (0, h)"
  "length h = 32 \<Longrightarrow> is_witness_program (build_p2wsh h) = Some (0, h)"
  "length h = 32 \<Longrightarrow> is_witness_program (build_p2tr h) = Some (1, h)"
  by (auto simp: is_witness_program_iff version_opcode_def build_p2wpkh_def build_p2wsh_def
      build_p2tr_def push_opcode_def push_data_def Let_def)

section \<open>Spending with a signature script\<close>

lemma push_only_pushes:
  "list_all pushable ds \<Longrightarrow> push_only_from (pre @ push_all ds) (length pre)"
proof (induction ds arbitrary: pre)
  case Nil
  then show ?case by (subst push_only_from.simps) (simp add: push_all_def get_op_def)
next
  case (Cons d ds)
  have "push_data [] d ! 0 \<le> Op16" using push_data_op [of d] Cons.prems by (simp add: pushable_def) unat_arith
  then show ?case
    using get_op_push_data [of d pre "push_all ds"] Cons.IH [of "pre @ push_data [] d"] Cons.prems
    by (subst push_only_from.simps) (simp add: push_all_def pushable_def)
qed

lemma p2pkh_slices:
  assumes "length h = 20"
  shows "op_slices (build_p2pkh h) 0 =
      [[OpDup], [OpHash160], 20 # h, [OpEqualVerify], [OpCheckSig]] \<and> op_end (build_p2pkh h) 0 = 25"
proof -
  note ops = p2pkh_ops [OF assms, THEN slices_Some(1)] and ends = p2pkh_ops [OF assms, THEN slices_Some(2)]
  have "get_op (build_p2pkh h) 25 = None" using assms by (simp add: build_p2pkh_bytes get_op_def)
  note fin = slices_None [OF this]
  show ?thesis
    using assms by (simp only: ops ends fin) (simp add: build_p2pkh_bytes)
qed

lemma p2pkh_delete_signature:
  assumes "length h = 20" "length sig \<le> 520" "sig \<noteq> h"
  shows "delete_signature ctx sig (build_p2pkh h) = Inr (build_p2pkh h)"
proof -
  have w: "whole_op (push_data [] sig)" using assms(2) by (intro whole_op_push_data) simp
  have "push_data [] sig \<noteq> 20 # h"
  proof
    assume "push_data [] sig = 20 # h"
    moreover have "get_op (20 # h) 0 = Some (20, h, 21)"
      using assms(1) by (simp add: get_op_def take_push_def)
    ultimately show False
      using get_op_push_data [of sig "[]" "[]"] assms(2,3) by simp
  qed
  moreover have "push_data [] sig \<noteq> [op]" if "\<not> op \<le> OpPushData4" for op
    using push_data_op [OF assms(2)] that by (metis nth_Cons_0)
  ultimately have "count_list (op_slices (build_p2pkh h) 0) (push_data [] sig) = 0"
    using assms(1) by (simp add: p2pkh_slices eq_commute [of "[_]"] eq_commute [of "20 # h"])
  then have "find_and_delete (build_p2pkh h) (push_data [] sig) = (build_p2pkh h, 0)"
    using concat_slices [of "build_p2pkh h" 0] by (simp only: find_and_delete_slices [OF w] filter_ne_all) simp
  then show ?thesis by (simp add: delete_signature_def)
qed

lemma checksig_accepted_base:
  assumes "ec_sigversion ctx = Base" "m_pbegincodehash m = 0"
    "delete_signature ctx sig (ec_script ctx) = Inr (ec_script ctx)"
  shows "checksig_pre_tapscript ctx m sig key = Inr True \<longleftrightarrow>
    signature_accepted (ec_crypto ctx) (ec_checker ctx) (ec_flags ctx) Base (ec_script ctx) sig key"
  using assms
  by (auto simp: checksig_pre_tapscript_def signature_accepted_def res_bind_eq_Inr Let_def split: if_splits)

lemma eval_p2pkh_base:
  assumes "length h = 20" "length sig \<le> 520" "sig \<noteq> h"
  shows "\<exists>r. eval_script_simple C ck flags Base (build_p2pkh h) [sig, key] = r \<and>
    (r = Inr [[1]] \<longleftrightarrow> hash160 C key = h \<and> signature_accepted C ck flags Base (build_p2pkh h) sig key) \<and>
    (\<forall>s. r = Inr s \<longrightarrow> s = [[1]] \<or> s = [[]])"
proof -
  define ctx where "ctx = eval_ctx_of C ck flags Base (build_p2pkh h)"
  have c: "ec_script ctx = build_p2pkh h" "pre_tapscript ctx" "ec_sigversion ctx = Base"
    "ec_crypto ctx = C" "ec_flags ctx = flags" "ec_checker ctx = ck"
    by (simp_all add: ctx_def eval_ctx_of_def pre_tapscript_def)
  obtain e' m where m: "m_pbegincodehash m = 0" "eval_script ctx ([] @ [sig, key]) exec_data_default =
    (if hash160 (ec_crypto ctx) key \<noteq> h then Inl ErrEqualVerify
     else res_bind (checksig_pre_tapscript ctx m sig key) (\<lambda>ok. Inr ([] @ [vch_bool ok], e')))"
    using eval_script_p2pkh [OF assms(1) c(1,2), of "[]" sig key exec_data_default] by auto
  have "checksig_pre_tapscript ctx m sig key = Inr True \<longleftrightarrow>
      signature_accepted C ck flags Base (build_p2pkh h) sig key"
    using checksig_accepted_base [OF c(3) m(1), of sig key] p2pkh_delete_signature [OF assms, of ctx]
    by (simp add: c)
  then show ?thesis
    using m(2)
    by (cases "checksig_pre_tapscript ctx m sig key")
      (auto simp: eval_script_simple_def ctx_def [symmetric] c vch_bool_def)
qed

section \<open>A checker for examples\<close>

definition accepting_checker :: checker where
  "accepting_checker = base_signature_checker\<lparr>
     check_ecdsa_signature := (\<lambda>sig key script_code sv. sig = [1, 1]),
     check_schnorr_signature := (\<lambda>sig key sv e err. (sig = [1, 1], err))\<rparr>"

lemma example_flags:
  "\<not> flags_contains VERIFY_WITNESS VERIFY_DERSIG" "\<not> flags_contains VERIFY_WITNESS VERIFY_LOW_S"
  "\<not> flags_contains VERIFY_WITNESS VERIFY_STRICTENC"
  "\<not> flags_contains VERIFY_WITNESS VERIFY_WITNESS_PUBKEYTYPE" "flags_contains VERIFY_WITNESS VERIFY_WITNESS"
  by code_simp+

lemma example_signature:
  "signature_accepted pad_crypto accepting_checker VERIFY_WITNESS sv sc [1, 1] key"
  by (simp add: signature_accepted_def accepting_checker_def check_signature_encoding_def
      check_pubkey_encoding_def example_flags)

lemma example_program: "cast_to_bool (2 # xs)"
  by (simp add: cast_to_bool_def)

section \<open>Main results\<close>

text \<open>C10: A pay to witness public key hash output is spent exactly by a witness of a signature and a key whose
  hash is the program, when the checker accepts the signature for the implied pay to public key hash
  script under segwit rules. No other witness verifies, whatever flags are set beside the witness flag.\<close>

theorem p2wpkh_spend_exact:
  assumes "length h = 20" "cast_to_bool h" "flags_contains flags VERIFY_WITNESS"
  shows "verify_script C ck flags [] (build_p2wpkh h) witness = Inr () \<longleftrightarrow>
    (\<exists>sig key. witness = [sig, key] \<and> length sig \<le> 520 \<and> length key \<le> 520 \<and> hash160 C key = h \<and>
       signature_accepted C ck flags WitnessV0 (build_p2pkh h) sig key)"
proof -
  have "verify_script C ck flags [] (build_p2wpkh h) witness = Inr () \<longleftrightarrow>
      length witness = 2 \<and> execute_witness_script C ck flags WitnessV0 (build_p2pkh h) witness exec_data_default = Inr ()"
    using verify_native_witness [OF witness_program_v0_templates(1) [OF assms(1)] assms(3,2)] assms(1)
    by (simp add: verify_witness_program_def witness_v0_spend_def build_p2pkh_def Let_def)
  moreover have "length witness = 2 \<longleftrightarrow> (\<exists>sig key. witness = [sig, key])"
    by (auto simp: length_Suc_conv numeral_2_eq_2)
  ultimately show ?thesis using execute_p2wpkh [OF assms(1)] by auto
qed

theorem p2wpkh_spend_exact_witness:
  "verify_script pad_crypto accepting_checker VERIFY_WITNESS [] (build_p2wpkh (2 # replicate 19 0))
     [[1, 1], [2]] = Inr () \<and>
   verify_script pad_crypto accepting_checker VERIFY_WITNESS [] (build_p2wpkh (2 # replicate 19 0))
     [[1, 1], [3]] \<noteq> Inr ()"
  using p2wpkh_spend_exact [of "2 # replicate 19 0" VERIFY_WITNESS pad_crypto accepting_checker]
    example_signature example_program
  by (simp add: flags_contains_def pad_crypto_def pad_to_def)

text \<open>A pay to witness script hash output is spent exactly by a witness whose last item is a script with the
  program as its SHA-256 hash, and which run on the other items, each within the element limit,
  leaves a single true value.\<close>

theorem p2wsh_spend_exact:
  assumes "length h = 32" "cast_to_bool h" "flags_contains flags VERIFY_WITNESS"
  shows "verify_script C ck flags [] (build_p2wsh h) witness = Inr () \<longleftrightarrow>
    (\<exists>items s v e. witness = items @ [s] \<and> sha256_hash C s = h \<and> (\<forall>x\<in>set items. length x \<le> 520) \<and>
       eval_script (eval_ctx_of C ck flags WitnessV0 s) items exec_data_default = Inr ([v], e) \<and>
       cast_to_bool v)"
proof -
  have exec: "execute_witness_script C ck flags WitnessV0 s items exec_data_default = Inr () \<longleftrightarrow>
      (\<forall>x\<in>set items. length x \<le> 520) \<and>
      (\<exists>v e. eval_script (eval_ctx_of C ck flags WitnessV0 s) items exec_data_default = Inr ([v], e) \<and>
       cast_to_bool v)" for s items
    by (auto simp: execute_witness_script_def MAX_SCRIPT_ELEMENT_SIZE_def res_bind_eq_Inr
        stack_top_def length_Suc_conv linorder_not_le [symmetric] split: if_splits)
  show ?thesis
    using verify_native_witness [OF witness_program_v0_templates(2) [OF assms(1)] assms(3,2)] assms(1)
    by (cases witness rule: rev_cases)
      (auto simp: verify_witness_program_def witness_v0_spend_def Let_def exec)
qed

theorem p2wsh_spend_exact_witness:
  "verify_script pad_crypto accepting_checker VERIFY_WITNESS [] (build_p2wsh (OpNop # replicate 31 0))
     [[1], [OpNop]] = Inr ()"
proof -
  have e: "eval_script (eval_ctx_of pad_crypto accepting_checker VERIFY_WITNESS WitnessV0 [OpNop]) [[1]]
      exec_data_default = Inr ([[1]], exec_data_default\<lparr>codeseparator_pos := 0xFFFFFFFF, codeseparator_pos_init := True\<rparr>)"
    by code_simp
  have s: "sha256_hash pad_crypto [OpNop] = OpNop # replicate 31 0"
    by code_simp
  have c: "cast_to_bool (OpNop # replicate 31 0)" "cast_to_bool [1]"
    by (simp_all add: cast_to_bool_def)
  have w: "[[1], [OpNop]] = [[1 :: u8]] @ [[OpNop]]" by simp
  show ?thesis
    by (subst p2wsh_spend_exact) (use e s c in \<open>auto simp: flags_contains_def intro!: exI [of _ "[[1]]"] exI [of _ "[OpNop]"] exI [of _ "[1]"]\<close>)
qed

text \<open>A taproot output is spent by its key path exactly when the checker accepts the single witness item as
  a Schnorr signature of the output key, with execution data that records the absence of an annex.\<close>

theorem p2tr_key_spend_exact:
  assumes "length k = 32" "cast_to_bool k" "flags_contains flags VERIFY_WITNESS"
    "flags_contains flags VERIFY_TAPROOT"
  shows "verify_script C ck flags [] (build_p2tr k) [sig] = Inr () \<longleftrightarrow>
    fst (check_schnorr_signature ck sig k Taproot
      (exec_data_default\<lparr>annex_init := True, annex_present := False\<rparr>) ErrOk)"
  using verify_native_witness [OF witness_program_v0_templates(3) [OF assms(1)] assms(3,2)] assms(1,4)
  by (simp add: verify_witness_program_def taproot_spend_def take_annex_def split_beta exec_data_default_def)

theorem p2tr_key_spend_exact_witness:
  "verify_script pad_crypto accepting_checker (VERIFY_WITNESS OR VERIFY_TAPROOT) []
     (build_p2tr (2 # replicate 31 0)) [[1, 1]] = Inr () \<and>
   verify_script pad_crypto accepting_checker (VERIFY_WITNESS OR VERIFY_TAPROOT) []
     (build_p2tr (2 # replicate 31 0)) [[1, 2]] \<noteq> Inr ()"
  using p2tr_key_spend_exact [of "2 # replicate 31 0" "VERIFY_WITNESS OR VERIFY_TAPROOT" pad_crypto accepting_checker]
    example_program
  by (simp add: flags_contains_def accepting_checker_def)

text \<open>C13: A pay to public key hash output is spent by the pushes of a signature and a key exactly when the hash of
  the key is the one in the output and the checker accepts the signature for the output's script. The pushes
  are minimal, and the signature is not the hash itself, which would delete the hash from the signed
  script.\<close>

theorem p2pkh_spend_exact:
  assumes "length h = 20" "pushable sig" "pushable key" "sig \<noteq> h"
  shows "verify_script C ck flags (push_data (push_data [] sig) key) (build_p2pkh h) [] = Inr () \<longleftrightarrow>
    hash160 C key = h \<and> signature_accepted C ck flags Base (build_p2pkh h) sig key"
proof -
  have s: "push_data (push_data [] sig) key = push_all [sig, key]"
    by (simp add: push_all_def push_data_append [of "push_data [] sig"])
  have p: "list_all pushable [sig, key]" using assms(2,3) by simp
  have len: "length sig \<le> 520" "length key \<le> 520" using assms(2,3) by (simp_all add: pushable_def)
  have "eval_script_simple C ck flags Base (push_all [sig, key]) [] = Inr [sig, key]"
    using eval_script_pushes [OF p, of "[]"] len
    by (simp add: push_all_def length_push_data push_header_def MAX_SCRIPT_SIZE_def)
  moreover have "is_push_only (push_all [sig, key])"
    using push_only_pushes [OF p, of "[]"] by (simp add: is_push_only_def)
  moreover have "is_witness_program (build_p2pkh h) = None" "\<not> is_p2sh (build_p2pkh h)"
    using assms(1) by (simp_all add: build_p2pkh_bytes is_witness_program_def is_p2sh_def)
  moreover note eval_p2pkh_base [OF assms(1) len(1) assms(4), of C ck flags key]
  moreover have "cast_to_bool [1]" "\<not> cast_to_bool []" by (simp_all add: cast_to_bool_def)
  ultimately show ?thesis
    unfolding s
    by (cases "eval_script_simple C ck flags Base (build_p2pkh h) [sig, key]")
      (auto simp: verify_script_def check_result_def verify_witness_of_def final_checks_def)
qed

theorem p2pkh_spend_exact_witness:
  "verify_script pad_crypto accepting_checker VERIFY_WITNESS (push_data (push_data [] [1, 1]) [2, 7])
     (build_p2pkh (2 # 7 # replicate 18 0)) [] = Inr ()"
  using p2pkh_spend_exact [of "2 # 7 # replicate 18 0" "[1, 1]" "[2, 7]" pad_crypto accepting_checker VERIFY_WITNESS]
    example_signature
  by (simp add: pushable_iff pad_crypto_def pad_to_def)

end
