(* ===== verification/TaprootTree.thy ===== *)
theory TaprootTree
  imports StandardSpends
begin

text \<open>
  Taproot script trees. A tree of scripts has a Merkle root; each of its leaves has the path of sibling hashes
  that a control block carries. The root that \<open>compute_taproot_merkle_root\<close> recomputes from a
  leaf and its path is the root of the tree, so every leaf of a committed tree can be spent.
\<close>

section \<open>Branches\<close>

lemma bytes_less_total: "\<not> bytes_less a b \<Longrightarrow> \<not> bytes_less b a \<Longrightarrow> a = b"
proof (induction a b rule: bytes_less.induct)
  case (1 as)
  then show ?case by (cases as) simp_all
qed auto

lemma bytes_less_asym: "bytes_less a b \<Longrightarrow> \<not> bytes_less b a"
  by (induction a b rule: bytes_less.induct) auto

lemma compute_tapbranch_hash_commute: "compute_tapbranch_hash C a b = compute_tapbranch_hash C b a"
  using bytes_less_total [of a b] bytes_less_asym [of a b] by (auto simp: compute_tapbranch_hash_def)

section \<open>Trees\<close>

datatype taptree = TapLeaf u8 script | TapBranch taptree taptree

fun tree_hash :: "crypto \<Rightarrow> taptree \<Rightarrow> bytes" where
  "tree_hash C (TapLeaf v s) = compute_tapleaf_hash C v s"
| "tree_hash C (TapBranch l r) = compute_tapbranch_hash C (tree_hash C l) (tree_hash C r)"

fun leaf_paths :: "crypto \<Rightarrow> taptree \<Rightarrow> (u8 \<times> script \<times> bytes list) list" where
  "leaf_paths C (TapLeaf v s) = [(v, s, [])]"
| "leaf_paths C (TapBranch l r) =
     map (\<lambda>(v, s, p). (v, s, p @ [tree_hash C r])) (leaf_paths C l) @
     map (\<lambda>(v, s, p). (v, s, p @ [tree_hash C l])) (leaf_paths C r)"

lemma length_tree_hash: "crypto_ok C \<Longrightarrow> length (tree_hash C t) = 32"
  by (cases t) (simp_all add: compute_tapleaf_hash_def compute_tapbranch_hash_def tagged_hash_def Let_def crypto_ok_def)

lemma path_nodes:
  "crypto_ok C \<Longrightarrow> (v, s, p) \<in> set (leaf_paths C t) \<Longrightarrow> x \<in> set p \<Longrightarrow> length x = 32"
  by (induction t arbitrary: p) (auto simp: length_tree_hash)

lemma fold_path:
  "(v, s, p) \<in> set (leaf_paths C t) \<Longrightarrow>
   foldl (compute_tapbranch_hash C) (compute_tapleaf_hash C v s) p = tree_hash C t"
  by (induction t arbitrary: p) (auto simp: compute_tapbranch_hash_commute)

lemma concat_chunk:
  assumes "\<forall>x\<in>set p. length x = n" "i < length p"
  shows "take n (drop (n * i) (concat p)) = p ! i"
  using assms
proof (induction p arbitrary: i)
  case (Cons x p)
  then show ?case by (cases i) simp_all
qed simp

lemma length_concat_chunks: "\<forall>x\<in>set p. length x = n \<Longrightarrow> length (concat p) = n * length p"
  by (induction p) simp_all

lemma merkle_root_of_path:
  assumes "length base = 33" "\<forall>x\<in>set p. length x = 32"
  shows "compute_taproot_merkle_root C (base @ concat p) k = foldl (compute_tapbranch_hash C) k p"
proof -
  have "control_node (base @ concat p) i = p ! i" if "i < length p" for i
    using concat_chunk [OF assms(2) that] assms(1)
    by (simp add: control_node_def TAPROOT_CONTROL_NODE_SIZE_def TAPROOT_CONTROL_BASE_SIZE_def)
  then have "map (control_node (base @ concat p)) [0..<length p] = p"
    by (intro nth_equalityI) simp_all
  moreover have "(length (base @ concat p) - 33) div 32 = length p"
    using length_concat_chunks [OF assms(2)] assms(1) by simp
  ultimately show ?thesis
    using foldl_map [of "compute_tapbranch_hash C" k "control_node (base @ concat p)" "[0..<length p]"]
    by (simp add: compute_taproot_merkle_root_def TAPROOT_CONTROL_BASE_SIZE_def
        TAPROOT_CONTROL_NODE_SIZE_def Let_def del: length_append)
qed

text \<open>The control block of a leaf: leaf version and parity, internal key, path.\<close>

definition control_block :: "u8 \<Rightarrow> bool \<Rightarrow> bytes \<Rightarrow> bytes list \<Rightarrow> bytes" where
  "control_block v parity internal path = (v OR (if parity then 1 else 0)) # internal @ concat path"

text \<open>The output key commits to the internal key and the tree.\<close>

definition commits :: "crypto \<Rightarrow> bytes \<Rightarrow> bool \<Rightarrow> bytes \<Rightarrow> taptree \<Rightarrow> bool" where
  "commits C output parity internal t \<longleftrightarrow>
     (let tweak = tagged_hash C tag_TapTweak (internal @ tree_hash C t) in
      length internal = 32 \<and> xonly_from_slice C internal = Some internal \<and>
      xonly_from_slice C output = Some output \<and> scalar_in_range C tweak \<and>
      tweak_add_check C internal output parity tweak)"

lemma commitment_of_leaf:
  assumes "crypto_ok C" "(v, s, path) \<in> set (leaf_paths C t)" "commits C output parity internal t"
    "v AND 1 = 0"
  shows "verify_taproot_commitment C (control_block v parity internal path) output (compute_tapleaf_hash C v s)"
proof -
  let ?b = "(v OR (if parity then 1 else 0)) # internal"
  have i: "length internal = 32" using assms(3) by (simp add: commits_def Let_def)
  have "compute_taproot_merkle_root C (?b @ concat path) (compute_tapleaf_hash C v s) = tree_hash C t"
    using i path_nodes [OF assms(1,2)] by (subst merkle_root_of_path) (auto simp: fold_path [OF assms(2)])
  moreover have "(v OR (if parity then 1 else 0)) AND 1 = 1 \<longleftrightarrow> parity"
    using assms(4) by (simp add: bit.conj_disj_distrib2)
  ultimately show ?thesis
    using assms(3) i
    by (simp add: verify_taproot_commitment_def control_block_def commits_def Let_def
        TAPROOT_CONTROL_BASE_SIZE_def)
qed


section \<open>Main result\<close>

lemma tapscript_version: "TAPROOT_LEAF_TAPSCRIPT AND 1 = 0"
  "(TAPROOT_LEAF_TAPSCRIPT OR (if parity then 1 else 0)) AND TAPROOT_LEAF_MASK = TAPROOT_LEAF_TAPSCRIPT"
  "(TAPROOT_LEAF_TAPSCRIPT OR (if parity then 1 else 0)) \<noteq> ANNEX_TAG"
  by (simp_all add: TAPROOT_LEAF_TAPSCRIPT_def TAPROOT_LEAF_MASK_def ANNEX_TAG_def)

definition script_path_data :: "crypto \<Rightarrow> script \<Rightarrow> exec_data" where
  "script_path_data C s = exec_data_default\<lparr>annex_init := True, annex_present := False,
     tapleaf_hash := compute_tapleaf_hash C TAPROOT_LEAF_TAPSCRIPT s, tapleaf_hash_init := True\<rparr>"

lemma script_path_spend:
  assumes "crypto_ok C" "(TAPROOT_LEAF_TAPSCRIPT, s, path) \<in> set (leaf_paths C t)" "length path \<le> 128"
    and "commits C output parity internal t"
    and control: "control = control_block TAPROOT_LEAF_TAPSCRIPT parity internal path"
  shows "taproot_script_path C ck flags w output (items @ [s, control])
      (exec_data_default\<lparr>annex_init := True, annex_present := False\<rparr>) =
    tapscript_spend C ck flags w s items (script_path_data C s)"
proof -
  have i: "length internal = 32" using assms(4) by (simp add: commits_def Let_def)
  have len: "length control = 33 + 32 * length path"
    using length_concat_chunks [of path 32] path_nodes [OF assms(1,2)] i by (simp add: control control_block_def)
  have c0: "control ! 0 AND TAPROOT_LEAF_MASK = TAPROOT_LEAF_TAPSCRIPT"
    using tapscript_version(2) by (simp add: control control_block_def)
  have v: "verify_taproot_commitment C control output (compute_tapleaf_hash C TAPROOT_LEAF_TAPSCRIPT s)"
    using commitment_of_leaf [OF assms(1,2,4) tapscript_version(1)] by (simp add: control)
  show ?thesis
    using assms(3)
    by (simp add: taproot_script_path_def butlast_append len TAPROOT_CONTROL_BASE_SIZE_def
        TAPROOT_CONTROL_MAX_SIZE_def TAPROOT_CONTROL_NODE_SIZE_def TAPROOT_CONTROL_MAX_NODE_COUNT_def
        Let_def c0 v script_path_data_def)
qed

text \<open>C16: Every script of a committed tree can be revealed. When the output key commits to a tree, the witness
  of some items, a leaf script of the tree and the control block with its path passes every check up to the
  execution of the script: the input verifies exactly when the tapscript does.\<close>

theorem taproot_leaf_spendable:
  assumes "crypto_ok C" "(TAPROOT_LEAF_TAPSCRIPT, s, path) \<in> set (leaf_paths C t)" "length path \<le> 128"
    and "commits C output parity internal t" "length output = 32" "cast_to_bool output"
    and "flags_contains flags VERIFY_WITNESS" "flags_contains flags VERIFY_TAPROOT"
    and "witness = items @ [s, control_block TAPROOT_LEAF_TAPSCRIPT parity internal path]"
  shows "verify_script C ck flags [] (build_p2tr output) witness =
    tapscript_spend C ck flags witness s items (script_path_data C s)"
proof -
  let ?c = "control_block TAPROOT_LEAF_TAPSCRIPT parity internal path"
  have "take_annex C witness exec_data_default =
      (witness, exec_data_default\<lparr>annex_init := True, annex_present := False\<rparr>)"
    using tapscript_version(3) by (simp add: take_annex_def assms(9) control_block_def)
  then show ?thesis
    using verify_native_witness [OF witness_program_v0_templates(3) [OF assms(5)] assms(7,6)]
      script_path_spend [OF assms(1-4) refl, of ck flags witness items] assms(5,8,9)
    by (simp add: verify_witness_program_def taproot_spend_def)
qed

theorem taproot_leaf_spendable_witness:
  "verify_script pad_crypto base_signature_checker (VERIFY_WITNESS OR VERIFY_TAPROOT) []
     (build_p2tr (2 # replicate 31 0))
     [[7], [OpDrop, Op1], control_block TAPROOT_LEAF_TAPSCRIPT True (replicate 32 9)
        [tree_hash pad_crypto (TapLeaf TAPROOT_LEAF_TAPSCRIPT [OpReturn])]] = Inr ()"
proof -
  let ?t = "TapBranch (TapLeaf TAPROOT_LEAF_TAPSCRIPT [OpDrop, Op1]) (TapLeaf TAPROOT_LEAF_TAPSCRIPT [OpReturn])"
  let ?p = "[tree_hash pad_crypto (TapLeaf TAPROOT_LEAF_TAPSCRIPT [OpReturn])]"
  let ?w = "[[7]] @ [[OpDrop, Op1], control_block TAPROOT_LEAF_TAPSCRIPT True (replicate 32 9) ?p]"
  have "verify_script pad_crypto base_signature_checker (VERIFY_WITNESS OR VERIFY_TAPROOT) []
      (build_p2tr (2 # replicate 31 0)) ?w =
    tapscript_spend pad_crypto base_signature_checker (VERIFY_WITNESS OR VERIFY_TAPROOT) ?w
      [OpDrop, Op1] [[7]] (script_path_data pad_crypto [OpDrop, Op1])"
    by (rule taproot_leaf_spendable [OF pad_crypto_ok, of _ _ ?t])
      (auto simp: commits_def pad_crypto_def Let_def example_program flags_contains_def)
  moreover have "tapscript_spend pad_crypto base_signature_checker (VERIFY_WITNESS OR VERIFY_TAPROOT) ?w
      [OpDrop, Op1] [[7]] (script_path_data pad_crypto [OpDrop, Op1]) = Inr ()"
    by code_simp
  ultimately show ?thesis by simp
qed

end
