(* ===== verification/Storage.thy ===== *)
theory Storage
  imports CoinCodec TaprootTree
begin

text \<open>
  The storage layer, \<open>qubitcoin-storage/src\<close>: the in-memory database with its batches and its
  iterator (\<open>memory.rs\<close>), and the typed wrapper that obfuscates values with a repeating key
  (\<open>wrapper.rs\<close>). The \<open>BTreeMap\<close> is an association list in the order of its keys.
\<close>

section \<open>The in-memory database\<close>

type_synonym memory_db = "(bytes \<times> bytes) list"

datatype batch_op = Put bytes bytes | Delete bytes

type_synonym memory_batch = "batch_op list"

fun bt_insert :: "bytes \<Rightarrow> bytes \<Rightarrow> memory_db \<Rightarrow> memory_db" where
  "bt_insert k v [] = [(k, v)]"
| "bt_insert k v ((k', v') # data) =
     (if k = k' then (k, v) # data
      else if bytes_less k k' then (k, v) # (k', v') # data
      else (k', v') # bt_insert k v data)"

definition bt_remove :: "bytes \<Rightarrow> memory_db \<Rightarrow> memory_db" where
  "bt_remove k data = filter (\<lambda>(k', v). k' \<noteq> k) data"

definition mem_new :: memory_db where
  "mem_new = []"

definition mem_read :: "memory_db \<Rightarrow> bytes \<Rightarrow> bytes option" where
  "mem_read data key = map_of data key"

definition mem_exists :: "memory_db \<Rightarrow> bytes \<Rightarrow> bool" where
  "mem_exists data key \<longleftrightarrow> map_of data key \<noteq> None"

fun apply_op :: "memory_db \<Rightarrow> batch_op \<Rightarrow> memory_db" where
  "apply_op data (Put k v) = bt_insert k v data"
| "apply_op data (Delete k) = bt_remove k data"

definition mem_write_batch :: "memory_db \<Rightarrow> memory_batch \<Rightarrow> memory_db" where
  "mem_write_batch data batch = foldl apply_op data batch"

definition mem_estimated_size :: "memory_db \<Rightarrow> nat" where
  "mem_estimated_size data = (\<Sum>(k, v)\<leftarrow>data. length k + length v)"

definition batch_put :: "memory_batch \<Rightarrow> bytes \<Rightarrow> bytes \<Rightarrow> memory_batch" where
  "batch_put batch key value = batch @ [Put key value]"

definition batch_delete :: "memory_batch \<Rightarrow> bytes \<Rightarrow> memory_batch" where
  "batch_delete batch key = batch @ [Delete key]"

text \<open>The iterator: a snapshot of the entries and a cursor.\<close>

record memory_iterator =
  it_entries :: "(bytes \<times> bytes) list"
  it_pos :: nat
  it_valid :: bool

definition mem_new_iterator :: "memory_db \<Rightarrow> memory_iterator" where
  "mem_new_iterator data = \<lparr>it_entries = data, it_pos = 0, it_valid = False\<rparr>"

definition it_seek :: "memory_iterator \<Rightarrow> bytes \<Rightarrow> memory_iterator" where
  "it_seek it key =
     (let pos = length (takeWhile (\<lambda>(k, v). bytes_less k key) (it_entries it))
      in it\<lparr>it_pos := pos, it_valid := (pos < length (it_entries it))\<rparr>)"

definition it_seek_to_first :: "memory_iterator \<Rightarrow> memory_iterator" where
  "it_seek_to_first it = it\<lparr>it_pos := 0, it_valid := (it_entries it \<noteq> [])\<rparr>"

definition it_next :: "memory_iterator \<Rightarrow> memory_iterator" where
  "it_next it =
     (if it_valid it then it\<lparr>it_pos := it_pos it + 1, it_valid := (it_pos it + 1 < length (it_entries it))\<rparr>
      else it)"

definition it_key :: "memory_iterator \<Rightarrow> bytes" where
  "it_key it = fst (it_entries it ! it_pos it)"

definition it_value :: "memory_iterator \<Rightarrow> bytes" where
  "it_value it = snd (it_entries it ! it_pos it)"

section \<open>The typed wrapper\<close>

record db_wrapper =
  dw_db :: memory_db
  dw_obfuscation_key :: bytes

definition OBFUSCATION_KEY_KEY :: bytes where
  "OBFUSCATION_KEY_KEY = [0x0e, 0x00, 0x6f, 0x62, 0x66, 0x75, 0x73, 0x63, 0x61, 0x74, 0x65, 0x5f, 0x6b, 0x65, 0x79]"

definition OBFUSCATION_KEY_LEN :: nat where
  "OBFUSCATION_KEY_LEN = 8"

text \<open>The random key is an argument.\<close>

definition dw_new :: "memory_db \<Rightarrow> bool \<Rightarrow> bytes \<Rightarrow> db_wrapper" where
  "dw_new db obfuscate random_key =
     (if obfuscate then
        case mem_read db OBFUSCATION_KEY_KEY of
          Some key \<Rightarrow> \<lparr>dw_db = db, dw_obfuscation_key = key\<rparr>
        | None \<Rightarrow>
            \<lparr>dw_db = mem_write_batch db (batch_put [] OBFUSCATION_KEY_KEY random_key),
             dw_obfuscation_key = random_key\<rparr>
      else \<lparr>dw_db = db, dw_obfuscation_key = []\<rparr>)"

definition dw_new_unobfuscated :: "memory_db \<Rightarrow> db_wrapper" where
  "dw_new_unobfuscated db = \<lparr>dw_db = db, dw_obfuscation_key = []\<rparr>"

definition xor_bytes :: "bytes \<Rightarrow> bytes \<Rightarrow> bytes" where
  "xor_bytes key data =
     (if key = [] then data
      else map (\<lambda>(i, byte). byte XOR (key ! (i mod length key))) (List.enumerate 0 data))"

definition dw_read :: "'a decoder \<Rightarrow> db_wrapper \<Rightarrow> bytes \<Rightarrow> ser_error + 'a option" where
  "dw_read dec w key =
     (case mem_read (dw_db w) key of
        Some raw \<Rightarrow> res_bind (dec (xor_bytes (dw_obfuscation_key w) raw)) (\<lambda>(value, r). Inr (Some value))
      | None \<Rightarrow> Inr None)"

definition dw_multi_read :: "'a decoder \<Rightarrow> db_wrapper \<Rightarrow> bytes list \<Rightarrow> (ser_error + 'a option) list" where
  "dw_multi_read dec w keys = map (dw_read dec w) keys"

definition dw_exists :: "db_wrapper \<Rightarrow> bytes \<Rightarrow> bool" where
  "dw_exists w key = mem_exists (dw_db w) key"

definition dw_write_batch :: "db_wrapper \<Rightarrow> memory_batch \<Rightarrow> db_wrapper" where
  "dw_write_batch w batch = w\<lparr>dw_db := mem_write_batch (dw_db w) batch\<rparr>"

definition dw_serialize_value :: "'a encoder \<Rightarrow> db_wrapper \<Rightarrow> 'a \<Rightarrow> bytes" where
  "dw_serialize_value enc w value = xor_bytes (dw_obfuscation_key w) (fst (enc value))"

definition dw_write :: "'a encoder \<Rightarrow> db_wrapper \<Rightarrow> bytes \<Rightarrow> 'a \<Rightarrow> db_wrapper" where
  "dw_write enc w key value =
     (let serialized = xor_bytes (dw_obfuscation_key w) (fst (enc value))
      in dw_write_batch w (batch_put [] key serialized))"

definition dw_erase :: "db_wrapper \<Rightarrow> bytes \<Rightarrow> db_wrapper" where
  "dw_erase w key = dw_write_batch w (batch_delete [] key)"

section \<open>Lookups\<close>

lemma map_of_bt_insert: "map_of (bt_insert k v data) = (map_of data)(k \<mapsto> v)"
  by (induction k v data rule: bt_insert.induct) (auto simp: fun_upd_twist)

lemma map_of_bt_remove: "map_of (bt_remove k data) = (map_of data)(k := None)"
  by (induction data) (auto simp: bt_remove_def fun_upd_twist)

text \<open>A batch as an update of the map: the last operation on a key counts.\<close>

fun op_update :: "batch_op \<Rightarrow> (bytes \<rightharpoonup> bytes) \<Rightarrow> (bytes \<rightharpoonup> bytes)" where
  "op_update (Put k v) m = m(k \<mapsto> v)"
| "op_update (Delete k) m = m(k := None)"

lemma mem_write_batch_map: "map_of (mem_write_batch data batch) = fold op_update batch (map_of data)"
proof (induction batch arbitrary: data)
  case (Cons op batch)
  have "map_of (apply_op data op) = op_update op (map_of data)"
    by (cases op) (simp_all add: map_of_bt_insert map_of_bt_remove)
  then show ?case using Cons by (simp add: mem_write_batch_def)
qed (simp add: mem_write_batch_def)

lemma xor_bytes_self: "xor_bytes key (xor_bytes key data) = data"
proof (cases "key = []")
  case False
  show ?thesis
    by (rule nth_equalityI) (use False in \<open>simp_all add: xor_bytes_def nth_enumerate_eq xor.assoc\<close>)
qed (simp add: xor_bytes_def)


text \<open>What a codec writes through the wrapper it reads back, whatever the obfuscation key.\<close>

context codec
begin

lemma dw_read_write:
  assumes "valid v"
  shows "dw_read dec (dw_write enc w key v) key = Inr (Some v)"
  using dec_enc [OF assms, of "[]"]
  by (simp add: dw_read_def dw_write_def dw_write_batch_def mem_read_def batch_put_def mem_write_batch_map
      xor_bytes_self Let_def)

lemma dw_read_other: "key' \<noteq> key \<Longrightarrow> dw_read dec' (dw_write enc w key v) key' = dw_read dec' w key'"
  by (simp add: dw_read_def dw_write_def dw_write_batch_def mem_read_def batch_put_def mem_write_batch_map Let_def
      split: option.splits)

end

section \<open>The order of the entries\<close>

lemma bytes_less_trans: "bytes_less a b \<Longrightarrow> bytes_less b c \<Longrightarrow> bytes_less a c"
proof (induction a b arbitrary: c rule: bytes_less.induct)
  case (2 b bs)
  then show ?case by (cases c) auto
next
  case (3 a as b bs)
  then show ?case by (cases c) auto
qed simp

lemma bytes_less_irrefl: "\<not> bytes_less a a"
  using bytes_less_asym by blast

definition db_sorted :: "memory_db \<Rightarrow> bool" where
  "db_sorted data \<longleftrightarrow> sorted_wrt (\<lambda>a b. bytes_less (fst a) (fst b)) data"

lemma fst_bt_insert: "fst ` set (bt_insert k v data) = insert k (fst ` set data)"
  by (induction k v data rule: bt_insert.induct) auto

lemma bt_insert_sorted: "db_sorted data \<Longrightarrow> db_sorted (bt_insert k v data)"
proof (induction k v data rule: bt_insert.induct)
  case (2 k v k' v' data)
  have tail: "bytes_less k' x" if "x \<in> fst ` set data" for x using "2.prems" that by (auto simp: db_sorted_def)
  consider "k = k'" | "k \<noteq> k'" "bytes_less k k'" | "k \<noteq> k'" "bytes_less k' k"
    using bytes_less_total [of k k'] by blast
  then show ?case
  proof cases
    case 1
    then show ?thesis using "2.prems" by (simp add: db_sorted_def)
  next
    case 2
    then show ?thesis
      using "2.prems" tail bytes_less_trans [OF 2(2)] by (auto simp: db_sorted_def)
  next
    case 3
    then have n: "\<not> bytes_less k k'" using bytes_less_asym by blast
    have "db_sorted (bt_insert k v data)" using "2.IH" 3 n "2.prems" by (simp add: db_sorted_def)
    moreover have "\<forall>x\<in>fst ` set (bt_insert k v data). bytes_less k' x" unfolding fst_bt_insert using tail 3 by auto
    ultimately show ?thesis using 3 n by (simp add: db_sorted_def)
  qed
qed (simp add: db_sorted_def)

lemma bt_remove_sorted: "db_sorted data \<Longrightarrow> db_sorted (bt_remove k data)"
  by (simp add: db_sorted_def bt_remove_def sorted_wrt_filter)

lemma mem_write_batch_sorted: "db_sorted data \<Longrightarrow> db_sorted (mem_write_batch data batch)"
proof (induction batch arbitrary: data)
  case (Cons op batch)
  have "db_sorted (apply_op data op)"
    using Cons.prems by (cases op) (simp_all add: bt_insert_sorted bt_remove_sorted)
  then show ?case using Cons.IH by (simp add: mem_write_batch_def)
qed (simp add: mem_write_batch_def)

lemma db_sorted_distinct: "db_sorted data \<Longrightarrow> distinct (map fst data)"
proof (induction data)
  case (Cons e data)
  then show ?case using bytes_less_irrefl by (auto simp: db_sorted_def)
qed simp

section \<open>Walking over a prefix\<close>

text \<open>The loop that reads the entries from the position of the iterator on while a condition on the key holds.\<close>

function walk :: "(bytes \<Rightarrow> bool) \<Rightarrow> memory_iterator \<Rightarrow> (bytes \<times> bytes) list" where
  "walk P it =
     (if it_valid it \<and> it_pos it < length (it_entries it) then
        if P (it_key it) then (it_key it, it_value it) # walk P (it_next it) else []
      else [])"
  by pat_completeness auto
termination
  by (relation "measure (\<lambda>(P, it). length (it_entries it) - it_pos it)") (auto simp: it_next_def)

declare walk.simps [simp del]

lemma walk_takeWhile:
  "it_valid it = (it_pos it < length (it_entries it)) \<Longrightarrow>
   walk P it = takeWhile (\<lambda>(k, v). P k) (drop (it_pos it) (it_entries it))"
proof (induction P it rule: walk.induct)
  case (1 P it)
  show ?case
  proof (cases "it_pos it < length (it_entries it)")
    case True
    have "drop (it_pos it) (it_entries it) = (it_key it, it_value it) # drop (Suc (it_pos it)) (it_entries it)"
      using True by (simp add: Cons_nth_drop_Suc it_key_def it_value_def)
    then show ?thesis
      using 1 True by (subst walk.simps) (auto simp: it_next_def)
  next
    case False
    then show ?thesis by (subst walk.simps) simp
  qed
qed

lemma takeWhile_interval:
  assumes "sorted_wrt R xs" "\<And>x y. R x y \<Longrightarrow> Q y \<Longrightarrow> Q x" "\<And>x y. R x y \<Longrightarrow> \<not> Q x \<Longrightarrow> P y \<Longrightarrow> P x" "\<And>x. P x \<Longrightarrow> \<not> Q x"
  shows "takeWhile P (dropWhile Q xs) = filter P xs"
  using assms(1)
proof (induction xs)
  case (Cons x xs)
  show ?case
  proof (cases "Q x")
    case True
    then show ?thesis using Cons assms(4) by auto
  next
    case False
    have nq: "\<forall>y\<in>set xs. \<not> Q y" using False Cons.prems assms(2) by auto
    then have d: "dropWhile Q xs = xs" by (cases xs) auto
    show ?thesis
    proof (cases "P x")
      case True
      then show ?thesis using False Cons d by auto
    next
      case f: False
      then have "\<forall>y\<in>set xs. \<not> P y" using False Cons.prems assms(3) by auto
      then show ?thesis using False f by (simp add: filter_empty_conv)
    qed
  qed
qed simp

lemma drop_takeWhile: "drop (length (takeWhile Q xs)) xs = dropWhile Q xs"
  by (induction xs) auto

text \<open>Seeking a one-byte prefix and walking on while it lasts finds the entries with that prefix, in order.\<close>

lemma walk_prefix:
  assumes "db_sorted data"
  shows "walk (\<lambda>k. k \<noteq> [] \<and> hd k = p) (it_seek (mem_new_iterator data) [p]) = filter (\<lambda>(k, v). k \<noteq> [] \<and> hd k = p) data"
proof -
  have "takeWhile (\<lambda>(k, v). k \<noteq> [] \<and> hd k = p) (dropWhile (\<lambda>(k, v). bytes_less k [p]) data) =
      filter (\<lambda>(k, v). k \<noteq> [] \<and> hd k = p) data"
  proof (rule takeWhile_interval [OF assms [unfolded db_sorted_def]])
    fix x y :: "bytes \<times> bytes"
    assume r: "bytes_less (fst x) (fst y)"
    show "case y of (k, v) \<Rightarrow> bytes_less k [p] \<Longrightarrow> case x of (k, v) \<Rightarrow> bytes_less k [p]"
      using r bytes_less_trans by (auto split: prod.splits)
    show "\<not> (case x of (k, v) \<Rightarrow> bytes_less k [p]) \<Longrightarrow> case y of (k, v) \<Rightarrow> k \<noteq> [] \<and> hd k = p \<Longrightarrow>
        case x of (k, v) \<Rightarrow> k \<noteq> [] \<and> hd k = p"
      using r by (cases "fst x"; cases "fst y") (auto split: prod.splits)
  next
    fix x :: "bytes \<times> bytes"
    show "case x of (k, v) \<Rightarrow> k \<noteq> [] \<and> hd k = p \<Longrightarrow> \<not> (case x of (k, v) \<Rightarrow> bytes_less k [p])"
      by (cases "fst x") (auto split: prod.splits)
  qed
  then show ?thesis
    by (subst walk_takeWhile) (simp_all add: it_seek_def mem_new_iterator_def Let_def drop_takeWhile)
qed

end
