(* ===== verification/CoinsCache.thy ===== *)
theory CoinsCache
  imports Storage
begin

text \<open>
  The set of unspent outputs, the second half of \<open>qubitcoin-common/src/coins.rs\<close>: the cache
  \<open>CoinsViewCache\<close> over a base view with its dirty and fresh flags, and the database view
  \<open>CoinsViewDB\<close> it is flushed to. The base of a cache is read through its \<open>get_coin\<close>, a function
  here. The order in which a \<open>HashMap\<close> is traversed is an argument, a list of the keys.
\<close>

section \<open>The cache\<close>

definition FLAG_NONE :: u8 where "FLAG_NONE = 0"
definition FLAG_DIRTY :: u8 where "FLAG_DIRTY = 0x01"
definition FLAG_FRESH :: u8 where "FLAG_FRESH = 0x02"
definition FLAG_DIRTY_FRESH :: u8 where "FLAG_DIRTY_FRESH = 0x01 OR 0x02"

definition flag_is_dirty :: "u8 \<Rightarrow> bool" where
  "flag_is_dirty f \<longleftrightarrow> f AND FLAG_DIRTY \<noteq> 0"

definition flag_is_fresh :: "u8 \<Rightarrow> bool" where
  "flag_is_fresh f \<longleftrightarrow> f AND FLAG_FRESH \<noteq> 0"

record cache_entry =
  ce_coin :: coin
  ce_flags :: u8

definition entry_clean :: "coin \<Rightarrow> cache_entry" where
  "entry_clean c = \<lparr>ce_coin = c, ce_flags = FLAG_NONE\<rparr>"

type_synonym coins_view = "outpoint \<Rightarrow> coin option"

record coins_cache =
  cc_cache :: "outpoint \<rightharpoonup> cache_entry"
  cc_best_block :: hash_bytes
  cc_usage :: u64

definition cache_new :: "hash_bytes \<Rightarrow> coins_cache" where
  "cache_new base_best_block = \<lparr>cc_cache = Map.empty, cc_best_block = base_best_block, cc_usage = 0\<rparr>"

definition set_best_block :: "coins_cache \<Rightarrow> hash_bytes \<Rightarrow> coins_cache" where
  "set_best_block cc hash = cc\<lparr>cc_best_block := hash\<rparr>"

definition get_best_block :: "hash_bytes \<Rightarrow> coins_cache \<Rightarrow> hash_bytes" where
  "get_best_block base_best_block cc =
     (if list_all (\<lambda>b. b = 0) (cc_best_block cc) then base_best_block else cc_best_block cc)"

definition iter_coins :: "coins_cache \<Rightarrow> outpoint list \<Rightarrow> (outpoint \<times> coin) list" where
  "iter_coins cc order =
     List.map_filter (\<lambda>op. case cc_cache cc op of
         None \<Rightarrow> None
       | Some entry \<Rightarrow> if sint (out_value (coin_tx_out (ce_coin entry))) < 0 then None else Some (op, ce_coin entry)) order"

fun prefetch_loop :: "(outpoint \<times> coin option) list \<Rightarrow> (outpoint \<rightharpoonup> cache_entry) \<Rightarrow> u64 \<Rightarrow>
  (outpoint \<rightharpoonup> cache_entry) \<times> u64" where
  "prefetch_loop [] cache added_usage = (cache, added_usage)"
| "prefetch_loop ((op, maybe_coin) # results) cache added_usage =
     (if cache op \<noteq> None then prefetch_loop results cache added_usage
      else case maybe_coin of
          Some coin \<Rightarrow>
            if \<not> coin_is_spent coin
            then prefetch_loop results (cache(op \<mapsto> entry_clean coin))
                   (added_usage + of_nat (coin_dynamic_memory_usage coin))
            else prefetch_loop results cache added_usage
        | None \<Rightarrow> prefetch_loop results cache added_usage)"

definition prefetch_coins :: "coins_view \<Rightarrow> coins_cache \<Rightarrow> outpoint list \<Rightarrow> coins_cache" where
  "prefetch_coins base cc outpoints =
     (let miss_outpoints = filter (\<lambda>op. cc_cache cc op = None) outpoints in
      if miss_outpoints = [] then cc
      else
        let (cache, added_usage) = prefetch_loop (zip miss_outpoints (map base miss_outpoints)) (cc_cache cc) 0
        in cc\<lparr>cc_cache := cache, cc_usage := cc_usage cc + added_usage\<rparr>)"

definition fetch_coin :: "coins_view \<Rightarrow> coins_cache \<Rightarrow> outpoint \<Rightarrow> coin option \<times> coins_cache" where
  "fetch_coin base cc op =
     (case cc_cache cc op of
        Some entry \<Rightarrow> (if coin_is_spent (ce_coin entry) then None else Some (ce_coin entry), cc)
      | None \<Rightarrow>
          case base op of
            Some coin \<Rightarrow>
              if coin_is_spent coin then (None, cc)
              else (Some coin, cc\<lparr>cc_cache := (cc_cache cc)(op \<mapsto> entry_clean coin),
                      cc_usage := cc_usage cc + of_nat (coin_dynamic_memory_usage coin)\<rparr>)
          | None \<Rightarrow> (None, cc))"

text \<open>Adding a spent coin, and overwriting an unspent one without permission, panic.\<close>

definition add_coin :: "coins_cache \<Rightarrow> outpoint \<Rightarrow> coin \<Rightarrow> bool \<Rightarrow> coins_cache option" where
  "add_coin cc op coin possible_overwrite =
     (if coin_is_spent coin then None
      else if is_unspendable (out_script_pubkey (coin_tx_out coin)) then Some cc
      else
        let coin_usage = of_nat (coin_dynamic_memory_usage coin) in
        case cc_cache cc op of
          Some existing \<Rightarrow>
            if \<not> possible_overwrite \<and> \<not> coin_is_spent (ce_coin existing) then None
            else
              let fresh = (\<not> possible_overwrite \<and> \<not> flag_is_dirty (ce_flags existing));
                  old_usage = of_nat (coin_dynamic_memory_usage (ce_coin existing));
                  flags = (if fresh then FLAG_DIRTY OR FLAG_FRESH else FLAG_DIRTY)
              in Some (cc\<lparr>cc_cache := (cc_cache cc)(op \<mapsto> \<lparr>ce_coin = coin, ce_flags = flags\<rparr>),
                   cc_usage := cc_usage cc - old_usage + coin_usage\<rparr>)
        | None \<Rightarrow>
            Some (cc\<lparr>cc_cache := (cc_cache cc)(op \<mapsto> \<lparr>ce_coin = coin, ce_flags = FLAG_DIRTY_FRESH\<rparr>),
                 cc_usage := cc_usage cc + coin_usage\<rparr>))"

definition spend_coin :: "coins_view \<Rightarrow> coins_cache \<Rightarrow> outpoint \<Rightarrow> coin option \<times> coins_cache" where
  "spend_coin base cc op =
     (let cc = snd (fetch_coin base cc op) in
      case cc_cache cc op of
        None \<Rightarrow> (None, cc)
      | Some entry \<Rightarrow>
          if coin_is_spent (ce_coin entry) then (None, cc)
          else
            let old_usage = of_nat (coin_dynamic_memory_usage (ce_coin entry));
                cache = (if flag_is_fresh (ce_flags entry) then (cc_cache cc)(op := None)
                         else (cc_cache cc)(op \<mapsto> \<lparr>ce_coin = coin_clear coin_empty, ce_flags = FLAG_DIRTY\<rparr>))
            in (Some (ce_coin entry), cc\<lparr>cc_cache := cache, cc_usage := cc_usage cc - old_usage\<rparr>))"

definition have_coin_in_cache :: "coins_cache \<Rightarrow> outpoint \<Rightarrow> bool" where
  "have_coin_in_cache cc op =
     (case cc_cache cc op of Some e \<Rightarrow> \<not> coin_is_spent (ce_coin e) | None \<Rightarrow> False)"

fun have_all :: "coins_view \<Rightarrow> coins_cache \<Rightarrow> tx_in list \<Rightarrow> bool \<times> coins_cache" where
  "have_all base cc [] = (True, cc)"
| "have_all base cc (input # inputs) =
     (let (found, cc) = fetch_coin base cc (in_prevout input)
      in if found = None then (False, cc) else have_all base cc inputs)"

definition have_inputs :: "coins_view \<Rightarrow> coins_cache \<Rightarrow> transaction \<Rightarrow> bool \<times> coins_cache" where
  "have_inputs base cc tx = (if is_coinbase tx then (True, cc) else have_all base cc (tx_vin tx))"

fun sum_inputs :: "coins_view \<Rightarrow> coins_cache \<Rightarrow> tx_in list \<Rightarrow> amount \<Rightarrow> amount \<times> coins_cache" where
  "sum_inputs base cc [] acc = (acc, cc)"
| "sum_inputs base cc (input # inputs) acc =
     (let (found, cc) = fetch_coin base cc (in_prevout input)
      in sum_inputs base cc inputs (case found of Some coin \<Rightarrow> acc + out_value (coin_tx_out coin) | None \<Rightarrow> acc))"

definition get_value_in :: "coins_view \<Rightarrow> coins_cache \<Rightarrow> transaction \<Rightarrow> amount \<times> coins_cache" where
  "get_value_in base cc tx = (if is_coinbase tx then (0, cc) else sum_inputs base cc (tx_vin tx) 0)"

definition cache_flush :: "coins_cache \<Rightarrow> coins_cache" where
  "cache_flush cc = cc\<lparr>cc_cache := Map.empty, cc_usage := 0\<rparr>"

text \<open>The list of writes of \<open>flush_to\<close>.\<close>

definition flush_write :: "coins_cache \<Rightarrow> outpoint \<Rightarrow> (outpoint \<times> coin option) option" where
  "flush_write cc op =
     (case cc_cache cc op of
        None \<Rightarrow> None
      | Some entry \<Rightarrow>
          if \<not> flag_is_dirty (ce_flags entry) then None
          else if flag_is_fresh (ce_flags entry) \<and> coin_is_spent (ce_coin entry) then None
          else if coin_is_spent (ce_coin entry) then Some (op, None)
          else Some (op, Some (ce_coin entry)))"

definition MAX_RETAINED_BYTES :: u64 where
  "MAX_RETAINED_BYTES = 1024 * 1024 * 1024"

text \<open>The traversal \<open>cache.retain\<close>: the entries that stay, and their size.\<close>

fun retain_loop :: "(outpoint \<rightharpoonup> cache_entry) \<Rightarrow> outpoint list \<Rightarrow> (outpoint \<rightharpoonup> cache_entry) \<Rightarrow> u64 \<Rightarrow>
  (outpoint \<rightharpoonup> cache_entry) \<times> u64" where
  "retain_loop cache [] kept retained_usage = (kept, retained_usage)"
| "retain_loop cache (op # order) kept retained_usage =
     (case cache op of
        None \<Rightarrow> retain_loop cache order kept retained_usage
      | Some entry \<Rightarrow>
          if coin_is_spent (ce_coin entry) then retain_loop cache order kept retained_usage
          else
            let coin_size = of_nat (coin_dynamic_memory_usage (ce_coin entry)) in
            if retained_usage + coin_size > MAX_RETAINED_BYTES then retain_loop cache order kept retained_usage
            else retain_loop cache order (kept(op \<mapsto> entry\<lparr>ce_flags := FLAG_NONE\<rparr>)) (retained_usage + coin_size))"

text \<open>Flushing to a target, whose \<open>batch_write\<close> is an argument: it returns whether it succeeded and the target
  after the writes, or panics.\<close>

type_synonym 'db batch_writer = "'db \<Rightarrow> (outpoint \<times> coin option) list \<Rightarrow> hash_bytes \<Rightarrow> (bool \<times> 'db) option"

definition flush_to :: "'db batch_writer \<Rightarrow> 'db \<Rightarrow> coins_cache \<Rightarrow> outpoint list \<Rightarrow> (bool \<times> 'db \<times> coins_cache) option" where
  "flush_to batch_write target cc order =
     (let writes = List.map_filter (flush_write cc) order in
      case batch_write target writes (cc_best_block cc) of
        None \<Rightarrow> None
      | Some (True, target) \<Rightarrow>
          let (kept, retained_usage) = retain_loop (cc_cache cc) order Map.empty 0
          in Some (True, target, cc\<lparr>cc_cache := kept, cc_usage := retained_usage\<rparr>)
      | Some (False, target) \<Rightarrow> Some (False, target, cc))"

definition uncache :: "coins_cache \<Rightarrow> outpoint \<Rightarrow> coins_cache" where
  "uncache cc op =
     (case cc_cache cc op of
        None \<Rightarrow> cc
      | Some entry \<Rightarrow>
          if \<not> flag_is_dirty (ce_flags entry)
          then cc\<lparr>cc_cache := (cc_cache cc)(op := None),
                  cc_usage := cc_usage cc - of_nat (coin_dynamic_memory_usage (ce_coin entry))\<rparr>
          else cc)"

text \<open>The outputs of a transaction, with their index.\<close>

fun add_outputs :: "coins_view \<Rightarrow> coins_cache \<Rightarrow> hash_bytes \<Rightarrow> nat \<Rightarrow> tx_out list \<Rightarrow> u32 \<Rightarrow> bool \<Rightarrow> bool \<Rightarrow>
  coins_cache option" where
  "add_outputs base cc tx_id i [] height is_cb check_for_overwrite = Some cc"
| "add_outputs base cc tx_id i (output # outputs) height is_cb check_for_overwrite =
     (let op = \<lparr>prev_txid = tx_id, prev_index = of_nat i\<rparr>;
          (overwrite, cc) = (if check_for_overwrite then (let (c, cc) = fetch_coin base cc op in (c \<noteq> None, cc)) else (is_cb, cc))
      in case add_coin cc op (coin_new output height is_cb) overwrite of
           None \<Rightarrow> None
         | Some cc \<Rightarrow> add_outputs base cc tx_id (i + 1) outputs height is_cb check_for_overwrite)"

definition add_coins :: "crypto \<Rightarrow> coins_view \<Rightarrow> coins_cache \<Rightarrow> transaction \<Rightarrow> u32 \<Rightarrow> bool \<Rightarrow> coins_cache option" where
  "add_coins C base cc tx height check_for_overwrite =
     add_outputs base cc (txid C tx) 0 (tx_vout tx) height (is_coinbase tx) check_for_overwrite"

section \<open>The database view\<close>

definition DB_COIN :: u8 where "DB_COIN = 0x43"
definition DB_BEST_BLOCK :: u8 where "DB_BEST_BLOCK = 0x42"

definition coin_db_key :: "outpoint \<Rightarrow> bytes" where
  "coin_db_key op = DB_COIN # fst (encode_outpoint op)"

definition best_block_db_key :: bytes where
  "best_block_db_key = [DB_BEST_BLOCK]"

fun batch_entries :: "db_wrapper \<Rightarrow> (outpoint \<times> coin option) list \<Rightarrow> memory_batch \<Rightarrow> memory_batch option" where
  "batch_entries w [] batch = Some batch"
| "batch_entries w ((op, maybe_coin) # entries) batch =
     (let key = coin_db_key op in
      case maybe_coin of
        Some coin \<Rightarrow>
          (case encode_coin coin of
             None \<Rightarrow> None
           | Some e \<Rightarrow> batch_entries w entries (batch_put batch key (xor_bytes (dw_obfuscation_key w) (fst e))))
      | None \<Rightarrow> batch_entries w entries (batch_delete batch key))"

definition batch_write_impl :: "db_wrapper batch_writer" where
  "batch_write_impl w entries best_block =
     (case batch_entries w entries [] of
        None \<Rightarrow> None
      | Some batch \<Rightarrow>
          let batch = batch_put batch best_block_db_key (dw_serialize_value encode_hash w best_block)
          in Some (True, dw_write_batch w batch))"

definition db_get_coin :: "decompress_key \<Rightarrow> db_wrapper \<Rightarrow> coins_view" where
  "db_get_coin D w op =
     (case dw_read (decode_coin D) w (coin_db_key op) of
        Inr (Some coin) \<Rightarrow> if \<not> coin_is_spent coin then Some coin else None
      | Inr None \<Rightarrow> None
      | Inl e \<Rightarrow> None)"

definition db_get_coins :: "decompress_key \<Rightarrow> db_wrapper \<Rightarrow> outpoint list \<Rightarrow> coin option list" where
  "db_get_coins D w ops =
     map (\<lambda>result. case result of
         Inr (Some coin) \<Rightarrow> if \<not> coin_is_spent coin then Some coin else None
       | Inr None \<Rightarrow> None
       | Inl e \<Rightarrow> None) (dw_multi_read (decode_coin D) w (map coin_db_key ops))"

definition db_get_best_block :: "db_wrapper \<Rightarrow> hash_bytes" where
  "db_get_best_block w =
     (case dw_read decode_hash w best_block_db_key of Inr (Some hash) \<Rightarrow> hash | _ \<Rightarrow> ZERO_HASH)"

definition write_coin :: "db_wrapper \<Rightarrow> outpoint \<Rightarrow> coin \<Rightarrow> db_wrapper option" where
  "write_coin w op coin =
     (case encode_coin coin of None \<Rightarrow> None | Some e \<Rightarrow> Some (dw_write (\<lambda>c. e) w (coin_db_key op) coin))"

definition erase_coin :: "db_wrapper \<Rightarrow> outpoint \<Rightarrow> db_wrapper" where
  "erase_coin w op = dw_erase w (coin_db_key op)"

definition iter_all_coins :: "decompress_key \<Rightarrow> db_wrapper \<Rightarrow> (outpoint \<times> coin) list" where
  "iter_all_coins D w =
     List.map_filter (\<lambda>(key, value).
         case decode_outpoint (tl key) of
           Inl e \<Rightarrow> None
         | Inr (op, r) \<Rightarrow>
             (case dw_read (decode_coin D) w key of Inr (Some coin) \<Rightarrow> Some (op, coin) | _ \<Rightarrow> None))
       (walk (\<lambda>key. key \<noteq> [] \<and> hd key = DB_COIN) (it_seek (mem_new_iterator (dw_db w)) [DB_COIN]))"


section \<open>What a cache shows\<close>

text \<open>The set of unspent outputs that a cache over a base view stands for.\<close>

definition entry_view :: "cache_entry \<Rightarrow> coin option" where
  "entry_view entry = (if coin_is_spent (ce_coin entry) then None else Some (ce_coin entry))"

definition map_view :: "coins_view \<Rightarrow> (outpoint \<rightharpoonup> cache_entry) \<Rightarrow> coins_view" where
  "map_view base m op = (case m op of Some entry \<Rightarrow> entry_view entry | None \<Rightarrow> base op)"

definition cache_view :: "coins_view \<Rightarrow> coins_cache \<Rightarrow> coins_view" where
  "cache_view base cc = map_view base (cc_cache cc)"

text \<open>An entry that is not dirty repeats the base; one that is fresh has no counterpart there.\<close>

definition entry_inv :: "(coin \<Rightarrow> bool) \<Rightarrow> coin option \<Rightarrow> cache_entry \<Rightarrow> bool" where
  "entry_inv storable in_base entry \<longleftrightarrow>
     (\<not> flag_is_dirty (ce_flags entry) \<longrightarrow> \<not> coin_is_spent (ce_coin entry) \<and> in_base = Some (ce_coin entry)) \<and>
     (flag_is_fresh (ce_flags entry) \<longrightarrow> in_base = None \<and> flag_is_dirty (ce_flags entry)) \<and>
     (flag_is_dirty (ce_flags entry) \<and> \<not> coin_is_spent (ce_coin entry) \<longrightarrow> storable (ce_coin entry))"

definition map_inv :: "(coin \<Rightarrow> bool) \<Rightarrow> coins_view \<Rightarrow> (outpoint \<rightharpoonup> cache_entry) \<Rightarrow> bool" where
  "map_inv storable base m \<longleftrightarrow> (\<forall>op entry. m op = Some entry \<longrightarrow> entry_inv storable (base op) entry)"

definition cache_inv :: "(coin \<Rightarrow> bool) \<Rightarrow> coins_view \<Rightarrow> coins_cache \<Rightarrow> bool" where
  "cache_inv storable base cc \<longleftrightarrow> map_inv storable base (cc_cache cc)"

lemma map_view_upd: "map_view base (m(op \<mapsto> e)) = (map_view base m)(op := entry_view e)"
  by (simp add: map_view_def fun_eq_iff)

lemma map_view_del: "map_view base (m(op := None)) = (map_view base m)(op := base op)"
  by (simp add: map_view_def fun_eq_iff)

lemma map_view_at: "m op = Some e \<Longrightarrow> map_view base m op = entry_view e"
  "m op = None \<Longrightarrow> map_view base m op = base op"
  by (simp_all add: map_view_def)

lemma map_inv_upd: "map_inv storable base m \<Longrightarrow> entry_inv storable (base op) e \<Longrightarrow> map_inv storable base (m(op \<mapsto> e))"
  by (simp add: map_inv_def)

lemma map_inv_del: "map_inv storable base m \<Longrightarrow> map_inv storable base (m(op := None))"
  by (simp add: map_inv_def)

lemma map_inv_at: "map_inv storable base m \<Longrightarrow> m op = Some e \<Longrightarrow> entry_inv storable (base op) e"
  by (simp add: map_inv_def)

lemmas map_facts = map_view_upd map_view_del map_inv_upd map_inv_del

lemma flags [simp]:
  "\<not> flag_is_dirty FLAG_NONE" "\<not> flag_is_fresh FLAG_NONE" "flag_is_dirty FLAG_DIRTY" "\<not> flag_is_fresh FLAG_DIRTY"
  "flag_is_dirty FLAG_DIRTY_FRESH" "flag_is_fresh FLAG_DIRTY_FRESH"
  "flag_is_dirty (FLAG_DIRTY OR FLAG_FRESH)" "flag_is_fresh (FLAG_DIRTY OR FLAG_FRESH)"
  by (simp_all add: flag_is_dirty_def flag_is_fresh_def FLAG_NONE_def FLAG_DIRTY_def FLAG_FRESH_def
      FLAG_DIRTY_FRESH_def)

lemma coin_clear_spent [simp]: "coin_is_spent (coin_clear c)"
  by (simp add: coin_is_spent_def coin_clear_def tx_out_is_null_def tx_out_null_def)

lemma cache_view_new: "cache_view base (cache_new b) = base" "cache_inv storable base (cache_new b)"
  by (simp_all add: cache_view_def map_view_def cache_new_def cache_inv_def map_inv_def fun_eq_iff)

text \<open>
  A base view never returns a spent coin. The lemmas of the cache rest on this alone.
\<close>

locale coins_base =
  fixes base :: coins_view
    and storable :: "coin \<Rightarrow> bool"
  assumes base_unspent: "base op = Some c \<Longrightarrow> \<not> coin_is_spent c"
begin

lemma clean_ok: "base op = Some c \<Longrightarrow> entry_inv storable (base op) (entry_clean c) \<and> entry_view (entry_clean c) = base op"
  by (simp add: entry_inv_def entry_clean_def entry_view_def base_unspent)

lemma fetch_coin_cases:
  obtains (hit) e where "cc_cache cc op = Some e" "fetch_coin base cc op = (entry_view e, cc)"
  | (miss) "cc_cache cc op = None" "base op = None" "fetch_coin base cc op = (None, cc)"
  | (load) c cc' where "cc_cache cc op = None" "base op = Some c" "fetch_coin base cc op = (Some c, cc')"
      "cc_cache cc' = (cc_cache cc)(op \<mapsto> entry_clean c)" "cc_best_block cc' = cc_best_block cc"
proof (cases "cc_cache cc op")
  case None
  show thesis
  proof (cases "base op")
    case None
    then show thesis using \<open>cc_cache cc op = None\<close> by (intro miss) (simp_all add: fetch_coin_def)
  next
    case (Some c)
    then show thesis using \<open>cc_cache cc op = None\<close> base_unspent [OF Some]
      by (intro load [of c "snd (fetch_coin base cc op)"]) (simp_all add: fetch_coin_def)
  qed
next
  case (Some e)
  then show thesis by (intro hit [of e]) (simp_all add: fetch_coin_def entry_view_def)
qed

lemma fetch_coin_correct:
  assumes "cache_inv storable base cc" "fetch_coin base cc op = (res, cc')"
  shows "res = cache_view base cc op \<and> cache_view base cc' = cache_view base cc \<and> cache_inv storable base cc' \<and>
    (cc_cache cc' op = None \<longrightarrow> base op = None)"
proof (cases rule: fetch_coin_cases [where cc = cc and op = op])
  case (load c cc1)
  then have c: "cc_cache cc' = (cc_cache cc)(op \<mapsto> entry_clean c)" "res = Some c" using assms(2) by simp_all
  have "map_view base (cc_cache cc) op = base op" using load(1) by (rule map_view_at)
  then have "(map_view base (cc_cache cc))(op := base op) = map_view base (cc_cache cc)" by (simp add: fun_eq_iff)
  then show ?thesis
    using assms(1) c clean_ok [OF load(2)] load(1,2) by (simp add: cache_view_def cache_inv_def map_facts map_view_at)
qed (use assms in \<open>auto simp: cache_view_def map_view_at\<close>)

lemma spend_entry:
  assumes "map_inv storable base m" "m op = Some e" "\<not> coin_is_spent (ce_coin e)"
  defines "m' \<equiv> if flag_is_fresh (ce_flags e) then m(op := None)
    else m(op \<mapsto> \<lparr>ce_coin = coin_clear coin_empty, ce_flags = FLAG_DIRTY\<rparr>)"
  shows "map_view base m' = (map_view base m)(op := None) \<and> map_inv storable base m'"
  using map_inv_at [OF assms(1,2)] assms(1,3)
  by (auto simp: m'_def map_facts entry_inv_def entry_view_def)

lemma spend_coin_correct:
  assumes "cache_inv storable base cc" "spend_coin base cc op = (res, cc')"
  shows "res = cache_view base cc op \<and> cache_view base cc' = (cache_view base cc)(op := None) \<and>
    cache_inv storable base cc'"
proof -
  obtain r c1 where f: "fetch_coin base cc op = (r, c1)" by fastforce
  note fc = fetch_coin_correct [OF assms(1) f]
  consider (none) "cc_cache c1 op = None" | (spent) e where "cc_cache c1 op = Some e" "coin_is_spent (ce_coin e)"
    | (unspent) e where "cc_cache c1 op = Some e" "\<not> coin_is_spent (ce_coin e)"
    by (cases "cc_cache c1 op") auto
  then show ?thesis
  proof cases
    case none
    then have "res = None" "cc' = c1" "cache_view base c1 op = None"
      using assms(2) f fc map_view_at(2) [of "cc_cache c1" op base] by (simp_all add: spend_coin_def cache_view_def)
    then show ?thesis using fc by (simp add: fun_upd_idem)
  next
    case (spent e)
    then have "res = None" "cc' = c1" "cache_view base c1 op = None"
      using assms(2) f by (simp_all add: spend_coin_def cache_view_def map_view_at entry_view_def)
    then show ?thesis using fc by (simp add: fun_upd_idem)
  next
    case (unspent e)
    then have "res = Some (ce_coin e)" "cache_view base c1 op = Some (ce_coin e)"
      using assms(2) f by (auto simp: spend_coin_def Let_def cache_view_def map_view_at entry_view_def)
    moreover have "cc_cache cc' = (if flag_is_fresh (ce_flags e) then (cc_cache c1)(op := None)
        else (cc_cache c1)(op \<mapsto> \<lparr>ce_coin = coin_clear coin_empty, ce_flags = FLAG_DIRTY\<rparr>))"
      using assms(2) f unspent by (auto simp: spend_coin_def Let_def)
    ultimately show ?thesis
      using spend_entry [of "cc_cache c1", OF _ unspent] fc by (simp add: cache_view_def cache_inv_def)
  qed
qed

lemma dirty_ok: "storable c \<Longrightarrow> \<not> coin_is_spent c \<Longrightarrow> entry_inv storable b \<lparr>ce_coin = c, ce_flags = FLAG_DIRTY\<rparr> \<and>
   entry_view \<lparr>ce_coin = c, ce_flags = f\<rparr> = Some c"
  by (simp add: entry_inv_def entry_view_def)

text \<open>The caller promises that the new coin replaces none unless it says so, and that the coin
  that may be replaced is in the cache already.\<close>

lemma add_coin_correct:
  assumes "cache_inv storable base cc" "storable coin" "\<not> coin_is_spent coin"
    "\<not> possible_overwrite \<Longrightarrow> cache_view base cc op = None"
    "possible_overwrite \<Longrightarrow> cc_cache cc op = None \<Longrightarrow> base op = None"
  shows "\<exists>cc'. add_coin cc op coin possible_overwrite = Some cc' \<and> cache_inv storable base cc' \<and>
    cache_view base cc' =
      (if is_unspendable (out_script_pubkey (coin_tx_out coin)) then cache_view base cc
       else (cache_view base cc)(op \<mapsto> coin))"
proof (cases "is_unspendable (out_script_pubkey (coin_tx_out coin))")
  case True
  then show ?thesis using assms by (simp add: add_coin_def)
next
  case False
  show ?thesis
  proof (cases "cc_cache cc op")
    case None
    then have "base op = None"
      using assms(4,5) by (cases possible_overwrite) (simp_all add: cache_view_def map_view_at)
    then have "entry_inv storable (base op) \<lparr>ce_coin = coin, ce_flags = FLAG_DIRTY_FRESH\<rparr>"
      using assms(2,3) by (simp add: entry_inv_def)
    then show ?thesis
      using False None assms(1-3) by (simp add: add_coin_def Let_def cache_view_def cache_inv_def map_facts dirty_ok)
  next
    case (Some e)
    have s: "\<not> possible_overwrite \<Longrightarrow> coin_is_spent (ce_coin e)"
      using assms(4) Some by (simp add: cache_view_def map_view_at entry_view_def split: if_splits)
    then have nf: "possible_overwrite \<or> flag_is_dirty (ce_flags e)"
      using map_inv_at [of storable base "cc_cache cc" op e] assms(1) Some by (auto simp: entry_inv_def cache_inv_def)
    have "\<not> (\<not> possible_overwrite \<and> \<not> coin_is_spent (ce_coin e))" "\<not> (\<not> possible_overwrite \<and> \<not> flag_is_dirty (ce_flags e))"
      using s nf by auto
    then show ?thesis
      using False Some assms(1-3)
      by (auto simp: add_coin_def Let_def cache_view_def cache_inv_def map_facts dirty_ok)
  qed
qed

lemma uncache_correct:
  assumes "cache_inv storable base cc"
  shows "cache_view base (uncache cc op) = cache_view base cc \<and> cache_inv storable base (uncache cc op)"
proof (cases "cc_cache cc op")
  case (Some e)
  have e: "entry_inv storable (base op) e" using assms Some map_inv_at by (auto simp: cache_inv_def)
  have "\<not> flag_is_dirty (ce_flags e) \<Longrightarrow> (map_view base (cc_cache cc))(op := base op) = map_view base (cc_cache cc)"
    using e Some by (intro fun_upd_idem) (simp add: map_view_at entry_inv_def entry_view_def)
  then show ?thesis using assms Some by (simp add: uncache_def cache_view_def cache_inv_def map_facts)
qed (use assms in \<open>simp add: uncache_def\<close>)

lemma prefetch_loop_correct:
  "map_inv storable base m \<Longrightarrow> \<forall>(op, r)\<in>set rs. r = base op \<Longrightarrow>
   map_inv storable base (fst (prefetch_loop rs m u)) \<and> map_view base (fst (prefetch_loop rs m u)) = map_view base m"
proof (induction rs m u rule: prefetch_loop.induct)
  case (2 op r rs m u)
  show ?case
  proof (cases "m op = None \<and> r \<noteq> None")
    case True
    then obtain c where c: "m op = None" "r = Some c" "base op = Some c" using "2.prems"(2) by auto
    have "map_view base (m(op \<mapsto> entry_clean c)) = map_view base m"
      using c clean_ok [OF c(3)] by (simp add: map_view_upd fun_upd_idem map_view_at)
    moreover have "map_inv storable base (m(op \<mapsto> entry_clean c))"
      using "2.prems"(1) clean_ok [OF c(3)] by (simp add: map_inv_upd)
    ultimately show ?thesis
      using "2.IH"(3) [OF _ c(2)] "2.prems"(2) c base_unspent [OF c(3)] by (simp del: fun_upd_apply)
  next
    case False
    then show ?thesis using 2 by (cases "m op"; cases r) auto
  qed
qed simp

lemma prefetch_coins_correct:
  assumes "cache_inv storable base cc"
  shows "cache_view base (prefetch_coins base cc ops) = cache_view base cc \<and>
    cache_inv storable base (prefetch_coins base cc ops)"
proof -
  let ?m = "filter (\<lambda>op. cc_cache cc op = None) ops"
  have "\<forall>(op, r)\<in>set (zip ?m (map base ?m)). r = base op" by (auto simp: in_set_zip)
  then show ?thesis
    using prefetch_loop_correct [of "cc_cache cc" "zip ?m (map base ?m)" 0] assms
    by (simp add: prefetch_coins_def Let_def cache_view_def cache_inv_def split_beta)
qed

lemma have_all_correct:
  "cache_inv storable base cc \<Longrightarrow> have_all base cc inputs = (res, cc') \<Longrightarrow>
   (res \<longleftrightarrow> (\<forall>i\<in>set inputs. cache_view base cc (in_prevout i) \<noteq> None)) \<and>
   cache_view base cc' = cache_view base cc \<and> cache_inv storable base cc'"
proof (induction inputs arbitrary: cc)
  case (Cons i inputs)
  obtain r c1 where f: "fetch_coin base cc (in_prevout i) = (r, c1)" by fastforce
  note fc = fetch_coin_correct [OF Cons.prems(1) f]
  show ?case using Cons.IH [of c1] Cons.prems(2) fc f by (cases r) (auto split: if_splits)
qed simp

end


section \<open>Flushing\<close>

text \<open>
  The contract of \<open>FlushableCoinsView\<close>: a batch of writes with distinct keys succeeds and
  replaces exactly the coins it names.
\<close>

locale flushable_view =
  fixes get :: "'db \<Rightarrow> coins_view"
    and batch_write :: "'db batch_writer"
    and storable :: "coin \<Rightarrow> bool"
    and db_ok :: "'db \<Rightarrow> bool"
  assumes get_unspent: "get db op = Some c \<Longrightarrow> \<not> coin_is_spent c"
    and write_ok: "db_ok db \<Longrightarrow> distinct (map fst es) \<Longrightarrow> \<forall>(op, c)\<in>set es. \<forall>x. c = Some x \<longrightarrow> storable x \<Longrightarrow>
      \<exists>db'. batch_write db es bb = Some (True, db') \<and> db_ok db' \<and>
        get db' = (\<lambda>op. case map_of es op of Some c \<Rightarrow> c | None \<Rightarrow> get db op)"

sublocale flushable_view < view: coins_base "get db" storable for db
  by unfold_locales (rule get_unspent)

lemma map_filter_keys:
  assumes "\<And>x y. f x = Some y \<Longrightarrow> fst y = x"
  shows "distinct xs \<Longrightarrow> distinct (map fst (List.map_filter f xs))"
    "fst ` set (List.map_filter f xs) \<subseteq> set xs"
    "distinct xs \<Longrightarrow> map_of (List.map_filter f xs) x = (if x \<in> set xs then map_option snd (f x) else None)"
proof -
  show sub: "fst ` set (List.map_filter f xs) \<subseteq> set xs" for xs
  proof (induction xs)
    case (Cons a xs)
    then show ?case using assms [of a] by (cases "f a") (auto simp: map_filter_simps)
  qed (simp add: map_filter_simps)
  show "distinct xs \<Longrightarrow> distinct (map fst (List.map_filter f xs))"
  proof (induction xs)
    case (Cons a xs)
    then show ?case using assms [of a] sub [of xs] by (cases "f a") (auto simp: map_filter_simps)
  qed (simp add: map_filter_simps)
  show "distinct xs \<Longrightarrow> map_of (List.map_filter f xs) x = (if x \<in> set xs then map_option snd (f x) else None)"
  proof (induction xs)
    case (Cons a xs)
    have "map_of (List.map_filter f xs) a = None" using Cons.prems sub [of xs] by (auto simp: map_of_eq_None_iff)
    then show ?case using Cons assms [of a] by (cases "f a") (auto simp: map_filter_simps split: prod.splits)
  qed (simp add: map_filter_simps)
qed

lemma flush_write_fst: "flush_write cc op = Some y \<Longrightarrow> fst y = op"
  by (auto simp: flush_write_def split: option.splits if_splits)

lemma flush_writes_keys:
  assumes "distinct order"
  shows "distinct (map fst (List.map_filter (flush_write cc) order))"
    "map_of (List.map_filter (flush_write cc) order) op =
      (if op \<in> set order then map_option snd (flush_write cc op) else None)"
  using map_filter_keys(1) [of "flush_write cc" order] map_filter_keys(3) [of "flush_write cc" order op]
    flush_write_fst [of cc] assms by auto

lemma flush_write_view:
  assumes "cache_inv storable base cc"
  shows "(case flush_write cc op of Some y \<Rightarrow> snd y | None \<Rightarrow> base op) = cache_view base cc op"
proof (cases "cc_cache cc op")
  case (Some e)
  then have "entry_inv storable (base op) e" using assms map_inv_at by (auto simp: cache_inv_def)
  then show ?thesis
    using Some by (auto simp: flush_write_def cache_view_def map_view_at entry_view_def entry_inv_def)
qed (simp add: flush_write_def cache_view_def map_view_at)

lemma flush_write_storable:
  assumes "cache_inv storable base cc" "(op, Some x) \<in> set (List.map_filter (flush_write cc) order)"
  shows "storable x"
proof -
  obtain op' where "flush_write cc op' = Some (op, Some x)" using assms(2) by (auto simp: List.map_filter_def)
  then obtain e where e: "cc_cache cc op' = Some e" "flag_is_dirty (ce_flags e)" "\<not> coin_is_spent (ce_coin e)" "x = ce_coin e"
    by (auto simp: flush_write_def split: option.splits if_splits)
  then show ?thesis using assms(1) map_inv_at [of storable base "cc_cache cc" op' e] by (simp add: cache_inv_def entry_inv_def)
qed

lemma retain_loop_kept:
  "fst (retain_loop cache order kept u) op = Some e \<Longrightarrow>
   kept op = Some e \<or> (\<exists>e0. cache op = Some e0 \<and> \<not> coin_is_spent (ce_coin e0) \<and> e = e0\<lparr>ce_flags := FLAG_NONE\<rparr>)"
proof (induction order arbitrary: kept u)
  case (Cons x order)
  show ?case
  proof (cases "cache x")
    case None
    then show ?thesis using Cons by simp
  next
    case (Some e0)
    show ?thesis
    proof (cases "coin_is_spent (ce_coin e0) \<or>
        MAX_RETAINED_BYTES < u + of_nat (coin_dynamic_memory_usage (ce_coin e0))")
      case True
      then have "fst (retain_loop cache order kept u) op = Some e"
        using Cons.prems Some by (cases "coin_is_spent (ce_coin e0)") (simp_all add: Let_def)
      from Cons.IH [OF this] show ?thesis .
    next
      case False
      then have "fst (retain_loop cache order (kept(x \<mapsto> e0\<lparr>ce_flags := FLAG_NONE\<rparr>))
          (u + of_nat (coin_dynamic_memory_usage (ce_coin e0)))) op = Some e"
        using Cons.prems Some by (simp add: Let_def)
      from Cons.IH [OF this] show ?thesis using Some False by (cases "op = x") auto
    qed
  qed
qed simp

lemma retained_ok:
  assumes "base' = cache_view base cc" "base_ok = (\<forall>op c. base' op = Some c \<longrightarrow> \<not> coin_is_spent c)"
    "m = fst (retain_loop (cc_cache cc) order Map.empty 0)"
  shows "map_inv storable base' m \<and> map_view base' m = base'"
proof -
  have e: "\<not> coin_is_spent (ce_coin e) \<and> base' op = Some (ce_coin e) \<and> ce_flags e = FLAG_NONE" if "m op = Some e" for op e
    using retain_loop_kept [of "cc_cache cc" order Map.empty 0 op e] that assms(1,3)
    by (auto simp: cache_view_def map_view_def entry_view_def)
  then have "map_inv storable base' m" by (auto simp: map_inv_def entry_inv_def)
  moreover have "map_view base' m op = base' op" for op
    using e [of op] by (auto simp: map_view_def entry_view_def split: option.splits)
  ultimately show ?thesis by auto
qed

context flushable_view
begin

lemma flush_to_correct:
  assumes "db_ok db" "cache_inv storable (get db) cc" "distinct order" "set order = dom (cc_cache cc)"
  shows "\<exists>db' cc'. flush_to batch_write db cc order = Some (True, db', cc') \<and> db_ok db' \<and>
    get db' = cache_view (get db) cc \<and> cache_view (get db') cc' = cache_view (get db) cc \<and>
    cache_inv storable (get db') cc'"
proof -
  let ?w = "List.map_filter (flush_write cc) order"
  have "\<forall>(op, c)\<in>set ?w. \<forall>x. c = Some x \<longrightarrow> storable x"
    using flush_write_storable [OF assms(2)] by blast
  from write_ok [OF assms(1) flush_writes_keys(1) [OF assms(3)] this, of "cc_best_block cc"]
  obtain db' where db': "batch_write db ?w (cc_best_block cc) = Some (True, db')" "db_ok db'"
    "get db' = (\<lambda>op. case map_of ?w op of Some c \<Rightarrow> c | None \<Rightarrow> get db op)"
    by (elim exE conjE)
  have "map_of ?w op = map_option snd (flush_write cc op)" for op
  proof (cases "op \<in> set order")
    case False
    then have "cc_cache cc op = None" using assms(4) by auto
    then show ?thesis using False flush_writes_keys(2) [OF assms(3), of cc op] by (simp add: flush_write_def)
  qed (use flush_writes_keys(2) [OF assms(3), of cc op] in simp)
  then have "get db' op = (case flush_write cc op of Some y \<Rightarrow> snd y | None \<Rightarrow> get db op)" for op
    unfolding db'(3) by (cases "flush_write cc op") simp_all
  then have g: "get db' = cache_view (get db) cc"
    using flush_write_view [OF assms(2)] by (intro ext) simp
  let ?r = "retain_loop (cc_cache cc) order Map.empty 0"
  have "map_inv storable (get db') (fst ?r) \<and> map_view (get db') (fst ?r) = get db'"
    using retained_ok [OF g refl refl] by blast
  moreover have "flush_to batch_write db cc order = Some (True, db', cc\<lparr>cc_cache := fst ?r, cc_usage := snd ?r\<rparr>)"
    using db'(1) by (simp add: flush_to_def split_beta Let_def)
  ultimately show ?thesis
    using db'(2) g by (simp add: cache_view_def cache_inv_def)
qed

end

section \<open>The database is a flushable view\<close>

lemma coin_db_key_inj: "coin_db_key a = coin_db_key b \<longleftrightarrow> a = b"
proof
  assume "coin_db_key a = coin_db_key b"
  then have "prev_txid a @ to_le_bytes (prev_index a) = prev_txid b @ to_le_bytes (prev_index b)"
    by (simp add: coin_db_key_def encode_outpoint_def encode_hash_def encode_u32_def)
  then have "prev_txid a = prev_txid b" "to_le_bytes (prev_index a) = to_le_bytes (prev_index b)"
    by (simp_all add: append_eq_append_conv)
  moreover have "prev_index a = prev_index b"
    using arg_cong [OF calculation(2), of "from_le_bytes :: bytes \<Rightarrow> u32"] by (simp add: from_to_le_bytes)
  ultimately show "a = b" by simp
qed simp

definition entry_op :: "db_wrapper \<Rightarrow> outpoint \<times> coin option \<Rightarrow> batch_op" where
  "entry_op w e = (case snd e of
      Some c \<Rightarrow> Put (coin_db_key (fst e)) (xor_bytes (dw_obfuscation_key w) (fst (the (encode_coin c))))
    | None \<Rightarrow> Delete (coin_db_key (fst e)))"

lemma batch_entries_ok:
  "\<forall>(op, c)\<in>set es. \<forall>x. c = Some x \<longrightarrow> coin_ok D x \<Longrightarrow> batch_entries w es batch = Some (batch @ map (entry_op w) es)"
proof (induction w es batch rule: batch_entries.induct)
  case (2 w op c es batch)
  then show ?case
  proof (cases c)
    case (Some x)
    then obtain e where "encode_coin x = Some e" using "2.prems" decode_encode_coin [of D x "[]"] by auto
    then show ?thesis using 2 Some by (simp add: batch_put_def entry_op_def)
  qed (simp add: batch_delete_def entry_op_def)
qed simp

lemma entries_lookup:
  "distinct (map fst es) \<Longrightarrow> fold op_update (map (entry_op w) es) m (coin_db_key op) =
   (case map_of es op of
      None \<Rightarrow> m (coin_db_key op)
    | Some c \<Rightarrow> map_option (\<lambda>x. xor_bytes (dw_obfuscation_key w) (fst (the (encode_coin x)))) c)"
proof (induction es arbitrary: m)
  case (Cons e es)
  obtain op' c where e: "e = (op', c)" by (cases e)
  have "map_of es op' = None" using Cons.prems e by (simp add: map_of_eq_None_iff)
  then show ?case
    using Cons e by (cases c) (auto simp: entry_op_def coin_db_key_inj split: option.splits)
qed simp

lemma batch_write_impl_ok:
  assumes "distinct (map fst es)" "\<forall>(op, c)\<in>set es. \<forall>x. c = Some x \<longrightarrow> coin_ok D x"
  shows "\<exists>w'. batch_write_impl w es bb = Some (True, w') \<and> (db_sorted (dw_db w) \<longrightarrow> db_sorted (dw_db w')) \<and>
    db_get_coin D w' = (\<lambda>op. case map_of es op of Some c \<Rightarrow> c | None \<Rightarrow> db_get_coin D w op)"
proof -
  let ?batch = "map (entry_op w) es @ [Put best_block_db_key (dw_serialize_value encode_hash w bb)]"
  let ?w' = "dw_write_batch w ?batch"
  have w: "batch_write_impl w es bb = Some (True, ?w')"
    using batch_entries_ok [OF assms(2), of w "[]"] by (simp add: batch_write_impl_def batch_put_def)
  have k: "best_block_db_key \<noteq> coin_db_key op" for op
    by (simp add: best_block_db_key_def coin_db_key_def DB_BEST_BLOCK_def DB_COIN_def)
  have r: "mem_read (dw_db ?w') (coin_db_key op) = (case map_of es op of None \<Rightarrow> mem_read (dw_db w) (coin_db_key op)
      | Some c \<Rightarrow> map_option (\<lambda>x. xor_bytes (dw_obfuscation_key w) (fst (the (encode_coin x)))) c)" for op
    using entries_lookup [OF assms(1), of w "map_of (dw_db w)" op] k [of op]
    by (cases "map_of es op") (simp_all add: mem_read_def dw_write_batch_def mem_write_batch_map)
  have o: "dw_obfuscation_key ?w' = dw_obfuscation_key w" by (simp add: dw_write_batch_def)
  have "db_get_coin D ?w' op = (case map_of es op of Some c \<Rightarrow> c | None \<Rightarrow> db_get_coin D w op)" for op
  proof (cases "map_of es op")
    case None
    then have "dw_read (decode_coin D) ?w' (coin_db_key op) = dw_read (decode_coin D) w (coin_db_key op)"
      unfolding dw_read_def r o by simp
    then show ?thesis using None by (simp add: db_get_coin_def)
  next
    case (Some c)
    show ?thesis
    proof (cases c)
      case (Some x)
      then have x: "coin_ok D x" using \<open>map_of es op = Some c\<close> assms(2) map_of_SomeD by fastforce
      then obtain e where "encode_coin x = Some e" "decode_coin D (fst e) = Inr (x, [])"
        using decode_encode_coin [of D x "[]"] by auto
      then show ?thesis
        using Some \<open>map_of es op = Some c\<close> x money_range_unspent [of x]
        by (simp add: db_get_coin_def dw_read_def r o xor_bytes_self coin_ok_def)
    qed (use Some in \<open>simp add: db_get_coin_def dw_read_def r\<close>)
  qed
  then show ?thesis using w mem_write_batch_sorted [of "dw_db w"] by (auto simp: dw_write_batch_def)
qed

interpretation coins_db: flushable_view "db_get_coin D" batch_write_impl "coin_ok D" "\<lambda>w. db_sorted (dw_db w)" for D
proof
  show "db_get_coin D db op = Some c \<Longrightarrow> \<not> coin_is_spent c" for db op c
    by (auto simp: db_get_coin_def split: sum.splits option.splits if_splits)
qed (use batch_write_impl_ok in blast)


section \<open>Runs\<close>

text \<open>The operations on a cache over the database, with what they return.\<close>

datatype coins_op =
    CFetch outpoint "coin option"
  | CAdd outpoint coin
  | CSpend outpoint "coin option"
  | CUncache outpoint
  | CPrefetch "outpoint list"
  | CBestBlock hash_bytes
  | CFlush
  | CDrop

text \<open>What a caller of \<open>add_coin\<close> has to ensure. The coin can be stored: its amount is in the range of money, its height and the size
  of its script are in bounds, and its script, when it pays to an uncompressed key, is restored from the compressed key. A coin
  that may be overwritten is known to the cache or not in the database; one that may not be overwritten is in neither.\<close>

definition add_allowed :: "decompress_key \<Rightarrow> db_wrapper \<Rightarrow> coins_cache \<Rightarrow> outpoint \<Rightarrow> coin \<Rightarrow> bool \<Rightarrow> bool" where
  "add_allowed D w cc op coin possible_overwrite \<longleftrightarrow> coin_ok D coin \<and>
     (if possible_overwrite then cc_cache cc op = None \<longrightarrow> db_get_coin D w op = None
      else cache_view (db_get_coin D w) cc op = None)"

inductive coins_step :: "decompress_key \<Rightarrow> db_wrapper \<times> coins_cache \<Rightarrow> coins_op \<Rightarrow> db_wrapper \<times> coins_cache \<Rightarrow> bool"
  for D where
  fetch: "fetch_coin (db_get_coin D w) cc op = (res, cc') \<Longrightarrow> coins_step D (w, cc) (CFetch op res) (w, cc')"
| add: "add_allowed D w cc op coin possible_overwrite \<Longrightarrow> add_coin cc op coin possible_overwrite = Some cc' \<Longrightarrow>
    coins_step D (w, cc) (CAdd op coin) (w, cc')"
| spend: "spend_coin (db_get_coin D w) cc op = (res, cc') \<Longrightarrow> coins_step D (w, cc) (CSpend op res) (w, cc')"
| uncache: "coins_step D (w, cc) (CUncache op) (w, uncache cc op)"
| prefetch: "coins_step D (w, cc) (CPrefetch ops) (w, prefetch_coins (db_get_coin D w) cc ops)"
| best_block: "coins_step D (w, cc) (CBestBlock hash) (w, set_best_block cc hash)"
| drop: "coins_step D (w, cc) CDrop (w, cache_flush cc)"
| flush: "distinct order \<Longrightarrow> set order = dom (cc_cache cc) \<Longrightarrow>
    flush_to batch_write_impl w cc order = Some (b, w', cc') \<Longrightarrow> coins_step D (w, cc) CFlush (w', cc')"

inductive coins_run :: "decompress_key \<Rightarrow> db_wrapper \<times> coins_cache \<Rightarrow> coins_op list \<Rightarrow> db_wrapper \<times> coins_cache \<Rightarrow> bool"
  for D where
  run_nil: "coins_run D s [] s"
| run_step: "coins_step D s a s' \<Longrightarrow> coins_run D s' as s'' \<Longrightarrow> coins_run D s (a # as) s''"

text \<open>The specification: two maps from outpoints to coins, the stored one and the current one. Storing makes the current map the
  stored one, and \<open>CoinsViewCache::flush\<close>, which writes nothing and empties the cache, goes back to the stored map. An operation
  that returned something else than the current map says has no successor.\<close>

fun utxo_step :: "coins_op \<Rightarrow> coins_view \<times> coins_view \<Rightarrow> (coins_view \<times> coins_view) option" where
  "utxo_step (CFetch op res) (S, U) = (if res = U op then Some (S, U) else None)"
| "utxo_step (CAdd op coin) (S, U) = Some (S, if is_unspendable (out_script_pubkey (coin_tx_out coin)) then U else U(op \<mapsto> coin))"
| "utxo_step (CSpend op res) (S, U) = (if res = U op then Some (S, U(op := None)) else None)"
| "utxo_step (CUncache op) (S, U) = Some (S, U)"
| "utxo_step (CPrefetch ops) (S, U) = Some (S, U)"
| "utxo_step (CBestBlock hash) (S, U) = Some (S, U)"
| "utxo_step CFlush (S, U) = Some (U, U)"
| "utxo_step CDrop (S, U) = Some (S, S)"

fun utxo_run :: "coins_op list \<Rightarrow> coins_view \<times> coins_view \<Rightarrow> (coins_view \<times> coins_view) option" where
  "utxo_run [] s = Some s"
| "utxo_run (a # as) s = Option.bind (utxo_step a s) (utxo_run as)"

definition state_inv :: "decompress_key \<Rightarrow> db_wrapper \<times> coins_cache \<Rightarrow> bool" where
  "state_inv D s \<longleftrightarrow> db_sorted (dw_db (fst s)) \<and> cache_inv (coin_ok D) (db_get_coin D (fst s)) (snd s)"

definition state_view :: "decompress_key \<Rightarrow> db_wrapper \<times> coins_cache \<Rightarrow> coins_view \<times> coins_view" where
  "state_view D s = (db_get_coin D (fst s), cache_view (db_get_coin D (fst s)) (snd s))"

lemma coins_step_refines:
  assumes "coins_step D s a s'" "state_inv D s"
  shows "state_inv D s' \<and> utxo_step a (state_view D s) = Some (state_view D s')"
  using assms
proof cases
  case (fetch w cc op res cc')
  then show ?thesis
    using assms(2) coins_db.view.fetch_coin_correct [OF _ fetch(4)] by (simp add: state_inv_def state_view_def)
next
  case (add w cc op coin ov cc')
  have "coin_ok D coin" "\<not> coin_is_spent coin" "\<not> ov \<Longrightarrow> cache_view (db_get_coin D w) cc op = None"
    "ov \<Longrightarrow> cc_cache cc op = None \<Longrightarrow> db_get_coin D w op = None"
    using add(4) money_range_unspent by (auto simp: add_allowed_def coin_ok_def split: if_splits)
  then show ?thesis
    using add assms(2) coins_db.view.add_coin_correct [of D w cc coin ov op] by (simp add: state_inv_def state_view_def)
next
  case (spend w cc op res cc')
  then show ?thesis
    using assms(2) coins_db.view.spend_coin_correct [OF _ spend(4)] by (simp add: state_inv_def state_view_def)
next
  case (uncache w cc op)
  then show ?thesis using assms(2) coins_db.view.uncache_correct by (simp add: state_inv_def state_view_def)
next
  case (prefetch w cc ops)
  then show ?thesis using assms(2) coins_db.view.prefetch_coins_correct by (simp add: state_inv_def state_view_def)
next
  case (best_block w cc hash)
  then show ?thesis using assms(2) by (simp add: state_inv_def state_view_def set_best_block_def cache_inv_def cache_view_def)
next
  case (drop w cc)
  then show ?thesis
    using assms(2) by (simp add: state_inv_def state_view_def cache_flush_def cache_inv_def cache_view_def map_inv_def map_view_def fun_eq_iff)
next
  case (flush order cc w b w' cc')
  then show ?thesis
    using assms(2) coins_db.flush_to_correct [of w D cc order] by (auto simp: state_inv_def state_view_def)
qed

lemma coins_run_refines:
  "coins_run D s as s' \<Longrightarrow> state_inv D s \<Longrightarrow> state_inv D s' \<and> utxo_run as (state_view D s) = Some (state_view D s')"
proof (induction rule: coins_run.induct)
  case (run_step s a s' as s'')
  then show ?case using coins_step_refines by auto
qed simp

section \<open>Main results\<close>

text \<open>C22: The cache is a map over a stored map. Take a new cache over a database and any run of lookups, prefetches, additions,
  spendings, evictions, changes of the best block, flushes to the database and \<open>CoinsViewCache::flush\<close>, in which every addition is
  allowed: the coin can be stored, and it does not replace a coin that is in the database only. Every operation returns what the
  current one of two plain maps from outpoints to coins would return, and the database and the cache over it end up as the stored
  and the current map that the operations lead to, where a flush to the database stores the current map and
  \<open>CoinsViewCache::flush\<close> goes back to the stored one. So the dirty and fresh flags, the warm cache after a flush, the compression of
  coins and the obfuscation of the database do not show. The additions that are left out really break it: a coin that replaces one
  of the database only can be undone by spending it, see \<open>overwritten_coin_returns\<close>, and an uncompressed key off the curve is
  stored as another script.\<close>

theorem coins_cache_refines:
  assumes "coins_run D (w, cache_new b) ops (w', cc')" "db_sorted (dw_db w)"
  shows "utxo_run ops (db_get_coin D w, db_get_coin D w) = Some (db_get_coin D w', cache_view (db_get_coin D w') cc')"
proof -
  have "state_inv D (w, cache_new b)" "state_view D (w, cache_new b) = (db_get_coin D w, db_get_coin D w)"
    using assms(2) cache_view_new by (simp_all add: state_inv_def state_view_def)
  then show ?thesis using coins_run_refines [OF assms(1)] by (simp add: state_view_def)
qed


definition example_op :: outpoint where
  "example_op = \<lparr>prev_txid = replicate 32 1, prev_index = 0\<rparr>"

definition example_db :: db_wrapper where
  "example_db = dw_new_unobfuscated mem_new"

lemma example_db_facts: "db_sorted (dw_db example_db)" "db_get_coin D example_db op = None"
  by (simp_all add: example_db_def dw_new_unobfuscated_def mem_new_def db_sorted_def db_get_coin_def dw_read_def
      mem_read_def)

lemma example_coin_spendable: "\<not> coin_is_spent example_coin" "\<not> is_unspendable (out_script_pubkey (coin_tx_out example_coin))"
  using money_range_unspent [of example_coin] example_coin_ok [of "\<lambda>_. None"]
  by (simp_all add: coin_ok_def) (simp add: is_unspendable_def example_coin_def coin_new_def MAX_SCRIPT_SIZE_def)

definition example_cache :: coins_cache where
  "example_cache = the (add_coin (cache_new ZERO_HASH) example_op example_coin False)"

lemma example_cache_facts:
  "add_coin (cache_new ZERO_HASH) example_op example_coin False = Some example_cache"
  "cc_cache example_cache = [example_op \<mapsto> \<lparr>ce_coin = example_coin, ce_flags = FLAG_DIRTY_FRESH\<rparr>]"
  "cc_best_block example_cache = ZERO_HASH"
  using example_coin_spendable by (simp_all add: example_cache_def add_coin_def cache_new_def Let_def)

lemma example_add: "coins_step D (example_db, cache_new ZERO_HASH) (CAdd example_op example_coin) (example_db, example_cache)"
  by (rule coins_step.add [of _ _ _ _ _ False])
    (simp_all add: example_cache_facts add_allowed_def example_coin_ok cache_view_new example_db_facts)

theorem coins_cache_refines_witness:
  "\<exists>s. coins_run (\<lambda>_. None) (example_db, cache_new ZERO_HASH) [CAdd example_op example_coin, CSpend example_op (Some example_coin)] s \<and>
     utxo_run [CAdd example_op example_coin, CSpend example_op (Some example_coin)] (Map.empty, Map.empty) =
       Some (db_get_coin (\<lambda>_. None) (fst s), cache_view (db_get_coin (\<lambda>_. None) (fst s)) (snd s))"
proof -
  let ?D = "\<lambda>_. None" and ?ops = "[CAdd example_op example_coin, CSpend example_op (Some example_coin)]"
  obtain cc' where "spend_coin (db_get_coin ?D example_db) example_cache example_op = (Some example_coin, cc')"
    by (simp add: spend_coin_def fetch_coin_def example_cache_facts example_coin_spendable Let_def)
  then have run: "coins_run ?D (example_db, cache_new ZERO_HASH) ?ops (example_db, cc')"
    by (meson coins_run.intros example_add coins_step.spend)
  moreover have "db_get_coin ?D example_db = Map.empty" by (simp add: fun_eq_iff example_db_facts)
  ultimately show ?thesis
    using coins_cache_refines [OF run example_db_facts(1)] by (metis fst_conv snd_conv)
qed

lemma batch_write_best:
  assumes "length bb = 32" "batch_write_impl w es bb = Some (b, w')"
  shows "db_get_best_block w' = bb"
proof -
  obtain batch where w': "w' = dw_write_batch w (batch @ [Put best_block_db_key (dw_serialize_value encode_hash w bb)])"
    using assms(2) by (auto simp: batch_write_impl_def batch_put_def split: option.splits)
  then have r: "mem_read (dw_db w') best_block_db_key = Some (dw_serialize_value encode_hash w bb)"
    "dw_obfuscation_key w' = dw_obfuscation_key w"
    by (simp_all add: mem_read_def dw_write_batch_def mem_write_batch_map)
  moreover have "decode_hash (fst (encode_hash bb)) = Inr (bb, [])"
    using hash.dec_enc [OF assms(1), of "[]"] by simp
  ultimately show ?thesis
    by (simp add: db_get_best_block_def dw_read_def dw_serialize_value_def xor_bytes_self)
qed

text \<open>C29: A flush is durable and loses nothing. After a run of operations in which every addition is allowed (the coin can be
  stored, which an uncompressed key off the curve cannot, and it does not replace a coin that is in the database only), when the
  best block of the cache has 32 bytes, and in whatever order the cache is traversed, flushing succeeds; the
  database alone then holds the unspent outputs that cache and database stood for before, together with the best block
  of the cache, and the warm cache over it stands for the same outputs.\<close>

theorem flush_durable:
  assumes "coins_run D (w0, cache_new b) ops (w, cc)" "db_sorted (dw_db w0)"
    "distinct order" "set order = dom (cc_cache cc)" "length (cc_best_block cc) = 32"
  shows "\<exists>w' cc'. flush_to batch_write_impl w cc order = Some (True, w', cc') \<and>
    db_get_coin D w' = cache_view (db_get_coin D w) cc \<and> db_get_best_block w' = cc_best_block cc \<and>
    cache_view (db_get_coin D w') cc' = cache_view (db_get_coin D w) cc"
proof -
  have "state_inv D (w0, cache_new b)" using assms(2) cache_view_new by (simp add: state_inv_def)
  then have inv: "db_sorted (dw_db w)" "cache_inv (coin_ok D) (db_get_coin D w) cc"
    using coins_run_refines [OF assms(1)] by (simp_all add: state_inv_def)
  then obtain w' cc' where f: "flush_to batch_write_impl w cc order = Some (True, w', cc')"
    "db_get_coin D w' = cache_view (db_get_coin D w) cc" "cache_view (db_get_coin D w') cc' = cache_view (db_get_coin D w) cc"
    using coins_db.flush_to_correct [OF inv assms(3,4)] by blast
  then obtain x where "batch_write_impl w (List.map_filter (flush_write cc) order) (cc_best_block cc) = Some (x, w')"
    by (auto simp: flush_to_def Let_def split: option.splits bool.splits prod.splits)
  then show ?thesis using f batch_write_best [OF assms(5)] by blast
qed

theorem flush_durable_witness:
  "\<exists>w' cc'. flush_to batch_write_impl example_db example_cache [example_op] = Some (True, w', cc') \<and>
     db_get_coin (\<lambda>_. None) w' example_op = Some example_coin"
proof -
  have run: "coins_run (\<lambda>_. None) (example_db, cache_new ZERO_HASH) [CAdd example_op example_coin] (example_db, example_cache)"
    by (meson coins_run.intros example_add)
  show ?thesis
    using flush_durable [OF run example_db_facts(1), of "[example_op]"] example_coin_spendable
    by (auto simp: example_cache_facts ZERO_HASH_def cache_view_def map_view_def entry_view_def)
qed

section \<open>What the flags do not cover\<close>

text \<open>A coin that exists only in the base and is overwritten with permission comes back when the new coin is spent: the entry is
  marked fresh although the base has a coin, so spending it drops the entry, and the next lookup finds the old coin.\<close>

theorem overwritten_coin_returns:
  assumes "cc_cache cc op = None" "base op = Some old" "\<not> coin_is_spent old" "\<not> coin_is_spent new"
    "\<not> is_unspendable (out_script_pubkey (coin_tx_out new))"
  shows "\<exists>cc1 cc2 cc3. add_coin cc op new True = Some cc1 \<and> spend_coin base cc1 op = (Some new, cc2) \<and>
    fetch_coin base cc2 op = (Some old, cc3)"
  using assms by (simp add: add_coin_def spend_coin_def fetch_coin_def Let_def)

theorem overwritten_coin_returns_witness:
  "\<exists>cc1 cc2 cc3. add_coin (cache_new ZERO_HASH) example_op (example_coin\<lparr>coin_height := 7\<rparr>) True = Some cc1 \<and>
     spend_coin [example_op \<mapsto> example_coin] cc1 example_op = (Some (example_coin\<lparr>coin_height := 7\<rparr>), cc2) \<and>
     fetch_coin [example_op \<mapsto> example_coin] cc2 example_op = (Some example_coin, cc3)"
proof -
  have "\<not> coin_is_spent (example_coin\<lparr>coin_height := 7\<rparr>)" using example_coin_spendable by (simp add: coin_is_spent_def)
  then show ?thesis
    using overwritten_coin_returns [of "cache_new ZERO_HASH" example_op "[example_op \<mapsto> example_coin]" example_coin
        "example_coin\<lparr>coin_height := 7\<rparr>"] example_coin_spendable
    by (simp add: cache_new_def)
qed

text \<open>The memory counter is not exact. Spending a coin of the base, adding it back and spending it again leaves the counter of a new
  cache at \<open>2^64 - 140\<close> instead of zero: the spent entry was not counted, but its size is subtracted when
  it is replaced.\<close>

theorem usage_wraps:
  assumes "base op = Some c" "\<not> coin_is_spent c" "\<not> is_unspendable (out_script_pubkey (coin_tx_out c))"
  shows "\<exists>cc1 cc2 cc3. spend_coin base (cache_new b) op = (Some c, cc1) \<and> cc_usage cc1 = 0 \<and>
    add_coin cc1 op c True = Some cc2 \<and> spend_coin base cc2 op = (Some c, cc3) \<and>
    unat (cc_usage cc3) = 2 ^ 64 - 140 \<and> (\<forall>op' e. cc_cache cc3 op' = Some e \<longrightarrow> coin_is_spent (ce_coin e))"
proof -
  have "coin_dynamic_memory_usage (coin_clear coin_empty) = 140"
    by (simp add: coin_dynamic_memory_usage_def coin_clear_def tx_out_null_def)
  then show ?thesis
    using assms by (simp add: add_coin_def spend_coin_def fetch_coin_def cache_new_def entry_clean_def Let_def)
qed


theorem usage_wraps_witness:
  "\<exists>cc1 cc2 cc3. spend_coin [example_op \<mapsto> example_coin] (cache_new ZERO_HASH) example_op = (Some example_coin, cc1) \<and>
     add_coin cc1 example_op example_coin True = Some cc2 \<and>
     spend_coin [example_op \<mapsto> example_coin] cc2 example_op = (Some example_coin, cc3) \<and> unat (cc_usage cc3) = 2 ^ 64 - 140"
  using usage_wraps [of "[example_op \<mapsto> example_coin]" example_op example_coin ZERO_HASH] example_coin_spendable by auto

section \<open>The list of all coins\<close>

lemma iter_all_coins_entries:
  assumes "db_sorted (dw_db w)"
  shows "iter_all_coins D w = List.map_filter (\<lambda>(key, value).
      case decode_outpoint (tl key) of
        Inl e \<Rightarrow> None
      | Inr (op, r) \<Rightarrow> (case dw_read (decode_coin D) w key of Inr (Some coin) \<Rightarrow> Some (op, coin) | _ \<Rightarrow> None))
    (filter (\<lambda>(k, v). k \<noteq> [] \<and> hd k = DB_COIN) (dw_db w))"
  unfolding iter_all_coins_def walk_prefix [OF assms] ..

text \<open>The scan of the database finds every coin that a lookup finds.\<close>

lemma iter_all_coins_complete:
  assumes "db_sorted (dw_db w)" "db_get_coin D w op = Some c" "length (prev_txid op) = 32"
  shows "(op, c) \<in> set (iter_all_coins D w)"
proof -
  have r: "dw_read (decode_coin D) w (coin_db_key op) = Inr (Some c)"
    using assms(2) by (auto simp: db_get_coin_def split: sum.splits option.splits if_splits)
  then obtain raw where "map_of (dw_db w) (coin_db_key op) = Some raw"
    by (auto simp: dw_read_def mem_read_def split: option.splits)
  then have m: "(coin_db_key op, raw) \<in> set (filter (\<lambda>(k, v). k \<noteq> [] \<and> hd k = DB_COIN) (dw_db w))"
    using map_of_SomeD by (fastforce simp: coin_db_key_def)
  have "decode_outpoint (tl (coin_db_key op)) = Inr (op, [])"
    using outpoint_codec.dec_enc [of op "[]"] assms(3) by (simp add: coin_db_key_def outpoint_ok_def)
  then show ?thesis
    unfolding iter_all_coins_entries [OF assms(1)] List.map_filter_def using m r
    by (force simp: image_iff)
qed

end
