(* ===== verification/BlockCheck.thy ===== *)
theory BlockCheck
  imports Signet VersionBits CoinsCache
begin

text \<open>
  The checks of blocks and of their transactions' inputs, the first part of
  \<open>qubitcoin-node/src/validation.rs\<close>: the script flags of a block, relative lock times, the values of inputs, the checks of
  a header and of a block with and without the chain. Heights, times and time spans are integers; a call that
  panics is \<open>None\<close>. The clock of the system is an argument.
\<close>

section \<open>Numbers and hashes in messages\<close>

fun show_nat :: "nat \<Rightarrow> string" where
  "show_nat n = (if n < 10 then [char_of (48 + n)] else show_nat (n div 10) @ [char_of (48 + n mod 10)])"

declare show_nat.simps [simp del]

definition show_int :: "int \<Rightarrow> string" where
  "show_int i = (if i < 0 then ''-'' @ show_nat (nat (- i)) else show_nat (nat i))"

definition hex_digit :: "nat \<Rightarrow> char" where
  "hex_digit n = char_of (if n < 10 then 48 + n else 87 + n)"

definition hex_byte :: "u8 \<Rightarrow> string" where
  "hex_byte b = [hex_digit (unat b div 16), hex_digit (unat b mod 16)]"

definition hash_to_hex :: "hash_bytes \<Rightarrow> string" where
  "hash_to_hex h = concat (map hex_byte (rev h))"

definition hex_u32 :: "u32 \<Rightarrow> string" where
  "hex_u32 w = concat (map hex_byte (rev (to_le_bytes w)))"

definition script_error_description :: "script_error \<Rightarrow> string" where
  "script_error_description e =
     (case e of
        ErrOk \<Rightarrow> ''No error''
      | ErrUnknownError \<Rightarrow> ''Unknown error''
      | ErrEvalFalse \<Rightarrow> ''Script evaluated without error but finished with a false/empty top stack element''
      | ErrOpReturn \<Rightarrow> ''OP_RETURN was encountered''
      | ErrScriptNum \<Rightarrow> ''Script number overflow''
      | ErrScriptSize \<Rightarrow> ''Script is too big''
      | ErrPushSize \<Rightarrow> ''Push value size limit exceeded''
      | ErrOpCount \<Rightarrow> ''Operation limit exceeded''
      | ErrStackSize \<Rightarrow> ''Stack size limit exceeded''
      | ErrSigCount \<Rightarrow> ''Signature count negative or greater than pubkey count''
      | ErrPubkeyCount \<Rightarrow> ''Pubkey count negative or limit exceeded''
      | ErrVerify \<Rightarrow> ''Script failed an OP_VERIFY operation''
      | ErrEqualVerify \<Rightarrow> ''Script failed an OP_EQUALVERIFY operation''
      | ErrCheckMultiSigVerify \<Rightarrow> ''Script failed an OP_CHECKMULTISIGVERIFY operation''
      | ErrCheckSigVerify \<Rightarrow> ''Script failed an OP_CHECKSIGVERIFY operation''
      | ErrNumEqualVerify \<Rightarrow> ''Script failed an OP_NUMEQUALVERIFY operation''
      | ErrBadOpcode \<Rightarrow> ''Opcode missing or not understood''
      | ErrDisabledOpcode \<Rightarrow> ''Attempted to use a disabled opcode''
      | ErrInvalidStackOperation \<Rightarrow> ''Operation not valid with the current stack size''
      | ErrInvalidAltstackOperation \<Rightarrow> ''Operation not valid with the current altstack size''
      | ErrUnbalancedConditional \<Rightarrow> ''Invalid OP_IF construction''
      | ErrNegativeLocktime \<Rightarrow> ''Negative locktime''
      | ErrUnsatisfiedLocktime \<Rightarrow> ''Locktime requirement not satisfied''
      | ErrSigHashtype \<Rightarrow> ''Signature hash type missing or not understood''
      | ErrSigDer \<Rightarrow> ''Non-canonical DER signature''
      | ErrMinimalData \<Rightarrow> ''Data push larger than necessary''
      | ErrSigPushOnly \<Rightarrow> ''Only push operators allowed in signatures''
      | ErrSigHighS \<Rightarrow> ''Non-canonical signature: S value is unnecessarily high''
      | ErrSigNullDummy \<Rightarrow> ''Dummy CHECKMULTISIG argument must be zero''
      | ErrPubKeyType \<Rightarrow> ''Public key is neither compressed or uncompressed''
      | ErrCleanStack \<Rightarrow> ''Stack size must be exactly one after execution''
      | ErrMinimalIf \<Rightarrow> ''OP_IF/NOTIF argument must be minimal''
      | ErrSigNullFail \<Rightarrow> ''Signature must be zero for failed CHECK(MULTI)SIG operation''
      | ErrDiscourageUpgradableNops \<Rightarrow> ''NOPx reserved for soft-fork upgrades''
      | ErrDiscourageUpgradableWitnessProgram \<Rightarrow> ''Witness version reserved for soft-fork upgrades''
      | ErrDiscourageUpgradableTaprootVersion \<Rightarrow> ''Taproot version reserved for soft-fork upgrades''
      | ErrDiscourageOpSuccess \<Rightarrow> ''OP_SUCCESSx reserved for soft-fork upgrades''
      | ErrDiscourageUpgradablePubkeyType \<Rightarrow> ''Public key version reserved for soft-fork upgrades''
      | ErrWitnessProgramWrongLength \<Rightarrow> ''Witness program has incorrect length''
      | ErrWitnessProgramWitnessEmpty \<Rightarrow> ''Witness program was passed an empty witness''
      | ErrWitnessProgramMismatch \<Rightarrow> ''Witness program hash mismatch''
      | ErrWitnessMalleated \<Rightarrow> ''Witness requires empty scriptSig''
      | ErrWitnessMalleatedP2sh \<Rightarrow> ''Witness requires only-redeemscript scriptSig''
      | ErrWitnessUnexpected \<Rightarrow> ''Witness provided for non-witness script''
      | ErrWitnessPubKeyType \<Rightarrow> ''Using non-compressed keys in segwit''
      | ErrSchnorrSigSize \<Rightarrow> ''Invalid Schnorr signature size''
      | ErrSchnorrSigHashtype \<Rightarrow> ''Invalid Schnorr signature hash type''
      | ErrSchnorrSig \<Rightarrow> ''Invalid Schnorr signature''
      | ErrTaprootWrongControlSize \<Rightarrow> ''Invalid control block size''
      | ErrTapscriptValidationWeight \<Rightarrow> ''Too much signature validation relative to witness weight''
      | ErrTapscriptCheckMultiSig \<Rightarrow> ''OP_CHECKMULTISIG(VERIFY) is not available in tapscript''
      | ErrTapscriptMinimalIf \<Rightarrow> ''OP_IF/NOTIF argument must be minimal in tapscript''
      | ErrTapscriptEmptyPubkey \<Rightarrow> ''Tapscript public key must not be empty''
      | ErrOpCodeSeparator \<Rightarrow> ''Using OP_CODESEPARATOR in non-witness script''
      | ErrSigFindAndDelete \<Rightarrow> ''Signature is found in scriptCode''
      | ErrErrorCount \<Rightarrow> ''(error count sentinel)'')"

text \<open>The name of a variant, which the derived \<open>Debug\<close> prints.\<close>

definition script_error_name :: "script_error \<Rightarrow> string" where
  "script_error_name e =
     (case e of
        ErrOk \<Rightarrow> ''Ok''
      | ErrUnknownError \<Rightarrow> ''UnknownError''
      | ErrEvalFalse \<Rightarrow> ''EvalFalse''
      | ErrOpReturn \<Rightarrow> ''OpReturn''
      | ErrScriptNum \<Rightarrow> ''ScriptNum''
      | ErrScriptSize \<Rightarrow> ''ScriptSize''
      | ErrPushSize \<Rightarrow> ''PushSize''
      | ErrOpCount \<Rightarrow> ''OpCount''
      | ErrStackSize \<Rightarrow> ''StackSize''
      | ErrSigCount \<Rightarrow> ''SigCount''
      | ErrPubkeyCount \<Rightarrow> ''PubkeyCount''
      | ErrVerify \<Rightarrow> ''Verify''
      | ErrEqualVerify \<Rightarrow> ''EqualVerify''
      | ErrCheckMultiSigVerify \<Rightarrow> ''CheckMultiSigVerify''
      | ErrCheckSigVerify \<Rightarrow> ''CheckSigVerify''
      | ErrNumEqualVerify \<Rightarrow> ''NumEqualVerify''
      | ErrBadOpcode \<Rightarrow> ''BadOpcode''
      | ErrDisabledOpcode \<Rightarrow> ''DisabledOpcode''
      | ErrInvalidStackOperation \<Rightarrow> ''InvalidStackOperation''
      | ErrInvalidAltstackOperation \<Rightarrow> ''InvalidAltstackOperation''
      | ErrUnbalancedConditional \<Rightarrow> ''UnbalancedConditional''
      | ErrNegativeLocktime \<Rightarrow> ''NegativeLocktime''
      | ErrUnsatisfiedLocktime \<Rightarrow> ''UnsatisfiedLocktime''
      | ErrSigHashtype \<Rightarrow> ''SigHashtype''
      | ErrSigDer \<Rightarrow> ''SigDer''
      | ErrMinimalData \<Rightarrow> ''MinimalData''
      | ErrSigPushOnly \<Rightarrow> ''SigPushOnly''
      | ErrSigHighS \<Rightarrow> ''SigHighS''
      | ErrSigNullDummy \<Rightarrow> ''SigNullDummy''
      | ErrPubKeyType \<Rightarrow> ''PubKeyType''
      | ErrCleanStack \<Rightarrow> ''CleanStack''
      | ErrMinimalIf \<Rightarrow> ''MinimalIf''
      | ErrSigNullFail \<Rightarrow> ''SigNullFail''
      | ErrDiscourageUpgradableNops \<Rightarrow> ''DiscourageUpgradableNops''
      | ErrDiscourageUpgradableWitnessProgram \<Rightarrow> ''DiscourageUpgradableWitnessProgram''
      | ErrDiscourageUpgradableTaprootVersion \<Rightarrow> ''DiscourageUpgradableTaprootVersion''
      | ErrDiscourageOpSuccess \<Rightarrow> ''DiscourageOpSuccess''
      | ErrDiscourageUpgradablePubkeyType \<Rightarrow> ''DiscourageUpgradablePubkeyType''
      | ErrWitnessProgramWrongLength \<Rightarrow> ''WitnessProgramWrongLength''
      | ErrWitnessProgramWitnessEmpty \<Rightarrow> ''WitnessProgramWitnessEmpty''
      | ErrWitnessProgramMismatch \<Rightarrow> ''WitnessProgramMismatch''
      | ErrWitnessMalleated \<Rightarrow> ''WitnessMalleated''
      | ErrWitnessMalleatedP2sh \<Rightarrow> ''WitnessMalleatedP2sh''
      | ErrWitnessUnexpected \<Rightarrow> ''WitnessUnexpected''
      | ErrWitnessPubKeyType \<Rightarrow> ''WitnessPubKeyType''
      | ErrSchnorrSigSize \<Rightarrow> ''SchnorrSigSize''
      | ErrSchnorrSigHashtype \<Rightarrow> ''SchnorrSigHashtype''
      | ErrSchnorrSig \<Rightarrow> ''SchnorrSig''
      | ErrTaprootWrongControlSize \<Rightarrow> ''TaprootWrongControlSize''
      | ErrTapscriptValidationWeight \<Rightarrow> ''TapscriptValidationWeight''
      | ErrTapscriptCheckMultiSig \<Rightarrow> ''TapscriptCheckMultiSig''
      | ErrTapscriptMinimalIf \<Rightarrow> ''TapscriptMinimalIf''
      | ErrTapscriptEmptyPubkey \<Rightarrow> ''TapscriptEmptyPubkey''
      | ErrOpCodeSeparator \<Rightarrow> ''OpCodeSeparator''
      | ErrSigFindAndDelete \<Rightarrow> ''SigFindAndDelete''
      | ErrErrorCount \<Rightarrow> ''ErrorCount'')"

section \<open>Script flags\<close>

definition ALL_FLAGS :: script_flags where
  "ALL_FLAGS = mask 21"

definition flags_from_bits_truncate :: "u32 \<Rightarrow> script_flags" where
  "flags_from_bits_truncate bits = bits AND ALL_FLAGS"

definition get_block_script_flags :: "int \<Rightarrow> hash_bytes \<Rightarrow> consensus_params \<Rightarrow> script_flags" where
  "get_block_script_flags height blk_hash params =
     (case map_of (script_flag_exceptions params) blk_hash of
        Some raw_flags \<Rightarrow> flags_from_bits_truncate raw_flags
      | None \<Rightarrow>
          let flags = VERIFY_P2SH OR VERIFY_WITNESS OR VERIFY_TAPROOT;
              flags = (if height \<ge> bip66_height params then flags OR VERIFY_DERSIG else flags);
              flags = (if height \<ge> bip65_height params then flags OR VERIFY_CHECKLOCKTIMEVERIFY else flags);
              flags = (if height \<ge> csv_height params then flags OR VERIFY_CHECKSEQUENCEVERIFY else flags)
          in if height \<ge> segwit_height params then flags OR VERIFY_NULLDUMMY else flags)"

section \<open>Relative lock times\<close>

definition LOCKTIME_VERIFY_SEQUENCE :: int where
  "LOCKTIME_VERIFY_SEQUENCE = 1"

record sequence_lock_pair =
  slp_height :: int
  slp_time :: int

text \<open>The loop over the inputs with the heights of their coins; a disabled input sets its height to 0.\<close>

fun sequence_loop :: "(int \<Rightarrow> int) \<Rightarrow> tx_in list \<Rightarrow> int list \<Rightarrow> sequence_lock_pair \<Rightarrow> sequence_lock_pair \<times> int list" where
  "sequence_loop mtp [] heights locks = (locks, heights)"
| "sequence_loop mtp (input # inputs) [] locks = (locks, [])"
| "sequence_loop mtp (input # inputs) (at_height # heights) locks =
     (if in_sequence input AND SEQUENCE_LOCKTIME_DISABLE_FLAG \<noteq> 0 then
        let (r, hs) = sequence_loop mtp inputs heights locks in (r, 0 # hs)
      else
        let locks =
              (if in_sequence input AND SEQUENCE_LOCKTIME_TYPE_FLAG \<noteq> 0 then
                 let coin_time = mtp (max (at_height - 1) 0);
                     relative_time = push_bit SEQUENCE_LOCKTIME_GRANULARITY (uint (in_sequence input AND SEQUENCE_LOCKTIME_MASK))
                 in locks\<lparr>slp_time := max (slp_time locks) (coin_time + relative_time - 1)\<rparr>
               else
                 let relative_height = uint (in_sequence input AND SEQUENCE_LOCKTIME_MASK)
                 in locks\<lparr>slp_height := max (slp_height locks) (at_height + relative_height - 1)\<rparr>);
            (r, hs) = sequence_loop mtp inputs heights locks
        in (r, at_height # hs))"

definition no_locks :: sequence_lock_pair where
  "no_locks = \<lparr>slp_height = - 1, slp_time = - 1\<rparr>"

definition calculate_sequence_locks ::
  "transaction \<Rightarrow> int \<Rightarrow> int list \<Rightarrow> int \<Rightarrow> (int \<Rightarrow> int) \<Rightarrow> (sequence_lock_pair \<times> int list) option" where
  "calculate_sequence_locks tx flags prev_heights block_height mtp =
     (if length prev_heights \<noteq> length (tx_vin tx) then None
      else if \<not> (tx_version tx \<ge> 2 \<and> flags AND LOCKTIME_VERIFY_SEQUENCE \<noteq> 0) then Some (no_locks, prev_heights)
      else Some (sequence_loop mtp (tx_vin tx) prev_heights no_locks))"

definition evaluate_sequence_locks :: "int \<Rightarrow> int \<Rightarrow> sequence_lock_pair \<Rightarrow> bool" where
  "evaluate_sequence_locks block_height prev_block_mtp locks \<longleftrightarrow>
     slp_height locks < block_height \<and> slp_time locks < prev_block_mtp"

definition check_sequence_locks ::
  "transaction \<Rightarrow> int \<Rightarrow> int list \<Rightarrow> int \<Rightarrow> int \<Rightarrow> (int \<Rightarrow> int) \<Rightarrow> bool option" where
  "check_sequence_locks tx flags prev_heights block_height prev_block_mtp mtp =
     map_option (\<lambda>(locks, _). evaluate_sequence_locks block_height prev_block_mtp locks)
       (calculate_sequence_locks tx flags prev_heights block_height mtp)"

section \<open>The values of inputs\<close>

abbreviation tx_fail :: "tx_validation_result \<Rightarrow> string \<Rightarrow> string \<Rightarrow> tx_validation_state" where
  "tx_fail result reason debug \<equiv> snd (vs_invalid (vs_new TxUnset) result reason debug)"

text \<open>The checks of one coin, and of the running total after it.\<close>

definition check_input_coin :: "int \<Rightarrow> amount \<Rightarrow> coin option \<Rightarrow> tx_validation_state + amount" where
  "check_input_coin spend_height total_in coin_opt =
     (case coin_opt of
        None \<Rightarrow> Inl (tx_fail TxMissingInputs ''bad-txns-inputs-missingorspent'' [])
      | Some coin \<Rightarrow>
          let maturity = spend_height - sint (coin_height coin) in
          if coin_is_spent coin then Inl (tx_fail TxMissingInputs ''bad-txns-inputs-missingorspent'' [])
          else if coin_coinbase coin \<and> maturity < COINBASE_MATURITY
          then Inl (tx_fail TxConsensus ''bad-txns-premature-spend-of-coinbase''
                 (''tried to spend coinbase at depth '' @ show_int maturity))
          else if \<not> money_range (out_value (coin_tx_out coin))
          then Inl (tx_fail TxConsensus ''bad-txns-inputvalues-outofrange'' [])
          else
            let total_in = total_in + out_value (coin_tx_out coin) in
            if \<not> money_range total_in then Inl (tx_fail TxConsensus ''bad-txns-inputvalues-outofrange'' [])
            else Inr total_in)"

text \<open>The comparison with the outputs.\<close>

definition check_fee :: "transaction \<Rightarrow> amount \<Rightarrow> tx_validation_state + amount" where
  "check_fee tx total_in =
     (let total_out = get_value_out tx in
      if sint total_in < sint total_out
      then Inl (tx_fail TxConsensus ''bad-txns-in-belowout''
             (''value in ('' @ show_int (sint total_in) @ '') < value out ('' @ show_int (sint total_out) @ '')''))
      else
        let fee = total_in - total_out in
        if \<not> money_range fee then Inl (tx_fail TxConsensus ''bad-txns-fee-outofrange'' []) else Inr fee)"

fun sum_coins :: "int \<Rightarrow> amount \<Rightarrow> coin option list \<Rightarrow> tx_validation_state + amount" where
  "sum_coins spend_height total_in [] = Inr total_in"
| "sum_coins spend_height total_in (c # cs) =
     res_bind (check_input_coin spend_height total_in c) (\<lambda>total_in. sum_coins spend_height total_in cs)"

definition check_tx_inputs_with_coins :: "transaction \<Rightarrow> coin option list \<Rightarrow> int \<Rightarrow> amount \<Rightarrow> tx_validation_state + amount" where
  "check_tx_inputs_with_coins tx input_coins spend_height tx_fee =
     (if is_coinbase tx then Inr tx_fee else res_bind (sum_coins spend_height 0 input_coins) (check_fee tx))"

text \<open>The same over the cache, which loads coins as it goes.\<close>

fun sum_view :: "coins_view \<Rightarrow> int \<Rightarrow> amount \<Rightarrow> tx_in list \<Rightarrow> coins_cache \<Rightarrow> (tx_validation_state + amount) \<times> coins_cache" where
  "sum_view base spend_height total_in [] cc = (Inr total_in, cc)"
| "sum_view base spend_height total_in (input # inputs) cc =
     (let (c, cc) = fetch_coin base cc (in_prevout input) in
      case check_input_coin spend_height total_in c of
        Inl e \<Rightarrow> (Inl e, cc)
      | Inr total_in \<Rightarrow> sum_view base spend_height total_in inputs cc)"

definition check_tx_inputs ::
  "coins_view \<Rightarrow> transaction \<Rightarrow> coins_cache \<Rightarrow> int \<Rightarrow> amount \<Rightarrow> (tx_validation_state + amount) \<times> coins_cache" where
  "check_tx_inputs base tx cc spend_height tx_fee =
     (if is_coinbase tx then (Inr tx_fee, cc)
      else let (r, cc) = sum_view base spend_height 0 (tx_vin tx) cc in (res_bind r (check_fee tx), cc))"

section \<open>Headers and blocks without the chain\<close>

definition check_block_header ::
  "crypto \<Rightarrow> block_header \<Rightarrow> consensus_params \<Rightarrow> block_validation_state \<Rightarrow> bool \<times> block_validation_state" where
  "check_block_header C header params st =
     (if \<not> check_proof_of_work (header_block_hash C header) (hdr_bits header) params
      then vs_invalid st BlockInvalidHeader ''high-hash'' ''proof of work failed''
      else (True, st))"

definition val_compact_size_len :: "nat \<Rightarrow> nat" where
  "val_compact_size_len n = (if n < 253 then 1 else if n \<le> 0xFFFF then 3 else if n \<le> 0xFFFFFFFF then 5 else 9)"

definition compute_block_weight :: "block \<Rightarrow> nat" where
  "compute_block_weight blk =
     (let txcount_len = val_compact_size_len (length (blk_vtx blk));
          base_size = 80 + txcount_len + sum_list (map (\<lambda>tx. length (serialize_transaction tx False)) (blk_vtx blk));
          total_size = 80 + txcount_len + sum_list (map (\<lambda>tx. length (serialize_transaction tx True)) (blk_vtx blk))
      in base_size * (WITNESS_SCALE_FACTOR - 1) + total_size)"

text \<open>The loop over the transactions: the first that fails, or the number of signature operations.\<close>

fun check_transactions :: "transaction list \<Rightarrow> u32 \<Rightarrow> tx_validation_state + u32" where
  "check_transactions [] n_sig_ops = Inr n_sig_ops"
| "check_transactions (tx # txs) n_sig_ops =
     (let (ok, tx_state) = check_transaction tx (vs_new TxUnset) in
      if \<not> ok then Inl tx_state else check_transactions txs (n_sig_ops + get_legacy_sigop_count tx))"

definition check_block ::
  "crypto \<Rightarrow> 'k secp_strict_scheme \<Rightarrow> block \<Rightarrow> consensus_params \<Rightarrow> block_validation_state \<Rightarrow> bool \<Rightarrow> bool \<times> block_validation_state" where
  "check_block C K blk params st check_merkle_root =
     (let (ok, st) = check_block_header C (blk_header blk) params st in
      if \<not> ok then (False, st)
      else if signet_blocks params \<and> \<not> check_signet_block_solution C K blk params
      then vs_invalid st BlockConsensus ''bad-signet-blksig'' ''signet block signature validation failure''
      else
        let (calculated_root, mutated) = block_merkle_root C (blk_vtx blk) in
        if check_merkle_root \<and> hdr_merkle_root (blk_header blk) \<noteq> calculated_root
        then vs_invalid st BlockMutatedBlock ''bad-txnmrklroot'' ''hashMerkleRoot mismatch''
        else if check_merkle_root \<and> mutated
        then vs_invalid st BlockMutatedBlock ''bad-txns-duplicate'' ''duplicate transaction''
        else if length (serialize encode_block blk) > MAX_BLOCK_SERIALIZED_SIZE
        then vs_invalid st BlockConsensus ''bad-blk-length'' ''size limits failed''
        else if compute_block_weight blk > MAX_BLOCK_WEIGHT
        then vs_invalid st BlockConsensus ''bad-blk-weight'' ''weight limit failed''
        else if blk_vtx blk = [] then vs_invalid st BlockConsensus ''bad-cb-missing'' ''first tx is not coinbase''
        else if \<not> is_coinbase (hd (blk_vtx blk))
        then vs_invalid st BlockConsensus ''bad-cb-missing'' ''first tx is not coinbase''
        else if list_ex is_coinbase (tl (blk_vtx blk))
        then vs_invalid st BlockConsensus ''bad-cb-multiple'' ''more than one coinbase''
        else case check_transactions (blk_vtx blk) 0 of
            Inl tx_state \<Rightarrow> vs_invalid st BlockConsensus (vs_reject_reason tx_state) (vs_debug_message tx_state)
          | Inr n_sig_ops \<Rightarrow>
              if uint n_sig_ops * int WITNESS_SCALE_FACTOR > MAX_BLOCK_SIGOPS_COST
              then vs_invalid st BlockConsensus ''bad-blk-sigops'' ''out-of-bounds SigOpCount''
              else if \<not> distinct (map (txid C) (blk_vtx blk))
              then vs_invalid st BlockConsensus ''bad-txns-duplicate'' ''duplicate transaction''
              else (True, st))"

section \<open>Headers and blocks with the chain\<close>

text \<open>The retarget interval in 32 bits.\<close>

definition interval_i32 :: "consensus_params \<Rightarrow> int" where
  "interval_i32 params = sint (word_of_int (difficulty_adjustment_interval params) :: i32)"

text \<open>The median time past of the parent, or its time if there is no index.\<close>

definition parent_mtp :: "block_index \<Rightarrow> (arena \<times> nat) option \<Rightarrow> int" where
  "parent_mtp pindex ctx = (case ctx of Some (a, idx) \<Rightarrow> compute_mtp a idx | None \<Rightarrow> bi_get_block_time pindex)"

text \<open>The first block of the period that ends with the parent.\<close>

definition period_first :: "int \<Rightarrow> block_index \<Rightarrow> (arena \<times> nat) option \<Rightarrow> u32 \<times> u32" where
  "period_first interval pindex ctx =
     (if interval > 0 \<and> bi_height pindex \<ge> interval - 1 \<and> (bi_height pindex + 1) smod interval = 0 then
        (case ctx of
           Some (a, idx) \<Rightarrow>
             (case get_ancestor a idx (bi_height pindex - (interval - 1)) of
                Some first_idx \<Rightarrow> (bi_time (a ! first_idx), bi_bits (a ! first_idx))
              | None \<Rightarrow> (bi_time pindex, bi_bits pindex))
         | None \<Rightarrow> (bi_time pindex, bi_bits pindex))
      else (0, bi_bits pindex))"

text \<open>The walk back over blocks of minimum difficulty; it panics without an interval.\<close>

partial_function (option) min_difficulty_walk :: "arena \<Rightarrow> int \<Rightarrow> u32 \<Rightarrow> nat \<Rightarrow> u32 option" where
  "min_difficulty_walk a interval pow_limit_bits idx =
     (if idx \<ge> length a \<or> interval = 0 then None
      else
        let blk = a ! idx in
        if bi_height blk smod interval = 0 \<or> bi_bits blk \<noteq> pow_limit_bits then Some (bi_bits blk)
        else case bi_prev blk of
            Some prev \<Rightarrow> min_difficulty_walk a interval pow_limit_bits prev
          | None \<Rightarrow> Some (bi_bits blk))"

definition last_non_special_bits :: "consensus_params \<Rightarrow> block_index \<Rightarrow> (arena \<times> nat) option \<Rightarrow> u32 option" where
  "last_non_special_bits params pindex ctx =
     (if pow_allow_min_difficulty_blocks params then
        (case ctx of
           Some (a, idx) \<Rightarrow>
             min_difficulty_walk a (interval_i32 params)
               (get_compact (uint256_to_arith (pow_limit params)) False) idx
         | None \<Rightarrow> Some (bi_bits pindex))
      else Some (bi_bits pindex))"

definition expected_bits :: "block_header \<Rightarrow> block_index \<Rightarrow> consensus_params \<Rightarrow> (arena \<times> nat) option \<Rightarrow> u32 option" where
  "expected_bits header pindex params ctx =
     (let (first_time, first_bits) = period_first (interval_i32 params) pindex ctx in
      case last_non_special_bits params pindex ctx of
        None \<Rightarrow> None
      | Some special \<Rightarrow>
          (case get_next_work_required (word_of_int (bi_height pindex)) (bi_bits pindex) (bi_time pindex)
                  first_time first_bits (hdr_time header) special params of
             Inl e \<Rightarrow> None
           | Inr bits \<Rightarrow> Some bits))"

definition version_message :: "i32 \<Rightarrow> int \<Rightarrow> string \<Rightarrow> string" where
  "version_message version height rule =
     ''rejected nVersion='' @ show_int (sint version) @ '' block at height '' @ show_int height @ '' ('' @ rule @ '')''"

definition contextual_check_block_header_with_arena ::
  "int \<Rightarrow> block_header \<Rightarrow> block_index \<Rightarrow> consensus_params \<Rightarrow> block_validation_state \<Rightarrow> (arena \<times> nat) option \<Rightarrow>
   (bool \<times> block_validation_state) option" where
  "contextual_check_block_header_with_arena now header pindex params st ctx =
     (let height = bi_height pindex + 1; version = sint (hdr_version header); time = uint (hdr_time header);
          interval = interval_i32 params in
      if bip34_height params \<noteq> - 1 \<and> height \<ge> bip34_height params \<and> version < 2
      then Some (vs_invalid st BlockConsensus ''bad-version'' (version_message (hdr_version header) height ''BIP34 requires >= 2''))
      else if bip66_height params \<noteq> - 1 \<and> height \<ge> bip66_height params \<and> version < 3
      then Some (vs_invalid st BlockConsensus ''bad-version'' (version_message (hdr_version header) height ''BIP66 requires >= 3''))
      else if bip65_height params \<noteq> - 1 \<and> height \<ge> bip65_height params \<and> version < 4
      then Some (vs_invalid st BlockConsensus ''bad-version'' (version_message (hdr_version header) height ''BIP65 requires >= 4''))
      else if time \<le> parent_mtp pindex ctx
      then Some (vs_invalid st BlockInvalidHeader ''time-too-old'' (''block'' @ [CHR 0x27] @ ''s timestamp is too early''))
      else if time > now + MAX_FUTURE_BLOCK_TIME
      then Some (vs_invalid st BlockInvalidHeader ''time-too-new'' ''block timestamp too far in the future'')
      else if enforce_bip94 params \<and> interval > 0 \<and> height smod interval = 0 \<and> time < bi_get_block_time pindex - MAX_TIMEWARP
      then Some (vs_invalid st BlockInvalidHeader ''time-timewarp-attack'' (''block'' @ [CHR 0x27] @ ''s timestamp is too early on diff adjustment block''))
      else
        case expected_bits header pindex params ctx of
          None \<Rightarrow> None
        | Some bits \<Rightarrow>
            if hdr_bits header \<noteq> bits \<and> \<not> pow_no_retargeting params
            then Some (vs_invalid st BlockInvalidHeader ''bad-diffbits''
                   (''incorrect proof of work: expected 0x'' @ hex_u32 bits @ '', got 0x'' @ hex_u32 (hdr_bits header)))
            else Some (True, st))"

definition contextual_check_block_header ::
  "int \<Rightarrow> block_header \<Rightarrow> block_index \<Rightarrow> consensus_params \<Rightarrow> block_validation_state \<Rightarrow> (bool \<times> block_validation_state) option" where
  "contextual_check_block_header now header pindex params st =
     contextual_check_block_header_with_arena now header pindex params st None"

definition val_check_lock_time :: "transaction \<Rightarrow> int \<Rightarrow> int \<Rightarrow> bool" where
  "val_check_lock_time tx height lock_time_cutoff =
     (if tx_lock_time tx = 0 then True
      else if list_all (\<lambda>input. in_sequence input = SEQUENCE_FINAL) (tx_vin tx) then True
      else if tx_lock_time tx < 500000000 then sint (tx_lock_time tx) < height
      else uint (tx_lock_time tx) < lock_time_cutoff)"

definition check_witness_commitment :: "crypto \<Rightarrow> block \<Rightarrow> bool option" where
  "check_witness_commitment C blk =
     (case blk_vtx blk of
        [] \<Rightarrow> None
      | coinbase # _ \<Rightarrow>
          (case find (\<lambda>i. is_witness_commitment (out_script_pubkey (tx_vout coinbase ! i))) (rev [0..<length (tx_vout coinbase)]) of
             None \<Rightarrow> None
           | Some pos \<Rightarrow>
               let witness_root = fst (block_witness_merkle_root C (blk_vtx blk)) in
               if tx_vin coinbase \<noteq> [] \<and> length (in_witness (tx_vin coinbase ! 0)) = 1 \<and> length (in_witness (tx_vin coinbase ! 0) ! 0) = 32
               then Some (take 32 (drop 6 (out_script_pubkey (tx_vout coinbase ! pos))) =
                      hash256 C (witness_root @ in_witness (tx_vin coinbase ! 0) ! 0))
               else Some False))"

text \<open>The bytes of a number, least significant first.\<close>

fun height_bytes :: "nat \<Rightarrow> bytes" where
  "height_bytes v = (if v = 0 then [] else of_nat (v mod 256) # height_bytes (v div 256))"

declare height_bytes.simps [simp del]

definition encode_height :: "int \<Rightarrow> bytes" where
  "encode_height height =
     (if height = 0 then [0]
      else if height \<ge> 1 \<and> height \<le> 16 then [of_int (0x50 + height)]
      else
        let negative = (height < 0);
            result = height_bytes (nat \<bar>height\<bar>);
            result = (if result = [] then result
                      else if last result AND 0x80 \<noteq> 0 then result @ [if negative then 0x80 else 0]
                      else if negative then result[length result - 1 := last result OR 0x80]
                      else result)
        in of_nat (length result) # result)"

definition contextual_check_block ::
  "crypto \<Rightarrow> block \<Rightarrow> int \<Rightarrow> int \<Rightarrow> consensus_params \<Rightarrow> block_validation_state \<Rightarrow> bool \<times> block_validation_state" where
  "contextual_check_block C blk prev_height prev_median_time params st =
     (let height = prev_height + 1;
          lock_time_cutoff = (if height \<ge> csv_height params then prev_median_time else uint (hdr_time (blk_header blk)));
          segwit_active = (height \<ge> segwit_height params) in
      if \<not> list_all (\<lambda>tx. val_check_lock_time tx height lock_time_cutoff) (blk_vtx blk)
      then vs_invalid st BlockConsensus ''bad-txns-nonfinal'' ''transaction is not final''
      else if segwit_active \<and> check_witness_commitment C blk = Some False
      then vs_invalid st BlockMutatedBlock ''bad-witness-merkle-match'' ''witness merkle commitment mismatch''
      else if segwit_active \<and> check_witness_commitment C blk = None \<and> list_ex has_witness (blk_vtx blk)
      then vs_invalid st BlockMutatedBlock ''unexpected-witness'' ''unexpected witness data found''
      else if segwit_active \<and> compute_block_weight blk > MAX_BLOCK_WEIGHT
      then vs_invalid st BlockConsensus ''bad-blk-weight'' ''weight limit failed''
      else if height \<ge> bip34_height params \<and> bip34_height params \<noteq> - 1 then
        if blk_vtx blk = [] then vs_invalid st BlockConsensus ''bad-cb-missing'' ''block has no transactions''
        else if tx_vin (hd (blk_vtx blk)) = [] then vs_invalid st BlockConsensus ''bad-cb-missing'' ''coinbase has no inputs''
        else
          let expected_height = encode_height height;
              script_bytes = in_script_sig (tx_vin (hd (blk_vtx blk)) ! 0) in
          if length script_bytes < length expected_height \<or> take (length expected_height) script_bytes \<noteq> expected_height
          then vs_invalid st BlockConsensus ''bad-cb-height'' ''block height mismatch in coinbase''
          else (True, st)
      else (True, st))"


section \<open>Lock times\<close>

text \<open>An input whose relative lock time, if it has one, has passed in a block.\<close>

definition input_matured :: "(int \<Rightarrow> int) \<Rightarrow> int \<Rightarrow> int \<Rightarrow> tx_in \<Rightarrow> int \<Rightarrow> bool" where
  "input_matured mtp block_height prev_block_mtp input at_height \<longleftrightarrow>
     in_sequence input AND SEQUENCE_LOCKTIME_DISABLE_FLAG \<noteq> 0 \<or>
     (if in_sequence input AND SEQUENCE_LOCKTIME_TYPE_FLAG \<noteq> 0
      then mtp (max (at_height - 1) 0) + 512 * uint (in_sequence input AND SEQUENCE_LOCKTIME_MASK) \<le> prev_block_mtp
      else at_height + uint (in_sequence input AND SEQUENCE_LOCKTIME_MASK) \<le> block_height)"

lemma evaluate_max:
  "evaluate_sequence_locks bh pm (locks\<lparr>slp_time := max (slp_time locks) t\<rparr>) \<longleftrightarrow>
     evaluate_sequence_locks bh pm locks \<and> t < pm"
  "evaluate_sequence_locks bh pm (locks\<lparr>slp_height := max (slp_height locks) h\<rparr>) \<longleftrightarrow>
     evaluate_sequence_locks bh pm locks \<and> h < bh"
  by (auto simp: evaluate_sequence_locks_def)

lemma sequence_loop_evaluates:
  "length inputs = length heights \<Longrightarrow>
   evaluate_sequence_locks bh pm (fst (sequence_loop mtp inputs heights locks)) \<longleftrightarrow>
     evaluate_sequence_locks bh pm locks \<and> list_all2 (input_matured mtp bh pm) inputs heights"
proof (induction inputs heights arbitrary: locks rule: list_induct2)
  case (Cons input inputs h heights)
  show ?case
    by (auto simp: Cons.IH case_prod_beta Let_def evaluate_max input_matured_def [of mtp bh pm input h]
        SEQUENCE_LOCKTIME_GRANULARITY_def push_bit_eq_mult)
qed simp

lemma check_sequence_locks_iff:
  assumes "length heights = length (tx_vin tx)" "0 \<le> bh" "0 \<le> pm"
  shows "check_sequence_locks tx flags heights bh pm mtp =
    Some (tx_version tx \<ge> 2 \<and> flags AND LOCKTIME_VERIFY_SEQUENCE \<noteq> 0 \<longrightarrow>
      list_all2 (input_matured mtp bh pm) (tx_vin tx) heights)"
proof -
  have none: "evaluate_sequence_locks bh pm no_locks" using assms(2,3) by (simp add: evaluate_sequence_locks_def no_locks_def)
  show ?thesis
    using none sequence_loop_evaluates [OF assms(1) [symmetric], of bh pm mtp no_locks]
    by (cases "sequence_loop mtp (tx_vin tx) heights no_locks")
      (auto simp: check_sequence_locks_def calculate_sequence_locks_def assms(1))
qed

lemma sequence_locked_input:
  assumes "tsc_check_sequence t n" "(ucast n :: u32) AND SEQUENCE_LOCKTIME_DISABLE_FLAG = 0"
    "input_matured mtp bh pm (tx_vin (tsc_tx t) ! tsc_input_index t) h"
  shows "if (ucast n :: u32) AND SEQUENCE_LOCKTIME_TYPE_FLAG \<noteq> 0
    then mtp (max (h - 1) 0) + 512 * uint ((ucast n :: u32) AND SEQUENCE_LOCKTIME_MASK) \<le> pm
    else h + uint ((ucast n :: u32) AND SEQUENCE_LOCKTIME_MASK) \<le> bh"
proof -
  let ?s = "in_sequence (tx_vin (tsc_tx t) ! tsc_input_index t)"
  have "?s AND SEQUENCE_LOCKTIME_DISABLE_FLAG = 0"
    "?s AND SEQUENCE_LOCKTIME_TYPE_FLAG = (ucast n :: u32) AND SEQUENCE_LOCKTIME_TYPE_FLAG"
    "uint ((ucast n :: u32) AND SEQUENCE_LOCKTIME_MASK) \<le> uint (?s AND SEQUENCE_LOCKTIME_MASK)"
    using assms(1,2) by (auto simp: tsc_check_sequence_def Let_def not_less word_le_def split: if_splits)
  then show ?thesis using assms(3) by (auto simp: input_matured_def split: if_splits)
qed

text \<open>C19: A relative lock time in a script binds the block. If \<open>OP_CHECKSEQUENCEVERIFY\<close> accepted the number \<open>n\<close> for an
  input and the block passes the check of sequence locks, then as many blocks as \<open>n\<close> says have passed since the
  coin was confirmed, or as many units of 512 seconds since the median time past before it, whichever
  unit \<open>n\<close> selects.\<close>

theorem sequence_verify_enforced:
  assumes "tsc_check_sequence t n" "(ucast n :: u32) AND SEQUENCE_LOCKTIME_DISABLE_FLAG = 0"
    and "tsc_input_index t < length (tx_vin (tsc_tx t))" "length heights = length (tx_vin (tsc_tx t))"
    and "0 \<le> block_height" "0 \<le> prev_block_mtp"
    and "check_sequence_locks (tsc_tx t) LOCKTIME_VERIFY_SEQUENCE heights block_height prev_block_mtp mtp = Some True"
  shows "if (ucast n :: u32) AND SEQUENCE_LOCKTIME_TYPE_FLAG \<noteq> 0
    then mtp (max (heights ! tsc_input_index t - 1) 0) + 512 * uint ((ucast n :: u32) AND SEQUENCE_LOCKTIME_MASK) \<le> prev_block_mtp
    else heights ! tsc_input_index t + uint ((ucast n :: u32) AND SEQUENCE_LOCKTIME_MASK) \<le> block_height"
proof (rule sequence_locked_input [OF assms(1,2)])
  have "\<not> tx_version (tsc_tx t) < 2" using assms(1) by (auto simp: tsc_check_sequence_def split: if_splits)
  then have "list_all2 (input_matured mtp block_height prev_block_mtp) (tx_vin (tsc_tx t)) heights"
    using assms(7) check_sequence_locks_iff [OF assms(4-6)] by (simp add: LOCKTIME_VERIFY_SEQUENCE_def)
  then show "input_matured mtp block_height prev_block_mtp (tx_vin (tsc_tx t) ! tsc_input_index t)
      (heights ! tsc_input_index t)"
    using assms(3) by (rule list_all2_nthD)
qed

definition locked_tx :: "u32 \<Rightarrow> u32 \<Rightarrow> transaction" where
  "locked_tx seq lock =
     \<lparr>tx_version = 2, tx_vin = [\<lparr>in_prevout = \<lparr>prev_txid = replicate 32 1, prev_index = 0\<rparr>, in_script_sig = [],
        in_sequence = seq, in_witness = []\<rparr>],
      tx_vout = [\<lparr>out_value = 5000, out_script_pubkey = [OpDup]\<rparr>], tx_lock_time = lock\<rparr>"

definition locked_checker :: "u32 \<Rightarrow> u32 \<Rightarrow> tx_checker" where
  "locked_checker seq lock = \<lparr>tsc_tx = locked_tx seq lock, tsc_input_index = 0, tsc_amount = 0, tsc_precomputed = precomputed_empty\<rparr>"

lemmas locked_defs = locked_checker_def locked_tx_def SEQUENCE_LOCKTIME_DISABLE_FLAG_def SEQUENCE_LOCKTIME_TYPE_FLAG_def
  SEQUENCE_LOCKTIME_MASK_def SEQUENCE_LOCKTIME_GRANULARITY_def SEQUENCE_FINAL_def LOCKTIME_VERIFY_SEQUENCE_def

theorem sequence_verify_enforced_witness:
  "tsc_check_sequence (locked_checker 10 0) 8 \<and>
   check_sequence_locks (locked_tx 10 0) LOCKTIME_VERIFY_SEQUENCE [100] 110 0 (\<lambda>_. 0) = Some True \<and> (100 :: int) + 8 \<le> 110"
proof -
  have a: "tsc_check_sequence (locked_checker 10 0) 8"
    by (simp add: tsc_check_sequence_def locked_defs)
  have b: "check_sequence_locks (locked_tx 10 0) LOCKTIME_VERIFY_SEQUENCE [100] 110 0 (\<lambda>_. 0) = Some True"
    by (subst check_sequence_locks_iff) (simp_all add: locked_defs input_matured_def)
  show ?thesis
    using sequence_verify_enforced [of "locked_checker 10 0" 8 "[100]" 110 0 "\<lambda>_. 0"] a b
    by (simp add: locked_defs)
qed

text \<open>C20: An absolute lock time in a script binds the block. If \<open>OP_CHECKLOCKTIMEVERIFY\<close> accepted the number \<open>n\<close> for an input and
  the transaction is final in a block, then the block is higher than \<open>n\<close>, or its cutoff time is later than \<open>n\<close>, as the
  threshold selects, unless \<open>n\<close> is zero.\<close>

theorem lock_time_verify_enforced:
  assumes "tsc_check_lock_time t n" "tsc_input_index t < length (tx_vin (tsc_tx t))"
    and "val_check_lock_time (tsc_tx t) height lock_time_cutoff"
  shows "0 \<le> sint n \<and> (sint n = 0 \<or> sint n < (if sint n < 500000000 then height else lock_time_cutoff))"
proof -
  let ?l = "tx_lock_time (tsc_tx t)"
  have n: "0 \<le> sint n" "sint n \<le> uint ?l" "uint ?l < 500000000 \<longleftrightarrow> sint n < 500000000"
    and seq: "in_sequence (tx_vin (tsc_tx t) ! tsc_input_index t) \<noteq> SEQUENCE_FINAL"
    using assms(1) by (auto simp: tsc_check_lock_time_def TSC_LOCKTIME_THRESHOLD_def Let_def split: if_splits)
  have "\<not> list_all (\<lambda>input. in_sequence input = SEQUENCE_FINAL) (tx_vin (tsc_tx t))"
    using seq assms(2) by (auto simp: list_all_length)
  moreover have "sint ?l = uint ?l" if "uint ?l < 500000000"
    using that order_trans [OF _ uint_ge_0 [of ?l], of "- 2147483648"]
    by (subst sint_uint, intro signed_take_bit_int_eq_self) simp_all
  ultimately show ?thesis
    using n assms(3) by (auto simp: val_check_lock_time_def word_less_def split: if_splits)
qed


theorem lock_time_verify_enforced_witness:
  "tsc_check_lock_time (locked_checker 0 200) 150 \<and> val_check_lock_time (locked_tx 0 200) 201 0 \<and> (150 :: int) < 201"
proof -
  have a: "tsc_check_lock_time (locked_checker 0 200) 150"
    by (simp add: tsc_check_lock_time_def TSC_LOCKTIME_THRESHOLD_def locked_defs)
  have b: "val_check_lock_time (locked_tx 0 200) 201 0"
    by (simp add: val_check_lock_time_def locked_defs)
  show ?thesis
    using lock_time_verify_enforced [OF a, of 201 0] a b by (simp add: locked_defs)
qed

section \<open>The values of inputs, in words\<close>

definition coin_value :: "coin option \<Rightarrow> int" where
  "coin_value c = (case c of Some coin \<Rightarrow> sint (out_value (coin_tx_out coin)) | None \<Rightarrow> 0)"

definition coin_spendable :: "int \<Rightarrow> coin option \<Rightarrow> bool" where
  "coin_spendable spend_height c \<longleftrightarrow>
     (case c of
        None \<Rightarrow> False
      | Some coin \<Rightarrow> money_range (out_value (coin_tx_out coin)) \<and>
          (coin_coinbase coin \<longrightarrow> sint (coin_height coin) + 100 \<le> spend_height))"

lemma amount_eqI: "sint a = sint (b :: amount) \<Longrightarrow> b = a"
  by (metis signed_word_eqI)

lemma check_input_coin_iff:
  assumes "money_range total_in"
  shows "check_input_coin h total_in c = Inr t \<longleftrightarrow>
    coin_spendable h c \<and> sint total_in + coin_value c \<le> MAX_MONEY \<and> sint t = sint total_in + coin_value c"
proof (cases "coin_spendable h c")
  case False
  then show ?thesis
    by (auto simp: check_input_coin_def coin_spendable_def Let_def COINBASE_MATURITY_def split: option.splits)
next
  case True
  then obtain coin where c: "c = Some coin" "money_range (out_value (coin_tx_out coin))"
    "coin_coinbase coin \<longrightarrow> sint (coin_height coin) + 100 \<le> h"
    by (auto simp: coin_spendable_def split: option.splits)
  have s: "sint (total_in + out_value (coin_tx_out coin)) = sint total_in + sint (out_value (coin_tx_out coin))"
    using assms c(2) by (rule money_range_add)
  have "check_input_coin h total_in c = Inr t \<longleftrightarrow>
    money_range (total_in + out_value (coin_tx_out coin)) \<and> t = total_in + out_value (coin_tx_out coin)"
    using c money_range_unspent [of coin] by (auto simp: check_input_coin_def COINBASE_MATURITY_def Let_def)
  moreover have "t = total_in + out_value (coin_tx_out coin) \<longleftrightarrow> sint t = sint total_in + coin_value c"
    using s c(1) by (metis coin_value_def option.simps(5) signed_word_eqI)
  ultimately show ?thesis using s c(1,2) assms True by (auto simp: money_range_def coin_value_def)
qed

lemma sum_coins_iff:
  "money_range total_in \<Longrightarrow> sum_coins h total_in cs = Inr t \<longleftrightarrow>
   (\<forall>c\<in>set cs. coin_spendable h c) \<and> sint total_in + (\<Sum>c\<leftarrow>cs. coin_value c) \<le> MAX_MONEY \<and>
   sint t = sint total_in + (\<Sum>c\<leftarrow>cs. coin_value c)"
proof (induction cs arbitrary: total_in)
  case Nil
  then show ?case by (auto simp: money_range_def intro: amount_eqI)
next
  case (Cons c cs)
  have nonneg: "0 \<le> (\<Sum>c\<leftarrow>cs. coin_value c)" if "\<forall>c\<in>set cs. coin_spendable h c"
    using that by (intro sum_list_nonneg) (auto simp: coin_spendable_def coin_value_def money_range_def split: option.splits)
  show ?case
  proof (cases "check_input_coin h total_in c")
    case (Inl e)
    then have "\<not> (coin_spendable h c \<and> sint total_in + coin_value c \<le> MAX_MONEY)"
      using check_input_coin_iff [OF Cons.prems, of h c "word_of_int (sint total_in + coin_value c)"] Cons.prems
      by (auto simp: coin_spendable_def coin_value_def money_range_def MAX_MONEY_value sint_arith(1) split: option.splits)
    then show ?thesis using Inl nonneg by fastforce
  next
    case (Inr t')
    then have t': "coin_spendable h c" "sint total_in + coin_value c \<le> MAX_MONEY" "sint t' = sint total_in + coin_value c"
      using check_input_coin_iff [OF Cons.prems] by blast+
    then have "money_range t'"
      using Cons.prems by (auto simp: money_range_def coin_spendable_def coin_value_def split: option.splits)
    from Cons.IH [OF this] show ?thesis using Inr t' by (simp add: add.assoc)
  qed
qed

lemma check_fee_iff:
  assumes "money_range total_in" "money_range (get_value_out tx)"
  shows "check_fee tx total_in = Inr fee \<longleftrightarrow>
    sint (get_value_out tx) \<le> sint total_in \<and> sint fee = sint total_in - sint (get_value_out tx)"
proof -
  have s: "sint (total_in - get_value_out tx) = sint total_in - sint (get_value_out tx)"
    using assms by (intro sint_arith) (auto simp: money_range_def MAX_MONEY_value)
  then show ?thesis using assms
    by (auto simp: check_fee_def Let_def money_range_def intro: amount_eqI)
qed


lemma check_tx_inputs_with_coins_iff:
  assumes "fst (check_transaction tx st)" "\<not> is_coinbase tx"
  shows "check_tx_inputs_with_coins tx cs h fee0 = Inr fee \<longleftrightarrow>
    (\<forall>c\<in>set cs. coin_spendable h c) \<and> (\<Sum>c\<leftarrow>cs. coin_value c) \<le> MAX_MONEY \<and>
    sint fee = (\<Sum>c\<leftarrow>cs. coin_value c) - (\<Sum>out\<leftarrow>tx_vout tx. sint (out_value out)) \<and> 0 \<le> sint fee"
proof -
  note out = value_out_exact [OF assms(1)]
  have nonneg: "0 \<le> (\<Sum>c\<leftarrow>cs. coin_value c)" if "\<forall>c\<in>set cs. coin_spendable h c"
    using that by (intro sum_list_nonneg) (auto simp: coin_spendable_def coin_value_def money_range_def split: option.splits)
  let ?t = "of_int (\<Sum>c\<leftarrow>cs. coin_value c) :: amount"
  have t: "sint ?t = (\<Sum>c\<leftarrow>cs. coin_value c)" "money_range ?t"
    if "\<forall>c\<in>set cs. coin_spendable h c" "(\<Sum>c\<leftarrow>cs. coin_value c) \<le> MAX_MONEY"
    using that nonneg sint_of_int_id [of "\<Sum>c\<leftarrow>cs. coin_value c"] by (auto simp: money_range_def MAX_MONEY_value)
  have eq: "check_tx_inputs_with_coins tx cs h fee0 = Inr fee \<longleftrightarrow>
      (\<exists>t. sum_coins h 0 cs = Inr t \<and> check_fee tx t = Inr fee)"
    using assms(2) by (auto simp: check_tx_inputs_with_coins_def res_bind_eq_Inr)
  show ?thesis
  proof (cases "(\<forall>c\<in>set cs. coin_spendable h c) \<and> (\<Sum>c\<leftarrow>cs. coin_value c) \<le> MAX_MONEY")
    case False
    then show ?thesis unfolding eq sum_coins_iff [OF money_range_0] by auto
  next
    case True
    then have "sum_coins h 0 cs = Inr t' \<longleftrightarrow> t' = ?t" for t'
      using sum_coins_iff [OF money_range_0, of h cs t'] t amount_eqI [of t' ?t] by auto
    then show ?thesis using True check_fee_iff [OF t(2), of tx fee] out t(1) unfolding eq by auto
  qed
qed

context coins_base
begin

lemma sum_view_correct:
  assumes "cache_inv storable base cc"
  shows "fst (sum_view base h total_in inputs cc) =
      sum_coins h total_in (map (\<lambda>input. cache_view base cc (in_prevout input)) inputs) \<and>
    cache_view base (snd (sum_view base h total_in inputs cc)) = cache_view base cc \<and>
    cache_inv storable base (snd (sum_view base h total_in inputs cc))"
  using assms
proof (induction inputs arbitrary: total_in cc)
  case (Cons input inputs)
  obtain c cc' where f: "fetch_coin base cc (in_prevout input) = (c, cc')" by fastforce
  note fc = fetch_coin_correct [OF Cons.prems f]
  show ?case
    using fc Cons.IH [of cc'] by (cases "check_input_coin h total_in c") (auto simp: f)
qed simp

lemma check_tx_inputs_correct:
  assumes "cache_inv storable base cc" "check_tx_inputs base tx cc h fee0 = (res, cc')"
  shows "res = check_tx_inputs_with_coins tx (map (\<lambda>input. cache_view base cc (in_prevout input)) (tx_vin tx)) h fee0 \<and>
    cache_view base cc' = cache_view base cc \<and> cache_inv storable base cc'"
  using assms sum_view_correct [OF assms(1), of h 0 "tx_vin tx"]
  by (auto simp: check_tx_inputs_def check_tx_inputs_with_coins_def case_prod_beta split: if_splits)

end

text \<open>C23: The check of a transaction's inputs against the cache over the database. For a transaction that passed the context-free
  checks it succeeds exactly when every input refers to an unspent coin in the money range, coinbases among them are at
  least a hundred blocks old, the inputs are together in the money range and cover the outputs; the fee is then
  the difference, without overflow, and the unspent outputs that the cache shows are unchanged.\<close>

theorem tx_inputs_exact:
  assumes "fst (check_transaction tx st)" "\<not> is_coinbase tx" "cache_inv (coin_ok D) (db_get_coin D w) cc"
    and "check_tx_inputs (db_get_coin D w) tx cc spend_height fee0 = (res, cc')"
  defines "coins \<equiv> map (\<lambda>input. cache_view (db_get_coin D w) cc (in_prevout input)) (tx_vin tx)"
  shows "(res = Inr fee \<longleftrightarrow>
      (\<forall>c\<in>set coins. coin_spendable spend_height c) \<and> (\<Sum>c\<leftarrow>coins. coin_value c) \<le> MAX_MONEY \<and>
      sint fee = (\<Sum>c\<leftarrow>coins. coin_value c) - (\<Sum>out\<leftarrow>tx_vout tx. sint (out_value out)) \<and> 0 \<le> sint fee) \<and>
    cache_view (db_get_coin D w) cc' = cache_view (db_get_coin D w) cc"
  using coins_db.view.check_tx_inputs_correct [OF assms(3,4)] check_tx_inputs_with_coins_iff [OF assms(1,2)]
  by (simp add: coins_def)


theorem tx_inputs_exact_witness:
  "fst (check_tx_inputs (db_get_coin (\<lambda>_. None) example_db) example_tx example_cache 120100 0) = Inr 4999995000"
proof -
  let ?b = "db_get_coin (\<lambda>_. None) example_db"
  have n: "\<not> is_coinbase example_tx" by (simp add: example_tx_def is_coinbase_def outpoint_is_null_def NULL_INDEX_def)
  have i: "cache_inv (coin_ok (\<lambda>_. None)) ?b example_cache"
    by (simp add: cache_inv_def map_inv_def entry_inv_def example_cache_facts example_coin_ok example_db_facts)
  have v: "map (\<lambda>input. cache_view ?b example_cache (in_prevout input)) (tx_vin example_tx) = [Some example_coin]"
    using example_coin_spendable
    by (simp add: example_tx_def cache_view_def map_view_def example_cache_facts entry_view_def example_op_def)
  obtain res cc' where r: "check_tx_inputs ?b example_tx example_cache 120100 0 = (res, cc')" by fastforce
  have "coin_spendable 120100 (Some example_coin)" "coin_value (Some example_coin) = 5000000000"
    by (simp_all add: coin_spendable_def coin_value_def example_coin_def coin_new_def money_range_def MAX_MONEY_value)
  then show ?thesis
    using tx_inputs_exact [OF example_tx_checked n i r, of 4999995000] r
    unfolding v by (simp add: example_tx_def MAX_MONEY_value)
qed


section \<open>The height in the coinbase\<close>

lemma le_nat_height_bytes: "le_nat (height_bytes v) = v"
proof (induction v rule: height_bytes.induct)
  case (1 v)
  then show ?case by (cases "v = 0") (simp_all add: height_bytes.simps unat_of_nat)
qed

lemma length_height_bytes: "v < 256 ^ k \<Longrightarrow> length (height_bytes v) \<le> k"
proof (induction k arbitrary: v)
  case (Suc k)
  then have "v div 256 < 256 ^ k" by (simp add: less_mult_imp_div_less mult.commute)
  from Suc.IH [OF this] show ?case by (simp add: height_bytes.simps [of v])
qed (simp add: height_bytes.simps)

lemma height_bytes_nonempty: "v \<noteq> 0 \<Longrightarrow> height_bytes v \<noteq> []"
  by (simp add: height_bytes.simps [of v])

text \<open>Above sixteen the encoding is a push of the bytes, with a zero where the top bit is taken.\<close>

lemma encode_height_push:
  assumes "16 < h" "h < 2 ^ 31"
  obtains bs where "encode_height h = of_nat (length bs) # bs" "length bs \<in> {1..5}" "le_nat bs = nat h"
proof -
  let ?b = "height_bytes (nat h)"
  have ne: "?b \<noteq> []" using assms(1) by (intro height_bytes_nonempty) simp
  moreover have "length ?b \<le> 4" using assms by (intro length_height_bytes) (simp add: nat_less_iff)
  ultimately have len: "1 \<le> length ?b" "length ?b \<le> 4" by (simp_all add: Suc_leI)
  let ?r = "if last ?b AND 0x80 \<noteq> 0 then ?b @ [0] else ?b"
  have "encode_height h = of_nat (length ?r) # ?r" using assms ne by (simp add: encode_height_def Let_def)
  moreover have "le_nat ?r = nat h" by (simp add: le_nat_height_bytes le_nat_append)
  ultimately show thesis using len by (intro that [of ?r]) (auto simp del: One_nat_def)
qed

text \<open>The height that a script starts with.\<close>

definition script_height :: "script \<Rightarrow> nat" where
  "script_height s =
     (let b = unat (hd s) in if b = 0 then 0 else if b \<le> 5 then le_nat (take b (tl s)) else b - 0x50)"

lemma script_height_encode:
  assumes "0 \<le> h" "h < 2 ^ 31" "take (length (encode_height h)) s = encode_height h"
  shows "script_height s = nat h"
proof -
  obtain r where s: "s = encode_height h @ r" using assms(3) by (metis append_take_drop_id)
  consider "h = 0" | (small) "1 \<le> h" "h \<le> 16" | (push) "16 < h" using assms(1) by linarith
  then show ?thesis
  proof cases
    case small
    then have "uint (of_int (0x50 + h) :: u8) = 0x50 + h" unfolding uint_word_of_int by simp
    then have "unat (of_int (0x50 + h) :: u8) = nat h + 80" using small by (simp add: unat_eq_nat_uint nat_add_distrib)
    then show ?thesis using small by (simp add: script_height_def encode_height_def s)
  next
    case push
    obtain bs where bs: "encode_height h = of_nat (length bs) # bs" "length bs \<in> {1..5}" "le_nat bs = nat h"
      using encode_height_push [OF push assms(2)] .
    have "unat (of_nat (length bs) :: u8) = length bs" using bs(2) by (intro unat_of_nat_id) simp
    then show ?thesis using bs by (auto simp: script_height_def s Let_def)
  qed (simp add: script_height_def encode_height_def s)
qed

lemma contextual_height:
  assumes "fst (contextual_check_block C blk prev_height mtp params st)"
    "bip34_height params \<le> prev_height + 1" "bip34_height params \<noteq> - 1" "0 \<le> prev_height + 1" "prev_height + 1 < 2 ^ 31"
  shows "script_height (hd (map in_script_sig (tx_vin (hd (blk_vtx blk))))) = nat (prev_height + 1)"
proof -
  have "blk_vtx blk \<noteq> [] \<and> tx_vin (hd (blk_vtx blk)) \<noteq> [] \<and>
      take (length (encode_height (prev_height + 1))) (in_script_sig (tx_vin (hd (blk_vtx blk)) ! 0)) = encode_height (prev_height + 1)"
    using assms(1-3) by (auto simp: contextual_check_block_def Let_def vs_invalid_def split: if_splits)
  then show ?thesis using script_height_encode [OF assms(4,5)] by (metis hd_conv_nth hd_map)
qed

lemma strip_tx_script_sigs: "map in_script_sig (tx_vin (strip_tx tx)) = map in_script_sig (tx_vin tx)"
  by (simp add: strip_tx_def strip_witness_def)

text \<open>C24: Coinbase transactions never repeat once their height is enforced, which is why \<open>connect_block\<close> may skip the
  check of overwritten outputs. If two blocks at heights from the activation of BIP 34 pass the contextual checks and the hash does not
  collide on their coinbases, the coinbases have the same identifier only if the heights are equal.\<close>

theorem coinbase_ids_unique:
  assumes "fst (contextual_check_block C a height_a mtp_a params st)" "fst (contextual_check_block C b height_b mtp_b params st')"
    and "bip34_height params \<noteq> - 1" "0 \<le> bip34_height params"
    and "bip34_height params \<le> height_a + 1" "bip34_height params \<le> height_b + 1" "height_a + 1 < 2 ^ 31" "height_b + 1 < 2 ^ 31"
    and "tx_ok True (hd (blk_vtx a))" "tx_ok True (hd (blk_vtx b))"
    and "inj_on (hash256 C) {serialize_transaction (hd (blk_vtx a)) False, serialize_transaction (hd (blk_vtx b)) False}"
    and "txid C (hd (blk_vtx a)) = txid C (hd (blk_vtx b))"
  shows "height_a = height_b"
proof -
  let ?a = "hd (blk_vtx a)" and ?b = "hd (blk_vtx b)"
  have "hash256 C (serialize_transaction ?a False) = hash256 C (serialize_transaction ?b False)"
    using assms(12) unfolding txid_def .
  then have "serialize_transaction ?a False = serialize_transaction ?b False"
    by (rule inj_onD [OF assms(11)]) simp_all
  then have "strip_tx ?a = strip_tx ?b" using serialize_strip_inj [OF assms(9,10)] by blast
  from arg_cong [OF this, of "\<lambda>tx. map in_script_sig (tx_vin tx)"]
  have sigs: "map in_script_sig (tx_vin ?a) = map in_script_sig (tx_vin ?b)" unfolding strip_tx_script_sigs .
  have "nat (height_a + 1) = nat (height_b + 1)"
    using contextual_height [OF assms(1,5,3)] contextual_height [OF assms(2,6,3)] assms(4-8) unfolding sigs by linarith
  then show ?thesis using assms(4-6) by linarith
qed


definition height_params :: consensus_params where
  "height_params = mainnet\<lparr>bip34_height := 1\<rparr>"

definition height_coinbase :: transaction where
  "height_coinbase = \<lparr>tx_version = 1,
     tx_vin = [\<lparr>in_prevout = \<lparr>prev_txid = replicate 32 0, prev_index = NULL_INDEX\<rparr>, in_script_sig = [1, 20],
       in_sequence = SEQUENCE_FINAL, in_witness = []\<rparr>],
     tx_vout = [\<lparr>out_value = 5000000000, out_script_pubkey = [OpDup]\<rparr>], tx_lock_time = 0\<rparr>"

definition height_block :: block where
  "height_block = \<lparr>blk_header = \<lparr>hdr_version = 4, hdr_prev_blockhash = replicate 32 0, hdr_merkle_root = replicate 32 0,
     hdr_time = 0, hdr_bits = 0, hdr_nonce = 0\<rparr>, blk_vtx = [height_coinbase]\<rparr>"

theorem coinbase_ids_unique_witness:
  "fst (contextual_check_block pad_crypto height_block 19 0 height_params (vs_new BlockUnset)) \<and>
   \<not> fst (contextual_check_block pad_crypto height_block 20 0 height_params (vs_new BlockUnset))"
proof -
  have ok: "tx_ok True height_coinbase"
    by (simp add: height_coinbase_def tx_ok_def tx_in_ok_def tx_out_ok_def witness_ok_def outpoint_ok_def fits_max_def unat_MAX_SIZE)
  have "encode_height 20 = [1, 20]" by (simp add: encode_height_def height_bytes.simps)
  then have a: "fst (contextual_check_block pad_crypto height_block 19 0 height_params (vs_new BlockUnset))"
    by (simp add: contextual_check_block_def height_block_def height_params_def mainnet_def height_coinbase_def
        val_check_lock_time_def)
  moreover have "\<not> fst (contextual_check_block pad_crypto height_block 20 0 height_params (vs_new BlockUnset))"
    using coinbase_ids_unique [OF a, of height_block 20 0 "vs_new BlockUnset"] ok
    by (auto simp: height_params_def height_block_def)
  ultimately show ?thesis ..
qed

text \<open>The walk over blocks of minimum difficulty returns.\<close>

lemma min_difficulty_walk_returns:
  assumes "arena_ok a" "interval \<noteq> 0"
  shows "idx < length a \<Longrightarrow> \<exists>bits. min_difficulty_walk a interval limit idx = Some bits"
proof (induction idx rule: less_induct)
  case (less idx)
  then show ?case
    using assms arena_prev(2) [OF assms(1) less.prems]
    by (subst min_difficulty_walk.simps) (auto simp: Let_def split: option.splits)
qed

end
