(* ===== verification/Connect.thy ===== *)
theory Connect
  imports BlockCheck
begin

text \<open>
  Connecting and disconnecting blocks: the undo data of \<open>qubitcoin-node/src/undo.rs\<close>, and \<open>connect_block\<close> and
  \<open>disconnect_block\<close> of \<open>qubitcoin-node/src/validation.rs\<close>. The cache of unspent outputs is threaded through; a call
  that fails keeps the changes it made to the cache, and a panic is \<open>None\<close>.
\<close>

section \<open>Undo data\<close>

record tx_undo =
  prev_coins :: "coin list"

record block_undo =
  bu_tx_undo :: "tx_undo list"

definition tx_undo_new :: tx_undo where
  "tx_undo_new = \<lparr>prev_coins = []\<rparr>"

definition block_undo_new :: block_undo where
  "block_undo_new = \<lparr>bu_tx_undo = []\<rparr>"

text \<open>Items whose encoder may panic, one after the other.\<close>

fun encode_all :: "('a \<Rightarrow> written option) \<Rightarrow> 'a list \<Rightarrow> written option" where
  "encode_all enc [] = Some ([], 0)"
| "encode_all enc (x # xs) =
     (case enc x of None \<Rightarrow> None | Some e \<Rightarrow> map_option (ser_seq e) (encode_all enc xs))"

definition encode_tx_undo :: "tx_undo \<Rightarrow> written option" where
  "encode_tx_undo u =
     map_option (ser_seq (write_compact_size (of_nat (length (prev_coins u))))) (encode_all encode_coin (prev_coins u))"

definition decode_tx_undo :: "decompress_key \<Rightarrow> tx_undo decoder" where
  "decode_tx_undo D r =
     res_bind (read_compact_size r) (\<lambda>(n, r).
       res_bind (decode_items (decode_coin D) (unat n) r) (\<lambda>(coins, r). Inr (\<lparr>prev_coins = coins\<rparr>, r)))"

definition encode_block_undo :: "block_undo \<Rightarrow> written option" where
  "encode_block_undo u =
     map_option (ser_seq (write_compact_size (of_nat (length (bu_tx_undo u))))) (encode_all encode_tx_undo (bu_tx_undo u))"

definition decode_block_undo :: "decompress_key \<Rightarrow> block_undo decoder" where
  "decode_block_undo D r =
     res_bind (read_compact_size r) (\<lambda>(n, r).
       res_bind (decode_items (decode_tx_undo D) (unat n) r) (\<lambda>(us, r). Inr (\<lparr>bu_tx_undo = us\<rparr>, r)))"

section \<open>Connecting a block\<close>

definition is_bip30_exception :: "int \<Rightarrow> hash_bytes \<Rightarrow> bool" where
  "is_bip30_exception height hash \<longleftrightarrow>
     height = 91842 \<and> hash_to_hex hash = ''00000000000a4d0a398161ffc163c503763b1f4360639393e0e4c8e300e0caec'' \<or>
     height = 91880 \<and> hash_to_hex hash = ''00000000000743f190a18c5577a3c2d2a1f610ae9601ac046a38084ccb7cd721''"

definition BIP34_IMPLIES_BIP30_LIMIT :: int where
  "BIP34_IMPLIES_BIP30_LIMIT = 1983702"

definition enforce_bip30 :: "hash_bytes \<Rightarrow> int \<Rightarrow> consensus_params \<Rightarrow> bool" where
  "enforce_bip30 hash height params \<longleftrightarrow>
     \<not> is_bip30_exception height hash \<and> (height < bip34_height params \<or> height \<ge> BIP34_IMPLIES_BIP30_LIMIT)"

text \<open>The first output that is there already, over the outputs of one transaction and over all transactions.\<close>

fun find_existing :: "coins_view \<Rightarrow> coins_cache \<Rightarrow> outpoint list \<Rightarrow> bool \<times> coins_cache" where
  "find_existing base cc [] = (False, cc)"
| "find_existing base cc (op # ops) =
     (let (c, cc) = fetch_coin base cc op in if c \<noteq> None then (True, cc) else find_existing base cc ops)"

definition tx_outpoints :: "crypto \<Rightarrow> transaction \<Rightarrow> outpoint list" where
  "tx_outpoints C tx = map (\<lambda>o'. \<lparr>prev_txid = txid C tx, prev_index = of_nat o'\<rparr>) [0..<length (tx_vout tx)]"

definition block_fail :: "string \<Rightarrow> string \<Rightarrow> block_validation_state" where
  "block_fail reason debug = snd (vs_invalid (vs_new BlockUnset) BlockConsensus reason debug)"

fun fetch_coins :: "coins_view \<Rightarrow> coins_cache \<Rightarrow> outpoint list \<Rightarrow> coin option list \<times> coins_cache" where
  "fetch_coins base cc [] = ([], cc)"
| "fetch_coins base cc (op # ops) =
     (let (c, cc) = fetch_coin base cc op; (cs, cc) = fetch_coins base cc ops in (c # cs, cc))"

text \<open>The script of the coin of the first input that spends an outpoint.\<close>

definition prevout_script :: "transaction \<Rightarrow> coin option list \<Rightarrow> outpoint \<Rightarrow> script option" where
  "prevout_script tx input_coins op =
     (case find (\<lambda>(inp, coin). in_prevout inp = op) (zip (tx_vin tx) input_coins) of
        Some (inp, Some c) \<Rightarrow> Some (out_script_pubkey (coin_tx_out c))
      | _ \<Rightarrow> None)"

fun spend_inputs :: "coins_view \<Rightarrow> coins_cache \<Rightarrow> outpoint list \<Rightarrow> coins_cache" where
  "spend_inputs base cc [] = cc"
| "spend_inputs base cc (op # ops) = spend_inputs base (snd (spend_coin base cc op)) ops"

record connect_state =
  cst_total_fees :: amount
  cst_sigops_cost :: int
  cst_undo :: "tx_undo list"
  cst_view :: coins_cache

type_synonym connect_result = "((block_validation_state \<times> coins_cache) + connect_state) option"

record connect_env =
  ce_base :: coins_view
  ce_params :: consensus_params
  ce_height :: int
  ce_mtp_at_height :: "(int \<Rightarrow> int) option"
  ce_block_time :: int
  ce_locktime_flags :: int
  ce_script_flags :: script_flags

text \<open>The check of relative lock times; the calculation asserts that there is a height for each input.\<close>

definition bip68_final :: "connect_env \<Rightarrow> transaction \<Rightarrow> coin option list \<Rightarrow> bool option" where
  "bip68_final env tx input_coins =
     (if ce_locktime_flags env = 0 then Some True
      else
        let prev_heights = map (\<lambda>c. case c of Some coin \<Rightarrow> sint (coin_height coin) | None \<Rightarrow> 0) input_coins;
            mtp_at = (\<lambda>h. case ce_mtp_at_height env of Some f \<Rightarrow> f h | None \<Rightarrow> ce_block_time env);
            prev_block_mtp = (case ce_mtp_at_height env of Some f \<Rightarrow> f (ce_height env - 1) | None \<Rightarrow> ce_block_time env)
        in map_option (\<lambda>(locks, _). evaluate_sequence_locks (ce_height env) prev_block_mtp locks)
             (calculate_sequence_locks tx (ce_locktime_flags env) prev_heights (ce_height env) mtp_at))"

text \<open>The inputs of a transaction that is not a coinbase.\<close>

definition connect_inputs :: "crypto \<Rightarrow> connect_env \<Rightarrow> transaction \<Rightarrow> connect_state \<Rightarrow> connect_result" where
  "connect_inputs C env tx st =
     (let (input_coins, view) = fetch_coins (ce_base env) (cst_view st) (map in_prevout (tx_vin tx)) in
      case check_tx_inputs_with_coins tx input_coins (ce_height env) 0 of
        Inl tx_state \<Rightarrow> Some (Inl (block_fail (vs_reject_reason tx_state) (vs_debug_message tx_state), view))
      | Inr tx_fee \<Rightarrow>
          let total_fees = cst_total_fees st + tx_fee in
          if \<not> money_range total_fees
          then Some (Inl (block_fail ''bad-txns-accumulated-fee-outofrange'' ''accumulated fee in the block out of range'', view))
          else case bip68_final env tx input_coins of
              None \<Rightarrow> None
            | Some False \<Rightarrow>
                Some (Inl (block_fail ''bad-txns-nonfinal''
                  (''contains a non-BIP68-final transaction '' @ hash_to_hex (txid C tx)), view))
            | Some True \<Rightarrow>
                let sigops = cst_sigops_cost st + get_transaction_sigop_cost tx (ce_script_flags env) (prevout_script tx input_coins) in
                if sigops > MAX_BLOCK_SIGOPS_COST then Some (Inl (block_fail ''bad-blk-sigops'' ''too many sigops'', view))
                else
                  let undo = \<lparr>prev_coins = map (\<lambda>c. case c of Some coin \<Rightarrow> coin | None \<Rightarrow> coin_empty) input_coins\<rparr>
                  in Some (Inr (st\<lparr>cst_total_fees := total_fees, cst_sigops_cost := sigops, cst_undo := cst_undo st @ [undo],
                       cst_view := spend_inputs (ce_base env) view (map in_prevout (tx_vin tx))\<rparr>)))"

definition connect_coinbase :: "connect_env \<Rightarrow> transaction \<Rightarrow> connect_state \<Rightarrow> connect_result" where
  "connect_coinbase env tx st =
     (let sigops = cst_sigops_cost st + get_transaction_sigop_cost tx (ce_script_flags env) (\<lambda>_. None) in
      if sigops > MAX_BLOCK_SIGOPS_COST then Some (Inl (block_fail ''bad-blk-sigops'' ''too many sigops'', cst_view st))
      else Some (Inr (st\<lparr>cst_sigops_cost := sigops\<rparr>)))"

definition connect_tx :: "crypto \<Rightarrow> connect_env \<Rightarrow> transaction \<Rightarrow> connect_state \<Rightarrow> connect_result" where
  "connect_tx C env tx st =
     (case (if \<not> is_coinbase tx then connect_inputs C env tx st else connect_coinbase env tx st) of
        None \<Rightarrow> None
      | Some (Inl e) \<Rightarrow> Some (Inl e)
      | Some (Inr st) \<Rightarrow>
          (case add_coins C (ce_base env) (cst_view st) tx (word_of_int (ce_height env)) False of
             None \<Rightarrow> None
           | Some view \<Rightarrow> Some (Inr (st\<lparr>cst_view := view\<rparr>))))"

fun connect_txs :: "crypto \<Rightarrow> connect_env \<Rightarrow> transaction list \<Rightarrow> connect_state \<Rightarrow> connect_result" where
  "connect_txs C env [] st = Some (Inr st)"
| "connect_txs C env (tx # txs) st =
     (case connect_tx C env tx st of
        None \<Rightarrow> None
      | Some (Inl e) \<Rightarrow> Some (Inl e)
      | Some (Inr st) \<Rightarrow> connect_txs C env txs st)"

definition script_check_message :: "script_check_error \<Rightarrow> string" where
  "script_check_message e =
     ''script verification failed: tx_index='' @ show_nat (sce_tx_index e) @ '', input_index='' @ show_nat (sce_input_index e) @
     '', error='' @ script_error_name (sce_error e)"

text \<open>The checks that follow the loop: the scripts and the reward.\<close>

definition connect_finish ::
  "crypto \<Rightarrow> 'k secp_scheme \<Rightarrow> connect_env \<Rightarrow> block \<Rightarrow> bool \<Rightarrow> connect_state \<Rightarrow> (block_validation_state + block_undo) option" where
  "connect_finish C K env blk skip_scripts st =
     (let checks = collect_block_script_checks C (blk_vtx blk) (map prev_coins (cst_undo st)) (ce_script_flags env);
          scripts = (if skip_scripts then Inr () else verify_scripts_parallel C K checks) in
      case scripts of
        Inl e \<Rightarrow> Some (Inl (block_fail ''mandatory-script-verify-flag-failed'' (script_check_message e)))
      | Inr _ \<Rightarrow>
          (case get_block_subsidy (ce_height env) (ce_params env) of
             None \<Rightarrow> None
           | Some subsidy \<Rightarrow>
               let max_reward = cst_total_fees st + word_of_int subsidy in
               if blk_vtx blk \<noteq> [] \<and> sint (get_value_out (hd (blk_vtx blk))) > sint max_reward
               then Some (Inl (block_fail ''bad-cb-amount''
                      (''coinbase pays too much (actual='' @ show_int (sint (get_value_out (hd (blk_vtx blk)))) @
                       '' vs limit='' @ show_int (sint max_reward) @ '')'')))
               else Some (Inr \<lparr>bu_tx_undo = cst_undo st\<rparr>)))"

definition connect_env_of ::
  "crypto \<Rightarrow> coins_view \<Rightarrow> block \<Rightarrow> int \<Rightarrow> consensus_params \<Rightarrow> (int \<Rightarrow> int) option \<Rightarrow> connect_env" where
  "connect_env_of C base blk height params mtp_at_height =
     \<lparr>ce_base = base, ce_params = params, ce_height = height, ce_mtp_at_height = mtp_at_height,
      ce_block_time = uint (hdr_time (blk_header blk)),
      ce_locktime_flags = (if height \<ge> csv_height params then LOCKTIME_VERIFY_SEQUENCE else 0),
      ce_script_flags = get_block_script_flags height (header_block_hash C (blk_header blk)) params\<rparr>"

definition connect_block ::
  "crypto \<Rightarrow> 'k secp_scheme \<Rightarrow> coins_view \<Rightarrow> block \<Rightarrow> int \<Rightarrow> coins_cache \<Rightarrow> consensus_params \<Rightarrow> (int \<Rightarrow> int) option \<Rightarrow> bool \<Rightarrow>
   ((block_validation_state + block_undo) \<times> coins_cache) option" where
  "connect_block C K base blk height view params mtp_at_height skip_scripts =
     (let (existing, view) =
            (if enforce_bip30 (header_block_hash C (blk_header blk)) height params
             then find_existing base view (concat (map (tx_outpoints C) (blk_vtx blk))) else (False, view)) in
      if existing then Some (Inl (block_fail ''bad-txns-BIP30'' ''tried to overwrite transaction''), view)
      else
        let env = connect_env_of C base blk height params mtp_at_height;
            inputs = concat (map (\<lambda>tx. map in_prevout (tx_vin tx)) (filter (\<lambda>tx. \<not> is_coinbase tx) (blk_vtx blk)));
            view = prefetch_coins base view inputs in
        case connect_txs C env (blk_vtx blk) \<lparr>cst_total_fees = 0, cst_sigops_cost = 0, cst_undo = [], cst_view = view\<rparr> of
          None \<Rightarrow> None
        | Some (Inl (e, view)) \<Rightarrow> Some (Inl e, view)
        | Some (Inr st) \<Rightarrow> map_option (\<lambda>r. (r, cst_view st)) (connect_finish C K env blk skip_scripts st))"

section \<open>Disconnecting a block\<close>

datatype disconnect_result = DisconnectOk | DisconnectUnclean | DisconnectFailed

definition apply_tx_in_undo ::
  "coins_view \<Rightarrow> coin \<Rightarrow> coins_cache \<Rightarrow> outpoint \<Rightarrow> (disconnect_result \<times> coins_cache) option" where
  "apply_tx_in_undo base undo_coin view op =
     (let (existing, view) = fetch_coin base view op; clean = (existing = None) in
      if coin_is_spent undo_coin then Some (DisconnectFailed, view)
      else map_option (\<lambda>view. (if clean then DisconnectOk else DisconnectUnclean, view)) (add_coin view op undo_coin (\<not> clean)))"

text \<open>Removing the outputs of a transaction, with whether all were as the block says.\<close>

fun remove_outputs ::
  "coins_view \<Rightarrow> hash_bytes \<Rightarrow> int \<Rightarrow> bool \<Rightarrow> nat \<Rightarrow> tx_out list \<Rightarrow> bool \<times> coins_cache \<Rightarrow> bool \<times> coins_cache" where
  "remove_outputs base tx_id height is_cb i [] (clean, view) = (clean, view)"
| "remove_outputs base tx_id height is_cb i (output # outputs) (clean, view) =
     (if is_unspendable (out_script_pubkey output) then remove_outputs base tx_id height is_cb (i + 1) outputs (clean, view)
      else
        let (spent, view) = spend_coin base view \<lparr>prev_txid = tx_id, prev_index = of_nat i\<rparr>;
            same = (case spent of
                      Some c \<Rightarrow> out_value (coin_tx_out c) = out_value output \<and>
                        out_script_pubkey (coin_tx_out c) = out_script_pubkey output \<and>
                        coin_height c = word_of_int height \<and> coin_coinbase c = is_cb
                    | None \<Rightarrow> False)
        in remove_outputs base tx_id height is_cb (i + 1) outputs (clean \<and> same, view))"

text \<open>Restoring inputs, given in the order in which they are restored.\<close>

fun restore_inputs ::
  "coins_view \<Rightarrow> (outpoint \<times> coin) list \<Rightarrow> bool \<times> coins_cache \<Rightarrow> (disconnect_result \<times> coins_cache) option" where
  "restore_inputs base [] (clean, view) = Some (if clean then DisconnectOk else DisconnectUnclean, view)"
| "restore_inputs base ((op, undo_coin) # rest) (clean, view) =
     (case apply_tx_in_undo base undo_coin view op of
        None \<Rightarrow> None
      | Some (DisconnectFailed, view) \<Rightarrow> Some (DisconnectFailed, view)
      | Some (DisconnectUnclean, view) \<Rightarrow> restore_inputs base rest (False, view)
      | Some (DisconnectOk, view) \<Rightarrow> restore_inputs base rest (clean, view))"

text \<open>The transactions with their positions, from the last.\<close>

fun disconnect_txs ::
  "crypto \<Rightarrow> coins_view \<Rightarrow> int \<Rightarrow> tx_undo list \<Rightarrow> (nat \<times> transaction) list \<Rightarrow> bool \<times> coins_cache \<Rightarrow>
   (disconnect_result \<times> coins_cache) option" where
  "disconnect_txs C base height undo [] (clean, view) = Some (if clean then DisconnectOk else DisconnectUnclean, view)"
| "disconnect_txs C base height undo ((tx_idx, tx) # rest) (clean, view) =
     (let (clean, view) = remove_outputs base (txid C tx) height (is_coinbase tx) 0 (tx_vout tx) (clean, view) in
      if is_coinbase tx then disconnect_txs C base height undo rest (clean, view)
      else if tx_idx = 0 \<or> tx_idx - 1 \<ge> length undo then None
      else
        let coins = prev_coins (undo ! (tx_idx - 1)) in
        if length coins \<noteq> length (tx_vin tx) then Some (DisconnectFailed, view)
        else case restore_inputs base (rev (zip (map in_prevout (tx_vin tx)) coins)) (clean, view) of
            None \<Rightarrow> None
          | Some (DisconnectFailed, view) \<Rightarrow> Some (DisconnectFailed, view)
          | Some (DisconnectUnclean, view) \<Rightarrow> disconnect_txs C base height undo rest (False, view)
          | Some (DisconnectOk, view) \<Rightarrow> disconnect_txs C base height undo rest (True, view))"

definition disconnect_block ::
  "crypto \<Rightarrow> coins_view \<Rightarrow> block \<Rightarrow> int \<Rightarrow> coins_cache \<Rightarrow> block_undo \<Rightarrow> (disconnect_result \<times> coins_cache) option" where
  "disconnect_block C base blk height view undo =
     (if length (bu_tx_undo undo) \<noteq> length (blk_vtx blk) - 1 then Some (DisconnectFailed, view)
      else disconnect_txs C base height (bu_tx_undo undo) (rev (enumerate 0 (blk_vtx blk))) (True, view))"


section \<open>Blocks as functions on the set of unspent outputs\<close>

text \<open>The coins of the outputs of a transaction, without the unspendable ones.\<close>

fun out_coins :: "hash_bytes \<Rightarrow> nat \<Rightarrow> tx_out list \<Rightarrow> u32 \<Rightarrow> bool \<Rightarrow> (outpoint \<times> coin) list" where
  "out_coins tx_id i [] height is_cb = []"
| "out_coins tx_id i (output # outputs) height is_cb =
     (if is_unspendable (out_script_pubkey output) then []
      else [(\<lparr>prev_txid = tx_id, prev_index = of_nat i\<rparr>, coin_new output height is_cb)]) @
     out_coins tx_id (i + 1) outputs height is_cb"

definition tx_coins :: "crypto \<Rightarrow> int \<Rightarrow> transaction \<Rightarrow> (outpoint \<times> coin) list" where
  "tx_coins C height tx = out_coins (txid C tx) 0 (tx_vout tx) (word_of_int height) (is_coinbase tx)"

definition tx_inputs :: "transaction \<Rightarrow> outpoint list" where
  "tx_inputs tx = (if is_coinbase tx then [] else map in_prevout (tx_vin tx))"

definition remove_ops :: "outpoint set \<Rightarrow> coins_view \<Rightarrow> coins_view" where
  "remove_ops ops v = (\<lambda>op. if op \<in> ops then None else v op)"

definition apply_tx :: "crypto \<Rightarrow> int \<Rightarrow> transaction \<Rightarrow> coins_view \<Rightarrow> coins_view" where
  "apply_tx C height tx v = remove_ops (set (tx_inputs tx)) v ++ map_of (tx_coins C height tx)"

definition unapply_tx :: "crypto \<Rightarrow> int \<Rightarrow> transaction \<Rightarrow> coin list \<Rightarrow> coins_view \<Rightarrow> coins_view" where
  "unapply_tx C height tx coins v = remove_ops (fst ` set (tx_coins C height tx)) v ++ map_of (zip (tx_inputs tx) coins)"

text \<open>The coins that the transactions spend, and that they are all there.\<close>

fun undos :: "crypto \<Rightarrow> int \<Rightarrow> transaction list \<Rightarrow> coins_view \<Rightarrow> tx_undo list" where
  "undos C height [] v = []"
| "undos C height (tx # txs) v =
     (if is_coinbase tx then [] else [\<lparr>prev_coins = map (\<lambda>op. the (v op)) (tx_inputs tx)\<rparr>]) @
     undos C height txs (apply_tx C height tx v)"

fun inputs_present :: "crypto \<Rightarrow> int \<Rightarrow> transaction list \<Rightarrow> coins_view \<Rightarrow> bool" where
  "inputs_present C height [] v = True"
| "inputs_present C height (tx # txs) v \<longleftrightarrow>
     (\<forall>op\<in>set (tx_inputs tx). v op \<noteq> None) \<and> inputs_present C height txs (apply_tx C height tx v)"

text \<open>No output of the transactions is there yet; no coin of the set is unspendable.\<close>

definition outputs_fresh :: "crypto \<Rightarrow> transaction list \<Rightarrow> coins_view \<Rightarrow> bool" where
  "outputs_fresh C txs v \<longleftrightarrow> (\<forall>tx\<in>set txs. \<forall>op\<in>set (tx_outpoints C tx). v op = None)"

definition utxo_ok :: "coins_view \<Rightarrow> bool" where
  "utxo_ok v \<longleftrightarrow> (\<forall>op c. v op = Some c \<longrightarrow> \<not> is_unspendable (out_script_pubkey (coin_tx_out c)))"

definition connectable_tx :: "transaction \<Rightarrow> bool" where
  "connectable_tx tx \<longleftrightarrow> fst (check_transaction tx (vs_new TxUnset))"

lemma of_nat_index_eq: "i < 2 ^ 32 \<Longrightarrow> j < 2 ^ 32 \<Longrightarrow> (of_nat i :: u32) = of_nat j \<longleftrightarrow> i = j"
  by (simp add: unat_of_nat_id word_unat_eq_iff)

lemma out_coins_keys:
  "op \<in> fst ` set (out_coins tx_id i outs h cb) \<Longrightarrow>
   \<exists>j. i \<le> j \<and> j < i + length outs \<and> op = \<lparr>prev_txid = tx_id, prev_index = of_nat j\<rparr>"
proof (induction outs arbitrary: i)
  case (Cons out outs)
  then consider "op = \<lparr>prev_txid = tx_id, prev_index = of_nat i\<rparr>" | "op \<in> fst ` set (out_coins tx_id (i + 1) outs h cb)"
    by (auto split: if_splits)
  then show ?case
  proof cases
    case 2
    from Cons.IH [OF this] obtain j where j: "i + 1 \<le> j" "j < i + 1 + length outs"
      "op = \<lparr>prev_txid = tx_id, prev_index = of_nat j\<rparr>" by blast
    then show ?thesis by (intro exI [of _ j]) simp
  qed auto
qed simp

lemma out_coins_distinct: "i + length outs \<le> 2 ^ 32 \<Longrightarrow> distinct (map fst (out_coins tx_id i outs h cb))"
proof (induction outs arbitrary: i)
  case (Cons out outs)
  have "\<lparr>prev_txid = tx_id, prev_index = of_nat i\<rparr> \<notin> fst ` set (out_coins tx_id (i + 1) outs h cb)"
    using out_coins_keys [of _ tx_id "i + 1" outs h cb] Cons.prems of_nat_index_eq [of i] by fastforce
  then show ?case using Cons by simp
qed simp

lemma tx_coins_keys: "fst ` set (tx_coins C h tx) \<subseteq> set (tx_outpoints C tx)"
proof
  fix op
  assume "op \<in> fst ` set (tx_coins C h tx)"
  from out_coins_keys [OF this [unfolded tx_coins_def]] show "op \<in> set (tx_outpoints C tx)"
    by (auto simp: tx_outpoints_def)
qed

lemma tx_outpoints_txid: "op \<in> set (tx_outpoints C tx) \<Longrightarrow> prev_txid op = txid C tx"
  by (auto simp: tx_outpoints_def)

lemma tx_coins_none: "op \<notin> set (tx_outpoints C tx) \<Longrightarrow> map_of (tx_coins C h tx) op = None"
  using tx_coins_keys [of C h tx] by (auto simp: map_of_eq_None_iff)

lemma apply_tx_other: "op \<notin> set (tx_inputs tx) \<Longrightarrow> op \<notin> set (tx_outpoints C tx) \<Longrightarrow> apply_tx C h tx v op = v op"
  by (simp add: apply_tx_def remove_ops_def map_add_def tx_coins_none)

lemma apply_tx_none: "v op = None \<Longrightarrow> op \<notin> set (tx_outpoints C tx) \<Longrightarrow> apply_tx C h tx v op = None"
  by (simp add: apply_tx_def remove_ops_def map_add_def tx_coins_none)

lemma outputs_fresh_Cons:
  assumes "outputs_fresh C (tx # txs) v" "distinct (map (txid C) (tx # txs))"
  shows "\<forall>op\<in>set (tx_outpoints C tx). v op = None" "outputs_fresh C txs (apply_tx C h tx v)"
proof -
  show "\<forall>op\<in>set (tx_outpoints C tx). v op = None" using assms(1) by (simp add: outputs_fresh_def)
  have "op \<notin> set (tx_outpoints C tx)" if "t \<in> set txs" "op \<in> set (tx_outpoints C t)" for t op
    using that assms(2) tx_outpoints_txid [of op C t] tx_outpoints_txid [of op C tx]
    by (metis distinct.simps(2) image_eqI list.map(2) set_map)
  then show "outputs_fresh C txs (apply_tx C h tx v)"
    using assms(1) by (auto simp: outputs_fresh_def intro!: apply_tx_none)
qed

lemma out_coins_spendable: "(op, c) \<in> set (out_coins tx_id i outs h cb) \<Longrightarrow> \<not> is_unspendable (out_script_pubkey (coin_tx_out c))"
  by (induction outs arbitrary: i) (auto simp: coin_new_def split: if_splits)

lemma utxo_ok_apply:
  assumes "utxo_ok v"
  shows "utxo_ok (apply_tx C h tx v)"
  unfolding utxo_ok_def
proof (intro allI impI)
  fix op c
  assume "apply_tx C h tx v op = Some c"
  then consider "map_of (tx_coins C h tx) op = Some c" | "v op = Some c"
    by (auto simp: apply_tx_def remove_ops_def map_add_Some_iff split: if_splits)
  then show "\<not> is_unspendable (out_script_pubkey (coin_tx_out c))"
  proof cases
    case 1
    then show ?thesis unfolding tx_coins_def by (rule out_coins_spendable [OF map_of_SomeD])
  next
    case 2
    then show ?thesis using assms unfolding utxo_ok_def by blast
  qed
qed

lemma unapply_apply:
  assumes "\<forall>op\<in>set (tx_outpoints C tx). v op = None" "\<forall>op\<in>set (tx_inputs tx). v op \<noteq> None"
  shows "unapply_tx C h tx (map (\<lambda>op. the (v op)) (tx_inputs tx)) (apply_tx C h tx v) = v"
proof
  fix op
  have z: "map_of (zip (tx_inputs tx) (map (\<lambda>op. the (v op)) (tx_inputs tx))) op =
      (if op \<in> set (tx_inputs tx) then v op else None)"
    using assms(2) by (simp add: map_of_zip_map)
  show "unapply_tx C h tx (map (\<lambda>op. the (v op)) (tx_inputs tx)) (apply_tx C h tx v) op = v op"
  proof (cases "op \<in> set (tx_inputs tx)")
    case True
    then show ?thesis using bspec [OF assms(2) True] z by (auto simp: unapply_tx_def map_add_def)
  next
    case False
    have "op \<in> fst ` set (tx_coins C h tx) \<Longrightarrow> v op = None"
      using subsetD [OF tx_coins_keys] bspec [OF assms(1)] by fast
    moreover have "op \<notin> fst ` set (tx_coins C h tx) \<Longrightarrow> map_of (tx_coins C h tx) op = None" by (simp add: map_of_eq_None_iff)
    moreover have "map_of (zip (tx_inputs tx) (map (\<lambda>op. the (v op)) (tx_inputs tx))) op = None" using False z by simp
    ultimately show ?thesis using False
      by (cases "op \<in> fst ` set (tx_coins C h tx)")
        (simp_all only: unapply_tx_def apply_tx_def remove_ops_def map_add_def option.case if_True if_False simp_thms)
  qed
qed

lemma undos_append: "undos C h (as @ bs) v = undos C h as v @ undos C h bs (fold (apply_tx C h) as v)"
  by (induction as arbitrary: v) auto

lemma inputs_present_append:
  "inputs_present C h (as @ bs) v \<longleftrightarrow> inputs_present C h as v \<and> inputs_present C h bs (fold (apply_tx C h) as v)"
  by (induction as arbitrary: v) auto

lemma length_undos: "\<forall>tx\<in>set txs. \<not> is_coinbase tx \<Longrightarrow> length (undos C h txs v) = length txs"
  by (induction txs arbitrary: v) auto


lemma fold_utxo_ok: "utxo_ok v \<Longrightarrow> utxo_ok (fold (apply_tx C h) txs v)"
  by (induction txs arbitrary: v) (simp_all add: utxo_ok_apply)

lemma fold_fresh:
  "outputs_fresh C (txs @ [tx]) v \<Longrightarrow> distinct (map (txid C) (txs @ [tx])) \<Longrightarrow>
   \<forall>op\<in>set (tx_outpoints C tx). fold (apply_tx C h) txs v op = None"
proof (induction txs arbitrary: v)
  case (Cons t txs)
  then show ?case using outputs_fresh_Cons(2) [of C t "txs @ [tx]" v h] by simp
qed (simp add: outputs_fresh_def)

lemma out_coins_unspent:
  "\<forall>out\<in>set outs. 0 \<le> sint (out_value out) \<Longrightarrow> (op, c) \<in> set (out_coins tx_id i outs h cb) \<Longrightarrow> \<not> coin_is_spent c"
  by (induction outs arbitrary: i) (auto simp: coin_new_def coin_is_spent_def tx_out_is_null_def split: if_splits)

lemma apply_unspent:
  assumes "\<And>op c. v op = Some c \<Longrightarrow> \<not> coin_is_spent c" "connectable_tx tx" "apply_tx C h tx v op = Some c"
  shows "\<not> coin_is_spent c"
proof -
  have o: "\<forall>out\<in>set (tx_vout tx). 0 \<le> sint (out_value out)"
    using assms(2) check_transaction_ok [of tx] unfolding connectable_tx_def tx_rules_def by blast
  consider "map_of (tx_coins C h tx) op = Some c" | "v op = Some c"
    using assms(3) by (auto simp: apply_tx_def remove_ops_def map_add_Some_iff split: if_splits)
  then show ?thesis
    by cases (use out_coins_unspent [OF o] map_of_SomeD assms(1) in \<open>fastforce simp: tx_coins_def\<close>)+
qed

lemma fold_unspent:
  "(\<And>op c. v op = Some c \<Longrightarrow> \<not> coin_is_spent c) \<Longrightarrow> \<forall>tx\<in>set txs. connectable_tx tx \<Longrightarrow>
   fold (apply_tx C h) txs v op = Some c \<Longrightarrow> \<not> coin_is_spent c"
proof (induction txs arbitrary: v)
  case (Cons tx txs)
  show ?case
    by (rule Cons.IH [of "apply_tx C h tx v"]) (use Cons.prems apply_unspent [OF Cons.prems(1)] in auto)
qed simp

text \<open>The fee of a transaction, and the fees of a block.\<close>

definition tx_gain :: "transaction \<Rightarrow> coins_view \<Rightarrow> int" where
  "tx_gain tx v = (if is_coinbase tx then 0
     else (\<Sum>op\<leftarrow>tx_inputs tx. coin_value (v op)) - (\<Sum>out\<leftarrow>tx_vout tx. sint (out_value out)))"

fun block_fees :: "crypto \<Rightarrow> int \<Rightarrow> transaction list \<Rightarrow> coins_view \<Rightarrow> int" where
  "block_fees C height [] v = 0"
| "block_fees C height (tx # txs) v = tx_gain tx v + block_fees C height txs (apply_tx C height tx v)"

section \<open>The cache follows the functions\<close>

lemma encode_items_length: "(\<And>x. x \<in> set xs \<Longrightarrow> fst (enc x) \<noteq> []) \<Longrightarrow> length xs \<le> length (fst (encode_items enc xs))"
proof (induction xs)
  case (Cons x xs)
  then have "1 \<le> length (fst (enc x))" "length xs \<le> length (fst (encode_items enc xs))" by (auto simp: Suc_le_eq)
  then show ?case by (simp del: One_nat_def length_greater_0_conv)
qed simp

lemma vout_bound: "length (tx_vout tx) \<le> length (serialize_transaction tx False)"
proof -
  have "length (tx_vout tx) \<le> length (fst (encode_items encode_tx_out (tx_vout tx)))"
    by (rule encode_items_length) (rule tx_out_nonempty)
  then show ?thesis by (simp add: serialize_transaction_def serialize_plain encode_vec_def)
qed

lemma subsidy_bound:
  assumes "get_block_subsidy h params = Some s"
  shows "0 \<le> s \<and> s \<le> 5000000000"
proof -
  have "drop_bit n (5000000000 :: int) \<le> 5000000000" for n
    using zdiv_mono2 [of 5000000000 1 "2 ^ n"] by (simp add: drop_bit_eq_div)
  then show ?thesis using assms
    by (auto simp: get_block_subsidy_def Let_def COIN_def split: if_splits)
qed

lemma subsidy_fee:
  "money_range fees \<Longrightarrow> get_block_subsidy h params = Some s \<Longrightarrow> sint (fees + word_of_int s) = sint fees + s"
  using subsidy_bound [of h params s] sint_of_int_id [of s] by (subst sint_arith(1)) (auto simp: money_range_def MAX_MONEY_value)

section \<open>Reasons of a rejection\<close>

lemma check_input_coin_reason:
  "check_input_coin h t c = Inl e \<Longrightarrow> vs_reject_reason e \<in> {''bad-txns-inputs-missingorspent'', ''bad-txns-premature-spend-of-coinbase'',
     ''bad-txns-inputvalues-outofrange''}"
  by (auto simp: check_input_coin_def vs_invalid_def Let_def split: option.splits if_splits)

lemma sum_coins_reason:
  "sum_coins h t cs = Inl e \<Longrightarrow> vs_reject_reason e \<in> {''bad-txns-inputs-missingorspent'', ''bad-txns-premature-spend-of-coinbase'',
     ''bad-txns-inputvalues-outofrange''}"
proof (induction cs arbitrary: t)
  case (Cons c cs)
  then show ?case using check_input_coin_reason [of h t c] by (cases "check_input_coin h t c") auto
qed simp

lemma check_inputs_reason:
  assumes "check_tx_inputs_with_coins tx coins h f = Inl e"
  shows "vs_reject_reason e \<noteq> ''bad-cb-amount''"
  using assms sum_coins_reason [of h 0 coins]
  by (cases "sum_coins h 0 coins") (auto simp: check_tx_inputs_with_coins_def check_fee_def vs_invalid_def Let_def split: if_splits)

lemma connect_tx_reason:
  assumes "connect_tx C env tx st = Some (Inl (e, cc))"
  shows "vs_reject_reason e \<noteq> ''bad-cb-amount''"
proof -
  have b: "vs_reject_reason (block_fail r d) = r" for r d by (simp add: block_fail_def vs_invalid_def)
  have "connect_inputs C env tx st = Some (Inl (e, cc)) \<or> connect_coinbase env tx st = Some (Inl (e, cc))"
    using assms by (auto simp: connect_tx_def split: option.splits sum.splits if_splits)
  then show ?thesis
    using check_inputs_reason
    by (fastforce simp: connect_inputs_def connect_coinbase_def Let_def b split: prod.splits sum.splits if_splits option.splits bool.splits)
qed

lemma connect_txs_reason: "connect_txs C env txs st = Some (Inl (e, cc)) \<Longrightarrow> vs_reject_reason e \<noteq> ''bad-cb-amount''"
proof (induction txs arbitrary: st)
  case (Cons tx txs)
  then show ?case using connect_tx_reason [of C env tx st e cc] by (auto split: option.splits sum.splits)
qed simp

section \<open>Connecting and disconnecting over a cache\<close>

abbreviation cache_sound :: "coins_view \<Rightarrow> coins_cache \<Rightarrow> bool" where
  "cache_sound base cc \<equiv> cache_inv (\<lambda>_. True) base cc"

locale unspent_base =
  fixes base :: coins_view
  assumes unspent: "base op = Some c \<Longrightarrow> \<not> coin_is_spent c"

sublocale unspent_base < coins_base base "\<lambda>_. True"
  by unfold_locales (rule unspent)

lemma map_add_shift: "k \<notin> dom m \<Longrightarrow> (v(k \<mapsto> c)) ++ m = v ++ (m(k \<mapsto> c))"
  by (simp add: map_add_upd_left)

context unspent_base
begin

lemma view_unspent: "cache_view base cc op = Some c \<Longrightarrow> \<not> coin_is_spent c"
  using unspent by (auto simp: cache_view_def map_view_def entry_view_def split: option.splits if_splits)

lemma fetch_coins_correct:
  "cache_sound base cc \<Longrightarrow> fetch_coins base cc ops = (cs, cc') \<Longrightarrow>
   cs = map (cache_view base cc) ops \<and> cache_view base cc' = cache_view base cc \<and> cache_sound base cc'"
proof (induction ops arbitrary: cc cs cc')
  case (Cons op ops)
  obtain c cc1 where f: "fetch_coin base cc op = (c, cc1)" by fastforce
  obtain cs1 cc2 where g: "fetch_coins base cc1 ops = (cs1, cc2)" by fastforce
  show ?case using fetch_coin_correct [OF Cons.prems(1) f] Cons.IH [OF _ g] Cons.prems(2) f g by auto
qed simp

lemma find_existing_correct:
  "cache_sound base cc \<Longrightarrow> find_existing base cc ops = (found, cc') \<Longrightarrow>
   (found \<longleftrightarrow> (\<exists>op\<in>set ops. cache_view base cc op \<noteq> None)) \<and> cache_view base cc' = cache_view base cc \<and> cache_sound base cc'"
proof (induction ops arbitrary: cc)
  case (Cons op ops)
  obtain c cc1 where f: "fetch_coin base cc op = (c, cc1)" by fastforce
  note fc = fetch_coin_correct [OF Cons.prems(1) f]
  show ?case
  proof (cases "cache_view base cc op")
    case None
    then have "find_existing base cc1 ops = (found, cc')" using Cons.prems(2) f fc by simp
    then show ?thesis using fc None Cons.IH [of cc1] by simp
  next
    case (Some c')
    then have "found" "cc' = cc1" using Cons.prems(2) f fc by simp_all
    then show ?thesis using fc Some by simp
  qed
qed simp

lemma spend_inputs_correct:
  "cache_sound base cc \<Longrightarrow>
   cache_view base (spend_inputs base cc ops) = remove_ops (set ops) (cache_view base cc) \<and> cache_sound base (spend_inputs base cc ops)"
proof (induction ops arbitrary: cc)
  case (Cons op ops)
  obtain c cc1 where f: "spend_coin base cc op = (c, cc1)" by fastforce
  show ?case
    using spend_coin_correct [OF Cons.prems f] Cons.IH [of cc1] f by (auto simp: remove_ops_def fun_eq_iff)
qed (simp add: remove_ops_def)

lemma add_coin_fresh:
  assumes "cache_sound base cc" "\<not> coin_is_spent coin" "cache_view base cc op = None"
  shows "\<exists>cc'. add_coin cc op coin overwrite = Some cc' \<and> cache_sound base cc' \<and>
    cache_view base cc' = (if is_unspendable (out_script_pubkey (coin_tx_out coin)) then cache_view base cc
       else (cache_view base cc)(op \<mapsto> coin))"
proof (rule add_coin_correct [OF assms(1) _ assms(2)])
  show "cc_cache cc op = None \<Longrightarrow> base op = None" using assms(3) by (simp add: cache_view_def map_view_at)
qed (use assms(3) in simp_all)

lemma add_outputs_correct:
  assumes "cache_sound base cc" "\<forall>out\<in>set outs. 0 \<le> sint (out_value out)" "i + length outs \<le> 2 ^ 32"
    "\<forall>j. i \<le> j \<and> j < i + length outs \<longrightarrow> cache_view base cc \<lparr>prev_txid = tx_id, prev_index = of_nat j\<rparr> = None"
  shows "\<exists>cc'. add_outputs base cc tx_id i outs h cb False = Some cc' \<and> cache_sound base cc' \<and>
    cache_view base cc' = cache_view base cc ++ map_of (out_coins tx_id i outs h cb)"
  using assms
proof (induction outs arbitrary: i cc)
  case (Cons out outs)
  let ?op = "\<lparr>prev_txid = tx_id, prev_index = of_nat i :: u32\<rparr>" and ?c = "coin_new out h cb"
  have "\<not> coin_is_spent ?c"
    using Cons.prems(2) by (auto simp: coin_is_spent_def coin_new_def tx_out_is_null_def)
  moreover have "cache_view base cc ?op = None" using Cons.prems(4) by simp
  ultimately obtain cc1 where cc1: "add_coin cc ?op ?c cb = Some cc1" "cache_sound base cc1"
    "cache_view base cc1 = (if is_unspendable (out_script_pubkey out) then cache_view base cc else (cache_view base cc)(?op \<mapsto> ?c))"
    using add_coin_fresh [OF Cons.prems(1), of ?c ?op cb] by (auto simp: coin_new_def)
  have "cache_view base cc1 \<lparr>prev_txid = tx_id, prev_index = of_nat j\<rparr> = None" if "i + 1 \<le> j" "j < i + 1 + length outs" for j
    using that Cons.prems(3,4) cc1(3) of_nat_index_eq [of i j] by simp
  then obtain cc2 where cc2: "add_outputs base cc1 tx_id (i + 1) outs h cb False = Some cc2" "cache_sound base cc2"
    "cache_view base cc2 = cache_view base cc1 ++ map_of (out_coins tx_id (i + 1) outs h cb)"
    using Cons.IH [OF cc1(2), of "i + 1"] Cons.prems(2,3) by auto
  have "?op \<notin> fst ` set (out_coins tx_id (i + 1) outs h cb)" if "\<not> is_unspendable (out_script_pubkey out)"
    using out_coins_distinct [of i "out # outs" tx_id h cb] Cons.prems(3) that by simp
  then have "?op \<notin> dom (map_of (out_coins tx_id (i + 1) outs h cb))" if "\<not> is_unspendable (out_script_pubkey out)"
    using that by (simp add: dom_map_of_conv_image_fst)
  then show ?case
    using cc1 cc2 by (cases "is_unspendable (out_script_pubkey out)") (simp_all add: map_add_upd_left del: fun_upd_apply)
qed simp


lemma add_coins_correct:
  assumes "cache_sound base cc" "connectable_tx tx" "\<forall>op\<in>set (tx_outpoints C tx). cache_view base cc op = None"
  shows "\<exists>cc'. add_coins C base cc tx (word_of_int h) False = Some cc' \<and> cache_sound base cc' \<and>
    cache_view base cc' = cache_view base cc ++ map_of (tx_coins C h tx)"
  unfolding add_coins_def tx_coins_def
proof (rule add_outputs_correct [OF assms(1)])
  have r: "tx_rules tx" using assms(2) check_transaction_ok unfolding connectable_tx_def by blast
  then show "\<forall>out\<in>set (tx_vout tx). 0 \<le> sint (out_value out)" by (simp add: tx_rules_def)
  show "0 + length (tx_vout tx) \<le> 2 ^ 32" using r vout_bound [of tx] by (simp add: tx_rules_def MAX_BLOCK_WEIGHT_def)
  show "\<forall>j. 0 \<le> j \<and> j < 0 + length (tx_vout tx) \<longrightarrow> cache_view base cc \<lparr>prev_txid = txid C tx, prev_index = of_nat j\<rparr> = None"
    using assms(3) by (simp add: tx_outpoints_def)
qed

lemma connect_inputs_correct:
  assumes "cache_sound base (cst_view st)" "connectable_tx tx" "\<not> is_coinbase tx" "ce_base env = base"
    "connect_inputs C env tx st = Some (Inr st')" "money_range (cst_total_fees st)"
  defines "v \<equiv> cache_view base (cst_view st)"
  shows "cache_sound base (cst_view st') \<and> cache_view base (cst_view st') = remove_ops (set (tx_inputs tx)) v \<and>
    (\<forall>op\<in>set (tx_inputs tx). v op \<noteq> None) \<and>
    cst_undo st' = cst_undo st @ [\<lparr>prev_coins = map (\<lambda>op. the (v op)) (tx_inputs tx)\<rparr>] \<and> money_range (cst_total_fees st') \<and>
    sint (cst_total_fees st') =
      sint (cst_total_fees st) + (\<Sum>op\<leftarrow>tx_inputs tx. coin_value (v op)) - (\<Sum>out\<leftarrow>tx_vout tx. sint (out_value out))"
proof -
  let ?ops = "map in_prevout (tx_vin tx)"
  obtain coins cc where f: "fetch_coins base (cst_view st) ?ops = (coins, cc)" by fastforce
  note fc = fetch_coins_correct [OF assms(1) f]
  obtain fee where fee: "check_tx_inputs_with_coins tx coins (ce_height env) 0 = Inr fee"
    and m: "money_range (cst_total_fees st + fee)"
    and st': "cst_total_fees st' = cst_total_fees st + fee" "cst_view st' = spend_inputs base cc ?ops"
      "cst_undo st' = cst_undo st @ [\<lparr>prev_coins = map (\<lambda>c. case c of Some coin \<Rightarrow> coin | None \<Rightarrow> coin_empty) coins\<rparr>]"
    using assms(5) f
    by (auto simp: connect_inputs_def assms(4) Let_def split: sum.splits option.splits if_splits bool.splits)
  have e: "(\<forall>c\<in>set coins. coin_spendable (ce_height env) c)" "(\<Sum>c\<leftarrow>coins. coin_value c) \<le> MAX_MONEY"
    "sint fee = (\<Sum>c\<leftarrow>coins. coin_value c) - (\<Sum>out\<leftarrow>tx_vout tx. sint (out_value out))" "0 \<le> sint fee"
    using check_tx_inputs_with_coins_iff [OF assms(2) [unfolded connectable_tx_def] assms(3)] fee by blast+
  have ins: "tx_inputs tx = ?ops" using assms(3) by (simp add: tx_inputs_def)
  have present: "\<forall>op\<in>set ?ops. v op \<noteq> None" using e(1) fc by (force simp: v_def coin_spendable_def split: option.splits)
  have undo: "map (\<lambda>c. case c of Some coin \<Rightarrow> coin | None \<Rightarrow> coin_empty) coins = map (\<lambda>op. the (v op)) ?ops"
    using fc present by (auto simp: v_def)
  have "money_range fee" using e(2-4) value_out_exact [OF assms(2) [unfolded connectable_tx_def]] by (simp add: money_range_def)
  then have "sint (cst_total_fees st + fee) = sint (cst_total_fees st) + sint fee" using assms(6) by (intro money_range_add)
  then show ?thesis
    using spend_inputs_correct [of cc ?ops] fc st' m e(3) present undo by (simp add: ins v_def o_def)
qed



lemma connect_tx_correct:
  assumes "cache_sound base (cst_view st)" "connectable_tx tx" "ce_base env = base" "money_range (cst_total_fees st)"
    "connect_tx C env tx st = Some (Inr st')" "\<forall>op\<in>set (tx_outpoints C tx). cache_view base (cst_view st) op = None"
  defines "v \<equiv> cache_view base (cst_view st)"
  shows "cache_sound base (cst_view st') \<and> cache_view base (cst_view st') = apply_tx C (ce_height env) tx v \<and>
    (\<forall>op\<in>set (tx_inputs tx). v op \<noteq> None) \<and>
    cst_undo st' = cst_undo st @ (if is_coinbase tx then [] else [\<lparr>prev_coins = map (\<lambda>op. the (v op)) (tx_inputs tx)\<rparr>]) \<and>
    money_range (cst_total_fees st') \<and> sint (cst_total_fees st') = sint (cst_total_fees st) + tx_gain tx v"
proof -
  obtain st1 cc where st1: "(if \<not> is_coinbase tx then connect_inputs C env tx st else connect_coinbase env tx st) = Some (Inr st1)"
    and add: "add_coins C base (cst_view st1) tx (word_of_int (ce_height env)) False = Some cc" and st': "st' = st1\<lparr>cst_view := cc\<rparr>"
    using assms(3,5) by (auto simp: connect_tx_def split: option.splits sum.splits)
  have one: "cache_sound base (cst_view st1) \<and> cache_view base (cst_view st1) = remove_ops (set (tx_inputs tx)) v \<and>
    (\<forall>op\<in>set (tx_inputs tx). v op \<noteq> None) \<and>
    cst_undo st1 = cst_undo st @ (if is_coinbase tx then [] else [\<lparr>prev_coins = map (\<lambda>op. the (v op)) (tx_inputs tx)\<rparr>]) \<and>
    money_range (cst_total_fees st1) \<and> sint (cst_total_fees st1) = sint (cst_total_fees st) + tx_gain tx v"
  proof (cases "is_coinbase tx")
    case True
    then have "cst_view st1 = cst_view st" "cst_undo st1 = cst_undo st" "cst_total_fees st1 = cst_total_fees st"
      using st1 by (auto simp: connect_coinbase_def Let_def split: if_splits)
    then show ?thesis using True assms(1,4) by (simp add: tx_inputs_def remove_ops_def v_def tx_gain_def)
  next
    case False
    then show ?thesis
      using connect_inputs_correct [OF assms(1,2) False assms(3) _ assms(4), of C st1] st1 by (simp add: v_def tx_gain_def)
  qed
  then have "\<forall>op\<in>set (tx_outpoints C tx). cache_view base (cst_view st1) op = None"
    using assms(6) by (simp add: remove_ops_def v_def)
  from add_coins_correct [OF _ assms(2) this, of "ce_height env"] show ?thesis
    using one add st' by (auto simp: apply_tx_def)
qed

lemma connect_txs_correct:
  assumes "cache_sound base (cst_view st)" "\<forall>tx\<in>set txs. connectable_tx tx" "ce_base env = base" "money_range (cst_total_fees st)"
    "connect_txs C env txs st = Some (Inr st')" "outputs_fresh C txs (cache_view base (cst_view st))" "distinct (map (txid C) txs)"
  defines "v \<equiv> cache_view base (cst_view st)"
  shows "cache_sound base (cst_view st') \<and> cache_view base (cst_view st') = fold (apply_tx C (ce_height env)) txs v \<and>
    inputs_present C (ce_height env) txs v \<and> cst_undo st' = cst_undo st @ undos C (ce_height env) txs v \<and>
    money_range (cst_total_fees st') \<and>
    sint (cst_total_fees st') = sint (cst_total_fees st) + block_fees C (ce_height env) txs v"
  using assms(1,2,4-7) unfolding v_def
proof (induction txs arbitrary: st)
  case (Cons tx txs)
  obtain st1 where st1: "connect_tx C env tx st = Some (Inr st1)" "connect_txs C env txs st1 = Some (Inr st')"
    using Cons.prems(4) by (auto split: option.splits sum.splits)
  have c: "connectable_tx tx" "\<forall>tx\<in>set txs. connectable_tx tx" using Cons.prems(2) by simp_all
  note fresh = outputs_fresh_Cons [OF Cons.prems(5,6)]
  note one = connect_tx_correct [OF Cons.prems(1) c(1) assms(3) Cons.prems(3) st1(1) fresh(1)]
  have "outputs_fresh C txs (cache_view base (cst_view st1))" using fresh(2) one by simp
  then show ?case using Cons.IH [OF _ c(2) _ st1(2)] one Cons.prems(6) by simp
qed simp

lemma remove_outputs_correct:
  assumes "cache_sound base cc" "i + length outs \<le> 2 ^ 32"
    "\<forall>(op, c)\<in>set (out_coins tx_id i outs (word_of_int h) cb). cache_view base cc op = Some c"
  shows "\<exists>cc'. remove_outputs base tx_id h cb i outs (clean, cc) = (clean, cc') \<and> cache_sound base cc' \<and>
    cache_view base cc' = remove_ops (fst ` set (out_coins tx_id i outs (word_of_int h) cb)) (cache_view base cc)"
  using assms
proof (induction outs arbitrary: i cc)
  case (Cons out outs)
  show ?case
  proof (cases "is_unspendable (out_script_pubkey out)")
    case True
    then show ?thesis using Cons.IH [OF Cons.prems(1), of "i + 1"] Cons.prems by simp
  next
    case False
    let ?op = "\<lparr>prev_txid = tx_id, prev_index = of_nat i :: u32\<rparr>" and ?rest = "out_coins tx_id (i + 1) outs (word_of_int h) cb"
    obtain c cc1 where sp: "spend_coin base cc ?op = (c, cc1)" by fastforce
    note sc = spend_coin_correct [OF Cons.prems(1) sp]
    have c: "c = Some (coin_new out (word_of_int h) cb)" using sc Cons.prems(3) False by simp
    have "?op \<notin> fst ` set ?rest" using out_coins_distinct [of i "out # outs" tx_id "word_of_int h" cb] Cons.prems(2) False by simp
    then have r: "\<forall>(op, c)\<in>set ?rest. cache_view base cc1 op = Some c" using sc Cons.prems(3) by force
    have "cache_sound base cc1" "i + 1 + length outs \<le> 2 ^ 32" using sc Cons.prems(2) by simp_all
    from Cons.IH [OF this r] obtain cc2 where "remove_outputs base tx_id h cb (i + 1) outs (clean, cc1) = (clean, cc2)" "cache_sound base cc2"
      "cache_view base cc2 = remove_ops (fst ` set ?rest) (cache_view base cc1)"
      by blast
    then show ?thesis using sp c sc False by (auto simp: coin_new_def remove_ops_def fun_eq_iff)
  qed
qed (simp add: remove_ops_def)

lemma restore_inputs_correct:
  assumes "cache_sound base cc" "distinct (map fst pairs)" "\<forall>(op, c)\<in>set pairs. cache_view base cc op = None"
    "\<forall>(op, c)\<in>set pairs. \<not> coin_is_spent c \<and> \<not> is_unspendable (out_script_pubkey (coin_tx_out c))"
  shows "\<exists>cc'. restore_inputs base pairs (True, cc) = Some (DisconnectOk, cc') \<and> cache_sound base cc' \<and>
    cache_view base cc' = cache_view base cc ++ map_of pairs"
  using assms
proof (induction pairs arbitrary: cc)
  case (Cons p pairs)
  obtain op c where p: "p = (op, c)" by fastforce
  obtain r cc1 where f: "fetch_coin base cc op = (r, cc1)" by fastforce
  note fc = fetch_coin_correct [OF Cons.prems(1) f]
  have none: "cache_view base cc1 op = None" "r = None" using fc Cons.prems(3) p by auto
  then obtain cc2 where cc2: "add_coin cc1 op c False = Some cc2" "cache_sound base cc2"
    "cache_view base cc2 = (cache_view base cc)(op \<mapsto> c)"
    using add_coin_fresh [of cc1 c op False] fc Cons.prems(4) p by auto
  have a: "apply_tx_in_undo base c cc op = Some (DisconnectOk, cc2)"
    using f none cc2 Cons.prems(4) p by (simp add: apply_tx_in_undo_def)
  have n: "op \<notin> fst ` set pairs" using Cons.prems(2) p by simp
  then have "\<forall>(op, c)\<in>set pairs. cache_view base cc2 op = None" using Cons.prems(3) cc2(3) p by force
  then obtain cc3 where "restore_inputs base pairs (True, cc2) = Some (DisconnectOk, cc3)" "cache_sound base cc3"
    "cache_view base cc3 = cache_view base cc2 ++ map_of pairs"
    using Cons.IH [OF cc2(2)] Cons.prems(2,4) p by auto
  then show ?case using p a cc2(3) n by (simp add: map_add_upd_left dom_map_of_conv_image_fst del: fun_upd_apply)
qed simp


lemma disconnect_step:
  assumes "cache_sound base cc" "connectable_tx tx" "\<not> is_coinbase tx" "utxo_ok v"
    "\<forall>op\<in>set (tx_outpoints C tx). v op = None" "\<forall>op\<in>set (tx_inputs tx). v op \<noteq> None" "\<And>op c. v op = Some c \<Longrightarrow> \<not> coin_is_spent c"
    "cache_view base cc = apply_tx C h tx v" "us ! k = \<lparr>prev_coins = map (\<lambda>op. the (v op)) (tx_inputs tx)\<rparr>" "k < length us"
  shows "\<exists>cc'. cache_sound base cc' \<and> cache_view base cc' = v \<and>
    disconnect_txs C base h us ((Suc k, tx) # rest) (True, cc) = disconnect_txs C base h us rest (True, cc')"
proof -
  have rules: "tx_rules tx" using assms(2) check_transaction_ok unfolding connectable_tx_def by blast
  have ins: "tx_inputs tx = map in_prevout (tx_vin tx)" using assms(3) by (simp add: tx_inputs_def)
  let ?coins = "map (\<lambda>op. the (v op)) (tx_inputs tx)"
  let ?pairs = "rev (zip (tx_inputs tx) ?coins)"
  have len: "0 + length (tx_vout tx) \<le> 2 ^ 32" using rules vout_bound [of tx] by (simp add: tx_rules_def MAX_BLOCK_WEIGHT_def)
  have there: "\<forall>(op, c)\<in>set (tx_coins C h tx). cache_view base cc op = Some c"
    using out_coins_distinct [OF len, of "txid C tx" "word_of_int h" "is_coinbase tx"] assms(8)
    by (auto simp: apply_tx_def tx_coins_def map_add_Some_iff)
  obtain cc1 where cc1: "remove_outputs base (txid C tx) h False 0 (tx_vout tx) (True, cc) = (True, cc1)" "cache_sound base cc1"
    "cache_view base cc1 = remove_ops (fst ` set (tx_coins C h tx)) (apply_tx C h tx v)"
    using remove_outputs_correct [OF assms(1) len there [unfolded tx_coins_def], of True] assms(3,8) by (auto simp: tx_coins_def)
  have d: "distinct (tx_inputs tx)" using rules ins by (simp add: tx_rules_def)
  have pairs: "set ?pairs = (\<lambda>op. (op, the (v op))) ` set (tx_inputs tx)" by (simp add: zip_map2 zip_same_conv_map image_image)
  have "map fst ?pairs = rev (tx_inputs tx)" by (simp add: rev_map [symmetric])
  then have "distinct (map fst ?pairs)" using d by simp
  moreover have "\<forall>(op, c)\<in>set ?pairs. cache_view base cc1 op = None"
  proof -
    have "cache_view base cc1 op = None" if "op \<in> set (tx_inputs tx)" for op
      using that map_of_eq_None_iff [of "tx_coins C h tx" op]
      by (cases "op \<in> fst ` set (tx_coins C h tx)") (simp_all add: cc1(3) remove_ops_def apply_tx_def map_add_def)
    then show ?thesis unfolding pairs by auto
  qed
  moreover have "\<forall>(op, c)\<in>set ?pairs. \<not> coin_is_spent c \<and> \<not> is_unspendable (out_script_pubkey (coin_tx_out c))"
    unfolding pairs using assms(4,6,7) by (auto simp: utxo_ok_def)
  ultimately obtain cc2 where cc2: "restore_inputs base ?pairs (True, cc1) = Some (DisconnectOk, cc2)" "cache_sound base cc2"
    "cache_view base cc2 = cache_view base cc1 ++ map_of ?pairs"
    using restore_inputs_correct [OF cc1(2)] by blast
  have "map_of ?pairs = map_of (zip (tx_inputs tx) ?coins)" 
    using d \<open>distinct (map fst ?pairs)\<close> by (subst map_of_inject_set) simp_all
  then have "cache_view base cc2 = unapply_tx C h tx ?coins (apply_tx C h tx v)" by (simp add: cc2(3) cc1(3) unapply_tx_def)
  then have "cache_view base cc2 = v" using unapply_apply [OF assms(5,6)] by simp
  moreover have "disconnect_txs C base h us ((Suc k, tx) # rest) (True, cc) = disconnect_txs C base h us rest (True, cc2)"
    using cc1(1) cc2(1) assms(3,9,10) ins by simp
  ultimately show ?thesis using cc2(2) by blast
qed


lemma disconnect_coinbase:
  assumes "cache_sound base cc" "connectable_tx tx" "is_coinbase tx" "\<forall>op\<in>set (tx_outpoints C tx). v op = None"
    "cache_view base cc = apply_tx C h tx v"
  shows "\<exists>cc'. disconnect_txs C base h us [(0, tx)] (True, cc) = Some (DisconnectOk, cc') \<and>
    cache_sound base cc' \<and> cache_view base cc' = v"
proof -
  have rules: "tx_rules tx" using assms(2) check_transaction_ok unfolding connectable_tx_def by blast
  have len: "0 + length (tx_vout tx) \<le> 2 ^ 32" using rules vout_bound [of tx] by (simp add: tx_rules_def MAX_BLOCK_WEIGHT_def)
  have there: "\<forall>(op, c)\<in>set (tx_coins C h tx). cache_view base cc op = Some c"
    using out_coins_distinct [OF len, of "txid C tx" "word_of_int h" "is_coinbase tx"] assms(5)
    by (auto simp: apply_tx_def tx_coins_def map_add_Some_iff)
  obtain cc1 where cc1: "remove_outputs base (txid C tx) h True 0 (tx_vout tx) (True, cc) = (True, cc1)" "cache_sound base cc1"
    "cache_view base cc1 = remove_ops (fst ` set (tx_coins C h tx)) (apply_tx C h tx v)"
    using remove_outputs_correct [OF assms(1) len there [unfolded tx_coins_def], of True] assms(3,5) by (auto simp: tx_coins_def)
  have none: "tx_inputs tx = []" using assms(3) by (simp add: tx_inputs_def)
  have "cache_view base cc1 = v" using unapply_apply [OF assms(4), of h] none by (simp add: unapply_tx_def cc1(3))
  then show ?thesis using cc1(1,2) assms(3) by simp
qed

lemma disconnect_txs_correct:
  assumes "cache_sound base cc" "\<forall>tx\<in>set (cb # txs). connectable_tx tx" "is_coinbase cb" "\<forall>tx\<in>set txs. \<not> is_coinbase tx"
    "utxo_ok v" "\<And>op c. v op = Some c \<Longrightarrow> \<not> coin_is_spent c"
    "outputs_fresh C (cb # txs) v" "distinct (map (txid C) (cb # txs))" "inputs_present C h (cb # txs) v"
    "cache_view base cc = fold (apply_tx C h) (cb # txs) v"
  shows "\<exists>cc'. disconnect_txs C base h (undos C h (cb # txs) v @ extra) (rev (enumerate 0 (cb # txs))) (True, cc) =
      Some (DisconnectOk, cc') \<and> cache_sound base cc' \<and> cache_view base cc' = v"
  using assms(1,2,4,7-10)
proof (induction txs arbitrary: cc extra rule: rev_induct)
  case Nil
  then show ?case
    using disconnect_coinbase [OF Nil.prems(1) _ assms(3), of C v h extra] assms(3) by (simp add: outputs_fresh_def)
next
  case (snoc tx txs)
  let ?v = "fold (apply_tx C h) (cb # txs) v"
  have front: "\<forall>tx\<in>set (cb # txs). connectable_tx tx" "\<forall>tx\<in>set txs. \<not> is_coinbase tx" "outputs_fresh C (cb # txs) v"
    "distinct (map (txid C) (cb # txs))" "inputs_present C h (cb # txs) v" "inputs_present C h [tx] ?v"
    using snoc.prems inputs_present_append [of C h "cb # txs" "[tx]" v] by (auto simp: outputs_fresh_def)
  have u: "undos C h (cb # txs @ [tx]) v = undos C h (cb # txs) v @ [\<lparr>prev_coins = map (\<lambda>op. the (?v op)) (tx_inputs tx)\<rparr>]"
    using undos_append [of C h "cb # txs" "[tx]" v] snoc.prems(3) by simp
  have len: "length (undos C h (cb # txs) v) = length txs"
    using length_undos [OF front(2)] assms(3) by simp
  obtain cc1 where cc1: "cache_sound base cc1" "cache_view base cc1 = ?v"
    "disconnect_txs C base h (undos C h (cb # txs @ [tx]) v @ extra) ((Suc (length txs), tx) # rev (enumerate 0 (cb # txs))) (True, cc) =
     disconnect_txs C base h (undos C h (cb # txs @ [tx]) v @ extra) (rev (enumerate 0 (cb # txs))) (True, cc1)"
  proof -
    have "utxo_ok ?v" by (rule fold_utxo_ok [OF assms(5)])
    moreover have "\<forall>op\<in>set (tx_outpoints C tx). ?v op = None" by (rule fold_fresh [OF snoc.prems(4,5) [unfolded append_Cons [symmetric]]])
    moreover have "\<And>op c. ?v op = Some c \<Longrightarrow> \<not> coin_is_spent c" by (rule fold_unspent [OF assms(6) front(1)])
    moreover have "cache_view base cc = apply_tx C h tx ?v" using snoc.prems(7) by simp
    moreover have "(undos C h (cb # txs @ [tx]) v @ extra) ! length txs = \<lparr>prev_coins = map (\<lambda>op. the (?v op)) (tx_inputs tx)\<rparr>"
      "length txs < length (undos C h (cb # txs @ [tx]) v @ extra)"
      unfolding u using len by (simp_all add: nth_append del: undos.simps)
    moreover have "connectable_tx tx" "\<not> is_coinbase tx" "\<forall>op\<in>set (tx_inputs tx). ?v op \<noteq> None"
      using snoc.prems(2,3) front(6) by simp_all
    ultimately show thesis using disconnect_step [OF snoc.prems(1)] that by blast
  qed
  have "rev (enumerate 0 (cb # txs @ [tx])) = (Suc (length txs), tx) # rev (enumerate 0 (cb # txs))"
    using enumerate_append_eq [of 0 "cb # txs" "[tx]"] by simp
  moreover have "undos C h (cb # txs @ [tx]) v @ extra =
      undos C h (cb # txs) v @ ([\<lparr>prev_coins = map (\<lambda>op. the (?v op)) (tx_inputs tx)\<rparr>] @ extra)"
    by (simp only: u append_assoc)
  ultimately show ?case
    using snoc.IH [OF cc1(1) front(1-5) cc1(2), of "[\<lparr>prev_coins = map (\<lambda>op. the (?v op)) (tx_inputs tx)\<rparr>] @ extra"] cc1(3)
    by (simp only:)
qed


text \<open>The loop over the transactions of a block, behind the search for outputs that exist already.\<close>

lemma connect_block_loop:
  assumes "cache_sound base cc" "\<forall>tx\<in>set (blk_vtx blk). connectable_tx tx" "distinct (map (txid C) (blk_vtx blk))"
    "enforce_bip30 (header_block_hash C (blk_header blk)) h params \<or> outputs_fresh C (blk_vtx blk) (cache_view base cc)"
    "(if enforce_bip30 (header_block_hash C (blk_header blk)) h params
      then find_existing base cc (concat (map (tx_outpoints C) (blk_vtx blk))) else (False, cc)) = (False, cc1)"
    "connect_txs C (connect_env_of C base blk h params mtp) (blk_vtx blk)
       \<lparr>cst_total_fees = 0, cst_sigops_cost = 0, cst_undo = [], cst_view = prefetch_coins base cc1 inputs\<rparr> = Some (Inr st)"
  defines "v \<equiv> cache_view base cc"
  shows "cache_sound base (cst_view st) \<and> cache_view base (cst_view st) = fold (apply_tx C h) (blk_vtx blk) v \<and>
    inputs_present C h (blk_vtx blk) v \<and> cst_undo st = undos C h (blk_vtx blk) v \<and> outputs_fresh C (blk_vtx blk) v \<and>
    money_range (cst_total_fees st) \<and> sint (cst_total_fees st) = block_fees C h (blk_vtx blk) v"
proof -
  let ?hash = "header_block_hash C (blk_header blk)" and ?ops = "concat (map (tx_outpoints C) (blk_vtx blk))"
  let ?env = "connect_env_of C base blk h params mtp"
  define st0 where "st0 = \<lparr>cst_total_fees = 0, cst_sigops_cost = 0, cst_undo = [], cst_view = prefetch_coins base cc1 inputs\<rparr>"
  have st: "connect_txs C ?env (blk_vtx blk) st0 = Some (Inr st)" using assms(6) by (simp add: st0_def)
  have "cache_view base cc1 = v \<and> cache_sound base cc1 \<and> outputs_fresh C (blk_vtx blk) v"
  proof (cases "enforce_bip30 ?hash h params")
    case True
    then have "find_existing base cc ?ops = (False, cc1)" using assms(5) by simp
    from find_existing_correct [OF assms(1) this] show ?thesis by (auto simp: v_def outputs_fresh_def)
  next
    case False
    then show ?thesis using assms(1,4,5) by (simp add: v_def)
  qed
  then have c1: "cache_view base (cst_view st0) = v" "cache_sound base (cst_view st0)" "outputs_fresh C (blk_vtx blk) v"
    using prefetch_coins_correct [of cc1 inputs] by (simp_all add: st0_def)
  have env: "ce_base ?env = base" "ce_height ?env = h" by (simp_all add: connect_env_of_def)
  have m0: "money_range (cst_total_fees st0)" "sint (cst_total_fees st0) = 0" "cst_undo st0 = []"
    by (simp_all add: st0_def money_range_0)
  show ?thesis
    using connect_txs_correct [OF c1(2) assms(2) env(1) m0(1) st _ assms(3), unfolded c1(1) m0 env(2), OF c1(3)] c1(3) by simp
qed

lemma connect_block_correct:
  assumes "cache_sound base cc" "\<forall>tx\<in>set (blk_vtx blk). connectable_tx tx" "distinct (map (txid C) (blk_vtx blk))"
    "enforce_bip30 (header_block_hash C (blk_header blk)) h params \<or> outputs_fresh C (blk_vtx blk) (cache_view base cc)"
    "connect_block C K base blk h cc params mtp skip = Some (Inr undo, cc')"
  defines "v \<equiv> cache_view base cc"
  shows "cache_sound base cc' \<and> cache_view base cc' = fold (apply_tx C h) (blk_vtx blk) v \<and> inputs_present C h (blk_vtx blk) v \<and>
    bu_tx_undo undo = undos C h (blk_vtx blk) v \<and> outputs_fresh C (blk_vtx blk) v \<and>
    (blk_vtx blk \<noteq> [] \<longrightarrow> (\<exists>subsidy. get_block_subsidy h params = Some subsidy \<and>
      sint (get_value_out (hd (blk_vtx blk))) \<le> block_fees C h (blk_vtx blk) v + subsidy))"
proof -
  let ?env = "connect_env_of C base blk h params mtp"
  obtain cc1 inputs st where ex: "(if enforce_bip30 (header_block_hash C (blk_header blk)) h params
      then find_existing base cc (concat (map (tx_outpoints C) (blk_vtx blk))) else (False, cc)) = (False, cc1)"
    and st: "connect_txs C ?env (blk_vtx blk)
       \<lparr>cst_total_fees = 0, cst_sigops_cost = 0, cst_undo = [], cst_view = prefetch_coins base cc1 inputs\<rparr> = Some (Inr st)"
    and fin: "cc' = cst_view st" "connect_finish C K ?env blk skip st = Some (Inr undo)"
    using assms(5) unfolding connect_block_def Let_def by (auto split: if_splits option.splits sum.splits prod.splits)
  note all = connect_block_loop [OF assms(1-4) ex st, folded v_def]
  have env: "ce_height ?env = h" "ce_params ?env = params" by (simp_all add: connect_env_of_def)
  have "\<exists>subsidy. get_block_subsidy h params = Some subsidy \<and>
      sint (get_value_out (hd (blk_vtx blk))) \<le> sint (cst_total_fees st) + subsidy" if "blk_vtx blk \<noteq> []"
    using fin that subsidy_fee [of "cst_total_fees st" h params] all
    by (auto simp: connect_finish_def env Let_def split: sum.splits option.splits if_splits)
  moreover have "bu_tx_undo undo = cst_undo st"
    using fin by (auto simp: connect_finish_def Let_def split: sum.splits option.splits if_splits)
  ultimately show ?thesis using all fin(1) by simp
qed

text \<open>A block that fails behind the loop leaves the cache with all of its changes.\<close>

lemma connect_block_late_failure:
  assumes "cache_sound base cc" "\<forall>tx\<in>set (blk_vtx blk). connectable_tx tx" "distinct (map (txid C) (blk_vtx blk))"
    "enforce_bip30 (header_block_hash C (blk_header blk)) h params \<or> outputs_fresh C (blk_vtx blk) (cache_view base cc)"
    "connect_block C K base blk h cc params mtp skip = Some (Inl e, cc')" "vs_reject_reason e = ''bad-cb-amount''"
  shows "cache_sound base cc' \<and> cache_view base cc' = fold (apply_tx C h) (blk_vtx blk) (cache_view base cc)"
proof -
  let ?env = "connect_env_of C base blk h params mtp"
  have early: "r \<noteq> Some (Inl (e, x))" if "r = connect_txs C ?env (blk_vtx blk) y" for r x y
    using connect_txs_reason [of C ?env "blk_vtx blk" y e x] assms(6) that by auto
  have bip30: "e \<noteq> block_fail ''bad-txns-BIP30'' d" for d using assms(6) by (auto simp: block_fail_def vs_invalid_def)
  obtain cc1 inputs st where ex: "(if enforce_bip30 (header_block_hash C (blk_header blk)) h params
      then find_existing base cc (concat (map (tx_outpoints C) (blk_vtx blk))) else (False, cc)) = (False, cc1)"
    and st: "connect_txs C ?env (blk_vtx blk)
       \<lparr>cst_total_fees = 0, cst_sigops_cost = 0, cst_undo = [], cst_view = prefetch_coins base cc1 inputs\<rparr> = Some (Inr st)"
      "cc' = cst_view st"
    using assms(5) early [OF refl] bip30 unfolding connect_block_def Let_def
    by (auto split: if_splits option.splits sum.splits prod.splits)
  show ?thesis using connect_block_loop [OF assms(1-4) ex st(1)] st(2) by simp
qed

text \<open>A block with a coinbase and nothing else: its reward decides, and its outputs are in the cache in either case.\<close>

lemma connect_coinbase_only:
  assumes "cache_sound base cc" "blk_vtx blk = [cb]" "is_coinbase cb" "connectable_tx cb" "get_legacy_sigop_count cb = 0"
    "\<forall>op\<in>set (tx_outpoints C cb). cache_view base cc op = None" "get_block_subsidy h params = Some s"
  shows "\<exists>r cc'. connect_block C K base blk h cc params mtp skip = Some (r, cc') \<and>
    (if sint (get_value_out cb) \<le> s then r = Inr \<lparr>bu_tx_undo = []\<rparr>
     else \<exists>e. r = Inl e \<and> vs_reject_reason e = ''bad-cb-amount'')"
proof -
  let ?bip30 = "enforce_bip30 (header_block_hash C (blk_header blk)) h params"
  obtain found cc1 where ex: "(if ?bip30 then find_existing base cc (tx_outpoints C cb) else (False, cc)) = (found, cc1)" by fastforce
  have fe: "\<not> found \<and> cache_view base cc1 = cache_view base cc \<and> cache_sound base cc1"
    using ex assms(1,6) find_existing_correct [OF assms(1), of "tx_outpoints C cb" found cc1] by (auto split: if_splits)
  define env where "env = connect_env_of C base blk h params mtp"
  define st0 where "st0 = \<lparr>cst_total_fees = 0, cst_sigops_cost = 0, cst_undo = [], cst_view = cc1\<rparr>"
  have sig: "get_transaction_sigop_cost cb f g = 0" for f g using assms(3,5) by (simp add: get_transaction_sigop_cost_def)
  obtain cc2 where add: "add_coins C base cc1 cb (word_of_int h) False = Some cc2"
    using add_coins_correct [of cc1 cb C h] fe assms(4,6) by auto
  have tx: "connect_tx C env cb st0 = Some (Inr (st0\<lparr>cst_view := cc2\<rparr>))"
    using add assms(3) sig
    by (simp add: connect_tx_def connect_coinbase_def MAX_BLOCK_SIGOPS_COST_def env_def connect_env_of_def st0_def)
  have pre: "prefetch_coins base cc1 [] = cc1" by (simp add: prefetch_coins_def)
  have fit: "sint (word_of_int s :: amount) = s"
    using subsidy_fee [of 0 h params s] assms(7) by (simp add: money_range_0)
  have fin: "\<exists>r. connect_finish C K env blk skip (st0\<lparr>cst_view := cc2\<rparr>) = Some r \<and>
      (if sint (get_value_out cb) \<le> s then r = Inr \<lparr>bu_tx_undo = []\<rparr> else \<exists>e. r = Inl e \<and> vs_reject_reason e = ''bad-cb-amount'')"
    using assms(2,3,7) fit
    by (simp add: connect_finish_def collect_block_script_checks_def env_def connect_env_of_def st0_def block_fail_def vs_invalid_def not_le)
  have "connect_block C K base blk h cc params mtp skip = map_option (\<lambda>r. (r, cc2)) (connect_finish C K env blk skip (st0\<lparr>cst_view := cc2\<rparr>))"
    using ex fe tx assms(2,3) by (cases ?bip30) (simp_all add: connect_block_def pre env_def st0_def)
  then show ?thesis using fin by auto
qed

end

lemma check_transactions_all:
  "check_transactions txs n = Inr m \<Longrightarrow> \<forall>tx\<in>set txs. connectable_tx tx"
  by (induction txs n rule: check_transactions.induct) (auto simp: connectable_tx_def split: if_splits prod.splits)

text \<open>What the checks of a block without the chain leave for its connection.\<close>

lemma check_block_accepted:
  assumes "fst (check_block C K blk params st check_merkle_root)"
  shows "\<exists>cb txs. blk_vtx blk = cb # txs \<and> is_coinbase cb \<and> (\<forall>tx\<in>set txs. \<not> is_coinbase tx) \<and>
    (\<forall>tx\<in>set (blk_vtx blk). connectable_tx tx) \<and> distinct (map (txid C) (blk_vtx blk))"
proof -
  have "blk_vtx blk \<noteq> [] \<and> is_coinbase (hd (blk_vtx blk)) \<and> \<not> list_ex is_coinbase (tl (blk_vtx blk)) \<and>
      (\<exists>n. check_transactions (blk_vtx blk) 0 = Inr n) \<and> distinct (map (txid C) (blk_vtx blk))"
    using assms by (auto simp: check_block_def Let_def vs_invalid_def split: if_splits prod.splits sum.splits)
  moreover from this have "\<forall>tx\<in>set (blk_vtx blk). connectable_tx tx" using check_transactions_all by blast
  ultimately show ?thesis by (cases "blk_vtx blk") (auto simp: list_ex_iff)
qed

interpretation db_base: unspent_base "db_get_coin D w" for D w
  by unfold_locales (rule coins_db.get_unspent)

definition first_block :: block where
  "first_block = \<lparr>blk_header = header_new\<lparr>hdr_bits := 0x1d00ffff, hdr_merkle_root := txid pad_crypto height_coinbase\<rparr>,
     blk_vtx = [height_coinbase]\<rparr>"

lemma pad_hash256: "hash256 pad_crypto = pad_to 32"
  by (simp add: pad_crypto_def)

lemma first_hash: "header_block_hash pad_crypto (blk_header first_block) = replicate 32 0"
proof -
  have v: "to_le_bytes (0 :: i32) = replicate 4 0" by code_simp
  have "serialize encode_header (blk_header first_block) = replicate 36 0 @ drop 36 (serialize encode_header (blk_header first_block))"
    by (simp add: serialize_def encode_header_def encode_i32_def v first_block_def header_new_def encode_hash_def ZERO_HASH_def
        flip: replicate_add)
  moreover have "pad_to 32 (replicate 36 0 @ r) = replicate 32 0" for r by (simp add: pad_to_def)
  ultimately show ?thesis by (metis header_block_hash_def pad_hash256)
qed

lemma first_tx_size: "length (serialize_transaction height_coinbase b) = 63"
proof -
  have "\<not> has_witness height_coinbase" by (simp add: has_witness_def height_coinbase_def)
  then show ?thesis
    by (simp add: serialize_transaction_def serialize_plain encode_vec_def encode_tx_in_def encode_tx_out_def encode_outpoint_def
        encode_script_def encode_bytes_def encode_hash_def encode_u32_def encode_i64_def write_compact_size_def height_coinbase_def)
qed

lemma first_tx_ok: "is_coinbase height_coinbase" "connectable_tx height_coinbase"
proof -
  show cb: "is_coinbase height_coinbase" by (simp add: height_coinbase_def is_coinbase_def outpoint_is_null_def NULL_INDEX_def ZERO_HASH_def list_all_iff)
  have "tx_rules height_coinbase"
    using cb first_tx_size by (simp add: tx_rules_def MAX_BLOCK_WEIGHT_def) (simp add: height_coinbase_def MAX_MONEY_value)
  then show "connectable_tx height_coinbase" by (simp add: connectable_tx_def check_transaction_ok)
qed

lemma first_block_checked: "fst (check_block pad_crypto example_secp first_block mainnet (vs_new BlockUnset) True)"
proof -
  have vtx: "blk_vtx first_block = [height_coinbase]" by (simp add: first_block_def)
  have pow: "check_block_header pad_crypto (blk_header first_block) mainnet st = (True, st)" for st
    using zero_hash_work first_hash by (simp add: check_block_header_def) (simp add: first_block_def header_new_def)
  have root: "block_merkle_root pad_crypto [height_coinbase] = (hdr_merkle_root (blk_header first_block), False)"
    by (simp add: block_merkle_root_def compute_merkle_root_def merkle_loop.simps first_block_def)
  have size: "length (serialize encode_block first_block) \<le> MAX_BLOCK_SERIALIZED_SIZE" "compute_block_weight first_block \<le> MAX_BLOCK_WEIGHT"
  proof -
    have "length (serialize encode_block first_block) = 144" "compute_block_weight first_block = 576"
      using first_tx_size [of True] first_tx_size [of False]
      by (simp_all add: serialize_def encode_block_def vtx encode_header_def encode_i32_def encode_u32_def encode_hash_def
          write_compact_size_def compute_block_weight_def val_compact_size_len_def serialize_transaction_def WITNESS_SCALE_FACTOR_def)
        (simp add: first_block_def header_new_def ZERO_HASH_def txid_def pad_hash256 pad_to_def)
    then show "length (serialize encode_block first_block) \<le> MAX_BLOCK_SERIALIZED_SIZE" "compute_block_weight first_block \<le> MAX_BLOCK_WEIGHT"
      by (simp_all add: MAX_BLOCK_SERIALIZED_SIZE_def MAX_BLOCK_WEIGHT_def)
  qed
  have "get_legacy_sigop_count height_coinbase = 0" by code_simp
  then have txs: "check_transactions [height_coinbase] 0 = Inr 0"
    using first_tx_ok(2) by (cases "check_transaction height_coinbase (vs_new TxUnset)") (simp add: connectable_tx_def)
  show ?thesis
    using first_tx_ok(1) size txs by (simp add: check_block_def pow vtx root MAX_BLOCK_SIGOPS_COST_def) (simp add: mainnet_def)
qed


lemma first_tx_sigops: "get_legacy_sigop_count height_coinbase = 0"
  by code_simp

lemma first_block_connects:
  "\<exists>undo view'. connect_block pad_crypto example_secp (db_get_coin D example_db) first_block 0 (cache_new ZERO_HASH) mainnet None False =
     Some (Inr undo, view')"
proof -
  let ?b = "db_get_coin D example_db"
  have empty: "cache_sound ?b (cache_new ZERO_HASH)" "cache_view ?b (cache_new ZERO_HASH) = (\<lambda>_. None)"
    by (simp_all add: cache_view_new fun_eq_iff example_db_facts)
  have sub: "get_block_subsidy 0 mainnet = Some 5000000000" by (simp add: get_block_subsidy_def mainnet_def COIN_def)
  have vtx: "blk_vtx first_block = [height_coinbase]" by (simp add: first_block_def)
  have "sint (get_value_out height_coinbase) \<le> 5000000000" by (simp add: get_value_out_def height_coinbase_def)
  then show ?thesis
    using db_base.connect_coinbase_only [OF empty(1) vtx first_tx_ok first_tx_sigops _ sub,
        of pad_crypto example_secp None False] empty(2) by auto
qed

text \<open>C3: Disconnecting a block undoes connecting it. If a block that passed the context-free checks was connected to a
  cache over the database, then disconnecting it with the undo data that connecting returned is clean and
  leaves exactly the unspent outputs from before. No output of the block may have been there already, which
  \<open>connect_block\<close> checks itself when it enforces BIP 30.\<close>

theorem connect_disconnect:
  assumes "fst (check_block C K blk params st True)" "cache_sound (db_get_coin D w) view" "utxo_ok (cache_view (db_get_coin D w) view)"
    and "enforce_bip30 (header_block_hash C (blk_header blk)) height params \<or>
      outputs_fresh C (blk_vtx blk) (cache_view (db_get_coin D w) view)"
    and "connect_block C K (db_get_coin D w) blk height view params mtp_at_height skip_scripts = Some (Inr undo, view')"
  shows "\<exists>view''. disconnect_block C (db_get_coin D w) blk height view' undo = Some (DisconnectOk, view'') \<and>
    cache_view (db_get_coin D w) view'' = cache_view (db_get_coin D w) view"
proof -
  obtain cb txs where b: "blk_vtx blk = cb # txs" "is_coinbase cb" "\<forall>tx\<in>set txs. \<not> is_coinbase tx"
    "\<forall>tx\<in>set (blk_vtx blk). connectable_tx tx" "distinct (map (txid C) (blk_vtx blk))"
    using check_block_accepted [OF assms(1)] by blast
  let ?v = "cache_view (db_get_coin D w) view"
  have con: "cache_sound (db_get_coin D w) view'" "cache_view (db_get_coin D w) view' = fold (apply_tx C height) (cb # txs) ?v"
    "inputs_present C height (cb # txs) ?v" "bu_tx_undo undo = undos C height (cb # txs) ?v" "outputs_fresh C (cb # txs) ?v"
    using db_base.connect_block_correct [OF assms(2) b(4,5) assms(4,5), unfolded b(1)] by blast+
  have unspent: "\<And>op c. ?v op = Some c \<Longrightarrow> \<not> coin_is_spent c" by (rule db_base.view_unspent)
  have len: "length (undos C height (cb # txs) ?v) = length txs"
    using length_undos [OF b(3)] b(2) by simp
  obtain view'' where "disconnect_txs C (db_get_coin D w) height (undos C height (cb # txs) ?v @ []) (rev (enumerate 0 (cb # txs)))
      (True, view') = Some (DisconnectOk, view'')" "cache_view (db_get_coin D w) view'' = ?v"
    using db_base.disconnect_txs_correct [OF con(1) b(4) [unfolded b(1)] b(2,3) assms(3) _ con(5) b(5) [unfolded b(1)] con(3,2), of "[]"]
      unspent by blast
  then show ?thesis using len con(4) by (simp add: disconnect_block_def b(1) del: undos.simps disconnect_txs.simps enumerate_simps)
qed


theorem connect_disconnect_witness:
  "\<exists>undo view' view''. connect_block pad_crypto example_secp (db_get_coin (\<lambda>_. None) example_db) first_block 0 (cache_new ZERO_HASH)
       mainnet None False = Some (Inr undo, view') \<and>
     disconnect_block pad_crypto (db_get_coin (\<lambda>_. None) example_db) first_block 0 view' undo = Some (DisconnectOk, view'') \<and>
     cache_view (db_get_coin (\<lambda>_. None) example_db) view'' = (\<lambda>_. None)"
proof -
  let ?b = "db_get_coin (\<lambda>_. None) example_db"
  have empty: "cache_sound ?b (cache_new ZERO_HASH)" "cache_view ?b (cache_new ZERO_HASH) = (\<lambda>_. None)"
    by (simp_all add: cache_view_new fun_eq_iff example_db_facts)
  then have "utxo_ok (cache_view ?b (cache_new ZERO_HASH))" "outputs_fresh C txs (cache_view ?b (cache_new ZERO_HASH))" for C txs
    by (simp_all add: utxo_ok_def outputs_fresh_def)
  then show ?thesis
    using first_block_connects [of "\<lambda>_. None"] connect_disconnect [OF first_block_checked empty(1)] empty(2) by metis
qed

section \<open>No inflation\<close>

definition utxo_total :: "coins_view \<Rightarrow> int" where
  "utxo_total v = (\<Sum>op\<in>dom v. coin_value (v op))"

lemma utxo_total_add:
  assumes "finite (dom v)" "op \<notin> dom v"
  shows "utxo_total (v(op \<mapsto> c)) = utxo_total v + coin_value (Some c)"
proof -
  have "(\<Sum>x\<in>dom v. coin_value ((v(op \<mapsto> c)) x)) = (\<Sum>x\<in>dom v. coin_value (v x))"
    using assms(2) by (intro sum.cong) auto
  then show ?thesis using assms by (simp add: utxo_total_def)
qed

lemma utxo_total_remove:
  assumes "finite (dom v)" "op \<in> dom v"
  shows "utxo_total (v(op := None)) = utxo_total v - coin_value (v op)"
proof -
  have "(\<Sum>x\<in>dom v - {op}. coin_value ((v(op := None)) x)) = (\<Sum>x\<in>dom v - {op}. coin_value (v x))"
    by (intro sum.cong) auto
  moreover have "dom (v(op := None)) = dom v - {op}" by auto
  ultimately show ?thesis using assms by (simp add: utxo_total_def sum_diff1)
qed

lemma utxo_total_remove_ops:
  "finite (dom v) \<Longrightarrow> distinct ops \<Longrightarrow> \<forall>op\<in>set ops. v op \<noteq> None \<Longrightarrow>
   utxo_total (remove_ops (set ops) v) = utxo_total v - (\<Sum>op\<leftarrow>ops. coin_value (v op)) \<and> finite (dom (remove_ops (set ops) v))"
proof (induction ops arbitrary: v)
  case (Cons op ops)
  have v: "remove_ops (set (op # ops)) v = remove_ops (set ops) (v(op := None))" by (auto simp: remove_ops_def)
  have "(\<Sum>x\<leftarrow>ops. coin_value ((v(op := None)) x)) = (\<Sum>x\<leftarrow>ops. coin_value (v x))"
    using Cons.prems(2) by (intro arg_cong [where f = sum_list] map_cong) auto
  moreover have "finite (dom (v(op := None)))" "\<forall>x\<in>set ops. (v(op := None)) x \<noteq> None" "op \<in> dom v" using Cons.prems by auto
  ultimately show ?case
    using Cons.IH [of "v(op := None)"] Cons.prems(2) utxo_total_remove [OF Cons.prems(1), of op]
    unfolding v by (simp del: fun_upd_apply dom_fun_upd)
qed (simp add: remove_ops_def)

lemma utxo_total_add_coins:
  "finite (dom v) \<Longrightarrow> distinct (map fst cs) \<Longrightarrow> \<forall>op\<in>fst ` set cs. v op = None \<Longrightarrow>
   utxo_total (v ++ map_of cs) = utxo_total v + (\<Sum>(op, c)\<leftarrow>cs. coin_value (Some c)) \<and> finite (dom (v ++ map_of cs))"
proof (induction cs)
  case (Cons p cs)
  obtain op c where p: "p = (op, c)" by fastforce
  have "op \<notin> dom (v ++ map_of cs)" using Cons.prems p by (auto simp: dom_map_of_conv_image_fst)
  then show ?case
    using Cons.IH Cons.prems p utxo_total_add [of "v ++ map_of cs" op c] by (simp del: fun_upd_apply)
qed simp

lemma out_coins_total:
  "\<forall>out\<in>set outs. 0 \<le> sint (out_value out) \<Longrightarrow>
   (\<Sum>(op, c)\<leftarrow>out_coins tx_id i outs h cb. coin_value (Some c)) \<le> (\<Sum>out\<leftarrow>outs. sint (out_value out))"
  by (induction outs arbitrary: i) (auto simp: coin_value_def coin_new_def intro: add_mono add_increasing)

text \<open>A transaction that is no coinbase takes its fee out of the set; a coinbase adds at most its outputs.\<close>

lemma utxo_total_apply:
  assumes "finite (dom v)" "connectable_tx tx" "\<forall>op\<in>set (tx_outpoints C tx). v op = None" "\<forall>op\<in>set (tx_inputs tx). v op \<noteq> None"
  shows "utxo_total (apply_tx C h tx v) + tx_gain tx v \<le>
      utxo_total v + (if is_coinbase tx then \<Sum>out\<leftarrow>tx_vout tx. sint (out_value out) else 0) \<and>
    finite (dom (apply_tx C h tx v))"
proof -
  have r: "tx_rules tx" using assms(2) check_transaction_ok unfolding connectable_tx_def by blast
  have len: "0 + length (tx_vout tx) \<le> 2 ^ 32" using r vout_bound [of tx] by (simp add: tx_rules_def MAX_BLOCK_WEIGHT_def)
  have "distinct (tx_inputs tx)" using r by (simp add: tx_rules_def tx_inputs_def)
  note rem = utxo_total_remove_ops [OF assms(1) this assms(4)]
  have "distinct (map fst (tx_coins C h tx))" unfolding tx_coins_def by (rule out_coins_distinct [OF len])
  moreover have "\<forall>op\<in>fst ` set (tx_coins C h tx). remove_ops (set (tx_inputs tx)) v op = None"
    using tx_coins_keys [of C h tx] assms(3) unfolding remove_ops_def by auto
  ultimately have add: "utxo_total (apply_tx C h tx v) =
      utxo_total (remove_ops (set (tx_inputs tx)) v) + (\<Sum>(op, c)\<leftarrow>tx_coins C h tx. coin_value (Some c)) \<and>
      finite (dom (apply_tx C h tx v))"
    unfolding apply_tx_def using rem by (intro utxo_total_add_coins) simp_all
  have "(\<Sum>(op, c)\<leftarrow>tx_coins C h tx. coin_value (Some c)) \<le> (\<Sum>out\<leftarrow>tx_vout tx. sint (out_value out))"
    using r out_coins_total unfolding tx_coins_def by (simp add: tx_rules_def)
  then show ?thesis using rem add by (auto simp: tx_gain_def tx_inputs_def)
qed

lemma utxo_total_fold:
  "finite (dom v) \<Longrightarrow> \<forall>tx\<in>set txs. connectable_tx tx \<Longrightarrow> outputs_fresh C txs v \<Longrightarrow> distinct (map (txid C) txs) \<Longrightarrow>
   inputs_present C h txs v \<Longrightarrow>
   utxo_total (fold (apply_tx C h) txs v) + block_fees C h txs v \<le>
     utxo_total v + (\<Sum>tx\<leftarrow>filter is_coinbase txs. \<Sum>out\<leftarrow>tx_vout tx. sint (out_value out)) \<and>
   finite (dom (fold (apply_tx C h) txs v))"
proof (induction txs arbitrary: v)
  case (Cons tx txs)
  note fresh = outputs_fresh_Cons [OF Cons.prems(3,4)]
  have "utxo_total (apply_tx C h tx v) + tx_gain tx v \<le>
      utxo_total v + (if is_coinbase tx then \<Sum>out\<leftarrow>tx_vout tx. sint (out_value out) else 0) \<and> finite (dom (apply_tx C h tx v))"
    using Cons.prems fresh(1) by (intro utxo_total_apply) simp_all
  moreover note Cons.IH [of "apply_tx C h tx v"]
  ultimately show ?case using Cons.prems fresh(2) by (cases "is_coinbase tx") simp_all
qed simp


lemma connect_block_total:
  assumes "fst (check_block C K blk params st True)" "cache_sound (db_get_coin D w) view"
    "finite (dom (cache_view (db_get_coin D w) view))"
    "enforce_bip30 (header_block_hash C (blk_header blk)) h params \<or> outputs_fresh C (blk_vtx blk) (cache_view (db_get_coin D w) view)"
    "connect_block C K (db_get_coin D w) blk h view params mtp skip = Some (Inr undo, view')"
  shows "cache_sound (db_get_coin D w) view' \<and> finite (dom (cache_view (db_get_coin D w) view')) \<and>
    (\<exists>subsidy. get_block_subsidy h params = Some subsidy \<and>
      utxo_total (cache_view (db_get_coin D w) view') \<le> utxo_total (cache_view (db_get_coin D w) view) + subsidy)"
proof -
  obtain cb txs where b: "blk_vtx blk = cb # txs" "is_coinbase cb" "\<forall>tx\<in>set txs. \<not> is_coinbase tx"
    "\<forall>tx\<in>set (blk_vtx blk). connectable_tx tx" "distinct (map (txid C) (blk_vtx blk))"
    using check_block_accepted [OF assms(1)] by blast
  note con = db_base.connect_block_correct [OF assms(2) b(4,5) assms(4,5)]
  have cb: "filter is_coinbase (blk_vtx blk) = [cb]" using b(1-3) by (simp add: filter_empty_conv)
  have "sint (get_value_out cb) = (\<Sum>out\<leftarrow>tx_vout cb. sint (out_value out))"
    using b(1,4) value_out_exact by (auto simp: connectable_tx_def)
  then show ?thesis
    using con utxo_total_fold [OF assms(3) b(4) _ b(5), of h] b(1) unfolding cb by fastforce
qed

text \<open>C4: No inflation. Connecting a block that passed the context-free checks raises the total value of the unspent
  outputs by at most the subsidy of its height: a transaction creates at most what it spends, the fees go to the
  coinbase, and no output is counted twice.\<close>

theorem connect_block_no_inflation:
  assumes "fst (check_block C K blk params st True)" "cache_sound (db_get_coin D w) view"
    and "finite (dom (cache_view (db_get_coin D w) view))"
    and "enforce_bip30 (header_block_hash C (blk_header blk)) height params \<or>
      outputs_fresh C (blk_vtx blk) (cache_view (db_get_coin D w) view)"
    and "connect_block C K (db_get_coin D w) blk height view params mtp_at_height skip_scripts = Some (Inr undo, view')"
  shows "\<exists>subsidy. get_block_subsidy height params = Some subsidy \<and>
    utxo_total (cache_view (db_get_coin D w) view') \<le> utxo_total (cache_view (db_get_coin D w) view) + subsidy"
  using connect_block_total [OF assms] by blast


theorem connect_block_no_inflation_witness:
  "\<exists>undo view'. connect_block pad_crypto example_secp (db_get_coin (\<lambda>_. None) example_db) first_block 0 (cache_new ZERO_HASH)
       mainnet None False = Some (Inr undo, view') \<and>
     utxo_total (cache_view (db_get_coin (\<lambda>_. None) example_db) view') \<le> 5000000000"
proof -
  let ?b = "db_get_coin (\<lambda>_. None) example_db"
  have empty: "cache_sound ?b (cache_new ZERO_HASH)" "cache_view ?b (cache_new ZERO_HASH) = (\<lambda>_. None)"
    by (simp_all add: cache_view_new fun_eq_iff example_db_facts)
  then have f: "finite (dom (cache_view ?b (cache_new ZERO_HASH)))" "outputs_fresh C txs (cache_view ?b (cache_new ZERO_HASH))"
    "utxo_total (cache_view ?b (cache_new ZERO_HASH)) = 0" for C txs
    by (simp_all add: outputs_fresh_def utxo_total_def)
  obtain undo view' where con: "connect_block pad_crypto example_secp ?b first_block 0 (cache_new ZERO_HASH) mainnet None False =
      Some (Inr undo, view')"
    using first_block_connects by blast
  have "get_block_subsidy 0 mainnet = Some 5000000000" by (simp add: get_block_subsidy_def mainnet_def COIN_def)
  then show ?thesis
    using con connect_block_no_inflation [OF first_block_checked empty(1) f(1) _ con] f(2,3) by auto
qed

text \<open>Chains of blocks connected one after the other from an empty set of unspent outputs.\<close>

inductive connected ::
  "crypto \<Rightarrow> 'k secp_strict_scheme \<Rightarrow> decompress_key \<Rightarrow> db_wrapper \<Rightarrow> consensus_params \<Rightarrow> nat \<Rightarrow> coins_cache \<Rightarrow> bool"
  for C :: crypto and K :: "'k secp_strict_scheme" and D :: decompress_key and w :: db_wrapper and params :: consensus_params where
  start: "cache_sound (db_get_coin D w) view \<Longrightarrow> cache_view (db_get_coin D w) view = Map.empty \<Longrightarrow> connected C K D w params 0 view"
| block: "connected C K D w params n view \<Longrightarrow> fst (check_block C K blk params st True) \<Longrightarrow>
    enforce_bip30 (header_block_hash C (blk_header blk)) (int n) params \<or>
      outputs_fresh C (blk_vtx blk) (cache_view (db_get_coin D w) view) \<Longrightarrow>
    connect_block C K (db_get_coin D w) blk (int n) view params mtp skip = Some (Inr undo, view') \<Longrightarrow>
    connected C K D w params (Suc n) view'"





section \<open>Undo data on disk\<close>

definition encodes :: "('a \<Rightarrow> written option) \<Rightarrow> 'a decoder \<Rightarrow> 'a \<Rightarrow> bool" where
  "encodes enc dec x \<longleftrightarrow> (\<exists>e. enc x = Some e \<and> snd e = length (fst e) \<and> (\<forall>rest. dec (fst e @ rest) = Inr (x, rest)))"

lemma encode_all_decodes:
  assumes "\<forall>x\<in>set xs. encodes enc dec x"
  shows "\<exists>e. encode_all enc xs = Some e \<and> snd e = length (fst e) \<and> (\<forall>rest. decode_items dec (length xs) (fst e @ rest) = Inr (xs, rest))"
  using assms
proof (induction xs)
  case (Cons x xs)
  then obtain e es where e: "enc x = Some e" "snd e = length (fst e)" "\<forall>rest. dec (fst e @ rest) = Inr (x, rest)"
    and es: "encode_all enc xs = Some es" "snd es = length (fst es)"
      "\<forall>rest. decode_items dec (length xs) (fst es @ rest) = Inr (xs, rest)"
    unfolding encodes_def by auto
  then show ?case by simp
qed simp

lemma counted_decodes:
  assumes "\<forall>x\<in>set xs. encodes enc dec x" "fits_max (length xs)"
  shows "\<exists>e. map_option (ser_seq (write_compact_size (of_nat (length xs)))) (encode_all enc xs) = Some e \<and> snd e = length (fst e) \<and>
    (\<forall>rest. res_bind (read_compact_size (fst e @ rest)) (\<lambda>(n, r). res_bind (decode_items dec (unat n) r) (\<lambda>(ys, r). Inr (f ys, r))) =
      Inr (f xs, rest))"
proof -
  obtain e where e: "encode_all enc xs = Some e" "snd e = length (fst e)"
    "\<forall>rest. decode_items dec (length xs) (fst e @ rest) = Inr (xs, rest)"
    using encode_all_decodes [OF assms(1)] by blast
  show ?thesis using e assms(2) by (simp add: compact_len.dec_enc write_compact_size_count)
qed

lemma coin_encodes:
  assumes "coin_ok D c"
  shows "encodes encode_coin (decode_coin D) c"
proof -
  obtain e where e: "encode_coin c = Some e" "snd e = length (fst e)" using decode_encode_coin [OF assms, of "[]"] by blast
  moreover have "decode_coin D (fst e @ rest) = Inr (c, rest)" for rest using decode_encode_coin [OF assms, of rest] e(1) by auto
  ultimately show ?thesis unfolding encodes_def by blast
qed

lemma tx_undo_encodes:
  assumes "\<forall>c\<in>set (prev_coins u). coin_ok D c" "fits_max (length (prev_coins u))"
  shows "encodes encode_tx_undo (decode_tx_undo D) u"
proof -
  have "\<forall>c\<in>set (prev_coins u). encodes encode_coin (decode_coin D) c"
    using assms(1) coin_encodes by blast
  moreover have "\<lparr>prev_coins = prev_coins u\<rparr> = u" by simp
  ultimately show ?thesis
    using counted_decodes [of "prev_coins u" encode_coin "decode_coin D" "\<lambda>cs. \<lparr>prev_coins = cs\<rparr>"] assms(2)
    unfolding encodes_def [of encode_tx_undo] encode_tx_undo_def decode_tx_undo_def by metis
qed

text \<open>Undo data survive the disk. Undo data of coins that the database can store are encoded without a panic, and
  decoding the encoding returns them and leaves what follows.\<close>

theorem block_undo_roundtrip:
  assumes "\<forall>u\<in>set (bu_tx_undo b). fits_max (length (prev_coins u)) \<and> (\<forall>c\<in>set (prev_coins u). coin_ok D c)"
    and "fits_max (length (bu_tx_undo b))"
  shows "\<exists>e. encode_block_undo b = Some e \<and> decode_block_undo D (fst e @ rest) = Inr (b, rest)"
proof -
  have "\<forall>u\<in>set (bu_tx_undo b). encodes encode_tx_undo (decode_tx_undo D) u" using assms(1) tx_undo_encodes by blast
  moreover have "\<lparr>bu_tx_undo = bu_tx_undo b\<rparr> = b" by simp
  ultimately show ?thesis
    using counted_decodes [of "bu_tx_undo b" encode_tx_undo "decode_tx_undo D" "\<lambda>us. \<lparr>bu_tx_undo = us\<rparr>"] assms(2)
    unfolding encode_block_undo_def decode_block_undo_def by metis
qed

theorem block_undo_roundtrip_witness:
  "\<exists>e. encode_block_undo \<lparr>bu_tx_undo = [\<lparr>prev_coins = [example_coin]\<rparr>]\<rparr> = Some e \<and>
     decode_block_undo (\<lambda>_. None) (fst e @ [7]) = Inr (\<lparr>bu_tx_undo = [\<lparr>prev_coins = [example_coin]\<rparr>]\<rparr>, [7])"
  by (rule block_undo_roundtrip) (simp_all add: example_coin_ok fits_max_def unat_MAX_SIZE)

end
