(* ===== verification/BlockIndexDb.thy ===== *)
theory BlockIndexDb
  imports ChainIndex Storage
begin

text \<open>
  The databases of the block index and of transaction positions, \<open>qubitcoin-node/src/block_index_db.rs\<close> and
  \<open>tx_index_db.rs\<close>, over the in-memory database. Both write to the database below the typed wrapper, so what they store is
  never obfuscated.
\<close>

section \<open>Records\<close>

definition KEY_BLOCK_INDEX :: u8 where "KEY_BLOCK_INDEX = 0x62"
definition KEY_LAST_BLOCK_FILE :: bytes where "KEY_LAST_BLOCK_FILE = [0x46]"

record block_index_record =
  bir_block_hash :: hash_bytes
  bir_version :: i32
  bir_prev_blockhash :: hash_bytes
  bir_merkle_root :: hash_bytes
  bir_time :: u32
  bir_bits :: u32
  bir_nonce :: u32
  bir_height :: int
  bir_status_bits :: u32
  bir_file :: int
  bir_data_pos :: u32
  bir_undo_pos :: u32
  bir_tx_count :: u32
  bir_chain_tx_count :: u64
  bir_chain_work_bytes :: bytes

definition bir_chain_work :: "block_index_record \<Rightarrow> arith_uint256" where
  "bir_chain_work r = uint256_to_arith (bir_chain_work_bytes r)"

definition serialize_block_index :: "block_index \<Rightarrow> bytes" where
  "serialize_block_index entry =
     to_le_bytes (word_of_int (bi_height entry) :: i32) @ to_le_bytes (bi_version entry) @ bi_prev_blockhash entry @
     bi_merkle_root entry @ to_le_bytes (bi_time entry) @ to_le_bytes (bi_bits entry) @ to_le_bytes (bi_nonce entry) @
     to_le_bytes (bi_status entry) @ to_le_bytes (word_of_int (bi_file entry) :: i32) @ to_le_bytes (bi_data_pos entry) @
     to_le_bytes (bi_undo_pos entry) @ to_le_bytes (bi_tx_count entry) @ to_le_bytes (bi_chain_tx_count entry) @
     arith_to_uint256 (bi_chain_work entry)"

text \<open>The cursor: the bytes that \<open>read_exact\<close> takes, and the rest.\<close>

definition deserialize_block_index_record :: "hash_bytes \<Rightarrow> bytes \<Rightarrow> block_index_record option" where
  "deserialize_block_index_record hash data =
     (if length data < 144 then None
      else
        let at = (\<lambda>pos n. take n (drop pos data)) in
        Some \<lparr>bir_block_hash = hash, bir_version = from_le_bytes (at 4 4), bir_prev_blockhash = at 8 32,
          bir_merkle_root = at 40 32, bir_time = from_le_bytes (at 72 4), bir_bits = from_le_bytes (at 76 4),
          bir_nonce = from_le_bytes (at 80 4), bir_height = sint (from_le_bytes (at 0 4) :: i32),
          bir_status_bits = from_le_bytes (at 84 4), bir_file = sint (from_le_bytes (at 88 4) :: i32),
          bir_data_pos = from_le_bytes (at 92 4), bir_undo_pos = from_le_bytes (at 96 4),
          bir_tx_count = from_le_bytes (at 100 4), bir_chain_tx_count = from_le_bytes (at 104 8),
          bir_chain_work_bytes = at 112 32\<rparr>)"

definition block_index_key :: "hash_bytes \<Rightarrow> bytes" where
  "block_index_key hash = KEY_BLOCK_INDEX # hash"

section \<open>The block index database\<close>

definition write_block_index :: "memory_db \<Rightarrow> block_index \<Rightarrow> memory_db" where
  "write_block_index db entry =
     mem_write_batch db (batch_put [] (block_index_key (bi_block_hash entry)) (serialize_block_index entry))"

definition write_block_indices :: "memory_db \<Rightarrow> block_index list \<Rightarrow> memory_db" where
  "write_block_indices db entries =
     mem_write_batch db
       (foldl (\<lambda>batch entry. batch_put batch (block_index_key (bi_block_hash entry)) (serialize_block_index entry)) [] entries)"

definition load_all :: "memory_db \<Rightarrow> block_index_record list" where
  "load_all db =
     List.map_filter (\<lambda>(key, value). if length key = 33 then deserialize_block_index_record (tl key) value else None)
       (walk (\<lambda>key. key \<noteq> [] \<and> hd key = KEY_BLOCK_INDEX) (it_seek (mem_new_iterator db) [KEY_BLOCK_INDEX]))"

definition write_last_block_file :: "memory_db \<Rightarrow> u32 \<Rightarrow> memory_db" where
  "write_last_block_file db file_no = mem_write_batch db (batch_put [] KEY_LAST_BLOCK_FILE (to_le_bytes file_no))"

definition read_last_block_file :: "memory_db \<Rightarrow> u32 option" where
  "read_last_block_file db =
     (case mem_read db KEY_LAST_BLOCK_FILE of
        Some data \<Rightarrow> if length data = 4 then Some (from_le_bytes data) else None
      | None \<Rightarrow> None)"

section \<open>The transaction index\<close>

definition KEY_TX_INDEX :: u8 where "KEY_TX_INDEX = 0x74"
definition VALUE_SIZE :: nat where "VALUE_SIZE = 12"

definition tx_index_key :: "hash_bytes \<Rightarrow> bytes" where
  "tx_index_key tx_id = KEY_TX_INDEX # tx_id"

definition write_tx_positions :: "memory_db \<Rightarrow> (hash_bytes \<times> int \<times> u32 \<times> u32) list \<Rightarrow> memory_db" where
  "write_tx_positions db entries =
     mem_write_batch db
       (foldl (\<lambda>batch (tx_id, file, data_pos, tx_idx).
            batch_put batch (tx_index_key tx_id)
              (to_le_bytes (word_of_int file :: i32) @ to_le_bytes data_pos @ to_le_bytes tx_idx)) [] entries)"

definition read_tx_pos :: "memory_db \<Rightarrow> hash_bytes \<Rightarrow> (int \<times> u32 \<times> u32) option" where
  "read_tx_pos db tx_id =
     (case mem_read db (tx_index_key tx_id) of
        Some data \<Rightarrow>
          if length data = VALUE_SIZE
          then Some (sint (from_le_bytes (take 4 data) :: i32), from_le_bytes (take 4 (drop 4 data)), from_le_bytes (take 4 (drop 8 data)))
          else None
      | None \<Rightarrow> None)"

section \<open>Round trips\<close>

definition storable_entry :: "block_index \<Rightarrow> bool" where
  "storable_entry bi \<longleftrightarrow>
     length (bi_block_hash bi) = 32 \<and> length (bi_prev_blockhash bi) = 32 \<and> length (bi_merkle_root bi) = 32 \<and>
     - (2 ^ 31) \<le> bi_height bi \<and> bi_height bi < 2 ^ 31 \<and> - (2 ^ 31) \<le> bi_file bi \<and> bi_file bi < 2 ^ 31 \<and> au_ok (bi_chain_work bi)"

definition record_of :: "block_index \<Rightarrow> block_index_record" where
  "record_of bi =
     \<lparr>bir_block_hash = bi_block_hash bi, bir_version = bi_version bi, bir_prev_blockhash = bi_prev_blockhash bi,
      bir_merkle_root = bi_merkle_root bi, bir_time = bi_time bi, bir_bits = bi_bits bi, bir_nonce = bi_nonce bi,
      bir_height = bi_height bi, bir_status_bits = bi_status bi, bir_file = bi_file bi, bir_data_pos = bi_data_pos bi,
      bir_undo_pos = bi_undo_pos bi, bir_tx_count = bi_tx_count bi, bir_chain_tx_count = bi_chain_tx_count bi,
      bir_chain_work_bytes = arith_to_uint256 (bi_chain_work bi)\<rparr>"

lemma record_roundtrip:
  assumes "storable_entry bi"
  shows "deserialize_block_index_record (bi_block_hash bi) (serialize_block_index bi) = Some (record_of bi)"
proof -
  have len: "length (arith_to_uint256 (bi_chain_work bi)) = 32" using assms le_nat_arith_to_uint256 by (simp add: storable_entry_def)
  have "sint (word_of_int (bi_height bi) :: i32) = bi_height bi" "sint (word_of_int (bi_file bi) :: i32) = bi_file bi"
    using assms by (simp_all add: storable_entry_def sint_of_int_i32)
  then show ?thesis
    using assms len unfolding deserialize_block_index_record_def serialize_block_index_def record_of_def
    by (simp add: storable_entry_def byte_simps)
qed


lemma load_all_iff:
  assumes "db_sorted db"
  shows "r \<in> set (load_all db) \<longleftrightarrow>
    (\<exists>hash value. length hash = 32 \<and> map_of db (block_index_key hash) = Some value \<and>
      deserialize_block_index_record hash value = Some r)"
proof
  assume "r \<in> set (load_all db)"
  then obtain key v where kv: "(key, v) \<in> set db" "key \<noteq> []" "hd key = KEY_BLOCK_INDEX" "length key = 33"
    "deserialize_block_index_record (tl key) v = Some r"
    unfolding load_all_def walk_prefix [OF assms] List.map_filter_def by (auto split: if_splits)
  then have "key = block_index_key (tl key)" by (cases key) (simp_all add: block_index_key_def)
  moreover have "map_of db key = Some v" using kv(1) db_sorted_distinct [OF assms] by simp
  ultimately show "\<exists>hash value. length hash = 32 \<and> map_of db (block_index_key hash) = Some value \<and>
      deserialize_block_index_record hash value = Some r"
    using kv(4,5) by (intro exI [of _ "tl key"] exI [of _ v]) simp
next
  assume "\<exists>hash value. length hash = 32 \<and> map_of db (block_index_key hash) = Some value \<and>
      deserialize_block_index_record hash value = Some r"
  then obtain hash v where h: "length hash = 32" "(block_index_key hash, v) \<in> set db" "deserialize_block_index_record hash v = Some r"
    using map_of_SomeD by fastforce
  then have "(block_index_key hash, v) \<in> set (filter (\<lambda>(k, v). k \<noteq> [] \<and> hd k = KEY_BLOCK_INDEX) db)"
    by (simp add: block_index_key_def)
  then show "r \<in> set (load_all db)"
    unfolding load_all_def walk_prefix [OF assms] List.map_filter_def using h by (force simp: block_index_key_def)
qed

lemma write_block_indices_map:
  "map_of (write_block_indices db entries) =
   map_of db ++ map_of (rev (map (\<lambda>e. (block_index_key (bi_block_hash e), serialize_block_index e)) entries))"
proof -
  have b: "foldl (\<lambda>batch e. batch_put batch (k e) (v e)) bs es = bs @ map (\<lambda>e. Put (k e) (v e)) es"
    for k v :: "block_index \<Rightarrow> bytes" and bs es
    by (induction es arbitrary: bs) (simp_all add: batch_put_def)
  have f: "fold op_update (map (\<lambda>e. Put (k e) (v e)) es) m = m ++ map_of (rev (map (\<lambda>e. (k e, v e)) es))"
    for k v :: "block_index \<Rightarrow> bytes" and m es
    by (induction es arbitrary: m) (simp_all add: map_add_def fun_eq_iff split: option.splits)
  show ?thesis unfolding write_block_indices_def mem_write_batch_map b by (simp add: f)
qed

lemma record_hash: "deserialize_block_index_record h v = Some r \<Longrightarrow> bir_block_hash r = h"
  by (auto simp: deserialize_block_index_record_def Let_def split: if_splits)

lemma load_all_distinct:
  assumes "db_sorted db"
  shows "distinct (map bir_block_hash (load_all db))"
proof -
  let ?f = "\<lambda>(key, value). if length key = 33 then deserialize_block_index_record (tl key) value else None"
  have from_key: "key = KEY_BLOCK_INDEX # bir_block_hash r" if "?f (key, v) = Some r" "key \<noteq> []" "hd key = KEY_BLOCK_INDEX" for key v r
    using that record_hash by (cases key) (auto split: if_splits)
  have "distinct (map bir_block_hash (List.map_filter ?f kvs))"
    if "distinct (map fst kvs)" "\<forall>(k, v)\<in>set kvs. k \<noteq> [] \<and> hd k = KEY_BLOCK_INDEX" for kvs
    using that
  proof (induction kvs)
    case (Cons kv kvs)
    obtain k v where kv: "kv = (k, v)" by fastforce
    have "bir_block_hash r \<noteq> bir_block_hash r'" if r: "?f (k, v) = Some r" and r': "r' \<in> set (List.map_filter ?f kvs)" for r r'
    proof
      assume eq: "bir_block_hash r = bir_block_hash r'"
      obtain k' v' where "(k', v') \<in> set kvs" "?f (k', v') = Some r'" using r' by (auto simp: List.map_filter_def)
      then have "k' = k" using from_key [OF r] from_key [of k' v' r'] Cons.prems(2) kv eq by fastforce
      then show False using Cons.prems(1) kv \<open>(k', v') \<in> set kvs\<close> by (force simp: rev_image_eqI)
    qed
    then show ?case using Cons kv by (cases "?f (k, v)") (auto simp: List.map_filter_simps)
  qed (simp add: List.map_filter_simps)
  moreover have "distinct (map fst (filter (\<lambda>(k, v). k \<noteq> [] \<and> hd k = KEY_BLOCK_INDEX) db))"
    using db_sorted_distinct [OF assms] by (rule distinct_map_filter)
  ultimately show ?thesis unfolding load_all_def walk_prefix [OF assms] by simp
qed

text \<open>C38: The block index survives a restart. After entries with different hashes were written to a sorted database, the scan of the
  database returns exactly their records and those of the other blocks that were there before, and no block twice.\<close>

theorem block_index_persisted:
  assumes "db_sorted db" "distinct (map bi_block_hash entries)" "\<forall>e\<in>set entries. storable_entry e"
  shows "set (load_all (write_block_indices db entries)) =
    record_of ` set entries \<union> {r \<in> set (load_all db). bir_block_hash r \<notin> bi_block_hash ` set entries} \<and>
    distinct (map bir_block_hash (load_all (write_block_indices db entries)))"
proof -
  let ?db = "write_block_indices db entries" and ?kv = "\<lambda>e. (block_index_key (bi_block_hash e), serialize_block_index e)"
  have key: "block_index_key a = block_index_key b \<longleftrightarrow> a = b" for a b by (simp add: block_index_key_def)
  have sorted: "db_sorted ?db" unfolding write_block_indices_def by (rule mem_write_batch_sorted [OF assms(1)])
  note hash = record_hash
  have new: "map_of ?db (block_index_key (bi_block_hash e)) = Some (serialize_block_index e)" if "e \<in> set entries" for e
  proof -
    have "distinct (map fst (map ?kv entries))" using assms(2) by (simp add: distinct_map inj_on_def o_def key)
    then have "map_of (rev (map ?kv entries)) (block_index_key (bi_block_hash e)) = Some (serialize_block_index e)"
      using that by (intro map_of_is_SomeI) (auto simp: rev_map [symmetric])
    then show ?thesis unfolding write_block_indices_map by simp
  qed
  have old: "map_of ?db (block_index_key h) = map_of db (block_index_key h)" if "h \<notin> bi_block_hash ` set entries" for h
  proof -
    have "map_of (rev (map ?kv entries)) (block_index_key h) = None" using that by (auto simp: map_of_eq_None_iff key)
    then show ?thesis unfolding write_block_indices_map by (simp add: map_add_def)
  qed
  have "r \<in> set (load_all ?db) \<longleftrightarrow> r \<in> record_of ` set entries \<or>
      r \<in> set (load_all db) \<and> bir_block_hash r \<notin> bi_block_hash ` set entries" for r
  proof (cases "bir_block_hash r \<in> bi_block_hash ` set entries")
    case True
    then obtain e where e: "e \<in> set entries" "bi_block_hash e = bir_block_hash r" by auto
    have "r \<in> set (load_all ?db) \<longleftrightarrow> deserialize_block_index_record (bi_block_hash e) (serialize_block_index e) = Some r"
    proof -
      have "length (bi_block_hash e) = 32" using e(1) assms(3) by (simp add: storable_entry_def)
      moreover have "h = bi_block_hash e" if "deserialize_block_index_record h v = Some r" for h v using hash [OF that] e(2) by simp
      ultimately show ?thesis unfolding load_all_iff [OF sorted] using new [OF e(1)] by (metis option.inject)
    qed
    also have "\<dots> \<longleftrightarrow> record_of e = r" using record_roundtrip assms(3) e(1) by simp
    also have "\<dots> \<longleftrightarrow> r \<in> record_of ` set entries"
    proof
      assume "r \<in> record_of ` set entries"
      then obtain e' where e': "e' \<in> set entries" "r = record_of e'" by auto
      then have "bi_block_hash e' = bi_block_hash e" using e(2) by (simp add: record_of_def)
      then have "e' = e" using assms(2) e(1) e'(1) inj_onD [of bi_block_hash "set entries" e' e] by (simp add: distinct_map)
      then show "record_of e = r" using e'(2) by simp
    qed (use e in auto)
    finally show ?thesis using True by simp
  next
    case False
    then have "r \<notin> record_of ` set entries" by (auto simp: record_of_def)
    moreover have "r \<in> set (load_all ?db) \<longleftrightarrow> r \<in> set (load_all db)"
    proof -
      have "length h = 32 \<and> map_of ?db (block_index_key h) = Some v \<and> deserialize_block_index_record h v = Some r \<longleftrightarrow>
          length h = 32 \<and> map_of db (block_index_key h) = Some v \<and> deserialize_block_index_record h v = Some r" for h v
      proof (cases "deserialize_block_index_record h v = Some r")
        case True
        then show ?thesis using old [of h] hash [OF True] False by simp
      qed simp
      then show ?thesis unfolding load_all_iff [OF sorted] load_all_iff [OF assms(1)] by (simp only:)
    qed
    ultimately show ?thesis using False by simp
  qed
  then have "set (load_all ?db) = record_of ` set entries \<union> {r \<in> set (load_all db). bir_block_hash r \<notin> bi_block_hash ` set entries}"
    by blast
  then show ?thesis using load_all_distinct [OF sorted] by blast
qed

theorem block_index_persisted_witness:
  "set (load_all (write_block_indices [] [bi_new\<lparr>bi_height := 7\<rparr>])) = {record_of (bi_new\<lparr>bi_height := 7\<rparr>)} \<and>
   distinct (map bir_block_hash (load_all (write_block_indices [] [bi_new\<lparr>bi_height := 7\<rparr>])))"
proof -
  have "storable_entry (bi_new\<lparr>bi_height := 7\<rparr>)"
    using au_zero_word by (simp add: storable_entry_def bi_new_def ZERO_HASH_def)
  moreover have "load_all [] = []" by code_simp
  ultimately show ?thesis
    using block_index_persisted [of "[]" "[bi_new\<lparr>bi_height := 7\<rparr>]"] by (simp add: db_sorted_def)
qed

text \<open>Transaction positions are read back as they were written.\<close>

lemma tx_pos_roundtrip:
  assumes "- (2 ^ 31) \<le> file" "file < 2 ^ 31"
  shows "read_tx_pos (write_tx_positions db (entries @ [(tx_id, file, data_pos, tx_idx)])) tx_id = Some (file, data_pos, tx_idx)"
  using assms sint_of_int_i32 [of "file"]
  by (simp add: read_tx_pos_def write_tx_positions_def mem_read_def mem_write_batch_map batch_put_def VALUE_SIZE_def byte_simps)

lemma last_block_file_roundtrip: "read_last_block_file (write_last_block_file db n) = Some n"
  by (simp add: read_last_block_file_def write_last_block_file_def mem_read_def mem_write_batch_map batch_put_def byte_simps)

end
