(* ===== verification/Chainstate.thy ===== *)
theory Chainstate
  imports Connect BlockIndexDb
begin

text \<open>
  The manager of the chain state, \<open>qubitcoin-node/src/chainstate.rs\<close>: the index of blocks, the acceptance of headers and
  blocks, and the activation of the chain with the most work. The block files are read through a function; the clock of
  the system is an argument. A panic is \<open>None\<close>.
\<close>

section \<open>The index of blocks\<close>

record block_map =
  bm_indices :: arena
  bm_by_hash :: "hash_bytes \<rightharpoonup> nat"

definition bm_new :: block_map where
  "bm_new = \<lparr>bm_indices = [], bm_by_hash = Map.empty\<rparr>"

definition bm_insert :: "block_map \<Rightarrow> block_index \<Rightarrow> nat \<times> block_map" where
  "bm_insert bm index =
     (let arena_idx = length (bm_indices bm) in
      (arena_idx, \<lparr>bm_indices = bm_indices bm @ [index], bm_by_hash = (bm_by_hash bm)(bi_block_hash index \<mapsto> arena_idx)\<rparr>))"

definition bm_get :: "block_map \<Rightarrow> nat \<Rightarrow> block_index" where
  "bm_get bm idx = bm_indices bm ! idx"

definition bm_update :: "(block_index \<Rightarrow> block_index) \<Rightarrow> nat \<Rightarrow> block_map \<Rightarrow> block_map" where
  "bm_update f idx bm = bm\<lparr>bm_indices := (bm_indices bm)[idx := f (bm_indices bm ! idx)]\<rparr>"

definition bm_find_by_hash :: "block_map \<Rightarrow> hash_bytes \<Rightarrow> nat option" where
  "bm_find_by_hash bm hash = bm_by_hash bm hash"

definition bm_len :: "block_map \<Rightarrow> nat" where
  "bm_len bm = length (bm_indices bm)"

definition bm_is_empty :: "block_map \<Rightarrow> bool" where
  "bm_is_empty bm \<longleftrightarrow> bm_indices bm = []"

definition build_skip_pointer :: "nat \<Rightarrow> block_map \<Rightarrow> block_map" where
  "build_skip_pointer arena_idx bm =
     (let height = bi_height (bm_get bm arena_idx) in
      if height < 1 then bm
      else case bi_prev (bm_get bm arena_idx) of
          None \<Rightarrow> bm
        | Some pidx \<Rightarrow>
            (case get_ancestor (bm_indices bm) pidx (get_skip_height height) of
               None \<Rightarrow> bm
             | Some skip_idx \<Rightarrow> bm_update (\<lambda>bi. bi\<lparr>bi_skip := Some skip_idx\<rparr>) arena_idx bm))"

section \<open>The manager\<close>

record chainstate =
  chs_chain :: chain
  chs_coins_tip :: coins_cache

definition chainstate_new :: "hash_bytes \<Rightarrow> chainstate" where
  "chainstate_new base_best_block = \<lparr>chs_chain = [], chs_coins_tip = cache_new base_best_block\<rparr>"

type_synonym block_reader = "int \<Rightarrow> u32 \<Rightarrow> u32 \<Rightarrow> (block \<times> block_undo) option"

record chainstate_manager =
  mgr_consensus :: consensus_params
  mgr_genesis_block_hash :: hash_bytes
  mgr_block_index :: block_map
  mgr_active_chainstate :: chainstate
  mgr_stored_blocks :: "hash_bytes \<rightharpoonup> block"
  mgr_stored_undos :: "hash_bytes \<rightharpoonup> block_undo"
  mgr_block_reader :: "block_reader option"
  mgr_assume_valid :: "hash_bytes option"
  mgr_assume_valid_height :: "int option"
  mgr_best_valid_tip :: "(nat \<times> arith_uint256) option"
  mgr_dirty_indices :: "nat set"

definition mgr_new :: "consensus_params \<Rightarrow> hash_bytes \<Rightarrow> hash_bytes \<Rightarrow> chainstate_manager" where
  "mgr_new consensus genesis_block_hash base_best_block =
     \<lparr>mgr_consensus = consensus, mgr_genesis_block_hash = genesis_block_hash, mgr_block_index = bm_new,
      mgr_active_chainstate = chainstate_new base_best_block, mgr_stored_blocks = Map.empty, mgr_stored_undos = Map.empty,
      mgr_block_reader = None, mgr_assume_valid = None, mgr_assume_valid_height = None, mgr_best_valid_tip = None,
      mgr_dirty_indices = {}\<rparr>"

abbreviation mgr_chain :: "chainstate_manager \<Rightarrow> chain" where
  "mgr_chain mgr \<equiv> chs_chain (mgr_active_chainstate mgr)"

abbreviation mgr_coins :: "chainstate_manager \<Rightarrow> coins_cache" where
  "mgr_coins mgr \<equiv> chs_coins_tip (mgr_active_chainstate mgr)"

abbreviation mgr_arena :: "chainstate_manager \<Rightarrow> arena" where
  "mgr_arena mgr \<equiv> bm_indices (mgr_block_index mgr)"

definition put_chain :: "chain \<Rightarrow> chainstate_manager \<Rightarrow> chainstate_manager" where
  "put_chain c mgr = mgr\<lparr>mgr_active_chainstate := (mgr_active_chainstate mgr)\<lparr>chs_chain := c\<rparr>\<rparr>"

definition put_coins :: "coins_cache \<Rightarrow> chainstate_manager \<Rightarrow> chainstate_manager" where
  "put_coins cc mgr = mgr\<lparr>mgr_active_chainstate := (mgr_active_chainstate mgr)\<lparr>chs_coins_tip := cc\<rparr>\<rparr>"

text \<open>Changing an entry of the index and marking it dirty.\<close>

definition touch_index :: "(block_index \<Rightarrow> block_index) \<Rightarrow> nat \<Rightarrow> chainstate_manager \<Rightarrow> chainstate_manager" where
  "touch_index f idx mgr =
     mgr\<lparr>mgr_block_index := bm_update f idx (mgr_block_index mgr), mgr_dirty_indices := insert idx (mgr_dirty_indices mgr)\<rparr>"

definition set_block_reader :: "block_reader \<Rightarrow> chainstate_manager \<Rightarrow> chainstate_manager" where
  "set_block_reader reader mgr = mgr\<lparr>mgr_block_reader := Some reader\<rparr>"

definition set_undo_pos :: "hash_bytes \<Rightarrow> u32 \<Rightarrow> chainstate_manager \<Rightarrow> chainstate_manager" where
  "set_undo_pos hash undo_pos mgr =
     (case bm_find_by_hash (mgr_block_index mgr) hash of
        None \<Rightarrow> mgr
      | Some idx \<Rightarrow> touch_index (\<lambda>bi. bi\<lparr>bi_undo_pos := undo_pos\<rparr>) idx mgr)"

text \<open>The daemon records where the block is on disk.\<close>

definition set_block_pos :: "hash_bytes \<Rightarrow> int \<Rightarrow> u32 \<Rightarrow> chainstate_manager \<Rightarrow> chainstate_manager" where
  "set_block_pos hash file pos mgr =
     (case bm_find_by_hash (mgr_block_index mgr) hash of
        None \<Rightarrow> mgr
      | Some idx \<Rightarrow> touch_index (\<lambda>bi. bi\<lparr>bi_file := file, bi_data_pos := pos\<rparr>) idx mgr)"

definition set_assume_valid :: "hash_bytes \<Rightarrow> int \<Rightarrow> chainstate_manager \<Rightarrow> chainstate_manager" where
  "set_assume_valid hash height mgr = mgr\<lparr>mgr_assume_valid := Some hash, mgr_assume_valid_height := Some height\<rparr>"

definition mgr_parent :: "chainstate_manager \<Rightarrow> nat \<Rightarrow> nat option" where
  "mgr_parent mgr idx = bi_prev (bm_get (mgr_block_index mgr) idx)"

text \<open>The chain of an entry, with its hash as best block of the coins.\<close>

definition reset_active_chain_to :: "nat \<Rightarrow> chainstate_manager \<Rightarrow> chainstate_manager" where
  "reset_active_chain_to arena_idx mgr =
     (let entry = bm_get (mgr_block_index mgr) arena_idx;
          mgr = put_chain (chain_set_tip_with (mgr_chain mgr) arena_idx (bi_height entry) (mgr_parent mgr)) mgr
      in put_coins (set_best_block (mgr_coins mgr) (bi_block_hash entry)) mgr)"

definition mgr_height :: "chainstate_manager \<Rightarrow> int" where
  "mgr_height mgr = chain_height (mgr_chain mgr)"

definition mgr_tip :: "chainstate_manager \<Rightarrow> nat option" where
  "mgr_tip mgr = chain_tip (mgr_chain mgr)"

definition lookup_block_index :: "chainstate_manager \<Rightarrow> hash_bytes \<Rightarrow> nat option" where
  "lookup_block_index mgr hash = bm_find_by_hash (mgr_block_index mgr) hash"

definition mark_dirty :: "nat \<Rightarrow> chainstate_manager \<Rightarrow> chainstate_manager" where
  "mark_dirty arena_idx mgr = mgr\<lparr>mgr_dirty_indices := insert arena_idx (mgr_dirty_indices mgr)\<rparr>"

definition clear_dirty :: "chainstate_manager \<Rightarrow> chainstate_manager" where
  "clear_dirty mgr = mgr\<lparr>mgr_dirty_indices := {}\<rparr>"

definition get_block_hash_at_height :: "chainstate_manager \<Rightarrow> int \<Rightarrow> string option" where
  "get_block_hash_at_height mgr height =
     map_option (\<lambda>idx. hash_to_hex (bi_block_hash (bm_get (mgr_block_index mgr) idx))) (chain_get_block_index (mgr_chain mgr) height)"

definition flush_coins :: "'db batch_writer \<Rightarrow> 'db \<Rightarrow> outpoint list \<Rightarrow> chainstate_manager \<Rightarrow> (bool \<times> 'db \<times> chainstate_manager) option" where
  "flush_coins batch_write target order mgr =
     map_option (\<lambda>(ok, target, cc). (ok, target, put_coins cc mgr)) (flush_to batch_write target (mgr_coins mgr) order)"

section \<open>The genesis block\<close>

definition raise_status :: "u32 \<Rightarrow> block_index \<Rightarrow> block_index" where
  "raise_status up_to bi = bi\<lparr>bi_status := snd (st_raise_validity (bi_status bi) up_to)\<rparr>"

definition insert_status :: "u32 \<Rightarrow> block_index \<Rightarrow> block_index" where
  "insert_status flag bi = bi\<lparr>bi_status := st_insert (bi_status bi) flag\<rparr>"

definition genesis_entry :: "crypto \<Rightarrow> block \<Rightarrow> block_index option" where
  "genesis_entry C genesis =
     (let index = bi_from_header C (blk_header genesis) 0 in
      case get_block_proof index of
        Inl _ \<Rightarrow> None
      | Inr work \<Rightarrow>
          Some ((insert_status HAVE_DATA (raise_status VALID_SCRIPTS (index\<lparr>bi_chain_work := work,
            bi_tx_count := of_nat (length (blk_vtx genesis)), bi_chain_tx_count := of_nat (length (blk_vtx genesis))\<rparr>)))
            \<lparr>bi_time_max := hdr_time (blk_header genesis)\<rparr>))"

definition load_genesis_block :: "crypto \<Rightarrow> coins_view \<Rightarrow> chainstate_manager \<Rightarrow> block \<Rightarrow> ((string + unit) \<times> chainstate_manager) option" where
  "load_genesis_block C base mgr genesis =
     (let hash = header_block_hash C (blk_header genesis) in
      if hash \<noteq> mgr_genesis_block_hash mgr
      then Some (Inl (''Genesis block hash mismatch: expected '' @ hash_to_hex (mgr_genesis_block_hash mgr) @ '', got '' @ hash_to_hex hash), mgr)
      else if bm_find_by_hash (mgr_block_index mgr) hash \<noteq> None then Some (Inr (), mgr)
      else
        case genesis_entry C genesis of
          None \<Rightarrow> None
        | Some index \<Rightarrow>
            let (arena_idx, bm) = bm_insert (mgr_block_index mgr) index;
                mgr = mgr\<lparr>mgr_block_index := build_skip_pointer arena_idx bm, mgr_dirty_indices := insert arena_idx (mgr_dirty_indices mgr),
                  mgr_best_valid_tip := Some (arena_idx, bi_chain_work index)\<rparr>;
                mgr = put_chain (chain_set_tip (mgr_chain mgr) arena_idx 0) mgr;
                coins = (case blk_vtx genesis of [] \<Rightarrow> Some (mgr_coins mgr)
                         | coinbase # _ \<Rightarrow> add_coins C base (mgr_coins mgr) coinbase 0 True)
            in map_option (\<lambda>cc. (Inr (), put_coins (set_best_block cc hash) mgr)) coins)"

section \<open>Headers\<close>

definition header_fail :: "string \<Rightarrow> string \<Rightarrow> block_validation_state" where
  "header_fail reason debug = snd (vs_invalid (vs_new BlockUnset) BlockInvalidHeader reason debug)"

text \<open>The new entry of the index, below its parent.\<close>

definition child_entry :: "crypto \<Rightarrow> block_index \<Rightarrow> nat \<Rightarrow> block_header \<Rightarrow> block_index option" where
  "child_entry C prev pidx header =
     (let index = (bi_from_header C header (bi_height prev + 1))\<lparr>bi_prev := Some pidx\<rparr> in
      case get_block_proof index of
        Inl _ \<Rightarrow> None
      | Inr proof \<Rightarrow>
          Some (raise_status VALID_TREE (index\<lparr>bi_chain_work := au_add (bi_chain_work prev) proof,
                 bi_time_max := max (bi_time_max prev) (hdr_time header)\<rparr>)))"

definition accept_block_header ::
  "crypto \<Rightarrow> int \<Rightarrow> chainstate_manager \<Rightarrow> block_header \<Rightarrow> ((block_validation_state + nat) \<times> chainstate_manager) option" where
  "accept_block_header C now mgr header =
     (let hash = header_block_hash C header; bm = mgr_block_index mgr in
      case bm_find_by_hash bm hash of
        Some idx \<Rightarrow> Some (Inr idx, mgr)
      | None \<Rightarrow>
          let (ok, state) = check_block_header C header (mgr_consensus mgr) (vs_new BlockUnset) in
          if \<not> ok then Some (Inl state, mgr)
          else case bm_find_by_hash bm (hdr_prev_blockhash header) of
              None \<Rightarrow> Some (Inl (header_fail ''bad-prevblk'' ''previous block not found''), mgr)
            | Some pidx \<Rightarrow>
                if st_has_failed (bi_status (bm_get bm pidx))
                then Some (Inl (header_fail ''bad-prevblk'' ''previous block is invalid''), mgr)
                else case contextual_check_block_header_with_arena now header (bm_get bm pidx) (mgr_consensus mgr) state
                            (Some (bm_indices bm, pidx)) of
                    None \<Rightarrow> None
                  | Some (False, state) \<Rightarrow> Some (Inl state, mgr)
                  | Some (True, state) \<Rightarrow>
                      (case child_entry C (bm_get bm pidx) pidx header of
                         None \<Rightarrow> None
                       | Some index \<Rightarrow>
                           let (arena_idx, bm) = bm_insert bm index in
                           Some (Inr arena_idx, mgr\<lparr>mgr_block_index := build_skip_pointer arena_idx bm,
                             mgr_dirty_indices := insert arena_idx (mgr_dirty_indices mgr)\<rparr>)))"


section \<open>Loading the index\<close>

definition entry_of_record :: "block_index_record \<Rightarrow> block_index" where
  "entry_of_record r =
     bi_new\<lparr>bi_block_hash := bir_block_hash r, bi_version := bir_version r, bi_prev_blockhash := bir_prev_blockhash r,
       bi_merkle_root := bir_merkle_root r, bi_time := bir_time r, bi_bits := bir_bits r, bi_nonce := bir_nonce r,
       bi_height := bir_height r, bi_status := bir_status_bits r, bi_file := bir_file r, bi_data_pos := bir_data_pos r,
       bi_undo_pos := bir_undo_pos r, bi_tx_count := bir_tx_count r, bi_chain_tx_count := bir_chain_tx_count r,
       bi_chain_work := bir_chain_work r\<rparr>"

text \<open>The parent of an entry, its maximal time and its skip link.\<close>

definition resolve_links :: "nat \<Rightarrow> block_map \<Rightarrow> block_map" where
  "resolve_links arena_idx bm =
     (let prev_hash = bi_prev_blockhash (bm_get bm arena_idx);
          bm = (if \<not> list_all (\<lambda>b. b = 0) prev_hash then
                  (case bm_find_by_hash bm prev_hash of
                     None \<Rightarrow> bm
                   | Some pidx \<Rightarrow>
                       bm_update (\<lambda>bi. bi\<lparr>bi_prev := Some pidx,
                         bi_time_max := max (bi_time_max (bm_get bm pidx)) (bi_time bi)\<rparr>) arena_idx bm)
                else bm_update (\<lambda>bi. bi\<lparr>bi_time_max := bi_time bi\<rparr>) arena_idx bm)
      in build_skip_pointer arena_idx bm)"

text \<open>The first entry with the most work among the fully validated ones.\<close>

definition best_valid :: "arena \<Rightarrow> (nat \<times> arith_uint256) option" where
  "best_valid a =
     fst (foldl (\<lambda>(best, work) i.
        if bi_is_valid (a ! i) VALID_SCRIPTS \<and> au_compare_to (bi_chain_work (a ! i)) work = Greater
        then (Some (i, bi_chain_work (a ! i)), bi_chain_work (a ! i)) else (best, work)) (None, au_zero) [0..<length a])"

definition load_block_index :: "block_index_record list \<Rightarrow> chainstate_manager \<Rightarrow> chainstate_manager" where
  "load_block_index records mgr =
     (if records = [] then mgr
      else
        let bm = foldl (\<lambda>bm r. snd (bm_insert bm (entry_of_record r))) (mgr_block_index mgr) (sort_key bir_height records);
            bm = fold resolve_links [0..<bm_len bm] bm;
            mgr = mgr\<lparr>mgr_block_index := bm\<rparr>
        in case best_valid (bm_indices bm) of
             None \<Rightarrow> mgr
           | Some (best, work) \<Rightarrow>
               let mgr = mgr\<lparr>mgr_best_valid_tip := Some (best, work)\<rparr>
               in put_chain (chain_set_tip_with (mgr_chain mgr) best (bi_height (bm_get bm best)) (mgr_parent mgr)) mgr)"

section \<open>Activating the best chain\<close>

text \<open>The walk from the tip to the first block; entries that it does not reach are 0. A parent link at height 0 ends it.\<close>

fun chain_path_loop :: "block_map \<Rightarrow> nat \<Rightarrow> nat \<Rightarrow> nat list \<Rightarrow> nat list" where
  "chain_path_loop bm current h path =
     (let path = path[h := current] in
      case bi_prev (bm_get bm current) of
        None \<Rightarrow> path
      | Some prev \<Rightarrow> (case h of 0 \<Rightarrow> path | Suc h' \<Rightarrow> chain_path_loop bm prev h' path))"

declare chain_path_loop.simps [simp del]

definition build_chain_path :: "block_map \<Rightarrow> nat \<Rightarrow> nat list" where
  "build_chain_path bm tip_idx =
     (let tip_height = bi_height (bm_get bm tip_idx) in
      if tip_height < 0 then [] else chain_path_loop bm tip_idx (nat tip_height) (replicate (nat tip_height + 1) 0))"

definition find_fork_height :: "chain \<Rightarrow> nat list \<Rightarrow> int \<Rightarrow> int" where
  "find_fork_height c new_chain current_height =
     (let min_height = min current_height (int (length new_chain) - 1) in
      if min_height < 0 then - 1
      else case find (\<lambda>h. chain_get_block_index c (int h) = Some (new_chain ! h)) (rev [0..<nat min_height + 1]) of
          Some h \<Rightarrow> int h
        | None \<Rightarrow> - 1)"

definition should_skip_scripts :: "chainstate_manager \<Rightarrow> nat \<Rightarrow> bool" where
  "should_skip_scripts mgr arena_idx =
     (case mgr_assume_valid mgr of
        None \<Rightarrow> False
      | Some assume_hash \<Rightarrow>
          if bi_block_hash (bm_get (mgr_block_index mgr) arena_idx) = assume_hash then True
          else case bm_find_by_hash (mgr_block_index mgr) assume_hash of
              None \<Rightarrow> False
            | Some assume_idx \<Rightarrow>
                let block_height = bi_height (bm_get (mgr_block_index mgr) arena_idx) in
                if block_height > bi_height (bm_get (mgr_block_index mgr) assume_idx) then False
                else get_ancestor (mgr_arena mgr) assume_idx block_height = Some arena_idx)"

text \<open>The stored block of an entry with its undo data, from memory or from the block files.\<close>

definition stored_block :: "chainstate_manager \<Rightarrow> nat \<Rightarrow> (block \<times> block_undo) option" where
  "stored_block mgr idx =
     (let entry = bm_get (mgr_block_index mgr) idx in
      case mgr_stored_blocks mgr (bi_block_hash entry) of
        Some b \<Rightarrow> Some (b, case mgr_stored_undos mgr (bi_block_hash entry) of Some u \<Rightarrow> u | None \<Rightarrow> block_undo_new)
      | None \<Rightarrow>
          (case mgr_block_reader mgr of
             Some reader \<Rightarrow> reader (bi_file entry) (bi_data_pos entry) (bi_undo_pos entry)
           | None \<Rightarrow> None))"

text \<open>Disconnecting the blocks at the given heights of the active chain; the result of the disconnection is not looked at.\<close>

fun disconnect_heights :: "crypto \<Rightarrow> coins_view \<Rightarrow> int list \<Rightarrow> chainstate_manager \<Rightarrow> chainstate_manager option" where
  "disconnect_heights C base [] mgr = Some mgr"
| "disconnect_heights C base (h # hs) mgr =
     (case chain_get_block_index (mgr_chain mgr) h of
        None \<Rightarrow> disconnect_heights C base hs mgr
      | Some idx \<Rightarrow>
          (case stored_block mgr idx of
             None \<Rightarrow> disconnect_heights C base hs mgr
           | Some (blk, undo) \<Rightarrow>
               (case disconnect_block C base blk h (mgr_coins mgr) undo of
                  None \<Rightarrow> None
                | Some (_, cc) \<Rightarrow> disconnect_heights C base hs (put_coins cc mgr))))"

definition raise_best :: "nat \<Rightarrow> chainstate_manager \<Rightarrow> chainstate_manager" where
  "raise_best idx mgr =
     (let work = bi_chain_work (bm_get (mgr_block_index mgr) idx) in
      if (case mgr_best_valid_tip mgr of None \<Rightarrow> True | Some (_, bw) \<Rightarrow> au_compare_to work bw = Greater)
      then mgr\<lparr>mgr_best_valid_tip := Some (idx, work)\<rparr> else mgr)"

text \<open>Connecting one block of the new chain.\<close>

definition mtp_lookup :: "int \<Rightarrow> chainstate_manager \<Rightarrow> int \<Rightarrow> int" where
  "mtp_lookup otherwise mgr h =
     (case chain_get_block_index (mgr_chain mgr) h of Some ai \<Rightarrow> compute_mtp (mgr_arena mgr) ai | None \<Rightarrow> otherwise)"

definition connect_at ::
  "crypto \<Rightarrow> 'k secp_scheme \<Rightarrow> coins_view \<Rightarrow> int \<Rightarrow> nat \<Rightarrow> block \<Rightarrow> chainstate_manager \<Rightarrow>
   ((block_validation_state + unit) \<times> chainstate_manager) option" where
  "connect_at C K base h idx blk mgr =
     (let hash = bi_block_hash (bm_get (mgr_block_index mgr) idx);
          validated = bi_is_valid (bm_get (mgr_block_index mgr) idx) VALID_SCRIPTS in
      case connect_block C K base blk h (mgr_coins mgr) (mgr_consensus mgr) (Some (mtp_lookup 0 mgr)) (should_skip_scripts mgr idx) of
        None \<Rightarrow> None
      | Some (Inl e, cc) \<Rightarrow> Some (Inl e, touch_index (insert_status FAILED_VALID) idx (put_coins cc mgr))
      | Some (Inr undo, cc) \<Rightarrow>
          let mgr = (put_coins cc mgr)\<lparr>mgr_stored_undos := (mgr_stored_undos mgr)(hash \<mapsto> undo)\<rparr>
          in Some (Inr (), if validated then mgr else raise_best idx (touch_index (raise_status VALID_SCRIPTS) idx mgr)))"

fun connect_heights ::
  "crypto \<Rightarrow> 'k secp_scheme \<Rightarrow> coins_view \<Rightarrow> nat list \<Rightarrow> nat option \<Rightarrow> int list \<Rightarrow> chainstate_manager \<Rightarrow>
   ((block_validation_state + unit) \<times> chainstate_manager) option" where
  "connect_heights C K base new_chain just_connected [] mgr = Some (Inr (), mgr)"
| "connect_heights C K base new_chain just_connected (h # hs) mgr =
     (if nat h \<ge> length new_chain then Some (Inr (), mgr)
      else if just_connected = Some (new_chain ! nat h) then connect_heights C K base new_chain just_connected hs mgr
      else case stored_block mgr (new_chain ! nat h) of
          None \<Rightarrow> connect_heights C K base new_chain just_connected hs mgr
        | Some (blk, _) \<Rightarrow>
            (case connect_at C K base h (new_chain ! nat h) blk mgr of
               None \<Rightarrow> None
             | Some (Inl e, mgr) \<Rightarrow> Some (Inl e, mgr)
             | Some (Inr _, mgr) \<Rightarrow> connect_heights C K base new_chain just_connected hs mgr))"

definition activate_best_chain ::
  "crypto \<Rightarrow> 'k secp_scheme \<Rightarrow> coins_view \<Rightarrow> nat option \<Rightarrow> chainstate_manager \<Rightarrow>
   ((block_validation_state + unit) \<times> chainstate_manager) option" where
  "activate_best_chain C K base just_connected mgr =
     (case mgr_best_valid_tip mgr of
        None \<Rightarrow> Some (Inr (), mgr)
      | Some (best_idx, _) \<Rightarrow>
          if mgr_tip mgr = Some best_idx then Some (Inr (), mgr)
          else
            let best_height = bi_height (bm_get (mgr_block_index mgr) best_idx);
                new_chain = build_chain_path (mgr_block_index mgr) best_idx;
                current_height = mgr_height mgr;
                fork_height = find_fork_height (mgr_chain mgr) new_chain current_height in
            case disconnect_heights C base (rev [fork_height + 1..current_height]) mgr of
              None \<Rightarrow> None
            | Some mgr \<Rightarrow>
                (case connect_heights C K base new_chain just_connected [fork_height + 1..best_height] mgr of
                   None \<Rightarrow> None
                 | Some (Inl e, mgr) \<Rightarrow> Some (Inl e, mgr)
                 | Some (Inr _, mgr) \<Rightarrow>
                     let mgr = put_chain (chain_set_tip_with (mgr_chain mgr) best_idx best_height (mgr_parent mgr)) mgr
                     in Some (Inr (), put_coins (set_best_block (mgr_coins mgr) (bi_block_hash (bm_get (mgr_block_index mgr) best_idx))) mgr)))"

section \<open>Blocks\<close>

text \<open>A block that failed a check: its entry is marked.\<close>

definition mark_failed :: "nat \<Rightarrow> chainstate_manager \<Rightarrow> chainstate_manager" where
  "mark_failed idx mgr = touch_index (insert_status FAILED_VALID) idx mgr"

definition record_block :: "nat \<Rightarrow> block \<Rightarrow> chainstate_manager \<Rightarrow> chainstate_manager" where
  "record_block idx blk mgr =
     (let parent_chain_tx = (case mgr_parent mgr idx of Some p \<Rightarrow> bi_chain_tx_count (bm_get (mgr_block_index mgr) p) | None \<Rightarrow> 0)
      in touch_index (\<lambda>bi. (raise_status VALID_TRANSACTIONS (insert_status HAVE_DATA (bi\<lparr>bi_tx_count := of_nat (length (blk_vtx blk))\<rparr>)))
           \<lparr>bi_chain_tx_count := parent_chain_tx + of_nat (length (blk_vtx blk))\<rparr>) idx mgr)"

text \<open>The contextual check, which the first block of a chain does not need.\<close>

definition check_in_context :: "crypto \<Rightarrow> nat \<Rightarrow> block \<Rightarrow> block_validation_state \<Rightarrow> chainstate_manager \<Rightarrow> bool \<times> block_validation_state" where
  "check_in_context C idx blk st mgr =
     (case mgr_parent mgr idx of
        None \<Rightarrow> (True, st)
      | Some pidx \<Rightarrow>
          contextual_check_block C blk (bi_height (bm_get (mgr_block_index mgr) pidx))
            (get_median_time_past (collect_ancestors 11 (mgr_arena mgr) (Some pidx))) (mgr_consensus mgr) st)"

text \<open>The connection of a checked block, and the activation that follows.\<close>

definition connect_new_block ::
  "crypto \<Rightarrow> 'k secp_scheme \<Rightarrow> coins_view \<Rightarrow> nat \<Rightarrow> block \<Rightarrow> chainstate_manager \<Rightarrow>
   ((block_validation_state + bool \<times> block_undo option) \<times> chainstate_manager) option" where
  "connect_new_block C K base idx blk mgr =
     (let height = bi_height (bm_get (mgr_block_index mgr) idx);
          mtp = mtp_lookup (uint (hdr_time (blk_header blk))) mgr in
      case connect_block C K base blk height (mgr_coins mgr) (mgr_consensus mgr) (Some mtp) (should_skip_scripts mgr idx) of
        None \<Rightarrow> None
      | Some (Inl e, cc) \<Rightarrow> Some (Inl e, mark_failed idx (put_coins cc mgr))
      | Some (Inr undo, cc) \<Rightarrow>
          let mgr = raise_best idx (touch_index (raise_status VALID_SCRIPTS) idx (put_coins cc mgr)) in
          (case activate_best_chain C K base (Some idx) mgr of
             None \<Rightarrow> None
           | Some (Inl e, mgr) \<Rightarrow> Some (Inl e, mgr)
           | Some (Inr _, mgr) \<Rightarrow> Some (Inr (mgr_tip mgr = Some idx, Some undo), mgr)))"

definition process_new_block ::
  "crypto \<Rightarrow> 'k secp_strict_scheme \<Rightarrow> coins_view \<Rightarrow> int \<Rightarrow> chainstate_manager \<Rightarrow> block \<Rightarrow>
   ((block_validation_state + bool \<times> block_undo option) \<times> chainstate_manager) option" where
  "process_new_block C K base now mgr blk =
     (case accept_block_header C now mgr (blk_header blk) of
        None \<Rightarrow> None
      | Some (Inl e, mgr) \<Rightarrow> Some (Inl e, mgr)
      | Some (Inr idx, mgr) \<Rightarrow>
          if bi_is_valid (bm_get (mgr_block_index mgr) idx) VALID_SCRIPTS \<and>
             chain_get_block_index (mgr_chain mgr) (bi_height (bm_get (mgr_block_index mgr) idx)) = Some idx
          then Some (Inr (mgr_tip mgr = Some idx, None), mgr)
          else
            let (ok, st) = check_block C K blk (mgr_consensus mgr) (vs_new BlockUnset) True in
            if \<not> ok then Some (Inl st, mark_failed idx mgr)
            else
              let mgr = record_block idx blk mgr;
                  (ok, st) = check_in_context C idx blk st mgr in
              if \<not> ok then Some (Inl st, mark_failed idx mgr)
              else connect_new_block C K base idx blk mgr)"

section \<open>The invariant of the index\<close>

text \<open>The work of an entry is the work of its parent and its own.\<close>

definition work_ok :: "arena \<Rightarrow> bool" where
  "work_ok a \<longleftrightarrow>
     (\<forall>i<length a. au_ok (bi_chain_work (a ! i)) \<and> (\<forall>j. bi_prev (a ! i) = Some j \<longrightarrow>
        (\<exists>p. get_block_proof (a ! i) = Inr p \<and> bi_chain_work (a ! i) = au_add (bi_chain_work (a ! j)) p)))"

text \<open>The table finds exactly the entries of the arena.\<close>

definition hashes_ok :: "block_map \<Rightarrow> bool" where
  "hashes_ok bm \<longleftrightarrow>
     (\<forall>h i. bm_by_hash bm h = Some i \<longleftrightarrow> i < length (bm_indices bm) \<and> bi_block_hash (bm_indices bm ! i) = h)"

definition index_ok :: "block_map \<Rightarrow> bool" where
  "index_ok bm \<longleftrightarrow> arena_ok (bm_indices bm) \<and> times_ok (bm_indices bm) \<and> work_ok (bm_indices bm) \<and> hashes_ok bm"

lemma prev_n_snoc: "arena_ok a \<Longrightarrow> i < length a \<Longrightarrow> prev_n (a @ [e]) n i = prev_n a n i"
proof (induction n arbitrary: i)
  case (Suc n)
  then show ?case using arena_prev(2) [of a i]
    by (cases "bi_prev (a ! i)") (auto simp: nth_append)
qed simp

lemma collect_snoc: "arena_ok a \<Longrightarrow> i < length a \<Longrightarrow> collect_ancestors n (a @ [e]) (Some i) = collect_ancestors n a (Some i)"
proof (induction n arbitrary: i)
  case (Suc n)
  have "collect_ancestors n (a @ [e]) (bi_prev (a ! i)) = collect_ancestors n a (bi_prev (a ! i))"
  proof (cases "bi_prev (a ! i)")
    case None
    then show ?thesis by (cases n) simp_all
  next
    case (Some j)
    then show ?thesis using Suc arena_prev(2) [of a i j] by simp
  qed
  then show ?case using Suc.prems by (simp add: nth_append)
qed simp

lemma compute_mtp_snoc: "arena_ok a \<Longrightarrow> i < length a \<Longrightarrow> compute_mtp (a @ [e]) i = compute_mtp a i"
  by (simp add: compute_mtp_def collect_mtp_ancestors_def collect_snoc)

text \<open>A new entry below an entry of the index.\<close>

definition child_of :: "arena \<Rightarrow> nat \<Rightarrow> block_index \<Rightarrow> bool" where
  "child_of a p e \<longleftrightarrow> arena_ok a \<and> p < length a \<and> bi_prev e = Some p \<and> bi_height e = bi_height (a ! p) + 1"

lemma arena_ok_snoc:
  assumes "child_of a p e"
    and "\<forall>s. bi_skip e = Some s \<longrightarrow> prev_n a (nat (bi_height (a ! p) - get_skip_height (bi_height e))) p = Some s"
  shows "arena_ok (a @ [e])"
proof -
  note c = assms(1) [unfolded child_of_def]
  then have ok: "arena_ok a" and p: "p < length a" by auto
  have "entry_ok (a @ [e]) i" if "i < length a" for i
  proof -
    have "entry_ok a i" using ok that by (simp add: arena_ok_def)
    then show ?thesis using that arena_prev(2) [OF ok that]
      by (auto simp: entry_ok_def nth_append prev_n_snoc [OF ok that] split: option.splits)
  qed
  moreover have "entry_ok (a @ [e]) (length a)"
  proof -
    have "0 \<le> bi_height (a ! p)" using arena_height [OF ok p] .
    then have "nat (bi_height e - get_skip_height (bi_height e)) = Suc (nat (bi_height (a ! p) - get_skip_height (bi_height e)))"
      using get_skip_height_bounds [of "bi_height e"] c by linarith
    then show ?thesis using assms(2) c by (simp add: entry_ok_def nth_append prev_n_snoc [OF ok p])
  qed
  ultimately show ?thesis by (simp add: arena_ok_def less_Suc_eq)
qed

lemma times_ok_snoc: "child_of a p e \<Longrightarrow> times_ok a \<Longrightarrow> compute_mtp a p < bi_get_block_time e \<Longrightarrow> times_ok (a @ [e])"
  using arena_prev(2) [of a] by (auto simp: child_of_def times_ok_def less_Suc_eq nth_append compute_mtp_snoc)

lemma block_proof_ok: "get_block_proof e = Inr w \<Longrightarrow> au_ok w"
  using bits_proof_value [of "bi_bits e"] by (auto simp: get_block_proof_def)

lemma work_ok_snoc:
  "child_of a p e \<Longrightarrow> work_ok a \<Longrightarrow> get_block_proof e = Inr w \<Longrightarrow> bi_chain_work e = au_add (bi_chain_work (a ! p)) w \<Longrightarrow>
   work_ok (a @ [e])"
  using arena_prev(2) [of a] block_proof_ok [of e w] au_add_word [of "bi_chain_work (a ! p)" w]
  by (auto simp: child_of_def work_ok_def less_Suc_eq nth_append)

lemma hashes_ok_snoc:
  "hashes_ok bm \<Longrightarrow> bm_by_hash bm (bi_block_hash e) = None \<Longrightarrow>
   hashes_ok \<lparr>bm_indices = bm_indices bm @ [e], bm_by_hash = (bm_by_hash bm)(bi_block_hash e \<mapsto> length (bm_indices bm))\<rparr>"
  by (auto simp: hashes_ok_def nth_append) (metis option.distinct(1))

lemma insert_child:
  assumes "arena_ok (bm_indices bm)" "p < length (bm_indices bm)" "bi_prev e = Some p" "bi_skip e = None"
    "bi_height e = bi_height (bm_indices bm ! p) + 1"
  shows "\<exists>s. build_skip_pointer (length (bm_indices bm)) (snd (bm_insert bm e)) =
      \<lparr>bm_indices = bm_indices bm @ [e\<lparr>bi_skip := Some s\<rparr>], bm_by_hash = (bm_by_hash bm)(bi_block_hash e \<mapsto> length (bm_indices bm))\<rparr> \<and>
    prev_n (bm_indices bm) (nat (bi_height (bm_indices bm ! p) - get_skip_height (bi_height e))) p = Some s"
proof -
  let ?a = "bm_indices bm" and ?h = "get_skip_height (bi_height e)"
  have c: "child_of ?a p e" using assms by (simp add: child_of_def)
  have h: "0 \<le> bi_height (?a ! p)" using arena_height [OF assms(1,2)] .
  then have sk: "0 \<le> ?h" "?h \<le> bi_height (?a ! p)" using get_skip_height_bounds [of "bi_height e"] assms(5) by auto
  obtain s where s: "prev_n ?a (nat (bi_height (?a ! p) - ?h)) p = Some s"
    using prev_n_total [OF assms(1,2), of "nat (bi_height (?a ! p) - ?h)"] sk by auto
  have "arena_ok (?a @ [e])" using arena_ok_snoc [OF c] assms(4) by simp
  then have "get_ancestor (?a @ [e]) p ?h = Some s"
    using get_ancestor_prev_n [of "?a @ [e]" p ?h] assms(2) sk s by (simp add: nth_append prev_n_snoc [OF assms(1)])
  then show ?thesis using s h assms(3,5)
    by (intro exI [of _ s]) (simp add: build_skip_pointer_def bm_insert_def bm_get_def bm_update_def Let_def)
qed

lemma contextual_header_time:
  assumes "contextual_check_block_header_with_arena now header pindex params st (Some (a, p)) = Some (True, st')"
  shows "compute_mtp a p < uint (hdr_time header)"
  using assms by (auto simp: contextual_check_block_header_with_arena_def Let_def vs_invalid_def parent_mtp_def split: if_splits)

lemma child_entry_facts:
  assumes "child_entry C pe p header = Some e"
  shows "bi_block_hash e = header_block_hash C header" "bi_prev e = Some p" "bi_skip e = None" "bi_height e = bi_height pe + 1"
    "bi_get_block_header e = header"
    "\<exists>w. get_block_proof e = Inr w \<and> bi_chain_work e = au_add (bi_chain_work pe) w"
  using assms
  by (auto simp: child_entry_def bi_from_header_def raise_status_def get_block_proof_def bi_get_block_header_def split: sum.splits)

text \<open>A header that is new leads to one new entry, below its parent, and to nothing else.\<close>

lemma accept_block_header_new:
  assumes "index_ok (mgr_block_index mgr)" "accept_block_header C now mgr header = Some (Inr idx, mgr')"
    "bm_find_by_hash (mgr_block_index mgr) (header_block_hash C header) = None"
  shows "\<exists>e p. idx = length (mgr_arena mgr) \<and> mgr_arena mgr' = mgr_arena mgr @ [e] \<and> bi_get_block_header e = header \<and>
    bi_block_hash e = header_block_hash C header \<and>
    bm_find_by_hash (mgr_block_index mgr) (hdr_prev_blockhash header) = Some p \<and> child_of (mgr_arena mgr) p e \<and>
    index_ok (mgr_block_index mgr') \<and>
    mgr' = mgr\<lparr>mgr_block_index := mgr_block_index mgr', mgr_dirty_indices := insert idx (mgr_dirty_indices mgr)\<rparr>"
proof -
  let ?bm = "mgr_block_index mgr" and ?a = "mgr_arena mgr"
  note ok = assms(1) [unfolded index_ok_def]
  obtain p st st' e where p: "bm_find_by_hash ?bm (hdr_prev_blockhash header) = Some p"
    and ctx: "contextual_check_block_header_with_arena now header (bm_get ?bm p) (mgr_consensus mgr) st (Some (?a, p)) = Some (True, st')"
    and e: "child_entry C (bm_get ?bm p) p header = Some e"
    and r: "idx = length ?a" "mgr' = mgr\<lparr>mgr_block_index := build_skip_pointer (length ?a) (snd (bm_insert ?bm e)),
      mgr_dirty_indices := insert idx (mgr_dirty_indices mgr)\<rparr>"
    using assms(2,3) unfolding accept_block_header_def Let_def
    by (auto simp: bm_insert_def Let_def split: option.splits if_splits prod.splits bool.splits)
  note f = child_entry_facts [OF e, unfolded bm_get_def]
  have pl: "p < length ?a" using p ok by (simp add: bm_find_by_hash_def hashes_ok_def)
  obtain s where s: "build_skip_pointer (length ?a) (snd (bm_insert ?bm e)) =
      \<lparr>bm_indices = ?a @ [e\<lparr>bi_skip := Some s\<rparr>], bm_by_hash = (bm_by_hash ?bm)(bi_block_hash e \<mapsto> length ?a)\<rparr>"
    "prev_n ?a (nat (bi_height (?a ! p) - get_skip_height (bi_height e))) p = Some s"
    using insert_child [OF _ pl f(2-4)] ok by blast
  let ?e = "e\<lparr>bi_skip := Some s\<rparr>"
  have c: "child_of ?a p ?e" using ok pl f by (simp add: child_of_def)
  obtain w where w: "get_block_proof e = Inr w" "bi_chain_work e = au_add (bi_chain_work (?a ! p)) w" using f(6) by blast
  have "bi_time e = hdr_time header" using f(5) by (auto simp: bi_get_block_header_def)
  then have "times_ok (?a @ [?e])"
    using times_ok_snoc [OF c] ok contextual_header_time [OF ctx] by (simp add: bi_get_block_time_def)
  moreover have "arena_ok (?a @ [?e])" using arena_ok_snoc [OF c] s(2) by simp
  moreover have "work_ok (?a @ [?e])" using work_ok_snoc [OF c, of w] ok w by (simp add: get_block_proof_def)
  moreover have "hashes_ok \<lparr>bm_indices = ?a @ [?e], bm_by_hash = (bm_by_hash ?bm)(bi_block_hash e \<mapsto> length ?a)\<rparr>"
    using hashes_ok_snoc [of ?bm ?e] ok assms(3) f(1) by (simp add: bm_find_by_hash_def)
  ultimately have "index_ok (mgr_block_index mgr')" using r s by (simp add: index_ok_def)
  then show ?thesis using p r s c f
    by (intro exI [of _ ?e] exI [of _ p]) (simp add: bi_get_block_header_def)
qed


section \<open>Changes that keep the links\<close>

text \<open>What of an entry is fixed once it is in the index.\<close>

definition links :: "block_index \<Rightarrow> nat option \<times> nat option \<times> int \<times> hash_bytes \<times> hash_bytes \<times> u32 \<times> u32 \<times> arith_uint256" where
  "links bi =
     (bi_prev bi, bi_skip bi, bi_height bi, bi_block_hash bi, bi_prev_blockhash bi, bi_time bi, bi_bits bi, bi_chain_work bi)"

definition same_links :: "arena \<Rightarrow> arena \<Rightarrow> bool" where
  "same_links a b \<longleftrightarrow> map links a = map links b"

lemma same_links_refl [simp]: "same_links a a"
  by (simp add: same_links_def)

lemma same_links_trans: "same_links a b \<Longrightarrow> same_links b c \<Longrightarrow> same_links a c"
  by (simp add: same_links_def)

lemma same_links_length: "same_links a b \<Longrightarrow> length b = length a"
  by (metis same_links_def length_map)

lemma same_links_nth:
  assumes "same_links a b" "i < length a"
  shows "bi_prev (b ! i) = bi_prev (a ! i)" "bi_skip (b ! i) = bi_skip (a ! i)" "bi_height (b ! i) = bi_height (a ! i)"
    "bi_block_hash (b ! i) = bi_block_hash (a ! i)" "bi_time (b ! i) = bi_time (a ! i)" "bi_bits (b ! i) = bi_bits (a ! i)"
    "bi_chain_work (b ! i) = bi_chain_work (a ! i)" "bi_prev_blockhash (b ! i) = bi_prev_blockhash (a ! i)"
proof -
  have "links (b ! i) = links (a ! i)"
    using assms same_links_length [OF assms(1)] unfolding same_links_def by (metis nth_map)
  then show "bi_prev (b ! i) = bi_prev (a ! i)" "bi_skip (b ! i) = bi_skip (a ! i)" "bi_height (b ! i) = bi_height (a ! i)"
    "bi_block_hash (b ! i) = bi_block_hash (a ! i)" "bi_time (b ! i) = bi_time (a ! i)" "bi_bits (b ! i) = bi_bits (a ! i)"
    "bi_chain_work (b ! i) = bi_chain_work (a ! i)" "bi_prev_blockhash (b ! i) = bi_prev_blockhash (a ! i)"
    by (simp_all add: links_def)
qed

lemma prev_n_links: "same_links a b \<Longrightarrow> arena_ok a \<Longrightarrow> i < length a \<Longrightarrow> prev_n b n i = prev_n a n i"
proof (induction n arbitrary: i)
  case (Suc n)
  then show ?case using arena_prev(2) [of a i] by (cases "bi_prev (a ! i)") (auto simp: same_links_nth)
qed simp

lemma arena_ok_links:
  assumes "same_links a b" "arena_ok a"
  shows "arena_ok b"
proof -
  have "entry_ok b i" if i: "i < length a" for i
  proof -
    have "entry_ok a i" using assms(2) i by (simp add: arena_ok_def)
    then show ?thesis using arena_prev(2) [OF assms(2) i]
      by (auto simp: entry_ok_def same_links_nth [OF assms(1)] prev_n_links [OF assms i] i split: option.splits)
  qed
  then show ?thesis by (simp add: arena_ok_def same_links_length [OF assms(1)])
qed

lemma collect_times_links:
  "same_links a b \<Longrightarrow> arena_ok a \<Longrightarrow> i < length a \<Longrightarrow>
   map bi_time (collect_ancestors n b (Some i)) = map bi_time (collect_ancestors n a (Some i))"
proof (induction n arbitrary: i)
  case (Suc n)
  have "map bi_time (collect_ancestors n b (bi_prev (a ! i))) = map bi_time (collect_ancestors n a (bi_prev (a ! i)))"
  proof (cases "bi_prev (a ! i)")
    case None
    then show ?thesis by (cases n) simp_all
  next
    case (Some j)
    then show ?thesis using Suc arena_prev(2) [of a i j] by simp
  qed
  then show ?case using Suc.prems by (simp add: same_links_nth same_links_length)
qed simp

lemma median_time_links:
  assumes "map bi_time xs = map bi_time ys"
  shows "get_median_time_past xs = get_median_time_past ys"
proof -
  have t: "map bi_get_block_time (take n xs) = map bi_get_block_time (take n ys)" for n
    using arg_cong [OF assms, of "\<lambda>l. map uint (take n l)"] by (simp add: take_map bi_get_block_time_def [abs_def] comp_def)
  have len: "length xs = length ys" using map_eq_imp_length_eq [OF assms] .
  show ?thesis by (simp only: get_median_time_past_def Let_def MEDIAN_TIME_SPAN_def len t)
qed

lemma compute_mtp_links:
  assumes "same_links a b" "arena_ok a" "i < length a"
  shows "compute_mtp b i = compute_mtp a i"
  unfolding compute_mtp_def collect_mtp_ancestors_def by (rule median_time_links [OF collect_times_links [OF assms]])

lemma times_ok_links: "same_links a b \<Longrightarrow> arena_ok a \<Longrightarrow> times_ok a \<Longrightarrow> times_ok b"
  using arena_prev(2) [of a] by (simp add: times_ok_def same_links_nth same_links_length compute_mtp_links bi_get_block_time_def)

lemma work_ok_links: "same_links a b \<Longrightarrow> arena_ok a \<Longrightarrow> work_ok a \<Longrightarrow> work_ok b"
  using arena_prev(2) [of a] by (simp add: work_ok_def same_links_nth same_links_length get_block_proof_def)

lemma index_ok_links:
  assumes "same_links (bm_indices bm) (bm_indices bm')" "bm_by_hash bm' = bm_by_hash bm" "index_ok bm"
  shows "index_ok bm'"
proof -
  have "hashes_ok bm'" using assms by (auto simp: index_ok_def hashes_ok_def same_links_nth same_links_length)
  then show ?thesis using assms arena_ok_links times_ok_links work_ok_links by (simp add: index_ok_def)
qed

lemma chain_ok_links: "same_links a b \<Longrightarrow> chain_ok a c \<Longrightarrow> chain_ok b c"
  by (simp add: chain_ok_def same_links_nth same_links_length)

lemma chain_ok_snoc: "chain_ok a c \<Longrightarrow> chain_ok (a @ [e]) c"
  by (auto simp: chain_ok_def nth_append)


section \<open>The invariant of the manager\<close>

text \<open>The active chain is a path of the index, and the best tip and the changed entries are entries of it.\<close>

definition mgr_ok :: "chainstate_manager \<Rightarrow> bool" where
  "mgr_ok mgr \<longleftrightarrow> index_ok (mgr_block_index mgr) \<and> chain_ok (mgr_arena mgr) (mgr_chain mgr) \<and>
     (\<forall>i w. mgr_best_valid_tip mgr = Some (i, w) \<longrightarrow> i < length (mgr_arena mgr) \<and> w = bi_chain_work (mgr_arena mgr ! i)) \<and>
     (\<forall>i\<in>mgr_dirty_indices mgr. i < length (mgr_arena mgr))"

definition keeps_links :: "(block_index \<Rightarrow> block_index) \<Rightarrow> bool" where
  "keeps_links f \<longleftrightarrow> (\<forall>bi. links (f bi) = links bi)"

lemma keeps_links_status [simp]: "keeps_links (raise_status u)" "keeps_links (insert_status u)"
  by (simp_all add: keeps_links_def links_def raise_status_def insert_status_def)

lemma same_links_update: "keeps_links f \<Longrightarrow> same_links a (a[i := f (a ! i)])"
  unfolding same_links_def keeps_links_def by (metis list_update_id map_update)

text \<open>The part of the state that the steps of an activation leave alone.\<close>

definition same_index :: "chainstate_manager \<Rightarrow> chainstate_manager \<Rightarrow> bool" where
  "same_index mgr mgr' \<longleftrightarrow> same_links (mgr_arena mgr) (mgr_arena mgr') \<and>
     bm_by_hash (mgr_block_index mgr') = bm_by_hash (mgr_block_index mgr)"

lemma same_index_refl [simp]: "same_index mgr mgr"
  by (simp add: same_index_def)

lemma same_index_trans: "same_index a b \<Longrightarrow> same_index b c \<Longrightarrow> same_index a c"
  by (auto simp: same_index_def intro: same_links_trans)

lemma same_index_length: "same_index mgr mgr' \<Longrightarrow> length (mgr_arena mgr') = length (mgr_arena mgr)"
  by (simp add: same_index_def same_links_length)

text \<open>A step that keeps the links and the active chain.\<close>

definition quiet_step :: "chainstate_manager \<Rightarrow> chainstate_manager \<Rightarrow> bool" where
  "quiet_step mgr mgr' \<longleftrightarrow> same_index mgr mgr' \<and> mgr_chain mgr' = mgr_chain mgr \<and> (mgr_ok mgr \<longrightarrow> mgr_ok mgr')"

lemma quiet_step_refl [simp]: "quiet_step mgr mgr"
  by (simp add: quiet_step_def)

lemma quiet_trans: "quiet_step a b \<Longrightarrow> quiet_step b c \<Longrightarrow> quiet_step a c"
  by (auto simp: quiet_step_def intro: same_index_trans)

lemma quiet_intro:
  assumes "same_index mgr mgr'" "mgr_chain mgr' = mgr_chain mgr"
    "mgr_best_valid_tip mgr' = mgr_best_valid_tip mgr" "mgr_dirty_indices mgr' \<subseteq> insert idx (mgr_dirty_indices mgr)"
    "idx < length (mgr_arena mgr)"
  shows "quiet_step mgr mgr'"
  using assms index_ok_links chain_ok_links
  by (auto simp: quiet_step_def mgr_ok_def same_index_def same_links_nth same_links_length)

lemma quiet_put_coins [simp]: "quiet_step mgr (put_coins cc mgr)"
  by (simp add: quiet_step_def put_coins_def mgr_ok_def same_index_def)

lemma quiet_touch: "keeps_links f \<Longrightarrow> idx < length (mgr_arena mgr) \<Longrightarrow> quiet_step mgr (touch_index f idx mgr)"
  by (rule quiet_intro [of _ _ idx]) (auto simp: touch_index_def same_index_def bm_update_def same_links_update)

lemma quiet_undos [simp]: "quiet_step mgr (mgr\<lparr>mgr_stored_undos := u\<rparr>)"
  by (simp add: quiet_step_def mgr_ok_def same_index_def)

lemma quiet_raise_best: "idx < length (mgr_arena mgr) \<Longrightarrow> quiet_step mgr (raise_best idx mgr)"
  by (auto simp: quiet_step_def raise_best_def mgr_ok_def same_index_def Let_def bm_get_def)

lemma quiet_length: "quiet_step mgr mgr' \<Longrightarrow> length (mgr_arena mgr') = length (mgr_arena mgr)"
  by (simp add: quiet_step_def same_index_length)

lemma disconnect_heights_quiet: "disconnect_heights C base hs mgr = Some mgr' \<Longrightarrow> quiet_step mgr mgr'"
proof (induction hs arbitrary: mgr)
  case (Cons h hs)
  then show ?case using quiet_trans [OF quiet_put_coins] by (fastforce split: option.splits prod.splits)
qed simp

lemma connect_at_quiet:
  assumes "connect_at C K base h idx blk mgr = Some (r, mgr')" "idx < length (mgr_arena mgr)"
  shows "quiet_step mgr mgr'"
proof -
  obtain r0 cc where c: "connect_block C K base blk h (mgr_coins mgr) (mgr_consensus mgr) (Some (mtp_lookup 0 mgr))
      (should_skip_scripts mgr idx) = Some (r0, cc)"
    using assms(1) by (cases "connect_block C K base blk h (mgr_coins mgr) (mgr_consensus mgr) (Some (mtp_lookup 0 mgr))
      (should_skip_scripts mgr idx)") (auto simp: connect_at_def)
  have len: "idx < length (mgr_arena m)" if "quiet_step mgr m" for m using that assms(2) by (simp add: quiet_length)
  have t: "quiet_step mgr (touch_index f idx m)" if "quiet_step mgr m" "keeps_links f" for f m
    using that len quiet_trans quiet_touch by blast
  have b: "quiet_step mgr (raise_best idx m)" if "quiet_step mgr m" for m
    using that len quiet_trans quiet_raise_best by blast
  have u: "quiet_step mgr ((put_coins cc mgr)\<lparr>mgr_stored_undos := x\<rparr>)" for x
    using quiet_trans [OF quiet_put_coins quiet_undos] .
  show ?thesis
    using assms(1) c by (cases r0) (auto simp: connect_at_def Let_def intro!: b t u)
qed

lemma connect_heights_quiet:
  "connect_heights C K base new_chain jc hs mgr = Some (r, mgr') \<Longrightarrow> \<forall>i\<in>set new_chain. i < length (mgr_arena mgr) \<Longrightarrow>
   \<forall>h\<in>set hs. 0 \<le> h \<Longrightarrow> quiet_step mgr mgr'"
proof (induction hs arbitrary: mgr)
  case (Cons h hs)
  show ?case
  proof (cases "nat h \<ge> length new_chain \<or> jc = Some (new_chain ! nat h) \<or> stored_block mgr (new_chain ! nat h) = None")
    case True
    then show ?thesis using Cons by (auto split: if_splits)
  next
    case False
    then obtain blk u where b: "stored_block mgr (new_chain ! nat h) = Some (blk, u)" by auto
    obtain r1 m1 where m1: "connect_at C K base h (new_chain ! nat h) blk mgr = Some (r1, m1)"
      using Cons.prems(1) False b by (auto split: option.splits)
    have q: "quiet_step mgr m1" using connect_at_quiet [OF m1] Cons.prems(2) False by simp
    show ?thesis
    proof (cases r1)
      case (Inl e)
      then show ?thesis using Cons.prems(1) False b m1 q by simp
    next
      case (Inr x)
      then have "connect_heights C K base new_chain jc hs m1 = Some (r, mgr')" using Cons.prems(1) False b m1 by simp
      then show ?thesis using Cons.IH [of m1] Cons.prems(2,3) q quiet_length [OF q] quiet_trans by simp
    qed
  qed
qed simp


lemma chain_path_loop_correct:
  assumes "arena_ok (bm_indices bm)" "chain_ok (bm_indices bm) p"
  shows "h < length p \<Longrightarrow> length path = length p \<Longrightarrow> \<forall>k. h < k \<and> k < length p \<longrightarrow> path ! k = p ! k \<Longrightarrow>
    chain_path_loop bm (p ! h) h path = p"
proof (induction h arbitrary: path)
  case 0
  have "path[0 := p ! 0] = p" using 0 by (intro nth_equalityI) (auto simp: nth_list_update)
  then show ?case by (subst chain_path_loop.simps) (simp add: Let_def split: option.splits)
next
  case (Suc h)
  have "bi_prev (bm_get bm (p ! Suc h)) = Some (p ! h)" using assms(2) Suc.prems(1) by (auto simp: chain_ok_def bm_get_def)
  then have "chain_path_loop bm (p ! Suc h) (Suc h) path = chain_path_loop bm (p ! h) h (path[Suc h := p ! Suc h])"
    by (subst chain_path_loop.simps) (simp add: Let_def)
  also have "\<dots> = p" using Suc.prems by (intro Suc.IH) (auto simp: nth_list_update)
  finally show ?case .
qed

lemma path_nth_tip:
  assumes "arena_ok a" "i < length a"
  shows "path_to a i ! nat (bi_height (a ! i)) = i"
  using path_to_facts(1,2) [OF assms] by (metis add_diff_cancel_right' last_conv_nth length_0_conv nat.simps(3) Suc_eq_plus1)

text \<open>The path that the activation builds is the chain that ends in the block.\<close>

lemma build_chain_path_exact:
  assumes "arena_ok (bm_indices bm)" "i < length (bm_indices bm)"
  shows "build_chain_path bm i = path_to (bm_indices bm) i"
proof -
  let ?a = "bm_indices bm" and ?n = "nat (bi_height (bm_indices bm ! i))"
  note p = path_to_facts [OF assms]
  have "chain_path_loop bm (path_to ?a i ! ?n) ?n (replicate (?n + 1) 0) = path_to ?a i"
    using p by (intro chain_path_loop_correct [OF assms(1) p(3)]) auto
  then show ?thesis using arena_height [OF assms] path_nth_tip [OF assms] by (simp add: build_chain_path_def bm_get_def Let_def)
qed

lemma mgr_parent_of: "mgr_parent mgr = parent_of (mgr_arena mgr)"
  by (simp add: mgr_parent_def [abs_def] parent_of_def [abs_def] bm_get_def)

lemma path_to_links:
  assumes "same_links a b" "arena_ok a" "i < length a"
  shows "path_to b i = path_to a i"
  using assms by (simp add: path_to_def same_links_nth prev_n_links)

lemma put_chain_ok: "mgr_ok mgr \<Longrightarrow> chain_ok (mgr_arena mgr) c \<Longrightarrow> mgr_ok (put_chain c mgr)"
  by (simp add: mgr_ok_def put_chain_def)

lemma activate_best_chain_ok:
  assumes "activate_best_chain C K base jc mgr = Some (r, mgr')" "mgr_ok mgr"
  shows "mgr_ok mgr' \<and> same_index mgr mgr'"
proof (cases "mgr_best_valid_tip mgr")
  case None
  then show ?thesis using assms by (simp add: activate_best_chain_def)
next
  case (Some bw)
  obtain best w where bw: "bw = (best, w)" by fastforce
  have ok: "arena_ok (mgr_arena mgr)" "best < length (mgr_arena mgr)" "chain_ok (mgr_arena mgr) (mgr_chain mgr)"
    using assms(2) Some bw by (auto simp: mgr_ok_def index_ok_def)
  show ?thesis
  proof (cases "mgr_tip mgr = Some best")
    case True
    then show ?thesis using assms Some bw by (simp add: activate_best_chain_def)
  next
    case False
    let ?p = "build_chain_path (mgr_block_index mgr) best"
    let ?f = "find_fork_height (mgr_chain mgr) ?p (mgr_height mgr)" and ?h = "bi_height (bm_get (mgr_block_index mgr) best)"
    have p: "?p = path_to (mgr_arena mgr) best" using build_chain_path_exact ok by blast
    have pb: "\<forall>i\<in>set ?p. i < length (mgr_arena mgr)"
      using path_to_facts(3) [OF ok(1,2)] unfolding p by (auto simp: chain_ok_def in_set_conv_nth)
    have f: "- 1 \<le> ?f" by (auto simp: find_fork_height_def Let_def split: option.splits)
    obtain m1 where m1: "disconnect_heights C base (rev [?f + 1..mgr_height mgr]) mgr = Some m1"
      using assms(1) Some bw False by (auto simp: activate_best_chain_def Let_def split: option.splits)
    note q1 = disconnect_heights_quiet [OF m1]
    obtain r2 m2 where m2: "connect_heights C K base ?p jc [?f + 1..?h] m1 = Some (r2, m2)"
      using assms(1) Some bw False m1 by (auto simp: activate_best_chain_def Let_def split: option.splits)
    have q2: "quiet_step mgr m2"
      using quiet_trans [OF q1] connect_heights_quiet [OF m2] pb f quiet_length [OF q1] by simp
    then have i2: "mgr_ok m2" "same_links (mgr_arena mgr) (mgr_arena m2)" "same_index mgr m2" "mgr_chain m2 = mgr_chain mgr"
      using assms(2) by (auto simp: quiet_step_def same_index_def)
    have a2: "arena_ok (mgr_arena m2)" "best < length (mgr_arena m2)" "chain_ok (mgr_arena m2) (mgr_chain m2)"
      "?h = bi_height (mgr_arena m2 ! best)"
      using i2 ok by (auto simp: mgr_ok_def index_ok_def same_links_length same_links_nth bm_get_def)
    have c: "chain_set_tip_with (mgr_chain m2) best ?h (mgr_parent m2) = path_to (mgr_arena m2) best"
      using set_tip_with_path [OF a2(1-3)] a2(4) by (simp add: mgr_parent_of)
    have "mgr_ok (put_chain (path_to (mgr_arena m2) best) m2)" using put_chain_ok [OF i2(1)] path_to_facts(3) [OF a2(1,2)] by simp
    then have fin: "mgr_ok (put_coins cc (put_chain (path_to (mgr_arena m2) best) m2))" for cc
      using quiet_put_coins by (auto simp: quiet_step_def)
    show ?thesis using assms(1) Some bw False m1 m2 c fin i2(1,3)
      by (cases r2) (auto simp: activate_best_chain_def Let_def same_index_def put_coins_def put_chain_def)
  qed
qed


lemma index_in_range: "index_ok bm \<Longrightarrow> bm_find_by_hash bm h = Some i \<Longrightarrow> i < length (bm_indices bm) \<and> bi_block_hash (bm_indices bm ! i) = h"
  by (simp add: index_ok_def hashes_ok_def bm_find_by_hash_def)

lemma accept_block_header_err: "accept_block_header C now mgr header = Some (Inl e, mgr') \<Longrightarrow> mgr' = mgr"
  by (auto simp: accept_block_header_def bm_insert_def Let_def split: option.splits if_splits prod.splits bool.splits)

lemma accept_block_header_known:
  "bm_find_by_hash (mgr_block_index mgr) (header_block_hash C header) = Some i \<Longrightarrow> accept_block_header C now mgr header = Some (Inr i, mgr)"
  by (simp add: accept_block_header_def)

text \<open>What accepting a header does to the manager: nothing, or one new entry.\<close>

lemma accept_block_header_cases:
  assumes "mgr_ok mgr" "accept_block_header C now mgr header = Some (r, mgr')"
  shows "mgr_ok mgr'" "\<And>i. i < length (mgr_arena mgr) \<Longrightarrow> mgr_arena mgr' ! i = mgr_arena mgr ! i" "length (mgr_arena mgr) \<le> length (mgr_arena mgr')"
    "mgr_active_chainstate mgr' = mgr_active_chainstate mgr" "mgr_best_valid_tip mgr' = mgr_best_valid_tip mgr"
    "\<And>idx. r = Inr idx \<Longrightarrow> idx < length (mgr_arena mgr') \<and> bi_block_hash (mgr_arena mgr' ! idx) = header_block_hash C header"
proof -
  have ix: "index_ok (mgr_block_index mgr)" using assms(1) by (simp add: mgr_ok_def)
  have all: "mgr_ok mgr' \<and> (\<forall>i<length (mgr_arena mgr). mgr_arena mgr' ! i = mgr_arena mgr ! i) \<and> length (mgr_arena mgr) \<le> length (mgr_arena mgr') \<and>
     mgr_active_chainstate mgr' = mgr_active_chainstate mgr \<and> mgr_best_valid_tip mgr' = mgr_best_valid_tip mgr \<and>
     (\<forall>idx. r = Inr idx \<longrightarrow> idx < length (mgr_arena mgr') \<and> bi_block_hash (mgr_arena mgr' ! idx) = header_block_hash C header)"
  proof (cases r)
    case (Inl e)
    then have "mgr' = mgr" using accept_block_header_err assms(2) by blast
    then show ?thesis using assms(1) Inl by simp
  next
    case (Inr idx)
    show ?thesis
    proof (cases "bm_find_by_hash (mgr_block_index mgr) (header_block_hash C header)")
      case None
      obtain e p where n: "idx = length (mgr_arena mgr)" "mgr_arena mgr' = mgr_arena mgr @ [e]"
        "bi_block_hash e = header_block_hash C header" "index_ok (mgr_block_index mgr')"
        "mgr' = mgr\<lparr>mgr_block_index := mgr_block_index mgr', mgr_dirty_indices := insert idx (mgr_dirty_indices mgr)\<rparr>"
        using accept_block_header_new [OF ix assms(2) [unfolded Inr] None] by blast
      have same: "mgr_active_chainstate mgr' = mgr_active_chainstate mgr" "mgr_best_valid_tip mgr' = mgr_best_valid_tip mgr"
        "mgr_dirty_indices mgr' = insert idx (mgr_dirty_indices mgr)"
        by (subst n(5), simp)+
      then have "mgr_ok mgr'" using assms(1) n(1,2,4) chain_ok_snoc [of "mgr_arena mgr" "mgr_chain mgr" e]
        by (auto simp: mgr_ok_def nth_append less_Suc_eq)
      then show ?thesis using n(1-3) same Inr by (simp add: nth_append)
    next
      case (Some i)
      then have "i = idx" "mgr' = mgr" using assms(2) Inr accept_block_header_known by auto
      then show ?thesis using assms(1) index_in_range [OF ix Some] Inr by simp
    qed
  qed
  show "mgr_ok mgr'" "\<And>i. i < length (mgr_arena mgr) \<Longrightarrow> mgr_arena mgr' ! i = mgr_arena mgr ! i" "length (mgr_arena mgr) \<le> length (mgr_arena mgr')"
    "mgr_active_chainstate mgr' = mgr_active_chainstate mgr" "mgr_best_valid_tip mgr' = mgr_best_valid_tip mgr"
    "\<And>idx. r = Inr idx \<Longrightarrow> idx < length (mgr_arena mgr') \<and> bi_block_hash (mgr_arena mgr' ! idx) = header_block_hash C header"
    using all by simp_all
qed

lemma quiet_mark_failed: "idx < length (mgr_arena mgr) \<Longrightarrow> quiet_step mgr (mark_failed idx mgr)"
  by (simp add: mark_failed_def quiet_touch)

lemma quiet_record: "idx < length (mgr_arena mgr) \<Longrightarrow> quiet_step mgr (record_block idx blk mgr)"
  by (simp add: record_block_def Let_def, rule quiet_touch) (simp_all add: keeps_links_def links_def raise_status_def insert_status_def)

lemma quiet_ok: "quiet_step mgr mgr' \<Longrightarrow> mgr_ok mgr \<Longrightarrow> mgr_ok mgr'"
  by (simp add: quiet_step_def)

lemma connect_new_block_ok:
  assumes "connect_new_block C K base idx blk mgr = Some (r, mgr')" "mgr_ok mgr" "idx < length (mgr_arena mgr)"
  shows "mgr_ok mgr'"
proof -
  let ?c = "connect_block C K base blk (bi_height (bm_get (mgr_block_index mgr) idx)) (mgr_coins mgr) (mgr_consensus mgr)
    (Some (mtp_lookup (uint (hdr_time (blk_header blk))) mgr)) (should_skip_scripts mgr idx)"
  obtain r0 cc where c: "?c = Some (r0, cc)" using assms(1) by (cases ?c) (auto simp: connect_new_block_def Let_def)
  have q: "quiet_step mgr (put_coins cc mgr)" by simp
  note len = quiet_length [OF q]
  have q1: "quiet_step mgr (touch_index f idx (put_coins cc mgr))" if "keeps_links f" for f
    using quiet_trans [OF q quiet_touch [OF that]] assms(3) len by simp
  show ?thesis
  proof (cases r0)
    case (Inl e)
    then show ?thesis using assms(1,2) c quiet_ok [OF q1] by (auto simp: connect_new_block_def Let_def mark_failed_def)
  next
    case (Inr undo)
    let ?m = "raise_best idx (touch_index (raise_status VALID_SCRIPTS) idx (put_coins cc mgr))"
    have "quiet_step mgr ?m" using quiet_trans [OF q1 quiet_raise_best] quiet_length [OF q1] assms(3) by simp
    then have "mgr_ok ?m" using quiet_ok assms(2) by blast
    note act = activate_best_chain_ok [OF _ this, THEN conjunct1]
    show ?thesis using assms(1) c Inr
      by (auto simp: connect_new_block_def Let_def dest: act split: option.splits sum.splits)
  qed
qed

lemma process_new_block_ok:
  assumes "process_new_block C K base now mgr blk = Some (r, mgr')" "mgr_ok mgr"
  shows "mgr_ok mgr'"
proof -
  obtain r0 m0 where a: "accept_block_header C now mgr (blk_header blk) = Some (r0, m0)"
    using assms(1) by (cases "accept_block_header C now mgr (blk_header blk)") (auto simp: process_new_block_def)
  note ac = accept_block_header_cases [OF assms(2) a]
  show ?thesis
  proof (cases r0)
    case (Inl e)
    then show ?thesis using assms(1) a ac(1) by (simp add: process_new_block_def)
  next
    case (Inr idx)
    then have i: "idx < length (mgr_arena m0)" using ac(6) by simp
    have q: "quiet_step m0 (record_block idx blk m0)" by (rule quiet_record [OF i])
    have len: "idx < length (mgr_arena (record_block idx blk m0))" using i quiet_length [OF q] by simp
    have ok: "mgr_ok m0" "mgr_ok (mark_failed idx m0)" "mgr_ok (record_block idx blk m0)" "mgr_ok (mark_failed idx (record_block idx blk m0))"
      using ac(1) quiet_ok [OF quiet_mark_failed [OF i]] quiet_ok [OF q] quiet_ok [OF quiet_mark_failed [OF len]] by auto
    show ?thesis
      using assms(1) a Inr ok connect_new_block_ok [OF _ ok(3) len]
      by (auto simp: process_new_block_def Let_def split: if_splits prod.splits)
  qed
qed


lemma work_ok_root: "arena_ok a \<Longrightarrow> work_ok a \<Longrightarrow> bi_prev e = None \<Longrightarrow> au_ok (bi_chain_work e) \<Longrightarrow> work_ok (a @ [e])"
  using arena_prev(2) [of a] by (auto simp: work_ok_def less_Suc_eq nth_append)

lemma times_ok_root: "arena_ok a \<Longrightarrow> times_ok a \<Longrightarrow> bi_prev e = None \<Longrightarrow> times_ok (a @ [e])"
  using arena_prev(2) [of a] by (auto simp: times_ok_def less_Suc_eq nth_append compute_mtp_snoc)

lemma arena_ok_root:
  assumes "arena_ok a" "bi_prev e = None" "bi_skip e = None" "bi_height e = 0"
  shows "arena_ok (a @ [e])"
proof -
  have "entry_ok (a @ [e]) i" if i: "i < length a" for i
  proof -
    have "entry_ok a i" using assms(1) i by (simp add: arena_ok_def)
    then show ?thesis using i arena_prev(2) [OF assms(1) i]
      by (auto simp: entry_ok_def nth_append prev_n_snoc [OF assms(1) i] split: option.splits)
  qed
  then show ?thesis using assms by (auto simp: arena_ok_def less_Suc_eq) (simp add: entry_ok_def)
qed

lemma genesis_entry_facts:
  "genesis_entry C g = Some e \<Longrightarrow> bi_prev e = None \<and> bi_skip e = None \<and> bi_height e = 0 \<and>
     bi_block_hash e = header_block_hash C (blk_header g) \<and> au_ok (bi_chain_work e)"
  using block_proof_ok [of "bi_from_header C (blk_header g) 0"]
  by (auto simp: genesis_entry_def Let_def bi_from_header_def insert_status_def raise_status_def split: sum.splits)

lemma load_genesis_block_new:
  assumes "load_genesis_block C base mgr g = Some (r, mgr')" "mgr' \<noteq> mgr"
  defines "hash \<equiv> header_block_hash C (blk_header g)"
  shows "\<exists>e cc. genesis_entry C g = Some e \<and> bm_find_by_hash (mgr_block_index mgr) hash = None \<and>
    mgr' = put_coins cc (put_chain [length (mgr_arena mgr)]
      (mgr\<lparr>mgr_block_index := \<lparr>bm_indices = mgr_arena mgr @ [e], bm_by_hash = (bm_by_hash (mgr_block_index mgr))(hash \<mapsto> length (mgr_arena mgr))\<rparr>,
        mgr_dirty_indices := insert (length (mgr_arena mgr)) (mgr_dirty_indices mgr),
        mgr_best_valid_tip := Some (length (mgr_arena mgr), bi_chain_work e)\<rparr>))"
proof -
  let ?a = "mgr_arena mgr"
  have new: "bm_find_by_hash (mgr_block_index mgr) hash = None"
    using assms(1,2) by (auto simp: load_genesis_block_def Let_def hash_def split: if_splits)
  obtain e where e: "genesis_entry C g = Some e"
    using assms(1,2) by (auto simp: load_genesis_block_def Let_def split: if_splits option.splits)
  note f = genesis_entry_facts [OF e]
  have skip: "build_skip_pointer (length ?a) (snd (bm_insert (mgr_block_index mgr) e)) =
      \<lparr>bm_indices = ?a @ [e], bm_by_hash = (bm_by_hash (mgr_block_index mgr))(hash \<mapsto> length ?a)\<rparr>"
    using f by (simp add: build_skip_pointer_def bm_insert_def bm_get_def Let_def hash_def)
  have tip: "chain_set_tip (mgr_chain mgr) (length ?a) 0 = [length ?a]"
    by (cases "mgr_chain mgr") (simp_all add: chain_set_tip_def resize0_def)
  show ?thesis
    using assms(1,2) e new skip tip unfolding load_genesis_block_def hash_def [symmetric]
    by (auto simp: Let_def bm_insert_def put_chain_def split: if_splits)
qed

lemma load_genesis_block_ok:
  assumes "load_genesis_block C base mgr g = Some (r, mgr')" "mgr_ok mgr"
  shows "mgr_ok mgr'"
proof (cases "mgr' = mgr")
  case False
  let ?hash = "header_block_hash C (blk_header g)" and ?a = "mgr_arena mgr"
  obtain e cc where e: "bi_prev e = None" "bi_skip e = None" "bi_height e = 0" "bi_block_hash e = ?hash" "au_ok (bi_chain_work e)"
    and new: "bm_find_by_hash (mgr_block_index mgr) ?hash = None"
    and m: "mgr' = put_coins cc (put_chain [length ?a]
      (mgr\<lparr>mgr_block_index := \<lparr>bm_indices = ?a @ [e], bm_by_hash = (bm_by_hash (mgr_block_index mgr))(?hash \<mapsto> length ?a)\<rparr>,
        mgr_dirty_indices := insert (length ?a) (mgr_dirty_indices mgr), mgr_best_valid_tip := Some (length ?a, bi_chain_work e)\<rparr>))"
    using load_genesis_block_new [OF assms(1) False] genesis_entry_facts by metis
  have ok: "index_ok (mgr_block_index mgr)" "arena_ok ?a" using assms(2) by (simp_all add: mgr_ok_def index_ok_def)
  have "index_ok \<lparr>bm_indices = ?a @ [e], bm_by_hash = (bm_by_hash (mgr_block_index mgr))(?hash \<mapsto> length ?a)\<rparr>"
    using ok(1) arena_ok_root [OF ok(2) e(1-3)] times_ok_root [OF ok(2) _ e(1)] work_ok_root [OF ok(2) _ e(1,5)]
      hashes_ok_snoc [of "mgr_block_index mgr" e] new e(4) by (simp add: index_ok_def bm_find_by_hash_def)
  moreover have "chain_ok (?a @ [e]) [length ?a]" using e(3) by (simp add: chain_ok_def)
  ultimately show ?thesis
    using assms(2) m by (auto simp: mgr_ok_def put_coins_def put_chain_def less_Suc_eq)
qed (use assms in simp)

lemma reset_active_chain_ok:
  assumes "mgr_ok mgr" "i < length (mgr_arena mgr)"
  shows "mgr_ok (reset_active_chain_to i mgr)"
proof -
  have ok: "arena_ok (mgr_arena mgr)" "chain_ok (mgr_arena mgr) (mgr_chain mgr)" using assms(1) by (simp_all add: mgr_ok_def index_ok_def)
  have "mgr_ok (put_chain (path_to (mgr_arena mgr) i) mgr)" using put_chain_ok [OF assms(1)] path_to_facts(3) [OF ok(1) assms(2)] .
  then show ?thesis
    using quiet_ok [OF quiet_put_coins] set_tip_with_path [OF ok(1) assms(2) ok(2)]
    by (simp add: reset_active_chain_to_def Let_def mgr_parent_of bm_get_def)
qed

text \<open>The records that a database holds when every entry of an index was written to it, in any order. Loading tells the first
  block from the others by its null parent hash, so no block of the index may have the null hash itself.\<close>

definition stored_index :: "arena \<Rightarrow> block_index_record list \<Rightarrow> bool" where
  "stored_index a records \<longleftrightarrow> distinct (map bir_block_hash records) \<and> set records = record_of ` set a \<and>
     (\<forall>e\<in>set a. \<not> list_all (\<lambda>b. b = 0) (bi_block_hash e) \<and> (bi_prev e = None \<longrightarrow> list_all (\<lambda>b. b = 0) (bi_prev_blockhash e)))"

text \<open>The states that a manager gets into. The database below the cache and the clock may change between the steps, and the
  shared handle to the coins lets others change the cache. At a start a new manager loads the index that an earlier one stored.\<close>

inductive manager_state :: "crypto \<Rightarrow> 'k secp_strict_scheme \<Rightarrow> chainstate_manager \<Rightarrow> bool" for C :: crypto and K :: "'k secp_strict_scheme" where
  state_new: "manager_state C K (mgr_new params genesis best)"
| state_genesis: "manager_state C K mgr \<Longrightarrow> load_genesis_block C base mgr g = Some (r, mgr') \<Longrightarrow> manager_state C K mgr'"
| state_header: "manager_state C K mgr \<Longrightarrow> accept_block_header C now mgr header = Some (r, mgr') \<Longrightarrow> manager_state C K mgr'"
| state_block: "manager_state C K mgr \<Longrightarrow> process_new_block C K base now mgr blk = Some (r, mgr') \<Longrightarrow> manager_state C K mgr'"
| state_activate: "manager_state C K mgr \<Longrightarrow> activate_best_chain C K base jc mgr = Some (r, mgr') \<Longrightarrow> manager_state C K mgr'"
| state_flush: "manager_state C K mgr \<Longrightarrow> flush_coins batch_write_impl w order mgr = Some (b, w', mgr') \<Longrightarrow> manager_state C K mgr'"
| state_reset: "manager_state C K mgr \<Longrightarrow> i < bm_len (mgr_block_index mgr) \<Longrightarrow> manager_state C K (reset_active_chain_to i mgr)"
| state_load: "manager_state C K mgr \<Longrightarrow> stored_index (mgr_arena mgr) records \<Longrightarrow>
     manager_state C K (load_block_index records (mgr_new params genesis best))"
| state_coins: "manager_state C K mgr \<Longrightarrow> manager_state C K (put_coins cc mgr)"
| state_block_pos: "manager_state C K mgr \<Longrightarrow> manager_state C K (set_block_pos hash file pos mgr)"
| state_undo_pos: "manager_state C K mgr \<Longrightarrow> manager_state C K (set_undo_pos hash pos mgr)"
| state_assume: "manager_state C K mgr \<Longrightarrow> manager_state C K (set_assume_valid hash height mgr)"
| state_reader: "manager_state C K mgr \<Longrightarrow> manager_state C K (set_block_reader reader mgr)"
| state_dirty: "manager_state C K mgr \<Longrightarrow> i < bm_len (mgr_block_index mgr) \<Longrightarrow> manager_state C K (mark_dirty i mgr)"
| state_clean: "manager_state C K mgr \<Longrightarrow> manager_state C K (clear_dirty mgr)"

lemma mgr_new_ok: "mgr_ok (mgr_new params genesis best)"
  by (simp add: mgr_ok_def mgr_new_def bm_new_def index_ok_def arena_ok_def times_ok_def work_ok_def hashes_ok_def chainstate_new_def chain_ok_def)

lemma set_undo_pos_ok: "mgr_ok mgr \<Longrightarrow> mgr_ok (set_undo_pos hash pos mgr)"
  using index_in_range [of "mgr_block_index mgr" hash] quiet_ok [OF quiet_touch, of "\<lambda>bi. bi\<lparr>bi_undo_pos := pos\<rparr>"]
  by (auto simp: set_undo_pos_def mgr_ok_def keeps_links_def links_def split: option.splits)

lemma flush_coins_ok: "flush_coins W w order mgr = Some (b, w', mgr') \<Longrightarrow> mgr_ok mgr \<Longrightarrow> mgr_ok mgr'"
  using quiet_ok [OF quiet_put_coins] by (auto simp: flush_coins_def)

lemma setters_ok:
  "mgr_ok (set_assume_valid hash height mgr) = mgr_ok mgr" "mgr_ok (set_block_reader reader mgr) = mgr_ok mgr"
  "mgr_ok mgr \<Longrightarrow> mgr_ok (clear_dirty mgr)"
  by (simp_all add: mgr_ok_def set_assume_valid_def set_block_reader_def clear_dirty_def)

section \<open>Extending the tip\<close>

lemma chain_ok_unique:
  assumes "chain_ok a c" "chain_ok a d" "c \<noteq> []" "d \<noteq> []" "last c = last d"
  shows "c = d"
proof -
  have "bi_height (a ! last c) = int (length c - 1)" "bi_height (a ! last d) = int (length d - 1)"
    using assms(1-4) by (auto simp: chain_ok_def last_conv_nth)
  then have len: "length c = length d" using assms(3-5) by (cases c; cases d) auto
  have "c ! (length c - 1) = d ! (length c - 1)" using assms(3-5) len by (simp add: last_conv_nth)
  then have "c ! k = d ! k" if "k < length c" for k
    using chain_ok_agree [OF assms(1,2), of "length c - 1" k] len that by simp
  then show ?thesis using len by (intro nth_equalityI) auto
qed

lemma chain_ok_extend:
  assumes "arena_ok a" "chain_ok a c" "c \<noteq> []" "i < length a" "bi_prev (a ! i) = Some (last c)"
  shows "chain_ok a (c @ [i])"
proof -
  have "bi_height (a ! last c) = int (length c - 1)" using assms(2,3) by (simp add: chain_ok_def last_conv_nth)
  then have "bi_height (a ! i) = int (length c)" using arena_prev(2) [OF assms(1,4,5)] assms(3) by (cases c) auto
  then show ?thesis using assms(2-5) by (auto simp: chain_ok_def nth_append less_Suc_eq last_conv_nth)
qed

lemma path_to_extend:
  assumes "arena_ok a" "chain_ok a c" "c \<noteq> []" "i < length a" "bi_prev (a ! i) = Some (last c)"
  shows "path_to a i = c @ [i]"
proof -
  note p = path_to_facts [OF assms(1,4)]
  have "path_to a i \<noteq> []" using p(1) by auto
  then show ?thesis using chain_ok_unique [OF p(3) chain_ok_extend [OF assms]] p(2) by simp
qed

lemma fork_below: "c \<noteq> [] \<Longrightarrow> find_fork_height c (c @ [i]) (chain_height c) = chain_height c"
proof -
  assume "c \<noteq> []"
  then obtain n where n: "length c = Suc n" by (cases c) auto
  then have "find (\<lambda>h. chain_get_block_index c (int h) = Some ((c @ [i]) ! h)) (rev [0..<Suc n]) = Some n"
    by (simp add: chain_get_block_index_def nth_append)
  then show ?thesis using n by (simp add: find_fork_height_def chain_height_def Let_def)
qed

text \<open>The activation that follows the connection of a child of the tip.\<close>

lemma activate_child:
  assumes "mgr_ok mgr" "mgr_tip mgr = Some tip" "mgr_best_valid_tip mgr = Some (i, w)" "bi_prev (mgr_arena mgr ! i) = Some tip"
  shows "activate_best_chain C K base (Some i) mgr =
    Some (Inr (), put_coins (set_best_block (mgr_coins mgr) (bi_block_hash (mgr_arena mgr ! i))) (put_chain (mgr_chain mgr @ [i]) mgr))"
proof -
  let ?a = "mgr_arena mgr" and ?c = "mgr_chain mgr"
  have ok: "arena_ok ?a" "chain_ok ?a ?c" "i < length ?a" using assms(1,3) by (auto simp: mgr_ok_def index_ok_def)
  have c: "?c \<noteq> []" "tip = last ?c" using assms(2) by (auto simp: mgr_tip_def chain_tip_def split: if_splits)
  have ne: "tip \<noteq> i" using arena_prev(2) [OF ok(1,3) assms(4)] by simp
  have path: "path_to ?a i = ?c @ [i]" using path_to_extend [OF ok(1,2) c(1) ok(3)] assms(4) c(2) by simp
  have h: "bi_height (?a ! i) = chain_height ?c + 1"
    using path_to_facts(1) [OF ok(1,3)] arena_height [OF ok(1,3)] path by (simp add: chain_height_def)
  have bp: "build_chain_path (mgr_block_index mgr) i = ?c @ [i]" using build_chain_path_exact [OF ok(1,3)] path by simp
  have f: "find_fork_height ?c (?c @ [i]) (mgr_height mgr) = chain_height ?c" using fork_below [OF c(1)] by (simp add: mgr_height_def)
  have "nat (chain_height ?c + 1) = length ?c" by (simp add: chain_height_def)
  then have con: "connect_heights C K base (?c @ [i]) (Some i) [chain_height ?c + 1..chain_height ?c + 1] mgr = Some (Inr (), mgr)"
    by (simp add: nth_append)
  have tip: "chain_set_tip_with ?c i (bi_height (?a ! i)) (mgr_parent mgr) = ?c @ [i]"
    using set_tip_with_path [OF ok(1,3,2)] path by (simp add: mgr_parent_of)
  show ?thesis
    using assms(2,3) ne bp f con tip h
    by (simp add: activate_best_chain_def Let_def mgr_height_def bm_get_def put_chain_def del: connect_heights.simps)
qed

text \<open>The manager after the connection of a child of the tip.\<close>

definition extended :: "nat \<Rightarrow> coins_cache \<Rightarrow> chainstate_manager \<Rightarrow> chainstate_manager" where
  "extended idx cc mgr =
     (let m = raise_best idx (touch_index (raise_status VALID_SCRIPTS) idx (put_coins cc mgr))
      in put_coins (set_best_block cc (bi_block_hash (mgr_arena mgr ! idx))) (put_chain (mgr_chain mgr @ [idx]) m))"

lemma connect_new_block_child:
  assumes "mgr_ok mgr" "idx < length (mgr_arena mgr)" "mgr_tip mgr = Some tip" "bi_prev (mgr_arena mgr ! idx) = Some tip"
    "mgr_best_valid_tip mgr = Some (best, w)" "au_compare_to (bi_chain_work (mgr_arena mgr ! idx)) w = Greater"
    "connect_block C K base blk (bi_height (mgr_arena mgr ! idx)) (mgr_coins mgr) (mgr_consensus mgr)
       (Some (mtp_lookup (uint (hdr_time (blk_header blk))) mgr)) (should_skip_scripts mgr idx) = Some (Inr undo, cc)"
  shows "connect_new_block C K base idx blk mgr = Some (Inr (True, Some undo), extended idx cc mgr)"
proof -
  let ?t = "touch_index (raise_status VALID_SCRIPTS) idx (put_coins cc mgr)"
  let ?m = "raise_best idx ?t"
  have q0: "quiet_step mgr (put_coins cc mgr)" by simp
  have q1: "quiet_step mgr ?t" using quiet_trans [OF q0 quiet_touch] assms(2) quiet_length [OF q0] by simp
  have q: "quiet_step mgr ?m" using quiet_trans [OF q1 quiet_raise_best] assms(2) quiet_length [OF q1] by simp
  have sl: "same_links (mgr_arena mgr) (mgr_arena ?t)" using q1 by (simp add: quiet_step_def same_index_def)
  have a: "mgr_arena ?m = mgr_arena ?t" by (simp add: raise_best_def Let_def)
  have b: "mgr_best_valid_tip ?m = Some (idx, bi_chain_work (mgr_arena mgr ! idx))"
    using assms(5,6) same_links_nth(7) [OF sl assms(2)]
    by (simp add: raise_best_def bm_get_def Let_def) (simp add: touch_index_def put_coins_def)
  have m: "mgr_ok ?m" "mgr_chain ?m = mgr_chain mgr" "mgr_tip ?m = Some tip" "bi_prev (mgr_arena ?m ! idx) = Some tip"
    "bi_block_hash (mgr_arena ?m ! idx) = bi_block_hash (mgr_arena mgr ! idx)"
    using q assms(1,3,4) same_links_nth(1,4) [OF sl assms(2)] a by (simp_all add: quiet_step_def mgr_tip_def)
  have coins: "mgr_coins ?m = cc" by (simp add: raise_best_def touch_index_def put_coins_def Let_def)
  note act = activate_child [OF m(1,3) b m(4), of C K base, unfolded m(2,5) coins]
  show ?thesis
    using assms(7) act
    by (simp add: connect_new_block_def bm_get_def Let_def extended_def) (simp add: mgr_tip_def put_coins_def put_chain_def chain_tip_def)
qed


lemma au_compare_more:
  assumes "au_ok w" "au_ok p" "0 < unat (au_word p)" "unat (au_word w) + unat (au_word p) < 2 ^ 256"
  shows "au_compare_to (au_add w p) w = Greater"
proof -
  have s: "au_ok (au_add w p)" "au_word (au_add w p) = au_word w + au_word p" using au_add_word [OF assms(1,2)] by auto
  then have "unat (au_word (au_add w p)) = unat (au_word w) + unat (au_word p)" using assms(4) by (simp add: unat_word_ariths)
  then have "au_word w < au_word (au_add w p)" using assms(3) by (simp add: word_less_nat_alt)
  then show ?thesis using au_compare_word [OF s(1) assms(1)] by auto
qed

lemma connect_new_block_err:
  assumes "connect_block C K base blk (bi_height (mgr_arena mgr ! idx)) (mgr_coins mgr) (mgr_consensus mgr)
       (Some (mtp_lookup (uint (hdr_time (blk_header blk))) mgr)) (should_skip_scripts mgr idx) = Some (Inl e, cc)"
  shows "connect_new_block C K base idx blk mgr = Some (Inl e, mark_failed idx (put_coins cc mgr))"
  using assms by (simp add: connect_new_block_def bm_get_def Let_def)

lemma mark_failed_same:
  "mgr_chain (mark_failed idx mgr) = mgr_chain mgr" "mgr_best_valid_tip (mark_failed idx mgr) = mgr_best_valid_tip mgr"
  "mgr_coins (mark_failed idx mgr) = mgr_coins mgr"
  by (simp_all add: mark_failed_def touch_index_def)

lemma record_block_same:
  "mgr_chain (record_block idx blk mgr) = mgr_chain mgr" "mgr_best_valid_tip (record_block idx blk mgr) = mgr_best_valid_tip mgr"
  "mgr_coins (record_block idx blk mgr) = mgr_coins mgr" "mgr_consensus (record_block idx blk mgr) = mgr_consensus mgr"
  "mgr_assume_valid (record_block idx blk mgr) = mgr_assume_valid mgr" "mgr_tip (record_block idx blk mgr) = mgr_tip mgr"
  by (simp_all add: record_block_def touch_index_def Let_def mgr_tip_def)

lemma put_coins_same:
  "mgr_chain (put_coins cc mgr) = mgr_chain mgr" "mgr_best_valid_tip (put_coins cc mgr) = mgr_best_valid_tip mgr"
  "mgr_coins (put_coins cc mgr) = cc"
  by (simp_all add: put_coins_def)

text \<open>The outcomes of a block whose header was accepted.\<close>

lemma process_new_block_cases:
  assumes "process_new_block C K base now mgr blk = Some (r, mgr')" "accept_block_header C now mgr (blk_header blk) = Some (Inr idx, m0)"
    "\<not> (bi_is_valid (mgr_arena m0 ! idx) VALID_SCRIPTS \<and> chain_get_block_index (mgr_chain m0) (bi_height (mgr_arena m0 ! idx)) = Some idx)"
  shows "(\<exists>st. r = Inl st \<and> mgr' = mark_failed idx m0) \<or> (\<exists>st. r = Inl st \<and> mgr' = mark_failed idx (record_block idx blk m0)) \<or>
    (\<exists>st. fst (check_block C K blk (mgr_consensus m0) st True) \<and>
       connect_new_block C K base idx blk (record_block idx blk m0) = Some (r, mgr'))"
proof -
  obtain ok st where cb: "check_block C K blk (mgr_consensus m0) (vs_new BlockUnset) True = (ok, st)" by fastforce
  obtain ok2 st2 where cc: "check_in_context C idx blk st (record_block idx blk m0) = (ok2, st2)" by fastforce
  have "fst (check_block C K blk (mgr_consensus m0) (vs_new BlockUnset) True) = ok" using cb by simp
  then show ?thesis using assms cb cc
    by (cases ok; cases ok2) (auto simp: process_new_block_def bm_get_def Let_def intro: exI [of _ "vs_new BlockUnset"])
qed

lemma new_entry_status:
  assumes "accept_block_header C now mgr header = Some (Inr idx, mgr')" "index_ok (mgr_block_index mgr)"
    "bm_find_by_hash (mgr_block_index mgr) (header_block_hash C header) = None" "chain_ok (mgr_arena mgr) (mgr_chain mgr)"
  shows "chain_get_block_index (mgr_chain mgr) h \<noteq> Some idx"
proof -
  have "idx = length (mgr_arena mgr)" using accept_block_header_new [OF assms(2,1,3)] by blast
  moreover have "i < length (mgr_arena mgr)" if "i \<in> set (mgr_chain mgr)" for i
    using assms(4) that by (auto simp: chain_ok_def in_set_conv_nth)
  ultimately show ?thesis
    using nth_mem [of "nat h" "mgr_chain mgr"] by (fastforce simp: chain_get_block_index_def split: if_splits)
qed


lemma find_by_hash_entry: "index_ok bm \<Longrightarrow> i < length (bm_indices bm) \<Longrightarrow> bm_find_by_hash bm (bi_block_hash (bm_indices bm ! i)) = Some i"
  by (simp add: index_ok_def hashes_ok_def bm_find_by_hash_def)

lemma extended_same:
  assumes "mgr_ok mgr" "idx < length (mgr_arena mgr)" "mgr_best_valid_tip mgr = Some (best, w)"
    "au_compare_to (bi_chain_work (mgr_arena mgr ! idx)) w = Greater"
  shows "mgr_chain (extended idx cc mgr) = mgr_chain mgr @ [idx]"
    "mgr_coins (extended idx cc mgr) = set_best_block cc (bi_block_hash (mgr_arena mgr ! idx))"
    "mgr_best_valid_tip (extended idx cc mgr) = Some (idx, bi_chain_work (mgr_arena mgr ! idx))"
    "bi_block_hash (mgr_arena (extended idx cc mgr) ! idx) = bi_block_hash (mgr_arena mgr ! idx)"
proof -
  let ?f = "raise_status VALID_SCRIPTS"
  have l: "bi_chain_work (?f e) = bi_chain_work e" "bi_block_hash (?f e) = bi_block_hash e" for e by (simp_all add: raise_status_def)
  show "mgr_chain (extended idx cc mgr) = mgr_chain mgr @ [idx]"
    "mgr_coins (extended idx cc mgr) = set_best_block cc (bi_block_hash (mgr_arena mgr ! idx))"
    by (simp_all add: extended_def put_coins_def put_chain_def Let_def)
  show "mgr_best_valid_tip (extended idx cc mgr) = Some (idx, bi_chain_work (mgr_arena mgr ! idx))"
    "bi_block_hash (mgr_arena (extended idx cc mgr) ! idx) = bi_block_hash (mgr_arena mgr ! idx)"
    using assms l by (simp_all add: extended_def put_coins_def put_chain_def Let_def raise_best_def touch_index_def bm_update_def bm_get_def)
qed

lemma cache_view_best [simp]: "cache_view base (set_best_block cc h) = cache_view base cc"
  by (simp add: cache_view_def set_best_block_def)

lemma int_pred_suc: "c \<noteq> [] \<Longrightarrow> int (length c - Suc 0) + 1 = int (length c)"
  by (cases c) simp_all

text \<open>The manager between the acceptance of a new header and the connection of its block.\<close>

lemma recorded_entry:
  assumes "mgr_ok mgr" "bm_find_by_hash (mgr_block_index mgr) (hdr_prev_blockhash (blk_header blk)) = Some q"
    "bm_find_by_hash (mgr_block_index mgr) (header_block_hash C (blk_header blk)) = None"
    "get_header_proof (blk_header blk) = Inr p" "accept_block_header C now mgr (blk_header blk) = Some (Inr idx, m0)"
  defines "m \<equiv> record_block idx blk m0"
  shows "idx = length (mgr_arena mgr)" "mgr_ok m" "idx < length (mgr_arena m)" "mgr_tip m = mgr_tip mgr" "mgr_best_valid_tip m = mgr_best_valid_tip mgr"
    "mgr_coins m = mgr_coins mgr" "mgr_chain m = mgr_chain mgr" "mgr_consensus m = mgr_consensus mgr" "mgr_consensus m0 = mgr_consensus mgr"
    "bi_prev (mgr_arena m ! idx) = Some q" "bi_height (mgr_arena m ! idx) = bi_height (mgr_arena mgr ! q) + 1"
    "bi_block_hash (mgr_arena m ! idx) = header_block_hash C (blk_header blk)"
    "bi_chain_work (mgr_arena m ! idx) = au_add (bi_chain_work (mgr_arena mgr ! q)) p"
proof -
  let ?a = "mgr_arena mgr" and ?h = "header_block_hash C (blk_header blk)"
  have ix: "index_ok (mgr_block_index mgr)" using assms(1) by (simp add: mgr_ok_def)
  note acc = accept_block_header_cases [OF assms(1,5)]
  obtain e where e: "idx = length ?a" "mgr_arena m0 = ?a @ [e]" "bi_get_block_header e = blk_header blk" "bi_block_hash e = ?h"
    "child_of ?a q e" "index_ok (mgr_block_index m0)"
    and cons: "mgr_consensus m0 = mgr_consensus mgr"
    using accept_block_header_new [OF ix assms(5,3)] assms(2)
    by (metis (no_types, lifting) chainstate_manager.select_convs(1) chainstate_manager.surjective chainstate_manager.update_convs(3,11) option.inject)
  show "idx = length ?a" "mgr_consensus m0 = mgr_consensus mgr" by fact+
  have q: "quiet_step m0 m" using quiet_record e(1,2) by (simp add: m_def)
  show "mgr_ok m" "idx < length (mgr_arena m)" "mgr_tip m = mgr_tip mgr" "mgr_best_valid_tip m = mgr_best_valid_tip mgr"
      "mgr_coins m = mgr_coins mgr" "mgr_chain m = mgr_chain mgr" "mgr_consensus m = mgr_consensus mgr"
    using quiet_ok [OF q acc(1)] quiet_length [OF q] e(1,2) acc(4,5) cons by (simp_all add: record_block_same mgr_tip_def m_def)
  have sl: "same_links (mgr_arena m0) (mgr_arena m)" using q by (simp add: quiet_step_def same_index_def)
  have len: "idx < length (mgr_arena m0)" using e(1,2) by simp
  have bits: "bi_bits e = hdr_bits (blk_header blk)" using arg_cong [OF e(3), of hdr_bits] by (simp add: bi_get_block_header_def)
  show "bi_prev (mgr_arena m ! idx) = Some q" "bi_block_hash (mgr_arena m ! idx) = ?h"
    "bi_height (mgr_arena m ! idx) = bi_height (?a ! q) + 1"
    using same_links_nth [OF sl len] e(1-5) by (simp_all add: child_of_def)
  have "bi_chain_work e = au_add (bi_chain_work (?a ! q)) p"
    using e(1,2,5,6) assms(4) bits by (auto simp: index_ok_def work_ok_def child_of_def get_block_proof_def get_header_proof_def nth_append)
  then show "bi_chain_work (mgr_arena m ! idx) = au_add (bi_chain_work (?a ! q)) p" using same_links_nth(7) [OF sl len] e(1,2) by simp
qed

text \<open>The same for a header on top of the tip.\<close>

lemma recorded_child:
  assumes "mgr_ok mgr" "mgr_tip mgr = Some tip" "mgr_best_valid_tip mgr = Some (tip, w)"
    "hdr_prev_blockhash (blk_header blk) = bi_block_hash (mgr_arena mgr ! tip)"
    "bm_find_by_hash (mgr_block_index mgr) (header_block_hash C (blk_header blk)) = None"
    "get_header_proof (blk_header blk) = Inr p" "0 < unat (au_word p)" "unat (au_word w) + unat (au_word p) < 2 ^ 256"
    "accept_block_header C now mgr (blk_header blk) = Some (Inr idx, m0)"
  defines "m \<equiv> record_block idx blk m0"
  shows "idx = length (mgr_arena mgr)" "mgr_ok m" "idx < length (mgr_arena m)" "mgr_tip m = Some tip" "mgr_best_valid_tip m = Some (tip, w)"
    "mgr_coins m = mgr_coins mgr" "mgr_chain m = mgr_chain mgr" "mgr_consensus m = mgr_consensus mgr" "mgr_consensus m0 = mgr_consensus mgr"
    "bi_prev (mgr_arena m ! idx) = Some tip" "bi_height (mgr_arena m ! idx) = mgr_height mgr + 1"
    "bi_block_hash (mgr_arena m ! idx) = header_block_hash C (blk_header blk)" "bi_chain_work (mgr_arena m ! idx) = au_add w p"
    "au_compare_to (bi_chain_work (mgr_arena m ! idx)) w = Greater"
proof -
  let ?a = "mgr_arena mgr"
  have ix: "index_ok (mgr_block_index mgr)" "chain_ok ?a (mgr_chain mgr)" "tip < length ?a" "w = bi_chain_work (?a ! tip)"
    using assms(1,3) by (auto simp: mgr_ok_def)
  have "bm_find_by_hash (mgr_block_index mgr) (hdr_prev_blockhash (blk_header blk)) = Some tip"
    using assms(4) find_by_hash_entry [OF ix(1,3)] by simp
  note e = recorded_entry [OF assms(1) this assms(5,6,9), folded m_def]
  show "idx = length ?a" "mgr_ok m" "idx < length (mgr_arena m)" "mgr_tip m = Some tip" "mgr_best_valid_tip m = Some (tip, w)"
    "mgr_coins m = mgr_coins mgr" "mgr_chain m = mgr_chain mgr" "mgr_consensus m = mgr_consensus mgr" "mgr_consensus m0 = mgr_consensus mgr"
    "bi_prev (mgr_arena m ! idx) = Some tip" "bi_block_hash (mgr_arena m ! idx) = header_block_hash C (blk_header blk)"
    and wk: "bi_chain_work (mgr_arena m ! idx) = au_add w p"
    using e assms(2,3) ix(4) by simp_all
  show "bi_height (mgr_arena m ! idx) = mgr_height mgr + 1"
    using e(11) ix(2) assms(2)
    by (auto simp: mgr_tip_def chain_tip_def mgr_height_def chain_height_def chain_ok_def last_conv_nth int_pred_suc split: if_splits)
  show "au_compare_to (bi_chain_work (mgr_arena m ! idx)) w = Greater"
    using au_compare_more [of w p] assms(6-8) ix bits_proof_value [of "hdr_bits (blk_header blk)"]
    by (auto simp: wk get_header_proof_def index_ok_def work_ok_def)
qed

end
