(* ===== verification/IndexLoad.thy ===== *)
theory IndexLoad
  imports Chainstate
begin

text \<open>A manager that is started again. \<open>load_block_index\<close> of \<open>crates/qubitcoin-node/src/chainstate.rs\<close> gets the records of the
  database in some order, sorts them by height, and finds parents by their hash, maximal times, skip links and the best chain
  anew. When the records are those of an index that was well-formed, the loaded index and its chain are again well-formed.\<close>

section \<open>Parents are named by their hash\<close>

definition named_parents :: "arena \<Rightarrow> bool" where
  "named_parents a \<longleftrightarrow> (\<forall>i<length a. \<forall>j. bi_prev (a ! i) = Some j \<longrightarrow> bi_prev_blockhash (a ! i) = bi_block_hash (a ! j))"

lemma named_links: "same_links a b \<Longrightarrow> arena_ok a \<Longrightarrow> named_parents a \<Longrightarrow> named_parents b"
  using arena_prev(2) [of a] by (simp add: named_parents_def same_links_nth same_links_length)

lemma named_snoc: "child_of a p e \<Longrightarrow> named_parents a \<Longrightarrow> bi_prev_blockhash e = bi_block_hash (a ! p) \<Longrightarrow> named_parents (a @ [e])"
  using arena_prev(2) [of a] by (auto simp: child_of_def named_parents_def less_Suc_eq nth_append)

lemma named_root: "arena_ok a \<Longrightarrow> named_parents a \<Longrightarrow> bi_prev e = None \<Longrightarrow> named_parents (a @ [e])"
  using arena_prev(2) [of a] by (auto simp: named_parents_def less_Suc_eq nth_append)

lemma named_index:
  assumes "same_index mgr mgr'" "mgr_ok mgr" "named_parents (mgr_arena mgr)"
  shows "named_parents (mgr_arena mgr')"
  using named_links assms by (auto simp: same_index_def mgr_ok_def index_ok_def)

lemma accept_block_header_named:
  assumes "mgr_ok mgr" "named_parents (mgr_arena mgr)" "accept_block_header C now mgr header = Some (r, mgr')"
  shows "named_parents (mgr_arena mgr')"
proof (cases "\<exists>idx. r = Inr idx \<and> bm_find_by_hash (mgr_block_index mgr) (header_block_hash C header) = None")
  case True
  then obtain idx where r: "r = Inr idx" and new: "bm_find_by_hash (mgr_block_index mgr) (header_block_hash C header) = None" by blast
  have ix: "index_ok (mgr_block_index mgr)" using assms(1) by (simp add: mgr_ok_def)
  obtain e p where e: "mgr_arena mgr' = mgr_arena mgr @ [e]" "bi_get_block_header e = header"
    "bm_find_by_hash (mgr_block_index mgr) (hdr_prev_blockhash header) = Some p" "child_of (mgr_arena mgr) p e"
    using accept_block_header_new [OF ix assms(3) [unfolded r] new] by blast
  have "bi_prev_blockhash e = hdr_prev_blockhash header" using e(2) by (auto simp: bi_get_block_header_def)
  then show ?thesis using named_snoc [OF e(4) assms(2)] index_in_range [OF ix e(3)] e(1) by simp
next
  case False
  then have "mgr' = mgr"
    using assms(3) accept_block_header_err accept_block_header_known [of mgr C header] by (cases r) fastforce+
  then show ?thesis using assms(2) by simp
qed

lemma connect_new_block_index:
  assumes "connect_new_block C K base idx blk mgr = Some (r, mgr')" "mgr_ok mgr" "idx < length (mgr_arena mgr)"
  shows "same_index mgr mgr'"
proof -
  let ?c = "connect_block C K base blk (bi_height (bm_get (mgr_block_index mgr) idx)) (mgr_coins mgr) (mgr_consensus mgr)
    (Some (mtp_lookup (uint (hdr_time (blk_header blk))) mgr)) (should_skip_scripts mgr idx)"
  obtain r0 cc where c: "?c = Some (r0, cc)" using assms(1) by (cases ?c) (auto simp: connect_new_block_def Let_def)
  have q: "quiet_step mgr (put_coins cc mgr)" by simp
  note len = quiet_length [OF q]
  have q1: "quiet_step mgr (touch_index f idx (put_coins cc mgr))" if "keeps_links f" for f
    using quiet_trans [OF q quiet_touch [OF that]] assms(3) len by simp
  show ?thesis
  proof (cases r0)
    case (Inl e)
    then show ?thesis using assms(1,2) c q1
      by (auto simp: connect_new_block_def Let_def mark_failed_def quiet_step_def)
  next
    case (Inr undo)
    let ?m = "raise_best idx (touch_index (raise_status VALID_SCRIPTS) idx (put_coins cc mgr))"
    have m: "quiet_step mgr ?m" using quiet_trans [OF q1 quiet_raise_best] quiet_length [OF q1] assms(3) by simp
    have ok: "mgr_ok ?m" using quiet_ok [OF m assms(2)] .
    have si: "same_index mgr ?m" using m unfolding quiet_step_def by (rule conjunct1)
    have act: "same_index mgr m'" if "activate_best_chain C K base jc ?m = Some (x, m')" for jc x m'
      using same_index_trans [OF si] activate_best_chain_ok [OF that ok] by blast
    have undos: "same_index mgr (m'\<lparr>mgr_stored_undos := u\<rparr>)" if "same_index mgr m'" for m' u
      using that by (simp add: same_index_def)
    show ?thesis using assms(1) c Inr
      by (auto simp: connect_new_block_def Let_def intro: undos dest: act split: option.splits sum.splits)
  qed
qed

lemma process_new_block_named:
  assumes "process_new_block C K base now mgr blk = Some (r, mgr')" "mgr_ok mgr" "named_parents (mgr_arena mgr)"
  shows "named_parents (mgr_arena mgr')"
proof -
  obtain r0 m0 where a: "accept_block_header C now mgr (blk_header blk) = Some (r0, m0)"
    using assms(1) by (cases "accept_block_header C now mgr (blk_header blk)") (auto simp: process_new_block_def)
  note ac = accept_block_header_cases [OF assms(2) a]
  note n0 = accept_block_header_named [OF assms(2,3) a]
  show ?thesis
  proof (cases r0)
    case (Inl e)
    then show ?thesis using assms(1) a n0 by (simp add: process_new_block_def)
  next
    case (Inr idx)
    then have i: "idx < length (mgr_arena m0)" using ac(6) by simp
    let ?m1 = "record_block idx blk m0"
    have q: "quiet_step m0 ?m1" by (rule quiet_record [OF i])
    have len: "idx < length (mgr_arena ?m1)" using i quiet_length [OF q] by simp
    have ok: "mgr_ok ?m1" using quiet_ok [OF q ac(1)] .
    have "same_index m0 (mark_failed idx m0)" "same_index m0 ?m1" "same_index m0 (mark_failed idx ?m1)"
      using quiet_mark_failed [OF i] q quiet_trans [OF q quiet_mark_failed [OF len]] by (simp_all add: quiet_step_def)
    moreover have "same_index m0 m2" if "connect_new_block C K base idx blk ?m1 = Some (x, m2)" for x m2
      using same_index_trans [OF \<open>same_index m0 ?m1\<close> connect_new_block_index [OF that ok len]] .
    ultimately have "same_index m0 mgr'"
      using assms(1) a Inr by (auto simp: process_new_block_def Let_def split: if_splits prod.splits)
    then show ?thesis using named_index ac(1) n0 by blast
  qed
qed

lemma load_genesis_block_named:
  assumes "load_genesis_block C base mgr g = Some (r, mgr')" "mgr_ok mgr" "named_parents (mgr_arena mgr)"
  shows "named_parents (mgr_arena mgr')"
proof (cases "mgr' = mgr")
  case False
  obtain e where e: "genesis_entry C g = Some e" "mgr_arena mgr' = mgr_arena mgr @ [e]"
    using load_genesis_block_new [OF assms(1) False] by (force simp: put_coins_def put_chain_def)
  then show ?thesis using named_root assms(2,3) genesis_entry_facts by (simp add: mgr_ok_def index_ok_def)
qed (use assms in simp)

lemma touch_named:
  "mgr_ok mgr \<Longrightarrow> named_parents (mgr_arena mgr) \<Longrightarrow> keeps_links f \<Longrightarrow> named_parents (mgr_arena (touch_index f i mgr))"
  by (rule named_index [of mgr]) (simp_all add: same_index_def touch_index_def bm_update_def same_links_update)

lemma set_positions_named:
  assumes "mgr_ok mgr" "named_parents (mgr_arena mgr)"
  shows "named_parents (mgr_arena (set_undo_pos hash pos mgr))" "named_parents (mgr_arena (set_block_pos hash file pos mgr))"
  using assms by (auto simp: set_undo_pos_def set_block_pos_def keeps_links_def links_def intro!: touch_named split: option.splits)

lemma set_block_pos_ok: "mgr_ok mgr \<Longrightarrow> mgr_ok (set_block_pos hash file pos mgr)"
  using index_in_range [of "mgr_block_index mgr" hash] quiet_ok [OF quiet_touch, of "\<lambda>bi. bi\<lparr>bi_file := file, bi_data_pos := pos\<rparr>"]
  by (auto simp: set_block_pos_def mgr_ok_def keeps_links_def links_def split: option.splits)

section \<open>What the records keep of an entry\<close>

definition core :: "block_index \<Rightarrow> hash_bytes \<times> hash_bytes \<times> u32 \<times> u32 \<times> int \<times> arith_uint256" where
  "core bi = (bi_block_hash bi, bi_prev_blockhash bi, bi_time bi, bi_bits bi, bi_height bi, bi_chain_work bi)"

lemma arith_bytes_inverse: "au_ok w \<Longrightarrow> uint256_to_arith (arith_to_uint256 w) = w"
  using le_nat_arith_to_uint256 [of w] uint256_to_arith_word [of "arith_to_uint256 w"] au_word_uint256 [of "arith_to_uint256 w"]
    au_eq_iff [of "uint256_to_arith (arith_to_uint256 w)" w] by (simp add: word_unat_eq_iff)

lemma core_restored: "au_ok (bi_chain_work bi) \<Longrightarrow> core (entry_of_record (record_of bi)) = core bi"
  by (simp add: core_def entry_of_record_def record_of_def bir_chain_work_def arith_bytes_inverse)


text \<open>The index that was stored, and the part of the new one that has its links already.\<close>

abbreviation null_hash :: "hash_bytes \<Rightarrow> bool" where
  "null_hash h \<equiv> list_all (\<lambda>b. b = 0) h"

definition stored_ok :: "arena \<Rightarrow> bool" where
  "stored_ok a \<longleftrightarrow> arena_ok a \<and> times_ok a \<and> work_ok a \<and> named_parents a \<and> distinct (map bi_block_hash a) \<and>
     (\<forall>e\<in>set a. \<not> null_hash (bi_block_hash e) \<and> (bi_prev e = None \<longrightarrow> null_hash (bi_prev_blockhash e)))"

definition linked_ok :: "arena \<Rightarrow> arena \<Rightarrow> bool" where
  "linked_ok a p \<longleftrightarrow> arena_ok p \<and> times_ok p \<and> work_ok p \<and> named_parents p \<and>
     (\<forall>m<length p. (bi_prev (p ! m) = None \<longleftrightarrow> null_hash (bi_prev_blockhash (p ! m))) \<and> (\<exists>k<length a. core (p ! m) = core (a ! k)))"

lemma stored_prev:
  assumes "stored_ok a" "k < length a"
  shows "null_hash (bi_prev_blockhash (a ! k)) \<Longrightarrow> bi_prev (a ! k) = None \<and> bi_height (a ! k) = 0"
    "\<not> null_hash (bi_prev_blockhash (a ! k)) \<Longrightarrow>
       \<exists>j<k. bi_prev (a ! k) = Some j \<and> bi_prev_blockhash (a ! k) = bi_block_hash (a ! j) \<and> bi_height (a ! k) = bi_height (a ! j) + 1"
proof -
  note s = assms(1) [unfolded stored_ok_def]
  then have ok: "arena_ok a" by simp
  have name: "bi_prev_blockhash (a ! k) = bi_block_hash (a ! j)" if "bi_prev (a ! k) = Some j" for j
    using s that assms(2) by (simp add: named_parents_def)
  show "bi_prev (a ! k) = None \<and> bi_height (a ! k) = 0" if n: "null_hash (bi_prev_blockhash (a ! k))"
  proof (cases "bi_prev (a ! k)")
    case None
    then show ?thesis using arena_prev(1) [OF ok assms(2)] by simp
  next
    case (Some j)
    then have "j < length a" using arena_prev(2) [OF ok assms(2)] by simp
    then show ?thesis using s name [OF Some] n by (metis nth_mem)
  qed
  show "\<exists>j<k. bi_prev (a ! k) = Some j \<and> bi_prev_blockhash (a ! k) = bi_block_hash (a ! j) \<and> bi_height (a ! k) = bi_height (a ! j) + 1"
    if n: "\<not> null_hash (bi_prev_blockhash (a ! k))"
  proof (cases "bi_prev (a ! k)")
    case None
    then show ?thesis using s n assms(2) by (metis nth_mem)
  next
    case (Some j)
    then show ?thesis using arena_prev(2) [OF ok assms(2) Some] name by auto
  qed
qed

lemma same_hash:
  "stored_ok a \<Longrightarrow> j < length a \<Longrightarrow> k < length a \<Longrightarrow> bi_block_hash (a ! j) = bi_block_hash (a ! k) \<Longrightarrow> j = k"
  by (metis stored_ok_def length_map nth_eq_iff_index_eq nth_map)

text \<open>Following the parents gives the same times in both.\<close>

lemma linked_parent:
  assumes "stored_ok a" "linked_ok a p" "i < length p" "k < length a" "core (p ! i) = core (a ! k)" "bi_prev (a ! k) = Some j"
  shows "\<exists>i'. bi_prev (p ! i) = Some i' \<and> i' < i \<and> j < k \<and> core (p ! i') = core (a ! j)"
proof -
  have n: "\<not> null_hash (bi_prev_blockhash (a ! k))" using stored_prev(1) [OF assms(1,4)] assms(6) by auto
  then have j: "j < k" "j < length a" and h: "bi_prev_blockhash (a ! k) = bi_block_hash (a ! j)" "\<not> null_hash (bi_prev_blockhash (a ! k))"
    using stored_prev(2) [OF assms(1,4) n] assms(4,6) by auto
  then obtain i' where i: "bi_prev (p ! i) = Some i'"
    using assms(2,3,5) by (fastforce simp: linked_ok_def core_def)
  have lt: "i' < i" using arena_prev(2) [OF _ assms(3) i] assms(2) by (simp add: linked_ok_def)
  have "bi_block_hash (p ! i') = bi_block_hash (a ! j)"
    using assms(2,3,5) i h by (simp add: linked_ok_def named_parents_def core_def)
  moreover have "\<exists>k'<length a. core (p ! i') = core (a ! k')"
    using assms(2) less_trans [OF lt assms(3)] by (simp add: linked_ok_def)
  then obtain k' where k: "k' < length a" "core (p ! i') = core (a ! k')" by blast
  ultimately have "bi_block_hash (a ! k') = bi_block_hash (a ! j)" by (simp add: core_def)
  then have "core (p ! i') = core (a ! j)" using same_hash [OF assms(1) k(1) j(2)] k(2) by simp
  then show ?thesis using i lt j(1) by blast
qed

lemma collect_times_core:
  assumes "stored_ok a" "linked_ok a p"
  shows "i < length p \<Longrightarrow> k < length a \<Longrightarrow> core (p ! i) = core (a ! k) \<Longrightarrow>
    map bi_time (collect_ancestors n p (Some i)) = map bi_time (collect_ancestors n a (Some k))"
proof (induction n arbitrary: i k)
  case (Suc n)
  have "map bi_time (collect_ancestors n p (bi_prev (p ! i))) = map bi_time (collect_ancestors n a (bi_prev (a ! k)))"
  proof (cases "bi_prev (a ! k)")
    case None
    then have "null_hash (bi_prev_blockhash (p ! i))" using assms(1) Suc.prems by (auto simp: stored_ok_def core_def)
    then have "bi_prev (p ! i) = None" using assms(2) Suc.prems(1) by (simp add: linked_ok_def)
    then show ?thesis using None by (cases n) simp_all
  next
    case (Some j)
    then show ?thesis using linked_parent [OF assms Suc.prems Some] Suc.IH Suc.prems(1,2) by fastforce
  qed
  then show ?case using Suc.prems by (simp add: core_def)
qed simp

lemma compute_mtp_core:
  assumes "stored_ok a" "linked_ok a p" "i < length p" "k < length a" "core (p ! i) = core (a ! k)"
  shows "compute_mtp p i = compute_mtp a k"
  unfolding compute_mtp_def collect_mtp_ancestors_def by (rule median_time_links [OF collect_times_core [OF assms]])

section \<open>One entry gets its links\<close>

lemma linked_root:
  assumes "stored_ok a" "linked_ok a p" "k < length a" "core e = core (a ! k)" "bi_prev e = None" "bi_skip e = None"
    "null_hash (bi_prev_blockhash e)"
  shows "linked_ok a (p @ [e])"
proof -
  note l = assms(2) [unfolded linked_ok_def]
  have h: "bi_height e = 0" using stored_prev(1) [OF assms(1,3)] assms(4,7) by (auto simp: core_def)
  have w: "au_ok (bi_chain_work e)" using assms(1,3,4) by (auto simp: stored_ok_def work_ok_def core_def)
  have "arena_ok (p @ [e])" "times_ok (p @ [e])" "work_ok (p @ [e])" "named_parents (p @ [e])"
    using l arena_ok_root [OF _ assms(5,6) h] times_ok_root [OF _ _ assms(5)] work_ok_root [OF _ _ assms(5) w] named_root [OF _ _ assms(5)]
    by blast+
  moreover have "(bi_prev ((p @ [e]) ! m) = None \<longleftrightarrow> null_hash (bi_prev_blockhash ((p @ [e]) ! m))) \<and> (\<exists>k<length a. core ((p @ [e]) ! m) = core (a ! k))"
    if "m < length (p @ [e])" for m
    using that l assms(3-5,7) by (cases "m = length p") (auto simp: nth_append)
  ultimately show ?thesis by (simp only: linked_ok_def) blast
qed

lemma linked_child:
  assumes "stored_ok a" "linked_ok a p" "k < length a" "core e = core (a ! k)" "bi_prev (a ! k) = Some j"
    "q < length p" "core (p ! q) = core (a ! j)" "bi_prev e = Some q"
    "bi_skip e = Some s" "prev_n p (nat (bi_height (p ! q) - get_skip_height (bi_height e))) q = Some s"
  shows "linked_ok a (p @ [e])"
proof -
  note l = assms(2) [unfolded linked_ok_def] and s = assms(1) [unfolded stored_ok_def]
  have n: "\<not> null_hash (bi_prev_blockhash (a ! k))" using stored_prev(1) [OF assms(1,3)] assms(5) by auto
  have j: "j < length a" "bi_prev_blockhash (a ! k) = bi_block_hash (a ! j)" "bi_height (a ! k) = bi_height (a ! j) + 1"
    using stored_prev(2) [OF assms(1,3) n] assms(3,5) by auto
  have c: "child_of p q e" using l assms(4,6-8) j by (simp add: child_of_def core_def)
  have "compute_mtp a j < bi_get_block_time (a ! k)" using s assms(3,5) by (simp add: times_ok_def)
  then have t: "compute_mtp p q < bi_get_block_time e"
    using compute_mtp_core [OF assms(1,2,6) j(1) assms(7)] assms(4) by (simp add: bi_get_block_time_def core_def)
  obtain w where "get_block_proof (a ! k) = Inr w" "bi_chain_work (a ! k) = au_add (bi_chain_work (a ! j)) w"
    using s assms(3,5) unfolding work_ok_def by blast
  then have w: "get_block_proof e = Inr w" "bi_chain_work e = au_add (bi_chain_work (p ! q)) w"
    using assms(4,7) by (simp_all add: get_block_proof_def core_def)
  have "arena_ok (p @ [e])" "times_ok (p @ [e])" "work_ok (p @ [e])" "named_parents (p @ [e])"
    using arena_ok_snoc [OF c] times_ok_snoc [OF c _ t] work_ok_snoc [OF c _ w] named_snoc [OF c] l assms(4,7,9,10) j(2)
    by (simp_all add: core_def)
  moreover have "(bi_prev ((p @ [e]) ! m) = None \<longleftrightarrow> null_hash (bi_prev_blockhash ((p @ [e]) ! m))) \<and> (\<exists>k<length a. core ((p @ [e]) ! m) = core (a ! k))"
    if "m < length (p @ [e])" for m
    using that l assms(3,4,8) n by (cases "m = length p") (auto simp: nth_append core_def)
  ultimately show ?thesis by (simp only: linked_ok_def) blast
qed

lemma ancestor_walk_prefix:
  "arena_ok a \<Longrightarrow> i < length a \<Longrightarrow> bi_height (a ! i) = h \<Longrightarrow> ancestor_walk (a @ r) t i h = ancestor_walk a t i h"
proof (induction a t i h rule: ancestor_walk.induct)
  case (1 a t i h)
  have prev: "j < length a \<and> bi_height (a ! j) = h - 1" if "bi_prev (a ! i) = Some j" for j
    using arena_prev(2) [OF "1.prems"(1,2) that] "1.prems"(3) by simp
  have skip: "s < length a \<and> bi_height (a ! s) = get_skip_height h" if "bi_skip (a ! i) = Some s" "0 \<le> t" "t < h" for s
  proof -
    have "prev_n a (nat (h - get_skip_height h)) i = Some s" using "1.prems" that(1) by (auto simp: arena_ok_def entry_ok_def)
    then show ?thesis
      using prev_n_total [OF "1.prems"(1,2), of "nat (h - get_skip_height h)"] "1.prems"(3) get_skip_height_bounds [of h] that(2,3) by auto
  qed
  show ?case
    by (subst (1 2) ancestor_walk.simps)
      (use "1.IH" "1.prems" prev skip in \<open>auto simp: Let_def nth_append split: option.splits\<close>)
qed

lemma get_ancestor_prefix: "arena_ok a \<Longrightarrow> i < length a \<Longrightarrow> get_ancestor (a @ r) i t = get_ancestor a i t"
  by (simp add: get_ancestor_def ancestor_walk_prefix nth_append Let_def)


lemma resolve_links_root:
  "null_hash (bi_prev_blockhash e) \<Longrightarrow> bi_prev e = None \<Longrightarrow>
   resolve_links (length p) \<lparr>bm_indices = p @ e # r, bm_by_hash = t\<rparr> = \<lparr>bm_indices = p @ e\<lparr>bi_time_max := bi_time e\<rparr> # r, bm_by_hash = t\<rparr>"
  by (simp add: resolve_links_def bm_get_def bm_update_def build_skip_pointer_def Let_def)

lemma resolve_links_child:
  assumes "arena_ok p" "\<not> null_hash (bi_prev_blockhash e)" "t (bi_prev_blockhash e) = Some q" "q < length p"
    "bi_height e = bi_height (p ! q) + 1"
  shows "\<exists>s. prev_n p (nat (bi_height (p ! q) - get_skip_height (bi_height e))) q = Some s \<and>
    resolve_links (length p) \<lparr>bm_indices = p @ e # r, bm_by_hash = t\<rparr> =
    \<lparr>bm_indices = p @ e\<lparr>bi_prev := Some q, bi_time_max := max (bi_time_max (p ! q)) (bi_time e), bi_skip := Some s\<rparr> # r, bm_by_hash = t\<rparr>"
proof -
  let ?h = "get_skip_height (bi_height e)"
  have h: "0 \<le> bi_height (p ! q)" using arena_height [OF assms(1,4)] .
  then have sk: "0 \<le> ?h" "?h \<le> bi_height (p ! q)" using get_skip_height_bounds [of "bi_height e"] assms(5) by auto
  obtain s where s: "prev_n p (nat (bi_height (p ! q) - ?h)) q = Some s"
    using prev_n_total [OF assms(1,4), of "nat (bi_height (p ! q) - ?h)"] sk by auto
  then have "get_ancestor (p @ x) q ?h = Some s" for x
    using get_ancestor_prev_n [OF assms(1,4), of ?h] sk by (simp add: get_ancestor_prefix [OF assms(1,4)])
  then show ?thesis using s h assms(2-5)
    by (intro exI [of _ s]) (simp add: resolve_links_def bm_get_def bm_update_def bm_find_by_hash_def build_skip_pointer_def Let_def nth_append)
qed

section \<open>All entries get their links\<close>

text \<open>The entries as they come from the records, the lower ones first.\<close>

definition raw_ok :: "arena \<Rightarrow> arena \<Rightarrow> bool" where
  "raw_ok a b \<longleftrightarrow> sorted (map bi_height b) \<and> (\<forall>i<length b. bi_prev (b ! i) = None \<and> bi_skip (b ! i) = None) \<and>
     core ` set b = core ` set a"

lemma raw_core:
  assumes "raw_ok a b"
  shows "i < length b \<Longrightarrow> \<exists>k<length a. core (b ! i) = core (a ! k)" "k < length a \<Longrightarrow> \<exists>i<length b. core (b ! i) = core (a ! k)"
proof -
  have c: "core ` set b = core ` set a" using assms by (simp add: raw_ok_def)
  have "core (b ! i) \<in> core ` set a" if "i < length b" using c that by (metis imageI nth_mem)
  then show "i < length b \<Longrightarrow> \<exists>k<length a. core (b ! i) = core (a ! k)" by (auto simp: in_set_conv_nth)
  have "core (a ! k) \<in> core ` set b" if "k < length a" using c that by (metis imageI nth_mem)
  then show "k < length a \<Longrightarrow> \<exists>i<length b. core (b ! i) = core (a ! k)" by (auto simp: in_set_conv_nth)
qed

lemma resolve_step:
  assumes "stored_ok a" "raw_ok a b" "hashes_ok \<lparr>bm_indices = b, bm_by_hash = t\<rparr>" "linked_ok a p" "map core p = map core (take n b)"
    "n < length b"
  shows "\<exists>e. resolve_links n \<lparr>bm_indices = p @ drop n b, bm_by_hash = t\<rparr> = \<lparr>bm_indices = (p @ [e]) @ drop (Suc n) b, bm_by_hash = t\<rparr> \<and>
    linked_ok a (p @ [e]) \<and> core e = core (b ! n)"
proof -
  have len: "length p = n" using arg_cong [OF assms(5), of length] assms(6) by simp
  have d: "drop n b = (b ! n) # drop (Suc n) b" using assms(6) by (simp add: Cons_nth_drop_Suc)
  have raw: "bi_prev (b ! n) = None" "bi_skip (b ! n) = None" using assms(2,6) by (auto simp: raw_ok_def)
  obtain k where k: "k < length a" "core (b ! n) = core (a ! k)" using raw_core(1) [OF assms(2,6)] by blast
  show ?thesis
  proof (cases "null_hash (bi_prev_blockhash (b ! n))")
    case True
    let ?e = "(b ! n)\<lparr>bi_time_max := bi_time (b ! n)\<rparr>"
    have "core ?e = core (b ! n)" by (simp add: core_def)
    moreover have "linked_ok a (p @ [?e])" using linked_root [OF assms(1,4) k(1), of ?e] k(2) raw True \<open>core ?e = core (b ! n)\<close> by simp
    ultimately show ?thesis using resolve_links_root [OF True raw(1), of p] len d by auto
  next
    case False
    then have nn: "\<not> null_hash (bi_prev_blockhash (a ! k))" using k(2) by (simp add: core_def)
    obtain j where j: "j < k" "bi_prev (a ! k) = Some j" "bi_prev_blockhash (a ! k) = bi_block_hash (a ! j)"
      "bi_height (a ! k) = bi_height (a ! j) + 1" using stored_prev(2) [OF assms(1) k(1) nn] by blast
    then obtain q where q: "q < length b" "core (b ! q) = core (a ! j)" using raw_core(2) [OF assms(2)] k(1) by (metis less_trans)
    have ht: "bi_height (b ! n) = bi_height (b ! q) + 1" using k(2) q(2) j(4) by (simp add: core_def)
    have "\<not> n \<le> q"
    proof
      assume "n \<le> q"
      then have "map bi_height b ! n \<le> map bi_height b ! q" using assms(2) q(1) by (intro sorted_nth_mono) (simp_all add: raw_ok_def)
      then show False using ht q(1) assms(6) by simp
    qed
    then have qn: "q < n" by simp
    have pq: "core (p ! q) = core (b ! q)" using arg_cong [OF assms(5), of "\<lambda>l. l ! q"] qn len assms(6) by simp
    have t: "t (bi_prev_blockhash (b ! n)) = Some q" using assms(3) q k(2) j(3) by (simp add: hashes_ok_def core_def)
    have "arena_ok p" using assms(4) by (simp add: linked_ok_def)
    moreover have "bi_height (b ! n) = bi_height (p ! q) + 1" using ht pq by (simp add: core_def)
    ultimately obtain s where s: "prev_n p (nat (bi_height (p ! q) - get_skip_height (bi_height (b ! n)))) q = Some s"
      and r: "resolve_links (length p) \<lparr>bm_indices = p @ (b ! n) # drop (Suc n) b, bm_by_hash = t\<rparr> =
        \<lparr>bm_indices = p @ (b ! n)\<lparr>bi_prev := Some q, bi_time_max := max (bi_time_max (p ! q)) (bi_time (b ! n)), bi_skip := Some s\<rparr>
          # drop (Suc n) b, bm_by_hash = t\<rparr>"
      using resolve_links_child [of p "b ! n" t q "drop (Suc n) b"] False t qn len by blast
    let ?e = "(b ! n)\<lparr>bi_prev := Some q, bi_time_max := max (bi_time_max (p ! q)) (bi_time (b ! n)), bi_skip := Some s\<rparr>"
    have c: "core ?e = core (b ! n)" by (simp add: core_def)
    have "linked_ok a (p @ [?e])"
      using linked_child [OF assms(1,4) k(1), of ?e j q s] c k(2) j(2) qn len pq q(2) s by simp
    then show ?thesis using r len d c by (intro exI [of _ ?e]) simp
  qed
qed

lemma resolve_all:
  assumes "stored_ok a" "raw_ok a b" "hashes_ok \<lparr>bm_indices = b, bm_by_hash = t\<rparr>"
  shows "n \<le> length b \<Longrightarrow> \<exists>p. fold resolve_links [0..<n] \<lparr>bm_indices = b, bm_by_hash = t\<rparr> = \<lparr>bm_indices = p @ drop n b, bm_by_hash = t\<rparr> \<and>
    linked_ok a p \<and> map core p = map core (take n b)"
proof (induction n)
  case 0
  have "linked_ok a []" by (simp add: linked_ok_def arena_ok_def times_ok_def work_ok_def named_parents_def)
  then show ?case by simp
next
  case (Suc n)
  then obtain p where p: "fold resolve_links [0..<n] \<lparr>bm_indices = b, bm_by_hash = t\<rparr> = \<lparr>bm_indices = p @ drop n b, bm_by_hash = t\<rparr>"
    "linked_ok a p" "map core p = map core (take n b)" by auto
  obtain e where e: "resolve_links n \<lparr>bm_indices = p @ drop n b, bm_by_hash = t\<rparr> = \<lparr>bm_indices = (p @ [e]) @ drop (Suc n) b, bm_by_hash = t\<rparr>"
    "linked_ok a (p @ [e])" "core e = core (b ! n)" using resolve_step [OF assms p(2,3)] Suc.prems by auto
  then show ?case using p Suc.prems by (intro exI [of _ "p @ [e]"]) (simp add: take_Suc_conv_app_nth)
qed


lemma insert_records:
  "distinct (map bir_block_hash rs) \<Longrightarrow>
   bm_indices (foldl (\<lambda>bm r. snd (bm_insert bm (entry_of_record r))) bm_new rs) = map entry_of_record rs \<and>
   hashes_ok (foldl (\<lambda>bm r. snd (bm_insert bm (entry_of_record r))) bm_new rs)"
proof (induction rs rule: rev_induct)
  case Nil
  show ?case by (simp add: bm_new_def hashes_ok_def)
next
  case (snoc r rs)
  let ?bm = "foldl (\<lambda>bm r. snd (bm_insert bm (entry_of_record r))) bm_new rs"
  have ih: "bm_indices ?bm = map entry_of_record rs" "hashes_ok ?bm" using snoc by simp_all
  have "bm_by_hash ?bm (bi_block_hash (entry_of_record r)) = None"
  proof (rule ccontr)
    assume "bm_by_hash ?bm (bi_block_hash (entry_of_record r)) \<noteq> None"
    then obtain i where "i < length rs" "bir_block_hash (rs ! i) = bir_block_hash r"
      using ih by (auto simp: hashes_ok_def entry_of_record_def)
    then have "bir_block_hash r \<in> bir_block_hash ` set rs" by (metis imageI nth_mem)
    then show False using snoc.prems by simp
  qed
  then have "hashes_ok (snd (bm_insert ?bm (entry_of_record r)))" using hashes_ok_snoc [OF ih(2)] by (simp add: bm_insert_def Let_def)
  moreover have "bm_indices (snd (bm_insert ?bm (entry_of_record r))) = map entry_of_record (rs @ [r])"
    using ih(1) unfolding bm_insert_def Let_def by simp
  ultimately show ?case by (simp only: foldl_append foldl.simps)
qed

lemma stored_raw:
  assumes "index_ok bm" "stored_index (bm_indices bm) records"
  shows "raw_ok (bm_indices bm) (map entry_of_record (sort_key bir_height records))"
proof -
  have w: "au_ok (bi_chain_work e)" if "e \<in> set (bm_indices bm)" for e
    using assms(1) that by (auto simp: index_ok_def work_ok_def in_set_conv_nth)
  have "core ` set (map entry_of_record (sort_key bir_height records)) = (\<lambda>e. core (entry_of_record (record_of e))) ` set (bm_indices bm)"
    using assms(2) by (simp add: stored_index_def image_image)
  also have "\<dots> = core ` set (bm_indices bm)" by (rule image_cong [OF refl core_restored]) (rule w)
  finally have c: "core ` set (map entry_of_record (sort_key bir_height records)) = core ` set (bm_indices bm)" .
  have "map bi_height (map entry_of_record (sort_key bir_height records)) = map bir_height (sort_key bir_height records)"
    by (simp add: entry_of_record_def)
  then have "sorted (map bi_height (map entry_of_record (sort_key bir_height records)))" by (simp only: sorted_sort_key)
  moreover have "\<forall>i<length records. bi_prev (map entry_of_record (sort_key bir_height records) ! i) = None \<and>
      bi_skip (map entry_of_record (sort_key bir_height records) ! i) = None"
    by (simp add: entry_of_record_def bi_new_def)
  ultimately show ?thesis using c unfolding raw_ok_def by (simp only: length_map length_sort)
qed

lemma best_valid_in_range:
  assumes "best_valid a = Some (i, w)"
  shows "i < length a \<and> w = bi_chain_work (a ! i)"
proof -
  let ?f = "\<lambda>(best, work) i. if bi_is_valid (a ! i) VALID_SCRIPTS \<and> au_compare_to (bi_chain_work (a ! i)) work = Greater
    then (Some (i, bi_chain_work (a ! i)), bi_chain_work (a ! i)) else (best, work)"
  have "\<forall>i w. fst (foldl ?f (None, au_zero) [0..<n]) = Some (i, w) \<longrightarrow> i < n \<and> w = bi_chain_work (a ! i)" for n
    by (induction n) (auto simp: case_prod_beta less_Suc_eq)
  then show ?thesis using assms by (simp add: best_valid_def)
qed

text \<open>A manager that loads the stored index of a manager in a good state is in a good state.\<close>

lemma load_block_index_ok:
  assumes "mgr_ok mgr" "named_parents (mgr_arena mgr)" "stored_index (mgr_arena mgr) records"
  shows "mgr_ok (load_block_index records (mgr_new params genesis best)) \<and>
    named_parents (mgr_arena (load_block_index records (mgr_new params genesis best)))"
proof (cases "records = []")
  case True
  then show ?thesis by (simp add: load_block_index_def mgr_new_ok) (simp add: mgr_new_def bm_new_def named_parents_def)
next
  case False
  let ?a = "mgr_arena mgr" and ?s = "sort_key bir_height records" and ?m = "mgr_new params genesis best"
  let ?bm = "foldl (\<lambda>bm r. snd (bm_insert bm (entry_of_record r))) bm_new ?s" and ?b = "map entry_of_record ?s"
  have ix: "index_ok (mgr_block_index mgr)" using assms(1) by (simp add: mgr_ok_def)
  have "distinct (map bir_block_hash records)" using assms(3) by (simp add: stored_index_def)
  then have "distinct (map bir_block_hash ?s)" by (simp add: distinct_map)
  then have ins: "bm_indices ?bm = ?b" "hashes_ok ?bm" using insert_records by blast+
  have "i = j" if "i < length ?a" "j < length ?a" "bi_block_hash (?a ! i) = bi_block_hash (?a ! j)" for i j
    using ix that by (metis index_ok_def hashes_ok_def option.inject)
  then have "distinct (map bi_block_hash ?a)" by (simp add: distinct_conv_nth) blast
  then have st: "stored_ok ?a" using ix assms(2,3) by (simp add: stored_ok_def index_ok_def stored_index_def)
  have bm: "?bm = \<lparr>bm_indices = ?b, bm_by_hash = bm_by_hash ?bm\<rparr>" using ins(1) by simp
  have "hashes_ok \<lparr>bm_indices = ?b, bm_by_hash = bm_by_hash ?bm\<rparr>" using ins(2) by (subst (asm) bm)
  note all = resolve_all [OF st stored_raw [OF ix assms(3)] this order_refl, folded bm]
  obtain p where p: "fold resolve_links [0..<length ?b] ?bm = \<lparr>bm_indices = p, bm_by_hash = bm_by_hash ?bm\<rparr>"
    "linked_ok ?a p" "map core p = map core ?b" using all by auto
  have len: "length p = length ?b" using arg_cong [OF p(3), of length] by simp
  have nth: "bi_block_hash (p ! i) = bi_block_hash (?b ! i)" if "i < length ?b" for i
    using arg_cong [OF p(3), of "\<lambda>l. l ! i"] that len by (simp add: core_def)
  let ?bm' = "\<lparr>bm_indices = p, bm_by_hash = bm_by_hash ?bm\<rparr>" and ?m' = "?m\<lparr>mgr_block_index := \<lparr>bm_indices = p, bm_by_hash = bm_by_hash ?bm\<rparr>\<rparr>"
  have "hashes_ok ?bm'" using ins nth len by (auto simp: hashes_ok_def)
  then have ix': "index_ok ?bm'" and named: "named_parents p" using p(2) by (simp_all add: index_ok_def linked_ok_def)
  have chain: "mgr_chain ?m' = []" by (simp add: mgr_new_def chainstate_new_def)
  have ok: "mgr_ok (?m'\<lparr>mgr_best_valid_tip := best_valid p\<rparr>)"
    using ix' best_valid_in_range [of p] by (simp add: mgr_ok_def chain_ok_def mgr_new_def chainstate_new_def)
  have fin: "load_block_index records ?m = (case best_valid p of None \<Rightarrow> ?m' | Some (b, w) \<Rightarrow>
      let m = ?m'\<lparr>mgr_best_valid_tip := Some (b, w)\<rparr> in put_chain (chain_set_tip_with (mgr_chain m) b (bi_height (p ! b)) (mgr_parent m)) m)"
  proof -
    have "mgr_block_index ?m = bm_new" "bm_len ?bm = length ?b" using ins(1) by (simp_all add: mgr_new_def bm_len_def)
    then show ?thesis using False unfolding load_block_index_def Let_def by (simp only: p(1)) (simp add: bm_get_def split: option.split)
  qed
  show ?thesis
  proof (cases "best_valid p")
    case None
    then have "?m' = ?m'\<lparr>mgr_best_valid_tip := best_valid p\<rparr>" by (simp add: mgr_new_def)
    then show ?thesis using ok fin None named by simp
  next
    case (Some bw)
    obtain b w where bw: "bw = (b, w)" by fastforce
    let ?n = "?m'\<lparr>mgr_best_valid_tip := Some (b, w)\<rparr>"
    have b: "b < length p" using best_valid_in_range Some bw by simp
    have a: "arena_ok p" using ix' by (simp add: index_ok_def)
    have "chain_set_tip_with (mgr_chain ?n) b (bi_height (p ! b)) (mgr_parent ?n) = path_to p b"
      using set_tip_with_path [OF a b, of "[]"] chain by (simp add: mgr_parent_of chain_ok_def)
    then have "load_block_index records ?m = put_chain (path_to p b) ?n" using fin Some bw by (simp add: Let_def)
    moreover have "mgr_ok (put_chain (path_to p b) ?n)"
      using put_chain_ok [of ?n "path_to p b"] ok Some bw path_to_facts(3) [OF a b] by simp
    ultimately show ?thesis using named by (simp add: put_chain_def)
  qed
qed

end
