(* ===== verification/ChainActivation.thy ===== *)
theory ChainActivation
  imports IndexLoad
begin

text \<open>
  What the manager of the chain state does with a block: the block on top of the active chain, the block whose reward is too high,
  the block beside the active chain, and the blocks whose scripts are not checked. The examples run the manager of the main
  network over a database without coins.
\<close>

section \<open>An example: a block above the first\<close>

definition paying_coinbase :: "amount \<Rightarrow> transaction" where
  "paying_coinbase v = height_coinbase\<lparr>tx_vout := [\<lparr>out_value = v, out_script_pubkey = [OpDup]\<rparr>]\<rparr>"

definition second_block :: "amount \<Rightarrow> block" where
  "second_block v = \<lparr>blk_header = header_new\<lparr>hdr_version := 1, hdr_bits := 0x1d00ffff, hdr_time := 1,
     hdr_merkle_root := txid pad_crypto (paying_coinbase v)\<rparr>, blk_vtx = [paying_coinbase v]\<rparr>"

definition start_entry :: block_index where
  "start_entry = the (genesis_entry pad_crypto first_block)"

definition start_mgr :: chainstate_manager where
  "start_mgr = (mgr_new mainnet (replicate 32 0) ZERO_HASH)\<lparr>mgr_block_index := \<lparr>bm_indices = [start_entry], bm_by_hash = [replicate 32 0 \<mapsto> 0]\<rparr>,
     mgr_active_chainstate := \<lparr>chs_chain = [0], chs_coins_tip = cache_new ZERO_HASH\<rparr>,
     mgr_best_valid_tip := Some (0, bi_chain_work start_entry)\<rparr>"

lemma start_entry_facts:
  "genesis_entry pad_crypto first_block = Some start_entry" "bi_prev start_entry = None" "bi_skip start_entry = None" "bi_height start_entry = 0"
  "bi_block_hash start_entry = replicate 32 0" "au_ok (bi_chain_work start_entry)" "bi_time start_entry = 0" "bi_bits start_entry = 0x1d00ffff"
  "\<not> st_has_failed (bi_status start_entry)" "get_bits_proof 0x1d00ffff = Inr (bi_chain_work start_entry)"
proof -
  obtain p where p: "get_bits_proof 0x1d00ffff = Inr p" using bits_proof_value by blast
  have bits: "hdr_bits (blk_header first_block) = 0x1d00ffff" "hdr_time (blk_header first_block) = 0" by (simp_all add: first_block_def header_new_def)
  show g: "genesis_entry pad_crypto first_block = Some start_entry"
    using p bits by (simp add: start_entry_def genesis_entry_def get_block_proof_def bi_from_header_def)
  note f = genesis_entry_facts [OF g]
  show "bi_prev start_entry = None" "bi_skip start_entry = None" "bi_height start_entry = 0" "au_ok (bi_chain_work start_entry)"
    "bi_block_hash start_entry = replicate 32 0" using f first_hash by simp_all
  show "bi_time start_entry = 0" "bi_bits start_entry = 0x1d00ffff" "get_bits_proof 0x1d00ffff = Inr (bi_chain_work start_entry)"
    "\<not> st_has_failed (bi_status start_entry)"
    using p bits
    by (simp_all add: start_entry_def genesis_entry_def get_block_proof_def bi_from_header_def insert_status_def raise_status_def st_has_failed_def st_insert_def
        st_raise_validity_def st_validity_def VALID_MASK_def VALID_SCRIPTS_def FAILED_VALID_def FAILED_CHILD_def FAILED_MASK_def HAVE_DATA_def)
qed

lemma start_work: "0 < unat (au_word (bi_chain_work start_entry))"
  "unat (au_word (bi_chain_work start_entry)) + unat (au_word (bi_chain_work start_entry)) < 2 ^ 256"
proof -
  have "compact_value 0x1d00ffff = 0xffff * 256 ^ 26" "\<not> bit (0x1d00ffff :: u32) 23" by (simp_all add: compact_value_def)
  then have "unat (au_word (bi_chain_work start_entry)) = 2 ^ 256 div (0xffff * 256 ^ 26 + 1)"
    using bits_proof_value [of "0x1d00ffff"] start_entry_facts(10) by auto
  then show "0 < unat (au_word (bi_chain_work start_entry))"
    "unat (au_word (bi_chain_work start_entry)) + unat (au_word (bi_chain_work start_entry)) < 2 ^ 256" by simp_all
qed

lemma start_mgr_ok: "mgr_ok start_mgr"
  using start_entry_facts
  by (auto simp: mgr_ok_def start_mgr_def mgr_new_def index_ok_def arena_ok_def entry_ok_def times_ok_def work_ok_def hashes_ok_def chain_ok_def)

lemma second_hash: "header_block_hash pad_crypto (blk_header (second_block v)) = 1 # replicate 31 0"
proof -
  have b: "to_le_bytes (1 :: i32) = 1 # replicate 3 0" by code_simp
  have "serialize encode_header (blk_header (second_block v)) = (1 # replicate 35 0) @ drop 36 (serialize encode_header (blk_header (second_block v)))"
    by (simp add: serialize_def encode_header_def encode_i32_def b second_block_def header_new_def encode_hash_def ZERO_HASH_def
        flip: replicate_add)
  moreover have "pad_to 32 ((1 # replicate 35 0) @ r) = 1 # replicate 31 0" for r by (simp add: pad_to_def)
  ultimately show ?thesis by (metis header_block_hash_def pad_hash256)
qed

lemma second_hash_new: "1 # replicate 31 (0 :: u8) \<noteq> replicate 32 0"
  by (simp add: numeral_eq_Suc)

lemma second_work: "check_proof_of_work (1 # replicate 31 0) 0x1d00ffff mainnet"
proof -
  have "compact_value 0x1d00ffff = 0xffff * 256 ^ 26" "\<not> bit (0x1d00ffff :: u32) 23" by (simp_all add: compact_value_def)
  moreover have "le_nat (pow_limit mainnet) = 2 ^ 224 - 1"
    by (simp add: mainnet_def hash_lit_def le_nat_to_le_bytes)
  ultimately show ?thesis
    using check_proof_of_work_iff [of "1 # replicate 31 0" mainnet "0x1d00ffff"] networks_ok
    by (simp add: params_ok_def le_nat_zeros)
qed


lemma paying_coinbase_size: "length (serialize_transaction (paying_coinbase v) b) = 63"
proof -
  have "\<not> has_witness (paying_coinbase v)" by (simp add: has_witness_def paying_coinbase_def height_coinbase_def)
  then show ?thesis
    by (simp add: serialize_transaction_def serialize_plain encode_vec_def encode_tx_in_def encode_tx_out_def encode_outpoint_def
        encode_script_def encode_bytes_def encode_hash_def encode_u32_def encode_i64_def write_compact_size_def paying_coinbase_def height_coinbase_def)
qed

lemma paying_coinbase_ok:
  shows "is_coinbase (paying_coinbase v)" "get_legacy_sigop_count (paying_coinbase v) = 0" "get_value_out (paying_coinbase v) = v"
    "0 \<le> sint v \<Longrightarrow> sint v \<le> MAX_MONEY \<Longrightarrow> connectable_tx (paying_coinbase v)"
proof -
  show cb: "is_coinbase (paying_coinbase v)"
    by (simp add: paying_coinbase_def height_coinbase_def is_coinbase_def outpoint_is_null_def NULL_INDEX_def ZERO_HASH_def list_all_iff)
  have "get_legacy_sigop_count (paying_coinbase v) = get_legacy_sigop_count height_coinbase"
    by (simp add: get_legacy_sigop_count_def paying_coinbase_def height_coinbase_def)
  then show "get_legacy_sigop_count (paying_coinbase v) = 0" by (simp add: first_tx_sigops)
  show "get_value_out (paying_coinbase v) = v" by (simp add: get_value_out_def paying_coinbase_def)
  assume "0 \<le> sint v" "sint v \<le> MAX_MONEY"
  then have "tx_rules (paying_coinbase v)"
    using cb paying_coinbase_size by (simp add: tx_rules_def MAX_BLOCK_WEIGHT_def) (simp add: paying_coinbase_def height_coinbase_def)
  then show "connectable_tx (paying_coinbase v)" by (simp add: connectable_tx_def check_transaction_ok)
qed

lemma second_block_checked:
  assumes "0 \<le> sint v" "sint v \<le> MAX_MONEY"
  shows "check_block pad_crypto example_secp (second_block v) mainnet st True = (True, st)"
proof -
  have vtx: "blk_vtx (second_block v) = [paying_coinbase v]" by (simp add: second_block_def)
  have pow: "check_block_header pad_crypto (blk_header (second_block v)) mainnet st = (True, st)" for st
    using second_work second_hash by (simp add: check_block_header_def) (simp add: second_block_def header_new_def)
  have root: "block_merkle_root pad_crypto [paying_coinbase v] = (hdr_merkle_root (blk_header (second_block v)), False)"
    by (simp add: block_merkle_root_def compute_merkle_root_def merkle_loop.simps second_block_def)
  have size: "length (serialize encode_block (second_block v)) \<le> MAX_BLOCK_SERIALIZED_SIZE" "compute_block_weight (second_block v) \<le> MAX_BLOCK_WEIGHT"
  proof -
    have "length (serialize encode_block (second_block v)) = 144" "compute_block_weight (second_block v) = 576"
      using paying_coinbase_size [of v True] paying_coinbase_size [of v False]
      by (simp_all add: serialize_def encode_block_def vtx encode_header_def encode_i32_def encode_u32_def encode_hash_def
          write_compact_size_def compute_block_weight_def val_compact_size_len_def serialize_transaction_def WITNESS_SCALE_FACTOR_def)
        (simp add: second_block_def header_new_def ZERO_HASH_def txid_def pad_hash256 pad_to_def)
    then show "length (serialize encode_block (second_block v)) \<le> MAX_BLOCK_SERIALIZED_SIZE" "compute_block_weight (second_block v) \<le> MAX_BLOCK_WEIGHT"
      by (simp_all add: MAX_BLOCK_SERIALIZED_SIZE_def MAX_BLOCK_WEIGHT_def)
  qed
  have txs: "check_transactions [paying_coinbase v] 0 = Inr 0"
    using paying_coinbase_ok(2,4) [of v] assms
    by (cases "check_transaction (paying_coinbase v) (vs_new TxUnset)") (simp add: connectable_tx_def)
  show ?thesis
    using paying_coinbase_ok(1) size txs by (simp add: check_block_def pow vtx root MAX_BLOCK_SIGOPS_COST_def) (simp add: mainnet_def)
qed

lemma second_header_accepted:
  assumes "mgr_arena mgr = start_entry # rest" "mgr_consensus mgr = mainnet" "bm_by_hash (mgr_block_index mgr) (replicate 32 0) = Some 0"
    "bm_by_hash (mgr_block_index mgr) (1 # replicate 31 0) = None"
  shows "\<exists>m. accept_block_header pad_crypto 0 mgr (blk_header (second_block v)) = Some (Inr (Suc (length rest)), m)"
proof -
  let ?h = "blk_header (second_block v)" and ?st = "vs_new BlockUnset" and ?a = "start_entry # rest"
  have hd: "hdr_prev_blockhash ?h = replicate 32 0" "hdr_bits ?h = 0x1d00ffff" "hdr_time ?h = 1" "hdr_version ?h = 1"
    by (simp_all add: second_block_def header_new_def ZERO_HASH_def)
  have pow: "check_block_header pad_crypto ?h mainnet ?st = (True, ?st)"
    using second_work second_hash hd by (simp add: check_block_header_def)
  have mtp: "compute_mtp ?a 0 = 0"
    using start_entry_facts
    by (simp add: compute_mtp_def collect_mtp_ancestors_def MEDIAN_TIME_SPAN_def eval_nat_numeral get_median_time_past_def bi_get_block_time_def Let_def)
  have da: "difficulty_adjustment_interval mainnet = 2016" "pow_allow_min_difficulty_blocks mainnet = False"
    by (simp_all add: difficulty_adjustment_interval_def mainnet_def)
  then have iv: "interval_i32 mainnet = 2016" by (simp add: interval_i32_def)
  have sm: "(1 :: int) smod 2016 = 1" by code_simp
  have bits: "expected_bits ?h start_entry mainnet (Some (?a, 0)) = Some 0x1d00ffff"
    using start_entry_facts iv da sm
    by (simp add: expected_bits_def period_first_def last_non_special_bits_def get_next_work_required_def Let_def)
  have ctx: "contextual_check_block_header_with_arena 0 ?h start_entry mainnet ?st (Some (?a, 0)) = Some (True, ?st)"
    using hd bits mtp start_entry_facts(4)
    by (simp add: contextual_check_block_header_with_arena_def Let_def parent_mtp_def MAX_FUTURE_BLOCK_TIME_def)
      (simp add: mainnet_def)
  obtain e where "child_entry pad_crypto start_entry 0 ?h = Some e"
    using start_entry_facts(10) hd(2) by (simp add: child_entry_def get_block_proof_def bi_from_header_def)
  then show ?thesis
    using assms pow ctx hd(1) second_hash start_entry_facts(9)
    by (simp add: accept_block_header_def bm_find_by_hash_def bm_get_def bm_insert_def Let_def)
qed

text \<open>The checks of the block and its connection, which the reward decides, over a manager without coins.\<close>

lemma second_block_connects:
  fixes m0 :: chainstate_manager and idx :: nat and v :: amount
  defines "m \<equiv> record_block idx (second_block v) m0" and "b \<equiv> db_get_coin (\<lambda>_. None) example_db"
  assumes "0 \<le> sint v" "sint v \<le> MAX_MONEY" "accept_block_header pad_crypto 0 mgr (blk_header (second_block v)) = Some (Inr idx, m0)"
    "\<And>h. chain_get_block_index (mgr_chain m0) h \<noteq> Some idx" "mgr_consensus m0 = mainnet" "mgr_consensus m = mainnet" "mgr_coins m = cache_new ZERO_HASH"
    "bi_prev (mgr_arena m ! idx) = Some 0" "bi_height (mgr_arena m ! 0) = 0" "bi_height (mgr_arena m ! idx) = 1"
  shows "process_new_block pad_crypto example_secp b 0 mgr (second_block v) = connect_new_block pad_crypto example_secp b idx (second_block v) m"
    "\<exists>r cc. connect_block pad_crypto example_secp b (second_block v) (bi_height (mgr_arena m ! idx)) (mgr_coins m) (mgr_consensus m)
       (Some (mtp_lookup (uint (hdr_time (blk_header (second_block v)))) m)) (should_skip_scripts m idx) = Some (r, cc) \<and>
      (if sint v \<le> 5000000000 then r = Inr \<lparr>bu_tx_undo = []\<rparr> else \<exists>e. r = Inl e \<and> vs_reject_reason e = ''bad-cb-amount'')"
proof -
  let ?C = pad_crypto and ?blk = "second_block v" and ?st = "vs_new BlockUnset"
  have vtx: "blk_vtx ?blk = [paying_coinbase v]" by (simp add: second_block_def)
  have "val_check_lock_time (paying_coinbase v) 1 t" for t
    by (simp add: val_check_lock_time_def paying_coinbase_def height_coinbase_def)
  then have "contextual_check_block ?C ?blk (bi_height (mgr_arena m ! 0)) t mainnet ?st = (True, ?st)" for t
    by (simp add: contextual_check_block_def Let_def vtx assms(11)) (simp add: mainnet_def)
  then have ctx: "check_in_context ?C idx ?blk ?st m = (True, ?st)"
    using assms(8,10) by (simp add: check_in_context_def mgr_parent_def bm_get_def)
  show "process_new_block ?C example_secp b 0 mgr ?blk = connect_new_block ?C example_secp b idx ?blk m"
    using assms(5-7) second_block_checked [OF assms(3,4)] ctx by (simp add: process_new_block_def m_def)
  have empty: "cache_sound b (mgr_coins m)" "cache_view b (mgr_coins m) = (\<lambda>_. None)"
    using assms(9) by (simp_all add: b_def cache_view_new fun_eq_iff example_db_facts)
  have "(1 :: int) sdiv 210000 = 0" by code_simp
  then have "get_block_subsidy 1 mainnet = Some 5000000000" by (simp add: get_block_subsidy_def mainnet_def COIN_def)
  then have sub: "get_block_subsidy (bi_height (mgr_arena m ! idx)) (mgr_consensus m) = Some 5000000000" using assms(8,12) by simp
  show "\<exists>r cc. connect_block pad_crypto example_secp b (second_block v) (bi_height (mgr_arena m ! idx)) (mgr_coins m) (mgr_consensus m)
       (Some (mtp_lookup (uint (hdr_time (blk_header (second_block v)))) m)) (should_skip_scripts m idx) = Some (r, cc) \<and>
      (if sint v \<le> 5000000000 then r = Inr \<lparr>bu_tx_undo = []\<rparr> else \<exists>e. r = Inl e \<and> vs_reject_reason e = ''bad-cb-amount'')"
    using db_base.connect_coinbase_only [OF empty(1) [unfolded b_def] vtx paying_coinbase_ok(1) paying_coinbase_ok(4) [OF assms(3,4)] paying_coinbase_ok(2) _ sub,
        of ?C example_secp "Some (mtp_lookup (uint (hdr_time (blk_header ?blk))) m)" "should_skip_scripts m idx"] empty(2) paying_coinbase_ok(3)
    unfolding b_def by simp
qed

lemma start_facts:
  "mgr_tip start_mgr = Some 0" "mgr_best_valid_tip start_mgr = Some (0, bi_chain_work start_entry)" "bm_len (mgr_block_index start_mgr) = 1"
  "mgr_chain start_mgr = [0]" "mgr_height start_mgr = 0"
  "hdr_prev_blockhash (blk_header (second_block v)) = bi_block_hash (bm_get (mgr_block_index start_mgr) 0)"
  "lookup_block_index start_mgr (header_block_hash pad_crypto (blk_header (second_block v))) = None"
  "get_header_proof (blk_header (second_block v)) = Inr (bi_chain_work start_entry)"
  "cache_sound (db_get_coin D example_db) (mgr_coins start_mgr)" "cache_view (db_get_coin D example_db) (mgr_coins start_mgr) = (\<lambda>_. None)"
  "outputs_fresh C txs (cache_view (db_get_coin D example_db) (mgr_coins start_mgr))"
proof -
  have h: "hdr_prev_blockhash (blk_header (second_block v)) = replicate 32 0" "hdr_bits (blk_header (second_block v)) = 0x1d00ffff"
    by (simp_all add: second_block_def header_new_def ZERO_HASH_def)
  show "mgr_tip start_mgr = Some 0" "mgr_best_valid_tip start_mgr = Some (0, bi_chain_work start_entry)" "bm_len (mgr_block_index start_mgr) = 1"
    "mgr_chain start_mgr = [0]" "mgr_height start_mgr = 0"
    "hdr_prev_blockhash (blk_header (second_block v)) = bi_block_hash (bm_get (mgr_block_index start_mgr) 0)"
    "lookup_block_index start_mgr (header_block_hash pad_crypto (blk_header (second_block v))) = None"
    "get_header_proof (blk_header (second_block v)) = Inr (bi_chain_work start_entry)"
    using h start_entry_facts(5,10) second_hash second_hash_new
    by (simp_all add: start_mgr_def mgr_new_def mgr_tip_def chain_tip_def mgr_height_def chain_height_def bm_len_def bm_get_def lookup_block_index_def
        bm_find_by_hash_def get_header_proof_def)
  show "cache_sound (db_get_coin D example_db) (mgr_coins start_mgr)" and e: "cache_view (db_get_coin D example_db) (mgr_coins start_mgr) = (\<lambda>_. None)"
    by (simp_all add: start_mgr_def cache_view_new fun_eq_iff example_db_facts)
  show "outputs_fresh C txs (cache_view (db_get_coin D example_db) (mgr_coins start_mgr))" unfolding e by (simp add: outputs_fresh_def)
qed

lemma second_block_processed:
  assumes "0 \<le> sint v" "sint v \<le> MAX_MONEY"
  shows "\<exists>r mgr'. process_new_block pad_crypto example_secp (db_get_coin (\<lambda>_. None) example_db) 0 start_mgr (second_block v) = Some (r, mgr') \<and>
    (if sint v \<le> 5000000000 then \<exists>x. r = Inr x else \<exists>e. r = Inl e \<and> vs_reject_reason e = ''bad-cb-amount'')"
proof -
  let ?blk = "second_block v" and ?b = "db_get_coin (\<lambda>_. None) example_db"
  have s: "mgr_arena start_mgr = [start_entry]" "mgr_consensus start_mgr = mainnet" "mgr_coins start_mgr = cache_new ZERO_HASH"
    "bm_by_hash (mgr_block_index start_mgr) = [replicate 32 0 \<mapsto> 0]"
    by (simp_all add: start_mgr_def mgr_new_def)
  obtain m0 where ac: "accept_block_header pad_crypto 0 start_mgr (blk_header ?blk) = Some (Inr 1, m0)"
    using second_header_accepted [of start_mgr "[]"] s second_hash_new by auto
  let ?m = "record_block 1 ?blk m0"
  note m = recorded_child [OF start_mgr_ok start_facts(1,2) start_facts(6) [unfolded bm_get_def] start_facts(7) [unfolded lookup_block_index_def]
      start_facts(8) start_work ac]
  have notin: "chain_get_block_index (mgr_chain m0) h \<noteq> Some 1" for h
    using accept_block_header_cases(4) [OF start_mgr_ok ac] start_facts(4) by (auto simp: chain_get_block_index_def)
  have h0: "bi_height (mgr_arena ?m ! 0) = 0"
    using arena_prev(2) [of "mgr_arena ?m" 1 0] m(2,3,10,11) start_facts(5) by (simp add: mgr_ok_def index_ok_def)
  note c = second_block_connects [OF assms ac notin m(9) [unfolded s] m(8) [unfolded s] m(6) [unfolded s] m(10) h0]
  show ?thesis
  proof (cases "sint v \<le> 5000000000")
    case True
    then show ?thesis
      using connect_new_block_child [OF m(2-4,10,5,14), of pad_crypto example_secp ?b ?blk "\<lparr>bu_tx_undo = []\<rparr>"] c m(11) start_facts(5) by fastforce
  next
    case False
    then show ?thesis using connect_new_block_err [of pad_crypto example_secp ?b ?blk ?m 1] c m(11) start_facts(5) by fastforce
  qed
qed

text \<open>C2: A block on top of the active chain extends it. If the manager is at its best tip and a new block names this tip as
  its parent, has work of its own, and the total work fits 256 bits, then \<open>process_new_block\<close> either rejects the
  block and leaves the active chain, the best tip and their order as they are, or it appends exactly this block to the active chain,
  makes it the best tip, and the unspent outputs become those that the transactions of the block leave.\<close>

theorem block_extends_tip:
  fixes D :: decompress_key and db :: db_wrapper
  defines "base \<equiv> db_get_coin D db"
  assumes "mgr_ok mgr" "mgr_tip mgr = Some tip" "mgr_best_valid_tip mgr = Some (tip, w)"
    "hdr_prev_blockhash (blk_header blk) = bi_block_hash (bm_get (mgr_block_index mgr) tip)"
    "lookup_block_index mgr (header_block_hash C (blk_header blk)) = None"
    "get_header_proof (blk_header blk) = Inr p" "0 < unat (au_word p)" "unat (au_word w) + unat (au_word p) < 2 ^ 256"
    "cache_sound base (mgr_coins mgr)"
    "enforce_bip30 (header_block_hash C (blk_header blk)) (mgr_height mgr + 1) (mgr_consensus mgr) \<or>
      outputs_fresh C (blk_vtx blk) (cache_view base (mgr_coins mgr))"
    "process_new_block C K base now mgr blk = Some (r, mgr')"
  shows "case r of
      Inl e \<Rightarrow> mgr_chain mgr' = mgr_chain mgr \<and> mgr_best_valid_tip mgr' = mgr_best_valid_tip mgr
    | Inr (active, undo) \<Rightarrow> active \<and> mgr_chain mgr' = mgr_chain mgr @ [bm_len (mgr_block_index mgr)] \<and>
        mgr_best_valid_tip mgr' = Some (bm_len (mgr_block_index mgr), au_add w p) \<and>
        bi_block_hash (bm_get (mgr_block_index mgr') (bm_len (mgr_block_index mgr))) = header_block_hash C (blk_header blk) \<and>
        cc_best_block (mgr_coins mgr') = header_block_hash C (blk_header blk) \<and>
        cache_view base (mgr_coins mgr') = fold (apply_tx C (mgr_height mgr + 1)) (blk_vtx blk) (cache_view base (mgr_coins mgr))"
proof -
  obtain r0 m0 where ac: "accept_block_header C now mgr (blk_header blk) = Some (r0, m0)"
    using assms(12) by (cases "accept_block_header C now mgr (blk_header blk)") (auto simp: process_new_block_def)
  note acc = accept_block_header_cases [OF assms(2) ac]
  show ?thesis
  proof (cases r0)
    case (Inl e)
    then show ?thesis using assms(12) ac acc(4,5) by (auto simp: process_new_block_def)
  next
    case (Inr idx)
    let ?m = "record_block idx blk m0"
    have new: "bm_find_by_hash (mgr_block_index mgr) (header_block_hash C (blk_header blk)) = None"
      using assms(6) by (simp add: lookup_block_index_def)
    note m = recorded_child [OF assms(2-4) assms(5) [unfolded bm_get_def] new assms(7-9) ac [unfolded Inr]]
    have notin: "chain_get_block_index (mgr_chain m0) hx \<noteq> Some idx" for hx
      using new_entry_status [OF ac [unfolded Inr] _ new] acc(4) assms(2) by (simp add: mgr_ok_def)
    from process_new_block_cases [OF assms(12) ac [unfolded Inr]] notin
    consider (bad) st where "r = Inl st" "mgr' = mark_failed idx m0 \<or> mgr' = mark_failed idx ?m"
      | (con) st where "fst (check_block C K blk (mgr_consensus mgr) st True)" "connect_new_block C K base idx blk ?m = Some (r, mgr')"
      using m(9) by auto
    then show ?thesis
    proof cases
      case bad
      then show ?thesis using acc(4,5) m(5,7) assms(4) by (auto simp: mark_failed_same)
    next
      case con
      let ?c = "connect_block C K base blk (bi_height (mgr_arena ?m ! idx)) (mgr_coins ?m) (mgr_consensus ?m)
        (Some (mtp_lookup (uint (hdr_time (blk_header blk))) ?m)) (should_skip_scripts ?m idx)"
      obtain rc cc where c: "?c = Some (rc, cc)"
        using con(2) by (cases ?c) (auto simp: connect_new_block_def bm_get_def Let_def)
      show ?thesis
      proof (cases rc)
        case (Inl err)
        then show ?thesis using connect_new_block_err [OF c [unfolded Inl]] con(2) m(5,7) assms(4) by (auto simp: mark_failed_same put_coins_same)
      next
        case (Inr undo)
        have res: "r = Inr (True, Some undo)" "mgr' = extended idx cc ?m"
          using connect_new_block_child [OF m(2-4,10,5,14) c [unfolded Inr]] con(2) by auto
        have blk: "\<forall>tx\<in>set (blk_vtx blk). connectable_tx tx" "distinct (map (txid C) (blk_vtx blk))"
          using check_block_accepted [OF con(1)] by auto
        have "cache_view base cc = fold (apply_tx C (mgr_height mgr + 1)) (blk_vtx blk) (cache_view base (mgr_coins mgr))"
          using db_base.connect_block_correct [OF assms(10) [unfolded base_def] blk assms(11) [unfolded base_def]]
            c [unfolded Inr m(6,8,11) base_def] unfolding base_def by blast
        then show ?thesis
          using res extended_same [OF m(2,3,5,14)] m by (simp add: bm_len_def bm_get_def set_best_block_def cache_view_def)
      qed
    qed
  qed
qed

theorem block_extends_tip_witness:
  "\<exists>undo mgr'. process_new_block pad_crypto example_secp (db_get_coin (\<lambda>_. None) example_db) 0 start_mgr (second_block 5000000000) =
     Some (Inr (True, undo), mgr') \<and> mgr_chain mgr' = [0, 1] \<and>
     cache_view (db_get_coin (\<lambda>_. None) example_db) (mgr_coins mgr') = apply_tx pad_crypto 1 (paying_coinbase 5000000000) (\<lambda>_. None)"
proof -
  obtain x mgr' where p: "process_new_block pad_crypto example_secp (db_get_coin (\<lambda>_. None) example_db) 0 start_mgr (second_block 5000000000) =
      Some (Inr x, mgr')"
    using second_block_processed [of 5000000000] by (auto simp: MAX_MONEY_value)
  obtain a u where x: "x = (a, u)" by fastforce
  have vtx: "blk_vtx (second_block 5000000000) = [paying_coinbase 5000000000]" by (simp add: second_block_def)
  show ?thesis
    using block_extends_tip [OF start_mgr_ok start_facts(1,2,6-8) start_work start_facts(9) disjI2 [OF start_facts(11)] p]
    by (simp add: p x start_facts vtx)
qed

lemma accept_block_header_reason:
  assumes "accept_block_header C now mgr header = Some (Inl e, mgr')"
  shows "vs_reject_reason e \<noteq> ''bad-cb-amount''"
proof -
  have ctx: "vs_reject_reason st' \<noteq> ''bad-cb-amount''"
    if "contextual_check_block_header_with_arena now header pindex params st x = Some (False, st')" for pindex params st st' x
    using that by (auto simp: contextual_check_block_header_with_arena_def Let_def vs_invalid_def split: if_splits option.splits)
  have chk: "vs_reject_reason st' \<noteq> ''bad-cb-amount''" if "check_block_header C header params st = (False, st')" for params st st'
    using that by (auto simp: check_block_header_def vs_invalid_def split: if_splits)
  have fail: "vs_reject_reason (header_fail r d) = r" for r d by (simp add: header_fail_def vs_invalid_def)
  show ?thesis
    using assms by (auto simp: accept_block_header_def bm_insert_def Let_def fail dest: ctx chk split: option.splits if_splits prod.splits bool.splits)
qed

lemma check_in_context_reason:
  assumes "check_in_context C idx blk st mgr = (False, e)"
  shows "vs_reject_reason e \<noteq> ''bad-cb-amount''"
  using assms by (auto simp: check_in_context_def contextual_check_block_def Let_def vs_invalid_def split: option.splits if_splits)

text \<open>C39: A block that is rejected for its reward still changes the unspent outputs. \<open>connect_block\<close> works on the cache of the
  manager itself and compares the reward last; \<open>process_new_block\<close> then marks the block as failed and returns the error, but nothing
  takes the changes back: the cache is left with all inputs of the block spent and all its outputs added, over the
  active chain from before.\<close>

theorem rejected_block_changes_coins:
  fixes D :: decompress_key and db :: db_wrapper
  defines "base \<equiv> db_get_coin D db"
  assumes "mgr_ok mgr" "mgr_tip mgr = Some tip" "mgr_best_valid_tip mgr = Some (tip, w)"
    "hdr_prev_blockhash (blk_header blk) = bi_block_hash (bm_get (mgr_block_index mgr) tip)"
    "lookup_block_index mgr (header_block_hash C (blk_header blk)) = None"
    "get_header_proof (blk_header blk) = Inr p" "0 < unat (au_word p)" "unat (au_word w) + unat (au_word p) < 2 ^ 256"
    "cache_sound base (mgr_coins mgr)" "outputs_fresh C (blk_vtx blk) (cache_view base (mgr_coins mgr))"
    "fst (check_block C K blk (mgr_consensus mgr) (vs_new BlockUnset) True)"
    "process_new_block C K base now mgr blk = Some (Inl e, mgr')" "vs_reject_reason e = ''bad-cb-amount''"
  shows "mgr_chain mgr' = mgr_chain mgr \<and>
    cache_view base (mgr_coins mgr') = fold (apply_tx C (mgr_height mgr + 1)) (blk_vtx blk) (cache_view base (mgr_coins mgr))"
proof -
  obtain idx m0 where ac: "accept_block_header C now mgr (blk_header blk) = Some (Inr idx, m0)"
    using assms(13,14) accept_block_header_reason [of C now mgr "blk_header blk" e mgr']
    by (auto simp: process_new_block_def split: option.splits sum.splits)
  let ?m = "record_block idx blk m0"
  have new: "bm_find_by_hash (mgr_block_index mgr) (header_block_hash C (blk_header blk)) = None"
    using assms(6) by (simp add: lookup_block_index_def)
  note m = recorded_child [OF assms(2-4) assms(5) [unfolded bm_get_def] new assms(7-9) ac]
  obtain st where cb: "check_block C K blk (mgr_consensus m0) (vs_new BlockUnset) True = (True, st)"
    using assms(12) m(9) by (metis prod.collapse)
  obtain ok st' where ctx: "check_in_context C idx blk st ?m = (ok, st')" by fastforce
  then have con: "connect_new_block C K base idx blk ?m = Some (Inl e, mgr')"
    using assms(13,14) ac cb check_in_context_reason [of C idx blk st ?m st'] by (auto simp: process_new_block_def Let_def split: if_splits)
  let ?c = "connect_block C K base blk (bi_height (mgr_arena ?m ! idx)) (mgr_coins ?m) (mgr_consensus ?m)
    (Some (mtp_lookup (uint (hdr_time (blk_header blk))) ?m)) (should_skip_scripts ?m idx)"
  obtain rc cc where c: "?c = Some (rc, cc)" using con by (cases ?c) (auto simp: connect_new_block_def bm_get_def Let_def)
  have rc: "rc = Inl e" "mgr' = mark_failed idx (put_coins cc ?m)"
    using con c connect_new_block_child [OF m(2-4,10,5,14), of C K base blk] connect_new_block_err [of C K base blk ?m idx]
    by (cases rc; auto)+
  have blk: "\<forall>tx\<in>set (blk_vtx blk). connectable_tx tx" "distinct (map (txid C) (blk_vtx blk))"
    using check_block_accepted [OF assms(12)] by auto
  have "cache_view base cc = fold (apply_tx C (mgr_height mgr + 1)) (blk_vtx blk) (cache_view base (mgr_coins mgr))"
    using db_base.connect_block_late_failure [OF assms(10) [unfolded base_def] blk disjI2 [OF assms(11) [unfolded base_def]] _ assms(14)]
      c [unfolded rc m(6,8,11) base_def] unfolding base_def by blast
  then show ?thesis using rc(2) m(7) by (simp add: mark_failed_same put_coins_same)
qed

theorem rejected_block_changes_coins_witness:
  "\<exists>e mgr'. process_new_block pad_crypto example_secp (db_get_coin (\<lambda>_. None) example_db) 0 start_mgr (second_block 6000000000) =
     Some (Inl e, mgr') \<and> mgr_chain mgr' = [0] \<and>
     cache_view (db_get_coin (\<lambda>_. None) example_db) (mgr_coins mgr') = apply_tx pad_crypto 1 (paying_coinbase 6000000000) (\<lambda>_. None)"
proof -
  obtain e mgr' where p: "process_new_block pad_crypto example_secp (db_get_coin (\<lambda>_. None) example_db) 0 start_mgr (second_block 6000000000) =
      Some (Inl e, mgr')" "vs_reject_reason e = ''bad-cb-amount''"
    using second_block_processed [of 6000000000] by (auto simp: MAX_MONEY_value)
  have cons: "mgr_consensus start_mgr = mainnet" by (simp add: start_mgr_def mgr_new_def)
  have chk: "fst (check_block pad_crypto example_secp (second_block 6000000000) (mgr_consensus start_mgr) (vs_new BlockUnset) True)"
    unfolding cons using second_block_checked [of 6000000000] by (simp add: MAX_MONEY_value)
  have vtx: "blk_vtx (second_block 6000000000) = [paying_coinbase 6000000000]" by (simp add: second_block_def)
  show ?thesis
    using rejected_block_changes_coins [OF start_mgr_ok start_facts(1,2,6-8) start_work start_facts(9,11) chk p]
    by (simp add: p start_facts vtx)
qed

section \<open>A block beside the active chain\<close>

lemma connect_new_block_side:
  assumes "idx < length (mgr_arena m)" "mgr_tip m = Some tip" "mgr_best_valid_tip m = Some (tip, w)"
    "au_compare_to (bi_chain_work (mgr_arena m ! idx)) w \<noteq> Greater" "tip \<noteq> idx"
    "connect_block C K base blk (bi_height (mgr_arena m ! idx)) (mgr_coins m) (mgr_consensus m)
       (Some (mtp_lookup (uint (hdr_time (blk_header blk))) m)) (should_skip_scripts m idx) = Some (Inr undo, cc)"
  shows "connect_new_block C K base idx blk m = Some (Inr (False, Some undo), touch_index (raise_status VALID_SCRIPTS) idx (put_coins cc m))"
proof -
  let ?t = "touch_index (raise_status VALID_SCRIPTS) idx (put_coins cc m)"
  have "bi_chain_work (bm_get (mgr_block_index ?t) idx) = bi_chain_work (mgr_arena m ! idx)"
    using assms(1) by (simp add: touch_index_def put_coins_def bm_get_def bm_update_def raise_status_def)
  then have rb: "raise_best idx ?t = ?t"
    using assms(3,4) by (simp add: raise_best_def Let_def bm_get_def) (simp add: touch_index_def put_coins_def)
  have "mgr_tip ?t = Some tip" "mgr_best_valid_tip ?t = Some (tip, w)"
    using assms(2,3) by (simp_all add: touch_index_def put_coins_def mgr_tip_def)
  then show ?thesis using assms(5,6) rb by (simp add: connect_new_block_def bm_get_def Let_def activate_best_chain_def)
qed

text \<open>C40: A block beside the active chain changes the unspent outputs of the active chain. If the manager is at its best tip and a new block
  with a known parent does not have more work than this tip, then \<open>process_new_block\<close>, when it accepts the block, reports that the block
  is not on the active chain and leaves the active chain as it is, but the cache has the transactions of the block applied to
  the coins of the active chain. The documentation promises only that such a block is stored.\<close>

theorem side_block_changes_coins:
  fixes D :: decompress_key and db :: db_wrapper
  defines "base \<equiv> db_get_coin D db"
  assumes "mgr_ok mgr" "mgr_tip mgr = Some tip" "mgr_best_valid_tip mgr = Some (tip, w)"
    "lookup_block_index mgr (hdr_prev_blockhash (blk_header blk)) = Some q"
    "lookup_block_index mgr (header_block_hash C (blk_header blk)) = None"
    "get_header_proof (blk_header blk) = Inr p"
    "au_compare_to (au_add (bi_chain_work (bm_get (mgr_block_index mgr) q)) p) w \<noteq> Greater"
    "cache_sound base (mgr_coins mgr)" "outputs_fresh C (blk_vtx blk) (cache_view base (mgr_coins mgr))"
    "process_new_block C K base now mgr blk = Some (Inr (active, undo), mgr')"
  shows "\<not> active \<and> mgr_chain mgr' = mgr_chain mgr \<and>
    cache_view base (mgr_coins mgr') =
      fold (apply_tx C (bi_height (bm_get (mgr_block_index mgr) q) + 1)) (blk_vtx blk) (cache_view base (mgr_coins mgr))"
proof -
  obtain idx m0 where ac: "accept_block_header C now mgr (blk_header blk) = Some (Inr idx, m0)"
    using assms(11) by (auto simp: process_new_block_def split: option.splits sum.splits)
  let ?m = "record_block idx blk m0" and ?bm = "mgr_block_index mgr"
  have find: "bm_find_by_hash ?bm (hdr_prev_blockhash (blk_header blk)) = Some q" "bm_find_by_hash ?bm (header_block_hash C (blk_header blk)) = None"
    using assms(5,6) by (simp_all add: lookup_block_index_def)
  note m = recorded_entry [OF assms(2) find assms(7) ac]
  have notin: "chain_get_block_index (mgr_chain m0) hx \<noteq> Some idx" for hx
    using new_entry_status [OF ac _ find(2)] accept_block_header_cases(4) [OF assms(2) ac] assms(2) by (simp add: mgr_ok_def)
  from process_new_block_cases [OF assms(11) ac] notin
  obtain st where chk: "fst (check_block C K blk (mgr_consensus mgr) st True)"
    and con: "connect_new_block C K base idx blk ?m = Some (Inr (active, undo), mgr')"
    using m(9) by auto
  let ?c = "connect_block C K base blk (bi_height (mgr_arena ?m ! idx)) (mgr_coins ?m) (mgr_consensus ?m)
    (Some (mtp_lookup (uint (hdr_time (blk_header blk))) ?m)) (should_skip_scripts ?m idx)"
  obtain u cc where c: "?c = Some (Inr u, cc)"
    using con by (cases ?c) (auto simp: connect_new_block_def bm_get_def Let_def split: sum.splits)
  have "tip < length (mgr_arena mgr)" using assms(2,4) by (simp add: mgr_ok_def)
  then have ne: "tip \<noteq> idx" using m(1) by simp
  have w: "au_compare_to (bi_chain_work (mgr_arena ?m ! idx)) w \<noteq> Greater" using assms(8) m(13) by (simp add: bm_get_def)
  have r: "\<not> active" "mgr_chain mgr' = mgr_chain mgr" "mgr_coins mgr' = cc"
    using connect_new_block_side [OF m(3) m(4) [unfolded assms(3)] m(5) [unfolded assms(4)] w ne c] con m(7)
    by (auto simp: touch_index_def put_coins_def)
  have blk: "\<forall>tx\<in>set (blk_vtx blk). connectable_tx tx" "distinct (map (txid C) (blk_vtx blk))"
    using check_block_accepted [OF chk] by auto
  have "cache_view base cc = fold (apply_tx C (bi_height (mgr_arena mgr ! q) + 1)) (blk_vtx blk) (cache_view base (mgr_coins mgr))"
    using db_base.connect_block_correct [OF assms(9) [unfolded base_def] blk disjI2 [OF assms(10) [unfolded base_def]]]
      c [unfolded m(6,8,11) base_def] unfolding base_def by blast
  then show ?thesis using r by (simp add: bm_get_def)
qed

text \<open>A manager whose active chain has another block at the height of the new one.\<close>

definition rival_entry :: block_index where
  "rival_entry = start_entry\<lparr>bi_block_hash := replicate 32 9, bi_height := 1, bi_prev := Some 0, bi_time := 1,
     bi_chain_work := au_add (bi_chain_work start_entry) (bi_chain_work start_entry)\<rparr>"

definition rival_mgr :: chainstate_manager where
  "rival_mgr = start_mgr\<lparr>mgr_block_index := \<lparr>bm_indices = [start_entry, rival_entry], bm_by_hash = [replicate 32 0 \<mapsto> 0, replicate 32 9 \<mapsto> 1]\<rparr>,
     mgr_active_chainstate := \<lparr>chs_chain = [0, 1], chs_coins_tip = cache_new ZERO_HASH\<rparr>,
     mgr_best_valid_tip := Some (1, bi_chain_work rival_entry)\<rparr>"

lemma rival_facts:
  "bi_prev rival_entry = Some 0" "bi_skip rival_entry = None" "bi_height rival_entry = 1" "bi_block_hash rival_entry = replicate 32 9"
  "bi_time rival_entry = 1" "bi_chain_work rival_entry = au_add (bi_chain_work start_entry) (bi_chain_work start_entry)"
  "au_ok (bi_chain_work rival_entry)" "bi_bits rival_entry = 0x1d00ffff"
  using start_entry_facts(3,8) au_add_word [OF start_entry_facts(6,6)] by (simp_all add: rival_entry_def)

lemma hash_words: "replicate 32 (9 :: u8) \<noteq> replicate 32 0" "replicate 32 (9 :: u8) \<noteq> 1 # replicate 31 0"
  by (auto dest: arg_cong [of _ _ hd])

lemma rival_mgr_ok: "mgr_ok rival_mgr"
proof -
  let ?a = "[start_entry, rival_entry]"
  have e0: "entry_ok ?a 0" using start_entry_facts by (simp add: entry_ok_def)
  have e1: "entry_ok ?a 1" using start_entry_facts(4) rival_facts by (simp add: entry_ok_def)
  have a: "arena_ok ?a" using e0 e1 by (auto simp: arena_ok_def less_Suc_eq)
  have mtp: "compute_mtp ?a 0 = 0"
    using start_entry_facts
    by (simp add: compute_mtp_def collect_mtp_ancestors_def MEDIAN_TIME_SPAN_def eval_nat_numeral get_median_time_past_def bi_get_block_time_def Let_def)
  then have t: "times_ok ?a" using start_entry_facts(2) rival_facts(1,5) by (auto simp: times_ok_def less_Suc_eq bi_get_block_time_def)
  have w: "work_ok ?a"
    using start_entry_facts(2,6,10) rival_facts by (auto simp: work_ok_def less_Suc_eq get_block_proof_def)
  have h: "hashes_ok \<lparr>bm_indices = ?a, bm_by_hash = [replicate 32 0 \<mapsto> 0, replicate 32 9 \<mapsto> 1]\<rparr>"
    using start_entry_facts(5) rival_facts(4) hash_words(1) by (auto simp: hashes_ok_def less_Suc_eq nth_Cons split: nat.splits if_splits)
  have c: "chain_ok ?a [0, 1]" using start_entry_facts(4) rival_facts(1,3) by (auto simp: chain_ok_def less_Suc_eq)
  show ?thesis using a t w h c by (simp add: mgr_ok_def rival_mgr_def index_ok_def start_mgr_def mgr_new_def)
qed

theorem side_block_changes_coins_witness:
  "\<exists>undo mgr'. process_new_block pad_crypto example_secp (db_get_coin (\<lambda>_. None) example_db) 0 rival_mgr (second_block 5000000000) =
     Some (Inr (False, undo), mgr') \<and> mgr_chain mgr' = [0, 1] \<and>
     cache_view (db_get_coin (\<lambda>_. None) example_db) (mgr_coins mgr') = apply_tx pad_crypto 1 (paying_coinbase 5000000000) (\<lambda>_. None)"
proof -
  let ?v = "5000000000 :: amount"
  let ?blk = "second_block ?v" and ?b = "db_get_coin (\<lambda>_. None) example_db"
  have s: "mgr_arena rival_mgr = [start_entry, rival_entry]" "mgr_consensus rival_mgr = mainnet" "mgr_coins rival_mgr = cache_new ZERO_HASH"
    "bm_by_hash (mgr_block_index rival_mgr) = [replicate 32 0 \<mapsto> 0, replicate 32 9 \<mapsto> 1]" "mgr_tip rival_mgr = Some 1"
    "mgr_best_valid_tip rival_mgr = Some (1, bi_chain_work rival_entry)" "mgr_chain rival_mgr = [0, 1]"
    by (simp_all add: rival_mgr_def start_mgr_def mgr_new_def mgr_tip_def chain_tip_def)
  have hd: "hdr_prev_blockhash (blk_header ?blk) = replicate 32 0" "blk_vtx ?blk = [paying_coinbase ?v]"
    by (simp_all add: second_block_def header_new_def ZERO_HASH_def)
  have find: "lookup_block_index rival_mgr (hdr_prev_blockhash (blk_header ?blk)) = Some 0"
    "lookup_block_index rival_mgr (header_block_hash pad_crypto (blk_header ?blk)) = None"
    using s(4) hd(1) hash_words second_hash second_hash_new by (auto simp: lookup_block_index_def bm_find_by_hash_def)
  obtain m0 where ac: "accept_block_header pad_crypto 0 rival_mgr (blk_header ?blk) = Some (Inr 2, m0)"
    using second_header_accepted [of rival_mgr "[rival_entry]" ?v] s hash_words second_hash_new by (auto simp: eval_nat_numeral)
  let ?m = "record_block 2 ?blk m0"
  note m = recorded_entry [OF rival_mgr_ok find [unfolded lookup_block_index_def] start_facts(8) ac]
  have notin: "chain_get_block_index (mgr_chain m0) h \<noteq> Some 2" for h
    using accept_block_header_cases(4) [OF rival_mgr_ok ac] s(7) by (auto simp: chain_get_block_index_def nth_Cons split: nat.splits)
  have h: "bi_height (mgr_arena ?m ! 2) = 1" using m(11) s(1) start_entry_facts(4) by simp
  have h0: "bi_height (mgr_arena ?m ! 0) = 0"
    using arena_prev(2) [of "mgr_arena ?m" 2 0] m(2,3,10) h by (simp add: mgr_ok_def index_ok_def)
  have v: "0 \<le> sint ?v" "sint ?v \<le> MAX_MONEY" by (simp_all add: MAX_MONEY_value)
  note c = second_block_connects [OF v ac notin m(9) [unfolded s] m(8) [unfolded s] m(6) [unfolded s] m(10) h0 h]
  have w: "au_compare_to (au_add (bi_chain_work (bm_get (mgr_block_index rival_mgr) 0)) (bi_chain_work start_entry)) (bi_chain_work rival_entry) \<noteq> Greater"
    using s(1) rival_facts(6,7) au_compare_word [OF rival_facts(7,7)] by (simp add: bm_get_def)
  have empty: "cache_sound ?b (mgr_coins rival_mgr)" "cache_view ?b (mgr_coins rival_mgr) = (\<lambda>_. None)"
    "outputs_fresh pad_crypto (blk_vtx ?blk) (cache_view ?b (mgr_coins rival_mgr))"
    using s(3) start_facts(9-11) by (simp_all add: start_mgr_def)
  obtain u cc where con: "connect_new_block pad_crypto example_secp ?b 2 ?blk ?m =
      Some (Inr (False, Some u), touch_index (raise_status VALID_SCRIPTS) 2 (put_coins cc ?m))"
    using c(2) connect_new_block_side [OF m(3) m(4) [unfolded s] m(5) [unfolded s], of pad_crypto example_secp ?b ?blk] w m(13) by (auto simp: bm_get_def)
  show ?thesis
    using side_block_changes_coins [OF rival_mgr_ok s(5,6) find start_facts(8) w empty(1,3) c(1) [unfolded con]] c(1) con
      start_entry_facts(4) s(1,7) hd(2) empty(2) by (simp add: bm_get_def)
qed

section \<open>Blocks whose scripts are not checked\<close>

lemma prev_n_height:
  "arena_ok a \<Longrightarrow> j < length a \<Longrightarrow> prev_n a k j = Some i \<Longrightarrow> i < length a \<and> bi_height (a ! i) = bi_height (a ! j) - int k"
proof (induction k arbitrary: j)
  case (Suc k)
  then obtain l where l: "bi_prev (a ! j) = Some l" "prev_n a k l = Some i" by (auto simp: bind_eq_Some_conv)
  then show ?case using Suc arena_prev(2) [OF Suc.prems(1,2) l(1)] by auto
qed simp

text \<open>C14: Scripts are skipped for exactly the blocks on the way to the block that the operator assumes to be valid: the block with
  the assumed hash and its ancestors in the index. A block on any other branch is checked, whatever its height, and while the header of the assumed
  block is not known every block is. This is what the comment on the function says; the specification document, which lets every
  block at or below the height of the assumed block skip its scripts, is wrong about it.\<close>

theorem assume_valid_exact:
  assumes "mgr_ok mgr" "i < bm_len (mgr_block_index mgr)"
  shows "should_skip_scripts mgr i \<longleftrightarrow>
    (\<exists>hash j k. mgr_assume_valid mgr = Some hash \<and> lookup_block_index mgr hash = Some j \<and> prev_n (mgr_arena mgr) k j = Some i)"
proof (cases "mgr_assume_valid mgr")
  case None
  then show ?thesis by (simp add: should_skip_scripts_def)
next
  case (Some hash)
  let ?a = "mgr_arena mgr" and ?bm = "mgr_block_index mgr"
  have ok: "index_ok ?bm" "arena_ok ?a" "i < length ?a" using assms by (simp_all add: mgr_ok_def index_ok_def bm_len_def)
  show ?thesis
  proof (cases "bi_block_hash (?a ! i) = hash")
    case True
    then have "lookup_block_index mgr hash = Some i" using find_by_hash_entry [OF ok(1,3)] by (simp add: lookup_block_index_def)
    then have "\<exists>j k. lookup_block_index mgr hash = Some j \<and> prev_n ?a k j = Some i" by (metis prev_n.simps(1))
    then show ?thesis using Some True by (simp add: should_skip_scripts_def bm_get_def)
  next
    case False
    show ?thesis
    proof (cases "lookup_block_index mgr hash")
      case None
      then show ?thesis using Some False by (simp add: should_skip_scripts_def bm_get_def lookup_block_index_def)
    next
      case j: (Some j)
      then have jl: "j < length ?a" using index_in_range [OF ok(1)] by (simp add: lookup_block_index_def)
      let ?hi = "bi_height (?a ! i)" and ?hj = "bi_height (?a ! j)"
      have "should_skip_scripts mgr i \<longleftrightarrow> ?hi \<le> ?hj \<and> get_ancestor ?a j ?hi = Some i"
        using Some False j by (auto simp: should_skip_scripts_def bm_get_def lookup_block_index_def Let_def)
      also have "\<dots> \<longleftrightarrow> ?hi \<le> ?hj \<and> prev_n ?a (nat (?hj - ?hi)) j = Some i"
        using get_ancestor_prev_n [OF ok(2) jl, of ?hi] arena_height [OF ok(2,3)] by auto
      also have "\<dots> \<longleftrightarrow> (\<exists>k. prev_n ?a k j = Some i)"
      proof
        assume "\<exists>k. prev_n ?a k j = Some i"
        then obtain k where k: "prev_n ?a k j = Some i" by blast
        then have "?hi = ?hj - int k" using prev_n_height [OF ok(2) jl] by blast
        then have "?hi \<le> ?hj" "nat (?hj - ?hi) = k" by auto
        then show "?hi \<le> ?hj \<and> prev_n ?a (nat (?hj - ?hi)) j = Some i" using k by simp
      qed blast
      finally show ?thesis using Some j by simp
    qed
  qed
qed

theorem assume_valid_exact_witness:
  "should_skip_scripts (set_assume_valid (replicate 32 9) 1 rival_mgr) 0 \<and> \<not> should_skip_scripts (set_assume_valid (replicate 32 0) 0 rival_mgr) 1"
proof -
  let ?m = "set_assume_valid (replicate 32 9) 1 rival_mgr" and ?n = "set_assume_valid (replicate 32 0) 0 rival_mgr"
  have s: "mgr_block_index m = \<lparr>bm_indices = [start_entry, rival_entry], bm_by_hash = [replicate 32 0 \<mapsto> 0, replicate 32 9 \<mapsto> 1]\<rparr>"
    if "m = ?m \<or> m = ?n" for m using that by (auto simp: rival_mgr_def set_assume_valid_def)
  have a: "mgr_assume_valid ?m = Some (replicate 32 9)" "mgr_assume_valid ?n = Some (replicate 32 0)" by (simp_all add: set_assume_valid_def)
  have ok: "mgr_ok ?m" "mgr_ok ?n" using rival_mgr_ok by (simp_all add: setters_ok)
  have len: "0 < bm_len (mgr_block_index ?m)" "1 < bm_len (mgr_block_index ?n)" using s by (simp_all add: bm_len_def)
  have "prev_n (mgr_arena ?m) 1 1 = Some 0" using s rival_facts(1) by simp
  moreover have "lookup_block_index ?m (replicate 32 9) = Some 1" using s by (simp add: lookup_block_index_def bm_find_by_hash_def)
  ultimately have yes: "\<exists>hash j k. mgr_assume_valid ?m = Some hash \<and> lookup_block_index ?m hash = Some j \<and> prev_n (mgr_arena ?m) k j = Some 0"
    using a(1) by blast
  have "prev_n (mgr_arena ?n) k 0 \<noteq> Some 1" for k using s start_entry_facts(2) by (cases k) simp_all
  moreover have "lookup_block_index ?n (replicate 32 0) = Some 0" using s hash_words(1) by (auto simp: lookup_block_index_def bm_find_by_hash_def)
  ultimately have no: "\<not> (\<exists>hash j k. mgr_assume_valid ?n = Some hash \<and> lookup_block_index ?n hash = Some j \<and> prev_n (mgr_arena ?n) k j = Some 1)"
    using a(2) by auto
  show ?thesis using assume_valid_exact [OF ok(1) len(1)] assume_valid_exact [OF ok(2) len(2)] yes no by blast
qed

section \<open>The states of the manager\<close>

lemma setters_arena:
  "mgr_arena (set_assume_valid hash height mgr) = mgr_arena mgr" "mgr_arena (set_block_reader reader mgr) = mgr_arena mgr"
  "mgr_arena (clear_dirty mgr) = mgr_arena mgr"
  by (simp_all add: set_assume_valid_def set_block_reader_def clear_dirty_def)

text \<open>C1: The manager starts new and empty, and is given, in any order and any number, the genesis block, headers, blocks,
  activations, flushes, resets of the active chain, positions on disk, an assumed-valid block, a block reader and marks of changed
  entries; others may change its coins; and it may be replaced by a new manager that loads the records of its whole index, in any
  order, provided that no block has the null hash and that the blocks without parent have a null parent hash. In every state that
  is reached, the index and the active chain are well-formed: the table of hashes finds exactly the entries of the arena, each
  entry is one higher than its parent, has its work added to that of the parent and names the parent by its hash, skip links lead
  to the ancestor at the right height, the time of a block is above the median time past of its parent, the active chain is a
  path of parent links from height 0, and the best tip and the changed entries lie in the index. Loading records that are not
  those of such an index is not covered: the code does not check them.\<close>

theorem manager_invariant:
  assumes "manager_state C K mgr"
  shows "mgr_ok mgr \<and> named_parents (mgr_arena mgr)"
  using assms
proof (induction rule: manager_state.induct)
  case (state_new params genesis best)
  have "named_parents (mgr_arena (mgr_new params genesis best))" by (simp add: mgr_new_def bm_new_def named_parents_def)
  then show ?case using mgr_new_ok by blast
next
  case (state_header mgr now header r mgr')
  then show ?case using accept_block_header_cases(1) accept_block_header_named by blast
next
  case (state_activate mgr base jc r mgr')
  then show ?case using activate_best_chain_ok named_index by blast
next
  case (state_flush mgr w order b w' mgr')
  have "mgr_ok mgr'" using flush_coins_ok [OF state_flush.hyps(2)] state_flush.IH by blast
  moreover have "mgr_arena mgr' = mgr_arena mgr" using state_flush.hyps(2) by (auto simp: flush_coins_def put_coins_def)
  ultimately show ?case using state_flush.IH by simp
next
  case (state_reset mgr i)
  then show ?case using reset_active_chain_ok
    by (simp add: bm_len_def) (simp add: reset_active_chain_to_def Let_def put_coins_def put_chain_def)
next
  case (state_coins mgr cc)
  then show ?case using quiet_ok [OF quiet_put_coins] by (simp add: put_coins_def)
next
  case (state_dirty mgr i)
  then show ?case by (auto simp: mgr_ok_def mark_dirty_def bm_len_def)
qed (auto intro: load_genesis_block_ok load_genesis_block_named process_new_block_ok process_new_block_named load_block_index_ok [THEN conjunct1]
    load_block_index_ok [THEN conjunct2] set_undo_pos_ok set_block_pos_ok set_positions_named simp: setters_ok setters_arena)

theorem manager_invariant_witness:
  "\<exists>mgr. mgr_ok mgr \<and> mgr_arena mgr = [start_entry] \<and>
     (\<exists>r. load_genesis_block pad_crypto (db_get_coin (\<lambda>_. None) example_db) (mgr_new mainnet (replicate 32 0) ZERO_HASH) first_block = Some (r, mgr))"
proof -
  let ?b = "db_get_coin (\<lambda>_. None) example_db" and ?m = "mgr_new mainnet (replicate 32 0) ZERO_HASH"
  have empty: "cache_sound ?b (cache_new ZERO_HASH)" "cache_view ?b (cache_new ZERO_HASH) = (\<lambda>_. None)"
    by (simp_all add: cache_view_new fun_eq_iff example_db_facts)
  obtain cc where add: "add_coins pad_crypto ?b (cache_new ZERO_HASH) height_coinbase 0 True = Some cc"
  proof -
    let ?op = "\<lparr>prev_txid = txid pad_crypto height_coinbase, prev_index = 0\<rparr>" and ?out = "\<lparr>out_value = 5000000000, out_script_pubkey = [OpDup]\<rparr>"
    obtain c cc1 where f: "fetch_coin ?b (cache_new ZERO_HASH) ?op = (c, cc1)" by fastforce
    then have "fetch_coins ?b (cache_new ZERO_HASH) [?op] = ([c], cc1)" by simp
    note fc = db_base.fetch_coins_correct [OF empty(1) this]
    have "\<not> coin_is_spent (coin_new ?out 0 True)" by (simp add: coin_is_spent_def coin_new_def tx_out_is_null_def)
    then obtain cc where cc: "add_coin cc1 ?op (coin_new ?out 0 True) (c \<noteq> None) = Some cc"
      using db_base.add_coin_fresh [of "\<lambda>_. None" example_db cc1 "coin_new ?out 0 True" ?op "c \<noteq> None"] fc empty(2) by auto
    have "tx_vout height_coinbase = [?out]" by (simp add: height_coinbase_def)
    then have "add_coins pad_crypto ?b (cache_new ZERO_HASH) height_coinbase 0 True = Some cc"
      using f cc first_tx_ok(1) by (simp add: add_coins_def)
    then show ?thesis by (rule that)
  qed
  then obtain mgr where g: "load_genesis_block pad_crypto ?b ?m first_block = Some (Inr (), mgr)" "mgr_arena mgr = [start_entry]"
    using start_entry_facts first_hash
    by (simp add: load_genesis_block_def mgr_new_def bm_new_def bm_find_by_hash_def bm_insert_def build_skip_pointer_def bm_get_def
        put_chain_def put_coins_def Let_def chainstate_new_def) (simp add: first_block_def)
  have "manager_state pad_crypto example_secp mgr" using state_genesis [OF state_new g(1)] .
  then show ?thesis using manager_invariant [of pad_crypto example_secp mgr] g by blast
qed

end
