(* ===== verification/Mempool.thy ===== *)
theory Mempool
  imports BlockCheck "HOL-Library.Finite_Map"
begin

text \<open>
  The pool of unconfirmed transactions, \<open>qubitcoin-node/src/mempool.rs\<close>: fee rates, dust, the entries with their
  statistics, the table of spenders, the walks to ancestors and descendants, removal, eviction, replacement by fee and
  acceptance. Hash maps are finite maps; where the order in which a map is traversed matters, the traversal is an argument.
  Sums and products of \<open>i64\<close> and \<open>u64\<close> values wrap.
\<close>

section \<open>Fee rates and dust\<close>

type_synonym fee_rate = i64

definition fee_rate_ZERO :: fee_rate where "fee_rate_ZERO = 0"

definition from_sat_per_vb :: "i64 \<Rightarrow> fee_rate" where
  "from_sat_per_vb sats_per_vb = sats_per_vb * 1000"

text \<open>Signed division, rounded towards zero.\<close>

definition i64_div :: "i64 \<Rightarrow> i64 \<Rightarrow> i64" where
  "i64_div a b = word_of_int (sint a sdiv sint b)"

definition get_fee :: "fee_rate \<Rightarrow> nat \<Rightarrow> amount" where
  "get_fee sats_per_kvb virtual_size =
     (let numer = sats_per_kvb * of_nat virtual_size in
      if sint numer > 0 then i64_div (numer + 999) 1000 else i64_div numer 1000)"

definition show_fee_rate :: "fee_rate \<Rightarrow> string" where
  "show_fee_rate r = show_int (sint r) @ '' sat/kvB''"

definition DEFAULT_MIN_RELAY_TX_FEE :: fee_rate where "DEFAULT_MIN_RELAY_TX_FEE = 0"
definition DUST_RELAY_TX_FEE :: fee_rate where "DUST_RELAY_TX_FEE = 3000"
definition DEFAULT_INCREMENTAL_RELAY_FEE :: fee_rate where "DEFAULT_INCREMENTAL_RELAY_FEE = 1000"
definition DEFAULT_MAX_MEMPOOL_SIZE :: u64 where "DEFAULT_MAX_MEMPOOL_SIZE = 300 * 1000000"
definition DEFAULT_ANCESTOR_LIMIT :: u64 where "DEFAULT_ANCESTOR_LIMIT = 25"
definition DEFAULT_ANCESTOR_SIZE_LIMIT :: u64 where "DEFAULT_ANCESTOR_SIZE_LIMIT = 101000"
definition DEFAULT_DESCENDANT_LIMIT :: u64 where "DEFAULT_DESCENDANT_LIMIT = 25"
definition DEFAULT_DESCENDANT_SIZE_LIMIT :: u64 where "DEFAULT_DESCENDANT_SIZE_LIMIT = 101000"
definition MAX_BIP125_REPLACEMENT_CANDIDATES :: nat where "MAX_BIP125_REPLACEMENT_CANDIDATES = 100"
definition DEFAULT_MEMPOOL_EXPIRY_HOURS :: u64 where "DEFAULT_MEMPOOL_EXPIRY_HOURS = 336"

definition get_dust_threshold :: "tx_out \<Rightarrow> fee_rate \<Rightarrow> i64" where
  "get_dust_threshold txout dust_relay_fee =
     (if is_unspendable (out_script_pubkey txout) then 0
      else
        let spend_size = length (serialize encode_tx_out txout)
        in get_fee dust_relay_fee
             (if is_witness_program (out_script_pubkey txout) \<noteq> None
              then spend_size + (32 + 4 + 1 + 107 div WITNESS_SCALE_FACTOR + 4)
              else spend_size + (32 + 4 + 1 + 107 + 4)))"

definition is_dust :: "tx_out \<Rightarrow> fee_rate \<Rightarrow> bool" where
  "is_dust txout dust_relay_fee \<longleftrightarrow> sint (out_value txout) < sint (get_dust_threshold txout dust_relay_fee)"

section \<open>Entries\<close>

record mempool_entry =
  me_tx :: transaction
  me_fee :: amount
  me_vsize :: u32
  me_time :: u64
  me_entry_height :: int
  me_spends_coinbase :: bool
  me_sig_op_cost :: u32
  me_fee_rate :: fee_rate
  me_ancestor_count :: u64
  me_ancestor_size :: u64
  me_ancestor_fee :: amount
  me_descendant_count :: u64
  me_descendant_size :: u64
  me_descendant_fee :: amount

definition rate_of :: "amount \<Rightarrow> u32 \<Rightarrow> fee_rate" where
  "rate_of fee vsize = (if vsize > 0 then i64_div (fee * 1000) (ucast vsize) else fee_rate_ZERO)"

definition mempool_entry_new :: "transaction \<Rightarrow> amount \<Rightarrow> u32 \<Rightarrow> u64 \<Rightarrow> int \<Rightarrow> bool \<Rightarrow> u32 \<Rightarrow> mempool_entry" where
  "mempool_entry_new tx fee vsize time entry_height spends_coinbase sig_op_cost =
     \<lparr>me_tx = tx, me_fee = fee, me_vsize = vsize, me_time = time, me_entry_height = entry_height,
      me_spends_coinbase = spends_coinbase, me_sig_op_cost = sig_op_cost, me_fee_rate = rate_of fee vsize,
      me_ancestor_count = 1, me_ancestor_size = ucast vsize, me_ancestor_fee = fee,
      me_descendant_count = 1, me_descendant_size = ucast vsize, me_descendant_fee = fee\<rparr>"

definition update_ancestor_state :: "u64 \<Rightarrow> u64 \<Rightarrow> amount \<Rightarrow> mempool_entry \<Rightarrow> mempool_entry" where
  "update_ancestor_state ancestor_count ancestor_size ancestor_fee e =
     e\<lparr>me_ancestor_count := ancestor_count, me_ancestor_size := ancestor_size, me_ancestor_fee := ancestor_fee\<rparr>"

definition update_descendant_state :: "u64 \<Rightarrow> u64 \<Rightarrow> amount \<Rightarrow> mempool_entry \<Rightarrow> mempool_entry" where
  "update_descendant_state descendant_count descendant_size descendant_fee e =
     e\<lparr>me_descendant_count := descendant_count, me_descendant_size := descendant_size, me_descendant_fee := descendant_fee\<rparr>"

section \<open>The pool\<close>

type_synonym pool_entries = "(hash_bytes, mempool_entry) fmap"
type_synonym pool_spenders = "(outpoint, hash_bytes) fmap"

record tx_mem_pool =
  mp_entries :: pool_entries
  mp_spenders :: pool_spenders
  mp_total_fee :: i64
  mp_sequence :: u64
  mp_min_relay_fee :: fee_rate
  mp_incremental_relay_fee :: fee_rate
  mp_max_mempool_size :: u64
  mp_full_rbf :: bool

definition new_with_limits :: "fee_rate \<Rightarrow> u64 \<Rightarrow> tx_mem_pool" where
  "new_with_limits min_relay_fee max_size =
     \<lparr>mp_entries = fmempty, mp_spenders = fmempty, mp_total_fee = 0, mp_sequence = 0, mp_min_relay_fee = min_relay_fee,
      mp_incremental_relay_fee = DEFAULT_INCREMENTAL_RELAY_FEE, mp_max_mempool_size = max_size, mp_full_rbf = True\<rparr>"

definition mempool_new :: tx_mem_pool where
  "mempool_new = new_with_limits DEFAULT_MIN_RELAY_TX_FEE DEFAULT_MAX_MEMPOOL_SIZE"

definition mp_prevouts :: "transaction \<Rightarrow> outpoint list" where
  "mp_prevouts tx = map in_prevout (tx_vin tx)"

text \<open>The parents of a transaction that are in the pool, once for every input.\<close>

definition pool_parents :: "pool_entries \<Rightarrow> transaction \<Rightarrow> hash_bytes list" where
  "pool_parents entries tx = filter (\<lambda>h. fmlookup entries h \<noteq> None) (map prev_txid (mp_prevouts tx))"

text \<open>The stack of the walk to the ancestors has its top first.\<close>

function ancestors_loop :: "pool_entries \<Rightarrow> hash_bytes list \<Rightarrow> hash_bytes set \<Rightarrow> hash_bytes list \<Rightarrow> hash_bytes list" where
  "ancestors_loop entries [] visited ancestors = ancestors"
| "ancestors_loop entries (cur # queue) visited ancestors =
     (if cur \<in> visited then ancestors_loop entries queue visited ancestors
      else
        let visited = insert cur visited;
            pushed = (case fmlookup entries cur of
                        None \<Rightarrow> []
                      | Some e \<Rightarrow> filter (\<lambda>p. p \<notin> visited) (pool_parents entries (me_tx e)))
        in ancestors_loop entries (rev pushed @ queue) visited (ancestors @ [cur]))"
  by pat_completeness auto
termination
proof (relation "measures [\<lambda>(entries, queue, visited, ancestors). card (fmdom' entries - visited), \<lambda>(entries, queue, visited, ancestors). length queue]",
    goal_cases)
  case (3 entries cur queue visited ancestors v pushed)
  show ?case
  proof (cases "cur \<in> fmdom' entries")
    case True
    then have "fmdom' entries - v \<subset> fmdom' entries - visited" using 3 by auto
    then show ?thesis by (simp add: psubset_card_mono)
  next
    case False
    then have "fmdom' entries - v = fmdom' entries - visited" "pushed = []" using 3 by (auto simp: fmlookup_dom'_iff)
    then show ?thesis by simp
  qed
qed auto

definition collect_ancestors_from_entries :: "pool_entries \<Rightarrow> mempool_entry \<Rightarrow> hash_bytes list" where
  "collect_ancestors_from_entries entries entry = ancestors_loop entries (rev (pool_parents entries (me_tx entry))) {} []"

text \<open>The children of an entry that have not been visited.\<close>

definition new_children :: "pool_spenders \<Rightarrow> hash_bytes \<Rightarrow> nat \<Rightarrow> hash_bytes set \<Rightarrow> hash_bytes set \<times> hash_bytes list" where
  "new_children spenders cur n visited =
     foldl (\<lambda>(visited, new) idx.
              case fmlookup spenders \<lparr>prev_txid = cur, prev_index = of_nat idx\<rparr> of
                None \<Rightarrow> (visited, new)
              | Some child \<Rightarrow> if child \<in> visited then (visited, new) else (insert child visited, new @ [child]))
       (visited, []) [0..<n]"

lemma new_children_facts:
  assumes "new_children spenders cur n visited = (visited', new)"
  shows "visited' = visited \<union> set new" "set new \<inter> visited = {}" "distinct new"
    "set new = {c. \<exists>i<n. fmlookup spenders \<lparr>prev_txid = cur, prev_index = of_nat i\<rparr> = Some c} - visited"
proof -
  have "visited' = visited \<union> set new \<and> set new \<inter> visited = {} \<and> distinct new \<and>
      set new = {c. \<exists>i<n. fmlookup spenders \<lparr>prev_txid = cur, prev_index = of_nat i\<rparr> = Some c} - visited"
    using assms
  proof (induction n arbitrary: visited' new)
    case (Suc n)
    obtain v1 n1 where one: "new_children spenders cur n visited = (v1, n1)" by fastforce
    note ih = Suc.IH [OF one]
    have step: "new_children spenders cur (Suc n) visited =
        (case fmlookup spenders \<lparr>prev_txid = cur, prev_index = of_nat n\<rparr> of
           None \<Rightarrow> (v1, n1) | Some child \<Rightarrow> if child \<in> v1 then (v1, n1) else (insert child v1, n1 @ [child]))"
      using one by (simp add: new_children_def)
    show ?case
      using Suc.prems ih by (auto simp: step less_Suc_eq split: option.splits if_splits)
  qed (auto simp: new_children_def)
  then show "visited' = visited \<union> set new" "set new \<inter> visited = {}" "distinct new"
    "set new = {c. \<exists>i<n. fmlookup spenders \<lparr>prev_txid = cur, prev_index = of_nat i\<rparr> = Some c} - visited" by blast+
qed

function descendants_loop ::
  "pool_entries \<Rightarrow> pool_spenders \<Rightarrow> hash_bytes list \<Rightarrow> hash_bytes set \<Rightarrow> hash_bytes list \<Rightarrow> hash_bytes list" where
  "descendants_loop entries spenders [] visited descendants = descendants"
| "descendants_loop entries spenders (cur # queue) visited descendants =
     (case fmlookup entries cur of
        None \<Rightarrow> descendants_loop entries spenders queue visited descendants
      | Some e \<Rightarrow>
          let (visited', new) = new_children spenders cur (length (tx_vout (me_tx e))) visited
          in descendants_loop entries spenders (rev new @ queue) visited' (descendants @ new))"
  by pat_completeness auto
termination
proof (relation "measures [\<lambda>(entries, spenders, queue, visited, descendants). card (fmran' spenders - visited),
      \<lambda>(entries, spenders, queue, visited, descendants). length queue]", goal_cases)
  case (3 entries spenders cur queue visited descendants e x visited' new)
  have n: "new_children spenders cur (length (tx_vout (me_tx e))) visited = (visited', new)" using 3 by simp
  note f = new_children_facts [OF n]
  show ?case
  proof (cases "new = []")
    case True
    then show ?thesis using f(1) by simp
  next
    case False
    have sub: "set new \<subseteq> fmran' spenders" using f(4) by (auto intro: fmran'I)
    obtain c where "c \<in> set new" using False by (cases new) auto
    then have "c \<in> fmran' spenders - visited" "c \<notin> fmran' spenders - visited'" using sub f(1,2) by auto
    then have "fmran' spenders - visited' \<subset> fmran' spenders - visited" using f(1) by auto
    then have "card (fmran' spenders - visited') < card (fmran' spenders - visited)"
      by (intro psubset_card_mono) (simp_all add: fmran'_alt_def)
    then show ?thesis by simp
  qed
qed auto

definition collect_descendants_locked :: "pool_entries \<Rightarrow> pool_spenders \<Rightarrow> hash_bytes \<Rightarrow> hash_bytes list" where
  "collect_descendants_locked entries spenders tx_id = descendants_loop entries spenders [tx_id] {tx_id} []"


section \<open>Adding\<close>

definition modify_entry :: "(mempool_entry \<Rightarrow> mempool_entry) \<Rightarrow> pool_entries \<Rightarrow> hash_bytes \<Rightarrow> pool_entries" where
  "modify_entry f entries tx_id = (case fmlookup entries tx_id of None \<Rightarrow> entries | Some e \<Rightarrow> fmupd tx_id (f e) entries)"

definition add_parent :: "pool_entries \<Rightarrow> mempool_entry \<Rightarrow> hash_bytes \<Rightarrow> mempool_entry" where
  "add_parent entries entry parent_txid =
     (case fmlookup entries parent_txid of
        None \<Rightarrow> entry
      | Some parent \<Rightarrow>
          entry\<lparr>me_ancestor_count := me_ancestor_count entry + me_ancestor_count parent,
            me_ancestor_size := me_ancestor_size entry + me_ancestor_size parent,
            me_ancestor_fee := me_ancestor_fee entry + me_ancestor_fee parent\<rparr>)"

definition add_descendant :: "mempool_entry \<Rightarrow> mempool_entry \<Rightarrow> mempool_entry" where
  "add_descendant entry anc =
     anc\<lparr>me_descendant_count := me_descendant_count anc + 1, me_descendant_size := me_descendant_size anc + ucast (me_vsize entry),
       me_descendant_fee := me_descendant_fee anc + me_fee entry\<rparr>"

definition add_unchecked :: "crypto \<Rightarrow> tx_mem_pool \<Rightarrow> mempool_entry \<Rightarrow> bool \<times> tx_mem_pool" where
  "add_unchecked C pool entry =
     (let tx_id = txid C (me_tx entry); entries = mp_entries pool in
      if fmlookup entries tx_id \<noteq> None then (False, pool)
      else
        let spenders = foldl (\<lambda>spenders op. fmupd op tx_id spenders) (mp_spenders pool) (mp_prevouts (me_tx entry));
            entry = foldl (add_parent entries) entry (pool_parents entries (me_tx entry));
            entries' = foldl (modify_entry (add_descendant entry)) entries (collect_ancestors_from_entries entries entry)
        in (True, pool\<lparr>mp_entries := fmupd tx_id entry entries', mp_spenders := spenders,
              mp_total_fee := mp_total_fee pool + me_fee entry, mp_sequence := mp_sequence pool + 1\<rparr>))"

section \<open>Removing\<close>

definition u64_saturating_sub :: "u64 \<Rightarrow> u64 \<Rightarrow> u64" where
  "u64_saturating_sub a b = (if b \<le> a then a - b else 0)"

definition drop_descendant :: "mempool_entry \<Rightarrow> mempool_entry \<Rightarrow> mempool_entry" where
  "drop_descendant entry anc =
     anc\<lparr>me_descendant_count := u64_saturating_sub (me_descendant_count anc) 1,
       me_descendant_size := u64_saturating_sub (me_descendant_size anc) (ucast (me_vsize entry)),
       me_descendant_fee := me_descendant_fee anc - me_fee entry\<rparr>"

definition remove_entry :: "hash_bytes \<Rightarrow> tx_mem_pool \<Rightarrow> mempool_entry option \<times> tx_mem_pool" where
  "remove_entry tx_id pool =
     (case fmlookup (mp_entries pool) tx_id of
        None \<Rightarrow> (None, pool)
      | Some entry \<Rightarrow>
          let entries = fmdrop tx_id (mp_entries pool)
          in (Some entry,
              pool\<lparr>mp_entries := foldl (modify_entry (drop_descendant entry)) entries (collect_ancestors_from_entries entries entry),
                mp_spenders := foldl (\<lambda>spenders op. fmdrop op spenders) (mp_spenders pool) (mp_prevouts (me_tx entry)),
                mp_total_fee := mp_total_fee pool - me_fee entry\<rparr>))"

text \<open>The loop of \<open>remove_recursive\<close> does for each transaction what \<open>remove_entry\<close> does.\<close>

fun remove_all :: "hash_bytes list \<Rightarrow> tx_mem_pool \<Rightarrow> transaction list \<times> tx_mem_pool" where
  "remove_all [] pool = ([], pool)"
| "remove_all (tx_id # rest) pool =
     (case remove_entry tx_id pool of
        (None, pool) \<Rightarrow> remove_all rest pool
      | (Some entry, pool) \<Rightarrow> let (removed, pool) = remove_all rest pool in (me_tx entry # removed, pool))"

definition remove_recursive :: "hash_bytes \<Rightarrow> tx_mem_pool \<Rightarrow> transaction list \<times> tx_mem_pool" where
  "remove_recursive tx_id pool =
     (if fmlookup (mp_entries pool) tx_id = None then ([], pool)
      else remove_all (tx_id # collect_descendants_locked (mp_entries pool) (mp_spenders pool) tx_id) pool)"

definition remove_for_block :: "hash_bytes list \<Rightarrow> tx_mem_pool \<Rightarrow> tx_mem_pool" where
  "remove_for_block txids pool = fold (\<lambda>tx_id pool. snd (remove_entry tx_id pool)) txids pool"

definition mp_clear :: "tx_mem_pool \<Rightarrow> tx_mem_pool" where
  "mp_clear pool = pool\<lparr>mp_entries := fmempty, mp_spenders := fmempty, mp_total_fee := 0\<rparr>"

section \<open>Queries\<close>

definition mp_exists :: "tx_mem_pool \<Rightarrow> hash_bytes \<Rightarrow> bool" where
  "mp_exists pool tx_id \<longleftrightarrow> fmlookup (mp_entries pool) tx_id \<noteq> None"

definition mp_get :: "tx_mem_pool \<Rightarrow> hash_bytes \<Rightarrow> transaction option" where
  "mp_get pool tx_id = map_option me_tx (fmlookup (mp_entries pool) tx_id)"

definition get_entry :: "tx_mem_pool \<Rightarrow> hash_bytes \<Rightarrow> mempool_entry option" where
  "get_entry pool tx_id = fmlookup (mp_entries pool) tx_id"

definition mp_size :: "tx_mem_pool \<Rightarrow> nat" where
  "mp_size pool = card (fmdom' (mp_entries pool))"

definition is_spent :: "tx_mem_pool \<Rightarrow> outpoint \<Rightarrow> bool" where
  "is_spent pool op \<longleftrightarrow> fmlookup (mp_spenders pool) op \<noteq> None"

definition get_spender :: "tx_mem_pool \<Rightarrow> outpoint \<Rightarrow> hash_bytes option" where
  "get_spender pool op = fmlookup (mp_spenders pool) op"

text \<open>A sum over the entries.\<close>

definition pool_sum :: "(mempool_entry \<Rightarrow> 'a::comm_monoid_add) \<Rightarrow> pool_entries \<Rightarrow> 'a" where
  "pool_sum f entries = (\<Sum>t\<in>fmdom' entries. case fmlookup entries t of Some e \<Rightarrow> f e | None \<Rightarrow> 0)"

definition pool_bytes :: "tx_mem_pool \<Rightarrow> u64" where
  "pool_bytes pool = pool_sum (\<lambda>e. ucast (me_vsize e)) (mp_entries pool)"

record mempool_info =
  mi_size :: nat
  mi_bytes :: u64
  mi_usage :: u64
  mi_total_fee :: amount
  mi_min_fee :: fee_rate

definition mp_info :: "tx_mem_pool \<Rightarrow> mempool_info" where
  "mp_info pool =
     \<lparr>mi_size = mp_size pool, mi_bytes = pool_bytes pool,
      mi_usage = pool_sum (\<lambda>e. 264 + of_nat (get_total_size (me_tx e))) (mp_entries pool),
      mi_total_fee = mp_total_fee pool, mi_min_fee = mp_min_relay_fee pool\<rparr>"

definition has_room :: "tx_mem_pool \<Rightarrow> u32 \<Rightarrow> bool" where
  "has_room pool vsize \<longleftrightarrow> pool_bytes pool + ucast vsize \<le> mp_max_mempool_size pool"

definition calculate_ancestors :: "tx_mem_pool \<Rightarrow> hash_bytes \<Rightarrow> u64 \<times> u64 \<times> amount" where
  "calculate_ancestors pool tx_id =
     (case fmlookup (mp_entries pool) tx_id of
        Some e \<Rightarrow> (me_ancestor_count e, me_ancestor_size e, me_ancestor_fee e)
      | None \<Rightarrow> (0, 0, 0))"

definition calculate_descendants :: "tx_mem_pool \<Rightarrow> hash_bytes \<Rightarrow> u64 \<times> u64 \<times> amount" where
  "calculate_descendants pool tx_id =
     (case fmlookup (mp_entries pool) tx_id of
        Some e \<Rightarrow> (me_descendant_count e, me_descendant_size e, me_descendant_fee e)
      | None \<Rightarrow> (0, 0, 0))"

text \<open>The values of a map in the order of its traversal.\<close>

type_synonym traversal = "pool_entries \<Rightarrow> mempool_entry list"

definition estimate_fee_rate :: "traversal \<Rightarrow> tx_mem_pool \<Rightarrow> fee_rate" where
  "estimate_fee_rate values pool =
     (if mp_entries pool = fmempty then DEFAULT_MIN_RELAY_TX_FEE
      else
        let rates = sort (map (\<lambda>e. sint (me_fee_rate e)) (values (mp_entries pool)))
        in word_of_int (max (rates ! (length rates div 2)) (sint DEFAULT_MIN_RELAY_TX_FEE)))"


section \<open>Eviction\<close>

definition descendant_rate :: "mempool_entry \<Rightarrow> int" where
  "descendant_rate e =
     (if me_descendant_size e > 0 then sint (i64_div (me_descendant_fee e * 1000) (me_descendant_size e)) else 2 ^ 63 - 1)"

text \<open>\<open>min_by_key\<close> returns the first of the smallest.\<close>

definition min_by_rate :: "mempool_entry list \<Rightarrow> mempool_entry option" where
  "min_by_rate es =
     foldl (\<lambda>best e. case best of None \<Rightarrow> Some e | Some b \<Rightarrow> if descendant_rate e < descendant_rate b then Some e else Some b) None es"

partial_function (option) trim_to_size :: "crypto \<Rightarrow> traversal \<Rightarrow> tx_mem_pool \<Rightarrow> tx_mem_pool option" where
  "trim_to_size C values pool =
     (if pool_bytes pool \<le> mp_max_mempool_size pool then Some pool
      else case min_by_rate (values (mp_entries pool)) of
          None \<Rightarrow> Some pool
        | Some e \<Rightarrow> trim_to_size C values (snd (remove_recursive (txid C (me_tx e)) pool)))"

definition expire_old :: "crypto \<Rightarrow> traversal \<Rightarrow> u64 \<Rightarrow> u64 \<Rightarrow> tx_mem_pool \<Rightarrow> nat \<times> tx_mem_pool" where
  "expire_old C values now expiry_hours pool =
     (let cutoff = u64_saturating_sub now (expiry_hours * 3600);
          expired = map (\<lambda>e. txid C (me_tx e)) (filter (\<lambda>e. me_time e < cutoff) (values (mp_entries pool)))
      in (length expired, fold (\<lambda>tx_id pool. snd (remove_recursive tx_id pool)) expired pool))"

section \<open>Limits\<close>

definition check_ancestor_limits :: "mempool_entry \<Rightarrow> string + unit" where
  "check_ancestor_limits entry =
     (if me_ancestor_count entry > DEFAULT_ANCESTOR_LIMIT
      then Inl (''too many unconfirmed ancestors [limit: '' @ show_nat (unat DEFAULT_ANCESTOR_LIMIT) @ '']'')
      else if me_ancestor_size entry > DEFAULT_ANCESTOR_SIZE_LIMIT
      then Inl (''exceeds ancestor size limit [limit: '' @ show_nat (unat DEFAULT_ANCESTOR_SIZE_LIMIT) @ '']'')
      else Inr ())"

fun check_parent_limits :: "pool_entries \<Rightarrow> u32 \<Rightarrow> hash_bytes list \<Rightarrow> string + unit" where
  "check_parent_limits entries vsize [] = Inr ()"
| "check_parent_limits entries vsize (parent_txid # rest) =
     (case fmlookup entries parent_txid of
        None \<Rightarrow> check_parent_limits entries vsize rest
      | Some parent \<Rightarrow>
          if me_descendant_count parent + 1 > DEFAULT_DESCENDANT_LIMIT
          then Inl (''exceeds descendant limit [limit: '' @ show_nat (unat DEFAULT_DESCENDANT_LIMIT) @ '']'')
          else if me_descendant_size parent + ucast vsize > DEFAULT_DESCENDANT_SIZE_LIMIT
          then Inl (''exceeds descendant size limit [limit: '' @ show_nat (unat DEFAULT_DESCENDANT_SIZE_LIMIT) @ '']'')
          else check_parent_limits entries vsize rest)"

definition check_descendant_limits :: "tx_mem_pool \<Rightarrow> mempool_entry \<Rightarrow> string + unit" where
  "check_descendant_limits pool entry =
     check_parent_limits (mp_entries pool) (me_vsize entry) (map prev_txid (mp_prevouts (me_tx entry)))"

section \<open>Replacement\<close>

text \<open>Appending what is not there yet.\<close>

definition push_new :: "'a \<Rightarrow> 'a list \<Rightarrow> 'a list" where
  "push_new x xs = (if x \<in> set xs then xs else xs @ [x])"

definition direct_conflicts :: "pool_spenders \<Rightarrow> transaction \<Rightarrow> hash_bytes list" where
  "direct_conflicts spenders tx = fold push_new (List.map_filter (fmlookup spenders) (mp_prevouts tx)) []"

definition signals_rbf :: "mempool_entry \<Rightarrow> bool" where
  "signals_rbf e \<longleftrightarrow> list_ex (\<lambda>inp. in_sequence inp < 0xfffffffe) (tx_vin (me_tx e))"

definition not_signalling :: "pool_entries \<Rightarrow> hash_bytes list \<Rightarrow> hash_bytes option" where
  "not_signalling entries conflicts =
     find (\<lambda>t. case fmlookup entries t of Some e \<Rightarrow> \<not> signals_rbf e | None \<Rightarrow> False) conflicts"

text \<open>The conflicts with their descendants; a conflict is pushed even if it is there already.\<close>

definition evicted_by :: "pool_entries \<Rightarrow> pool_spenders \<Rightarrow> hash_bytes list \<Rightarrow> hash_bytes list" where
  "evicted_by entries spenders conflicts =
     foldl (\<lambda>all t. fold push_new (collect_descendants_locked entries spenders t) (all @ [t])) [] conflicts"

definition evicted_fee :: "pool_entries \<Rightarrow> hash_bytes list \<Rightarrow> i64" where
  "evicted_fee entries evicted = sum_list (map me_fee (List.map_filter (fmlookup entries) evicted))"

definition check_rbf :: "tx_mem_pool \<Rightarrow> mempool_entry \<Rightarrow> string + hash_bytes list" where
  "check_rbf pool entry =
     (let entries = mp_entries pool; spenders = mp_spenders pool; conflicts = direct_conflicts spenders (me_tx entry) in
      if conflicts = [] then Inr []
      else case (if mp_full_rbf pool then None else not_signalling entries conflicts) of
          Some t \<Rightarrow> Inl (''txn-mempool-conflict: conflicting tx '' @ hash_to_hex t @ '' does not signal BIP125 replaceability'')
        | None \<Rightarrow>
            let evicted = evicted_by entries spenders conflicts in
            case find (\<lambda>t. t \<in> set evicted) (map prev_txid (mp_prevouts (me_tx entry))) of
              Some t \<Rightarrow> Inl (''bad-txns-spends-conflicting-tx: replacement spends output of tx being replaced ('' @ hash_to_hex t @ '')'')
            | None \<Rightarrow>
                if length evicted > MAX_BIP125_REPLACEMENT_CANDIDATES
                then Inl (''too many potential replacements [limit: '' @ show_nat MAX_BIP125_REPLACEMENT_CANDIDATES @ '']'')
                else
                  let total = evicted_fee entries evicted in
                  if sint (me_fee entry) \<le> sint total
                  then Inl (''insufficient fee: replacement pays '' @ show_int (sint (me_fee entry)) @ '' but must exceed evicted total '' @
                         show_int (sint total))
                  else
                    let required = total + get_fee (mp_incremental_relay_fee pool) (unat (me_vsize entry)) in
                    if sint (me_fee entry) < sint required
                    then Inl (''insufficient fee: replacement pays '' @ show_int (sint (me_fee entry)) @ '' but needs at least '' @
                           show_int (sint required) @ '' (evicted + relay)'')
                    else Inr evicted)"

definition mp_replace :: "crypto \<Rightarrow> tx_mem_pool \<Rightarrow> mempool_entry \<Rightarrow> hash_bytes list \<Rightarrow> bool \<times> tx_mem_pool" where
  "mp_replace C pool entry evict_txids = add_unchecked C (fold (\<lambda>t pool. snd (remove_recursive t pool)) evict_txids pool) entry"

section \<open>Acceptance\<close>

datatype mempool_accept_result = Accepted hash_bytes | Rejected string

definition accept_to_mempool :: "crypto \<Rightarrow> tx_mem_pool \<Rightarrow> transaction \<Rightarrow> amount \<Rightarrow> u32 \<Rightarrow> int \<Rightarrow> mempool_accept_result \<times> tx_mem_pool" where
  "accept_to_mempool C pool tx fee vsize height =
     (let tx_id = txid C tx in
      if mp_exists pool tx_id then (Rejected (''txn-already-in-mempool: '' @ hash_to_hex tx_id), pool)
      else case find (\<lambda>out. is_dust out DUST_RELAY_TX_FEE) (tx_vout tx) of
          Some out \<Rightarrow>
            (Rejected (''dust: output value '' @ show_int (sint (out_value out)) @ '' below dust threshold '' @
               show_int (sint (get_dust_threshold out DUST_RELAY_TX_FEE))), pool)
        | None \<Rightarrow>
            if sint (rate_of fee vsize) < sint (mp_min_relay_fee pool)
            then (Rejected (''min-relay-fee-not-met: '' @ show_fee_rate (rate_of fee vsize) @ '' < '' @ show_fee_rate (mp_min_relay_fee pool)), pool)
            else
              let entry = mempool_entry_new tx fee vsize 0 height False 0 in
              case check_rbf pool entry of
                Inl reason \<Rightarrow> (Rejected reason, pool)
              | Inr evicted \<Rightarrow>
                  (case check_descendant_limits pool entry of
                     Inl reason \<Rightarrow> (Rejected reason, pool)
                   | Inr _ \<Rightarrow>
                       if \<not> has_room pool vsize then (Rejected ''mempool-full'', pool)
                       else (Accepted tx_id, snd (if evicted = [] then add_unchecked C pool entry else mp_replace C pool entry evicted))))"

definition verify_mempool_tx_scripts :: "crypto \<Rightarrow> 'k secp_scheme \<Rightarrow> transaction \<Rightarrow> tx_out list \<Rightarrow> string + unit" where
  "verify_mempool_tx_scripts C K tx spent_outputs =
     (if is_coinbase tx then Inl ''coinbase''
      else if length spent_outputs \<noteq> length (tx_vin tx)
      then Inl (''bad-txns-inputs-missingorspent: resolved '' @ show_nat (length spent_outputs) @ '' of '' @ show_nat (length (tx_vin tx)) @ '' input(s)'')
      else
        let precomputed = precomputed_new C tx spent_outputs;
            checks = map (\<lambda>(input_idx, input).
              \<lparr>sc_script_pubkey = out_script_pubkey (spent_outputs ! input_idx), sc_script_sig = in_script_sig input,
               sc_witness = in_witness input, sc_flags = STANDARD_SCRIPT_VERIFY_FLAGS, sc_amount = out_value (spent_outputs ! input_idx),
               sc_tx_index = 0, sc_input_index = input_idx, sc_tx = Some tx, sc_precomputed = Some precomputed\<rparr>) (enumerate 0 (tx_vin tx))
        in case verify_scripts_parallel C K checks of
             Inr _ \<Rightarrow> Inr ()
           | Inl e \<Rightarrow> Inl (''mandatory-script-verify-flag-failed (input '' @ show_nat (sce_input_index e) @ '': '' @
                        script_error_name (sce_error e) @ '')''))"

section \<open>Descendants\<close>

text \<open>A transaction and one that spends an output of it.\<close>

definition child_rel :: "pool_entries \<Rightarrow> pool_spenders \<Rightarrow> (hash_bytes \<times> hash_bytes) set" where
  "child_rel entries spenders =
     {(t, c). \<exists>e i. fmlookup entries t = Some e \<and> i < length (tx_vout (me_tx e)) \<and>
        fmlookup spenders \<lparr>prev_txid = t, prev_index = of_nat i\<rparr> = Some c}"

lemma descendants_loop_exact:
  "set queue \<subseteq> visited \<Longrightarrow> visited \<subseteq> (child_rel entries spenders)\<^sup>* `` {root} \<Longrightarrow> root \<in> visited \<Longrightarrow>
    (\<forall>t\<in>visited - set queue. \<forall>c. (t, c) \<in> child_rel entries spenders \<longrightarrow> c \<in> visited) \<Longrightarrow> visited = insert root (set acc) \<Longrightarrow> root \<notin> set acc \<Longrightarrow> distinct acc \<Longrightarrow>
    insert root (set (descendants_loop entries spenders queue visited acc)) = (child_rel entries spenders)\<^sup>* `` {root} \<and>
    root \<notin> set (descendants_loop entries spenders queue visited acc) \<and> distinct (descendants_loop entries spenders queue visited acc)"
proof (induction entries spenders queue visited acc rule: descendants_loop.induct)
  case (1 entries spenders visited acc)
  have "t \<in> visited" if "(root, t) \<in> (child_rel entries spenders)\<^sup>*" for t
    using that by (induction rule: rtrancl_induct) (use "1.prems" in auto)
  then have "visited = (child_rel entries spenders)\<^sup>* `` {root}" using "1.prems"(2) by auto
  then show ?case using "1.prems"(5-7) by simp
next
  case (2 entries spenders cur queue visited acc)
  let ?R = "child_rel entries spenders"
  show ?case
  proof (cases "fmlookup entries cur")
    case None
    then have none: "(cur, c) \<notin> ?R" for c by (auto simp: child_rel_def)
    have closed: "\<forall>t\<in>visited - set queue. \<forall>c. (t, c) \<in> ?R \<longrightarrow> c \<in> visited"
    proof (intro ballI allI impI)
      fix t c assume t: "t \<in> visited - set queue" "(t, c) \<in> ?R"
      then have "t \<in> visited - set (cur # queue)" using none by (cases "t = cur") simp_all
      with "2.prems"(4) t(2) show "c \<in> visited" by blast
    qed
    have "set queue \<subseteq> visited" using "2.prems"(1) by simp
    from "2.IH"(1) [OF None this "2.prems"(2,3) closed "2.prems"(5-7)] show ?thesis using None by simp
  next
    case (Some e)
    obtain visited' new where n: "new_children spenders cur (length (tx_vout (me_tx e))) visited = (visited', new)" by fastforce
    note f = new_children_facts [OF n]
    have cs: "set new = {c. (cur, c) \<in> ?R} - visited" using f(4) Some by (auto simp: child_rel_def)
    have "set (rev new @ queue) \<subseteq> visited'" using "2.prems"(1) f(1) by auto
    moreover have "visited' \<subseteq> ?R\<^sup>* `` {root}"
    proof -
      have "cur \<in> ?R\<^sup>* `` {root}" using "2.prems"(1,2) by auto
      then have "set new \<subseteq> ?R\<^sup>* `` {root}" using cs by (auto intro: rtrancl_into_rtrancl)
      then show ?thesis using f(1) "2.prems"(2) by auto
    qed
    moreover have "root \<in> visited'" using f(1) "2.prems"(3) by simp
    moreover have "\<forall>t\<in>visited' - set (rev new @ queue). \<forall>c. (t, c) \<in> ?R \<longrightarrow> c \<in> visited'"
    proof (intro ballI allI impI)
      fix t c assume t: "t \<in> visited' - set (rev new @ queue)" and c: "(t, c) \<in> ?R"
      show "c \<in> visited'"
      proof (cases "t = cur")
        case True
        then show ?thesis using c cs f(1) by auto
      next
        case False
        then have "t \<in> visited - set (cur # queue)" using t f(1) by auto
        with "2.prems"(4) c have "c \<in> visited" by blast
        then show ?thesis using f(1) by simp
      qed
    qed
    moreover have "visited' = insert root (set (acc @ new))" "root \<notin> set (acc @ new)" "distinct (acc @ new)"
      using f(1-3) "2.prems"(3,5-7) by auto
    ultimately show ?thesis using "2.IH"(2) [OF Some n [symmetric] refl] Some n by simp
  qed
qed

lemma collect_descendants_exact:
  "insert t (set (collect_descendants_locked entries spenders t)) = (child_rel entries spenders)\<^sup>* `` {t} \<and>
   t \<notin> set (collect_descendants_locked entries spenders t) \<and> distinct (collect_descendants_locked entries spenders t)"
  unfolding collect_descendants_locked_def by (rule descendants_loop_exact) auto

section \<open>What the statistics do not touch\<close>

definition pool_core :: "pool_entries \<Rightarrow> hash_bytes \<rightharpoonup> transaction \<times> amount \<times> u32 \<times> u64" where
  "pool_core entries t = map_option (\<lambda>e. (me_tx e, me_fee e, me_vsize e, me_time e)) (fmlookup entries t)"

definition keeps_core :: "(mempool_entry \<Rightarrow> mempool_entry) \<Rightarrow> bool" where
  "keeps_core f \<longleftrightarrow> (\<forall>e. me_tx (f e) = me_tx e \<and> me_fee (f e) = me_fee e \<and> me_vsize (f e) = me_vsize e \<and> me_time (f e) = me_time e)"

lemma keeps_core_updates [simp]: "keeps_core (add_descendant e)" "keeps_core (drop_descendant e)"
  by (simp_all add: keeps_core_def add_descendant_def drop_descendant_def)

lemma pool_core_modify: "keeps_core f \<Longrightarrow> pool_core (modify_entry f entries t) = pool_core entries"
  by (rule ext) (auto simp: pool_core_def modify_entry_def keeps_core_def split: option.splits)

lemma pool_core_modify_all: "keeps_core f \<Longrightarrow> pool_core (foldl (modify_entry f) entries ts) = pool_core entries"
  by (induction ts arbitrary: entries) (simp_all add: pool_core_modify)

lemma pool_core_drop: "pool_core (fmdrop t entries) = (pool_core entries)(t := None)"
  by (rule ext) (simp add: pool_core_def)

lemma pool_core_upd: "pool_core (fmupd t e entries) = (pool_core entries)(t \<mapsto> (me_tx e, me_fee e, me_vsize e, me_time e))"
  by (rule ext) (simp add: pool_core_def)

lemma pool_core_dom: "dom (pool_core entries) = fmdom' entries"
  by (auto simp: pool_core_def dom_def fmlookup_dom'_iff)

lemma pool_core_None: "pool_core entries t = None \<longleftrightarrow> fmlookup entries t = None"
  by (simp add: pool_core_def)

lemma add_parents_core:
  "me_tx (foldl (add_parent es) e ps) = me_tx e \<and> me_fee (foldl (add_parent es) e ps) = me_fee e \<and>
   me_vsize (foldl (add_parent es) e ps) = me_vsize e \<and> me_time (foldl (add_parent es) e ps) = me_time e"
  by (induction ps arbitrary: e) (auto simp: add_parent_def split: option.splits)

lemma upd_all_lookup: "fmlookup (foldl (\<lambda>sp op. fmupd op t sp) sp ops) op = (if op \<in> set ops then Some t else fmlookup sp op)"
  by (induction ops arbitrary: sp) auto

lemma drop_all_lookup: "fmlookup (foldl (\<lambda>sp op. fmdrop op sp) sp ops) op = (if op \<in> set ops then None else fmlookup sp op)"
  by (induction ops arbitrary: sp) auto

text \<open>What adding and removing do to a pool.\<close>

lemma add_unchecked_core:
  assumes "fmlookup (mp_entries pool) (txid C (me_tx e)) = None"
  defines "pool' \<equiv> snd (add_unchecked C pool e)"
  shows "fst (add_unchecked C pool e)"
    "pool_core (mp_entries pool') = (pool_core (mp_entries pool))(txid C (me_tx e) \<mapsto> (me_tx e, me_fee e, me_vsize e, me_time e))"
    "fmlookup (mp_spenders pool') op = (if op \<in> set (mp_prevouts (me_tx e)) then Some (txid C (me_tx e)) else fmlookup (mp_spenders pool) op)"
    "mp_total_fee pool' = mp_total_fee pool + me_fee e" "mp_max_mempool_size pool' = mp_max_mempool_size pool"
    "mp_incremental_relay_fee pool' = mp_incremental_relay_fee pool"
  using assms
  by (simp_all add: add_unchecked_def Let_def pool_core_upd pool_core_modify_all add_parents_core upd_all_lookup)

lemma remove_entry_core:
  assumes "fmlookup (mp_entries pool) t = Some e"
  defines "pool' \<equiv> snd (remove_entry t pool)"
  shows "fst (remove_entry t pool) = Some e"
    "pool_core (mp_entries pool') = (pool_core (mp_entries pool))(t := None)"
    "fmlookup (mp_spenders pool') op = (if op \<in> set (mp_prevouts (me_tx e)) then None else fmlookup (mp_spenders pool) op)"
    "mp_total_fee pool' = mp_total_fee pool - me_fee e" "mp_max_mempool_size pool' = mp_max_mempool_size pool"
    "mp_incremental_relay_fee pool' = mp_incremental_relay_fee pool"
  using assms
  by (simp_all add: remove_entry_def Let_def pool_core_drop pool_core_modify_all drop_all_lookup)

section \<open>The invariant of the pool\<close>

text \<open>Entries are filed under their identifier, the table of spenders lists exactly the outputs that the entries spend, so that no two
  of them spend the same output, and the total fee is the sum of the fees.\<close>

definition pool_ok :: "crypto \<Rightarrow> tx_mem_pool \<Rightarrow> bool" where
  "pool_ok C pool \<longleftrightarrow>
     (\<forall>t e. fmlookup (mp_entries pool) t = Some e \<longrightarrow> txid C (me_tx e) = t) \<and>
     (\<forall>op t. fmlookup (mp_spenders pool) op = Some t \<longleftrightarrow>
        (\<exists>e. fmlookup (mp_entries pool) t = Some e \<and> op \<in> set (mp_prevouts (me_tx e)))) \<and>
     mp_total_fee pool = pool_sum me_fee (mp_entries pool)"

definition core_sum :: "(hash_bytes \<rightharpoonup> transaction \<times> amount \<times> u32 \<times> u64) \<Rightarrow> amount" where
  "core_sum m = (\<Sum>t\<in>dom m. fst (snd (the (m t))))"

definition core_ok :: "crypto \<Rightarrow> (hash_bytes \<rightharpoonup> transaction \<times> amount \<times> u32 \<times> u64) \<Rightarrow> (outpoint \<rightharpoonup> hash_bytes) \<Rightarrow> i64 \<Rightarrow> bool" where
  "core_ok C m sp fee \<longleftrightarrow> finite (dom m) \<and> (\<forall>t x. m t = Some x \<longrightarrow> txid C (fst x) = t) \<and>
     (\<forall>op t. sp op = Some t \<longleftrightarrow> (\<exists>x. m t = Some x \<and> op \<in> set (mp_prevouts (fst x)))) \<and> fee = core_sum m"

lemma core_sum_pool: "pool_sum me_fee entries = core_sum (pool_core entries)"
  unfolding pool_sum_def core_sum_def pool_core_dom
  by (rule sum.cong) (auto simp: pool_core_def fmlookup_dom'_iff split: option.splits)

lemma pool_ok_core: "pool_ok C pool \<longleftrightarrow> core_ok C (pool_core (mp_entries pool)) (fmlookup (mp_spenders pool)) (mp_total_fee pool)"
proof -
  have "finite (dom (pool_core (mp_entries pool)))" by (simp add: pool_core_dom)
  then show ?thesis
    unfolding pool_ok_def core_ok_def core_sum_pool by (auto simp: pool_core_def)
qed

lemma core_sum_upd: "finite (dom m) \<Longrightarrow> m t = None \<Longrightarrow> core_sum (m(t \<mapsto> x)) = core_sum m + fst (snd x)"
  by (auto simp: core_sum_def sum.insert_if domIff intro!: sum.cong)

lemma core_sum_drop:
  assumes "finite (dom m)" "m t = Some x"
  shows "core_sum (m(t := None)) = core_sum m - fst (snd x)"
proof -
  have "core_sum ((m(t := None))(t \<mapsto> x)) = core_sum (m(t := None)) + fst (snd x)"
    using assms(1) by (intro core_sum_upd) simp_all
  moreover have "(m(t := None))(t \<mapsto> x) = m" using assms(2) by auto
  ultimately show ?thesis by simp
qed

lemma core_ok_add:
  assumes "core_ok C m sp fee" "m (txid C (fst x)) = None" "\<forall>op\<in>set (mp_prevouts (fst x)). sp op = None"
  shows "core_ok C (m(txid C (fst x) \<mapsto> x)) (\<lambda>op. if op \<in> set (mp_prevouts (fst x)) then Some (txid C (fst x)) else sp op) (fee + fst (snd x))"
proof -
  let ?id = "txid C (fst x)"
  have s: "sp op = Some t \<longleftrightarrow> (\<exists>y. m t = Some y \<and> op \<in> set (mp_prevouts (fst y)))" for op t using assms(1) by (simp add: core_ok_def)
  have a: "(if op \<in> set (mp_prevouts (fst x)) then Some ?id else sp op) = Some t \<longleftrightarrow>
      (\<exists>y. (m(?id \<mapsto> x)) t = Some y \<and> op \<in> set (mp_prevouts (fst y)))" for op t
  proof (cases "t = ?id")
    case True
    then show ?thesis using s [of op ?id] assms(2) by auto
  next
    case False
    then show ?thesis using s [of op t] assms(3) by auto
  qed
  have b: "\<forall>t y. (m(?id \<mapsto> x)) t = Some y \<longrightarrow> txid C (fst y) = t" using assms(1) by (auto simp: core_ok_def)
  have c: "finite (dom m)" "fee = core_sum m" using assms(1) by (simp_all add: core_ok_def)
  have d: "finite (dom (m(?id \<mapsto> x)))" using c(1) by simp
  show ?thesis unfolding core_ok_def core_sum_upd [OF c(1) assms(2)] c(2) using a b d by (intro conjI) (assumption | rule refl | blast)+
qed

lemma core_ok_remove:
  assumes "core_ok C m sp fee" "m t = Some x"
  shows "core_ok C (m(t := None)) (\<lambda>op. if op \<in> set (mp_prevouts (fst x)) then None else sp op) (fee - fst (snd x))"
proof -
  have s: "sp op = Some t' \<longleftrightarrow> (\<exists>y. m t' = Some y \<and> op \<in> set (mp_prevouts (fst y)))" for op t' using assms(1) by (simp add: core_ok_def)
  have a: "(if op \<in> set (mp_prevouts (fst x)) then None else sp op) = Some t' \<longleftrightarrow>
      (\<exists>y. (m(t := None)) t' = Some y \<and> op \<in> set (mp_prevouts (fst y)))" for op t'
  proof (cases "op \<in> set (mp_prevouts (fst x))")
    case True
    then have "sp op = Some t" using s [of op t] assms(2) by auto
    then show ?thesis using True s [of op t'] by auto
  next
    case False
    then show ?thesis using s [of op t'] assms(2) by auto
  qed
  have b: "\<forall>t' y. (m(t := None)) t' = Some y \<longrightarrow> txid C (fst y) = t'" using assms(1) by (auto simp: core_ok_def)
  have c: "finite (dom m)" "fee = core_sum m" using assms(1) by (simp_all add: core_ok_def)
  have d: "finite (dom (m(t := None)))" using c(1) by simp
  show ?thesis unfolding core_ok_def core_sum_drop [OF c(1) assms(2)] c(2) using a b d by (intro conjI) (assumption | rule refl | blast)+
qed


lemma pool_ok_new: "pool_ok C (new_with_limits r n)"
  by (simp add: pool_ok_def new_with_limits_def pool_sum_def)

lemma pool_ok_clear: "pool_ok C (mp_clear pool)"
  by (simp add: pool_ok_def mp_clear_def pool_sum_def)

lemma add_unchecked_ok:
  assumes "pool_ok C pool" "fmlookup (mp_entries pool) (txid C (me_tx e)) = None"
    "\<forall>op\<in>set (mp_prevouts (me_tx e)). fmlookup (mp_spenders pool) op = None"
  shows "pool_ok C (snd (add_unchecked C pool e))"
proof -
  let ?x = "(me_tx e, me_fee e, me_vsize e, me_time e)" and ?p = "snd (add_unchecked C pool e)"
  note a = add_unchecked_core [OF assms(2)]
  have "fmlookup (mp_spenders ?p) = (\<lambda>op. if op \<in> set (mp_prevouts (me_tx e)) then Some (txid C (me_tx e)) else fmlookup (mp_spenders pool) op)"
    by (rule ext) (rule a(3))
  moreover have "pool_core (mp_entries pool) (txid C (fst ?x)) = None" "\<forall>op\<in>set (mp_prevouts (fst ?x)). fmlookup (mp_spenders pool) op = None"
    using assms(2,3) by (simp_all add: pool_core_None)
  note c = core_ok_add [OF assms(1) [unfolded pool_ok_core] this, unfolded fst_conv snd_conv]
  ultimately show ?thesis unfolding pool_ok_core a(2,4) by (simp only: c)
qed

lemma remove_entry_ok:
  assumes "pool_ok C pool"
  shows "pool_ok C (snd (remove_entry t pool))"
proof (cases "fmlookup (mp_entries pool) t")
  case None
  then show ?thesis using assms by (simp add: remove_entry_def)
next
  case (Some e)
  note r = remove_entry_core [OF Some]
  let ?x = "(me_tx e, me_fee e, me_vsize e, me_time e)" and ?p = "snd (remove_entry t pool)"
  have "fmlookup (mp_spenders ?p) = (\<lambda>op. if op \<in> set (mp_prevouts (me_tx e)) then None else fmlookup (mp_spenders pool) op)"
    by (rule ext) (rule r(3))
  moreover have "pool_core (mp_entries pool) t = Some ?x" using Some by (simp add: pool_core_def)
  ultimately show ?thesis
    using core_ok_remove [of C "pool_core (mp_entries pool)" "fmlookup (mp_spenders pool)" "mp_total_fee pool" t ?x] assms r(2,4)
    by (simp add: pool_ok_core)
qed

text \<open>Removing a list of transactions.\<close>

lemma remove_entry_keeps:
  "mp_max_mempool_size (snd (remove_entry t pool)) = mp_max_mempool_size pool"
  "mp_incremental_relay_fee (snd (remove_entry t pool)) = mp_incremental_relay_fee pool"
  "pool_core (mp_entries (snd (remove_entry t pool))) = (pool_core (mp_entries pool))(t := None)"
proof -
  have "pool_core (mp_entries pool) t = None \<Longrightarrow> (pool_core (mp_entries pool))(t := None) = pool_core (mp_entries pool)" by auto
  then show "mp_max_mempool_size (snd (remove_entry t pool)) = mp_max_mempool_size pool"
    "mp_incremental_relay_fee (snd (remove_entry t pool)) = mp_incremental_relay_fee pool"
    "pool_core (mp_entries (snd (remove_entry t pool))) = (pool_core (mp_entries pool))(t := None)"
    using remove_entry_core [of pool t] by (cases "fmlookup (mp_entries pool) t"; simp add: remove_entry_def pool_core_None)+
qed

lemma remove_all_snd: "snd (remove_all (t # ts) pool) = snd (remove_all ts (snd (remove_entry t pool)))"
  by (cases "remove_entry t pool"; cases "fst (remove_entry t pool)") (simp_all split: prod.splits)

lemma remove_all_facts:
  "(pool_ok C pool \<longrightarrow> pool_ok C (snd (remove_all ts pool))) \<and>
   pool_core (mp_entries (snd (remove_all ts pool))) = (\<lambda>t. if t \<in> set ts then None else pool_core (mp_entries pool) t) \<and>
   mp_max_mempool_size (snd (remove_all ts pool)) = mp_max_mempool_size pool \<and>
   mp_incremental_relay_fee (snd (remove_all ts pool)) = mp_incremental_relay_fee pool"
proof (induction ts arbitrary: pool)
  case (Cons t ts)
  have "(\<lambda>u. if u \<in> set ts then None else ((pool_core (mp_entries pool))(t := None)) u) =
      (\<lambda>u. if u \<in> set (t # ts) then None else pool_core (mp_entries pool) u)" by auto
  then show ?case
    using Cons.IH [of "snd (remove_entry t pool)"] remove_entry_ok [of C pool t]
    by (simp only: remove_all_snd remove_entry_keeps) blast
qed simp

lemma remove_recursive_facts:
  "(pool_ok C pool \<longrightarrow> pool_ok C (snd (remove_recursive t pool))) \<and>
   mp_max_mempool_size (snd (remove_recursive t pool)) = mp_max_mempool_size pool \<and>
   mp_incremental_relay_fee (snd (remove_recursive t pool)) = mp_incremental_relay_fee pool"
  using remove_all_facts [of C pool "t # collect_descendants_locked (mp_entries pool) (mp_spenders pool) t"]
  by (simp add: remove_recursive_def del: remove_all.simps)

lemma remove_recursive_core:
  assumes "fmlookup (mp_entries pool) t \<noteq> None"
  shows "pool_core (mp_entries (snd (remove_recursive t pool))) =
    (\<lambda>u. if (t, u) \<in> (child_rel (mp_entries pool) (mp_spenders pool))\<^sup>* then None else pool_core (mp_entries pool) u)"
proof -
  let ?ds = "collect_descendants_locked (mp_entries pool) (mp_spenders pool) t"
  have "u \<in> set (t # ?ds) \<longleftrightarrow> (t, u) \<in> (child_rel (mp_entries pool) (mp_spenders pool))\<^sup>*" for u
    using collect_descendants_exact [of t "mp_entries pool" "mp_spenders pool"] by auto
  then have "(\<lambda>u. if u \<in> set (t # ?ds) then None else pool_core (mp_entries pool) u) =
      (\<lambda>u. if (t, u) \<in> (child_rel (mp_entries pool) (mp_spenders pool))\<^sup>* then None else pool_core (mp_entries pool) u)" by presburger
  moreover have "snd (remove_recursive t pool) = snd (remove_all (t # ?ds) pool)"
    using assms by (auto simp: remove_recursive_def simp del: remove_all.simps)
  ultimately show ?thesis using remove_all_facts [of undefined pool "t # ?ds"] by (simp only:)
qed

lemma remove_recursive_dom:
  "fmdom' (mp_entries (snd (remove_recursive t pool))) \<subseteq> fmdom' (mp_entries pool) - {t}"
proof (cases "fmlookup (mp_entries pool) t = None")
  case True
  then show ?thesis by (auto simp: remove_recursive_def fmlookup_dom'_iff)
next
  case False
  then show ?thesis
    unfolding pool_core_dom [symmetric] remove_recursive_core [OF False] by (auto split: if_splits)
qed

section \<open>Smaller pools\<close>

definition sub_pool :: "tx_mem_pool \<Rightarrow> tx_mem_pool \<Rightarrow> bool" where
  "sub_pool p q \<longleftrightarrow>
     (\<forall>t x. pool_core (mp_entries p) t = Some x \<longrightarrow> pool_core (mp_entries q) t = Some x) \<and>
     (\<forall>op c. fmlookup (mp_spenders p) op = Some c \<longrightarrow> fmlookup (mp_spenders q) op = Some c)"

lemma sub_pool_refl [simp]: "sub_pool p p"
  by (simp add: sub_pool_def)

lemma sub_pool_trans: "sub_pool p q \<Longrightarrow> sub_pool q r \<Longrightarrow> sub_pool p r"
  by (simp add: sub_pool_def)

lemma sub_pool_None: "sub_pool p q \<Longrightarrow> pool_core (mp_entries q) t = None \<Longrightarrow> pool_core (mp_entries p) t = None"
  by (cases "pool_core (mp_entries p) t") (auto simp: sub_pool_def)

lemma child_rel_core:
  "(t, c) \<in> child_rel entries spenders \<longleftrightarrow>
     (\<exists>x i. pool_core entries t = Some x \<and> i < length (tx_vout (fst x)) \<and> fmlookup spenders \<lparr>prev_txid = t, prev_index = of_nat i\<rparr> = Some c)"
  by (auto simp: child_rel_def pool_core_def)

lemma sub_pool_child:
  assumes "sub_pool p q" "(t, c) \<in> child_rel (mp_entries p) (mp_spenders p)"
  shows "(t, c) \<in> child_rel (mp_entries q) (mp_spenders q)"
proof -
  obtain x i where "pool_core (mp_entries p) t = Some x" "i < length (tx_vout (fst x))"
    "fmlookup (mp_spenders p) \<lparr>prev_txid = t, prev_index = of_nat i\<rparr> = Some c"
    using assms(2) unfolding child_rel_core by blast
  then show ?thesis using assms(1) unfolding child_rel_core sub_pool_def by blast
qed

lemma remove_entry_sub: "sub_pool (snd (remove_entry t pool)) pool"
proof (cases "fmlookup (mp_entries pool) t")
  case None
  then show ?thesis by (simp add: remove_entry_def)
next
  case (Some e)
  note r = remove_entry_core [OF Some]
  show ?thesis unfolding sub_pool_def r(2,3) by (simp split: if_splits)
qed

lemma remove_all_sub: "sub_pool (snd (remove_all ts pool)) pool"
proof (induction ts arbitrary: pool)
  case (Cons t ts)
  show ?case unfolding remove_all_snd using Cons.IH remove_entry_sub sub_pool_trans by blast
qed simp

lemma remove_recursive_sub: "sub_pool (snd (remove_recursive t pool)) pool"
  using remove_all_sub by (simp add: remove_recursive_def del: remove_all.simps)

lemma remove_recursive_none: "fmlookup (mp_entries pool) t = None \<Longrightarrow> remove_recursive t pool = ([], pool)"
  by (simp add: remove_recursive_def)

text \<open>Removing a set of transactions that holds the descendants of its members.\<close>

lemma remove_recursive_outside:
  assumes "t \<in> S" "(child_rel (mp_entries pool) (mp_spenders pool)) `` S \<subseteq> S"
  shows "u \<notin> S \<Longrightarrow> pool_core (mp_entries (snd (remove_recursive t pool))) u = pool_core (mp_entries pool) u"
    "pool_core (mp_entries (snd (remove_recursive t pool))) t = None"
proof -
  let ?R = "child_rel (mp_entries pool) (mp_spenders pool)"
  have reach: "v \<in> S" if "(t, v) \<in> ?R\<^sup>*" for v
    using that by (induction rule: rtrancl_induct) (use assms in auto)
  show "pool_core (mp_entries (snd (remove_recursive t pool))) u = pool_core (mp_entries pool) u" if "u \<notin> S"
    using remove_recursive_core [of pool t] reach [of u] that
    by (cases "fmlookup (mp_entries pool) t = None") (auto simp: remove_recursive_none)
  show "pool_core (mp_entries (snd (remove_recursive t pool))) t = None"
    using remove_recursive_core [of pool t]
    by (cases "fmlookup (mp_entries pool) t = None") (auto simp: remove_recursive_none pool_core_None)
qed

lemma remove_closed:
  assumes "(child_rel (mp_entries pool) (mp_spenders pool)) `` S \<subseteq> S" "set ts \<subseteq> S"
  shows "(pool_ok C pool \<longrightarrow> pool_ok C (fold (\<lambda>t pool. snd (remove_recursive t pool)) ts pool)) \<and>
    sub_pool (fold (\<lambda>t pool. snd (remove_recursive t pool)) ts pool) pool \<and>
    (\<forall>u. u \<notin> S \<longrightarrow> pool_core (mp_entries (fold (\<lambda>t pool. snd (remove_recursive t pool)) ts pool)) u = pool_core (mp_entries pool) u) \<and>
    (\<forall>t\<in>set ts. pool_core (mp_entries (fold (\<lambda>t pool. snd (remove_recursive t pool)) ts pool)) t = None) \<and>
    mp_max_mempool_size (fold (\<lambda>t pool. snd (remove_recursive t pool)) ts pool) = mp_max_mempool_size pool \<and>
    mp_incremental_relay_fee (fold (\<lambda>t pool. snd (remove_recursive t pool)) ts pool) = mp_incremental_relay_fee pool"
  using assms
proof (induction ts arbitrary: pool)
  case (Cons t ts)
  define p where "p = snd (remove_recursive t pool)"
  define q where "q = fold (\<lambda>t pool. snd (remove_recursive t pool)) ts p"
  have t: "t \<in> S" "set ts \<subseteq> S" using Cons.prems(2) by auto
  have sub: "sub_pool p pool" unfolding p_def by (rule remove_recursive_sub)
  have "child_rel (mp_entries p) (mp_spenders p) `` S \<subseteq> S" using sub_pool_child [OF sub] Cons.prems(1) by blast
  from Cons.IH [OF this t(2), folded q_def]
  have q: "pool_ok C p \<longrightarrow> pool_ok C q" "sub_pool q p" "\<And>u. u \<notin> S \<Longrightarrow> pool_core (mp_entries q) u = pool_core (mp_entries p) u"
    "\<And>u. u \<in> set ts \<Longrightarrow> pool_core (mp_entries q) u = None" "mp_max_mempool_size q = mp_max_mempool_size p"
    "mp_incremental_relay_fee q = mp_incremental_relay_fee p" by blast+
  note out = remove_recursive_outside [OF t(1) Cons.prems(1), folded p_def]
  have p: "pool_ok C pool \<longrightarrow> pool_ok C p" "mp_max_mempool_size p = mp_max_mempool_size pool" "mp_incremental_relay_fee p = mp_incremental_relay_fee pool"
    using remove_recursive_facts [of C pool t, folded p_def] by blast+
  have "pool_core (mp_entries q) t = None" using sub_pool_None [OF q(2) out(2)] .
  then have none: "\<forall>u\<in>set (t # ts). pool_core (mp_entries q) u = None" using q(4) by simp
  have same: "\<forall>u. u \<notin> S \<longrightarrow> pool_core (mp_entries q) u = pool_core (mp_entries pool) u" using q(3) out(1) by simp
  have "fold (\<lambda>t pool. snd (remove_recursive t pool)) (t # ts) pool = q" by (simp add: p_def q_def)
  moreover have "pool_ok C pool \<longrightarrow> pool_ok C q" using p(1) q(1) by blast
  moreover have "mp_max_mempool_size q = mp_max_mempool_size pool" "mp_incremental_relay_fee q = mp_incremental_relay_fee pool"
    using p(2,3) q(5,6) by simp_all
  ultimately show ?case using none same sub_pool_trans [OF q(2) sub] by metis
qed simp

section \<open>Conflicts\<close>

lemma set_push_new: "set (push_new x xs) = insert x (set xs)"
  by (auto simp: push_new_def)

lemma set_fold_push: "set (fold push_new xs ys) = set xs \<union> set ys"
  by (induction xs arbitrary: ys) (auto simp: set_push_new)

lemma set_map_filter: "set (List.map_filter f xs) = {y. \<exists>x\<in>set xs. f x = Some y}"
  by (induction xs) (auto simp: List.map_filter_def)

lemma direct_conflicts_set: "set (direct_conflicts sp tx) = {c. \<exists>op\<in>set (mp_prevouts tx). fmlookup sp op = Some c}"
  by (simp add: direct_conflicts_def set_fold_push set_map_filter)

text \<open>The transactions that a transaction replaces.\<close>

definition replaced :: "tx_mem_pool \<Rightarrow> transaction \<Rightarrow> hash_bytes set" where
  "replaced pool tx =
     {u. \<exists>op\<in>set (mp_prevouts tx). \<exists>c. fmlookup (mp_spenders pool) op = Some c \<and> (c, u) \<in> (child_rel (mp_entries pool) (mp_spenders pool))\<^sup>*}"

lemma evicted_by_set: "set (evicted_by entries spenders cs) = (child_rel entries spenders)\<^sup>* `` set cs"
proof -
  let ?f = "\<lambda>all t. fold push_new (collect_descendants_locked entries spenders t) (all @ [t])"
  have "set (?f all t) = set all \<union> (child_rel entries spenders)\<^sup>* `` {t}" for all t
    using collect_descendants_exact [of t entries spenders] by (auto simp: set_fold_push)
  then have "set (foldl ?f all cs) = set all \<union> (child_rel entries spenders)\<^sup>* `` set cs" for all
    by (induction cs arbitrary: all) auto
  then show ?thesis by (simp add: evicted_by_def)
qed

lemma replaced_evicted: "set (evicted_by (mp_entries pool) (mp_spenders pool) (direct_conflicts (mp_spenders pool) tx)) = replaced pool tx"
  unfolding evicted_by_set direct_conflicts_set replaced_def by blast

lemma replaced_closed: "child_rel (mp_entries pool) (mp_spenders pool) `` replaced pool tx \<subseteq> replaced pool tx"
  unfolding replaced_def by (blast intro: rtrancl_into_rtrancl)

text \<open>The rules that a replacement has passed.\<close>

lemma check_rbf_Inr:
  assumes "check_rbf pool e = Inr ev"
  defines "tot \<equiv> evicted_fee (mp_entries pool) ev"
  shows "set ev = replaced pool (me_tx e)" "ev \<noteq> [] \<Longrightarrow> length ev \<le> 100" "ev \<noteq> [] \<Longrightarrow> sint tot < sint (me_fee e)"
    "ev \<noteq> [] \<Longrightarrow> sint (tot + get_fee (mp_incremental_relay_fee pool) (unat (me_vsize e))) \<le> sint (me_fee e)"
    "\<forall>op\<in>set (mp_prevouts (me_tx e)). prev_txid op \<notin> set ev"
proof -
  let ?cs = "direct_conflicts (mp_spenders pool) (me_tx e)"
  let ?ev = "evicted_by (mp_entries pool) (mp_spenders pool) ?cs"
  show s: "set ev = replaced pool (me_tx e)"
  proof (cases "?cs = []")
    case True
    then have "fmlookup (mp_spenders pool) op = None" if "op \<in> set (mp_prevouts (me_tx e))" for op
      using direct_conflicts_set [of "mp_spenders pool" "me_tx e"] that by (cases "fmlookup (mp_spenders pool) op") auto
    then show ?thesis using True assms(1) by (auto simp: check_rbf_def replaced_def)
  next
    case False
    then have "ev = ?ev" using assms(1) by (auto simp: check_rbf_def Let_def split: option.splits if_splits)
    then show ?thesis by (simp add: replaced_evicted)
  qed
  have ne: "?cs \<noteq> []" if "ev \<noteq> []" using assms(1) that by (auto simp: check_rbf_def)
  show "ev \<noteq> [] \<Longrightarrow> length ev \<le> 100" "ev \<noteq> [] \<Longrightarrow> sint tot < sint (me_fee e)"
    "ev \<noteq> [] \<Longrightarrow> sint (tot + get_fee (mp_incremental_relay_fee pool) (unat (me_vsize e))) \<le> sint (me_fee e)"
    using assms(1) ne unfolding tot_def
    by (auto simp: check_rbf_def Let_def MAX_BIP125_REPLACEMENT_CANDIDATES_def split: option.splits if_splits)
  show "\<forall>op\<in>set (mp_prevouts (me_tx e)). prev_txid op \<notin> set ev"
    using assms(1) by (auto simp: check_rbf_def Let_def find_None_iff split: option.splits if_splits)
qed

text \<open>The pool after a transaction went in.\<close>

lemma accept_commit:
  assumes "pool_ok C pool" "check_rbf pool e = Inr ev" "fmlookup (mp_entries pool) (txid C (me_tx e)) = None"
  defines "pool' \<equiv> snd (if ev = [] then add_unchecked C pool e else mp_replace C pool e ev)"
  shows "pool_ok C pool'"
    "pool_core (mp_entries pool') = (\<lambda>u. if u \<in> replaced pool (me_tx e) then None else pool_core (mp_entries pool) u)
       (txid C (me_tx e) \<mapsto> (me_tx e, me_fee e, me_vsize e, me_time e))"
    "mp_max_mempool_size pool' = mp_max_mempool_size pool" "mp_incremental_relay_fee pool' = mp_incremental_relay_fee pool"
proof -
  let ?S = "replaced pool (me_tx e)" and ?p = "fold (\<lambda>t pool. snd (remove_recursive t pool)) ev pool"
  note ev = check_rbf_Inr(1) [OF assms(2)]
  have p: "pool_ok C ?p" "sub_pool ?p pool" "\<forall>u. u \<notin> ?S \<longrightarrow> pool_core (mp_entries ?p) u = pool_core (mp_entries pool) u"
    "\<forall>t\<in>set ev. pool_core (mp_entries ?p) t = None" "mp_max_mempool_size ?p = mp_max_mempool_size pool"
    "mp_incremental_relay_fee ?p = mp_incremental_relay_fee pool"
    using remove_closed [OF replaced_closed equalityD1 [OF ev], of C] assms(1) by blast+
  have core: "pool_core (mp_entries ?p) = (\<lambda>u. if u \<in> ?S then None else pool_core (mp_entries pool) u)"
    using p(3,4) ev by auto
  have new: "fmlookup (mp_entries ?p) (txid C (me_tx e)) = None"
  proof -
    have "pool_core (mp_entries pool) (txid C (me_tx e)) = None" using assms(3) by (simp add: pool_core_None)
    then have "pool_core (mp_entries ?p) (txid C (me_tx e)) = None" unfolding core by simp
    then show ?thesis by (simp add: pool_core_None)
  qed
  have free: "\<forall>op\<in>set (mp_prevouts (me_tx e)). fmlookup (mp_spenders ?p) op = None"
  proof
    fix op assume op: "op \<in> set (mp_prevouts (me_tx e))"
    show "fmlookup (mp_spenders ?p) op = None"
    proof (rule ccontr)
      assume "fmlookup (mp_spenders ?p) op \<noteq> None"
      then obtain c where c: "fmlookup (mp_spenders ?p) op = Some c" by blast
      then have "fmlookup (mp_spenders pool) op = Some c" using p(2) by (simp add: sub_pool_def)
      then have "c \<in> ?S" using op by (auto simp: replaced_def)
      moreover have "fmlookup (mp_entries ?p) c \<noteq> None" using p(1) c unfolding pool_ok_def by blast
      ultimately show False using fun_cong [OF core, of c] by (simp add: pool_core_None)
    qed
  qed
  have eq: "pool' = snd (add_unchecked C ?p e)" by (simp add: pool'_def mp_replace_def)
  show "pool_ok C pool'" unfolding eq using add_unchecked_ok [OF p(1) new free] .
  show "pool_core (mp_entries pool') = (\<lambda>u. if u \<in> ?S then None else pool_core (mp_entries pool) u)
       (txid C (me_tx e) \<mapsto> (me_tx e, me_fee e, me_vsize e, me_time e))"
    "mp_max_mempool_size pool' = mp_max_mempool_size pool" "mp_incremental_relay_fee pool' = mp_incremental_relay_fee pool"
    unfolding eq using add_unchecked_core [OF new] core p(5,6) by simp_all
qed

lemma accept_cases:
  assumes "accept_to_mempool C pool tx fee vsize height = (r, pool')"
  shows "(\<exists>reason. r = Rejected reason \<and> pool' = pool) \<or>
    (\<exists>ev. let e = mempool_entry_new tx fee vsize 0 height False 0 in
       r = Accepted (txid C tx) \<and> fmlookup (mp_entries pool) (txid C tx) = None \<and> check_rbf pool e = Inr ev \<and> has_room pool vsize \<and>
       (\<forall>out\<in>set (tx_vout tx). \<not> is_dust out DUST_RELAY_TX_FEE) \<and> check_descendant_limits pool e = Inr () \<and>
       pool' = snd (if ev = [] then add_unchecked C pool e else mp_replace C pool e ev))"
  using assms
  by (auto simp: accept_to_mempool_def Let_def mp_exists_def find_None_iff split: if_splits option.splits sum.splits)

section \<open>Reachable pools\<close>

text \<open>The pools that the operations lead to. The caller of \<open>add_unchecked\<close> and \<open>replace\<close> is \<open>accept_to_mempool\<close>.\<close>

inductive reachable_pool :: "crypto \<Rightarrow> tx_mem_pool \<Rightarrow> bool" for C :: crypto where
  pool_new: "reachable_pool C (new_with_limits min_fee max_size)"
| pool_accept: "reachable_pool C pool \<Longrightarrow> accept_to_mempool C pool tx fee vsize height = (r, pool') \<Longrightarrow> reachable_pool C pool'"
| pool_remove: "reachable_pool C pool \<Longrightarrow> reachable_pool C (snd (remove_recursive t pool))"
| pool_block: "reachable_pool C pool \<Longrightarrow> reachable_pool C (remove_for_block txids pool)"
| pool_trim: "reachable_pool C pool \<Longrightarrow> trim_to_size C values pool = Some pool' \<Longrightarrow> reachable_pool C pool'"
| pool_expire: "reachable_pool C pool \<Longrightarrow> reachable_pool C (snd (expire_old C values now hours pool))"
| pool_clear: "reachable_pool C pool \<Longrightarrow> reachable_pool C (mp_clear pool)"

lemma fold_remove_ok: "pool_ok C pool \<Longrightarrow> pool_ok C (fold (\<lambda>t pool. snd (remove_recursive t pool)) ts pool)"
  using remove_recursive_facts by (induction ts arbitrary: pool) auto

lemma remove_for_block_ok: "pool_ok C pool \<Longrightarrow> pool_ok C (remove_for_block ts pool)"
  unfolding remove_for_block_def using remove_entry_ok by (induction ts arbitrary: pool) auto

lemma trim_ok: "trim_to_size C values pool = Some pool' \<Longrightarrow> pool_ok C pool \<Longrightarrow> pool_ok C pool'"
proof (induction rule: trim_to_size.raw_induct [rotated 1, consumes 1, case_names step])
  case (step trim C vs pool pool')
  then show ?case
    using remove_recursive_facts [of C pool] by (cases "pool_bytes pool \<le> mp_max_mempool_size pool") (auto split: option.splits)
qed

lemma accept_ok: "accept_to_mempool C pool tx fee vsize height = (r, pool') \<Longrightarrow> pool_ok C pool \<Longrightarrow> pool_ok C pool'"
proof -
  assume a: "accept_to_mempool C pool tx fee vsize height = (r, pool')" and ok: "pool_ok C pool"
  let ?e = "mempool_entry_new tx fee vsize 0 height False 0"
  have tx: "me_tx ?e = tx" by (simp add: mempool_entry_new_def)
  from accept_cases [OF a, unfolded Let_def] show ?thesis
  proof (elim disjE exE conjE)
    fix ev assume "fmlookup (mp_entries pool) (txid C tx) = None" "check_rbf pool ?e = Inr ev"
      "pool' = snd (if ev = [] then add_unchecked C pool ?e else mp_replace C pool ?e ev)"
    then show "pool_ok C pool'" using accept_commit(1) [OF ok, of ?e ev] tx by simp
  qed (use ok in simp)
qed

text \<open>C5: In every pool that the operations lead to, entries are filed under their identifiers, the table of spenders lists exactly
  the outputs that transactions of the pool spend, with the transaction that spends them, and the total fee is the sum of the fees in
  64 bits. No two transactions of the pool spend the same output.\<close>

theorem mempool_consistent:
  assumes "reachable_pool C pool"
  shows "pool_ok C pool \<and>
    (\<forall>t u e f op. get_entry pool t = Some e \<and> get_entry pool u = Some f \<and> op \<in> set (mp_prevouts (me_tx e)) \<and> op \<in> set (mp_prevouts (me_tx f)) \<longrightarrow> t = u)"
proof -
  have ok: "pool_ok C pool"
    using assms
  proof (induction rule: reachable_pool.induct)
    case (pool_trim pool vs pool')
    then show ?case using trim_ok by blast
  next
    case (pool_accept pool tx fee vsize height r pool')
    then show ?case using accept_ok by blast
  next
    case (pool_expire pool vs now hours)
    then show ?case using fold_remove_ok by (simp add: expire_old_def Let_def)
  qed (use pool_ok_new pool_ok_clear remove_recursive_facts remove_for_block_ok in blast)+
  then have one: "fmlookup (mp_spenders pool) op = Some t"
    if "get_entry pool t = Some e" "op \<in> set (mp_prevouts (me_tx e))" for t e op
    using that unfolding pool_ok_def get_entry_def by blast
  show ?thesis
  proof (intro conjI allI impI)
    fix t u e f op
    assume a: "get_entry pool t = Some e \<and> get_entry pool u = Some f \<and> op \<in> set (mp_prevouts (me_tx e)) \<and> op \<in> set (mp_prevouts (me_tx f))"
    then have "fmlookup (mp_spenders pool) op = Some t" "fmlookup (mp_spenders pool) op = Some u" using one by blast+
    then show "t = u" by simp
  qed (rule ok)
qed

section \<open>Removal with descendants\<close>

text \<open>C30: Removing a transaction removes exactly it and its descendants: a transaction of the pool stays, with its fee, size and
  time, if and only if no chain of spent outputs leads to it from the removed one.\<close>

theorem remove_recursive_exact:
  assumes "mp_exists pool t"
  shows "(get_entry (snd (remove_recursive t pool)) u = None \<longleftrightarrow>
      get_entry pool u = None \<or> (t, u) \<in> (child_rel (mp_entries pool) (mp_spenders pool))\<^sup>*) \<and>
    pool_core (mp_entries (snd (remove_recursive t pool))) =
      (\<lambda>u. if (t, u) \<in> (child_rel (mp_entries pool) (mp_spenders pool))\<^sup>* then None else pool_core (mp_entries pool) u)"
proof -
  have e: "fmlookup (mp_entries pool) t \<noteq> None" using assms by (simp add: mp_exists_def)
  note c = remove_recursive_core [OF e]
  have "get_entry (snd (remove_recursive t pool)) u = None \<longleftrightarrow>
      get_entry pool u = None \<or> (t, u) \<in> (child_rel (mp_entries pool) (mp_spenders pool))\<^sup>*"
    unfolding get_entry_def pool_core_None [symmetric] c by simp
  then show ?thesis using c by blast
qed

section \<open>Trimming\<close>

lemma min_by_rate_mem: "min_by_rate es = Some e \<Longrightarrow> e \<in> set es"
proof -
  have "foldl (\<lambda>best e. case best of None \<Rightarrow> Some e | Some b \<Rightarrow> if descendant_rate e < descendant_rate b then Some e else Some b) b es = Some x \<Longrightarrow>
      x \<in> set es \<or> b = Some x" for b x
    by (induction es arbitrary: b) (fastforce split: option.splits if_splits)+
  then show "min_by_rate es = Some e \<Longrightarrow> e \<in> set es" by (fastforce simp: min_by_rate_def)
qed

lemma min_by_rate_some: "es \<noteq> [] \<Longrightarrow> \<exists>e. min_by_rate es = Some e"
proof -
  have "\<exists>e. foldl (\<lambda>best e. case best of None \<Rightarrow> Some e | Some b \<Rightarrow> if descendant_rate e < descendant_rate b then Some e else Some b) (Some b) xs = Some e" for b xs
    by (induction xs arbitrary: b) auto
  then show "es \<noteq> [] \<Longrightarrow> \<exists>e. min_by_rate es = Some e" by (cases es) (simp_all add: min_by_rate_def)
qed

text \<open>C28: Trimming ends, whatever the order in which the map is traversed: it returns a pool that fits the limit and is well-formed,
  and whose transactions were all in the pool before.\<close>

theorem trim_terminates:
  assumes "pool_ok C pool" "\<And>es. fmdom' es \<subseteq> fmdom' (mp_entries pool) \<Longrightarrow> set (values es) = fmran' es"
  shows "\<exists>pool'. trim_to_size C values pool = Some pool' \<and> pool_bytes pool' \<le> mp_max_mempool_size pool \<and> pool_ok C pool' \<and> sub_pool pool' pool"
  using assms
proof (induction "card (fmdom' (mp_entries pool))" arbitrary: pool rule: less_induct)
  case less
  show ?case
  proof (cases "pool_bytes pool \<le> mp_max_mempool_size pool")
    case True
    then show ?thesis using less.prems(1) by (subst trim_to_size.simps) simp
  next
    case big: False
    have vs: "set (values (mp_entries pool)) = fmran' (mp_entries pool)" using less.prems(2) by blast
    have "pool_bytes pool = 0" if "fmdom' (mp_entries pool) = {}" using that by (simp add: pool_bytes_def pool_sum_def)
    then have "fmdom' (mp_entries pool) \<noteq> {}" using big by auto
    then obtain k x where "fmlookup (mp_entries pool) k = Some x" by (auto simp: fmlookup_dom'_iff)
    then have "values (mp_entries pool) \<noteq> []" using vs by (metis fmran'I empty_iff list.set(1))
    then obtain e where e: "min_by_rate (values (mp_entries pool)) = Some e" using min_by_rate_some by blast
    then have "e \<in> fmran' (mp_entries pool)" using min_by_rate_mem vs by blast
    then obtain t where t: "fmlookup (mp_entries pool) t = Some e" by (auto elim: fmran'E)
    then have id: "txid C (me_tx e) = t" using less.prems(1) by (simp add: pool_ok_def)
    let ?p = "snd (remove_recursive t pool)"
    have "fmdom' (mp_entries ?p) \<subset> fmdom' (mp_entries pool)"
      using remove_recursive_dom [of t pool] t by (auto simp: fmlookup_dom'_iff)
    then have "card (fmdom' (mp_entries ?p)) < card (fmdom' (mp_entries pool))" "\<And>es. fmdom' es \<subseteq> fmdom' (mp_entries ?p) \<Longrightarrow> set (values es) = fmran' es"
      using less.prems(2) by (simp_all add: psubset_card_mono order.trans [OF _ psubset_imp_subset])
    moreover have "pool_ok C ?p" "mp_max_mempool_size ?p = mp_max_mempool_size pool"
      using remove_recursive_facts [of C pool t] less.prems(1) by simp_all
    ultimately obtain p' where "trim_to_size C values ?p = Some p'" "pool_bytes p' \<le> mp_max_mempool_size pool" "pool_ok C p'" "sub_pool p' ?p"
      using less.hyps [of ?p] by auto
    moreover have "trim_to_size C values pool = trim_to_size C values ?p"
      using big e id by (subst trim_to_size.simps) simp
    ultimately show ?thesis using sub_pool_trans [OF _ remove_recursive_sub] by fastforce
  qed
qed


section \<open>Replacement by fee\<close>

lemma sint_plus_small:
  fixes a b :: i64
  assumes "0 \<le> sint a" "0 \<le> sint b" "sint a + sint b < 2 ^ 63"
  shows "sint (a + b) = sint a + sint b"
  using assms by (intro sint_arith(1)) simp

lemma sint_sum_small:
  fixes ws :: "i64 list"
  assumes "\<forall>w\<in>set ws. 0 \<le> sint w \<and> sint w \<le> MAX_MONEY" "length ws \<le> 100"
  shows "sint (sum_list ws) = (\<Sum>w\<leftarrow>ws. sint w) \<and> 0 \<le> (\<Sum>w\<leftarrow>ws. sint w) \<and> (\<Sum>w\<leftarrow>ws. sint w) \<le> int (length ws) * MAX_MONEY"
  using assms
proof (induction ws)
  case (Cons w ws)
  then have ih: "sint (sum_list ws) = (\<Sum>w\<leftarrow>ws. sint w)" "0 \<le> (\<Sum>w\<leftarrow>ws. sint w)" "(\<Sum>w\<leftarrow>ws. sint w) \<le> int (length ws) * MAX_MONEY"
    and w: "0 \<le> sint w" "sint w \<le> MAX_MONEY" by auto
  have "int (length ws) * MAX_MONEY \<le> 100 * MAX_MONEY" using Cons.prems(2) by (simp add: MAX_MONEY_value)
  then have "sint (w + sum_list ws) = sint w + sint (sum_list ws)"
    using ih w by (intro sint_plus_small) (simp_all add: MAX_MONEY_value)
  then show ?case using ih w by (simp add: algebra_simps)
qed simp

lemma sum_set_le_list: "\<forall>x\<in>set xs. 0 \<le> f x \<Longrightarrow> sum f (set xs) \<le> (\<Sum>x\<leftarrow>xs. f x)" for f :: "'a \<Rightarrow> int"
proof (induction xs)
  case (Cons x xs)
  then show ?case by (cases "x \<in> set xs") (auto simp: insert_absorb)
qed simp

lemma u32_bound: "int (unat (v :: u32)) < 4294967296"
proof -
  have "uint v < 2 ^ 32" using uint_lt2p [of v] by simp
  then show ?thesis by simp
qed

lemma relay_fee_exact: "sint (get_fee DEFAULT_INCREMENTAL_RELAY_FEE (unat (v :: u32))) = int (unat v)"
proof -
  define n where "n = int (unat v)"
  have n: "0 \<le> n" "n < 4294967296" using u32_bound [of v] unfolding n_def by simp_all
  have m: "sint (of_int (1000 * n) :: i64) = 1000 * n" "sint (of_int (1000 * n + 999) :: i64) = 1000 * n + 999" "sint (of_int n :: i64) = n"
    using n by (intro sint_of_int_id; simp)+
  have w: "(1000 :: i64) * of_nat (unat v) = of_int (1000 * n)" "(of_int (1000 * n) :: i64) + 999 = of_int (1000 * n + 999)"
    by (simp_all add: n_def)
  have d: "(1000 * n + 999) sdiv 1000 = n" "(0 :: int) sdiv 1000 = 0" using n by (simp_all add: signed_divide_int_def sgn_if)
  show ?thesis
    unfolding get_fee_def Let_def i64_div_def DEFAULT_INCREMENTAL_RELAY_FEE_def w m n_def [symmetric]
    using d m n by (cases "n = 0") (simp_all del: of_int_add of_int_mult)
qed

text \<open>The transactions that would be replaced are in the pool.\<close>

lemma replaced_in_pool:
  assumes "pool_ok C pool" "u \<in> replaced pool tx"
  shows "fmlookup (mp_entries pool) u \<noteq> None"
proof -
  let ?R = "child_rel (mp_entries pool) (mp_spenders pool)"
  have sp: "fmlookup (mp_entries pool) c \<noteq> None" if "fmlookup (mp_spenders pool) op = Some c" for op c
    using assms(1) that unfolding pool_ok_def by blast
  obtain op c where c: "fmlookup (mp_spenders pool) op = Some c" "(c, u) \<in> ?R\<^sup>*" using assms(2) by (auto simp: replaced_def)
  from c(2) show ?thesis
  proof (cases rule: rtranclE)
    case base
    then show ?thesis using sp c(1) by blast
  next
    case (step y)
    then show ?thesis using sp by (auto simp: child_rel_def)
  qed
qed

text \<open>C11: A transaction that replaces others pays for them and for itself. When \<open>accept_to_mempool\<close> lets in a transaction that spends an output
  which the pool already spends, then exactly the conflicting transactions and their descendants leave the pool, at most a hundred of
  them, and the fee of the new transaction is at least the sum of their fees and one satoshi for each virtual byte of its own.\<close>

theorem replacement_pays:
  assumes "pool_ok C pool" "mp_incremental_relay_fee pool = DEFAULT_INCREMENTAL_RELAY_FEE"
    "\<forall>t e. get_entry pool t = Some e \<longrightarrow> 0 \<le> sint (me_fee e) \<and> sint (me_fee e) \<le> MAX_MONEY"
    "accept_to_mempool C pool tx fee vsize height = (Accepted t, pool')" "replaced pool tx \<noteq> {}"
  shows "t = txid C tx \<and> mp_get pool' t = Some tx \<and> card (replaced pool tx) \<le> 100 \<and>
    (\<forall>u. u \<noteq> t \<longrightarrow> mp_get pool' u = (if u \<in> replaced pool tx then None else mp_get pool u)) \<and>
    (\<Sum>u\<in>replaced pool tx. sint (me_fee (the (get_entry pool u)))) + int (unat vsize) \<le> sint fee"
proof -
  let ?e = "mempool_entry_new tx fee vsize 0 height False 0" and ?E = "replaced pool tx"
  have e: "me_tx ?e = tx" "me_fee ?e = fee" "me_vsize ?e = vsize" by (simp_all add: mempool_entry_new_def)
  obtain ev where t: "t = txid C tx" and new: "fmlookup (mp_entries pool) (txid C tx) = None" and rbf: "check_rbf pool ?e = Inr ev"
    and p': "pool' = snd (if ev = [] then add_unchecked C pool ?e else mp_replace C pool ?e ev)"
    using accept_cases [OF assms(4), unfolded Let_def] by auto
  note r = check_rbf_Inr [OF rbf, unfolded e] and com = accept_commit [OF assms(1) rbf, unfolded e, OF new, folded p']
  have ne: "ev \<noteq> []" using r(1) assms(5) by auto
  have lookup: "fmlookup (mp_entries pool) u \<noteq> None" if "u \<in> set ev" for u using replaced_in_pool [OF assms(1)] that r(1) by blast
  let ?fee = "\<lambda>u. me_fee (the (fmlookup (mp_entries pool) u))"
  have mf: "map me_fee (List.map_filter (fmlookup (mp_entries pool)) ev) = map ?fee ev"
    using lookup by (induction ev) (auto simp: List.map_filter_def)
  have rng: "0 \<le> sint (?fee u) \<and> sint (?fee u) \<le> MAX_MONEY" if "u \<in> set ev" for u
    using lookup [OF that] assms(3) by (auto simp: get_entry_def)
  then have "\<forall>w\<in>set (map ?fee ev). 0 \<le> sint w \<and> sint w \<le> MAX_MONEY" "length (map ?fee ev) \<le> 100" using r(2) [OF ne] by auto
  note s = sint_sum_small [OF this]
  have tot: "sint (evicted_fee (mp_entries pool) ev) = (\<Sum>u\<leftarrow>ev. sint (?fee u))" "0 \<le> (\<Sum>u\<leftarrow>ev. sint (?fee u))" "(\<Sum>u\<leftarrow>ev. sint (?fee u)) \<le> 100 * MAX_MONEY"
    using s r(2) [OF ne] mf by (auto simp: evicted_fee_def o_def MAX_MONEY_value)
  have "sint (evicted_fee (mp_entries pool) ev + get_fee (mp_incremental_relay_fee pool) (unat vsize)) = (\<Sum>u\<leftarrow>ev. sint (?fee u)) + int (unat vsize)"
    using tot relay_fee_exact [of vsize] u32_bound [of vsize] unfolding assms(2)
    by (subst sint_plus_small) (auto simp: MAX_MONEY_value)
  then have pay: "(\<Sum>u\<leftarrow>ev. sint (?fee u)) + int (unat vsize) \<le> sint fee" using r(4) [OF ne] by simp
  have "(\<Sum>u\<in>set ev. sint (?fee u)) \<le> (\<Sum>u\<leftarrow>ev. sint (?fee u))" using rng by (intro sum_set_le_list) auto
  then have "(\<Sum>u\<in>?E. sint (me_fee (the (get_entry pool u)))) + int (unat vsize) \<le> sint fee" using pay by (simp add: r(1) get_entry_def)
  moreover have "card ?E \<le> 100" using r(2) [OF ne] card_length [of ev] by (simp add: r(1) [symmetric])
  moreover have "mp_get q u = map_option fst (pool_core (mp_entries q) u)" for q u
    by (simp add: mp_get_def pool_core_def option.map_comp o_def)
  ultimately show ?thesis using t com(2) by simp
qed

section \<open>Examples\<close>

text \<open>Transactions that spend the same output and have no output that can be spent.\<close>

definition pool_op :: outpoint where "pool_op = \<lparr>prev_txid = replicate 32 7, prev_index = 0\<rparr>"

definition pool_tx :: "u32 \<Rightarrow> transaction" where
  "pool_tx v = \<lparr>tx_version = v, tx_vin = [tx_in_new pool_op [] 0], tx_vout = [\<lparr>out_value = 0, out_script_pubkey = [0x6a]\<rparr>], tx_lock_time = 0\<rparr>"

definition pool_tx_entry :: mempool_entry where "pool_tx_entry = mempool_entry_new (pool_tx 1) 1000 100 0 5 False 0"

definition one_pool :: tx_mem_pool where
  "one_pool = mempool_new\<lparr>mp_entries := fmupd (txid pad_crypto (pool_tx 1)) pool_tx_entry fmempty,
     mp_spenders := fmupd pool_op (txid pad_crypto (pool_tx 1)) fmempty, mp_total_fee := 1000, mp_sequence := 1\<rparr>"

lemma pool_tx_simps [simp]: "mp_prevouts (pool_tx v) = [pool_op]" "tx_vout (pool_tx v) = [\<lparr>out_value = 0, out_script_pubkey = [0x6a]\<rparr>]"
  "me_tx pool_tx_entry = pool_tx 1" "me_fee pool_tx_entry = 1000" "me_vsize pool_tx_entry = 100"
  "me_tx (mempool_entry_new tx fee vsize time h b s) = tx" "me_fee (mempool_entry_new tx fee vsize time h b s) = fee"
  "me_vsize (mempool_entry_new tx fee vsize time h b s) = vsize"
  by (simp_all add: mp_prevouts_def pool_tx_def tx_in_new_def pool_tx_entry_def mempool_entry_new_def)

lemma pool_tx_dust: "\<not> is_dust \<lparr>out_value = 0, out_script_pubkey = [0x6a]\<rparr> r"
  by (simp add: is_dust_def get_dust_threshold_def is_unspendable_def)

lemma pool_tx_version: "hd (txid pad_crypto (pool_tx v)) = of_nat (unat v mod 256)"
  by (simp add: hd_pad_crypto txid_def serialize_transaction_def serialize_plain encode_u32_def hd_to_le_bytes pool_tx_def)

lemma pool_tx_differ: "txid pad_crypto (pool_tx 2) \<noteq> txid pad_crypto (pool_tx 1)"
  using pool_tx_version [of 1] pool_tx_version [of 2] by auto

lemma pool_op_free: "txid pad_crypto (pool_tx 1) \<noteq> replicate 32 7"
  using pool_tx_version [of 1] by auto

lemma one_pool_accepted:
  "accept_to_mempool pad_crypto mempool_new (pool_tx 1) 1000 100 5 = (Accepted (txid pad_crypto (pool_tx 1)), one_pool)"
  by (simp add: accept_to_mempool_def mempool_new_def new_with_limits_def mp_exists_def pool_tx_dust rate_of_def i64_div_def
      DEFAULT_MIN_RELAY_TX_FEE_def check_rbf_def direct_conflicts_def List.map_filter_def check_descendant_limits_def has_room_def
      pool_bytes_def pool_sum_def DEFAULT_MAX_MEMPOOL_SIZE_def add_unchecked_def pool_parents_def one_pool_def pool_tx_entry_def
      collect_ancestors_from_entries_def Let_def)


lemma one_pool_ok: "pool_ok pad_crypto one_pool"
  using accept_ok [OF one_pool_accepted] pool_ok_new by (simp add: mempool_new_def)

lemma one_pool_lookup: "fmlookup (mp_entries one_pool) t = (if t = txid pad_crypto (pool_tx 1) then Some pool_tx_entry else None)"
  "fmlookup (mp_spenders one_pool) op = (if op = pool_op then Some (txid pad_crypto (pool_tx 1)) else None)"
  by (simp_all add: one_pool_def)

lemma one_pool_fields: "mp_min_relay_fee one_pool = 0" "mp_incremental_relay_fee one_pool = DEFAULT_INCREMENTAL_RELAY_FEE"
  "mp_max_mempool_size one_pool = 300000000" "mp_full_rbf one_pool"
  by (simp_all add: one_pool_def mempool_new_def new_with_limits_def DEFAULT_MIN_RELAY_TX_FEE_def DEFAULT_MAX_MEMPOOL_SIZE_def)

lemma one_pool_descendants: "collect_descendants_locked (mp_entries one_pool) (mp_spenders one_pool) (txid pad_crypto (pool_tx 1)) = []"
  using pool_op_free by (simp add: collect_descendants_locked_def one_pool_lookup new_children_def pool_op_def)

lemma one_pool_bytes: "pool_bytes one_pool = 100"
  by (simp add: pool_bytes_def pool_sum_def one_pool_def)

lemma one_pool_replaced: "accept_to_mempool pad_crypto one_pool (pool_tx 2) 5000 100 6 =
    (Accepted (txid pad_crypto (pool_tx 2)), snd (mp_replace pad_crypto one_pool (mempool_entry_new (pool_tx 2) 5000 100 0 6 False 0) [txid pad_crypto (pool_tx 1)]))"
proof -
  let ?e = "mempool_entry_new (pool_tx 2) 5000 100 0 6 False 0" and ?t = "txid pad_crypto (pool_tx 1)"
  have c: "direct_conflicts (mp_spenders one_pool) (pool_tx 2) = [?t]"
    by (simp add: direct_conflicts_def List.map_filter_def one_pool_lookup push_new_def)
  have ev: "evicted_by (mp_entries one_pool) (mp_spenders one_pool) [?t] = [?t]" by (simp add: evicted_by_def one_pool_descendants)
  have fee: "evicted_fee (mp_entries one_pool) [?t] = 1000" by (simp add: evicted_fee_def List.map_filter_def one_pool_lookup)
  have req: "get_fee DEFAULT_INCREMENTAL_RELAY_FEE 100 = 100" using relay_fee_exact [of 100]
    by (simp add: get_fee_def DEFAULT_INCREMENTAL_RELAY_FEE_def i64_div_def signed_divide_int_def)
  have rbf: "check_rbf one_pool ?e = Inr [?t]"
    using pool_op_free by (simp add: check_rbf_def Let_def c ev fee req one_pool_fields MAX_BIP125_REPLACEMENT_CANDIDATES_def pool_op_def)
  have lim: "check_descendant_limits one_pool ?e = Inr ()"
    using pool_op_free by (simp add: check_descendant_limits_def one_pool_lookup pool_op_def)
  show ?thesis
    using pool_tx_differ rbf lim
    by (simp add: accept_to_mempool_def Let_def mp_exists_def one_pool_lookup pool_tx_dust one_pool_fields rate_of_def i64_div_def
        has_room_def one_pool_bytes)
qed

text \<open>A pool with one transaction.\<close>

theorem mempool_consistent_witness: "reachable_pool pad_crypto one_pool \<and> pool_ok pad_crypto one_pool \<and> get_entry one_pool (txid pad_crypto (pool_tx 1)) = Some pool_tx_entry"
proof -
  have r: "reachable_pool pad_crypto one_pool"
    using pool_accept [OF _ one_pool_accepted] pool_new by (simp add: mempool_new_def)
  then show ?thesis using mempool_consistent [OF r] by (simp add: get_entry_def one_pool_lookup)
qed

text \<open>Its transaction is removed.\<close>

theorem remove_recursive_exact_witness: "get_entry (snd (remove_recursive (txid pad_crypto (pool_tx 1)) one_pool)) (txid pad_crypto (pool_tx 1)) = None"
proof -
  have "mp_exists one_pool (txid pad_crypto (pool_tx 1))" by (simp add: mp_exists_def one_pool_lookup)
  from remove_recursive_exact [OF this, of "txid pad_crypto (pool_tx 1)"] show ?thesis by simp
qed

lemma keys_traverse: "fmdom' es \<subseteq> set ks \<Longrightarrow> set (List.map_filter (fmlookup es) ks) = fmran' es"
proof (intro set_eqI iffI)
  fix x assume a: "fmdom' es \<subseteq> set ks" "x \<in> fmran' es"
  then obtain k where "fmlookup es k = Some x" by (auto elim: fmran'E)
  then show "x \<in> set (List.map_filter (fmlookup es) ks)" unfolding set_map_filter using a(1) fmdom'I by fast
next
  fix x assume "x \<in> set (List.map_filter (fmlookup es) ks)"
  then show "x \<in> fmran' es" unfolding set_map_filter by (auto intro: fmran'I)
qed

text \<open>The pool is trimmed to 50 bytes.\<close>

theorem trim_terminates_witness:
  "\<exists>pool'. trim_to_size pad_crypto (\<lambda>es. List.map_filter (fmlookup es) [txid pad_crypto (pool_tx 1)]) (one_pool\<lparr>mp_max_mempool_size := 50\<rparr>) = Some pool' \<and>
    pool_bytes pool' \<le> 50"
proof -
  let ?p = "one_pool\<lparr>mp_max_mempool_size := 50\<rparr>" and ?v = "\<lambda>es :: pool_entries. List.map_filter (fmlookup es) [txid pad_crypto (pool_tx 1)]"
  have ok: "pool_ok pad_crypto ?p" using one_pool_ok by (simp add: pool_ok_def)
  have "fmdom' (mp_entries ?p) = {txid pad_crypto (pool_tx 1)}" by (simp add: one_pool_def)
  then have "set (?v es) = fmran' es" if "fmdom' es \<subseteq> fmdom' (mp_entries ?p)" for es
    using that by (intro keys_traverse) simp
  from trim_terminates [OF ok this] show ?thesis by auto
qed

text \<open>A transaction with a higher fee replaces the one of the pool.\<close>

theorem replacement_pays_witness:
  "\<exists>pool'. accept_to_mempool pad_crypto one_pool (pool_tx 2) 5000 100 6 = (Accepted (txid pad_crypto (pool_tx 2)), pool') \<and>
    mp_get pool' (txid pad_crypto (pool_tx 2)) = Some (pool_tx 2) \<and> mp_get pool' (txid pad_crypto (pool_tx 1)) = None"
proof -
  have fees: "\<forall>t e. get_entry one_pool t = Some e \<longrightarrow> 0 \<le> sint (me_fee e) \<and> sint (me_fee e) \<le> MAX_MONEY"
    by (simp add: get_entry_def one_pool_lookup MAX_MONEY_value)
  have mem: "txid pad_crypto (pool_tx 1) \<in> replaced one_pool (pool_tx 2)" by (auto simp: replaced_def one_pool_lookup)
  then have "replaced one_pool (pool_tx 2) \<noteq> {}" by blast
  from replacement_pays [OF one_pool_ok one_pool_fields(2) fees one_pool_replaced this]
  show ?thesis using one_pool_replaced mem pool_tx_differ by (metis (no_types, lifting))
qed

end
