(* ===== verification/NetProtocol.thy ===== *)
theory NetProtocol
  imports BlockCheck "HOL-Library.Monad_Syntax"
begin

text \<open>
  The peer-to-peer protocol: the constants, message headers, services, addresses, inventory and messages of
  \<open>qubitcoin-net/src/protocol.rs\<close>, and the wire format of their payloads in \<open>qubitcoin-net/src/connection.rs\<close>.
  A Rust string is the list of the bytes of its UTF-8 form, as characters. A parser that indexes or slices returns an
  option, \<open>None\<close> for a panic; where the code itself returns an option that one is inside.
\<close>

section \<open>Strings\<close>

definition bytes_of_str :: "string \<Rightarrow> bytes" where
  "bytes_of_str s = map (\<lambda>c. of_nat (of_char c)) s"

definition str_of_bytes :: "bytes \<Rightarrow> string" where
  "str_of_bytes bs = map (\<lambda>b. char_of (unat b)) bs"

text \<open>How many bytes the next character takes and whether it is well-formed; a malformed one ends before the first byte that
  cannot belong to it. Behind the end there are zeros.\<close>

definition byte_at :: "bytes \<Rightarrow> nat \<Rightarrow> u8" where
  "byte_at bs i = (if i < length bs then bs ! i else 0)"

definition utf8_cont :: "u8 \<Rightarrow> bool" where
  "utf8_cont b \<longleftrightarrow> 0x80 \<le> b \<and> b \<le> 0xbf"

definition utf8_second :: "u8 \<Rightarrow> u8 \<Rightarrow> bool" where
  "utf8_second b c \<longleftrightarrow>
     (if b = 0xe0 then 0xa0 \<le> c \<and> c \<le> 0xbf else if b = 0xed then 0x80 \<le> c \<and> c \<le> 0x9f
      else if b = 0xf0 then 0x90 \<le> c \<and> c \<le> 0xbf else if b = 0xf4 then 0x80 \<le> c \<and> c \<le> 0x8f else utf8_cont c)"

definition utf8_next :: "bytes \<Rightarrow> nat \<times> bool" where
  "utf8_next bs =
     (let b = byte_at bs 0 in
      if b < 0x80 then (1, True)
      else if 0xc2 \<le> b \<and> b \<le> 0xdf then (if utf8_cont (byte_at bs 1) then (2, True) else (1, False))
      else if 0xe0 \<le> b \<and> b \<le> 0xef then
        (if \<not> utf8_second b (byte_at bs 1) then (1, False) else if utf8_cont (byte_at bs 2) then (3, True) else (2, False))
      else if 0xf0 \<le> b \<and> b \<le> 0xf4 then
        (if \<not> utf8_second b (byte_at bs 1) then (1, False) else if \<not> utf8_cont (byte_at bs 2) then (2, False)
         else if utf8_cont (byte_at bs 3) then (4, True) else (3, False))
      else (1, False))"

lemma utf8_next_pos: "utf8_next bs = (n, ok) \<Longrightarrow> 0 < n"
  by (auto simp: utf8_next_def Let_def split: if_splits)

function from_utf8_lossy :: "bytes \<Rightarrow> bytes" where
  "from_utf8_lossy bs =
     (if bs = [] then []
      else let (n, ok) = utf8_next bs in (if ok then take n bs else [0xef, 0xbf, 0xbd]) @ from_utf8_lossy (drop n bs))"
  by pat_completeness auto
termination
proof (relation "measure length", goal_cases)
  case (2 bs x n ok)
  then have "0 < n" using utf8_next_pos [of bs n ok] by simp
  then show ?case using 2 by simp
qed simp

function valid_utf8 :: "bytes \<Rightarrow> bool" where
  "valid_utf8 bs \<longleftrightarrow> (if bs = [] then True else let (n, ok) = utf8_next bs in ok \<and> valid_utf8 (drop n bs))"
  by pat_completeness auto
termination
proof (relation "measure length", goal_cases)
  case (2 bs x n ok)
  then have "0 < n" using utf8_next_pos [of bs n ok] by simp
  then show ?case using 2 by simp
qed simp

declare from_utf8_lossy.simps [simp del] valid_utf8.simps [simp del]

section \<open>Constants\<close>

definition PROTOCOL_VERSION :: u32 where "PROTOCOL_VERSION = 70016"
definition MIN_PEER_PROTO_VERSION :: u32 where "MIN_PEER_PROTO_VERSION = 31800"
definition MAX_PAYLOAD_SIZE :: u32 where "MAX_PAYLOAD_SIZE = 4000000"
definition TIMEOUT_INTERVAL :: nat where "TIMEOUT_INTERVAL = 20 * 60"
definition PING_INTERVAL :: nat where "PING_INTERVAL = 2 * 60"
definition WTXID_RELAY_VERSION :: u32 where "WTXID_RELAY_VERSION = 70016"

section \<open>Headers\<close>

type_synonym network_magic = bytes

definition MAGIC_MAINNET :: network_magic where "MAGIC_MAINNET = [0xf9, 0xbe, 0xb4, 0xd9]"
definition MAGIC_TESTNET :: network_magic where "MAGIC_TESTNET = [0x0b, 0x11, 0x09, 0x07]"
definition MAGIC_REGTEST :: network_magic where "MAGIC_REGTEST = [0xfa, 0xbf, 0xb5, 0xda]"
definition MAGIC_TESTNET4 :: network_magic where "MAGIC_TESTNET4 = [0x1c, 0x16, 0x3f, 0x28]"
definition MAGIC_SIGNET :: network_magic where "MAGIC_SIGNET = [0x0a, 0x03, 0xcf, 0x40]"

record message_header =
  mh_magic :: network_magic
  mh_command :: bytes
  mh_payload_size :: u32
  mh_checksum :: bytes

definition message_header_new :: "crypto \<Rightarrow> network_magic \<Rightarrow> string \<Rightarrow> bytes \<Rightarrow> message_header" where
  "message_header_new C magic command payload =
     (let cmd_len = min (length command) 12 in
      \<lparr>mh_magic = magic, mh_command = bytes_of_str (take cmd_len command) @ replicate (12 - cmd_len) 0,
       mh_payload_size = of_nat (length payload), mh_checksum = take 4 (hash256 C payload)\<rparr>)"

definition command_str :: "message_header \<Rightarrow> string" where
  "command_str h = (let cmd = takeWhile (\<lambda>b. b \<noteq> 0) (mh_command h) in if valid_utf8 cmd then str_of_bytes cmd else [])"

definition verify_checksum :: "crypto \<Rightarrow> message_header \<Rightarrow> bytes \<Rightarrow> bool" where
  "verify_checksum C h payload \<longleftrightarrow> mh_checksum h = take 4 (hash256 C payload)"

definition message_header_serialize :: "message_header \<Rightarrow> bytes" where
  "message_header_serialize h = mh_magic h @ mh_command h @ to_le_bytes (mh_payload_size h) @ mh_checksum h"

definition message_header_deserialize :: "bytes \<Rightarrow> message_header" where
  "message_header_deserialize data =
     \<lparr>mh_magic = slice 0 4 data, mh_command = slice 4 16 data, mh_payload_size = from_le_bytes (slice 16 20 data),
      mh_checksum = slice 20 24 data\<rparr>"

section \<open>Services, addresses and inventory\<close>

type_synonym service_flags = u64

definition NODE_NONE :: service_flags where "NODE_NONE = 0"
definition NODE_NETWORK :: service_flags where "NODE_NETWORK = push_bit 0 1"
definition NODE_BLOOM :: service_flags where "NODE_BLOOM = push_bit 2 1"
definition NODE_WITNESS :: service_flags where "NODE_WITNESS = push_bit 3 1"
definition NODE_COMPACT_FILTERS :: service_flags where "NODE_COMPACT_FILTERS = push_bit 6 1"
definition NODE_NETWORK_LIMITED :: service_flags where "NODE_NETWORK_LIMITED = push_bit 10 1"
definition NODE_P2P_V2 :: service_flags where "NODE_P2P_V2 = push_bit 11 1"

definition services_from_bits_truncate :: "u64 \<Rightarrow> service_flags" where
  "services_from_bits_truncate bits =
     bits AND (NODE_NETWORK OR NODE_BLOOM OR NODE_WITNESS OR NODE_COMPACT_FILTERS OR NODE_NETWORK_LIMITED OR NODE_P2P_V2)"

text \<open>An address has its octets, four or sixteen.\<close>

datatype ip_addr = V4 bytes | V6 bytes

record socket_addr =
  sa_ip :: ip_addr
  sa_port :: u16

record net_address =
  na_services :: service_flags
  na_ip :: ip_addr
  na_port :: u16

definition net_address_new :: "service_flags \<Rightarrow> ip_addr \<Rightarrow> u16 \<Rightarrow> net_address" where
  "net_address_new services ip port = \<lparr>na_services = services, na_ip = ip, na_port = port\<rparr>"

definition net_address_socket :: "net_address \<Rightarrow> socket_addr" where
  "net_address_socket a = \<lparr>sa_ip = na_ip a, sa_port = na_port a\<rparr>"

datatype inv_type = InvError | InvTx | InvBlock | InvFilteredBlock | InvCompactBlock | InvWTx | InvWitnessTx | InvWitnessBlock | InvWitnessFilteredBlock

definition inv_from_u32 :: "u32 \<Rightarrow> inv_type option" where
  "inv_from_u32 v =
     (if v = 0 then Some InvError else if v = 1 then Some InvTx else if v = 2 then Some InvBlock else if v = 3 then Some InvFilteredBlock
      else if v = 4 then Some InvCompactBlock else if v = 5 then Some InvWTx else if v = 0x40000001 then Some InvWitnessTx
      else if v = 0x40000002 then Some InvWitnessBlock else if v = 0x40000003 then Some InvWitnessFilteredBlock else None)"

fun inv_to_u32 :: "inv_type \<Rightarrow> u32" where
  "inv_to_u32 InvError = 0"
| "inv_to_u32 InvTx = 1"
| "inv_to_u32 InvBlock = 2"
| "inv_to_u32 InvFilteredBlock = 3"
| "inv_to_u32 InvCompactBlock = 4"
| "inv_to_u32 InvWTx = 5"
| "inv_to_u32 InvWitnessTx = 0x40000001"
| "inv_to_u32 InvWitnessBlock = 0x40000002"
| "inv_to_u32 InvWitnessFilteredBlock = 0x40000003"

fun inv_without_witness :: "inv_type \<Rightarrow> inv_type" where
  "inv_without_witness InvWitnessTx = InvTx"
| "inv_without_witness InvWitnessBlock = InvBlock"
| "inv_without_witness InvWitnessFilteredBlock = InvFilteredBlock"
| "inv_without_witness other = other"

fun inv_with_witness :: "inv_type \<Rightarrow> inv_type" where
  "inv_with_witness InvTx = InvWitnessTx"
| "inv_with_witness InvBlock = InvWitnessBlock"
| "inv_with_witness InvFilteredBlock = InvWitnessFilteredBlock"
| "inv_with_witness other = other"

definition inv_is_witness :: "inv_type \<Rightarrow> bool" where
  "inv_is_witness t \<longleftrightarrow> t = InvWitnessTx \<or> t = InvWitnessBlock \<or> t = InvWitnessFilteredBlock"

record inv_vect =
  iv_type :: inv_type
  iv_hash :: hash_bytes

definition inv_vect_new :: "inv_type \<Rightarrow> hash_bytes \<Rightarrow> inv_vect" where
  "inv_vect_new t h = \<lparr>iv_type = t, iv_hash = h\<rparr>"

section \<open>Messages\<close>

record version_msg =
  vm_version :: u32
  vm_services :: service_flags
  vm_timestamp :: i64
  vm_addr_recv :: net_address
  vm_addr_from :: net_address
  vm_nonce :: u64
  vm_user_agent :: string
  vm_start_height :: i32
  vm_relay :: bool

datatype net_message =
    MsgVersion version_msg
  | MsgVerack
  | MsgPing u64
  | MsgPong u64
  | MsgGetAddr
  | MsgAddr "(u32 \<times> net_address) list"
  | MsgAddrV2 bytes
  | MsgInv "inv_vect list"
  | MsgGetData "inv_vect list"
  | MsgGetBlocks u32 "hash_bytes list" hash_bytes
  | MsgGetHeaders u32 "hash_bytes list" hash_bytes
  | MsgBlock bytes
  | MsgTx bytes
  | MsgHeaders "bytes list"
  | MsgNotFound "inv_vect list"
  | MsgReject string u8 string
  | MsgSendHeaders
  | MsgSendCmpct bool u64
  | MsgFeeFilter i64
  | MsgWtxidRelay
  | MsgSendAddrV2
  | MsgSendTxRcncl u32 u64
  | MsgCmpctBlock bytes
  | MsgGetBlockTxn bytes
  | MsgBlockTxn bytes
  | MsgFilterLoad bytes
  | MsgFilterAdd bytes
  | MsgFilterClear
  | MsgMerkleBlock bytes
  | MsgMemPool
  | MsgGetCFHeaders u8 u32 hash_bytes
  | MsgCFHeaders bytes
  | MsgGetCFilters u8 u32 hash_bytes
  | MsgCFilter bytes
  | MsgGetCFCheckpt u8 hash_bytes
  | MsgCFCheckpt bytes
  | MsgUnknown string bytes

fun msg_command :: "net_message \<Rightarrow> string" where
  "msg_command (MsgVersion _) = ''version''"
| "msg_command MsgVerack = ''verack''"
| "msg_command (MsgPing _) = ''ping''"
| "msg_command (MsgPong _) = ''pong''"
| "msg_command MsgGetAddr = ''getaddr''"
| "msg_command (MsgAddr _) = ''addr''"
| "msg_command (MsgAddrV2 _) = ''addrv2''"
| "msg_command (MsgInv _) = ''inv''"
| "msg_command (MsgGetData _) = ''getdata''"
| "msg_command (MsgGetBlocks _ _ _) = ''getblocks''"
| "msg_command (MsgGetHeaders _ _ _) = ''getheaders''"
| "msg_command (MsgBlock _) = ''block''"
| "msg_command (MsgTx _) = ''tx''"
| "msg_command (MsgHeaders _) = ''headers''"
| "msg_command (MsgNotFound _) = ''notfound''"
| "msg_command (MsgReject _ _ _) = ''reject''"
| "msg_command MsgSendHeaders = ''sendheaders''"
| "msg_command (MsgSendCmpct _ _) = ''sendcmpct''"
| "msg_command (MsgFeeFilter _) = ''feefilter''"
| "msg_command MsgWtxidRelay = ''wtxidrelay''"
| "msg_command MsgSendAddrV2 = ''sendaddrv2''"
| "msg_command (MsgSendTxRcncl _ _) = ''sendtxrcncl''"
| "msg_command (MsgCmpctBlock _) = ''cmpctblock''"
| "msg_command (MsgGetBlockTxn _) = ''getblocktxn''"
| "msg_command (MsgBlockTxn _) = ''blocktxn''"
| "msg_command (MsgFilterLoad _) = ''filterload''"
| "msg_command (MsgFilterAdd _) = ''filteradd''"
| "msg_command MsgFilterClear = ''filterclear''"
| "msg_command (MsgMerkleBlock _) = ''merkleblock''"
| "msg_command MsgMemPool = ''mempool''"
| "msg_command (MsgGetCFHeaders _ _ _) = ''getcfheaders''"
| "msg_command (MsgCFHeaders _) = ''cfheaders''"
| "msg_command (MsgGetCFilters _ _ _) = ''getcfilters''"
| "msg_command (MsgCFilter _) = ''cfilter''"
| "msg_command (MsgGetCFCheckpt _ _) = ''getcfcheckpt''"
| "msg_command (MsgCFCheckpt _) = ''cfcheckpt''"
| "msg_command (MsgUnknown c _) = c"

section \<open>Integers and lengths\<close>

text \<open>A slice \<open>data[a..b]\<close> and the integers that are read from one.\<close>

definition sub_bytes :: "bytes \<Rightarrow> nat \<Rightarrow> nat \<Rightarrow> bytes option" where
  "sub_bytes data a b = (if a \<le> b \<and> b \<le> length data then Some (slice a b data) else None)"

definition u16_at :: "bytes \<Rightarrow> nat \<Rightarrow> u16 option" where "u16_at data a = map_option from_le_bytes (sub_bytes data a (a + 2))"
definition u32_at :: "bytes \<Rightarrow> nat \<Rightarrow> u32 option" where "u32_at data a = map_option from_le_bytes (sub_bytes data a (a + 4))"
definition u64_at :: "bytes \<Rightarrow> nat \<Rightarrow> u64 option" where "u64_at data a = map_option from_le_bytes (sub_bytes data a (a + 8))"
definition u8_at :: "bytes \<Rightarrow> nat \<Rightarrow> u8 option" where "u8_at data a = (if a < length data then Some (data ! a) else None)"

definition net_write_varint :: "u64 \<Rightarrow> bytes" where
  "net_write_varint val =
     (if val < 0xfd then [ucast val] else if val \<le> 0xffff then 0xfd # to_le_bytes (ucast val :: u16)
      else if val \<le> 0xffffffff then 0xfe # to_le_bytes (ucast val :: u32) else 0xff # to_le_bytes val)"

definition bounded :: "u64 \<Rightarrow> nat \<Rightarrow> (u64 \<times> nat) option" where
  "bounded v n = (if v \<le> ucast MAX_PAYLOAD_SIZE then Some (v, n) else None)"

definition net_read_varint :: "bytes \<Rightarrow> (u64 \<times> nat) option option" where
  "net_read_varint data =
     (if data = [] then Some None
      else do {
        b \<leftarrow> u8_at data 0;
        if b = 0xff then (if length data < 9 then Some None else do { v \<leftarrow> u64_at data 1; Some (bounded v 9) })
        else if b = 0xfe then (if length data < 5 then Some None else do { v \<leftarrow> u32_at data 1; Some (bounded (ucast v) 5) })
        else if b = 0xfd then (if length data < 3 then Some None else do { v \<leftarrow> u16_at data 1; Some (bounded (ucast v) 3) })
        else Some (Some (ucast b, 1)) })"

definition usize_checked_add :: "nat \<Rightarrow> nat \<Rightarrow> nat option" where
  "usize_checked_add a b = (if a + b < 2 ^ 64 then Some (a + b) else None)"

section \<open>Addresses and the version message\<close>

definition serialize_net_address :: "net_address \<Rightarrow> bytes" where
  "serialize_net_address a =
     to_le_bytes (na_services a) @
     (case na_ip a of V4 v4 \<Rightarrow> replicate 10 0 @ [0xff, 0xff] @ v4 | V6 v6 \<Rightarrow> v6) @ rev (to_le_bytes (na_port a))"

definition deserialize_net_address :: "bytes \<Rightarrow> net_address option option" where
  "deserialize_net_address data =
     (if length data < 26 then Some None
      else do {
        bits \<leftarrow> u64_at data 0;
        ip_bytes \<leftarrow> sub_bytes data 8 24;
        let ip = (if take 12 ip_bytes = replicate 10 0 @ [0xff, 0xff] then V4 (drop 12 ip_bytes) else V6 ip_bytes);
        port \<leftarrow> sub_bytes data 24 26;
        Some (Some (net_address_new (services_from_bits_truncate bits) ip (from_le_bytes (rev port)))) })"

definition serialize_version :: "version_msg \<Rightarrow> bytes" where
  "serialize_version msg =
     to_le_bytes (vm_version msg) @ to_le_bytes (vm_services msg) @ to_le_bytes (vm_timestamp msg) @
     serialize_net_address (vm_addr_recv msg) @ serialize_net_address (vm_addr_from msg) @ to_le_bytes (vm_nonce msg) @
     net_write_varint (of_nat (length (vm_user_agent msg))) @ bytes_of_str (vm_user_agent msg) @
     to_le_bytes (vm_start_height msg) @ [if vm_relay msg then 1 else 0]"

definition version_tail :: "bytes \<Rightarrow> u32 \<Rightarrow> service_flags \<Rightarrow> i64 \<Rightarrow> net_address \<Rightarrow> net_address \<Rightarrow> u64 \<Rightarrow> nat \<Rightarrow> nat \<Rightarrow> version_msg option option" where
  "version_tail data version services timestamp addr_recv addr_from nonce ua_start ua_end =
     (if length data < ua_end then Some None
      else do {
        ua \<leftarrow> sub_bytes data ua_start ua_end;
        if length data < ua_end + 4 then Some None
        else do {
          start_height \<leftarrow> u32_at data ua_end;
          relay \<leftarrow> (if length data > ua_end + 4 then map_option (\<lambda>b. b \<noteq> 0) (u8_at data (ua_end + 4)) else Some True);
          Some (Some \<lparr>vm_version = version, vm_services = services, vm_timestamp = timestamp, vm_addr_recv = addr_recv,
            vm_addr_from = addr_from, vm_nonce = nonce, vm_user_agent = str_of_bytes (from_utf8_lossy ua),
            vm_start_height = start_height, vm_relay = relay\<rparr>) } })"

definition deserialize_version :: "bytes \<Rightarrow> version_msg option option" where
  "deserialize_version data =
     (if length data < 46 then Some None
      else do {
        version \<leftarrow> u32_at data 0;
        bits \<leftarrow> u64_at data 4;
        timestamp \<leftarrow> u64_at data 12;
        recv \<leftarrow> sub_bytes data 20 46 \<bind> deserialize_net_address;
        case recv of None \<Rightarrow> Some None
        | Some addr_recv \<Rightarrow>
            if length data < 72 then Some None
            else do {
              from_addr \<leftarrow> sub_bytes data 46 72 \<bind> deserialize_net_address;
              case from_addr of None \<Rightarrow> Some None
              | Some addr_from \<Rightarrow>
                  if length data < 80 then Some None
                  else do {
                    nonce \<leftarrow> u64_at data 72;
                    ua \<leftarrow> sub_bytes data 80 (length data) \<bind> net_read_varint;
                    case ua of None \<Rightarrow> Some None
                    | Some (ua_len, varint_size) \<Rightarrow>
                        (case usize_checked_add (80 + varint_size) (unat ua_len) of
                           None \<Rightarrow> Some None
                         | Some ua_end \<Rightarrow>
                             version_tail data version (services_from_bits_truncate bits) timestamp addr_recv addr_from nonce (80 + varint_size) ua_end) } } })"

section \<open>Lists\<close>

text \<open>At most \<open>n\<close> entries of \<open>size\<close> bytes from a position on, as many as there are, and the position behind them.\<close>

fun take_entries :: "nat \<Rightarrow> nat \<Rightarrow> nat \<Rightarrow> bytes \<Rightarrow> (bytes list \<times> nat) option" where
  "take_entries sz 0 pos data = Some ([], pos)"
| "take_entries sz (Suc n) pos data =
     (if pos + sz > length data then Some ([], pos)
      else do {
        entry \<leftarrow> sub_bytes data pos (pos + sz);
        (rest, p) \<leftarrow> take_entries sz n (pos + sz) data;
        Some (entry # rest, p) })"

definition parse_inv_entry :: "bytes \<Rightarrow> inv_vect" where
  "parse_inv_entry e = inv_vect_new (case inv_from_u32 (from_le_bytes (take 4 e)) of Some t \<Rightarrow> t | None \<Rightarrow> InvError) (drop 4 e)"

definition parse_inv_list :: "bytes \<Rightarrow> inv_vect list option" where
  "parse_inv_list data =
     do { r \<leftarrow> net_read_varint data;
          case r of None \<Rightarrow> Some []
          | Some (num, offset) \<Rightarrow> map_option (\<lambda>(es, _). map parse_inv_entry es) (take_entries 36 (unat num) offset data) }"

definition parse_headers_payload :: "bytes \<Rightarrow> bytes list option" where
  "parse_headers_payload data =
     do { r \<leftarrow> net_read_varint data;
          case r of None \<Rightarrow> Some []
          | Some (num, offset) \<Rightarrow> map_option (\<lambda>(es, _). map (take 80) es) (take_entries 81 (unat num) offset data) }"

fun parse_addr_entries :: "bytes list \<Rightarrow> (u32 \<times> net_address) list option" where
  "parse_addr_entries [] = Some []"
| "parse_addr_entries (e # es) =
     do { a \<leftarrow> deserialize_net_address (drop 4 e);
          rest \<leftarrow> parse_addr_entries es;
          Some (case a of None \<Rightarrow> rest | Some addr \<Rightarrow> (from_le_bytes (take 4 e), addr) # rest) }"

definition parse_addr :: "bytes \<Rightarrow> (u32 \<times> net_address) list option" where
  "parse_addr payload =
     do { r \<leftarrow> net_read_varint payload;
          case r of None \<Rightarrow> Some []
          | Some (num, offset) \<Rightarrow> do { (es, _) \<leftarrow> take_entries 30 (unat num) offset payload; parse_addr_entries es } }"

definition serialize_inv_list :: "inv_vect list \<Rightarrow> bytes" where
  "serialize_inv_list invs = net_write_varint (of_nat (length invs)) @ concat (map (\<lambda>i. to_le_bytes (inv_to_u32 (iv_type i)) @ iv_hash i) invs)"

definition serialize_addr_list :: "(u32 \<times> net_address) list \<Rightarrow> bytes" where
  "serialize_addr_list addrs = net_write_varint (of_nat (length addrs)) @ concat (map (\<lambda>(t, a). to_le_bytes t @ serialize_net_address a) addrs)"

definition serialize_headers :: "bytes list \<Rightarrow> bytes" where
  "serialize_headers headers = net_write_varint (of_nat (length headers)) @ concat (map (\<lambda>h. h @ [0]) headers)"

section \<open>Payloads\<close>

text \<open>A request with a block locator; the version of the message, the locator and the hash to stop at.\<close>

definition parse_locator :: "bytes \<Rightarrow> (u32 \<times> hash_bytes list \<times> hash_bytes) option option" where
  "parse_locator payload =
     (if length payload < 4 then Some None
      else do {
        version \<leftarrow> u32_at payload 0;
        r \<leftarrow> sub_bytes payload 4 (length payload) \<bind> net_read_varint;
        case r of None \<Rightarrow> Some None
        | Some (num, offset) \<Rightarrow> do {
            (locators, pos) \<leftarrow> take_entries 32 (unat num) (4 + offset) payload;
            hash_stop \<leftarrow> (if pos + 32 \<le> length payload then sub_bytes payload pos (pos + 32) else Some ZERO_HASH);
            Some (Some (version, locators, hash_stop)) } })"

definition parse_reject_reason :: "bytes \<Rightarrow> nat \<Rightarrow> string option" where
  "parse_reject_reason payload pos =
     (if pos < length payload then do {
        r \<leftarrow> sub_bytes payload pos (length payload) \<bind> net_read_varint;
        case r of None \<Rightarrow> Some []
        | Some (reason_len, r_offset) \<Rightarrow>
            let r_start = pos + r_offset;
                r_end = max (min (case usize_checked_add r_start (unat reason_len) of Some e \<Rightarrow> e | None \<Rightarrow> 2 ^ 64 - 1) (length payload)) r_start
            in map_option (\<lambda>s. str_of_bytes (from_utf8_lossy s)) (sub_bytes payload r_start r_end) }
      else Some [])"

definition parse_reject :: "bytes \<Rightarrow> (string \<times> u8 \<times> string) option option" where
  "parse_reject payload =
     do { r \<leftarrow> net_read_varint payload;
          case r of None \<Rightarrow> Some None
          | Some (msg_len, msg_start) \<Rightarrow>
              let msg_end = (case usize_checked_add msg_start (unat msg_len) of Some e \<Rightarrow> e | None \<Rightarrow> 2 ^ 64 - 1) in
              if msg_end < length payload then do {
                message \<leftarrow> sub_bytes payload msg_start msg_end;
                code \<leftarrow> u8_at payload msg_end;
                reason \<leftarrow> parse_reject_reason payload (msg_end + 1);
                Some (Some (str_of_bytes (from_utf8_lossy message), code, reason)) }
              else Some None }"

text \<open>The first eight bytes of a payload, or zero for a shorter one.\<close>

definition parse_nonce :: "bytes \<Rightarrow> u64 option" where
  "parse_nonce payload = (if length payload \<ge> 8 then u64_at payload 0 else Some 0)"

definition parse_filter_range :: "(u8 \<Rightarrow> u32 \<Rightarrow> hash_bytes \<Rightarrow> net_message) \<Rightarrow> net_message \<Rightarrow> bytes \<Rightarrow> net_message option" where
  "parse_filter_range msg unknown payload =
     (if length payload \<ge> 37 then do {
        filter_type \<leftarrow> u8_at payload 0;
        start_height \<leftarrow> u32_at payload 1;
        h \<leftarrow> sub_bytes payload 5 37;
        Some (msg filter_type start_height h) }
      else Some unknown)"

definition parse_message :: "string \<Rightarrow> bytes \<Rightarrow> net_message option" where
  "parse_message cmd payload =
     (let unknown = MsgUnknown cmd payload in
      if cmd = ''version'' then map_option (case_option unknown MsgVersion) (deserialize_version payload)
      else if cmd = ''verack'' then Some MsgVerack
      else if cmd = ''ping'' then map_option MsgPing (parse_nonce payload)
      else if cmd = ''pong'' then map_option MsgPong (parse_nonce payload)
      else if cmd = ''getaddr'' then Some MsgGetAddr
      else if cmd = ''sendheaders'' then Some MsgSendHeaders
      else if cmd = ''wtxidrelay'' then Some MsgWtxidRelay
      else if cmd = ''sendaddrv2'' then Some MsgSendAddrV2
      else if cmd = ''filterclear'' then Some MsgFilterClear
      else if cmd = ''mempool'' then Some MsgMemPool
      else if cmd = ''sendtxrcncl'' then
        (if length payload \<ge> 12 then do { version \<leftarrow> u32_at payload 0; salt \<leftarrow> u64_at payload 4; Some (MsgSendTxRcncl version salt) }
         else Some unknown)
      else if cmd = ''feefilter'' then map_option MsgFeeFilter (parse_nonce payload)
      else if cmd = ''inv'' then map_option MsgInv (parse_inv_list payload)
      else if cmd = ''getdata'' then map_option MsgGetData (parse_inv_list payload)
      else if cmd = ''notfound'' then map_option MsgNotFound (parse_inv_list payload)
      else if cmd = ''block'' then Some (MsgBlock payload)
      else if cmd = ''tx'' then Some (MsgTx payload)
      else if cmd = ''headers'' then map_option MsgHeaders (parse_headers_payload payload)
      else if cmd = ''sendcmpct'' then
        (if length payload \<ge> 9 then do { b \<leftarrow> u8_at payload 0; version \<leftarrow> u64_at payload 1; Some (MsgSendCmpct (b \<noteq> 0) version) }
         else Some unknown)
      else if cmd = ''cmpctblock'' then Some (MsgCmpctBlock payload)
      else if cmd = ''getblocktxn'' then Some (MsgGetBlockTxn payload)
      else if cmd = ''blocktxn'' then Some (MsgBlockTxn payload)
      else if cmd = ''filterload'' then Some (MsgFilterLoad payload)
      else if cmd = ''filteradd'' then Some (MsgFilterAdd payload)
      else if cmd = ''merkleblock'' then Some (MsgMerkleBlock payload)
      else if cmd = ''addrv2'' then Some (MsgAddrV2 payload)
      else if cmd = ''cfheaders'' then Some (MsgCFHeaders payload)
      else if cmd = ''cfilter'' then Some (MsgCFilter payload)
      else if cmd = ''cfcheckpt'' then Some (MsgCFCheckpt payload)
      else if cmd = ''getheaders'' then map_option (case_option unknown (\<lambda>(v, ls, s). MsgGetHeaders v ls s)) (parse_locator payload)
      else if cmd = ''getblocks'' then map_option (case_option unknown (\<lambda>(v, ls, s). MsgGetBlocks v ls s)) (parse_locator payload)
      else if cmd = ''getcfheaders'' then parse_filter_range MsgGetCFHeaders unknown payload
      else if cmd = ''getcfilters'' then parse_filter_range MsgGetCFilters unknown payload
      else if cmd = ''getcfcheckpt'' then
        (if length payload \<ge> 33 then do { t \<leftarrow> u8_at payload 0; h \<leftarrow> sub_bytes payload 1 33; Some (MsgGetCFCheckpt t h) } else Some unknown)
      else if cmd = ''addr'' then map_option MsgAddr (parse_addr payload)
      else if cmd = ''reject'' then map_option (case_option unknown (\<lambda>(m, c, r). MsgReject m c r)) (parse_reject payload)
      else Some unknown)"

definition serialize_locator :: "u32 \<Rightarrow> hash_bytes list \<Rightarrow> hash_bytes \<Rightarrow> bytes" where
  "serialize_locator version locators hash_stop =
     to_le_bytes version @ net_write_varint (of_nat (length locators)) @ concat locators @ hash_stop"

fun serialize_message :: "net_message \<Rightarrow> bytes" where
  "serialize_message (MsgVersion ver) = serialize_version ver"
| "serialize_message MsgVerack = []"
| "serialize_message (MsgPing nonce) = to_le_bytes nonce"
| "serialize_message (MsgPong nonce) = to_le_bytes nonce"
| "serialize_message MsgGetAddr = []"
| "serialize_message MsgSendHeaders = []"
| "serialize_message MsgWtxidRelay = []"
| "serialize_message MsgSendAddrV2 = []"
| "serialize_message MsgFilterClear = []"
| "serialize_message MsgMemPool = []"
| "serialize_message (MsgSendTxRcncl version salt) = to_le_bytes version @ to_le_bytes salt"
| "serialize_message (MsgFeeFilter fee) = to_le_bytes fee"
| "serialize_message (MsgInv invs) = serialize_inv_list invs"
| "serialize_message (MsgGetData invs) = serialize_inv_list invs"
| "serialize_message (MsgNotFound invs) = serialize_inv_list invs"
| "serialize_message (MsgBlock data) = data"
| "serialize_message (MsgTx data) = data"
| "serialize_message (MsgHeaders headers) = serialize_headers headers"
| "serialize_message (MsgSendCmpct announce version) = (if announce then 1 else 0) # to_le_bytes version"
| "serialize_message (MsgCmpctBlock data) = data"
| "serialize_message (MsgGetBlockTxn data) = data"
| "serialize_message (MsgBlockTxn data) = data"
| "serialize_message (MsgFilterLoad data) = data"
| "serialize_message (MsgFilterAdd data) = data"
| "serialize_message (MsgMerkleBlock data) = data"
| "serialize_message (MsgAddrV2 data) = data"
| "serialize_message (MsgCFHeaders data) = data"
| "serialize_message (MsgCFilter data) = data"
| "serialize_message (MsgCFCheckpt data) = data"
| "serialize_message (MsgGetHeaders version locators hash_stop) = serialize_locator version locators hash_stop"
| "serialize_message (MsgGetBlocks version locators hash_stop) = serialize_locator version locators hash_stop"
| "serialize_message (MsgReject message code reason) =
     net_write_varint (of_nat (length message)) @ bytes_of_str message @ [code] @ net_write_varint (of_nat (length reason)) @ bytes_of_str reason"
| "serialize_message (MsgAddr addrs) = serialize_addr_list addrs"
| "serialize_message (MsgGetCFHeaders filter_type start_height stop_hash) = filter_type # to_le_bytes start_height @ stop_hash"
| "serialize_message (MsgGetCFilters filter_type start_height stop_hash) = filter_type # to_le_bytes start_height @ stop_hash"
| "serialize_message (MsgGetCFCheckpt filter_type stop_hash) = filter_type # stop_hash"
| "serialize_message (MsgUnknown _ payload) = payload"

end
