(* ===== verification/NetWire.thy ===== *)
theory NetWire
  imports NetProtocol
begin

text \<open>
  The wire format of the protocol: no payload makes the parsers panic, every message a node can build is parsed back from its payload,
  and headers are restored with a checksum that fits.
\<close>

section \<open>No panic\<close>

lemma sub_bytes_some [simp]: "a \<le> b \<Longrightarrow> b \<le> length data \<Longrightarrow> sub_bytes data a b = Some (slice a b data)"
  by (simp add: sub_bytes_def)

lemma ints_at_some [simp]:
  "a + 2 \<le> length data \<Longrightarrow> u16_at data a = Some (from_le_bytes (slice a (a + 2) data))"
  "a + 4 \<le> length data \<Longrightarrow> u32_at data a = Some (from_le_bytes (slice a (a + 4) data))"
  "a + 8 \<le> length data \<Longrightarrow> u64_at data a = Some (from_le_bytes (slice a (a + 8) data))"
  "a < length data \<Longrightarrow> u8_at data a = Some (data ! a)"
  by (simp_all add: u16_at_def u32_at_def u64_at_def u8_at_def)

lemma u8_at_some: "n \<le> length data \<Longrightarrow> a < n \<Longrightarrow> u8_at data a = Some (data ! a)"
  by (simp add: u8_at_def)

lemma net_read_varint_total: "\<exists>r. net_read_varint data = Some r"
  by (cases "data = []") (simp_all add: net_read_varint_def not_less)

lemma net_read_varint_range:
  assumes "net_read_varint data = Some (Some (v, n))"
  shows "unat v \<le> 4000000" "0 < n" "n \<le> 9" "n \<le> length data"
proof -
  have small: "unat (ucast (b :: u8) :: u64) \<le> 4000000" for b
  proof -
    have "unat (ucast b :: u64) = unat b" by (rule unat_ucast_widen) simp
    also have "\<dots> < 2 ^ LENGTH(8)" by (rule unat_less_pow)
    finally show ?thesis by (rule less_imp_le [OF order.strict_trans2]) simp
  qed
  have bnd: "bounded w k = Some (v, n) \<Longrightarrow> unat v \<le> 4000000 \<and> n = k" for w k
    by (auto simp: bounded_def MAX_PAYLOAD_SIZE_def word_le_nat_alt split: if_splits)
  show "unat v \<le> 4000000" "0 < n" "n \<le> 9" "n \<le> length data"
    using assms small by (auto simp: net_read_varint_def not_less Suc_le_eq split: if_splits dest!: bnd)
qed

lemma take_entries_total: "\<exists>es p. take_entries sz n pos data = Some (es, p) \<and> (\<forall>e\<in>set es. length e = sz)"
proof (induction n arbitrary: pos)
  case (Suc n)
  obtain es p where r: "take_entries sz n (pos + sz) data = Some (es, p)" "\<forall>e\<in>set es. length e = sz" using Suc by blast
  show ?case using r by (cases "pos + sz > length data") (auto simp: length_slice)
qed simp

lemma net_address_total: "\<exists>r. deserialize_net_address data = Some r"
  by (cases "length data < 26") (simp_all add: deserialize_net_address_def Let_def)

lemma version_tail_total: "ua_start \<le> ua_end \<Longrightarrow> \<exists>r. version_tail data v s t ar af n ua_start ua_end = Some r"
  by (auto simp: version_tail_def not_less)

lemma checked_add_ge: "usize_checked_add a b = Some c \<Longrightarrow> c = a + b"
  by (simp add: usize_checked_add_def split: if_splits)

lemma deserialize_version_total: "\<exists>r. deserialize_version data = Some r"
proof (cases "length data < 80")
  case True
  then show ?thesis
    using net_address_total [of "slice 20 46 data"] net_address_total [of "slice 46 72 data"]
    by (auto simp: deserialize_version_def not_less split: option.splits)
next
  case False
  obtain r1 r2 r3 where r: "deserialize_net_address (slice 20 46 data) = Some r1" "deserialize_net_address (slice 46 72 data) = Some r2"
    "net_read_varint (slice 80 (length data) data) = Some r3"
    using net_address_total net_read_varint_total by meson
  show ?thesis
    using False r by (auto simp: deserialize_version_def dest!: checked_add_ge intro!: version_tail_total split: option.splits)
qed

lemma parse_lists_total:
  "\<exists>r. parse_inv_list data = Some r" "\<exists>r. parse_headers_payload data = Some r" "\<exists>r. parse_addr data = Some r" "\<exists>r. parse_locator data = Some r"
proof -
  have addr: "\<exists>r. parse_addr_entries es = Some r" for es
  proof (induction es)
    case (Cons e es)
    obtain a where "deserialize_net_address (drop 4 e) = Some a" using net_address_total by blast
    then show ?case using Cons by auto
  qed simp
  obtain r where r: "net_read_varint data = Some r" using net_read_varint_total by blast
  show "\<exists>r. parse_inv_list data = Some r" "\<exists>r. parse_headers_payload data = Some r"
    using r take_entries_total by (fastforce simp: parse_inv_list_def parse_headers_payload_def split: option.splits)+
  show "\<exists>r. parse_addr data = Some r"
  proof (cases r)
    case (Some x)
    obtain es p where "take_entries 30 (unat (fst x)) (snd x) data = Some (es, p)" using take_entries_total by blast
    then show ?thesis using r Some addr [of es] by (cases x) (simp add: parse_addr_def)
  qed (simp add: parse_addr_def r)
  show "\<exists>r. parse_locator data = Some r"
  proof (cases "length data < 4")
    case False
    obtain q where q: "net_read_varint (slice 4 (length data) data) = Some q" using net_read_varint_total by blast
    show ?thesis
    proof (cases q)
      case (Some x)
      obtain es p where "take_entries 32 (unat (fst x)) (4 + snd x) data = Some (es, p)" using take_entries_total by blast
      then show ?thesis using False q Some by (cases x) (simp add: parse_locator_def)
    qed (use False q in \<open>simp add: parse_locator_def\<close>)
  qed (simp add: parse_locator_def)
qed

lemma parse_reject_total: "\<exists>r. parse_reject data = Some r"
proof -
  obtain r where r: "net_read_varint data = Some r" using net_read_varint_total by blast
  show ?thesis
  proof (cases r)
    case (Some x)
    obtain v n where x: "x = (v, n)" by fastforce
    have rng: "unat v \<le> 4000000" "n \<le> 9" using net_read_varint_range [of data v n] r Some x by simp_all
    then have add: "usize_checked_add n (unat v) = Some (n + unat v)" by (simp add: usize_checked_add_def)
    have reason: "\<exists>s. parse_reject_reason data pos = Some s" for pos
    proof (cases "pos < length data")
      case True
      obtain q where q: "net_read_varint (slice pos (length data) data) = Some q" using net_read_varint_total by blast
      show ?thesis
      proof (cases q)
        case (Some y)
        obtain w k where y: "y = (w, k)" by fastforce
        have "k \<le> length data - pos" using net_read_varint_range(4) [of "slice pos (length data) data" w k] q Some y True
          by (simp add: length_slice)
        then show ?thesis using True q Some y by (simp add: parse_reject_reason_def Let_def sub_bytes_def)
      qed (use True q in \<open>simp add: parse_reject_reason_def\<close>)
    qed (simp add: parse_reject_reason_def)
    show ?thesis
      using r Some x add reason [of "Suc (n + unat v)"] by (auto simp: parse_reject_def Let_def)
  qed (simp add: parse_reject_def r)
qed

lemma parse_small_total:
  "\<exists>r. parse_nonce data = Some r" "\<exists>r. parse_filter_range msg unknown data = Some r"
  by (simp_all add: parse_nonce_def parse_filter_range_def u8_at_some [of 37])

lemma opt_if: "(b \<Longrightarrow> \<exists>m. x = Some m) \<Longrightarrow> \<exists>m. y = Some m \<Longrightarrow> \<exists>m. (if b then x else y) = Some m"
  by simp

lemma opt_map: "\<exists>m. x = Some m \<Longrightarrow> \<exists>m. map_option f x = Some m"
  by auto

lemma parse_message_total: "\<exists>m. parse_message cmd payload = Some m"
  unfolding parse_message_def Let_def
  by (intro opt_if opt_map parse_small_total parse_reject_total parse_lists_total deserialize_version_total)
    (simp_all add: u8_at_some [of 9] u8_at_some [of 33])

text \<open>No payload, whatever its command, makes the parser of messages panic: every slice and index is in range.\<close>

theorem parse_never_panics: "\<exists>m. parse_message cmd payload = Some m"
  by (rule parse_message_total)

section \<open>Round trips\<close>

lemma str_bytes_str [simp]: "str_of_bytes (bytes_of_str s) = s"
proof -
  have "char_of (unat (of_nat (of_char c :: nat) :: u8)) = c" for c :: char
    using of_char_mod_256 [of c, where 'a = nat] unat_u8_of_mod [of "of_char c"] by simp
  then show ?thesis by (simp add: str_of_bytes_def bytes_of_str_def o_def)
qed

lemma length_bytes_of_str [simp]: "length (bytes_of_str s) = length s"
  by (simp add: bytes_of_str_def)

lemma utf8_next_le: "utf8_next bs = (n, True) \<Longrightarrow> bs \<noteq> [] \<Longrightarrow> n \<le> length bs"
proof -
  have c: "utf8_cont (byte_at bs i) \<Longrightarrow> i < length bs" for i by (auto simp: utf8_cont_def byte_at_def split: if_splits)
  show "utf8_next bs = (n, True) \<Longrightarrow> bs \<noteq> [] \<Longrightarrow> n \<le> length bs"
    using c [of 1] c [of 2] c [of 3] by (auto simp: utf8_next_def Let_def Suc_le_eq split: if_splits)
qed

lemma lossy_id: "valid_utf8 bs \<Longrightarrow> from_utf8_lossy bs = bs"
proof (induction bs rule: valid_utf8.induct)
  case (1 bs)
  show ?case
  proof (cases "bs = []")
    case False
    obtain n ok where n: "utf8_next bs = (n, ok)" by fastforce
    then have v: "ok" "valid_utf8 (drop n bs)" using 1(2) False by (subst (asm) valid_utf8.simps, simp)+
    then have "from_utf8_lossy (drop n bs) = drop n bs" using 1(1) [OF False refl n [symmetric] v(2)] by simp
    then show ?thesis using n v(1) False by (subst from_utf8_lossy.simps) simp
  qed (simp add: from_utf8_lossy.simps)
qed

lemma varint_roundtrip:
  assumes "n \<le> 4000000"
  shows "net_read_varint (net_write_varint (of_nat n) @ rest) = Some (Some (of_nat n, length (net_write_varint (of_nat n))))"
proof -
  have u: "unat (of_nat n :: u64) = n" using assms by (intro unat_of_nat_id) simp
  have b: "of_nat n \<le> (ucast MAX_PAYLOAD_SIZE :: u64)" using assms u by (simp add: word_le_nat_alt MAX_PAYLOAD_SIZE_def)
  consider "n < 0xfd" | "0xfd \<le> n" "n \<le> 0xffff" | "0xffff < n" by linarith
  then show ?thesis
  proof cases
    case 1
    have w: "ucast (ucast (of_nat n :: u64) :: u8) = (of_nat n :: u64)" using 1 u by (intro ucast_narrow_widen) simp
    have "unat (ucast (of_nat n :: u64) :: u8) = n" using 1 u by (simp add: unat_ucast)
    then have "ucast (of_nat n :: u64) \<noteq> (0xff :: u8)" "ucast (of_nat n :: u64) \<noteq> (0xfe :: u8)" "ucast (of_nat n :: u64) \<noteq> (0xfd :: u8)"
      using 1 by (auto simp: word_unat_eq_iff)
    then show ?thesis using 1 u w by (simp add: net_read_varint_def net_write_varint_def word_less_nat_alt)
  next
    case 2
    have w: "ucast (ucast (of_nat n :: u64) :: u16) = (of_nat n :: u64)" using 2 u by (intro ucast_narrow_widen) simp
    show ?thesis using 2 u w b
      by (simp add: net_read_varint_def net_write_varint_def word_less_nat_alt word_le_nat_alt bounded_def slice_def from_to_le_bytes)
  next
    case 3
    have w: "ucast (ucast (of_nat n :: u64) :: u32) = (of_nat n :: u64)" using assms u by (intro ucast_narrow_widen) simp
    show ?thesis using 3 u w b assms
      by (simp add: net_read_varint_def net_write_varint_def word_less_nat_alt word_le_nat_alt bounded_def slice_def from_to_le_bytes)
  qed
qed

lemma take_entries_concat:
  assumes "\<forall>e\<in>set es. length e = sz" "length pre = pos"
  shows "take_entries sz (length es) pos (pre @ concat es @ rest) = Some (es, pos + sz * length es)"
  using assms
proof (induction es arbitrary: pre pos)
  case (Cons e es)
  have "take_entries sz (length es) (pos + sz) ((pre @ e) @ concat es @ rest) = Some (es, pos + sz + sz * length es)"
    using Cons.prems by (intro Cons.IH) auto
  then show ?case using Cons.prems by (simp add: slice_def)
qed simp

definition ip_ok :: "ip_addr \<Rightarrow> bool" where
  "ip_ok ip \<longleftrightarrow> (case ip of V4 v \<Rightarrow> length v = 4 | V6 v \<Rightarrow> length v = 16 \<and> take 12 v \<noteq> replicate 10 0 @ [0xff, 0xff])"

definition addr_ok :: "net_address \<Rightarrow> bool" where
  "addr_ok a \<longleftrightarrow> services_from_bits_truncate (na_services a) = na_services a \<and> ip_ok (na_ip a)"

lemma length_net_address: "addr_ok a \<Longrightarrow> length (serialize_net_address a) = 26"
  by (auto simp: addr_ok_def ip_ok_def serialize_net_address_def split: ip_addr.splits)

lemma net_address_roundtrip: "addr_ok a \<Longrightarrow> deserialize_net_address (serialize_net_address a) = Some (Some a)"
proof -
  assume a: "addr_ok a"
  obtain ip where ip: "length ip = 16" "serialize_net_address a = to_le_bytes (na_services a) @ ip @ rev (to_le_bytes (na_port a))"
    "(if take 12 ip = replicate 10 0 @ [0xff, 0xff] then V4 (drop 12 ip) else V6 ip) = na_ip a"
  proof (cases "na_ip a")
    case (V4 v)
    then have "length v = 4" using a by (simp add: addr_ok_def ip_ok_def)
    then show ?thesis using V4 by (intro that [of "replicate 10 0 @ [0xff, 0xff] @ v"]) (simp_all add: serialize_net_address_def)
  next
    case (V6 v)
    then have "length v = 16" "take 12 v \<noteq> replicate 10 0 @ [0xff, 0xff]" using a by (simp_all add: addr_ok_def ip_ok_def)
    then show ?thesis using V6 by (intro that [of v]) (simp_all add: serialize_net_address_def)
  qed
  have "services_from_bits_truncate (na_services a) = na_services a" using a by (simp add: addr_ok_def)
  then show ?thesis
    unfolding deserialize_net_address_def ip(2) using ip(1) ip(3)
    by (simp add: slice_def from_to_le_bytes net_address_new_def Let_def)
qed

definition version_ok :: "version_msg \<Rightarrow> bool" where
  "version_ok v \<longleftrightarrow> services_from_bits_truncate (vm_services v) = vm_services v \<and> addr_ok (vm_addr_recv v) \<and> addr_ok (vm_addr_from v) \<and>
     valid_utf8 (bytes_of_str (vm_user_agent v)) \<and> length (vm_user_agent v) \<le> 4000000"

lemma slice_mid: "length p = a \<Longrightarrow> length m = b - a \<Longrightarrow> slice a b (p @ m @ r) = m"
  by (simp add: slice_def)

lemma version_roundtrip: "version_ok v \<Longrightarrow> deserialize_version (serialize_version v) = Some (Some v)"
proof -
  assume v: "version_ok v"
  note ar = net_address_roundtrip length_net_address
  let ?n = "of_nat (length (vm_user_agent v)) :: u64"
  let ?pre = "to_le_bytes (vm_version v) @ to_le_bytes (vm_services v) @ to_le_bytes (vm_timestamp v) @
     serialize_net_address (vm_addr_recv v) @ serialize_net_address (vm_addr_from v) @ to_le_bytes (vm_nonce v)"
  let ?ua = "bytes_of_str (vm_user_agent v)" and ?vi = "net_write_varint ?n"
  let ?post = "to_le_bytes (vm_start_height v) @ [if vm_relay v then 1 else 0]"
  have ok: "addr_ok (vm_addr_recv v)" "addr_ok (vm_addr_from v)" "services_from_bits_truncate (vm_services v) = vm_services v"
    "valid_utf8 ?ua" and n: "length (vm_user_agent v) \<le> 4000000" using v by (simp_all add: version_ok_def)
  have u: "unat ?n = length (vm_user_agent v)" using n by (intro unat_of_nat_id) simp
  have ser: "serialize_version v = ?pre @ ?vi @ ?ua @ ?post" by (simp add: serialize_version_def)
  have lp: "length ?pre = 80" using ok ar(2) by simp
  have len: "length ?vi \<le> 9" by (simp add: net_write_varint_def)
  have var: "net_read_varint (slice 80 (length (serialize_version v)) (serialize_version v)) = Some (Some (?n, length ?vi))"
    unfolding ser using varint_roundtrip [OF n, of "?ua @ ?post"] lp by (simp add: slice_def)
  have add: "usize_checked_add (80 + length ?vi) (unat ?n) = Some (80 + length ?vi + length (vm_user_agent v))"
    using n len u by (simp add: usize_checked_add_def)
  have tail: "version_tail (serialize_version v) a b c d e f (80 + length ?vi) (80 + length ?vi + length (vm_user_agent v)) =
      Some (Some \<lparr>vm_version = a, vm_services = b, vm_timestamp = c, vm_addr_recv = d, vm_addr_from = e, vm_nonce = f,
        vm_user_agent = vm_user_agent v, vm_start_height = vm_start_height v, vm_relay = vm_relay v\<rparr>)" for a b c d e f
  proof -
    have s: "slice (80 + length ?vi) (80 + length ?vi + length (vm_user_agent v)) (serialize_version v) = ?ua"
      "slice (80 + length ?vi + length (vm_user_agent v)) (80 + length ?vi + length (vm_user_agent v) + 4) (serialize_version v) = to_le_bytes (vm_start_height v)"
      unfolding ser using lp by (simp_all add: slice_def)
    have r: "serialize_version v ! (80 + length ?vi + length (vm_user_agent v) + 4) = (if vm_relay v then 1 else 0)"
      unfolding ser using ar(2) [OF ok(1)] ar(2) [OF ok(2)] by (simp add: nth_append)
    have l: "length (serialize_version v) = 80 + length ?vi + length (vm_user_agent v) + 5" unfolding ser using lp by simp
    show ?thesis using l s r lossy_id [OF ok(4)] by (simp add: version_tail_def from_to_le_bytes)
  qed
  have l80: "80 \<le> length (serialize_version v)" unfolding ser using lp by simp
  have s: "slice 0 4 (serialize_version v) = to_le_bytes (vm_version v)" "slice 4 12 (serialize_version v) = to_le_bytes (vm_services v)"
    "slice 12 20 (serialize_version v) = to_le_bytes (vm_timestamp v)" "slice 20 46 (serialize_version v) = serialize_net_address (vm_addr_recv v)"
    "slice 46 72 (serialize_version v) = serialize_net_address (vm_addr_from v)" "slice 72 80 (serialize_version v) = to_le_bytes (vm_nonce v)"
    unfolding ser using ar(2) [OF ok(1)] ar(2) [OF ok(2)] by (simp_all add: slice_def)
  show ?thesis
    unfolding deserialize_version_def using l80 s var add tail ok ar(1) [OF ok(1)] ar(1) [OF ok(2)] by (simp add: from_to_le_bytes)
qed


text \<open>The messages that fit the wire format.\<close>

definition known_commands :: "string list" where
  "known_commands = [''version'', ''verack'', ''ping'', ''pong'', ''getaddr'', ''sendheaders'', ''wtxidrelay'', ''sendaddrv2'', ''filterclear'',
     ''mempool'', ''sendtxrcncl'', ''feefilter'', ''inv'', ''getdata'', ''notfound'', ''block'', ''tx'', ''headers'', ''sendcmpct'', ''cmpctblock'',
     ''getblocktxn'', ''blocktxn'', ''filterload'', ''filteradd'', ''merkleblock'', ''addrv2'', ''cfheaders'', ''cfilter'', ''cfcheckpt'',
     ''getheaders'', ''getblocks'', ''getcfheaders'', ''getcfilters'', ''getcfcheckpt'', ''addr'', ''reject'']"

fun msg_ok :: "net_message \<Rightarrow> bool" where
  "msg_ok (MsgVersion v) \<longleftrightarrow> version_ok v"
| "msg_ok (MsgAddr as) \<longleftrightarrow> length as \<le> 4000000 \<and> (\<forall>(t, a)\<in>set as. addr_ok a)"
| "msg_ok (MsgInv is) \<longleftrightarrow> length is \<le> 4000000 \<and> (\<forall>i\<in>set is. length (iv_hash i) = 32)"
| "msg_ok (MsgGetData is) \<longleftrightarrow> length is \<le> 4000000 \<and> (\<forall>i\<in>set is. length (iv_hash i) = 32)"
| "msg_ok (MsgNotFound is) \<longleftrightarrow> length is \<le> 4000000 \<and> (\<forall>i\<in>set is. length (iv_hash i) = 32)"
| "msg_ok (MsgHeaders hs) \<longleftrightarrow> length hs \<le> 4000000 \<and> (\<forall>h\<in>set hs. length h = 80)"
| "msg_ok (MsgGetHeaders v ls s) \<longleftrightarrow> length ls \<le> 4000000 \<and> (\<forall>h\<in>set ls. length h = 32) \<and> length s = 32"
| "msg_ok (MsgGetBlocks v ls s) \<longleftrightarrow> length ls \<le> 4000000 \<and> (\<forall>h\<in>set ls. length h = 32) \<and> length s = 32"
| "msg_ok (MsgReject m c r) \<longleftrightarrow> length m \<le> 4000000 \<and> length r \<le> 4000000 \<and> valid_utf8 (bytes_of_str m) \<and> valid_utf8 (bytes_of_str r)"
| "msg_ok (MsgGetCFHeaders t h s) \<longleftrightarrow> length s = 32"
| "msg_ok (MsgGetCFilters t h s) \<longleftrightarrow> length s = 32"
| "msg_ok (MsgGetCFCheckpt t s) \<longleftrightarrow> length s = 32"
| "msg_ok (MsgUnknown c p) \<longleftrightarrow> c \<notin> set known_commands"
| "msg_ok _ \<longleftrightarrow> True"

lemma inv_u32 [simp]: "inv_from_u32 (inv_to_u32 t) = Some t"
  by (cases t) (simp_all add: inv_from_u32_def)

lemma length_varint: "length (net_write_varint v) \<le> 9"
  by (simp add: net_write_varint_def)

lemma list_roundtrip:
  fixes enc :: "'a \<Rightarrow> bytes"
  assumes "length xs \<le> 4000000" "\<forall>x\<in>set xs. length (enc x) = sz"
  shows "net_read_varint (net_write_varint (of_nat (length xs)) @ concat (map enc xs)) =
      Some (Some (of_nat (length xs), length (net_write_varint (of_nat (length xs)))))"
    "take_entries sz (unat (of_nat (length xs) :: u64)) (length (net_write_varint (of_nat (length xs))))
       (net_write_varint (of_nat (length xs)) @ concat (map enc xs)) =
      Some (map enc xs, length (net_write_varint (of_nat (length xs))) + sz * length xs)"
proof -
  have u: "unat (of_nat (length xs) :: u64) = length (map enc xs)" using assms(1) unat_of_nat_id [of "length xs", where 'a = 64] by simp
  show "net_read_varint (net_write_varint (of_nat (length xs)) @ concat (map enc xs)) =
      Some (Some (of_nat (length xs), length (net_write_varint (of_nat (length xs)))))" by (rule varint_roundtrip [OF assms(1)])
  show "take_entries sz (unat (of_nat (length xs) :: u64)) (length (net_write_varint (of_nat (length xs))))
       (net_write_varint (of_nat (length xs)) @ concat (map enc xs)) =
      Some (map enc xs, length (net_write_varint (of_nat (length xs))) + sz * length xs)"
    unfolding u using take_entries_concat [of "map enc xs" sz "net_write_varint (of_nat (length xs))" _ "[]"] assms(2) by simp
qed

lemma inv_list_roundtrip:
  assumes "length is \<le> 4000000" "\<forall>i\<in>set is. length (iv_hash i) = 32"
  shows "parse_inv_list (serialize_inv_list is) = Some is"
proof -
  have e: "\<forall>i\<in>set is. length (to_le_bytes (inv_to_u32 (iv_type i)) @ iv_hash i) = 36" using assms(2) by simp
  have "map (parse_inv_entry \<circ> (\<lambda>i. to_le_bytes (inv_to_u32 (iv_type i)) @ iv_hash i)) is = is"
    by (simp add: parse_inv_entry_def from_to_le_bytes inv_vect_new_def map_idI)
  then show ?thesis using list_roundtrip [OF assms(1) e] by (simp add: parse_inv_list_def serialize_inv_list_def)
qed

lemma headers_roundtrip:
  assumes "length hs \<le> 4000000" "\<forall>h\<in>set hs. length h = 80"
  shows "parse_headers_payload (serialize_headers hs) = Some hs"
proof -
  have e: "\<forall>h\<in>set hs. length (h @ [0 :: u8]) = 81" using assms(2) by simp
  have "map (take 80 \<circ> (\<lambda>h. h @ [0])) hs = hs" using assms(2) by (simp add: map_idI)
  then show ?thesis using list_roundtrip [OF assms(1) e] by (simp add: parse_headers_payload_def serialize_headers_def)
qed

lemma addr_list_roundtrip:
  assumes "length as \<le> 4000000" "\<forall>(t, a)\<in>set as. addr_ok a"
  shows "parse_addr (serialize_addr_list as) = Some as"
proof -
  let ?enc = "\<lambda>(t :: u32, a). to_le_bytes t @ serialize_net_address a"
  have e: "\<forall>x\<in>set as. length (?enc x) = 30" using assms(2) length_net_address by auto
  have "parse_addr_entries (map ?enc as) = Some as" using assms(2)
    by (induction as) (auto simp: from_to_le_bytes net_address_roundtrip)
  then show ?thesis using list_roundtrip [OF assms(1) e] by (simp add: parse_addr_def serialize_addr_list_def)
qed

lemma locator_roundtrip:
  assumes "length ls \<le> 4000000" "\<forall>h\<in>set ls. length h = 32" "length s = 32"
  shows "parse_locator (serialize_locator v ls s) = Some (Some (v, ls, s))"
proof -
  let ?n = "of_nat (length ls) :: u64" and ?d = "serialize_locator v ls s"
  let ?p = "to_le_bytes v @ net_write_varint ?n"
  have u: "unat ?n = length ls" using assms(1) by (intro unat_of_nat_id) simp
  have d: "?d = ?p @ concat ls @ s" by (simp add: serialize_locator_def)
  have lc: "length (concat ls) = 32 * length ls" using assms(2) by (induction ls) auto
  have var: "net_read_varint (slice 4 (length ?d) ?d) = Some (Some (?n, length (net_write_varint ?n)))"
    using varint_roundtrip [OF assms(1), of "concat ls @ s"] by (simp add: serialize_locator_def slice_def)
  have te: "take_entries 32 (length ls) (4 + length (net_write_varint ?n)) ?d = Some (ls, 4 + length (net_write_varint ?n) + 32 * length ls)"
    unfolding d using assms(2) by (intro take_entries_concat) simp_all
  have l: "length ?d = 4 + length (net_write_varint ?n) + 32 * length ls + 32" using lc assms(3) by (simp add: serialize_locator_def)
  have st: "slice (4 + length (net_write_varint ?n) + 32 * length ls) (4 + length (net_write_varint ?n) + 32 * length ls + 32) ?d = s"
    unfolding d using lc assms(3) by (simp add: slice_def)
  have ve: "slice 0 4 ?d = to_le_bytes v" by (simp add: serialize_locator_def slice_def)
  show ?thesis unfolding parse_locator_def using l var te st ve u by (simp add: from_to_le_bytes)
qed

lemma varint_nonempty: "0 < length (net_write_varint v)"
  by (simp add: net_write_varint_def)

lemma reason_roundtrip:
  assumes "length r \<le> 4000000" "valid_utf8 (bytes_of_str r)" "length p \<le> 5000000"
  shows "parse_reject_reason (p @ net_write_varint (of_nat (length r)) @ bytes_of_str r) (length p) = Some r"
proof -
  define vr where "vr = net_write_varint (of_nat (length r))"
  let ?d = "p @ vr @ bytes_of_str r"
  have u: "unat (of_nat (length r) :: u64) = length r" using assms(1) by (intro unat_of_nat_id) simp
  have vr: "0 < length vr" "length vr \<le> 9" using varint_nonempty length_varint unfolding vr_def by blast+
  have v: "net_read_varint (slice (length p) (length ?d) ?d) = Some (Some (of_nat (length r), length vr))"
    using varint_roundtrip [OF assms(1), of "bytes_of_str r"] unfolding vr_def by (simp add: slice_def)
  have a: "usize_checked_add (length p + length vr) (length r) = Some (length p + length vr + length r)"
    using assms(1,3) vr(2) by (simp add: usize_checked_add_def)
  have s: "sub_bytes ?d (length p + length vr) (length p + length vr + length r) = Some (bytes_of_str r)" by (simp add: slice_def)
  have e: "max (min (length p + length vr + length r) (length ?d)) (length p + length vr) = length p + length vr + length r" by simp
  have l: "length p < length ?d" using vr(1) by simp
  have q: "sub_bytes ?d (length p) (length ?d) = Some (slice (length p) (length ?d) ?d)" by simp
  have "parse_reject_reason ?d (length p) = Some r"
    unfolding parse_reject_reason_def q bind.simps v
    using vr(1) l by (simp add: u a s e Let_def lossy_id [OF assms(2)] del: length_append max_less_iff_conj)
  then show ?thesis by (simp add: vr_def)
qed

lemma reject_roundtrip:
  assumes "msg_ok (MsgReject m c r)"
  shows "parse_reject (serialize_message (MsgReject m c r)) = Some (Some (m, c, r))"
proof -
  have n: "length m \<le> 4000000" "length r \<le> 4000000" and v: "valid_utf8 (bytes_of_str m)" "valid_utf8 (bytes_of_str r)" using assms by simp_all
  define vm where "vm = net_write_varint (of_nat (length m))"
  define tl where "tl = net_write_varint (of_nat (length r)) @ bytes_of_str r"
  let ?d = "vm @ bytes_of_str m @ [c] @ tl"
  have u: "unat (of_nat (length m) :: u64) = length m" using n(1) by (intro unat_of_nat_id) simp
  have vm: "length vm \<le> 9" using length_varint unfolding vm_def by blast
  have add: "usize_checked_add (length vm) (length m) = Some (length vm + length m)"
    using n vm by (simp add: usize_checked_add_def)
  have reason: "parse_reject_reason ?d (length vm + length m + 1) = Some r"
    using reason_roundtrip [OF n(2) v(2), of "vm @ bytes_of_str m @ [c]"] n(1) vm unfolding tl_def by simp
  have rd: "net_read_varint ?d = Some (Some (of_nat (length m), length vm))"
    using varint_roundtrip [OF n(1), of "bytes_of_str m @ [c] @ tl"] unfolding vm_def by simp
  have s: "slice (length vm) (length vm + length m) (vm @ bytes_of_str m @ c # tl) = bytes_of_str m" "(bytes_of_str m @ c # tl) ! length m = c"
    using nth_append_length [of "bytes_of_str m" c tl] by (simp_all add: slice_def)
  have l: "length vm + length m < length ?d" by simp
  have "parse_reject ?d = Some (Some (m, c, r))"
    unfolding parse_reject_def rd bind.simps
    using l by (simp add: u add s reason [simplified] Let_def lossy_id [OF v(1)] del: length_append)
  then show ?thesis by (simp add: vm_def tl_def)
qed

lemma parse_serialize: "msg_ok m \<Longrightarrow> parse_message (msg_command m) (serialize_message m) = Some m"
proof (cases m)
  case (MsgVersion v)
  then show "msg_ok m \<Longrightarrow> ?thesis" using version_roundtrip [of v] by (simp add: parse_message_def)
next
  case (MsgReject a c r)
  then show "msg_ok m \<Longrightarrow> ?thesis" using reject_roundtrip [of a c r] by (simp add: parse_message_def)
next
  case (MsgUnknown c p)
  then show "msg_ok m \<Longrightarrow> ?thesis" by (simp add: parse_message_def known_commands_def)
qed (auto simp: parse_message_def parse_nonce_def parse_filter_range_def from_to_le_bytes inv_list_roundtrip headers_roundtrip
    addr_list_roundtrip locator_roundtrip slice_def)

text \<open>Every message that fits the wire format is parsed back from its command and payload.\<close>

theorem message_roundtrip: "msg_ok m \<Longrightarrow> parse_message (msg_command m) (serialize_message m) = Some m"
  by (rule parse_serialize)

text \<open>An announcement of a block.\<close>

theorem message_roundtrip_witness:
  "parse_message ''inv'' (serialize_message (MsgInv [inv_vect_new InvWitnessBlock (replicate 32 7)])) = Some (MsgInv [inv_vect_new InvWitnessBlock (replicate 32 7)])"
proof -
  let ?m = "MsgInv [inv_vect_new InvWitnessBlock (replicate 32 7)]"
  have "msg_ok ?m" by (simp add: inv_vect_new_def)
  from message_roundtrip [OF this] show ?thesis by simp
qed

section \<open>Frames\<close>

lemma message_header_roundtrip:
  assumes "length (mh_magic h) = 4" "length (mh_command h) = 12" "length (mh_checksum h) = 4"
  shows "message_header_deserialize (message_header_serialize h) = h"
  using assms by (simp add: message_header_deserialize_def message_header_serialize_def slice_def from_to_le_bytes)

text \<open>The commands that fit a header.\<close>

definition command_ok :: "string \<Rightarrow> bool" where
  "command_ok c \<longleftrightarrow> length c \<le> 12 \<and> 0 \<notin> set (bytes_of_str c) \<and> valid_utf8 (bytes_of_str c)"

lemma takeWhile_pad: "0 \<notin> set xs \<Longrightarrow> takeWhile (\<lambda>b. b \<noteq> 0) (xs @ replicate n (0 :: u8)) = xs"
proof -
  assume "0 \<notin> set xs"
  then have "takeWhile (\<lambda>b. b \<noteq> 0) (xs @ replicate n (0 :: u8)) = xs @ takeWhile (\<lambda>b. b \<noteq> 0) (replicate n 0)"
    by (intro takeWhile_append2) auto
  then show ?thesis by (cases n) simp_all
qed

lemma message_header_new_facts:
  assumes "crypto_ok C" "length magic = 4" "command_ok c" "length payload < 2 ^ 32"
  defines "h \<equiv> message_header_new C magic c payload"
  shows "message_header_deserialize (message_header_serialize h) = h" "length (message_header_serialize h) = 24" "mh_magic h = magic"
    "unat (mh_payload_size h) = length payload" "command_str h = c" "verify_checksum C h payload"
proof -
  have len: "length c \<le> 12" "0 \<notin> set (bytes_of_str c)" "valid_utf8 (bytes_of_str c)" using assms(3) by (simp_all add: command_ok_def)
  have "length (hash256 C payload) = 32" using assms(1) by (simp add: crypto_ok_def)
  then have l: "length (mh_magic h) = 4" "length (mh_command h) = 12" "length (mh_checksum h) = 4"
    using assms(2) len(1) by (simp_all add: h_def message_header_new_def Let_def)
  show "message_header_deserialize (message_header_serialize h) = h" by (rule message_header_roundtrip [OF l])
  show "length (message_header_serialize h) = 24" using l by (simp add: message_header_serialize_def)
  show "mh_magic h = magic" by (simp add: h_def message_header_new_def Let_def)
  show "unat (mh_payload_size h) = length payload" using assms(4) by (simp add: h_def message_header_new_def Let_def unat_of_nat_id)
  show "command_str h = c" using len by (simp add: command_str_def h_def message_header_new_def Let_def takeWhile_pad)
  show "verify_checksum C h payload" by (simp add: verify_checksum_def h_def message_header_new_def Let_def)
qed

end
