(* ===== verification/Connection.thy ===== *)
theory Connection
  imports NetWire "HOL-Library.Finite_Map"
begin

text \<open>
  Peers and connections: the table of peers of \<open>qubitcoin-net/src/peer.rs\<close> and the connection manager with the loop of
  every connection, \<open>qubitcoin-net/src/connection.rs\<close>. The tasks are interleaved: each function below is what one task does
  between two points at which it waits. A time is a number of nanoseconds. The socket is what arrives and what is queued for the writer;
  a writer that fails is not modelled.
\<close>

section \<open>Peers\<close>

type_synonym instant = nat

definition secs :: "nat \<Rightarrow> nat" where "secs n = n * 1000000000"

datatype peer_state = Connecting | Connected | Handshaking | Ready | Disconnecting | Disconnected

datatype connection_type = Inbound | OutboundFullRelay | Manual | Feeler | BlockRelay | AddrFetch

record peer =
  p_id :: u64
  p_addr :: socket_addr
  p_state :: peer_state
  p_version :: u32
  p_services :: service_flags
  p_user_agent :: string
  p_start_height :: i32
  p_connected_at :: instant
  p_last_recv :: instant
  p_last_send :: instant
  p_inbound :: bool
  p_relay :: bool
  p_bytes_sent :: u64
  p_bytes_recv :: u64
  p_ping_nonce :: "u64 option"
  p_min_fee_filter :: i64
  p_conn_type :: connection_type
  p_wtxid_relay :: bool
  p_wants_addrv2 :: bool
  p_prefer_headers :: bool
  p_prefer_cmpctblock :: bool
  p_cmpctblock_version :: u64
  p_version_received :: bool
  p_verack_received :: bool
  p_discouraged :: bool

definition peer_new :: "instant \<Rightarrow> u64 \<Rightarrow> socket_addr \<Rightarrow> bool \<Rightarrow> peer" where
  "peer_new now i addr inbound =
     \<lparr>p_id = i, p_addr = addr, p_state = Connecting, p_version = 0, p_services = NODE_NONE, p_user_agent = [], p_start_height = 0,
      p_connected_at = now, p_last_recv = now, p_last_send = now, p_inbound = inbound, p_relay = True, p_bytes_sent = 0, p_bytes_recv = 0,
      p_ping_nonce = None, p_min_fee_filter = 0, p_conn_type = (if inbound then Inbound else OutboundFullRelay), p_wtxid_relay = False,
      p_wants_addrv2 = False, p_prefer_headers = False, p_prefer_cmpctblock = False, p_cmpctblock_version = 0, p_version_received = False,
      p_verack_received = False, p_discouraged = False\<rparr>"

definition is_ready :: "peer \<Rightarrow> bool" where "is_ready p \<longleftrightarrow> p_state p = Ready"

definition update_last_recv :: "instant \<Rightarrow> peer \<Rightarrow> peer" where "update_last_recv now p = p\<lparr>p_last_recv := now\<rparr>"
definition update_last_send :: "instant \<Rightarrow> peer \<Rightarrow> peer" where "update_last_send now p = p\<lparr>p_last_send := now\<rparr>"

record peer_manager =
  pm_peers :: "(u64, peer) fmap"
  pm_next_id :: u64
  pm_max_inbound :: nat
  pm_max_outbound :: nat

definition peer_manager_new :: "nat \<Rightarrow> nat \<Rightarrow> peer_manager" where
  "peer_manager_new max_inbound max_outbound =
     \<lparr>pm_peers = fmempty, pm_next_id = 1, pm_max_inbound = max_inbound, pm_max_outbound = max_outbound\<rparr>"

definition add_peer :: "instant \<Rightarrow> socket_addr \<Rightarrow> bool \<Rightarrow> peer_manager \<Rightarrow> u64 \<times> peer_manager" where
  "add_peer now addr inbound pm =
     (let i = pm_next_id pm in
      (i, pm\<lparr>pm_next_id := i + 1, pm_peers := fmupd i (peer_new now i addr inbound) (pm_peers pm)\<rparr>))"

definition remove_peer :: "u64 \<Rightarrow> peer_manager \<Rightarrow> peer_manager" where
  "remove_peer i pm = pm\<lparr>pm_peers := fmdrop i (pm_peers pm)\<rparr>"

definition get_peer :: "peer_manager \<Rightarrow> u64 \<Rightarrow> peer option" where
  "get_peer pm i = fmlookup (pm_peers pm) i"

definition count_peers :: "(peer \<Rightarrow> bool) \<Rightarrow> peer_manager \<Rightarrow> nat" where
  "count_peers P pm = card {i. \<exists>p. fmlookup (pm_peers pm) i = Some p \<and> P p}"

definition peer_count :: "peer_manager \<Rightarrow> nat" where "peer_count pm = card (fmdom' (pm_peers pm))"
definition inbound_count :: "peer_manager \<Rightarrow> nat" where "inbound_count pm = count_peers p_inbound pm"
definition outbound_count :: "peer_manager \<Rightarrow> nat" where "outbound_count pm = count_peers (\<lambda>p. \<not> p_inbound p) pm"

definition update_peer :: "u64 \<Rightarrow> (peer \<Rightarrow> peer) \<Rightarrow> peer_manager \<Rightarrow> peer_manager" where
  "update_peer i f pm = (case fmlookup (pm_peers pm) i of None \<Rightarrow> pm | Some p \<Rightarrow> pm\<lparr>pm_peers := fmupd i (f p) (pm_peers pm)\<rparr>)"

definition can_accept_inbound :: "peer_manager \<Rightarrow> bool" where
  "can_accept_inbound pm \<longleftrightarrow> inbound_count pm < pm_max_inbound pm"

definition can_connect_outbound :: "peer_manager \<Rightarrow> bool" where
  "can_connect_outbound pm \<longleftrightarrow> outbound_count pm < pm_max_outbound pm"

section \<open>The connection manager\<close>

datatype connection_event =
    NewInbound u64 socket_addr
  | NewOutbound u64 socket_addr
  | MessageReceived u64 net_message
  | PeerDisconnected u64 string
  | HandshakeComplete u64

record conn_config =
  cc_listen_addr :: socket_addr
  cc_magic :: network_magic
  cc_max_inbound :: nat
  cc_max_outbound :: nat
  cc_our_services :: service_flags
  cc_user_agent :: string
  cc_best_height :: i32

definition conn_config_default :: conn_config where
  "conn_config_default =
     \<lparr>cc_listen_addr = \<lparr>sa_ip = V4 [0, 0, 0, 0], sa_port = 8333\<rparr>, cc_magic = MAGIC_MAINNET, cc_max_inbound = 125, cc_max_outbound = 10,
      cc_our_services = NODE_NETWORK OR NODE_WITNESS, cc_user_agent = ''/Qubitcoin:0.1.0/'', cc_best_height = 0\<rparr>"

text \<open>The loop of a connection: whether it came in, the bytes of a header that have arrived, the payload that is being read, the times of
  the last header and the last ping, and what is queued for the writer.\<close>

record conn =
  cn_inbound :: bool
  cn_header :: bytes
  cn_payload :: "(message_header \<times> bytes) option"
  cn_last_recv :: instant
  cn_last_ping :: instant
  cn_out :: "(string \<times> bytes) list"

text \<open>The manager, with the loops that run and the events that have been sent.\<close>

record conn_manager =
  cm_config :: conn_config
  cm_peers :: peer_manager
  cm_senders :: "u64 set"
  cm_tasks :: "u64 set"
  cm_local_nonce :: u64
  cm_conns :: "(u64, conn) fmap"
  cm_events :: "connection_event list"

definition conn_manager_new :: "conn_config \<Rightarrow> u64 \<Rightarrow> conn_manager" where
  "conn_manager_new config nonce =
     \<lparr>cm_config = config, cm_peers = peer_manager_new (cc_max_inbound config) (cc_max_outbound config), cm_senders = {}, cm_tasks = {},
      cm_local_nonce = nonce, cm_conns = fmempty, cm_events = []\<rparr>"

definition emit :: "connection_event \<Rightarrow> conn_manager \<Rightarrow> conn_manager" where
  "emit e cm = cm\<lparr>cm_events := cm_events cm @ [e]\<rparr>"

definition on_peer :: "u64 \<Rightarrow> (peer \<Rightarrow> peer) \<Rightarrow> conn_manager \<Rightarrow> conn_manager" where
  "on_peer i f cm = cm\<lparr>cm_peers := update_peer i f (cm_peers cm)\<rparr>"

definition on_conn :: "u64 \<Rightarrow> (conn \<Rightarrow> conn) \<Rightarrow> conn_manager \<Rightarrow> conn_manager" where
  "on_conn i f cm = (case fmlookup (cm_conns cm) i of None \<Rightarrow> cm | Some c \<Rightarrow> cm\<lparr>cm_conns := fmupd i (f c) (cm_conns cm)\<rparr>)"

text \<open>A message reaches the queue of a connection whose sender is registered.\<close>

definition enqueue :: "u64 \<Rightarrow> string \<Rightarrow> bytes \<Rightarrow> conn_manager \<Rightarrow> conn_manager" where
  "enqueue i cmd payload cm = on_conn i (\<lambda>c. c\<lparr>cn_out := cn_out c @ [(cmd, payload)]\<rparr>) cm"

definition send_to_peer :: "u64 \<Rightarrow> string \<Rightarrow> bytes \<Rightarrow> conn_manager \<Rightarrow> bool \<times> conn_manager" where
  "send_to_peer i cmd payload cm = (if i \<in> cm_senders cm then (True, enqueue i cmd payload cm) else (False, cm))"

definition build_version_message_with_nonce :: "conn_config \<Rightarrow> i64 \<Rightarrow> socket_addr \<Rightarrow> u64 \<Rightarrow> version_msg" where
  "build_version_message_with_nonce config timestamp remote_addr nonce =
     \<lparr>vm_version = PROTOCOL_VERSION, vm_services = cc_our_services config, vm_timestamp = timestamp,
      vm_addr_recv = net_address_new NODE_NONE (sa_ip remote_addr) (sa_port remote_addr),
      vm_addr_from = net_address_new (cc_our_services config) (V4 [0, 0, 0, 0]) (sa_port (cc_listen_addr config)),
      vm_nonce = nonce, vm_user_agent = cc_user_agent config, vm_start_height = cc_best_height config, vm_relay = True\<rparr>"

definition enqueue_version :: "u64 \<Rightarrow> i64 \<Rightarrow> conn_manager \<Rightarrow> conn_manager" where
  "enqueue_version i timestamp cm =
     (let addr = (case get_peer (cm_peers cm) i of Some p \<Rightarrow> p_addr p | None \<Rightarrow> \<lparr>sa_ip = V4 [0, 0, 0, 0], sa_port = 0\<rparr>) in
      enqueue i ''version'' (serialize_version (build_version_message_with_nonce (cm_config cm) timestamp addr (cm_local_nonce cm))) cm)"

text \<open>The start of a connection, up to its read loop.\<close>

definition start_connection :: "instant \<Rightarrow> i64 \<Rightarrow> u64 \<Rightarrow> bool \<Rightarrow> conn_manager \<Rightarrow> conn_manager" where
  "start_connection now timestamp i inbound cm =
     (let c = \<lparr>cn_inbound = inbound, cn_header = [], cn_payload = None, cn_last_recv = now, cn_last_ping = now, cn_out = []\<rparr>;
          cm = on_peer i (\<lambda>p. p\<lparr>p_state := Connected\<rparr>) cm;
          cm = cm\<lparr>cm_senders := insert i (cm_senders cm), cm_tasks := insert i (cm_tasks cm), cm_conns := fmupd i c (cm_conns cm)\<rparr>;
          cm = (if inbound then cm else enqueue_version i timestamp cm)
      in on_peer i (\<lambda>p. p\<lparr>p_state := Handshaking\<rparr>) cm)"

definition accept_inbound :: "instant \<Rightarrow> i64 \<Rightarrow> socket_addr \<Rightarrow> conn_manager \<Rightarrow> conn_manager" where
  "accept_inbound now timestamp addr cm =
     (if \<not> can_accept_inbound (cm_peers cm) then cm
      else let (i, pm) = add_peer now addr True (cm_peers cm)
           in start_connection now timestamp i True (emit (NewInbound i addr) (cm\<lparr>cm_peers := pm\<rparr>)))"

definition connect_to :: "instant \<Rightarrow> i64 \<Rightarrow> socket_addr \<Rightarrow> conn_manager \<Rightarrow> u64 \<times> conn_manager" where
  "connect_to now timestamp addr cm =
     (let (i, pm) = add_peer now addr False (cm_peers cm)
      in (i, start_connection now timestamp i False (emit (NewOutbound i addr) (cm\<lparr>cm_peers := pm\<rparr>))))"

definition disconnect_peer :: "u64 \<Rightarrow> conn_manager \<Rightarrow> conn_manager" where
  "disconnect_peer i cm =
     cm\<lparr>cm_tasks := cm_tasks cm - {i}, cm_conns := (if i \<in> cm_tasks cm then fmdrop i (cm_conns cm) else cm_conns cm),
        cm_senders := cm_senders cm - {i}, cm_peers := remove_peer i (cm_peers cm)\<rparr>"

section \<open>The loop of a connection\<close>

definition cleanup_peer :: "u64 \<Rightarrow> string \<Rightarrow> conn_manager \<Rightarrow> conn_manager" where
  "cleanup_peer i reason cm =
     (let cm = on_peer i (\<lambda>p. p\<lparr>p_state := Disconnected\<rparr>) cm
      in emit (PeerDisconnected i reason) (cm\<lparr>cm_peers := remove_peer i (cm_peers cm)\<rparr>))"

definition close :: "u64 \<Rightarrow> string \<Rightarrow> conn_manager \<Rightarrow> conn_manager" where
  "close i reason cm = (cleanup_peer i reason (cm\<lparr>cm_senders := cm_senders cm - {i}\<rparr>))\<lparr>cm_conns := fmdrop i (cm_conns cm)\<rparr>"

definition on_version :: "i64 \<Rightarrow> u64 \<Rightarrow> bool \<Rightarrow> version_msg \<Rightarrow> conn_manager \<Rightarrow> conn_manager" where
  "on_version timestamp i inbound ver cm =
     (let cm = on_peer i (\<lambda>p. p\<lparr>p_version := vm_version ver, p_services := vm_services ver, p_user_agent := vm_user_agent ver,
                   p_start_height := vm_start_height ver, p_relay := vm_relay ver\<rparr>) cm;
          cm = (if inbound then enqueue_version i timestamp cm else cm);
          cm = (if min PROTOCOL_VERSION (vm_version ver) \<ge> WTXID_RELAY_VERSION then enqueue i ''wtxidrelay'' [] cm else cm)
      in enqueue i ''verack'' [] (enqueue i ''sendaddrv2'' [] cm))"

definition on_message :: "crypto \<Rightarrow> instant \<Rightarrow> i64 \<Rightarrow> u64 \<Rightarrow> bool \<Rightarrow> message_header \<Rightarrow> bytes \<Rightarrow> conn_manager \<Rightarrow> conn_manager" where
  "on_message C now timestamp i inbound h payload cm =
     (if \<not> verify_checksum C h payload then close i ''bad checksum'' cm
      else case parse_message (command_str h) payload of
        None \<Rightarrow> cm\<lparr>cm_conns := fmdrop i (cm_conns cm)\<rparr>
      | Some message \<Rightarrow>
          let cm = on_peer i (\<lambda>p. update_last_recv now (p\<lparr>p_bytes_recv := p_bytes_recv p + 24 + of_nat (length payload)\<rparr>)) cm;
              deliver = emit (MessageReceived i message)
          in case message of
               MsgVersion ver \<Rightarrow>
                 if vm_version ver < MIN_PEER_PROTO_VERSION then close i ''obsolete version'' cm
                 else if vm_nonce ver = cm_local_nonce cm \<and> vm_nonce ver \<noteq> 0 then close i ''self-connection'' cm
                 else deliver (on_version timestamp i inbound ver cm)
             | MsgVerack \<Rightarrow> deliver (emit (HandshakeComplete i) (on_peer i (\<lambda>p. p\<lparr>p_state := Ready\<rparr>) cm))
             | MsgPing nonce \<Rightarrow> deliver (enqueue i ''pong'' (to_le_bytes nonce) cm)
             | _ \<Rightarrow> deliver cm)"

text \<open>The header is complete.\<close>

definition on_header :: "crypto \<Rightarrow> instant \<Rightarrow> i64 \<Rightarrow> u64 \<Rightarrow> bytes \<Rightarrow> conn_manager \<Rightarrow> conn_manager" where
  "on_header C now timestamp i header_buf cm =
     (let h = message_header_deserialize header_buf in
      case fmlookup (cm_conns cm) i of
        None \<Rightarrow> cm
      | Some c \<Rightarrow>
          if mh_magic h \<noteq> cc_magic (cm_config cm) then close i ''bad magic'' cm
          else if mh_payload_size h > MAX_PAYLOAD_SIZE then close i ''payload too large'' cm
          else if mh_payload_size h = 0 then on_message C now timestamp i (cn_inbound c) h [] cm
          else on_conn i (\<lambda>c. c\<lparr>cn_payload := Some (h, [])\<rparr>) cm)"

text \<open>A byte arrives.\<close>

definition conn_byte :: "crypto \<Rightarrow> instant \<Rightarrow> i64 \<Rightarrow> u64 \<Rightarrow> u8 \<Rightarrow> conn_manager \<Rightarrow> conn_manager" where
  "conn_byte C now timestamp i b cm =
     (case fmlookup (cm_conns cm) i of
        None \<Rightarrow> cm
      | Some c \<Rightarrow>
          (case cn_payload c of
             None \<Rightarrow>
               let buf = cn_header c @ [b] in
               if length buf < 24 then on_conn i (\<lambda>c. c\<lparr>cn_header := buf\<rparr>) cm
               else on_header C now timestamp i buf (on_conn i (\<lambda>c. c\<lparr>cn_header := [], cn_last_recv := now\<rparr>) cm)
           | Some (h, got) \<Rightarrow>
               let payload = got @ [b] in
               if length payload < unat (mh_payload_size h) then on_conn i (\<lambda>c. c\<lparr>cn_payload := Some (h, payload)\<rparr>) cm
               else on_message C now timestamp i (cn_inbound c) h payload (on_conn i (\<lambda>c. c\<lparr>cn_payload := None\<rparr>) cm)))"

definition conn_receive :: "crypto \<Rightarrow> instant \<Rightarrow> i64 \<Rightarrow> u64 \<Rightarrow> bytes \<Rightarrow> conn_manager \<Rightarrow> conn_manager" where
  "conn_receive C now timestamp i bs cm = fold (conn_byte C now timestamp i) bs cm"

text \<open>Reading a header is given up when the timer ticks, with what has arrived of it, and started again; a payload is read to its end.\<close>

definition conn_tick :: "instant \<Rightarrow> u64 \<Rightarrow> u64 \<Rightarrow> conn_manager \<Rightarrow> conn_manager" where
  "conn_tick now nonce i cm =
     (case fmlookup (cm_conns cm) i of
        None \<Rightarrow> cm
      | Some c \<Rightarrow>
          if cn_payload c \<noteq> None then cm
          else if now - cn_last_recv c \<ge> secs TIMEOUT_INTERVAL
          then close i (''inactivity: nothing received for '' @ show_nat TIMEOUT_INTERVAL @ ''s'') cm
          else
            let cm = on_conn i (\<lambda>c. c\<lparr>cn_header := []\<rparr>) cm in
            if now - cn_last_ping c \<ge> secs PING_INTERVAL
            then on_conn i (\<lambda>c. c\<lparr>cn_last_ping := now\<rparr>) (enqueue i ''ping'' (to_le_bytes nonce) cm)
            else cm)"

definition conn_shutdown :: "u64 \<Rightarrow> conn_manager \<Rightarrow> conn_manager" where
  "conn_shutdown i cm =
     (case fmlookup (cm_conns cm) i of None \<Rightarrow> cm | Some c \<Rightarrow> if cn_payload c \<noteq> None then cm else close i ''shutdown'' cm)"

definition conn_read_error :: "string \<Rightarrow> u64 \<Rightarrow> conn_manager \<Rightarrow> conn_manager" where
  "conn_read_error e i cm =
     (case fmlookup (cm_conns cm) i of
        None \<Rightarrow> cm
      | Some c \<Rightarrow> close i ((if cn_payload c = None then ''read error: '' else ''payload read error: '') @ e) cm)"

text \<open>What the writer puts on the wire.\<close>

definition frame :: "crypto \<Rightarrow> network_magic \<Rightarrow> string \<times> bytes \<Rightarrow> bytes" where
  "frame C magic = (\<lambda>(cmd, payload). message_header_serialize (message_header_new C magic cmd payload) @ payload)"

section \<open>Consistency\<close>

text \<open>The tables agree: a connection that runs has a sender, a peer and a handle, and the others have none. No more peers have come in than
  are allowed. A connection buffers less than a header or less than a payload of the size its header gives.\<close>

definition conn_ok :: "conn \<Rightarrow> bool" where
  "conn_ok c \<longleftrightarrow> length (cn_header c) < 24 \<and>
     (case cn_payload c of None \<Rightarrow> True
      | Some (h, got) \<Rightarrow> length got < unat (mh_payload_size h) \<and> mh_payload_size h \<le> MAX_PAYLOAD_SIZE)"

definition cm_ok :: "conn_manager \<Rightarrow> bool" where
  "cm_ok cm \<longleftrightarrow>
     fmdom' (cm_conns cm) = cm_senders cm \<and> fmdom' (pm_peers (cm_peers cm)) = cm_senders cm \<and> cm_senders cm \<subseteq> cm_tasks cm \<and>
     inbound_count (cm_peers cm) \<le> pm_max_inbound (cm_peers cm) \<and>
     (\<forall>i c. fmlookup (cm_conns cm) i = Some c \<longrightarrow> conn_ok c)"

lemma cm_projections [simp]:
  "cm_config (emit e cm) = cm_config cm" "cm_peers (emit e cm) = cm_peers cm" "cm_senders (emit e cm) = cm_senders cm"
  "cm_tasks (emit e cm) = cm_tasks cm" "cm_local_nonce (emit e cm) = cm_local_nonce cm" "cm_conns (emit e cm) = cm_conns cm"
  "cm_config (on_peer i f cm) = cm_config cm" "cm_senders (on_peer i f cm) = cm_senders cm" "cm_peers (on_peer i f cm) = update_peer i f (cm_peers cm)"
  "cm_tasks (on_peer i f cm) = cm_tasks cm" "cm_local_nonce (on_peer i f cm) = cm_local_nonce cm" "cm_conns (on_peer i f cm) = cm_conns cm"
  "cm_events (on_peer i f cm) = cm_events cm"
  "cm_config (on_conn i g cm) = cm_config cm" "cm_peers (on_conn i g cm) = cm_peers cm" "cm_senders (on_conn i g cm) = cm_senders cm"
  "cm_tasks (on_conn i g cm) = cm_tasks cm" "cm_local_nonce (on_conn i g cm) = cm_local_nonce cm" "cm_events (on_conn i g cm) = cm_events cm"
  by (simp_all add: emit_def on_peer_def on_conn_def split: option.splits)

lemma on_conn_lookup [simp]: "fmlookup (cm_conns (on_conn i g cm)) j = (if j = i then map_option g (fmlookup (cm_conns cm) i) else fmlookup (cm_conns cm) j)"
  by (auto simp: on_conn_def split: option.splits)

lemma on_conn_dom [simp]: "fmdom' (cm_conns (on_conn i g cm)) = fmdom' (cm_conns cm)"
  by (auto simp: on_conn_def insert_absorb fmdom'I split: option.splits)

lemma update_peer_simps [simp]:
  "fmdom' (pm_peers (update_peer i f pm)) = fmdom' (pm_peers pm)" "pm_max_inbound (update_peer i f pm) = pm_max_inbound pm"
  "pm_max_outbound (update_peer i f pm) = pm_max_outbound pm" "pm_next_id (update_peer i f pm) = pm_next_id pm"
  "fmlookup (pm_peers (update_peer i f pm)) j = (if j = i then map_option f (fmlookup (pm_peers pm) i) else fmlookup (pm_peers pm) j)"
  by (auto simp: update_peer_def insert_absorb fmdom'I split: option.splits)

lemma update_peer_count: "(\<And>p. P (f p) = P p) \<Longrightarrow> count_peers P (update_peer i f pm) = count_peers P pm"
  unfolding count_peers_def by (rule arg_cong [of _ _ card]) auto

lemma remove_peer_simps [simp]: "pm_peers (remove_peer i pm) = fmdrop i (pm_peers pm)" "pm_max_inbound (remove_peer i pm) = pm_max_inbound pm"
  by (simp_all add: remove_peer_def)

lemma count_finite: "finite {i. \<exists>p. fmlookup (pm_peers pm) i = Some p \<and> P p}"
  by (rule finite_subset [of _ "fmdom' (pm_peers pm)"]) (auto intro: fmdom'I)

lemma remove_peer_count: "count_peers P (remove_peer i pm) \<le> count_peers P pm"
  unfolding count_peers_def by (intro card_mono count_finite) auto

text \<open>A change of one connection, or of a peer that keeps its direction, keeps the tables.\<close>

lemma on_conn_ok: "cm_ok cm \<Longrightarrow> (\<And>c. fmlookup (cm_conns cm) i = Some c \<Longrightarrow> conn_ok (g c)) \<Longrightarrow> cm_ok (on_conn i g cm)"
  by (auto simp: cm_ok_def split: if_splits)

lemma on_peer_ok: "cm_ok cm \<Longrightarrow> (\<And>p. p_inbound (f p) = p_inbound p) \<Longrightarrow> cm_ok (on_peer i f cm)"
  by (simp add: cm_ok_def inbound_count_def update_peer_count)

lemma emit_ok: "cm_ok cm \<Longrightarrow> cm_ok (emit e cm)"
  by (simp add: cm_ok_def)

lemma enqueue_ok: "cm_ok cm \<Longrightarrow> cm_ok (enqueue i cmd payload cm)"
  unfolding enqueue_def by (intro on_conn_ok) (auto simp: cm_ok_def conn_ok_def)

lemma enqueue_version_ok: "cm_ok cm \<Longrightarrow> cm_ok (enqueue_version i t cm)"
  by (simp add: enqueue_version_def Let_def enqueue_ok)

lemma drop_ok:
  assumes "cm_ok cm"
  shows "cm_ok (cm\<lparr>cm_senders := cm_senders cm - {i}, cm_peers := remove_peer i (update_peer i (\<lambda>p. p\<lparr>p_state := s\<rparr>) (cm_peers cm)),
      cm_conns := fmdrop i (cm_conns cm)\<rparr>)"
proof -
  have "inbound_count (remove_peer i (update_peer i (\<lambda>p. p\<lparr>p_state := s\<rparr>) (cm_peers cm))) \<le> inbound_count (cm_peers cm)"
    unfolding inbound_count_def by (rule order.trans [OF remove_peer_count]) (simp add: update_peer_count)
  then show ?thesis using assms by (auto simp: cm_ok_def)
qed

lemma close_eq:
  "close i reason cm = emit (PeerDisconnected i reason)
     (cm\<lparr>cm_senders := cm_senders cm - {i}, cm_peers := remove_peer i (update_peer i (\<lambda>p. p\<lparr>p_state := Disconnected\<rparr>) (cm_peers cm)),
        cm_conns := fmdrop i (cm_conns cm)\<rparr>)"
  by (simp add: close_def cleanup_peer_def emit_def on_peer_def Let_def)

lemma close_ok: "cm_ok cm \<Longrightarrow> cm_ok (close i reason cm)"
  unfolding close_eq by (intro emit_ok drop_ok)

lemma on_version_ok: "cm_ok cm \<Longrightarrow> cm_ok (on_version t i inbound ver cm)"
  unfolding on_version_def Let_def by (intro enqueue_ok) (simp add: enqueue_ok enqueue_version_ok on_peer_ok)

lemma on_message_ok: "cm_ok cm \<Longrightarrow> cm_ok (on_message C now t i inbound h payload cm)"
proof -
  assume ok: "cm_ok cm"
  obtain m where m: "parse_message (command_str h) payload = Some m" using parse_message_total by blast
  let ?cm = "on_peer i (\<lambda>p. update_last_recv now (p\<lparr>p_bytes_recv := p_bytes_recv p + 24 + of_nat (length payload)\<rparr>)) cm"
  have ok': "cm_ok ?cm" using ok by (intro on_peer_ok) (simp_all add: update_last_recv_def)
  show ?thesis
    using ok ok' m by (cases m) (simp_all add: on_message_def Let_def close_ok emit_ok on_version_ok on_peer_ok enqueue_ok)
qed

lemma conn_byte_ok: "cm_ok cm \<Longrightarrow> cm_ok (conn_byte C now t i b cm)"
proof -
  assume ok: "cm_ok cm"
  have hdr: "cm_ok (on_header C now t i buf cm')" if "cm_ok cm'" "\<forall>c. fmlookup (cm_conns cm') i = Some c \<longrightarrow> cn_header c = []" for buf cm'
    using that unfolding on_header_def Let_def
    by (auto simp: close_ok on_message_ok conn_ok_def unat_gt_0 intro!: on_conn_ok split: option.splits)
  show ?thesis
  proof (cases "fmlookup (cm_conns cm) i")
    case (Some c)
    then have c: "conn_ok c" using ok by (auto simp: cm_ok_def)
    show ?thesis
    proof (cases "cn_payload c")
      case None
      have "cm_ok (on_conn i (\<lambda>c. c\<lparr>cn_header := cn_header c @ [b]\<rparr>) cm)" if "length (cn_header c) < 23"
        using ok c Some None that by (intro on_conn_ok) (auto simp: conn_ok_def)
      moreover have "cm_ok (on_conn i (\<lambda>c. c\<lparr>cn_header := [], cn_last_recv := now\<rparr>) cm)"
        using ok c Some by (intro on_conn_ok) (auto simp: conn_ok_def)
      ultimately show ?thesis
        using ok c Some None by (auto simp: conn_byte_def Let_def conn_ok_def intro!: hdr on_conn_ok)
    next
      case (Some x)
      obtain h got where x: "x = (h, got)" by fastforce
      have "cm_ok (on_conn i (\<lambda>c. c\<lparr>cn_payload := None\<rparr>) cm)"
        using ok c \<open>fmlookup (cm_conns cm) i = Some c\<close> by (intro on_conn_ok) (auto simp: conn_ok_def)
      then show ?thesis
        using ok c \<open>fmlookup (cm_conns cm) i = Some c\<close> Some x
        by (auto simp: conn_byte_def Let_def conn_ok_def intro!: on_message_ok on_conn_ok)
    qed
  qed (simp add: conn_byte_def ok)
qed

lemma conn_receive_ok: "cm_ok cm \<Longrightarrow> cm_ok (conn_receive C now t i bs cm)"
  unfolding conn_receive_def by (induction bs arbitrary: cm) (simp_all add: conn_byte_ok)

lemma conn_tick_ok: "cm_ok cm \<Longrightarrow> cm_ok (conn_tick now nonce i cm)"
proof (cases "fmlookup (cm_conns cm) i")
  case (Some c)
  assume ok: "cm_ok cm"
  have hd: "cm_ok (on_conn i (\<lambda>c. c\<lparr>cn_header := []\<rparr>) cm)" using ok by (intro on_conn_ok) (auto simp: cm_ok_def conn_ok_def)
  have pg: "cm_ok (on_conn i (\<lambda>c. c\<lparr>cn_last_ping := now\<rparr>) cm')" if "cm_ok cm'" for cm'
    using that by (intro on_conn_ok) (auto simp: cm_ok_def conn_ok_def)
  show ?thesis using ok hd Some by (simp add: conn_tick_def Let_def close_ok enqueue_ok pg)
qed (simp add: conn_tick_def)

lemma add_peer_count: "count_peers P (snd (add_peer now addr b pm)) \<le> count_peers P pm + (if P (peer_new now (pm_next_id pm) addr b) then 1 else 0)"
proof -
  let ?S = "{i. \<exists>p. fmlookup (pm_peers pm) i = Some p \<and> P p}" and ?n = "peer_new now (pm_next_id pm) addr b"
  have "{i. \<exists>p. fmlookup (pm_peers (snd (add_peer now addr b pm))) i = Some p \<and> P p} \<subseteq> (if P ?n then insert (pm_next_id pm) ?S else ?S)"
    by (auto simp: add_peer_def Let_def split: if_splits)
  then have "count_peers P (snd (add_peer now addr b pm)) \<le> card (if P ?n then insert (pm_next_id pm) ?S else ?S)"
    unfolding count_peers_def by (intro card_mono) (simp_all add: count_finite)
  also have "\<dots> \<le> card ?S + (if P ?n then 1 else 0)" by (simp add: card_insert_if count_finite)
  finally show ?thesis by (simp add: count_peers_def)
qed

lemma start_ok:
  assumes "cm_ok cm" "add_peer now addr inbound (cm_peers cm) = (i, pm)" "inbound_count pm \<le> pm_max_inbound pm"
  shows "cm_ok (start_connection now t i inbound (emit e (cm\<lparr>cm_peers := pm\<rparr>)))"
proof -
  have pm: "fmdom' (pm_peers pm) = insert i (fmdom' (pm_peers (cm_peers cm)))" using assms(2) by (auto simp: add_peer_def Let_def)
  let ?c = "\<lparr>cn_inbound = inbound, cn_header = [], cn_payload = None, cn_last_recv = now, cn_last_ping = now, cn_out = []\<rparr>"
  let ?cm = "on_peer i (\<lambda>p. p\<lparr>p_state := Connected\<rparr>) (emit e (cm\<lparr>cm_peers := pm\<rparr>))"
  have "cm_ok (?cm\<lparr>cm_senders := insert i (cm_senders ?cm), cm_tasks := insert i (cm_tasks ?cm), cm_conns := fmupd i ?c (cm_conns ?cm)\<rparr>)"
    using assms(1,3) pm by (auto simp: cm_ok_def inbound_count_def update_peer_count conn_ok_def split: if_splits)
  then show ?thesis unfolding start_connection_def Let_def by (intro on_peer_ok; cases inbound) (simp_all add: enqueue_version_ok)
qed

text \<open>What the tasks do, in any order.\<close>

inductive reachable_conns :: "crypto \<Rightarrow> conn_manager \<Rightarrow> bool" for C :: crypto where
  conns_new: "reachable_conns C (conn_manager_new config nonce)"
| conns_accept: "reachable_conns C cm \<Longrightarrow> reachable_conns C (accept_inbound now t addr cm)"
| conns_connect: "reachable_conns C cm \<Longrightarrow> reachable_conns C (snd (connect_to now t addr cm))"
| conns_receive: "reachable_conns C cm \<Longrightarrow> reachable_conns C (conn_receive C now t i bs cm)"
| conns_tick: "reachable_conns C cm \<Longrightarrow> reachable_conns C (conn_tick now nonce i cm)"
| conns_shutdown: "reachable_conns C cm \<Longrightarrow> reachable_conns C (conn_shutdown i cm)"
| conns_error: "reachable_conns C cm \<Longrightarrow> reachable_conns C (conn_read_error e i cm)"
| conns_send: "reachable_conns C cm \<Longrightarrow> reachable_conns C (snd (send_to_peer i cmd payload cm))"
| conns_disconnect: "reachable_conns C cm \<Longrightarrow> reachable_conns C (disconnect_peer i cm)"

text \<open>Whatever the tasks of the connections do and in whatever order, the tables stay consistent: exactly the peers whose connection runs
  have a sender and an entry in the table of peers, the limit on inbound peers is kept, and no connection buffers more than a header or a
  payload of four million bytes.\<close>

theorem connections_consistent:
  assumes "reachable_conns C cm"
  shows "cm_ok cm"
  using assms
proof (induction rule: reachable_conns.induct)
  case (conns_accept cm now t addr)
  obtain i pm where a: "add_peer now addr True (cm_peers cm) = (i, pm)" by fastforce
  have "pm_max_inbound pm = pm_max_inbound (cm_peers cm)" using a by (auto simp: add_peer_def Let_def)
  then have "can_accept_inbound (cm_peers cm) \<Longrightarrow> inbound_count pm \<le> pm_max_inbound pm"
    using add_peer_count [of p_inbound now addr True "cm_peers cm"] a by (auto simp: can_accept_inbound_def inbound_count_def split: if_splits)
  then show ?case using conns_accept.IH start_ok [OF _ a] a by (simp add: accept_inbound_def)
next
  case (conns_connect cm now t addr)
  obtain i pm where a: "add_peer now addr False (cm_peers cm) = (i, pm)" by fastforce
  have "pm_max_inbound pm = pm_max_inbound (cm_peers cm)" using a by (auto simp: add_peer_def Let_def)
  then have "inbound_count pm \<le> pm_max_inbound pm"
    using add_peer_count [of p_inbound now addr False "cm_peers cm"] a conns_connect.IH by (simp add: cm_ok_def inbound_count_def peer_new_def)
  then show ?case using conns_connect.IH start_ok [OF _ a] a by (simp add: connect_to_def)
next
  case (conns_new config nonce)
  show ?case by (simp add: cm_ok_def conn_manager_new_def peer_manager_new_def inbound_count_def count_peers_def)
next
  case (conns_disconnect cm i)
  then show ?case
    using remove_peer_count [of p_inbound i "cm_peers cm"] by (auto simp: cm_ok_def disconnect_peer_def inbound_count_def)
qed (auto simp: conn_receive_ok conn_tick_ok conn_shutdown_def conn_read_error_def send_to_peer_def close_ok enqueue_ok split: option.splits)


section \<open>Delivery\<close>

text \<open>The messages a connection passes on.\<close>

definition acceptable :: "u64 \<Rightarrow> net_message \<Rightarrow> bool" where
  "acceptable nonce m \<longleftrightarrow>
     (case m of MsgVersion v \<Rightarrow> \<not> vm_version v < MIN_PEER_PROTO_VERSION \<and> \<not> (vm_nonce v = nonce \<and> vm_nonce v \<noteq> 0) | _ \<Rightarrow> True)"

definition deliverable :: "conn_manager \<Rightarrow> net_message \<Rightarrow> bool" where
  "deliverable cm m \<longleftrightarrow> msg_ok m \<and> command_ok (msg_command m) \<and> length (serialize_message m) \<le> 4000000 \<and>
     acceptable (cm_local_nonce cm) m"

definition events_of :: "u64 \<Rightarrow> net_message \<Rightarrow> connection_event list" where
  "events_of i m = (if m = MsgVerack then [HandshakeComplete i] else []) @ [MessageReceived i m]"

text \<open>A connection that waits for a header.\<close>

definition waiting :: "u64 \<Rightarrow> conn_manager \<Rightarrow> bool" where
  "waiting i cm \<longleftrightarrow> (\<exists>c. fmlookup (cm_conns cm) i = Some c \<and> cn_header c = [] \<and> cn_payload c = None)"

lemma receive_append: "conn_receive C now t i (xs @ ys) cm = conn_receive C now t i ys (conn_receive C now t i xs cm)"
  by (simp add: conn_receive_def)

lemma on_conn_compose: "on_conn i f (on_conn i g cm) = on_conn i (f \<circ> g) cm"
  by (simp add: on_conn_def split: option.splits)

lemma fmupd_same: "fmlookup m i = Some c \<Longrightarrow> fmupd i c m = m"
  by (rule fmap_ext) auto

lemma receive_header_part:
  assumes "fmlookup (cm_conns cm) i = Some c" "cn_payload c = None" "length (cn_header c) + length bs < 24"
  shows "conn_receive C now t i bs cm = on_conn i (\<lambda>c. c\<lparr>cn_header := cn_header c @ bs\<rparr>) cm"
  using assms
proof (induction bs arbitrary: cm c)
  case Nil
  then show ?case by (simp add: conn_receive_def on_conn_def fmupd_same)
next
  case (Cons b bs)
  let ?cm = "on_conn i (\<lambda>c. c\<lparr>cn_header := cn_header c @ [b]\<rparr>) cm"
  have "conn_byte C now t i b cm = ?cm"
    using Cons.prems by (simp add: conn_byte_def on_conn_def)
  moreover have "conn_receive C now t i bs ?cm = on_conn i (\<lambda>c. c\<lparr>cn_header := cn_header c @ bs\<rparr>) ?cm"
    using Cons.prems by (intro Cons.IH [of _ "c\<lparr>cn_header := cn_header c @ [b]\<rparr>"]) simp_all
  ultimately show ?case by (simp add: conn_receive_def on_conn_compose o_def)
qed

lemma receive_header:
  assumes "waiting i cm" "length buf = 24"
  shows "conn_receive C now t i buf cm = on_header C now t i buf (on_conn i (\<lambda>c. c\<lparr>cn_header := [], cn_last_recv := now\<rparr>) cm)"
proof -
  obtain c where c: "fmlookup (cm_conns cm) i = Some c" "cn_header c = []" "cn_payload c = None" using assms(1) by (auto simp: waiting_def)
  obtain xs b where buf: "buf = xs @ [b]" "length xs = 23" using assms(2) by (cases buf rule: rev_cases) auto
  have 1: "conn_receive C now t i xs cm = on_conn i (\<lambda>c. c\<lparr>cn_header := cn_header c @ xs\<rparr>) cm"
    using receive_header_part [OF c(1,3), of xs] c(2) buf(2) by simp
  show ?thesis
    unfolding buf receive_append 1 using c buf(2)
    by (simp add: conn_receive_def conn_byte_def on_conn_compose o_def)
qed

lemma receive_payload:
  assumes "fmlookup (cm_conns cm) i = Some c" "cn_payload c = Some (h, got)" "length got + length bs = unat (mh_payload_size h)" "bs \<noteq> []"
  shows "conn_receive C now t i bs cm = on_message C now t i (cn_inbound c) h (got @ bs) (on_conn i (\<lambda>c. c\<lparr>cn_payload := None\<rparr>) cm)"
  using assms
proof (induction bs arbitrary: cm c got)
  case (Cons b bs)
  show ?case
  proof (cases "bs = []")
    case True
    then show ?thesis using Cons.prems by (simp add: conn_receive_def conn_byte_def)
  next
    case False
    let ?cm = "on_conn i (\<lambda>c. c\<lparr>cn_payload := Some (h, got @ [b])\<rparr>) cm"
    have "Suc (length got) < unat (mh_payload_size h)" using Cons.prems(3) False by (cases bs) auto
    then have one: "conn_byte C now t i b cm = ?cm" using Cons.prems by (simp add: conn_byte_def Let_def)
    have "conn_receive C now t i bs ?cm =
        on_message C now t i (cn_inbound c) h ((got @ [b]) @ bs) (on_conn i (\<lambda>c. c\<lparr>cn_payload := None\<rparr>) ?cm)"
      using Cons.prems False by (subst Cons.IH [of _ "c\<lparr>cn_payload := Some (h, got @ [b])\<rparr>" "got @ [b]"]) simp_all
    then show ?thesis using one by (simp add: conn_receive_def on_conn_compose o_def)
  qed
qed simp


text \<open>The messages of a connection that keep it waiting for the next header.\<close>

lemma waiting_simps [simp]:
  "waiting i (emit e cm) = waiting i cm" "waiting i (on_peer j f cm) = waiting i cm" "waiting i (enqueue j cmd payload cm) = waiting i cm"
  "waiting i (enqueue_version j t cm) = waiting i cm" "waiting i (on_version t j b ver cm) = waiting i cm"
  "cm_events (enqueue j cmd payload cm) = cm_events cm" "cm_events (enqueue_version j t cm) = cm_events cm" "cm_events (on_version t j b ver cm) = cm_events cm"
  "cm_config (enqueue j cmd payload cm) = cm_config cm" "cm_config (enqueue_version j t cm) = cm_config cm" "cm_config (on_version t j b ver cm) = cm_config cm"
  "cm_local_nonce (enqueue j cmd payload cm) = cm_local_nonce cm" "cm_local_nonce (enqueue_version j t cm) = cm_local_nonce cm" "cm_local_nonce (on_version t j b ver cm) = cm_local_nonce cm"
proof -
  show w: "waiting i (emit e cm) = waiting i cm" "waiting i (on_peer j f cm) = waiting i cm" for e f cm by (simp_all add: waiting_def)
  show q: "waiting i (enqueue j cmd payload cm) = waiting i cm" for cmd payload cm by (auto simp: waiting_def enqueue_def)
  show v: "waiting i (enqueue_version j t cm) = waiting i cm" for cm by (simp add: enqueue_version_def Let_def q)
  show "waiting i (on_version t j b ver cm) = waiting i cm" by (simp add: on_version_def Let_def q v w)
  show q': "cm_events (enqueue j cmd payload cm) = cm_events cm" "cm_config (enqueue j cmd payload cm) = cm_config cm"
    "cm_local_nonce (enqueue j cmd payload cm) = cm_local_nonce cm" for cmd payload cm by (simp_all add: enqueue_def)
  show v': "cm_events (enqueue_version j t cm) = cm_events cm" "cm_config (enqueue_version j t cm) = cm_config cm"
    "cm_local_nonce (enqueue_version j t cm) = cm_local_nonce cm" for cm by (simp_all add: enqueue_version_def Let_def q')
  show "cm_events (on_version t j b ver cm) = cm_events cm" "cm_config (on_version t j b ver cm) = cm_config cm"
    "cm_local_nonce (on_version t j b ver cm) = cm_local_nonce cm" by (simp_all add: on_version_def Let_def q' v')
qed

lemma cm_events_emit [simp]: "cm_events (emit e cm) = cm_events cm @ [e]"
  by (simp add: emit_def)

lemma on_message_delivers:
  assumes "verify_checksum C h payload" "parse_message (command_str h) payload = Some m" "waiting i cm"
    "acceptable (cm_local_nonce cm) m"
    "cm' = on_message C now t i b h payload cm"
  shows "waiting i cm' \<and> cm_events cm' = cm_events cm @ events_of i m \<and> cm_config cm' = cm_config cm \<and> cm_local_nonce cm' = cm_local_nonce cm"
proof (cases m)
  case (MsgVersion v)
  then have "vm_version v < MIN_PEER_PROTO_VERSION = False" "(vm_nonce v = cm_local_nonce cm \<and> vm_nonce v \<noteq> 0) = False"
    using assms(4) by (simp_all add: acceptable_def)
  then show ?thesis using assms(1-3) MsgVersion unfolding assms(5) on_message_def Let_def
    by (cases "vm_nonce v = cm_local_nonce cm") (simp_all add: events_of_def)
qed (use assms(1-3) in \<open>simp_all add: assms(5) on_message_def Let_def events_of_def\<close>)

text \<open>A frame leads to one message.\<close>

lemma receive_frame_message:
  assumes "crypto_ok C" "waiting i cm" "command_ok cmd" "length payload \<le> 4000000" "length (cc_magic (cm_config cm)) = 4"
  defines "h \<equiv> message_header_new C (cc_magic (cm_config cm)) cmd payload"
  obtains b cm2 where "conn_receive C now t i (frame C (cc_magic (cm_config cm)) (cmd, payload)) cm = on_message C now t i b h payload cm2" "waiting i cm2"
    "cm_events cm2 = cm_events cm" "cm_config cm2 = cm_config cm" "cm_local_nonce cm2 = cm_local_nonce cm" "cm_peers cm2 = cm_peers cm"
proof -
  let ?cm1 = "on_conn i (\<lambda>c. c\<lparr>cn_header := [], cn_last_recv := now\<rparr>) cm"
  let ?cm' = "conn_receive C now t i (frame C (cc_magic (cm_config cm)) (cmd, payload)) cm"
  have small: "length payload < 2 ^ 32" using assms(4) by simp
  note h = message_header_new_facts [OF assms(1,5,3) small, folded h_def]
  obtain c where c: "fmlookup (cm_conns cm) i = Some c" "cn_header c = []" "cn_payload c = None" using assms(2) by (auto simp: waiting_def)
  have sz: "\<not> MAX_PAYLOAD_SIZE < mh_payload_size h" using assms(4) h(4) by (simp add: word_less_nat_alt MAX_PAYLOAD_SIZE_def)
  have z: "mh_payload_size h = 0 \<longleftrightarrow> payload = []" using h(4) by (metis length_0_conv unat_eq_zero)
  have cm': "?cm' = conn_receive C now t i payload (on_header C now t i (message_header_serialize h) ?cm1)"
    unfolding frame_def prod.case receive_append h_def [symmetric] using receive_header [OF assms(2) h(2)] by simp
  show ?thesis
  proof (cases "payload = []")
    case True
    have "?cm' = on_message C now t i (cn_inbound c) h payload ?cm1"
      unfolding cm' using True z c sz h(1,3) by (simp add: on_header_def conn_receive_def)
    moreover have "waiting i ?cm1" using c by (simp add: waiting_def)
    ultimately show ?thesis by (intro that [of _ ?cm1]) simp_all
  next
    case False
    let ?cm2 = "on_conn i (\<lambda>c. c\<lparr>cn_payload := Some (h, [])\<rparr>) ?cm1"
    let ?cm3 = "on_conn i (\<lambda>c. c\<lparr>cn_payload := None\<rparr>) ?cm2"
    have "?cm' = conn_receive C now t i payload ?cm2" unfolding cm' using False z c sz h(1,3) by (simp add: on_header_def)
    also have "\<dots> = on_message C now t i (cn_inbound c) h ([] @ payload) ?cm3"
      using receive_payload [of ?cm2 i "c\<lparr>cn_header := [], cn_last_recv := now, cn_payload := Some (h, [])\<rparr>" h "[]" payload] c h(4) False by simp
    finally have "?cm' = on_message C now t i (cn_inbound c) h payload ?cm3" by simp
    moreover have "waiting i ?cm3" using c by (simp add: waiting_def)
    ultimately show ?thesis by (intro that [of _ ?cm3]) simp_all
  qed
qed

lemma receive_frame:
  assumes "crypto_ok C" "waiting i cm" "deliverable cm m" "length (cc_magic (cm_config cm)) = 4"
    "cm' = conn_receive C now t i (frame C (cc_magic (cm_config cm)) (msg_command m, serialize_message m)) cm"
  shows "waiting i cm' \<and> cm_events cm' = cm_events cm @ events_of i m \<and> cm_config cm' = cm_config cm \<and> cm_local_nonce cm' = cm_local_nonce cm"
proof -
  let ?p = "serialize_message m"
  have d: "msg_ok m" "command_ok (msg_command m)" "length ?p \<le> 4000000"
    "acceptable (cm_local_nonce cm) m"
    using assms(3) by (simp_all add: deliverable_def)
  have small: "length ?p < 2 ^ 32" using d(3) by simp
  note h = message_header_new_facts [OF assms(1,4) d(2) small]
  obtain b cm2 where r: "cm' = on_message C now t i b (message_header_new C (cc_magic (cm_config cm)) (msg_command m) ?p) ?p cm2" "waiting i cm2"
    "cm_events cm2 = cm_events cm" "cm_config cm2 = cm_config cm" "cm_local_nonce cm2 = cm_local_nonce cm"
    unfolding assms(5) by (rule receive_frame_message [OF assms(1,2) d(2,3) assms(4)])
  have parse: "parse_message (command_str (message_header_new C (cc_magic (cm_config cm)) (msg_command m) ?p)) ?p = Some m"
    using parse_serialize [OF d(1)] h(5) by simp
  show ?thesis using on_message_delivers [OF h(6) parse r(2) _ r(1)] d(4) r(3-5) by simp
qed

lemma deliverable_cong: "cm_local_nonce cm = cm_local_nonce cm' \<Longrightarrow> deliverable cm m = deliverable cm' m"
  by (simp add: deliverable_def)

text \<open>Messages arrive. When a peer writes a sequence of messages that fit the wire format, and no version message that is obsolete or our own,
  the connection turns the bytes into exactly these messages, in order, with the end of the handshake announced at each \<open>verack\<close>,
  and waits for the next one.\<close>

theorem messages_delivered:
  assumes "crypto_ok C" "waiting i cm" "\<forall>m\<in>set ms. deliverable cm m" "length (cc_magic (cm_config cm)) = 4"
  shows "waiting i (conn_receive C now t i (concat (map (\<lambda>m. frame C (cc_magic (cm_config cm)) (msg_command m, serialize_message m)) ms)) cm) \<and>
    cm_events (conn_receive C now t i (concat (map (\<lambda>m. frame C (cc_magic (cm_config cm)) (msg_command m, serialize_message m)) ms)) cm) =
      cm_events cm @ concat (map (events_of i) ms)"
  using assms(2-4)
proof (induction ms arbitrary: cm)
  case Nil
  then show ?case by (simp add: conn_receive_def)
next
  case (Cons m ms)
  let ?cm = "conn_receive C now t i (frame C (cc_magic (cm_config cm)) (msg_command m, serialize_message m)) cm"
  have f: "waiting i ?cm" "cm_events ?cm = cm_events cm @ events_of i m" "cm_config ?cm = cm_config cm" "cm_local_nonce ?cm = cm_local_nonce cm"
    using receive_frame [OF assms(1) Cons.prems(1) _ Cons.prems(3) refl, of m now t] Cons.prems(2) by simp_all
  have "\<forall>m\<in>set ms. deliverable ?cm m" using Cons.prems(2) deliverable_cong [OF f(4)] by simp
  then show ?case using Cons.IH [OF f(1)] f Cons.prems(3) by (simp add: receive_append)
qed

section \<open>Two weak points of the loop\<close>

lemma verack_ok: "command_ok ''verack''"
proof -
  have b: "bytes_of_str ''verack'' = [0x76, 0x65, 0x72, 0x61, 0x63, 0x6b]" by (simp add: bytes_of_str_def)
  show ?thesis unfolding command_ok_def b by (simp add: valid_utf8.simps utf8_next_def byte_at_def)
qed

text \<open>A peer that sends \<open>verack\<close> and nothing else completes the handshake: its connection is announced as ready, although it has
  sent no version message, and so neither its protocol version nor a connection to ourselves has been checked.\<close>

theorem ready_without_version:
  assumes "crypto_ok C" "waiting i cm" "length (cc_magic (cm_config cm)) = 4" "get_peer (cm_peers cm) i = Some p"
  shows "\<exists>p'. get_peer (cm_peers (conn_receive C now t i (frame C (cc_magic (cm_config cm)) (''verack'', [])) cm)) i = Some p' \<and> is_ready p' \<and>
      p_version p' = p_version p \<and>
    cm_events (conn_receive C now t i (frame C (cc_magic (cm_config cm)) (''verack'', [])) cm) =
      cm_events cm @ [HandshakeComplete i, MessageReceived i MsgVerack]"
proof -
  let ?h = "message_header_new C (cc_magic (cm_config cm)) ''verack'' []"
  have ok: "command_ok ''verack''" by (rule verack_ok)
  note h = message_header_new_facts [OF assms(1,3) ok, of "[]", simplified]
  obtain b cm2 where r: "conn_receive C now t i (frame C (cc_magic (cm_config cm)) (''verack'', [])) cm = on_message C now t i b ?h [] cm2" "waiting i cm2"
    "cm_events cm2 = cm_events cm" "cm_peers cm2 = cm_peers cm"
    by (rule receive_frame_message [OF assms(1,2) ok _ assms(3), of "[]" now t]) simp_all
  have parse: "parse_message (command_str ?h) [] = Some MsgVerack" using h(5) by (simp add: parse_message_def)
  show ?thesis unfolding r(1) using h(6) parse r(3,4) assms(4) by (simp add: on_message_def get_peer_def is_ready_def update_last_recv_def)
qed

text \<open>Reading a header is not safe against the timer. If the timer ticks after the first bytes of a header, between the fourth and the eleventh, have
  arrived, these bytes are lost; on the main network the next 24 bytes are then read from the middle of the header, and the connection is closed for its magic,
  although the peer has sent nothing but a well-formed frame.\<close>

theorem tick_breaks_framing:
  assumes "crypto_ok C" "fmlookup (cm_conns cm) i = Some c" "cn_header c = []" "cn_payload c = None" "cc_magic (cm_config cm) = MAGIC_MAINNET"
    "4 \<le> k" "k < 12" "k \<le> length payload" "command_ok cmd" "\<forall>b\<in>set (bytes_of_str cmd). b < 0x80" "now' - cn_last_recv c < secs TIMEOUT_INTERVAL"
  defines "fr \<equiv> frame C MAGIC_MAINNET (cmd, payload)"
  shows "fmlookup (cm_conns (conn_receive C now t i (take 24 (drop k fr)) (conn_tick now' nonce i (conn_receive C now t i (take k fr) cm)))) i = None \<and>
    cm_events (conn_receive C now t i (take 24 (drop k fr)) (conn_tick now' nonce i (conn_receive C now t i (take k fr) cm))) =
      cm_events cm @ [PeerDisconnected i ''bad magic'']"
proof -
  let ?h = "message_header_new C MAGIC_MAINNET cmd payload"
  let ?cm1 = "on_conn i (\<lambda>c. c\<lparr>cn_header := cn_header c @ take k fr\<rparr>) cm"
  have cmd: "length cmd \<le> 12" using assms(9) by (simp add: command_ok_def)
  have one: "conn_receive C now t i (take k fr) cm = ?cm1"
    using receive_header_part [OF assms(2,4), of "take k fr"] assms(3,7) by simp
  have w: "waiting i (conn_tick now' nonce i ?cm1)" "cm_events (conn_tick now' nonce i ?cm1) = cm_events cm" "cm_config (conn_tick now' nonce i ?cm1) = cm_config cm"
    using assms(2,4,11) by (auto simp: conn_tick_def Let_def waiting_def enqueue_def)
  let ?cm2 = "conn_tick now' nonce i ?cm1" and ?buf = "take 24 (drop k fr)"
  have mc: "mh_command ?h = bytes_of_str cmd @ replicate (12 - length cmd) 0" "length (mh_command ?h) = 12"
    using cmd by (simp_all add: message_header_new_def Let_def)
  have fr: "fr = MAGIC_MAINNET @ mh_command ?h @ to_le_bytes (mh_payload_size ?h) @ mh_checksum ?h @ payload"
    by (simp add: fr_def frame_def message_header_serialize_def message_header_new_def Let_def)
  have "length (hash256 C payload) = 32" using assms(1) by (simp add: crypto_ok_def)
  then have "length (mh_checksum ?h) = 4" by (simp add: message_header_new_def Let_def)
  then have L: "length fr = 24 + length payload" unfolding fr using mc(2) by (simp add: MAGIC_MAINNET_def)
  then have len: "length ?buf = 24" using L assms(7,8) by simp
  have "length MAGIC_MAINNET = 4" by (simp add: MAGIC_MAINNET_def)
  then have "fr ! k = mh_command ?h ! (k - 4)" unfolding fr using mc(2) assms(6,7) less_imp_diff_less [of k 12 4] by (simp add: nth_append)
  moreover have "mh_command ?h ! (k - 4) \<in> set (mh_command ?h)" using mc(2) assms(7) by (intro nth_mem) simp
  ultimately have "fr ! k < 0x80" unfolding mc(1) using assms(10) by (auto simp: set_replicate_conv_if split: if_splits)
  moreover have "slice 0 4 ?buf ! 0 = fr ! k" using L assms(7) by (simp add: slice_def)
  ultimately have bad: "mh_magic (message_header_deserialize ?buf) \<noteq> MAGIC_MAINNET"
    by (auto simp: message_header_deserialize_def MAGIC_MAINNET_def)
  have "conn_receive C now t i ?buf ?cm2 = on_header C now t i ?buf (on_conn i (\<lambda>c. c\<lparr>cn_header := [], cn_last_recv := now\<rparr>) ?cm2)"
    by (rule receive_header [OF w(1) len])
  then show ?thesis
    unfolding one using w bad assms(5) by (auto simp: on_header_def waiting_def close_eq)
qed


section \<open>Examples\<close>

definition example_addr :: socket_addr where "example_addr = \<lparr>sa_ip = V4 [10, 0, 0, 1], sa_port = 8333\<rparr>"

definition example_conns :: conn_manager where
  "example_conns = accept_inbound 0 0 example_addr (conn_manager_new conn_config_default 7)"

lemma example_conns_reachable: "reachable_conns C example_conns"
  unfolding example_conns_def by (intro reachable_conns.intros)

lemma example_conns_facts:
  "fmlookup (cm_conns example_conns) 1 = Some \<lparr>cn_inbound = True, cn_header = [], cn_payload = None, cn_last_recv = 0, cn_last_ping = 0, cn_out = []\<rparr>"
  "cc_magic (cm_config example_conns) = MAGIC_MAINNET" "cm_local_nonce example_conns = 7" "cm_events example_conns = [NewInbound 1 example_addr]"
  "\<exists>p. get_peer (cm_peers example_conns) 1 = Some p \<and> p_version p = 0" "waiting 1 example_conns"
proof -
  have z: "inbound_count (peer_manager_new a b) = 0" "pm_max_inbound (peer_manager_new a b) = a" "pm_next_id (peer_manager_new a b) = 1" for a b
    by (simp_all add: inbound_count_def count_peers_def peer_manager_new_def)
  show "fmlookup (cm_conns example_conns) 1 = Some \<lparr>cn_inbound = True, cn_header = [], cn_payload = None, cn_last_recv = 0, cn_last_ping = 0, cn_out = []\<rparr>"
    "cc_magic (cm_config example_conns) = MAGIC_MAINNET" "cm_local_nonce example_conns = 7" "cm_events example_conns = [NewInbound 1 example_addr]"
    "\<exists>p. get_peer (cm_peers example_conns) 1 = Some p \<and> p_version p = 0" "waiting 1 example_conns"
    by (simp_all add: example_conns_def accept_inbound_def conn_manager_new_def conn_config_default_def can_accept_inbound_def z
        add_peer_def Let_def start_connection_def get_peer_def peer_new_def waiting_def)
qed

theorem connections_consistent_witness: "cm_ok example_conns"
  using connections_consistent [OF example_conns_reachable [of pad_crypto]] .

lemma ping_ok: "command_ok ''ping''" "bytes_of_str ''ping'' = [0x70, 0x69, 0x6e, 0x67]"
proof -
  show b: "bytes_of_str ''ping'' = [0x70, 0x69, 0x6e, 0x67]" by (simp add: bytes_of_str_def)
  show "command_ok ''ping''" unfolding command_ok_def b by (simp add: valid_utf8.simps utf8_next_def byte_at_def)
qed

text \<open>A \<open>verack\<close> and a ping.\<close>

theorem messages_delivered_witness:
  "cm_events (conn_receive pad_crypto 1 0 1 (frame pad_crypto MAGIC_MAINNET (''verack'', []) @ frame pad_crypto MAGIC_MAINNET (''ping'', to_le_bytes (5 :: u64))) example_conns) =
     [NewInbound 1 example_addr, HandshakeComplete 1, MessageReceived 1 MsgVerack, MessageReceived 1 (MsgPing 5)]"
proof -
  have "\<forall>m\<in>set [MsgVerack, MsgPing 5]. deliverable example_conns m"
    using verack_ok ping_ok(1) by (simp add: deliverable_def acceptable_def)
  moreover have "length (cc_magic (cm_config example_conns)) = 4" by (simp add: example_conns_facts(2) MAGIC_MAINNET_def)
  ultimately show ?thesis
    using messages_delivered [OF pad_crypto_ok example_conns_facts(6), of "[MsgVerack, MsgPing 5]" 1 0]
    by (simp add: example_conns_facts events_of_def)
qed

theorem ready_without_version_witness:
  "\<exists>p. get_peer (cm_peers (conn_receive pad_crypto 1 0 1 (frame pad_crypto MAGIC_MAINNET (''verack'', [])) example_conns)) 1 = Some p \<and> is_ready p \<and> p_version p = 0"
proof -
  obtain p where p: "get_peer (cm_peers example_conns) 1 = Some p" "p_version p = 0" using example_conns_facts(5) by blast
  have "length (cc_magic (cm_config example_conns)) = 4" by (simp add: example_conns_facts(2) MAGIC_MAINNET_def)
  from ready_without_version [OF pad_crypto_ok example_conns_facts(6) this p(1), of 1 0] show ?thesis
    unfolding example_conns_facts(2) using p(2) by metis
qed

theorem tick_breaks_framing_witness:
  "fmlookup (cm_conns (conn_receive pad_crypto 1 0 1 (take 24 (drop 4 (frame pad_crypto MAGIC_MAINNET (''ping'', replicate 8 1))))
     (conn_tick 1 9 1 (conn_receive pad_crypto 1 0 1 (take 4 (frame pad_crypto MAGIC_MAINNET (''ping'', replicate 8 1))) example_conns)))) 1 = None"
  using tick_breaks_framing [OF pad_crypto_ok example_conns_facts(1) _ _ example_conns_facts(2), of 4 "replicate 8 1" "''ping''" 1 1 0 9]
    ping_ok by (simp add: secs_def TIMEOUT_INTERVAL_def)

end
