(* ===== verification/Spec2Isabelle.thy ===== *)
theory Spec2Isabelle
  imports Multisig ChainActivation Mempool Connection
begin

text \<open>
  A verification of Qubitcoin, a Bitcoin full node in Rust (\<open>src/crates\<close>): the script interpreter, the consensus rules, the set of
  unspent outputs and its storage, the chain state, the mempool, and the wire protocol with its connections.

  \<^bold>\<open>The program and how its parts interact.\<close>
  Bytes from a peer are framed and parsed (\<open>qubitcoin-net\<close>) and become headers, blocks and transactions
  (\<open>qubitcoin-consensus\<close> over \<open>qubitcoin-serialize\<close> and \<open>qubitcoin-primitives\<close>). The chain state manager of
  \<open>qubitcoin-node\<close> adds headers to the index of blocks (\<open>qubitcoin-common/chain.rs\<close>), checks blocks, connects them to the
  cache of unspent outputs (\<open>qubitcoin-common/coins.rs\<close>), whose changes are flushed to a key-value database
  (\<open>qubitcoin-storage\<close>), and activates the chain with the most work. The scripts of the inputs run in the interpreter of
  \<open>qubitcoin-script\<close> with a signature checker that computes signature hashes. The mempool holds the transactions outside blocks.

  \<^bold>\<open>The theories, from the ground up.\<close>
  \<^item> \<open>Prelude\<close>: machine integers, results with an error value, little-endian bytes, collections of lemmas.
  \<^item> \<open>Serialize\<close> (\<open>encode.rs\<close>, \<open>compact_size.rs\<close>, \<open>varint.rs\<close>, \<open>data_stream.rs\<close>): encoders and decoders. The locale \<open>codec\<close> states
    that decoding inverts encoding in front of any tail, \<open>strict_codec\<close> that nothing else is accepted; every format of the
    development interprets one of them.
  \<^item> \<open>ArithUint256\<close> (\<open>arith_uint256.rs\<close>): limb arithmetic, shifts, division and the compact form, against 256-bit words.
  \<^item> \<open>ScriptNum\<close>, \<open>Opcode\<close>, \<open>Script\<close> (\<open>script_num.rs\<close>, \<open>opcode.rs\<close>, \<open>script_error.rs\<close>, \<open>verify_flags.rs\<close>, \<open>script.rs\<close>): numbers on the stack,
    opcodes, errors and flags, the parser of scripts and the templates.
  \<^item> \<open>ScriptStack\<close>, \<open>Interpreter\<close>, \<open>ScriptVerify\<close> (\<open>interpreter.rs\<close>): the value stack and the encodings of signatures and keys; one handler per
    opcode and the loop over a machine state (stacks, conditions, counters); \<open>verify_script\<close> with P2SH, witness programs and taproot.
    The locale \<open>condition_tracker\<close> states what the stack of conditions promises, interpreted on the two counters of the source.
  \<^item> \<open>ScriptSafety\<close>, \<open>SoftFork\<close>, \<open>StandardSpends\<close>, \<open>Multisig\<close>, \<open>TaprootTree\<close>: limits and well-formedness of every script that succeeds, more
    flags never accept more, what the standard outputs ask of their inputs, the matching of several signatures, and the
    tree of taproot scripts with its control blocks.
  \<^item> \<open>Transaction\<close>, \<open>Merkle\<close>, \<open>Params\<close>, \<open>TxCheck\<close>, \<open>Pow\<close>, \<open>Block\<close>, \<open>Sighash\<close> (\<open>qubitcoin-consensus\<close>, \<open>pow.rs\<close>): transactions and their two
    formats, Merkle roots with the detection of mutations, parameters and amounts, the context-free checks, the adjustment
    of the difficulty, blocks, and the three signature hashes with what they commit to.
  \<^item> \<open>CoinCodec\<close>, \<open>Storage\<close>, \<open>CoinsCache\<close> (\<open>coins.rs\<close>, \<open>memory.rs\<close>, \<open>wrapper.rs\<close>): compressed coins, the sorted database with its
    obfuscation, and the cache with dirty and fresh entries. The locale \<open>coins_base\<close> states what a cache needs of the view below
    it, \<open>flushable_view\<close> adds the law of a batch write; both are interpreted on the database view. A run of the cache refines a
    stored and a current map from outpoints to coins.
  \<^item> \<open>ScriptCheck\<close>, \<open>Signet\<close> (\<open>script_check.rs\<close>, \<open>sign.rs\<close>, \<open>signet.rs\<close>): the checkers behind the interpreter and signed blocks of signet.
  \<^item> \<open>ChainIndex\<close>, \<open>VersionBits\<close>, \<open>BlockIndexDb\<close> (\<open>chain.rs\<close>, \<open>versionbits.rs\<close>, \<open>block_index_db.rs\<close>, \<open>tx_index_db.rs\<close>): the arena of block entries
    with parent and skip links, deployments, and the stored index.
  \<^item> \<open>BlockCheck\<close>, \<open>Connect\<close> (\<open>validation.rs\<close>, \<open>undo.rs\<close>): the checks of headers, blocks, inputs and lock times, and connecting and
    disconnecting a block. The locale \<open>unspent_base\<close> extends \<open>coins_base\<close> for the lemmas about whole blocks.
  \<^item> \<open>Chainstate\<close>, \<open>IndexLoad\<close>, \<open>ChainActivation\<close> (\<open>chainstate.rs\<close>): the manager as a record, its operations, the inductive set of
    its reachable states with restarts from the stored index, the invariant, and what a block does on and beside the tip.
  \<^item> \<open>Mempool\<close> (\<open>mempool.rs\<close>): the pool, ancestors and descendants, replacement, trimming and acceptance.
  \<^item> \<open>NetProtocol\<close>, \<open>NetWire\<close>, \<open>Connection\<close> (\<open>protocol.rs\<close>, \<open>connection.rs\<close>, \<open>peer.rs\<close>): messages and payloads, the absence of panics and the round
    trip of the parsers, and the connection manager with its tasks interleaved at the points where they wait.

  \<^bold>\<open>How state and operations correspond.\<close>
  A struct is a record with the fields of the source under a short prefix, an enum a datatype, a method a function that takes and
  returns the record. A \<open>Result\<close> is a sum with the error on the left; where the code may panic, the function returns an
  option and \<open>None\<close> is the panic. A handler is one definition with the early returns of the source as its branches; loops are
  recursive functions under the name of the function they are in.

  \<^bold>\<open>What the lemmas show.\<close>
  Of codecs: round trips and exactness. Of the interpreter: limits, well-formedness, monotonicity in the flags and the exact behaviour of
  standard spends. Of the rules: each check as an equivalence with the rule in words, no inflation and the limit of the supply, lock
  times from script to block, unique coinbases. Of state: the cache and its flush as maps, connecting and disconnecting as inverses, the
  invariants of the manager, of the mempool and of the connections over all reachable states, with termination of the loops that
  run until a condition holds. Statements that show a defect are proved as well: a rejected block or one beside the active chain changes
  the coins of the active chain, an overwritten coin comes back, a verack alone completes a handshake, a timer breaks the framing.

  \<^bold>\<open>Loops and fuel.\<close>
  No definition has fuel. Loops are structural or have a termination proof by a measure; the loops that end only on well-formed data
  (\<open>back_walk\<close>, \<open>since_walk\<close>, \<open>min_difficulty_walk\<close>, \<open>trim_to_size\<close>) are partial functions into an option. The walks are shown to return
  for every block of a well-formed index, and \<open>trim_to_size\<close> for every pool.

  \<^bold>\<open>Parameters.\<close>
  Code outside the repository is an argument: digests (\<open>crypto\<close>), signature verification of secp256k1 (\<open>secp_scheme\<close>,
  \<open>secp_strict_scheme\<close>), the decompression of a public key, the reader of block files, the clock, random nonces, and the order in which a
  hash map is traversed, over which the theorems quantify. Where digests must not collide, a hypothesis says so for a finite set of strings.

  \<^bold>\<open>Conventions.\<close>
  Words wrap around, as in release builds; \<open>debug_assert\<close>, logging and test code are left out. Heights are unbounded integers, which
  differs from \<open>i32\<close> only near \<open>2^31\<close>. Locks and atomics are taken as sequential; parallel script checks are run one after
  the other, so that of several failing inputs the model reports the first one, where the code may report any.

  \<^bold>\<open>What is not modelled.\<close>
  The scheduler of the block download (\<open>net_processing.rs\<close>), addresses, bans and rate limits, which need the runtime, the clock or
  floating-point numbers; RPC, wallet, indexers, browser bindings and command line tools, which only use the modelled parts; files and
  RocksDB, which are I/O; and the warnings about unknown deployments. The records that \<open>load_block_index\<close> is given are taken to be those
  of an index that was written as a whole.
\<close>

end
